(* ===== verification/Prelude.thy ===== *)
theory Prelude
  imports Main "HOL-Library.Monad_Syntax" "HOL-Library.Word"
begin

text \<open>
  Shared material of the development: the collections of facts its proofs pass to the
  simplifier, C integer helpers, and generic lemmas on lists, options and maps that several
  components use.

  \<^item> \<open>acc_simps\<close>: what the accessors of a component return after one of its updates;
  \<^item> \<open>frame_simps\<close>: what an operation leaves unchanged;
  \<^item> \<open>inv_intros\<close>: the operations keep the invariant of their component.
\<close>

named_theorems acc_simps "reading after an update"
named_theorems frame_simps "state an operation does not touch"
named_theorems inv_intros "operations keep the invariant"

section \<open>C integers\<close>

text \<open>C's division truncates towards zero.\<close>

definition c_div :: "int \<Rightarrow> int \<Rightarrow> int" where
  "c_div a b = sgn a * sgn b * (\<bar>a\<bar> div \<bar>b\<bar>)"

lemma c_div_nonneg: "0 \<le> a \<Longrightarrow> 0 < b \<Longrightarrow> c_div a b = a div b"
  by (cases "a = 0") (auto simp: c_div_def)

lemma c_div_bounds:
  assumes "0 \<le> a" and "0 < b" shows "0 \<le> c_div a b" and "c_div a b \<le> a"
proof -
  show "0 \<le> c_div a b"
    using assms by (simp add: c_div_nonneg pos_imp_zdiv_nonneg_iff)
  have "a div b \<le> a div 1"
    using assms by (intro zdiv_mono2) auto
  then show "c_div a b \<le> a"
    using assms by (simp add: c_div_nonneg)
qed

section \<open>Lists\<close>

lemma split_at_member: "x \<in> set xs \<Longrightarrow> \<exists>ys zs. xs = ys @ x # zs \<and> x \<notin> set ys"
  by (rule split_list_first)

lemma remove1_split: "x \<notin> set ys \<Longrightarrow> remove1 x (ys @ x # zs) = ys @ zs"
  by (simp add: remove1_append)

lemma last_append_nonempty: "ys \<noteq> [] \<Longrightarrow> last (xs @ ys) = last ys"
  by simp

lemma filter_remove1_length:
  "x \<in> set xs \<Longrightarrow> length (remove1 x xs) < length xs"
  by (metis diff_less length_pos_if_in_set length_remove1 zero_less_one)

lemma sorted_wrt_insert_at:
  assumes "sorted_wrt R (xs @ ys)" and "\<forall>x \<in> set xs. R x a" and "\<forall>y \<in> set ys. R a y"
  shows "sorted_wrt R (xs @ a # ys)"
  using assms by (auto simp: sorted_wrt_append)

lemma sorted_wrt_remove1: "sorted_wrt R xs \<Longrightarrow> sorted_wrt R (remove1 x xs)"
  by (induction xs) (auto dest: notin_set_remove1)

section \<open>Maps\<close>

lemma map_upd_dom_same: "k \<in> dom m \<Longrightarrow> dom (m(k \<mapsto> v)) = dom m"
  by auto

lemma map_option_upd_dom: "dom (m(k := map_option f (m k))) = dom m"
  by (auto simp: dom_def)

section \<open>Loops over a list with state\<close>

text \<open>\<open>foldM f xs s\<close>: run \<open>f\<close> on each element in turn; \<open>None\<close> when one of the runs is.\<close>

primrec foldM :: "('a \<Rightarrow> 's \<Rightarrow> 's option) \<Rightarrow> 'a list \<Rightarrow> 's \<Rightarrow> 's option" where
  "foldM f [] s = Some s"
| "foldM f (x # xs) s = Option.bind (f x s) (foldM f xs)"

lemma foldM_append: "foldM f (xs @ ys) s = Option.bind (foldM f xs s) (foldM f ys)"
  by (induction xs arbitrary: s) (auto split: bind_split)

lemma foldM_cong [fundef_cong]:
  "xs = ys \<Longrightarrow> s = t \<Longrightarrow> (\<And>x u. x \<in> set ys \<Longrightarrow> f x u = g x u) \<Longrightarrow> foldM f xs s = foldM g ys t"
proof (induction ys arbitrary: xs s t)
  case (Cons y ys)
  then have "foldM f ys u = foldM g ys u" for u by (metis list.set_intros(2))
  then have "foldM f ys = foldM g ys" by (rule ext)
  with Cons.prems show ?case by simp
qed simp

text \<open>An invariant of every round is an invariant of the loop.\<close>

lemma foldM_inv:
  assumes "foldM f xs s = Some t" and "P s"
    and "\<And>x s t. x \<in> set xs \<Longrightarrow> P s \<Longrightarrow> f x s = Some t \<Longrightarrow> P t"
  shows "P t"
  using assms
proof (induction xs arbitrary: s)
  case (Cons x xs)
  then obtain u where u: "f x s = Some u" "foldM f xs u = Some t" by (auto split: bind_splits)
  have "P u" using Cons.prems u by auto
  then show ?case using Cons.IH [OF u(2)] Cons.prems(3) by auto
qed simp

text \<open>A loop whose rounds all return under an invariant they keep returns.\<close>

lemma foldM_total:
  assumes "P s" and "\<And>x s. x \<in> set xs \<Longrightarrow> P s \<Longrightarrow> \<exists>t. f x s = Some t \<and> P t"
  shows "\<exists>t. foldM f xs s = Some t \<and> P t"
  using assms
proof (induction xs arbitrary: s)
  case (Cons x xs)
  then obtain t where "f x s = Some t" "P t" by (meson list.set_intros(1))
  with Cons show ?case by auto
qed simp

text \<open>Functions with more fuel agree, and so do loops over them.\<close>

lemma foldM_mono:
  assumes "\<And>x s t. x \<in> set xs \<Longrightarrow> f x s = Some t \<Longrightarrow> g x s = Some t" and "foldM f xs s = Some t"
  shows "foldM g xs s = Some t"
  using assms by (induction xs arbitrary: s) (auto split: bind_splits)

text \<open>Recursion may go through the rounds of such a loop.\<close>

lemma foldM_mono_option [partial_function_mono]:
  assumes "\<And>x s. mono_option (\<lambda>f. F f x s)"
  shows "mono_option (\<lambda>f. foldM (F f) xs s)"
proof (induction xs arbitrary: s)
  case Nil
  then show ?case by (simp add: monotone_def option.leq_refl)
next
  case (Cons x xs)
  have "mono_option (\<lambda>f. Option.bind (F f x s) (\<lambda>u. foldM (F f) xs u))"
    by (rule bind_mono [OF assms Cons.IH])
  then show ?case by simp
qed

end
