(* ===== verification/Jsmn.thy ===== *)
theory Jsmn
  imports Prelude
begin

text \<open>
  The tokeniser of the server (\<^verbatim>\<open>src/server/src/jsmn/jsmn.c\<close>, built without \<open>JSMN_STRICT\<close> and
  \<open>JSMN_PARENT_LINKS\<close>). It writes the positions of objects, arrays, strings and primitives into an array that the
  caller provides. The text is a list of characters without its terminating zero; a position in it is followed by
  the rest of the text from there on.
\<close>

datatype jsmntype = JSMN_PRIMITIVE | JSMN_OBJECT | JSMN_ARRAY | JSMN_STRING

datatype jsmnerr = JSMN_ERROR_NOMEM | JSMN_ERROR_INVAL | JSMN_ERROR_PART | JSMN_SUCCESS

record jsmntok =
  tk_type :: jsmntype
  tk_start :: int
  tk_end :: int
  tk_size :: int

text \<open>\<open>toknext\<close> tokens of the array are in use; \<open>toksuper\<close> is the innermost one that is open.\<close>

record jsmn_parser =
  toknext :: nat
  toksuper :: "nat option"
  tokens :: "jsmntok list"

text \<open>A token of an array from \<open>calloc\<close>.\<close>

definition zero_token :: jsmntok where
  "zero_token = \<lparr>tk_type = JSMN_PRIMITIVE, tk_start = 0, tk_end = 0, tk_size = 0\<rparr>"

definition jsmn_init :: "nat \<Rightarrow> jsmn_parser" where
  "jsmn_init n = \<lparr>toknext = 0, toksuper = None, tokens = replicate n zero_token\<rparr>"

definition is_open :: "jsmntok \<Rightarrow> bool" where
  "is_open t \<longleftrightarrow> tk_start t \<noteq> -1 \<and> tk_end t = -1"

section \<open>Tokens\<close>

text \<open>\<open>jsmn_alloc_token\<close> and \<open>jsmn_fill_token\<close>: the next of at most \<open>n\<close> tokens.\<close>

definition add_token :: "nat \<Rightarrow> jsmntok \<Rightarrow> jsmn_parser \<Rightarrow> jsmn_parser option" where
  "add_token n t p =
     (if toknext p \<ge> n then None
      else Some (p\<lparr>toknext := Suc (toknext p), tokens := (tokens p)[toknext p := t]\<rparr>))"

definition jsmn_token :: "jsmntype \<Rightarrow> nat \<Rightarrow> int \<Rightarrow> jsmntok" where
  "jsmn_token ty start e = \<lparr>tk_type = ty, tk_start = int start, tk_end = e, tk_size = 0\<rparr>"

text \<open>\<open>if (parser->toksuper != -1) tokens[parser->toksuper].size++\<close>\<close>

definition grow_super :: "jsmn_parser \<Rightarrow> jsmn_parser" where
  "grow_super p =
     (case toksuper p of
        None \<Rightarrow> p
      | Some k \<Rightarrow> p\<lparr>tokens := (tokens p)[k := (tokens p ! k)\<lparr>tk_size := tk_size (tokens p ! k) + 1\<rparr>]\<rparr>)"

section \<open>Primitives and strings\<close>

definition primitive_stop :: "char \<Rightarrow> bool" where
  "primitive_stop c \<longleftrightarrow> c \<in> {CHR '':'', CHR 0x09, CHR 0x0D, CHR 0x0A, CHR '' '', CHR '','', CHR '']'', CHR ''}''}"

definition primitive_char :: "char \<Rightarrow> bool" where
  "primitive_char c \<longleftrightarrow> 32 \<le> (of_char c :: nat) \<and> (of_char c :: nat) < 127"

text \<open>The number of characters of the primitive that begins the text.\<close>

fun scan_primitive :: "string \<Rightarrow> nat option" where
  "scan_primitive [] = Some 0"
| "scan_primitive (c # cs) =
     (if primitive_stop c then Some 0 else if \<not> primitive_char c then None else map_option Suc (scan_primitive cs))"

definition escaped :: "char \<Rightarrow> bool" where
  "escaped c \<longleftrightarrow> c \<in> {CHR 0x22, CHR ''/'', CHR 0x5C, CHR ''b'', CHR ''f'', CHR ''r'', CHR ''n'', CHR ''t'', CHR ''u''}"

text \<open>The number of characters up to the quote that ends a string.\<close>

fun scan_string :: "string \<Rightarrow> jsmnerr + nat" where
  "scan_string [] = Inl JSMN_ERROR_PART"
| "scan_string [c] =
     (if c = CHR 0x22 then Inr 0 else if c = CHR 0x5C then Inl JSMN_ERROR_INVAL else Inl JSMN_ERROR_PART)"
| "scan_string (c # d # cs) =
     (if c = CHR 0x22 then Inr 0
      else if c = CHR 0x5C
      then (if escaped d then map_sum id (\<lambda>k. k + 2) (scan_string cs) else Inl JSMN_ERROR_INVAL)
      else map_sum id Suc (scan_string (d # cs)))"

definition jsmn_parse_primitive :: "nat \<Rightarrow> nat \<Rightarrow> string \<Rightarrow> jsmn_parser \<Rightarrow> jsmnerr + nat \<times> jsmn_parser" where
  "jsmn_parse_primitive n pos text p =
     (case scan_primitive text of
        None \<Rightarrow> Inl JSMN_ERROR_INVAL
      | Some k \<Rightarrow>
          (case add_token n (jsmn_token JSMN_PRIMITIVE pos (int (pos + k))) p of
             None \<Rightarrow> Inl JSMN_ERROR_NOMEM | Some p \<Rightarrow> Inr (k, p)))"

text \<open>\<open>text\<close> begins behind the first quote, which is at \<open>pos\<close>.\<close>

definition jsmn_parse_string :: "nat \<Rightarrow> nat \<Rightarrow> string \<Rightarrow> jsmn_parser \<Rightarrow> jsmnerr + nat \<times> jsmn_parser" where
  "jsmn_parse_string n pos text p =
     (case scan_string text of
        Inl e \<Rightarrow> Inl e
      | Inr k \<Rightarrow>
          (case add_token n (jsmn_token JSMN_STRING (Suc pos) (int (Suc pos + k))) p of
             None \<Rightarrow> Inl JSMN_ERROR_NOMEM | Some p \<Rightarrow> Inr (Suc k, p)))"

section \<open>Brackets\<close>

text \<open>The last open token below \<open>i\<close>: both loops of a closing bracket.\<close>

fun last_open :: "jsmntok list \<Rightarrow> nat \<Rightarrow> nat option" where
  "last_open ts 0 = None"
| "last_open ts (Suc i) = (if is_open (ts ! i) then Some i else last_open ts i)"

definition open_bracket :: "nat \<Rightarrow> jsmntype \<Rightarrow> nat \<Rightarrow> jsmn_parser \<Rightarrow> jsmnerr + jsmn_parser" where
  "open_bracket n ty pos p =
     (case add_token n (jsmn_token ty pos (-1)) p of
        None \<Rightarrow> Inl JSMN_ERROR_NOMEM
      | Some q \<Rightarrow> Inr ((grow_super q)\<lparr>toksuper := Some (toknext p)\<rparr>))"

definition close_bracket :: "jsmntype \<Rightarrow> nat \<Rightarrow> jsmn_parser \<Rightarrow> jsmnerr + jsmn_parser" where
  "close_bracket ty pos p =
     (case last_open (tokens p) (toknext p) of
        None \<Rightarrow> Inl JSMN_ERROR_INVAL
      | Some i \<Rightarrow>
          if tk_type (tokens p ! i) \<noteq> ty then Inl JSMN_ERROR_INVAL
          else
            let ts = (tokens p)[i := (tokens p ! i)\<lparr>tk_end := int (Suc pos)\<rparr>]
            in Inr (p\<lparr>tokens := ts, toksuper := last_open ts i\<rparr>))"

section \<open>The tokeniser\<close>

definition blank :: "char \<Rightarrow> bool" where
  "blank c \<longleftrightarrow> c \<in> {CHR 0x09, CHR 0x0D, CHR 0x0A, CHR '':'', CHR '','', CHR '' ''}"

text \<open>The loop over the text. The error of an unfinished object or array is found at the end.\<close>

function jsmn_loop :: "nat \<Rightarrow> nat \<Rightarrow> string \<Rightarrow> jsmn_parser \<Rightarrow> jsmnerr \<times> jsmn_parser" where
  "jsmn_loop n pos [] p = (if last_open (tokens p) (toknext p) \<noteq> None then JSMN_ERROR_PART else JSMN_SUCCESS, p)"
| "jsmn_loop n pos (c # cs) p =
     (if c = CHR ''{'' \<or> c = CHR ''['' then
        (case open_bracket n (if c = CHR ''{'' then JSMN_OBJECT else JSMN_ARRAY) pos p of
           Inl e \<Rightarrow> (e, p) | Inr p \<Rightarrow> jsmn_loop n (Suc pos) cs p)
      else if c = CHR ''}'' \<or> c = CHR '']'' then
        (case close_bracket (if c = CHR ''}'' then JSMN_OBJECT else JSMN_ARRAY) pos p of
           Inl e \<Rightarrow> (e, p) | Inr p \<Rightarrow> jsmn_loop n (Suc pos) cs p)
      else if c = CHR 0x22 then
        (case jsmn_parse_string n pos cs p of
           Inl e \<Rightarrow> (e, p) | Inr (k, p) \<Rightarrow> jsmn_loop n (Suc pos + k) (drop k cs) (grow_super p))
      else if blank c then jsmn_loop n (Suc pos) cs p
      else
        (case jsmn_parse_primitive n pos (c # cs) p of
           Inl e \<Rightarrow> (e, p)
         | Inr (k, p) \<Rightarrow> jsmn_loop n (pos + k) (drop k (c # cs)) (grow_super p)))"
  by pat_completeness auto

lemma primitive_progress:
  assumes "jsmn_parse_primitive n pos (c # cs) p = Inr (k, q)" and "c \<noteq> CHR ''}''" "c \<noteq> CHR '']''" "\<not> blank c"
  shows "0 < k"
  using assms by (auto simp: jsmn_parse_primitive_def primitive_stop_def blank_def split: option.splits if_splits)

termination jsmn_loop
proof (relation "measure (\<lambda>(n, pos, text, p). length text)", goal_cases)
  case (6 n pos c cs p x k q)
  then show ?case using primitive_progress [of n pos c cs p k q] by auto
qed auto

definition jsmn_parse :: "string \<Rightarrow> nat \<Rightarrow> jsmn_parser \<Rightarrow> jsmnerr \<times> jsmn_parser" where
  "jsmn_parse text n p = jsmn_loop n 0 text p"

end
