(* ===== verification/XosTime.thy ===== *)
theory XosTime
  imports Prelude
begin

text \<open>
  Times of \<^verbatim>\<open>src/src/myrefl_xos.h\<close> and \<^verbatim>\<open>src/src/myrefl_xos.c\<close>: seconds and a nanosecond
  residual, both \<open>unsigned long\<close> (64 bits). \<open>XOS_TIME_LT\<close> is the order of the type, so the
  scheduler's queues can use the library's orders. The copying of strings is here too.
\<close>

datatype xos_time = XosTime (sec: "64 word") (nsec: "64 word")

instantiation xos_time :: linorder
begin

definition less_xos_time :: "xos_time \<Rightarrow> xos_time \<Rightarrow> bool" where
  "t1 < t2 \<longleftrightarrow> sec t1 < sec t2 \<or> sec t1 = sec t2 \<and> nsec t1 < nsec t2"

definition less_eq_xos_time :: "xos_time \<Rightarrow> xos_time \<Rightarrow> bool" where
  "t1 \<le> t2 \<longleftrightarrow> sec t1 < sec t2 \<or> sec t1 = sec t2 \<and> nsec t1 \<le> nsec t2"

instance
  by intro_classes (auto simp: less_xos_time_def less_eq_xos_time_def intro: xos_time.expand)

end

definition XOS_TIME_LT :: "xos_time \<Rightarrow> xos_time \<Rightarrow> bool" where
  "XOS_TIME_LT t1 t2 \<longleftrightarrow> sec t1 < sec t2 \<or> (sec t1 = sec t2 \<and> nsec t1 < nsec t2)"

lemma XOS_TIME_LT_less [simp]: "XOS_TIME_LT t1 t2 \<longleftrightarrow> t1 < t2"
  by (simp add: XOS_TIME_LT_def less_xos_time_def)

definition myrefl_xos_time_diff :: "xos_time \<Rightarrow> xos_time \<Rightarrow> xos_time" where
  "myrefl_xos_time_diff start stop =
     (if nsec start \<le> nsec stop then XosTime (sec stop - sec start) (nsec stop - nsec start)
      else XosTime (sec stop - sec start - 1) (1000000000 + nsec stop - nsec start))"

section \<open>Times as numbers of nanoseconds\<close>

definition normalized :: "xos_time \<Rightarrow> bool" where
  "normalized t \<longleftrightarrow> nsec t < 1000000000"

definition nanos :: "xos_time \<Rightarrow> nat" where
  "nanos t = unat (sec t) * 1000000000 + unat (nsec t)"

lemma normalized_unat: "normalized t \<longleftrightarrow> unat (nsec t) < 1000000000"
  by (simp add: normalized_def word_less_nat_alt)

lemma lex_less_iff:
  fixes a b c d K :: nat
  assumes "c < K" and "d < K"
  shows "a * K + c < b * K + d \<longleftrightarrow> a < b \<or> a = b \<and> c < d"
proof -
  consider "a < b" | "a = b" | "b < a" by linarith
  then show ?thesis
  proof cases
    case 1
    then have "Suc a * K \<le> b * K" by (intro mult_le_mono1) simp
    then show ?thesis using 1 assms by simp
  next
    case 3
    then have "Suc b * K \<le> a * K" by (intro mult_le_mono1) simp
    then show ?thesis using 3 assms by simp
  qed auto
qed

lemma less_nanos: "normalized t1 \<Longrightarrow> normalized t2 \<Longrightarrow> t1 < t2 \<longleftrightarrow> nanos t1 < nanos t2"
  by (simp add: normalized_unat nanos_def less_xos_time_def lex_less_iff word_less_nat_alt
      word_unat_eq_iff)

text \<open>
  For normalised times in order the difference is exact: it is normalised and adding it to the
  start gives the end.
\<close>

lemma time_diff_exact:
  assumes n: "normalized s" "normalized e" and le: "s \<le> e"
  shows "normalized (myrefl_xos_time_diff s e) \<and> nanos s + nanos (myrefl_xos_time_diff s e) = nanos e"
proof (cases "nsec s \<le> nsec e")
  case True
  then have "sec s \<le> sec e" using le by (auto simp: less_eq_xos_time_def)
  with True n show ?thesis
    by (auto simp: myrefl_xos_time_diff_def normalized_unat nanos_def unat_sub
        word_le_nat_alt diff_mult_distrib)
next
  case False
  then have lt: "sec s < sec e" using le by (auto simp: less_eq_xos_time_def)
  have 1: "unat (sec e - sec s - 1) = unat (sec e) - unat (sec s) - 1"
    using lt by (simp add: unat_sub word_less_nat_alt word_le_nat_alt unat_minus_one
        unat_gt_0 less_le_trans)
  have bound: "unat (nsec e) < 1000000000" using n by (simp add: normalized_unat)
  have 2: "unat (1000000000 + nsec e) = 1000000000 + unat (nsec e)"
    using bound by (subst unat_add_lem [THEN iffD1]) auto
  have 3: "unat (1000000000 + nsec e - nsec s) = 1000000000 + unat (nsec e) - unat (nsec s)"
    using n 2 by (subst unat_sub) (auto simp: word_le_nat_alt normalized_unat)
  have "Suc (unat (sec s)) \<le> unat (sec e)" using lt by (simp add: word_less_nat_alt)
  then obtain k where k: "unat (sec e) = Suc (unat (sec s)) + k" using le_Suc_ex by blast
  have "unat (nsec e) < unat (nsec s)" using False by (simp add: word_le_nat_alt)
  then show ?thesis
    using n False 1 3 k by (simp add: myrefl_xos_time_diff_def normalized_unat nanos_def)
qed

section \<open>Copying a string\<close>

text \<open>
  \<open>sstrncpy\<close> (\<open>myrefl_xos_sstrncpy\<close> on Linux, and again in the server): the first loop copies while the source goes on and
  \<open>size-- > 0\<close>, the second writes a zero while \<open>size-- > 0\<close>. A source that is too long ends the first loop at the size 0, which
  has become the largest word then. The copy is good if both loops stay in the buffer of \<open>n\<close> characters, \<open>0 < n\<close>;
  \<open>None\<close> is a run that writes behind it.
\<close>

fun copy_loop :: "string \<Rightarrow> 64 word \<Rightarrow> string \<times> 64 word" where
  "copy_loop [] room = ([], room)"
| "copy_loop (c # cs) room =
     (if room > 0 then (let (s, room) = copy_loop cs (room - 1) in (c # s, room)) else ([], room - 1))"

definition sstrncpy :: "string \<Rightarrow> nat \<Rightarrow> string option" where
  "sstrncpy src n =
     (let (s, room) = copy_loop src (of_nat n - 1)
      in if length s < n \<and> length s + unat room \<le> n then Some s else None)"

lemma copy_loop_short: "length src \<le> unat room \<Longrightarrow> copy_loop src room = (src, room - of_nat (length src))"
proof (induction src arbitrary: room)
  case (Cons c cs)
  then have "0 < unat room" by simp
  then have p: "0 < room" "room \<noteq> 0" by (auto simp: word_less_nat_alt)
  then have "unat (room - 1) = unat room - 1" by (simp add: unat_minus_one)
  then have "length cs \<le> unat (room - 1)" using Cons.prems by simp
  then show ?case using Cons.IH [of "room - 1"] p by (simp add: algebra_simps)
qed simp

lemma copy_loop_long: "unat room < length src \<Longrightarrow> copy_loop src room = (take (unat room) src, - 1)"
proof (induction src arbitrary: room)
  case (Cons c cs)
  show ?case
  proof (cases "room = 0")
    case False
    then have p: "0 < room" by (simp add: word_neq_0_conv)
    then have u: "unat (room - 1) = unat room - 1" "0 < unat room" using False by (simp_all add: unat_minus_one unat_gt_0)
    then have "take (unat room) (c # cs) = c # take (unat (room - 1)) cs" by (cases "unat room") simp_all
    moreover have "unat (room - 1) < length cs" using Cons.prems u by simp
    ultimately show ?thesis using Cons.IH [of "room - 1"] p by simp
  qed simp
qed simp

lemma sstrncpy_fits:
  assumes "0 < n" and "n < 2 ^ 64"
  shows "sstrncpy src n = (if length src < n then Some src else None)"
proof -
  have n: "unat (of_nat n :: 64 word) = n" using assms(2) by (simp add: unat_of_nat)
  then have "(of_nat n :: 64 word) \<noteq> 0" using assms(1) by (metis unat_0 less_irrefl)
  then have u: "unat (of_nat n - 1 :: 64 word) = n - 1" using n by (simp add: unat_minus_one)
  show ?thesis
  proof (cases "length src < n")
    case True
    then have l: "length src \<le> n - 1" by simp
    then have "unat (of_nat n - 1 - of_nat (length src) :: 64 word) = n - 1 - length src"
      using u assms(2) by (subst unat_sub) (simp_all add: word_le_nat_alt unat_of_nat)
    then show ?thesis using True l u by (simp add: sstrncpy_def copy_loop_short)
  next
    case False
    have m: "unat (- 1 :: 64 word) = 2 ^ 64 - 1" by (simp add: unsigned_minus_1_eq_mask mask_eq_exp_minus_1)
    show ?thesis using False u assms by (simp add: sstrncpy_def copy_loop_long m)
  qed
qed

end
