(* ===== verification/ObjTypes.thy ===== *)
theory ObjTypes
  imports XosTime
begin

text \<open>
  The data of the object database: the enumerations of \<^verbatim>\<open>include/myrefl_client.h\<close>, the structs
  of \<^verbatim>\<open>src/src/myrefl_obj.h\<close> and \<^verbatim>\<open>src/src/myrefl_sched.h\<close>, and one record \<open>db\<close> for the state of
  the library.

  An \<open>obj_t *\<close> is an \<open>oid\<close>, \<open>NULL\<close> is \<open>None\<close>. The type specific block of an object and the
  object are allocated and freed together, so an \<open>obj_rule_t *\<close> (or test, action, component)
  is the \<open>oid\<close> of its object as well. An \<open>obj_instance_t *\<close> names the object and an index:
  index 0 is the instance embedded in the object (\<open>&obj->i\<close>), the others are its member
  instances in the order of the \<open>next\<close> pointers (\<open>obj_members\<close>). A \<open>sched_test_t *\<close> is named
  by its instance.

  The \<open>next_in_comp\<close> chains of a component are lists, head first. The \<open>next_in_input\<close> pointers
  of the rules stay pointers, since a rule with two inputs is on two chains and has one
  pointer. A \<open>myrefl_list_t *\<close> is a HOL list, with the operations of theory \<open>ListStore\<close>.
  C's \<open>unsigned int\<close> counters are 32 bit words, \<open>long\<close> values, health and severities \<open>int\<close>.
  The health figures of a component, which change at run time, are kept apart from its links.
\<close>

section \<open>Enumerations\<close>

datatype result = RESULT_INVALID | RESULT_PASS | RESULT_FAIL | RESULT_VALUE
  | RESULT_IN_PROGRESS | RESULT_ABORT | RESULT_IGNORE | RESULT_LAST

datatype obj_type = TYPE_ANY | TYPE_NONE | TYPE_TEST | TYPE_RULE | TYPE_ACTION | TYPE_COMP

datatype obj_rel = REL_NONE | REL_TEST | REL_RULE | REL_ACTION | REL_COMP
  | REL_NEXT_IN_SYS | REL_NEXT_IN_COMP | REL_NEXT_IN_TEST | REL_PARENT_COMP | REL_CHILD_COMP

datatype obj_state = STATE_ALLOCATED | STATE_INITIALIZED | STATE_CREATED | STATE_ENABLED
  | STATE_DISABLED | STATE_DELETED | STATE_INVALID

datatype root_cause = RC_NOT | RC_CANDIDATE | RC

datatype operator = RULE_INVALID | RULE_ON_FAIL | RULE_DISABLE | RULE_EQUAL_TO_N
  | RULE_NOT_EQUAL_TO_N | RULE_LESS_THAN_N | RULE_GREATER_THAN_N | RULE_N_EVER | RULE_N_IN_ROW
  | RULE_N_IN_M | RULE_RANGE_N_TO_M | RULE_N_IN_TIME_M | RULE_FAIL_FOR_TIME_N | RULE_OR
  | RULE_AND | RULE_LAST

datatype test_type = POLLED | NOTIFICATION | ERRMSG

datatype test_queue = QUEUE_IMMEDIATE | QUEUE_FAST | QUEUE_NORMAL | QUEUE_SLOW | QUEUE_USER
  | QUEUE_NONE

text \<open>The queues in the order of \<open>test_queues[]\<close>.\<close>

definition all_queues :: "test_queue list" where
  "all_queues = [QUEUE_IMMEDIATE, QUEUE_FAST, QUEUE_NORMAL, QUEUE_SLOW, QUEUE_USER]"

section \<open>Structs\<close>

type_synonym oid = nat
datatype iref = IRef (obj_of: oid) (index_of: nat)
type_synonym name = string

record obj_history =
  h_time :: xos_time
  h_result :: result
  h_count :: "32 word"
  h_value :: int

definition OBJ_HISTORY_SIZE :: nat where "OBJ_HISTORY_SIZE = 5"

record obj_stats =
  runs :: "32 word"
  passes :: "32 word"
  failures :: "32 word"
  aborts :: "32 word"
  history :: "obj_history list"
  history_head :: "32 word"

record rule_data =
  rd_history :: "8 word list option"
  rd_history_size :: int
  rd_position :: int

record sched_test =
  queued :: test_queue
  last_time :: xos_time
  next_time :: xos_time

record obj_instance =
  i_name :: name
  i_context :: nat
  i_state :: obj_state
  i_default_state :: obj_state
  i_cli_state :: obj_state
  i_flags :: "32 word"
  i_stats :: obj_stats
  i_last_result :: result
  i_last_value :: int
  i_last_result_count :: "32 word"
  i_fail_count :: "32 word"
  i_rule_data :: "rule_data option"
  i_sched :: sched_test
  i_root_cause :: root_cause
  i_action_run :: bool
  i_in_use :: "32 word"

record obj_test =
  t_type :: test_type
  t_rule :: "oid option"
  t_function :: "nat option"
  t_period :: "64 word"
  t_default_period :: "64 word"
  t_autopass :: int

record obj_action =
  a_function :: "nat option"
  a_rule_list :: "oid list"

record obj_rule =
  r_operator :: operator
  r_default_operator :: operator
  r_op_n :: int
  r_op_m :: int
  r_default_op_n :: int
  r_default_op_m :: int
  r_inputs :: "oid list"
  r_action_list :: "oid list"
  r_output :: "oid option"
  r_next_in_input :: "oid option"
  r_severity :: int

record obj_comp =
  c_nones :: "oid list"
  c_tests :: "oid list"
  c_actions :: "oid list"
  c_rules :: "oid list"
  c_comps :: "oid list"
  c_top_depend :: "oid list"
  c_bottom_depend :: "oid list"
  c_interested :: "oid list"

record comp_health =
  catastrophic :: "32 word"
  critical :: "32 word"
  high :: "32 word"
  medium :: "32 word"
  low :: "32 word"
  positive :: "32 word"
  health :: int
  confidence :: int

datatype obj_data = DNone | DTest obj_test | DRule obj_rule | DAction obj_action | DComp obj_comp

record obj =
  o_data :: obj_data
  o_description :: "string option"
  o_remote_location :: bool
  o_parent_comp :: "oid option"
  o_parent_depend :: "oid list"
  o_child_depend :: "oid list"
  o_ref_rule :: "oid option"
  o_domain :: nat
  o_members :: "nat list"

definition AUTOPASS_UNSET :: int where "AUTOPASS_UNSET = -1"

definition OBJ_FLAG_BUILT_IN :: "32 word" where "OBJ_FLAG_BUILT_IN = 0x00010000"
definition OBJ_FLAG_SILENT :: "32 word" where "OBJ_FLAG_SILENT = 0x00040000"
definition OBJ_FLAG_NOTIFY :: "32 word" where "OBJ_FLAG_NOTIFY = 0x00060000"
definition OBJ_FLAG_RESERVED :: "32 word" where "OBJ_FLAG_RESERVED = 0xFFFF0000"
definition MYREFL_TEST_FLAG_ALL :: "32 word" where "MYREFL_TEST_FLAG_ALL = 0x0007"

definition MYREFL_PERIOD_FAST :: "64 word" where "MYREFL_PERIOD_FAST = 5000"
definition MYREFL_PERIOD_NORMAL :: "64 word" where "MYREFL_PERIOD_NORMAL = 300000"
definition MYREFL_PERIOD_SLOW :: "64 word" where "MYREFL_PERIOD_SLOW = 1800000"

section \<open>The state\<close>

text \<open>What the sequencer needs to run within a thread.\<close>

datatype seq_event = SEQ_TEST_RUN | SEQ_TEST_RESULT | SEQ_TEST_RESULT_RCI
  | SEQ_RULE_PROCESS_INPUT | SEQ_RULE_RUN | SEQ_RULE_RUN_RCI | SEQ_RULE_RESULT | SEQ_RCI_RUN
  | SEQ_RULE_ROOT_CAUSE | SEQ_ACTION_RUN | SEQ_ACTION_RESULT

record seq_context =
  sc_instance :: iref
  sc_event :: seq_event
  sc_result :: result
  sc_value :: int

text \<open>What the library tells the operating system layer, in order.\<close>

datatype out =
    Timer_start "64 word" "64 word option"
  | Sched_release
  | Notify_test name "name option" result int
  | Notify_rule name "name option" result int
  | Notify_action name "name option" result int
  | Notify_health name int
  | Recovery_in_progress iref iref

record loop_domain =
  d_number :: nat
  d_reachable :: "nat list"

record db =
  objs :: "oid \<Rightarrow> obj"
  insts :: "iref \<Rightarrow> obj_instance"
  healths :: "oid \<Rightarrow> comp_health"
  system_comp :: "oid option"
  queues :: "test_queue \<Rightarrow> iref list option"
  queues_blocked :: bool
  start_timer :: bool
  jobs :: "seq_context list"
  free_contexts :: "seq_context list"
  outs :: "out list"
  clock :: "nat \<Rightarrow> xos_time"
  ticks :: nat
  domains :: "loop_domain list"
  next_domain :: nat
  next_oid :: oid
  freeme :: "iref list"

text \<open>The client code an operation may call: test and action functions, which run with the
  database unlocked, so they return the database other threads left behind.\<close>

record client =
  run_test :: "nat \<Rightarrow> name option \<Rightarrow> nat \<Rightarrow> int \<Rightarrow> db \<Rightarrow> result \<times> int \<times> db"
  run_action :: "nat \<Rightarrow> name \<Rightarrow> nat \<Rightarrow> db \<Rightarrow> result \<times> db"

section \<open>Reading and updating\<close>

definition base :: "oid \<Rightarrow> iref" where "base ob = IRef ob 0"

definition inst :: "db \<Rightarrow> iref \<Rightarrow> obj_instance" where "inst db i = insts db i"

definition upd_inst :: "iref \<Rightarrow> (obj_instance \<Rightarrow> obj_instance) \<Rightarrow> db \<Rightarrow> db" where
  "upd_inst i f db = db\<lparr>insts := (insts db)(i := f (insts db i))\<rparr>"

definition upd_obj :: "oid \<Rightarrow> (obj \<Rightarrow> obj) \<Rightarrow> db \<Rightarrow> db" where
  "upd_obj ob f db = db\<lparr>objs := (objs db)(ob := f (objs db ob))\<rparr>"

definition upd_health :: "oid \<Rightarrow> (comp_health \<Rightarrow> comp_health) \<Rightarrow> db \<Rightarrow> db" where
  "upd_health ob f db = db\<lparr>healths := (healths db)(ob := f (healths db ob))\<rparr>"

definition emit :: "out \<Rightarrow> db \<Rightarrow> db" where
  "emit e db = db\<lparr>outs := outs db @ [e]\<rparr>"

text \<open>Each reading of the clock is the next one; nothing is assumed about the readings.\<close>

definition time_now :: "db \<Rightarrow> xos_time \<times> db" where
  "time_now db = (clock db (ticks db), db\<lparr>ticks := Suc (ticks db)\<rparr>)"

definition type_of :: "db \<Rightarrow> oid \<Rightarrow> obj_type" where
  "type_of db ob =
     (case o_data (objs db ob) of DNone \<Rightarrow> TYPE_NONE | DTest _ \<Rightarrow> TYPE_TEST | DRule _ \<Rightarrow> TYPE_RULE
      | DAction _ \<Rightarrow> TYPE_ACTION | DComp _ \<Rightarrow> TYPE_COMP)"

text \<open>Following a typed pointer to a block of another type is \<open>None\<close>.\<close>

definition test_of :: "db \<Rightarrow> oid \<Rightarrow> obj_test option" where
  "test_of db ob = (case o_data (objs db ob) of DTest t \<Rightarrow> Some t | _ \<Rightarrow> None)"

definition rule_of :: "db \<Rightarrow> oid \<Rightarrow> obj_rule option" where
  "rule_of db ob = (case o_data (objs db ob) of DRule r \<Rightarrow> Some r | _ \<Rightarrow> None)"

definition action_of :: "db \<Rightarrow> oid \<Rightarrow> obj_action option" where
  "action_of db ob = (case o_data (objs db ob) of DAction a \<Rightarrow> Some a | _ \<Rightarrow> None)"

definition comp_of :: "db \<Rightarrow> oid \<Rightarrow> obj_comp option" where
  "comp_of db ob = (case o_data (objs db ob) of DComp c \<Rightarrow> Some c | _ \<Rightarrow> None)"

definition set_test :: "oid \<Rightarrow> (obj_test \<Rightarrow> obj_test) \<Rightarrow> db \<Rightarrow> db" where
  "set_test ob f = upd_obj ob (\<lambda>x. x\<lparr>o_data := (case o_data x of DTest t \<Rightarrow> DTest (f t) | d \<Rightarrow> d)\<rparr>)"

definition set_rule :: "oid \<Rightarrow> (obj_rule \<Rightarrow> obj_rule) \<Rightarrow> db \<Rightarrow> db" where
  "set_rule ob f = upd_obj ob (\<lambda>x. x\<lparr>o_data := (case o_data x of DRule t \<Rightarrow> DRule (f t) | d \<Rightarrow> d)\<rparr>)"

definition set_action :: "oid \<Rightarrow> (obj_action \<Rightarrow> obj_action) \<Rightarrow> db \<Rightarrow> db" where
  "set_action ob f = upd_obj ob (\<lambda>x. x\<lparr>o_data := (case o_data x of DAction t \<Rightarrow> DAction (f t) | d \<Rightarrow> d)\<rparr>)"

definition set_comp :: "oid \<Rightarrow> (obj_comp \<Rightarrow> obj_comp) \<Rightarrow> db \<Rightarrow> db" where
  "set_comp ob f = upd_obj ob (\<lambda>x. x\<lparr>o_data := (case o_data x of DComp t \<Rightarrow> DComp (f t) | d \<Rightarrow> d)\<rparr>)"

text \<open>The base instance of an object followed by its members: the walk along \<open>next\<close>.\<close>

definition all_instances :: "db \<Rightarrow> oid \<Rightarrow> iref list" where
  "all_instances db ob = IRef ob 0 # map (IRef ob) (o_members (objs db ob))"

end
