(* ===== verification/ListStore.thy ===== *)
theory ListStore
  imports Prelude
begin

text \<open>
  The contract of the list utility, as its clients use it: a store of lists named by handles,
  with the laws each operation promises about the lists it names. \<open>rel m f\<close> says that the
  store \<open>m\<close> holds the lists \<open>f\<close>; \<open>ready m\<close> that an element can be allocated. An operation
  returns \<open>None\<close> when it does not return.

  The lemmas of the two locales are the facts that the users of the lists need: a queue is
  drained in the order it was filled, a member that was added is found once and is gone after
  one removal. The model of \<^verbatim>\<open>myrefl_util.c\<close> interprets the locales in theory \<open>MList\<close>.
\<close>

text \<open>\<open>add\<close> puts a new member in front and ignores one that is already there.\<close>

definition list_add :: "'a \<Rightarrow> 'a list \<Rightarrow> 'a list" where
  "list_add x xs = (if x \<in> set xs then xs else x # xs)"

lemma set_list_add [simp]: "set (list_add x xs) = insert x (set xs)"
  by (auto simp: list_add_def)

lemma distinct_list_add [simp]: "distinct (list_add x xs) = distinct xs"
  by (auto simp: list_add_def)

text \<open>The loop \<open>while ((data = pop(list)) != NULL)\<close>, with the data in the order popped.\<close>

partial_function (option) drain ::
  "('h \<Rightarrow> 'm \<Rightarrow> ('a option \<times> 'm) option) \<Rightarrow> 'h \<Rightarrow> 'm \<Rightarrow> ('a list \<times> 'm) option" where
  "drain pop h m =
     Option.bind (pop h m) (\<lambda>(x, m').
       case x of None \<Rightarrow> Some ([], m')
       | Some a \<Rightarrow> Option.bind (drain pop h m') (\<lambda>(xs, m''). Some (a # xs, m'')))"

locale list_queue =
  fixes rel :: "'m \<Rightarrow> ('h \<Rightarrow> 'a list option) \<Rightarrow> bool"
    and ready :: "'m \<Rightarrow> bool"
    and push :: "'h \<Rightarrow> 'a \<Rightarrow> 'm \<Rightarrow> 'm option"
    and pop :: "'h \<Rightarrow> 'm \<Rightarrow> ('a option \<times> 'm) option"
  assumes push_law: "rel m f \<Longrightarrow> f h = Some xs \<Longrightarrow> ready m \<Longrightarrow>
      \<exists>m'. push h d m = Some m' \<and> rel m' (f(h \<mapsto> xs @ [d]))"
    and pop_law: "rel m f \<Longrightarrow> f h = Some xs \<Longrightarrow>
      \<exists>m'. pop h m = Some (case xs of [] \<Rightarrow> None | x # _ \<Rightarrow> Some x, m') \<and> rel m' (f(h \<mapsto> tl xs))"
begin

text \<open>Draining returns, with every member in order, and leaves the list empty.\<close>

lemma drain_all:
  "rel m f \<Longrightarrow> f h = Some xs \<Longrightarrow> \<exists>m'. drain pop h m = Some (xs, m') \<and> rel m' (f(h \<mapsto> []))"
proof (induction xs arbitrary: m f)
  case Nil
  then obtain m' where "pop h m = Some (None, m')" "rel m' (f(h \<mapsto> []))"
    using pop_law [of m f h "[]"] by auto
  then show ?case by (subst drain.simps) simp
next
  case (Cons x xs)
  then obtain m' where pop: "pop h m = Some (Some x, m')" and rel: "rel m' (f(h \<mapsto> xs))"
    using pop_law [of m f h "x # xs"] by auto
  obtain m'' where "drain pop h m' = Some (xs, m'')" "rel m'' (f(h \<mapsto> []))"
    using Cons.IH [OF rel] by (auto simp del: fun_upd_apply simp: fun_upd_same)
  with pop show ?case by (subst drain.simps) simp
qed

lemma push_drain:
  assumes "rel m f" and "f h = Some xs" and "ready m"
  shows "\<exists>m' m''. push h d m = Some m' \<and> drain pop h m' = Some (xs @ [d], m'') \<and> rel m'' (f(h \<mapsto> []))"
proof -
  obtain m' where m': "push h d m = Some m'" "rel m' (f(h \<mapsto> xs @ [d]))"
    using push_law [OF assms] by blast
  from drain_all [OF this(2), of h "xs @ [d]"] m'(1) show ?thesis by auto
qed

end

locale list_store = list_queue rel ready push pop
  for rel :: "'m \<Rightarrow> ('h \<Rightarrow> 'a list option) \<Rightarrow> bool" and ready push pop +
  fixes add :: "'h \<Rightarrow> 'a \<Rightarrow> 'm \<Rightarrow> 'm option"
    and remove :: "'h \<Rightarrow> 'a \<Rightarrow> 'm \<Rightarrow> (bool \<times> 'm) option"
    and find :: "'h \<Rightarrow> 'a \<Rightarrow> 'm \<Rightarrow> bool option"
  assumes add_law: "rel m f \<Longrightarrow> f h = Some xs \<Longrightarrow> ready m \<Longrightarrow>
      \<exists>m'. add h d m = Some m' \<and> rel m' (f(h \<mapsto> list_add d xs))"
    and remove_law: "rel m f \<Longrightarrow> f h = Some xs \<Longrightarrow>
      \<exists>m'. remove h d m = Some (d \<in> set xs, m') \<and> rel m' (f(h \<mapsto> remove1 d xs))"
    and find_law: "rel m f \<Longrightarrow> f h = Some xs \<Longrightarrow> find h d m = Some (d \<in> set xs)"
begin

lemma add_found:
  assumes "rel m f" and "f h = Some xs" and "ready m"
  shows "\<exists>m'. add h d m = Some m' \<and> (\<forall>e. find h e m' = Some (e = d \<or> e \<in> set xs))"
  using add_law [OF assms, of d] find_law by fastforce

lemma remove_gone:
  assumes "rel m f" and "f h = Some xs" and "distinct xs"
  shows "\<exists>m'. remove h d m = Some (d \<in> set xs, m') \<and>
    (\<forall>e. find h e m' = Some (e \<in> set xs \<and> e \<noteq> d))"
  using remove_law [OF assms(1,2), of d] find_law assms(3) by fastforce

text \<open>Adding and removing cancel out for something that was not a member.\<close>

lemma add_remove:
  assumes "rel m f" and "f h = Some xs" and "ready m" and "d \<notin> set xs"
  shows "\<exists>m' m''. add h d m = Some m' \<and> remove h d m' = Some (True, m'') \<and> rel m'' f"
proof -
  obtain m' where m': "add h d m = Some m'" "rel m' (f(h \<mapsto> d # xs))"
    using add_law [OF assms(1-3), of d] assms(4) by (auto simp: list_add_def)
  from remove_law [OF this(2), of h "d # xs" d] obtain m'' where
    "remove h d m' = Some (True, m'')" "rel m'' (f(h \<mapsto> xs))" by auto
  moreover have "f(h \<mapsto> xs) = f" using assms(2) by (simp add: fun_upd_idem)
  ultimately show ?thesis using m'(1) by auto
qed

end

end
