(* ===== verification/ObjDb.thy ===== *)
theory ObjDb
  imports ObjTypes ListStore
begin

text \<open>
  The object database of \<^verbatim>\<open>src/src/myrefl_obj.c\<close>: instances, validation, the walks over the
  component tree, creation, linking and deletion.

  A call that would follow a pointer of the wrong type, or loop for ever, is \<open>None\<close>.
\<close>

section \<open>Instances\<close>

definition myrefl_obj_is_member_instance :: "iref \<Rightarrow> bool" where
  "myrefl_obj_is_member_instance i \<longleftrightarrow> \<not> (base (obj_of i) = i)"

definition myrefl_obj_has_member_instances :: "db \<Rightarrow> oid \<Rightarrow> bool" where
  "myrefl_obj_has_member_instances db ob \<longleftrightarrow> o_members (objs db ob) \<noteq> []"

text \<open>The search of a member by name, from the first member on.\<close>

definition find_member :: "db \<Rightarrow> oid \<Rightarrow> name \<Rightarrow> iref option" where
  "find_member db ob n =
     List.find (\<lambda>i. i_name (inst db i) = n) (map (IRef ob) (o_members (objs db ob)))"

definition myrefl_obj_instance :: "db \<Rightarrow> oid \<Rightarrow> iref \<Rightarrow> iref" where
  "myrefl_obj_instance db ob ref =
     (if base (obj_of ref) \<noteq> ref then
        (case find_member db ob (i_name (inst db ref)) of None \<Rightarrow> base ob | Some i \<Rightarrow> i)
      else base ob)"

lemma find_member_Some:
  assumes "find_member db ob n = Some i"
  shows "obj_of i = ob" and "i_name (inst db i) = n" and "i \<in> set (all_instances db ob)"
  using assms by (auto simp: find_member_def find_Some_iff all_instances_def)

text \<open>The instance found belongs to the object, and it is the base or has the name asked for.\<close>

lemma obj_of_instance [simp]: "obj_of (myrefl_obj_instance db ob ref) = ob"
  by (auto simp: myrefl_obj_instance_def base_def dest: find_member_Some split: option.splits)

lemma instance_in_all: "myrefl_obj_instance db ob ref \<in> set (all_instances db ob)"
  by (auto simp: myrefl_obj_instance_def base_def all_instances_def
      dest: find_member_Some(3) split: option.splits)

section \<open>Validation\<close>

text \<open>Does the \<open>next_in_input\<close> chain from \<open>r2\<close> contain the rule? A cyclic chain is \<open>None\<close>;
  \<open>deref\<close> reads the rule at a pointer.\<close>

partial_function (option) in_input_chain ::
  "(oid \<Rightarrow> obj_rule option) \<Rightarrow> oid \<Rightarrow> oid option \<Rightarrow> bool option" where
  "in_input_chain deref rule r2 =
     (case r2 of None \<Rightarrow> Some False
      | Some r \<Rightarrow>
         if r = rule then Some True
         else Option.bind (deref r) (\<lambda>x. in_input_chain deref rule (r_next_in_input x)))"

text \<open>The first rule that triggers from an input; \<open>None\<close> is an unexpected type of input.\<close>

definition input_head :: "db \<Rightarrow> oid \<Rightarrow> oid option option" where
  "input_head db ob =
     (case o_data (objs db ob) of
        DRule r \<Rightarrow> Some (r_output r) | DTest t \<Rightarrow> Some (t_rule t)
      | DNone \<Rightarrow> Some (o_ref_rule (objs db ob)) | _ \<Rightarrow> None)"

partial_function (option) validate_inputs :: "oid \<Rightarrow> oid list \<Rightarrow> db \<Rightarrow> db option" where
  "validate_inputs rule element db =
     (case element of [] \<Rightarrow> Some db
      | x # xs \<Rightarrow>
         Option.bind
           (case input_head db x of None \<Rightarrow> Some False | Some r2 \<Rightarrow> in_input_chain (rule_of db) rule r2)
           (\<lambda>matched.
             if matched then validate_inputs rule xs db
             else let db = set_rule rule (\<lambda>r. r\<lparr>r_inputs := remove1 x (r_inputs r)\<rparr>) db
                  in Option.bind (rule_of db rule) (\<lambda>r. validate_inputs rule (r_inputs r) db)))"

text \<open>An action of the rule that does not know the rule gets the link, and the other way round.\<close>

definition validate_actions :: "oid \<Rightarrow> oid list \<Rightarrow> db \<Rightarrow> db" where
  "validate_actions rule acts db =
     fold (\<lambda>a db. case action_of db a of None \<Rightarrow> db
             | Some _ \<Rightarrow> set_action a (\<lambda>x. x\<lparr>a_rule_list := list_add rule (a_rule_list x)\<rparr>) db)
       acts db"

definition validate_rules :: "oid \<Rightarrow> oid list \<Rightarrow> db \<Rightarrow> db" where
  "validate_rules act rules db =
     fold (\<lambda>r db. case rule_of db r of None \<Rightarrow> db
             | Some _ \<Rightarrow> set_rule r (\<lambda>x. x\<lparr>r_action_list := list_add act (r_action_list x)\<rparr>) db)
       rules db"

text \<open>A test that is fully created: period and function must fit its type.\<close>

definition test_consistent :: "obj_test \<Rightarrow> nat \<Rightarrow> bool" where
  "test_consistent t ctx =
     (case t_type t of
        POLLED \<Rightarrow> \<not> (t_period t = 0 \<or> t_function t = None)
      | ERRMSG \<Rightarrow> ctx \<noteq> 0 \<and> \<not> (t_period t \<noteq> 0 \<or> t_function t \<noteq> None)
      | NOTIFICATION \<Rightarrow> \<not> (t_period t \<noteq> 0 \<or> t_function t \<noteq> None))"

definition SYSTEM_COMP_NAME :: name where "SYSTEM_COMP_NAME = ''System''"

text \<open>
  \<open>myrefl_obj_validate\<close> checks an object and repairs what it can. The repair of an object that
  is in no component (creating a second object of the same name through the API) is outside
  the model, \<open>None\<close>.
\<close>

definition myrefl_obj_validate :: "oid option \<Rightarrow> obj_type \<Rightarrow> db \<Rightarrow> (bool \<times> db) option" where
  "myrefl_obj_validate p ty db =
     (case p of None \<Rightarrow> Some (False, db)
      | Some ob \<Rightarrow>
         if i_state (inst db (base ob)) = STATE_DELETED then Some (False, db)
         else if ty \<noteq> TYPE_ANY \<and> ty \<noteq> type_of db ob then Some (False, db)
         else do {
           (retval, db) \<leftarrow>
             (case o_data (objs db ob) of
                DTest t \<Rightarrow>
                  let b = inst db (base ob);
                      db = (case t_rule t of
                              None \<Rightarrow> db
                            | Some r \<Rightarrow> if rule_of db r = None then set_test ob (\<lambda>t. t\<lparr>t_rule := None\<rparr>) db
                                        else db);
                      ok = (i_state b = STATE_ALLOCATED \<or> i_state b = STATE_INITIALIZED \<or>
                            test_consistent t (i_context b));
                      db = (if and (i_flags b) (not OBJ_FLAG_RESERVED) > MYREFL_TEST_FLAG_ALL
                            then upd_inst (base ob) (\<lambda>b. b\<lparr>i_flags := 0\<rparr>) db else db)
                  in Some (ok, db)
              | DRule r \<Rightarrow> do {
                  db \<leftarrow> validate_inputs ob (r_inputs r) db;
                  Some (True, validate_actions ob (r_action_list r) db) }
              | DAction a \<Rightarrow> Some (True, validate_rules ob (a_rule_list a) db)
              | DComp c \<Rightarrow> Some (True, db)
              | DNone \<Rightarrow> Some (True, db));
           if o_parent_comp (objs db ob) = None \<and> i_name (inst db (base ob)) \<noteq> SYSTEM_COMP_NAME
           then None else Some (retval, db) })"

definition myrefl_obj_instance_validate :: "iref \<Rightarrow> obj_type \<Rightarrow> db \<Rightarrow> (bool \<times> db) option" where
  "myrefl_obj_instance_validate i ty db =
     (if i_state (inst db i) = STATE_DELETED then Some (False, db)
      else myrefl_obj_validate (Some (obj_of i)) ty db)"

definition myrefl_obj_instance_by_name :: "oid option \<Rightarrow> name option \<Rightarrow> db \<Rightarrow> (iref option \<times> db) option"
  where
  "myrefl_obj_instance_by_name p n db =
     do { (ok, db) \<leftarrow> myrefl_obj_validate p TYPE_ANY db;
          if \<not> ok then Some (None, db)
          else Some ((case n of None \<Rightarrow> Some (base (the p)) | Some n \<Rightarrow> find_member db (the p) n), db) }"

section \<open>A linked database is validated without repairs\<close>

definition inputs_linked :: "db \<Rightarrow> oid \<Rightarrow> oid list \<Rightarrow> bool" where
  "inputs_linked db rule xs \<longleftrightarrow>
     (\<forall>x \<in> set xs. case input_head db x of None \<Rightarrow> False
        | Some h \<Rightarrow> in_input_chain (rule_of db) rule h = Some True)"

definition obj_linked :: "db \<Rightarrow> oid \<Rightarrow> bool" where
  "obj_linked db ob \<longleftrightarrow>
     (case o_data (objs db ob) of
        DTest t \<Rightarrow> (case t_rule t of None \<Rightarrow> True | Some r \<Rightarrow> rule_of db r \<noteq> None) \<and>
          and (i_flags (inst db (base ob))) (not OBJ_FLAG_RESERVED) \<le> MYREFL_TEST_FLAG_ALL
      | DRule r \<Rightarrow> inputs_linked db ob (r_inputs r) \<and>
          (\<forall>a \<in> set (r_action_list r). case action_of db a of None \<Rightarrow> True
             | Some x \<Rightarrow> ob \<in> set (a_rule_list x))
      | DAction a \<Rightarrow> (\<forall>r \<in> set (a_rule_list a). case rule_of db r of None \<Rightarrow> True
             | Some x \<Rightarrow> ob \<in> set (r_action_list x))
      | _ \<Rightarrow> True) \<and>
     (o_parent_comp (objs db ob) = None \<longrightarrow> i_name (inst db (base ob)) = SYSTEM_COMP_NAME)"

text \<open>The invariant of the links between live objects.\<close>

definition linked :: "db \<Rightarrow> bool" where
  "linked db \<longleftrightarrow> (\<forall>ob. i_state (inst db (base ob)) \<noteq> STATE_DELETED \<longrightarrow> obj_linked db ob)"

text \<open>What validation answers on a linked database.\<close>

definition obj_valid :: "db \<Rightarrow> oid option \<Rightarrow> obj_type \<Rightarrow> bool" where
  "obj_valid db p ty \<longleftrightarrow>
     (case p of None \<Rightarrow> False
      | Some ob \<Rightarrow>
         i_state (inst db (base ob)) \<noteq> STATE_DELETED \<and> (ty = TYPE_ANY \<or> ty = type_of db ob) \<and>
         (case o_data (objs db ob) of
            DTest t \<Rightarrow> i_state (inst db (base ob)) = STATE_ALLOCATED \<or>
              i_state (inst db (base ob)) = STATE_INITIALIZED \<or>
              test_consistent t (i_context (inst db (base ob)))
          | _ \<Rightarrow> True))"

definition inst_valid :: "db \<Rightarrow> iref \<Rightarrow> obj_type \<Rightarrow> bool" where
  "inst_valid db i ty \<longleftrightarrow> i_state (inst db i) \<noteq> STATE_DELETED \<and> obj_valid db (Some (obj_of i)) ty"

lemma validate_inputs_linked:
  "inputs_linked db rule xs \<Longrightarrow> validate_inputs rule xs db = Some db"
proof (induction xs)
  case Nil
  then show ?case by (subst validate_inputs.simps) simp
next
  case (Cons x xs)
  then obtain h where "input_head db x = Some h" "in_input_chain (rule_of db) rule h = Some True"
    by (auto simp: inputs_linked_def split: option.splits)
  moreover have "validate_inputs rule xs db = Some db"
    using Cons by (auto simp: inputs_linked_def)
  ultimately show ?case by (subst validate_inputs.simps) simp
qed

lemma fold_id: "(\<And>x. x \<in> set xs \<Longrightarrow> f x s = s) \<Longrightarrow> fold f xs s = s"
  by (induction xs) auto

lemma list_add_member: "x \<in> set xs \<Longrightarrow> list_add x xs = xs"
  by (simp add: list_add_def)

lemma upd_obj_same: "f (objs db a) = objs db a \<Longrightarrow> upd_obj a f db = db"
  by (simp add: upd_obj_def)

lemma set_action_same: "action_of db a = Some x \<Longrightarrow> f x = x \<Longrightarrow> set_action a f db = db"
  by (auto simp: set_action_def action_of_def split: obj_data.splits intro!: upd_obj_same)

lemma set_rule_same: "rule_of db a = Some x \<Longrightarrow> f x = x \<Longrightarrow> set_rule a f db = db"
  by (auto simp: set_rule_def rule_of_def split: obj_data.splits intro!: upd_obj_same)

lemma validate_actions_linked:
  assumes "\<forall>a \<in> set acts. case action_of db a of None \<Rightarrow> True | Some x \<Rightarrow> ob \<in> set (a_rule_list x)"
  shows "validate_actions ob acts db = db"
  using assms unfolding validate_actions_def
  by (intro fold_id) (auto split: option.splits intro!: set_action_same simp: list_add_member)

lemma validate_rules_linked:
  assumes "\<forall>r \<in> set rs. case rule_of db r of None \<Rightarrow> True | Some x \<Rightarrow> ob \<in> set (r_action_list x)"
  shows "validate_rules ob rs db = db"
  using assms unfolding validate_rules_def
  by (intro fold_id) (auto split: option.splits intro!: set_rule_same simp: list_add_member)

lemma validate_linked:
  assumes "linked db"
  shows "myrefl_obj_validate p ty db = Some (obj_valid db p ty, db)"
proof (cases p)
  case None
  then show ?thesis by (simp add: myrefl_obj_validate_def obj_valid_def)
next
  case (Some ob)
  show ?thesis
  proof (cases "i_state (inst db (base ob)) = STATE_DELETED \<or> ty \<noteq> TYPE_ANY \<and> ty \<noteq> type_of db ob")
    case True
    then show ?thesis using Some by (auto simp: myrefl_obj_validate_def obj_valid_def)
  next
    case False
    then have ok: "obj_linked db ob" using assms by (auto simp: linked_def)
    then have par: "\<not> (o_parent_comp (objs db ob) = None \<and> i_name (inst db (base ob)) \<noteq> SYSTEM_COMP_NAME)"
      by (auto simp: obj_linked_def)
    show ?thesis
    proof (cases "o_data (objs db ob)")
      case (DTest t)
      have nf: "\<not> and (i_flags (inst db (base ob))) (not OBJ_FLAG_RESERVED) > MYREFL_TEST_FLAG_ALL"
        using ok DTest by (simp add: obj_linked_def not_less)
      have "(case t_rule t of None \<Rightarrow> db
          | Some r \<Rightarrow> if rule_of db r = None then set_test ob (\<lambda>t. t\<lparr>t_rule := None\<rparr>) db else db) = db"
        using ok DTest by (auto simp: obj_linked_def split: option.splits)
      then show ?thesis using Some False par DTest nf
        by (auto simp: myrefl_obj_validate_def obj_valid_def Let_def)
    next
      case (DRule r)
      then show ?thesis using Some False par ok
        by (simp add: myrefl_obj_validate_def obj_valid_def obj_linked_def validate_inputs_linked
            validate_actions_linked)
    next
      case (DAction a)
      then show ?thesis using Some False par ok
        by (simp add: myrefl_obj_validate_def obj_valid_def obj_linked_def validate_rules_linked)
    qed (use Some False par in \<open>simp_all add: myrefl_obj_validate_def obj_valid_def\<close>)
  qed
qed

lemma instance_validate_linked:
  "linked db \<Longrightarrow> myrefl_obj_instance_validate i ty db = Some (inst_valid db i ty, db)"
  by (simp add: myrefl_obj_instance_validate_def inst_valid_def validate_linked)

lemma instance_by_name_linked:
  "linked db \<Longrightarrow> myrefl_obj_instance_by_name (Some ob) n db =
     Some (if obj_valid db (Some ob) TYPE_ANY
           then (case n of None \<Rightarrow> Some (base ob) | Some n \<Rightarrow> find_member db ob n) else None, db)"
  by (auto simp: myrefl_obj_instance_by_name_def validate_linked split: option.splits)

section \<open>Changes at run time\<close>

text \<open>
  What scheduling, running and analysing tests leave alone: the objects and their links, and
  the identity, state and flags of the instances.
\<close>

definition inst_id :: "obj_instance \<Rightarrow> name \<times> nat \<times> obj_state \<times> obj_state \<times> obj_state \<times> 32 word" where
  "inst_id i = (i_name i, i_context i, i_state i, i_default_state i, i_cli_state i, i_flags i)"

definition runtime :: "db \<Rightarrow> db \<Rightarrow> bool" where
  "runtime db db' \<longleftrightarrow>
     objs db' = objs db \<and> system_comp db' = system_comp db \<and> clock db' = clock db \<and>
     domains db' = domains db \<and> next_domain db' = next_domain db \<and> next_oid db' = next_oid db \<and>
     (\<forall>i. inst_id (inst db' i) = inst_id (inst db i))"

lemma runtime_refl [simp]: "runtime db db"
  by (simp add: runtime_def)

lemma runtime_trans [trans]: "runtime a b \<Longrightarrow> runtime b c \<Longrightarrow> runtime a c"
  by (simp add: runtime_def)

lemma runtimeD:
  assumes "runtime db db'"
  shows "objs db' = objs db" "system_comp db' = system_comp db" "clock db' = clock db"
    "i_name (inst db' i) = i_name (inst db i)" "i_context (inst db' i) = i_context (inst db i)"
    "i_state (inst db' i) = i_state (inst db i)" "i_flags (inst db' i) = i_flags (inst db i)"
  using assms by (simp_all add: runtime_def inst_id_def)

lemma runtime_reads:
  assumes "runtime db db'"
  shows "type_of db' = type_of db" "test_of db' = test_of db" "rule_of db' = rule_of db"
    "action_of db' = action_of db" "comp_of db' = comp_of db" "input_head db' = input_head db"
    "all_instances db' = all_instances db" "find_member db' = find_member db"
    "myrefl_obj_instance db' = myrefl_obj_instance db"
  by (intro ext, simp add: type_of_def test_of_def rule_of_def action_of_def comp_of_def
      input_head_def all_instances_def find_member_def myrefl_obj_instance_def runtimeD [OF assms]
      cong: obj_data.case_cong)+

lemma runtime_linked: "runtime db db' \<Longrightarrow> linked db' = linked db"
  by (simp add: linked_def obj_linked_def inputs_linked_def runtimeD runtime_reads
      cong: option.case_cong obj_data.case_cong)

lemma runtime_obj_valid: "runtime db db' \<Longrightarrow> obj_valid db' = obj_valid db"
  by (intro ext) (simp add: obj_valid_def runtimeD runtime_reads cong: option.case_cong obj_data.case_cong)

lemma runtime_inst_valid: "runtime db db' \<Longrightarrow> inst_valid db' = inst_valid db"
  by (intro ext) (simp add: inst_valid_def runtime_obj_valid runtimeD)

lemma runtime_upd_inst:
  "(\<And>x. inst_id (f x) = inst_id x) \<Longrightarrow> runtime db (upd_inst i f db)"
  by (simp add: runtime_def upd_inst_def inst_def)

lemma runtime_fields [simp]:
  "runtime db (emit e db)" "runtime db (snd (time_now db))" "runtime db (upd_health ob g db)"
  "runtime db (db\<lparr>queues := q\<rparr>)" "runtime db (db\<lparr>jobs := j\<rparr>)" "runtime db (db\<lparr>free_contexts := c\<rparr>)"
  "runtime db (db\<lparr>queues_blocked := b\<rparr>)" "runtime db (db\<lparr>ticks := n\<rparr>)"
  by (simp_all add: runtime_def emit_def time_now_def upd_health_def inst_def)

end
