(* ===== verification/ObjTree.thy ===== *)
theory ObjTree
  imports ObjDb
begin

text \<open>
  The component tree of \<^verbatim>\<open>src/src/myrefl_obj.c\<close>: the chains of a component, the walks over all
  objects of a type, lookup by name, and linking objects into components and out of them.

  A component pointer is the \<open>oid\<close> of its object. \<open>None\<close> as the outer answer of a walk is a pointer
  to an object that is no component, or a walk that does not end; \<open>Some None\<close> is \<open>NULL\<close>.
\<close>

definition MAX_COMP_NESTING :: nat where "MAX_COMP_NESTING = 255"

definition rel_to_type :: "obj_rel \<Rightarrow> obj_type" where
  "rel_to_type rel =
     (case rel of REL_NONE \<Rightarrow> TYPE_NONE | REL_TEST \<Rightarrow> TYPE_TEST | REL_RULE \<Rightarrow> TYPE_RULE
      | REL_ACTION \<Rightarrow> TYPE_ACTION | REL_COMP \<Rightarrow> TYPE_COMP | _ \<Rightarrow> TYPE_NONE)"

definition type_to_rel :: "obj_type \<Rightarrow> obj_rel" where
  "type_to_rel type =
     (case type of TYPE_NONE \<Rightarrow> REL_NONE | TYPE_TEST \<Rightarrow> REL_TEST | TYPE_RULE \<Rightarrow> REL_RULE
      | TYPE_ACTION \<Rightarrow> REL_ACTION | TYPE_COMP \<Rightarrow> REL_COMP | TYPE_ANY \<Rightarrow> REL_TEST)"

section \<open>Enumerations\<close>

text \<open>The contract of a pair of functions that return the first and the next object: iterated, they
  go through a list. \<open>follows step xs e\<close>: from one element of \<open>xs\<close> the step leads to the next
  one, and from the last one to \<open>e\<close>.\<close>

definition head_or :: "'a option \<Rightarrow> 'a list \<Rightarrow> 'a option" where
  "head_or e xs = (case xs of [] \<Rightarrow> e | x # _ \<Rightarrow> Some x)"

lemma head_or_simps [simp]: "head_or e [] = e" "head_or e (x # xs) = Some x"
  "head_or e (xs @ ys) = head_or (head_or e ys) xs"
  by (simp_all add: head_or_def split: list.split)

primrec follows :: "('a \<Rightarrow> 'a option option) \<Rightarrow> 'a list \<Rightarrow> 'a option \<Rightarrow> bool" where
  "follows step [] e = True"
| "follows step (x # xs) e = (step x = Some (head_or e xs) \<and> follows step xs e)"

lemma follows_append [simp]:
  "follows step (xs @ ys) e \<longleftrightarrow> follows step xs (head_or e ys) \<and> follows step ys e"
  by (induction xs) auto

locale enumeration =
  fixes ok :: "'s \<Rightarrow> bool" and listing :: "'s \<Rightarrow> 'a list" and step :: "'s \<Rightarrow> 'a \<Rightarrow> 'a option option"
  assumes step_law: "ok s \<Longrightarrow> follows (step s) (listing s) None"
begin

text \<open>A loop that steps until it meets an object with a property answers for the first such object
  of the rest of the list, or \<open>NULL\<close>.\<close>

lemma search_rest:
  assumes "ok s" and stop: "search None = Some None"
    and loop: "\<And>x. x \<in> set (listing s) \<Longrightarrow>
      search (Some x) = (if p x then Some (Some (g x)) else Option.bind (step s x) search)"
  shows "listing s = ys @ zs \<Longrightarrow> search (head_or None zs) = Some (map_option g (List.find p zs))"
proof (induction zs arbitrary: ys)
  case Nil
  then show ?case by (simp add: stop)
next
  case (Cons z zs)
  then have "search (head_or None zs) = Some (map_option g (List.find p zs))" by (metis append.assoc append_Cons append_Nil)
  moreover have "step s z = Some (head_or None zs)"
    using step_law [OF assms(1)] Cons.prems by simp
  ultimately show ?case using loop [of z] Cons.prems by simp
qed

lemma search_all:
  assumes "ok s" and "search None = Some None"
    and "\<And>x. x \<in> set (listing s) \<Longrightarrow>
      search (Some x) = (if p x then Some (Some (g x)) else Option.bind (step s x) search)"
  shows "search (head_or None (listing s)) = Some (map_option g (List.find p (listing s)))"
  using search_rest [OF assms, of "[]" "listing s"] by simp

end

section \<open>The chains of a component\<close>

text \<open>The chain for a type, as \<open>list = &cp->tests\<close> and so on selects it.\<close>

definition comp_list :: "obj_type \<Rightarrow> obj_comp \<Rightarrow> oid list" where
  "comp_list type c =
     (case type of TYPE_NONE \<Rightarrow> c_nones c | TYPE_TEST \<Rightarrow> c_tests c | TYPE_RULE \<Rightarrow> c_rules c
      | TYPE_ACTION \<Rightarrow> c_actions c | TYPE_COMP \<Rightarrow> c_comps c | TYPE_ANY \<Rightarrow> [])"

definition map_comp_list :: "obj_type \<Rightarrow> (oid list \<Rightarrow> oid list) \<Rightarrow> obj_comp \<Rightarrow> obj_comp" where
  "map_comp_list type f c =
     (case type of TYPE_NONE \<Rightarrow> c\<lparr>c_nones := f (c_nones c)\<rparr> | TYPE_TEST \<Rightarrow> c\<lparr>c_tests := f (c_tests c)\<rparr>
      | TYPE_RULE \<Rightarrow> c\<lparr>c_rules := f (c_rules c)\<rparr> | TYPE_ACTION \<Rightarrow> c\<lparr>c_actions := f (c_actions c)\<rparr>
      | TYPE_COMP \<Rightarrow> c\<lparr>c_comps := f (c_comps c)\<rparr> | TYPE_ANY \<Rightarrow> c)"

fun after :: "'a \<Rightarrow> 'a list \<Rightarrow> 'a option" where
  "after x (y # z # zs) = (if x = y then Some z else after x (z # zs))"
| "after x ys = None"

text \<open>\<open>obj->next_in_comp\<close>\<close>

definition next_in_comp :: "db \<Rightarrow> oid \<Rightarrow> oid option" where
  "next_in_comp db ob =
     Option.bind (o_parent_comp (objs db ob)) (\<lambda>p.
       Option.bind (comp_of db p) (\<lambda>c. after ob (comp_list (type_of db ob) c)))"

section \<open>Walks over the tree\<close>

text \<open>The next peer of the nearest ancestor that has one; the nesting that is followed is bounded.\<close>

primrec parents_next :: "nat \<Rightarrow> db \<Rightarrow> oid \<Rightarrow> oid option" where
  "parents_next 0 db cp = None"
| "parents_next (Suc n) db cp =
     (case o_parent_comp (objs db cp) of
        None \<Rightarrow> None
      | Some p \<Rightarrow> (case next_in_comp db p of Some x \<Rightarrow> Some x | None \<Rightarrow> parents_next n db p))"

definition comp_get_next :: "db \<Rightarrow> oid option \<Rightarrow> oid option option" where
  "comp_get_next db cp =
     (case cp of
        None \<Rightarrow> Some (system_comp db)
      | Some cp \<Rightarrow>
          Option.bind (comp_of db cp) (\<lambda>c.
            case c_comps c of
              x # _ \<Rightarrow> Some (Some x)
            | [] \<Rightarrow>
                (case next_in_comp db cp of
                   Some x \<Rightarrow> Some (Some x)
                 | None \<Rightarrow> Some (parents_next (MAX_COMP_NESTING + 1) db cp))))"

partial_function (option) comp_get_next_type :: "db \<Rightarrow> oid option \<Rightarrow> obj_type \<Rightarrow> oid option option" where
  "comp_get_next_type db cp type =
     (if type = TYPE_COMP \<or> type = TYPE_ANY then Some None
      else case cp of
        None \<Rightarrow> Some None
      | Some cp \<Rightarrow>
          Option.bind (comp_of db cp) (\<lambda>c.
            case comp_list type c of
              x # _ \<Rightarrow> Some (Some x)
            | [] \<Rightarrow> Option.bind (comp_get_next db (Some cp)) (\<lambda>next. comp_get_next_type db next type)))"

definition sys_get_first_type :: "db \<Rightarrow> obj_type \<Rightarrow> oid option option" where
  "sys_get_first_type db type =
     (if type = TYPE_COMP then map_option Some (system_comp db)
      else comp_get_next_type db (system_comp db) type)"

definition sys_get_next_type :: "db \<Rightarrow> oid \<Rightarrow> obj_type \<Rightarrow> oid option option" where
  "sys_get_next_type db ob type =
     (if type_of db ob = TYPE_COMP then comp_get_next db (Some ob)
      else case next_in_comp db ob of
        Some x \<Rightarrow> Some (Some x)
      | None \<Rightarrow>
          Option.bind (comp_get_next db (o_parent_comp (objs db ob))) (\<lambda>cp. comp_get_next_type db cp type))"

definition myrefl_obj_get_first_rel :: "db \<Rightarrow> oid option \<Rightarrow> obj_rel \<Rightarrow> oid option option" where
  "myrefl_obj_get_first_rel db ob rel =
     (case ob of
        None \<Rightarrow> sys_get_first_type db (rel_to_type rel)
      | Some x \<Rightarrow>
          (case o_data (objs db x) of
             DComp c \<Rightarrow>
               Some (if rel \<in> {REL_NONE, REL_TEST, REL_RULE, REL_ACTION, REL_COMP}
                     then (case comp_list (rel_to_type rel) c of [] \<Rightarrow> None | y # _ \<Rightarrow> Some y) else None)
           | DTest t \<Rightarrow> Some (if rel = REL_RULE then t_rule t else None)
           | _ \<Rightarrow> Some None))"

definition myrefl_obj_get_next_rel :: "db \<Rightarrow> oid option \<Rightarrow> obj_rel \<Rightarrow> oid option option" where
  "myrefl_obj_get_next_rel db ob rel =
     (case ob of
        None \<Rightarrow> myrefl_obj_get_first_rel db None rel
      | Some x \<Rightarrow>
          if type_of db x = rel_to_type rel \<or> rel = REL_NEXT_IN_SYS then sys_get_next_type db x (type_of db x)
          else if rel = REL_NEXT_IN_COMP then Some (next_in_comp db x)
          else if rel = REL_NEXT_IN_TEST then
            (case o_data (objs db x) of DRule r \<Rightarrow> Some (r_next_in_input r) | _ \<Rightarrow> Some None)
          else Some None)"

section \<open>Lookup by name\<close>

partial_function (option) find_in_sys :: "db \<Rightarrow> name \<Rightarrow> oid option \<Rightarrow> oid option option" where
  "find_in_sys db n ob =
     (case ob of
        None \<Rightarrow> Some None
      | Some x \<Rightarrow>
          if i_name (inst db (base x)) = n then Some (Some x)
          else Option.bind (myrefl_obj_get_next_rel db ob REL_NEXT_IN_SYS) (\<lambda>next. find_in_sys db n next))"

definition get_by_name_rel :: "db \<Rightarrow> name \<Rightarrow> obj_rel \<Rightarrow> oid option option" where
  "get_by_name_rel db n rel =
     (if system_comp db = None then Some None
      else Option.bind (myrefl_obj_get_first_rel db None rel) (find_in_sys db n))"

text \<open>The first of some lookups that finds an object.\<close>

primrec first_found :: "(unit \<Rightarrow> oid option option) list \<Rightarrow> oid option option" where
  "first_found [] = Some None"
| "first_found (f # fs) = Option.bind (f ()) (\<lambda>x. case x of Some y \<Rightarrow> Some (Some y) | None \<Rightarrow> first_found fs)"

definition myrefl_obj_get_by_name :: "db \<Rightarrow> name option \<Rightarrow> obj_type \<Rightarrow> oid option option" where
  "myrefl_obj_get_by_name db n type =
     (case n of
        None \<Rightarrow> Some None
      | Some n \<Rightarrow>
          if type = TYPE_COMP \<and> system_comp db = None then None
          else if type = TYPE_COMP \<and> n = i_name (inst db (base (the (system_comp db)))) then Some (system_comp db)
          else if type = TYPE_ANY then
            first_found (map (\<lambda>rel _. get_by_name_rel db n rel) [REL_NONE, REL_COMP, REL_TEST, REL_RULE, REL_ACTION])
          else get_by_name_rel db n (type_to_rel type))"

section \<open>Well-formed trees\<close>

text \<open>Chains and parent pointers agree, and the nesting is within the bound: \<open>d\<close> gives the depth of
  a component.\<close>

definition chain :: "db \<Rightarrow> obj_type \<Rightarrow> oid \<Rightarrow> oid list" where
  "chain db ty p = (case comp_of db p of None \<Rightarrow> [] | Some c \<Rightarrow> comp_list ty c)"

definition chains_ok :: "db \<Rightarrow> bool" where
  "chains_ok db \<longleftrightarrow>
     (\<forall>p ty. distinct (chain db ty p) \<and>
        (\<forall>x \<in> set (chain db ty p). o_parent_comp (objs db x) = Some p \<and> type_of db x = ty)) \<and>
     (\<forall>x p. o_parent_comp (objs db x) = Some p \<longrightarrow> x \<in> set (chain db (type_of db x) p))"

definition depth_ok :: "(oid \<Rightarrow> nat) \<Rightarrow> db \<Rightarrow> bool" where
  "depth_ok d db \<longleftrightarrow> (\<forall>r. system_comp db = Some r \<longrightarrow> d r = 0) \<and>
     (\<forall>p. \<forall>x \<in> set (chain db TYPE_COMP p). d x = Suc (d p) \<and> d x \<le> MAX_COMP_NESTING)"

definition tree_ok :: "db \<Rightarrow> bool" where
  "tree_ok db \<longleftrightarrow> chains_ok db \<and> (\<exists>d. depth_ok d db) \<and>
     (case system_comp db of None \<Rightarrow> True | Some r \<Rightarrow> type_of db r = TYPE_COMP \<and> o_parent_comp (objs db r) = None)"

text \<open>The components below a component in the order of the walk.\<close>

primrec comps_below :: "nat \<Rightarrow> db \<Rightarrow> oid \<Rightarrow> oid list" where
  "comps_below 0 db x = [x]"
| "comps_below (Suc n) db x = x # concat (map (comps_below n db) (chain db TYPE_COMP x))"

definition all_comps :: "db \<Rightarrow> oid list" where
  "all_comps db = (case system_comp db of None \<Rightarrow> [] | Some r \<Rightarrow> comps_below MAX_COMP_NESTING db r)"

text \<open>All objects of a type that are in the tree.\<close>

definition sys_objs :: "obj_type \<Rightarrow> db \<Rightarrow> oid list" where
  "sys_objs ty db = (if ty = TYPE_COMP then all_comps db else concat (map (chain db ty) (all_comps db)))"

lemma after_split: "x \<notin> set ys \<Longrightarrow> after x (ys @ x # zs) = head_or None zs"
  by (induction x "ys @ x # zs" arbitrary: ys rule: after.induct)
    (auto simp: Cons_eq_append_conv append_eq_Cons_conv head_or_def split: list.splits)

lemma chain_typed:
  assumes "chains_ok db" and "x \<in> set (chain db ty p)"
  shows "o_parent_comp (objs db x) = Some p" and "type_of db x = ty"
  using assms by (simp_all add: chains_ok_def)

lemma chain_distinct: "chains_ok db \<Longrightarrow> distinct (chain db ty p)"
  by (simp add: chains_ok_def)

lemma chain_member:
  "chains_ok db \<Longrightarrow> o_parent_comp (objs db x) = Some p \<Longrightarrow> x \<in> set (chain db (type_of db x) p)"
  by (simp add: chains_ok_def)

lemma comp_of_type: "comp_of db x \<noteq> None \<longleftrightarrow> type_of db x = TYPE_COMP"
  by (auto simp: comp_of_def type_of_def split: obj_data.splits)

lemma chain_owner: "x \<in> set (chain db ty p) \<Longrightarrow> type_of db p = TYPE_COMP"
  using comp_of_type [of db p] by (cases "comp_of db p") (simp_all add: chain_def)

lemma depth_child:
  assumes "depth_ok d db" and "y \<in> set (chain db TYPE_COMP x)"
  shows "d y = Suc (d x)" and "d y \<le> MAX_COMP_NESTING"
  using assms unfolding depth_ok_def by blast+

lemma chain_next:
  assumes "chains_ok db" and "chain db ty p = ys @ x # zs"
  shows "next_in_comp db x = head_or None zs"
proof -
  obtain c where c: "comp_of db p = Some c" "comp_list ty c = ys @ x # zs"
    using assms(2) by (auto simp: chain_def split: option.splits)
  have "x \<in> set (chain db ty p)" using assms(2) by simp
  with chain_typed [OF assms(1) this] have "next_in_comp db x = after x (comp_list ty c)"
    using c by (simp add: next_in_comp_def)
  moreover have "x \<notin> set ys" using chain_distinct [OF assms(1), of ty p] assms(2) by simp
  ultimately show ?thesis using c after_split by simp
qed

section \<open>The walk over all components\<close>

lemma parents_next_depth:
  assumes "chains_ok db" and "depth_ok d db"
  shows "d x \<le> n \<Longrightarrow> type_of db x = TYPE_COMP \<Longrightarrow> n \<le> m \<Longrightarrow> parents_next m db x = parents_next n db x"
proof (induction n arbitrary: x m)
  case (0 x m)
  have "o_parent_comp (objs db x) = None"
  proof (cases "o_parent_comp (objs db x)")
    case (Some p)
    with chain_member [OF assms(1) Some] 0 have "d x = Suc (d p)" using depth_child [OF assms(2)] by simp
    with 0 show ?thesis by simp
  qed
  then show ?case by (cases m) simp_all
next
  case (Suc n x m)
  obtain m' where m: "m = Suc m'" "n \<le> m'" using Suc.prems by (cases m) auto
  show ?case
  proof (cases "o_parent_comp (objs db x)")
    case None
    with m show ?thesis by simp
  next
    case (Some p)
    with chain_member [OF assms(1) Some] Suc.prems have x: "x \<in> set (chain db TYPE_COMP p)" by simp
    then have "parents_next m' db p = parents_next n db p"
      using Suc.IH [of p m'] Suc.prems m depth_child(1) [OF assms(2) x] chain_owner [OF x] by simp
    with m Some show ?thesis by (simp split: option.splits)
  qed
qed

text \<open>What comes after a component and everything below it.\<close>

definition comp_end :: "db \<Rightarrow> oid \<Rightarrow> oid option" where
  "comp_end db x =
     (case next_in_comp db x of Some y \<Rightarrow> Some y | None \<Rightarrow> parents_next (MAX_COMP_NESTING + 1) db x)"

lemma comp_get_next_head:
  assumes "type_of db x = TYPE_COMP"
  shows "comp_get_next db (Some x) = Some (head_or (comp_end db x) (chain db TYPE_COMP x))"
proof -
  obtain c where "comp_of db x = Some c" using assms comp_of_type [of db x] by auto
  then show ?thesis
    by (simp add: comp_get_next_def chain_def comp_list_def comp_end_def split: list.splits option.splits)
qed

lemma comp_end_child:
  assumes "chains_ok db" and "depth_ok d db" and "chain db TYPE_COMP x = ys @ y # zs"
  shows "comp_end db y = head_or (comp_end db x) zs"
proof (cases zs)
  case Nil
  have y: "y \<in> set (chain db TYPE_COMP x)" using assms(3) by simp
  have x: "type_of db x = TYPE_COMP" by (rule chain_owner [OF y])
  note depth_child [OF assms(2) y]
  then have "parents_next (Suc MAX_COMP_NESTING) db x = parents_next MAX_COMP_NESTING db x"
    using parents_next_depth [OF assms(1,2) _ x, of MAX_COMP_NESTING "Suc MAX_COMP_NESTING"] by simp
  moreover have "next_in_comp db y = None" using chain_next [OF assms(1,3)] Nil by simp
  moreover have "o_parent_comp (objs db y) = Some x" using chain_typed [OF assms(1) y] by simp
  ultimately show ?thesis using Nil by (simp add: comp_end_def split: option.splits)
next
  case (Cons z zs')
  then show ?thesis using chain_next [OF assms(1,3)] by (simp add: comp_end_def)
qed

lemma comps_below_Cons: "\<exists>ys. comps_below n db x = x # ys"
  by (cases n) simp_all

lemma comps_below_leaf: "chain db TYPE_COMP x = [] \<Longrightarrow> comps_below n db x = [x]"
  by (cases n) simp_all

lemma head_comps_below [simp]: "head_or e (comps_below n db x) = Some x"
  using comps_below_Cons [of n db x] by auto

lemma head_concat_comps:
  "head_or e (concat (map (comps_below n db) xs)) = head_or e xs"
  by (cases xs) simp_all

lemma comps_below_follows:
  assumes "chains_ok db" and "depth_ok d db"
  shows "MAX_COMP_NESTING \<le> n + d x \<Longrightarrow> type_of db x = TYPE_COMP \<Longrightarrow>
    follows (\<lambda>y. comp_get_next db (Some y)) (comps_below n db x) (comp_end db x)"
proof (induction n arbitrary: x)
  case 0
  have "chain db TYPE_COMP x = []"
  proof (cases "chain db TYPE_COMP x")
    case (Cons y ys)
    with depth_child [OF assms(2), of y x] have "d y = Suc (d x)" "d y \<le> MAX_COMP_NESTING" by simp_all
    with 0 show ?thesis by simp
  qed simp
  with 0 show ?case by (simp add: comp_get_next_head)
next
  case (Suc n)
  have "follows (\<lambda>y. comp_get_next db (Some y)) (concat (map (comps_below n db) zs)) (comp_end db x)"
    if "chain db TYPE_COMP x = ys @ zs" for ys zs
    using that
  proof (induction zs arbitrary: ys)
    case (Cons z zs)
    have z: "z \<in> set (chain db TYPE_COMP x)" using Cons.prems by simp
    with depth_child [OF assms(2)] have "d z = Suc (d x)" by blast
    then have "follows (\<lambda>y. comp_get_next db (Some y)) (comps_below n db z) (comp_end db z)"
      using Suc.IH [of z] Suc.prems chain_typed [OF assms(1) z] by simp
    moreover have "comp_end db z = head_or (comp_end db x) zs"
      by (rule comp_end_child [OF assms Cons.prems])
    ultimately show ?case using Cons.IH [of "ys @ [z]"] Cons.prems by (simp add: head_concat_comps)
  qed simp
  from this [of "[]" "chain db TYPE_COMP x"] show ?case
    using Suc.prems by (simp add: comp_get_next_head head_concat_comps)
qed

lemma comps_below_typed:
  assumes "chains_ok db"
  shows "type_of db x = TYPE_COMP \<Longrightarrow> y \<in> set (comps_below n db x) \<Longrightarrow> type_of db y = TYPE_COMP"
proof (induction n arbitrary: x)
  case (Suc n)
  then show ?case using chain_typed(2) [OF assms, of _ TYPE_COMP x] by auto
qed simp

lemma all_comps_typed: "tree_ok db \<Longrightarrow> x \<in> set (all_comps db) \<Longrightarrow> type_of db x = TYPE_COMP"
  using comps_below_typed [of db]
  by (auto simp: all_comps_def tree_ok_def split: option.splits)

lemma all_comps_follows:
  assumes "tree_ok db"
  shows "follows (\<lambda>y. comp_get_next db (Some y)) (all_comps db) None"
proof (cases "system_comp db")
  case None
  then show ?thesis by (simp add: all_comps_def)
next
  case (Some r)
  with assms obtain d where d: "chains_ok db" "depth_ok d db" "type_of db r = TYPE_COMP" "o_parent_comp (objs db r) = None"
    by (auto simp: tree_ok_def)
  have "comp_end db r = None" using d(4) by (simp add: comp_end_def next_in_comp_def)
  with comps_below_follows [OF d(1,2), of MAX_COMP_NESTING r] d(3) Some
  show ?thesis by (simp add: all_comps_def)
qed

text \<open>The walk over the components is an enumeration of the tree.\<close>

interpretation comps: enumeration tree_ok all_comps "\<lambda>db x. comp_get_next db (Some x)"
  by unfold_locales (rule all_comps_follows)

section \<open>The walk over all objects of a type\<close>

lemma find_concat_head:
  "map_option (\<lambda>x. hd (f x)) (List.find (\<lambda>x. f x \<noteq> []) xs) = head_or None (concat (map f xs))"
proof (induction xs)
  case (Cons x xs)
  then show ?case by (cases "f x") simp_all
qed simp

lemma comp_get_next_type_rest:
  assumes "tree_ok db" and "ty \<noteq> TYPE_COMP" and "ty \<noteq> TYPE_ANY" and "all_comps db = ys @ zs"
  shows "comp_get_next_type db (head_or None zs) ty = Some (head_or None (concat (map (chain db ty) zs)))"
proof -
  have "comp_get_next_type db (head_or None zs) ty =
      Some (map_option (\<lambda>x. hd (chain db ty x)) (List.find (\<lambda>x. chain db ty x \<noteq> []) zs))"
  proof (rule comps.search_rest [where search = "\<lambda>cp. comp_get_next_type db cp ty", OF assms(1) _ _ assms(4)])
    show "comp_get_next_type db None ty = Some None" by (subst comp_get_next_type.simps) simp
  next
    fix x
    assume "x \<in> set (all_comps db)"
    then obtain c where "comp_of db x = Some c"
      using all_comps_typed [OF assms(1)] comp_of_type [of db x] by auto
    then show "comp_get_next_type db (Some x) ty =
        (if chain db ty x \<noteq> [] then Some (Some (hd (chain db ty x)))
         else Option.bind (comp_get_next db (Some x)) (\<lambda>cp. comp_get_next_type db cp ty))"
      using assms(2,3) by (subst comp_get_next_type.simps) (simp add: chain_def split: list.split)
  qed
  then show ?thesis by (simp add: find_concat_head)
qed

lemma chain_follows:
  assumes "tree_ok db" and "ty \<noteq> TYPE_COMP" and "ty \<noteq> TYPE_ANY" and "all_comps db = ys @ p # zs"
  shows "chain db ty p = us @ vs \<Longrightarrow>
    follows (\<lambda>x. sys_get_next_type db x ty) vs (head_or None (concat (map (chain db ty) zs)))"
proof (induction vs arbitrary: us)
  case (Cons x vs)
  have ok: "chains_ok db" using assms(1) by (simp add: tree_ok_def)
  have x: "type_of db x = ty" "o_parent_comp (objs db x) = Some p"
    using chain_typed [OF ok, of x ty p] Cons.prems by simp_all
  have "comp_get_next db (Some p) = Some (head_or None zs)"
    using comps.step_law [OF assms(1)] assms(4) by simp
  then have "sys_get_next_type db x ty = Some (head_or (head_or None (concat (map (chain db ty) zs))) vs)"
    using x assms comp_get_next_type_rest [of db ty "ys @ [p]" zs] chain_next [OF ok Cons.prems]
    by (cases vs) (simp_all add: sys_get_next_type_def)
  then show ?case using Cons.IH [of "us @ [x]"] Cons.prems by simp
qed simp

lemma sys_objs_follows:
  assumes "tree_ok db" and "ty \<noteq> TYPE_ANY"
  shows "follows (\<lambda>x. sys_get_next_type db x ty) (sys_objs ty db) None"
proof (cases "ty = TYPE_COMP")
  case True
  have "follows (\<lambda>x. sys_get_next_type db x ty) xs e"
    if "follows (\<lambda>x. comp_get_next db (Some x)) xs e" "\<And>x. x \<in> set xs \<Longrightarrow> type_of db x = TYPE_COMP" for xs e
    using that by (induction xs) (auto simp: sys_get_next_type_def)
  then show ?thesis
    using True comps.step_law [OF assms(1)] all_comps_typed [OF assms(1)] by (simp add: sys_objs_def)
next
  case False
  have "follows (\<lambda>x. sys_get_next_type db x ty) (concat (map (chain db ty) zs)) None"
    if "all_comps db = ys @ zs" for ys zs
    using that
  proof (induction zs arbitrary: ys)
    case (Cons z zs)
    then show ?case
      using Cons.IH [of "ys @ [z]"] chain_follows [OF assms(1) False assms(2) Cons.prems, of "[]"] by simp
  qed simp
  then show ?thesis using False by (simp add: sys_objs_def)
qed

lemma sys_objs_first:
  assumes "tree_ok db" and "system_comp db \<noteq> None" and "ty \<noteq> TYPE_ANY"
  shows "sys_get_first_type db ty = Some (head_or None (sys_objs ty db))"
proof -
  have "head_or None (all_comps db) = system_comp db"
    using assms(2) by (auto simp: all_comps_def)
  then show ?thesis
    using comp_get_next_type_rest [OF assms(1) _ assms(3), of "[]" "all_comps db"] assms
    by (auto simp: sys_get_first_type_def sys_objs_def)
qed

lemma sys_objs_typed:
  assumes "tree_ok db" and "x \<in> set (sys_objs ty db)"
  shows "type_of db x = ty"
  using assms all_comps_typed [OF assms(1), of x] chain_typed(2) [of db x ty]
  by (auto simp: sys_objs_def tree_ok_def split: if_splits)

text \<open>The walk in the system is an enumeration of all objects of a type.\<close>

interpretation sys: enumeration "\<lambda>db. tree_ok db \<and> ty \<noteq> TYPE_ANY" "sys_objs ty" "\<lambda>db x. sys_get_next_type db x ty"
  for ty
  by unfold_locales (blast intro: sys_objs_follows)

section \<open>Lookup by name\<close>

definition has_name :: "db \<Rightarrow> name \<Rightarrow> oid \<Rightarrow> bool" where
  "has_name db n x \<longleftrightarrow> i_name (inst db (base x)) = n"

lemma rel_to_type_to_rel [simp]: "ty \<noteq> TYPE_ANY \<Longrightarrow> rel_to_type (type_to_rel ty) = ty"
  by (cases ty) (simp_all add: rel_to_type_def type_to_rel_def)

lemma get_by_name_rel_finds:
  assumes "tree_ok db" and "system_comp db \<noteq> None" and "ty \<noteq> TYPE_ANY"
  shows "get_by_name_rel db n (type_to_rel ty) = Some (List.find (has_name db n) (sys_objs ty db))"
proof -
  have "find_in_sys db n (head_or None (sys_objs ty db)) =
      Some (map_option (\<lambda>x. x) (List.find (has_name db n) (sys_objs ty db)))"
  proof (rule sys.search_all)
    show "find_in_sys db n None = Some None" by (subst find_in_sys.simps) simp
  next
    fix x
    assume "x \<in> set (sys_objs ty db)"
    then have "type_of db x = ty" by (rule sys_objs_typed [OF assms(1)])
    then show "find_in_sys db n (Some x) =
        (if has_name db n x then Some (Some x) else Option.bind (sys_get_next_type db x ty) (find_in_sys db n))"
      by (subst find_in_sys.simps) (simp add: has_name_def myrefl_obj_get_next_rel_def)
  qed (use assms in simp)
  then show ?thesis
    using assms(2) by (simp add: get_by_name_rel_def myrefl_obj_get_first_rel_def assms(3) option.map_ident
        sys_objs_first [OF assms] del: not_None_eq)
qed

text \<open>The order in which a lookup of any type goes through the objects.\<close>

definition lookup_order :: "obj_type \<Rightarrow> db \<Rightarrow> oid list" where
  "lookup_order ty db =
     (if ty = TYPE_ANY then concat (map (\<lambda>t. sys_objs t db) [TYPE_NONE, TYPE_COMP, TYPE_TEST, TYPE_RULE, TYPE_ACTION])
      else sys_objs ty db)"

lemma find_append: "List.find p (xs @ ys) = (case List.find p xs of None \<Rightarrow> List.find p ys | Some x \<Rightarrow> Some x)"
  by (induction xs) auto

lemma by_name_finds:
  assumes "tree_ok db" and "system_comp db \<noteq> None"
  shows "myrefl_obj_get_by_name db (Some n) ty = Some (List.find (has_name db n) (lookup_order ty db))"
proof (cases "ty = TYPE_ANY")
  case True
  note f = get_by_name_rel_finds [OF assms, of _ n]
  have r: "REL_NONE = type_to_rel TYPE_NONE" "REL_COMP = type_to_rel TYPE_COMP" "REL_TEST = type_to_rel TYPE_TEST"
    "REL_RULE = type_to_rel TYPE_RULE" "REL_ACTION = type_to_rel TYPE_ACTION"
    by (simp_all add: type_to_rel_def)
  show ?thesis
    using True unfolding r by (simp add: myrefl_obj_get_by_name_def lookup_order_def r f find_append split: option.split)
next
  case False
  have "List.find (has_name db n) (sys_objs TYPE_COMP db) = system_comp db"
    if "has_name db n (the (system_comp db))"
    using assms(2) that comps_below_Cons [of MAX_COMP_NESTING db "the (system_comp db)"]
    by (auto simp: sys_objs_def all_comps_def)
  then show ?thesis
    using False assms get_by_name_rel_finds [OF assms False, of n]
    by (auto simp: myrefl_obj_get_by_name_def lookup_order_def has_name_def)
qed

end
