(* ===== verification/Depend.thy ===== *)
theory Depend
  imports ObjDb
begin

text \<open>
  The dependencies between rules and components (\<^verbatim>\<open>src/src/myrefl_rci.c\<close>, first half): the links
  from parents to children, the loop check, and the domains that are meant to make the loop
  check cheap. Two objects of one domain are connected by dependencies, in either direction;
  \<open>d_reachable\<close> lists the domains that a domain leads to.
\<close>

section \<open>The code\<close>

text \<open>The search of \<open>target\<close> below \<open>tree\<close>; on a cycle that does not contain the target it does
  not return, \<open>None\<close>. \<open>any_child\<close> is the loop over the children.\<close>

primrec any_child :: "(oid \<Rightarrow> bool option) \<Rightarrow> oid list \<Rightarrow> bool option" where
  "any_child f [] = Some False"
| "any_child f (x # xs) = Option.bind (f x) (\<lambda>found. if found then Some True else any_child f xs)"

lemma any_child_mono [partial_function_mono]:
  assumes "\<And>x. mono_option (\<lambda>f. F f x)"
  shows "mono_option (\<lambda>f. any_child (F f) xs)"
proof (induction xs)
  case Nil
  then show ?case by (simp add: monotone_def option.leq_refl)
next
  case (Cons x xs)
  have "mono_option (\<lambda>f. Option.bind (F f x) (\<lambda>b. if b then Some True else any_child (F f) xs))"
  proof (rule bind_mono [OF assms])
    fix b
    show "mono_option (\<lambda>f. if b then Some True else any_child (F f) xs)"
      using Cons.IH by (cases b) (simp_all add: monotone_def option.leq_refl)
  qed
  then show ?case by simp
qed

partial_function (option) is_obj_in_tree :: "db \<Rightarrow> oid \<Rightarrow> oid \<Rightarrow> bool option" where
  "is_obj_in_tree db target tree =
     (if tree = target then Some True
      else any_child (is_obj_in_tree db target) (o_child_depend (objs db tree)))"

definition myrefl_is_domain_reachable :: "nat \<Rightarrow> nat \<Rightarrow> db \<Rightarrow> bool" where
  "myrefl_is_domain_reachable container target db =
     (case List.find (\<lambda>d. d_number d = container) (domains db) of
        None \<Rightarrow> False | Some d \<Rightarrow> target \<in> set (d_reachable d))"

definition myrefl_depend_found_comp :: "oid list \<Rightarrow> oid \<Rightarrow> db \<Rightarrow> bool" where
  "myrefl_depend_found_comp dependencies cp db =
     list_ex (\<lambda>x. o_parent_comp (objs db x) = Some cp) dependencies"

text \<open>
  The walk over the domains when the parent is in domain \<open>pd\<close> and the child in another, \<open>cd\<close>.
  \<open>seen\<close>: the domain of the parent has been passed. The answer is \<open>False\<close> when a loop was
  detected, which ends the walk and takes \<open>cd\<close> out again from the parent's domain.
\<close>

definition add_reachable :: "nat \<Rightarrow> loop_domain \<Rightarrow> loop_domain" where
  "add_reachable n d = d\<lparr>d_reachable := list_add n (d_reachable d)\<rparr>"

primrec domain_walk ::
  "nat \<Rightarrow> nat \<Rightarrow> bool option \<Rightarrow> loop_domain list \<Rightarrow> (bool \<times> loop_domain list) option" where
  "domain_walk pd cd in_tree [] = Some (True, [])"
| "domain_walk pd cd in_tree (d # ds) =
     (let continue = (\<lambda>d. map_option (\<lambda>(ok, ds). (ok, d # ds)) (domain_walk pd cd in_tree ds)) in
      if d_number d = pd then
        map_option (\<lambda>(ok, ds).
            (ok, (if ok then add_reachable cd d
                  else (add_reachable cd d)\<lparr>d_reachable :=
                         remove1 cd (d_reachable (add_reachable cd d))\<rparr>) # ds))
          (domain_walk pd cd in_tree ds)
      else if d_number d = cd then
        (if pd \<in> set (d_reachable d) then
           Option.bind in_tree (\<lambda>loop. if loop then Some (False, d # ds) else continue d)
         else continue d)
      else if pd \<in> set (d_reachable d) then continue (add_reachable cd d)
      else continue d)"

definition set_domain :: "oid \<Rightarrow> nat \<Rightarrow> db \<Rightarrow> db" where
  "set_domain ob n = upd_obj ob (\<lambda>x. x\<lparr>o_domain := n\<rparr>)"

text \<open>Lines 224 to 335: may the two be connected, and the domains after the check.\<close>

definition domain_check :: "oid \<Rightarrow> oid \<Rightarrow> db \<Rightarrow> (bool \<times> db) option" where
  "domain_check parent child db =
     (let pd = o_domain (objs db parent); cd = o_domain (objs db child) in
      if pd = 0 then
        (if cd = 0 then
           (let n = next_domain db;
                db = db\<lparr>next_domain := n + 1, domains := \<lparr>d_number = n, d_reachable = []\<rparr> # domains db\<rparr>
            in Some (True, set_domain parent n (set_domain child n db)))
         else Some (True, set_domain parent cd db))
      else if cd = 0 then Some (True, set_domain child pd db)
      else if cd = pd then
        map_option (\<lambda>loop. (\<not> loop, db)) (is_obj_in_tree db parent child)
      else
        map_option (\<lambda>(ok, ds). (ok, db\<lparr>domains := ds\<rparr>))
          (domain_walk pd cd (is_obj_in_tree db parent child) (domains db)))"

text \<open>Lines 337 to 363: the links, and the boundary of the component they share.\<close>

definition depend_link :: "oid \<Rightarrow> oid \<Rightarrow> db \<Rightarrow> db option" where
  "depend_link parent child db =
     (let db = upd_obj parent (\<lambda>x. x\<lparr>o_child_depend := list_add child (o_child_depend x)\<rparr>) db;
          db = upd_obj child (\<lambda>x. x\<lparr>o_parent_depend := list_add parent (o_parent_depend x)\<rparr>) db
      in case o_parent_comp (objs db parent) of None \<Rightarrow> Some db
         | Some cp \<Rightarrow>
             if o_parent_comp (objs db child) = Some cp then do {
               (ok, db) \<leftarrow> myrefl_obj_validate (Some cp) TYPE_COMP db;
               Some (if ok then set_comp cp (\<lambda>c. c\<lparr>c_top_depend := remove1 child (c_top_depend c),
                         c_bottom_depend := remove1 parent (c_bottom_depend c)\<rparr>) db
                     else db) }
             else Some db)"

definition depend_type_ok :: "db \<Rightarrow> oid option \<Rightarrow> bool" where
  "depend_type_ok db p =
     (case p of None \<Rightarrow> False | Some ob \<Rightarrow> type_of db ob \<in> {TYPE_COMP, TYPE_RULE, TYPE_NONE})"

text \<open>\<open>myrefl_depend_create\<close> from line 208 on, when both names have been resolved.\<close>

definition depend_connect :: "oid \<Rightarrow> oid \<Rightarrow> db \<Rightarrow> db option" where
  "depend_connect parent child db =
     (if parent = child then Some db
      else if child \<in> set (o_child_depend (objs db parent)) \<or>
              parent \<in> set (o_parent_depend (objs db child)) then Some db
      else do {
        (ok, db) \<leftarrow> domain_check parent child db;
        if ok then depend_link parent child db else Some db })"

section \<open>The search decides reachability\<close>

definition child_edges :: "db \<Rightarrow> (oid \<times> oid) set" where
  "child_edges db = {(x, y). y \<in> set (o_child_depend (objs db x))}"

lemma child_edges_iff [simp]: "(x, y) \<in> child_edges db \<longleftrightarrow> y \<in> set (o_child_depend (objs db x))"
  by (simp add: child_edges_def)

text \<open>An order of the objects in which every child comes before its parents.\<close>

definition depend_ranked :: "(oid \<Rightarrow> nat) \<Rightarrow> db \<Rightarrow> bool" where
  "depend_ranked rank db \<longleftrightarrow> (\<forall>x y. (x, y) \<in> child_edges db \<longrightarrow> rank y < rank x)"

lemma any_child_Some:
  "(\<And>x. x \<in> set xs \<Longrightarrow> f x = Some (P x)) \<Longrightarrow> any_child f xs = Some (\<exists>x \<in> set xs. P x)"
  by (induction xs) auto

lemma in_tree_decides:
  assumes "depend_ranked rank db"
  shows "is_obj_in_tree db target tree = Some ((tree, target) \<in> (child_edges db)\<^sup>*)"
proof (induction "rank tree" arbitrary: tree rule: less_induct)
  case less
  have step: "is_obj_in_tree db target x = Some ((x, target) \<in> (child_edges db)\<^sup>*)"
    if "x \<in> set (o_child_depend (objs db tree))" for x
    using that assms by (intro less) (simp add: depend_ranked_def)
  have "any_child (is_obj_in_tree db target) (o_child_depend (objs db tree)) =
      Some (\<exists>x \<in> set (o_child_depend (objs db tree)). (x, target) \<in> (child_edges db)\<^sup>*)"
    by (rule any_child_Some [OF step])
  moreover have "(tree, target) \<in> (child_edges db)\<^sup>* \<longleftrightarrow>
      tree = target \<or> (\<exists>x \<in> set (o_child_depend (objs db tree)). (x, target) \<in> (child_edges db)\<^sup>*)"
    by (auto elim: converse_rtranclE intro: converse_rtrancl_into_rtrancl)
  ultimately show ?case by (subst is_obj_in_tree.simps) auto
qed

section \<open>Connecting two objects\<close>

text \<open>
  What the domains promise when they are complete: a connected object has a domain, the domain
  is on the list, and a domain lists every other domain it leads to.
\<close>

definition domains_complete :: "db \<Rightarrow> bool" where
  "domains_complete db \<longleftrightarrow>
     (\<forall>x y. (x, y) \<in> child_edges db \<longrightarrow> o_domain (objs db x) \<noteq> 0 \<and> o_domain (objs db y) \<noteq> 0) \<and>
     (\<forall>x. o_domain (objs db x) \<noteq> 0 \<longrightarrow> (\<exists>d \<in> set (domains db). d_number d = o_domain (objs db x))) \<and>
     (\<forall>x y d. (x, y) \<in> (child_edges db)\<^sup>* \<longrightarrow> d \<in> set (domains db) \<longrightarrow> d_number d = o_domain (objs db x) \<longrightarrow>
        o_domain (objs db y) \<noteq> d_number d \<longrightarrow> o_domain (objs db y) \<in> set (d_reachable d))"

definition depends_symmetric :: "db \<Rightarrow> bool" where
  "depends_symmetric db \<longleftrightarrow>
     (\<forall>x y. y \<in> set (o_child_depend (objs db x)) \<longleftrightarrow> x \<in> set (o_parent_depend (objs db y)))"

lemma domain_walk_no_loop:
  "\<exists>ds'. domain_walk pd cd (Some False) ds = Some (True, ds')"
  by (induction ds) (auto simp: Let_def)

lemma domain_walk_loop:
  assumes "pd \<noteq> cd" and "d \<in> set ds" and "d_number d = cd"
    and "\<And>d. d \<in> set ds \<Longrightarrow> d_number d = cd \<Longrightarrow> pd \<in> set (d_reachable d)"
  shows "\<exists>ds'. domain_walk pd cd (Some True) ds = Some (False, ds')"
  using assms by (induction ds) (auto simp: Let_def)

text \<open>The objects are the same up to their domains.\<close>

definition same_but_domains :: "db \<Rightarrow> db \<Rightarrow> bool" where
  "same_but_domains db db' \<longleftrightarrow> insts db' = insts db \<and>
     (\<forall>x. (objs db' x)\<lparr>o_domain := 0\<rparr> = (objs db x)\<lparr>o_domain := 0\<rparr>)"

lemma same_but_domainsD:
  assumes "same_but_domains db db'"
  shows "insts db' = insts db" "o_data (objs db' x) = o_data (objs db x)"
    "o_parent_comp (objs db' x) = o_parent_comp (objs db x)"
    "o_child_depend (objs db' x) = o_child_depend (objs db x)"
    "o_parent_depend (objs db' x) = o_parent_depend (objs db x)"
    "o_ref_rule (objs db' x) = o_ref_rule (objs db x)" "o_members (objs db' x) = o_members (objs db x)"
proof -
  have *: "(objs db' x)\<lparr>o_domain := 0\<rparr> = (objs db x)\<lparr>o_domain := 0\<rparr>" and "insts db' = insts db"
    using assms by (auto simp: same_but_domains_def)
  show "insts db' = insts db" by fact
  show "o_data (objs db' x) = o_data (objs db x)" using arg_cong [OF *, of o_data] by simp
  show "o_parent_comp (objs db' x) = o_parent_comp (objs db x)" using arg_cong [OF *, of o_parent_comp] by simp
  show "o_child_depend (objs db' x) = o_child_depend (objs db x)" using arg_cong [OF *, of o_child_depend] by simp
  show "o_parent_depend (objs db' x) = o_parent_depend (objs db x)" using arg_cong [OF *, of o_parent_depend] by simp
  show "o_ref_rule (objs db' x) = o_ref_rule (objs db x)" using arg_cong [OF *, of o_ref_rule] by simp
  show "o_members (objs db' x) = o_members (objs db x)" using arg_cong [OF *, of o_members] by simp
qed

lemma same_but_domains_ops [simp]:
  "same_but_domains db db" "same_but_domains db (db0\<lparr>domains := ds\<rparr>) = same_but_domains db db0"
  "same_but_domains db (db0\<lparr>next_domain := n\<rparr>) = same_but_domains db db0"
  "same_but_domains db (set_domain a k db0) = same_but_domains db db0"
  by (auto simp: same_but_domains_def set_domain_def upd_obj_def)

lemma domain_check_decides:
  assumes rk: "depend_ranked rank db" and dc: "domains_complete db" and ne: "parent \<noteq> child"
  shows "\<exists>db'. domain_check parent child db = Some ((child, parent) \<notin> (child_edges db)\<^sup>*, db') \<and>
    same_but_domains db db'"
proof -
  let ?pd = "o_domain (objs db parent)" and ?cd = "o_domain (objs db child)"
  let ?loop = "(child, parent) \<in> (child_edges db)\<^sup>*"
  have edge0: "x = y" if "(x, y) \<in> (child_edges db)\<^sup>*" "o_domain (objs db x) = 0 \<or> o_domain (objs db y) = 0" for x y
    using that dc unfolding domains_complete_def by (metis converse_rtranclE rtranclE)
  have tree: "is_obj_in_tree db parent child = Some ?loop" by (rule in_tree_decides [OF rk])
  show ?thesis
  proof (cases "?pd = 0 \<or> ?cd = 0")
    case True
    then have nl: "\<not> ?loop" using edge0 ne by metis
    show ?thesis using True nl by (auto simp: domain_check_def Let_def)
  next
    case False
    show ?thesis
    proof (cases "?cd = ?pd")
      case True
      then show ?thesis using False tree by (auto simp: domain_check_def)
    next
      case diff: False
      have "\<exists>ds. domain_walk ?pd ?cd (Some ?loop) (domains db) = Some (\<not> ?loop, ds)"
      proof (cases ?loop)
        case True
        obtain d where "d \<in> set (domains db)" "d_number d = ?cd"
          using dc False unfolding domains_complete_def by blast
        moreover have "?pd \<in> set (d_reachable d)" if "d \<in> set (domains db)" "d_number d = ?cd" for d
          using that dc True diff unfolding domains_complete_def by metis
        ultimately show ?thesis using domain_walk_loop [of ?pd ?cd d] diff True by auto
      qed (use domain_walk_no_loop in simp)
      then show ?thesis using False diff tree by (auto simp: domain_check_def)
    qed
  qed
qed

text \<open>The invariant \<open>linked\<close> does not read dependencies and domains.\<close>

lemma linked_same:
  assumes "\<And>x. o_data (objs db' x) = o_data (objs db x)"
    and "\<And>x. o_parent_comp (objs db' x) = o_parent_comp (objs db x)"
    and "\<And>x. o_ref_rule (objs db' x) = o_ref_rule (objs db x)" and "insts db' = insts db"
  shows "linked db' = linked db" and "obj_valid db' = obj_valid db"
proof -
  have r: "rule_of db' = rule_of db" "action_of db' = action_of db" "input_head db' = input_head db"
    "type_of db' = type_of db"
    by (intro ext, simp add: rule_of_def action_of_def input_head_def type_of_def assms
        cong: obj_data.case_cong)+
  show "linked db' = linked db"
    by (simp add: linked_def obj_linked_def inputs_linked_def r assms inst_def
        cong: obj_data.case_cong option.case_cong)
  show "obj_valid db' = obj_valid db"
    by (intro ext) (simp add: obj_valid_def r assms inst_def cong: obj_data.case_cong option.case_cong)
qed

lemma set_comp_reads:
  "o_child_depend (objs (set_comp a f db) x) = o_child_depend (objs db x)"
  "o_parent_depend (objs (set_comp a f db) x) = o_parent_depend (objs db x)"
  "o_parent_comp (objs (set_comp a f db) x) = o_parent_comp (objs db x)"
  by (simp_all add: set_comp_def upd_obj_def)

lemma depend_link_linked:
  assumes l: "linked db"
  shows "\<exists>db'. depend_link parent child db = Some db' \<and>
    child_edges db' = insert (parent, child) (child_edges db) \<and>
    (depends_symmetric db \<longrightarrow> depends_symmetric db')"
proof -
  define db1 where "db1 =
    upd_obj child (\<lambda>x. x\<lparr>o_parent_depend := list_add parent (o_parent_depend x)\<rparr>)
      (upd_obj parent (\<lambda>x. x\<lparr>o_child_depend := list_add child (o_child_depend x)\<rparr>) db)"
  have l1: "linked db1" using l by (subst linked_same(1)) (auto simp: db1_def upd_obj_def)
  have e1: "child_edges db1 = insert (parent, child) (child_edges db)"
    by (auto simp: child_edges_def db1_def upd_obj_def split: if_splits)
  have s1: "depends_symmetric db \<longrightarrow> depends_symmetric db1"
    by (auto simp: depends_symmetric_def db1_def upd_obj_def)
  have keep: "child_edges (set_comp cp f db1) = child_edges db1"
    "depends_symmetric (set_comp cp f db1) = depends_symmetric db1" for cp f
    by (auto simp: child_edges_def depends_symmetric_def set_comp_reads)
  have "\<exists>db'. depend_link parent child db = Some db' \<and> (db' = db1 \<or> (\<exists>cp f. db' = set_comp cp f db1))"
    unfolding depend_link_def Let_def db1_def [symmetric]
    by (auto simp: validate_linked [OF l1] split: option.splits)
  then show ?thesis using e1 s1 keep by metis
qed

text \<open>
  Connecting two objects returns; the edge is there unless it would close a loop; the result is
  acyclic again.
\<close>

lemma depend_connect_spec:
  assumes l: "linked db" and rk: "depend_ranked rank db" and dc: "domains_complete db"
    and sym: "depends_symmetric db"
  shows "\<exists>db' rank'. depend_connect parent child db = Some db' \<and> depend_ranked rank' db' \<and>
    depends_symmetric db' \<and>
    child_edges db' = (if (child, parent) \<in> (child_edges db)\<^sup>* then child_edges db
                       else insert (parent, child) (child_edges db))"
proof (cases "parent = child \<or> (parent, child) \<in> child_edges db")
  case True
  from True have "depend_connect parent child db = Some db"
    using sym by (auto simp: depend_connect_def depends_symmetric_def)
  moreover have "child_edges db = (if (child, parent) \<in> (child_edges db)\<^sup>* then child_edges db
                       else insert (parent, child) (child_edges db))"
    using True by auto
  ultimately show ?thesis using rk sym by blast
next
  case False
  let ?E = "child_edges db" and ?loop = "(child, parent) \<in> (child_edges db)\<^sup>*"
  obtain db1 where db1: "domain_check parent child db = Some (\<not> ?loop, db1)" "same_but_domains db db1"
    using domain_check_decides [OF rk dc] False by blast
  note same = same_but_domainsD [OF db1(2)]
  have e1: "child_edges db1 = ?E" and s1: "depends_symmetric db1" and l1: "linked db1"
    using sym l linked_same(1) [of db1 db] by (auto simp: child_edges_def depends_symmetric_def same)
  have con: "depend_connect parent child db = (if ?loop then Some db1 else depend_link parent child db1)"
    using False sym db1(1) by (auto simp: depend_connect_def depends_symmetric_def)
  show ?thesis
  proof (cases ?loop)
    case True
    have "depend_ranked rank db1" using rk by (simp add: depend_ranked_def e1 del: child_edges_iff)
    with True show ?thesis using con e1 s1 by auto
  next
    case nl: False
    obtain db2 where db2: "depend_link parent child db1 = Some db2"
      "child_edges db2 = insert (parent, child) ?E" "depends_symmetric db2"
      using depend_link_linked [OF l1, of parent child] e1 s1 by auto
    define rank' where "rank' x = (if (x, parent) \<in> ?E\<^sup>* then rank x + rank child + 1 else rank x)" for x
    have "rank' y < rank' x" if "(x, y) \<in> child_edges db2" for x y
    proof (cases "(x, y) \<in> ?E")
      case True
      then have "rank y < rank x" using rk by (auto simp: depend_ranked_def)
      moreover have "(y, parent) \<in> ?E\<^sup>* \<Longrightarrow> (x, parent) \<in> ?E\<^sup>*"
        using True by (rule converse_rtrancl_into_rtrancl)
      ultimately show ?thesis by (auto simp: rank'_def)
    next
      case False
      then show ?thesis using that db2(2) nl by (auto simp: rank'_def)
    qed
    then have "depend_ranked rank' db2" by (simp add: depend_ranked_def del: child_edges_iff)
    then show ?thesis using con nl db2 by auto
  qed
qed

section \<open>The domains do not stay complete\<close>

text \<open>A database of objects that are known by name only.\<close>

definition blank_stats :: obj_stats where
  "blank_stats = \<lparr>runs = 0, passes = 0, failures = 0, aborts = 0,
     history = replicate OBJ_HISTORY_SIZE
       \<lparr>h_time = XosTime 0 0, h_result = RESULT_INVALID, h_count = 0, h_value = 0\<rparr>, history_head = 0\<rparr>"

definition blank_instance :: obj_instance where
  "blank_instance = \<lparr>i_name = [], i_context = 0, i_state = STATE_ALLOCATED,
     i_default_state = STATE_ALLOCATED, i_cli_state = STATE_INVALID, i_flags = 0, i_stats = blank_stats,
     i_last_result = RESULT_PASS, i_last_value = 0, i_last_result_count = 0, i_fail_count = 0,
     i_rule_data = None, i_sched = \<lparr>queued = QUEUE_NONE, last_time = XosTime 0 0, next_time = XosTime 0 0\<rparr>,
     i_root_cause = RC_NOT, i_action_run = False, i_in_use = 0\<rparr>"

definition blank_obj :: obj where
  "blank_obj = \<lparr>o_data = DNone, o_description = None, o_remote_location = False, o_parent_comp = None, o_parent_depend = [],
     o_child_depend = [], o_ref_rule = None, o_domain = 0, o_members = []\<rparr>"

definition blank_health :: comp_health where
  "blank_health = \<lparr>catastrophic = 0, critical = 0, high = 0, medium = 0, low = 0, positive = 0,
     health = 1000, confidence = 0\<rparr>"

definition empty_db :: db where
  "empty_db = \<lparr>objs = \<lambda>_. blank_obj, insts = \<lambda>_. blank_instance, healths = \<lambda>_. blank_health,
     system_comp = None, queues = \<lambda>_. None, queues_blocked = True, start_timer = False, jobs = [],
     free_contexts = [], outs = [], clock = \<lambda>n. XosTime (of_nat n) 0, ticks = 0, domains = [],
     next_domain = 1, next_oid = 0, freeme = []\<rparr>"

definition depend_connects :: "(oid \<times> oid) list \<Rightarrow> db \<Rightarrow> db option" where
  "depend_connects ps db = foldM (\<lambda>(p, c) db. depend_connect p c db) ps db"

text \<open>The databases this produces: the children, the parents and the domain of each object.\<close>

definition graph_db ::
  "(oid \<Rightarrow> oid list) \<Rightarrow> (oid \<Rightarrow> oid list) \<Rightarrow> (oid \<Rightarrow> nat) \<Rightarrow> loop_domain list \<Rightarrow> nat \<Rightarrow> db" where
  "graph_db cs ps dm ds n = empty_db\<lparr>objs := (\<lambda>x. blank_obj\<lparr>o_parent_depend := ps x,
     o_child_depend := cs x, o_domain := dm x\<rparr>), domains := ds, next_domain := n\<rparr>"

lemma empty_graph: "empty_db = graph_db (\<lambda>_. []) (\<lambda>_. []) (\<lambda>_. 0) [] 1"
  by (simp add: graph_db_def empty_db_def blank_obj_def)

lemma graph_reads [simp]:
  "o_child_depend (objs (graph_db cs ps dm ds n) x) = cs x"
  "o_parent_depend (objs (graph_db cs ps dm ds n) x) = ps x"
  "o_domain (objs (graph_db cs ps dm ds n) x) = dm x"
  "o_parent_comp (objs (graph_db cs ps dm ds n) x) = None"
  "domains (graph_db cs ps dm ds n) = ds" "next_domain (graph_db cs ps dm ds n) = n"
  "(graph_db cs ps dm ds n)\<lparr>domains := ds'\<rparr> = graph_db cs ps dm ds' n"
  "(graph_db cs ps dm ds n)\<lparr>next_domain := n', domains := ds'\<rparr> = graph_db cs ps dm ds' n'"
  "set_domain a k (graph_db cs ps dm ds n) = graph_db cs ps (dm(a := k)) ds n"
  by (auto simp: graph_db_def blank_obj_def set_domain_def upd_obj_def fun_eq_iff)

lemma graph_link [simp]:
  "depend_link p c (graph_db cs ps dm ds n) =
     Some (graph_db (cs(p := list_add c (cs p))) (ps(c := list_add p (ps c))) dm ds n)"
proof -
  have "upd_obj c (\<lambda>x. x\<lparr>o_parent_depend := list_add p (o_parent_depend x)\<rparr>)
      (upd_obj p (\<lambda>x. x\<lparr>o_child_depend := list_add c (o_child_depend x)\<rparr>) (graph_db cs ps dm ds n)) =
    graph_db (cs(p := list_add c (cs p))) (ps(c := list_add p (ps c))) dm ds n"
    by (auto simp: graph_db_def blank_obj_def upd_obj_def fun_eq_iff)
  then show ?thesis by (simp add: depend_link_def Let_def)
qed

lemmas connect_eval = depend_connects_def empty_graph depend_connect_def domain_check_def
  is_obj_in_tree.simps Let_def add_reachable_def list_add_def

text \<open>Three pairs, connected to a ring: the loop check does not see the ring.\<close>

lemma ring_evaluates:
  "map_option (\<lambda>db. (map (\<lambda>x. o_child_depend (objs db x)) [0, 1, 2, 3, 4, 5],
       map (\<lambda>d. (d_number d, d_reachable d)) (domains db)))
     (depend_connects [(0, 1), (2, 3), (4, 5), (3, 4), (1, 2), (5, 0)] empty_db) =
   Some ([[1], [2], [3], [4], [5], [0]], [(3, [1]), (2, [1, 3]), (1, [2])])"
  by (simp add: connect_eval numeral_2_eq_2 numeral_3_eq_3)

text \<open>
  A refused connection takes the domain of the child out of the parent's, where an accepted
  one had put it: afterwards the loop is not seen any more.
\<close>

lemma refusal_evaluates:
  "map_option (\<lambda>db. (map (\<lambda>x. o_child_depend (objs db x)) [0, 1, 2, 3, 4],
       map (\<lambda>d. (d_number d, d_reachable d)) (domains db)))
     (depend_connects [(0, 1), (2, 3), (2, 4), (3, 0), (1, 4), (4, 0), (1, 3)] empty_db) =
   Some ([[1], [3, 4], [4, 3], [0], []], [(2, []), (1, [2])])"
  by (simp add: connect_eval numeral_2_eq_2 numeral_3_eq_3)

end
