(* ===== verification/ObjLink.thy ===== *)
theory ObjLink
  imports ObjTree Depend
begin

text \<open>
  Linking objects into components, creating and growing objects (\<^verbatim>\<open>src/src/myrefl_obj.c\<close>), and
  the containment of components with the walk over everything contained in one
  (\<^verbatim>\<open>src/src/myrefl_obj.c\<close> and \<open>myrefl_api_comp_contains\<close> in \<^verbatim>\<open>src/src/myrefl_api.c\<close>).

  Memory from \<open>calloc\<close> is zero; an \<open>obj_state_t\<close> of zero is no enumerator and is written
  \<open>STATE_INVALID\<close>. A new object gets the next \<open>oid\<close>, so an \<open>oid\<close> is never used twice.
\<close>

section \<open>Linking\<close>

definition myrefl_obj_unlink_from_comp :: "oid \<Rightarrow> db \<Rightarrow> db" where
  "myrefl_obj_unlink_from_comp ob db =
     (case o_parent_comp (objs db ob) of
        None \<Rightarrow> db
      | Some p \<Rightarrow>
          let db = set_comp p (map_comp_list (type_of db ob) (remove1 ob)) db;
              db = upd_obj ob (\<lambda>x. x\<lparr>o_parent_comp := None\<rparr>) db
          in set_comp p (\<lambda>c. c\<lparr>c_top_depend := remove1 ob (c_top_depend c),
               c_bottom_depend := remove1 ob (c_bottom_depend c)\<rparr>) db)"

text \<open>Linking an object that is in a component already would join two chains: \<open>None\<close>.\<close>

definition myrefl_obj_comp_link_obj :: "oid \<Rightarrow> oid \<Rightarrow> db \<Rightarrow> db option" where
  "myrefl_obj_comp_link_obj cp ob db =
     (if comp_of db cp = None \<or> o_parent_comp (objs db ob) \<noteq> None then None
      else let db = set_comp cp (map_comp_list (type_of db ob) (\<lambda>xs. ob # xs)) db
           in Some (upd_obj ob (\<lambda>x. x\<lparr>o_parent_comp := Some cp\<rparr>) db))"

definition myrefl_obj_link :: "oid \<Rightarrow> db \<Rightarrow> db option" where
  "myrefl_obj_link ob db = Option.bind (system_comp db) (\<lambda>r. myrefl_obj_comp_link_obj r ob db)"

section \<open>New objects\<close>

definition zero_time :: xos_time where "zero_time = XosTime 0 0"

definition zero_stats :: obj_stats where
  "zero_stats = \<lparr>runs = 0, passes = 0, failures = 0, aborts = 0,
     history = replicate OBJ_HISTORY_SIZE \<lparr>h_time = zero_time, h_result = RESULT_INVALID, h_count = 0, h_value = 0\<rparr>,
     history_head = 0\<rparr>"

definition zero_instance :: obj_instance where
  "zero_instance = \<lparr>i_name = [], i_context = 0, i_state = STATE_INVALID,
     i_default_state = STATE_INVALID, i_cli_state = STATE_INVALID, i_flags = 0, i_stats = zero_stats,
     i_last_result = RESULT_INVALID, i_last_value = 0, i_last_result_count = 0, i_fail_count = 0,
     i_rule_data = None, i_sched = \<lparr>queued = QUEUE_IMMEDIATE, last_time = zero_time, next_time = zero_time\<rparr>,
     i_root_cause = RC_NOT, i_action_run = False, i_in_use = 0\<rparr>"

definition zero_obj :: obj where
  "zero_obj = \<lparr>o_data = DNone, o_description = None, o_remote_location = False, o_parent_comp = None, o_parent_depend = [],
     o_child_depend = [], o_ref_rule = None, o_domain = 0, o_members = []\<rparr>"

definition zero_health :: comp_health where
  "zero_health = \<lparr>catastrophic = 0, critical = 0, high = 0, medium = 0, low = 0, positive = 0,
     health = 0, confidence = 0\<rparr>"

text \<open>The type specific block as \<open>calloc\<close> returns it.\<close>

definition zero_data :: "obj_type \<Rightarrow> obj_data" where
  "zero_data type =
     (case type of
        TYPE_TEST \<Rightarrow> DTest \<lparr>t_type = POLLED, t_rule = None, t_function = None, t_period = 0,
          t_default_period = 0, t_autopass = 0\<rparr>
      | TYPE_RULE \<Rightarrow> DRule \<lparr>r_operator = RULE_INVALID, r_default_operator = RULE_INVALID, r_op_n = 0, r_op_m = 0,
          r_default_op_n = 0, r_default_op_m = 0, r_inputs = [], r_action_list = [], r_output = None,
          r_next_in_input = None, r_severity = 0\<rparr>
      | TYPE_ACTION \<Rightarrow> DAction \<lparr>a_function = None, a_rule_list = []\<rparr>
      | TYPE_COMP \<Rightarrow> DComp \<lparr>c_nones = [], c_tests = [], c_actions = [], c_rules = [], c_comps = [],
          c_top_depend = [], c_bottom_depend = [], c_interested = []\<rparr>
      | _ \<Rightarrow> DNone)"

definition allocate_object_type :: "oid \<Rightarrow> obj_type \<Rightarrow> db \<Rightarrow> bool \<times> db" where
  "allocate_object_type ob type db =
     (if type_of db ob \<noteq> TYPE_NONE then (False, db)
      else let db = upd_obj ob (\<lambda>x. x\<lparr>o_data := zero_data type\<rparr>) db;
               db = (if type = TYPE_COMP then upd_health ob (\<lambda>_. zero_health) db else db)
           in (True, upd_inst (base ob) (\<lambda>i. i\<lparr>i_state := STATE_ALLOCATED\<rparr>) db))"

text \<open>The object of an unknown name; \<open>None\<close> is a \<open>system_comp\<close> that is no component.\<close>

definition new_object :: "name \<Rightarrow> db \<Rightarrow> oid \<times> db" where
  "new_object n db =
     (let ob = next_oid db;
          db = db\<lparr>next_oid := Suc ob, objs := (objs db)(ob := zero_obj)\<rparr>
      in (ob, upd_inst (base ob) (\<lambda>_. zero_instance\<lparr>i_state := STATE_ALLOCATED, i_name := n,
           i_sched := \<lparr>queued = QUEUE_NONE, last_time = zero_time, next_time = zero_time\<rparr>\<rparr>) db))"

definition create_object :: "name \<Rightarrow> obj_type \<Rightarrow> db \<Rightarrow> (oid option \<times> db) option" where
  "create_object n type db =
     (let (ob, db) = new_object n db;
          (ok, db) = allocate_object_type ob type db
      in if \<not> ok then Some (None, db)
         else case system_comp db of
           Some r \<Rightarrow> do {
             db \<leftarrow> myrefl_obj_comp_link_obj r ob db;
             let db = (if type_of db ob = TYPE_RULE \<or> type_of db ob = TYPE_COMP
                       then set_comp r (\<lambda>c. c\<lparr>c_top_depend := list_add ob (c_top_depend c),
                              c_bottom_depend := list_add ob (c_bottom_depend c)\<rparr>) db
                       else db);
             Some (Some ob, db) }
         | None \<Rightarrow>
             if n = SYSTEM_COMP_NAME
             then (if type_of db ob = TYPE_COMP then Some (Some ob, db\<lparr>system_comp := Some ob\<rparr>) else None)
             else Some (Some ob, db))"

definition create_system :: "db \<Rightarrow> (bool \<times> db) option" where
  "create_system db = do {
     (p, db) \<leftarrow> create_object SYSTEM_COMP_NAME TYPE_COMP db;
     (case p of
        None \<Rightarrow> Some (False, db)
      | Some ob \<Rightarrow>
          let db = upd_health ob (\<lambda>h. h\<lparr>health := 1000, confidence := 1000\<rparr>) db
          in Some (True, upd_inst (base ob) (\<lambda>i. i\<lparr>i_state := STATE_ENABLED, i_default_state := STATE_ENABLED,
               i_cli_state := STATE_INITIALIZED\<rparr>) db)) }"

text \<open>An object of no type becomes one of a real type and keeps its component.\<close>

definition grow_object :: "oid \<Rightarrow> obj_type \<Rightarrow> db \<Rightarrow> db option" where
  "grow_object ob type db = do {
     p \<leftarrow> o_parent_comp (objs db ob);
     let db = myrefl_obj_unlink_from_comp ob db;
     let (_, db) = allocate_object_type ob type db;
     myrefl_obj_comp_link_obj p ob db }"

definition live_object :: "oid \<Rightarrow> db \<Rightarrow> oid option \<times> db" where
  "live_object ob db = (if i_state (inst db (base ob)) = STATE_DELETED then None else Some ob, db)"

definition myrefl_obj_get_or_create :: "name \<Rightarrow> obj_type \<Rightarrow> db \<Rightarrow> (oid option \<times> db) option" where
  "myrefl_obj_get_or_create n type db = do {
     (ok, db) \<leftarrow> (if system_comp db = None \<and> n \<noteq> SYSTEM_COMP_NAME then create_system db else Some (True, db));
     if \<not> ok then Some (None, db) else do {
     found \<leftarrow> (if system_comp db \<noteq> None then myrefl_obj_get_by_name db (Some n) TYPE_ANY else Some None);
     (case found of
        Some ob \<Rightarrow>
          if type = TYPE_ANY \<or> type = type_of db ob then Some (live_object ob db)
          else if type \<noteq> TYPE_NONE \<and> type_of db ob = TYPE_NONE then
            map_option (live_object ob) (grow_object ob type db)
          else Some (None, db)
      | None \<Rightarrow> create_object n type db) }}"

section \<open>What the updates change\<close>

lemma comp_list_map [simp]:
  "comp_list ty (map_comp_list ty' f c) = (if ty = ty' \<and> ty \<noteq> TYPE_ANY then f (comp_list ty c) else comp_list ty c)"
  by (cases ty; cases ty') (simp_all add: comp_list_def map_comp_list_def)

lemma comp_list_depend [simp]:
  "comp_list ty (c\<lparr>c_top_depend := t, c_bottom_depend := b\<rparr>) = comp_list ty c"
  by (cases ty) (simp_all add: comp_list_def)

lemma comp_list_any [simp]: "comp_list TYPE_ANY c = []"
  by (simp add: comp_list_def)

lemma set_comp_acc [acc_simps]:
  "comp_of (set_comp p f db) q = (if q = p then map_option f (comp_of db p) else comp_of db q)"
  "type_of (set_comp p f db) = type_of db"
  "o_parent_comp (objs (set_comp p f db) x) = o_parent_comp (objs db x)"
  "o_domain (objs (set_comp p f db) x) = o_domain (objs db x)"
  "system_comp (set_comp p f db) = system_comp db" "next_oid (set_comp p f db) = next_oid db"
  "inst (set_comp p f db) = inst db"
  by (auto simp: set_comp_def upd_obj_def comp_of_def type_of_def inst_def fun_eq_iff split: obj_data.splits)

lemma set_parent_reads [acc_simps]:
  "comp_of (upd_obj ob (\<lambda>x. x\<lparr>o_parent_comp := v\<rparr>) db) = comp_of db"
  "type_of (upd_obj ob (\<lambda>x. x\<lparr>o_parent_comp := v\<rparr>) db) = type_of db"
  "o_parent_comp (objs (upd_obj ob (\<lambda>x. x\<lparr>o_parent_comp := v\<rparr>) db) x) = (if x = ob then v else o_parent_comp (objs db x))"
  "system_comp (upd_obj ob f db) = system_comp db" "next_oid (upd_obj ob f db) = next_oid db"
  "inst (upd_obj ob f db) = inst db"
  by (auto simp: upd_obj_def comp_of_def type_of_def inst_def fun_eq_iff)

lemma chain_set_comp [acc_simps]:
  "chain (set_comp p (map_comp_list ty' f) db) ty y =
     (if y = p \<and> ty = ty' \<and> ty \<noteq> TYPE_ANY \<and> comp_of db p \<noteq> None then f (chain db ty y) else chain db ty y)"
  by (auto simp: chain_def acc_simps split: option.split)

lemma chain_set_depend [acc_simps]:
  "chain (set_comp p (\<lambda>c. c\<lparr>c_top_depend := t c, c_bottom_depend := b c\<rparr>) db) ty y = chain db ty y"
  by (auto simp: chain_def acc_simps split: option.split)

lemma chain_set_parent [acc_simps]:
  "chain (upd_obj ob (\<lambda>x. x\<lparr>o_parent_comp := v\<rparr>) db) ty y = chain db ty y"
  by (simp add: chain_def acc_simps)

lemma type_of_any [simp]: "type_of db x \<noteq> TYPE_ANY"
  by (simp add: type_of_def split: obj_data.split)

lemma link_reads:
  assumes "myrefl_obj_comp_link_obj cp ob db = Some db'"
  shows "type_of db cp = TYPE_COMP" "o_parent_comp (objs db ob) = None"
    "type_of db' = type_of db" "system_comp db' = system_comp db" "next_oid db' = next_oid db" "inst db' = inst db"
    "o_parent_comp (objs db' x) = (if x = ob then Some cp else o_parent_comp (objs db x))"
    "chain db' ty y = (if y = cp \<and> ty = type_of db ob then ob # chain db ty y else chain db ty y)"
  using assms comp_of_type [of db cp]
  by (auto simp: myrefl_obj_comp_link_obj_def Let_def acc_simps split: if_splits)

lemma unlink_reads:
  assumes "chains_ok db" and "o_parent_comp (objs db ob) = Some p"
  defines "db' \<equiv> myrefl_obj_unlink_from_comp ob db"
  shows "type_of db' = type_of db" "system_comp db' = system_comp db" "next_oid db' = next_oid db" "inst db' = inst db"
    "o_parent_comp (objs db' x) = (if x = ob then None else o_parent_comp (objs db x))"
    "chain db' ty y = remove1 ob (chain db ty y)"
proof -
  show "type_of db' = type_of db" "system_comp db' = system_comp db" "next_oid db' = next_oid db" "inst db' = inst db"
    "o_parent_comp (objs db' x) = (if x = ob then None else o_parent_comp (objs db x))"
    using assms(2) by (simp_all add: db'_def myrefl_obj_unlink_from_comp_def Let_def acc_simps)
  have "comp_of db p \<noteq> None"
    using chain_owner [OF chain_member [OF assms(1,2)]] comp_of_type [of db p] by simp
  then have "chain db' ty y = (if y = p \<and> ty = type_of db ob then remove1 ob (chain db ty y) else chain db ty y)"
    using assms(2) by (auto simp: db'_def myrefl_obj_unlink_from_comp_def Let_def acc_simps)
  moreover have "ob \<notin> set (chain db ty y)" if "\<not> (y = p \<and> ty = type_of db ob)"
    using chain_typed [OF assms(1), of ob ty y] that assms(2) by auto
  ultimately show "chain db' ty y = remove1 ob (chain db ty y)"
    by (simp add: remove1_idem)
qed

section \<open>Linking and unlinking keep the tree\<close>

lemma link_chains_ok:
  assumes "chains_ok db" and "myrefl_obj_comp_link_obj cp ob db = Some db'"
  shows "chains_ok db'"
proof -
  note r = link_reads [OF assms(2)]
  have "ob \<notin> set (chain db ty p)" for ty p
    using chain_typed(1) [OF assms(1), of ob ty p] r(2) by auto
  then show ?thesis
    using assms(1) r(2) unfolding chains_ok_def r(3,7,8) by (auto simp: Ball_def) metis
qed

lemma unlink_chains_ok:
  assumes "chains_ok db"
  shows "chains_ok (myrefl_obj_unlink_from_comp ob db)"
proof (cases "o_parent_comp (objs db ob)")
  case None
  then show ?thesis using assms by (simp add: myrefl_obj_unlink_from_comp_def)
next
  case (Some p)
  note r = unlink_reads [OF assms Some]
  show ?thesis
    unfolding chains_ok_def r
    using assms unfolding chains_ok_def by (auto simp: set_remove1_eq in_set_remove1)
qed

lemma unlink_depth:
  assumes "chains_ok db" and "depth_ok d db"
  shows "depth_ok d (myrefl_obj_unlink_from_comp ob db)"
proof (cases "o_parent_comp (objs db ob)")
  case None
  then show ?thesis using assms by (simp add: myrefl_obj_unlink_from_comp_def)
next
  case (Some p)
  then show ?thesis using assms(2)
    by (auto simp: depth_ok_def unlink_reads [OF assms(1) Some] dest: notin_set_remove1)
qed

lemma unlink_tree_ok:
  assumes "tree_ok db"
  shows "tree_ok (myrefl_obj_unlink_from_comp ob db)"
proof (cases "o_parent_comp (objs db ob)")
  case None
  then show ?thesis using assms by (simp add: myrefl_obj_unlink_from_comp_def)
next
  case (Some p)
  have ok: "chains_ok db" using assms by (simp add: tree_ok_def)
  then show ?thesis
    using assms unlink_chains_ok [OF ok, of ob] unlink_depth [OF ok]
    by (auto simp: tree_ok_def unlink_reads [OF ok Some] split: option.splits)
qed

text \<open>A component without components can be linked below any that is not at the bound; other
  objects anywhere.\<close>

lemma link_tree_ok:
  assumes "tree_ok db" and "depth_ok d db" and "myrefl_obj_comp_link_obj cp ob db = Some db'"
    and "system_comp db \<noteq> Some ob" and "cp \<noteq> ob" and "chain db TYPE_COMP ob = []"
    and "type_of db ob = TYPE_COMP \<Longrightarrow> d cp < MAX_COMP_NESTING"
  shows "tree_ok db'"
proof -
  note r = link_reads [OF assms(3)]
  have ok: "chains_ok db" using assms(1) by (simp add: tree_ok_def)
  let ?d = "if type_of db ob = TYPE_COMP then d(ob := Suc (d cp)) else d"
  have "ob \<notin> set (chain db ty p)" for ty p
    using chain_typed(1) [OF ok, of ob ty p] r(2) by auto
  then have new: "p = cp" "type_of db ob = TYPE_COMP" if "ob \<in> set (chain db' TYPE_COMP p)" for p
    using that unfolding r(8) by (auto split: if_splits)
  have "?d x = Suc (?d p) \<and> ?d x \<le> MAX_COMP_NESTING" if x: "x \<in> set (chain db' TYPE_COMP p)" for p x
  proof (cases "x = ob")
    case True
    then show ?thesis using new [of p] x assms(5,7) by auto
  next
    case False
    with x have x: "x \<in> set (chain db TYPE_COMP p)" unfolding r(8) by (auto split: if_splits)
    then show ?thesis using depth_child [OF assms(2) x] False assms(6) by auto
  qed
  moreover have "?d y = 0" if "system_comp db' = Some y" for y
    using that assms(2,4) unfolding r(4) depth_ok_def by auto
  ultimately have "depth_ok ?d db'" unfolding depth_ok_def by blast
  then show ?thesis
    using assms(1,4) link_chains_ok [OF ok assms(3)] by (auto simp: tree_ok_def r split: option.splits)
qed

section \<open>Lookups when one object is linked or unlinked\<close>

text \<open>The two trees differ in where \<open>x\<close> is, and \<open>x\<close> contains nothing.\<close>

definition moved :: "oid \<Rightarrow> db \<Rightarrow> db \<Rightarrow> bool" where
  "moved x db db' \<longleftrightarrow> system_comp db' = system_comp db \<and> system_comp db \<noteq> Some x \<and>
     (\<forall>ty. chain db ty x = [] \<and> chain db' ty x = [] \<and>
       (\<forall>y. filter ((\<noteq>) x) (chain db' ty y) = filter ((\<noteq>) x) (chain db ty y)))"

lemma movedD:
  assumes "moved x db db'"
  shows "system_comp db' = system_comp db" "system_comp db \<noteq> Some x" "chain db ty x = []" "chain db' ty x = []"
    "filter ((\<noteq>) x) (chain db' ty y) = filter ((\<noteq>) x) (chain db ty y)"
  using assms unfolding moved_def by blast+

lemma concat_map_filter:
  "(\<And>z. \<not> P z \<Longrightarrow> g z = []) \<Longrightarrow> concat (map g zs) = concat (map g (filter P zs))"
  by (induction zs) auto

lemma comps_below_moved:
  assumes "moved x db db'"
  shows "y \<noteq> x \<Longrightarrow> filter ((\<noteq>) x) (comps_below n db' y) = filter ((\<noteq>) x) (comps_below n db y)"
proof (induction n arbitrary: y)
  case (Suc n)
  note m = movedD [OF assms]
  have single: "filter ((\<noteq>) x) (comps_below n db'' x) = []" if "chain db'' TYPE_COMP x = []" for db''
    using that by (cases n) simp_all
  let ?g = "\<lambda>db''. concat (map (\<lambda>z. filter ((\<noteq>) x) (comps_below n db'' z)) (chain db'' TYPE_COMP y))"
  have "?g db' = concat (map (\<lambda>z. filter ((\<noteq>) x) (comps_below n db' z)) (filter ((\<noteq>) x) (chain db TYPE_COMP y)))"
    unfolding m(5) [symmetric] by (rule concat_map_filter) (use single m(4) in auto)
  also have "\<dots> = concat (map (\<lambda>z. filter ((\<noteq>) x) (comps_below n db z)) (filter ((\<noteq>) x) (chain db TYPE_COMP y)))"
    by (rule arg_cong [where f = concat], rule map_cong) (use Suc.IH in auto)
  also have "\<dots> = ?g db"
    by (rule concat_map_filter [symmetric]) (use single m(3) in auto)
  finally show ?case using Suc.prems by (simp add: filter_concat comp_def)
qed simp

lemma sys_objs_moved:
  assumes "moved x db db'"
  shows "filter ((\<noteq>) x) (sys_objs ty db') = filter ((\<noteq>) x) (sys_objs ty db)"
proof -
  note m = movedD [OF assms]
  have all: "filter ((\<noteq>) x) (all_comps db') = filter ((\<noteq>) x) (all_comps db)"
    using comps_below_moved [OF assms] m(1,2) by (auto simp: all_comps_def split: option.split)
  let ?g = "\<lambda>db''. concat (map (\<lambda>z. filter ((\<noteq>) x) (chain db'' ty z)) (all_comps db''))"
  have "?g db' = concat (map (\<lambda>z. filter ((\<noteq>) x) (chain db' ty z)) (filter ((\<noteq>) x) (all_comps db)))"
    unfolding all [symmetric] by (rule concat_map_filter) (use m(4) in auto)
  also have "\<dots> = ?g db"
    unfolding m(5) by (rule concat_map_filter [symmetric]) (use m(3) in auto)
  finally show ?thesis using all by (simp add: sys_objs_def filter_concat comp_def)
qed

lemma lookup_order_moved:
  "moved x db db' \<Longrightarrow> filter ((\<noteq>) x) (lookup_order ty db') = filter ((\<noteq>) x) (lookup_order ty db)"
  using sys_objs_moved [of x db db'] by (simp add: lookup_order_def)

lemma find_filter: "(\<And>y. p y \<Longrightarrow> q y) \<Longrightarrow> List.find p (filter q xs) = List.find p xs"
  by (induction xs) auto

lemma find_unique:
  assumes "x \<in> set xs" and "p x" and "\<And>y. y \<in> set xs \<Longrightarrow> p y \<Longrightarrow> y = x"
  shows "List.find p xs = Some x"
proof (cases "List.find p xs")
  case None
  then show ?thesis using assms(1,2) by (simp add: find_None_iff)
next
  case (Some y)
  then have "y \<in> set xs" "p y" by (auto simp: find_Some_iff)
  then show ?thesis using Some assms(3) by simp
qed

lemma find_moved:
  assumes "moved x db db'" and "\<not> p x"
  shows "List.find p (lookup_order ty db') = List.find p (lookup_order ty db)"
proof -
  have f: "List.find p (filter ((\<noteq>) x) xs) = List.find p xs" for xs
    using assms(2) by (intro find_filter) auto
  show ?thesis
    using f [of "lookup_order ty db'"] f [of "lookup_order ty db"] lookup_order_moved [OF assms(1), of ty] by simp
qed

lemma members_moved:
  assumes "moved x db db'" and "y \<noteq> x"
  shows "y \<in> set (sys_objs ty db') \<longleftrightarrow> y \<in> set (sys_objs ty db)"
proof -
  have "set (filter ((\<noteq>) x) (sys_objs ty db')) = set (filter ((\<noteq>) x) (sys_objs ty db))"
    using sys_objs_moved [OF assms(1), of ty] by simp
  then show ?thesis using assms(2) by auto
qed

text \<open>What is in the chain of a component of the tree is in the tree.\<close>

lemma comps_below_closed:
  assumes "depth_ok d db"
  shows "MAX_COMP_NESTING \<le> n + d r \<Longrightarrow> y \<in> set (comps_below n db r) \<Longrightarrow> z \<in> set (chain db TYPE_COMP y) \<Longrightarrow>
    z \<in> set (comps_below n db r)"
proof (induction n arbitrary: r)
  case 0
  then show ?case using depth_child [OF assms, of z y] by simp
next
  case (Suc n)
  show ?case
  proof (cases "y = r")
    case True
    then show ?thesis using Suc.prems(3) comps_below_Cons [of n db z] by (auto intro!: bexI [of _ z])
  next
    case False
    then obtain w where w: "w \<in> set (chain db TYPE_COMP r)" "y \<in> set (comps_below n db w)"
      using Suc.prems(2) by auto
    then have "z \<in> set (comps_below n db w)"
      using Suc.IH [OF _ w(2) Suc.prems(3)] Suc.prems(1) depth_child(1) [OF assms w(1)] by simp
    with w(1) show ?thesis by auto
  qed
qed

lemma chain_in_sys:
  assumes "tree_ok db" and "p \<in> set (all_comps db)" and "x \<in> set (chain db ty p)"
  shows "x \<in> set (sys_objs ty db)"
proof (cases "ty = TYPE_COMP")
  case True
  obtain d where d: "depth_ok d db" using assms(1) by (auto simp: tree_ok_def)
  then show ?thesis
    using comps_below_closed [OF d, of MAX_COMP_NESTING _ p x] assms(2,3) True
    by (auto simp: sys_objs_def all_comps_def split: option.splits)
next
  case False
  then show ?thesis using assms(2,3) by (auto simp: sys_objs_def)
qed

section \<open>Creating an object\<close>

text \<open>The objects not yet handed out have no type and are nowhere.\<close>

definition fresh_ok :: "db \<Rightarrow> bool" where
  "fresh_ok db \<longleftrightarrow> (\<forall>x \<ge> next_oid db. type_of db x = TYPE_NONE \<and> o_parent_comp (objs db x) = None)"

definition real_type :: "obj_type \<Rightarrow> obj_type" where
  "real_type ty = (if ty = TYPE_ANY then TYPE_NONE else ty)"

definition allocated :: "name \<Rightarrow> obj_type \<Rightarrow> db \<Rightarrow> db" where
  "allocated n ty db = snd (allocate_object_type (next_oid db) ty (snd (new_object n db)))"

lemma zero_data_chain: "zero_data ty = DComp c \<Longrightarrow> comp_list ty' c = []"
  by (cases ty') (auto simp: zero_data_def comp_list_def split: obj_type.splits)

lemma zero_data_type:
  "(case zero_data ty of DNone \<Rightarrow> TYPE_NONE | DTest _ \<Rightarrow> TYPE_TEST | DRule _ \<Rightarrow> TYPE_RULE
     | DAction _ \<Rightarrow> TYPE_ACTION | DComp _ \<Rightarrow> TYPE_COMP) = real_type ty"
  by (cases ty) (simp_all add: zero_data_def real_type_def)

lemma allocate_reads:
  fixes x :: oid and ty :: obj_type
  assumes "type_of db x = TYPE_NONE"
  defines "db' \<equiv> snd (allocate_object_type x ty db)"
  shows "allocate_object_type x ty db = (True, db')"
    "type_of db' y = (if y = x then real_type ty else type_of db y)"
    "o_parent_comp (objs db' y) = o_parent_comp (objs db y)"
    "system_comp db' = system_comp db" "next_oid db' = next_oid db"
    "inst db' i = (if i = base x then (inst db i)\<lparr>i_state := STATE_ALLOCATED\<rparr> else inst db i)"
    "chain db' ty' y = chain db ty' y"
proof -
  have "fst (allocate_object_type x ty db)" using assms(1) by (simp add: allocate_object_type_def Let_def)
  then show "allocate_object_type x ty db = (True, db')" by (simp add: db'_def prod_eq_iff)
  have eq: "db' = (let db = upd_obj x (\<lambda>x. x\<lparr>o_data := zero_data ty\<rparr>) db;
               db = (if ty = TYPE_COMP then upd_health x (\<lambda>_. zero_health) db else db)
           in upd_inst (base x) (\<lambda>i. i\<lparr>i_state := STATE_ALLOCATED\<rparr>) db)"
    using assms(1) by (simp add: db'_def allocate_object_type_def Let_def)
  note defs = eq Let_def upd_inst_def upd_obj_def upd_health_def inst_def
  show "o_parent_comp (objs db' y) = o_parent_comp (objs db y)"
    "system_comp db' = system_comp db" "next_oid db' = next_oid db"
    "inst db' i = (if i = base x then (inst db i)\<lparr>i_state := STATE_ALLOCATED\<rparr> else inst db i)"
    by (simp_all add: defs)
  have data: "o_data (objs db' y) = (if y = x then zero_data ty else o_data (objs db y))" for y
    by (simp add: defs)
  show "type_of db' y = (if y = x then real_type ty else type_of db y)"
    using data [of y] zero_data_type [of ty] by (simp add: type_of_def)
  show "chain db' ty' y = chain db ty' y"
  proof (cases "y = x")
    case True
    moreover have "comp_of db x = None" using assms(1) comp_of_type [of db x] by simp
    moreover have "chain db' ty' x = []"
      using zero_data_chain [of ty _ ty'] by (auto simp: chain_def comp_of_def data split: obj_data.split option.split)
    ultimately show ?thesis by (simp add: chain_def)
  next
    case False
    then show ?thesis by (simp add: chain_def comp_of_def data)
  qed
qed

lemma allocate_tree:
  fixes ty :: obj_type
  assumes "type_of db x = TYPE_NONE" and "o_parent_comp (objs db x) = None" and "tree_ok db"
  defines "db' \<equiv> snd (allocate_object_type x ty db)"
  shows "tree_ok db'" and "depth_ok d db' = depth_ok d db"
proof -
  note a = allocate_reads [OF assms(1), where ty = ty, folded db'_def]
  have ok: "chains_ok db" using assms(3) by (simp add: tree_ok_def)
  have "y \<noteq> x" if "y \<in> set (chain db ty' p)" for y ty' p
    using chain_typed(1) [OF ok that] assms(2) by auto
  then have c: "chains_ok db'"
    using ok assms(1,2) unfolding chains_ok_def a(2,3,7) by (auto simp: Ball_def)
  show d: "depth_ok d db' = depth_ok d db" for d by (simp add: depth_ok_def a)
  show "tree_ok db'"
    using assms(1,3) c d by (auto simp: tree_ok_def a(2-4) split: option.splits)
qed

lemma new_object_reads:
  fixes n :: name
  assumes "fresh_ok db"
  defines "x \<equiv> next_oid db" and "db' \<equiv> snd (new_object n db)"
  shows "type_of db' = type_of db" "o_parent_comp (objs db' y) = o_parent_comp (objs db y)"
    "system_comp db' = system_comp db" "next_oid db' = Suc x" "obj_of i \<noteq> x \<Longrightarrow> inst db' i = inst db i"
    "i_name (inst db' (base x)) = n" "chain db' = chain db"
proof -
  note defs = db'_def Let_def new_object_def upd_inst_def inst_def zero_obj_def base_def zero_instance_def
  have x: "type_of db x = TYPE_NONE" "o_parent_comp (objs db x) = None"
    using assms(1) by (simp_all add: fresh_ok_def x_def)
  then show t: "type_of db' = type_of db" by (auto simp: type_of_def defs x_def fun_eq_iff)
  show "o_parent_comp (objs db' y) = o_parent_comp (objs db y)" using x(2) by (auto simp: defs x_def)
  show "system_comp db' = system_comp db" "next_oid db' = Suc x" by (simp_all add: defs x_def)
  show "obj_of i \<noteq> x \<Longrightarrow> inst db' i = inst db i" by (cases i) (auto simp: defs x_def)
  show "i_name (inst db' (base x)) = n" by (simp add: defs x_def)
  have "comp_of db' y = comp_of db y" for y
  proof (cases "y = x")
    case True
    then show ?thesis using x(1) t comp_of_type [of db x] comp_of_type [of db' x] by auto
  next
    case False
    then show ?thesis by (simp add: comp_of_def defs x_def)
  qed
  then show "chain db' = chain db" by (simp add: chain_def fun_eq_iff)
qed

lemma allocated_reads:
  assumes "fresh_ok db"
  defines "x \<equiv> next_oid db"
  shows "allocate_object_type x ty (snd (new_object n db)) = (True, allocated n ty db)"
    "type_of (allocated n ty db) y = (if y = x then real_type ty else type_of db y)"
    "o_parent_comp (objs (allocated n ty db) y) = o_parent_comp (objs db y)"
    "system_comp (allocated n ty db) = system_comp db" "next_oid (allocated n ty db) = Suc x"
    "obj_of i \<noteq> x \<Longrightarrow> inst (allocated n ty db) i = inst db i"
    "i_name (inst (allocated n ty db) (base x)) = n" "i_state (inst (allocated n ty db) (base x)) = STATE_ALLOCATED"
    "chain (allocated n ty db) ty' y = chain db ty' y"
proof -
  note n = new_object_reads [OF assms(1), where n = n, folded x_def]
  have "type_of (snd (new_object n db)) x = TYPE_NONE" using assms(1) by (simp add: n fresh_ok_def x_def)
  note r = allocate_reads [OF this, where ty = ty, folded allocated_def [of n ty db, folded x_def]]
  show "allocate_object_type x ty (snd (new_object n db)) = (True, allocated n ty db)" by (rule r(1))
  show "o_parent_comp (objs (allocated n ty db) y) = o_parent_comp (objs db y)"
    by (simp add: r n)
  have b: "obj_of (base x) = x" by (simp add: base_def)
  show "obj_of i \<noteq> x \<Longrightarrow> inst (allocated n ty db) i = inst db i"
    using r(6) [of i] n(5) [of i] b by (auto split: if_splits)
  show "type_of (allocated n ty db) y = (if y = x then real_type ty else type_of db y)"
    "system_comp (allocated n ty db) = system_comp db" "next_oid (allocated n ty db) = Suc x"
    "i_name (inst (allocated n ty db) (base x)) = n" "i_state (inst (allocated n ty db) (base x)) = STATE_ALLOCATED"
    "chain (allocated n ty db) ty' y = chain db ty' y"
    by (simp_all add: r n)
qed

lemma same_tree:
  assumes "type_of db' = type_of db" and "system_comp db' = system_comp db" and "chain db' = chain db"
    and "\<And>x. o_parent_comp (objs db' x) = o_parent_comp (objs db x)"
  shows "tree_ok db' = tree_ok db" "depth_ok d db' = depth_ok d db" "sys_objs ty db' = sys_objs ty db"
    "moved x db'' db' = moved x db'' db"
proof -
  have "comps_below n db' = comps_below n db" for n by (induction n) (intro ext, simp add: assms)+
  then show "sys_objs ty db' = sys_objs ty db" by (simp add: sys_objs_def all_comps_def assms split: option.split)
  show d: "depth_ok d db' = depth_ok d db" for d by (simp add: depth_ok_def assms)
  then show "tree_ok db' = tree_ok db" by (simp add: tree_ok_def chains_ok_def assms split: option.split)
  show "moved x db'' db' = moved x db'' db" by (simp add: moved_def assms)
qed

lemma allocated_tree:
  assumes "fresh_ok db" and "tree_ok db"
  shows "tree_ok (allocated n ty db)" "depth_ok d (allocated n ty db) = depth_ok d db"
proof -
  note n = new_object_reads [OF assms(1), where n = n]
  note same = same_tree [OF n(1,3,7,2)]
  have x: "type_of (snd (new_object n db)) (next_oid db) = TYPE_NONE"
    "o_parent_comp (objs (snd (new_object n db)) (next_oid db)) = None"
    using assms(1) by (simp_all add: n fresh_ok_def)
  show "tree_ok (allocated n ty db)" "depth_ok d (allocated n ty db) = depth_ok d db"
    using allocate_tree [OF x] assms(2) by (simp_all add: allocated_def same)
qed

definition created :: "name \<Rightarrow> obj_type \<Rightarrow> db \<Rightarrow> db \<Rightarrow> bool" where
  "created n ty db db' \<longleftrightarrow>
     tree_ok db' \<and> fresh_ok db' \<and> moved (next_oid db) db db' \<and>
     next_oid db \<in> set (sys_objs (real_type ty) db') \<and>
     type_of db' = (type_of db)(next_oid db := real_type ty) \<and>
     i_name (inst db' (base (next_oid db))) = n \<and> i_state (inst db' (base (next_oid db))) = STATE_ALLOCATED \<and>
     (\<forall>i. obj_of i \<noteq> next_oid db \<longrightarrow> inst db' i = inst db i)"

lemma create_object_links:
  assumes "tree_ok db" and "fresh_ok db" and "system_comp db = Some r"
  shows "\<exists>db'. create_object n ty db = Some (Some (next_oid db), db') \<and> created n ty db db'"
proof -
  let ?x = "next_oid db" and ?a = "allocated n ty db"
  note a = allocated_reads [OF assms(2), where ty = ty and n = n]
  have new: "o_parent_comp (objs db ?x) = None" "type_of db ?x = TYPE_NONE"
    using assms(2) by (simp_all add: fresh_ok_def)
  have r: "type_of db r = TYPE_COMP" "r \<noteq> ?x" using assms(1,3) new by (auto simp: tree_ok_def)
  then obtain l where l: "myrefl_obj_comp_link_obj r ?x ?a = Some l"
    using comp_of_type [of ?a r] a(2,3) new by (auto simp: myrefl_obj_comp_link_obj_def)
  note lr = link_reads [OF l]
  define db' where "db' =
    (if type_of l ?x = TYPE_RULE \<or> type_of l ?x = TYPE_COMP
     then set_comp r (\<lambda>c. c\<lparr>c_top_depend := list_add ?x (c_top_depend c),
            c_bottom_depend := list_add ?x (c_bottom_depend c)\<rparr>) l else l)"
  have run: "create_object n ty db = Some (Some ?x, db')"
    using a(1,4) l assms(3) by (simp add: create_object_def new_object_def Let_def case_prod_beta db'_def a)
  have db': "type_of db' = type_of l" "system_comp db' = system_comp l" "chain db' = chain l" "inst db' = inst l"
    "next_oid db' = next_oid l" "\<And>x. o_parent_comp (objs db' x) = o_parent_comp (objs l x)"
    by (auto simp: db'_def acc_simps fun_eq_iff)
  note same = same_tree [OF db'(1-3,6)]
  have empty: "chain db t ?x = []" for t
    using chain_owner [of _ db t ?x] new by (cases "chain db t ?x") auto
  obtain d where d: "depth_ok d db" using assms(1) by (auto simp: tree_ok_def)
  then have "d r = 0" using assms(3) by (simp add: depth_ok_def)
  then have "tree_ok l"
    using link_tree_ok [OF _ _ l, of d] allocated_tree [OF assms(2,1)] d r empty assms(3)
    by (simp add: a MAX_COMP_NESTING_def)
  then have tree: "tree_ok db'" by (simp add: same)
  have notin: "?x \<notin> set (chain db t y)" for t y
    using chain_typed(1) [of db ?x t y] assms(1) new by (auto simp: tree_ok_def)
  have "moved ?x db l"
    using r(2) assms(3) empty notin by (auto simp: moved_def lr a filter_id_conv [THEN iffD2])
  then have m: "moved ?x db db'" by (simp add: same)
  have "r \<in> set (all_comps db')"
    using assms(3) comps_below_Cons [of MAX_COMP_NESTING db' r] by (auto simp: all_comps_def db' lr a)
  moreover have ty: "type_of db' = (type_of db)(?x := real_type ty)" by (auto simp: db' lr a fun_eq_iff)
  moreover have "?x \<in> set (chain db' (real_type ty) r)" by (simp add: db' lr a)
  ultimately have "?x \<in> set (sys_objs (real_type ty) db')" using chain_in_sys [OF tree] by blast
  moreover have "fresh_ok db'"
    using assms(2) by (auto simp: fresh_ok_def db' lr a)
  ultimately have "created n ty db db'"
    using tree m ty by (simp add: created_def db' lr a)
  with run show ?thesis by blast
qed

section \<open>One name space\<close>

text \<open>The invariant of the database of names: no two objects of the tree have the same name.\<close>

definition names_ok :: "db \<Rightarrow> bool" where
  "names_ok db \<longleftrightarrow> inj_on (\<lambda>x. i_name (inst db (base x))) (set (lookup_order TYPE_ANY db))"

definition tree_inv :: "db \<Rightarrow> bool" where
  "tree_inv db \<longleftrightarrow> tree_ok db \<and> fresh_ok db \<and> names_ok db \<and> system_comp db \<noteq> None"

definition lookup :: "db \<Rightarrow> name \<Rightarrow> oid option" where
  "lookup db n = List.find (has_name db n) (lookup_order TYPE_ANY db)"

lemma by_name_lookup: "tree_inv db \<Longrightarrow> myrefl_obj_get_by_name db (Some n) TYPE_ANY = Some (lookup db n)"
  by (simp add: tree_inv_def lookup_def by_name_finds)

lemma set_lookup_order: "set (lookup_order TYPE_ANY db) = (\<Union>ty \<in> {ty. ty \<noteq> TYPE_ANY}. set (sys_objs ty db))"
proof -
  have "{ty. ty \<noteq> TYPE_ANY} = {TYPE_NONE, TYPE_COMP, TYPE_TEST, TYPE_RULE, TYPE_ACTION}"
    by (auto intro: obj_type.exhaust)
  then show ?thesis by (simp add: lookup_order_def)
qed

lemma lookup_Some: "lookup db n = Some x \<Longrightarrow> x \<in> set (lookup_order TYPE_ANY db) \<and> i_name (inst db (base x)) = n"
  by (auto simp: lookup_def find_Some_iff has_name_def)

lemma lookup_unique:
  assumes "names_ok db" and "x \<in> set (lookup_order TYPE_ANY db)"
  shows "lookup db (i_name (inst db (base x))) = Some x"
  unfolding lookup_def
  by (rule find_unique) (use assms in \<open>auto simp: has_name_def names_ok_def dest: inj_onD\<close>)

lemma fresh_not_listed:
  assumes "tree_ok db" and "fresh_ok db" and "next_oid db \<le> x"
  shows "x \<notin> set (lookup_order TYPE_ANY db)"
proof
  assume "x \<in> set (lookup_order TYPE_ANY db)"
  then obtain ty where x: "x \<in> set (sys_objs ty db)" by (auto simp: set_lookup_order)
  have n: "type_of db x = TYPE_NONE" "o_parent_comp (objs db x) = None"
    using assms(2,3) by (simp_all add: fresh_ok_def)
  then have "ty = TYPE_NONE" using sys_objs_typed [OF assms(1) x] by simp
  with x n show False
    using chain_typed(1) [of db x ty] assms(1) by (auto simp: sys_objs_def tree_ok_def)
qed

text \<open>The lookup of the other names does not change when an object moves or appears.\<close>

lemma lookup_moved:
  assumes "moved x db db'" and "i_name (inst db' (base x)) \<noteq> m"
    and "x \<in> set (lookup_order TYPE_ANY db) \<Longrightarrow> i_name (inst db (base x)) \<noteq> m"
    and "\<And>y. y \<noteq> x \<Longrightarrow> i_name (inst db' (base y)) = i_name (inst db (base y))"
  shows "lookup db' m = lookup db m"
proof -
  have "lookup db' m = List.find (has_name db' m) (lookup_order TYPE_ANY db)"
    unfolding lookup_def by (rule find_moved [OF assms(1)]) (simp add: has_name_def assms(2))
  also have "\<dots> = lookup db m"
    unfolding lookup_def
  proof (rule find_cong [OF refl])
    fix y
    assume "y \<in> set (lookup_order TYPE_ANY db)"
    then show "has_name db' m y = has_name db m y"
      using assms(2-4) by (cases "y = x") (auto simp: has_name_def)
  qed
  finally show ?thesis .
qed

lemma names_moved:
  assumes "moved x db db'" and "names_ok db" and "lookup db (i_name (inst db' (base x))) \<in> {None, Some x}"
    and "\<And>y. y \<noteq> x \<Longrightarrow> i_name (inst db' (base y)) = i_name (inst db (base y))"
  shows "names_ok db'"
proof -
  have members: "y \<in> set (lookup_order TYPE_ANY db)" if "y \<in> set (lookup_order TYPE_ANY db')" "y \<noteq> x" for y
    using that members_moved [OF assms(1)] by (auto simp: set_lookup_order)
  have other: "i_name (inst db' (base x)) \<noteq> i_name (inst db (base y))"
    if "y \<in> set (lookup_order TYPE_ANY db')" "y \<noteq> x" for y
    using lookup_unique [OF assms(2) members [OF that]] assms(3) that(2) by auto
  show ?thesis
    unfolding names_ok_def
  proof (rule inj_onI)
    fix y z
    assume yz: "y \<in> set (lookup_order TYPE_ANY db')" "z \<in> set (lookup_order TYPE_ANY db')"
      and eq: "i_name (inst db' (base y)) = i_name (inst db' (base z))"
    show "y = z"
    proof (cases "y = x \<or> z = x")
      case True
      then show ?thesis using other [OF yz(1)] other [OF yz(2)] eq assms(4) by metis
    next
      case False
      then show ?thesis
        using members [OF yz(1)] members [OF yz(2)] eq assms(2,4) by (auto simp: names_ok_def dest: inj_onD)
    qed
  qed
qed

text \<open>An object that is moved to another place of the tree is still found under its name.\<close>

lemma relocated:
  assumes inv: "tree_inv db" and x: "x \<in> set (lookup_order TYPE_ANY db)" and m: "moved x db db'"
    and db': "tree_ok db'" "fresh_ok db'" "\<And>y. i_name (inst db' (base y)) = i_name (inst db (base y))"
    and q: "q \<in> set (all_comps db)" "q \<noteq> x" "x \<in> set (chain db' ty q)" "ty \<noteq> TYPE_ANY"
  shows "tree_inv db'" and "lookup db' = lookup db"
proof -
  have names: "names_ok db" and sys: "system_comp db \<noteq> None" using inv by (simp_all add: tree_inv_def)
  let ?n = "i_name (inst db (base x))"
  have found: "lookup db ?n = Some x" by (rule lookup_unique [OF names x])
  have n': "names_ok db'" by (rule names_moved [OF m names]) (simp_all add: db' found)
  then show "tree_inv db'" using db' sys movedD(1) [OF m] by (simp add: tree_inv_def)
  have "q \<in> set (all_comps db')" using members_moved [OF m q(2), of TYPE_COMP] q(1) by (simp add: sys_objs_def)
  from chain_in_sys [OF db'(1) this q(3)] have "x \<in> set (lookup_order TYPE_ANY db')"
    using q(4) by (auto simp: set_lookup_order)
  from lookup_unique [OF n' this] have "lookup db' ?n = lookup db ?n" by (simp add: db' found)
  moreover have "lookup db' k = lookup db k" if "k \<noteq> ?n" for k
    by (rule lookup_moved [OF m]) (use that db' in auto)
  ultimately show "lookup db' = lookup db" by (intro ext) metis
qed

section \<open>Get or create\<close>

lemma create_new:
  assumes "tree_inv db" and "lookup db n = None"
  shows "\<exists>db'. myrefl_obj_get_or_create n ty db = Some (Some (next_oid db), db') \<and> created n ty db db' \<and>
    tree_inv db' \<and> lookup db' n = Some (next_oid db) \<and> (\<forall>m. m \<noteq> n \<longrightarrow> lookup db' m = lookup db m)"
proof -
  let ?x = "next_oid db"
  have inv: "tree_ok db" "fresh_ok db" "names_ok db" "system_comp db \<noteq> None"
    using assms(1) by (simp_all add: tree_inv_def)
  then obtain db' where run: "create_object n ty db = Some (Some ?x, db')" and c: "created n ty db db'"
    using create_object_links by blast
  from c have c': "tree_ok db'" "fresh_ok db'" "moved ?x db db'" "?x \<in> set (sys_objs (real_type ty) db')"
    "i_name (inst db' (base ?x)) = n" "\<And>y. y \<noteq> ?x \<Longrightarrow> inst db' (base y) = inst db (base y)"
    by (simp_all add: created_def base_def)
  have names: "names_ok db'" by (rule names_moved [OF c'(3) inv(3)]) (simp_all add: c' assms(2))
  have "?x \<in> set (lookup_order TYPE_ANY db')"
    using c'(4) by (auto simp: set_lookup_order real_type_def split: if_splits)
  from lookup_unique [OF names this] have found: "lookup db' n = Some ?x" by (simp add: c'(5))
  have "lookup db' m = lookup db m" if "m \<noteq> n" for m
    by (rule lookup_moved [OF c'(3)]) (use that c' fresh_not_listed [OF inv(1,2), of ?x] in auto)
  moreover have "tree_inv db'" using c' names movedD(1) [OF c'(3)] inv(4) by (simp add: tree_inv_def)
  moreover have "myrefl_obj_get_or_create n ty db = Some (Some ?x, db')"
    using inv(4) run by (auto simp: myrefl_obj_get_or_create_def by_name_lookup [OF assms(1)] assms(2))
  ultimately show ?thesis using c found by blast
qed

text \<open>Asking again, for the type or any type, answers the same object and changes nothing.\<close>

lemma get_existing:
  assumes "tree_inv db" and "lookup db n = Some x" and "ty = TYPE_ANY \<or> ty = type_of db x"
    and "i_state (inst db (base x)) \<noteq> STATE_DELETED"
  shows "myrefl_obj_get_or_create n ty db = Some (Some x, db)"
  using assms by (auto simp: myrefl_obj_get_or_create_def by_name_lookup tree_inv_def live_object_def)

lemma get_mismatch:
  assumes "tree_inv db" and "lookup db n = Some x" and "ty \<noteq> TYPE_ANY" and "ty \<noteq> type_of db x"
    and "ty = TYPE_NONE \<or> type_of db x \<noteq> TYPE_NONE"
  shows "myrefl_obj_get_or_create n ty db = Some (None, db)"
  using assms by (auto simp: myrefl_obj_get_or_create_def by_name_lookup tree_inv_def)

text \<open>Growing an object of no type keeps its identity, its name, its component and the lookup of
  every name.\<close>

lemma filter_remove1_same: "filter ((\<noteq>) x) (remove1 x xs) = filter ((\<noteq>) x) xs"
  by (induction xs) auto

lemma grow_keeps_names:
  assumes inv: "tree_inv db" and x: "lookup db n = Some x" "type_of db x = TYPE_NONE"
    and ty: "ty \<noteq> TYPE_ANY" "ty \<noteq> TYPE_NONE"
    and d: "depth_ok d db" "\<And>p. ty = TYPE_COMP \<Longrightarrow> o_parent_comp (objs db x) = Some p \<Longrightarrow> d p < MAX_COMP_NESTING"
  shows "\<exists>db'. myrefl_obj_get_or_create n ty db = Some (Some x, db') \<and> tree_inv db' \<and>
    type_of db' = (type_of db)(x := ty) \<and> o_parent_comp (objs db' x) = o_parent_comp (objs db x) \<and>
    lookup db' = lookup db"
proof -
  have t: "tree_ok db" "fresh_ok db" "names_ok db" "system_comp db \<noteq> None" "chains_ok db"
    using inv by (simp_all add: tree_inv_def tree_ok_def)
  have n: "x \<in> set (lookup_order TYPE_ANY db)" "i_name (inst db (base x)) = n"
    using lookup_Some [OF x(1)] by simp_all
  have lt: "x < next_oid db" using fresh_not_listed [OF t(1,2), of x] n(1) by (meson not_le)
  obtain t' where "x \<in> set (sys_objs t' db)" using n(1) by (auto simp: set_lookup_order)
  with sys_objs_typed [OF t(1) this] x(2) have "x \<in> set (sys_objs TYPE_NONE db)" by simp
  then obtain q where q: "x \<in> set (chain db TYPE_NONE q)" "q \<in> set (all_comps db)" by (auto simp: sys_objs_def)
  note par = chain_typed(1) [OF t(5) q(1)]
  let ?u = "myrefl_obj_unlink_from_comp x db"
  let ?a = "snd (allocate_object_type x ty ?u)"
  note u = unlink_reads [OF t(5) par]
  note a' = allocate_reads [of ?u x ty, unfolded u, OF x(2)]
  note a = a'(2-)
  have rt: "real_type ty = ty" using ty(1) by (simp add: real_type_def)
  have qx: "q \<noteq> x" "type_of db q = TYPE_COMP" using chain_owner [OF q(1)] x(2) by auto
  then obtain l where l: "myrefl_obj_comp_link_obj q x ?a = Some l"
    using comp_of_type [of ?a q] a(1) by (auto simp: myrefl_obj_comp_link_obj_def a u)
  note lr = link_reads [OF l]
  have xempty: "chain db t'' x = []" for t''
    using chain_owner [of _ db t'' x] x(2) by (cases "chain db t'' x") auto
  have tu: "tree_ok ?u" "depth_ok d ?u"
    using unlink_tree_ok [OF t(1)] unlink_depth [OF t(5) d(1)] by simp_all
  have "system_comp db \<noteq> Some x" using t(1) x(2) by (auto simp: tree_ok_def)
  moreover have "type_of ?u x = TYPE_NONE" "o_parent_comp (objs ?u x) = None" by (simp_all add: u x(2))
  note at = allocate_tree [OF this tu(1), where ty = ty]
  have tl: "tree_ok l"
  proof (rule link_tree_ok [OF at(1) _ l])
    show "depth_ok d ?a" by (rule at(2) [THEN iffD2, OF tu(2)])
    show "type_of ?a x = TYPE_COMP \<Longrightarrow> d q < MAX_COMP_NESTING" using d(2) par by (simp add: a rt)
  qed (use qx(1) xempty \<open>system_comp db \<noteq> Some x\<close> in \<open>simp_all add: a u\<close>)
  have m: "moved x db l"
    using \<open>system_comp db \<noteq> Some x\<close> qx(1) xempty
    by (auto simp: moved_def lr a u filter_remove1_same)
  have names: "i_name (inst l (base y)) = i_name (inst db (base y))" for y by (simp add: lr a)
  have ty': "type_of l = (type_of db)(x := ty)" by (auto simp: lr a rt fun_eq_iff)
  have fl: "fresh_ok l" using t(2) lt by (auto simp: fresh_ok_def lr a u rt)
  have "x \<in> set (chain l ty q)" by (simp add: lr a u rt)
  note rel = relocated [OF inv n(1) m tl fl names q(2) qx(1) this ty(1)]
  have "grow_object x ty db = Some l"
    using par l by (simp add: grow_object_def Let_def case_prod_beta)
  then have "myrefl_obj_get_or_create n ty db = Some (Some x, l)"
    using t(4) ty x by (auto simp: myrefl_obj_get_or_create_def by_name_lookup [OF inv] live_object_def lr a base_def)
  then show ?thesis using rel ty' par by (auto simp: lr)
qed

end
