(* ===== verification/Contain.thy ===== *)
theory Contain
  imports ObjLink
begin

text \<open>
  Containment (\<^verbatim>\<open>src/src/myrefl_obj.c\<close> and \<open>myrefl_api_comp_contains\<close> in
  \<^verbatim>\<open>src/src/myrefl_api.c\<close>): the walk over everything in a component, and moving an object into a
  component. The outer \<open>None\<close> of a walk is a null or wrongly typed pointer that is followed, or a
  walk that does not end.
\<close>

definition MAX_NEXT_COMPS :: nat where "MAX_NEXT_COMPS = 255"
definition MAX_SERIAL_RULES :: nat where "MAX_SERIAL_RULES = 24"

section \<open>The walk\<close>

definition or_system :: "db \<Rightarrow> oid option \<Rightarrow> oid option" where
  "or_system db cp = (case cp of None \<Rightarrow> system_comp db | Some x \<Rightarrow> Some x)"

text \<open>The loop over the parents of \<open>last_comp\<close> reads \<open>last_comp->obj->parent_comp\<close> in every round, and
  follows the parent's \<open>next_in_comp\<close> without a test: after one round it has ended.\<close>

definition comp_get_next_contained :: "db \<Rightarrow> oid option \<Rightarrow> oid option \<Rightarrow> oid option option" where
  "comp_get_next_contained db top_comp last_comp =
     (let root = or_system db top_comp in
      Option.bind (case last_comp of None \<Rightarrow> root | Some l \<Rightarrow> Some l) (\<lambda>last.
      Option.bind (comp_of db last) (\<lambda>c.
        case c_comps c of
          x # _ \<Rightarrow> Some (Some x)
        | [] \<Rightarrow>
            if root = Some last then Some None
            else case next_in_comp db last of
              Some x \<Rightarrow> Some (Some x)
            | None \<Rightarrow>
                (case o_parent_comp (objs db last) of
                   None \<Rightarrow> Some None
                 | Some p \<Rightarrow> if Some p = root then Some None else map_option Some (next_in_comp db p)))))"

definition contained_list :: "obj_type \<Rightarrow> obj_comp \<Rightarrow> oid list" where
  "contained_list type c =
     (if type = TYPE_ANY then c_nones c @ c_tests c @ c_rules c @ c_actions c @ c_comps c else comp_list type c)"

partial_function (option) contained_loop ::
  "nat \<Rightarrow> db \<Rightarrow> oid option \<Rightarrow> oid option \<Rightarrow> obj_type \<Rightarrow> oid option option" where
  "contained_loop i db root next_comp type =
     (case next_comp of
        None \<Rightarrow> Some None
      | Some x \<Rightarrow>
          if type = TYPE_ANY \<and> i > MAX_NEXT_COMPS then Some None
          else Option.bind (comp_of db x) (\<lambda>c.
            case contained_list type c of
              y # _ \<Rightarrow> Some (Some y)
            | [] \<Rightarrow> Option.bind (comp_get_next_contained db root next_comp) (\<lambda>n.
                contained_loop (Suc i) db root n type)))"

definition comp_get_next_type_contained :: "db \<Rightarrow> oid option \<Rightarrow> oid option \<Rightarrow> obj_type \<Rightarrow> oid option option" where
  "comp_get_next_type_contained db top_comp last_comp type =
     (let root = or_system db top_comp
      in contained_loop 0 db root (case last_comp of None \<Rightarrow> root | Some l \<Rightarrow> Some l) type)"

definition myrefl_comp_get_first_contained :: "db \<Rightarrow> oid option \<Rightarrow> obj_type \<Rightarrow> oid option option" where
  "myrefl_comp_get_first_contained db top_comp type = comp_get_next_type_contained db top_comp top_comp type"

text \<open>The chains of a component that come after the one an object is in; those of sub-components are
  never among them.\<close>

definition comp_get_next_any :: "db \<Rightarrow> oid \<Rightarrow> obj_comp \<Rightarrow> oid option" where
  "comp_get_next_any db ob c =
     (case (case type_of db ob of
              TYPE_COMP \<Rightarrow> c_nones c @ c_tests c @ c_rules c @ c_actions c
            | TYPE_NONE \<Rightarrow> c_tests c @ c_rules c @ c_actions c
            | TYPE_TEST \<Rightarrow> c_rules c @ c_actions c
            | TYPE_RULE \<Rightarrow> c_actions c
            | _ \<Rightarrow> []) of [] \<Rightarrow> None | x # _ \<Rightarrow> Some x)"

definition myrefl_comp_get_next_contained :: "db \<Rightarrow> oid option \<Rightarrow> oid option \<Rightarrow> obj_type \<Rightarrow> oid option option" where
  "myrefl_comp_get_next_contained db top_comp ob type =
     (case ob of
        None \<Rightarrow> Some None
      | Some x \<Rightarrow>
          (case o_parent_comp (objs db x) of
             None \<Rightarrow> Some None
           | Some p \<Rightarrow>
               if type \<noteq> TYPE_COMP \<and> type_of db x \<noteq> TYPE_COMP \<and> next_in_comp db x \<noteq> None
               then Some (next_in_comp db x)
               else
                 let cp = (if type = TYPE_COMP \<or> type_of db x = TYPE_COMP \<and> type = TYPE_ANY then x else p)
                 in Option.bind (comp_of db cp) (\<lambda>c.
                   if type = TYPE_ANY \<and> comp_get_next_any db x c \<noteq> None then Some (comp_get_next_any db x c)
                   else Option.bind (comp_get_next_contained db top_comp (Some cp)) (\<lambda>n.
                     case n of
                       None \<Rightarrow> Some None
                     | Some y \<Rightarrow>
                         if type = TYPE_COMP \<or> type = TYPE_ANY then Some (Some y)
                         else comp_get_next_type_contained db top_comp (Some y) type))))"

text \<open>The first test that feeds a rule, over at most \<open>MAX_SERIAL_RULES + 1\<close> inputs.\<close>

primrec first_test :: "nat \<Rightarrow> db \<Rightarrow> oid \<Rightarrow> oid option option" where
  "first_test 0 db ob = Some None"
| "first_test (Suc n) db ob =
     Option.bind (rule_of db ob) (\<lambda>r.
       case r_inputs r of
         [] \<Rightarrow> Some None
       | x # _ \<Rightarrow> if type_of db x = TYPE_TEST then Some (Some x) else first_test n db x)"

definition myrefl_obj_get_rel :: "db \<Rightarrow> oid option \<Rightarrow> obj_rel \<Rightarrow> oid option option" where
  "myrefl_obj_get_rel db ob rel =
     (case ob of
        None \<Rightarrow> Some None
      | Some x \<Rightarrow>
          if type_of db x = TYPE_RULE \<and> rel = REL_TEST then first_test (MAX_SERIAL_RULES + 1) db x
          else Some (if rel = REL_PARENT_COMP then o_parent_comp (objs db x) else None))"

section \<open>Moving an object into a component\<close>

partial_function (option) contains_loop :: "db \<Rightarrow> oid \<Rightarrow> oid \<Rightarrow> oid option \<Rightarrow> bool option" where
  "contains_loop db parent child ob =
     (if ob = Some parent then Some True
      else Option.bind (myrefl_comp_get_next_contained db (Some child) ob TYPE_COMP) (\<lambda>next.
        case next of None \<Rightarrow> Some False | Some _ \<Rightarrow> contains_loop db parent child next))"

definition leave_comp :: "oid \<Rightarrow> db \<Rightarrow> db" where
  "leave_comp child db =
     (case o_parent_comp (objs db child) of
        None \<Rightarrow> db
      | Some p \<Rightarrow> myrefl_obj_unlink_from_comp child
          (set_comp p (\<lambda>c. c\<lparr>c_top_depend := remove1 child (c_top_depend c),
             c_bottom_depend := remove1 child (c_bottom_depend c)\<rparr>) db))"

definition note_depend :: "oid \<Rightarrow> oid \<Rightarrow> db \<Rightarrow> db" where
  "note_depend parent child db =
     (let x = objs db child in
      set_comp parent (\<lambda>c. c\<lparr>
        c_top_depend := (if myrefl_depend_found_comp (o_parent_depend x) parent db then c_top_depend c
                         else list_add child (c_top_depend c)),
        c_bottom_depend := (if myrefl_depend_found_comp (o_child_depend x) parent db then c_bottom_depend c
                            else list_add child (c_bottom_depend c))\<rparr>) db)"

definition myrefl_api_comp_contains :: "oid \<Rightarrow> oid \<Rightarrow> db \<Rightarrow> db option" where
  "myrefl_api_comp_contains parent child db = do {
     loop \<leftarrow> (if type_of db child = TYPE_COMP
       then Option.bind (myrefl_comp_get_first_contained db (Some child) TYPE_COMP) (contains_loop db parent child)
       else Some False);
     if loop then Some db else do {
     db \<leftarrow> myrefl_obj_comp_link_obj parent child (leave_comp child db);
     Some (if type_of db child = TYPE_RULE \<or> type_of db child = TYPE_COMP
           then note_depend parent child db else db) }}"

section \<open>Components that contain leaves only\<close>

definition leaf :: "db \<Rightarrow> oid \<Rightarrow> bool" where
  "leaf db x \<longleftrightarrow> chain db TYPE_COMP x = []"

lemma contained_leaf:
  assumes "chains_ok db" and "leaf db x" and "chain db TYPE_COMP child = ys @ x # zs" and "x \<noteq> child"
  shows "myrefl_comp_get_next_contained db (Some child) (Some x) TYPE_COMP = Some (head_or None zs)"
proof -
  have x: "x \<in> set (chain db TYPE_COMP child)" using assms(3) by simp
  then obtain c where "comp_of db x = Some c" using chain_typed(2) [OF assms(1) x] comp_of_type [of db x] by auto
  moreover from this assms(2) have "c_comps c = []" by (simp add: leaf_def chain_def comp_list_def)
  ultimately show ?thesis
    using assms(4) chain_typed [OF assms(1) x] chain_next [OF assms(1,3)]
    by (cases zs) (simp_all add: myrefl_comp_get_next_contained_def comp_get_next_contained_def or_system_def)
qed

lemma contains_loop_leaves:
  assumes "chains_ok db" and "\<And>x. x \<in> set (chain db TYPE_COMP child) \<Longrightarrow> leaf db x \<and> x \<noteq> child"
  shows "chain db TYPE_COMP child = ys @ zs \<Longrightarrow>
    contains_loop db parent child (head_or None zs) = Some (parent \<in> set zs)"
proof (induction zs arbitrary: ys)
  case Nil
  then show ?case by (subst contains_loop.simps) (simp add: myrefl_comp_get_next_contained_def)
next
  case (Cons z zs)
  have "contains_loop db parent child (head_or None zs) = Some (parent \<in> set zs)"
    using Cons.IH [of "ys @ [z]"] Cons.prems by simp
  moreover have "myrefl_comp_get_next_contained db (Some child) (Some z) TYPE_COMP = Some (head_or None zs)"
    using contained_leaf [OF assms(1) _ Cons.prems] assms(2) [of z] Cons.prems by simp
  ultimately show ?case
    by (subst contains_loop.simps) (cases zs, auto)
qed

lemma first_contained:
  assumes "type_of db child = TYPE_COMP"
  shows "myrefl_comp_get_first_contained db (Some child) TYPE_COMP = Some (head_or None (chain db TYPE_COMP child))"
proof -
  obtain c where c: "comp_of db child = Some c" using assms comp_of_type [of db child] by auto
  have "contained_loop (Suc 0) db (Some child) None TYPE_COMP = Some None" by (subst contained_loop.simps) simp
  then show ?thesis
    using c by (simp add: myrefl_comp_get_first_contained_def comp_get_next_type_contained_def or_system_def
        contained_loop.simps [of 0] chain_def contained_list_def comp_get_next_contained_def comp_list_def Let_def split: list.split)
qed

lemma leave_reads:
  fixes child :: oid
  assumes "chains_ok db"
  defines "db' \<equiv> leave_comp child db"
  shows "type_of db' = type_of db" "system_comp db' = system_comp db" "next_oid db' = next_oid db" "inst db' = inst db"
    "o_parent_comp (objs db' x) = (if x = child then None else o_parent_comp (objs db x))"
    "chain db' ty y = remove1 child (chain db ty y)" "chains_ok db'"
    "depth_ok d db \<Longrightarrow> depth_ok d db'" "tree_ok db \<Longrightarrow> tree_ok db'"
proof -
  have "\<exists>db1. type_of db1 = type_of db \<and> system_comp db1 = system_comp db \<and> next_oid db1 = next_oid db \<and>
      inst db1 = inst db \<and> (\<forall>x. o_parent_comp (objs db1 x) = o_parent_comp (objs db x)) \<and> chain db1 = chain db \<and>
      db' = myrefl_obj_unlink_from_comp child db1"
  proof (cases "o_parent_comp (objs db child)")
    case None
    then show ?thesis by (intro exI [of _ db]) (simp add: db'_def leave_comp_def myrefl_obj_unlink_from_comp_def)
  next
    case (Some p)
    then show ?thesis
      by (intro exI [of _ "set_comp p (\<lambda>c. c\<lparr>c_top_depend := remove1 child (c_top_depend c),
             c_bottom_depend := remove1 child (c_bottom_depend c)\<rparr>) db"])
        (simp add: db'_def leave_comp_def acc_simps fun_eq_iff)
  qed
  then obtain db1 where r: "type_of db1 = type_of db" "system_comp db1 = system_comp db" "next_oid db1 = next_oid db"
    "inst db1 = inst db" "\<And>x. o_parent_comp (objs db1 x) = o_parent_comp (objs db x)" "chain db1 = chain db"
    and db': "db' = myrefl_obj_unlink_from_comp child db1" by blast
  note same = same_tree [OF r(1,2,6,5)]
  have ok: "chains_ok db1" using assms(1) by (simp add: chains_ok_def r)
  then show "chains_ok db'" "depth_ok d db \<Longrightarrow> depth_ok d db'" "tree_ok db \<Longrightarrow> tree_ok db'"
    using unlink_chains_ok unlink_depth unlink_tree_ok by (simp_all add: db' same)
  have "type_of db' = type_of db \<and> system_comp db' = system_comp db \<and> next_oid db' = next_oid db \<and> inst db' = inst db \<and>
    o_parent_comp (objs db' x) = (if x = child then None else o_parent_comp (objs db x)) \<and>
    chain db' ty y = remove1 child (chain db ty y)" for x
  proof (cases "o_parent_comp (objs db1 child)")
    case None
    have "child \<notin> set (chain db ty y)" using chain_typed(1) [OF assms(1), of child ty y] None r by auto
    then show ?thesis using None r by (simp add: db' myrefl_obj_unlink_from_comp_def remove1_idem)
  next
    case (Some p)
    show ?thesis using unlink_reads [OF ok Some] r by (simp add: db')
  qed
  then show "type_of db' = type_of db" "system_comp db' = system_comp db" "next_oid db' = next_oid db"
    "inst db' = inst db" "o_parent_comp (objs db' x) = (if x = child then None else o_parent_comp (objs db x))"
    "chain db' ty y = remove1 child (chain db ty y)" by simp_all
qed

lemma note_depend_reads:
  "type_of (note_depend p x db) = type_of db" "system_comp (note_depend p x db) = system_comp db"
  "next_oid (note_depend p x db) = next_oid db" "inst (note_depend p x db) = inst db"
  "o_parent_comp (objs (note_depend p x db) y) = o_parent_comp (objs db y)"
  "chain (note_depend p x db) = chain db"
  by (simp_all add: note_depend_def Let_def acc_simps fun_eq_iff)

text \<open>Moving an object into a component, when the component contains no more than leaves.\<close>

definition movable :: "db \<Rightarrow> oid \<Rightarrow> oid \<Rightarrow> bool" where
  "movable db parent child \<longleftrightarrow> type_of db parent = TYPE_COMP \<and> parent \<noteq> child \<and>
     parent \<notin> set (chain db TYPE_COMP child) \<and> list_all (leaf db) (chain db TYPE_COMP child)"

lemma contains_check:
  assumes "chains_ok db" and "list_all (leaf db) (chain db TYPE_COMP child)" and "type_of db child = TYPE_COMP"
  shows "Option.bind (myrefl_comp_get_first_contained db (Some child) TYPE_COMP) (contains_loop db parent child) =
    Some (parent \<in> set (chain db TYPE_COMP child))"
proof -
  have "leaf db x \<and> x \<noteq> child" if "x \<in> set (chain db TYPE_COMP child)" for x
    using that assms(2) by (auto simp: list_all_iff leaf_def)
  with contains_loop_leaves [OF assms(1), of child "[]"] show ?thesis
    by (simp add: first_contained [OF assms(3)])
qed

lemma comp_contains_links:
  assumes "chains_ok db" and "movable db parent child"
  shows "\<exists>db'. myrefl_api_comp_contains parent child db = Some db' \<and> chains_ok db' \<and>
    type_of db' = type_of db \<and> system_comp db' = system_comp db \<and> next_oid db' = next_oid db \<and> inst db' = inst db \<and>
    (\<forall>x. o_parent_comp (objs db' x) = (if x = child then Some parent else o_parent_comp (objs db x))) \<and>
    (\<forall>ty y. chain db' ty y = (if y = parent \<and> ty = type_of db child then child # remove1 child (chain db ty y)
       else remove1 child (chain db ty y)))"
proof -
  have mv: "type_of db parent = TYPE_COMP" "parent \<noteq> child" "parent \<notin> set (chain db TYPE_COMP child)"
    "list_all (leaf db) (chain db TYPE_COMP child)"
    using assms(2) by (simp_all add: movable_def)
  note lv = leave_reads [OF assms(1), where child = child]
  obtain l where l: "myrefl_obj_comp_link_obj parent child (leave_comp child db) = Some l"
    using comp_of_type [of "leave_comp child db" parent] mv(1) by (auto simp: myrefl_obj_comp_link_obj_def lv)
  note lr = link_reads [OF l]
  define db' where "db' = (if type_of l child = TYPE_RULE \<or> type_of l child = TYPE_COMP then note_depend parent child l else l)"
  have "(if type_of db child = TYPE_COMP
      then Option.bind (myrefl_comp_get_first_contained db (Some child) TYPE_COMP) (contains_loop db parent child)
      else Some False) = Some False"
    using contains_check [OF assms(1) mv(4)] mv(3) by simp
  then have run: "myrefl_api_comp_contains parent child db = Some db'"
    using l by (simp add: myrefl_api_comp_contains_def db'_def)
  have r: "type_of db' = type_of l" "system_comp db' = system_comp l" "next_oid db' = next_oid l" "inst db' = inst l"
    "\<And>x. o_parent_comp (objs db' x) = o_parent_comp (objs l x)" "chain db' = chain l"
    by (simp_all add: db'_def note_depend_reads)
  have "chains_ok l" by (rule link_chains_ok [OF lv(7) l])
  then have "chains_ok db'" by (simp add: chains_ok_def r)
  with run show ?thesis by (auto simp: r lr lv)
qed

text \<open>Tests, rules, actions and untyped objects keep their place in the name space.\<close>

lemma comp_contains_lookup:
  assumes "tree_inv db" and "child \<in> set (lookup_order TYPE_ANY db)" and "type_of db child \<noteq> TYPE_COMP"
    and "parent \<in> set (all_comps db)"
  shows "\<exists>db'. myrefl_api_comp_contains parent child db = Some db' \<and> tree_inv db' \<and>
    o_parent_comp (objs db' child) = Some parent \<and> type_of db' = type_of db \<and> lookup db' = lookup db"
proof -
  have t: "tree_ok db" "fresh_ok db" "chains_ok db" using assms(1) by (simp_all add: tree_inv_def tree_ok_def)
  have p: "type_of db parent = TYPE_COMP" by (rule all_comps_typed [OF t(1) assms(4)])
  then have px: "parent \<noteq> child" using assms(3) by auto
  have empty: "chain db ty child = []" for ty
    using chain_owner [of _ db ty child] assms(3) by (cases "chain db ty child") auto
  have "movable db parent child" using p px by (simp add: movable_def empty)
  from comp_contains_links [OF t(3) this] obtain db' where
    run: "myrefl_api_comp_contains parent child db = Some db'" and ok: "chains_ok db'"
    and r: "type_of db' = type_of db" "system_comp db' = system_comp db" "next_oid db' = next_oid db" "inst db' = inst db"
      "\<And>x. o_parent_comp (objs db' x) = (if x = child then Some parent else o_parent_comp (objs db x))"
      "\<And>ty y. chain db' ty y = (if y = parent \<and> ty = type_of db child then child # remove1 child (chain db ty y)
       else remove1 child (chain db ty y))" by blast
  have sys: "system_comp db \<noteq> Some child" using t(1) assms(3) by (auto simp: tree_ok_def)
  have m: "moved child db db'"
    using sys px by (simp add: moved_def r empty filter_remove1_same)
  obtain d where d: "depth_ok d db" using t(1) by (auto simp: tree_ok_def)
  have "x \<in> set (chain db TYPE_COMP y)" if "x \<in> set (chain db' TYPE_COMP y)" for x y
    using that assms(3) by (auto simp: r dest: subsetD [OF set_remove1_subset] split: if_splits)
  then have d': "depth_ok d db'" using d by (fastforce simp: depth_ok_def r(2))
  have "tree_ok db'" using t(1) ok d' sys by (auto simp: tree_ok_def r split: option.splits)
  moreover have "child < next_oid db"
    using fresh_not_listed [OF t(1,2), of child] assms(2) by (meson not_le)
  then have "fresh_ok db'" using t(2) by (auto simp: fresh_ok_def r)
  moreover have "child \<in> set (chain db' (type_of db child) parent)" by (simp add: r)
  ultimately have "tree_inv db'" "lookup db' = lookup db"
    using relocated [OF assms(1,2) m _ _ _ assms(4) px _ type_of_any] by (simp_all add: r(4))
  with run show ?thesis by (auto simp: r)
qed

text \<open>The loop check does not see that parent and child are the same component.\<close>

lemma self_containment:
  assumes "chains_ok db" and "type_of db x = TYPE_COMP" and "leaf db x"
  shows "\<exists>db'. myrefl_api_comp_contains x x db = Some db' \<and> o_parent_comp (objs db' x) = Some x \<and>
    {p. x \<in> set (chain db' TYPE_COMP p)} = {x}"
proof -
  note lv = leave_reads [OF assms(1), where child = x]
  obtain l where l: "myrefl_obj_comp_link_obj x x (leave_comp x db) = Some l"
    using comp_of_type [of "leave_comp x db" x] assms(2) by (auto simp: myrefl_obj_comp_link_obj_def lv)
  note lr = link_reads [OF l]
  have "contains_loop db x x None = Some False"
    by (subst contains_loop.simps) (simp add: myrefl_comp_get_next_contained_def)
  then have run: "myrefl_api_comp_contains x x db = Some (note_depend x x l)"
    using l assms(2,3) first_contained [OF assms(2)] by (simp add: myrefl_api_comp_contains_def lr lv leaf_def)
  have "x \<notin> set (remove1 x (chain db TYPE_COMP p))" for p
    using chain_distinct [OF assms(1)] by simp
  then have "{p. x \<in> set (chain (note_depend x x l) TYPE_COMP p)} = {x}"
    by (auto simp: note_depend_reads lr lv assms(2))
  with run show ?thesis by (auto simp: note_depend_reads lr)
qed

end
