(* ===== verification/SeqRequest.thy ===== *)
theory SeqRequest
  imports ObjDb
begin

text \<open>
  The entries of \<^verbatim>\<open>src/src/myrefl_sequence.c\<close> that hand work to a thread: a context from the
  free pool, or a new one, is filled in and queued as a job (\<open>myrefl_thread_request\<close>). The job
  list keeps the order of the requests; theory \<open>Threads\<close> says which thread runs a job.
  \<open>malloc\<close> of a context is assumed to succeed. Its contents are not initialised by the code;
  \<open>blank_context\<close> stands for them.
\<close>

definition SEQUENCE_CONTEXT_LOW_WATER :: nat where "SEQUENCE_CONTEXT_LOW_WATER = 50"

definition blank_context :: seq_context where
  "blank_context =
     \<lparr>sc_instance = IRef 0 0, sc_event = SEQ_TEST_RUN, sc_result = RESULT_INVALID, sc_value = 0\<rparr>"

definition take_context :: "db \<Rightarrow> seq_context \<times> db" where
  "take_context db =
     (case free_contexts db of [] \<Rightarrow> (blank_context, db)
      | c # cs \<Rightarrow> (c, db\<lparr>free_contexts := cs\<rparr>))"

definition thread_request :: "seq_context \<Rightarrow> db \<Rightarrow> db" where
  "thread_request c db =
     (upd_inst (sc_instance c) (\<lambda>i. i\<lparr>i_in_use := i_in_use i + 1\<rparr>) db)\<lparr>jobs := jobs db @ [c]\<rparr>"

definition myrefl_seq_from_test :: "iref \<Rightarrow> db \<Rightarrow> db" where
  "myrefl_seq_from_test i db =
     (let (c, db) = take_context db
      in thread_request (c\<lparr>sc_instance := i, sc_event := SEQ_TEST_RUN, sc_result := RESULT_INVALID,
           sc_value := 0\<rparr>) db)"

definition myrefl_seq_from_test_notify :: "iref \<Rightarrow> result \<Rightarrow> int \<Rightarrow> db \<Rightarrow> db" where
  "myrefl_seq_from_test_notify i r v db =
     (let (c, db) = take_context db
      in thread_request (c\<lparr>sc_instance := i, sc_event := SEQ_TEST_RESULT, sc_result := r,
           sc_value := v\<rparr>) db)"

definition myrefl_seq_from_test_notify_rci :: "iref \<Rightarrow> result \<Rightarrow> int \<Rightarrow> db \<Rightarrow> db" where
  "myrefl_seq_from_test_notify_rci i r v db =
     (let (c, db) = take_context db
      in thread_request (c\<lparr>sc_instance := i, sc_event := SEQ_TEST_RESULT_RCI, sc_result := r,
           sc_value := v\<rparr>) db)"

text \<open>The result and the value of a root cause request are what the context held before.\<close>

definition myrefl_seq_from_root_cause :: "iref \<Rightarrow> db \<Rightarrow> db" where
  "myrefl_seq_from_root_cause i db =
     (let (c, db) = take_context db
      in thread_request (c\<lparr>sc_instance := i, sc_event := SEQ_RULE_ROOT_CAUSE\<rparr>) db)"

definition myrefl_seq_from_action_complete :: "iref \<Rightarrow> result \<Rightarrow> db \<Rightarrow> db" where
  "myrefl_seq_from_action_complete i r db =
     (let (c, db) = take_context db
      in thread_request (c\<lparr>sc_instance := i, sc_event := SEQ_ACTION_RESULT, sc_result := r\<rparr>) db)"

definition myrefl_seq_init :: "db \<Rightarrow> db" where
  "myrefl_seq_init db =
     db\<lparr>free_contexts := free_contexts db @ replicate SEQUENCE_CONTEXT_LOW_WATER blank_context\<rparr>"

definition myrefl_seq_terminate :: "db \<Rightarrow> db" where
  "myrefl_seq_terminate db = db\<lparr>free_contexts := []\<rparr>"

lemmas seq_from_defs = myrefl_seq_from_test_def myrefl_seq_from_test_notify_def
  myrefl_seq_from_test_notify_rci_def myrefl_seq_from_root_cause_def
  myrefl_seq_from_action_complete_def

section \<open>What a request changes\<close>

lemma take_context_fields:
  "objs (snd (take_context db)) = objs db" "insts (snd (take_context db)) = insts db"
  "queues (snd (take_context db)) = queues db" "jobs (snd (take_context db)) = jobs db"
  "outs (snd (take_context db)) = outs db" "healths (snd (take_context db)) = healths db"
  "queues_blocked (snd (take_context db)) = queues_blocked db"
  "runtime db (snd (take_context db))"
  by (simp_all add: take_context_def split: list.splits)

lemma thread_request_runtime: "runtime db (thread_request c db)"
proof -
  have "runtime db (upd_inst (sc_instance c) (\<lambda>i. i\<lparr>i_in_use := i_in_use i + 1\<rparr>) db)"
    by (rule runtime_upd_inst) (simp add: inst_id_def)
  then show ?thesis
    by (simp add: thread_request_def) (erule runtime_trans, simp)
qed

lemma thread_request_fields [simp]:
  "jobs (thread_request c db) = jobs db @ [c]" "queues (thread_request c db) = queues db"
  "outs (thread_request c db) = outs db" "healths (thread_request c db) = healths db"
  "objs (thread_request c db) = objs db" "queues_blocked (thread_request c db) = queues_blocked db"
  "start_timer (thread_request c db) = start_timer db"
  "i_sched (inst (thread_request c db) j) = i_sched (inst db j)"
  "i_last_result (inst (thread_request c db) j) = i_last_result (inst db j)"
  "i_state (inst (thread_request c db) j) = i_state (inst db j)"
  by (simp_all add: thread_request_def upd_inst_def inst_def)

text \<open>The facts below hold for each of the five entries.\<close>

lemma request_runtime: "runtime db (thread_request c (snd (take_context db)))"
  by (rule runtime_trans [OF take_context_fields(8) thread_request_runtime])

lemma seq_from_runtime [inv_intros]:
  "runtime db (myrefl_seq_from_test i db)" "runtime db (myrefl_seq_from_test_notify i r v db)"
  "runtime db (myrefl_seq_from_test_notify_rci i r v db)" "runtime db (myrefl_seq_from_root_cause i db)"
  "runtime db (myrefl_seq_from_action_complete i r db)"
  by (simp_all add: seq_from_defs split_beta request_runtime)

lemma seq_from_queues [frame_simps]:
  "queues (myrefl_seq_from_test i db) = queues db"
  "queues (myrefl_seq_from_test_notify i r v db) = queues db"
  "queues (myrefl_seq_from_test_notify_rci i r v db) = queues db"
  "queues (myrefl_seq_from_root_cause i db) = queues db"
  "queues (myrefl_seq_from_action_complete i r db) = queues db"
  by (simp_all add: seq_from_defs split_beta take_context_fields)

lemma seq_from_blocked [frame_simps]:
  "queues_blocked (myrefl_seq_from_test i db) = queues_blocked db"
  "queues_blocked (myrefl_seq_from_test_notify i r v db) = queues_blocked db"
  "queues_blocked (myrefl_seq_from_test_notify_rci i r v db) = queues_blocked db"
  "queues_blocked (myrefl_seq_from_root_cause i db) = queues_blocked db"
  "queues_blocked (myrefl_seq_from_action_complete i r db) = queues_blocked db"
  by (simp_all add: seq_from_defs split_beta take_context_fields)

lemma inst_take_context: "inst (snd (take_context db)) j = inst db j"
  by (simp add: inst_def take_context_fields)

lemma seq_from_sched [frame_simps]:
  "i_sched (inst (myrefl_seq_from_test i db) j) = i_sched (inst db j)"
  "i_sched (inst (myrefl_seq_from_test_notify i r v db) j) = i_sched (inst db j)"
  "i_sched (inst (myrefl_seq_from_test_notify_rci i r v db) j) = i_sched (inst db j)"
  "i_sched (inst (myrefl_seq_from_root_cause i db) j) = i_sched (inst db j)"
  "i_sched (inst (myrefl_seq_from_action_complete i r db) j) = i_sched (inst db j)"
  by (simp_all add: seq_from_defs split_beta inst_take_context)

text \<open>Each entry queues one job, at the end, for its event.\<close>

lemma seq_from_jobs:
  "\<exists>c. jobs (myrefl_seq_from_test i db) = jobs db @ [c] \<and> sc_instance c = i \<and> sc_event c = SEQ_TEST_RUN"
  "\<exists>c. jobs (myrefl_seq_from_test_notify i r v db) = jobs db @ [c] \<and> sc_instance c = i \<and>
     sc_event c = SEQ_TEST_RESULT \<and> sc_result c = r \<and> sc_value c = v"
  "\<exists>c. jobs (myrefl_seq_from_test_notify_rci i r v db) = jobs db @ [c] \<and> sc_instance c = i \<and>
     sc_event c = SEQ_TEST_RESULT_RCI \<and> sc_result c = r \<and> sc_value c = v"
  "\<exists>c. jobs (myrefl_seq_from_root_cause i db) = jobs db @ [c] \<and> sc_instance c = i \<and>
     sc_event c = SEQ_RULE_ROOT_CAUSE"
  "\<exists>c. jobs (myrefl_seq_from_action_complete i r db) = jobs db @ [c] \<and> sc_instance c = i \<and>
     sc_event c = SEQ_ACTION_RESULT \<and> sc_result c = r"
  by (simp_all add: seq_from_defs split_beta take_context_fields)

end
