(* ===== verification/Sched.thy ===== *)
theory Sched
  imports SeqRequest
begin

text \<open>
  The scheduler of \<^verbatim>\<open>src/src/myrefl_sched.c\<close>. A queue holds the tests that wait, in the order of
  \<open>myrefl_list\<close>; \<open>None\<close> is a queue that has not been created. The start timer and the release
  of the scheduler thread are entries of \<open>outs\<close>.
\<close>

section \<open>The queues\<close>

definition peek_queue :: "test_queue \<Rightarrow> db \<Rightarrow> iref option" where
  "peek_queue q db = (case queues db q of None \<Rightarrow> None | Some xs \<Rightarrow> (case xs of [] \<Rightarrow> None | x # _ \<Rightarrow> Some x))"

definition pop_queue :: "test_queue \<Rightarrow> db \<Rightarrow> iref option \<times> db" where
  "pop_queue q db =
     (case queues db q of None \<Rightarrow> (None, db)
      | Some xs \<Rightarrow> (case xs of [] \<Rightarrow> (None, db)
          | x # ys \<Rightarrow> (Some x, db\<lparr>queues := (queues db)(q \<mapsto> ys)\<rparr>)))"

definition push_queue :: "test_queue \<Rightarrow> iref \<Rightarrow> db \<Rightarrow> db" where
  "push_queue q i db =
     (case queues db q of None \<Rightarrow> db | Some xs \<Rightarrow> db\<lparr>queues := (queues db)(q \<mapsto> xs @ [i])\<rparr>)"

definition remove_queue :: "test_queue \<Rightarrow> iref \<Rightarrow> db \<Rightarrow> bool \<times> db" where
  "remove_queue q i db =
     (case queues db q of None \<Rightarrow> (False, db)
      | Some xs \<Rightarrow> (i \<in> set xs, db\<lparr>queues := (queues db)(q \<mapsto> remove1 i xs)\<rparr>))"

definition next_time_of :: "db \<Rightarrow> iref \<Rightarrow> xos_time" where
  "next_time_of db i = next_time (i_sched (inst db i))"

definition queued_of :: "db \<Rightarrow> iref \<Rightarrow> test_queue" where
  "queued_of db i = queued (i_sched (inst db i))"

definition set_queued :: "test_queue \<Rightarrow> iref \<Rightarrow> db \<Rightarrow> db" where
  "set_queued q i = upd_inst i (\<lambda>x. x\<lparr>i_sched := (i_sched x)\<lparr>queued := q\<rparr>\<rparr>)"

definition set_next_time :: "xos_time \<Rightarrow> iref \<Rightarrow> db \<Rightarrow> db" where
  "set_next_time t i = upd_inst i (\<lambda>x. x\<lparr>i_sched := (i_sched x)\<lparr>next_time := t\<rparr>\<rparr>)"

text \<open>The walk along the user queue up to the first test that is due later; a test that is
  on the queue already is not inserted again (\<open>myrefl_list_insert\<close>).\<close>

primrec insert_by_time :: "db \<Rightarrow> iref \<Rightarrow> iref list \<Rightarrow> iref list" where
  "insert_by_time db i [] = [i]"
| "insert_by_time db i (x # xs) =
     (if XOS_TIME_LT (next_time_of db i) (next_time_of db x) then i # x # xs
      else x # insert_by_time db i xs)"

definition insert_queue :: "test_queue \<Rightarrow> iref \<Rightarrow> db \<Rightarrow> db" where
  "insert_queue q i db =
     (case queues db q of None \<Rightarrow> db
      | Some xs \<Rightarrow> if i \<in> set xs then db
                   else db\<lparr>queues := (queues db)(q \<mapsto> insert_by_time db i xs)\<rparr>)"

section \<open>The start timer\<close>

text \<open>
  The padding of the delay, computed in \<open>double\<close>: converting a negative value to
  \<open>unsigned long\<close> is undefined, \<open>None\<close>.
\<close>

definition pad_delay :: "xos_time \<Rightarrow> 64 word \<times> 64 word option" where
  "pad_delay d =
     (if int (unat (nsec d)) + 100000000 > 1000000000 then
        (let v = (1000000000 - int (unat (nsec d))) + 100000000
         in (sec d + 1, if v < 0 then None else Some (word_of_int v)))
      else (sec d, Some (nsec d + 100000000)))"

definition soonest_test :: "db \<Rightarrow> (test_queue \<times> xos_time) option" where
  "soonest_test db =
     fold (\<lambda>q acc.
        case peek_queue q db of None \<Rightarrow> acc
        | Some i \<Rightarrow>
           (case acc of None \<Rightarrow> Some (q, next_time_of db i)
            | Some (_, soonest) \<Rightarrow>
                if XOS_TIME_LT (next_time_of db i) soonest then Some (q, next_time_of db i) else acc))
       all_queues None"

definition check_test_start_timer :: "db \<Rightarrow> db" where
  "check_test_start_timer db =
     (if queues_blocked db then db
      else if \<not> start_timer db then db
      else (case soonest_test db of None \<Rightarrow> db
        | Some (_, soonest) \<Rightarrow>
            (let (now, db) = time_now db
             in if XOS_TIME_LT soonest now then emit Sched_release db
                else let (s, n) = pad_delay (myrefl_xos_time_diff now soonest)
                     in emit (Timer_start s n) db)))"

section \<open>Adding and removing tests\<close>

definition period_queue :: "64 word \<Rightarrow> test_queue" where
  "period_queue p =
     (if p = MYREFL_PERIOD_SLOW then QUEUE_SLOW
      else if p = MYREFL_PERIOD_NORMAL then QUEUE_NORMAL
      else if p = MYREFL_PERIOD_FAST then QUEUE_FAST
      else QUEUE_USER)"

text \<open>The queue and the period of a test; \<open>None\<close> when it is not to be scheduled.\<close>

definition test_schedule :: "obj_test \<Rightarrow> obj_instance \<Rightarrow> (test_queue \<times> 64 word) option" where
  "test_schedule t i =
     (if t_type t = POLLED then Some (period_queue (t_period t), t_period t)
      else if t_autopass t > AUTOPASS_UNSET \<and> i_last_result i = RESULT_FAIL
      then Some (QUEUE_USER, word_of_int (t_autopass t))
      else None)"

definition add_period :: "64 word \<Rightarrow> xos_time \<Rightarrow> xos_time" where
  "add_period p t = XosTime (sec t + p div 1000) (nsec t + p mod 1000 * 1000000)"

text \<open>Enqueueing with the run time \<open>period\<close> from now, after the bookkeeping of \<open>queued\<close>.\<close>

definition enqueue_test :: "test_queue \<Rightarrow> 64 word \<Rightarrow> iref \<Rightarrow> db \<Rightarrow> db" where
  "enqueue_test q period i db =
     (let (now, db) = time_now db;
          db = set_next_time (add_period period now) i db;
          db = (if q = QUEUE_USER then insert_queue q i db else push_queue q i db)
      in check_test_start_timer db)"

definition myrefl_sched_add_test :: "iref \<Rightarrow> bool \<Rightarrow> db \<Rightarrow> db option" where
  "myrefl_sched_add_test i force db = do {
     (ok, db) \<leftarrow> myrefl_obj_validate (Some (obj_of i)) TYPE_TEST db;
     if \<not> ok \<or> i_state (inst db i) \<noteq> STATE_ENABLED then Some db
     else if queues_blocked db \<and> \<not> force then Some db
     else do {
       t \<leftarrow> test_of db (obj_of i);
       (case test_schedule t (inst db i) of None \<Rightarrow> Some db
        | Some (q, period) \<Rightarrow>
           if queues db q = None then Some db
           else if queued_of db i = QUEUE_NONE then
             Some (enqueue_test q period i (set_queued q i db))
           else if queued_of db i \<noteq> q \<or> q = QUEUE_USER then
             (let (removed, db) = remove_queue (queued_of db i) i db;
                  db = (if removed then set_queued q i db else db)
              in Some (enqueue_test q period i db))
           else Some db) }}"

definition myrefl_sched_remove_test :: "iref \<Rightarrow> db \<Rightarrow> db" where
  "myrefl_sched_remove_test i db =
     check_test_start_timer
       (if queued_of db i \<noteq> QUEUE_NONE then
          (let (removed, db) = remove_queue (queued_of db i) i db
           in if removed then set_queued QUEUE_NONE i db else db)
        else db)"

definition myrefl_sched_test_immediate :: "iref \<Rightarrow> db \<Rightarrow> db option" where
  "myrefl_sched_test_immediate i db = do {
     (ok, db) \<leftarrow> myrefl_obj_instance_validate i TYPE_TEST db;
     if \<not> ok then Some db
     else if queued_of db i = QUEUE_IMMEDIATE then Some db
     else do {
       t \<leftarrow> test_of db (obj_of i);
       if queued_of db i = QUEUE_NONE \<and> t_type t = POLLED then Some db
       else
         let db = (if queued_of db i \<noteq> QUEUE_NONE then myrefl_sched_remove_test i db else db)
         in if queues_blocked db then Some db
            else let (now, db) = time_now db;
                     db = set_next_time now i db;
                     db = set_queued QUEUE_IMMEDIATE i db;
                     db = push_queue QUEUE_IMMEDIATE i db
                 in Some (check_test_start_timer db) }}"

text \<open>All the tests that feed into a rule, through the rules between.\<close>

partial_function (option) myrefl_sched_rule_immediate :: "iref \<Rightarrow> db \<Rightarrow> db option" where
  "myrefl_sched_rule_immediate i db =
     Option.bind (myrefl_obj_instance_validate i TYPE_RULE db) (\<lambda>(ok, db).
       if \<not> ok then Some db
       else Option.bind (rule_of db (obj_of i)) (\<lambda>r.
         foldM (\<lambda>x db.
             if type_of db x \<noteq> TYPE_TEST
             then myrefl_sched_rule_immediate (myrefl_obj_instance db x i) db
             else myrefl_sched_test_immediate (myrefl_obj_instance db x i) db)
           (r_inputs r) db))"

section \<open>Starting the tests that are due\<close>

definition dequeue_test_for_start :: "test_queue \<Rightarrow> db \<Rightarrow> db option" where
  "dequeue_test_for_start q db =
     (case pop_queue q db of
        (None, db) \<Rightarrow> Some db
      | (Some i, db) \<Rightarrow> do {
          (ok, db) \<leftarrow> myrefl_obj_instance_validate i TYPE_TEST db;
          if \<not> ok then Some db
          else do {
            t \<leftarrow> test_of db (obj_of i);
            if t_type t = POLLED then
              Some (myrefl_seq_from_test i (set_queued QUEUE_NONE i db))
            else if queued_of db i = QUEUE_USER then
              let db = set_queued QUEUE_NONE i db
              in Some (if t_autopass t \<noteq> AUTOPASS_UNSET
                       then myrefl_seq_from_test_notify i RESULT_PASS 0 db else db)
            else
              let db = set_queued QUEUE_NONE i db
              in Some (myrefl_seq_from_test_notify_rci i (i_last_result (inst db i))
                   (i_last_value (inst db i)) db) }})"

text \<open>One look at the head of a queue.\<close>

definition check_queue :: "xos_time \<Rightarrow> test_queue \<Rightarrow> bool \<times> db \<Rightarrow> (bool \<times> db) option" where
  "check_queue now q s =
     (case peek_queue q (snd s) of
        None \<Rightarrow> Some s
      | Some i \<Rightarrow>
          if XOS_TIME_LT (next_time_of (snd s) i) now
          then map_option (Pair True) (dequeue_test_for_start q (snd s))
          else Some s)"

partial_function (option) check_queues_loop :: "xos_time \<Rightarrow> db \<Rightarrow> db option" where
  "check_queues_loop now db =
     Option.bind (foldM (check_queue now) all_queues (False, db)) (\<lambda>(found, db).
       if found then check_queues_loop now db else Some db)"

definition check_queue_test_times :: "db \<Rightarrow> db option" where
  "check_queue_test_times db =
     (if queues_blocked db then Some db
      else let (now, db) = time_now db
           in map_option check_test_start_timer (check_queues_loop now db))"

section \<open>Starting and stopping\<close>

definition create_queues :: "db \<Rightarrow> db" where
  "create_queues db = db\<lparr>queues := (\<lambda>q. if q \<in> set all_queues then Some [] else queues db q)\<rparr>"

text \<open>Emptying a queue: every test popped is on no queue any more.\<close>

definition clear_queue :: "test_queue \<Rightarrow> db \<Rightarrow> db" where
  "clear_queue q db =
     (case queues db q of None \<Rightarrow> db
      | Some xs \<Rightarrow> fold (set_queued QUEUE_NONE) xs (db\<lparr>queues := (queues db)(q \<mapsto> [])\<rparr>))"

definition destroy_queues :: "db \<Rightarrow> db" where
  "destroy_queues db =
     fold (\<lambda>q db. (clear_queue q db)\<lparr>queues := (queues (clear_queue q db))(q := None)\<rparr>)
       all_queues (db\<lparr>queues_blocked := True\<rparr>)"

section \<open>Reading after an update\<close>

lemma set_sched_reads [simp]:
  "queues (set_queued q i db) = queues db" "queues (set_next_time t i db) = queues db"
  "queues_blocked (set_queued q i db) = queues_blocked db"
  "queues_blocked (set_next_time t i db) = queues_blocked db"
  "queued_of (set_queued q i db) j = (if j = i then q else queued_of db j)"
  "queued_of (set_next_time t i db) = queued_of db"
  "next_time_of (set_queued q i db) = next_time_of db"
  "next_time_of (set_next_time t i db) j = (if j = i then t else next_time_of db j)"
  by (simp_all add: set_queued_def set_next_time_def upd_inst_def queued_of_def next_time_of_def
      inst_def fun_eq_iff)

lemma queue_update_reads [simp]:
  "queued_of (db\<lparr>queues := f\<rparr>) = queued_of db" "next_time_of (db\<lparr>queues := f\<rparr>) = next_time_of db"
  "inst (db\<lparr>queues := f\<rparr>) = inst db"
  by (simp_all add: queued_of_def next_time_of_def inst_def fun_eq_iff)

lemma time_now_reads [simp]:
  "queues (snd (time_now db)) = queues db" "queued_of (snd (time_now db)) = queued_of db"
  "next_time_of (snd (time_now db)) = next_time_of db" "inst (snd (time_now db)) = inst db"
  "queues_blocked (snd (time_now db)) = queues_blocked db" "fst (time_now db) = clock db (ticks db)"
  by (simp_all add: time_now_def queued_of_def next_time_of_def inst_def fun_eq_iff)

lemma emit_reads [simp]:
  "queues (emit e db) = queues db" "queued_of (emit e db) = queued_of db"
  "next_time_of (emit e db) = next_time_of db" "inst (emit e db) = inst db"
  "queues_blocked (emit e db) = queues_blocked db" "objs (emit e db) = objs db"
  by (simp_all add: emit_def queued_of_def next_time_of_def inst_def fun_eq_iff)

lemma push_queue_reads [simp]:
  "queued_of (push_queue q i db) = queued_of db" "next_time_of (push_queue q i db) = next_time_of db"
  "queues_blocked (push_queue q i db) = queues_blocked db"
  "queues (push_queue q i db) = (queues db)(q := map_option (\<lambda>xs. xs @ [i]) (queues db q))"
  by (auto simp: push_queue_def fun_eq_iff split: option.splits)

lemma insert_queue_reads [simp]:
  "queued_of (insert_queue q i db) = queued_of db" "next_time_of (insert_queue q i db) = next_time_of db"
  "queues_blocked (insert_queue q i db) = queues_blocked db"
  "queues (insert_queue q i db) = (queues db)(q := map_option (\<lambda>xs. if i \<in> set xs then xs
      else insert_by_time db i xs) (queues db q))"
  by (auto simp: insert_queue_def fun_eq_iff split: option.splits)

lemma remove_queue_reads [simp]:
  "queued_of (snd (remove_queue q i db)) = queued_of db"
  "next_time_of (snd (remove_queue q i db)) = next_time_of db"
  "queues_blocked (snd (remove_queue q i db)) = queues_blocked db"
  "queues (snd (remove_queue q i db)) = (queues db)(q := map_option (remove1 i) (queues db q))"
  "fst (remove_queue q i db) = (case queues db q of None \<Rightarrow> False | Some xs \<Rightarrow> i \<in> set xs)"
  by (auto simp: remove_queue_def fun_eq_iff split: option.splits)

lemma check_timer_reads [simp]:
  "queues (check_test_start_timer db) = queues db" "queued_of (check_test_start_timer db) = queued_of db"
  "next_time_of (check_test_start_timer db) = next_time_of db"
  "inst (check_test_start_timer db) = inst db"
  "queues_blocked (check_test_start_timer db) = queues_blocked db"
  by (simp_all add: check_test_start_timer_def split_beta split: option.splits)

section \<open>The scheduler leaves the links alone\<close>

lemma runtime_set_sched [simp, inv_intros]:
  "runtime db (set_queued q i db)" "runtime db (set_next_time t i db)"
  unfolding set_queued_def set_next_time_def by (rule runtime_upd_inst, simp add: inst_id_def)+

lemma runtime_queue_ops [simp, inv_intros]:
  "runtime db (push_queue q i db)" "runtime db (insert_queue q i db)"
  "runtime db (snd (remove_queue q i db))" "runtime db (snd (pop_queue q db))"
  by (simp_all add: push_queue_def insert_queue_def remove_queue_def pop_queue_def
      split: option.splits list.splits)

lemma runtime_check_timer [simp, inv_intros]: "runtime db (check_test_start_timer db)"
  by (auto simp: check_test_start_timer_def split_beta split: option.splits
      intro: runtime_trans [OF runtime_fields(2) runtime_fields(1)])

text \<open>The same, peeling the operations off one by one.\<close>

lemmas runtime_peel =
  runtime_trans [OF _ runtime_set_sched(1)] runtime_trans [OF _ runtime_set_sched(2)]
  runtime_trans [OF _ runtime_queue_ops(1)] runtime_trans [OF _ runtime_queue_ops(2)]
  runtime_trans [OF _ runtime_queue_ops(3)] runtime_trans [OF _ runtime_queue_ops(4)]
  runtime_trans [OF _ runtime_check_timer] runtime_trans [OF _ runtime_fields(2)]
  runtime_trans [OF _ runtime_fields(1)]

lemma runtime_enqueue [simp, inv_intros]: "runtime db (enqueue_test q p i db)"
proof -
  let ?db = "set_next_time (add_period p (clock db (ticks db))) i (snd (time_now db))"
  have "runtime db ?db" by (rule runtime_trans [OF runtime_fields(2)]) simp
  then have "runtime db (if q = QUEUE_USER then insert_queue q i ?db else push_queue q i ?db)"
    by (auto intro: runtime_trans)
  then show ?thesis by (simp add: enqueue_test_def Let_def split_beta runtime_trans)
qed

section \<open>The invariant of the queues\<close>

text \<open>
  The queues exist. A test is on a queue once, and on the one its \<open>queued\<close> names; a valid test whose \<open>queued\<close>
  names a queue is on it; the user queue is in the order of the run times.
\<close>

definition on_queue :: "db \<Rightarrow> iref \<Rightarrow> test_queue \<Rightarrow> bool" where
  "on_queue db i q \<longleftrightarrow> (case queues db q of None \<Rightarrow> False | Some xs \<Rightarrow> i \<in> set xs)"

definition sched_inv_but :: "iref set \<Rightarrow> db \<Rightarrow> bool" where
  "sched_inv_but N db \<longleftrightarrow>
     queues db QUEUE_NONE = None \<and> (\<forall>q. q \<noteq> QUEUE_NONE \<longrightarrow> queues db q \<noteq> None) \<and>
     (\<forall>q xs. queues db q = Some xs \<longrightarrow> distinct xs \<and> set xs \<inter> N = {} \<and> (\<forall>i \<in> set xs. queued_of db i = q)) \<and>
     (\<forall>i. i \<notin> N \<longrightarrow> inst_valid db i TYPE_TEST \<longrightarrow> queued_of db i \<noteq> QUEUE_NONE \<longrightarrow> on_queue db i (queued_of db i)) \<and>
     (\<forall>xs. queues db QUEUE_USER = Some xs \<longrightarrow>
        sorted_wrt (\<lambda>i j. next_time_of db i \<le> next_time_of db j) xs)"

definition sched_inv :: "db \<Rightarrow> bool" where
  "sched_inv db \<longleftrightarrow> sched_inv_but {} db"

lemma sched_inv_butD:
  assumes "sched_inv_but N db"
  shows "queues db QUEUE_NONE = None" and "q \<noteq> QUEUE_NONE \<Longrightarrow> queues db q \<noteq> None"
    and "queues db q = Some xs \<Longrightarrow> distinct xs" and "queues db q = Some xs \<Longrightarrow> i \<in> N \<Longrightarrow> i \<notin> set xs"
    and "queues db q = Some xs \<Longrightarrow> i \<in> set xs \<Longrightarrow> queued_of db i = q"
    and "i \<notin> N \<Longrightarrow> inst_valid db i TYPE_TEST \<Longrightarrow> queued_of db i \<noteq> QUEUE_NONE \<Longrightarrow> on_queue db i (queued_of db i)"
    and "queues db QUEUE_USER = Some xs \<Longrightarrow> sorted_wrt (\<lambda>i j. next_time_of db i \<le> next_time_of db j) xs"
  using assms unfolding sched_inv_but_def by blast+

lemma sched_inv_butI:
  assumes "queues db QUEUE_NONE = None" and "\<And>q. q \<noteq> QUEUE_NONE \<Longrightarrow> queues db q \<noteq> None"
    and "\<And>q xs. queues db q = Some xs \<Longrightarrow> distinct xs \<and> set xs \<inter> N = {} \<and> (\<forall>i \<in> set xs. queued_of db i = q)"
    and "\<And>i. i \<notin> N \<Longrightarrow> inst_valid db i TYPE_TEST \<Longrightarrow> queued_of db i \<noteq> QUEUE_NONE \<Longrightarrow> on_queue db i (queued_of db i)"
    and "\<And>xs. queues db QUEUE_USER = Some xs \<Longrightarrow> sorted_wrt (\<lambda>i j. next_time_of db i \<le> next_time_of db j) xs"
  shows "sched_inv_but N db"
  using assms unfolding sched_inv_but_def by blast

text \<open>The invariant reads four things of the state.\<close>

lemma sched_inv_cong:
  assumes "queues db' = queues db" "queued_of db' = queued_of db" "next_time_of db' = next_time_of db"
    "inst_valid db' = inst_valid db"
  shows "sched_inv_but N db' = sched_inv_but N db"
  by (simp add: sched_inv_but_def on_queue_def assms)

lemma sched_inv_runtime:
  assumes "runtime db db'" "queues db' = queues db" "queued_of db' = queued_of db"
    "next_time_of db' = next_time_of db"
  shows "sched_inv_but N db' = sched_inv_but N db"
  by (intro sched_inv_cong assms runtime_inst_valid)

text \<open>Taking a test off its queue.\<close>

lemma sched_inv_take_off:
  assumes inv: "sched_inv db" and q: "queued_of db i = q"
    and db': "queues db' = (queues db)(q := map_option (remove1 i) (queues db q))"
      "\<And>j. j \<noteq> i \<Longrightarrow> queued_of db' j = queued_of db j" "next_time_of db' = next_time_of db" "runtime db db'"
  shows "sched_inv_but {i} db'"
proof (rule sched_inv_butI)
  note D = sched_inv_butD [OF inv [unfolded sched_inv_def]]
  show "queues db' QUEUE_NONE = None" using D(1) db'(1) by simp
  show "queues db' p \<noteq> None" if "p \<noteq> QUEUE_NONE" for p using D(2) [OF that] db'(1) by auto
  show "distinct xs \<and> set xs \<inter> {i} = {} \<and> (\<forall>j \<in> set xs. queued_of db' j = p)"
    if px: "queues db' p = Some xs" for p xs
  proof (cases "p = q")
    case True
    then obtain ys where ys: "queues db q = Some ys" "xs = remove1 i ys" using px db'(1) by auto
    then have "distinct ys" "\<forall>j \<in> set ys. queued_of db j = q" using D(3,5) by auto
    then show ?thesis using ys db'(2) True by auto
  next
    case False
    then have p: "queues db p = Some xs" using px db'(1) by auto
    then have "i \<notin> set xs" using D(5) q False by blast
    then have "\<forall>j \<in> set xs. j \<noteq> i \<and> queued_of db j = p" using D(5) [OF p] by blast
    then show ?thesis using D(3) [OF p] \<open>i \<notin> set xs\<close> db'(2) by simp
  qed
  show "on_queue db' j (queued_of db' j)"
    if "j \<notin> {i}" "inst_valid db' j TYPE_TEST" "queued_of db' j \<noteq> QUEUE_NONE" for j
  proof -
    have "on_queue db j (queued_of db j)"
      using that db' runtime_inst_valid [OF db'(4)] by (intro D(6)) auto
    then show ?thesis using that db'(1,2) by (auto simp: on_queue_def split: option.splits)
  qed
  show "sorted_wrt (\<lambda>i j. next_time_of db' i \<le> next_time_of db' j) xs"
    if ux: "queues db' QUEUE_USER = Some xs" for xs
  proof (cases "q = QUEUE_USER")
    case True
    then obtain ys where ys: "queues db QUEUE_USER = Some ys" "xs = remove1 i ys" using ux db'(1) by auto
    then have "sorted_wrt (\<lambda>i j. next_time_of db i \<le> next_time_of db j) ys" using D(7) by blast
    then show ?thesis using ys(2) db'(3) by (simp add: sorted_wrt_remove1)
  next
    case False
    then show ?thesis using ux db'(1,3) D(7) by simp
  qed
qed

lemma insert_by_time_split:
  "\<exists>ys zs. xs = ys @ zs \<and> insert_by_time db i xs = ys @ i # zs \<and>
     (\<forall>y \<in> set ys. \<not> next_time_of db i < next_time_of db y) \<and>
     (zs = [] \<or> next_time_of db i < next_time_of db (hd zs))"
proof (induction xs)
  case (Cons x xs)
  show ?case
  proof (cases "next_time_of db i < next_time_of db x")
    case True
    then show ?thesis by (intro exI [of _ "[]"] exI [of _ "x # xs"]) auto
  next
    case False
    with Cons obtain ys zs where "xs = ys @ zs" "insert_by_time db i xs = ys @ i # zs"
      "\<forall>y \<in> set ys. \<not> next_time_of db i < next_time_of db y" "zs = [] \<or> next_time_of db i < next_time_of db (hd zs)"
      by auto
    then show ?thesis using False by (intro exI [of _ "x # ys"] exI [of _ zs]) auto
  qed
qed simp

lemma set_insert_by_time [simp]: "set (insert_by_time db i xs) = insert i (set xs)"
  by (induction xs) auto

lemma sorted_insert_by_time:
  assumes "sorted_wrt (\<lambda>i j. next_time_of db i \<le> next_time_of db j) xs"
  shows "sorted_wrt (\<lambda>i j. next_time_of db i \<le> next_time_of db j) (insert_by_time db i xs)"
proof -
  obtain ys zs where s: "xs = ys @ zs" "insert_by_time db i xs = ys @ i # zs"
    "\<forall>y \<in> set ys. \<not> next_time_of db i < next_time_of db y" "zs = [] \<or> next_time_of db i < next_time_of db (hd zs)"
    using insert_by_time_split by blast
  have "next_time_of db i \<le> next_time_of db z" if "z \<in> set zs" for z
  proof (cases zs)
    case (Cons w ws)
    then have "next_time_of db w \<le> next_time_of db z" using assms s(1) that by (auto simp: sorted_wrt_append)
    then show ?thesis using s(4) Cons by auto
  qed (use that in simp)
  then show ?thesis using assms s by (auto simp: sorted_wrt_append not_less)
qed

lemma distinct_insert_by_time: "distinct xs \<Longrightarrow> i \<notin> set xs \<Longrightarrow> distinct (insert_by_time db i xs)"
  using insert_by_time_split [of xs db i] by auto

text \<open>Putting a test that is on no queue on one.\<close>

lemma sched_inv_put_on:
  assumes inv: "sched_inv_but {i} db" and q: "queues db q = Some xs" and i: "queued_of db' i = q"
    and db': "queues db' = (queues db)(q \<mapsto> xs')" "\<And>j. j \<noteq> i \<Longrightarrow> queued_of db' j = queued_of db j"
      "\<And>j. j \<noteq> i \<Longrightarrow> next_time_of db' j = next_time_of db j" "runtime db db'"
    and xs': "set xs' = insert i (set xs)" "distinct xs'"
    and sorted: "q = QUEUE_USER \<Longrightarrow> sorted_wrt (\<lambda>i j. next_time_of db' i \<le> next_time_of db' j) xs'"
  shows "sched_inv db'"
  unfolding sched_inv_def
proof (rule sched_inv_butI)
  note D = sched_inv_butD [OF inv]
  have qn: "q \<noteq> QUEUE_NONE" using q D(1) by auto
  show "queues db' QUEUE_NONE = None" using D(1) db'(1) qn by simp
  show "queues db' p \<noteq> None" if "p \<noteq> QUEUE_NONE" for p using D(2) [OF that] db'(1) by simp
  show "distinct ys \<and> set ys \<inter> {} = {} \<and> (\<forall>j \<in> set ys. queued_of db' j = p)"
    if "queues db' p = Some ys" for p ys
  proof (cases "p = q")
    case True
    then have "ys = xs'" using that db'(1) by simp
    moreover have "queued_of db' j = q" if "j \<in> set xs" for j
      using that D(4,5) [OF q] db'(2) [of j] by auto
    ultimately show ?thesis using xs' i True by auto
  next
    case False
    then have p: "queues db p = Some ys" using that db'(1) by simp
    then have "\<forall>j \<in> set ys. j \<noteq> i \<and> queued_of db j = p" using D(4,5) [OF p] by auto
    then show ?thesis using D(3) [OF p] db'(2) by auto
  qed
  show "on_queue db' j (queued_of db' j)"
    if "j \<notin> {}" "inst_valid db' j TYPE_TEST" "queued_of db' j \<noteq> QUEUE_NONE" for j
  proof (cases "j = i")
    case True
    then show ?thesis using i db'(1) xs' by (simp add: on_queue_def)
  next
    case False
    then have "on_queue db j (queued_of db j)"
      using that db' runtime_inst_valid [OF db'(4)] by (intro D(6)) auto
    then show ?thesis using False db'(1,2) xs' q by (auto simp: on_queue_def split: option.splits)
  qed
  show "sorted_wrt (\<lambda>i j. next_time_of db' i \<le> next_time_of db' j) ys"
    if "queues db' QUEUE_USER = Some ys" for ys
  proof (cases "q = QUEUE_USER")
    case True
    then show ?thesis using that db'(1) sorted by simp
  next
    case False
    then have u: "queues db QUEUE_USER = Some ys" using that db'(1) by simp
    have "sorted_wrt (\<lambda>i j. next_time_of db i \<le> next_time_of db j) ys" by (rule D(7) [OF u])
    moreover have "next_time_of db' j = next_time_of db j" if "j \<in> set ys" for j
      using that db'(3) [of j] D(4) [OF u, of i] by blast
    ultimately show ?thesis by (simp add: sorted_wrt_mono_rel [of ys])
  qed
qed

text \<open>Enqueueing keeps the invariant; the second part says where the test is then.\<close>

lemma enqueue_test_inv:
  assumes inv: "sched_inv_but {i} db" and q: "queues db q = Some xs" and i: "queued_of db i = q"
  shows "sched_inv (enqueue_test q p i db)"
proof -
  let ?t = "add_period p (clock db (ticks db))" and ?db = "set_next_time (add_period p (clock db (ticks db))) i (snd (time_now db))"
  let ?db' = "enqueue_test q p i db"
  let ?xs = "if q = QUEUE_USER then insert_by_time ?db i xs else xs @ [i]"
  note D = sched_inv_butD [OF inv]
  have ni: "i \<notin> set xs" using D(4) [OF q] by simp
  have st: "sorted_wrt (\<lambda>i j. next_time_of ?db i \<le> next_time_of ?db j) xs" if "q = QUEUE_USER"
  proof -
    have "next_time_of ?db j = next_time_of db j" if "j \<in> set xs" for j using that ni by auto
    then show ?thesis using D(7) [of xs] q that by (simp add: sorted_wrt_mono_rel [of xs])
  qed
  have nt: "next_time_of ?db' = next_time_of ?db"
    by (simp add: enqueue_test_def Let_def split_beta)
  show ?thesis
  proof (rule sched_inv_put_on [OF inv q, of ?db' ?xs])
    show "queues ?db' = (queues db)(q \<mapsto> ?xs)"
      using q ni by (auto simp: enqueue_test_def Let_def split_beta fun_eq_iff)
    show "queued_of ?db' i = q" using i by (simp add: enqueue_test_def Let_def split_beta)
    show "queued_of ?db' j = queued_of db j" if "j \<noteq> i" for j
      by (simp add: enqueue_test_def Let_def split_beta)
    show "next_time_of ?db' j = next_time_of db j" if "j \<noteq> i" for j using that by (simp add: nt)
    show "distinct ?xs" using D(3) [OF q] ni by (simp add: distinct_insert_by_time)
    show "sorted_wrt (\<lambda>i j. next_time_of ?db' i \<le> next_time_of ?db' j) ?xs" if "q = QUEUE_USER"
      using sorted_insert_by_time [OF st [OF that], of i] that nt by simp
  qed auto
qed

lemma enqueue_test_on:
  "queues db q = Some xs \<Longrightarrow> queued_of db i = q \<Longrightarrow>
     on_queue (enqueue_test q p i db) i q \<and> queued_of (enqueue_test q p i db) i = q \<and>
     next_time_of (enqueue_test q p i db) i = add_period p (clock db (ticks db))"
  by (auto simp: enqueue_test_def Let_def split_beta on_queue_def)

lemma sched_inv_not_queued:
  assumes "sched_inv db" and "queued_of db i = QUEUE_NONE"
  shows "sched_inv_but {i} (set_queued q i db)"
proof -
  have "sched_inv_but {i} db"
  proof (rule sched_inv_butI)
    note D = sched_inv_butD [OF assms(1) [unfolded sched_inv_def]]
    show "distinct xs \<and> set xs \<inter> {i} = {} \<and> (\<forall>j \<in> set xs. queued_of db j = p)"
      if "queues db p = Some xs" for p xs
    proof -
      have "p \<noteq> QUEUE_NONE" using D(1) that by auto
      then have "i \<notin> set xs" using D(5) [OF that] assms(2) by auto
      then show ?thesis using D(3) [OF that] D(5) [OF that] by simp
    qed
  qed (use sched_inv_butD [OF assms(1) [unfolded sched_inv_def]] in auto)
  moreover have "runtime db (set_queued q i db)" by simp
  ultimately show ?thesis
    using runtime_inst_valid [of db "set_queued q i db"] unfolding sched_inv_but_def on_queue_def
    by (auto)
qed

lemma queue_NONE_not_period [simp]: "test_schedule t x = Some (q, p) \<Longrightarrow> q \<noteq> QUEUE_NONE"
  by (auto simp: test_schedule_def period_queue_def split: if_splits)

text \<open>
  The outcome of \<open>myrefl_sched_add_test\<close> on a linked database: nothing changes, or the test
  is on the queue that fits its period, with the run time counted from the clock.
\<close>

definition wants_schedule :: "db \<Rightarrow> iref \<Rightarrow> bool \<Rightarrow> (test_queue \<times> 64 word) option" where
  "wants_schedule db i force =
     (if obj_valid db (Some (obj_of i)) TYPE_TEST \<and> i_state (inst db i) = STATE_ENABLED \<and>
         (force \<or> \<not> queues_blocked db)
      then Option.bind (test_of db (obj_of i)) (\<lambda>t.
             Option.bind (test_schedule t (inst db i)) (\<lambda>(q, p).
               if queues db q = None then None
               else if queued_of db i = QUEUE_NONE \<or> queued_of db i \<noteq> q \<or> q = QUEUE_USER
               then Some (q, p) else None))
      else None)"

lemma obj_valid_test: "obj_valid db (Some ob) TYPE_TEST \<Longrightarrow> \<exists>t. o_data (objs db ob) = DTest t \<and> test_of db ob = Some t"
  by (auto simp: obj_valid_def type_of_def test_of_def split: obj_data.splits)

lemma add_test_linked:
  assumes l: "linked db" and inv: "sched_inv db"
  shows "\<exists>db'. myrefl_sched_add_test i force db = Some db' \<and> runtime db db' \<and> sched_inv db' \<and>
    (case wants_schedule db i force of None \<Rightarrow> db' = db
     | Some (q, p) \<Rightarrow> on_queue db' i q \<and> queued_of db' i = q \<and>
         next_time_of db' i = add_period p (clock db (ticks db)))"
proof (cases "obj_valid db (Some (obj_of i)) TYPE_TEST \<and> i_state (inst db i) = STATE_ENABLED \<and>
         (force \<or> \<not> queues_blocked db)")
  case False
  then show ?thesis using inv
    by (auto simp: myrefl_sched_add_test_def validate_linked [OF l] wants_schedule_def)
next
  case True
  then have v: "inst_valid db i TYPE_TEST" by (auto simp: inst_valid_def)
  obtain t where t: "test_of db (obj_of i) = Some t" using True obj_valid_test by blast
  show ?thesis
  proof (cases "wants_schedule db i force")
    case None
    then have "myrefl_sched_add_test i force db = Some db"
      using True t by (auto simp: myrefl_sched_add_test_def validate_linked [OF l] wants_schedule_def
          split: option.splits if_splits bind_splits)
    then show ?thesis using None inv by auto
  next
    case (Some qp)
    obtain q p where qp: "qp = (q, p)" by (cases qp)
    from Some True t obtain xs where ts: "test_schedule t (inst db i) = Some (q, p)"
      and q: "queues db q = Some xs"
      and w: "queued_of db i = QUEUE_NONE \<or> queued_of db i \<noteq> q \<or> q = QUEUE_USER"
      by (auto simp: wants_schedule_def qp split: if_splits bind_splits)
    define db1 where "db1 = (if queued_of db i = QUEUE_NONE then set_queued q i db
        else set_queued q i (snd (remove_queue (queued_of db i) i db)))"
    have on: "queued_of db i \<noteq> QUEUE_NONE \<Longrightarrow> on_queue db i (queued_of db i)"
      using sched_inv_butD(6) [OF inv [unfolded sched_inv_def]] v by auto
    have "myrefl_sched_add_test i force db = Some (enqueue_test q p i db1)"
      using True t ts q w on
      by (auto simp: myrefl_sched_add_test_def validate_linked [OF l] db1_def split_beta Let_def
          on_queue_def split: option.splits)
    moreover have inv1: "sched_inv_but {i} db1"
    proof (cases "queued_of db i = QUEUE_NONE")
      case False
      then show ?thesis using inv
        by (intro sched_inv_take_off [of db i "queued_of db i"])
          (auto simp: db1_def intro: runtime_trans [OF runtime_queue_ops(3) runtime_set_sched(1)])
    qed (use sched_inv_not_queued [OF inv] in \<open>simp add: db1_def\<close>)
    moreover obtain xs1 where q1: "queues db1 q = Some xs1"
      using q by (cases "queues db1 q") (auto simp: db1_def split: if_splits)
    moreover have qi: "queued_of db1 i = q" by (simp add: db1_def)
    moreover have "runtime db (enqueue_test q p i db1)"
    proof -
      have "runtime db db1"
        by (auto simp: db1_def intro: runtime_trans [OF runtime_queue_ops(3) runtime_set_sched(1)])
      then show ?thesis by (rule runtime_trans) simp
    qed
    moreover have "clock db1 (ticks db1) = clock db (ticks db)"
      by (simp add: db1_def set_queued_def upd_inst_def remove_queue_def split: option.splits)
    ultimately show ?thesis
      using Some qp enqueue_test_inv [OF inv1 q1 qi] enqueue_test_on [OF q1 qi] by auto
  qed
qed

lemma add_test_others:
  assumes l: "linked db" and run: "myrefl_sched_add_test i force db = Some db'"
  shows "queues_blocked db' = queues_blocked db" and "j \<noteq> i \<Longrightarrow> queued_of db' j = queued_of db j"
proof -
  have enqj: "queued_of (enqueue_test q p i s) j = queued_of s j" for q p s
    by (simp add: enqueue_test_def Let_def case_prod_beta)
  have fields: "queues_blocked (set_queued q j s) = queues_blocked s" "queues_blocked (set_next_time t j s) = queues_blocked s"
    "queues_blocked (snd (remove_queue q j s)) = queues_blocked s" "queues_blocked (insert_queue q j s) = queues_blocked s"
    "queues_blocked (push_queue q j s) = queues_blocked s" "queues_blocked (check_test_start_timer s) = queues_blocked s"
    "queues_blocked (snd (time_now s)) = queues_blocked s"
    for q j t s
    by (auto simp: set_queued_def set_next_time_def remove_queue_def insert_queue_def push_queue_def
        check_test_start_timer_def time_now_def emit_def upd_inst_def split_beta split: option.splits)
  have enq: "queues_blocked (enqueue_test q p i s) = queues_blocked s" for q p s
    by (simp add: enqueue_test_def Let_def case_prod_beta fields)
  define sched where "sched t = (case test_schedule t (inst db i) of None \<Rightarrow> db
      | Some (q, period) \<Rightarrow>
         if queues db q = None then db
         else if queued_of db i = QUEUE_NONE then enqueue_test q period i (set_queued q i db)
         else if queued_of db i \<noteq> q \<or> q = QUEUE_USER then
           (let (removed, db) = remove_queue (queued_of db i) i db
            in enqueue_test q period i (if removed then set_queued q i db else db))
         else db)" for t
  have sw: "(case test_schedule t (inst db i) of None \<Rightarrow> Some db
      | Some (q, period) \<Rightarrow>
         if queues db q = None then Some db
         else if queued_of db i = QUEUE_NONE then Some (enqueue_test q period i (set_queued q i db))
         else if queued_of db i \<noteq> q \<or> q = QUEUE_USER then
           (let (removed, db) = remove_queue (queued_of db i) i db;
                db = (if removed then set_queued q i db else db)
            in Some (enqueue_test q period i db))
         else Some db) = Some (sched t)" for t
    by (cases "test_schedule t (inst db i)") (simp_all add: sched_def case_prod_beta Let_def)
  have cases: "db' = db \<or> (\<exists>t. db' = sched t)"
    using run unfolding myrefl_sched_add_test_def validate_linked [OF l] bind.bind_lunit prod.case sw
    by (auto simp: bind_eq_Some_conv split: if_splits)
  have "queues_blocked (sched t) = queues_blocked db" for t
    by (cases "test_schedule t (inst db i)") (simp_all add: sched_def Let_def case_prod_beta enq fields)
  then show "queues_blocked db' = queues_blocked db" using cases by auto
  assume "j \<noteq> i"
  then have "queued_of (sched t) j = queued_of db j" for t
    by (cases "test_schedule t (inst db i)") (simp_all add: sched_def Let_def case_prod_beta enqj)
  then show "queued_of db' j = queued_of db j" using cases by auto
qed

text \<open>The same, said of the test itself: the queue and the time that its period asks for.\<close>

definition wanted_period :: "obj_test \<Rightarrow> 64 word" where
  "wanted_period t = (if t_type t = POLLED then t_period t else word_of_int (t_autopass t))"

lemma add_period_exact:
  assumes "normalized now" and "sec now < 2 ^ 63"
  shows "nanos (add_period p now) = nanos now + unat p * 1000000"
proof -
  have u: "unat (p div 1000) = unat p div 1000" "unat (p mod 1000) = unat p mod 1000"
    by (simp_all add: unat_div unat_mod)
  have p: "unat p < 2 ^ 64" using unsigned_less [of p] by simp
  have s: "unat (sec now) < 2 ^ 63" using assms(2) by (simp add: word_less_nat_alt)
  have n: "unat (nsec now) < 1000000000" using assms(1) by (simp add: normalized_unat)
  have "unat (sec now + p div 1000) = unat (sec now) + unat p div 1000"
    using s p by (subst unat_add_lem [THEN iffD1]) (simp_all add: u)
  moreover have m: "unat (p mod 1000 * 1000000) = unat p mod 1000 * 1000000"
    by (subst unat_mult_lem [THEN iffD1]) (simp_all add: u)
  moreover have "unat (nsec now + p mod 1000 * 1000000) = unat (nsec now) + unat p mod 1000 * 1000000"
    using n by (subst unat_add_lem [THEN iffD1]) (simp_all add: m)
  moreover have "unat p div 1000 * 1000000000 + unat p mod 1000 * 1000000 = unat p * 1000000"
    using div_mult_mod_eq [of "unat p" 1000] by linarith
  ultimately show ?thesis by (simp add: add_period_def nanos_def)
qed

lemma wants_schedule_eq:
  assumes inv: "sched_inv db" and t: "test_of db (obj_of i) = Some t"
    and q: "q = (if t_type t \<noteq> POLLED then QUEUE_USER else if t_period t = 5000 then QUEUE_FAST
      else if t_period t = 300000 then QUEUE_NORMAL else if t_period t = 1800000 then QUEUE_SLOW else QUEUE_USER)"
  shows "wants_schedule db i force =
    (if inst_valid db i TYPE_TEST \<and> i_state (inst db i) = STATE_ENABLED \<and> (force \<or> \<not> queues_blocked db) \<and>
        (t_type t = POLLED \<or> t_autopass t > AUTOPASS_UNSET \<and> i_last_result (inst db i) = RESULT_FAIL) \<and>
        (queued_of db i \<noteq> q \<or> q = QUEUE_USER)
     then Some (q, wanted_period t) else None)"
proof -
  have n: "q \<noteq> QUEUE_NONE" by (simp add: q)
  have e: "queues db q \<noteq> None" using sched_inv_butD(2) [OF inv [unfolded sched_inv_def] n] by auto
  have s: "test_schedule t (inst db i) =
      (if t_type t = POLLED \<or> t_autopass t > AUTOPASS_UNSET \<and> i_last_result (inst db i) = RESULT_FAIL
       then Some (q, wanted_period t) else None)"
    by (simp add: test_schedule_def period_queue_def wanted_period_def q MYREFL_PERIOD_SLOW_def MYREFL_PERIOD_NORMAL_def
        MYREFL_PERIOD_FAST_def)
  show ?thesis using n e by (auto simp: wants_schedule_def t s inst_valid_def)
qed

section \<open>Removing a test and running it at once\<close>

lemma sched_inv_but_done:
  assumes "sched_inv_but {i} db" and "queued_of db i = QUEUE_NONE"
  shows "sched_inv db"
  using assms unfolding sched_inv_def sched_inv_but_def
  by (auto)

lemma sched_inv_off:
  assumes "sched_inv db" and "queued_of db i = QUEUE_NONE" shows "sched_inv_but {i} db"
proof -
  have "set_queued QUEUE_NONE i db = db \<or> sched_inv_but {i} (set_queued QUEUE_NONE i db)"
    using sched_inv_not_queued [OF assms] by blast
  moreover have "sched_inv_but {i} (set_queued QUEUE_NONE i db) = sched_inv_but {i} db"
  proof (rule sched_inv_runtime)
    show "queued_of (set_queued QUEUE_NONE i db) = queued_of db" using assms(2) by (auto simp: fun_eq_iff)
  qed (auto simp: fun_eq_iff)
  ultimately show ?thesis using sched_inv_not_queued [OF assms] by blast
qed

lemma not_on_queue: "sched_inv_but {i} db \<Longrightarrow> \<not> on_queue db i q"
  using sched_inv_butD(4) [of "{i}" db q _ i] by (auto simp: on_queue_def split: option.splits)

lemma remove_test_runtime [simp, inv_intros]: "runtime db (myrefl_sched_remove_test i db)"
proof -
  let ?db = "snd (remove_queue (queued_of db i) i db)"
  have "runtime db (set_queued QUEUE_NONE i ?db)"
    by (rule runtime_trans [OF runtime_queue_ops(3) runtime_set_sched(1)])
  then show ?thesis
    by (auto simp: myrefl_sched_remove_test_def split_beta Let_def
        intro: runtime_trans [OF _ runtime_check_timer])
qed

text \<open>A valid test is on no queue after its removal, and \<open>queued\<close> says so.\<close>

lemma remove_test_off:
  assumes inv: "sched_inv db" and v: "inst_valid db i TYPE_TEST"
  shows "sched_inv_but {i} (myrefl_sched_remove_test i db)"
    and "queued_of (myrefl_sched_remove_test i db) i = QUEUE_NONE"
    and "queues_blocked (myrefl_sched_remove_test i db) = queues_blocked db"
    and "j \<noteq> i \<Longrightarrow> queued_of (myrefl_sched_remove_test i db) j = queued_of db j"
proof -
  let ?db1 = "set_queued QUEUE_NONE i (snd (remove_queue (queued_of db i) i db))"
  have on: "queued_of db i \<noteq> QUEUE_NONE \<Longrightarrow> on_queue db i (queued_of db i)"
    using sched_inv_butD(6) [OF inv [unfolded sched_inv_def]] v by auto
  have eq: "myrefl_sched_remove_test i db =
      check_test_start_timer (if queued_of db i = QUEUE_NONE then db else ?db1)"
    using on by (auto simp: myrefl_sched_remove_test_def split_beta Let_def on_queue_def split: option.splits)
  have inv1: "sched_inv_but {i} (if queued_of db i = QUEUE_NONE then db else ?db1)"
    using inv sched_inv_off [OF inv]
    by (auto intro!: sched_inv_take_off [of db i "queued_of db i"] runtime_trans [OF runtime_queue_ops(3) runtime_set_sched(1)])
  show "sched_inv_but {i} (myrefl_sched_remove_test i db)"
    unfolding eq using inv1 by (subst sched_inv_runtime [OF runtime_check_timer]) simp_all
  show "queued_of (myrefl_sched_remove_test i db) i = QUEUE_NONE"
    unfolding eq by simp
  show "queues_blocked (myrefl_sched_remove_test i db) = queues_blocked db"
    unfolding eq by simp
  show "j \<noteq> i \<Longrightarrow> queued_of (myrefl_sched_remove_test i db) j = queued_of db j"
    unfolding eq by simp
qed

lemma remove_test_inv [inv_intros]:
  "sched_inv db \<Longrightarrow> inst_valid db i TYPE_TEST \<Longrightarrow> sched_inv (myrefl_sched_remove_test i db)"
  by (rule sched_inv_but_done [OF remove_test_off(1,2)])

text \<open>When a request to run a test at once is followed.\<close>

definition runs_now :: "db \<Rightarrow> iref \<Rightarrow> bool" where
  "runs_now db i \<longleftrightarrow>
     inst_valid db i TYPE_TEST \<and> queued_of db i \<noteq> QUEUE_IMMEDIATE \<and>
     \<not> (queued_of db i = QUEUE_NONE \<and> map_option t_type (test_of db (obj_of i)) = Some POLLED)"

lemma test_immediate_linked:
  assumes l: "linked db" and inv: "sched_inv db"
  shows "\<exists>db'. myrefl_sched_test_immediate i db = Some db' \<and> runtime db db' \<and> sched_inv db' \<and>
    queues_blocked db' = queues_blocked db \<and> (\<forall>j. j \<noteq> i \<longrightarrow> queued_of db' j = queued_of db j) \<and>
    (if \<not> runs_now db i then db' = db
     else if queues_blocked db then queued_of db' i = QUEUE_NONE
     else on_queue db' i QUEUE_IMMEDIATE)"
proof (cases "inst_valid db i TYPE_TEST")
  case False
  then show ?thesis using inv
    by (auto simp: myrefl_sched_test_immediate_def instance_validate_linked [OF l] runs_now_def)
next
  case True
  then obtain t where t: "test_of db (obj_of i) = Some t"
    using obj_valid_test by (auto simp: inst_valid_def)
  show ?thesis
  proof (cases "runs_now db i")
    case False
    then show ?thesis using inv True t
      by (auto simp: myrefl_sched_test_immediate_def instance_validate_linked [OF l] runs_now_def)
  next
    case run: True
    define db1 where "db1 = (if queued_of db i \<noteq> QUEUE_NONE then myrefl_sched_remove_test i db else db)"
    note R = remove_test_off [OF inv True]
    have inv1: "sched_inv_but {i} db1" and q1: "queued_of db1 i = QUEUE_NONE"
      and b1: "queues_blocked db1 = queues_blocked db" and rt1: "runtime db db1"
      and o1: "\<And>j. j \<noteq> i \<Longrightarrow> queued_of db1 j = queued_of db j"
      using R sched_inv_off [OF inv] by (auto simp: db1_def)
    define db2 where "db2 = set_queued QUEUE_IMMEDIATE i (set_next_time (clock db1 (ticks db1)) i (snd (time_now db1)))"
    define db3 where "db3 = check_test_start_timer (push_queue QUEUE_IMMEDIATE i db2)"
    have eq: "myrefl_sched_test_immediate i db = (if queues_blocked db then Some db1 else Some db3)"
    proof -
      have nb: "(queued_of db i = QUEUE_NONE \<and> t_type t = POLLED) = False"
        using run t by (auto simp: runs_now_def)
      have qi: "queued_of db i \<noteq> QUEUE_IMMEDIATE" using run by (simp add: runs_now_def)
      have val: "myrefl_obj_instance_validate i TYPE_TEST db = Some (True, db)"
        using True by (simp add: instance_validate_linked [OF l])
      have "myrefl_sched_test_immediate i db = (if queues_blocked db1 then Some db1 else Some db3)"
        unfolding myrefl_sched_test_immediate_def val
        by (simp only: qi t nb db3_def db2_def db1_def Option.bind.bind_lunit prod.case if_False
            not_True_eq_False Let_def split_beta time_now_reads(6) fst_conv snd_conv)
      then show ?thesis by (simp only: b1)
    qed
    have rt3: "runtime db1 db3" unfolding db3_def db2_def by (intro runtime_peel runtime_refl)
    obtain xs where xs: "queues db1 QUEUE_IMMEDIATE = Some xs"
      using sched_inv_butD(2) [OF inv1, of QUEUE_IMMEDIATE] by auto
    have reads: "next_time_of db3 = next_time_of db2" "queued_of db3 = queued_of db2"
      "queues db3 = (queues db1)(QUEUE_IMMEDIATE \<mapsto> xs @ [i])" "queues_blocked db3 = queues_blocked db1"
      using xs by (simp_all add: db3_def db2_def)
    note D = sched_inv_butD [OF inv1]
    have inv3: "sched_inv db3"
      by (rule sched_inv_put_on [OF inv1 xs, of db3 "xs @ [i]"])
        (use reads rt3 D(3,4) [OF xs] in \<open>simp_all add: db2_def\<close>)
    have on3: "on_queue db3 i QUEUE_IMMEDIATE" by (simp add: on_queue_def reads)
    have o3: "queued_of db3 j = queued_of db j" if "j \<noteq> i" for j
      using that o1 by (simp add: reads(2)) (simp add: db2_def)
    show ?thesis
    proof (cases "queues_blocked db")
      case True
      then show ?thesis using eq run q1 b1 rt1 o1 sched_inv_but_done [OF inv1 q1] by simp
    next
      case False
      then show ?thesis using eq run b1 reads(4) runtime_trans [OF rt1 rt3] inv3 on3 o3 by simp
    qed
  qed
qed

section \<open>The tests of a rule\<close>

text \<open>
  The rules whose inputs are walked: an order in which every rule input of a rule comes
  before it makes the recursion end.
\<close>

definition inputs_ranked :: "(oid \<Rightarrow> nat) \<Rightarrow> db \<Rightarrow> bool" where
  "inputs_ranked rank db \<longleftrightarrow>
     (\<forall>ob r x. rule_of db ob = Some r \<longrightarrow> x \<in> set (r_inputs r) \<longrightarrow> type_of db x \<noteq> TYPE_TEST \<longrightarrow>
        rank x < rank ob)"

lemma inputs_ranked_runtime: "runtime db db' \<Longrightarrow> inputs_ranked rank db' = inputs_ranked rank db"
  by (simp add: inputs_ranked_def runtime_reads)

text \<open>A state that was reached from \<open>db\<close> by work on the queues. Unless the queues are blocked, a
  test that waits on a queue keeps waiting on one.\<close>

definition keeps_queued :: "db \<Rightarrow> db \<Rightarrow> bool" where
  "keeps_queued db db' \<longleftrightarrow>
     (\<not> queues_blocked db \<longrightarrow> (\<forall>i. queued_of db i \<noteq> QUEUE_NONE \<longrightarrow> queued_of db' i \<noteq> QUEUE_NONE))"

definition sched_change :: "db \<Rightarrow> db \<Rightarrow> bool" where
  "sched_change db db' \<longleftrightarrow> runtime db db' \<and> linked db' \<and> sched_inv db' \<and>
     queues_blocked db' = queues_blocked db"

definition sched_step :: "db \<Rightarrow> db \<Rightarrow> bool" where
  "sched_step db db' \<longleftrightarrow> runtime db db' \<and> linked db' \<and> sched_inv db' \<and>
     queues_blocked db' = queues_blocked db \<and> keeps_queued db db'"

lemma sched_change_trans: "sched_change a b \<Longrightarrow> sched_change b c \<Longrightarrow> sched_change a c"
  by (auto simp: sched_change_def intro: runtime_trans)

lemma keeps_queued_same: "queued_of db' = queued_of db \<Longrightarrow> keeps_queued db db'"
  by (simp add: keeps_queued_def)

lemma keeps_queued_refl [simp]: "keeps_queued db db"
  by (simp add: keeps_queued_same)

lemma sched_step_trans: "sched_step a b \<Longrightarrow> sched_step b c \<Longrightarrow> sched_step a c"
  by (auto simp: sched_step_def keeps_queued_def intro: runtime_trans)

lemma test_immediate_step:
  assumes "linked db" and "sched_inv db"
  shows "\<exists>db'. myrefl_sched_test_immediate i db = Some db' \<and> sched_step db db'"
proof -
  obtain db' where r: "myrefl_sched_test_immediate i db = Some db'" "runtime db db'" "sched_inv db'"
    "queues_blocked db' = queues_blocked db" "\<forall>j. j \<noteq> i \<longrightarrow> queued_of db' j = queued_of db j"
    "if \<not> runs_now db i then db' = db else if queues_blocked db then queued_of db' i = QUEUE_NONE
     else on_queue db' i QUEUE_IMMEDIATE"
    using test_immediate_linked [OF assms, of i] by blast
  have "queued_of db' i = QUEUE_IMMEDIATE" if "on_queue db' i QUEUE_IMMEDIATE"
    using that sched_inv_butD(5) [OF r(3) [unfolded sched_inv_def]] by (auto simp: on_queue_def split: option.splits)
  then have "keeps_queued db db'"
    unfolding keeps_queued_def
  proof (intro impI allI)
    fix j
    assume "\<not> queues_blocked db" "queued_of db j \<noteq> QUEUE_NONE"
    moreover from this have "db' = db \<or> queued_of db' i = QUEUE_IMMEDIATE"
      using r(6) \<open>on_queue db' i QUEUE_IMMEDIATE \<Longrightarrow> queued_of db' i = QUEUE_IMMEDIATE\<close>
      by (simp split: if_splits)
    ultimately show "queued_of db' j \<noteq> QUEUE_NONE" using r(5) by (cases "j = i") auto
  qed
  then show ?thesis using r assms(1) by (auto simp: sched_step_def runtime_linked)
qed

lemma rule_immediate_returns:
  assumes "inputs_ranked rank db" and "linked db" and "sched_inv db"
  shows "\<exists>db'. myrefl_sched_rule_immediate i db = Some db' \<and> sched_step db db'"
  using assms
proof (induction "rank (obj_of i)" arbitrary: i db rule: less_induct)
  case less
  show ?case
  proof (cases "inst_valid db i TYPE_RULE")
    case False
    then show ?thesis using less.prems
      by (subst myrefl_sched_rule_immediate.simps)
        (simp add: instance_validate_linked sched_step_def)
  next
    case True
    then obtain r where r: "rule_of db (obj_of i) = Some r"
      by (auto simp: inst_valid_def obj_valid_def type_of_def rule_of_def split: obj_data.splits)
    let ?f = "\<lambda>x db. if type_of db x \<noteq> TYPE_TEST
        then myrefl_sched_rule_immediate (myrefl_obj_instance db x i) db
        else myrefl_sched_test_immediate (myrefl_obj_instance db x i) db"
    have "\<exists>db'. foldM ?f (r_inputs r) db = Some db' \<and> sched_step db db'"
    proof (rule foldM_total)
      show "sched_step db db" using less.prems by (simp add: sched_step_def)
      fix x db1
      assume x: "x \<in> set (r_inputs r)" and s: "sched_step db db1"
      then have rt: "runtime db db1" and l1: "linked db1" and i1: "sched_inv db1"
        by (auto simp: sched_step_def)
      have ob: "obj_of (myrefl_obj_instance db1 x i) = x" by (rule obj_of_instance)
      have "\<exists>db2. ?f x db1 = Some db2 \<and> sched_step db1 db2"
      proof (cases "type_of db1 x = TYPE_TEST")
        case False
        then have "rank x < rank (obj_of i)"
          using less.prems(1) r x runtime_reads(1) [OF rt] by (auto simp: inputs_ranked_def)
        then have "\<exists>db2. myrefl_sched_rule_immediate (myrefl_obj_instance db1 x i) db1 = Some db2 \<and>
            sched_step db1 db2"
          using less.hyps [of "myrefl_obj_instance db1 x i" db1] ob less.prems(1) l1 i1
            inputs_ranked_runtime [OF rt] by simp
        then show ?thesis using False by simp
      next
        case True
        then show ?thesis using test_immediate_step [OF l1 i1] by simp
      qed
      then show "\<exists>t. ?f x db1 = Some t \<and> sched_step db t" using sched_step_trans [OF s] by blast
    qed
    then show ?thesis using True r less.prems
      by (subst myrefl_sched_rule_immediate.simps) (simp add: instance_validate_linked)
  qed
qed

text \<open>The tests that feed into a rule: its inputs, and the tests that feed into those of its inputs that are rules.\<close>

inductive feeds_test :: "db \<Rightarrow> iref \<Rightarrow> iref \<Rightarrow> bool" for db where
  input_test: "inst_valid db i TYPE_RULE \<Longrightarrow> rule_of db (obj_of i) = Some r \<Longrightarrow> x \<in> set (r_inputs r) \<Longrightarrow>
     type_of db x = TYPE_TEST \<Longrightarrow> feeds_test db i (myrefl_obj_instance db x i)"
| input_rule: "inst_valid db i TYPE_RULE \<Longrightarrow> rule_of db (obj_of i) = Some r \<Longrightarrow> x \<in> set (r_inputs r) \<Longrightarrow>
     type_of db x \<noteq> TYPE_TEST \<Longrightarrow> feeds_test db (myrefl_obj_instance db x i) j \<Longrightarrow> feeds_test db i j"

inductive_simps feeds_test_simps: "feeds_test db i j"

lemma feeds_test_runtime:
  assumes "runtime db db'" shows "feeds_test db' i j \<longleftrightarrow> feeds_test db i j"
proof -
  note r = runtime_reads [OF assms] runtime_inst_valid [OF assms]
  have 1: "feeds_test db i j \<Longrightarrow> feeds_test db' i j"
    by (induction rule: feeds_test.induct) (simp add: r flip: r(9), (rule feeds_test.intros; simp add: r))+
  have 2: "feeds_test db' i j \<Longrightarrow> feeds_test db i j"
    by (induction rule: feeds_test.induct) (auto simp: r intro: feeds_test.intros)
  show ?thesis using 1 2 by blast
qed

text \<open>Work on the queues that runs the tests of a set at once, those that can be.\<close>

definition runs_all :: "iref set \<Rightarrow> db \<Rightarrow> db \<Rightarrow> bool" where
  "runs_all S db db' \<longleftrightarrow> sched_step db db' \<and> (\<forall>j. queued_of db' j =
     (if j \<in> S \<and> runs_now db j then (if queues_blocked db then QUEUE_NONE else QUEUE_IMMEDIATE) else queued_of db j))"

lemma runs_all_refl: "linked db \<Longrightarrow> sched_inv db \<Longrightarrow> runs_all {} db db"
  by (simp add: runs_all_def sched_step_def)

lemma runs_now_cong: "runtime db db' \<Longrightarrow> queued_of db' j = queued_of db j \<Longrightarrow> runs_now db' j = runs_now db j"
  by (simp add: runs_now_def runtime_reads runtime_inst_valid)

lemma runs_all_trans:
  assumes ab: "runs_all S a b" and bc: "runs_all T b c"
  shows "runs_all (S \<union> T) a c"
proof -
  have s: "sched_step a b" "sched_step b c" using ab bc by (simp_all add: runs_all_def)
  then have r: "runtime a b" and bl: "queues_blocked b = queues_blocked a" by (simp_all add: sched_step_def)
  have "queued_of c j = (if j \<in> S \<union> T \<and> runs_now a j then (if queues_blocked a then QUEUE_NONE else QUEUE_IMMEDIATE)
      else queued_of a j)" for j
  proof (cases "j \<in> S \<and> runs_now a j")
    case True
    then have "queued_of b j = (if queues_blocked a then QUEUE_NONE else QUEUE_IMMEDIATE)" using ab by (simp add: runs_all_def)
    then show ?thesis using True bc bl by (auto simp: runs_all_def runs_now_def)
  next
    case False
    then have q: "queued_of b j = queued_of a j" using ab by (auto simp: runs_all_def)
    then show ?thesis using False bc bl runs_now_cong [OF r q] by (auto simp: runs_all_def)
  qed
  then show ?thesis using sched_step_trans [OF s] by (simp add: runs_all_def)
qed

lemma test_immediate_runs:
  assumes "linked db" and "sched_inv db"
  shows "\<exists>db'. myrefl_sched_test_immediate i db = Some db' \<and> runs_all {i} db db'"
proof -
  obtain db' where r: "myrefl_sched_test_immediate i db = Some db'" "sched_inv db'" "\<forall>j. j \<noteq> i \<longrightarrow> queued_of db' j = queued_of db j"
    "if \<not> runs_now db i then db' = db else if queues_blocked db then queued_of db' i = QUEUE_NONE
     else on_queue db' i QUEUE_IMMEDIATE"
    using test_immediate_linked [OF assms, of i] by blast
  have "queued_of db' i = QUEUE_IMMEDIATE" if "on_queue db' i QUEUE_IMMEDIATE"
    using that sched_inv_butD(5) [OF r(2) [unfolded sched_inv_def]] by (auto simp: on_queue_def split: option.splits)
  moreover have "sched_step db db'" using test_immediate_step [OF assms, of i] r(1) by simp
  ultimately show ?thesis using r by (auto simp: runs_all_def split: if_splits)
qed

lemma foldM_runs:
  assumes "\<And>x s. x \<in> set xs \<Longrightarrow> sched_step db s \<Longrightarrow> \<exists>t. f x s = Some t \<and> runs_all (S x) s t"
  shows "runs_all T db s \<Longrightarrow> \<exists>t. foldM f xs s = Some t \<and> runs_all (T \<union> (\<Union>x \<in> set xs. S x)) db t"
  using assms
proof (induction xs arbitrary: s T)
  case (Cons x xs)
  then have "sched_step db s" by (simp add: runs_all_def)
  then obtain t where t: "f x s = Some t" "runs_all (S x) s t" using Cons.prems(2) by (meson list.set_intros(1))
  then have "runs_all (T \<union> S x) db t" using runs_all_trans [OF Cons.prems(1)] by blast
  from Cons.IH [OF this] Cons.prems(2) t(1) show ?case by (simp add: Un_assoc)
qed simp

lemma rule_immediate_runs:
  assumes "inputs_ranked rank db" and "linked db" and "sched_inv db"
  shows "\<exists>db'. myrefl_sched_rule_immediate i db = Some db' \<and> runs_all {j. feeds_test db i j} db db'"
  using assms
proof (induction "rank (obj_of i)" arbitrary: i db rule: less_induct)
  case less
  show ?case
  proof (cases "inst_valid db i TYPE_RULE")
    case False
    then have "{j. feeds_test db i j} = {}" by (auto elim: feeds_test.cases)
    then have "runs_all {j. feeds_test db i j} db db" using less.prems(2,3) by (simp only: runs_all_refl)
    then show ?thesis using less.prems False
      by (subst myrefl_sched_rule_immediate.simps) (simp add: instance_validate_linked)
  next
    case True
    then obtain r where r: "rule_of db (obj_of i) = Some r"
      by (auto simp: inst_valid_def obj_valid_def type_of_def rule_of_def split: obj_data.splits)
    let ?in = "\<lambda>db x. myrefl_obj_instance db x i"
    let ?f = "\<lambda>x db. if type_of db x \<noteq> TYPE_TEST then myrefl_sched_rule_immediate (?in db x) db
        else myrefl_sched_test_immediate (?in db x) db"
    define S where "S x = (if type_of db x \<noteq> TYPE_TEST then {j. feeds_test db (?in db x) j} else {?in db x})" for x
    have step: "\<exists>t. ?f x s = Some t \<and> runs_all (S x) s t" if x: "x \<in> set (r_inputs r)" and s: "sched_step db s" for x s
    proof -
      have rt: "runtime db s" and l1: "linked s" and i1: "sched_inv s" using s by (simp_all add: sched_step_def)
      note reads = runtime_reads [OF rt]
      show ?thesis
      proof (cases "type_of db x = TYPE_TEST")
        case False
        then have "rank x < rank (obj_of i)" using less.prems(1) r x by (auto simp: inputs_ranked_def)
        then obtain t where "myrefl_sched_rule_immediate (?in s x) s = Some t" "runs_all {j. feeds_test s (?in s x) j} s t"
          using less.hyps [of "?in s x" s] obj_of_instance less.prems(1) l1 i1 inputs_ranked_runtime [OF rt] by auto
        then show ?thesis using False by (simp add: S_def reads feeds_test_runtime [OF rt])
      next
        case True
        then show ?thesis using test_immediate_runs [OF l1 i1] by (simp add: S_def reads)
      qed
    qed
    have "{j. feeds_test db i j} = (\<Union>x \<in> set (r_inputs r). S x)"
      using True r by (subst feeds_test_simps) (auto simp: S_def)
    moreover from foldM_runs [where f = ?f and S = S, OF step runs_all_refl] less.prems obtain db' where
      "foldM ?f (r_inputs r) db = Some db'" "runs_all (\<Union>x \<in> set (r_inputs r). S x) db db'" by auto
    ultimately show ?thesis using True r less.prems
      by (subst myrefl_sched_rule_immediate.simps) (simp add: instance_validate_linked)
  qed
qed

section \<open>Starting what is due\<close>

lemma peek_queue_Some: "peek_queue q db = Some i \<longleftrightarrow> (\<exists>xs. queues db q = Some (i # xs))"
  by (auto simp: peek_queue_def split: option.splits list.splits)

lemma sched_inv_but_invalid:
  "sched_inv_but {i} db \<Longrightarrow> \<not> inst_valid db i TYPE_TEST \<Longrightarrow> sched_inv db"
  unfolding sched_inv_def sched_inv_but_def by auto

text \<open>The job that starts a test, for the test as it is on the queue.\<close>

definition start_job :: "db \<Rightarrow> iref \<Rightarrow> seq_event option" where
  "start_job db i =
     (if inst_valid db i TYPE_TEST then
        Option.bind (test_of db (obj_of i)) (\<lambda>t.
          if t_type t = POLLED then Some SEQ_TEST_RUN
          else if queued_of db i = QUEUE_USER then
            (if t_autopass t \<noteq> AUTOPASS_UNSET then Some SEQ_TEST_RESULT else None)
          else Some SEQ_TEST_RESULT_RCI)
      else None)"

lemma dequeue_linked:
  assumes l: "linked db" and inv: "sched_inv db" and p: "queues db q = Some (i # xs)"
  shows "\<exists>db' js. dequeue_test_for_start q db = Some db' \<and> sched_change db db' \<and>
    queues db' = (queues db)(q \<mapsto> xs) \<and> next_time_of db' = next_time_of db \<and>
    jobs db' = jobs db @ js \<and> (\<forall>j. j \<noteq> i \<longrightarrow> queued_of db' j = queued_of db j) \<and>
    map (\<lambda>c. (sc_instance c, sc_event c)) js = (case start_job db i of None \<Rightarrow> [] | Some e \<Rightarrow> [(i, e)])"
proof -
  define db1 where "db1 = db\<lparr>queues := (queues db)(q \<mapsto> xs)\<rparr>"
  define db2 where "db2 = set_queued QUEUE_NONE i db1"
  note D = sched_inv_butD [OF inv [unfolded sched_inv_def]]
  have q: "queued_of db i = q" using D(5) [OF p] by simp
  have pop: "pop_queue q db = (Some i, db1)" by (simp add: pop_queue_def p db1_def)
  have rt1: "runtime db db1" by (simp add: db1_def)
  have rt2: "runtime db db2" using rt1 unfolding db2_def by (rule runtime_peel)
  have l1: "linked db1" using l rt1 by (simp add: runtime_linked)
  have qs: "queues db1 = (queues db)(q := map_option (remove1 i) (queues db q))"
    by (simp add: db1_def p)
  have i1: "sched_inv_but {i} db1"
    by (rule sched_inv_take_off [OF inv q qs]) (use rt1 in \<open>simp_all add: db1_def\<close>)
  have i2: "sched_inv db2"
  proof (rule sched_inv_but_done)
    show "sched_inv_but {i} db2" unfolding db2_def
      by (rule sched_inv_take_off [OF inv q]) (use rt2 qs in \<open>simp_all add: db1_def db2_def\<close>)
  qed (simp add: db2_def)
  have step2: "sched_change db db2" using i2 rt2 l by (simp add: sched_change_def runtime_linked db2_def db1_def)
  have val: "inst_valid db1 i TYPE_TEST = inst_valid db i TYPE_TEST" using runtime_inst_valid [OF rt1] by simp
  have tst: "test_of db1 = test_of db" by (rule runtime_reads(2) [OF rt1])
  show ?thesis
  proof (cases "inst_valid db i TYPE_TEST")
    case False
    then have i3: "sched_inv db1" using sched_inv_but_invalid [OF i1] val by simp
    have "dequeue_test_for_start q db = Some db1" using False
      by (simp add: dequeue_test_for_start_def pop instance_validate_linked [OF l1] val)
    moreover have "sched_change db db1" using i3 rt1 l1 by (simp add: sched_change_def db1_def)
    ultimately show ?thesis using False
      by (intro exI [of _ db1] exI [of _ "[]"]) (simp add: db1_def start_job_def)
  next
    case True
    then obtain t where t: "test_of db (obj_of i) = Some t"
      using obj_valid_test by (auto simp: inst_valid_def)
    have ok: "sched_change db db3 \<and> queues db3 = (queues db)(q \<mapsto> xs) \<and> next_time_of db3 = next_time_of db \<and>
        (\<forall>j. j \<noteq> i \<longrightarrow> queued_of db3 j = queued_of db j)"
      if "runtime db2 db3" "queues db3 = queues db2" "\<And>j. i_sched (inst db3 j) = i_sched (inst db2 j)"
        "queues_blocked db3 = queues_blocked db2" for db3
    proof -
      have "next_time_of db3 = next_time_of db2" "queued_of db3 = queued_of db2"
        using that(3) by (simp_all add: next_time_of_def queued_of_def fun_eq_iff)
      then show ?thesis
        using sched_inv_runtime [OF that(1,2), of "{}"] step2 that
        by (auto simp: sched_change_def sched_inv_def runtime_linked db2_def db1_def intro: runtime_trans)
    qed
    have eq: "dequeue_test_for_start q db = Some
        (if t_type t = POLLED then myrefl_seq_from_test i db2
         else if q = QUEUE_USER then
           (if t_autopass t \<noteq> AUTOPASS_UNSET then myrefl_seq_from_test_notify i RESULT_PASS 0 db2 else db2)
         else myrefl_seq_from_test_notify_rci i (i_last_result (inst db2 i)) (i_last_value (inst db2 i)) db2)"
    proof -
      have "queued_of db1 i = q" using q by (simp add: db1_def)
      then show ?thesis using True t val tst
        by (simp add: dequeue_test_for_start_def pop instance_validate_linked [OF l1]
            db2_def [symmetric] Let_def)
    qed
    have j2: "jobs db2 = jobs db" by (simp add: db2_def db1_def set_queued_def upd_inst_def)
    show ?thesis
    proof (cases "t_type t = POLLED")
      case polled: True
      obtain c where "jobs (myrefl_seq_from_test i db2) = jobs db2 @ [c]" "sc_instance c = i"
        "sc_event c = SEQ_TEST_RUN" using seq_from_jobs(1) by blast
      then show ?thesis unfolding eq using ok [of "myrefl_seq_from_test i db2"] True t polled j2
        by (intro exI [of _ "myrefl_seq_from_test i db2"] exI [of _ "[c]"])
          (simp add: start_job_def frame_simps seq_from_runtime)
    next
      case notif: False
      show ?thesis
      proof (cases "q = QUEUE_USER")
        case user: True
        obtain c where "jobs (myrefl_seq_from_test_notify i RESULT_PASS 0 db2) = jobs db2 @ [c]"
          "sc_instance c = i" "sc_event c = SEQ_TEST_RESULT" using seq_from_jobs(2) by blast
        then show ?thesis unfolding eq
          using ok [of "myrefl_seq_from_test_notify i RESULT_PASS 0 db2"] ok [of db2] True t notif user j2 q
          by (cases "t_autopass t = AUTOPASS_UNSET")
            (auto simp: start_job_def frame_simps seq_from_runtime)
      next
        case False
        let ?db3 = "myrefl_seq_from_test_notify_rci i (i_last_result (inst db2 i)) (i_last_value (inst db2 i)) db2"
        obtain c where "jobs ?db3 = jobs db2 @ [c]" "sc_instance c = i" "sc_event c = SEQ_TEST_RESULT_RCI"
          using seq_from_jobs(3) by blast
        then show ?thesis unfolding eq using ok [of ?db3] True t notif False j2 q
          by (intro exI [of _ ?db3] exI [of _ "[c]"])
            (simp add: start_job_def frame_simps seq_from_runtime)
      qed
    qed
  qed
qed

definition due :: "db \<Rightarrow> xos_time \<Rightarrow> iref \<Rightarrow> bool" where
  "due db now i \<longleftrightarrow> next_time_of db i < now"

definition job_keys :: "db \<Rightarrow> (iref \<times> seq_event) list" where
  "job_keys db = map (\<lambda>c. (sc_instance c, sc_event c)) (jobs db)"

text \<open>
  How far a pass over the queues has come since \<open>db0\<close>: only tests that were due have left
  their queue, from the front, and each of them has its job.
\<close>

definition started :: "xos_time \<Rightarrow> db \<Rightarrow> db \<Rightarrow> bool" where
  "started now db0 db \<longleftrightarrow>
     sched_change db0 db \<and> next_time_of db = next_time_of db0 \<and>
     (\<forall>q. map_option (dropWhile (due db0 now)) (queues db q) =
          map_option (dropWhile (due db0 now)) (queues db0 q)) \<and>
     (\<exists>js. jobs db = jobs db0 @ js) \<and>
     (\<forall>q xs i e. queues db0 q = Some xs \<longrightarrow> i \<in> set (takeWhile (due db0 now) xs) \<longrightarrow>
        start_job db0 i = Some e \<longrightarrow>
        (\<exists>ys. queues db q = Some ys \<and> i \<in> set (takeWhile (due db0 now) ys)) \<or> (i, e) \<in> set (job_keys db))"

definition queue_total :: "db \<Rightarrow> nat" where
  "queue_total db = (\<Sum>q\<leftarrow>all_queues. case queues db q of None \<Rightarrow> 0 | Some xs \<Rightarrow> length xs)"

lemma started_refl: "linked db \<Longrightarrow> sched_inv db \<Longrightarrow> started now db db"
  by (auto simp: started_def sched_change_def)

lemma start_job_runtime:
  "runtime db db' \<Longrightarrow> queued_of db' i = queued_of db i \<Longrightarrow> start_job db' i = start_job db i"
  by (simp add: start_job_def runtime_inst_valid runtime_reads cong: if_cong)

lemma started_dequeue:
  assumes s0: "sched_inv db0" and s: "started now db0 db" and p: "queues db q = Some (i # xs)" and d: "due db0 now i"
  shows "\<exists>db'. dequeue_test_for_start q db = Some db' \<and> started now db0 db' \<and>
    queues db' = (queues db)(q \<mapsto> xs)"
proof -
  have step: "sched_change db0 db" using s by (simp add: started_def)
  then have l: "linked db" and inv: "sched_inv db" and rt: "runtime db0 db" by (auto simp: sched_change_def)
  obtain db' js where db': "dequeue_test_for_start q db = Some db'" "sched_change db db'"
    "queues db' = (queues db)(q \<mapsto> xs)" "next_time_of db' = next_time_of db" "jobs db' = jobs db @ js"
    "\<forall>j. j \<noteq> i \<longrightarrow> queued_of db' j = queued_of db j"
    "map (\<lambda>c. (sc_instance c, sc_event c)) js = (case start_job db i of None \<Rightarrow> [] | Some e \<Rightarrow> [(i, e)])"
    using dequeue_linked [OF l inv p] by blast
  have keys: "set (job_keys db') = set (job_keys db) \<union>
      set (case start_job db i of None \<Rightarrow> [] | Some e \<Rightarrow> [(i, e)])"
    using db'(7) [symmetric] by (simp add: job_keys_def db'(5))
  have dw: "map_option (dropWhile (due db0 now)) (queues db' q') =
      map_option (dropWhile (due db0 now)) (queues db0 q')" for q'
  proof -
    have "map_option (dropWhile (due db0 now)) (queues db q') =
        map_option (dropWhile (due db0 now)) (queues db0 q')" using s by (simp add: started_def)
    then show ?thesis using p d db'(3) by (cases "q' = q") auto
  qed
  have ex: "\<exists>js'. jobs db' = jobs db0 @ js'"
    using s db'(5) by (auto simp: started_def)
  have job: "(\<exists>ys. queues db' q' = Some ys \<and> j \<in> set (takeWhile (due db0 now) ys)) \<or> (j, e) \<in> set (job_keys db')"
    if q': "queues db0 q' = Some ys" "j \<in> set (takeWhile (due db0 now) ys)" "start_job db0 j = Some e"
    for q' ys j e
  proof -
    have "(\<exists>zs. queues db q' = Some zs \<and> j \<in> set (takeWhile (due db0 now) zs)) \<or> (j, e) \<in> set (job_keys db)"
      using s q' unfolding started_def by blast
    then consider (q) zs where "queues db q' = Some zs" "j \<in> set (takeWhile (due db0 now) zs)"
      | (j) "(j, e) \<in> set (job_keys db)" by blast
    then show ?thesis
    proof cases
      case (q zs)
      show ?thesis
      proof (cases "j = i")
        case True
        have "j \<in> set ys" "j \<in> set zs" using q' q set_takeWhileD by fast+
        then have "queued_of db j = q'" "queued_of db0 j = q'"
          using sched_inv_butD(5) [OF inv [unfolded sched_inv_def] q(1)]
            sched_inv_butD(5) [of "{}" db0 q' ys] q'(1) s0 by (auto simp: sched_inv_def)
        then have "start_job db j = Some e" using start_job_runtime [OF rt] q'(3) by simp
        then show ?thesis using keys True by simp
      next
        case False
        then show ?thesis using q p d db'(3) by (cases "q' = q") auto
      qed
    qed (use keys in auto)
  qed
  have "started now db0 db'"
    unfolding started_def using sched_change_trans [OF step db'(2)] s db'(4) dw ex job
    by (auto simp: started_def)
  with db' show ?thesis by auto
qed

lemma queue_total_less:
  assumes "queues db q = Some (i # xs)" and "queues db' = (queues db)(q \<mapsto> xs)" and "q \<in> set all_queues"
  shows "queue_total db' < queue_total db"
  using assms by (cases q) (auto simp: queue_total_def all_queues_def)

text \<open>One round over some of the queues: if nothing was found, nothing was due.\<close>

lemma check_round:
  assumes s0: "sched_inv db0" and s: "started now db0 db" and qs: "set qs \<subseteq> set all_queues"
  shows "\<exists>f' db'. foldM (check_queue now) qs (f, db) = Some (f', db') \<and> started now db0 db' \<and>
    queue_total db' \<le> queue_total db \<and> (f \<longrightarrow> f') \<and> (f' \<longrightarrow> f \<or> queue_total db' < queue_total db) \<and>
    (\<not> f' \<longrightarrow> db' = db \<and> (\<forall>q \<in> set qs. \<forall>i. peek_queue q db = Some i \<longrightarrow> \<not> due db0 now i))"
  using s qs
proof (induction qs arbitrary: f db)
  case Nil
  then show ?case by simp
next
  case (Cons q qs)
  have nt: "next_time_of db = next_time_of db0" using Cons.prems(1) by (simp add: started_def)
  show ?case
  proof (cases "\<exists>i xs. queues db q = Some (i # xs) \<and> due db0 now i")
    case True
    then obtain i xs where p: "queues db q = Some (i # xs)" "due db0 now i" by blast
    obtain db1 where db1: "dequeue_test_for_start q db = Some db1" "started now db0 db1"
      "queues db1 = (queues db)(q \<mapsto> xs)" using started_dequeue [OF s0 Cons.prems(1) p] by blast
    have less: "queue_total db1 < queue_total db"
      using queue_total_less [OF p(1) db1(3)] Cons.prems(2) by simp
    have "check_queue now q (f, db) = Some (True, db1)"
      using p db1(1) nt by (simp add: check_queue_def peek_queue_def due_def)
    moreover obtain f' db' where "foldM (check_queue now) qs (True, db1) = Some (f', db')"
      "started now db0 db'" "queue_total db' \<le> queue_total db1" "f'"
      using Cons.IH [OF db1(2), of True] Cons.prems(2) by auto
    ultimately show ?thesis using less by auto
  next
    case False
    then have "check_queue now q (f, db) = Some (f, db)"
      using nt by (auto simp: check_queue_def peek_queue_def due_def split: option.splits list.splits)
    moreover have "\<forall>i. peek_queue q db = Some i \<longrightarrow> \<not> due db0 now i"
      using False by (auto simp: peek_queue_Some)
    ultimately show ?thesis using Cons.IH [OF Cons.prems(1), of f] Cons.prems(2) by auto
  qed
qed

lemma check_queues_loop_returns:
  assumes s0: "sched_inv db0" and s: "started now db0 db"
  shows "\<exists>db'. check_queues_loop now db = Some db' \<and> started now db0 db' \<and>
    (\<forall>q i. peek_queue q db' = Some i \<longrightarrow> \<not> due db0 now i)"
  using s
proof (induction "queue_total db" arbitrary: db rule: less_induct)
  case less
  obtain f' db' where r: "foldM (check_queue now) all_queues (False, db) = Some (f', db')"
    "started now db0 db'" "f' \<longrightarrow> queue_total db' < queue_total db"
    "\<not> f' \<longrightarrow> db' = db \<and> (\<forall>q \<in> set all_queues. \<forall>i. peek_queue q db = Some i \<longrightarrow> \<not> due db0 now i)"
    using check_round [OF s0 less.prems, of all_queues False] by auto
  show ?case
  proof (cases f')
    case True
    then obtain db2 where "check_queues_loop now db' = Some db2" "started now db0 db2"
      "\<forall>q i. peek_queue q db2 = Some i \<longrightarrow> \<not> due db0 now i"
      using less.hyps r by blast
    then show ?thesis using r(1) True by (subst check_queues_loop.simps) simp
  next
    case False
    have "\<not> due db0 now i" if "peek_queue q db = Some i" for q i
    proof (cases "q \<in> set all_queues")
      case False
      then have "q = QUEUE_NONE" by (cases q) (auto simp: all_queues_def)
      moreover have "queues db QUEUE_NONE = None"
        using less.prems sched_inv_butD(1) [of "{}" db] by (simp add: started_def sched_change_def sched_inv_def)
      ultimately show ?thesis using that by (simp add: peek_queue_def)
    qed (use r(4) False that in auto)
    then show ?thesis using r False by (subst check_queues_loop.simps) auto
  qed
qed

text \<open>
  The pass returns; every queue has lost exactly its due front; each test that was on it and
  can be started has a job.
\<close>

lemma check_queue_test_times_linked:
  assumes l: "linked db" and inv: "sched_inv db" and free: "\<not> queues_blocked db"
  defines "now \<equiv> clock db (ticks db)"
  shows "\<exists>db'. check_queue_test_times db = Some db' \<and> runtime db db' \<and> sched_inv db' \<and>
    (\<forall>q. queues db' q = map_option (dropWhile (due db now)) (queues db q)) \<and>
    (\<forall>q xs i e. queues db q = Some xs \<longrightarrow> i \<in> set (takeWhile (due db now) xs) \<longrightarrow>
       start_job db i = Some e \<longrightarrow> (i, e) \<in> set (job_keys db'))"
proof -
  let ?db0 = "snd (time_now db)"
  have l0: "linked ?db0" using l runtime_linked [of db ?db0] by simp
  have inv0: "sched_inv ?db0" using inv sched_inv_runtime [of db ?db0 "{}"] by (simp add: sched_inv_def)
  have due0: "due ?db0 now = due db now" by (simp add: due_def fun_eq_iff)
  obtain db1 where db1: "check_queues_loop now ?db0 = Some db1" "started now ?db0 db1"
    "\<forall>q i. peek_queue q db1 = Some i \<longrightarrow> \<not> due ?db0 now i"
    using check_queues_loop_returns [OF inv0 started_refl [OF l0 inv0]] by blast
  let ?db' = "check_test_start_timer db1"
  have step: "sched_change ?db0 db1" using db1(2) by (simp add: started_def)
  have "check_queue_test_times db = Some ?db'"
    using free db1(1) by (simp add: check_queue_test_times_def split_beta now_def)
  moreover have "runtime db ?db'"
    by (rule runtime_trans [OF runtime_trans [OF runtime_fields(2)] runtime_check_timer])
      (use step in \<open>simp add: sched_change_def\<close>)
  moreover have "sched_inv ?db'"
    using step sched_inv_runtime [of db1 ?db' "{}"] by (simp add: sched_change_def sched_inv_def)
  moreover have qs: "queues ?db' q = map_option (dropWhile (due db now)) (queues db q)" for q
  proof -
    have "map_option (dropWhile (due db now)) (queues db1 q) = map_option (dropWhile (due db now)) (queues db q)"
      using db1(2) by (simp add: started_def due0)
    moreover have "map_option (dropWhile (due db now)) (queues db1 q) = queues db1 q"
    proof (cases "queues db1 q")
      case (Some xs)
      then have "\<not> due db now x" if "xs = x # ys" for x ys
        using db1(3) due0 that by (auto simp: peek_queue_Some)
      then show ?thesis using Some by (cases xs) auto
    qed simp
    ultimately show ?thesis by simp
  qed
  moreover have "(i, e) \<in> set (job_keys ?db')"
    if q: "queues db q = Some xs" "i \<in> set (takeWhile (due db now) xs)" "start_job db i = Some e" for q xs i e
  proof -
    have "start_job ?db0 i = Some e" using q(3) start_job_runtime [of db ?db0 i] by simp
    then have "(\<exists>ys. queues db1 q = Some ys \<and> i \<in> set (takeWhile (due db now) ys)) \<or> (i, e) \<in> set (job_keys db1)"
      using db1(2) q(1,2) unfolding started_def due0 by simp
    moreover have "takeWhile (due db now) ys = []" if "queues db1 q = Some ys" for ys
    proof -
      have "\<not> due db now x" if "ys = x # zs" for x zs
        using db1(3) due0 that \<open>queues db1 q = Some ys\<close> by (auto simp: peek_queue_Some)
      then show ?thesis by (cases ys) auto
    qed
    moreover have "job_keys ?db' = job_keys db1"
      by (simp add: job_keys_def check_test_start_timer_def split_beta time_now_def emit_def split: option.splits)
    ultimately show ?thesis by auto
  qed
  ultimately show ?thesis by blast
qed

end
