(* ===== verification/RuleEval.thy ===== *)
theory RuleEval
  imports Sched
begin

text \<open>
  The evaluation of a rule, the first half of \<open>seq_rule_run\<close> in
  \<^verbatim>\<open>src/src/myrefl_sequence.c\<close>: one branch per operator, with the failure counter and the bit
  history of the operators that count.
\<close>

unbundle bit_operations_syntax

section \<open>Counting bits\<close>

text \<open>One round of the loop that counts the bits of a table entry.\<close>

definition bit_count_round :: "8 word \<times> 8 word \<Rightarrow> 8 word \<times> 8 word" where
  "bit_count_round s = (if snd s AND 1 \<noteq> 0 then fst s + 1 else fst s, drop_bit 1 (snd s))"

definition bitvalues :: "8 word list" where
  "bitvalues = map (\<lambda>j. fst ((bit_count_round ^^ 8) (0, word_of_nat j))) [0..<256]"

definition bit_count :: "8 word \<Rightarrow> 8 word" where
  "bit_count data = bitvalues ! unat data"

section \<open>The operators\<close>

text \<open>The history of an N in M rule, allocated when the rule is run for the first time. A
  negative size makes the allocation of the bytes fail.\<close>

definition rule_data_alloc :: "obj_rule \<Rightarrow> rule_data" where
  "rule_data_alloc r =
     (let history_size = c_div (r_op_m r) 8 + 1
      in \<lparr>rd_history = (if history_size < 0 then None else Some (replicate (nat history_size) 0)),
          rd_history_size = history_size, rd_position = 0\<rparr>)"

definition n_in_m_run :: "obj_rule \<Rightarrow> result \<Rightarrow> obj_instance \<Rightarrow> result \<times> obj_instance" where
  "n_in_m_run r res i =
     (if res \<noteq> RESULT_PASS \<and> res \<noteq> RESULT_FAIL then (RESULT_ABORT, i)
      else
        let d = (case i_rule_data i of None \<Rightarrow> rule_data_alloc r | Some d \<Rightarrow> d);
            i = i\<lparr>i_rule_data := Some d\<rparr>
        in (case rd_history d of
              None \<Rightarrow> (RESULT_ABORT, i)
            | Some h \<Rightarrow>
                let byte = rd_position d div 8;
                    mask = push_bit (nat (rd_position d mod 8)) (1 :: 8 word)
                in if byte \<ge> rd_history_size d then (RESULT_PASS, i)
                   else
                     let b = nat byte;
                         h = (if res = RESULT_PASS then h[b := h ! b AND NOT mask]
                              else h[b := h ! b OR mask]);
                         count_n = (\<Sum>x\<leftarrow>h. int (unat (bit_count x)));
                         pos = rd_position d + 1;
                         pos = (if pos \<ge> r_op_m r then 0 else pos)
                     in (if count_n \<ge> r_op_n r then RESULT_FAIL else RESULT_PASS,
                         i\<lparr>i_rule_data := Some (d\<lparr>rd_history := Some h, rd_position := pos\<rparr>)\<rparr>)))"

text \<open>Is there an enabled input whose matching instance has the given result?\<close>

definition some_input :: "db \<Rightarrow> iref \<Rightarrow> obj_rule \<Rightarrow> result \<Rightarrow> bool" where
  "some_input db i r res =
     list_ex (\<lambda>x. let input = inst db (myrefl_obj_instance db x i)
                  in i_last_result input = res \<and> i_state input = STATE_ENABLED) (r_inputs r)"

definition fail_if :: "bool \<Rightarrow> result" where
  "fail_if b = (if b then RESULT_FAIL else RESULT_PASS)"

text \<open>The \<open>switch\<close> of \<open>seq_rule_run\<close>: the result of the rule and the instance it leaves.\<close>

definition rule_switch :: "db \<Rightarrow> iref \<Rightarrow> obj_rule \<Rightarrow> result \<Rightarrow> int \<Rightarrow> obj_instance \<Rightarrow> result \<times> obj_instance"
  where
  "rule_switch db ref r res value i =
     (case r_operator r of
        RULE_ON_FAIL \<Rightarrow> (fail_if (res = RESULT_FAIL), i)
      | RULE_EQUAL_TO_N \<Rightarrow> (fail_if (res = RESULT_VALUE \<and> value = r_op_n r), i)
      | RULE_NOT_EQUAL_TO_N \<Rightarrow> (fail_if (res = RESULT_VALUE \<and> value \<noteq> r_op_n r), i)
      | RULE_LESS_THAN_N \<Rightarrow> (fail_if (res = RESULT_VALUE \<and> value < r_op_n r), i)
      | RULE_GREATER_THAN_N \<Rightarrow> (fail_if (res = RESULT_VALUE \<and> value > r_op_n r), i)
      | RULE_RANGE_N_TO_M \<Rightarrow>
          (fail_if (res = RESULT_VALUE \<and> (value < r_op_n r \<or> value > r_op_m r)), i)
      | RULE_DISABLE \<Rightarrow> (RESULT_ABORT, i)
      | RULE_N_EVER \<Rightarrow>
          if res = RESULT_FAIL then
            let i = i\<lparr>i_fail_count := i_fail_count i + 1\<rparr>
            in if int (unat (i_fail_count i)) \<ge> r_op_n r
               then (RESULT_FAIL, i\<lparr>i_fail_count := 0\<rparr>) else (RESULT_PASS, i)
          else (RESULT_PASS, i)
      | RULE_N_IN_ROW \<Rightarrow>
          if res = RESULT_FAIL then
            let i = i\<lparr>i_fail_count := i_fail_count i + 1\<rparr>
            in (fail_if (int (unat (i_fail_count i)) \<ge> r_op_n r), i)
          else (RESULT_PASS, i\<lparr>i_fail_count := 0\<rparr>)
      | RULE_N_IN_M \<Rightarrow> n_in_m_run r res i
      | RULE_N_IN_TIME_M \<Rightarrow> (RESULT_ABORT, i)
      | RULE_FAIL_FOR_TIME_N \<Rightarrow> (RESULT_ABORT, i)
      | RULE_OR \<Rightarrow> (fail_if (some_input db ref r RESULT_FAIL), i)
      | RULE_AND \<Rightarrow> (if some_input db ref r RESULT_PASS then RESULT_PASS else RESULT_FAIL, i)
      | RULE_INVALID \<Rightarrow> (RESULT_FAIL, i)
      | RULE_LAST \<Rightarrow> (RESULT_FAIL, i))"

section \<open>The bit table\<close>

lemma bit_count_loop:
  "(bit_count_round ^^ n) (c, w) =
     (c + (\<Sum>k<n. of_bool (bit w k)), drop_bit n w)"
proof (induction n arbitrary: c w)
  case (Suc n)
  have "(bit_count_round ^^ Suc n) (c, w) = bit_count_round ((bit_count_round ^^ n) (c, w))" by simp
  also have "\<dots> = bit_count_round (c + (\<Sum>k<n. of_bool (bit w k)), drop_bit n w)" using Suc by simp
  also have "\<dots> = (c + (\<Sum>k<Suc n. of_bool (bit w k)), drop_bit (Suc n) w)"
    by (simp add: bit_count_round_def and_one_eq odd_iff_mod_2_eq_one [symmetric] bit_iff_odd_drop_bit
        drop_bit_drop_bit add.assoc)
  finally show ?case .
qed simp

lemma unat_sum_of_bool:
  "n < 256 \<Longrightarrow> unat (\<Sum>k<(n :: nat). of_bool (P k) :: 8 word) = card {k. k < n \<and> P k}"
proof (induction n)
  case (Suc n)
  have le: "card {k. k < n \<and> P k} \<le> n"
    using card_mono [of "{..<n}" "{k. k < n \<and> P k}"] by auto
  have set: "{k. k < Suc n \<and> P k} = (if P n then insert n {k. k < n \<and> P k} else {k. k < n \<and> P k})"
    by (auto simp: less_Suc_eq)
  have "unat ((\<Sum>k<n. of_bool (P k) :: 8 word) + of_bool (P n)) =
      card {k. k < n \<and> P k} + of_bool (P n)"
    using Suc le by (subst unat_add_lem [THEN iffD1]) auto
  then show ?case by (simp add: set)
qed simp

text \<open>The table gives the number of bits that are set.\<close>

lemma bit_count_card: "unat (bit_count w) = card {k. k < 8 \<and> bit w k}"
proof -
  have "unat w < 256" using unsigned_less [of w] by simp
  then have "bit_count w = (\<Sum>k<8. of_bool (bit w k))"
    by (simp add: bit_count_def bitvalues_def bit_count_loop)
  then show ?thesis using unat_sum_of_bool [of 8 "bit w"] by simp
qed

section \<open>N in M\<close>

text \<open>The bit of the history for run \<open>j\<close>, and the number of bits set.\<close>

definition history_bit :: "8 word list \<Rightarrow> nat \<Rightarrow> bool" where
  "history_bit h j \<longleftrightarrow> j div 8 < length h \<and> bit (h ! (j div 8)) (j mod 8)"

lemma history_count:
  "(\<Sum>x\<leftarrow>h. int (unat (bit_count x))) = int (card {j. history_bit h j})"
proof (induction h rule: rev_induct)
  case Nil
  then show ?case by (simp add: history_bit_def)
next
  case (snoc x h)
  let ?A = "{j. history_bit h j}" and ?B = "{k. k < 8 \<and> bit x k}"
  have A: "?A \<subseteq> {..<8 * length h}"
    by (auto simp: history_bit_def div_less_iff_less_mult mult.commute)
  then have fin: "finite ?A" using finite_subset by blast
  have "{j. history_bit (h @ [x]) j} = ?A \<union> (\<lambda>k. 8 * length h + k) ` ?B"
  proof (intro set_eqI iffI)
    fix j
    assume "j \<in> {j. history_bit (h @ [x]) j}"
    then have j: "j div 8 < Suc (length h)" "bit ((h @ [x]) ! (j div 8)) (j mod 8)"
      by (auto simp: history_bit_def)
    show "j \<in> ?A \<union> (\<lambda>k. 8 * length h + k) ` ?B"
    proof (cases "j div 8 < length h")
      case True
      then show ?thesis using j by (auto simp: history_bit_def nth_append)
    next
      case False
      then have "j div 8 = length h" using j by simp
      then have "j = 8 * length h + j mod 8" "bit x (j mod 8)"
        using j div_mult_mod_eq [of j 8] by (auto simp: mult.commute)
      then show ?thesis by auto
    qed
  next
    fix j
    assume "j \<in> ?A \<union> (\<lambda>k. 8 * length h + k) ` ?B"
    then show "j \<in> {j. history_bit (h @ [x]) j}"
      by (auto simp: history_bit_def nth_append)
  qed
  moreover have "card (?A \<union> (\<lambda>k. 8 * length h + k) ` ?B) = card ?A + card ?B"
  proof (subst card_Un_disjoint)
    show "?A \<inter> (\<lambda>k. 8 * length h + k) ` ?B = {}" using A by auto
  qed (use fin in \<open>auto simp: card_image inj_on_def\<close>)
  ultimately show ?case using snoc by (simp add: bit_count_card)
qed

lemma bit_2_exp_byte: "bit (2 ^ k :: 8 word) j \<longleftrightarrow> j = k \<and> k < 8"
  by (auto simp: bit_exp_iff)

lemma bit_set_mask: "bit (w OR push_bit k (1 :: 8 word)) j \<longleftrightarrow> bit w j \<or> j = k \<and> k < 8"
  by (auto simp: bit_or_iff bit_2_exp_byte)

lemma bit_clear_mask: "bit (w AND NOT (push_bit k (1 :: 8 word))) j \<longleftrightarrow> bit w j \<and> j \<noteq> k"
  using bit_imp_le_length [of w j] by (auto simp: bit_and_iff bit_not_iff bit_2_exp_byte)

lemma div_mod_eq8: "i div 8 = j div 8 \<Longrightarrow> i mod 8 = j mod 8 \<Longrightarrow> i = (j :: nat)"
  by (metis div_mult_mod_eq)

lemma history_bit_set:
  assumes "p div 8 < length h"
  shows "history_bit (h[p div 8 := h ! (p div 8) OR push_bit (p mod 8) 1]) j \<longleftrightarrow> history_bit h j \<or> j = p"
  using assms div_mod_eq8 [of j p]
  by (auto simp del: push_bit_of_1 simp: history_bit_def nth_list_update bit_set_mask)

lemma history_bit_clear:
  assumes "p div 8 < length h"
  shows "history_bit (h[p div 8 := h ! (p div 8) AND NOT (push_bit (p mod 8) 1)]) j \<longleftrightarrow>
    history_bit h j \<and> j \<noteq> p"
  using assms div_mod_eq8 [of j p]
  by (auto simp del: push_bit_of_1 simp: history_bit_def nth_list_update bit_clear_mask)

text \<open>The last \<open>m\<close> of a sequence of runs, \<open>True\<close> for a failure.\<close>

definition fails_in_last :: "nat \<Rightarrow> bool list \<Rightarrow> nat" where
  "fails_in_last m bs = length (filter id (drop (length bs - m) bs))"

text \<open>
  The history after the runs \<open>bs\<close>: the bit of slot \<open>j\<close> tells how the last run whose number is
  \<open>j\<close> modulo \<open>m\<close> ended, the next slot is the number of runs modulo \<open>m\<close>.
\<close>

definition ring_rep :: "nat \<Rightarrow> bool list \<Rightarrow> rule_data \<Rightarrow> bool" where
  "ring_rep m bs d \<longleftrightarrow>
     (\<exists>h. rd_history d = Some h \<and> length h = m div 8 + 1 \<and> rd_history_size d = int (m div 8 + 1) \<and>
        rd_position d = int (length bs mod m) \<and>
        (\<forall>j. history_bit h j \<longleftrightarrow>
           (\<exists>t < length bs. length bs \<le> t + m \<and> t mod m = j \<and> bs ! t)))"

lemma mod_inj_window: "inj_on (\<lambda>t. t mod m) {t. t < k \<and> k \<le> t + m}" for m k :: nat
proof (rule inj_onI)
  fix s t
  assume s: "s \<in> {t. t < k \<and> k \<le> t + m}" and t: "t \<in> {t. t < k \<and> k \<le> t + m}" and eq: "s mod m = t mod m"
  have *: "a = b" if "a \<le> b" "b < k" "k \<le> a + m" "a mod m = b mod m" for a b :: nat
  proof (rule ccontr)
    assume "a \<noteq> b"
    have "m dvd b - a" using mod_eq_dvd_iff_nat [OF that(1), of m] that(4) by simp
    moreover have "b - a < m" "0 < b - a" using that(1-3) \<open>a \<noteq> b\<close> by linarith+
    ultimately show False using nat_dvd_not_less by blast
  qed
  show "s = t"
  proof (cases "s \<le> t")
    case True
    show ?thesis by (rule *) (use s t eq True in simp_all)
  next
    case False
    show ?thesis by (rule *[symmetric]) (use s t eq False in simp_all)
  qed
qed

lemma ring_count:
  assumes rep: "ring_rep m bs d" and h: "rd_history d = Some h"
  shows "card {j. history_bit h j} = fails_in_last m bs"
proof -
  let ?T = "{t. t < length bs \<and> length bs \<le> t + m \<and> bs ! t}"
  have "{j. history_bit h j} = (\<lambda>t. t mod m) ` ?T"
  proof (intro set_eqI)
    fix j
    have "history_bit h j \<longleftrightarrow> (\<exists>t < length bs. length bs \<le> t + m \<and> t mod m = j \<and> bs ! t)"
      using rep h by (auto simp: ring_rep_def)
    then show "j \<in> {j. history_bit h j} \<longleftrightarrow> j \<in> (\<lambda>t. t mod m) ` ?T" by blast
  qed
  moreover have "inj_on (\<lambda>t. t mod m) ?T"
    by (rule inj_on_subset [OF mod_inj_window]) auto
  ultimately have "card {j. history_bit h j} = card ?T" by (simp add: card_image)
  also have "?T = (\<lambda>t. t + (length bs - m)) ` {i. i < length (drop (length bs - m) bs) \<and> drop (length bs - m) bs ! i}"
  proof (intro set_eqI iffI)
    fix t assume "t \<in> ?T"
    then show "t \<in> (\<lambda>t. t + (length bs - m)) ` {i. i < length (drop (length bs - m) bs) \<and> drop (length bs - m) bs ! i}"
      by (intro image_eqI [of _ _ "t - (length bs - m)"]) auto
  qed (auto simp: add.commute)
  also have "card \<dots> = fails_in_last m bs"
    by (subst card_image) (auto simp: fails_in_last_def length_filter_conv_card)
  finally show ?thesis .
qed

lemma ring_rep_alloc: "0 < m \<Longrightarrow> r_op_m r = int m \<Longrightarrow> ring_rep m [] (rule_data_alloc r)"
proof -
  assume m: "0 < m" "r_op_m r = int m"
  have "c_div (int m) 8 = int (m div 8)" by (simp add: c_div_nonneg zdiv_int)
  moreover have "\<not> history_bit (replicate n 0) j" for n j by (auto simp: history_bit_def)
  ultimately show ?thesis
    using m by (simp add: rule_data_alloc_def ring_rep_def nat_add_distrib del: replicate_Suc)
qed

lemma ring_rep_push:
  assumes m: "0 < m" and rep: "ring_rep m bs d" and h: "rd_history d = Some h"
    and p: "p = length bs mod m"
    and h': "h' = (if b then h[p div 8 := h ! (p div 8) OR push_bit (p mod 8) 1]
                   else h[p div 8 := h ! (p div 8) AND NOT (push_bit (p mod 8) 1)])"
  shows "ring_rep m (bs @ [b]) (d\<lparr>rd_history := Some h',
    rd_position := (if int p + 1 \<ge> int m then 0 else int p + 1)\<rparr>)"
proof -
  let ?k = "length bs"
  have pm: "p < m" using m p by simp
  then have "p div 8 \<le> m div 8" by (intro div_le_mono) simp
  then have pl: "p div 8 < length h" using rep h by (auto simp: ring_rep_def)
  have bits: "history_bit h j \<longleftrightarrow> (\<exists>t < ?k. ?k \<le> t + m \<and> t mod m = j \<and> bs ! t)" for j
    using rep h by (auto simp: ring_rep_def)
  have bits': "history_bit h' j \<longleftrightarrow> (if j = p then b else history_bit h j)" for j
    unfolding h' using history_bit_set [OF pl, of j] history_bit_clear [OF pl, of j] by auto
  have old: "t \<noteq> ?k \<Longrightarrow> t < Suc ?k \<Longrightarrow> Suc ?k \<le> t + m \<Longrightarrow> t mod m \<noteq> p" for t
  proof
    assume t: "t \<noteq> ?k" "t < Suc ?k" "Suc ?k \<le> t + m" "t mod m = p"
    have "t = ?k"
      by (rule inj_onD [OF mod_inj_window [of m "Suc ?k"]]) (use t p m in simp_all)
    with t show False by simp
  qed
  have new: "history_bit h' j \<longleftrightarrow> (\<exists>t < Suc ?k. Suc ?k \<le> t + m \<and> t mod m = j \<and> (bs @ [b]) ! t)" for j
  proof (cases "j = p")
    case True
    have "(\<exists>t < Suc ?k. Suc ?k \<le> t + m \<and> t mod m = p \<and> (bs @ [b]) ! t) \<longleftrightarrow> b"
    proof
      assume "\<exists>t < Suc ?k. Suc ?k \<le> t + m \<and> t mod m = p \<and> (bs @ [b]) ! t"
      then obtain t where "t < Suc ?k" "Suc ?k \<le> t + m" "t mod m = p" "(bs @ [b]) ! t" by blast
      then show b using old [of t] by (cases "t = ?k") auto
    next
      assume b
      then show "\<exists>t < Suc ?k. Suc ?k \<le> t + m \<and> t mod m = p \<and> (bs @ [b]) ! t"
        using m p by (intro exI [of _ ?k]) auto
    qed
    then show ?thesis using bits' True by simp
  next
    case False
    have "(\<exists>t < ?k. ?k \<le> t + m \<and> t mod m = j \<and> bs ! t) \<longleftrightarrow>
        (\<exists>t < Suc ?k. Suc ?k \<le> t + m \<and> t mod m = j \<and> (bs @ [b]) ! t)" (is "?L \<longleftrightarrow> ?R")
    proof
      assume ?L
      then obtain t where t: "t < ?k" "?k \<le> t + m" "t mod m = j" "bs ! t" by blast
      have "?k \<noteq> t + m" using t False p by auto
      then show ?R using t by (intro exI [of _ t]) (auto simp: nth_append)
    next
      assume ?R
      then obtain t where t: "t < Suc ?k" "Suc ?k \<le> t + m" "t mod m = j" "(bs @ [b]) ! t" by blast
      then have "t \<noteq> ?k" using False p by auto
      then show ?L using t by (intro exI [of _ t]) (auto simp: nth_append)
    qed
    then show ?thesis using bits bits' False by simp
  qed
  have pos: "(if int p + 1 \<ge> int m then 0 else int p + 1) = int (Suc ?k mod m)"
    using pm p by (auto simp: mod_Suc)
  show ?thesis unfolding pos
    using rep h new by (auto simp: ring_rep_def h')
qed

definition n_in_m_state :: "nat \<Rightarrow> bool list \<Rightarrow> obj_instance \<Rightarrow> bool" where
  "n_in_m_state m bs i \<longleftrightarrow>
     (case i_rule_data i of None \<Rightarrow> bs = [] | Some d \<Rightarrow> ring_rep m bs d)"

lemma n_in_m_step:
  assumes m: "0 < m" "r_op_m r = int m" and s: "n_in_m_state m bs i"
    and res: "res = RESULT_PASS \<or> res = RESULT_FAIL"
  shows "\<exists>i'. n_in_m_run r res i =
      (fail_if (r_op_n r \<le> int (fails_in_last m (bs @ [res = RESULT_FAIL]))), i') \<and>
    n_in_m_state m (bs @ [res = RESULT_FAIL]) i'"
proof -
  define d where "d = (case i_rule_data i of None \<Rightarrow> rule_data_alloc r | Some d \<Rightarrow> d)"
  have rep: "ring_rep m bs d"
    using s ring_rep_alloc [OF m] by (auto simp: n_in_m_state_def d_def split: option.splits)
  then obtain h where h: "rd_history d = Some h" "length h = m div 8 + 1"
    "rd_history_size d = int (m div 8 + 1)" "rd_position d = int (length bs mod m)"
    by (auto simp: ring_rep_def)
  define p where "p = length bs mod m"
  have pm: "p < m" using m p_def by simp
  then have pl: "p div 8 \<le> m div 8" by (intro div_le_mono) simp
  define b where "b = (res = RESULT_FAIL)"
  define h' where "h' = (if b then h[p div 8 := h ! (p div 8) OR push_bit (p mod 8) 1]
                   else h[p div 8 := h ! (p div 8) AND NOT (push_bit (p mod 8) 1)])"
  define d' where "d' = d\<lparr>rd_history := Some h', rd_position := (if int p + 1 \<ge> int m then 0 else int p + 1)\<rparr>"
  have rep': "ring_rep m (bs @ [b]) d'"
    unfolding d'_def by (rule ring_rep_push [OF m(1) rep h(1) p_def h'_def])
  have dm: "int p div 8 = int (p div 8)" "nat (int p mod 8) = p mod 8" "\<not> int (m div 8 + 1) \<le> int (p div 8)"
    using pl by (simp_all only: of_nat_le_iff zdiv_int nat_mod_distrib) (simp_all add: nat_mod_distrib)
  have cnt: "(\<Sum>x\<leftarrow>h'. int (unat (bit_count x))) = int (fails_in_last m (bs @ [b]))"
    using history_count [of h'] ring_count [OF rep', of h'] by (simp add: d'_def)
  have h'': "(if res = RESULT_PASS then h[p div 8 := h ! (p div 8) AND NOT (push_bit (p mod 8) 1)]
      else h[p div 8 := h ! (p div 8) OR push_bit (p mod 8) 1]) = h'"
    using res by (auto simp: h'_def b_def)
  have "n_in_m_run r res i = (fail_if (r_op_n r \<le> int (fails_in_last m (bs @ [b]))),
      i\<lparr>i_rule_data := Some d'\<rparr>)"
    unfolding n_in_m_run_def d_def [symmetric] Let_def h option.case h(4) p_def [symmetric] dm nat_int h''
    using res cnt m(2) dm(3) by (auto simp: fail_if_def d'_def)
  then show ?thesis using rep' by (simp add: n_in_m_state_def b_def)
qed

lemma n_in_m_runs:
  assumes m: "0 < m" "r_op_m r = int m" and s: "n_in_m_state m bs i"
    and res: "set rs \<subseteq> {RESULT_PASS, RESULT_FAIL}"
  shows "n_in_m_state m (bs @ map (\<lambda>x. x = RESULT_FAIL) rs) (fold (\<lambda>x i. snd (n_in_m_run r x i)) rs i)"
  using s res
proof (induction rs arbitrary: bs i)
  case (Cons x rs)
  then obtain i' where i': "n_in_m_run r x i = (fail_if (r_op_n r \<le> int (fails_in_last m (bs @ [x = RESULT_FAIL]))), i')"
    "n_in_m_state m (bs @ [x = RESULT_FAIL]) i'"
    using n_in_m_step [OF m Cons.prems(1), of x] by auto
  then show ?case using Cons.IH [OF i'(2)] Cons.prems(2) by simp
qed simp

section \<open>The counting operators over a sequence of runs\<close>

definition rule_after :: "db \<Rightarrow> iref \<Rightarrow> obj_rule \<Rightarrow> (result \<times> int) list \<Rightarrow> obj_instance \<Rightarrow> obj_instance" where
  "rule_after db ref r rs i = fold (\<lambda>(res, v) i. snd (rule_switch db ref r res v i)) rs i"

definition trailing_fails :: "(result \<times> int) list \<Rightarrow> nat" where
  "trailing_fails rs = length (takeWhile (\<lambda>x. fst x = RESULT_FAIL) (rev rs))"

definition total_fails :: "(result \<times> int) list \<Rightarrow> nat" where
  "total_fails rs = length (filter (\<lambda>x. fst x = RESULT_FAIL) rs)"

lemma trailing_fails_snoc:
  "trailing_fails (rs @ [x]) = (if fst x = RESULT_FAIL then Suc (trailing_fails rs) else 0)"
  by (simp add: trailing_fails_def)

lemma trailing_fails_le: "trailing_fails rs \<le> length rs"
  using length_takeWhile_le [of "\<lambda>x. fst x = RESULT_FAIL" "rev rs"] by (simp add: trailing_fails_def)

lemma rule_after_snoc:
  "rule_after db ref r (rs @ [x]) i = snd (rule_switch db ref r (fst x) (snd x) (rule_after db ref r rs i))"
  by (simp add: rule_after_def split_beta)

lemma unat_Suc_word: "unat (w :: 32 word) < 2 ^ 32 - 1 \<Longrightarrow> unat (w + 1) = Suc (unat w)"
  by (subst unat_add_lem [THEN iffD1]) auto

lemma in_row_count:
  assumes "r_operator r = RULE_N_IN_ROW" and "i_fail_count i = 0" and "length rs < 2 ^ 32"
  shows "unat (i_fail_count (rule_after db ref r rs i)) = trailing_fails rs"
  using assms(3)
proof (induction rs rule: rev_induct)
  case Nil
  then show ?case using assms(2) by (simp add: rule_after_def trailing_fails_def)
next
  case (snoc x rs)
  then have IH: "unat (i_fail_count (rule_after db ref r rs i)) = trailing_fails rs" by simp
  have "trailing_fails rs < 2 ^ 32 - 1" using trailing_fails_le [of rs] snoc.prems by simp
  then show ?case using IH
    by (simp add: rule_after_snoc trailing_fails_snoc rule_switch_def assms(1) Let_def unat_Suc_word)
qed

text \<open>N in a row fails exactly when the failures since the last other result reach N.\<close>

lemma in_row_result:
  assumes "r_operator r = RULE_N_IN_ROW" and "i_fail_count i = 0" and "length rs < 2 ^ 32 - 1"
  shows "fst (rule_switch db ref r res v (rule_after db ref r rs i)) =
    fail_if (res = RESULT_FAIL \<and> r_op_n r \<le> int (trailing_fails (rs @ [(res, v)])))"
proof -
  have "trailing_fails rs < 2 ^ 32 - 1" using trailing_fails_le [of rs] assms(3) by simp
  moreover have "unat (i_fail_count (rule_after db ref r rs i)) = trailing_fails rs"
    by (rule in_row_count [OF assms(1,2)]) (use assms(3) in simp)
  ultimately show ?thesis
    by (simp del: of_nat_unat add: rule_switch_def assms(1) Let_def unat_Suc_word trailing_fails_snoc fail_if_def)
qed

lemma ever_count:
  assumes op: "r_operator r = RULE_N_EVER" and n: "r_op_n r = int n" "0 < n" "n < 2 ^ 32"
    and i: "i_fail_count i = 0"
  shows "unat (i_fail_count (rule_after db ref r rs i)) = total_fails rs mod n"
proof (induction rs rule: rev_induct)
  case Nil
  then show ?case using i by (simp add: rule_after_def total_fails_def)
next
  case (snoc x rs)
  let ?c = "i_fail_count (rule_after db ref r rs i)"
  have lt: "unat ?c < n" using snoc.IH n(2) by simp
  then have s: "unat (?c + 1) = Suc (unat ?c)" using n(3) by (intro unat_Suc_word) simp
  show ?case
  proof (cases "fst x = RESULT_FAIL")
    case True
    have t: "total_fails (rs @ [x]) = Suc (total_fails rs)" using True by (simp add: total_fails_def)
    show ?thesis
    proof (cases "Suc (unat ?c) = n")
      case reached: True
      then have "Suc (total_fails rs) mod n = 0" using snoc.IH by (simp add: mod_Suc)
      then show ?thesis using True s t op n reached
        by (simp del: of_nat_unat add: rule_after_snoc rule_switch_def Let_def)
    next
      case False
      then have "Suc (total_fails rs) mod n = Suc (unat ?c)" using snoc.IH by (simp add: mod_Suc)
      then show ?thesis using True s t op n lt False
        by (simp del: of_nat_unat add: rule_after_snoc rule_switch_def Let_def)
    qed
  next
    case False
    then show ?thesis using snoc.IH op by (simp add: rule_after_snoc rule_switch_def total_fails_def)
  qed
qed

text \<open>N ever fails on every N-th failure.\<close>

lemma ever_result:
  assumes op: "r_operator r = RULE_N_EVER" and n: "r_op_n r = int n" "0 < n" "n < 2 ^ 32"
    and i: "i_fail_count i = 0"
  shows "fst (rule_switch db ref r res v (rule_after db ref r rs i)) =
    fail_if (res = RESULT_FAIL \<and> n dvd total_fails (rs @ [(res, v)]))"
proof -
  let ?c = "i_fail_count (rule_after db ref r rs i)"
  have c: "unat ?c = total_fails rs mod n" by (rule ever_count [OF assms])
  then have lt: "unat ?c < n" using n(2) by simp
  then have s: "unat (?c + 1) = Suc (unat ?c)" using n(3) by (intro unat_Suc_word) simp
  have "n \<le> Suc (unat ?c) \<longleftrightarrow> n dvd Suc (total_fails rs)"
    using lt c by (auto simp: mod_Suc dvd_eq_mod_eq_0 split: if_splits)
  then show ?thesis using op n s
    by (auto simp del: of_nat_unat simp: rule_switch_def Let_def fail_if_def total_fails_def)
qed

text \<open>The rules over several inputs.\<close>

lemma or_result:
  "r_operator r = RULE_OR \<Longrightarrow> fst (rule_switch db ref r res v i) = RESULT_FAIL \<longleftrightarrow>
     (\<exists>x \<in> set (r_inputs r). i_state (inst db (myrefl_obj_instance db x ref)) = STATE_ENABLED \<and>
        i_last_result (inst db (myrefl_obj_instance db x ref)) = RESULT_FAIL)"
  by (auto simp: rule_switch_def some_input_def fail_if_def list_ex_iff Let_def)

lemma and_result:
  "r_operator r = RULE_AND \<Longrightarrow> fst (rule_switch db ref r res v i) = RESULT_FAIL \<longleftrightarrow>
     (\<forall>x \<in> set (r_inputs r). i_state (inst db (myrefl_obj_instance db x ref)) = STATE_ENABLED \<longrightarrow>
        i_last_result (inst db (myrefl_obj_instance db x ref)) \<noteq> RESULT_PASS)"
  by (auto simp: rule_switch_def some_input_def list_ex_iff Let_def)

end
