(* ===== verification/SeqStats.thy ===== *)
theory SeqStats
  imports RuleEval
begin

text \<open>
  Results and health in \<^verbatim>\<open>src/src/myrefl_sequence.c\<close>: the statistics of an instance with its
  ring of history records, the summary kept in the base instance, the health and confidence of
  the components, and the runs of tests, rules and actions that feed them.
\<close>

section \<open>History records\<close>

definition new_history :: "xos_time \<Rightarrow> result \<Rightarrow> int \<Rightarrow> obj_stats \<Rightarrow> obj_stats" where
  "new_history now r v s =
     (let h = history_head s + 1;
          h = (if h = word_of_nat OBJ_HISTORY_SIZE then 0 else h)
      in s\<lparr>history_head := h,
           history := (history s)[unat h := \<lparr>h_time = now, h_result = r, h_count = 1, h_value = v\<rparr>]\<rparr>)"

definition upd_stats :: "iref \<Rightarrow> (obj_stats \<Rightarrow> obj_stats) \<Rightarrow> db \<Rightarrow> db" where
  "upd_stats i f = upd_inst i (\<lambda>x. x\<lparr>i_stats := f (i_stats x)\<rparr>)"

definition seq_new_history_record :: "iref \<Rightarrow> result \<Rightarrow> int \<Rightarrow> db \<Rightarrow> db" where
  "seq_new_history_record i r v db =
     (let (now, db) = time_now db in upd_stats i (new_history now r v) db)"

definition seq_update_history_record :: "iref \<Rightarrow> result \<Rightarrow> int \<Rightarrow> db \<Rightarrow> db" where
  "seq_update_history_record i r v db =
     (let s = i_stats (inst db i); k = unat (history_head s); rec = history s ! k
      in if h_count rec = 0 then seq_new_history_record i r v db
         else upd_stats i (\<lambda>s. s\<lparr>history := (history s)[k :=
                (if h_result rec = r then rec\<lparr>h_count := h_count rec + 1\<rparr> else rec)\<lparr>h_value := v\<rparr>]\<rparr>) db)"

section \<open>Statistics\<close>

text \<open>A counter of the instance and, for a member, of its base instance as well.\<close>

definition count_both :: "iref \<Rightarrow> (obj_stats \<Rightarrow> obj_stats) \<Rightarrow> db \<Rightarrow> db" where
  "count_both i f db =
     (let db = upd_stats i f db
      in if myrefl_obj_is_member_instance i then upd_stats (base (obj_of i)) f db else db)"

text \<open>The state of the base instance after a member's pass or fail.\<close>

definition base_summary :: "iref \<Rightarrow> result \<Rightarrow> db \<Rightarrow> bool \<times> db" where
  "base_summary i r db =
     (let b = base (obj_of i)
      in if i_last_result (inst db b) = r then
           (False, upd_inst b (\<lambda>x. x\<lparr>i_last_result_count := i_last_result_count x + 1\<rparr>) db)
         else if r = RESULT_FAIL \<or>
                 \<not> list_ex (\<lambda>k. i_last_result (inst db (IRef (obj_of i) k)) = RESULT_FAIL)
                     (o_members (objs db (obj_of i)))
         then (True, upd_inst b (\<lambda>x. x\<lparr>i_last_result := r, i_last_result_count := 1\<rparr>) db)
         else (True, db))"

text \<open>The counters, by result; a value also moves the history. Returns whether the result
  changed.\<close>

definition count_result :: "iref \<Rightarrow> result \<Rightarrow> int \<Rightarrow> db \<Rightarrow> bool \<times> db" where
  "count_result i r v db =
     (case r of
        RESULT_PASS \<Rightarrow> (False, count_both i (\<lambda>s. s\<lparr>passes := passes s + 1\<rparr>) db)
      | RESULT_FAIL \<Rightarrow> (False, count_both i (\<lambda>s. s\<lparr>failures := failures s + 1\<rparr>) db)
      | RESULT_ABORT \<Rightarrow> (False, count_both i (\<lambda>s. s\<lparr>aborts := aborts s + 1\<rparr>) db)
      | RESULT_VALUE \<Rightarrow>
          (let same = (i_last_value (inst db i) = v);
               db = (if same then seq_update_history_record i r v db else seq_new_history_record i r v db)
           in (\<not> same, upd_inst i (\<lambda>x. x\<lparr>i_last_value := v\<rparr>) db))
      | _ \<Rightarrow> (False, db))"

text \<open>The last result of the instance and of its base instance, for a pass or a fail.\<close>

definition record_result :: "iref \<Rightarrow> result \<Rightarrow> int \<Rightarrow> db \<Rightarrow> bool \<times> db" where
  "record_result i r v db =
     (let (changed, db) =
            (if i_last_result (inst db i) = r then
               let db = upd_inst i (\<lambda>x. x\<lparr>i_last_result_count := i_last_result_count x + 1\<rparr>) db
               in (False, if type_of db (obj_of i) = TYPE_ACTION then seq_new_history_record i r v db
                          else seq_update_history_record i r v db)
             else
               (True, seq_new_history_record i r v
                  (upd_inst i (\<lambda>x. x\<lparr>i_last_result := r, i_last_result_count := 1\<rparr>) db)))
      in if myrefl_obj_is_member_instance i
         then let (c, db) = base_summary i r db in (changed \<or> c, db)
         else (changed, db))"

definition notify_result :: "iref \<Rightarrow> result \<Rightarrow> int \<Rightarrow> db \<Rightarrow> db" where
  "notify_result i r v db =
     (let n = i_name (inst db (base (obj_of i)));
          m = (if myrefl_obj_is_member_instance i then None else Some (i_name (inst db i)))
      in (case type_of db (obj_of i) of
            TYPE_TEST \<Rightarrow> emit (Notify_test n m r v) db
          | TYPE_RULE \<Rightarrow> emit (Notify_rule n m r v) db
          | TYPE_ACTION \<Rightarrow> emit (Notify_action n m r v) db
          | _ \<Rightarrow> db))"

definition seq_stats_update :: "iref \<Rightarrow> result \<Rightarrow> int \<Rightarrow> db \<Rightarrow> db" where
  "seq_stats_update i r v db =
     (let db = count_both i (\<lambda>s. s\<lparr>runs := runs s + 1\<rparr>) db;
          (c1, db) = count_result i r v db;
          (c2, db) = (if r = RESULT_PASS \<or> r = RESULT_FAIL then record_result i r v db else (False, db))
      in if (c1 \<or> c2) \<and> and (i_flags (inst db (base (obj_of i)))) OBJ_FLAG_NOTIFY \<noteq> 0
         then notify_result i r v db else db)"

definition seq_result_stats_update :: "iref \<Rightarrow> result \<Rightarrow> int \<Rightarrow> db \<Rightarrow> db option" where
  "seq_result_stats_update i r v db = do {
     (ok, db) \<leftarrow> myrefl_obj_instance_validate i TYPE_ANY db;
     if \<not> ok then Some db
     else
       let db = seq_stats_update i r v db
       in if type_of db (obj_of i) \<noteq> TYPE_RULE \<or> r = RESULT_VALUE then Some db
          else (case o_parent_comp (objs db (obj_of i)) of
              None \<Rightarrow> Some db
            | Some c \<Rightarrow> do {
                (ok, db) \<leftarrow> myrefl_obj_validate (Some c) TYPE_COMP db;
                Some (if ok then seq_stats_update (base c) r 0 db else db) }) }"

section \<open>Health\<close>

definition SEVERITY_CATASTROPHIC :: int where "SEVERITY_CATASTROPHIC = 1000"
definition SEVERITY_CRITICAL :: int where "SEVERITY_CRITICAL = 500"
definition SEVERITY_HIGH :: int where "SEVERITY_HIGH = 200"
definition SEVERITY_MEDIUM :: int where "SEVERITY_MEDIUM = 100"
definition SEVERITY_LOW :: int where "SEVERITY_LOW = 50"
definition SEVERITY_POSITIVE :: int where "SEVERITY_POSITIVE = -200"

text \<open>The three walks over the members of a component.\<close>

definition health_of_rules :: "oid list \<Rightarrow> int \<times> db \<Rightarrow> (int \<times> db) option" where
  "health_of_rules =
     foldM (\<lambda>x (h, db). do {
       (ok, db) \<leftarrow> myrefl_obj_validate (Some x) TYPE_RULE db;
       if ok \<and> i_state (inst db (base x)) = STATE_ENABLED \<and> i_last_result (inst db (base x)) = RESULT_FAIL
       then do { r \<leftarrow> rule_of db x; Some (h - r_severity r, db) }
       else Some (h, db) })"

definition health_of_comps :: "oid list \<Rightarrow> int \<times> db \<Rightarrow> (int \<times> db) option" where
  "health_of_comps =
     foldM (\<lambda>x (h, db). do {
       (ok, db) \<leftarrow> myrefl_obj_validate (Some x) TYPE_COMP db;
       Some (if ok \<and> i_state (inst db (base x)) = STATE_ENABLED
             then h - (1000 - health (healths db x)) else h, db) })"

definition confidence_of_comps :: "oid list \<Rightarrow> int \<times> db \<Rightarrow> (int \<times> db) option" where
  "confidence_of_comps =
     foldM (\<lambda>x (c, db). do {
       (ok, db) \<leftarrow> myrefl_obj_validate (Some x) TYPE_COMP db;
       Some (if ok \<and> i_state (inst db (base x)) = STATE_ENABLED \<and> confidence (healths db x) < c
             then confidence (healths db x) else c, db) })"

definition confidence_increment :: "int \<Rightarrow> int \<Rightarrow> int" where
  "confidence_increment h c =
     (let increment = c_div (h - c) (c_div 3600 (c_div 5000 1000))
      in if increment = 0 then 1 else increment)"

definition count_severity :: "int \<Rightarrow> comp_health \<Rightarrow> comp_health" where
  "count_severity s x =
     (if s = SEVERITY_CATASTROPHIC then x\<lparr>catastrophic := catastrophic x + 1\<rparr>
      else if s = SEVERITY_CRITICAL then x\<lparr>critical := critical x + 1\<rparr>
      else if s = SEVERITY_HIGH then x\<lparr>high := high x + 1\<rparr>
      else if s = SEVERITY_MEDIUM then x\<lparr>medium := medium x + 1\<rparr>
      else if s = SEVERITY_LOW then x\<lparr>low := low x + 1\<rparr>
      else if s = SEVERITY_POSITIVE then x\<lparr>positive := positive x + 1\<rparr>
      else x)"

definition notify_interested :: "int \<Rightarrow> oid list \<Rightarrow> db \<Rightarrow> db option" where
  "notify_interested h =
     foldM (\<lambda>x db. do {
       (ok, db) \<leftarrow> myrefl_obj_validate (Some x) TYPE_TEST db;
       Some (if ok then myrefl_seq_from_test_notify (base x) RESULT_VALUE h db else db) })"

text \<open>One component; the recursion to its parent follows.\<close>

definition comp_health_guts :: "oid \<Rightarrow> int \<Rightarrow> db \<Rightarrow> db option" where
  "comp_health_guts cp health_delta db = do {
     c \<leftarrow> comp_of db cp;
     (h, db) \<leftarrow> health_of_rules (c_rules c) (1000, db);
     (h, db) \<leftarrow> health_of_comps (c_comps c) (h, db);
     let db = upd_health cp (\<lambda>x. x\<lparr>health := h\<rparr>) db;
     let conf = confidence (healths db cp);
     (conf, db) \<leftarrow>
       (if h < conf then Some (if h > 0 then h else 0, db)
        else if h > conf then confidence_of_comps (c_comps c) (conf + confidence_increment h conf, db)
        else Some (conf, db));
     let db = upd_health cp (\<lambda>x. x\<lparr>confidence := (if conf > 1000 then 1000 else conf)\<rparr>) db;
     let db = upd_health cp (count_severity (- health_delta)) db;
     if health_delta \<noteq> 0 then do {
       db \<leftarrow> notify_interested h (c_interested c) db;
       Some (emit (Notify_health (i_name (inst db (base cp))) h) db) }
     else Some db }"

partial_function (option) seq_comp_health :: "oid \<Rightarrow> int \<Rightarrow> db \<Rightarrow> db option" where
  "seq_comp_health cp health_delta db =
     Option.bind (comp_health_guts cp health_delta db) (\<lambda>db.
       case o_parent_comp (objs db cp) of
         None \<Rightarrow> Some db
       | Some parent \<Rightarrow> seq_comp_health parent health_delta db)"

definition seq_rule_result_on_health :: "iref \<Rightarrow> result \<Rightarrow> db \<Rightarrow> db option" where
  "seq_rule_result_on_health i r db = do {
     (ok, db) \<leftarrow> myrefl_obj_instance_validate i TYPE_ANY db;
     if \<not> ok then Some db
     else do {
       rule \<leftarrow> rule_of db (obj_of i);
       let parent = o_parent_comp (objs db (obj_of i));
       if i_last_result_count (inst db i) > 1
       then Option.bind parent (\<lambda>cp. seq_comp_health cp 0 db)
       else
         (case r of
            RESULT_PASS \<Rightarrow> Option.bind parent (\<lambda>cp. seq_comp_health cp (r_severity rule) db)
          | RESULT_FAIL \<Rightarrow> Option.bind parent (\<lambda>cp. seq_comp_health cp (- r_severity rule) db)
          | _ \<Rightarrow> Some db) }}"

definition myrefl_seq_comp_set_health :: "oid option \<Rightarrow> int \<Rightarrow> db \<Rightarrow> db option" where
  "myrefl_seq_comp_set_health cp h db =
     (case cp of None \<Rightarrow> Some db | Some c \<Rightarrow> seq_comp_health c (h - health (healths db c)) db)"

section \<open>Running tests, rules and actions\<close>

definition use_instance :: "32 word \<Rightarrow> iref \<Rightarrow> db \<Rightarrow> db" where
  "use_instance d i = upd_inst i (\<lambda>x. x\<lparr>i_in_use := i_in_use x + d\<rparr>)"

text \<open>The result of the run, with the value the test may have set.\<close>

definition myrefl_seq_test_run :: "client \<Rightarrow> iref \<Rightarrow> int \<Rightarrow> db \<Rightarrow> (result \<times> int \<times> db) option" where
  "myrefl_seq_test_run cl i value db = do {
     (ok, db) \<leftarrow> myrefl_obj_instance_validate i TYPE_TEST db;
     if \<not> ok then Some (RESULT_INVALID, value, db)
     else do {
       t \<leftarrow> test_of db (obj_of i);
       if t_type t = POLLED then
         (case t_function t of
            None \<Rightarrow> Some (RESULT_INVALID, value, db)
          | Some f \<Rightarrow>
              let db = use_instance 1 i db;
                  n = (if myrefl_obj_is_member_instance i then Some (i_name (inst db i)) else None);
                  (r, v, db) = run_test cl f n (i_context (inst db i)) value db
              in Some (r, v, use_instance (- 1) i db))
       else Some (RESULT_INVALID, value, db) }}"

definition seq_rule_run :: "iref \<Rightarrow> result \<Rightarrow> int \<Rightarrow> db \<Rightarrow> (result \<times> db) option" where
  "seq_rule_run i r v db = do {
     (ok, db) \<leftarrow> myrefl_obj_instance_validate i TYPE_RULE db;
     if \<not> ok then Some (RESULT_ABORT, db)
     else do {
       rule \<leftarrow> rule_of db (obj_of i);
       let (res, x) = rule_switch db i rule r v (inst db i);
       db \<leftarrow> seq_result_stats_update i res v (upd_inst i (\<lambda>_. x) db);
       db \<leftarrow> seq_rule_result_on_health (base (obj_of i)) res db;
       Some (res, db) }}"

definition seq_action_run :: "client \<Rightarrow> iref \<Rightarrow> db \<Rightarrow> (result \<times> db) option" where
  "seq_action_run cl i db = do {
     (ok, db) \<leftarrow> myrefl_obj_instance_validate i TYPE_ACTION db;
     if \<not> ok then Some (RESULT_ABORT, db)
     else do {
       a \<leftarrow> action_of db (obj_of i);
       let (res, db) =
         (case a_function a of
            None \<Rightarrow> (RESULT_ABORT, db)
          | Some f \<Rightarrow>
              let db = use_instance 1 i db;
                  (r, db) = run_action cl f (i_name (inst db i)) (i_context (inst db i)) db
              in (r, use_instance (- 1) i db));
       db \<leftarrow> seq_result_stats_update i res 0 db;
       Some (res, db) }}"

section \<open>What results and health leave alone\<close>

text \<open>Nothing here schedules a test: the queues and the scheduling data stay.\<close>

definition quiet :: "db \<Rightarrow> db \<Rightarrow> bool" where
  "quiet db db' \<longleftrightarrow> runtime db db' \<and> queues db' = queues db \<and> queues_blocked db' = queues_blocked db \<and>
     (\<forall>i. i_sched (inst db' i) = i_sched (inst db i))"

lemma quiet_refl [simp]: "quiet db db"
  by (simp add: quiet_def)

lemma quiet_trans: "quiet a b \<Longrightarrow> quiet b c \<Longrightarrow> quiet a c"
  by (auto simp: quiet_def intro: runtime_trans)

lemma quiet_runtime: "quiet db db' \<Longrightarrow> runtime db db'"
  by (simp add: quiet_def)

lemma quiet_sched_step: "quiet db db' \<Longrightarrow> linked db \<Longrightarrow> sched_inv db \<Longrightarrow> sched_step db db'"
proof -
  assume q: "quiet db db'" and l: "linked db" and i: "sched_inv db"
  have "queued_of db' = queued_of db" "next_time_of db' = next_time_of db"
    using q by (simp_all add: quiet_def queued_of_def next_time_of_def fun_eq_iff)
  then show ?thesis
    using q l i sched_inv_runtime [of db db' "{}"]
    by (simp add: quiet_def sched_step_def sched_inv_def runtime_linked [of db db'] keeps_queued_same)
qed

lemma quiet_upd_inst:
  "(\<And>x. inst_id (f x) = inst_id x \<and> i_sched (f x) = i_sched x) \<Longrightarrow> quiet a b \<Longrightarrow> quiet a (upd_inst i f b)"
  by (rule quiet_trans, assumption)
    (auto simp: quiet_def upd_inst_def inst_def intro: runtime_upd_inst [unfolded upd_inst_def])

lemma quiet_stats [inv_intros]: "quiet a b \<Longrightarrow> quiet a (upd_stats i f b)"
  unfolding upd_stats_def by (rule quiet_upd_inst) (simp_all add: inst_id_def)

lemma quiet_fields [inv_intros]:
  "quiet a b \<Longrightarrow> quiet a (emit e b)" "quiet a b \<Longrightarrow> quiet a (snd (time_now b))"
  "quiet a b \<Longrightarrow> quiet a (upd_health ob g b)" "quiet a b \<Longrightarrow> quiet a (use_instance d i b)"
  by (rule quiet_trans, assumption, simp add: quiet_def emit_def time_now_def upd_health_def
      use_instance_def upd_inst_def inst_def runtime_def inst_id_def)+

lemma quiet_set_result [inv_intros]:
  "quiet a b \<Longrightarrow> quiet a (upd_inst i (\<lambda>x. x\<lparr>i_last_result_count := c x\<rparr>) b)"
  "quiet a b \<Longrightarrow> quiet a (upd_inst i (\<lambda>x. x\<lparr>i_last_result := r, i_last_result_count := n\<rparr>) b)"
  "quiet a b \<Longrightarrow> quiet a (upd_inst i (\<lambda>x. x\<lparr>i_last_value := v\<rparr>) b)"
  by (rule quiet_upd_inst; simp add: inst_id_def)+

lemma quiet_request [inv_intros]: "quiet a b \<Longrightarrow> quiet a (myrefl_seq_from_test_notify i r v b)"
  by (rule quiet_trans, assumption)
    (simp add: quiet_def seq_from_runtime frame_simps)

lemma quiet_history [inv_intros]:
  "quiet a b \<Longrightarrow> quiet a (seq_new_history_record i r v b)"
  "quiet a b \<Longrightarrow> quiet a (seq_update_history_record i r v b)"
  by (simp_all add: seq_new_history_record_def seq_update_history_record_def split_beta Let_def inv_intros)

lemma quiet_counts [inv_intros]:
  "quiet a b \<Longrightarrow> quiet a (count_both i f b)"
  "quiet a b \<Longrightarrow> quiet a (snd (base_summary i r b))"
  "quiet a b \<Longrightarrow> quiet a (snd (count_result i r v b))"
  "quiet a b \<Longrightarrow> quiet a (snd (record_result i r v b))"
  "quiet a b \<Longrightarrow> quiet a (notify_result i r v b)"
proof -
  assume q: "quiet a b"
  show 1: "quiet a (count_both i f b)" for f using q by (simp add: count_both_def Let_def inv_intros)
  have 2: "quiet a (snd (base_summary i r b))" if "quiet a b" for b
    using that by (simp add: base_summary_def Let_def inv_intros)
  show "quiet a (snd (base_summary i r b))" using q by (rule 2)
  show "quiet a (snd (count_result i r v b))"
    using q 1 by (simp add: count_result_def Let_def inv_intros split: result.split)
  show "quiet a (snd (record_result i r v b))"
    using q 2 by (simp add: record_result_def Let_def split_beta inv_intros)
  show "quiet a (notify_result i r v b)"
    using q by (simp add: notify_result_def Let_def inv_intros split: obj_type.split)
qed

lemma quiet_stats_update [inv_intros]: "quiet a b \<Longrightarrow> quiet a (seq_stats_update i r v b)"
  by (simp add: seq_stats_update_def Let_def split_beta inv_intros)

lemma result_stats_linked:
  assumes l: "linked db"
  shows "\<exists>db'. seq_result_stats_update i r v db = Some db' \<and> quiet db db'"
proof -
  let ?db = "seq_stats_update i r v db"
  have q: "quiet db ?db" by (intro inv_intros quiet_refl)
  then have l1: "linked ?db" using l runtime_linked quiet_runtime by blast
  show ?thesis
  proof (cases "inst_valid db i TYPE_ANY")
    case False
    then show ?thesis by (auto simp: seq_result_stats_update_def instance_validate_linked [OF l])
  next
    case True
    have "quiet db (if b then seq_stats_update (base c) r 0 ?db else ?db)" for b c
      using q by (simp add: inv_intros)
    then show ?thesis using True q
      by (auto simp: seq_result_stats_update_def instance_validate_linked [OF l] validate_linked [OF l1]
          Let_def split: option.split)
  qed
qed

section \<open>Health of a component\<close>

text \<open>The loss of health through the failing rules and the unhealthy components of a list.\<close>

definition rule_loss :: "db \<Rightarrow> oid \<Rightarrow> int" where
  "rule_loss db x =
     (if obj_valid db (Some x) TYPE_RULE \<and> i_state (inst db (base x)) = STATE_ENABLED \<and>
         i_last_result (inst db (base x)) = RESULT_FAIL
      then (case rule_of db x of None \<Rightarrow> 0 | Some r \<Rightarrow> r_severity r) else 0)"

definition comp_loss :: "db \<Rightarrow> oid \<Rightarrow> int" where
  "comp_loss db x =
     (if obj_valid db (Some x) TYPE_COMP \<and> i_state (inst db (base x)) = STATE_ENABLED
      then 1000 - health (healths db x) else 0)"

definition health_spec :: "db \<Rightarrow> obj_comp \<Rightarrow> int" where
  "health_spec db c = 1000 - (\<Sum>x\<leftarrow>c_rules c. rule_loss db x) - (\<Sum>x\<leftarrow>c_comps c. comp_loss db x)"

lemma obj_valid_rule: "obj_valid db (Some ob) TYPE_RULE \<Longrightarrow> \<exists>r. rule_of db ob = Some r"
  by (auto simp: obj_valid_def type_of_def rule_of_def split: obj_data.splits)

lemma health_of_rules_linked:
  "linked db \<Longrightarrow> health_of_rules xs (h, db) = Some (h - (\<Sum>x\<leftarrow>xs. rule_loss db x), db)"
proof (induction xs arbitrary: h)
  case (Cons x xs)
  have "(do {(ok, db) \<leftarrow> myrefl_obj_validate (Some x) TYPE_RULE db;
       if ok \<and> i_state (inst db (base x)) = STATE_ENABLED \<and> i_last_result (inst db (base x)) = RESULT_FAIL
       then do { r \<leftarrow> rule_of db x; Some (h - r_severity r, db) }
       else Some (h, db)}) = Some (h - rule_loss db x, db)"
    using obj_valid_rule [of db x] by (auto simp: validate_linked [OF Cons.prems] rule_loss_def)
  then show ?case using Cons by (simp add: health_of_rules_def algebra_simps)
qed (simp add: health_of_rules_def)

lemma health_of_comps_linked:
  "linked db \<Longrightarrow> health_of_comps xs (h, db) = Some (h - (\<Sum>x\<leftarrow>xs. comp_loss db x), db)"
proof (induction xs arbitrary: h)
  case (Cons x xs)
  have "(do {(ok, db) \<leftarrow> myrefl_obj_validate (Some x) TYPE_COMP db;
       Some (if ok \<and> i_state (inst db (base x)) = STATE_ENABLED
             then h - (1000 - health (healths db x)) else h, db)}) = Some (h - comp_loss db x, db)"
    by (auto simp: validate_linked [OF Cons.prems] comp_loss_def)
  then show ?case using Cons by (simp add: health_of_comps_def algebra_simps)
qed (simp add: health_of_comps_def)

text \<open>The confidence is lowered to that of the least confident enabled component.\<close>

lemma confidence_of_comps_linked:
  assumes l: "linked db"
  shows "\<exists>c'. confidence_of_comps xs (c, db) = Some (c', db) \<and> c' \<le> c \<and>
    (c' = c \<or> (\<exists>x \<in> set xs. c' = confidence (healths db x))) \<and>
    (\<forall>x \<in> set xs. obj_valid db (Some x) TYPE_COMP \<and> i_state (inst db (base x)) = STATE_ENABLED \<longrightarrow>
       c' \<le> confidence (healths db x))"
proof (induction xs arbitrary: c)
  case (Cons x xs)
  define c1 where "c1 = (if obj_valid db (Some x) TYPE_COMP \<and> i_state (inst db (base x)) = STATE_ENABLED \<and>
      confidence (healths db x) < c then confidence (healths db x) else c)"
  have step: "confidence_of_comps (x # xs) (c, db) = confidence_of_comps xs (c1, db)"
    by (simp add: confidence_of_comps_def validate_linked [OF l] c1_def)
  obtain c' where c': "confidence_of_comps xs (c1, db) = Some (c', db)" "c' \<le> c1"
    "c' = c1 \<or> (\<exists>x \<in> set xs. c' = confidence (healths db x))"
    "\<forall>x \<in> set xs. obj_valid db (Some x) TYPE_COMP \<and> i_state (inst db (base x)) = STATE_ENABLED \<longrightarrow>
       c' \<le> confidence (healths db x)"
    using Cons.IH [of c1] by blast
  have "c1 \<le> c" "c1 = c \<or> c1 = confidence (healths db x)"
    "obj_valid db (Some x) TYPE_COMP \<and> i_state (inst db (base x)) = STATE_ENABLED \<longrightarrow> c1 \<le> confidence (healths db x)"
    by (auto simp: c1_def)
  then show ?case using step c' by force
qed (simp add: confidence_of_comps_def)

lemma notify_interested_linked:
  "linked db \<Longrightarrow> \<exists>db'. notify_interested h xs db = Some db' \<and> quiet db db' \<and> healths db' = healths db \<and>
     (\<forall>i. i_last_result (inst db' i) = i_last_result (inst db i))"
proof (induction xs arbitrary: db)
  case (Cons x xs)
  define db1 where "db1 = (if obj_valid db (Some x) TYPE_TEST
      then myrefl_seq_from_test_notify (base x) RESULT_VALUE h db else db)"
  have q: "quiet db db1" by (simp add: db1_def inv_intros)
  have f: "healths db1 = healths db" "\<And>i. i_last_result (inst db1 i) = i_last_result (inst db i)"
    by (simp_all add: db1_def seq_from_defs split_beta take_context_fields inst_take_context)
  have l: "linked db1" using Cons.prems q runtime_linked quiet_runtime by blast
  obtain db' where "notify_interested h xs db1 = Some db'" "quiet db1 db'" "healths db' = healths db1"
    "\<forall>i. i_last_result (inst db' i) = i_last_result (inst db1 i)" using Cons.IH [OF l] by blast
  then show ?case using q f
    by (auto simp: notify_interested_def validate_linked [OF Cons.prems] db1_def [symmetric] intro: quiet_trans)
qed (simp add: notify_interested_def)

lemma confidence_increment_bounds:
  assumes "c < h" shows "1 \<le> confidence_increment h c" and "c + confidence_increment h c \<le> h"
proof -
  have "c_div 3600 (c_div 5000 1000) = 720" by (simp add: c_div_def)
  moreover have "0 \<le> c_div (h - c) 720" "c_div (h - c) 720 \<le> h - c"
    using assms by (auto intro: c_div_bounds)
  ultimately show "1 \<le> confidence_increment h c" "c + confidence_increment h c \<le> h"
    using assms by (auto simp: confidence_increment_def Let_def)
qed

lemma count_severity_reads [simp]:
  "health (count_severity s x) = health x" "confidence (count_severity s x) = confidence x"
  by (simp_all add: count_severity_def)

lemma upd_health_reads [simp]:
  "healths (upd_health ob f db) = (healths db)(ob := f (healths db ob))"
  "objs (upd_health ob f db) = objs db" "inst (upd_health ob f db) = inst db"
  by (simp_all add: upd_health_def inst_def fun_eq_iff)

lemma emit_healths [simp]: "healths (emit e db) = healths db"
  by (simp add: emit_def)

lemma comp_health_guts_linked:
  assumes l: "linked db" and c: "comp_of db cp = Some c"
  shows "\<exists>db'. comp_health_guts cp d db = Some db' \<and> quiet db db' \<and>
    health (healths db' cp) = health_spec db c \<and> (\<forall>x. x \<noteq> cp \<longrightarrow> healths db' x = healths db x) \<and>
    (\<forall>i. i_last_result (inst db' i) = i_last_result (inst db i)) \<and>
    confidence (healths db' cp) \<le> min 1000 (max 0 (health_spec db c)) \<and>
    ((\<forall>x. 0 \<le> confidence (healths db x)) \<longrightarrow> 0 \<le> confidence (healths db' cp))"
proof -
  define h where "h = health_spec db c"
  define db1 where "db1 = upd_health cp (\<lambda>x. x\<lparr>health := h\<rparr>) db"
  have q1: "quiet db db1" by (simp add: db1_def inv_intros)
  then have l1: "linked db1" using l runtime_linked quiet_runtime by blast
  define k where "k = confidence (healths db1 cp)"
  have conf1: "confidence (healths db1 x) = confidence (healths db x)" for x by (simp add: db1_def)
  obtain c' where c': "(if h < k then Some (if h > 0 then h else 0, db1)
        else if h > k then confidence_of_comps (c_comps c) (k + confidence_increment h k, db1)
        else Some (k, db1)) = Some (c', db1)" "c' \<le> max 0 h"
      "(\<forall>x. 0 \<le> confidence (healths db x)) \<longrightarrow> 0 \<le> c'"
  proof (cases "h < k \<or> h = k")
    case True
    then show ?thesis
      by (intro that [of "if h < k then (if h > 0 then h else 0) else k"])
        (auto simp: k_def conf1)
  next
    case False
    then have hk: "k < h" by simp
    obtain e where e: "confidence_of_comps (c_comps c) (k + confidence_increment h k, db1) = Some (e, db1)"
      "e \<le> k + confidence_increment h k"
      "e = k + confidence_increment h k \<or> (\<exists>x \<in> set (c_comps c). e = confidence (healths db1 x))"
      using confidence_of_comps_linked [OF l1] by blast
    have nn: "0 \<le> e" if "\<forall>x. 0 \<le> confidence (healths db x)"
      using e(3) that confidence_increment_bounds(1) [OF hk] conf1 k_def by (metis add_nonneg_nonneg
          order.trans zero_le_one)
    show ?thesis
      by (rule that [of e]) (use e hk confidence_increment_bounds(2) [OF hk] nn in auto)
  qed
  define db2 where "db2 = upd_health cp (count_severity (- d))
      (upd_health cp (\<lambda>x. x\<lparr>confidence := (if c' > 1000 then 1000 else c')\<rparr>) db1)"
  have q2: "quiet db db2" using q1 by (simp add: db2_def inv_intros)
  then have l2: "linked db2" using l runtime_linked quiet_runtime by blast
  have r2: "health (healths db2 cp) = h" "confidence (healths db2 cp) = (if c' > 1000 then 1000 else c')"
    "\<And>x. x \<noteq> cp \<Longrightarrow> healths db2 x = healths db x" "inst db2 = inst db"
    by (simp_all add: db2_def db1_def)
  have guts: "comp_health_guts cp d db =
      (if d \<noteq> 0 then Option.bind (notify_interested h (c_interested c) db2)
         (\<lambda>db. Some (emit (Notify_health (i_name (inst db (base cp))) h) db)) else Some db2)"
    unfolding comp_health_guts_def c health_of_rules_linked [OF l] Option.bind.bind_lunit prod.case
      health_of_comps_linked [OF l] h_def [unfolded health_spec_def, symmetric] db1_def [symmetric]
      Let_def k_def [symmetric] c'(1) db2_def [symmetric]
    by (cases "d = 0") (auto simp: r2 intro!: bind_option_cong)
  show ?thesis
  proof (cases "d = 0")
    case True
    then show ?thesis using guts q2 r2 c'(2,3) by (auto simp: h_def [symmetric])
  next
    case False
    obtain db3 where "notify_interested h (c_interested c) db2 = Some db3" "quiet db2 db3"
      "healths db3 = healths db2" "\<forall>i. i_last_result (inst db3 i) = i_last_result (inst db2 i)"
      using notify_interested_linked [OF l2] by blast
    then show ?thesis using guts q2 r2 c'(2,3) False
      by (auto simp: h_def [symmetric] intro: inv_intros quiet_trans)
  qed
qed

section \<open>Health up to the system component\<close>

text \<open>The containment of components: parents are components, the members of a component have it
  as their parent, a rank falls from a member to its parent, and rules are in a component.\<close>

definition contained_ranked :: "(oid \<Rightarrow> nat) \<Rightarrow> db \<Rightarrow> bool" where
  "contained_ranked rank db \<longleftrightarrow>
     (\<forall>ob p. o_parent_comp (objs db ob) = Some p \<longrightarrow> rank p < rank ob \<and> comp_of db p \<noteq> None) \<and>
     (\<forall>p c x. comp_of db p = Some c \<longrightarrow> x \<in> set (c_comps c) \<longrightarrow> o_parent_comp (objs db x) = Some p) \<and>
     (\<forall>ob. obj_valid db (Some ob) TYPE_RULE \<longrightarrow> o_parent_comp (objs db ob) \<noteq> None)"

inductive ancestor :: "db \<Rightarrow> oid \<Rightarrow> oid \<Rightarrow> bool" for db where
  ancestor_self: "ancestor db x x"
| ancestor_up: "o_parent_comp (objs db x) = Some p \<Longrightarrow> ancestor db p a \<Longrightarrow> ancestor db x a"

inductive_cases ancestorE: "ancestor db x a"

lemma contained_runtime: "runtime db db' \<Longrightarrow> contained_ranked rank db' = contained_ranked rank db"
  by (simp add: contained_ranked_def runtimeD runtime_reads runtime_obj_valid)

lemma ancestor_runtime: "runtime db db' \<Longrightarrow> ancestor db' x a = ancestor db x a"
proof -
  have *: "objs a = objs b \<Longrightarrow> ancestor a x y \<Longrightarrow> ancestor b x y" for a b x y
  proof -
    assume o: "objs a = objs b" and an: "ancestor a x y"
    from an show "ancestor b x y" by induction (auto simp: o intro: ancestor.intros)
  qed
  show "runtime db db' \<Longrightarrow> ancestor db' x a = ancestor db x a"
    using *[of db db' x a] *[of db' db x a] by (auto simp: runtimeD(1))
qed

lemma ancestor_rank: "contained_ranked rank db \<Longrightarrow> ancestor db x a \<Longrightarrow> rank a \<le> rank x"
  by (rotate_tac, induction rule: ancestor.induct) (force simp: contained_ranked_def)+

lemma health_spec_cong:
  assumes "runtime db db'" and "\<And>i. i_last_result (inst db' i) = i_last_result (inst db i)"
    and "\<And>x. x \<in> set (c_comps c) \<Longrightarrow> healths db' x = healths db x"
  shows "health_spec db' c = health_spec db c"
proof -
  have "rule_loss db' = rule_loss db"
    by (intro ext) (simp add: rule_loss_def runtime_obj_valid [OF assms(1)] runtime_reads [OF assms(1)]
        runtimeD [OF assms(1)] assms(2) cong: if_cong)
  moreover have "(\<Sum>x\<leftarrow>c_comps c. comp_loss db' x) = (\<Sum>x\<leftarrow>c_comps c. comp_loss db x)"
    by (intro arg_cong [where f = sum_list] map_cong refl)
      (simp add: comp_loss_def runtime_obj_valid [OF assms(1)] runtimeD [OF assms(1)] assms(3))
  ultimately show ?thesis by (simp add: health_spec_def)
qed

definition conf_ok :: "db \<Rightarrow> bool" where
  "conf_ok db \<longleftrightarrow> (\<forall>x. 0 \<le> confidence (healths db x) \<and> confidence (healths db x) \<le> 1000)"

text \<open>
  The recursion returns; the component and everything it is in have the health their members
  give them; no other component changes; confidences stay between 0 and 1000.
\<close>

lemma seq_comp_health_linked:
  assumes "linked db" and "contained_ranked rank db" and "comp_of db cp \<noteq> None"
  shows "\<exists>db'. seq_comp_health cp d db = Some db' \<and> quiet db db' \<and>
    (\<forall>i. i_last_result (inst db' i) = i_last_result (inst db i)) \<and>
    (\<forall>a c. ancestor db cp a \<longrightarrow> comp_of db a = Some c \<longrightarrow> health (healths db' a) = health_spec db' c) \<and>
    (\<forall>x. \<not> ancestor db cp x \<longrightarrow> healths db' x = healths db x) \<and> (conf_ok db \<longrightarrow> conf_ok db')"
  using assms
proof (induction "rank cp" arbitrary: cp db rule: less_induct)
  case less
  obtain c where c: "comp_of db cp = Some c" using less.prems(3) by auto
  obtain db1 where g: "comp_health_guts cp d db = Some db1" "quiet db db1"
    "health (healths db1 cp) = health_spec db c" "\<forall>x. x \<noteq> cp \<longrightarrow> healths db1 x = healths db x"
    "\<forall>i. i_last_result (inst db1 i) = i_last_result (inst db i)"
    "confidence (healths db1 cp) \<le> min 1000 (max 0 (health_spec db c))"
    "(\<forall>x. 0 \<le> confidence (healths db x)) \<longrightarrow> 0 \<le> confidence (healths db1 cp)"
    using comp_health_guts_linked [OF less.prems(1) c, of d] by blast
  have rt: "runtime db db1" by (rule quiet_runtime [OF g(2)])
  have conf1: "conf_ok db \<longrightarrow> conf_ok db1"
    using g(4,6,7) unfolding conf_ok_def by (metis min.boundedE)
  have kids: "x \<noteq> a" if "x \<in> set (c_comps c)" "ancestor db cp a" for x a
    using that less.prems(2) c ancestor_rank [OF less.prems(2) that(2)]
    by (fastforce simp: contained_ranked_def)
  have hs1: "health_spec db1 c = health_spec db c"
    by (rule health_spec_cong [OF rt]) (use g(4,5) kids [OF _ ancestor_self] in auto)
  show ?case
  proof (cases "o_parent_comp (objs db cp)")
    case None
    have anc: "ancestor db cp a \<longleftrightarrow> a = cp" for a
      using None by (auto intro: ancestor_self elim: ancestorE)
    have "seq_comp_health cp d db = Some db1"
      using g(1) None by (subst seq_comp_health.simps) (simp add: runtimeD(1) [OF rt])
    then show ?thesis using g conf1 anc c hs1 by auto
  next
    case (Some p)
    have p: "rank p < rank cp" "comp_of db p \<noteq> None"
      using less.prems(2) Some by (auto simp: contained_ranked_def)
    have anc: "ancestor db cp a \<longleftrightarrow> a = cp \<or> ancestor db p a" for a
      using Some by (auto intro: ancestor_self ancestor_up elim: ancestorE)
    have ncp: "\<not> ancestor db p cp" using ancestor_rank [OF less.prems(2), of p cp] p(1) by auto
    obtain db2 where r: "seq_comp_health p d db1 = Some db2" "quiet db1 db2"
      "\<forall>i. i_last_result (inst db2 i) = i_last_result (inst db1 i)"
      "\<forall>a c. ancestor db1 p a \<longrightarrow> comp_of db1 a = Some c \<longrightarrow> health (healths db2 a) = health_spec db2 c"
      "\<forall>x. \<not> ancestor db1 p x \<longrightarrow> healths db2 x = healths db1 x" "conf_ok db1 \<longrightarrow> conf_ok db2"
      using less.hyps [OF p(1), of db1] less.prems(1,2) p(2)
        runtime_linked [OF rt] contained_runtime [OF rt] runtime_reads(5) [OF rt] by auto
    have anc1: "ancestor db1 = ancestor db" by (intro ext) (rule ancestor_runtime [OF rt])
    have "seq_comp_health cp d db = Some db2"
      using g(1) Some r(1) by (subst seq_comp_health.simps) (simp add: runtimeD(1) [OF rt])
    moreover have "quiet db db2" by (rule quiet_trans [OF g(2) r(2)])
    moreover have "health (healths db2 a) = health_spec db2 c'"
      if "ancestor db cp a" "comp_of db a = Some c'" for a c'
    proof (cases "ancestor db p a")
      case True
      then show ?thesis using r(4) that(2) runtime_reads(5) [OF rt] by (simp add: anc1)
    next
      case False
      then have a: "a = cp" "c' = c" using that anc c by auto
      have "health_spec db2 c = health_spec db1 c"
        by (rule health_spec_cong [OF quiet_runtime [OF r(2)]])
          (use r(3,5) kids anc anc1 in auto)
      then show ?thesis using r(5) ncp a g(3) hs1 by (simp add: anc1)
    qed
    moreover have "healths db2 x = healths db x" if "\<not> ancestor db cp x" for x
      using that anc r(5) g(4) by (simp add: anc1)
    ultimately show ?thesis using g(5) r(3,6) conf1 by auto
  qed
qed

section \<open>The base instance sums up its members\<close>

lemma inst_upd_inst [simp]: "inst (upd_inst i f db) j = (if j = i then f (inst db i) else inst db j)"
  by (simp add: upd_inst_def inst_def)

lemma inst_upd_stats: "inst (upd_stats i f db) j =
    (if j = i then (inst db i)\<lparr>i_stats := f (i_stats (inst db i))\<rparr> else inst db j)"
  by (simp add: upd_stats_def)

text \<open>Statistics, history and notifications do not change the last results.\<close>

definition same_results :: "db \<Rightarrow> db \<Rightarrow> bool" where
  "same_results db db' \<longleftrightarrow> objs db' = objs db \<and>
     (\<forall>j. i_last_result (inst db' j) = i_last_result (inst db j) \<and>
          i_last_result_count (inst db' j) = i_last_result_count (inst db j))"

lemma same_results_refl [simp]: "same_results db db"
  by (simp add: same_results_def)

lemma same_results_ops [frame_simps]:
  "same_results a (upd_stats i f b) = same_results a b" "same_results a (snd (time_now b)) = same_results a b"
  "same_results a (emit e b) = same_results a b"
  "same_results a (upd_inst i (\<lambda>x. x\<lparr>i_last_value := v\<rparr>) b) = same_results a b"
  by (auto simp: same_results_def inst_upd_stats time_now_def emit_def inst_def upd_stats_def upd_inst_def)

lemma same_results_history [frame_simps]:
  "same_results a (seq_new_history_record i r v b) = same_results a b"
  "same_results a (seq_update_history_record i r v b) = same_results a b"
  by (simp_all add: seq_new_history_record_def seq_update_history_record_def split_beta Let_def frame_simps)

lemma same_results_counts [frame_simps]:
  "same_results a (count_both i f b) = same_results a b"
  "same_results a (notify_result i r v b) = same_results a b"
  "same_results a (snd (count_result i r v b)) = same_results a b"
proof -
  show 1: "same_results a (count_both i f b) = same_results a b" for f
    by (simp add: count_both_def Let_def frame_simps)
  show "same_results a (notify_result i r v b) = same_results a b"
    by (simp add: notify_result_def Let_def frame_simps split: obj_type.split)
  show "same_results a (snd (count_result i r v b)) = same_results a b"
    by (simp add: count_result_def Let_def frame_simps 1 split: result.split)
qed

definition base_ok :: "db \<Rightarrow> oid \<Rightarrow> bool" where
  "base_ok db ob \<longleftrightarrow> 0 \<notin> set (o_members (objs db ob)) \<and>
     (i_last_result (inst db (base ob)) = RESULT_FAIL \<longleftrightarrow>
        (\<exists>k \<in> set (o_members (objs db ob)). i_last_result (inst db (IRef ob k)) = RESULT_FAIL))"

lemma base_ok_same: "same_results db db' \<Longrightarrow> base_ok db' ob = base_ok db ob"
  by (simp add: base_ok_def same_results_def)

text \<open>The new last result of the instance, before the base instance is looked at.\<close>

definition set_last_result :: "iref \<Rightarrow> result \<Rightarrow> db \<Rightarrow> db" where
  "set_last_result i r =
     upd_inst i (\<lambda>x. x\<lparr>i_last_result := r,
       i_last_result_count := (if i_last_result x = r then i_last_result_count x + 1 else 1)\<rparr>)"

lemma record_result_stages:
  "\<exists>db1. same_results (set_last_result i r db) db1 \<and>
     snd (record_result i r v db) =
       (if myrefl_obj_is_member_instance i then snd (base_summary i r db1) else db1)"
proof -
  define db1 where "db1 =
      (if i_last_result (inst db i) = r then
         let db = upd_inst i (\<lambda>x. x\<lparr>i_last_result_count := i_last_result_count x + 1\<rparr>) db
         in if type_of db (obj_of i) = TYPE_ACTION then seq_new_history_record i r v db
            else seq_update_history_record i r v db
       else seq_new_history_record i r v (upd_inst i (\<lambda>x. x\<lparr>i_last_result := r, i_last_result_count := 1\<rparr>) db))"
  have "same_results (set_last_result i r db)
      (upd_inst i (\<lambda>x. x\<lparr>i_last_result_count := i_last_result_count x + 1\<rparr>) db)"
    if "i_last_result (inst db i) = r"
    using that by (simp add: same_results_def set_last_result_def upd_inst_def inst_def)
  moreover have "same_results (set_last_result i r db)
      (upd_inst i (\<lambda>x. x\<lparr>i_last_result := r, i_last_result_count := 1\<rparr>) db)"
    if "i_last_result (inst db i) \<noteq> r"
    using that by (simp add: same_results_def set_last_result_def upd_inst_def inst_def)
  ultimately have "same_results (set_last_result i r db) db1"
    by (simp add: db1_def Let_def frame_simps)
  moreover have "snd (record_result i r v db) =
       (if myrefl_obj_is_member_instance i then snd (base_summary i r db1) else db1)"
    by (auto simp: record_result_def db1_def Let_def split_beta)
  ultimately show ?thesis by blast
qed

lemma set_last_result_reads [simp]:
  "objs (set_last_result i r db) = objs db"
  "i_last_result (inst (set_last_result i r db) j) = (if j = i then r else i_last_result (inst db j))"
  by (simp_all add: set_last_result_def) (simp add: upd_inst_def)

text \<open>What a pass or fail of a member does to the last results of its object.\<close>

lemma member_result:
  assumes r: "r = RESULT_PASS \<or> r = RESULT_FAIL" and k: "k \<in> set (o_members (objs db ob))"
    and ok: "base_ok db ob" and db'_def: "db' = seq_stats_update (IRef ob k) r v db"
  shows "base_ok db' ob" and "i_last_result (inst db' (IRef ob k)) = r"
    and "j \<noteq> IRef ob k \<Longrightarrow> j \<noteq> base ob \<Longrightarrow> i_last_result (inst db' j) = i_last_result (inst db j)"
proof -
  let ?i = "IRef ob k"
  have k0: "k \<noteq> 0" using k ok unfolding base_ok_def by metis
  then have mem: "myrefl_obj_is_member_instance ?i"
    by (simp add: myrefl_obj_is_member_instance_def base_def)
  define dba where "dba = snd (count_result ?i r v (count_both ?i (\<lambda>s. s\<lparr>runs := runs s + 1\<rparr>) db))"
  have sa: "same_results db dba" by (simp add: dba_def frame_simps)
  obtain dbb where sb: "same_results (set_last_result ?i r dba) dbb"
    and rec: "snd (record_result ?i r v dba) = snd (base_summary ?i r dbb)"
    using record_result_stages [of ?i r dba v] mem by auto
  have "same_results (snd (base_summary ?i r dbb)) db'"
    using r by (simp add: db'_def seq_stats_update_def Let_def split_beta dba_def [symmetric] rec frame_simps)
  then have db': "objs db' = objs (snd (base_summary ?i r dbb))"
    "i_last_result (inst db' j) = i_last_result (inst (snd (base_summary ?i r dbb)) j)" for j
    by (auto simp: same_results_def)
  have b: "objs dbb = objs db" "i_last_result (inst dbb j) = (if j = ?i then r else i_last_result (inst db j))" for j
    using sa sb by (auto simp: same_results_def)
  let ?fail = "\<exists>k \<in> set (o_members (objs db ob)). i_last_result (inst dbb (IRef ob k)) = RESULT_FAIL"
  have sum: "objs (snd (base_summary ?i r dbb)) = objs db"
    "i_last_result (inst (snd (base_summary ?i r dbb)) j) =
       (if j = base ob \<and> (r = RESULT_FAIL \<or> \<not> ?fail) then r else i_last_result (inst dbb j))" for j
    using r by (auto simp: base_summary_def Let_def b(1) list_ex_iff) (auto simp: upd_inst_def b(1))
  have kb: "?i \<noteq> base ob" using k0 by (simp add: base_def)
  have mb: "m \<in> set (o_members (objs db ob)) \<Longrightarrow> IRef ob m \<noteq> base ob" for m
    using ok unfolding base_ok_def base_def by (metis iref.inject)
  show "i_last_result (inst db' ?i) = r" using db' sum b kb by simp
  show "j \<noteq> ?i \<Longrightarrow> j \<noteq> base ob \<Longrightarrow> i_last_result (inst db' j) = i_last_result (inst db j)"
    using db' sum b by simp
  have "i_last_result (inst db' (base ob)) = RESULT_FAIL \<longleftrightarrow> ?fail"
  proof (cases "r = RESULT_FAIL")
    case True
    then show ?thesis using db' sum b k by auto
  next
    case False
    then have r: "r = RESULT_PASS" using r by simp
    show ?thesis
    proof (cases ?fail)
      case True
      then obtain m where m: "m \<in> set (o_members (objs db ob))" "i_last_result (inst dbb (IRef ob m)) = RESULT_FAIL"
        by blast
      then have "i_last_result (inst db (IRef ob m)) = RESULT_FAIL" using b r by (auto split: if_splits)
      then have "i_last_result (inst db (base ob)) = RESULT_FAIL" using ok m(1) by (auto simp: base_ok_def)
      then show ?thesis using db' sum b True r kb by auto
    next
      case False
      then show ?thesis using db' sum b r by auto
    qed
  qed
  moreover have "i_last_result (inst db' (IRef ob m)) = i_last_result (inst dbb (IRef ob m))"
    if "m \<in> set (o_members (objs db ob))" for m using db' sum mb [OF that] by simp
  ultimately show "base_ok db' ob"
    using ok db' sum by (auto simp: base_ok_def)
qed

section \<open>Running a rule\<close>

text \<open>Every component around the rule has the health its members give it.\<close>

definition health_right :: "db \<Rightarrow> oid \<Rightarrow> bool" where
  "health_right db ob \<longleftrightarrow>
     (\<forall>p a c. o_parent_comp (objs db ob) = Some p \<longrightarrow> ancestor db p a \<longrightarrow> comp_of db a = Some c \<longrightarrow>
        health (healths db a) = health_spec db c)"

lemma result_on_health_linked:
  assumes l: "linked db" and cr: "contained_ranked rank db" and v: "obj_valid db (Some ob) TYPE_RULE"
  shows "\<exists>db'. seq_rule_result_on_health (base ob) r db = Some db' \<and> quiet db db' \<and>
    (r = RESULT_PASS \<or> r = RESULT_FAIL \<longrightarrow> health_right db' ob) \<and> (conf_ok db \<longrightarrow> conf_ok db') \<and>
    (\<forall>i. i_last_result (inst db' i) = i_last_result (inst db i))"
proof -
  obtain rule where rule: "rule_of db ob = Some rule" using obj_valid_rule [OF v] by blast
  obtain p where p: "o_parent_comp (objs db ob) = Some p" "comp_of db p \<noteq> None"
    using cr v unfolding contained_ranked_def by (metis not_None_eq)
  have val: "inst_valid db (base ob) TYPE_ANY"
    using v by (auto simp: inst_valid_def obj_valid_def base_def)
  have step: "\<exists>db'. seq_comp_health p d db = Some db' \<and> quiet db db' \<and> health_right db' ob \<and>
      (conf_ok db \<longrightarrow> conf_ok db') \<and> (\<forall>i. i_last_result (inst db' i) = i_last_result (inst db i))" for d
  proof -
    obtain db' where db': "seq_comp_health p d db = Some db'" "quiet db db'"
      "\<forall>i. i_last_result (inst db' i) = i_last_result (inst db i)"
      "\<forall>a c. ancestor db p a \<longrightarrow> comp_of db a = Some c \<longrightarrow> health (healths db' a) = health_spec db' c"
      "conf_ok db \<longrightarrow> conf_ok db'"
      using seq_comp_health_linked [OF l cr p(2), of d] by blast
    have rt: "runtime db db'" by (rule quiet_runtime [OF db'(2)])
    have "health_right db' ob"
      using db'(4) p(1) ancestor_runtime [OF rt] runtimeD(1) [OF rt] runtime_reads(5) [OF rt]
      by (simp add: health_right_def)
    then show ?thesis using db' by blast
  qed
  have ob: "obj_of (base ob) = ob" by (simp add: base_def)
  show ?thesis
  proof (cases "i_last_result_count (inst db (base ob)) > 1")
    case True
    then show ?thesis using step [of 0] rule p(1)
      by (simp add: seq_rule_result_on_health_def instance_validate_linked [OF l] val ob Let_def) blast
  next
    case False
    then have eq: "seq_rule_result_on_health (base ob) r db =
        (case r of RESULT_PASS \<Rightarrow> seq_comp_health p (r_severity rule) db
         | RESULT_FAIL \<Rightarrow> seq_comp_health p (- r_severity rule) db | _ \<Rightarrow> Some db)"
      using rule p(1)
      by (simp add: seq_rule_result_on_health_def instance_validate_linked [OF l] val ob Let_def cong: result.case_cong)
    show ?thesis unfolding eq
      using step [of "r_severity rule"] step [of "- r_severity rule"] by (cases r) auto
  qed
qed

lemma rule_switch_keeps:
  "inst_id (snd (rule_switch db ref r res v i)) = inst_id i"
  "i_sched (snd (rule_switch db ref r res v i)) = i_sched i"
  "i_last_result (snd (rule_switch db ref r res v i)) = i_last_result i"
  by (simp_all add: rule_switch_def n_in_m_run_def Let_def inst_id_def split: operator.split option.split)

text \<open>A run of a valid rule returns the result of its operator and updates the health.\<close>

lemma rule_run_linked:
  assumes l: "linked db" and cr: "contained_ranked rank db" and va: "inst_valid db i TYPE_RULE"
  shows "\<exists>res db' rule. seq_rule_run i r v db = Some (res, db') \<and> quiet db db' \<and>
    rule_of db (obj_of i) = Some rule \<and> res = fst (rule_switch db i rule r v (inst db i)) \<and>
    (res = RESULT_PASS \<or> res = RESULT_FAIL \<longrightarrow> health_right db' (obj_of i))"
proof -
  have ov: "obj_valid db (Some (obj_of i)) TYPE_RULE" using va by (simp add: inst_valid_def)
  obtain rule where rule: "rule_of db (obj_of i) = Some rule" using obj_valid_rule [OF ov] by blast
  obtain res x where sw: "rule_switch db i rule r v (inst db i) = (res, x)" by fastforce
  define db1 where "db1 = upd_inst i (\<lambda>_. x) db"
  have "inst_id x = inst_id (inst db i) \<and> i_sched x = i_sched (inst db i)"
    using rule_switch_keeps(1,2) [of db i rule r v "inst db i"] sw by simp
  then have q1: "quiet db db1"
    by (simp add: db1_def quiet_def runtime_def upd_inst_def inst_def)
  then have l1: "linked db1" using l runtime_linked quiet_runtime by blast
  obtain db2 where db2: "seq_result_stats_update i res v db1 = Some db2" "quiet db1 db2"
    using result_stats_linked [OF l1] by blast
  have q2: "quiet db db2" by (rule quiet_trans [OF q1 db2(2)])
  have rt2: "runtime db db2" by (rule quiet_runtime [OF q2])
  have pre: "linked db2" "contained_ranked rank db2" "obj_valid db2 (Some (obj_of i)) TYPE_RULE"
    using l cr ov runtime_linked [OF rt2] contained_runtime [OF rt2] runtime_obj_valid [OF rt2] by simp_all
  obtain db3 where db3: "seq_rule_result_on_health (base (obj_of i)) res db2 = Some db3" "quiet db2 db3"
    "res = RESULT_PASS \<or> res = RESULT_FAIL \<longrightarrow> health_right db3 (obj_of i)"
    using result_on_health_linked [OF pre] by blast
  have "seq_rule_run i r v db = Some (res, db3)"
    using va rule sw db2(1) db3(1)
    by (simp add: seq_rule_run_def instance_validate_linked [OF l] db1_def)
  then show ?thesis using rule sw db3 quiet_trans [OF q2 db3(2)] by auto
qed

end
