(* ===== verification/Rci.thy ===== *)
theory Rci
  imports Depend SeqStats
begin

text \<open>
  Root cause identification (\<^verbatim>\<open>src/src/myrefl_rci.c\<close>, second half): the walk over the
  dependencies that applies a function to the rules above or below a rule, and the functions
  that decide which failing rule is the root cause. The recorders of the unit test harness
  (\<open>rci_ut_in_progress\<close>) are not modelled.

  A function that is mapped over the rules gets an instance and the database and answers a
  boolean. The list \<open>visited\<close> is the \<open>history\<close> the code allocates for a walk; the walk returns it
  together with the database.
\<close>

datatype rci_dir = RCI_MAP_PARENTS | RCI_MAP_COMP_PARENTS | RCI_MAP_CHILDREN | RCI_MAP_COMP_CHILDREN

type_synonym rci_fun = "iref \<Rightarrow> db \<Rightarrow> (bool \<times> db) option"

section \<open>The walk\<close>

text \<open>The list to walk and the direction to go on in; \<open>None\<close> is the internal error.\<close>

definition rci_dependencies :: "db \<Rightarrow> oid \<Rightarrow> rci_dir \<Rightarrow> oid list option \<times> rci_dir" where
  "rci_dependencies db ob direction =
     (case direction of
        RCI_MAP_PARENTS \<Rightarrow>
          (case o_data (objs db ob) of
             DRule _ \<Rightarrow> (Some (o_parent_depend (objs db ob)), direction)
           | DNone \<Rightarrow> (Some (o_parent_depend (objs db ob)), direction)
           | DComp c \<Rightarrow> (Some (c_bottom_depend c), direction)
           | _ \<Rightarrow> (None, direction))
      | RCI_MAP_COMP_PARENTS \<Rightarrow>
          (case o_data (objs db ob) of
             DComp _ \<Rightarrow> (Some (o_parent_depend (objs db ob)), RCI_MAP_PARENTS)
           | _ \<Rightarrow> (None, direction))
      | RCI_MAP_CHILDREN \<Rightarrow>
          (case o_data (objs db ob) of
             DRule _ \<Rightarrow> (Some (o_child_depend (objs db ob)), direction)
           | DNone \<Rightarrow> (Some (o_child_depend (objs db ob)), direction)
           | DComp c \<Rightarrow> (Some (c_top_depend c), direction)
           | _ \<Rightarrow> (None, direction))
      | RCI_MAP_COMP_CHILDREN \<Rightarrow>
          (case o_data (objs db ob) of
             DComp _ \<Rightarrow> (Some (o_child_depend (objs db ob)), RCI_MAP_CHILDREN)
           | _ \<Rightarrow> (None, direction)))"

text \<open>The boundary of a component in a direction, and the direction that continues from it.\<close>

definition rci_boundary :: "obj_comp \<Rightarrow> rci_dir \<Rightarrow> oid list" where
  "rci_boundary c direction =
     (case direction of RCI_MAP_PARENTS \<Rightarrow> c_top_depend c | RCI_MAP_CHILDREN \<Rightarrow> c_bottom_depend c | _ \<Rightarrow> [])"

definition rci_outwards :: "rci_dir \<Rightarrow> rci_dir" where
  "rci_outwards direction =
     (if direction = RCI_MAP_PARENTS then RCI_MAP_COMP_PARENTS else RCI_MAP_COMP_CHILDREN)"

text \<open>\<open>if (default_state != answer) retval = !default_state\<close>\<close>

definition rci_note :: "bool \<Rightarrow> bool \<Rightarrow> bool \<Rightarrow> bool" where
  "rci_note default_state answer retval = (if default_state \<noteq> answer then \<not> default_state else retval)"

text \<open>The function is applied to the enabled ones of some instances.\<close>

definition rci_apply :: "rci_fun \<Rightarrow> bool \<Rightarrow> iref list \<Rightarrow> bool \<times> db \<Rightarrow> (bool \<times> db) option" where
  "rci_apply f default_state xs s =
     foldM (\<lambda>r (retval, db).
         if i_state (inst db r) = STATE_ENABLED then
           map_option (\<lambda>(answer, db). (rci_note default_state answer retval, db)) (f r db)
         else Some (retval, db)) xs s"

text \<open>Lines 942 to 973: a rule that was reached, by the instance with the name or by all.\<close>

definition rci_element ::
  "rci_fun \<Rightarrow> bool \<Rightarrow> name option \<Rightarrow> oid \<Rightarrow> bool \<times> db \<Rightarrow> (bool \<times> db) option" where
  "rci_element f default_state instance_name e s =
     (case s of (retval, db) \<Rightarrow>
       if type_of db e = TYPE_RULE then
         (if instance_name \<noteq> None \<and> o_members (objs db e) \<noteq> [] then
            Option.bind (myrefl_obj_instance_by_name (Some e) instance_name db) (\<lambda>(found, db).
              rci_apply f default_state (case found of None \<Rightarrow> [] | Some r \<Rightarrow> [r]) (retval, db))
          else rci_apply f default_state (all_instances db e) (retval, db))
       else Some (retval, db))"

partial_function (option) rci_map_function ::
  "iref \<Rightarrow> name option \<Rightarrow> rci_dir \<Rightarrow> rci_fun \<Rightarrow> bool \<Rightarrow> oid list \<Rightarrow> db \<Rightarrow> (bool \<times> oid list \<times> db) option" where
  "rci_map_function i instance_name direction f default_state visited db =
     (if i_state (inst db i) \<noteq> STATE_ENABLED then Some (default_state, visited, db)
      else Option.bind (myrefl_obj_instance_validate i TYPE_ANY db) (\<lambda>(ok, db).
        if \<not> ok then Some (default_state, visited, db)
        else
          (case rci_dependencies db (obj_of i) direction of
             (None, direction) \<Rightarrow> Some (\<not> default_state, visited, db)
           | (Some dependencies, direction) \<Rightarrow>
               Option.bind
                 (case o_parent_comp (objs db (obj_of i)) of
                    None \<Rightarrow> Some (default_state, visited, db)
                  | Some p \<Rightarrow>
                      Option.bind (comp_of db p) (\<lambda>c.
                        if obj_of i \<in> set (rci_boundary c direction) then
                          Option.bind (rci_map_function (base p) instance_name (rci_outwards direction) f
                              default_state visited db)
                            (\<lambda>(answer, visited, db).
                               Some (rci_note default_state answer default_state, visited, db))
                        else Some (default_state, visited, db)))
                 (\<lambda>s. foldM (\<lambda>e (retval, visited, db).
                    if e \<in> set visited then Some (retval, visited, db)
                    else
                      Option.bind (rci_element f default_state instance_name e (retval, db)) (\<lambda>(retval, db).
                        Option.bind (rci_map_function (base e) instance_name direction f default_state
                            (list_add e visited) db)
                          (\<lambda>(answer, visited, db).
                             Some (rci_note default_state answer retval, visited, db))))
                  dependencies s))))"

section \<open>The functions that are mapped\<close>

definition set_root_cause :: "root_cause \<Rightarrow> iref \<Rightarrow> db \<Rightarrow> db" where
  "set_root_cause rc i = upd_inst i (\<lambda>x. x\<lparr>i_root_cause := rc\<rparr>)"

definition rci_is_passed :: rci_fun where
  "rci_is_passed i db =
     Some (i_last_result (inst db i) = RESULT_PASS \<or> i_state (inst db i) \<noteq> STATE_ENABLED, db)"

definition rci_is_enabled :: rci_fun where
  "rci_is_enabled i db = Some (i_state (inst db i) = STATE_ENABLED, db)"

definition rci_not_rcc :: rci_fun where
  "rci_not_rcc i db =
     Some (i_root_cause (inst db i) \<noteq> RC_CANDIDATE \<or> i_state (inst db i) \<noteq> STATE_ENABLED, db)"

definition rci_apply_propagate_rule_change :: "iref \<Rightarrow> result \<Rightarrow> rci_fun" where
  "rci_apply_propagate_rule_change rule_of_interest action i db =
     (if action = RESULT_PASS then
        (if i_last_result (inst db i) = RESULT_FAIL \<and> i_root_cause (inst db i) = RC_NOT then
           map_option (Pair True) (myrefl_sched_rule_immediate i (set_root_cause RC_CANDIDATE i db))
         else Some (True, db))
      else if action = RESULT_FAIL \<and> i \<noteq> rule_of_interest then
        (let db = (if i_root_cause (inst db i) = RC then set_root_cause RC_NOT i db else db)
         in if i_last_result (inst db i) = RESULT_PASS
            then map_option (Pair True) (myrefl_sched_rule_immediate i db)
            else Some (True, db))
      else Some (True, db))"

text \<open>The name of a member instance; a base instance stands for all.\<close>

definition member_name :: "db \<Rightarrow> iref \<Rightarrow> name option" where
  "member_name db i = (if myrefl_obj_is_member_instance i then Some (i_name (inst db i)) else None)"

definition rci_propagate_rule_change :: "iref \<Rightarrow> result \<Rightarrow> db \<Rightarrow> db option" where
  "rci_propagate_rule_change i action db =
     map_option (\<lambda>(_, _, db). db)
       (rci_map_function i (member_name db i) RCI_MAP_PARENTS (rci_apply_propagate_rule_change i action)
          True [] db)"

definition rci_determine_if_root_cause :: rci_fun where
  "rci_determine_if_root_cause i db =
     (if i_state (inst db i) \<noteq> STATE_ENABLED then Some (True, db)
      else if i_root_cause (inst db i) = RC_CANDIDATE \<and> i_last_result (inst db i) = RESULT_FAIL then do {
        (passing, _, db) \<leftarrow> rci_map_function i (member_name db i) RCI_MAP_CHILDREN rci_is_passed True [] db;
        if passing then do {
          (settled, _, db) \<leftarrow> rci_map_function i (member_name db i) RCI_MAP_CHILDREN rci_not_rcc True [] db;
          if settled then do {
            db \<leftarrow> rci_propagate_rule_change i RESULT_FAIL (set_root_cause RC i db);
            Some (True, myrefl_seq_from_root_cause i db) }
          else Some (True, db) }
        else Some (True, set_root_cause RC_NOT i db) }
      else Some (True, db))"

section \<open>The walk is monotone in the function\<close>

text \<open>A mapped function that returns more often makes the walk return more often.\<close>

lemma rci_apply_mono:
  assumes "\<And>i db y. f i db = Some y \<Longrightarrow> g i db = Some y" and "rci_apply f d xs s = Some t"
  shows "rci_apply g d xs s = Some t"
  using assms(2) unfolding rci_apply_def
  by (rule foldM_mono [rotated]) (force split: if_splits dest: assms(1))

lemma rci_element_mono:
  assumes "\<And>i db y. f i db = Some y \<Longrightarrow> g i db = Some y" and "rci_element f d nm e s = Some t"
  shows "rci_element g d nm e s = Some t"
  using assms(2) unfolding rci_element_def
  by (auto split: if_splits prod.splits bind_splits simp: bind_eq_Some_conv
      intro: rci_apply_mono [of f g, OF assms(1)])

lemma rci_map_mono_step:
  assumes "(if i_state (inst db i) \<noteq> STATE_ENABLED then Some (d, v, db)
      else Option.bind (myrefl_obj_instance_validate i TYPE_ANY db) (\<lambda>(ok, db).
        if \<not> ok then Some (d, v, db)
        else
          (case rci_dependencies db (obj_of i) dir of
             (None, direction) \<Rightarrow> Some (\<not> d, v, db)
           | (Some dependencies, direction) \<Rightarrow>
               Option.bind
                 (case o_parent_comp (objs db (obj_of i)) of
                    None \<Rightarrow> Some (d, v, db)
                  | Some p \<Rightarrow>
                      Option.bind (comp_of db p) (\<lambda>c.
                        if obj_of i \<in> set (rci_boundary c direction) then
                          Option.bind (rec (base p) nm (rci_outwards direction) f d v db)
                            (\<lambda>(answer, visited, db). Some (rci_note d answer d, visited, db))
                        else Some (d, v, db)))
                 (foldM (\<lambda>e (retval, visited, db).
                    if e \<in> set visited then Some (retval, visited, db)
                    else
                      Option.bind (rci_element f d nm e (retval, db)) (\<lambda>(retval, db).
                        Option.bind (rec (base e) nm direction f d (list_add e visited) db)
                          (\<lambda>(answer, visited, db).
                             Some (rci_note d answer retval, visited, db))))
                  dependencies)))) = Some r"
    and "\<And>i nm dir d v db r. rec i nm dir f d v db = Some r \<Longrightarrow>
      rci_map_function i nm dir g d v db = Some r"
    and "\<forall>i db y. f i db = Some y \<longrightarrow> g i db = Some y"
  shows "rci_map_function i nm dir g d v db = Some r"
proof -
  note rec = assms(2) and fg = assms(3) [rule_format]
  show ?thesis
  proof (cases "i_state (inst db i) \<noteq> STATE_ENABLED")
    case True
    then have "Some r = Some (d, v, db)" using assms(1) by auto
    then show ?thesis using True by (subst rci_map_function.simps) auto
  next
    case False
    with assms(1) obtain ok db1 where val: "myrefl_obj_instance_validate i TYPE_ANY db = Some (ok, db1)"
      by (auto simp: bind_eq_Some_conv)
    obtain ds dir1 where deps: "rci_dependencies db1 (obj_of i) dir = (ds, dir1)" by fastforce
    show ?thesis
    proof (cases "\<not> ok \<or> ds = None")
      case True
      then show ?thesis using assms(1) False val deps by (subst rci_map_function.simps) auto
    next
      case ok: False
      then obtain xs where xs: "ds = Some xs" by auto
      let ?up = "\<lambda>R. case o_parent_comp (objs db1 (obj_of i)) of None \<Rightarrow> Some (d, v, db1)
        | Some p \<Rightarrow> Option.bind (comp_of db1 p) (\<lambda>c. if obj_of i \<in> set (rci_boundary c dir1) then
            Option.bind (R (base p) (rci_outwards dir1) v db1)
              (\<lambda>(answer, v, db). Some (rci_note d answer d, v, db)) else Some (d, v, db1))"
      let ?loop = "\<lambda>R f. foldM (\<lambda>e (retval, v, db). if e \<in> set v then Some (retval, v, db)
        else Option.bind (rci_element f d nm e (retval, db)) (\<lambda>(retval, db).
          Option.bind (R (base e) dir1 (list_add e v) db)
            (\<lambda>(answer, v, db). Some (rci_note d answer retval, v, db)))) xs"
      let ?rec = "\<lambda>i dir. rec i nm dir f d" and ?new = "\<lambda>i dir. rci_map_function i nm dir g d"
      obtain s where up: "?up ?rec = Some s" and loop: "?loop ?rec f s = Some r"
        using assms(1) False val deps ok xs by (auto simp: bind_eq_Some_conv)
      have "?up ?new = Some s"
        using up by (auto split: option.splits if_splits simp: bind_eq_Some_conv dest!: rec)
      moreover have "?loop ?new g s = Some r"
      proof (rule foldM_mono [rotated, OF loop])
        fix e s1 t
        assume t: "(case s1 of (retval, v, db) \<Rightarrow> if e \<in> set v then Some (retval, v, db)
          else Option.bind (rci_element f d nm e (retval, db)) (\<lambda>(retval, db).
            Option.bind (?rec (base e) dir1 (list_add e v) db)
              (\<lambda>(answer, v, db). Some (rci_note d answer retval, v, db)))) = Some t"
        obtain ret v1 db2 where s1: "s1 = (ret, v1, db2)" by (cases s1)
        show "(case s1 of (retval, v, db) \<Rightarrow> if e \<in> set v then Some (retval, v, db)
          else Option.bind (rci_element g d nm e (retval, db)) (\<lambda>(retval, db).
            Option.bind (?new (base e) dir1 (list_add e v) db)
              (\<lambda>(answer, v, db). Some (rci_note d answer retval, v, db)))) = Some t"
        proof (cases "e \<in> set v1")
          case False
          with t s1 obtain ret3 db3 w where
            el: "rci_element f d nm e (ret, db2) = Some (ret3, db3)"
            and w: "?rec (base e) dir1 (list_add e v1) db3 = Some w"
            and tw: "t = (case w of (answer, v, db) \<Rightarrow> (rci_note d answer ret3, v, db))"
            by (auto simp: bind_eq_Some_conv)
          show ?thesis
            using False s1 rci_element_mono [of f g, OF fg el] rec [OF w] tw by (cases w) simp
        qed (insert t s1, cases t, simp)
      qed
      ultimately show ?thesis using False val deps ok xs by (subst rci_map_function.simps) simp
    qed
  qed
qed

lemma rci_map_mono:
  assumes "rci_map_function i nm dir f d v db = Some r"
    and "\<And>i db y. f i db = Some y \<Longrightarrow> g i db = Some y"
  shows "rci_map_function i nm dir g d v db = Some r"
proof -
  let ?P = "\<lambda>i nm dir f d v db r. (\<forall>i db y. f i db = Some y \<longrightarrow> g i db = Some y) \<longrightarrow>
    rci_map_function i nm dir g d v db = Some r"
  have "?P i nm dir f d v db r"
  proof (rule rci_map_function.raw_induct [where P = ?P, OF _ assms(1)], rule impI, goal_cases)
    case (1 rec i nm dir f d v db r)
    show ?case by (rule rci_map_mono_step [where rec = rec and f = f]) (use 1 in blast)+
  qed
  then show ?thesis using assms(2) by blast
qed

text \<open>So a function may be defined by recursion through the walk.\<close>

lemma rci_map_function_mono [partial_function_mono]:
  assumes "\<And>i db. mono_option (\<lambda>F. G F i db)"
  shows "mono_option (\<lambda>F. rci_map_function i nm dir (G F) d v db)"
proof (rule monotoneI)
  fix x y :: "'a \<Rightarrow> 'b option"
  assume le: "option.le_fun x y"
  have "G y i db = Some r" if "G x i db = Some r" for i db r
    using assms [of i db, THEN monotoneD, OF le] that by (simp add: flat_ord_def)
  then show "option_ord (rci_map_function i nm dir (G x) d v db) (rci_map_function i nm dir (G y) d v db)"
    using rci_map_mono [of i nm dir "G x" d v db _ "G y"]
    by (cases "rci_map_function i nm dir (G x) d v db") (force simp: flat_ord_def)+
qed

section \<open>A new analysis\<close>

text \<open>The two functions that mark and retest what is below a failing rule call each other.\<close>

partial_function (option) rci_schedule_dependent_rules :: rci_fun where
  "rci_schedule_dependent_rules i db =
     Option.bind
       (rci_map_function i (member_name db i) RCI_MAP_CHILDREN
          (\<lambda>r db.
             if i_last_result (inst db r) = RESULT_PASS then
               (if i_root_cause (inst db r) \<noteq> RC_CANDIDATE then
                  Option.bind (rci_schedule_dependent_rules r db) (\<lambda>(mark, db).
                    map_option (Pair mark) (myrefl_sched_rule_immediate r db))
                else Some (True, db))
             else Some (False, db))
          True [] db)
       (\<lambda>(mark, _, db). Some (mark, set_root_cause (if mark then RC_CANDIDATE else RC_NOT) i db))"

definition rci_schedule_dependent_rules_guts :: rci_fun where
  "rci_schedule_dependent_rules_guts r db =
     (if i_last_result (inst db r) = RESULT_PASS then
        (if i_root_cause (inst db r) \<noteq> RC_CANDIDATE then
           Option.bind (rci_schedule_dependent_rules r db) (\<lambda>(mark, db).
             map_option (Pair mark) (myrefl_sched_rule_immediate r db))
         else Some (True, db))
      else Some (False, db))"

lemma rci_schedule_dependent_rules_unfold:
  "rci_schedule_dependent_rules i db =
     Option.bind (rci_map_function i (member_name db i) RCI_MAP_CHILDREN
          rci_schedule_dependent_rules_guts True [] db)
       (\<lambda>(mark, _, db). Some (mark, set_root_cause (if mark then RC_CANDIDATE else RC_NOT) i db))"
  by (subst rci_schedule_dependent_rules.simps)
    (simp add: rci_schedule_dependent_rules_guts_def [abs_def])

section \<open>Reports\<close>

definition rci_handle_passed_rule_status_report :: "iref \<Rightarrow> bool \<Rightarrow> db \<Rightarrow> db option" where
  "rci_handle_passed_rule_status_report i change_occurred db = do {
     let db = (if i_root_cause (inst db i) = RC_CANDIDATE \<or> i_root_cause (inst db i) = RC
               then set_root_cause RC_NOT i db else db);
     (_, _, db) \<leftarrow> rci_map_function i (member_name db i) RCI_MAP_PARENTS rci_determine_if_root_cause True [] db;
     if change_occurred then rci_propagate_rule_change i RESULT_PASS db else Some db }"

definition rci_handle_failed_rule_status_report :: "iref \<Rightarrow> bool \<Rightarrow> db \<Rightarrow> db option" where
  "rci_handle_failed_rule_status_report i change_occurred db =
     (if i_root_cause (inst db i) = RC then Some db
      else if i_root_cause (inst db i) = RC_CANDIDATE then
        map_option snd (rci_determine_if_root_cause i db)
      else do {
        (children, _, db) \<leftarrow> rci_map_function i None RCI_MAP_CHILDREN rci_is_enabled False [] db;
        if children then map_option snd (rci_schedule_dependent_rules i db)
        else do {
          db \<leftarrow> rci_propagate_rule_change i RESULT_FAIL (set_root_cause RC i db);
          Some (myrefl_seq_from_root_cause i db) }})"

definition myrefl_rci_run :: "iref \<Rightarrow> result \<Rightarrow> db \<Rightarrow> db option" where
  "myrefl_rci_run i r db = do {
     (ok, db) \<leftarrow> myrefl_obj_validate (Some (obj_of i)) TYPE_RULE db;
     if \<not> ok then Some db
     else if r = RESULT_ABORT then
       (if i_last_result_count (inst db i) > 3 then
          (if i_root_cause (inst db i) = RC_CANDIDATE
           then rci_handle_passed_rule_status_report i True db else Some db)
        else if i_root_cause (inst db i) = RC_CANDIDATE then myrefl_sched_rule_immediate i db
        else Some db)
     else
       let change_occurred = (i_last_result_count (inst db i) = 1)
       in if change_occurred \<or> i_root_cause (inst db i) = RC_CANDIDATE then
            (if r = RESULT_PASS then rci_handle_passed_rule_status_report i change_occurred db
             else rci_handle_failed_rule_status_report i change_occurred db)
          else Some db }"

definition myrefl_rci_rule_deleted :: "iref \<Rightarrow> db \<Rightarrow> db option" where
  "myrefl_rci_rule_deleted i db =
     (if i_root_cause (inst db i) = RC \<or> i_root_cause (inst db i) = RC_CANDIDATE \<or>
         i_last_result (inst db i) = RESULT_FAIL then
        map_option (\<lambda>(_, _, db). db)
          (rci_map_function i (member_name db i) RCI_MAP_PARENTS rci_determine_if_root_cause True [] db)
      else Some db)"

end
