(* ===== verification/ObjDelete.thy ===== *)
theory ObjDelete
  imports Contain Rci
begin

text \<open>
  Deletion in \<^verbatim>\<open>src/src/myrefl_obj.c\<close>: an object is marked as deleted, taken out of its component, of
  the dependencies, of the chains of its inputs and of the lists of its actions, and queued for
  the garbage collector, which frees what no client function uses any more. Also here: the
  instances of an object and the states of everything a test triggers.

  Freed memory is not modelled as such; the collector returns the instances it frees.
\<close>

section \<open>Chains of rules\<close>

definition next_rule :: "db \<Rightarrow> oid \<Rightarrow> oid option" where
  "next_rule db r = Option.bind (rule_of db r) r_next_in_input"

definition set_next_rule :: "oid \<Rightarrow> oid option \<Rightarrow> db \<Rightarrow> db" where
  "set_next_rule r v = set_rule r (\<lambda>x. x\<lparr>r_next_in_input := v\<rparr>)"

text \<open>Writing through the pointer that \<open>get_head_output_rule\<close> returns: the head of the chain of rules
  an input triggers. Reading it is \<open>input_head\<close>.\<close>

definition set_input_head :: "oid \<Rightarrow> oid option \<Rightarrow> db \<Rightarrow> db" where
  "set_input_head x v db =
     (case o_data (objs db x) of
        DTest _ \<Rightarrow> set_test x (\<lambda>t. t\<lparr>t_rule := v\<rparr>) db
      | DRule _ \<Rightarrow> set_rule x (\<lambda>r. r\<lparr>r_output := v\<rparr>) db
      | DNone \<Rightarrow> upd_obj x (\<lambda>ob. ob\<lparr>o_ref_rule := v\<rparr>) db
      | _ \<Rightarrow> db)"

text \<open>\<open>while (rule) { myrefl_list_remove(rule->inputs, ob); rule = rule->next_in_input; }\<close>\<close>

partial_function (option) leave_inputs :: "oid \<Rightarrow> oid option \<Rightarrow> db \<Rightarrow> db option" where
  "leave_inputs ob rule db =
     (case rule of
        None \<Rightarrow> Some db
      | Some r \<Rightarrow> Option.bind (rule_of db r) (\<lambda>x.
          leave_inputs ob (r_next_in_input x) (set_rule r (\<lambda>x. x\<lparr>r_inputs := remove1 ob (r_inputs x)\<rparr>) db)))"

text \<open>The search of a rule along a chain, which takes it out after its predecessor.\<close>

partial_function (option) unchain :: "oid \<Rightarrow> oid option \<Rightarrow> db \<Rightarrow> db option" where
  "unchain rule rule2 db =
     (case rule2 of
        None \<Rightarrow> Some db
      | Some r \<Rightarrow> Option.bind (rule_of db r) (\<lambda>x.
          case r_next_in_input x of
            None \<Rightarrow> Some db
          | Some n \<Rightarrow>
              if n = rule then Some (set_next_rule r (next_rule db rule) db) else unchain rule (Some n) db))"

definition unlink_input :: "oid \<Rightarrow> oid \<Rightarrow> db \<Rightarrow> db option" where
  "unlink_input rule x db =
     (case input_head db x of
        None \<Rightarrow> Some db
      | Some h \<Rightarrow>
          let db = (if h = Some rule then set_next_rule rule None (set_input_head x (next_rule db rule) db) else db)
          in unchain rule h db)"

text \<open>The walk over the rules that this rule feeds. It is meant to take the rule out of their inputs,
  but looks for the rule block in lists of objects, so it changes nothing.\<close>

partial_function (option) walk_outputs :: "oid option \<Rightarrow> db \<Rightarrow> db option" where
  "walk_outputs rule db =
     (case rule of
        None \<Rightarrow> Some db
      | Some r \<Rightarrow> Option.bind (rule_of db r) (\<lambda>x. walk_outputs (r_next_in_input x) db))"

section \<open>Unlinking and deleting\<close>

definition unlink_depend :: "oid \<Rightarrow> db \<Rightarrow> db" where
  "unlink_depend ob db =
     (let db = fold (\<lambda>p. upd_obj p (\<lambda>x. x\<lparr>o_child_depend := remove1 ob (o_child_depend x)\<rparr>))
                 (o_parent_depend (objs db ob)) db
      in fold (\<lambda>c. upd_obj c (\<lambda>x. x\<lparr>o_parent_depend := remove1 ob (o_parent_depend x)\<rparr>))
           (o_child_depend (objs db ob)) db)"

definition unlink_test :: "oid \<Rightarrow> obj_test \<Rightarrow> db \<Rightarrow> db option" where
  "unlink_test ob t db =
     map_option (set_test ob (\<lambda>t. t\<lparr>t_rule := None\<rparr>))
       (leave_inputs ob (t_rule t) (myrefl_sched_remove_test (base ob) db))"

definition unlink_action :: "oid \<Rightarrow> obj_action \<Rightarrow> db \<Rightarrow> db" where
  "unlink_action ob a db =
     fold (\<lambda>r db. set_rule r (\<lambda>x. x\<lparr>r_action_list := remove1 ob (r_action_list x)\<rparr>)
         (set_action ob (\<lambda>a. a\<lparr>a_rule_list := tl (a_rule_list a)\<rparr>) db))
       (a_rule_list a) db"

definition unlink_rule :: "oid \<Rightarrow> obj_rule \<Rightarrow> db \<Rightarrow> db option" where
  "unlink_rule ob r db = do {
     db \<leftarrow> foldM (unlink_input ob) (r_inputs r) db;
     let db = set_rule ob (\<lambda>r. r\<lparr>r_inputs := []\<rparr>) db;
     r \<leftarrow> rule_of db ob;
     db \<leftarrow> walk_outputs (r_output r) db;
     let db = set_rule ob (\<lambda>r. r\<lparr>r_output := None\<rparr>) db;
     foldM (\<lambda>a db.
         let db = set_rule ob (\<lambda>r. r\<lparr>r_action_list := tl (r_action_list r)\<rparr>) db
         in Option.bind (action_of db a) (\<lambda>_.
              Some (set_action a (\<lambda>x. x\<lparr>a_rule_list := remove1 ob (a_rule_list x)\<rparr>) db)))
       (r_action_list r) db }"

text \<open>\<open>while ((obj = comp_get_next_any(delete_obj, comp)) != NULL)\<close>\<close>

partial_function (option) empty_comp :: "oid \<Rightarrow> db \<Rightarrow> db option" where
  "empty_comp ob db =
     Option.bind (comp_of db ob) (\<lambda>c.
       case comp_get_next_any db ob c of
         None \<Rightarrow> Some db
       | Some x \<Rightarrow> Option.bind (system_comp db) (\<lambda>r.
           Option.bind (myrefl_api_comp_contains r x db) (empty_comp ob)))"

definition unlink_comp :: "(oid \<Rightarrow> db \<Rightarrow> db option) \<Rightarrow> oid \<Rightarrow> db \<Rightarrow> db option" where
  "unlink_comp del ob db = do {
     db \<leftarrow> empty_comp ob db;
     c \<leftarrow> comp_of db ob;
     foldM (\<lambda>t db. del t (set_comp ob (\<lambda>c. c\<lparr>c_interested := tl (c_interested c)\<rparr>) db)) (c_interested c) db }"

definition unlink_none :: "oid \<Rightarrow> db \<Rightarrow> db option" where
  "unlink_none ob db =
     map_option (upd_obj ob (\<lambda>x. x\<lparr>o_ref_rule := None\<rparr>)) (leave_inputs ob (o_ref_rule (objs db ob)) db)"

text \<open>\<open>unlink_obj_instance\<close> for the base instance and for a member.\<close>

definition unlink_base :: "(oid \<Rightarrow> db \<Rightarrow> db option) \<Rightarrow> oid \<Rightarrow> db \<Rightarrow> db option" where
  "unlink_base del ob db =
     (let db = unlink_depend ob (myrefl_obj_unlink_from_comp ob db)
      in case o_data (objs db ob) of
           DTest t \<Rightarrow> unlink_test ob t db
         | DAction a \<Rightarrow> Some (unlink_action ob a db)
         | DRule r \<Rightarrow> unlink_rule ob r db
         | DComp _ \<Rightarrow> unlink_comp del ob db
         | DNone \<Rightarrow> unlink_none ob db)"

lemma unlink_comp_mono [partial_function_mono]:
  assumes "\<And>t s. mono_option (\<lambda>f. F f t s)"
  shows "mono_option (\<lambda>f. unlink_comp (F f) ob db)"
  unfolding unlink_comp_def by (intro partial_function_mono assms)

lemma unlink_base_mono [partial_function_mono]:
  assumes "\<And>t s. mono_option (\<lambda>f. F f t s)"
  shows "mono_option (\<lambda>f. unlink_base (F f) ob db)"
proof -
  have "mono_option (\<lambda>f. unlink_comp (F f) ob db)" for db by (rule unlink_comp_mono [OF assms])
  then show ?thesis
    by (cases "o_data (objs (unlink_depend ob (myrefl_obj_unlink_from_comp ob db)) ob)")
      (simp_all add: unlink_base_def Let_def monotone_def option.leq_refl)
qed

definition unlink_member :: "iref \<Rightarrow> db \<Rightarrow> db" where
  "unlink_member i = upd_obj (obj_of i) (\<lambda>x. x\<lparr>o_members := remove1 (index_of i) (o_members x)\<rparr>)"

definition push_freeme :: "iref \<Rightarrow> db \<Rightarrow> db" where
  "push_freeme i db = db\<lparr>freeme := freeme db @ [i]\<rparr>"

definition rule_deleted :: "iref \<Rightarrow> db \<Rightarrow> db option" where
  "rule_deleted i db = (if type_of db (obj_of i) = TYPE_RULE then myrefl_rci_rule_deleted i db else Some db)"

definition myrefl_obj_instance_delete :: "iref \<Rightarrow> db \<Rightarrow> db option" where
  "myrefl_obj_instance_delete i db =
     (if i = base (obj_of i) then Some db
      else map_option (\<lambda>db. push_freeme i (unlink_member i db))
             (rule_deleted i (upd_inst i (\<lambda>x. x\<lparr>i_state := STATE_DELETED\<rparr>) db)))"

partial_function (option) myrefl_obj_delete :: "oid \<Rightarrow> db \<Rightarrow> db option" where
  "myrefl_obj_delete ob db =
     (let db = upd_inst (base ob) (\<lambda>x. x\<lparr>i_state := STATE_DELETED\<rparr>) db in
      Option.bind (foldM (\<lambda>k. myrefl_obj_instance_delete (IRef ob k)) (o_members (objs db ob)) db) (\<lambda>db.
      Option.bind (rule_deleted (base ob) db) (\<lambda>db.
      Option.bind (unlink_base myrefl_obj_delete ob db) (\<lambda>db.
      Some (push_freeme (base ob) db)))))"

definition myrefl_obj_delete_by_name :: "name option \<Rightarrow> obj_type \<Rightarrow> db \<Rightarrow> (bool \<times> db) option" where
  "myrefl_obj_delete_by_name n type db =
     Option.bind (myrefl_obj_get_by_name db n type) (\<lambda>p.
       case p of
         None \<Rightarrow> Some (False, db)
       | Some ob \<Rightarrow> map_option (\<lambda>db. (True, db)) (myrefl_obj_delete ob db))"

section \<open>Instances\<close>

text \<open>A new member goes to the front of the list. Its index is new.\<close>

definition myrefl_obj_instance_create :: "oid \<Rightarrow> name \<Rightarrow> db \<Rightarrow> iref \<times> db" where
  "myrefl_obj_instance_create ob n db =
     (let k = next_oid db; i = IRef ob k;
          db = db\<lparr>next_oid := Suc k\<rparr>;
          db = upd_inst i (\<lambda>_. zero_instance\<lparr>i_name := n, i_state := STATE_ALLOCATED,
                 i_cli_state := STATE_INITIALIZED\<rparr>) db
      in (i, upd_obj ob (\<lambda>x. x\<lparr>o_members := k # o_members x\<rparr>) db))"

section \<open>The states of a test chain\<close>

definition chain_state :: "obj_state \<Rightarrow> obj_instance \<Rightarrow> obj_instance" where
  "chain_state state i =
     (if i_cli_state i \<noteq> STATE_INITIALIZED then i\<lparr>i_state := i_cli_state i\<rparr>
      else if i_state i \<noteq> STATE_INITIALIZED then
        (if i_default_state i = STATE_INITIALIZED then i\<lparr>i_state := state, i_default_state := state\<rparr>
         else i\<lparr>i_state := i_default_state i\<rparr>)
      else i)"

text \<open>The recursion for a pointer that may be \<open>NULL\<close>.\<close>

definition for_some :: "('a \<Rightarrow> db \<Rightarrow> db option) \<Rightarrow> 'a option \<Rightarrow> db \<Rightarrow> db option" where
  "for_some f p db = (case p of None \<Rightarrow> Some db | Some x \<Rightarrow> f x db)"

lemma for_some_mono [partial_function_mono]:
  assumes "\<And>x s. mono_option (\<lambda>f. F f x s)"
  shows "mono_option (\<lambda>f. for_some (F f) p db)"
  using assms by (cases p) (simp_all add: for_some_def monotone_def option.leq_refl)

definition chain_children :: "(oid \<Rightarrow> db \<Rightarrow> db option) \<Rightarrow> oid \<Rightarrow> db \<Rightarrow> db option" where
  "chain_children rec ob db =
     Option.bind (for_some rec (case o_data (objs db ob) of DTest t \<Rightarrow> t_rule t | DRule r \<Rightarrow> r_next_in_input r | _ \<Rightarrow> None) db) (\<lambda>db.
     Option.bind (foldM rec (case o_data (objs db ob) of DRule r \<Rightarrow> r_action_list r | _ \<Rightarrow> []) db) (\<lambda>db.
       for_some rec (case o_data (objs db ob) of DRule r \<Rightarrow> r_output r | _ \<Rightarrow> None) db))"

lemma chain_children_mono [partial_function_mono]:
  assumes "\<And>x s. mono_option (\<lambda>f. F f x s)"
  shows "mono_option (\<lambda>f. chain_children (F f) ob db)"
  unfolding chain_children_def by (intro partial_function_mono for_some_mono assms)

partial_function (option) myrefl_obj_chain_update_state :: "obj_state \<Rightarrow> oid \<Rightarrow> db \<Rightarrow> db option" where
  "myrefl_obj_chain_update_state state ob db =
     Option.bind (myrefl_obj_validate (Some ob) TYPE_ANY db) (\<lambda>(ok, db).
       if \<not> ok \<or> i_state (inst db (base ob)) = STATE_DELETED \<or> type_of db ob = TYPE_COMP \<or> type_of db ob = TYPE_NONE
       then Some db
       else Option.bind (chain_children (\<lambda>x. myrefl_obj_chain_update_state state x) ob db) (\<lambda>db.
         Some (fold (\<lambda>i. upd_inst i (chain_state state)) (all_instances db ob) db)))"

section \<open>The garbage collector\<close>

definition GARBAGE_QUEUE_RATE :: nat where "GARBAGE_QUEUE_RATE = 300"
definition GARBAGE_QUEUE_FLOOR :: nat where "GARBAGE_QUEUE_FLOOR = 30"

text \<open>What happens to one instance: it is freed, it goes back to the queue, or it is dropped.\<close>

definition gc_instance :: "iref \<Rightarrow> db \<Rightarrow> iref list \<times> db" where
  "gc_instance i db =
     (if i_state (inst db i) = STATE_DELETED then
        (if i_in_use (inst db i) \<noteq> 0 then ([], push_freeme i db) else ([i], db))
      else ([], db))"

primrec gc_loop :: "nat \<Rightarrow> db \<Rightarrow> bool \<times> iref list \<times> db" where
  "gc_loop 0 db = (False, [], db)"
| "gc_loop (Suc n) db =
     (case freeme db of
        [] \<Rightarrow> (True, [], db)
      | i # q \<Rightarrow>
          let (fr, db) = gc_instance i (db\<lparr>freeme := q\<rparr>); (done, fr', db) = gc_loop n db
          in (done, fr @ fr', db))"

definition process_freeme_queue :: "db \<Rightarrow> bool \<times> iref list \<times> db" where
  "process_freeme_queue db =
     gc_loop (max GARBAGE_QUEUE_FLOOR (length (freeme db) * 100 div GARBAGE_QUEUE_RATE)) db"

end
