(* ===== verification/RciWalk.thy ===== *)
theory RciWalk
  imports Rci
begin

text \<open>
  What \<open>rci_map_function\<close> does, without the recursion: the objects it reaches (\<open>rci_below\<close>), the
  order in which it visits rule instances (\<open>rci_visits\<close>), and the theorem that the walk is the
  loop over that order. The walk ends on every dependency graph, also on a cyclic one.
\<close>

section \<open>What lies below\<close>

definition norm_dir :: "rci_dir \<Rightarrow> rci_dir" where
  "norm_dir dir = (case dir of RCI_MAP_COMP_PARENTS \<Rightarrow> RCI_MAP_PARENTS
     | RCI_MAP_COMP_CHILDREN \<Rightarrow> RCI_MAP_CHILDREN | d \<Rightarrow> d)"

lemma norm_norm [simp]: "norm_dir (norm_dir dir) = norm_dir dir"
  by (cases dir) (simp_all add: norm_dir_def)

lemma norm_outwards: "norm_dir (rci_outwards (norm_dir dir)) = norm_dir dir"
  by (cases dir) (simp_all add: norm_dir_def rci_outwards_def)

text \<open>The walk goes on from an enabled, valid instance of an object with dependencies.\<close>

definition walks :: "db \<Rightarrow> iref \<Rightarrow> bool" where
  "walks db i \<longleftrightarrow> i_state (inst db i) = STATE_ENABLED \<and> inst_valid db i TYPE_ANY"

definition neighbours :: "db \<Rightarrow> iref \<Rightarrow> rci_dir \<Rightarrow> oid list option" where
  "neighbours db i dir = (if walks db i then fst (rci_dependencies db (obj_of i) dir) else Some [])"

text \<open>The next object: a neighbour, or a neighbour of a component on whose boundary we are.\<close>

inductive rci_next :: "db \<Rightarrow> iref \<Rightarrow> rci_dir \<Rightarrow> oid \<Rightarrow> bool" for db where
  next_here: "neighbours db i dir = Some ds \<Longrightarrow> e \<in> set ds \<Longrightarrow> rci_next db i dir e"
| next_out: "walks db i \<Longrightarrow> neighbours db i dir \<noteq> None \<Longrightarrow> o_parent_comp (objs db (obj_of i)) = Some p \<Longrightarrow>
    comp_of db p = Some c \<Longrightarrow> obj_of i \<in> set (rci_boundary c (norm_dir dir)) \<Longrightarrow>
    rci_next db (base p) (rci_outwards (norm_dir dir)) e \<Longrightarrow> rci_next db i dir e"

inductive_cases rci_nextE: "rci_next db i dir e"

inductive rci_below :: "db \<Rightarrow> iref \<Rightarrow> rci_dir \<Rightarrow> oid \<Rightarrow> bool" for db i dir where
  below_next: "rci_next db i dir e \<Longrightarrow> rci_below db i dir e"
| below_step: "rci_below db i dir y \<Longrightarrow> rci_next db (base y) (norm_dir dir) e \<Longrightarrow> rci_below db i dir e"

lemma below_trans:
  assumes "rci_below db i dir y" and "rci_below db (base y) (norm_dir dir) e"
  shows "rci_below db i dir e"
  using assms(2,1) by induction (auto intro: rci_below.intros)

text \<open>An object whose type has no dependencies is the internal error of the walk.\<close>

definition broken :: "db \<Rightarrow> iref \<Rightarrow> rci_dir \<Rightarrow> bool" where
  "broken db i dir \<longleftrightarrow> neighbours db i dir = None"

section \<open>The order of the visits\<close>

definition rule_targets :: "db \<Rightarrow> name option \<Rightarrow> oid \<Rightarrow> iref list" where
  "rule_targets db nm e =
     (if type_of db e \<noteq> TYPE_RULE then []
      else case nm of None \<Rightarrow> all_instances db e
      | Some n \<Rightarrow>
          if o_members (objs db e) = [] then all_instances db e
          else if obj_valid db (Some e) TYPE_ANY
               then (case find_member db e n of None \<Rightarrow> [] | Some r \<Rightarrow> [r]) else [])"

partial_function (option) rci_visits ::
  "db \<Rightarrow> name option \<Rightarrow> iref \<Rightarrow> rci_dir \<Rightarrow> oid list \<Rightarrow> (bool \<times> oid list \<times> iref list) option" where
  "rci_visits db nm i dir v =
     (case neighbours db i dir of
        None \<Rightarrow> Some (True, v, [])
      | Some ds \<Rightarrow>
          Option.bind
            (case o_parent_comp (objs db (obj_of i)) of
               None \<Rightarrow> Some (False, v, [])
             | Some p \<Rightarrow>
                 if \<not> walks db i then Some (False, v, [])
                 else Option.bind (comp_of db p) (\<lambda>c.
                   if obj_of i \<in> set (rci_boundary c (norm_dir dir))
                   then rci_visits db nm (base p) (rci_outwards (norm_dir dir)) v
                   else Some (False, v, [])))
            (\<lambda>s. foldM (\<lambda>e (err, v, xs).
                if e \<in> set v then Some (err, v, xs)
                else Option.bind (rci_visits db nm (base e) (norm_dir dir) (list_add e v)) (\<lambda>(err1, v1, ys).
                  Some (err \<or> err1, v1, xs @ rule_targets db nm e @ ys))) ds s))"

lemma foldM_prefix:
  assumes "P [] s"
    and "\<And>ys x zs s. xs = ys @ x # zs \<Longrightarrow> P ys s \<Longrightarrow> \<exists>t. f x s = Some t \<and> P (ys @ [x]) t"
  shows "\<exists>t. foldM f xs s = Some t \<and> P xs t"
proof -
  have "\<exists>t. foldM f ys s = Some t \<and> P ys t" if "xs = ys @ zs" for ys zs
    using that
  proof (induction ys arbitrary: zs rule: rev_induct)
    case (snoc y ys)
    then obtain t where "foldM f ys s = Some t" "P ys t" by (metis append_Cons append_assoc append_Nil)
    then show ?case using assms(2) [of ys y zs t] snoc.prems by (auto simp: foldM_append)
  qed (use assms(1) in simp)
  then show ?thesis by simp
qed

section \<open>The order covers what lies below\<close>

text \<open>The dependency lists name allocated objects.\<close>

definition depends_bounded :: "db \<Rightarrow> bool" where
  "depends_bounded db \<longleftrightarrow>
     (\<forall>ob dir ds e. fst (rci_dependencies db ob dir) = Some ds \<longrightarrow> e \<in> set ds \<longrightarrow> e < next_oid db)"

definition visits_right ::
  "db \<Rightarrow> name option \<Rightarrow> iref \<Rightarrow> rci_dir \<Rightarrow> oid list \<Rightarrow> bool \<times> oid list \<times> iref list \<Rightarrow> bool" where
  "visits_right db nm i dir v r \<longleftrightarrow> (case r of (err, v1, xs) \<Rightarrow>
     set v \<subseteq> set v1 \<and> (distinct v \<longrightarrow> distinct v1) \<and>
     (\<forall>e. rci_next db i dir e \<longrightarrow> e \<in> set v1) \<and>
     (\<forall>e \<in> set v1 - set v. rci_below db i dir e \<and>
        (\<forall>x. rci_next db (base e) (norm_dir dir) x \<longrightarrow> x \<in> set v1)) \<and>
     set xs = (\<Union>e \<in> set v1 - set v. set (rule_targets db nm e)) \<and>
     (err \<longleftrightarrow> broken db i dir \<or> (\<exists>e \<in> set v1 - set v. broken db (base e) (norm_dir dir))))"

lemma neighbours_bounded:
  "depends_bounded db \<Longrightarrow> neighbours db i dir = Some ds \<Longrightarrow> e \<in> set ds \<Longrightarrow> e < next_oid db"
  unfolding depends_bounded_def neighbours_def by (auto split: if_splits)

lemma not_broken_comp: "comp_of db p \<noteq> None \<Longrightarrow> \<not> broken db (base p) (rci_outwards dir)"
  by (auto simp: broken_def neighbours_def rci_dependencies_def rci_outwards_def comp_of_def base_def
      split: obj_data.splits if_splits)

text \<open>What holds in the loop over the neighbours after the ones in \<open>done\<close>.\<close>

definition loop_right ::
  "db \<Rightarrow> name option \<Rightarrow> iref \<Rightarrow> rci_dir \<Rightarrow> oid list \<Rightarrow> oid set \<Rightarrow> oid list \<Rightarrow> bool \<times> oid list \<times> iref list \<Rightarrow> bool"
  where
  "loop_right db nm i dir v out done r \<longleftrightarrow> (case r of (err, v1, xs) \<Rightarrow>
     set v \<subseteq> set v1 \<and> (distinct v \<longrightarrow> distinct v1) \<and> set done \<union> out \<subseteq> set v1 \<and>
     (\<forall>e \<in> set v1 - set v. rci_below db i dir e \<and>
        (\<forall>x. rci_next db (base e) (norm_dir dir) x \<longrightarrow> x \<in> set v1)) \<and>
     set xs = (\<Union>e \<in> set v1 - set v. set (rule_targets db nm e)) \<and>
     (err \<longleftrightarrow> (\<exists>e \<in> set v1 - set v. broken db (base e) (norm_dir dir))))"

lemma loop_right_step:
  assumes inv: "loop_right db nm i dir v out done (err, v1, xs)" and e: "rci_next db i dir e" "e \<notin> set v1"
    and rec: "visits_right db nm (base e) (norm_dir dir) (e # v1) (err1, v2, ys)"
  shows "loop_right db nm i dir v out (done @ [e]) (err \<or> err1, v2, xs @ rule_targets db nm e @ ys)"
proof -
  have sub: "set v \<subseteq> set v1" "insert e (set v1) \<subseteq> set v2"
    using inv rec by (auto simp: loop_right_def visits_right_def)
  have new: "set v2 - set v = (set v1 - set v) \<union> insert e (set v2 - insert e (set v1))"
    using sub e(2) by auto
  have below: "rci_below db i dir x" if "rci_below db (base e) (norm_dir dir) x" for x
    by (rule below_trans [OF below_next [OF e(1)] that])
  have "\<forall>x \<in> set v2 - set v. rci_below db i dir x \<and>
      (\<forall>z. rci_next db (base x) (norm_dir dir) z \<longrightarrow> z \<in> set v2)"
  proof
    fix x
    assume "x \<in> set v2 - set v"
    then consider "x \<in> set v1 - set v" | "x = e" | "x \<in> set v2 - set (e # v1)"
      using new by auto
    then show "rci_below db i dir x \<and> (\<forall>z. rci_next db (base x) (norm_dir dir) z \<longrightarrow> z \<in> set v2)"
    proof cases
      case 1
      then show ?thesis using inv sub by (auto simp: loop_right_def)
    next
      case 2
      then show ?thesis using rec below_next [OF e(1)] by (simp add: visits_right_def)
    next
      case 3
      then show ?thesis using rec below by (simp add: visits_right_def)
    qed
  qed
  moreover have "set (xs @ rule_targets db nm e @ ys) = (\<Union>x \<in> set v2 - set v. set (rule_targets db nm x))"
  proof -
    have "set ys = (\<Union>x \<in> set v2 - insert e (set v1). set (rule_targets db nm x))"
      using rec by (simp add: visits_right_def)
    moreover have "set xs = (\<Union>x \<in> set v1 - set v. set (rule_targets db nm x))"
      using inv by (simp add: loop_right_def)
    ultimately show ?thesis by (simp only: new UN_Un UN_insert set_append)
  qed
  moreover have "(err \<or> err1) \<longleftrightarrow> (\<exists>x \<in> set v2 - set v. broken db (base x) (norm_dir dir))"
  proof -
    have "err1 \<longleftrightarrow> broken db (base e) (norm_dir dir) \<or>
        (\<exists>x \<in> set v2 - insert e (set v1). broken db (base x) (norm_dir dir))"
      using rec by (simp add: visits_right_def)
    moreover have "err \<longleftrightarrow> (\<exists>x \<in> set v1 - set v. broken db (base x) (norm_dir dir))"
      using inv by (simp add: loop_right_def)
    ultimately show ?thesis by (simp only: new bex_Un bex_simps)
  qed
  moreover have "set v \<subseteq> set v2" "distinct v \<longrightarrow> distinct v2" "set (done @ [e]) \<union> out \<subseteq> set v2"
    using inv rec sub e(2) by (auto simp: loop_right_def visits_right_def)
  ultimately show ?thesis by (simp add: loop_right_def)
qed

lemma visits_exist:
  assumes cr: "contained_ranked rank db" and db: "depends_bounded db"
  shows "\<exists>r. rci_visits db nm i dir v = Some r \<and> visits_right db nm i dir v r"
proof (induction "card ({..<next_oid db} - set v)" arbitrary: i dir v rule: less_induct)
  case less
  note outer = less
  show ?case
  proof (induction "rank (obj_of i)" arbitrary: i dir rule: less_induct)
    case less
    let ?nd = "norm_dir dir"
    show ?case
    proof (cases "neighbours db i dir")
      case None
      then have "\<not> rci_next db i dir e" for e by (auto elim: rci_nextE)
      then show ?thesis using None
        by (subst rci_visits.simps) (auto simp: visits_right_def broken_def)
    next
      case (Some ds)
      define goes where "goes p c \<longleftrightarrow> walks db i \<and> o_parent_comp (objs db (obj_of i)) = Some p \<and>
        comp_of db p = Some c \<and> obj_of i \<in> set (rci_boundary c ?nd)" for p c
      define out where "out = {e. \<exists>p c. goes p c \<and> rci_next db (base p) (rci_outwards ?nd) e}"
      have next_iff: "rci_next db i dir e \<longleftrightarrow> e \<in> set ds \<or> e \<in> out" for e
        using Some by (auto simp: out_def goes_def elim: rci_nextE intro: rci_next.intros)
      let ?up = "case o_parent_comp (objs db (obj_of i)) of None \<Rightarrow> Some (False, v, [])
        | Some p \<Rightarrow> if \<not> walks db i then Some (False, v, [])
            else Option.bind (comp_of db p) (\<lambda>c. if obj_of i \<in> set (rci_boundary c ?nd)
              then rci_visits db nm (base p) (rci_outwards ?nd) v else Some (False, v, []))"
      have "\<exists>s. ?up = Some s \<and> loop_right db nm i dir v out [] s"
      proof (cases "\<exists>p c. goes p c")
        case False
        then have "out = {}" by (auto simp: out_def)
        moreover have "?up = Some (False, v, [])"
        proof (cases "o_parent_comp (objs db (obj_of i))")
          case (Some p)
          then have "comp_of db p \<noteq> None" using cr unfolding contained_ranked_def by blast
          then obtain c where "comp_of db p = Some c" by blast
          then show ?thesis using Some False by (simp add: goes_def)
        qed simp
        ultimately show ?thesis by (auto simp: loop_right_def)
      next
        case True
        then obtain p c where g: "goes p c" by blast
        then have "rank (obj_of (base p)) < rank (obj_of i)"
          using cr by (auto simp: goes_def contained_ranked_def base_def)
        from less.hyps [OF this, of "rci_outwards ?nd"]
        obtain r where r: "rci_visits db nm (base p) (rci_outwards ?nd) v = Some r"
          "visits_right db nm (base p) (rci_outwards ?nd) v r" by blast
        note nd = norm_outwards [of dir]
        have out: "out = {e. rci_next db (base p) (rci_outwards ?nd) e}"
          using g by (auto simp: out_def goes_def)
        have below: "rci_below db i dir x" if "rci_below db (base p) (rci_outwards ?nd) x" for x
          using that
        proof induction
          case (below_next e)
          then show ?case using next_iff out by (auto intro: rci_below.below_next)
        qed (auto simp: nd intro: rci_below.below_step)
        have "\<not> broken db (base p) (rci_outwards ?nd)" using g by (intro not_broken_comp) (simp add: goes_def)
        then have "loop_right db nm i dir v out [] r"
          using r(2) below by (auto simp: loop_right_def visits_right_def nd out)
        moreover have "?up = Some r" using g r(1) by (simp add: goes_def)
        ultimately show ?thesis by blast
      qed
      then obtain s where s: "?up = Some s" "loop_right db nm i dir v out [] s" by blast
      obtain t where t: "foldM (\<lambda>e (err, v, xs).
                if e \<in> set v then Some (err, v, xs)
                else Option.bind (rci_visits db nm (base e) ?nd (list_add e v)) (\<lambda>(err1, v1, ys).
                  Some (err \<or> err1, v1, xs @ rule_targets db nm e @ ys))) ds s = Some t"
          "loop_right db nm i dir v out ds t"
      proof (atomize_elim, rule foldM_prefix, rule s(2))
        fix ys e zs t
        assume dss: "ds = ys @ e # zs" and inv: "loop_right db nm i dir v out ys t"
        obtain err v1 xs where t: "t = (err, v1, xs)" by (cases t)
        have sub: "set v \<subseteq> set v1" using inv t by (simp add: loop_right_def)
        have e: "rci_next db i dir e" using next_iff dss by simp
        have bnd: "e < next_oid db" by (rule neighbours_bounded [OF db Some]) (simp add: dss)
        show "\<exists>u. (case t of (err, v, xs) \<Rightarrow> if e \<in> set v then Some (err, v, xs)
                else Option.bind (rci_visits db nm (base e) ?nd (list_add e v)) (\<lambda>(err1, v1, ys).
                  Some (err \<or> err1, v1, xs @ rule_targets db nm e @ ys))) = Some u \<and>
             loop_right db nm i dir v out (ys @ [e]) u"
        proof (cases "e \<in> set v1")
          case True
          then show ?thesis using inv t by (auto simp: loop_right_def)
        next
          case False
          have "card ({..<next_oid db} - set (e # v1)) < card ({..<next_oid db} - set v)"
            using False bnd sub by (intro psubset_card_mono) auto
          from outer [OF this, of "base e" ?nd] obtain err1 v2 zs1 where
            "rci_visits db nm (base e) ?nd (e # v1) = Some (err1, v2, zs1)"
            "visits_right db nm (base e) ?nd (e # v1) (err1, v2, zs1)" by auto
          with False t inv e show ?thesis
            using loop_right_step [of db nm i dir v out ys err v1 xs e err1 v2 zs1]
            by (simp add: list_add_def)
        qed
      qed
      have "rci_visits db nm i dir v = Some t"
        by (subst rci_visits.simps) (simp only: Some option.case s(1) bind.bind_lunit t(1))
      moreover
      have "visits_right db nm i dir v t"
        using t(2) Some next_iff by (auto simp: visits_right_def loop_right_def broken_def)
      ultimately show ?thesis by blast
    qed
  qed
qed

section \<open>The walk is the loop over the visits\<close>

lemma rci_apply_append:
  "rci_apply f d (xs @ ys) s = Option.bind (rci_apply f d xs s) (rci_apply f d ys)"
  unfolding rci_apply_def [abs_def] foldM_append ..

lemma rci_note_simps: "rci_note d a d = a" "rci_note d a (\<not> d) = (\<not> d)" "rci_note d (\<not> d) b = (\<not> d)"
  by (auto simp: rci_note_def)

lemma rci_note_assoc: "rci_note d (rci_note d a b) c = rci_note d a (rci_note d b c)"
  by (auto simp: rci_note_def)

text \<open>The answer collected so far is noted at the end.\<close>

lemma rci_apply_start:
  "rci_apply f d xs (ret, db) = map_option (\<lambda>(a, db). (rci_note d a ret, db)) (rci_apply f d xs (d, db))"
proof (induction xs arbitrary: ret db)
  case Nil
  then show ?case by (simp add: rci_apply_def rci_note_def)
next
  case (Cons r xs)
  have step: "rci_apply f d (r # xs) (ret, db) =
      (if i_state (inst db r) = STATE_ENABLED then
         Option.bind (f r db) (\<lambda>(answer, db). rci_apply f d xs (rci_note d answer ret, db))
       else rci_apply f d xs (ret, db))" for ret
    by (cases "f r db") (auto simp: rci_apply_def)
  show ?case
  proof (cases "i_state (inst db r) = STATE_ENABLED")
    case True
    show ?thesis
    proof (cases "f r db")
      case (Some p)
      obtain a db1 where p: "p = (a, db1)" by (cases p)
      have "rci_apply f d xs (rci_note d a ret, db1) =
          map_option (\<lambda>(b, db). (rci_note d b ret, db)) (rci_apply f d xs (a, db1))"
        unfolding Cons.IH [of "rci_note d a ret"] Cons.IH [of a]
        by (simp add: option.map_comp comp_def case_prod_unfold rci_note_assoc)
      then show ?thesis using True Some p by (simp add: step rci_note_simps)
    qed (use True in \<open>simp add: step\<close>)
  next
    case False
    then show ?thesis using Cons.IH [of ret db] by (simp add: step)
  qed
qed

lemma rci_apply_keeps:
  assumes "\<And>r db b db'. K db \<Longrightarrow> f r db = Some (b, db') \<Longrightarrow> K db'"
    and "rci_apply f d xs (ret, db) = Some (b, db')" and "K db"
  shows "K db'"
proof -
  have "K (snd (b, db'))"
    by (rule foldM_inv [where P = "\<lambda>s. K (snd s)", OF assms(2) [unfolded rci_apply_def]])
      (use assms(1,3) in \<open>auto split: if_splits\<close>)
  then show ?thesis by simp
qed

lemma rci_element_targets:
  assumes "linked db0" and rt: "runtime db0 db"
  shows "rci_element f d nm e (ret, db) = rci_apply f d (rule_targets db0 nm e) (ret, db)"
proof -
  have l: "linked db" using assms runtime_linked by blast
  note r = runtime_reads [OF rt] runtimeD(1) [OF rt] runtime_obj_valid [OF rt]
  show ?thesis
    by (auto simp: rci_element_def rule_targets_def r instance_by_name_linked [OF l] rci_apply_def
        split: option.splits cong: if_cong)
qed

lemma rci_dependencies_norm: "rci_dependencies db ob dir = (Some ds, dir1) \<Longrightarrow> dir1 = norm_dir dir"
  by (auto simp: rci_dependencies_def norm_dir_def split: rci_dir.splits obj_data.splits)

lemma rci_dependencies_runtime: "runtime db0 db \<Longrightarrow> rci_dependencies db = rci_dependencies db0"
  by (intro ext) (simp add: rci_dependencies_def runtimeD cong: rci_dir.case_cong obj_data.case_cong)

text \<open>The code of the walk on a linked database, over the structure of \<open>db0\<close>.\<close>

lemma rci_map_unfold:
  assumes "linked db0" and rt: "runtime db0 db"
  shows "rci_map_function i nm dir f d v db =
     (case neighbours db0 i dir of
        None \<Rightarrow> Some (\<not> d, v, db)
      | Some ds \<Rightarrow>
          Option.bind
            (case o_parent_comp (objs db0 (obj_of i)) of
               None \<Rightarrow> Some (d, v, db)
             | Some p \<Rightarrow>
                 if \<not> walks db0 i then Some (d, v, db)
                 else Option.bind (comp_of db0 p) (\<lambda>c.
                   if obj_of i \<in> set (rci_boundary c (norm_dir dir))
                   then rci_map_function (base p) nm (rci_outwards (norm_dir dir)) f d v db
                   else Some (d, v, db)))
            (\<lambda>s. foldM (\<lambda>e (ret, v, db).
                if e \<in> set v then Some (ret, v, db)
                else Option.bind (rci_element f d nm e (ret, db)) (\<lambda>(ret, db).
                  Option.bind (rci_map_function (base e) nm (norm_dir dir) f d (list_add e v) db)
                    (\<lambda>(a, v, db). Some (rci_note d a ret, v, db)))) ds s))"
proof -
  have l: "linked db" using assms runtime_linked by blast
  note r = runtime_reads [OF rt] runtimeD [OF rt] runtime_inst_valid [OF rt] rci_dependencies_runtime [OF rt]
  show ?thesis
  proof (cases "walks db0 i")
    case False
    then show ?thesis
      by (subst rci_map_function.simps)
        (auto simp: neighbours_def walks_def r instance_validate_linked [OF l] split: option.splits)
  next
    case True
    obtain ds dir1 where deps: "rci_dependencies db0 (obj_of i) dir = (ds, dir1)" by fastforce
    show ?thesis
    proof (cases ds)
      case None
      then show ?thesis using True deps
        by (subst rci_map_function.simps) (simp add: neighbours_def walks_def r instance_validate_linked [OF l])
    next
      case (Some xs)
      then have "dir1 = norm_dir dir" using deps rci_dependencies_norm by blast
      moreover have [simp]: "(\<lambda>(answer, v, db). Some (answer, v, db)) = (\<lambda>x. Some x)" by auto
      ultimately show ?thesis using True deps Some
        by (subst rci_map_function.simps)
          (simp add: neighbours_def walks_def r instance_validate_linked [OF l] rci_note_simps
            cong: option.case_cong if_cong)
    qed
  qed
qed

text \<open>The result of a walk that visited \<open>xs\<close> and saw an error or not.\<close>

definition loop_result :: "rci_fun \<Rightarrow> bool \<Rightarrow> bool \<times> oid list \<times> iref list \<Rightarrow> db \<Rightarrow> (bool \<times> oid list \<times> db) option" where
  "loop_result f d r db =
     (case r of (err, v, xs) \<Rightarrow>
        map_option (\<lambda>(ret, db). (if err then \<not> d else ret, v, db)) (rci_apply f d xs (d, db)))"

definition walk_is_loop :: "(db \<Rightarrow> bool) \<Rightarrow> rci_fun \<Rightarrow> bool \<Rightarrow> name option \<Rightarrow> iref \<Rightarrow> rci_dir \<Rightarrow> oid list \<Rightarrow>
    bool \<times> oid list \<times> iref list \<Rightarrow> bool" where
  "walk_is_loop K f d nm i dir v r \<longleftrightarrow>
     (\<forall>db. K db \<longrightarrow> rci_map_function i nm dir f d v db = loop_result f d r db)"

lemma walk_loop:
  assumes l: "linked db0" and K: "\<And>db. K db \<Longrightarrow> runtime db0 db"
    and keeps: "\<And>r db b db'. K db \<Longrightarrow> f r db = Some (b, db') \<Longrightarrow> K db'"
    and rec: "\<And>e v r. rec (base e) v = Some r \<Longrightarrow> walk_is_loop K f d nm (base e) (norm_dir dir) v r"
    and run: "foldM (\<lambda>e (err, v, xs).
                if e \<in> set v then Some (err, v, xs)
                else Option.bind (rec (base e) (list_add e v)) (\<lambda>(err1, v1, ys).
                  Some (err \<or> err1, v1, xs @ rule_targets db0 nm e @ ys))) ds (err, v, xs) = Some (err2, v2, xs2)"
    and rt: "K db"
  shows "\<exists>ys. xs2 = xs @ ys \<and>
    foldM (\<lambda>e (ret, v, db).
                if e \<in> set v then Some (ret, v, db)
                else Option.bind (rci_element f d nm e (ret, db)) (\<lambda>(ret, db).
                  Option.bind (rci_map_function (base e) nm (norm_dir dir) f d (list_add e v) db)
                    (\<lambda>(a, v, db). Some (rci_note d a ret, v, db)))) ds (if err then \<not> d else ret, v, db) =
    map_option (\<lambda>(ret, db). (if err2 then \<not> d else ret, v2, db)) (rci_apply f d ys (ret, db))"
  using run rt
proof (induction ds arbitrary: err v xs ret db)
  case Nil
  then show ?case by (simp add: rci_apply_def)
next
  case (Cons e ds)
  show ?case
  proof (cases "e \<in> set v")
    case True
    then show ?thesis using Cons by simp
  next
    case False
    with Cons.prems(1) obtain err1 v1 ys where r: "rec (base e) (list_add e v) = Some (err1, v1, ys)"
      and run: "foldM (\<lambda>e (err, v, xs).
                if e \<in> set v then Some (err, v, xs)
                else Option.bind (rec (base e) (list_add e v)) (\<lambda>(err1, v1, ys).
                  Some (err \<or> err1, v1, xs @ rule_targets db0 nm e @ ys))) ds
              (err \<or> err1, v1, xs @ rule_targets db0 nm e @ ys) = Some (err2, v2, xs2)"
      by (auto simp: bind_eq_Some_conv)
    let ?ts = "rule_targets db0 nm e" and ?start = "if err then \<not> d else ret"
    obtain zs where zs: "xs2 = xs @ ?ts @ ys @ zs"
      using Cons.IH [OF run Cons.prems(2), of ret] by auto
    have el: "rci_element f d nm e (?start, db) =
        map_option (\<lambda>(a, db). (rci_note d a ?start, db)) (rci_apply f d ?ts (d, db))"
      by (subst rci_apply_start [symmetric]) (rule rci_element_targets [OF l K [OF Cons.prems(2)]])
    have whole: "rci_apply f d (?ts @ ys @ zs) (ret, db) =
        Option.bind (map_option (\<lambda>(a, db). (rci_note d a ret, db)) (rci_apply f d ?ts (d, db)))
          (\<lambda>(ret, db). Option.bind (map_option (\<lambda>(a, db). (rci_note d a ret, db)) (rci_apply f d ys (d, db)))
            (rci_apply f d zs))"
      by (cases "rci_apply f d ?ts (ret, db)")
        (auto simp: rci_apply_append rci_apply_start [symmetric] split_beta)
    show ?thesis
    proof (cases "rci_apply f d ?ts (d, db)")
      case None
      then show ?thesis using False zs whole el by auto
    next
      case (Some p)
      obtain a1 db1 where a1: "rci_apply f d ?ts (d, db) = Some (a1, db1)" using Some by (cases p) auto
      have rt1: "K db1" by (rule rci_apply_keeps [of K f, OF keeps a1 Cons.prems(2)])
      have map1: "rci_map_function (base e) nm (norm_dir dir) f d (list_add e v) db1 =
          map_option (\<lambda>(ret, db). (if err1 then \<not> d else ret, v1, db)) (rci_apply f d ys (d, db1))"
        using rec [OF r] rt1 by (simp add: walk_is_loop_def loop_result_def)
      show ?thesis
      proof (cases "rci_apply f d ys (d, db1)")
        case None
        then show ?thesis using False zs whole el a1 map1 by auto
      next
        case (Some q)
        obtain a2 db2 where a2: "rci_apply f d ys (d, db1) = Some (a2, db2)" using Some by (cases q) auto
        have rt2: "K db2" by (rule rci_apply_keeps [of K f, OF keeps a2 rt1])
        let ?ret = "rci_note d a2 (rci_note d a1 ret)"
        have "rci_note d (if err1 then \<not> d else a2) (rci_note d a1 ?start) =
            (if err \<or> err1 then \<not> d else ?ret)"
          by (auto simp: rci_note_def)
        with Cons.IH [OF run rt2, of ?ret] show ?thesis
          using False zs whole el a1 map1 a2 by auto
      qed
    qed
  qed
qed

text \<open>The walk is the loop over its visits.\<close>

lemma walk_visits:
  assumes l: "linked db0" and K: "\<And>db. K db \<Longrightarrow> runtime db0 db"
    and keeps: "\<And>r db b db'. K db \<Longrightarrow> f r db = Some (b, db') \<Longrightarrow> K db'"
    and run: "rci_visits db0 nm i dir v = Some r"
  shows "walk_is_loop K f d nm i dir v r"
proof -
  let ?P = "\<lambda>db nm i dir v r. db = db0 \<longrightarrow> walk_is_loop K f d nm i dir v r"
  have "?P db0 nm i dir v r"
  proof (rule rci_visits.raw_induct [where P = ?P, OF _ run], rule impI, goal_cases)
    case (1 rec db nm i dir v r)
    then have rec: "rec db0 nm i dir v = Some r \<Longrightarrow> walk_is_loop K f d nm i dir v r" for nm i dir v r
      by blast
    show ?case
    proof (cases "neighbours db0 i dir")
      case None
      then show ?thesis using 1(2,3)
        by (auto simp: walk_is_loop_def loop_result_def rci_map_unfold [OF l K] rci_apply_def)
    next
      case (Some ds)
      note nb = this
      let ?up = "case o_parent_comp (objs db0 (obj_of i)) of None \<Rightarrow> Some (False, v, [])
        | Some p \<Rightarrow> if \<not> walks db0 i then Some (False, v, [])
            else Option.bind (comp_of db0 p) (\<lambda>c. if obj_of i \<in> set (rci_boundary c (norm_dir dir))
              then rec db0 nm (base p) (rci_outwards (norm_dir dir)) v else Some (False, v, []))"
      obtain s where s: "?up = Some s" and loop: "foldM (\<lambda>e (err, v, xs).
                if e \<in> set v then Some (err, v, xs)
                else Option.bind (rec db0 nm (base e) (norm_dir dir) (list_add e v)) (\<lambda>(err1, v1, ys).
                  Some (err \<or> err1, v1, xs @ rule_targets db0 nm e @ ys))) ds s = Some r"
        using 1(2,3) Some by (auto simp: bind_eq_Some_conv)
      obtain err v1 xs err2 v2 xs2 where sr: "s = (err, v1, xs)" "r = (err2, v2, xs2)" by (cases s, cases r)
      let ?loop = "foldM (\<lambda>e (ret, v, db).
                if e \<in> set v then Some (ret, v, db)
                else Option.bind (rci_element f d nm e (ret, db)) (\<lambda>(ret, db).
                  Option.bind (rci_map_function (base e) nm (norm_dir dir) f d (list_add e v) db)
                    (\<lambda>(a, v, db). Some (rci_note d a ret, v, db)))) ds"
      have walk: "\<exists>ys. xs2 = xs @ ys \<and> ?loop (if err then \<not> d else ret, v1, db) =
          map_option (\<lambda>(ret, db). (if err2 then \<not> d else ret, v2, db)) (rci_apply f d ys (ret, db))"
        if "K db" for ret db
        by (rule walk_loop [where rec = "\<lambda>i. rec db0 nm i (norm_dir dir)", where K = K, OF l _ _ _ loop [unfolded sr] that])
          (use K keeps rec in blast)+
      show ?thesis unfolding walk_is_loop_def
      proof (intro allI impI)
        fix db
        assume rt: "K db"
        let ?upm = "case o_parent_comp (objs db0 (obj_of i)) of None \<Rightarrow> Some (d, v, db)
             | Some p \<Rightarrow> if \<not> walks db0 i then Some (d, v, db)
                 else Option.bind (comp_of db0 p) (\<lambda>c.
                   if obj_of i \<in> set (rci_boundary c (norm_dir dir))
                   then rci_map_function (base p) nm (rci_outwards (norm_dir dir)) f d v db
                   else Some (d, v, db))"
        have "?upm = loop_result f d s db"
          using s rt by (auto simp: loop_result_def rci_apply_def bind_eq_Some_conv
              dest!: rec simp: walk_is_loop_def split: option.splits if_splits)
        then have up: "?upm = map_option (\<lambda>(ret, db). (if err then \<not> d else ret, v1, db)) (rci_apply f d xs (d, db))"
          by (simp add: loop_result_def sr)
        show "rci_map_function i nm dir f d v db = loop_result f d r db"
        proof (cases "rci_apply f d xs (d, db)")
          case None
          obtain ys where "xs2 = xs @ ys" using walk [OF rt] by blast
          then have "loop_result f d r db = None"
            using None by (simp add: loop_result_def sr rci_apply_append)
          then show ?thesis
            by (subst rci_map_unfold [OF l K [OF rt]]) (simp only: nb option.case up None, simp)
        next
          case (Some p)
          then obtain ret db1 where p: "rci_apply f d xs (d, db) = Some (ret, db1)" by (cases p) auto
          have rt1: "K db1" by (rule rci_apply_keeps [of K f, OF keeps p rt])
          from walk [OF rt1, of ret] obtain ys where ys: "xs2 = xs @ ys"
            "?loop (if err then \<not> d else ret, v1, db1) =
              map_option (\<lambda>(ret, db). (if err2 then \<not> d else ret, v2, db)) (rci_apply f d ys (ret, db1))"
            by blast
          have "loop_result f d r db =
              map_option (\<lambda>(ret, db). (if err2 then \<not> d else ret, v2, db)) (rci_apply f d ys (ret, db1))"
            by (simp add: loop_result_def sr rci_apply_append ys(1) p)
          then show ?thesis
            by (subst rci_map_unfold [OF l K [OF rt]]) (simp only: nb option.case up p option.map prod.case bind.bind_lunit ys(2))
        qed
      qed
    qed
  qed
  then show ?thesis by blast
qed

section \<open>The walk over a fresh history\<close>

text \<open>The rule instances the function is applied to, and whether the walk meets an error.\<close>

definition rules_below :: "db \<Rightarrow> name option \<Rightarrow> iref \<Rightarrow> rci_dir \<Rightarrow> iref set" where
  "rules_below db nm i dir =
     {r. i_state (inst db r) = STATE_ENABLED \<and> (\<exists>e. rci_below db i dir e \<and> r \<in> set (rule_targets db nm e))}"

definition walk_error :: "db \<Rightarrow> iref \<Rightarrow> rci_dir \<Rightarrow> bool" where
  "walk_error db i dir \<longleftrightarrow>
     broken db i dir \<or> (\<exists>e. rci_below db i dir e \<and> broken db (base e) (norm_dir dir))"

lemma visits_right_fresh:
  assumes "visits_right db nm i dir [] (err, v, xs)"
  shows "set v = {e. rci_below db i dir e}" and "distinct v"
    and "{r \<in> set xs. i_state (inst db r) = STATE_ENABLED} = rules_below db nm i dir"
    and "err = walk_error db i dir"
proof -
  have here: "rci_next db i dir e \<Longrightarrow> e \<in> set v"
    and more: "y \<in> set v \<Longrightarrow> rci_next db (base y) (norm_dir dir) e \<Longrightarrow> e \<in> set v"
    and below: "y \<in> set v \<Longrightarrow> rci_below db i dir y"
    and xs: "set xs = (\<Union>e \<in> set v. set (rule_targets db nm e))"
    and err: "err = (broken db i dir \<or> (\<exists>e \<in> set v. broken db (base e) (norm_dir dir)))"
    for e y
    using assms by (simp_all add: visits_right_def)
  have "e \<in> set v" if "rci_below db i dir e" for e
    using that by induction (rule here, assumption, rule more)
  then show v: "set v = {e. rci_below db i dir e}" using below by blast
  show "distinct v" using assms by (simp add: visits_right_def)
  show "err = walk_error db i dir" unfolding err walk_error_def v by simp
  show "{r \<in> set xs. i_state (inst db r) = STATE_ENABLED} = rules_below db nm i dir"
    unfolding xs rules_below_def v by blast
qed

text \<open>\<open>v\<close> are the objects a walk reaches and \<open>xs\<close> the rule instances it looks at, in order.\<close>

definition fresh_walk ::
  "db \<Rightarrow> name option \<Rightarrow> iref \<Rightarrow> rci_dir \<Rightarrow> oid list \<Rightarrow> iref list \<Rightarrow> bool" where
  "fresh_walk db0 nm i dir v xs \<longleftrightarrow>
     set v = {e. rci_below db0 i dir e} \<and> distinct v \<and>
     {r \<in> set xs. i_state (inst db0 r) = STATE_ENABLED} = rules_below db0 nm i dir \<and>
     (\<forall>K f d. (\<forall>db. K db \<longrightarrow> runtime db0 db) \<longrightarrow>
        (\<forall>r db b db'. K db \<longrightarrow> f r db = Some (b, db') \<longrightarrow> K db') \<longrightarrow>
        walk_is_loop K f d nm i dir [] (walk_error db0 i dir, v, xs))"

lemma rci_map_fresh:
  assumes l: "linked db0" and "contained_ranked rank db0" and "depends_bounded db0"
  shows "\<exists>v xs. fresh_walk db0 nm i dir v xs"
proof -
  obtain err v xs where r: "rci_visits db0 nm i dir [] = Some (err, v, xs)" "visits_right db0 nm i dir [] (err, v, xs)"
    using visits_exist [OF assms(2,3), of nm i dir "[]"] by auto
  note right = visits_right_fresh [OF r(2)]
  have "walk_is_loop K f d nm i dir [] (walk_error db0 i dir, v, xs)"
    if K: "\<forall>db. K db \<longrightarrow> runtime db0 db" "\<forall>r db b db'. K db \<longrightarrow> f r db = Some (b, db') \<longrightarrow> K db'" for K f d
    unfolding right(4) [symmetric] by (rule walk_visits [OF l _ _ r(1)]) (use K in blast)+
  then have "fresh_walk db0 nm i dir v xs" unfolding fresh_walk_def using right(1-3) by blast
  then show ?thesis by blast
qed

section \<open>The contract of a mapped function\<close>

text \<open>What root cause identification assumes of the database; it is kept by every step.\<close>

definition rci_good :: "db \<Rightarrow> bool" where
  "rci_good db \<longleftrightarrow> linked db \<and> sched_inv db \<and> depends_bounded db \<and>
     (\<exists>rank. contained_ranked rank db) \<and> (\<exists>rank. inputs_ranked rank db)"

lemma depends_bounded_runtime: "runtime db db' \<Longrightarrow> depends_bounded db' = depends_bounded db"
  by (simp add: depends_bounded_def rci_dependencies_runtime) (simp add: runtime_def)

lemma rci_good_step: "rci_good db \<Longrightarrow> sched_step db db' \<Longrightarrow> rci_good db'"
  by (auto simp: rci_good_def sched_step_def depends_bounded_runtime contained_runtime inputs_ranked_runtime)

lemma sched_step_refl: "rci_good db \<Longrightarrow> sched_step db db"
  by (simp add: rci_good_def sched_step_def)

text \<open>A function that returns, and works on the queues only.\<close>

locale rci_step =
  fixes f :: rci_fun
  assumes returns: "rci_good db \<Longrightarrow> \<exists>b db'. f r db = Some (b, db') \<and> sched_step db db'"
begin

lemma keeps_runtime: "rci_good db0 \<Longrightarrow> sched_step db0 db \<Longrightarrow> f r db = Some (b, db') \<Longrightarrow> sched_step db0 db'"
  using returns [of db r] rci_good_step sched_step_trans by fastforce

lemma apply_returns:
  assumes "rci_good db"
  shows "\<exists>b db'. rci_apply f d xs (ret, db) = Some (b, db') \<and> sched_step db db'"
proof -
  have "\<exists>s. rci_apply f d xs (ret, db) = Some s \<and> sched_step db (snd s)"
    unfolding rci_apply_def
  proof (rule foldM_total [where P = "\<lambda>s. sched_step db (snd s)"])
    show "sched_step db (snd (ret, db))" using sched_step_refl assms by simp
    fix r and s :: "bool \<times> db"
    assume s: "sched_step db (snd s)"
    obtain b db1 where "f r (snd s) = Some (b, db1)" "sched_step db db1"
      using returns [OF rci_good_step [OF assms s], of r] sched_step_trans [OF s] by blast
    then show "\<exists>t. (case s of (retval, db) \<Rightarrow>
         if i_state (inst db r) = STATE_ENABLED then
           map_option (\<lambda>(answer, db). (rci_note d answer retval, db)) (f r db)
         else Some (retval, db)) = Some t \<and> sched_step db (snd t)"
      using s by (cases s) auto
  qed
  then show ?thesis by auto
qed

text \<open>A walk with the function returns, on every dependency graph.\<close>

lemma map_returns:
  assumes good: "rci_good db"
  shows "\<exists>ret v db' xs. rci_map_function i nm dir f d [] db = Some (if walk_error db i dir then \<not> d else ret, v, db') \<and>
    rci_apply f d xs (d, db) = Some (ret, db') \<and> sched_step db db' \<and>
    {r \<in> set xs. i_state (inst db r) = STATE_ENABLED} = rules_below db nm i dir"
proof -
  obtain rank where g: "linked db" "contained_ranked rank db" "depends_bounded db"
    using good by (auto simp: rci_good_def)
  obtain v xs where w: "fresh_walk db nm i dir v xs" using rci_map_fresh [OF g] by blast
  obtain ret db' where a: "rci_apply f d xs (d, db) = Some (ret, db')" "sched_step db db'"
    using apply_returns [OF good] by blast
  have "walk_is_loop (sched_step db) f d nm i dir [] (walk_error db i dir, v, xs)"
    using w keeps_runtime [OF good] unfolding fresh_walk_def by (metis sched_step_def)
  then have "rci_map_function i nm dir f d [] db =
         map_option (\<lambda>(ret, db'). (if walk_error db i dir then \<not> d else ret, v, db')) (rci_apply f d xs (d, db))"
    using sched_step_refl [OF good] by (simp add: walk_is_loop_def loop_result_def)
  moreover have "{r \<in> set xs. i_state (inst db r) = STATE_ENABLED} = rules_below db nm i dir"
    using w by (simp add: fresh_walk_def)
  ultimately show ?thesis using a by auto
qed

end

text \<open>A function that marks each instance, and leaves marks alone.\<close>

locale rci_marks = rci_step f for f +
  fixes Q :: "db \<Rightarrow> iref \<Rightarrow> bool"
  assumes mark: "rci_good db \<Longrightarrow> f r db = Some (b, db') \<Longrightarrow> Q db' r"
    and keep: "rci_good db \<Longrightarrow> f r db = Some (b, db') \<Longrightarrow> Q db x \<Longrightarrow> Q db' x"
begin

lemma apply_marks:
  assumes "rci_good db" and "rci_apply f d xs (ret, db) = Some (b, db')"
  shows "(\<forall>r \<in> set xs. i_state (inst db r) = STATE_ENABLED \<longrightarrow> Q db' r) \<and> (\<forall>r. Q db r \<longrightarrow> Q db' r)"
  using assms
proof (induction xs arbitrary: ret db)
  case Nil
  then show ?case by (simp add: rci_apply_def)
next
  case (Cons x xs)
  show ?case
  proof (cases "i_state (inst db x) = STATE_ENABLED")
    case True
    with Cons.prems(2) obtain a db1 where x: "f x db = Some (a, db1)"
      and xs: "rci_apply f d xs (rci_note d a ret, db1) = Some (b, db')"
      by (auto simp: rci_apply_def bind_eq_Some_conv)
    have st: "sched_step db db1" using returns [OF Cons.prems(1), of x] x by auto
    then have "i_state (inst db1 r) = i_state (inst db r)" for r
      by (simp add: sched_step_def runtimeD)
    with Cons.IH [OF rci_good_step [OF Cons.prems(1) st] xs] show ?thesis
      using mark [OF Cons.prems(1) x] keep [OF Cons.prems(1) x] by auto
  next
    case False
    with Cons.prems(2) have "rci_apply f d xs (ret, db) = Some (b, db')" by (simp add: rci_apply_def)
    with Cons.IH [OF Cons.prems(1) this] False show ?thesis by auto
  qed
qed

lemma map_marks:
  assumes "rci_good db"
  shows "\<exists>ret v db'. rci_map_function i nm dir f d [] db = Some (ret, v, db') \<and> sched_step db db' \<and>
    (\<forall>r \<in> rules_below db nm i dir. Q db' r) \<and> (\<forall>r. Q db r \<longrightarrow> Q db' r)"
proof -
  obtain ret v db' xs where r:
    "rci_map_function i nm dir f d [] db = Some (if walk_error db i dir then \<not> d else ret, v, db')"
    "rci_apply f d xs (d, db) = Some (ret, db')" "sched_step db db'"
    "{r \<in> set xs. i_state (inst db r) = STATE_ENABLED} = rules_below db nm i dir"
    using map_returns [OF assms] by blast
  with apply_marks [OF assms r(2)] show ?thesis by blast
qed

end

text \<open>A function that only looks: the walk computes a quantifier.\<close>

locale rci_pure =
  fixes f :: rci_fun and p :: "db \<Rightarrow> iref \<Rightarrow> bool"
  assumes pure: "f r db = Some (p db r, db)"

sublocale rci_pure \<subseteq> rci_step f
  by unfold_locales (simp add: pure sched_step_refl)

context rci_pure
begin

lemma apply_pure:
  "rci_apply f d xs (ret, db) =
     Some (if \<exists>r \<in> set xs. i_state (inst db r) = STATE_ENABLED \<and> p db r \<noteq> d then \<not> d else ret, db)"
  by (induction xs arbitrary: ret) (auto simp: rci_apply_def pure rci_note_def)

lemma map_pure:
  assumes "rci_good db"
  shows "\<exists>v. rci_map_function i nm dir f d [] db =
    Some (if walk_error db i dir \<or> (\<exists>r \<in> rules_below db nm i dir. p db r \<noteq> d) then \<not> d else d, v, db)"
proof -
  obtain ret v db' xs where r:
    "rci_map_function i nm dir f d [] db = Some (if walk_error db i dir then \<not> d else ret, v, db')"
    "rci_apply f d xs (d, db) = Some (ret, db')"
    "{r \<in> set xs. i_state (inst db r) = STATE_ENABLED} = rules_below db nm i dir"
    using map_returns [OF assms] by blast
  have eq: "(\<exists>r \<in> set xs. i_state (inst db r) = STATE_ENABLED \<and> p db r \<noteq> d) \<longleftrightarrow>
      (\<exists>r \<in> rules_below db nm i dir. p db r \<noteq> d)"
    unfolding r(3) [symmetric] by blast
  have e: "(if \<exists>r \<in> rules_below db nm i dir. p db r \<noteq> d then \<not> d else d) = ret \<and> db = db'"
    using r(2) unfolding apply_pure eq option.inject prod.inject .
  show ?thesis
    by (cases "walk_error db i dir")
      (simp_all add: r(1) e [THEN conjunct1, symmetric] e [THEN conjunct2, symmetric] del: Bex_def)
qed

lemma map_all:
  "rci_good db \<Longrightarrow> \<exists>v. rci_map_function i nm dir f True [] db =
    Some (\<not> walk_error db i dir \<and> (\<forall>r \<in> rules_below db nm i dir. p db r), v, db)"
  using map_pure [of db i nm dir True] by (auto split: if_splits)

lemma map_any:
  "rci_good db \<Longrightarrow> \<exists>v. rci_map_function i nm dir f False [] db =
    Some (walk_error db i dir \<or> (\<exists>r \<in> rules_below db nm i dir. p db r), v, db)"
  using map_pure [of db i nm dir False] by (auto split: if_splits)

end

interpretation passed: rci_pure rci_is_passed
    "\<lambda>db r. i_last_result (inst db r) = RESULT_PASS \<or> i_state (inst db r) \<noteq> STATE_ENABLED"
  by unfold_locales (simp add: rci_is_passed_def)

interpretation enabled: rci_pure rci_is_enabled "\<lambda>db r. i_state (inst db r) = STATE_ENABLED"
  by unfold_locales (simp add: rci_is_enabled_def)

interpretation not_rcc: rci_pure rci_not_rcc
    "\<lambda>db r. i_root_cause (inst db r) \<noteq> RC_CANDIDATE \<or> i_state (inst db r) \<noteq> STATE_ENABLED"
  by unfold_locales (simp add: rci_not_rcc_def)

end
