(* ===== verification/RciVerdict.thy ===== *)
theory RciVerdict
  imports RciWalk
begin

text \<open>
  Which rule is the root cause: what the functions of \<^verbatim>\<open>src/src/myrefl_rci.c\<close> that are mapped over
  the dependencies decide, as facts about the verdicts of the instances (root cause mark and
  last result) before and after.
\<close>

section \<open>The scheduler does not judge\<close>

definition verdicts :: "db \<Rightarrow> iref \<Rightarrow> root_cause \<times> result \<times> 32 word" where
  "verdicts db i = (i_root_cause (inst db i), i_last_result (inst db i), i_last_result_count (inst db i))"

lemma verdictsD:
  "verdicts db' = verdicts db \<Longrightarrow> i_root_cause (inst db' i) = i_root_cause (inst db i)"
  "verdicts db' = verdicts db \<Longrightarrow> i_last_result (inst db' i) = i_last_result (inst db i)"
  by (auto simp: verdicts_def fun_eq_iff)

lemma verdicts_sched [simp]:
  "verdicts (set_queued q i db) = verdicts db" "verdicts (set_next_time t i db) = verdicts db"
  "verdicts (push_queue q i db) = verdicts db" "verdicts (insert_queue q i db) = verdicts db"
  "verdicts (snd (remove_queue q i db)) = verdicts db" "verdicts (check_test_start_timer db) = verdicts db"
  "verdicts (snd (time_now db)) = verdicts db" "verdicts (emit e db) = verdicts db"
  by (auto simp: verdicts_def fun_eq_iff set_queued_def set_next_time_def upd_inst_def inst_def push_queue_def
      insert_queue_def remove_queue_def check_test_start_timer_def time_now_def emit_def split_beta
      split: option.splits)

lemma verdicts_remove [simp]: "verdicts (myrefl_sched_remove_test i db) = verdicts db"
  by (simp add: myrefl_sched_remove_test_def split_beta)

text \<open>Scheduling at once, whatever it answers, changes the queues only.\<close>

definition sched_frame :: "db \<Rightarrow> db \<Rightarrow> bool" where
  "sched_frame db db' \<longleftrightarrow> runtime db db' \<and> verdicts db' = verdicts db"

lemma sched_frame_trans: "sched_frame a b \<Longrightarrow> sched_frame b c \<Longrightarrow> sched_frame a c"
  by (auto simp: sched_frame_def intro: runtime_trans)

lemma test_immediate_frame:
  assumes l: "linked db" and run: "myrefl_sched_test_immediate i db = Some db'"
  shows "sched_frame db db'"
  using run unfolding sched_frame_def myrefl_sched_test_immediate_def instance_validate_linked [OF l]
  by (auto simp: split_beta Let_def bind_eq_Some_conv split: if_splits intro!: runtime_peel)

lemma rule_immediate_frame:
  assumes "linked db" and run: "myrefl_sched_rule_immediate i db = Some db'"
  shows "sched_frame db db'"
proof -
  let ?P = "\<lambda>i db db'. linked db \<longrightarrow> sched_frame db db'"
  have "?P i db db'"
  proof (rule myrefl_sched_rule_immediate.raw_induct [where P = ?P, OF _ run], rule impI, goal_cases)
    case (1 rec i db db')
    note l = 1(3)
    show ?case
    proof (cases "inst_valid db i TYPE_RULE")
      case False
      then show ?thesis using 1(2) by (simp add: instance_validate_linked [OF l] sched_frame_def)
    next
      case True
      with 1(2) obtain r :: obj_rule where run: "foldM (\<lambda>x db.
             if type_of db x \<noteq> TYPE_TEST then rec (myrefl_obj_instance db x i) db
             else myrefl_sched_test_immediate (myrefl_obj_instance db x i) db) (r_inputs r) db = Some db'"
        by (auto simp: instance_validate_linked [OF l] bind_eq_Some_conv)
      show ?thesis
      proof (rule foldM_inv [where P = "sched_frame db", OF run])
        show "sched_frame db db" by (simp add: sched_frame_def)
        fix x s t
        assume s: "sched_frame db s" and t: "(if type_of s x \<noteq> TYPE_TEST then rec (myrefl_obj_instance s x i) s
             else myrefl_sched_test_immediate (myrefl_obj_instance s x i) s) = Some t"
        have ls: "linked s" using s l runtime_linked by (auto simp: sched_frame_def)
        have "sched_frame s t"
          using t 1(1) ls test_immediate_frame [OF ls] by (auto split: if_splits)
        with s show "sched_frame db t" by (rule sched_frame_trans)
      qed
    qed
  qed
  then show ?thesis using assms(1) by blast
qed

lemma good_rule_immediate:
  assumes "rci_good db"
  shows "\<exists>db'. myrefl_sched_rule_immediate i db = Some db' \<and> sched_step db db' \<and> verdicts db' = verdicts db"
proof -
  obtain rank where r: "inputs_ranked rank db" "linked db" "sched_inv db" using assms by (auto simp: rci_good_def)
  obtain db' where "myrefl_sched_rule_immediate i db = Some db'" "sched_step db db'"
    using rule_immediate_returns [OF r] by blast
  then show ?thesis using rule_immediate_frame [OF r(2)] by (auto simp: sched_frame_def)
qed

section \<open>Marking\<close>

lemma set_root_cause_step:
  assumes "rci_good db"
  shows "sched_step db (set_root_cause rc i db)"
proof -
  have "quiet db (set_root_cause rc i db)"
    by (simp add: quiet_def set_root_cause_def runtime_upd_inst inst_id_def) (simp add: upd_inst_def inst_def)
  then show ?thesis using assms quiet_sched_step by (auto simp: rci_good_def)
qed

lemma verdicts_set_root_cause:
  "verdicts (set_root_cause rc i db) j = (if j = i then (rc, snd (verdicts db i)) else verdicts db j)"
  by (simp add: verdicts_def set_root_cause_def)

lemma set_root_cause_reads [simp]:
  "i_root_cause (inst (set_root_cause rc i db) j) = (if j = i then rc else i_root_cause (inst db j))"
  "i_last_result (inst (set_root_cause rc i db) j) = i_last_result (inst db j)"
  "i_state (inst (set_root_cause rc i db) j) = i_state (inst db j)"
  by (auto simp: set_root_cause_def)

lemma root_cause_request_step:
  assumes "rci_good db"
  shows "sched_step db (myrefl_seq_from_root_cause i db)"
proof -
  have "quiet db (myrefl_seq_from_root_cause i db)"
    using seq_from_runtime(4) [of db i] by (simp add: quiet_def frame_simps)
  then show ?thesis using assms quiet_sched_step by (auto simp: rci_good_def)
qed

lemma verdicts_request [simp]: "verdicts (myrefl_seq_from_root_cause i db) = verdicts db"
  by (auto simp: verdicts_def fun_eq_iff myrefl_seq_from_root_cause_def split_beta thread_request_def
      upd_inst_def inst_def take_context_def split: list.splits)

context rci_step
begin

text \<open>What every call of the mapped function keeps, the walk keeps.\<close>

lemma map_inv:
  assumes good: "rci_good db" and P: "P db"
    and step: "\<And>r s b t. rci_good s \<Longrightarrow> P s \<Longrightarrow> f r s = Some (b, t) \<Longrightarrow> P t"
  shows "\<exists>ret v db'. rci_map_function i nm dir f d [] db = Some (ret, v, db') \<and> sched_step db db' \<and> P db'"
proof -
  obtain ret v db' xs where r:
    "rci_map_function i nm dir f d [] db = Some (if walk_error db i dir then \<not> d else ret, v, db')"
    "rci_apply f d xs (d, db) = Some (ret, db')" "sched_step db db'"
    using map_returns [OF good] by blast
  have "rci_good db' \<and> P db'"
  proof (rule rci_apply_keeps [where K = "\<lambda>s. rci_good s \<and> P s" and f = f, OF _ r(2)])
    show "rci_good db \<and> P db" using good P by blast
    fix r s b t
    assume "rci_good s \<and> P s" and t: "f r s = Some (b, t)"
    then show "rci_good t \<and> P t"
      using returns [of s r] rci_good_step [of s t] step [OF _ _ t] by auto
  qed
  then show ?thesis using r by blast
qed

end

section \<open>A change spreads to the parents\<close>

lemma propagate_rule_step:
  assumes "rci_good db"
  shows "\<exists>b db'. rci_apply_propagate_rule_change roi action i db = Some (b, db') \<and> sched_step db db'"
proof -
  have step: "\<exists>db'. myrefl_sched_rule_immediate i s = Some db' \<and> sched_step db db'" if "sched_step db s" for s
    using good_rule_immediate [OF rci_good_step [OF assms that], of i] sched_step_trans [OF that] by blast
  show ?thesis
    using step [OF sched_step_refl [OF assms]] step [OF set_root_cause_step [OF assms, of _ i]]
      sched_step_refl [OF assms] set_root_cause_step [OF assms, of RC_NOT i]
    by (fastforce simp: rci_apply_propagate_rule_change_def Let_def)
qed

interpretation propagate: rci_step "rci_apply_propagate_rule_change roi action" for roi action
  by unfold_locales (rule propagate_rule_step)

text \<open>A failure below clears root causes and changes no other verdict; it leaves its own rule alone.\<close>

lemma propagate_fail_verdicts:
  assumes "rci_good db" and run: "rci_apply_propagate_rule_change roi RESULT_FAIL r db = Some (b, db')"
  shows "verdicts db' j = (if j = r \<and> r \<noteq> roi \<and> i_root_cause (inst db r) = RC
     then (RC_NOT, snd (verdicts db r)) else verdicts db j)"
proof -
  define s where "s = (if i_root_cause (inst db r) = RC then set_root_cause RC_NOT r db else db)"
  have "rci_good s"
    using assms(1) rci_good_step [OF assms(1) set_root_cause_step [OF assms(1)]] by (simp add: s_def)
  then obtain t where t: "myrefl_sched_rule_immediate r s = Some t" "verdicts t = verdicts s"
    using good_rule_immediate by blast
  have vs: "verdicts s j = (if j = r \<and> i_root_cause (inst db r) = RC
      then (RC_NOT, snd (verdicts db r)) else verdicts db j)"
    by (simp add: s_def verdicts_set_root_cause)
  show ?thesis
  proof (cases "r = roi")
    case True
    then show ?thesis using run by (auto simp: rci_apply_propagate_rule_change_def)
  next
    case False
    then have "db' = t \<or> db' = s"
      using run t by (auto simp: rci_apply_propagate_rule_change_def s_def Let_def split: if_splits)
    then have "verdicts db' = verdicts s" using t(2) by auto
    then show ?thesis using vs False by (simp add: fun_eq_iff)
  qed
qed

interpretation clears: rci_marks "rci_apply_propagate_rule_change roi RESULT_FAIL"
    "\<lambda>db r. r = roi \<or> i_root_cause (inst db r) \<noteq> RC" for roi
proof unfold_locales
  fix db r b db'
  assume r: "rci_good db" "rci_apply_propagate_rule_change roi RESULT_FAIL r db = Some (b, db')"
  note v = propagate_fail_verdicts [OF r]
  show "r = roi \<or> i_root_cause (inst db' r) \<noteq> RC"
    using v [of r] by (auto simp: verdicts_def split: if_splits)
  fix x
  assume "x = roi \<or> i_root_cause (inst db x) \<noteq> RC"
  then show "x = roi \<or> i_root_cause (inst db' x) \<noteq> RC"
    using v [of x] by (auto simp: verdicts_def split: if_splits)
qed

lemma propagate_fail_spec:
  assumes good: "rci_good db"
  shows "\<exists>db'. rci_propagate_rule_change i RESULT_FAIL db = Some db' \<and> sched_step db db' \<and>
    (\<forall>r \<in> rules_below db (member_name db i) i RCI_MAP_PARENTS. r \<noteq> i \<longrightarrow> i_root_cause (inst db' r) \<noteq> RC) \<and>
    (\<forall>r. verdicts db' r = verdicts db r \<or>
       r \<noteq> i \<and> i_root_cause (inst db r) = RC \<and> verdicts db' r = (RC_NOT, snd (verdicts db r)))"
proof -
  let ?f = "rci_apply_propagate_rule_change i RESULT_FAIL"
  let ?P = "\<lambda>s. \<forall>r. verdicts s r = verdicts db r \<or>
       r \<noteq> i \<and> i_root_cause (inst db r) = RC \<and> verdicts s r = (RC_NOT, snd (verdicts db r))"
  obtain ret v db' where r: "rci_map_function i (member_name db i) RCI_MAP_PARENTS ?f True [] db = Some (ret, v, db')"
    "sched_step db db'" "\<forall>r \<in> rules_below db (member_name db i) i RCI_MAP_PARENTS. r = i \<or> i_root_cause (inst db' r) \<noteq> RC"
    using clears.map_marks [where roi = i and i = i and nm = "member_name db i" and dir = RCI_MAP_PARENTS and d = True, OF good] by blast
  have "\<exists>ret v db'. rci_map_function i (member_name db i) RCI_MAP_PARENTS ?f True [] db = Some (ret, v, db') \<and>
      sched_step db db' \<and> ?P db'"
  proof (rule propagate.map_inv [OF good])
    fix r s b t
    assume s: "rci_good s" "?P s" and t: "?f r s = Some (b, t)"
    note v = propagate_fail_verdicts [OF s(1) t]
    show "?P t"
    proof
      fix x
      show "verdicts t x = verdicts db x \<or>
        x \<noteq> i \<and> i_root_cause (inst db x) = RC \<and> verdicts t x = (RC_NOT, snd (verdicts db x))"
        using v [of x] s(2) [rule_format, of x] by (auto simp: verdicts_def split: if_splits)
    qed
  qed simp
  then have "?P db'" using r(1) by auto
  then show ?thesis using r by (auto simp: rci_propagate_rule_change_def)
qed

section \<open>The reach of a walk does not depend on the verdicts\<close>

lemma walks_runtime: "runtime db db' \<Longrightarrow> walks db' = walks db"
  by (auto simp: fun_eq_iff walks_def runtimeD runtime_inst_valid)

lemma neighbours_runtime: "runtime db db' \<Longrightarrow> neighbours db' = neighbours db"
  by (intro ext) (simp add: neighbours_def walks_runtime rci_dependencies_runtime)

lemma rci_next_runtime:
  assumes rt: "runtime db db'"
  shows "rci_next db' i dir e = rci_next db i dir e"
proof
  note r = walks_runtime [OF rt] neighbours_runtime [OF rt] runtimeD(1) [OF rt] runtime_reads [OF rt]
  show "rci_next db i dir e" if "rci_next db' i dir e" using that
    by induction (auto simp: r intro: rci_next.intros)
  show "rci_next db' i dir e" if "rci_next db i dir e" using that
    by induction (metis r next_here, rule next_out, auto simp: r)
qed

lemma rci_below_runtime:
  assumes rt: "runtime db db'"
  shows "rci_below db' i dir e = rci_below db i dir e"
proof
  note n = rci_next_runtime [OF rt]
  show "rci_below db i dir e" if "rci_below db' i dir e" using that
    by induction (auto simp: n intro: rci_below.intros)
  show "rci_below db' i dir e" if "rci_below db i dir e" using that
    by induction (auto simp: n [symmetric] intro: rci_below.intros)
qed

lemma rule_targets_runtime: "runtime db db' \<Longrightarrow> rule_targets db' = rule_targets db"
  by (intro ext) (simp add: rule_targets_def runtime_reads runtimeD(1) runtime_obj_valid split: option.split)

lemma rules_below_runtime: "runtime db db' \<Longrightarrow> rules_below db' nm i dir = rules_below db nm i dir"
  by (simp add: rules_below_def rci_below_runtime rule_targets_runtime runtimeD)

lemma member_name_runtime: "runtime db db' \<Longrightarrow> member_name db' = member_name db"
  by (intro ext) (simp add: member_name_def runtimeD)

lemma walk_error_runtime: "runtime db db' \<Longrightarrow> walk_error db' i dir = walk_error db i dir"
  by (simp add: walk_error_def broken_def rci_below_runtime neighbours_runtime)

section \<open>Deciding\<close>

text \<open>Marking a rule: the rule is the root cause, what is above it is not, the sequencer is asked.\<close>

definition made_root_cause :: "iref \<Rightarrow> db \<Rightarrow> db \<Rightarrow> bool" where
  "made_root_cause i db db' \<longleftrightarrow>
     i_root_cause (inst db' i) = RC \<and>
     (\<forall>r \<in> rules_below db (member_name db i) i RCI_MAP_PARENTS. r \<noteq> i \<longrightarrow> i_root_cause (inst db' r) \<noteq> RC) \<and>
     (\<forall>r. r \<noteq> i \<longrightarrow> verdicts db' r = verdicts db r \<or>
        i_root_cause (inst db r) = RC \<and> verdicts db' r = (RC_NOT, snd (verdicts db r))) \<and>
     (\<exists>s c. db' = myrefl_seq_from_root_cause i s \<and> jobs db' = jobs s @ [c] \<and>
        sc_instance c = i \<and> sc_event c = SEQ_RULE_ROOT_CAUSE)"

lemma root_cause_job:
  "\<exists>c. jobs (myrefl_seq_from_root_cause i s) = jobs s @ [c] \<and> sc_instance c = i \<and> sc_event c = SEQ_RULE_ROOT_CAUSE"
  by (auto simp: myrefl_seq_from_root_cause_def split_beta take_context_fields)

lemma make_root_cause:
  assumes good: "rci_good db"
  shows "\<exists>s. rci_propagate_rule_change i RESULT_FAIL (set_root_cause RC i db) = Some s \<and>
    sched_step db (myrefl_seq_from_root_cause i s) \<and> made_root_cause i db (myrefl_seq_from_root_cause i s)"
proof -
  let ?m = "set_root_cause RC i db"
  have st: "sched_step db ?m" by (rule set_root_cause_step [OF good])
  then have rt: "runtime db ?m" by (simp add: sched_step_def)
  note gm = rci_good_step [OF good st]
  obtain s where s: "rci_propagate_rule_change i RESULT_FAIL ?m = Some s" "sched_step ?m s"
    "\<forall>r \<in> rules_below ?m (member_name ?m i) i RCI_MAP_PARENTS. r \<noteq> i \<longrightarrow> i_root_cause (inst s r) \<noteq> RC"
    "\<forall>r. verdicts s r = verdicts ?m r \<or>
       r \<noteq> i \<and> i_root_cause (inst ?m r) = RC \<and> verdicts s r = (RC_NOT, snd (verdicts ?m r))"
    using propagate_fail_spec [OF gm, of i] by blast
  let ?e = "myrefl_seq_from_root_cause i s"
  note vr = verdictsD(1) [OF verdicts_request]
  have "sched_step db ?e"
    using sched_step_trans [OF sched_step_trans [OF st s(2)] root_cause_request_step] rci_good_step [OF gm s(2)]
    by blast
  moreover have "i_root_cause (inst ?e i) = RC"
    using s(4) [rule_format, of i] unfolding vr by (simp add: verdicts_set_root_cause) (simp add: verdicts_def)
  moreover have "\<forall>r \<in> rules_below db (member_name db i) i RCI_MAP_PARENTS. r \<noteq> i \<longrightarrow> i_root_cause (inst ?e r) \<noteq> RC"
    using s(3) by (simp add: vr rules_below_runtime [OF rt] member_name_runtime [OF rt])
  moreover have "\<forall>r. r \<noteq> i \<longrightarrow> verdicts ?e r = verdicts db r \<or>
        i_root_cause (inst db r) = RC \<and> verdicts ?e r = (RC_NOT, snd (verdicts db r))"
  proof (intro allI impI)
    fix r
    assume "r \<noteq> i"
    then show "verdicts ?e r = verdicts db r \<or>
        i_root_cause (inst db r) = RC \<and> verdicts ?e r = (RC_NOT, snd (verdicts db r))"
      using s(4) [rule_format, of r] by (simp add: verdicts_set_root_cause)
  qed
  ultimately show ?thesis
    unfolding made_root_cause_def using s(1) root_cause_job by blast
qed

text \<open>What the decision about a rule is, in terms of what lies below it.\<close>

definition determined :: "iref \<Rightarrow> db \<Rightarrow> db \<Rightarrow> bool" where
  "determined i db db' \<longleftrightarrow>
     (let below = rules_below db (member_name db i) i RCI_MAP_CHILDREN in
      if i_state (inst db i) \<noteq> STATE_ENABLED \<or> i_root_cause (inst db i) \<noteq> RC_CANDIDATE \<or>
         i_last_result (inst db i) \<noteq> RESULT_FAIL then db' = db
      else if walk_error db i RCI_MAP_CHILDREN \<or> (\<exists>r \<in> below. i_last_result (inst db r) \<noteq> RESULT_PASS)
      then db' = set_root_cause RC_NOT i db
      else if \<exists>r \<in> below. i_root_cause (inst db r) = RC_CANDIDATE then db' = db
      else made_root_cause i db db')"

lemma determine_spec:
  assumes good: "rci_good db"
  shows "\<exists>db'. rci_determine_if_root_cause i db = Some (True, db') \<and> sched_step db db' \<and> determined i db db'"
proof (cases "i_state (inst db i) \<noteq> STATE_ENABLED \<or> i_root_cause (inst db i) \<noteq> RC_CANDIDATE \<or>
         i_last_result (inst db i) \<noteq> RESULT_FAIL")
  case True
  then show ?thesis using sched_step_refl [OF good]
    by (auto simp: rci_determine_if_root_cause_def determined_def)
next
  case False
  let ?nm = "member_name db i"
  let ?below = "rules_below db ?nm i RCI_MAP_CHILDREN"
  have en: "r \<in> ?below \<Longrightarrow> i_state (inst db r) = STATE_ENABLED" for r by (simp add: rules_below_def)
  obtain v1 where p: "rci_map_function i ?nm RCI_MAP_CHILDREN rci_is_passed True [] db =
      Some (\<not> walk_error db i RCI_MAP_CHILDREN \<and> (\<forall>r \<in> ?below. i_last_result (inst db r) = RESULT_PASS), v1, db)"
    using passed.map_all [OF good, of i ?nm RCI_MAP_CHILDREN] by (auto simp: en cong: ball_cong)
  obtain v2 where n: "rci_map_function i ?nm RCI_MAP_CHILDREN rci_not_rcc True [] db =
      Some (\<not> walk_error db i RCI_MAP_CHILDREN \<and> (\<forall>r \<in> ?below. i_root_cause (inst db r) \<noteq> RC_CANDIDATE), v2, db)"
    using not_rcc.map_all [OF good, of i ?nm RCI_MAP_CHILDREN] by (auto simp: en cong: ball_cong)
  consider (failing) "walk_error db i RCI_MAP_CHILDREN \<or> (\<exists>r \<in> ?below. i_last_result (inst db r) \<noteq> RESULT_PASS)"
    | (waiting) "\<not> walk_error db i RCI_MAP_CHILDREN" "\<forall>r \<in> ?below. i_last_result (inst db r) = RESULT_PASS"
      "\<exists>r \<in> ?below. i_root_cause (inst db r) = RC_CANDIDATE"
    | (rc) "\<not> walk_error db i RCI_MAP_CHILDREN" "\<forall>r \<in> ?below. i_last_result (inst db r) = RESULT_PASS"
      "\<forall>r \<in> ?below. i_root_cause (inst db r) \<noteq> RC_CANDIDATE"
    by blast
  then show ?thesis
  proof cases
    case failing
    then have "rci_determine_if_root_cause i db = Some (True, set_root_cause RC_NOT i db)"
      using False p by (auto simp: rci_determine_if_root_cause_def)
    moreover have "determined i db (set_root_cause RC_NOT i db)"
      using False failing by (simp add: determined_def Let_def)
    ultimately show ?thesis using set_root_cause_step [OF good] by blast
  next
    case waiting
    then have "rci_determine_if_root_cause i db = Some (True, db)"
      using False p n by (auto simp: rci_determine_if_root_cause_def)
    moreover have "determined i db db"
      using False waiting by (simp add: determined_def Let_def)
    ultimately show ?thesis using sched_step_refl [OF good] by blast
  next
    case rc
    obtain s where s: "rci_propagate_rule_change i RESULT_FAIL (set_root_cause RC i db) = Some s"
      "sched_step db (myrefl_seq_from_root_cause i s)" "made_root_cause i db (myrefl_seq_from_root_cause i s)"
      using make_root_cause [OF good] by blast
    have "rci_determine_if_root_cause i db = Some (True, myrefl_seq_from_root_cause i s)"
      using False p n rc s(1) by (simp add: rci_determine_if_root_cause_def)
    moreover have "determined i db (myrefl_seq_from_root_cause i s)"
      using False rc s(3) by (simp add: determined_def Let_def)
    ultimately show ?thesis using s(2) by blast
  qed
qed

interpretation determine: rci_step rci_determine_if_root_cause
  by unfold_locales (use determine_spec in blast)

section \<open>Reports without recursion\<close>

text \<open>A rule that starts to fail, with no enabled rule below it, is the root cause at once.\<close>

lemma failed_leaf:
  assumes good: "rci_good db" and rc: "i_root_cause (inst db i) = RC_NOT"
    and leaf: "\<not> walk_error db i RCI_MAP_CHILDREN" "rules_below db None i RCI_MAP_CHILDREN = {}"
  shows "\<exists>db'. rci_handle_failed_rule_status_report i c db = Some db' \<and> sched_step db db' \<and> made_root_cause i db db'"
proof -
  obtain v where "rci_map_function i None RCI_MAP_CHILDREN rci_is_enabled False [] db = Some (False, v, db)"
    using enabled.map_any [OF good, of i None RCI_MAP_CHILDREN] leaf by auto
  then show ?thesis
    using make_root_cause [OF good, of i] rc
    by (auto simp: rci_handle_failed_rule_status_report_def)
qed

text \<open>A passing rule that was acquitted stays so while the rules above it are decided.\<close>

definition acquitted :: "iref \<Rightarrow> db \<Rightarrow> bool" where
  "acquitted i db \<longleftrightarrow> i_last_result (inst db i) = RESULT_PASS \<and> i_root_cause (inst db i) = RC_NOT"

lemma acquitted_verdicts: "verdicts db' i = verdicts db i \<Longrightarrow> acquitted i db \<Longrightarrow> acquitted i db'"
  by (simp add: acquitted_def verdicts_def)

lemma determine_acquitted:
  assumes "rci_good db" and a: "acquitted i db" and "rci_determine_if_root_cause r db = Some (b, db')"
  shows "acquitted i db'"
proof -
  have d: "determined r db db'" using determine_spec [OF assms(1), of r] assms(3) by auto
  show ?thesis
  proof (cases "r = i")
    case True
    then show ?thesis using d a by (simp add: determined_def acquitted_def)
  next
    case False
    have "verdicts db' i = verdicts db i"
      if "made_root_cause r db db'"
    proof -
      from that False have "verdicts db' i = verdicts db i \<or> i_root_cause (inst db i) = RC"
        unfolding made_root_cause_def by metis
      then show ?thesis using a by (simp add: acquitted_def)
    qed
    then show ?thesis using d a False acquitted_verdicts [OF _ a, of db']
      by (auto simp: determined_def Let_def acquitted_def split: if_splits)
  qed
qed

lemma propagate_pass_acquitted:
  assumes "rci_good db" and a: "acquitted i db"
    and run: "rci_apply_propagate_rule_change roi RESULT_PASS r db = Some (b, db')"
  shows "acquitted i db'"
proof (cases "i_last_result (inst db r) = RESULT_FAIL \<and> i_root_cause (inst db r) = RC_NOT")
  case True
  then have ri: "r \<noteq> i" using a by (auto simp: acquitted_def)
  have m: "acquitted i (set_root_cause RC_CANDIDATE r db)"
    using a ri by (simp add: acquitted_def)
  obtain t where "myrefl_sched_rule_immediate r (set_root_cause RC_CANDIDATE r db) = Some t"
    "verdicts t = verdicts (set_root_cause RC_CANDIDATE r db)"
    using good_rule_immediate rci_good_step [OF assms(1) set_root_cause_step [OF assms(1)]] by blast
  then show ?thesis using run True acquitted_verdicts [OF _ m] by (auto simp: rci_apply_propagate_rule_change_def)
next
  case False
  then have "db' = db" using run by (simp only: rci_apply_propagate_rule_change_def if_False) simp
  then show ?thesis using a by simp
qed

lemma passed_report:
  assumes good: "rci_good db" and p: "i_last_result (inst db i) = RESULT_PASS"
  shows "\<exists>db'. rci_handle_passed_rule_status_report i c db = Some db' \<and> sched_step db db' \<and> acquitted i db'"
proof -
  define m where "m = (if i_root_cause (inst db i) = RC_CANDIDATE \<or> i_root_cause (inst db i) = RC
               then set_root_cause RC_NOT i db else db)"
  have st: "sched_step db m" using sched_step_refl [OF good] set_root_cause_step [OF good] by (simp add: m_def)
  have a: "acquitted i m" using p by (cases "i_root_cause (inst db i)") (auto simp: m_def acquitted_def)
  note gm = rci_good_step [OF good st]
  obtain b v s where s: "rci_map_function i (member_name m i) RCI_MAP_PARENTS rci_determine_if_root_cause True [] m = Some (b, v, s)"
    "sched_step m s" "acquitted i s"
    by (atomize_elim, rule determine.map_inv [where P = "acquitted i", OF gm a]) (rule determine_acquitted)
  note gs = rci_good_step [OF gm s(2)] and ss = sched_step_trans [OF st s(2)]
  obtain b2 v2 t where t: "rci_map_function i (member_name s i) RCI_MAP_PARENTS
      (rci_apply_propagate_rule_change i RESULT_PASS) True [] s = Some (b2, v2, t)" "sched_step s t" "acquitted i t"
    by (atomize_elim, rule propagate.map_inv [where P = "acquitted i", OF gs s(3)]) (rule propagate_pass_acquitted)
  have run: "rci_handle_passed_rule_status_report i c db =
      (if c then rci_propagate_rule_change i RESULT_PASS s else Some s)"
    unfolding rci_handle_passed_rule_status_report_def Let_def m_def [symmetric] s(1) by simp
  show ?thesis
  proof (cases c)
    case True
    then show ?thesis using run t sched_step_trans [OF ss t(2)] by (simp add: rci_propagate_rule_change_def)
  next
    case False
    then show ?thesis using run s(3) ss by simp
  qed
qed

end
