(* ===== verification/RciAnalysis.thy ===== *)
theory RciAnalysis
  imports RciVerdict
begin

text \<open>
  A new analysis (\<open>rci_schedule_dependent_rules\<close> in \<^verbatim>\<open>src/src/myrefl_rci.c\<close>) calls itself through
  the walk over the dependencies. Here: what it does when it returns, that it returns when the
  rules below each other are ranked, and that it does not return on a ring of passing rules.
\<close>

section \<open>Walks with a function that may not return\<close>

text \<open>The locale \<open>rci_step\<close> asks the function to return; here it works on the queues if it does.\<close>

definition step_if_returns :: "rci_fun \<Rightarrow> bool" where
  "step_if_returns f \<longleftrightarrow> (\<forall>r s b t. rci_good s \<longrightarrow> f r s = Some (b, t) \<longrightarrow> sched_step s t)"

lemma rci_map_cases:
  assumes good: "rci_good db" and f: "step_if_returns f"
  shows "\<exists>v xs. {r \<in> set xs. i_state (inst db r) = STATE_ENABLED} = rules_below db nm i dir \<and>
    rci_map_function i nm dir f d [] db =
      map_option (\<lambda>(ret, s). (if walk_error db i dir then \<not> d else ret, v, s)) (rci_apply f d xs (d, db))"
proof -
  obtain rank where g: "linked db" "contained_ranked rank db" "depends_bounded db"
    using good by (auto simp: rci_good_def)
  obtain v xs where w: "fresh_walk db nm i dir v xs" using rci_map_fresh [OF g] by blast
  have "sched_step db t" if "sched_step db s" "f r s = Some (b, t)" for r s b t
    using that f rci_good_step [OF good] sched_step_trans unfolding step_if_returns_def by blast
  then have "walk_is_loop (sched_step db) f d nm i dir [] (walk_error db i dir, v, xs)"
    using w unfolding fresh_walk_def by (metis sched_step_def)
  then show ?thesis
    using w sched_step_refl [OF good] by (auto simp: fresh_walk_def walk_is_loop_def loop_result_def)
qed

section \<open>What an analysis does\<close>

text \<open>Rules that pass, are not candidates, and each have another of them below: a ring.\<close>

definition ring :: "iref set \<Rightarrow> db \<Rightarrow> bool" where
  "ring S db \<longleftrightarrow> (\<forall>r \<in> S. i_last_result (inst db r) = RESULT_PASS \<and> i_root_cause (inst db r) \<noteq> RC_CANDIDATE \<and>
     S \<inter> rules_below db (member_name db r) r RCI_MAP_CHILDREN \<noteq> {})"

definition keeps_results :: "db \<Rightarrow> db \<Rightarrow> bool" where
  "keeps_results db db' \<longleftrightarrow> (\<forall>r. i_last_result (inst db' r) = i_last_result (inst db r))"

lemma keeps_results_refl [simp]: "keeps_results db db"
  by (simp add: keeps_results_def)

lemma keeps_results_trans: "keeps_results a b \<Longrightarrow> keeps_results b c \<Longrightarrow> keeps_results a c"
  by (simp add: keeps_results_def)

lemma verdicts_keeps_results: "verdicts db' = verdicts db \<Longrightarrow> keeps_results db db'"
  by (auto simp: keeps_results_def dest: verdictsD(2))

lemma ring_step:
  assumes "ring S db" and "runtime db db'" and "\<And>r. r \<in> S \<Longrightarrow> verdicts db' r = verdicts db r"
  shows "ring S db'"
proof -
  have "i_last_result (inst db' r) = i_last_result (inst db r)" "i_root_cause (inst db' r) = i_root_cause (inst db r)"
    if "r \<in> S" for r using assms(3) [OF that] by (simp_all add: verdicts_def)
  then show ?thesis
    using assms(1) unfolding ring_def by (simp add: rules_below_runtime [OF assms(2)] member_name_runtime [OF assms(2)])
qed

definition analysed :: "iref \<Rightarrow> db \<Rightarrow> bool \<Rightarrow> db \<Rightarrow> bool" where
  "analysed i db mark db' \<longleftrightarrow>
     sched_step db db' \<and> keeps_results db db' \<and>
     i_root_cause (inst db' i) = (if mark then RC_CANDIDATE else RC_NOT) \<and>
     (mark \<longrightarrow> \<not> walk_error db i RCI_MAP_CHILDREN \<and>
        (\<forall>r \<in> rules_below db (member_name db i) i RCI_MAP_CHILDREN. i_last_result (inst db r) = RESULT_PASS)) \<and>
     (\<forall>S. ring S db \<longrightarrow> i \<notin> S \<and> ring S db')"

text \<open>The function that is mapped, over the analysis of a rule.\<close>

definition analyse_below :: "rci_fun \<Rightarrow> rci_fun" where
  "analyse_below rec r db =
     (if i_last_result (inst db r) = RESULT_PASS then
        (if i_root_cause (inst db r) \<noteq> RC_CANDIDATE then
           Option.bind (rec r db) (\<lambda>(mark, db). map_option (Pair mark) (myrefl_sched_rule_immediate r db))
         else Some (True, db))
      else Some (False, db))"

definition analysed_below :: "iref \<Rightarrow> db \<Rightarrow> bool \<Rightarrow> db \<Rightarrow> bool" where
  "analysed_below r db b db' \<longleftrightarrow> sched_step db db' \<and> keeps_results db db' \<and>
     (b \<longrightarrow> i_last_result (inst db r) = RESULT_PASS) \<and> (\<forall>S. ring S db \<longrightarrow> r \<notin> S \<and> ring S db')"

lemma analyse_below_spec:
  assumes rec: "\<And>r s b t. rec r s = Some (b, t) \<Longrightarrow> rci_good s \<Longrightarrow> analysed r s b t"
    and good: "rci_good s" and run: "analyse_below rec r s = Some (b, t)"
  shows "analysed_below r s b t"
proof (cases "i_last_result (inst s r) = RESULT_PASS \<and> i_root_cause (inst s r) \<noteq> RC_CANDIDATE")
  case False
  then have "t = s \<and> (b \<longrightarrow> i_last_result (inst s r) = RESULT_PASS)"
    using run by (auto simp: analyse_below_def split: if_splits)
  moreover have "r \<notin> S" if "ring S s" for S using that False by (auto simp: ring_def)
  ultimately show ?thesis using sched_step_refl [OF good] by (simp add: analysed_below_def)
next
  case True
  then obtain u where u: "rec r s = Some (b, u)" "myrefl_sched_rule_immediate r u = Some t"
    using run by (auto simp: analyse_below_def bind_eq_Some_conv)
  note a = rec [OF u(1) good]
  then have su: "sched_step s u" by (simp add: analysed_def)
  have t: "sched_step u t" "verdicts t = verdicts u"
    using good_rule_immediate [OF rci_good_step [OF good su], of r] u(2) by auto
  have "ring S t" if "ring S u" for S
    by (rule ring_step [OF that]) (use t in \<open>simp_all add: sched_step_def\<close>)
  then show ?thesis
    using a True sched_step_trans [OF su t(1)] keeps_results_trans [OF _ verdicts_keeps_results [OF t(2)]]
    by (auto simp: analysed_below_def analysed_def)
qed

lemma apply_analyse_below:
  assumes f: "\<And>r s b t. rci_good s \<Longrightarrow> f r s = Some (b, t) \<Longrightarrow> analysed_below r s b t"
    and "rci_good s" and "rci_apply f True xs (ret, s) = Some (b, t)"
  shows "sched_step s t \<and> keeps_results s t \<and>
    (b \<longrightarrow> ret \<and> (\<forall>r \<in> set xs. i_state (inst s r) = STATE_ENABLED \<longrightarrow> i_last_result (inst s r) = RESULT_PASS)) \<and>
    (\<forall>S. ring S s \<longrightarrow> (\<forall>r \<in> set xs. i_state (inst s r) = STATE_ENABLED \<longrightarrow> r \<notin> S) \<and> ring S t)"
  using assms(2,3)
proof (induction xs arbitrary: ret s)
  case Nil
  then show ?case using sched_step_refl by (auto simp: rci_apply_def)
next
  case (Cons x xs)
  show ?case
  proof (cases "i_state (inst s x) = STATE_ENABLED")
    case True
    with Cons.prems(2) obtain a u where x: "f x s = Some (a, u)"
      and xs: "rci_apply f True xs (rci_note True a ret, u) = Some (b, t)"
      by (auto simp: rci_apply_def bind_eq_Some_conv)
    note au = f [OF Cons.prems(1) x]
    then have su: "sched_step s u" and ru: "keeps_results s u" by (simp_all add: analysed_below_def)
    have en: "i_state (inst u r) = i_state (inst s r)" for r using su by (simp add: sched_step_def runtimeD)
    note ih = Cons.IH [OF rci_good_step [OF Cons.prems(1) su] xs]
    have "b \<longrightarrow> ret \<and> i_last_result (inst s x) = RESULT_PASS"
      using ih au by (auto simp: rci_note_def analysed_below_def split: if_splits)
    then show ?thesis
      using ih au ru sched_step_trans [OF su] keeps_results_trans [OF ru]
      by (auto simp: analysed_below_def en keeps_results_def)
  next
    case False
    with Cons.prems(2) have "rci_apply f True xs (ret, s) = Some (b, t)" by (simp add: rci_apply_def)
    with Cons.IH [OF Cons.prems(1) this] False show ?thesis by auto
  qed
qed

lemma analysed_step_if_returns:
  "(\<And>r s b t. rci_good s \<Longrightarrow> f r s = Some (b, t) \<Longrightarrow> analysed_below r s b t) \<Longrightarrow> step_if_returns f"
  by (auto simp: step_if_returns_def analysed_below_def)

lemma schedule_analysed:
  assumes "rci_schedule_dependent_rules i db = Some (mark, db')" and "rci_good db"
  shows "analysed i db mark db'"
proof -
  let ?P = "\<lambda>i db (mark, db'). rci_good db \<longrightarrow> analysed i db mark db'"
  have "?P i db (mark, db')"
  proof (rule rci_schedule_dependent_rules.raw_induct [where P = ?P, OF _ assms(1)], goal_cases)
    case (1 rec i db res)
    obtain mark db' where res: "res = (mark, db')" by (cases res)
    have rec: "analysed r s b t" if "rec r s = Some (b, t)" "rci_good s" for r s b t
      using 1(1) [OF that(1)] that(2) by simp
    let ?f = "analyse_below rec"
    note below = analyse_below_spec [of rec, OF rec]
    show ?case unfolding res prod.case
    proof (rule impI)
      assume good: "rci_good db"
      obtain v xs where w: "{r \<in> set xs. i_state (inst db r) = STATE_ENABLED} =
          rules_below db (member_name db i) i RCI_MAP_CHILDREN"
        "rci_map_function i (member_name db i) RCI_MAP_CHILDREN ?f True [] db =
          map_option (\<lambda>(ret, s). (if walk_error db i RCI_MAP_CHILDREN then \<not> True else ret, v, s)) (rci_apply ?f True xs (True, db))"
        using rci_map_cases [OF good analysed_step_if_returns [OF below]] by blast
      have "Option.bind (rci_map_function i (member_name db i) RCI_MAP_CHILDREN ?f True [] db)
          (\<lambda>(mark, _, db). Some (mark, set_root_cause (if mark then RC_CANDIDATE else RC_NOT) i db)) = Some (mark, db')"
        using 1(2) unfolding res analyse_below_def [abs_def] .
      then obtain ret s where s: "rci_apply ?f True xs (True, db) = Some (ret, s)"
        "mark = (\<not> walk_error db i RCI_MAP_CHILDREN \<and> ret)"
        "db' = set_root_cause (if mark then RC_CANDIDATE else RC_NOT) i s"
        unfolding w(2) by (auto simp: bind_eq_Some_conv split: if_splits)
      note a = apply_analyse_below [OF below good s(1)]
      then have st: "sched_step db s" by blast
      note st2 = set_root_cause_step [OF rci_good_step [OF good st], of "if mark then RC_CANDIDATE else RC_NOT" i]
      have "i \<notin> S \<and> ring S db'" if S: "ring S db" for S
      proof -
        have "S \<inter> rules_below db (member_name db i) i RCI_MAP_CHILDREN = {}"
          using a S unfolding w(1) [symmetric] by blast
        then have "i \<notin> S" using S by (auto simp: ring_def)
        moreover have "ring S db'"
        proof (rule ring_step [of S s])
          show "ring S s" using a S by blast
          show "runtime s db'" using st2 s(3) by (simp add: sched_step_def)
          fix r
          assume "r \<in> S"
          then have "r \<noteq> i" using \<open>i \<notin> S\<close> by blast
          then show "verdicts db' r = verdicts s r" by (simp add: s(3) verdicts_set_root_cause)
        qed
        ultimately show ?thesis by blast
      qed
      moreover have "keeps_results db db'"
      proof (rule keeps_results_trans)
        show "keeps_results db s" using a by blast
        show "keeps_results s db'" by (simp add: s(3) keeps_results_def)
      qed
      moreover have "mark \<longrightarrow> \<not> walk_error db i RCI_MAP_CHILDREN \<and>
        (\<forall>r \<in> rules_below db (member_name db i) i RCI_MAP_CHILDREN. i_last_result (inst db r) = RESULT_PASS)"
      proof (intro impI conjI ballI)
        fix r
        assume "mark" "r \<in> rules_below db (member_name db i) i RCI_MAP_CHILDREN"
        then have "r \<in> set xs" "i_state (inst db r) = STATE_ENABLED" "ret" using w(1) s(2) by auto
        then show "i_last_result (inst db r) = RESULT_PASS" using a by blast
      qed (use s(2) in blast)
      ultimately show "analysed i db mark db'"
        unfolding analysed_def using sched_step_trans [OF st st2] s(3) by simp
    qed
  qed
  then show ?thesis using assms(2) by simp
qed

section \<open>Whether an analysis returns\<close>

text \<open>On a ring of passing rules it does not.\<close>

lemma schedule_on_ring:
  assumes "rci_good db" and "ring S db" and "i \<in> S"
  shows "rci_schedule_dependent_rules i db = None"
proof (cases "rci_schedule_dependent_rules i db")
  case (Some p)
  obtain mark db' where "p = (mark, db')" by (cases p)
  then show ?thesis using schedule_analysed [of i db mark db'] Some assms by (auto simp: analysed_def)
qed

text \<open>It does when what is below a rule has a smaller rank.\<close>

definition rules_ranked :: "(iref \<Rightarrow> nat) \<Rightarrow> db \<Rightarrow> bool" where
  "rules_ranked rank db \<longleftrightarrow>
     (\<forall>i. \<forall>r \<in> rules_below db (member_name db i) i RCI_MAP_CHILDREN. rank r < rank i)"

lemma rules_ranked_runtime: "runtime db db' \<Longrightarrow> rules_ranked rank db' = rules_ranked rank db"
  by (simp add: rules_ranked_def rules_below_runtime member_name_runtime)

lemma apply_returns_on:
  assumes good: "rci_good db" and f: "step_if_returns f"
    and returns: "\<And>r s. r \<in> set xs \<Longrightarrow> i_state (inst db r) = STATE_ENABLED \<Longrightarrow> sched_step db s \<Longrightarrow> f r s \<noteq> None"
  shows "rci_apply f d xs (ret, db) \<noteq> None"
proof -
  have "\<exists>t. rci_apply f d xs (ret, db) = Some t \<and> sched_step db (snd t)"
    unfolding rci_apply_def
  proof (rule foldM_prefix [where P = "\<lambda>_ t. sched_step db (snd t)"])
    show "sched_step db (snd (ret, db))" using sched_step_refl good by simp
    fix ys x zs and s :: "bool \<times> db"
    assume x: "xs = ys @ x # zs" and s: "sched_step db (snd s)"
    have en: "i_state (inst (snd s) x) = i_state (inst db x)" using s by (simp add: sched_step_def runtimeD)
    show "\<exists>t. (case s of (retval, db) \<Rightarrow>
         if i_state (inst db x) = STATE_ENABLED then
           map_option (\<lambda>(answer, db). (rci_note d answer retval, db)) (f x db)
         else Some (retval, db)) = Some t \<and> sched_step db (snd t)"
    proof (cases "i_state (inst db x) = STATE_ENABLED")
      case True
      then obtain a t where t: "f x (snd s) = Some (a, t)" using returns [of x "snd s"] x s by fastforce
      then have "sched_step db t"
        using f rci_good_step [OF good s] sched_step_trans [OF s] unfolding step_if_returns_def by blast
      then show ?thesis using True t en by (cases s) simp
    qed (use s en in \<open>cases s, simp\<close>)
  qed
  then show ?thesis by auto
qed

lemma guts_analyse: "rci_schedule_dependent_rules_guts = analyse_below rci_schedule_dependent_rules"
  by (intro ext) (simp add: rci_schedule_dependent_rules_guts_def analyse_below_def)

lemma schedule_returns:
  assumes "rci_good db" and "rules_ranked rank db"
  shows "\<exists>mark db'. rci_schedule_dependent_rules i db = Some (mark, db') \<and> analysed i db mark db'"
  using assms
proof (induction "rank i" arbitrary: i db rule: less_induct)
  case less
  let ?f = "analyse_below rci_schedule_dependent_rules"
  have below: "analysed_below r s b t" if "rci_good s" "?f r s = Some (b, t)" for r s b t
    by (rule analyse_below_spec [OF _ that]) (rule schedule_analysed)
  note f = analysed_step_if_returns [OF below]
  obtain v xs where w: "{r \<in> set xs. i_state (inst db r) = STATE_ENABLED} =
      rules_below db (member_name db i) i RCI_MAP_CHILDREN"
    "rci_map_function i (member_name db i) RCI_MAP_CHILDREN ?f True [] db =
      map_option (\<lambda>(ret, s). (if walk_error db i RCI_MAP_CHILDREN then \<not> True else ret, v, s)) (rci_apply ?f True xs (True, db))"
    using rci_map_cases [OF less.prems(1) f] by blast
  have "rci_apply ?f True xs (True, db) \<noteq> None"
  proof (rule apply_returns_on [OF less.prems(1) f])
    fix r s
    assume r: "r \<in> set xs" "i_state (inst db r) = STATE_ENABLED" and s: "sched_step db s"
    have "rank r < rank i" using less.prems(2) w(1) r by (auto simp: rules_ranked_def)
    moreover have gs: "rci_good s" "rules_ranked rank s"
      using rci_good_step [OF less.prems(1) s] less.prems(2) rules_ranked_runtime [of db s] s
      by (simp_all add: sched_step_def)
    ultimately obtain m t where t: "rci_schedule_dependent_rules r s = Some (m, t)" "analysed r s m t"
      using less.hyps by blast
    then have "sched_step s t" by (simp add: analysed_def)
    then obtain u where "myrefl_sched_rule_immediate r t = Some u"
      using good_rule_immediate rci_good_step [OF gs(1)] by blast
    then show "?f r s \<noteq> None" using t by (auto simp: analyse_below_def)
  qed
  then have "rci_schedule_dependent_rules i db \<noteq> None"
    unfolding rci_schedule_dependent_rules_unfold [of i db] guts_analyse w(2) by auto
  then show ?case using schedule_analysed [OF _ less.prems(1)] by auto
qed

section \<open>Reports\<close>

lemma failed_report_returns:
  assumes good: "rci_good db" and ranked: "rules_ranked rank db"
  shows "\<exists>db'. rci_handle_failed_rule_status_report i c db = Some db' \<and> sched_step db db'"
proof -
  obtain b v where e: "rci_map_function i None RCI_MAP_CHILDREN rci_is_enabled False [] db = Some (b, v, db)"
    using enabled.map_any [OF good] by blast
  obtain m s where s: "rci_schedule_dependent_rules i db = Some (m, s)" "sched_step db s"
    using schedule_returns [OF good ranked, of i] by (auto simp: analysed_def)
  obtain t where t: "rci_determine_if_root_cause i db = Some (True, t)" "sched_step db t"
    using determine_spec [OF good, of i] by blast
  obtain u where u: "rci_propagate_rule_change i RESULT_FAIL (set_root_cause RC i db) = Some u"
    "sched_step db (myrefl_seq_from_root_cause i u)"
    using make_root_cause [OF good, of i] by blast
  show ?thesis
    using e s t u sched_step_refl [OF good] by (simp add: rci_handle_failed_rule_status_report_def)
qed

lemma passed_report_returns:
  assumes good: "rci_good db"
  shows "\<exists>db'. rci_handle_passed_rule_status_report i c db = Some db' \<and> sched_step db db'"
proof -
  define m where "m = (if i_root_cause (inst db i) = RC_CANDIDATE \<or> i_root_cause (inst db i) = RC
               then set_root_cause RC_NOT i db else db)"
  have st: "sched_step db m" using sched_step_refl [OF good] set_root_cause_step [OF good] by (simp add: m_def)
  obtain b v s where s: "rci_map_function i (member_name m i) RCI_MAP_PARENTS rci_determine_if_root_cause True [] m = Some (b, v, s)"
    "sched_step m s"
    using determine.map_returns [OF rci_good_step [OF good st]] by blast
  note ss = sched_step_trans [OF st s(2)]
  obtain b2 v2 t where "rci_map_function i (member_name s i) RCI_MAP_PARENTS
      (rci_apply_propagate_rule_change i RESULT_PASS) True [] s = Some (b2, v2, t)" "sched_step s t"
    using propagate.map_returns [OF rci_good_step [OF good ss]] by blast
  then show ?thesis
    unfolding rci_handle_passed_rule_status_report_def Let_def m_def [symmetric]
    using s(1) ss sched_step_trans [OF ss] by (simp add: rci_propagate_rule_change_def)
qed

lemma rci_run_returns:
  assumes good: "rci_good db" and ranked: "rules_ranked rank db"
  shows "\<exists>db'. myrefl_rci_run i r db = Some db' \<and> sched_step db db'"
proof -
  have l: "linked db" using good by (simp add: rci_good_def)
  obtain t where "myrefl_sched_rule_immediate i db = Some t" "sched_step db t"
    using good_rule_immediate [OF good] by blast
  then show ?thesis
    using failed_report_returns [OF good ranked, of i] passed_report_returns [OF good, of i] sched_step_refl [OF good]
    by (simp add: myrefl_rci_run_def validate_linked [OF l] Let_def)
qed

end
