(* ===== verification/Demo.thy ===== *)
theory Demo
  imports RciAnalysis
begin

text \<open>
  A small database for the concrete instances of the properties: the system component
  (object 0) with one polled test (1) and two rules (2 and 3), both triggered by the test; rule 2
  depends on rule 3. The test waits on the fast queue.
\<close>

definition demo_rule :: obj_rule where
  "demo_rule = \<lparr>r_operator = RULE_ON_FAIL, r_default_operator = RULE_ON_FAIL, r_op_n = 0, r_op_m = 0,
     r_default_op_n = 0, r_default_op_m = 0, r_inputs = [1], r_action_list = [], r_output = None,
     r_next_in_input = None, r_severity = 100\<rparr>"

definition demo_test :: obj_test where
  "demo_test = \<lparr>t_type = POLLED, t_rule = Some 2, t_function = Some 0, t_period = MYREFL_PERIOD_FAST,
     t_default_period = MYREFL_PERIOD_FAST, t_autopass = AUTOPASS_UNSET\<rparr>"

definition demo_comp :: obj_comp where
  "demo_comp = \<lparr>c_nones = [], c_tests = [1], c_actions = [], c_rules = [2, 3], c_comps = [],
     c_top_depend = [2], c_bottom_depend = [3], c_interested = []\<rparr>"

definition demo_obj :: "oid \<Rightarrow> obj" where
  "demo_obj x =
     (if x = 0 then blank_obj\<lparr>o_data := DComp demo_comp\<rparr>
      else if x = 1 then blank_obj\<lparr>o_data := DTest demo_test, o_parent_comp := Some 0\<rparr>
      else if x = 2 then blank_obj\<lparr>o_data := DRule (demo_rule\<lparr>r_next_in_input := Some 3\<rparr>),
        o_parent_comp := Some 0, o_child_depend := [3], o_domain := 1\<rparr>
      else if x = 3 then blank_obj\<lparr>o_data := DRule demo_rule, o_parent_comp := Some 0,
        o_parent_depend := [2], o_domain := 1\<rparr>
      else blank_obj)"

definition demo_name :: "oid \<Rightarrow> name" where
  "demo_name x = (if x = 0 then SYSTEM_COMP_NAME else if x = 1 then ''test'' else if x = 2 then ''top'' else ''bottom'')"

definition demo_inst :: "iref \<Rightarrow> obj_instance" where
  "demo_inst i = blank_instance\<lparr>i_name := demo_name (obj_of i),
     i_state := (if obj_of i < 4 \<and> index_of i = 0 then STATE_ENABLED else STATE_DELETED),
     i_sched := \<lparr>queued = (if i = base 1 then QUEUE_FAST else QUEUE_NONE),
       last_time = XosTime 0 0, next_time = XosTime 5 0\<rparr>\<rparr>"

definition demo_db :: db where
  "demo_db = empty_db\<lparr>objs := demo_obj, insts := demo_inst, system_comp := Some 0,
     queues := (\<lambda>q. if q = QUEUE_NONE then None else Some (if q = QUEUE_FAST then [base 1] else [])),
     queues_blocked := False, start_timer := True, next_oid := 4, next_domain := 2,
     domains := [\<lparr>d_number = 1, d_reachable = []\<rparr>], clock := (\<lambda>n. XosTime (7 + of_nat n) 0)\<rparr>"

section \<open>Reading it\<close>

lemma demo_objs [simp]: "objs demo_db = demo_obj" "inst demo_db = demo_inst" "insts demo_db = demo_inst"
  by (simp_all add: demo_db_def inst_def fun_eq_iff)

lemma demo_fields:
  "queues demo_db = (\<lambda>q. if q = QUEUE_NONE then None else Some (if q = QUEUE_FAST then [base 1] else []))"
  "queues_blocked demo_db = False" "ticks demo_db = 0" "clock demo_db n = XosTime (7 + of_nat n) 0"
  "next_oid demo_db = 4" "jobs demo_db = []" "healths demo_db x = blank_health"
  "domains demo_db = [\<lparr>d_number = 1, d_reachable = []\<rparr>]"
  by (simp_all add: demo_db_def empty_db_def)

lemma demo_obj_simps [simp]:
  "demo_obj 0 = blank_obj\<lparr>o_data := DComp demo_comp\<rparr>"
  "demo_obj (Suc 0) = blank_obj\<lparr>o_data := DTest demo_test, o_parent_comp := Some 0\<rparr>"
  "demo_obj 2 = blank_obj\<lparr>o_data := DRule (demo_rule\<lparr>r_next_in_input := Some 3\<rparr>),
     o_parent_comp := Some 0, o_child_depend := [3], o_domain := 1\<rparr>"
  "demo_obj 3 = blank_obj\<lparr>o_data := DRule demo_rule, o_parent_comp := Some 0,
     o_parent_depend := [2], o_domain := 1\<rparr>"
  by (simp_all add: demo_obj_def)

lemma demo_inst_base: "demo_inst (base x) = blank_instance\<lparr>i_name := demo_name x,
     i_state := (if x < 4 then STATE_ENABLED else STATE_DELETED),
     i_sched := \<lparr>queued = (if x = 1 then QUEUE_FAST else QUEUE_NONE),
       last_time = XosTime 0 0, next_time = XosTime 5 0\<rparr>\<rparr>"
  by (simp add: demo_inst_def base_def)

lemma demo_cases: "x < 4 \<longleftrightarrow> x = 0 \<or> x = Suc 0 \<or> x = 2 \<or> x = (3 :: nat)"
  by auto

lemma demo_reads:
  "rule_of demo_db 2 = Some (demo_rule\<lparr>r_next_in_input := Some 3\<rparr>)" "rule_of demo_db 3 = Some demo_rule"
  "test_of demo_db (Suc 0) = Some demo_test" "comp_of demo_db 0 = Some demo_comp"
  "input_head demo_db (Suc 0) = Some (Some 2)"
  by (simp_all add: rule_of_def test_of_def comp_of_def input_head_def blank_obj_def demo_test_def)

lemma demo_chain:
  "in_input_chain (rule_of demo_db) 2 (Some 2) = Some True"
  "in_input_chain (rule_of demo_db) 3 (Some 2) = Some True"
  by (subst in_input_chain.simps, simp add: demo_reads, (subst in_input_chain.simps, simp)?)+

section \<open>It satisfies the invariants\<close>

lemma demo_linked: "linked demo_db"
proof -
  have "obj_linked demo_db x" if "x < 4" for x
    using that unfolding demo_cases
    by (elim disjE)
      (simp_all add: obj_linked_def inputs_linked_def demo_reads demo_chain demo_inst_base blank_obj_def
        demo_comp_def demo_test_def demo_rule_def demo_name_def blank_instance_def MYREFL_TEST_FLAG_ALL_def)
  then show ?thesis
    by (auto simp: linked_def demo_inst_base blank_instance_def)
qed

lemma demo_valid: "inst_valid demo_db i TYPE_TEST \<longleftrightarrow> i = base 1"
  by (cases i)
    (auto simp: inst_valid_def obj_valid_def demo_inst_def type_of_def blank_instance_def blank_obj_def
      demo_obj_def base_def test_consistent_def demo_test_def MYREFL_PERIOD_FAST_def)

lemma demo_sched: "sched_inv demo_db"
  by (auto simp: sched_inv_def sched_inv_but_def on_queue_def demo_valid queued_of_def next_time_of_def
      demo_inst_base demo_fields blank_instance_def split: if_splits)

lemma demo_contained: "contained_ranked (\<lambda>x. if x = 0 then 0 else 1) demo_db"
  by (auto simp: contained_ranked_def obj_valid_def demo_obj_def blank_obj_def comp_of_def demo_comp_def
      type_of_def split: if_splits)

lemma demo_inputs: "inputs_ranked (\<lambda>x. 0) demo_db"
  by (auto simp: inputs_ranked_def rule_of_def demo_obj_def blank_obj_def demo_rule_def type_of_def
      split: if_splits)

lemma demo_bounded: "depends_bounded demo_db"
  by (auto simp: depends_bounded_def rci_dependencies_def demo_obj_def blank_obj_def demo_comp_def
      demo_fields split: rci_dir.splits if_splits)

lemma demo_good: "rci_good demo_db"
  unfolding rci_good_def using demo_linked demo_sched demo_contained demo_inputs demo_bounded by blast

section \<open>Verdicts on its rules\<close>

text \<open>The database with a result and a root cause mark of a rule filled in.\<close>

definition judged :: "iref \<Rightarrow> result \<Rightarrow> root_cause \<Rightarrow> db \<Rightarrow> db" where
  "judged i r rc = upd_inst i (\<lambda>x. x\<lparr>i_last_result := r, i_root_cause := rc, i_last_result_count := 1\<rparr>)"

lemma judged_reads [simp]:
  "i_last_result (inst (judged i r rc db) j) = (if j = i then r else i_last_result (inst db j))"
  "i_root_cause (inst (judged i r rc db) j) = (if j = i then rc else i_root_cause (inst db j))"
  "i_state (inst (judged i r rc db) j) = i_state (inst db j)" "objs (judged i r rc db) = objs db"
  by (auto simp: judged_def upd_inst_def inst_def)

lemma judged_step: "rci_good db \<Longrightarrow> sched_step db (judged i r rc db)"
  using quiet_sched_step [of db "judged i r rc db"]
  by (simp add: rci_good_def quiet_def judged_def runtime_upd_inst inst_id_def) (simp add: upd_inst_def inst_def)

lemma judged_runtime: "rci_good db \<Longrightarrow> runtime db (judged i r rc db)"
  using judged_step by (simp add: sched_step_def)

lemma judged_good: "rci_good db \<Longrightarrow> rci_good (judged i r rc db)"
  by (rule rci_good_step [OF _ judged_step])

lemma obj_of_base [simp]: "obj_of (base x) = x"
  by (simp add: base_def)

lemma demo_test_ok: "test_consistent demo_test 0"
  by (simp add: test_consistent_def demo_test_def MYREFL_PERIOD_FAST_def)

lemma demo_obj_valid: "obj_valid demo_db (Some x) TYPE_ANY \<longleftrightarrow> x < 4"
proof
  assume "x < 4"
  then show "obj_valid demo_db (Some x) TYPE_ANY"
    unfolding demo_cases by (elim disjE) (simp_all add: obj_valid_def demo_inst_base blank_instance_def blank_obj_def demo_test_ok)
qed (simp add: obj_valid_def demo_inst_base blank_instance_def split: if_splits)

lemma demo_walks: "walks demo_db (base x) \<longleftrightarrow> x < 4"
  using demo_obj_valid [of x] by (auto simp: walks_def inst_valid_def demo_inst_base blank_instance_def)

lemma demo_neighbours:
  "neighbours demo_db (base x) dir =
     (if x = 1 then None
      else if x = 0 then Some (if dir = RCI_MAP_PARENTS then [3] else if dir = RCI_MAP_CHILDREN then [2] else [])
      else if x = 2 \<or> x = 3 then
        (if dir = RCI_MAP_PARENTS then Some (if x = 3 then [2] else [])
         else if dir = RCI_MAP_CHILDREN then Some (if x = 2 then [3] else []) else None)
      else Some [])"
proof (cases "x < 4")
  case True
  then show ?thesis
    unfolding neighbours_def demo_walks unfolding demo_cases
    by (elim disjE; cases dir) (simp_all add: rci_dependencies_def blank_obj_def demo_comp_def)
next
  case False
  then show ?thesis by (auto simp: neighbours_def demo_walks)
qed

lemma demo_next: "rci_next demo_db (base x) RCI_MAP_CHILDREN e \<longleftrightarrow> x = 2 \<and> e = 3 \<or> x = 0 \<and> e = 2"
proof
  have no_out: "\<not> rci_next demo_db (base 0) RCI_MAP_COMP_CHILDREN e" for e
  proof
    assume "rci_next demo_db (base 0) RCI_MAP_COMP_CHILDREN e"
    then show False by cases (simp_all add: demo_neighbours blank_obj_def split: if_splits)
  qed
  assume "rci_next demo_db (base x) RCI_MAP_CHILDREN e"
  then show "x = 2 \<and> e = 3 \<or> x = 0 \<and> e = 2"
  proof cases
    case (next_here ds)
    then show ?thesis by (auto simp: demo_neighbours split: if_splits)
  next
    case (next_out p c)
    then have "p = 0" by (auto simp: demo_walks demo_cases blank_obj_def)
    then show ?thesis using next_out no_out by (simp add: norm_dir_def rci_outwards_def)
  qed
next
  assume "x = 2 \<and> e = 3 \<or> x = 0 \<and> e = 2"
  then show "rci_next demo_db (base x) RCI_MAP_CHILDREN e"
    by (intro next_here [where ds = "[e]"]) (auto simp: demo_neighbours)
qed

lemma demo_below: "rci_below demo_db (base 2) RCI_MAP_CHILDREN e \<longleftrightarrow> e = 3"
proof
  assume "rci_below demo_db (base 2) RCI_MAP_CHILDREN e"
  then show "e = 3" by induction (auto simp: demo_next norm_dir_def)
qed (auto intro: below_next simp: demo_next)

lemma demo_targets: "rule_targets demo_db nm 3 = [base 3]"
  by (simp add: rule_targets_def all_instances_def type_of_def blank_obj_def base_def split: option.split)

lemma demo_rules_below: "rules_below demo_db nm (base 2) RCI_MAP_CHILDREN = {base 3}"
  by (auto simp: rules_below_def demo_below demo_targets demo_inst_base blank_instance_def)

lemma demo_no_error: "\<not> walk_error demo_db (base 2) RCI_MAP_CHILDREN"
  by (simp add: walk_error_def demo_below broken_def demo_neighbours norm_dir_def)

definition demo_rank :: "iref \<Rightarrow> nat" where
  "demo_rank r = (if obj_of r = 0 then 2 else if obj_of r = 2 then 1 else 0)"

lemma demo_ranked: "rules_ranked demo_rank demo_db"
proof -
  have sub: "x = 2 \<and> e = 3 \<or> x = 0 \<and> (e = 2 \<or> e = 3)" if "rci_below demo_db (base x) RCI_MAP_CHILDREN e" for x e
    using that by induction (auto simp: demo_next norm_dir_def)
  have "\<not> rci_below demo_db i RCI_MAP_CHILDREN e" if "i \<noteq> base (obj_of i)" for i e
  proof
    have w: "\<not> walks demo_db i" using that
      by (cases i) (auto simp: walks_def demo_inst_def blank_instance_def base_def)
    assume "rci_below demo_db i RCI_MAP_CHILDREN e"
    then show False by induction (use w in \<open>auto elim: rci_nextE simp: neighbours_def\<close>)
  qed
  then have root: "i = base (obj_of i)" if "rci_below demo_db i RCI_MAP_CHILDREN e" for i e using that by blast
  have "demo_rank r < demo_rank i"
    if e: "rci_below demo_db i RCI_MAP_CHILDREN e" and r: "r \<in> set (rule_targets demo_db nm e)" for i e r nm
  proof -
    have t2: "set (rule_targets demo_db nm 2) = {base 2}"
      by (simp add: rule_targets_def all_instances_def type_of_def blank_obj_def base_def split: option.split)
    have "obj_of i = 2 \<and> e = 3 \<or> obj_of i = 0 \<and> (e = 2 \<or> e = 3)"
      using sub [of "obj_of i" e] e root [OF e] by simp
    then show ?thesis using r t2 by (auto simp: demo_rank_def demo_targets)
  qed
  then show ?thesis by (auto simp: rules_ranked_def rules_below_def)
qed

end
