(* ===== verification/Api.thy ===== *)
theory Api
  imports ObjDelete Demo
begin

text \<open>
  The client API (\<^verbatim>\<open>src/src/myrefl_api.c\<close>): what its entries share. A client names its objects;
  a name is converted, the object is looked up or created with the defaults of its type, and an
  instance of it is found or created.

  A \<open>const char *\<close> is a \<open>name option\<close>, \<open>NULL\<close> is \<open>None\<close>. An entry answers the database it leaves
  behind; the outer \<open>None\<close> is a run that follows a null or wrongly typed pointer or does not end.
  Contexts are numbers, \<open>NULL\<close> is 0, and the context that is a component is \<open>Suc\<close> of its object.
  Functions are numbers; the built-in ones have the numbers below.
\<close>

section \<open>Names\<close>

definition MYREFL_MAX_NAME_LEN :: nat where "MYREFL_MAX_NAME_LEN = 31"
definition MYREFL_NAME_SEPERATOR :: char where "MYREFL_NAME_SEPERATOR = CHR ''@''"

definition badstr :: "name option \<Rightarrow> bool" where
  "badstr s \<longleftrightarrow> (case s of None \<Rightarrow> True | Some s \<Rightarrow> s = [])"

text \<open>\<open>instance_name && *instance_name == 0\<close>: a given name must not be empty.\<close>

definition empty_name :: "name option \<Rightarrow> bool" where
  "empty_name s \<longleftrightarrow> s = Some []"

fun convert_loop :: "nat \<Rightarrow> name \<Rightarrow> name" where
  "convert_loop count [] = []"
| "convert_loop count (c # cs) =
     (if count < MYREFL_MAX_NAME_LEN
      then (if c = CHR '' '' \<or> c = MYREFL_NAME_SEPERATOR then CHR ''_'' else c) # convert_loop (Suc count) cs
      else [])"

definition myrefl_api_convert_name :: "name \<Rightarrow> name" where
  "myrefl_api_convert_name n = convert_loop 0 n"

definition myrefl_obj_get_by_name_unconverted :: "db \<Rightarrow> name \<Rightarrow> obj_type \<Rightarrow> oid option option" where
  "myrefl_obj_get_by_name_unconverted db n type =
     myrefl_obj_get_by_name db (Some (myrefl_api_convert_name n)) type"

definition myrefl_obj_delete_by_name_unconverted :: "name \<Rightarrow> obj_type \<Rightarrow> db \<Rightarrow> (bool \<times> db) option" where
  "myrefl_obj_delete_by_name_unconverted n type db =
     Option.bind (myrefl_obj_get_by_name_unconverted db n type) (\<lambda>p.
       case p of None \<Rightarrow> Some (False, db) | Some ob \<Rightarrow> map_option (\<lambda>db. (True, db)) (myrefl_obj_delete ob db))"

definition dup_string :: "string option \<Rightarrow> string option" where
  "dup_string from = (if badstr from then None else from)"

section \<open>Objects\<close>

definition MYREFL_TEST_LOCATION_ALL :: "32 word" where "MYREFL_TEST_LOCATION_ALL = 0x0007"
definition MYREFL_ACTION_LOCATION_ALL :: "32 word" where "MYREFL_ACTION_LOCATION_ALL = 0x0007"
definition MYREFL_RULE_LOCATION_ALL :: "32 word" where "MYREFL_RULE_LOCATION_ALL = 0x0007"

definition first_result :: "obj_instance \<Rightarrow> obj_instance" where
  "first_result i = i\<lparr>i_last_result := RESULT_PASS, i_last_result_count := 1\<rparr>"

definition default_flags :: "32 word \<Rightarrow> obj_instance \<Rightarrow> obj_instance" where
  "default_flags w i = (if i_flags i = 0 then i\<lparr>i_flags := w\<rparr> else i)"

text \<open>The values of a new object by its type.\<close>

definition set_defaults :: "oid \<Rightarrow> db \<Rightarrow> db" where
  "set_defaults ob db =
     (case type_of db ob of
        TYPE_TEST \<Rightarrow>
          upd_inst (base ob) (first_result \<circ> default_flags MYREFL_TEST_LOCATION_ALL)
            (set_test ob (\<lambda>t. t\<lparr>t_autopass := AUTOPASS_UNSET\<rparr>) db)
      | TYPE_ACTION \<Rightarrow> upd_inst (base ob) (first_result \<circ> default_flags MYREFL_ACTION_LOCATION_ALL) db
      | TYPE_RULE \<Rightarrow>
          upd_inst (base ob) (\<lambda>i. first_result (default_flags MYREFL_RULE_LOCATION_ALL i)
              \<lparr>i_fail_count := 0, i_rule_data := None, i_root_cause := RC_NOT, i_action_run := False\<rparr>)
            (set_rule ob (\<lambda>r. r\<lparr>r_operator := RULE_ON_FAIL, r_default_operator := RULE_ON_FAIL, r_op_n := 0, r_op_m := 0,
               r_default_op_n := 0, r_default_op_m := 0, r_severity := SEVERITY_MEDIUM, r_next_in_input := None\<rparr>) db)
      | _ \<Rightarrow> db)"

definition initialized :: "obj_instance \<Rightarrow> obj_instance" where
  "initialized i = i\<lparr>i_state := STATE_INITIALIZED, i_default_state := STATE_INITIALIZED, i_cli_state := STATE_INITIALIZED\<rparr>"

definition myrefl_api_get_or_create :: "name \<Rightarrow> obj_type \<Rightarrow> db \<Rightarrow> (oid option \<times> db) option" where
  "myrefl_api_get_or_create n type db = do {
     (p, db) \<leftarrow> myrefl_obj_get_or_create (myrefl_api_convert_name n) type db;
     (case p of
        None \<Rightarrow> Some (None, db)
      | Some ob \<Rightarrow>
          if i_state (inst db (base ob)) \<noteq> STATE_ALLOCATED then Some (Some ob, db)
          else do {
            let db = set_defaults ob db;
            let db = upd_obj ob (\<lambda>x. x\<lparr>o_description := None, o_remote_location := False\<rparr>) db;
            let db = upd_inst (base ob) initialized db;
            (ok, db) \<leftarrow> myrefl_obj_validate (Some ob) type db;
            Some (if ok then Some ob else None, db) }) }"

text \<open>The beginning of an entry: the name is checked, the object found or created, or looked up.\<close>

definition api_object :: "name option \<Rightarrow> obj_type \<Rightarrow> (oid \<Rightarrow> db \<Rightarrow> db option) \<Rightarrow> db \<Rightarrow> db option" where
  "api_object n type f db =
     (if badstr n then Some db
      else do {
        (p, db) \<leftarrow> myrefl_api_get_or_create (the n) type db;
        (case p of None \<Rightarrow> Some db | Some ob \<Rightarrow> f ob db) })"

definition api_lookup :: "name option \<Rightarrow> obj_type \<Rightarrow> (oid \<Rightarrow> db \<Rightarrow> db option) \<Rightarrow> db \<Rightarrow> db option" where
  "api_lookup n type f db =
     (if badstr n then Some db
      else Option.bind (myrefl_obj_get_by_name_unconverted db (the n) type) (\<lambda>p.
        case p of None \<Rightarrow> Some db | Some ob \<Rightarrow> f ob db))"

text \<open>What an entry reads from an object that it only looks up.\<close>

definition api_read :: "name option \<Rightarrow> obj_type \<Rightarrow> 'a \<Rightarrow> (oid \<Rightarrow> 'a) \<Rightarrow> db \<Rightarrow> 'a option" where
  "api_read n type none f db =
     (if badstr n then Some none
      else map_option (\<lambda>p. case p of None \<Rightarrow> none | Some ob \<Rightarrow> f ob)
        (myrefl_obj_get_by_name_unconverted db (the n) type))"

section \<open>Instances\<close>

definition myrefl_api_instance_create :: "oid \<Rightarrow> name \<Rightarrow> db \<Rightarrow> iref \<times> db" where
  "myrefl_api_instance_create ob n db =
     (let (i, db) = myrefl_obj_instance_create ob n db;
          b = inst db (base ob)
      in (i, upd_inst i (\<lambda>x. x\<lparr>i_last_result := RESULT_PASS, i_last_result_count := 1,
                i_sched := (i_sched x)\<lparr>queued := QUEUE_NONE\<rparr>,
                i_state := (if i_state b = STATE_ENABLED \<or> i_state b = STATE_DISABLED then i_state b else STATE_INITIALIZED),
                i_default_state := i_default_state b\<rparr>) db))"

text \<open>The instance an entry is about: the base instance, the member of that name, or a new member.\<close>

definition pick_instance :: "oid \<Rightarrow> name option \<Rightarrow> db \<Rightarrow> (iref \<times> db) option" where
  "pick_instance ob nm db =
     (case nm of
        None \<Rightarrow> Some (base ob, db)
      | Some s \<Rightarrow> do {
          (p, db) \<leftarrow> myrefl_obj_instance_by_name (Some ob) (Some (myrefl_api_convert_name s)) db;
          Some (case p of Some i \<Rightarrow> (i, db) | None \<Rightarrow> myrefl_api_instance_create ob (myrefl_api_convert_name s) db) })"

text \<open>The same without the new member.\<close>

definition find_instance :: "oid \<Rightarrow> name option \<Rightarrow> db \<Rightarrow> (iref option \<times> db) option" where
  "find_instance ob nm db =
     (case nm of
        None \<Rightarrow> Some (Some (base ob), db)
      | Some s \<Rightarrow> myrefl_obj_instance_by_name (Some ob) (Some (myrefl_api_convert_name s)) db)"

definition in_service :: "obj_state \<Rightarrow> bool" where
  "in_service s \<longleftrightarrow> s = STATE_ENABLED \<or> s = STATE_DISABLED \<or> s = STATE_CREATED"

text \<open>The switch over \<open>instance->state\<close>: without an instance name the loop over \<open>next\<close> goes through all
  the instances.\<close>

definition switch_state ::
  "(iref \<Rightarrow> db \<Rightarrow> db option) \<Rightarrow> (iref \<Rightarrow> db \<Rightarrow> db option) \<Rightarrow> oid \<Rightarrow> name option \<Rightarrow> iref \<Rightarrow> db \<Rightarrow> db option" where
  "switch_state one init ob nm i db =
     (if in_service (i_state (inst db i)) then foldM one (if nm = None then all_instances db ob else [i]) db
      else if i_state (inst db i) = STATE_INITIALIZED then init i db
      else Some db)"

definition set_default_state :: "bool \<Rightarrow> obj_state \<Rightarrow> obj_instance \<Rightarrow> obj_instance" where
  "set_default_state cli s x = (if cli then x\<lparr>i_cli_state := s\<rparr> else x\<lparr>i_default_state := s\<rparr>)"

definition enable_state :: "bool \<Rightarrow> obj_instance \<Rightarrow> obj_instance" where
  "enable_state cli x =
     (let x = set_default_state cli STATE_ENABLED x
      in if i_cli_state x \<noteq> STATE_DISABLED then x\<lparr>i_state := STATE_ENABLED\<rparr> else x)"

definition disable_state :: "bool \<Rightarrow> obj_instance \<Rightarrow> obj_instance" where
  "disable_state cli x =
     (let x = set_default_state cli STATE_DISABLED x
      in if i_cli_state x \<noteq> STATE_ENABLED then x\<lparr>i_state := STATE_DISABLED\<rparr> else x)"

definition default_state :: "obj_instance \<Rightarrow> obj_instance" where
  "default_state x =
     (let x = (if i_state x = STATE_ENABLED \<or> i_state x = STATE_DISABLED then x\<lparr>i_state := i_default_state x\<rparr> else x)
      in x\<lparr>i_cli_state := STATE_INITIALIZED\<rparr>)"

definition note_state :: "bool \<Rightarrow> obj_state \<Rightarrow> iref \<Rightarrow> db \<Rightarrow> db option" where
  "note_state cli s i db = Some (upd_inst i (set_default_state cli s) db)"

definition set_flags :: "32 word \<Rightarrow> oid \<Rightarrow> db \<Rightarrow> db" where
  "set_flags w ob = upd_inst (base ob) (\<lambda>x. x\<lparr>i_flags := or (and w (not OBJ_FLAG_RESERVED)) (and (i_flags x) OBJ_FLAG_RESERVED)\<rparr>)"

definition get_flags :: "name option \<Rightarrow> obj_type \<Rightarrow> db \<Rightarrow> 32 word option" where
  "get_flags n type db =
     map_option (\<lambda>w. and w (not OBJ_FLAG_RESERVED)) (api_read n type 0 (\<lambda>ob. i_flags (inst db (base ob))) db)"

definition set_description :: "string option \<Rightarrow> oid \<Rightarrow> db \<Rightarrow> db" where
  "set_description s ob = upd_obj ob (\<lambda>x. x\<lparr>o_description := dup_string s\<rparr>)"

definition set_context :: "nat \<Rightarrow> oid \<Rightarrow> db \<Rightarrow> db" where
  "set_context c ob = upd_inst (base ob) (\<lambda>x. x\<lparr>i_context := c\<rparr>)"

definition set_state :: "obj_state \<Rightarrow> oid \<Rightarrow> db \<Rightarrow> db" where
  "set_state s ob = upd_inst (base ob) (\<lambda>x. x\<lparr>i_state := s\<rparr>)"

definition polled :: "db \<Rightarrow> oid \<Rightarrow> bool option" where
  "polled db ob = map_option (\<lambda>t. t_type t = POLLED) (test_of db ob)"

end
