(* ===== verification/ApiTest.thy ===== *)
theory ApiTest
  imports Api
begin

text \<open>
  The entries for tests and actions of the client API (\<^verbatim>\<open>src/src/myrefl_api.c\<close>).
\<close>

section \<open>Creating tests\<close>

text \<open>The number of the built-in function \<open>poll_for_comp_health\<close>.\<close>

definition fn_poll_for_comp_health :: nat where "fn_poll_for_comp_health = 0"

definition poll_for_comp_health :: "oid option \<Rightarrow> db \<Rightarrow> (result \<times> int option \<times> db) option" where
  "poll_for_comp_health ctx db =
     map_option (\<lambda>(ok, db). if ok then (RESULT_VALUE, Some (health (healths db (the ctx))), db) else (RESULT_ABORT, None, db))
       (myrefl_obj_validate ctx TYPE_COMP db)"

text \<open>A rule that already refers to the test by its name is connected to it.\<close>

definition connect_ref_rule :: "oid \<Rightarrow> db \<Rightarrow> db" where
  "connect_ref_rule ob db =
     (if o_ref_rule (objs db ob) \<noteq> None then set_test ob (\<lambda>t. t\<lparr>t_rule := o_ref_rule (objs db ob)\<rparr>) db else db)"

definition not_queued :: "oid \<Rightarrow> db \<Rightarrow> db" where
  "not_queued ob = upd_inst (base ob) (\<lambda>x. x\<lparr>i_sched := (i_sched x)\<lparr>queued := QUEUE_NONE\<rparr>\<rparr>)"

definition polled_test :: "nat \<Rightarrow> 64 word \<Rightarrow> obj_test \<Rightarrow> obj_test" where
  "polled_test fn period t = t\<lparr>t_type := POLLED, t_function := Some fn, t_period := period, t_default_period := period\<rparr>"

definition myrefl_test_create_polled :: "name option \<Rightarrow> nat option \<Rightarrow> nat \<Rightarrow> 32 word \<Rightarrow> db \<Rightarrow> db option" where
  "myrefl_test_create_polled test_name test_func ctx period db =
     (if badstr test_name \<or> test_func = None then Some db
      else api_object test_name TYPE_TEST (\<lambda>ob db.
        let db = set_test ob (polled_test (the test_func) (ucast period)) db;
            db = connect_ref_rule ob db;
            db = not_queued ob db;
            db = set_context ctx ob db
        in Some (set_state STATE_CREATED ob db)) db)"

definition myrefl_test_create_notification :: "name option \<Rightarrow> db \<Rightarrow> db option" where
  "myrefl_test_create_notification test_name =
     api_object test_name TYPE_TEST (\<lambda>ob db.
       let db = set_test ob (\<lambda>t. t\<lparr>t_type := NOTIFICATION\<rparr>) db;
           db = not_queued ob db;
           db = set_state STATE_CREATED ob db
       in Some (connect_ref_rule ob db))"

definition myrefl_test_create_comp_health :: "name option \<Rightarrow> name option \<Rightarrow> db \<Rightarrow> db option" where
  "myrefl_test_create_comp_health test_name comp_name db =
     (if badstr test_name \<or> badstr comp_name then Some db
      else api_object test_name TYPE_TEST (\<lambda>test_obj. api_object comp_name TYPE_COMP (\<lambda>comp_obj db.
        let db = set_test test_obj (polled_test fn_poll_for_comp_health MYREFL_PERIOD_NORMAL) db;
            db = not_queued test_obj db;
            db = set_state STATE_CREATED test_obj db;
            db = set_context (Suc comp_obj) test_obj db;
            db = connect_ref_rule test_obj db
        in Option.bind (comp_of db comp_obj) (\<lambda>_.
          Some (set_comp comp_obj (\<lambda>c. c\<lparr>c_interested := list_add test_obj (c_interested c)\<rparr>) db)))) db)"

section \<open>Notifying results\<close>

definition bad_result :: "result \<Rightarrow> bool" where
  "bad_result r \<longleftrightarrow> r = RESULT_INVALID \<or> r = RESULT_LAST \<or> r = RESULT_IN_PROGRESS"

definition myrefl_test_notify :: "name option \<Rightarrow> name option \<Rightarrow> result \<Rightarrow> int \<Rightarrow> db \<Rightarrow> db option" where
  "myrefl_test_notify test_name instance_name result v db =
     (if badstr test_name \<or> bad_result result then Some db
      else api_lookup test_name TYPE_TEST (\<lambda>ob db. do {
        (p, db) \<leftarrow> find_instance ob instance_name db;
        Some (case p of
            None \<Rightarrow> db
          | Some i \<Rightarrow> if i_state (inst db i) = STATE_ENABLED then myrefl_seq_from_test_notify i result v db else db) }) db)"

section \<open>Properties of tests\<close>

definition myrefl_test_set_autopass :: "name option \<Rightarrow> 32 word \<Rightarrow> db \<Rightarrow> db option" where
  "myrefl_test_set_autopass test_name ms =
     api_object test_name TYPE_TEST (\<lambda>ob db. Some (set_test ob (\<lambda>t. t\<lparr>t_autopass := uint ms\<rparr>) db))"

definition myrefl_test_set_flags :: "name option \<Rightarrow> 32 word \<Rightarrow> db \<Rightarrow> db option" where
  "myrefl_test_set_flags test_name flags = api_object test_name TYPE_TEST (\<lambda>ob db. Some (set_flags flags ob db))"

definition myrefl_test_get_flags :: "name option \<Rightarrow> db \<Rightarrow> 32 word option" where
  "myrefl_test_get_flags test_name = get_flags test_name TYPE_TEST"

definition myrefl_api_test_get_context :: "name option \<Rightarrow> db \<Rightarrow> nat option" where
  "myrefl_api_test_get_context test_name db =
     api_read test_name TYPE_TEST 0 (\<lambda>ob. i_context (inst db (base ob))) db"

definition myrefl_test_set_description :: "name option \<Rightarrow> string option \<Rightarrow> db \<Rightarrow> db option" where
  "myrefl_test_set_description test_name description =
     api_object test_name TYPE_TEST (\<lambda>ob db. Some (set_description description ob db))"

definition myrefl_test_delete :: "name option \<Rightarrow> db \<Rightarrow> db option" where
  "myrefl_test_delete test_name =
     api_lookup test_name TYPE_ANY (\<lambda>ob db.
       case test_of db ob of
         None \<Rightarrow> Some db
       | Some t \<Rightarrow>
           let db = (if t_type t = POLLED then fold myrefl_sched_remove_test (all_instances db ob) db else db)
           in myrefl_obj_delete ob db)"

section \<open>Enabling and disabling tests\<close>

definition default_obj_state :: obj_state where "default_obj_state = STATE_ENABLED"

text \<open>The state that the component of an object asks for.\<close>

definition comp_wanted_state :: "db \<Rightarrow> oid \<Rightarrow> obj_state" where
  "comp_wanted_state db ob =
     (case o_parent_comp (objs db ob) of
        None \<Rightarrow> default_obj_state
      | Some p \<Rightarrow>
          if i_state (inst db (base p)) \<noteq> i_default_state (inst db (base p)) then i_state (inst db (base p))
          else default_obj_state)"

definition myrefl_test_chain_ready :: "name option \<Rightarrow> db \<Rightarrow> db option" where
  "myrefl_test_chain_ready test_name =
     api_lookup test_name TYPE_TEST (\<lambda>ob db.
       if \<not> in_service (i_state (inst db (base ob))) then Some db
       else do {
         db \<leftarrow> myrefl_obj_chain_update_state (comp_wanted_state db ob) ob db;
         let db = upd_inst (base ob) (\<lambda>x. if i_cli_state x \<noteq> STATE_INITIALIZED then x\<lparr>i_state := i_cli_state x\<rparr> else x) db;
         p \<leftarrow> polled db ob;
         if i_state (inst db (base ob)) = STATE_ENABLED \<and> p
         then foldM (\<lambda>i. myrefl_sched_add_test i False) (all_instances db ob) db
         else Some db })"

definition enable_test :: "bool \<Rightarrow> oid \<Rightarrow> iref \<Rightarrow> db \<Rightarrow> db option" where
  "enable_test cli ob i db =
     (let db = upd_inst i (enable_state cli) db
      in Option.bind (polled db ob) (\<lambda>p.
        if i_state (inst db i) = STATE_ENABLED \<and> p then myrefl_sched_add_test i False db else Some db))"

definition myrefl_api_test_enable_guts :: "name option \<Rightarrow> name option \<Rightarrow> bool \<Rightarrow> db \<Rightarrow> db option" where
  "myrefl_api_test_enable_guts test_name instance_name cli db =
     (if empty_name instance_name then Some db
      else api_object test_name TYPE_TEST (\<lambda>ob db. do {
        (i, db) \<leftarrow> pick_instance ob instance_name db;
        switch_state (enable_test cli ob) (note_state cli STATE_ENABLED) ob instance_name i db }) db)"

definition myrefl_test_enable :: "name option \<Rightarrow> name option \<Rightarrow> db \<Rightarrow> db option" where
  "myrefl_test_enable test_name instance_name = myrefl_api_test_enable_guts test_name instance_name False"

definition disable_test :: "bool \<Rightarrow> oid \<Rightarrow> iref \<Rightarrow> db \<Rightarrow> db option" where
  "disable_test cli ob i db =
     (let db = upd_inst i (disable_state cli) db
      in map_option (\<lambda>p. if p then myrefl_sched_remove_test i db else db) (polled db ob))"

definition myrefl_api_test_disable_guts :: "name option \<Rightarrow> name option \<Rightarrow> bool \<Rightarrow> db \<Rightarrow> db option" where
  "myrefl_api_test_disable_guts test_name instance_name cli db =
     (if empty_name instance_name then Some db
      else api_object test_name TYPE_TEST (\<lambda>ob db. do {
        (i, db) \<leftarrow> pick_instance ob instance_name db;
        switch_state (disable_test cli ob) (note_state cli STATE_DISABLED) ob instance_name i db }) db)"

definition myrefl_test_disable :: "name option \<Rightarrow> name option \<Rightarrow> db \<Rightarrow> db option" where
  "myrefl_test_disable test_name instance_name = myrefl_api_test_disable_guts test_name instance_name False"

text \<open>Back to the defaults: all the instances are scheduled when they are enabled, a single one in any
  state. An object that was never created is deleted.\<close>

definition default_test :: "bool \<Rightarrow> oid \<Rightarrow> iref \<Rightarrow> db \<Rightarrow> db option" where
  "default_test all ob i db =
     (let db = upd_inst i default_state db
      in Option.bind (polled db ob) (\<lambda>p.
        if p \<and> (all \<longrightarrow> i_state (inst db i) = STATE_ENABLED) then myrefl_sched_add_test i False db else Some db))"

definition myrefl_api_test_default :: "name option \<Rightarrow> name option \<Rightarrow> db \<Rightarrow> db option" where
  "myrefl_api_test_default test_name instance_name db =
     (if empty_name instance_name then Some db
      else api_lookup test_name TYPE_TEST (\<lambda>ob db. do {
        (p, db) \<leftarrow> find_instance ob instance_name db;
        (case p of
           None \<Rightarrow> Some db
         | Some i \<Rightarrow>
             let db = (if in_service (i_state (inst db i)) \<and> instance_name = None
                       then set_test ob (\<lambda>t. t\<lparr>t_period := t_default_period t\<rparr>) db else db)
             in switch_state (default_test (instance_name = None) ob)
                  (\<lambda>i db. Option.bind (test_of db ob) (\<lambda>t.
                     if t_period t = t_default_period t then myrefl_obj_delete ob db
                     else Some (upd_inst i (\<lambda>x. x\<lparr>i_cli_state := STATE_INITIALIZED\<rparr>) db)))
                  ob instance_name i db) }) db)"

section \<open>Actions\<close>

text \<open>The context of an action that alerts the user is freed; freed memory is not modelled.\<close>

definition myrefl_action_create :: "name option \<Rightarrow> nat option \<Rightarrow> nat \<Rightarrow> db \<Rightarrow> db option" where
  "myrefl_action_create action_name action_func ctx db =
     (if badstr action_name \<or> action_func = None then Some db
      else api_object action_name TYPE_ACTION (\<lambda>ob db.
        let db = set_action ob (\<lambda>a. a\<lparr>a_function := action_func\<rparr>) db;
            db = set_context ctx ob db
        in Some (set_state STATE_CREATED ob db)) db)"

definition myrefl_action_complete :: "name option \<Rightarrow> name option \<Rightarrow> result \<Rightarrow> db \<Rightarrow> db option" where
  "myrefl_action_complete action_name instance_name result =
     api_lookup action_name TYPE_ACTION (\<lambda>ob db. do {
       (p, db) \<leftarrow> myrefl_obj_instance_by_name (Some ob) (map_option myrefl_api_convert_name instance_name) db;
       Some (case p of
           None \<Rightarrow> db
         | Some i \<Rightarrow> if i_state (inst db i) = STATE_ENABLED then myrefl_seq_from_action_complete i result db else db) })"

text \<open>\<open>copy\<close> is the address that \<open>strdup\<close> returns for the notification; 0 is out of memory.\<close>

definition fn_user_notify_action :: nat where "fn_user_notify_action = 1"

definition myrefl_action_create_user_alert :: "name option \<Rightarrow> string option \<Rightarrow> nat \<Rightarrow> db \<Rightarrow> db option" where
  "myrefl_action_create_user_alert action_name notification copy db =
     (if badstr action_name \<or> badstr notification \<or> copy = 0 then Some db
      else myrefl_action_create action_name (Some fn_user_notify_action) copy db)"

definition myrefl_action_delete :: "name option \<Rightarrow> db \<Rightarrow> db option" where
  "myrefl_action_delete action_name =
     api_lookup action_name TYPE_ANY (\<lambda>ob db. if type_of db ob \<noteq> TYPE_ACTION then Some db else myrefl_obj_delete ob db)"

definition enable_instance :: "bool \<Rightarrow> iref \<Rightarrow> db \<Rightarrow> db option" where
  "enable_instance cli i db = Some (upd_inst i (enable_state cli) db)"

definition disable_instance :: "bool \<Rightarrow> iref \<Rightarrow> db \<Rightarrow> db option" where
  "disable_instance cli i db = Some (upd_inst i (disable_state cli) db)"

definition default_instance :: "iref \<Rightarrow> db \<Rightarrow> db option" where
  "default_instance i db = Some (upd_inst i default_state db)"

definition myrefl_api_action_enable_guts :: "name option \<Rightarrow> name option \<Rightarrow> bool \<Rightarrow> db \<Rightarrow> db option" where
  "myrefl_api_action_enable_guts action_name instance_name cli db =
     (if empty_name instance_name then Some db
      else api_object action_name TYPE_ACTION (\<lambda>ob db. do {
        (i, db) \<leftarrow> pick_instance ob instance_name db;
        switch_state (enable_instance cli) (note_state cli STATE_ENABLED) ob instance_name i db }) db)"

definition myrefl_action_enable :: "name option \<Rightarrow> name option \<Rightarrow> db \<Rightarrow> db option" where
  "myrefl_action_enable action_name instance_name = myrefl_api_action_enable_guts action_name instance_name False"

definition myrefl_api_action_disable_guts :: "name option \<Rightarrow> name option \<Rightarrow> bool \<Rightarrow> db \<Rightarrow> db option" where
  "myrefl_api_action_disable_guts action_name instance_name cli db =
     (if empty_name instance_name then Some db
      else api_object action_name TYPE_ACTION (\<lambda>ob db. do {
        (i, db) \<leftarrow> pick_instance ob instance_name db;
        switch_state (disable_instance cli) (note_state cli STATE_DISABLED) ob instance_name i db }) db)"

definition myrefl_action_disable :: "name option \<Rightarrow> name option \<Rightarrow> db \<Rightarrow> db option" where
  "myrefl_action_disable action_name instance_name = myrefl_api_action_disable_guts action_name instance_name False"

definition myrefl_api_action_default :: "name option \<Rightarrow> name option \<Rightarrow> db \<Rightarrow> db option" where
  "myrefl_api_action_default action_name instance_name db =
     (if empty_name instance_name then Some db
      else api_lookup action_name TYPE_ACTION (\<lambda>ob db. do {
        (p, db) \<leftarrow> find_instance ob instance_name db;
        (case p of
           None \<Rightarrow> Some db
         | Some i \<Rightarrow> switch_state default_instance (\<lambda>_. myrefl_obj_delete ob) ob instance_name i db) }) db)"

definition myrefl_action_set_flags :: "name option \<Rightarrow> 32 word \<Rightarrow> db \<Rightarrow> db option" where
  "myrefl_action_set_flags action_name flags = api_object action_name TYPE_ACTION (\<lambda>ob db. Some (set_flags flags ob db))"

definition myrefl_action_get_flags :: "name option \<Rightarrow> db \<Rightarrow> 32 word option" where
  "myrefl_action_get_flags action_name = get_flags action_name TYPE_ACTION"

definition myrefl_get_context :: "name option \<Rightarrow> db \<Rightarrow> nat option" where
  "myrefl_get_context obj_name db = api_read obj_name TYPE_ANY 0 (\<lambda>ob. i_context (inst db (base ob))) db"

definition myrefl_action_set_description :: "name option \<Rightarrow> string option \<Rightarrow> db \<Rightarrow> db option" where
  "myrefl_action_set_description action_name description =
     api_object action_name TYPE_ACTION (\<lambda>ob db. Some (set_description description ob db))"

end
