(* ===== verification/ApiRule.thy ===== *)
theory ApiRule
  imports ApiTest
begin

text \<open>
  The entries for rules and dependencies of the client API (\<^verbatim>\<open>src/src/myrefl_api.c\<close>,
  \<open>myrefl_depend_create\<close> in \<^verbatim>\<open>src/src/myrefl_rci.c\<close>).
\<close>

section \<open>The search for an input\<close>

definition RULE_DEPTH_LIMIT :: nat where "RULE_DEPTH_LIMIT = 25"

text \<open>Does the target feed the object? The first argument counts the levels that are left; when there
  are too many the answer is yes.\<close>

primrec input_search :: "nat \<Rightarrow> db \<Rightarrow> oid \<Rightarrow> oid \<Rightarrow> bool" where
  "input_search 0 db ob target = True"
| "input_search (Suc n) db ob target =
     (case rule_of db ob of
        None \<Rightarrow> False
      | Some r \<Rightarrow> list_ex (\<lambda>x. x = target \<or> input_search n db x target) (r_inputs r))"

definition rule_input_search :: "db \<Rightarrow> oid \<Rightarrow> oid \<Rightarrow> bool" where
  "rule_input_search db ob target = input_search RULE_DEPTH_LIMIT db ob target"

section \<open>Connecting a rule to its input\<close>

definition input_type_ok :: "db \<Rightarrow> oid \<Rightarrow> bool" where
  "input_type_ok db x \<longleftrightarrow> type_of db x \<in> {TYPE_TEST, TYPE_RULE, TYPE_NONE}"

text \<open>The input lists the rule's old inputs no more.\<close>

definition leave_chain :: "oid \<Rightarrow> oid \<Rightarrow> db \<Rightarrow> db option" where
  "leave_chain rule x db =
     (case input_head db x of
        None \<Rightarrow> Some db
      | Some h \<Rightarrow> if h = Some rule then Some (set_input_head x (next_rule db rule) db) else unchain rule h db)"

definition leave_old_inputs :: "oid \<Rightarrow> db \<Rightarrow> db option" where
  "leave_old_inputs rule db = do {
     r \<leftarrow> rule_of db rule;
     db \<leftarrow> foldM (leave_chain rule) (r_inputs r) db;
     Some (set_rule rule (\<lambda>x. x\<lparr>r_inputs := [], r_next_in_input := (if r_inputs r = [] then r_next_in_input x else None)\<rparr>) db) }"

text \<open>The rule goes to the front of the chain of its input. It has one \<open>next_in_input\<close> pointer, for all
  of its inputs.\<close>

definition link_input :: "oid \<Rightarrow> oid \<Rightarrow> db \<Rightarrow> db" where
  "link_input rule x db =
     (let db = set_rule rule (\<lambda>r. r\<lparr>r_inputs := list_add x (r_inputs r)\<rparr>) db
      in case input_head db x of
           None \<Rightarrow> db
         | Some h \<Rightarrow> set_input_head x (Some rule) (set_next_rule rule h db))"

definition link_action :: "oid \<Rightarrow> oid \<Rightarrow> db \<Rightarrow> db" where
  "link_action rule act db =
     set_action act (\<lambda>a. a\<lparr>a_rule_list := list_add rule (a_rule_list a)\<rparr>)
       (set_rule rule (\<lambda>r. r\<lparr>r_action_list := list_add act (r_action_list r)\<rparr>) db)"

section \<open>Creating rules\<close>

text \<open>From the action on: the rule is linked to the action and the input.\<close>

definition rule_connect :: "oid \<Rightarrow> oid \<Rightarrow> name option \<Rightarrow> db \<Rightarrow> db option" where
  "rule_connect rule input action_name db = do {
     db \<leftarrow> leave_old_inputs rule db;
     (p, db) \<leftarrow> myrefl_api_get_or_create (the action_name) TYPE_ACTION db;
     (case p of
        None \<Rightarrow> myrefl_obj_delete rule db
      | Some act \<Rightarrow>
          let db = link_action rule act db;
              db = link_input rule input db;
              db = (if o_ref_rule (objs db rule) \<noteq> None
                    then set_rule rule (\<lambda>r. r\<lparr>r_output := o_ref_rule (objs db rule)\<rparr>) db else db)
          in Some (set_state STATE_CREATED rule db)) }"

definition myrefl_rule_create :: "name option \<Rightarrow> name option \<Rightarrow> name option \<Rightarrow> db \<Rightarrow> db option" where
  "myrefl_rule_create rule_name test_or_rule_name action_name db =
     (if badstr rule_name \<or> badstr test_or_rule_name \<or> badstr action_name then Some db
      else api_object rule_name TYPE_RULE (\<lambda>rule db. do {
        (p, db) \<leftarrow> myrefl_api_get_or_create (the test_or_rule_name) TYPE_ANY db;
        (case p of
           None \<Rightarrow> myrefl_obj_delete rule db
         | Some input \<Rightarrow>
             if \<not> input_type_ok db input then myrefl_obj_delete rule db
             else if rule_input_search db rule input then Some db
             else if rule_input_search db input rule then myrefl_obj_delete rule db
             else rule_connect rule input action_name db) }) db)"

definition myrefl_rule_add_input :: "name option \<Rightarrow> name option \<Rightarrow> db \<Rightarrow> db option" where
  "myrefl_rule_add_input rule_name test_or_rule_name db =
     (if badstr rule_name \<or> badstr test_or_rule_name then Some db
      else api_lookup rule_name TYPE_RULE (\<lambda>rule. api_object test_or_rule_name TYPE_ANY (\<lambda>input db.
        if \<not> input_type_ok db input then Some db
        else if rule_input_search db rule input then Some db
        else if rule_input_search db input rule then Some db
        else Some (link_input rule input db))) db)"

section \<open>Properties of rules\<close>

definition bad_operands :: "operator \<Rightarrow> int \<Rightarrow> int \<Rightarrow> bool" where
  "bad_operands oper n m =
     (case oper of
        RULE_INVALID \<Rightarrow> True
      | RULE_LAST \<Rightarrow> True
      | RULE_ON_FAIL \<Rightarrow> n \<noteq> 0 \<or> m \<noteq> 0
      | RULE_DISABLE \<Rightarrow> n \<noteq> 0 \<or> m \<noteq> 0
      | RULE_EQUAL_TO_N \<Rightarrow> m \<noteq> 0
      | RULE_NOT_EQUAL_TO_N \<Rightarrow> m \<noteq> 0
      | RULE_LESS_THAN_N \<Rightarrow> m \<noteq> 0
      | RULE_GREATER_THAN_N \<Rightarrow> m \<noteq> 0
      | RULE_N_EVER \<Rightarrow> m \<noteq> 0 \<or> n < 1
      | RULE_N_IN_ROW \<Rightarrow> m \<noteq> 0 \<or> n < 1
      | RULE_RANGE_N_TO_M \<Rightarrow> n > m
      | RULE_N_IN_M \<Rightarrow> n > m \<or> n < 1 \<or> m < 1
      | RULE_N_IN_TIME_M \<Rightarrow> n < 1 \<or> m < 1
      | _ \<Rightarrow> False)"

definition myrefl_rule_set_type :: "name option \<Rightarrow> operator \<Rightarrow> int \<Rightarrow> int \<Rightarrow> db \<Rightarrow> db option" where
  "myrefl_rule_set_type rule_name oper n m db =
     (if badstr rule_name \<or> bad_operands oper n m then Some db
      else api_object rule_name TYPE_RULE (\<lambda>ob db.
        Some (set_rule ob (\<lambda>r. r\<lparr>r_operator := oper, r_default_operator := oper, r_op_n := n, r_op_m := m,
          r_default_op_n := n, r_default_op_m := m\<rparr>) db)) db)"

text \<open>An action that the rule lists already is not looked at again.\<close>

definition myrefl_rule_add_action :: "name option \<Rightarrow> name option \<Rightarrow> db \<Rightarrow> db option" where
  "myrefl_rule_add_action rule_name action_name db =
     (if badstr rule_name \<or> badstr action_name then Some db
      else api_object rule_name TYPE_RULE (\<lambda>rule. api_object action_name TYPE_ACTION (\<lambda>act db.
        Option.bind (rule_of db rule) (\<lambda>r.
          Some (if act \<in> set (r_action_list r) then db else link_action rule act db)))) db)"

definition myrefl_rule_set_flags :: "name option \<Rightarrow> 32 word \<Rightarrow> db \<Rightarrow> db option" where
  "myrefl_rule_set_flags rule_name flags = api_object rule_name TYPE_RULE (\<lambda>ob db. Some (set_flags flags ob db))"

definition myrefl_rule_get_flags :: "name option \<Rightarrow> db \<Rightarrow> 32 word option" where
  "myrefl_rule_get_flags rule_name = get_flags rule_name TYPE_RULE"

text \<open>A name that is not known becomes an object of no type.\<close>

definition myrefl_rule_delete :: "name option \<Rightarrow> db \<Rightarrow> db option" where
  "myrefl_rule_delete rule_name =
     api_object rule_name TYPE_ANY (\<lambda>ob db. if type_of db ob \<noteq> TYPE_RULE then Some db else myrefl_obj_delete ob db)"

definition myrefl_rule_set_description :: "name option \<Rightarrow> string option \<Rightarrow> db \<Rightarrow> db option" where
  "myrefl_rule_set_description rule_name description =
     api_object rule_name TYPE_RULE (\<lambda>ob db. Some (set_description description ob db))"

definition myrefl_rule_set_severity :: "name option \<Rightarrow> int \<Rightarrow> db \<Rightarrow> db option" where
  "myrefl_rule_set_severity rule_name severity =
     api_object rule_name TYPE_RULE (\<lambda>ob db. Some (set_rule ob (\<lambda>r. r\<lparr>r_severity := severity\<rparr>) db))"

section \<open>Enabling and disabling rules\<close>

definition myrefl_api_rule_enable_guts :: "name option \<Rightarrow> name option \<Rightarrow> bool \<Rightarrow> db \<Rightarrow> db option" where
  "myrefl_api_rule_enable_guts rule_name instance_name cli db =
     (if empty_name instance_name then Some db
      else api_object rule_name TYPE_RULE (\<lambda>ob db. do {
        (i, db) \<leftarrow> pick_instance ob instance_name db;
        switch_state (enable_instance cli) (note_state cli STATE_ENABLED) ob instance_name i db }) db)"

definition myrefl_rule_enable :: "name option \<Rightarrow> name option \<Rightarrow> db \<Rightarrow> db option" where
  "myrefl_rule_enable rule_name instance_name = myrefl_api_rule_enable_guts rule_name instance_name False"

definition myrefl_api_rule_disable_guts :: "name option \<Rightarrow> name option \<Rightarrow> bool \<Rightarrow> db \<Rightarrow> db option" where
  "myrefl_api_rule_disable_guts rule_name instance_name cli db =
     (if empty_name instance_name then Some db
      else api_object rule_name TYPE_RULE (\<lambda>ob db. do {
        (i, db) \<leftarrow> pick_instance ob instance_name db;
        switch_state (disable_instance cli) (note_state cli STATE_DISABLED) ob instance_name i db }) db)"

definition myrefl_rule_disable :: "name option \<Rightarrow> name option \<Rightarrow> db \<Rightarrow> db option" where
  "myrefl_rule_disable rule_name instance_name = myrefl_api_rule_disable_guts rule_name instance_name False"

definition default_operator :: "obj_rule \<Rightarrow> obj_rule" where
  "default_operator r = r\<lparr>r_operator := r_default_operator r, r_op_n := r_default_op_n r, r_op_m := r_default_op_m r\<rparr>"

definition myrefl_api_rule_default :: "name option \<Rightarrow> name option \<Rightarrow> db \<Rightarrow> db option" where
  "myrefl_api_rule_default rule_name instance_name db =
     (if empty_name instance_name then Some db
      else api_lookup rule_name TYPE_RULE (\<lambda>ob db. do {
        (p, db) \<leftarrow> find_instance ob instance_name db;
        (case p of
           None \<Rightarrow> Some db
         | Some i \<Rightarrow>
             let db = (if in_service (i_state (inst db i)) \<and> instance_name = None then set_rule ob default_operator db else db)
             in switch_state default_instance
                  (\<lambda>i db. Option.bind (rule_of db ob) (\<lambda>r.
                     if default_operator r = r then myrefl_obj_delete ob db
                     else Some (upd_inst i (\<lambda>x. x\<lparr>i_cli_state := STATE_INITIALIZED\<rparr>) db)))
                  ob instance_name i db) }) db)"

section \<open>Dependencies\<close>

text \<open>An object that can not be resolved is dereferenced for the error message.\<close>

definition myrefl_depend_create :: "name option \<Rightarrow> name option \<Rightarrow> db \<Rightarrow> db option" where
  "myrefl_depend_create parent_name child_name db = do {
     pn \<leftarrow> parent_name;
     (p, db) \<leftarrow> myrefl_api_get_or_create pn TYPE_ANY db;
     parent \<leftarrow> p;
     if \<not> depend_type_ok db p then Some db else do {
     cn \<leftarrow> child_name;
     (c, db) \<leftarrow> myrefl_api_get_or_create cn TYPE_ANY db;
     child \<leftarrow> c;
     if \<not> depend_type_ok db c then Some db else depend_connect parent child db }}"

end
