(* ===== verification/ApiComp.thy ===== *)
theory ApiComp
  imports ApiRule
begin

text \<open>
  The entries for components, health, instances and notifications of the client API, and the
  built-in actions (\<^verbatim>\<open>src/src/myrefl_api.c\<close>).
\<close>

section \<open>Creating components\<close>

definition cli_override :: "oid \<Rightarrow> db \<Rightarrow> db" where
  "cli_override ob = upd_inst (base ob) (\<lambda>x. if i_cli_state x \<noteq> STATE_INITIALIZED then x\<lparr>i_state := i_cli_state x\<rparr> else x)"

definition myrefl_comp_create :: "name option \<Rightarrow> db \<Rightarrow> db option" where
  "myrefl_comp_create component_name =
     api_object component_name TYPE_COMP (\<lambda>ob db.
       let db = upd_health ob (\<lambda>h. h\<lparr>health := 1000, confidence := 1000\<rparr>) db;
           db = upd_inst (base ob) (\<lambda>x. x\<lparr>i_state := comp_wanted_state db ob, i_default_state := default_obj_state\<rparr>) db
       in Some (cli_override ob db))"

definition myrefl_comp_contains :: "name option \<Rightarrow> name option \<Rightarrow> db \<Rightarrow> db option" where
  "myrefl_comp_contains parent_name child_name db =
     (if badstr parent_name \<or> badstr child_name then Some db
      else api_object parent_name TYPE_COMP (\<lambda>parent db.
        if type_of db parent \<noteq> TYPE_COMP then Some db
        else api_object child_name TYPE_ANY (\<lambda>child. myrefl_api_comp_contains parent child) db) db)"

text \<open>The arguments end at the first null pointer.\<close>

definition myrefl_comp_contains_many :: "name option \<Rightarrow> name option \<Rightarrow> name option list \<Rightarrow> db \<Rightarrow> db option" where
  "myrefl_comp_contains_many parent_name child_name argp db =
     (if badstr parent_name \<or> badstr child_name then Some db
      else foldM (myrefl_comp_contains parent_name) (child_name # takeWhile (\<lambda>a. a \<noteq> None) argp) db)"

definition myrefl_comp_delete :: "name option \<Rightarrow> db \<Rightarrow> db option" where
  "myrefl_comp_delete component_name =
     api_lookup component_name TYPE_ANY (\<lambda>ob db. if type_of db ob \<noteq> TYPE_COMP then Some db else myrefl_obj_delete ob db)"

definition myrefl_api_comp_set_context :: "name option \<Rightarrow> nat \<Rightarrow> db \<Rightarrow> db option" where
  "myrefl_api_comp_set_context component_name ctx =
     api_object component_name TYPE_COMP (\<lambda>ob db. Some (set_context ctx ob db))"

definition myrefl_api_comp_get_context :: "name option \<Rightarrow> db \<Rightarrow> nat option" where
  "myrefl_api_comp_get_context component_name db =
     api_read component_name TYPE_COMP 0 (\<lambda>ob. i_context (inst db (base ob))) db"

definition myrefl_comp_set_description :: "name option \<Rightarrow> string option \<Rightarrow> db \<Rightarrow> db option" where
  "myrefl_comp_set_description component_name description =
     api_object component_name TYPE_COMP (\<lambda>ob db. Some (set_description description ob db))"

section \<open>Enabling and disabling components\<close>

text \<open>One loop serves both directions: \<open>on\<close> is the state that is set, \<open>off\<close> the opposite one.\<close>

definition contained_state :: "obj_state \<Rightarrow> obj_state \<Rightarrow> bool \<Rightarrow> obj_state option \<Rightarrow> obj_instance \<Rightarrow> obj_instance" where
  "contained_state on off cli parent x =
     (let x = (if i_state x = off \<or> i_state x = STATE_CREATED then
                 (let x = (if cli then x\<lparr>i_cli_state := STATE_INITIALIZED\<rparr> else x)
                  in if i_cli_state x \<noteq> off \<and> (parent = None \<or> parent = Some on) then x\<lparr>i_state := on\<rparr> else x)
               else x)
      in if \<not> cli then x\<lparr>i_default_state := on\<rparr> else x)"

definition parent_state :: "db \<Rightarrow> oid \<Rightarrow> obj_state option" where
  "parent_state db ob = map_option (\<lambda>p. i_state (inst db (base p))) (o_parent_comp (objs db ob))"

definition is_polled :: "db \<Rightarrow> oid \<Rightarrow> bool" where
  "is_polled db ob = (case test_of db ob of Some t \<Rightarrow> t_type t = POLLED | None \<Rightarrow> False)"

definition enable_contained :: "bool \<Rightarrow> oid \<Rightarrow> iref \<Rightarrow> db \<Rightarrow> db option" where
  "enable_contained cli ob i db =
     (let db = upd_inst i (contained_state STATE_ENABLED STATE_DISABLED cli (parent_state db ob)) db
      in if is_polled db ob \<and> i_state (inst db i) = STATE_ENABLED then myrefl_sched_add_test i False db else Some db)"

definition disable_contained :: "bool \<Rightarrow> oid \<Rightarrow> iref \<Rightarrow> db \<Rightarrow> db option" where
  "disable_contained cli ob i db =
     (let db = upd_inst i (contained_state STATE_DISABLED STATE_ENABLED cli (parent_state db ob)) db
      in if is_polled db ob \<and> i_state (inst db i) = STATE_DISABLED then Some (myrefl_sched_remove_test i db) else Some db)"

partial_function (option) each_contained ::
  "(oid \<Rightarrow> iref \<Rightarrow> db \<Rightarrow> db option) \<Rightarrow> oid \<Rightarrow> oid option \<Rightarrow> db \<Rightarrow> db option" where
  "each_contained f cp ob db =
     (case ob of
        None \<Rightarrow> Some db
      | Some x \<Rightarrow>
          Option.bind (foldM (f x) (all_instances db x) db) (\<lambda>db.
          Option.bind (myrefl_comp_get_next_contained db (Some cp) (Some x) TYPE_ANY) (\<lambda>next.
            each_contained f cp next db)))"

definition all_contained :: "(oid \<Rightarrow> iref \<Rightarrow> db \<Rightarrow> db option) \<Rightarrow> oid \<Rightarrow> db \<Rightarrow> db option" where
  "all_contained f cp db =
     Option.bind (myrefl_comp_get_first_contained db (Some cp) TYPE_ANY) (\<lambda>ob. each_contained f cp ob db)"

text \<open>A component that has been validated; \<open>None\<close> of the lookup is refused by the validation as well.\<close>

definition api_comp :: "name option \<Rightarrow> (oid \<Rightarrow> db \<Rightarrow> db option) \<Rightarrow> db \<Rightarrow> db option" where
  "api_comp n f db =
     (if badstr n then Some db
      else do {
        (p, db) \<leftarrow> myrefl_api_get_or_create (the n) TYPE_COMP db;
        (ok, db) \<leftarrow> myrefl_obj_validate p TYPE_COMP db;
        if ok then f (the p) db else Some db })"

definition myrefl_api_comp_enable_guts :: "name option \<Rightarrow> bool \<Rightarrow> db \<Rightarrow> db option" where
  "myrefl_api_comp_enable_guts comp_name cli =
     api_comp comp_name (\<lambda>ob db.
       let s = i_state (inst db (base ob)) in
       if s = STATE_DISABLED \<or> s = STATE_CREATED \<or> s = STATE_ENABLED then
         all_contained (enable_contained cli) ob
           (if s = STATE_ENABLED then db else upd_inst (base ob) (enable_state cli) db)
       else if s = STATE_INITIALIZED then note_state cli STATE_ENABLED (base ob) db
       else Some db)"

definition myrefl_comp_enable :: "name option \<Rightarrow> db \<Rightarrow> db option" where
  "myrefl_comp_enable comp_name = myrefl_api_comp_enable_guts comp_name False"

definition myrefl_api_comp_disable_guts :: "name option \<Rightarrow> bool \<Rightarrow> db \<Rightarrow> db option" where
  "myrefl_api_comp_disable_guts comp_name cli =
     api_comp comp_name (\<lambda>ob db.
       let s = i_state (inst db (base ob)) in
       if s = STATE_ENABLED \<or> s = STATE_CREATED \<or> s = STATE_DISABLED then
         all_contained (disable_contained cli) ob
           (if s = STATE_DISABLED then db else upd_inst (base ob) (disable_state cli) db)
       else if s = STATE_INITIALIZED then note_state cli STATE_DISABLED (base ob) db
       else Some db)"

definition myrefl_comp_disable :: "name option \<Rightarrow> db \<Rightarrow> db option" where
  "myrefl_comp_disable comp_name = myrefl_api_comp_disable_guts comp_name False"

section \<open>Back to the defaults\<close>

definition comp_empty :: "obj_comp \<Rightarrow> bool" where
  "comp_empty c \<longleftrightarrow> c_nones c = [] \<and> c_tests c = [] \<and> c_actions c = [] \<and> c_rules c = [] \<and> c_comps c = []"

text \<open>A component in the component: it is deleted when it is empty, and set to its defaults in any case.\<close>

definition default_comp :: "oid \<Rightarrow> db \<Rightarrow> db option" where
  "default_comp ob db = do {
     (ok, db) \<leftarrow> myrefl_obj_validate (Some ob) TYPE_COMP db;
     if \<not> ok then Some db else do {
     c \<leftarrow> comp_of db ob;
     db \<leftarrow> (if comp_empty c then myrefl_obj_delete ob db else Some db);
     Some (upd_inst (base ob) default_state db) }}"

definition default_object :: "oid \<Rightarrow> db \<Rightarrow> db option" where
  "default_object ob db =
     (let n = Some (i_name (inst db (base ob))) in
      case type_of db ob of
        TYPE_TEST \<Rightarrow> myrefl_api_test_default n None db
      | TYPE_RULE \<Rightarrow> myrefl_api_rule_default n None db
      | TYPE_ACTION \<Rightarrow> myrefl_api_action_default n None db
      | TYPE_COMP \<Rightarrow> default_comp ob db
      | _ \<Rightarrow> Some db)"

text \<open>The walk starts again when the object is not valid any more.\<close>

partial_function (option) default_contained :: "oid \<Rightarrow> oid option \<Rightarrow> db \<Rightarrow> db option" where
  "default_contained cp ob db =
     (case ob of
        None \<Rightarrow> Some db
      | Some x \<Rightarrow>
          Option.bind (default_object x db) (\<lambda>db.
          Option.bind (myrefl_obj_validate (Some x) TYPE_ANY db) (\<lambda>(ok, db).
          Option.bind (if ok then myrefl_comp_get_next_contained db (Some cp) (Some x) TYPE_ANY
                       else myrefl_comp_get_first_contained db (Some cp) TYPE_ANY) (\<lambda>next.
            default_contained cp next db))))"

definition myrefl_api_comp_default :: "name option \<Rightarrow> db \<Rightarrow> db option" where
  "myrefl_api_comp_default comp_name =
     api_lookup comp_name TYPE_COMP (\<lambda>ob db.
       let s = i_state (inst db (base ob)) in
       if in_service s then
         (let db = upd_inst (base ob) default_state db
          in Option.bind (myrefl_comp_get_first_contained db (Some ob) TYPE_ANY) (\<lambda>x. default_contained ob x db))
       else if s = STATE_INITIALIZED then
         Option.bind (comp_of db ob) (\<lambda>c.
           if comp_empty c then myrefl_obj_delete ob db
           else Some (upd_inst (base ob) (\<lambda>x. x\<lparr>i_cli_state := STATE_INITIALIZED\<rparr>) db))
       else Some db)"

section \<open>Health\<close>

definition myrefl_health_set :: "name option \<Rightarrow> 32 word \<Rightarrow> db \<Rightarrow> db option" where
  "myrefl_health_set component_name h =
     api_object component_name TYPE_COMP (\<lambda>ob. myrefl_seq_comp_set_health (Some ob) (uint (h * 10)))"

text \<open>The division is one of unsigned integers: a health below zero is read as a large number.\<close>

definition myrefl_health_get :: "name option \<Rightarrow> db \<Rightarrow> 32 word option" where
  "myrefl_health_get component_name db =
     api_read component_name TYPE_COMP 0 (\<lambda>ob. word_of_int (health (healths db ob)) div 10) db"

section \<open>Instances\<close>

definition myrefl_instance_create :: "name option \<Rightarrow> name option \<Rightarrow> nat \<Rightarrow> db \<Rightarrow> db option" where
  "myrefl_instance_create object_name instance_name ctx db =
     (if badstr object_name \<or> badstr instance_name then Some db
      else api_object object_name TYPE_ANY (\<lambda>ob db. do {
        let n = myrefl_api_convert_name (the instance_name);
        (p, db) \<leftarrow> myrefl_obj_instance_by_name (Some ob) (Some n) db;
        (case p of
           Some _ \<Rightarrow> Some db
         | None \<Rightarrow> do {
             let (i, db) = myrefl_api_instance_create ob n db;
             let db = upd_inst i (\<lambda>x. x\<lparr>i_context := ctx\<rparr>) db;
             db \<leftarrow> (if is_polled db ob then myrefl_sched_add_test i False db else Some db);
             Some (upd_inst i (\<lambda>x. if i_state x = STATE_INITIALIZED then x\<lparr>i_state := STATE_CREATED\<rparr> else x) db) }) }) db)"

definition myrefl_instance_delete :: "name option \<Rightarrow> name option \<Rightarrow> db \<Rightarrow> db option" where
  "myrefl_instance_delete object_name instance_name db =
     (if badstr object_name \<or> badstr instance_name then Some db
      else api_lookup object_name TYPE_ANY (\<lambda>ob db. do {
        (p, db) \<leftarrow> myrefl_obj_instance_by_name (Some ob) (map_option myrefl_api_convert_name instance_name) db;
        (case p of
           None \<Rightarrow> Some db
         | Some i \<Rightarrow>
             let db = (if type_of db ob = TYPE_TEST then myrefl_sched_remove_test i db else db)
             in myrefl_obj_instance_delete i db) }) db)"

section \<open>Notifications\<close>

definition notify_flag :: "iref \<Rightarrow> db \<Rightarrow> db" where
  "notify_flag i = upd_inst i (\<lambda>x. x\<lparr>i_flags := or (i_flags x) OBJ_FLAG_NOTIFY\<rparr>)"

text \<open>The entries answer \<open>FALSE\<close> when the name is bad or the object can not be had.\<close>

definition notify_object :: "name option \<Rightarrow> obj_type \<Rightarrow> name option \<Rightarrow> db \<Rightarrow> (bool \<times> db) option" where
  "notify_object n type instance_name db =
     (if badstr n then Some (False, db)
      else do {
        (p, db) \<leftarrow> myrefl_api_get_or_create (the n) type db;
        (case p of
           None \<Rightarrow> Some (False, db)
         | Some ob \<Rightarrow>
             if badstr instance_name then Some (True, notify_flag (base ob) db)
             else map_option (\<lambda>(i, db). (True, notify_flag i db)) (pick_instance ob instance_name db)) })"

definition myrefl_notify_test_result :: "name option \<Rightarrow> name option \<Rightarrow> bool \<Rightarrow> db \<Rightarrow> (bool \<times> db) option" where
  "myrefl_notify_test_result test_name instance_name enable_notification = notify_object test_name TYPE_TEST instance_name"

definition myrefl_notify_rule_result :: "name option \<Rightarrow> name option \<Rightarrow> bool \<Rightarrow> db \<Rightarrow> (bool \<times> db) option" where
  "myrefl_notify_rule_result rule_name instance_name enable_notification = notify_object rule_name TYPE_RULE instance_name"

definition myrefl_notify_action_result :: "name option \<Rightarrow> name option \<Rightarrow> bool \<Rightarrow> db \<Rightarrow> (bool \<times> db) option" where
  "myrefl_notify_action_result action_name instance_name enable_notification = notify_object action_name TYPE_ACTION instance_name"

definition myrefl_component_health_notify :: "name option \<Rightarrow> 32 word \<Rightarrow> 32 word \<Rightarrow> bool" where
  "myrefl_component_health_notify component_name lower_threshold upper_threshold = (\<not> badstr component_name)"

definition myrefl_execute_action :: "name option \<Rightarrow> name option \<Rightarrow> bool" where
  "myrefl_execute_action action_name instance_name = (\<not> badstr action_name)"

section \<open>The built-in actions\<close>

definition fn_reload :: nat where "fn_reload = 2"
definition fn_switchover :: nat where "fn_switchover = 3"
definition fn_reload_standby :: nat where "fn_reload_standby = 4"
definition fn_scheduled_reload :: nat where "fn_scheduled_reload = 5"
definition fn_scheduled_switchover :: nat where "fn_scheduled_switchover = 6"
definition fn_noop :: nat where "fn_noop = 7"

definition MYREFL_ACTION_RELOAD :: name where "MYREFL_ACTION_RELOAD = ''Built-in-reload''"
definition MYREFL_ACTION_SWITCHOVER :: name where "MYREFL_ACTION_SWITCHOVER = ''Built-in-switchover''"
definition MYREFL_ACTION_RELOAD_STANDBY :: name where "MYREFL_ACTION_RELOAD_STANDBY = ''Built-in-reload-standby''"
definition MYREFL_ACTION_SCHEDULED_RELOAD :: name where "MYREFL_ACTION_SCHEDULED_RELOAD = ''Built-in-scheduled-reload''"
definition MYREFL_ACTION_SCHEDULED_SWITCHOVER :: name where "MYREFL_ACTION_SCHEDULED_SWITCHOVER = ''Built-in-scheduled-switchover''"
definition MYREFL_ACTION_NOOP :: name where "MYREFL_ACTION_NOOP = ''Built-in-No-op''"

definition create_built_in :: "name \<Rightarrow> nat \<Rightarrow> 32 word \<Rightarrow> db \<Rightarrow> db option" where
  "create_built_in n fn flags db = do {
     db \<leftarrow> myrefl_action_create (Some n) (Some fn) 0 db;
     p \<leftarrow> myrefl_obj_get_by_name_unconverted db n TYPE_ACTION;
     let db = (case p of None \<Rightarrow> db | Some ob \<Rightarrow> upd_inst (base ob) (\<lambda>x. x\<lparr>i_flags := or (i_flags x) flags\<rparr>) db);
     myrefl_action_enable (Some n) None db }"

definition myrefl_api_init :: "db \<Rightarrow> db option" where
  "myrefl_api_init db = do {
     db \<leftarrow> create_built_in MYREFL_ACTION_RELOAD fn_reload OBJ_FLAG_BUILT_IN db;
     db \<leftarrow> create_built_in MYREFL_ACTION_SWITCHOVER fn_switchover OBJ_FLAG_BUILT_IN db;
     db \<leftarrow> create_built_in MYREFL_ACTION_RELOAD_STANDBY fn_reload_standby OBJ_FLAG_BUILT_IN db;
     db \<leftarrow> create_built_in MYREFL_ACTION_SCHEDULED_RELOAD fn_scheduled_reload OBJ_FLAG_BUILT_IN db;
     db \<leftarrow> create_built_in MYREFL_ACTION_SCHEDULED_SWITCHOVER fn_scheduled_switchover OBJ_FLAG_BUILT_IN db;
     create_built_in MYREFL_ACTION_NOOP fn_noop (or OBJ_FLAG_BUILT_IN OBJ_FLAG_SILENT) db }"

end
