(* ===== verification/Typed.thy ===== *)
theory Typed
  imports ApiComp
begin

text \<open>
  The typing of the pointers in the object database. The code keeps pointers to rules, actions,
  tests and components without a type tag and follows them unchecked; the invariant \<open>typed\<close>
  says that each leads to an object of the type it is declared for. An object without a type can get one,
  and no other object changes its type (\<open>types_le\<close>), so a pointer once typed stays typed. Every
  entry of the client API is such a step (\<open>tstep\<close>).
\<close>

section \<open>Typed objects\<close>

definition ref_ok :: "(oid \<Rightarrow> obj_type) \<Rightarrow> obj_type \<Rightarrow> oid option \<Rightarrow> bool" where
  "ref_ok t ty p \<longleftrightarrow> (case p of None \<Rightarrow> True | Some x \<Rightarrow> t x = ty)"

definition refs_ok :: "(oid \<Rightarrow> obj_type) \<Rightarrow> obj_type set \<Rightarrow> oid list \<Rightarrow> bool" where
  "refs_ok t tys xs \<longleftrightarrow> (\<forall>x \<in> set xs. t x \<in> tys)"

definition data_ok :: "(oid \<Rightarrow> obj_type) \<Rightarrow> obj_data \<Rightarrow> bool" where
  "data_ok t d =
     (case d of
        DNone \<Rightarrow> True
      | DTest x \<Rightarrow> ref_ok t TYPE_RULE (t_rule x)
      | DRule r \<Rightarrow> ref_ok t TYPE_RULE (r_output r) \<and> ref_ok t TYPE_RULE (r_next_in_input r) \<and>
          refs_ok t {TYPE_ACTION} (r_action_list r)
      | DAction a \<Rightarrow> refs_ok t {TYPE_RULE} (a_rule_list a)
      | DComp c \<Rightarrow> refs_ok t {TYPE_RULE, TYPE_COMP} (c_top_depend c) \<and>
          refs_ok t {TYPE_RULE, TYPE_COMP} (c_bottom_depend c) \<and> refs_ok t {TYPE_TEST} (c_interested c))"

definition obj_ok :: "(oid \<Rightarrow> obj_type) \<Rightarrow> obj \<Rightarrow> bool" where
  "obj_ok t ob \<longleftrightarrow> data_ok t (o_data ob) \<and> ref_ok t TYPE_RULE (o_ref_rule ob)"

definition typed :: "db \<Rightarrow> bool" where
  "typed db \<longleftrightarrow> chains_ok db \<and> fresh_ok db \<and> ref_ok (type_of db) TYPE_COMP (system_comp db) \<and>
     (\<forall>x. obj_ok (type_of db) (objs db x))"

definition types_le :: "db \<Rightarrow> db \<Rightarrow> bool" where
  "types_le s t \<longleftrightarrow> next_oid s \<le> next_oid t \<and> (\<forall>x. type_of s x \<noteq> TYPE_NONE \<longrightarrow> type_of t x = type_of s x)"

definition tstep :: "db \<Rightarrow> db \<Rightarrow> bool" where
  "tstep s t \<longleftrightarrow> (typed s \<longrightarrow> typed t \<and> types_le s t)"

text \<open>The objects handed out so far.\<close>

definition known :: "db \<Rightarrow> oid \<Rightarrow> bool" where
  "known s x \<longleftrightarrow> x < next_oid s"

lemma tstep_refl [simp]: "tstep s s"
  by (simp add: tstep_def types_le_def)

lemma tstep_trans [trans]: "tstep a b \<Longrightarrow> tstep b c \<Longrightarrow> tstep a c"
  by (auto simp: tstep_def types_le_def)

lemma tstepD:
  assumes "tstep s t" and "typed s"
  shows "typed t" and "type_of s x \<noteq> TYPE_NONE \<Longrightarrow> type_of t x = type_of s x"
  using assms by (auto simp: tstep_def types_le_def)

lemma ref_ok_le: "ref_ok t ty p \<Longrightarrow> ty \<noteq> TYPE_NONE \<Longrightarrow> \<forall>x. t x \<noteq> TYPE_NONE \<longrightarrow> t' x = t x \<Longrightarrow> ref_ok t' ty p"
  by (auto simp: ref_ok_def split: option.splits)

lemma refs_ok_le: "refs_ok t tys xs \<Longrightarrow> TYPE_NONE \<notin> tys \<Longrightarrow> \<forall>x. t x \<noteq> TYPE_NONE \<longrightarrow> t' x = t x \<Longrightarrow> refs_ok t' tys xs"
  unfolding refs_ok_def by metis

lemma obj_ok_le:
  assumes "obj_ok t ob" and le: "\<forall>x. t x \<noteq> TYPE_NONE \<longrightarrow> t' x = t x"
  shows "obj_ok t' ob"
  using assms(1) by (auto simp: obj_ok_def data_ok_def intro: ref_ok_le [OF _ _ le] refs_ok_le [OF _ _ le] split: obj_data.splits)

lemma refs_ok_simps [simp]:
  "refs_ok t tys []" "refs_ok t tys (x # xs) \<longleftrightarrow> t x \<in> tys \<and> refs_ok t tys xs"
  "refs_ok t tys (list_add x xs) \<longleftrightarrow> t x \<in> tys \<and> refs_ok t tys xs"
  by (auto simp: refs_ok_def list_add_def)

lemma refs_ok_remove1 [intro]: "refs_ok t tys xs \<Longrightarrow> refs_ok t tys (remove1 x xs)"
  by (auto simp: refs_ok_def dest: subsetD [OF set_remove1_subset])

lemma refs_ok_tl [intro]: "refs_ok t tys xs \<Longrightarrow> refs_ok t tys (tl xs)"
  by (cases xs) auto

lemma ref_ok_None [simp]: "ref_ok t ty None"
  by (simp add: ref_ok_def)

lemma ref_ok_Some [simp]: "ref_ok t ty (Some x) \<longleftrightarrow> t x = ty"
  by (simp add: ref_ok_def)

lemma typed_obj: "typed s \<Longrightarrow> obj_ok (type_of s) (objs s x)"
  by (simp add: typed_def)

text \<open>What a pointer of a typed object leads to.\<close>

lemma typed_reads:
  assumes "typed s"
  shows "test_of s x = Some t \<Longrightarrow> ref_ok (type_of s) TYPE_RULE (t_rule t)"
    and "rule_of s x = Some r \<Longrightarrow> ref_ok (type_of s) TYPE_RULE (r_output r) \<and> ref_ok (type_of s) TYPE_RULE (r_next_in_input r) \<and>
          refs_ok (type_of s) {TYPE_ACTION} (r_action_list r)"
    and "action_of s x = Some a \<Longrightarrow> refs_ok (type_of s) {TYPE_RULE} (a_rule_list a)"
    and "comp_of s x = Some c \<Longrightarrow> refs_ok (type_of s) {TYPE_TEST} (c_interested c)"
    and "ref_ok (type_of s) TYPE_RULE (o_ref_rule (objs s x))"
    and "input_head s x = Some h \<Longrightarrow> ref_ok (type_of s) TYPE_RULE h"
    and "ref_ok (type_of s) TYPE_RULE (next_rule s x)"
proof -
  note ok = typed_obj [OF assms, of x]
  show "test_of s x = Some t \<Longrightarrow> ref_ok (type_of s) TYPE_RULE (t_rule t)"
    "rule_of s x = Some r \<Longrightarrow> ref_ok (type_of s) TYPE_RULE (r_output r) \<and> ref_ok (type_of s) TYPE_RULE (r_next_in_input r) \<and>
          refs_ok (type_of s) {TYPE_ACTION} (r_action_list r)"
    "action_of s x = Some a \<Longrightarrow> refs_ok (type_of s) {TYPE_RULE} (a_rule_list a)"
    "comp_of s x = Some c \<Longrightarrow> refs_ok (type_of s) {TYPE_TEST} (c_interested c)"
    "ref_ok (type_of s) TYPE_RULE (o_ref_rule (objs s x))"
    "input_head s x = Some h \<Longrightarrow> ref_ok (type_of s) TYPE_RULE h"
    using ok by (auto simp: obj_ok_def data_ok_def test_of_def rule_of_def action_of_def comp_of_def input_head_def split: obj_data.splits)
  show "ref_ok (type_of s) TYPE_RULE (next_rule s x)"
    using ok by (auto simp: obj_ok_def data_ok_def rule_of_def next_rule_def split: obj_data.splits)
qed

section \<open>Steps\<close>

text \<open>Only the objects, the system component and the next \<open>oid\<close> matter.\<close>

lemma tstep_same:
  assumes "objs t = objs s" and "system_comp t = system_comp s" and "next_oid t = next_oid s"
  shows "tstep s t"
proof -
  have ty: "type_of t = type_of s" by (simp add: fun_eq_iff type_of_def assms(1))
  have c: "chain t = chain s" by (simp add: fun_eq_iff chain_def comp_of_def assms(1))
  show ?thesis
    by (simp add: tstep_def typed_def types_le_def chains_ok_def fresh_ok_def ty c assms)
qed

lemma tstep_runtime: "runtime s t \<Longrightarrow> tstep s t"
  by (rule tstep_same) (simp_all add: runtime_def)

lemma tstep_upd_inst [simp]: "tstep s (upd_inst i f s)"
  by (rule tstep_same) (simp_all add: upd_inst_def)

lemma tstep_upd_health [simp]: "tstep s (upd_health x f s)"
  by (rule tstep_same) (simp_all add: upd_health_def)

lemma tstep_emit [simp]: "tstep s (emit e s)"
  by (rule tstep_same) (simp_all add: emit_def)

lemma tstep_push_freeme [simp]: "tstep s (push_freeme i s)"
  by (rule tstep_same) (simp_all add: push_freeme_def)

text \<open>An object is changed and keeps its type, its component and its chains.\<close>

definition comp_shape :: "obj_data \<Rightarrow> obj_type \<Rightarrow> oid list option" where
  "comp_shape d ty = (case d of DComp c \<Rightarrow> Some (comp_list ty c) | _ \<Rightarrow> None)"

definition data_type :: "obj_data \<Rightarrow> obj_type" where
  "data_type d = (case d of DNone \<Rightarrow> TYPE_NONE | DTest _ \<Rightarrow> TYPE_TEST | DRule _ \<Rightarrow> TYPE_RULE | DAction _ \<Rightarrow> TYPE_ACTION | DComp _ \<Rightarrow> TYPE_COMP)"

lemma tstep_upd_obj:
  assumes "o_parent_comp (f (objs s x)) = o_parent_comp (objs s x)"
    and "data_type (o_data (f (objs s x))) = data_type (o_data (objs s x))"
    and "comp_shape (o_data (f (objs s x))) = comp_shape (o_data (objs s x))"
    and "typed s \<Longrightarrow> obj_ok (type_of s) (f (objs s x))"
  shows "tstep s (upd_obj x f s)"
proof -
  let ?t = "upd_obj x f s"
  have o: "objs ?t y = (if y = x then f (objs s x) else objs s y)" for y by (simp add: upd_obj_def)
  have ty: "type_of ?t = type_of s"
    using assms(2) by (auto simp: fun_eq_iff type_of_def o data_type_def)
  have ch: "chain ?t ty y = (case comp_shape (o_data (objs ?t y)) ty of None \<Rightarrow> [] | Some xs \<Rightarrow> xs)" for ty y
    by (simp add: chain_def comp_of_def comp_shape_def split: obj_data.split)
  have "chain s ty y = (case comp_shape (o_data (objs s y)) ty of None \<Rightarrow> [] | Some xs \<Rightarrow> xs)" for ty y
    by (simp add: chain_def comp_of_def comp_shape_def split: obj_data.split)
  with ch have c: "chain ?t = chain s" using assms(3) by (auto simp: fun_eq_iff o)
  have p: "o_parent_comp (objs ?t y) = o_parent_comp (objs s y)" for y by (simp add: o assms(1))
  have "system_comp ?t = system_comp s" "next_oid ?t = next_oid s" by (simp_all add: upd_obj_def)
  then have "chains_ok ?t = chains_ok s" "fresh_ok ?t = fresh_ok s"
    "ref_ok (type_of ?t) TYPE_COMP (system_comp ?t) = ref_ok (type_of s) TYPE_COMP (system_comp s)"
    by (simp_all add: chains_ok_def fresh_ok_def ty c p)
  moreover have "obj_ok (type_of ?t) (objs ?t y)" if "typed s" for y
    using assms(4) [OF that] typed_obj [OF that, of y] by (simp add: ty o)
  moreover have "next_oid ?t = next_oid s" by (simp add: upd_obj_def)
  ultimately show ?thesis by (auto simp: tstep_def typed_def types_le_def ty)
qed

lemma tstep_set_rule:
  assumes "\<And>r. typed s \<Longrightarrow> rule_of s x = Some r \<Longrightarrow> data_ok (type_of s) (DRule r) \<Longrightarrow> data_ok (type_of s) (DRule (f r))"
  shows "tstep s (set_rule x f s)"
  unfolding set_rule_def
  by (rule tstep_upd_obj)
    (use assms typed_obj [of s x] in \<open>auto simp: obj_ok_def data_type_def comp_shape_def rule_of_def fun_eq_iff split: obj_data.splits\<close>)

lemma tstep_set_test:
  assumes "\<And>r. typed s \<Longrightarrow> test_of s x = Some r \<Longrightarrow> data_ok (type_of s) (DTest r) \<Longrightarrow> data_ok (type_of s) (DTest (f r))"
  shows "tstep s (set_test x f s)"
  unfolding set_test_def
  by (rule tstep_upd_obj)
    (use assms typed_obj [of s x] in \<open>auto simp: obj_ok_def data_type_def comp_shape_def test_of_def fun_eq_iff split: obj_data.splits\<close>)

lemma tstep_set_action:
  assumes "\<And>r. typed s \<Longrightarrow> action_of s x = Some r \<Longrightarrow> data_ok (type_of s) (DAction r) \<Longrightarrow> data_ok (type_of s) (DAction (f r))"
  shows "tstep s (set_action x f s)"
  unfolding set_action_def
  by (rule tstep_upd_obj)
    (use assms typed_obj [of s x] in \<open>auto simp: obj_ok_def data_type_def comp_shape_def action_of_def fun_eq_iff split: obj_data.splits\<close>)

lemma tstep_set_comp:
  assumes "\<And>c. typed s \<Longrightarrow> comp_of s x = Some c \<Longrightarrow> data_ok (type_of s) (DComp c) \<Longrightarrow> data_ok (type_of s) (DComp (f c))"
    and "\<And>c ty. comp_list ty (f c) = comp_list ty c"
  shows "tstep s (set_comp x f s)"
  unfolding set_comp_def
  by (rule tstep_upd_obj)
    (use assms typed_obj [of s x] in \<open>auto simp: obj_ok_def data_type_def comp_shape_def comp_of_def fun_eq_iff split: obj_data.splits\<close>)

lemma tstep_obj_links:
  "tstep s (upd_obj x (\<lambda>ob. ob\<lparr>o_description := d\<rparr>) s)"
  "tstep s (upd_obj x (\<lambda>ob. ob\<lparr>o_domain := n\<rparr>) s)"
  "tstep s (upd_obj x (\<lambda>ob. ob\<lparr>o_members := g (o_members ob)\<rparr>) s)"
  "tstep s (upd_obj x (\<lambda>ob. ob\<lparr>o_child_depend := h (o_child_depend ob)\<rparr>) s)"
  "tstep s (upd_obj x (\<lambda>ob. ob\<lparr>o_parent_depend := h (o_parent_depend ob)\<rparr>) s)"
  "tstep s (upd_obj x (\<lambda>ob. ob\<lparr>o_description := d, o_remote_location := b\<rparr>) s)"
  by (rule tstep_upd_obj; use typed_obj [of s x] in \<open>simp add: obj_ok_def\<close>)+

lemma tstep_ref_rule:
  assumes "typed s \<Longrightarrow> ref_ok (type_of s) TYPE_RULE v"
  shows "tstep s (upd_obj x (\<lambda>ob. ob\<lparr>o_ref_rule := v\<rparr>) s)"
  by (rule tstep_upd_obj) (use assms typed_obj [of s x] in \<open>simp_all add: obj_ok_def\<close>)

section \<open>Validation\<close>

lemma type_of_data: "o_data (objs s x) = DRule r \<Longrightarrow> type_of s x = TYPE_RULE"
  "o_data (objs s x) = DAction a \<Longrightarrow> type_of s x = TYPE_ACTION"
  by (simp_all add: type_of_def)

lemma known_later: "known s x \<Longrightarrow> typed s \<Longrightarrow> tstep s t \<Longrightarrow> known t x"
  by (auto simp: tstep_def types_le_def known_def)

lemma typed_later: "typed s \<Longrightarrow> tstep s t \<Longrightarrow> type_of s x = ty \<Longrightarrow> ty \<noteq> TYPE_NONE \<Longrightarrow> type_of t x = ty"
  using tstepD(2) [of s t x] by auto

text \<open>A loop of steps, where what is needed is known at the start of the loop.\<close>

lemma tstep_fold:
  assumes "\<And>x t. tstep s t \<Longrightarrow> typed s \<Longrightarrow> typed t \<Longrightarrow> x \<in> set xs \<Longrightarrow> tstep t (f x t)"
  shows "tstep s (fold f xs s)"
proof (cases "typed s")
  case True
  have "tstep s t \<Longrightarrow> set ys \<subseteq> set xs \<Longrightarrow> tstep s (fold f ys t)" for ys t
  proof (induction ys arbitrary: t)
    case (Cons y ys)
    have "tstep t (f y t)"
      using assms [OF Cons.prems(1) True tstepD(1) [OF Cons.prems(1) True]] Cons.prems(2) by simp
    then have "tstep s (f y t)" by (rule tstep_trans [OF Cons.prems(1)])
    then have "tstep s (fold f ys (f y t))" by (rule Cons.IH) (use Cons.prems(2) in simp)
    then show ?case by simp
  qed simp
  then show ?thesis by simp
qed (simp add: tstep_def)

lemma tstep_foldM:
  assumes "foldM f xs s = Some t"
    and "\<And>x u v. tstep s u \<Longrightarrow> typed s \<Longrightarrow> typed u \<Longrightarrow> x \<in> set xs \<Longrightarrow> f x u = Some v \<Longrightarrow> tstep u v"
  shows "tstep s t"
proof (cases "typed s")
  case True
  show ?thesis
  proof (rule foldM_inv [OF assms(1), where P = "tstep s"])
    show "tstep s v" if "x \<in> set xs" "tstep s u" "f x u = Some v" for x u v
      by (rule tstep_trans [OF that(2) assms(2) [OF that(2) True tstepD(1) [OF that(2) True] that(1,3)]])
  qed simp
qed (simp add: tstep_def)

lemma tstep_validate_inputs:
  assumes "validate_inputs rule xs s = Some t"
  shows "tstep s t"
proof -
  let ?P = "\<lambda>rule xs s t. tstep s t"
  show ?thesis
  proof (rule validate_inputs.raw_induct [where P = ?P, OF _ assms], goal_cases)
    case (1 rec rule xs s t)
    have r: "tstep s (set_rule rule (\<lambda>r. r\<lparr>r_inputs := remove1 x (r_inputs r)\<rparr>) s)" for x
      by (rule tstep_set_rule) (simp add: data_ok_def)
    show ?case
      using 1(2) tstep_trans [OF r 1(1)] 1(1) by (auto simp: Let_def split: list.splits bind_splits if_splits)
  qed
qed

lemma tstep_validate_actions:
  assumes "type_of s rule = TYPE_RULE"
  shows "tstep s (validate_actions rule acts s)"
  unfolding validate_actions_def
proof (rule tstep_fold)
  fix a t
  assume t: "tstep s t" "typed s" "typed t"
  then have "type_of t rule = TYPE_RULE" using typed_later assms by blast
  then show "tstep t (case action_of t a of None \<Rightarrow> t
      | Some _ \<Rightarrow> set_action a (\<lambda>x. x\<lparr>a_rule_list := list_add rule (a_rule_list x)\<rparr>) t)"
    by (auto split: option.split intro!: tstep_set_action simp: data_ok_def)
qed

lemma tstep_validate_rules:
  assumes "type_of s act = TYPE_ACTION"
  shows "tstep s (validate_rules act rules s)"
  unfolding validate_rules_def
proof (rule tstep_fold)
  fix a t
  assume t: "tstep s t" "typed s" "typed t"
  then have "type_of t act = TYPE_ACTION" using typed_later assms by blast
  then show "tstep t (case rule_of t a of None \<Rightarrow> t
      | Some _ \<Rightarrow> set_rule a (\<lambda>x. x\<lparr>r_action_list := list_add act (r_action_list x)\<rparr>) t)"
    by (auto split: option.split intro!: tstep_set_rule simp: data_ok_def)
qed

lemma tstep_validate:
  assumes "myrefl_obj_validate p ty s = Some (ok, t)"
  shows "tstep s t"
proof (cases p)
  case (Some ob)
  have nt: "tstep s (set_test ob (\<lambda>t. t\<lparr>t_rule := None\<rparr>) s)" by (rule tstep_set_test) (simp add: data_ok_def)
  show ?thesis
  proof (cases "o_data (objs s ob)")
    case (DRule r)
    then have "tstep s (validate_actions ob acts u)" if "validate_inputs ob (r_inputs r) s = Some u" for acts u
    proof (cases "typed s")
      case True
      note st = tstep_validate_inputs [OF that]
      have "type_of u ob = TYPE_RULE" using typed_later [OF True st] type_of_data(1) [OF DRule] by simp
      then show ?thesis using tstep_trans [OF st tstep_validate_actions] by blast
    qed (simp add: tstep_def)
    then show ?thesis
      using assms Some DRule by (auto simp: myrefl_obj_validate_def split: if_splits bind_splits)
  next
    case (DAction a)
    then show ?thesis
      using assms Some tstep_validate_rules [OF type_of_data(2) [OF DAction], of "a_rule_list a"]
      by (auto simp: myrefl_obj_validate_def split: if_splits bind_splits)
  next
    case (DTest x)
    define u where "u = (case t_rule x of None \<Rightarrow> s | Some r \<Rightarrow>
        if rule_of s r = None then set_test ob (\<lambda>t. t\<lparr>t_rule := None\<rparr>) s else s)"
    have u: "tstep s u" using nt by (auto simp: u_def split: option.split)
    have "t = s \<or> t = u \<or> t = upd_inst (base ob) (\<lambda>b. b\<lparr>i_flags := 0\<rparr>) u"
      using assms Some DTest by (auto simp: myrefl_obj_validate_def u_def Let_def split: if_splits bind_splits option.splits)
    then show ?thesis using u tstep_trans [OF u tstep_upd_inst] by auto
  qed (use assms Some in \<open>auto simp: myrefl_obj_validate_def split: if_splits bind_splits\<close>)
qed (use assms in \<open>simp add: myrefl_obj_validate_def\<close>)

lemma tstep_instance_validate: "myrefl_obj_instance_validate i ty s = Some (ok, t) \<Longrightarrow> tstep s t"
  by (auto simp: myrefl_obj_instance_validate_def split: if_splits dest: tstep_validate)

lemma tstep_instance_by_name: "myrefl_obj_instance_by_name p n s = Some (i, t) \<Longrightarrow> tstep s t"
  by (auto simp: myrefl_obj_instance_by_name_def split: bind_splits if_splits dest: tstep_validate)

lemma tstep_add_test:
  assumes "myrefl_sched_add_test i force s = Some t"
  shows "tstep s t"
proof -
  obtain ok u where v: "myrefl_obj_validate (Some (obj_of i)) TYPE_TEST s = Some (ok, u)"
    using assms by (auto simp: myrefl_sched_add_test_def split: bind_splits)
  have "runtime u (enqueue_test q p i (set_queued q i u))" "runtime u (enqueue_test q p i (snd (remove_queue r i u)))"
    "runtime u (enqueue_test q p i (set_queued q i (snd (remove_queue r i u))))" for q p r
    by (auto intro: runtime_trans [OF _ runtime_enqueue] runtime_trans [OF runtime_queue_ops(3) runtime_set_sched(1)])
  then have "runtime u t"
    using assms v by (auto simp: myrefl_sched_add_test_def Let_def split_beta split: bind_splits option.splits if_splits)
  then show ?thesis using tstep_trans [OF tstep_validate [OF v] tstep_runtime] by blast
qed

lemma tstep_remove_test [simp]: "tstep s (myrefl_sched_remove_test i s)"
  by (rule tstep_runtime) simp

section \<open>Linking and creating\<close>

lemma map_comp_list_depend [simp]:
  "c_top_depend (map_comp_list ty f c) = c_top_depend c" "c_bottom_depend (map_comp_list ty f c) = c_bottom_depend c"
  "c_interested (map_comp_list ty f c) = c_interested c"
  by (cases ty; simp add: map_comp_list_def)+

text \<open>The parts of an object that linking leaves alone.\<close>

lemma obj_ok_set_comp:
  assumes "obj_ok t (objs s x)" and "\<And>c. data_ok t (DComp c) \<Longrightarrow> data_ok t (DComp (f c))"
  shows "obj_ok t (objs (set_comp p f s) x)"
  using assms by (auto simp: set_comp_def upd_obj_def obj_ok_def split: obj_data.split)

lemma obj_ok_set_parent: "obj_ok t (objs (upd_obj p (\<lambda>x. x\<lparr>o_parent_comp := v\<rparr>) s) x) = obj_ok t (objs s x)"
  by (simp add: upd_obj_def obj_ok_def)

lemma link_obj_ok:
  assumes "myrefl_obj_comp_link_obj cp ob s = Some s'" and "obj_ok t (objs s x)"
  shows "obj_ok t (objs s' x)"
  using assms
  by (auto simp: myrefl_obj_comp_link_obj_def Let_def obj_ok_set_parent data_ok_def split: if_splits intro!: obj_ok_set_comp)

lemma unlink_obj_ok:
  assumes "obj_ok t (objs s x)"
  shows "obj_ok t (objs (myrefl_obj_unlink_from_comp ob s) x)"
  using assms
  by (auto simp: myrefl_obj_unlink_from_comp_def Let_def obj_ok_set_parent data_ok_def split: option.split
      intro!: obj_ok_set_comp)

lemma typed_known: "typed s \<Longrightarrow> type_of s x \<noteq> TYPE_NONE \<or> o_parent_comp (objs s x) \<noteq> None \<Longrightarrow> known s x"
  by (auto simp: typed_def fresh_ok_def known_def not_le [symmetric])

lemma tstep_link:
  assumes "myrefl_obj_comp_link_obj cp ob s = Some t" and "known s ob"
  shows "tstep s t"
proof -
  note r = link_reads [OF assms(1)]
  have "fresh_ok t" if "fresh_ok s" using that assms(2) by (auto simp: fresh_ok_def r known_def)
  moreover have "obj_ok (type_of t) (objs t x)" if "typed s" for x
    using link_obj_ok [OF assms(1) typed_obj [OF that]] by (simp add: r)
  ultimately show ?thesis
    using link_chains_ok [OF _ assms(1)] by (auto simp: tstep_def typed_def types_le_def r)
qed

lemma tstep_unlink: "tstep s (myrefl_obj_unlink_from_comp ob s)"
proof (cases "o_parent_comp (objs s ob)")
  case None
  then show ?thesis by (simp add: myrefl_obj_unlink_from_comp_def)
next
  case (Some p)
  let ?t = "myrefl_obj_unlink_from_comp ob s"
  have "typed ?t \<and> types_le s ?t" if t: "typed s"
  proof -
    have ok: "chains_ok s" using t by (simp add: typed_def)
    note r = unlink_reads [OF ok Some]
    have "fresh_ok ?t" using t by (auto simp: typed_def fresh_ok_def r)
    moreover have "obj_ok (type_of ?t) (objs ?t x)" for x
      using unlink_obj_ok [OF typed_obj [OF t, of x], of ob] by (simp only: r(1))
    ultimately show ?thesis using t unlink_chains_ok [OF ok] by (simp add: typed_def types_le_def r)
  qed
  then show ?thesis by (simp add: tstep_def)
qed

lemma zero_data_ok [simp]: "data_ok t (zero_data ty)"
  by (simp add: zero_data_def data_ok_def split: obj_type.split)

lemma tstep_allocate:
  assumes "type_of s x = TYPE_NONE" and "o_parent_comp (objs s x) = None" and "known s x"
  shows "tstep s (snd (allocate_object_type x ty s))"
proof -
  let ?t = "snd (allocate_object_type x ty s)"
  note a = allocate_reads [OF assms(1), where ty = ty]
  have "typed ?t \<and> types_le s ?t" if t: "typed s"
  proof -
    have ok: "chains_ok s" and sys: "ref_ok (type_of s) TYPE_COMP (system_comp s)" using t by (simp_all add: typed_def)
    have "y \<noteq> x" if "y \<in> set (chain s ty' p)" for y ty' p
      using chain_typed(1) [OF ok that] assms(2) by auto
    then have c: "chains_ok ?t" using ok assms(1,2) unfolding chains_ok_def a(2,3,7) by (auto simp: Ball_def)
    have le: "types_le s ?t" using assms(1) by (simp add: types_le_def a(2,5))
    have "objs ?t y = (if y = x then (objs s x)\<lparr>o_data := zero_data ty\<rparr> else objs s y)" for y
      using assms(1) by (simp add: allocate_object_type_def Let_def upd_inst_def upd_health_def upd_obj_def)
    moreover have "obj_ok (type_of ?t) (objs s y)" for y
      using obj_ok_le [OF typed_obj [OF t]] le by (auto simp: types_le_def)
    ultimately have "obj_ok (type_of ?t) (objs ?t y)" for y by (simp add: obj_ok_def)
    moreover have "fresh_ok ?t" using t assms(3) by (auto simp: typed_def fresh_ok_def a(2,3,5) known_def)
    moreover have "ref_ok (type_of ?t) TYPE_COMP (system_comp ?t)"
      using ref_ok_le [OF sys] le unfolding a(4) by (simp add: types_le_def)
    ultimately show ?thesis using c le by (simp add: typed_def)
  qed
  then show ?thesis by (simp add: tstep_def)
qed

lemma tstep_new: "tstep s (snd (new_object n s))"
proof -
  let ?t = "snd (new_object n s)"
  have "typed ?t \<and> types_le s ?t" if t: "typed s"
  proof -
    have fr: "fresh_ok s" and c: "chains_ok s" using t by (simp_all add: typed_def)
    note n = new_object_reads [OF fr, where n = n]
    have "chains_ok ?t" using c by (simp add: chains_ok_def n)
    moreover have "fresh_ok ?t" using fr by (simp add: fresh_ok_def n)
    moreover have "objs ?t y = (if y = next_oid s then zero_obj else objs s y)" for y
      by (simp add: new_object_def Let_def upd_inst_def)
    then have "obj_ok (type_of ?t) (objs ?t y)" for y
      using typed_obj [OF t, of y] by (simp add: n obj_ok_def zero_obj_def data_ok_def)
    ultimately show ?thesis using t by (simp add: typed_def types_le_def n)
  qed
  then show ?thesis by (simp add: tstep_def)
qed

lemma tstep_top_bottom:
  assumes "type_of s x = TYPE_RULE \<or> type_of s x = TYPE_COMP"
  shows "tstep s (set_comp r (\<lambda>c. c\<lparr>c_top_depend := list_add x (c_top_depend c), c_bottom_depend := list_add x (c_bottom_depend c)\<rparr>) s)"
  by (rule tstep_set_comp) (use assms in \<open>auto simp: data_ok_def\<close>)

lemma tstep_create:
  assumes "create_object n ty s = Some (p, t)"
  shows "tstep s t" and "typed s \<Longrightarrow> p = Some ob \<Longrightarrow> known t ob \<and> type_of t ob = real_type ty"
proof -
  let ?ob = "next_oid s" and ?n = "snd (new_object n s)" and ?a = "allocated n ty s"
  have "tstep s t \<and> (p = Some ob \<longrightarrow> known t ob \<and> type_of t ob = real_type ty)" if ty: "typed s"
  proof -
    have fr: "fresh_ok s" using ty by (simp add: typed_def)
    note n = new_object_reads [OF fr, where n = n] and a = allocated_reads [OF fr, where n = n and ty = ty]
    have at: "tstep ?n ?a"
      unfolding allocated_def by (rule tstep_allocate) (use fr in \<open>simp_all add: n fresh_ok_def known_def\<close>)
    have sa: "tstep s ?a" by (rule tstep_trans [OF tstep_new at])
    have k: "known ?a ?ob" by (simp add: known_def a)
    have oid: "fst (new_object n s) = ?ob" by (simp add: new_object_def Let_def)
    note c = assms [unfolded create_object_def, simplified case_prod_beta Let_def oid a(1)]
    show ?thesis
    proof (cases "system_comp s")
      case (Some r)
      then obtain l where l: "myrefl_obj_comp_link_obj r ?ob ?a = Some l" and p: "p = Some ?ob"
        and t: "t = (if type_of l ?ob = TYPE_RULE \<or> type_of l ?ob = TYPE_COMP
          then set_comp r (\<lambda>c. c\<lparr>c_top_depend := list_add ?ob (c_top_depend c), c_bottom_depend := list_add ?ob (c_bottom_depend c)\<rparr>) l else l)"
        using c by (auto simp: oid a split: bind_splits)
      have "tstep l t" using tstep_top_bottom [of l ?ob r] by (simp add: t)
      then have "tstep s t" using tstep_trans [OF sa tstep_trans [OF tstep_link [OF l k]]] by blast
      moreover have "known t ?ob" "type_of t ?ob = real_type ty"
        by (simp_all add: t known_def acc_simps link_reads [OF l] a)
      ultimately show ?thesis using p by auto
    next
      case None
      then have t: "t = ?a \<and> p = Some ?ob \<or> t = ?a\<lparr>system_comp := Some ?ob\<rparr> \<and> p = Some ?ob \<and> type_of ?a ?ob = TYPE_COMP"
        using c by (auto simp: oid a(4) split: if_splits)
      let ?b = "?a\<lparr>system_comp := Some ?ob\<rparr>"
      have "type_of ?b = type_of ?a" "chain ?b = chain ?a" by (auto simp: fun_eq_iff type_of_def chain_def comp_of_def)
      then have "tstep ?a ?b" if "type_of ?a ?ob = TYPE_COMP"
        using that by (simp add: tstep_def typed_def types_le_def chains_ok_def fresh_ok_def)
      moreover have "known ?b ?ob" "type_of ?b ?ob = real_type ty" "type_of ?a ?ob = real_type ty"
        using k \<open>type_of ?b = type_of ?a\<close> by (simp_all add: known_def a(2))
      ultimately show ?thesis using t sa tstep_trans [OF sa] k by (elim disjE) auto
    qed
  qed
  then show "tstep s t" "typed s \<Longrightarrow> p = Some ob \<Longrightarrow> known t ob \<and> type_of t ob = real_type ty"
    by (auto simp: tstep_def)
qed

lemma unlink_next_oid [simp]: "next_oid (myrefl_obj_unlink_from_comp ob s) = next_oid s"
  by (simp add: myrefl_obj_unlink_from_comp_def Let_def acc_simps split: option.split)

lemma tstep_grow:
  assumes "grow_object x ty s = Some t" and "type_of s x = TYPE_NONE"
  shows "tstep s t" and "typed s \<Longrightarrow> type_of t x = real_type ty"
proof -
  obtain p where p: "o_parent_comp (objs s x) = Some p" using assms(1) by (auto simp: grow_object_def split: bind_splits)
  have "tstep s t \<and> type_of t x = real_type ty" if ty: "typed s"
  proof -
    have ok: "chains_ok s" using ty by (simp add: typed_def)
    let ?u = "myrefl_obj_unlink_from_comp x s" and ?a = "snd (allocate_object_type x ty (myrefl_obj_unlink_from_comp x s))"
    note u = unlink_reads [OF ok p]
    have k: "known ?u x" "known ?a x" using typed_known [OF ty, of x] p by (simp_all add: known_def allocate_reads(5) u assms(2))
    have l: "myrefl_obj_comp_link_obj p x ?a = Some t"
      using assms(1) p by (auto simp: grow_object_def case_prod_beta Let_def split: bind_splits)
    have "tstep ?u ?a" by (rule tstep_allocate) (simp_all add: u assms(2) k)
    from tstep_trans [OF tstep_trans [OF tstep_unlink this] tstep_link [OF l k(2)]]
    show ?thesis by (simp add: link_reads [OF l] allocate_reads(2) u assms(2))
  qed
  then show "tstep s t" "typed s \<Longrightarrow> type_of t x = real_type ty" by (auto simp: tstep_def)
qed

lemma tstep_create_system: "create_system s = Some (ok, t) \<Longrightarrow> tstep s t"
  by (auto simp: create_system_def Let_def split: bind_splits option.splits
      dest!: tstep_create(1) intro!: tstep_trans [OF _ tstep_trans [OF tstep_upd_health tstep_upd_inst]])

end
