(* ===== verification/TypedApi.thy ===== *)
theory TypedApi
  imports Typed
begin

text \<open>
  Every entry of the client API keeps the pointers typed (continuing theory \<open>Typed\<close>): deletion,
  containment, dependencies and health first, then the entries, and sessions of calls as a
  transition relation.
\<close>

section \<open>What a lookup finds is in the database\<close>

definition known_opt :: "db \<Rightarrow> oid option \<Rightarrow> bool" where
  "known_opt s p \<longleftrightarrow> (case p of None \<Rightarrow> True | Some x \<Rightarrow> known s x)"

lemma known_opt_simps [simp]: "known_opt s None" "known_opt s (Some x) = known s x"
  by (simp_all add: known_opt_def)

lemma comp_list_known: "typed s \<Longrightarrow> comp_of s p = Some c \<Longrightarrow> x \<in> set (comp_list ty c) \<Longrightarrow> known s x"
  using chain_typed(1) [of s x ty p] by (intro typed_known) (auto simp: typed_def chain_def)

lemma after_member: "after x ys = Some z \<Longrightarrow> z \<in> set ys"
  by (induction x ys rule: after.induct) (auto split: if_splits)

lemma next_in_comp_known: "typed s \<Longrightarrow> known_opt s (next_in_comp s x)"
  by (cases "next_in_comp s x") (auto simp: next_in_comp_def split: bind_splits dest!: after_member intro: comp_list_known)

lemma parents_next_known: "typed s \<Longrightarrow> known_opt s (parents_next n s x)"
proof (induction n arbitrary: x)
  case (Suc n)
  then show ?case
    using next_in_comp_known [OF Suc.prems] by (auto split: option.split) (metis known_opt_simps(2))
qed simp

lemma comp_get_next_known:
  assumes "typed s" and "comp_get_next s cp = Some p"
  shows "known_opt s p"
proof (cases cp)
  case None
  then show ?thesis
    using assms by (cases "system_comp s") (auto simp: comp_get_next_def typed_def ref_ok_def intro!: typed_known)
next
  case (Some x)
  then obtain c where c: "comp_of s x = Some c" and p: "p = (case c_comps c of y # _ \<Rightarrow> Some y | [] \<Rightarrow>
      (case next_in_comp s x of Some z \<Rightarrow> Some z | None \<Rightarrow> parents_next (MAX_COMP_NESTING + 1) s x))"
    using assms(2) by (auto simp: comp_get_next_def split: bind_splits list.splits option.splits)
  show ?thesis
  proof (cases "c_comps c")
    case (Cons y ys)
    then show ?thesis using comp_list_known [OF assms(1) c, of y TYPE_COMP] by (simp add: p comp_list_def)
  next
    case Nil
    then show ?thesis
      using next_in_comp_known [OF assms(1), of x] parents_next_known [OF assms(1), of "MAX_COMP_NESTING + 1" x]
      by (cases "next_in_comp s x") (simp_all add: p Nil del: parents_next.simps)
  qed
qed

lemma comp_get_next_type_known:
  assumes "typed s" and "comp_get_next_type s cp ty = Some p"
  shows "known_opt s p"
proof -
  let ?P = "\<lambda>d cp ty p. typed d \<longrightarrow> known_opt d p"
  have "?P s cp ty p"
  proof (rule comp_get_next_type.raw_induct [where P = ?P, OF _ assms(2)], rule impI, goal_cases)
    case (1 rec d cp ty p)
    note k = comp_list_known [OF 1(3)]
    show ?case
    proof (cases "ty = TYPE_COMP \<or> ty = TYPE_ANY \<or> cp = None")
      case False
      with 1(2) obtain x c where c: "cp = Some x" "comp_of d x = Some c"
        by (auto split: if_splits bind_splits)
      show ?thesis using 1 False c(1) k [OF c(2), of _ ty] c(2) by (cases "comp_list ty c") (auto split: bind_splits)
    qed (use 1(2) in \<open>auto split: if_splits\<close>)
  qed
  then show ?thesis using assms(1) by simp
qed

lemma sys_get_known:
  assumes "typed s"
  shows "sys_get_first_type s ty = Some p \<Longrightarrow> known_opt s p" and "sys_get_next_type s x ty = Some p \<Longrightarrow> known_opt s p"
proof -
  show "known_opt s p" if "sys_get_first_type s ty = Some p"
    using that comp_get_next_known [OF assms, of None] comp_get_next_type_known [OF assms]
    by (auto simp: sys_get_first_type_def comp_get_next_def split: if_splits)
  show "known_opt s p" if "sys_get_next_type s x ty = Some p"
    using that comp_get_next_known [OF assms] comp_get_next_type_known [OF assms] next_in_comp_known [OF assms, of x]
    unfolding sys_get_next_type_def
    by (cases "type_of s x = TYPE_COMP"; cases "next_in_comp s x") (auto split: bind_splits)
qed

lemma find_in_sys_known:
  assumes "typed s" and "known_opt s ob" and "find_in_sys s n ob = Some p"
  shows "known_opt s p"
proof -
  let ?P = "\<lambda>d n ob p. typed d \<longrightarrow> known_opt d ob \<longrightarrow> known_opt d p"
  have "?P s n ob p"
  proof (rule find_in_sys.raw_induct [where P = ?P, OF _ assms(3)], intro impI, goal_cases)
    case (1 rec d n ob p)
    then show ?case
      using sys_get_known(2) [OF 1(3)]
      by (auto simp: myrefl_obj_get_next_rel_def split: option.splits if_splits bind_splits)
  qed
  then show ?thesis using assms(1,2) by simp
qed

lemma by_name_known:
  assumes "typed s" and "myrefl_obj_get_by_name s n ty = Some p"
  shows "known_opt s p"
proof -
  have rel: "known_opt s p" if g: "get_by_name_rel s n rel = Some p" for n rel p
  proof -
    consider "p = None" | f where "sys_get_first_type s (rel_to_type rel) = Some f" "find_in_sys s n f = Some p"
      using g by (auto simp: get_by_name_rel_def myrefl_obj_get_first_rel_def split: if_splits bind_splits)
    then show ?thesis by cases (simp, use sys_get_known(1) [OF assms(1)] find_in_sys_known [OF assms(1)] in blast)
  qed
  have first: "known_opt s p" if "first_found (map (\<lambda>rel _. get_by_name_rel s n rel) rels) = Some p" for n rels p
    using that by (induction rels) (auto split: bind_splits option.splits dest: rel)
  have "known_opt s (system_comp s)" using comp_get_next_known [OF assms(1), of None] by (simp add: comp_get_next_def)
  then show ?thesis
    using assms(2) rel first unfolding myrefl_obj_get_by_name_def by (auto split: option.splits if_splits simp del: first_found.simps list.map)
qed

section \<open>What a lookup finds has the type that it is asked for\<close>

lemma comp_list_type: "chains_ok s \<Longrightarrow> comp_of s p = Some c \<Longrightarrow> x \<in> set (comp_list ty c) \<Longrightarrow> type_of s x = ty"
  using chain_typed(2) [of s x ty p] by (auto simp: chain_def)

lemma next_in_comp_type: "chains_ok s \<Longrightarrow> ref_ok (type_of s) (type_of s x) (next_in_comp s x)"
  by (cases "next_in_comp s x") (auto simp: next_in_comp_def split: bind_splits dest!: after_member intro: comp_list_type)

lemma parent_comp_type: "chains_ok s \<Longrightarrow> o_parent_comp (objs s x) = Some p \<Longrightarrow> type_of s p = TYPE_COMP"
  using chain_member [of s x p] chain_owner by blast

lemma parents_next_type: "chains_ok s \<Longrightarrow> ref_ok (type_of s) TYPE_COMP (parents_next n s x)"
proof (induction n arbitrary: x)
  case (Suc n)
  then show ?case
    using next_in_comp_type [OF Suc.prems] parent_comp_type [OF Suc.prems, of x]
    by (auto split: option.split) (metis ref_ok_Some)
qed simp

lemma comp_get_next_type:
  assumes "typed s" and "comp_get_next s cp = Some p"
  shows "ref_ok (type_of s) TYPE_COMP p"
proof (cases cp)
  case None
  then show ?thesis using assms by (simp add: comp_get_next_def typed_def)
next
  case (Some x)
  have ok: "chains_ok s" using assms(1) by (simp add: typed_def)
  obtain c where c: "comp_of s x = Some c" and p: "p = (case c_comps c of y # _ \<Rightarrow> Some y | [] \<Rightarrow>
      (case next_in_comp s x of Some z \<Rightarrow> Some z | None \<Rightarrow> parents_next (MAX_COMP_NESTING + 1) s x))"
    using assms(2) Some by (auto simp: comp_get_next_def split: bind_splits list.splits option.splits)
  have x: "type_of s x = TYPE_COMP" using c comp_of_type [of s x] by simp
  show ?thesis
  proof (cases "c_comps c")
    case (Cons y ys)
    then show ?thesis using comp_list_type [OF ok c, of y TYPE_COMP] by (simp add: p comp_list_def)
  next
    case Nil
    then show ?thesis
      using next_in_comp_type [OF ok, of x] parents_next_type [OF ok, of "MAX_COMP_NESTING + 1" x] x
      by (cases "next_in_comp s x") (simp_all add: p Nil del: parents_next.simps)
  qed
qed

lemma comp_get_next_type_type:
  assumes "chains_ok s" and "comp_get_next_type s cp ty = Some p"
  shows "ref_ok (type_of s) ty p"
proof -
  let ?P = "\<lambda>d cp ty p. chains_ok d \<longrightarrow> ref_ok (type_of d) ty p"
  have "?P s cp ty p"
  proof (rule comp_get_next_type.raw_induct [where P = ?P, OF _ assms(2)], rule impI, goal_cases)
    case (1 rec d cp ty p)
    show ?case
    proof (cases "ty = TYPE_COMP \<or> ty = TYPE_ANY \<or> cp = None")
      case False
      with 1(2) obtain x c where c: "cp = Some x" "comp_of d x = Some c"
        by (auto split: if_splits bind_splits)
      show ?thesis using 1 False c(1) comp_list_type [OF 1(3) c(2), of _ ty] c(2)
        by (cases "comp_list ty c") (auto split: bind_splits)
    qed (use 1(2) in \<open>auto split: if_splits\<close>)
  qed
  then show ?thesis using assms(1) by simp
qed

lemma sys_get_type:
  assumes "typed s"
  shows "sys_get_first_type s ty = Some p \<Longrightarrow> ref_ok (type_of s) ty p"
    and "sys_get_next_type s x (type_of s x) = Some p \<Longrightarrow> ref_ok (type_of s) (type_of s x) p"
proof -
  have ok: "chains_ok s" using assms by (simp add: typed_def)
  show "ref_ok (type_of s) ty p" if "sys_get_first_type s ty = Some p"
    using that assms comp_get_next_type_type [OF ok] by (auto simp: sys_get_first_type_def typed_def split: if_splits)
  show "ref_ok (type_of s) (type_of s x) p" if "sys_get_next_type s x (type_of s x) = Some p"
    using that comp_get_next_type [OF assms] comp_get_next_type_type [OF ok] next_in_comp_type [OF ok, of x]
    unfolding sys_get_next_type_def
    by (cases "type_of s x = TYPE_COMP"; cases "next_in_comp s x") (auto split: bind_splits)
qed

lemma find_in_sys_type:
  assumes "typed s" and "ref_ok (type_of s) ty ob" and "find_in_sys s n ob = Some p"
  shows "ref_ok (type_of s) ty p"
proof -
  let ?P = "\<lambda>d n ob p. typed d \<longrightarrow> ref_ok (type_of d) ty ob \<longrightarrow> ref_ok (type_of d) ty p"
  have "?P s n ob p"
  proof (rule find_in_sys.raw_induct [where P = ?P, OF _ assms(3)], intro impI, goal_cases)
    case (1 rec d n ob p)
    then show ?case
      using sys_get_type(2) [OF 1(3)]
      by (auto simp: myrefl_obj_get_next_rel_def split: option.splits if_splits bind_splits)
  qed
  then show ?thesis using assms(1,2) by simp
qed

lemma by_name_type:
  assumes "typed s" and "myrefl_obj_get_by_name s n ty = Some p" and "ty \<noteq> TYPE_ANY"
  shows "ref_ok (type_of s) ty p"
proof -
  have rel: "ref_ok (type_of s) ty p" if g: "get_by_name_rel s n (type_to_rel ty) = Some p" for n p
  proof -
    consider "p = None" | f where "sys_get_first_type s ty = Some f" "find_in_sys s n f = Some p"
      using g assms(3) by (auto simp: get_by_name_rel_def myrefl_obj_get_first_rel_def split: if_splits bind_splits)
    then show ?thesis by cases (simp, use sys_get_type(1) [OF assms(1)] find_in_sys_type [OF assms(1)] in blast)
  qed
  have "ref_ok (type_of s) TYPE_COMP (system_comp s)" using assms(1) by (simp add: typed_def)
  then show ?thesis
    using assms(2,3) rel unfolding myrefl_obj_get_by_name_def by (auto split: option.splits if_splits simp del: first_found.simps list.map)
qed

section \<open>Getting and creating objects\<close>

text \<open>The object that an entry gets has the type it asks for.\<close>

definition asked :: "obj_type \<Rightarrow> db \<Rightarrow> oid \<Rightarrow> bool" where
  "asked ty s x \<longleftrightarrow> known s x \<and> (ty = TYPE_ANY \<or> type_of s x = ty)"

lemma tstep_obj_get_or_create:
  assumes "myrefl_obj_get_or_create n ty s = Some (p, t)"
  shows "tstep s t" and "typed s \<Longrightarrow> p = Some ob \<Longrightarrow> asked ty t ob"
proof -
  obtain ok u where sys: "(if system_comp s = None \<and> n \<noteq> SYSTEM_COMP_NAME then create_system s else Some (True, s)) = Some (ok, u)"
    using assms by (auto simp: myrefl_obj_get_or_create_def split: bind_splits)
  have su: "tstep s u" using sys by (auto split: if_splits dest: tstep_create_system)
  have "tstep u t \<and> (typed s \<longrightarrow> p = Some ob \<longrightarrow> asked ty t ob)"
  proof (cases ok)
    case False
    then show ?thesis using assms sys by (auto simp: myrefl_obj_get_or_create_def)
  next
    case True
    obtain found where found: "(if system_comp u \<noteq> None then myrefl_obj_get_by_name u (Some n) TYPE_ANY else Some None) = Some found"
      using assms sys True by (auto simp: myrefl_obj_get_or_create_def split: bind_splits)
    show ?thesis
    proof (cases found)
      case None
      then have c: "create_object n ty u = Some (p, t)"
        using assms sys True found by (auto simp: myrefl_obj_get_or_create_def split: bind_splits if_splits)
      then show ?thesis
        using tstep_create [OF c] tstepD(1) [OF su] by (auto simp: asked_def real_type_def)
    next
      case (Some x)
      have k: "known u x" if "typed s"
        using by_name_known [OF tstepD(1) [OF su that], of "Some n" TYPE_ANY found] found Some by (auto split: if_splits)
      have "myrefl_obj_get_or_create n ty s =
          (if ty = TYPE_ANY \<or> ty = type_of u x then Some (live_object x u)
           else if ty \<noteq> TYPE_NONE \<and> type_of u x = TYPE_NONE then map_option (live_object x) (grow_object x ty u)
           else Some (None, u))"
        using sys True found Some by (simp add: myrefl_obj_get_or_create_def)
      from trans [OF sym [OF this] assms] show ?thesis
        using tstep_grow [of x ty u] tstepD(1) [OF su] k known_later [of u x t]
        by (auto simp: live_object_def asked_def real_type_def split: if_splits)
    qed
  qed
  then show "tstep s t" "typed s \<Longrightarrow> p = Some ob \<Longrightarrow> asked ty t ob" using tstep_trans [OF su] by auto
qed

lemma tstep_set_defaults: "tstep s (set_defaults x s)"
proof -
  have "tstep s (set_test x (\<lambda>t. t\<lparr>t_autopass := v\<rparr>) s)" for v by (rule tstep_set_test) (simp add: data_ok_def)
  moreover have "tstep s (set_rule x (\<lambda>r. r\<lparr>r_operator := RULE_ON_FAIL, r_default_operator := RULE_ON_FAIL, r_op_n := 0, r_op_m := 0,
               r_default_op_n := 0, r_default_op_m := 0, r_severity := SEVERITY_MEDIUM, r_next_in_input := None\<rparr>) s)"
    by (rule tstep_set_rule) (simp add: data_ok_def)
  ultimately show ?thesis
    by (auto simp: set_defaults_def intro: tstep_trans [OF _ tstep_upd_inst] split: obj_type.split)
qed

lemma tstep_api_get_or_create:
  assumes "myrefl_api_get_or_create n ty s = Some (p, t)"
  shows "tstep s t" and "typed s \<Longrightarrow> ty \<noteq> TYPE_NONE \<Longrightarrow> p = Some ob \<Longrightarrow> asked ty t ob"
proof -
  obtain q u where g: "myrefl_obj_get_or_create (myrefl_api_convert_name n) ty s = Some (q, u)"
    using assms by (auto simp: myrefl_api_get_or_create_def split: bind_splits)
  note su = tstep_obj_get_or_create(1) [OF g] and ask = tstep_obj_get_or_create(2) [OF g]
  have "tstep u t \<and> (p = None \<or> p = q)"
  proof (cases q)
    case None
    then show ?thesis using assms g by (auto simp: myrefl_api_get_or_create_def)
  next
    case (Some x)
    let ?v = "upd_inst (base x) initialized (upd_obj x (\<lambda>x. x\<lparr>o_description := None, o_remote_location := False\<rparr>) (set_defaults x u))"
    have "tstep u ?v" by (rule tstep_trans [OF tstep_trans [OF tstep_set_defaults tstep_obj_links(6)] tstep_upd_inst])
    then have "tstep u w" if "myrefl_obj_validate (Some x) ty ?v = Some (ok, w)" for ok w
      using tstep_trans [OF _ tstep_validate [OF that]] by blast
    then show ?thesis
      using assms g Some by (auto simp: myrefl_api_get_or_create_def split: bind_splits if_splits)
  qed
  then have ut: "tstep u t" and pq: "p = None \<or> p = q" by blast+
  show "tstep s t" by (rule tstep_trans [OF su ut])
  show "asked ty t ob" if "typed s" "ty \<noteq> TYPE_NONE" "p = Some ob"
    using ask [OF that(1), of ob] typed_later [OF tstepD(1) [OF su that(1)] ut] pq that
      known_later [OF _ tstepD(1) [OF su that(1)] ut] by (auto simp: asked_def)
qed

section \<open>Deletion\<close>

text \<open>Root cause identification looks at enabled instances only, and a rule that is being deleted is
  marked as deleted first: nothing is evaluated again.\<close>

lemma rule_deleted_idle: "i_state (inst s i) \<noteq> STATE_ENABLED \<Longrightarrow> rule_deleted i s = Some s"
  unfolding rule_deleted_def myrefl_rci_rule_deleted_def by (subst rci_map_function.simps) simp

lemma inst_upd_obj [simp]: "inst (upd_obj x f s) = inst s"
  by (simp add: upd_obj_def inst_def fun_eq_iff)

lemma tstep_set_next_rule:
  "typed s \<longrightarrow> ref_ok (type_of s) TYPE_RULE v \<Longrightarrow> tstep s (set_next_rule r v s)"
  unfolding set_next_rule_def by (rule tstep_set_rule) (simp add: data_ok_def)

lemma tstep_set_input_head:
  assumes "typed s \<longrightarrow> ref_ok (type_of s) TYPE_RULE v"
  shows "tstep s (set_input_head x v s)"
proof -
  have "tstep s (set_test x (\<lambda>t. t\<lparr>t_rule := v\<rparr>) s)" by (rule tstep_set_test) (use assms in \<open>simp add: data_ok_def\<close>)
  moreover have "tstep s (set_rule x (\<lambda>r. r\<lparr>r_output := v\<rparr>) s)" by (rule tstep_set_rule) (use assms in \<open>simp add: data_ok_def\<close>)
  moreover have "tstep s (upd_obj x (\<lambda>ob. ob\<lparr>o_ref_rule := v\<rparr>) s)" by (rule tstep_ref_rule) (use assms in simp)
  ultimately show ?thesis by (simp add: set_input_head_def split: obj_data.split)
qed

lemma tstep_inputs: "tstep s (set_rule r (\<lambda>x. x\<lparr>r_inputs := g (r_inputs x)\<rparr>) s)"
  by (rule tstep_set_rule) (simp add: data_ok_def)

lemma tstep_leave_inputs:
  assumes "leave_inputs ob rule s = Some t"
  shows "tstep s t"
proof -
  let ?P = "\<lambda>ob rule s t. tstep s t"
  show ?thesis
  proof (rule leave_inputs.raw_induct [where P = ?P, OF _ assms], goal_cases)
    case (1 rec ob rule s t)
    then show ?case
      using tstep_trans [OF tstep_inputs 1(1)] by (auto split: option.splits bind_splits)
  qed
qed

lemma tstep_unchain:
  assumes "unchain rule r s = Some t"
  shows "tstep s t"
proof -
  let ?P = "\<lambda>rule r s t. tstep s t"
  show ?thesis
  proof (rule unchain.raw_induct [where P = ?P, OF _ assms], goal_cases)
    case (1 rec rule r s t)
    have "tstep s (set_next_rule q (next_rule s rule) s)" for q
      by (rule tstep_set_next_rule) (simp add: typed_reads(7))
    then show ?case using 1 by (auto split: option.splits bind_splits if_splits)
  qed
qed

lemma tstep_next_to_head: "tstep s (set_input_head x (next_rule s rule) s)"
  by (rule tstep_set_input_head) (simp add: typed_reads(7))

lemma tstep_unlink_input:
  assumes "unlink_input rule x s = Some t"
  shows "tstep s t"
proof -
  have "tstep s (set_next_rule rule None (set_input_head x (next_rule s rule) s))"
    by (rule tstep_trans [OF tstep_next_to_head tstep_set_next_rule]) simp
  then show ?thesis
    using assms by (auto simp: unlink_input_def Let_def split: option.splits if_splits intro: tstep_trans [OF _ tstep_unchain] dest: tstep_unchain)
qed

lemma walk_outputs_same:
  assumes "walk_outputs r s = Some t"
  shows "t = s"
proof -
  let ?P = "\<lambda>r s t. t = s"
  show ?thesis
    by (rule walk_outputs.raw_induct [where P = ?P, OF _ assms]) (auto split: option.splits bind_splits)
qed

lemma tstep_unlink_depend: "tstep s (unlink_depend ob s)"
  unfolding unlink_depend_def Let_def
  by (rule tstep_trans [OF tstep_fold tstep_fold]; rule tstep_obj_links)

lemma tstep_unlink_action: "tstep s (unlink_action ob a s)"
  unfolding unlink_action_def
proof (rule tstep_fold)
  fix r t
  have "tstep t (set_action ob (\<lambda>a. a\<lparr>a_rule_list := tl (a_rule_list a)\<rparr>) t)"
    by (rule tstep_set_action) (auto simp: data_ok_def)
  then show "tstep t (set_rule r (\<lambda>x. x\<lparr>r_action_list := remove1 ob (r_action_list x)\<rparr>)
      (set_action ob (\<lambda>a. a\<lparr>a_rule_list := tl (a_rule_list a)\<rparr>) t))"
    by (rule tstep_trans) (rule tstep_set_rule, auto simp: data_ok_def)
qed

lemma tstep_unlink_rule:
  assumes "unlink_rule ob r s = Some t"
  shows "tstep s t"
proof -
  have pop: "tstep u (set_rule ob (\<lambda>r. r\<lparr>r_action_list := tl (r_action_list r)\<rparr>) u)" for u
    by (rule tstep_set_rule) (auto simp: data_ok_def)
  have rem: "tstep u (set_action a (\<lambda>x. x\<lparr>a_rule_list := remove1 ob (a_rule_list x)\<rparr>) u)" for a u
    by (rule tstep_set_action) (auto simp: data_ok_def)
  have out: "tstep u (set_rule ob (\<lambda>r. r\<lparr>r_output := None\<rparr>) u)" for u by (rule tstep_set_rule) (auto simp: data_ok_def)
  define pop_action where "pop_action = (\<lambda>a db. let db = set_rule ob (\<lambda>r. r\<lparr>r_action_list := tl (r_action_list r)\<rparr>) db
         in Option.bind (action_of db a) (\<lambda>_. Some (set_action a (\<lambda>x. x\<lparr>a_rule_list := remove1 ob (a_rule_list x)\<rparr>) db)))"
  obtain u where u: "foldM (unlink_input ob) (r_inputs r) s = Some u"
    using assms by (auto simp: unlink_rule_def split: bind_splits)
  obtain r' :: obj_rule where w: "foldM pop_action (r_action_list r')
      (set_rule ob (\<lambda>r. r\<lparr>r_output := None\<rparr>) (set_rule ob (\<lambda>r. r\<lparr>r_inputs := []\<rparr>) u)) = Some t"
    using assms u unfolding unlink_rule_def pop_action_def [symmetric] by (auto simp: Let_def split: bind_splits dest!: walk_outputs_same)
  have "tstep s u" using u by (rule tstep_foldM) (rule tstep_unlink_input)
  moreover have "tstep u (set_rule ob (\<lambda>r. r\<lparr>r_inputs := []\<rparr>) u)" by (rule tstep_inputs)
  moreover have "tstep (set_rule ob (\<lambda>r. r\<lparr>r_output := None\<rparr>) (set_rule ob (\<lambda>r. r\<lparr>r_inputs := []\<rparr>) u)) t"
    using w by (rule tstep_foldM) (auto simp: pop_action_def Let_def intro: tstep_trans [OF pop rem] split: bind_splits)
  ultimately show ?thesis using tstep_trans out by blast
qed

lemma tstep_leave_comp: "tstep s (leave_comp x s)"
proof -
  have "tstep s (set_comp p (\<lambda>c. c\<lparr>c_top_depend := remove1 x (c_top_depend c), c_bottom_depend := remove1 x (c_bottom_depend c)\<rparr>) s)" for p
    by (rule tstep_set_comp) (auto simp: data_ok_def)
  then show ?thesis by (auto simp: leave_comp_def split: option.split intro: tstep_trans [OF _ tstep_unlink])
qed

lemma tstep_note_depend:
  assumes "type_of s child = TYPE_RULE \<or> type_of s child = TYPE_COMP"
  shows "tstep s (note_depend parent child s)"
  unfolding note_depend_def Let_def
  by (rule tstep_set_comp) (use assms in \<open>auto simp: data_ok_def comp_list_def split: obj_type.split\<close>)

lemma tstep_comp_contains:
  assumes "myrefl_api_comp_contains parent child s = Some t" and "typed s \<longrightarrow> known s child"
  shows "tstep s t"
proof (cases "typed s")
  case True
  have "t = s \<or> (\<exists>l. myrefl_obj_comp_link_obj parent child (leave_comp child s) = Some l \<and>
      t = (if type_of l child = TYPE_RULE \<or> type_of l child = TYPE_COMP then note_depend parent child l else l))"
    using assms(1) by (auto simp: myrefl_api_comp_contains_def split: bind_splits if_splits)
  then show ?thesis
  proof (elim disjE exE conjE)
    fix l assume l: "myrefl_obj_comp_link_obj parent child (leave_comp child s) = Some l"
      and t: "t = (if type_of l child = TYPE_RULE \<or> type_of l child = TYPE_COMP then note_depend parent child l else l)"
    have "tstep s l"
      by (rule tstep_trans [OF tstep_leave_comp tstep_link [OF l]])
        (use known_later [OF _ True tstep_leave_comp] assms(2) True in blast)
    then show "tstep s t" using tstep_note_depend [of l child parent] by (auto simp: t intro: tstep_trans)
  qed simp
qed (simp add: tstep_def)

lemma comp_get_next_any_known:
  assumes "typed s" and "comp_of s p = Some c" and "comp_get_next_any s ob c = Some x"
  shows "known s x"
proof -
  define L where "L = (case type_of s ob of
              TYPE_COMP \<Rightarrow> c_nones c @ c_tests c @ c_rules c @ c_actions c
            | TYPE_NONE \<Rightarrow> c_tests c @ c_rules c @ c_actions c
            | TYPE_TEST \<Rightarrow> c_rules c @ c_actions c
            | TYPE_RULE \<Rightarrow> c_actions c
            | _ \<Rightarrow> [])"
  have "x \<in> set L" using assms(3) unfolding comp_get_next_any_def L_def [symmetric] by (cases L) auto
  then have "x \<in> set (c_nones c @ c_tests c @ c_rules c @ c_actions c)"
    unfolding L_def by (auto split: obj_type.splits)
  then obtain ty where "x \<in> set (comp_list ty c)"
    by (auto simp: comp_list_def split: obj_type.splits) (metis obj_type.simps)+
  then show ?thesis by (rule comp_list_known [OF assms(1,2)])
qed

lemma tstep_empty_comp:
  assumes "empty_comp ob s = Some t"
  shows "tstep s t"
proof -
  let ?P = "\<lambda>ob s t. tstep s t"
  show ?thesis
  proof (rule empty_comp.raw_induct [where P = ?P, OF _ assms], goal_cases)
    case (1 rec ob s t)
    then obtain c where c: "comp_of s ob = Some c" by (auto split: bind_splits)
    show ?case
    proof (cases "comp_get_next_any s ob c")
      case None
      then show ?thesis using 1(2) c by simp
    next
      case (Some x)
      with 1(2) c obtain r u where u: "myrefl_api_comp_contains r x s = Some u" "rec ob u = Some t"
        by (auto split: bind_splits)
      have "tstep s u" by (rule tstep_comp_contains [OF u(1)]) (use comp_get_next_any_known [OF _ c Some] in blast)
      then show ?thesis using 1(1) [OF u(2)] tstep_trans by blast
    qed
  qed
qed

lemma tstep_unlink_base:
  assumes "unlink_base del ob s = Some t" and del: "\<And>x u v. del x u = Some v \<Longrightarrow> tstep u v"
  shows "tstep s t"
proof -
  let ?u = "unlink_depend ob (myrefl_obj_unlink_from_comp ob s)"
  have su: "tstep s ?u" by (rule tstep_trans [OF tstep_unlink tstep_unlink_depend])
  have pop: "tstep v (set_comp ob (\<lambda>c. c\<lparr>c_interested := tl (c_interested c)\<rparr>) v)" for v
    by (rule tstep_set_comp) (auto simp: data_ok_def comp_list_def split: obj_type.split)
  have test: "tstep v (set_test ob (\<lambda>t. t\<lparr>t_rule := None\<rparr>) v)" for v by (rule tstep_set_test) (simp add: data_ok_def)
  have ref: "tstep v (upd_obj ob (\<lambda>x. x\<lparr>o_ref_rule := None\<rparr>) v)" for v by (rule tstep_ref_rule) simp
  have "tstep ?u t"
  proof (cases "o_data (objs ?u ob)")
    case DNone
    then show ?thesis using assms(1)
      by (auto simp: unlink_base_def Let_def unlink_none_def intro: tstep_trans [OF tstep_leave_inputs ref])
  next
    case (DTest x)
    then show ?thesis using assms(1)
      by (auto simp: unlink_base_def Let_def unlink_test_def
          intro: tstep_trans [OF tstep_trans [OF tstep_remove_test tstep_leave_inputs] test])
  next
    case (DRule x)
    then show ?thesis using assms(1) by (auto simp: unlink_base_def Let_def intro: tstep_unlink_rule)
  next
    case (DAction x)
    then show ?thesis using assms(1) by (auto simp: unlink_base_def Let_def intro: tstep_unlink_action)
  next
    case (DComp x)
    then have "unlink_comp del ob ?u = Some t" using assms(1) by (simp add: unlink_base_def Let_def)
    then obtain w and c :: obj_comp where w: "empty_comp ob ?u = Some w"
      and f: "foldM (\<lambda>t db. del t (set_comp ob (\<lambda>c. c\<lparr>c_interested := tl (c_interested c)\<rparr>) db)) (c_interested c) w = Some t"
      unfolding unlink_comp_def by (auto split: bind_splits)
    have "tstep w t" using f by (rule tstep_foldM) (use del tstep_trans [OF pop] in blast)
    then show ?thesis using tstep_trans [OF tstep_empty_comp [OF w]] by blast
  qed
  then show ?thesis by (rule tstep_trans [OF su])
qed

lemma instance_delete_run:
  "myrefl_obj_instance_delete i s =
     Some (if i = base (obj_of i) then s else push_freeme i (unlink_member i (upd_inst i (\<lambda>x. x\<lparr>i_state := STATE_DELETED\<rparr>) s)))"
  by (simp add: myrefl_obj_instance_delete_def rule_deleted_idle inst_upd_inst)

lemma tstep_instance_delete: "myrefl_obj_instance_delete i s = Some t \<Longrightarrow> tstep s t"
  by (auto simp: instance_delete_run unlink_member_def intro!: tstep_trans [OF tstep_trans [OF tstep_upd_inst tstep_obj_links(3)] tstep_push_freeme])

lemma instances_delete_state:
  "foldM (\<lambda>k. myrefl_obj_instance_delete (IRef ob k)) ks s = Some t \<Longrightarrow> i_state (inst t (base ob)) = i_state (inst s (base ob))"
  by (induction ks arbitrary: s)
    (auto simp: instance_delete_run unlink_member_def push_freeme_def inst_def upd_inst_def upd_obj_def base_def split: if_splits)

lemma tstep_delete:
  assumes "myrefl_obj_delete ob s = Some t"
  shows "tstep s t"
proof -
  let ?P = "\<lambda>ob s t. tstep s t"
  show ?thesis
  proof (rule myrefl_obj_delete.raw_induct [where P = ?P, OF _ assms], goal_cases)
    case (1 del ob s t)
    let ?s = "upd_inst (base ob) (\<lambda>x. x\<lparr>i_state := STATE_DELETED\<rparr>) s"
    obtain u v w where u: "foldM (\<lambda>k. myrefl_obj_instance_delete (IRef ob k)) (o_members (objs ?s ob)) ?s = Some u"
      and v: "rule_deleted (base ob) u = Some v" and w: "unlink_base del ob v = Some w" and t: "t = push_freeme (base ob) w"
      using 1(2) by (auto simp: Let_def split: bind_splits)
    have "i_state (inst u (base ob)) = STATE_DELETED" using instances_delete_state [OF u] by (simp add: inst_upd_inst)
    then have "v = u" using v by (simp add: rule_deleted_idle)
    moreover have "tstep ?s u" using u by (rule tstep_foldM) (rule tstep_instance_delete)
    moreover have "tstep v w" by (rule tstep_unlink_base [OF w 1(1)])
    ultimately show ?case using t tstep_trans [OF tstep_upd_inst] tstep_trans tstep_push_freeme by metis
  qed
qed

section \<open>The states of a chain, dependencies and health\<close>

lemma tstep_for_some: "for_some f p s = Some t \<Longrightarrow> (\<And>x u v. f x u = Some v \<Longrightarrow> tstep u v) \<Longrightarrow> tstep s t"
  by (cases p) (auto simp: for_some_def)

lemma tstep_chain_update:
  assumes "myrefl_obj_chain_update_state state ob s = Some t"
  shows "tstep s t"
proof -
  let ?P = "\<lambda>state ob s t. tstep s t"
  show ?thesis
  proof (rule myrefl_obj_chain_update_state.raw_induct [where P = ?P, OF _ assms], goal_cases)
    case (1 rec state ob s t)
    obtain ok u where u: "myrefl_obj_validate (Some ob) TYPE_ANY s = Some (ok, u)" using 1(2) by (auto split: bind_splits)
    have su: "tstep s u" by (rule tstep_validate [OF u])
    show ?case
    proof (cases "\<not> ok \<or> i_state (inst u (base ob)) = STATE_DELETED \<or> type_of u ob = TYPE_COMP \<or> type_of u ob = TYPE_NONE")
      case True
      then show ?thesis using 1(2) u su by auto
    next
      case False
      then obtain w where w: "chain_children (\<lambda>x. rec state x) ob u = Some w"
        and t: "t = fold (\<lambda>i. upd_inst i (chain_state state)) (all_instances w ob) w"
        using 1(2) u by (auto split: bind_splits)
      have rec: "tstep a b" if "rec state x a = Some b" for x a b by (rule 1(1) [OF that])
      from w obtain a b p q xs where a: "for_some (\<lambda>x. rec state x) p u = Some a"
        and b: "foldM (\<lambda>x. rec state x) xs a = Some b" and c: "for_some (\<lambda>x. rec state x) q b = Some w"
        unfolding chain_children_def by (auto split: bind_splits)
      have "tstep u a" using a by (rule tstep_for_some) (rule rec)
      moreover have "tstep a b" using b by (rule tstep_foldM) (rule rec)
      moreover have "tstep b w" using c by (rule tstep_for_some) (rule rec)
      ultimately have "tstep u w" using tstep_trans by blast
      moreover have "tstep w t" unfolding t by (rule tstep_fold) simp
      ultimately show ?thesis using su tstep_trans by blast
    qed
  qed
qed

lemma tstep_depend_connect:
  assumes "depend_connect parent child s = Some t"
  shows "tstep s t"
proof -
  have dom: "tstep u (u\<lparr>next_domain := n, domains := ds\<rparr>)" "tstep u (u\<lparr>domains := ds\<rparr>)" for u n ds
    by (rule tstep_same, simp_all)+
  have check: "tstep s u" if "domain_check parent child s = Some (ok, u)" for ok u
    using that dom
    by (auto simp: domain_check_def Let_def set_domain_def split: if_splits
        intro: tstep_obj_links(2) tstep_trans [OF dom(1) tstep_trans [OF tstep_obj_links(2) tstep_obj_links(2)]])
  have link: "tstep u v" if "depend_link parent child u = Some v" for u v
  proof -
    let ?w = "upd_obj child (\<lambda>x. x\<lparr>o_parent_depend := list_add parent (o_parent_depend x)\<rparr>)
        (upd_obj parent (\<lambda>x. x\<lparr>o_child_depend := list_add child (o_child_depend x)\<rparr>) u)"
    have w: "tstep u ?w" by (rule tstep_trans [OF tstep_obj_links(4) tstep_obj_links(5)])
    have rem: "tstep x (set_comp cp (\<lambda>c. c\<lparr>c_top_depend := remove1 child (c_top_depend c),
                         c_bottom_depend := remove1 parent (c_bottom_depend c)\<rparr>) x)" for cp x
      by (rule tstep_set_comp) (auto simp: data_ok_def)
    show ?thesis
    proof (cases "o_parent_comp (objs ?w parent) \<noteq> None \<and> o_parent_comp (objs ?w child) = o_parent_comp (objs ?w parent)")
      case False
      then have "v = ?w" using that unfolding depend_link_def Let_def by (auto split: option.splits if_splits)
      then show ?thesis using w by simp
    next
      case True
      then obtain cp where cp: "o_parent_comp (objs ?w parent) = Some cp" "o_parent_comp (objs ?w child) = Some cp" by auto
      with that obtain ok x where x: "myrefl_obj_validate (Some cp) TYPE_COMP ?w = Some (ok, x)"
        unfolding depend_link_def Let_def by (auto split: bind_splits)
      have "tstep ?w v" using that cp x rem [of x cp] tstep_validate [OF x] tstep_trans
        unfolding depend_link_def Let_def by (cases ok) auto
      then show ?thesis by (rule tstep_trans [OF w])
    qed
  qed
  show ?thesis
    using assms check link by (auto simp: depend_connect_def split: if_splits bind_splits intro: tstep_trans)
qed

end
