(* ===== verification/ApiCalls.thy ===== *)
theory ApiCalls
  imports TypedApi
begin

text \<open>
  The entries of the client API as one transition relation: a call is a value of \<open>api_call\<close>, and
  \<open>api_run\<close> carries it out. Every call is a step (\<open>tstep\<close>), so every session keeps the pointers of
  the database typed.
\<close>

section \<open>Health\<close>

lemma health_walk_steps:
  "health_of_rules xs (h, s) = Some (h', t) \<Longrightarrow> tstep s t"
  "health_of_comps xs (h, s) = Some (h', t) \<Longrightarrow> tstep s t"
  "confidence_of_comps xs (h, s) = Some (h', t) \<Longrightarrow> tstep s t"
proof -
  have P: "tstep s t" if "foldM f xs (h, s) = Some (h', t)"
    "\<And>x a u b v. f x (a, u) = Some (b, v) \<Longrightarrow> tstep u v" for f :: "oid \<Rightarrow> int \<times> db \<Rightarrow> (int \<times> db) option"
  proof -
    have "tstep s (snd (h', t))"
    proof (rule foldM_inv [OF that(1), where P = "\<lambda>p. tstep s (snd p)"])
      show "tstep s (snd q)" if "tstep s (snd p)" "f x p = Some q" for x p q
        using that \<open>\<And>x a u b v. f x (a, u) = Some (b, v) \<Longrightarrow> tstep u v\<close> [of x "fst p" "snd p" "fst q" "snd q"]
        by (auto intro: tstep_trans)
    qed simp
    then show ?thesis by simp
  qed
  show "health_of_rules xs (h, s) = Some (h', t) \<Longrightarrow> tstep s t" unfolding health_of_rules_def
    by (erule P) (auto split: bind_splits if_splits dest: tstep_validate)
  show "health_of_comps xs (h, s) = Some (h', t) \<Longrightarrow> tstep s t" unfolding health_of_comps_def
    by (erule P) (auto split: bind_splits if_splits dest: tstep_validate)
  show "confidence_of_comps xs (h, s) = Some (h', t) \<Longrightarrow> tstep s t" unfolding confidence_of_comps_def
    by (erule P) (auto split: bind_splits if_splits dest: tstep_validate)
qed

lemma tstep_seq_from [simp]:
  "tstep s (myrefl_seq_from_test_notify i r v s)" "tstep s (myrefl_seq_from_action_complete i r s)"
  by (auto intro: tstep_runtime simp: seq_from_runtime)

lemma tstep_notify_interested: "notify_interested h xs s = Some t \<Longrightarrow> tstep s t"
  unfolding notify_interested_def
  by (erule tstep_foldM) (auto split: bind_splits if_splits dest!: tstep_validate intro: tstep_trans [OF _ tstep_seq_from(1)])

lemma tstep_comp_health_guts:
  assumes "comp_health_guts cp d s = Some t"
  shows "tstep s t"
proof -
  obtain c :: obj_comp and h u h' v where c: "comp_of s cp = Some c" and u: "health_of_rules (c_rules c) (1000, s) = Some (h, u)"
    and v: "health_of_comps (c_comps c) (h, u) = Some (h', v)"
    using assms by (auto simp: comp_health_guts_def split: bind_splits)
  define w where "w = upd_health cp (\<lambda>x. x\<lparr>health := h'\<rparr>) v"
  define A where "A = (let conf = confidence (healths w cp) in
        if h' < conf then Some (if h' > 0 then h' else 0, w)
        else if h' > conf then confidence_of_comps (c_comps c) (conf + confidence_increment h' conf, w)
        else Some (conf, w))"
  define Y where "Y = (\<lambda>k x. upd_health cp (count_severity (- d)) (upd_health cp (\<lambda>x. x\<lparr>confidence := (if k > 1000 then 1000 else k)\<rparr>) x))"
  have eq: "Option.bind A (\<lambda>(k, x). if d \<noteq> 0 then Option.bind (notify_interested h' (c_interested c) (Y k x))
      (\<lambda>z. Some (emit (Notify_health (i_name (inst z (base cp))) h') z)) else Some (Y k x)) = Some t"
    using assms unfolding comp_health_guts_def by (simp only: c u v Option.bind.bind_lunit split_conv Let_def w_def A_def Y_def)
  then obtain k x where A: "A = Some (k, x)" by (cases A) auto
  have sv: "tstep s v" by (rule tstep_trans [OF health_walk_steps(1) [OF u] health_walk_steps(2) [OF v]])
  have vw: "tstep v w" by (simp add: w_def)
  have wx: "tstep w x" using A by (auto simp: A_def Let_def split: if_splits dest: health_walk_steps(3))
  have xy: "tstep x (Y k x)" unfolding Y_def by (rule tstep_trans [OF tstep_upd_health tstep_upd_health])
  have yt: "tstep (Y k x) t"
  proof (cases "d = 0")
    case False
    then obtain z where z: "notify_interested h' (c_interested c) (Y k x) = Some z"
      and "t = emit (Notify_health (i_name (inst z (base cp))) h') z" using eq A by (auto split: bind_splits)
    then show ?thesis using tstep_trans [OF tstep_notify_interested [OF z] tstep_emit] by blast
  qed (use eq A in simp)
  show ?thesis by (rule tstep_trans [OF tstep_trans [OF sv vw] tstep_trans [OF tstep_trans [OF wx xy] yt]])
qed

lemma tstep_comp_health:
  assumes "seq_comp_health cp d s = Some t"
  shows "tstep s t"
proof -
  let ?P = "\<lambda>cp d s t. tstep s t"
  show ?thesis
  proof (rule seq_comp_health.raw_induct [where P = ?P, OF _ assms], goal_cases)
    case (1 rec cp d s t)
    then show ?case
      by (auto split: bind_splits option.splits dest!: tstep_comp_health_guts intro: tstep_trans)
  qed
qed

lemma tstep_set_health: "myrefl_seq_comp_set_health cp h s = Some t \<Longrightarrow> tstep s t"
  by (auto simp: myrefl_seq_comp_set_health_def split: option.splits dest: tstep_comp_health)

section \<open>What the entries share\<close>

text \<open>An entry that only makes steps, given an object of the type it asks for.\<close>

definition keeps :: "(db \<Rightarrow> db option) \<Rightarrow> bool" where
  "keeps f \<longleftrightarrow> (\<forall>s t. f s = Some t \<longrightarrow> tstep s t)"

definition keeps_asked :: "obj_type \<Rightarrow> (oid \<Rightarrow> db \<Rightarrow> db option) \<Rightarrow> bool" where
  "keeps_asked ty f \<longleftrightarrow> (\<forall>ob s t. typed s \<longrightarrow> asked ty s ob \<longrightarrow> f ob s = Some t \<longrightarrow> tstep s t)"

lemma keepsI: "(\<And>s t. f s = Some t \<Longrightarrow> tstep s t) \<Longrightarrow> keeps f"
  by (simp add: keeps_def)

lemma keepsD: "keeps f \<Longrightarrow> f s = Some t \<Longrightarrow> tstep s t"
  by (simp add: keeps_def)

lemma keeps_askedI: "(\<And>ob s t. typed s \<Longrightarrow> asked ty s ob \<Longrightarrow> f ob s = Some t \<Longrightarrow> tstep s t) \<Longrightarrow> keeps_asked ty f"
  by (simp add: keeps_asked_def)

lemma keeps_asked_any: "(\<And>ob. keeps (f ob)) \<Longrightarrow> keeps_asked ty f"
  by (simp add: keeps_asked_def keeps_def)

lemma keeps_same [intro]: "keeps Some"
  by (simp add: keeps_def)

lemma keeps_if: "keeps f \<Longrightarrow> keeps g \<Longrightarrow> keeps (\<lambda>s. if P s then f s else g s)"
  by (auto simp: keeps_def)

lemma api_object_step:
  assumes "api_object n ty f s = Some t" and "typed s" and "ty \<noteq> TYPE_NONE"
    and f: "\<And>ob u. tstep s u \<Longrightarrow> typed u \<Longrightarrow> asked ty u ob \<Longrightarrow> f ob u = Some t \<Longrightarrow> tstep u t"
  shows "tstep s t"
proof (cases "badstr n")
  case False
  with assms(1) obtain p u where u: "myrefl_api_get_or_create (the n) ty s = Some (p, u)"
    and r: "(case p of None \<Rightarrow> Some u | Some ob \<Rightarrow> f ob u) = Some t"
    by (auto simp: api_object_def split: bind_splits)
  note g = tstep_api_get_or_create [OF u]
  have "tstep u t" using r f [OF g(1)] g(2) [OF assms(2,3)] tstepD(1) [OF g(1) assms(2)] by (auto split: option.splits)
  then show ?thesis by (rule tstep_trans [OF g(1)])
qed (use assms(1) in \<open>simp add: api_object_def\<close>)

lemma keeps_api_object: "keeps_asked ty f \<Longrightarrow> ty \<noteq> TYPE_NONE \<Longrightarrow> keeps (api_object n ty f)"
  unfolding keeps_def keeps_asked_def using api_object_step [of n ty f] by (metis tstep_def)

lemma keeps_api_lookup:
  assumes "keeps_asked ty f"
  shows "keeps (api_lookup n ty f)"
proof (rule keepsI)
  fix s t
  assume t: "api_lookup n ty f s = Some t"
  have "tstep s t" if ts: "typed s" and nb: "\<not> badstr n"
  proof -
    obtain p where p: "myrefl_obj_get_by_name_unconverted s (the n) ty = Some p"
      and f: "(case p of None \<Rightarrow> Some s | Some ob \<Rightarrow> f ob s) = Some t"
      using t nb by (cases "myrefl_obj_get_by_name_unconverted s (the n) ty") (auto simp: api_lookup_def)
    note q = p [unfolded myrefl_obj_get_by_name_unconverted_def]
    show ?thesis using by_name_known [OF ts q] by_name_type [OF ts q] f assms ts
      by (auto simp: keeps_asked_def asked_def split: option.splits)
  qed
  then show "tstep s t" using t by (cases "badstr n") (auto simp: api_lookup_def tstep_def)
qed

lemma tstep_next_oid: "tstep s (s\<lparr>next_oid := Suc (next_oid s)\<rparr>)"
proof -
  let ?t = "s\<lparr>next_oid := Suc (next_oid s)\<rparr>"
  have "type_of ?t = type_of s" "chain ?t = chain s" by (auto simp: fun_eq_iff type_of_def chain_def comp_of_def)
  then show ?thesis by (simp add: tstep_def typed_def types_le_def chains_ok_def fresh_ok_def)
qed

lemma tstep_instance_create: "tstep s (snd (myrefl_obj_instance_create ob n s))"
  unfolding myrefl_obj_instance_create_def Let_def snd_conv
  by (rule tstep_trans [OF tstep_trans [OF tstep_next_oid tstep_upd_inst] tstep_obj_links(3)])

section \<open>The parts of the entries\<close>

lemma tstep_connect_ref_rule: "tstep s (connect_ref_rule x s)"
  unfolding connect_ref_rule_def using typed_reads(5) [of s x] by (auto simp: data_ok_def intro!: tstep_set_test)

text \<open>Closing a chain of changes from the last one.\<close>

lemma steps_after:
  "tstep s t \<Longrightarrow> tstep s (upd_inst i f t)"
  "tstep s t \<Longrightarrow> tstep s (upd_health x g t)"
  "tstep s t \<Longrightarrow> tstep s (set_flags w x t)"
  "tstep s t \<Longrightarrow> tstep s (set_description d x t)"
  "tstep s t \<Longrightarrow> tstep s (set_context n x t)"
  "tstep s t \<Longrightarrow> tstep s (set_state st x t)"
  "tstep s t \<Longrightarrow> tstep s (not_queued x t)"
  "tstep s t \<Longrightarrow> tstep s (notify_flag i t)"
  "tstep s t \<Longrightarrow> tstep s (cli_override x t)"
  "tstep s t \<Longrightarrow> tstep s (myrefl_sched_remove_test i t)"
  "tstep s t \<Longrightarrow> tstep s (connect_ref_rule x t)"
  by (erule tstep_trans; simp add: set_flags_def set_description_def set_context_def set_state_def not_queued_def
      notify_flag_def cli_override_def tstep_obj_links tstep_connect_ref_rule)+

lemma steps_after_set_test:
  assumes "tstep s t" and "\<And>r. t_rule (f r) = t_rule r"
  shows "tstep s (set_test x f t)"
  by (rule tstep_trans [OF assms(1) tstep_set_test]) (use assms(2) in \<open>simp add: data_ok_def\<close>)

lemma steps_after_set_rule:
  assumes "tstep s t" and "\<And>r. r_output (f r) = r_output r \<and> r_action_list (f r) = r_action_list r \<and> r_next_in_input (f r) = r_next_in_input r"
  shows "tstep s (set_rule x f t)"
  by (rule tstep_trans [OF assms(1) tstep_set_rule]) (use assms(2) in \<open>simp add: data_ok_def\<close>)

lemma steps_after_set_action:
  assumes "tstep s t" and "\<And>r. a_rule_list (f r) = a_rule_list r"
  shows "tstep s (set_action x f t)"
  by (rule tstep_trans [OF assms(1) tstep_set_action]) (use assms(2) in \<open>simp add: data_ok_def\<close>)

lemmas steps_intros = tstep_refl steps_after steps_after_set_test steps_after_set_rule steps_after_set_action

lemma tstep_api_instance_create: "tstep s (snd (myrefl_api_instance_create ob n s))"
  unfolding myrefl_api_instance_create_def Let_def split_beta snd_conv by (rule tstep_trans [OF tstep_instance_create tstep_upd_inst])

lemma tstep_pick_instance: "pick_instance ob nm s = Some (i, t) \<Longrightarrow> tstep s t"
  using tstep_api_instance_create [of _ ob]
  by (auto simp: pick_instance_def split: option.splits bind_splits dest!: tstep_instance_by_name
      intro: tstep_trans) (metis snd_conv tstep_trans)+

lemma tstep_find_instance: "find_instance ob nm s = Some (p, t) \<Longrightarrow> tstep s t"
  by (auto simp: find_instance_def split: option.splits dest: tstep_instance_by_name)

lemma keeps_add_test: "keeps (myrefl_sched_add_test i force)"
  by (simp add: keeps_def tstep_add_test)

lemma keeps_delete: "keeps (myrefl_obj_delete ob)"
  by (simp add: keeps_def tstep_delete)

lemma keeps_foldM: "(\<And>x. keeps (f x)) \<Longrightarrow> keeps (foldM f xs)"
  by (auto simp: keeps_def intro: tstep_foldM)

lemma keeps_switch_state:
  assumes "\<And>i. keeps (one i)" and "\<And>i. keeps (init i)"
  shows "keeps (switch_state one init ob nm i)"
proof (rule keepsI)
  fix s t assume "switch_state one init ob nm i s = Some t"
  then show "tstep s t"
    using keepsD [OF keeps_foldM [where f = one, OF assms(1)]] keepsD [OF assms(2)]
    unfolding switch_state_def by (cases "in_service (i_state (inst s i))") (auto simp del: foldM.simps split: if_splits)
qed

lemma keeps_with_instance:
  assumes "\<And>i. keeps (f i)"
  shows "keeps (\<lambda>s. Option.bind (pick_instance ob nm s) (\<lambda>(i, s). f i s))"
    and "keeps (\<lambda>s. Option.bind (find_instance ob nm s) (\<lambda>(p, s). case p of None \<Rightarrow> Some s | Some i \<Rightarrow> f i s))"
  using assms
  by (auto simp: keeps_def split: bind_splits option.splits dest!: tstep_pick_instance tstep_find_instance intro: tstep_trans)

lemma keeps_instance_ops:
  "keeps (note_state cli st i)" "keeps (enable_instance cli i)" "keeps (disable_instance cli i)" "keeps (default_instance i)"
  by (simp_all add: keeps_def note_state_def enable_instance_def disable_instance_def default_instance_def)

lemma keeps_test_ops: "keeps (enable_test cli ob i)" "keeps (disable_test cli ob i)" "keeps (default_test a ob i)"
  by (auto simp: keeps_def enable_test_def disable_test_def default_test_def Let_def split: bind_splits if_splits
      intro: steps_intros tstep_trans [OF tstep_upd_inst tstep_add_test])

section \<open>Calls\<close>

text \<open>The entries that may change the database, with the arguments they are given. The entries with an
  argument of type \<open>bool\<close> serve the API and the command line.\<close>

datatype test_call =
    Test_create_polled "name option" "nat option" nat "32 word"
  | Test_create_notification "name option"
  | Test_create_comp_health "name option" "name option"
  | Test_notify "name option" "name option" result int
  | Test_set_autopass "name option" "32 word"
  | Test_set_flags "name option" "32 word"
  | Test_set_description "name option" "string option"
  | Test_delete "name option"
  | Test_chain_ready "name option"
  | Test_enable "name option" "name option" bool
  | Test_disable "name option" "name option" bool
  | Test_default "name option" "name option"

fun test_run :: "test_call \<Rightarrow> db \<Rightarrow> db option" where
  "test_run (Test_create_polled n f c p) = myrefl_test_create_polled n f c p"
| "test_run (Test_create_notification n) = myrefl_test_create_notification n"
| "test_run (Test_create_comp_health n c) = myrefl_test_create_comp_health n c"
| "test_run (Test_notify n i r v) = myrefl_test_notify n i r v"
| "test_run (Test_set_autopass n w) = myrefl_test_set_autopass n w"
| "test_run (Test_set_flags n w) = myrefl_test_set_flags n w"
| "test_run (Test_set_description n d) = myrefl_test_set_description n d"
| "test_run (Test_delete n) = myrefl_test_delete n"
| "test_run (Test_chain_ready n) = myrefl_test_chain_ready n"
| "test_run (Test_enable n i cli) = myrefl_api_test_enable_guts n i cli"
| "test_run (Test_disable n i cli) = myrefl_api_test_disable_guts n i cli"
| "test_run (Test_default n i) = myrefl_api_test_default n i"

datatype action_call =
    Action_create "name option" "nat option" nat
  | Action_complete "name option" "name option" result
  | Action_create_user_alert "name option" "string option" nat
  | Action_delete "name option"
  | Action_enable "name option" "name option" bool
  | Action_disable "name option" "name option" bool
  | Action_default "name option" "name option"
  | Action_set_flags "name option" "32 word"
  | Action_set_description "name option" "string option"

fun action_run :: "action_call \<Rightarrow> db \<Rightarrow> db option" where
  "action_run (Action_create n f c) = myrefl_action_create n f c"
| "action_run (Action_complete n i r) = myrefl_action_complete n i r"
| "action_run (Action_create_user_alert n d c) = myrefl_action_create_user_alert n d c"
| "action_run (Action_delete n) = myrefl_action_delete n"
| "action_run (Action_enable n i cli) = myrefl_api_action_enable_guts n i cli"
| "action_run (Action_disable n i cli) = myrefl_api_action_disable_guts n i cli"
| "action_run (Action_default n i) = myrefl_api_action_default n i"
| "action_run (Action_set_flags n w) = myrefl_action_set_flags n w"
| "action_run (Action_set_description n d) = myrefl_action_set_description n d"

datatype rule_call =
    Rule_create "name option" "name option" "name option"
  | Rule_add_input "name option" "name option"
  | Rule_set_type "name option" operator int int
  | Rule_add_action "name option" "name option"
  | Rule_set_flags "name option" "32 word"
  | Rule_delete "name option"
  | Rule_set_description "name option" "string option"
  | Rule_set_severity "name option" int
  | Rule_enable "name option" "name option" bool
  | Rule_disable "name option" "name option" bool
  | Rule_default "name option" "name option"
  | Depend_create "name option" "name option"

fun rule_run :: "rule_call \<Rightarrow> db \<Rightarrow> db option" where
  "rule_run (Rule_create n i a) = myrefl_rule_create n i a"
| "rule_run (Rule_add_input n i) = myrefl_rule_add_input n i"
| "rule_run (Rule_set_type n opr a b) = myrefl_rule_set_type n opr a b"
| "rule_run (Rule_add_action n a) = myrefl_rule_add_action n a"
| "rule_run (Rule_set_flags n w) = myrefl_rule_set_flags n w"
| "rule_run (Rule_delete n) = myrefl_rule_delete n"
| "rule_run (Rule_set_description n d) = myrefl_rule_set_description n d"
| "rule_run (Rule_set_severity n v) = myrefl_rule_set_severity n v"
| "rule_run (Rule_enable n i cli) = myrefl_api_rule_enable_guts n i cli"
| "rule_run (Rule_disable n i cli) = myrefl_api_rule_disable_guts n i cli"
| "rule_run (Rule_default n i) = myrefl_api_rule_default n i"
| "rule_run (Depend_create p c) = myrefl_depend_create p c"

datatype comp_call =
    Comp_create "name option"
  | Comp_contains "name option" "name option"
  | Comp_contains_many "name option" "name option" "name option list"
  | Comp_delete "name option"
  | Comp_set_context "name option" nat
  | Comp_set_description "name option" "string option"
  | Comp_enable "name option" bool
  | Comp_disable "name option" bool
  | Comp_default "name option"
  | Health_set "name option" "32 word"

fun comp_run :: "comp_call \<Rightarrow> db \<Rightarrow> db option" where
  "comp_run (Comp_create n) = myrefl_comp_create n"
| "comp_run (Comp_contains p c) = myrefl_comp_contains p c"
| "comp_run (Comp_contains_many p c cs) = myrefl_comp_contains_many p c cs"
| "comp_run (Comp_delete n) = myrefl_comp_delete n"
| "comp_run (Comp_set_context n c) = myrefl_api_comp_set_context n c"
| "comp_run (Comp_set_description n d) = myrefl_comp_set_description n d"
| "comp_run (Comp_enable n cli) = myrefl_api_comp_enable_guts n cli"
| "comp_run (Comp_disable n cli) = myrefl_api_comp_disable_guts n cli"
| "comp_run (Comp_default n) = myrefl_api_comp_default n"
| "comp_run (Health_set n h) = myrefl_health_set n h"

datatype api_call = For_test test_call | For_action action_call | For_rule rule_call | For_comp comp_call
  | Instance_create "name option" "name option" nat
  | Instance_delete "name option" "name option"
  | Notify_test "name option" "name option" bool
  | Notify_rule "name option" "name option" bool
  | Notify_action "name option" "name option" bool
  | Api_init

fun api_run :: "api_call \<Rightarrow> db \<Rightarrow> db option" where
  "api_run (For_test c) db = test_run c db"
| "api_run (For_action c) db = action_run c db"
| "api_run (For_rule c) db = rule_run c db"
| "api_run (For_comp c) db = comp_run c db"
| "api_run (Instance_create n i c) db = myrefl_instance_create n i c db"
| "api_run (Instance_delete n i) db = myrefl_instance_delete n i db"
| "api_run (Notify_test n i b) db = map_option snd (myrefl_notify_test_result n i b db)"
| "api_run (Notify_rule n i b) db = map_option snd (myrefl_notify_rule_result n i b db)"
| "api_run (Notify_action n i b) db = map_option snd (myrefl_notify_action_result n i b db)"
| "api_run Api_init db = myrefl_api_init db"

section \<open>Tests and actions\<close>

lemmas keeps_guard = keeps_if [OF keeps_same]

lemma keeps_upd: "(\<And>ob s. tstep s (f ob s)) \<Longrightarrow> keeps_asked ty (\<lambda>ob s. Some (f ob s))"
  by (auto simp: keeps_asked_def)

lemma keeps_test_create:
  "keeps (myrefl_test_create_polled n f c p)" "keeps (myrefl_test_create_notification n)"
proof -
  show "keeps (myrefl_test_create_polled n f c p)"
    unfolding myrefl_test_create_polled_def Let_def
    by (intro keeps_guard keeps_api_object keeps_upd steps_intros) (simp_all add: polled_test_def)
  show "keeps (myrefl_test_create_notification n)"
    unfolding myrefl_test_create_notification_def Let_def
    by (intro keeps_api_object keeps_upd steps_intros) simp_all
qed

lemma keeps_test_set:
  "keeps (myrefl_test_set_autopass n w)" "keeps (myrefl_test_set_flags n w)" "keeps (myrefl_test_set_description n d)"
  unfolding myrefl_test_set_autopass_def myrefl_test_set_flags_def myrefl_test_set_description_def
  by (intro keeps_api_object keeps_upd steps_intros; simp)+

lemma keeps_test_create_comp_health: "keeps (myrefl_test_create_comp_health n c)"
proof -
  let ?f = "\<lambda>test_obj comp_obj db. let db = set_test test_obj (polled_test fn_poll_for_comp_health MYREFL_PERIOD_NORMAL) db;
            db = not_queued test_obj db;
            db = set_state STATE_CREATED test_obj db;
            db = set_context (Suc comp_obj) test_obj db;
            db = connect_ref_rule test_obj db
        in Option.bind (comp_of db comp_obj) (\<lambda>_.
          Some (set_comp comp_obj (\<lambda>c. c\<lparr>c_interested := list_add test_obj (c_interested c)\<rparr>) db))"
  have step: "tstep s t" if ty: "typed s" and x: "type_of s x = TYPE_TEST" and f: "?f x y s = Some t" for x y s t
  proof -
    let ?u = "connect_ref_rule x (set_context (Suc y) x (set_state STATE_CREATED x (not_queued x
      (set_test x (polled_test fn_poll_for_comp_health MYREFL_PERIOD_NORMAL) s))))"
    have u: "tstep s ?u" by (intro steps_intros) (simp add: polled_test_def)
    have "type_of ?u x = TYPE_TEST" by (rule typed_later [OF ty u x]) simp
    then have "tstep ?u t" using f by (auto simp: Let_def data_ok_def comp_list_def split: bind_splits obj_type.split intro!: tstep_set_comp)
    then show ?thesis by (rule tstep_trans [OF u])
  qed
  have inner: "tstep s t" if ty: "typed s" and x: "asked TYPE_TEST s x" and f: "api_object c TYPE_COMP (?f x) s = Some t" for x s t
  proof (rule api_object_step [OF f ty])
    fix y u assume u: "tstep s u" "typed u" "?f x y u = Some t"
    have "type_of u x = TYPE_TEST" using typed_later [OF ty u(1)] x by (simp add: asked_def)
    then show "tstep u t" by (rule step [OF u(2) _ u(3)])
  qed simp
  show ?thesis
    unfolding myrefl_test_create_comp_health_def
    by (intro keeps_guard keeps_api_object keeps_askedI) (rule inner, assumption+, simp)
qed

lemma keeps_found:
  assumes "\<And>i s. tstep s (f i s)"
  shows "keeps (\<lambda>s. Option.bind (find_instance ob nm s) (\<lambda>(p, s). Some (case p of None \<Rightarrow> s | Some i \<Rightarrow> f i s)))"
    and "keeps (\<lambda>s. Option.bind (myrefl_obj_instance_by_name p nm s) (\<lambda>(p, s). Some (case p of None \<Rightarrow> s | Some i \<Rightarrow> f i s)))"
  using assms
  by (auto simp: keeps_def split: bind_splits option.splits dest!: tstep_find_instance tstep_instance_by_name intro: tstep_trans)

lemma keeps_test_notify: "keeps (myrefl_test_notify n nm r v)"
  unfolding myrefl_test_notify_def
  by (intro keeps_guard keeps_api_lookup keeps_asked_any keeps_found) simp

lemma keeps_test_delete: "keeps (myrefl_test_delete n)"
proof -
  have "tstep s t" if "(case test_of s x of None \<Rightarrow> Some s | Some r \<Rightarrow>
      let s = (if t_type r = POLLED then fold myrefl_sched_remove_test (all_instances s x) s else s)
      in myrefl_obj_delete x s) = Some t" for x s t
  proof -
    have "tstep s (fold myrefl_sched_remove_test xs s)" for xs by (rule tstep_fold) simp
    then show ?thesis using that
      by (auto simp: Let_def split: option.splits if_splits dest!: tstep_delete intro: tstep_trans)
  qed
  then show ?thesis
    unfolding myrefl_test_delete_def by (intro keeps_api_lookup keeps_askedI)
qed

lemma keeps_test_chain_ready: "keeps (myrefl_test_chain_ready n)"
proof -
  have "tstep s t" if f: "(do {
         s \<leftarrow> myrefl_obj_chain_update_state w x s;
         let s = upd_inst i g s;
         p \<leftarrow> polled s x;
         if P s \<and> p then foldM (\<lambda>i. myrefl_sched_add_test i False) (all_instances s x) s else Some s }) = Some t" for w x s i g P t
  proof -
    obtain u where u: "myrefl_obj_chain_update_state w x s = Some u" and
      t: "t = upd_inst i g u \<or> (\<exists>xs. foldM (\<lambda>i. myrefl_sched_add_test i False) xs (upd_inst i g u) = Some t)"
      using f by (auto simp: Let_def split: bind_splits if_splits)
    have "tstep (upd_inst i g u) t" using t keepsD [OF keeps_foldM [OF keeps_add_test]] by auto
    then show ?thesis using tstep_trans [OF tstep_chain_update [OF u] tstep_upd_inst] tstep_trans by blast
  qed
  then show ?thesis
    unfolding myrefl_test_chain_ready_def
    by (intro keeps_api_lookup keeps_asked_any keeps_guard keepsI)
qed

lemma keeps_states:
  "keeps (myrefl_api_test_enable_guts n nm cli)" "keeps (myrefl_api_test_disable_guts n nm cli)"
  "keeps (myrefl_api_action_enable_guts n nm cli)" "keeps (myrefl_api_action_disable_guts n nm cli)"
  "keeps (myrefl_api_rule_enable_guts n nm cli)" "keeps (myrefl_api_rule_disable_guts n nm cli)"
  unfolding myrefl_api_test_enable_guts_def myrefl_api_test_disable_guts_def myrefl_api_action_enable_guts_def
    myrefl_api_action_disable_guts_def myrefl_api_rule_enable_guts_def myrefl_api_rule_disable_guts_def
  by (intro keeps_guard keeps_api_object keeps_asked_any keeps_with_instance keeps_switch_state keeps_test_ops keeps_instance_ops; simp)+

lemma keeps_bind_read: "(\<And>x. keeps (f x)) \<Longrightarrow> keeps (\<lambda>s. Option.bind (g s) (\<lambda>x. f x s))"
  by (auto simp: keeps_def split: bind_splits)

lemma keeps_before:
  assumes "\<And>s. tstep s (g s)" and "keeps f"
  shows "keeps (\<lambda>s. f (g s))"
  using assms unfolding keeps_def by (blast intro: tstep_trans)

text \<open>The beginning of the three entries that set an object to its defaults.\<close>

lemma keeps_default:
  assumes "\<And>ob s. tstep s (g ob s)" and "\<And>ob i. keeps (one ob i)" and "\<And>ob i. keeps (init ob i)"
  shows "keeps (\<lambda>db. if empty_name nm then Some db
      else api_lookup n ty (\<lambda>ob db. do {
        (p, db) \<leftarrow> find_instance ob nm db;
        (case p of
           None \<Rightarrow> Some db
         | Some i \<Rightarrow>
             let db = (if in_service (i_state (inst db i)) \<and> nm = None then g ob db else db)
             in switch_state (one ob) (init ob) ob nm i db) }) db)"
proof -
  have step: "tstep s (if in_service (i_state (inst s i)) \<and> nm = None then g ob s else s)" for s i ob using assms(1) by simp
  have "keeps (\<lambda>s. switch_state (one ob) (init ob) ob nm i (if in_service (i_state (inst s i)) \<and> nm = None then g ob s else s))"
    for ob i by (rule keeps_before [OF step keeps_switch_state]) (rule assms(2,3))+
  then show ?thesis unfolding Let_def
    by (intro keeps_guard keeps_api_lookup keeps_asked_any keeps_with_instance)
qed

lemma keeps_init_default:
  "keeps (\<lambda>db. Option.bind (g db) (\<lambda>t. if P t then myrefl_obj_delete ob db else Some (upd_inst i f db)))"
  by (intro keeps_bind_read keeps_if keeps_delete keepsI) auto

lemma keeps_test_default: "keeps (myrefl_api_test_default n nm)"
  unfolding myrefl_api_test_default_def
  by (rule keeps_default) (auto intro: keeps_test_ops keeps_init_default steps_intros)

lemma keeps_action_create: "keeps (myrefl_action_create n f c)"
  unfolding myrefl_action_create_def Let_def by (intro keeps_guard keeps_api_object keeps_upd steps_intros) simp_all

lemma keeps_actions:
  "keeps (myrefl_action_complete n nm r)" "keeps (myrefl_action_create_user_alert n d c)" "keeps (myrefl_action_delete n)"
  "keeps (myrefl_action_set_flags n w)" "keeps (myrefl_action_set_description n d)"
  unfolding myrefl_action_complete_def myrefl_action_create_user_alert_def myrefl_action_delete_def
    myrefl_action_set_flags_def myrefl_action_set_description_def
  by (intro keeps_guard keeps_api_lookup keeps_api_object keeps_asked_any keeps_found keeps_action_create keeps_delete
      keeps_upd steps_intros; simp)+

lemma keeps_action_default: "keeps (myrefl_api_action_default n nm)"
  unfolding myrefl_api_action_default_def
  by (intro keeps_guard keeps_api_lookup keeps_asked_any keeps_with_instance keeps_switch_state keeps_instance_ops keeps_delete)

lemma action_run_keeps: "keeps (action_run c)"
  by (cases c) (simp_all add: keeps_action_create keeps_actions keeps_action_default keeps_states)

lemma test_run_keeps: "keeps (test_run c)"
  by (cases c) (simp_all add: keeps_test_create keeps_test_create_comp_health keeps_test_notify keeps_test_set keeps_test_delete
      keeps_test_chain_ready keeps_test_default keeps_states)

section \<open>Rules and dependencies\<close>

lemma keeps_rule_set:
  "keeps (myrefl_rule_set_type n opr a b)" "keeps (myrefl_rule_set_flags n w)" "keeps (myrefl_rule_delete n)"
  "keeps (myrefl_rule_set_description n d)" "keeps (myrefl_rule_set_severity n v)"
  unfolding myrefl_rule_set_type_def myrefl_rule_set_flags_def myrefl_rule_delete_def
    myrefl_rule_set_description_def myrefl_rule_set_severity_def
  by (intro keeps_guard keeps_api_object keeps_upd steps_intros; simp add: keeps_asked_any keeps_if keeps_guard keeps_delete)+

lemma keeps_rule_default: "keeps (myrefl_api_rule_default n nm)"
  unfolding myrefl_api_rule_default_def
  by (rule keeps_default) (auto intro!: keeps_instance_ops keeps_init_default steps_intros simp: default_operator_def)

lemma tstep_link_action:
  assumes "typed s" and "type_of s rule = TYPE_RULE" and "type_of s act = TYPE_ACTION"
  shows "tstep s (link_action rule act s)"
proof -
  let ?u = "set_rule rule (\<lambda>r. r\<lparr>r_action_list := list_add act (r_action_list r)\<rparr>) s"
  have u: "tstep s ?u" by (rule tstep_set_rule) (use assms(3) in \<open>simp add: data_ok_def\<close>)
  have "type_of ?u rule = TYPE_RULE" by (rule typed_later [OF assms(1) u assms(2)]) simp
  then have "tstep ?u (link_action rule act s)"
    unfolding link_action_def by (intro tstep_set_action) (simp add: data_ok_def)
  then show ?thesis by (rule tstep_trans [OF u])
qed

lemma tstep_link_input:
  assumes "typed s" and "type_of s rule = TYPE_RULE"
  shows "tstep s (link_input rule x s)"
proof -
  let ?u = "set_rule rule (\<lambda>r. r\<lparr>r_inputs := list_add x (r_inputs r)\<rparr>) s"
  have u: "tstep s ?u" by (rule tstep_inputs)
  show ?thesis
  proof (cases "input_head ?u x")
    case (Some h)
    let ?v = "set_next_rule rule h ?u"
    have v: "tstep ?u ?v" by (rule tstep_set_next_rule) (use typed_reads(6) [OF _ Some] in blast)
    have "type_of ?v rule = TYPE_RULE" by (rule typed_later [OF assms(1) tstep_trans [OF u v] assms(2)]) simp
    then have "tstep ?v (set_input_head x (Some rule) ?v)" by (intro tstep_set_input_head) simp
    from tstep_trans [OF tstep_trans [OF u v] this] show ?thesis by (simp add: link_input_def Some)
  qed (use u in \<open>simp add: link_input_def\<close>)
qed

lemma tstep_leave_chain: "leave_chain rule x s = Some t \<Longrightarrow> tstep s t"
  by (auto simp: leave_chain_def tstep_next_to_head split: option.splits if_splits dest: tstep_unchain)

lemma tstep_leave_old_inputs:
  assumes "leave_old_inputs rule s = Some t"
  shows "tstep s t"
proof -
  obtain r :: obj_rule and u where u: "foldM (leave_chain rule) (r_inputs r) s = Some u"
    and t: "t = set_rule rule (\<lambda>x. x\<lparr>r_inputs := [], r_next_in_input := (if r_inputs r = [] then r_next_in_input x else None)\<rparr>) u"
    using assms by (auto simp: leave_old_inputs_def split: bind_splits)
  have "tstep s u" using u by (rule tstep_foldM) (rule tstep_leave_chain)
  moreover have "tstep u t" unfolding t by (rule tstep_set_rule) (simp add: data_ok_def)
  ultimately show ?thesis by (rule tstep_trans)
qed

lemma asked_later: "asked ty s x \<Longrightarrow> ty \<noteq> TYPE_NONE \<Longrightarrow> typed s \<Longrightarrow> tstep s t \<Longrightarrow> asked ty t x"
  by (auto simp: asked_def intro: known_later typed_later)

lemma asked_type: "asked ty s x \<Longrightarrow> ty \<noteq> TYPE_ANY \<Longrightarrow> type_of s x = ty"
  by (simp add: asked_def)

lemma tstep_rule_connect:
  assumes "rule_connect rule x act_name s = Some t" and ty: "typed s" and r: "type_of s rule = TYPE_RULE"
  shows "tstep s t"
proof -
  obtain u p v where u: "leave_old_inputs rule s = Some u"
    and v: "myrefl_api_get_or_create (the act_name) TYPE_ACTION u = Some (p, v)"
    using assms(1) by (auto simp: rule_connect_def split: bind_splits)
  have sv: "tstep s v" by (rule tstep_trans [OF tstep_leave_old_inputs [OF u] tstep_api_get_or_create(1) [OF v]])
  have tu: "typed u" and tv: "typed v" and rv: "type_of v rule = TYPE_RULE"
    using tstepD(1) [OF tstep_leave_old_inputs [OF u] ty] tstepD(1) [OF sv ty] typed_later [OF ty sv r] by simp_all
  have "tstep v t"
  proof (cases p)
    case None
    then show ?thesis using assms(1) u v by (simp add: rule_connect_def tstep_delete)
  next
    case (Some act)
    have a: "type_of v act = TYPE_ACTION"
      using tstep_api_get_or_create(2) [OF v tu _ Some] by (simp add: asked_def)
    define w where "w = link_input rule x (link_action rule act v)"
    have la: "tstep v (link_action rule act v)" by (rule tstep_link_action [OF tv rv a])
    have vw: "tstep v w" unfolding w_def
      by (rule tstep_trans [OF la tstep_link_input]) (use tstepD(1) [OF la tv] typed_later [OF tv la rv] in simp_all)
    have "tstep w (set_rule rule (\<lambda>r. r\<lparr>r_output := o_ref_rule (objs w rule)\<rparr>) w)"
      by (rule tstep_set_rule) (simp add: data_ok_def typed_reads(5))
    then have "tstep w t"
      using assms(1) u v Some by (auto simp: rule_connect_def Let_def w_def [symmetric] intro: steps_intros)
    then show ?thesis by (rule tstep_trans [OF vw])
  qed
  then show ?thesis by (rule tstep_trans [OF sv])
qed

lemma keeps_rule_create: "keeps (myrefl_rule_create n i a)"
  unfolding myrefl_rule_create_def
proof (intro keeps_guard keeps_api_object keeps_askedI)
  fix rule s t
  assume ty: "typed s" and r: "asked TYPE_RULE s rule"
    and f: "do {
        (p, db) \<leftarrow> myrefl_api_get_or_create (the i) TYPE_ANY s;
        (case p of
           None \<Rightarrow> myrefl_obj_delete rule db
         | Some input \<Rightarrow>
             if \<not> input_type_ok db input then myrefl_obj_delete rule db
             else if rule_input_search db rule input then Some db
             else if rule_input_search db input rule then myrefl_obj_delete rule db
             else rule_connect rule input a db) } = Some t"
  obtain p u where u: "myrefl_api_get_or_create (the i) TYPE_ANY s = Some (p, u)"
    and g: "(case p of None \<Rightarrow> myrefl_obj_delete rule u
         | Some input \<Rightarrow>
             if \<not> input_type_ok u input then myrefl_obj_delete rule u
             else if rule_input_search u rule input then Some u
             else if rule_input_search u input rule then myrefl_obj_delete rule u
             else rule_connect rule input a u) = Some t"
    using f by (auto split: bind_splits)
  note su = tstep_api_get_or_create(1) [OF u]
  have "tstep u t" using g tstep_delete tstep_rule_connect tstepD(1) [OF su ty] typed_later [OF ty su asked_type [OF r]]
    by (auto split: option.splits if_splits)
  then show "tstep s t" by (rule tstep_trans [OF su])
qed simp

lemma keeps_rule_add_input: "keeps (myrefl_rule_add_input n i)"
  unfolding myrefl_rule_add_input_def
proof (intro keeps_guard keeps_api_lookup keeps_askedI)
  fix rule s t
  assume ty: "typed s" and r: "asked TYPE_RULE s rule"
    and f: "api_object i TYPE_ANY (\<lambda>input db.
        if \<not> input_type_ok db input then Some db
        else if rule_input_search db rule input then Some db
        else if rule_input_search db input rule then Some db
        else Some (link_input rule input db)) s = Some t"
  show "tstep s t"
  proof (rule api_object_step [OF f ty])
    fix x u assume u: "tstep s u" "typed u" and g: "(if \<not> input_type_ok u x then Some u
        else if rule_input_search u rule x then Some u
        else if rule_input_search u x rule then Some u
        else Some (link_input rule x u)) = Some t"
    show "tstep u t" using g tstep_link_input [OF u(2)] typed_later [OF ty u(1) asked_type [OF r]]
      by (auto split: if_splits)
  qed simp
qed

lemma keeps_rule_add_action: "keeps (myrefl_rule_add_action n a)"
  unfolding myrefl_rule_add_action_def
proof (intro keeps_guard keeps_api_object keeps_askedI)
  fix rule s t
  assume ty: "typed s" and r: "asked TYPE_RULE s rule"
    and f: "api_object a TYPE_ACTION (\<lambda>act db. Option.bind (rule_of db rule) (\<lambda>r.
          Some (if act \<in> set (r_action_list r) then db else link_action rule act db))) s = Some t"
  show "tstep s t"
  proof (rule api_object_step [OF f ty])
    fix x u assume u: "tstep s u" "typed u" and x: "asked TYPE_ACTION u x" and g: "Option.bind (rule_of u rule) (\<lambda>r.
          Some (if x \<in> set (r_action_list r) then u else link_action rule x u)) = Some t"
    show "tstep u t" using g tstep_link_action [OF u(2)] typed_later [OF ty u(1) asked_type [OF r]] asked_type [OF x]
      by (auto split: if_splits bind_splits)
  qed simp
qed simp

lemma keeps_depend_create: "keeps (myrefl_depend_create p c)"
proof (rule keepsI)
  fix s t assume "myrefl_depend_create p c s = Some t"
  then show "tstep s t"
    by (auto simp: myrefl_depend_create_def split: bind_splits if_splits
        dest!: tstep_api_get_or_create(1) tstep_depend_connect) (blast intro: tstep_trans)+
qed

lemma rule_run_keeps: "keeps (rule_run c)"
  by (cases c) (simp_all add: keeps_rule_create keeps_rule_add_input keeps_rule_set keeps_rule_add_action
      keeps_rule_default keeps_depend_create keeps_states)

section \<open>Components, health and instances\<close>

lemma keeps_comp_set:
  "keeps (myrefl_comp_create n)" "keeps (myrefl_comp_delete n)" "keeps (myrefl_api_comp_set_context n c)"
  "keeps (myrefl_comp_set_description n d)" "keeps (myrefl_health_set n h)"
  unfolding myrefl_comp_create_def myrefl_comp_delete_def myrefl_api_comp_set_context_def myrefl_comp_set_description_def
    myrefl_health_set_def Let_def
  by (intro keeps_api_object keeps_api_lookup keeps_upd steps_intros; simp add: keeps_asked_any keeps_guard keeps_delete keepsI tstep_set_health)+

lemma keeps_comp_contains: "keeps (myrefl_comp_contains p c)"
  unfolding myrefl_comp_contains_def
proof (intro keeps_guard keeps_api_object keeps_askedI)
  fix x s t
  assume ty: "typed s" and f: "(if type_of s x \<noteq> TYPE_COMP then Some s
        else api_object c TYPE_ANY (myrefl_api_comp_contains x) s) = Some t"
  have "tstep s t" if a: "api_object c TYPE_ANY (myrefl_api_comp_contains x) s = Some t"
    by (rule api_object_step [OF a ty]) (auto simp: asked_def intro: tstep_comp_contains)
  then show "tstep s t" using f by (auto split: if_splits)
qed simp

lemma keeps_comp_contains_many: "keeps (myrefl_comp_contains_many p c cs)"
  unfolding myrefl_comp_contains_many_def by (intro keeps_guard keeps_foldM keeps_comp_contains)

lemma keeps_each_contained:
  assumes "\<And>x i. keeps (f x i)"
  shows "keeps (all_contained f cp)"
proof -
  have each: "tstep s t" if r: "each_contained f cp ob s = Some t" for ob s t
  proof -
    let ?P = "\<lambda>f cp ob s t. (\<forall>x i. keeps (f x i)) \<longrightarrow> tstep s t"
    have "?P f cp ob s t"
    proof (rule each_contained.raw_induct [where P = ?P, OF _ r], rule impI, goal_cases)
      case (1 rec f cp ob s t)
      show ?case
      proof (cases ob)
        case (Some x)
        with 1(2) obtain u where u: "foldM (f x) (all_instances s x) s = Some u" and "\<exists>next. rec f cp next u = Some t"
          by (auto split: bind_splits)
        then have "tstep u t" using 1(1,3) by blast
        moreover have "keeps (foldM (f x) (all_instances s x))" by (rule keeps_foldM) (use 1(3) in blast)
        ultimately show ?thesis using keepsD u tstep_trans by blast
      qed (use 1(2) in simp)
    qed
    then show ?thesis using assms by blast
  qed
  then show ?thesis by (auto simp: keeps_def all_contained_def split: bind_splits)
qed

lemma keeps_contained_ops: "keeps (enable_contained cli x i)" "keeps (disable_contained cli x i)"
  by (auto simp: keeps_def enable_contained_def disable_contained_def Let_def split: if_splits
      intro: steps_intros tstep_trans [OF tstep_upd_inst tstep_add_test])

lemma keeps_api_comp:
  assumes "\<And>ob. keeps (f ob)"
  shows "keeps (api_comp n f)"
proof (rule keepsI)
  fix s t
  assume t: "api_comp n f s = Some t"
  show "tstep s t"
  proof (cases "badstr n")
    case False
    with t obtain p u ok v where u: "myrefl_api_get_or_create (the n) TYPE_COMP s = Some (p, u)"
      and v: "myrefl_obj_validate p TYPE_COMP u = Some (ok, v)" and f: "t = v \<or> f (the p) v = Some t"
      by (auto simp: api_comp_def split: bind_splits if_splits)
    have "tstep v t" using f keepsD [OF assms] by auto
    then show ?thesis using tstep_trans [OF tstep_api_get_or_create(1) [OF u] tstep_validate [OF v]] tstep_trans by blast
  qed (use t in \<open>simp add: api_comp_def\<close>)
qed

lemma keeps_comp_states: "keeps (myrefl_api_comp_enable_guts n cli)" "keeps (myrefl_api_comp_disable_guts n cli)"
proof -
  have op: "keeps (\<lambda>s. all_contained g ob (if P s then s else upd_inst i f s))" if "\<And>x j. keeps (g x j)" for g ob P i f
    by (rule keeps_before [OF _ keeps_each_contained]) (auto intro: that)
  show "keeps (myrefl_api_comp_enable_guts n cli)" "keeps (myrefl_api_comp_disable_guts n cli)"
    unfolding myrefl_api_comp_enable_guts_def myrefl_api_comp_disable_guts_def Let_def
    by (intro keeps_api_comp keeps_if op keeps_contained_ops keeps_instance_ops keeps_same)+
qed

lemma tstep_default_object:
  assumes "default_object x s = Some t"
  shows "tstep s t"
proof -
  have "tstep s t" if d: "default_comp x s = Some t"
  proof -
    obtain ok u where u: "myrefl_obj_validate (Some x) TYPE_COMP s = Some (ok, u)" using d by (auto simp: default_comp_def split: bind_splits)
    have "tstep u t" using d u by (auto simp: default_comp_def split: bind_splits if_splits
          intro: steps_intros dest!: tstep_delete)
    then show ?thesis by (rule tstep_trans [OF tstep_validate [OF u]])
  qed
  then show ?thesis using assms keepsD [OF keeps_test_default] keepsD [OF keeps_rule_default] keepsD [OF keeps_action_default]
    by (auto simp: default_object_def Let_def split: obj_type.splits)
qed

lemma tstep_default_contained:
  assumes "default_contained cp ob s = Some t"
  shows "tstep s t"
proof -
  let ?P = "\<lambda>cp ob s t. tstep s t"
  show ?thesis
  proof (rule default_contained.raw_induct [where P = ?P, OF _ assms], goal_cases)
    case (1 rec cp ob s t)
    show ?case
    proof (cases ob)
      case (Some x)
      with 1(2) obtain u ok v where u: "default_object x s = Some u" and v: "myrefl_obj_validate (Some x) TYPE_ANY u = Some (ok, v)"
        and "tstep v t"
        using 1(1) by (auto split: bind_splits)
      from tstep_trans [OF tstep_trans [OF tstep_default_object [OF u] tstep_validate [OF v]] this(3)] show ?thesis .
    qed (use 1(2) in simp)
  qed
qed

lemma keeps_comp_default: "keeps (myrefl_api_comp_default n)"
proof -
  have "keeps (default_contained ob x)" for ob x by (simp add: keepsI tstep_default_contained)
  then have "keeps (\<lambda>s. Option.bind (myrefl_comp_get_first_contained (upd_inst i f s) (Some ob) TYPE_ANY)
      (\<lambda>x. default_contained ob x (upd_inst i f s)))" for i f ob
    by (intro keeps_bind_read keeps_before [where g = "upd_inst i f"]) simp_all
  then show ?thesis
    unfolding myrefl_api_comp_default_def Let_def
    by (intro keeps_api_lookup keeps_asked_any keeps_if keeps_init_default keeps_same)
qed

lemma comp_run_keeps: "keeps (comp_run c)"
  by (cases c) (simp_all add: keeps_comp_set keeps_comp_contains keeps_comp_contains_many keeps_comp_states keeps_comp_default)

lemma tstep_instance_entries:
  "myrefl_instance_create n nm c s = Some t \<Longrightarrow> tstep s t" "myrefl_instance_delete n nm s = Some t \<Longrightarrow> tstep s t"
proof -
  have create: "tstep u t" if f: "do {
             let (i, db) = myrefl_api_instance_create ob m u;
             let db = upd_inst i g db;
             db \<leftarrow> (if is_polled db ob then myrefl_sched_add_test i False db else Some db);
             Some (upd_inst i h db) } = Some t" for ob m u g h t
  proof -
    let ?v = "snd (myrefl_api_instance_create ob m u)" and ?i = "fst (myrefl_api_instance_create ob m u)"
    obtain w where w: "w = upd_inst ?i g ?v \<or> myrefl_sched_add_test ?i False (upd_inst ?i g ?v) = Some w"
      and t: "t = upd_inst ?i h w"
      using f by (auto simp: split_beta Let_def split: bind_splits if_splits)
    have "tstep (upd_inst ?i g ?v) w" using w tstep_add_test by auto
    then have "tstep u w" by (rule tstep_trans [OF tstep_trans [OF tstep_api_instance_create tstep_upd_inst]])
    then show ?thesis unfolding t by (rule tstep_trans [OF _ tstep_upd_inst])
  qed
  have "keeps (myrefl_instance_create n nm c)"
    unfolding myrefl_instance_create_def
  proof (intro keeps_guard keeps_api_object keeps_asked_any keepsI)
    fix ob s t
    assume "do {
        let m = myrefl_api_convert_name (the nm);
        (p, db) \<leftarrow> myrefl_obj_instance_by_name (Some ob) (Some m) s;
        (case p of
           Some _ \<Rightarrow> Some db
         | None \<Rightarrow> do {
             let (i, db) = myrefl_api_instance_create ob m db;
             let db = upd_inst i (\<lambda>x. x\<lparr>i_context := c\<rparr>) db;
             db \<leftarrow> (if is_polled db ob then myrefl_sched_add_test i False db else Some db);
             Some (upd_inst i (\<lambda>x. if i_state x = STATE_INITIALIZED then x\<lparr>i_state := STATE_CREATED\<rparr> else x) db) }) } = Some t"
    then obtain p u where u: "myrefl_obj_instance_by_name (Some ob) (Some (myrefl_api_convert_name (the nm))) s = Some (p, u)"
      and f: "(case p of
           Some _ \<Rightarrow> Some u
         | None \<Rightarrow> do {
             let (i, db) = myrefl_api_instance_create ob (myrefl_api_convert_name (the nm)) u;
             let db = upd_inst i (\<lambda>x. x\<lparr>i_context := c\<rparr>) db;
             db \<leftarrow> (if is_polled db ob then myrefl_sched_add_test i False db else Some db);
             Some (upd_inst i (\<lambda>x. if i_state x = STATE_INITIALIZED then x\<lparr>i_state := STATE_CREATED\<rparr> else x) db) }) = Some t"
      by (cases "myrefl_obj_instance_by_name (Some ob) (Some (myrefl_api_convert_name (the nm))) s") (simp_all only: Let_def Option.bind.simps option.simps split_paired_all split_conv)
    have "tstep u t" using f create by (cases p) auto
    then show "tstep s t" by (rule tstep_trans [OF tstep_instance_by_name [OF u]])
  qed simp
  then show "myrefl_instance_create n nm c s = Some t \<Longrightarrow> tstep s t" by (rule keepsD)
  have "tstep s t" if f: "do {
        (p, db) \<leftarrow> myrefl_obj_instance_by_name (Some ob) m s;
        (case p of
           None \<Rightarrow> Some db
         | Some i \<Rightarrow>
             let db = (if type_of db ob = TYPE_TEST then myrefl_sched_remove_test i db else db)
             in myrefl_obj_instance_delete i db) } = Some t" for ob m s t
  proof -
    obtain p u where u: "myrefl_obj_instance_by_name (Some ob) m s = Some (p, u)"
      and g: "(case p of None \<Rightarrow> Some u | Some i \<Rightarrow>
        myrefl_obj_instance_delete i (if type_of u ob = TYPE_TEST then myrefl_sched_remove_test i u else u)) = Some t"
      using f unfolding Let_def by (auto split: bind_splits)
    have "tstep u t" using g tstep_instance_delete tstep_trans [OF tstep_remove_test tstep_instance_delete]
      by (auto split: option.splits if_splits)
    then show ?thesis by (rule tstep_trans [OF tstep_instance_by_name [OF u]])
  qed
  then have "keeps (myrefl_instance_delete n nm)"
    unfolding myrefl_instance_delete_def by (intro keeps_guard keeps_api_lookup keeps_asked_any keepsI)
  then show "myrefl_instance_delete n nm s = Some t \<Longrightarrow> tstep s t" by (rule keepsD)
qed

lemma tstep_notify_object:
  assumes "notify_object n ty nm s = Some (b, t)"
  shows "tstep s t"
proof (cases "badstr n")
  case False
  with assms obtain p u where u: "myrefl_api_get_or_create (the n) ty s = Some (p, u)"
    and f: "(case p of None \<Rightarrow> Some (False, u) | Some ob \<Rightarrow>
             if badstr nm then Some (True, notify_flag (base ob) u)
             else map_option (\<lambda>(i, db). (True, notify_flag i db)) (pick_instance ob nm u)) = Some (b, t)"
    by (auto simp: notify_object_def split: bind_splits)
  have flag: "tstep v (notify_flag i v)" for i v by (rule steps_intros)+
  have "tstep u t" using f flag by (auto split: option.splits if_splits dest!: tstep_pick_instance intro: tstep_trans)
  then show ?thesis by (rule tstep_trans [OF tstep_api_get_or_create(1) [OF u]])
qed (use assms in \<open>simp add: notify_object_def\<close>)

lemma tstep_create_built_in:
  assumes "create_built_in n f w s = Some t"
  shows "tstep s t"
proof -
  obtain u p where u: "myrefl_action_create (Some n) (Some f) 0 s = Some u"
    and t: "myrefl_action_enable (Some n) None
      (case p of None \<Rightarrow> u | Some ob \<Rightarrow> upd_inst (base ob) (\<lambda>x. x\<lparr>i_flags := or (i_flags x) w\<rparr>) u) = Some t"
    using assms by (auto simp: create_built_in_def Let_def split: bind_splits)
  have "tstep u (case p of None \<Rightarrow> u | Some ob \<Rightarrow> upd_inst (base ob) (\<lambda>x. x\<lparr>i_flags := or (i_flags x) w\<rparr>) u)"
    by (auto split: option.split)
  from tstep_trans [OF tstep_trans [OF keepsD [OF keeps_action_create u] this] keepsD [OF keeps_states(3) t [unfolded myrefl_action_enable_def]]]
  show ?thesis .
qed

lemma tstep_api_init: "myrefl_api_init s = Some t \<Longrightarrow> tstep s t"
  by (auto simp: myrefl_api_init_def split: bind_splits dest!: tstep_create_built_in) (meson tstep_trans)

text \<open>Every call of the client is a step.\<close>

lemma api_run_step: "api_run c s = Some t \<Longrightarrow> tstep s t"
  using keepsD [OF test_run_keeps] keepsD [OF action_run_keeps] keepsD [OF rule_run_keeps] keepsD [OF comp_run_keeps]
  by (cases c) (auto simp: myrefl_notify_test_result_def myrefl_notify_rule_result_def myrefl_notify_action_result_def
      intro: tstep_instance_entries tstep_api_init tstep_notify_object)

lemma session_step: "foldM api_run cs s = Some t \<Longrightarrow> tstep s t"
  by (rule tstep_foldM) (auto intro: api_run_step)

end
