(* ===== verification/JsonRequest.thy ===== *)
theory JsonRequest
  imports Jsmn ApiCalls
begin

text \<open>
  The requests of the server's modules (\<^verbatim>\<open>src/server/src/myrefl_json_parser.c\<close>): an interpreter of the tokens
  that calls the client API. A request is a buffer of characters; strings are used in place, as positions in the
  buffer, after a zero has been written behind them. The interpreter never reads the database, so a request is a list
  of API calls, in the order in which they are made. Following the token pointer behind the array gives \<open>None\<close>, and so
  does copying a name or a text into a context that is too small for it, which writes behind the context.
  The messages are not modelled (after the error that they report nothing reads the buffer any more).
\<close>

section \<open>The state\<close>

text \<open>The contexts that tests, actions and instances are created with. A pointer to one is its place in the list
  of all contexts, counted from one.\<close>

datatype server_context =
    Test_context name name
  | Email_context string string string

record json =
  js :: string
  token_ptr :: nat
  calls :: "api_call list"
  contexts :: "server_context list"

definition fn_server_exec_test :: nat where "fn_server_exec_test = 10"
definition fn_server_exec_action :: nat where "fn_server_exec_action = 11"
definition fn_server_email :: nat where "fn_server_email = 12"

definition EMAIL_TO_MAX :: nat where "EMAIL_TO_MAX = 50"
definition EMAIL_SUBJECT_MAX :: nat where "EMAIL_SUBJECT_MAX = 128"
definition EMAIL_COMMAND_MAX :: nat where "EMAIL_COMMAND_MAX = 128"

definition LONG_MAX :: int where "LONG_MAX = 2 ^ 63 - 1"
definition LONG_MIN :: int where "LONG_MIN = - (2 ^ 63)"

text \<open>The C string at a position of a buffer.\<close>

definition c_string :: "string \<Rightarrow> nat \<Rightarrow> string" where
  "c_string buf k = takeWhile (\<lambda>c. c \<noteq> CHR 0x00) (drop k buf)"

text \<open>\<open>strtol(s, NULL, 10)\<close>\<close>

definition is_space :: "char \<Rightarrow> bool" where
  "is_space c \<longleftrightarrow> c \<in> {CHR '' '', CHR 0x09, CHR 0x0A, CHR 0x0B, CHR 0x0C, CHR 0x0D}"

definition is_digit :: "char \<Rightarrow> bool" where
  "is_digit c \<longleftrightarrow> (of_char c :: nat) \<in> {48..57}"

definition digits_value :: "string \<Rightarrow> int" where
  "digits_value s = foldl (\<lambda>v c. 10 * v + (of_char c - 48)) 0 (takeWhile is_digit s)"

definition strtol :: "string \<Rightarrow> int" where
  "strtol s =
     (let s = dropWhile is_space s;
          v = (case s of c # cs \<Rightarrow> if c = CHR ''-'' then - digits_value cs else if c = CHR ''+'' then digits_value cs
                 else digits_value s | [] \<Rightarrow> 0)
      in max LONG_MIN (min LONG_MAX v))"

section \<open>Tokens\<close>

definition calc_max_tokens :: "string \<Rightarrow> nat" where
  "calc_max_tokens request = length request div 5 * 2"

definition json_token_streq :: "string \<Rightarrow> jsmntok \<Rightarrow> string \<Rightarrow> bool" where
  "json_token_streq buf t s \<longleftrightarrow> take (nat (tk_end t - tk_start t)) (drop (nat (tk_start t)) buf) = s"

definition json_token_to_str :: "jsmntok \<Rightarrow> json \<Rightarrow> nat \<times> json" where
  "json_token_to_str t s = (nat (tk_start t), s\<lparr>js := (js s)[nat (tk_end t) := CHR 0x00]\<rparr>)"

definition is_valid_token :: "jsmntok \<Rightarrow> bool" where
  "is_valid_token t \<longleftrightarrow> tk_end t > 0"

text \<open>\<open>token = *token_ptr\<close>, and \<open>(*token_ptr)++\<close>\<close>

definition token :: "jsmntok list \<Rightarrow> json \<Rightarrow> jsmntok option" where
  "token ts s = (if token_ptr s < length ts then Some (ts ! token_ptr s) else None)"

definition consume :: "json \<Rightarrow> json" where
  "consume s = s\<lparr>token_ptr := Suc (token_ptr s)\<rparr>"

definition is_token :: "jsmntype \<Rightarrow> jsmntok \<Rightarrow> bool" where
  "is_token ty t \<longleftrightarrow> is_valid_token t \<and> tk_type t = ty"

text \<open>A string or primitive at the pointer is terminated and consumed; anything else is left.\<close>

definition text_token :: "jsmntype \<Rightarrow> jsmntok list \<Rightarrow> json \<Rightarrow> (nat option \<times> json) option" where
  "text_token ty ts s = do {
     t \<leftarrow> token ts s;
     Some (if is_token ty t then let (k, s) = json_token_to_str t s in (Some k, consume s) else (None, s)) }"

definition call :: "api_call \<Rightarrow> json \<Rightarrow> json" where
  "call c s = s\<lparr>calls := calls s @ [c]\<rparr>"

definition call_if :: "bool \<Rightarrow> api_call \<Rightarrow> json \<Rightarrow> json" where
  "call_if b c s = (if b then call c s else s)"

text \<open>The argument of a call: a null pointer or the string that is at the position now.\<close>

definition arg :: "json \<Rightarrow> nat option \<Rightarrow> name option" where
  "arg s p = map_option (c_string (js s)) p"

definition new_context :: "server_context \<Rightarrow> json \<Rightarrow> nat \<times> json" where
  "new_context x s = (Suc (length (contexts s)), s\<lparr>contexts := contexts s @ [x]\<rparr>)"

definition test_context :: "name \<Rightarrow> nat option \<Rightarrow> json \<Rightarrow> (nat \<times> json) option" where
  "test_context module p s = do {
     m \<leftarrow> sstrncpy module MYREFL_MAX_NAME_LEN;
     t \<leftarrow> sstrncpy (the (arg s p)) MYREFL_MAX_NAME_LEN;
     Some (new_context (Test_context m t) s) }"

section \<open>Attributes\<close>

text \<open>The loop over the attributes of an object: \<open>body\<close> handles one and says whether the loop goes on
  (a \<open>break\<close> sets \<open>ret\<close> to false).\<close>

fun attributes :: "nat \<Rightarrow> ('a \<Rightarrow> json \<Rightarrow> (bool \<times> 'a \<times> json) option) \<Rightarrow> bool \<Rightarrow> 'a \<Rightarrow> json \<Rightarrow> (bool \<times> 'a \<times> json) option" where
  "attributes 0 body ret a s = Some (ret, a, s)"
| "attributes (Suc k) body ret a s = do {
     (go, a, s) \<leftarrow> body a s;
     if go then attributes k body True a s else Some (False, a, s) }"

text \<open>A string that must be there, and one that may be missing.\<close>

definition string_needed :: "jsmntok list \<Rightarrow> (nat \<Rightarrow> 'a \<Rightarrow> 'a) \<Rightarrow> 'a \<Rightarrow> json \<Rightarrow> (bool \<times> 'a \<times> json) option" where
  "string_needed ts put a s = do {
     (p, s) \<leftarrow> text_token JSMN_STRING ts (consume s);
     Some (case p of None \<Rightarrow> (False, a, s) | Some k \<Rightarrow> (True, put k a, s)) }"

definition string_optional :: "jsmntok list \<Rightarrow> (nat \<Rightarrow> 'a \<Rightarrow> 'a) \<Rightarrow> 'a \<Rightarrow> json \<Rightarrow> (bool \<times> 'a \<times> json) option" where
  "string_optional ts put a s = do {
     (p, s) \<leftarrow> text_token JSMN_STRING ts (consume s);
     Some (True, case p of None \<Rightarrow> a | Some k \<Rightarrow> put k a, s) }"

definition number_optional :: "jsmntok list \<Rightarrow> (int \<Rightarrow> 'a \<Rightarrow> 'a) \<Rightarrow> 'a \<Rightarrow> json \<Rightarrow> (bool \<times> 'a \<times> json) option" where
  "number_optional ts put a s = do {
     (p, s) \<leftarrow> text_token JSMN_PRIMITIVE ts (consume s);
     Some (True, case p of None \<Rightarrow> a | Some k \<Rightarrow> put (strtol (c_string (js s) k)) a, s) }"

section \<open>Tests\<close>

record test_attrs =
  ta_name :: "nat option"
  ta_interval :: int
  ta_polled :: bool
  ta_health :: "nat option"
  ta_comp :: "nat option"
  ta_description :: "nat option"

definition polled_attribute :: "jsmntok list \<Rightarrow> test_attrs \<Rightarrow> json \<Rightarrow> (bool \<times> test_attrs \<times> json) option" where
  "polled_attribute ts a s = do {
     let s = consume s;
     t \<leftarrow> token ts s;
     Some (if is_token JSMN_PRIMITIVE t \<and> json_token_streq (js s) t ''true'' then (True, a\<lparr>ta_polled := True\<rparr>, consume s)
       else if is_token JSMN_PRIMITIVE t \<and> json_token_streq (js s) t ''false'' then (True, a\<lparr>ta_polled := False\<rparr>, consume s)
       else (False, a, s)) }"

definition interval_attribute :: "jsmntok list \<Rightarrow> test_attrs \<Rightarrow> json \<Rightarrow> (bool \<times> test_attrs \<times> json) option" where
  "interval_attribute ts a s = do {
     let s = consume s;
     t \<leftarrow> token ts s;
     Some (
       if is_token JSMN_PRIMITIVE t then
         let (k, s) = json_token_to_str t s; v = strtol (c_string (js s) k); a = a\<lparr>ta_interval := v\<rparr>
         in if v = LONG_MAX \<or> v = LONG_MIN \<or> v = 0 then (False, a, s) else (True, a, consume s)
       else if is_token JSMN_STRING t then
         if json_token_streq (js s) t ''fast'' then (True, a\<lparr>ta_interval := uint MYREFL_PERIOD_FAST\<rparr>, consume s)
         else if json_token_streq (js s) t ''normal'' then (True, a\<lparr>ta_interval := uint MYREFL_PERIOD_NORMAL\<rparr>, consume s)
         else if json_token_streq (js s) t ''slow'' then (True, a\<lparr>ta_interval := uint MYREFL_PERIOD_SLOW\<rparr>, consume s)
         else (False, a, s)
       else (False, a, s)) }"

definition test_attribute :: "jsmntok list \<Rightarrow> test_attrs \<Rightarrow> json \<Rightarrow> (bool \<times> test_attrs \<times> json) option" where
  "test_attribute ts a s = do {
     t \<leftarrow> token ts s;
     let key = json_token_streq (js s) t;
     if \<not> is_token JSMN_STRING t then Some (False, a, s)
     else if key ''name'' then string_needed ts (\<lambda>k a. a\<lparr>ta_name := Some k\<rparr>) a s
     else if key ''polled'' then polled_attribute ts a s
     else if key ''interval'' then interval_attribute ts a s
     else if key ''comp'' then string_needed ts (\<lambda>k a. a\<lparr>ta_comp := Some k\<rparr>) a s
     else if key ''description'' then string_needed ts (\<lambda>k a. a\<lparr>ta_description := Some k\<rparr>) a s
     else if key ''health'' then string_needed ts (\<lambda>k a. a\<lparr>ta_health := Some k\<rparr>) a s
     else Some (False, a, s) }"

definition create_test :: "name \<Rightarrow> test_attrs \<Rightarrow> json \<Rightarrow> json option" where
  "create_test module a s =
     (if ta_name a \<noteq> None \<and> (\<not> ta_polled a \<or> ta_interval a > 0) then do {
        s \<leftarrow> (if ta_health a \<noteq> None
              then Some (call (For_test (Test_create_comp_health (arg s (ta_name a)) (arg s (ta_health a)))) s)
              else if ta_polled a then do {
                (ctx, s) \<leftarrow> test_context module (ta_name a) s;
                Some (call (For_test (Test_create_polled (arg s (ta_name a)) (Some fn_server_exec_test) ctx
                  (word_of_int (ta_interval a)))) s) }
              else Some (call (For_test (Test_create_notification (arg s (ta_name a)))) s));
        let s = call_if (ta_comp a \<noteq> None) (For_comp (Comp_contains (arg s (ta_comp a)) (arg s (ta_name a)))) s;
        Some (call_if (ta_description a \<noteq> None)
          (For_test (Test_set_description (arg s (ta_name a)) (arg s (ta_description a)))) s) }
      else Some s)"

text \<open>What the parsers of a command share: an object is consumed, its attributes are read, and \<open>run\<close> makes the
  calls if all went well. \<open>none\<close> is the answer for a token that is no object.\<close>

definition parse_object ::
  "bool \<Rightarrow> (jsmntok list \<Rightarrow> 'a \<Rightarrow> json \<Rightarrow> (bool \<times> 'a \<times> json) option) \<Rightarrow> 'a \<Rightarrow> ('a \<Rightarrow> json \<Rightarrow> json option) \<Rightarrow>
     jsmntok list \<Rightarrow> json \<Rightarrow> (bool \<times> json) option" where
  "parse_object none body a run ts s = do {
     t \<leftarrow> token ts s;
     if is_token JSMN_OBJECT t then do {
       (ret, a, s) \<leftarrow> attributes (nat (tk_size t div 2)) (body ts) none a (consume s);
       if ret then map_option (Pair True) (run a s) else Some (False, s) }
     else Some (none, s) }"

definition parse_test :: "name \<Rightarrow> jsmntok list \<Rightarrow> json \<Rightarrow> (bool \<times> json) option" where
  "parse_test module = parse_object False test_attribute
     \<lparr>ta_name = None, ta_interval = 0, ta_polled = False, ta_health = None, ta_comp = None, ta_description = None\<rparr>
     (create_test module)"

section \<open>Components\<close>

record comp_attrs =
  cm_comp :: "nat option"
  cm_parent :: "nat option"

definition comp_attribute :: "jsmntok list \<Rightarrow> comp_attrs \<Rightarrow> json \<Rightarrow> (bool \<times> comp_attrs \<times> json) option" where
  "comp_attribute ts a s = do {
     t \<leftarrow> token ts s;
     let key = json_token_streq (js s) t;
     if \<not> is_token JSMN_STRING t then Some (True, a, s)
     else if key ''name'' then string_optional ts (\<lambda>k a. a\<lparr>cm_comp := Some k\<rparr>) a s
     else if key ''parent'' then string_optional ts (\<lambda>k a. a\<lparr>cm_parent := Some k\<rparr>) a s
     else Some (False, a, s) }"

definition create_comp :: "comp_attrs \<Rightarrow> json \<Rightarrow> json option" where
  "create_comp a s =
     Some (if cm_comp a = None then s
       else call_if (cm_parent a \<noteq> None) (For_comp (Comp_contains (arg s (cm_parent a)) (arg s (cm_comp a))))
              (call (For_comp (Comp_create (arg s (cm_comp a)))) s))"

definition parse_comp :: "jsmntok list \<Rightarrow> json \<Rightarrow> (bool \<times> json) option" where
  "parse_comp = parse_object False comp_attribute \<lparr>cm_comp = None, cm_parent = None\<rparr> create_comp"

section \<open>Rules\<close>

record rule_attrs =
  ra_name :: "nat option"
  ra_input :: "nat option"
  ra_action :: "nat option"
  ra_comp :: "nat option"
  ra_severity :: int
  ra_operator :: operator
  ra_n :: int
  ra_m :: int

definition SEVERITY_NONE :: int where "SEVERITY_NONE = 0"

definition operator_names :: "(string \<times> operator) list" where
  "operator_names =
     [(''MYREFL_RULE_ON_FAIL'', RULE_ON_FAIL), (''MYREFL_RULE_DISABLE'', RULE_DISABLE),
      (''MYREFL_RULE_EQUAL_TO_N'', RULE_EQUAL_TO_N), (''MYREFL_RULE_NOT_EQUAL_TO_N'', RULE_NOT_EQUAL_TO_N),
      (''MYREFL_RULE_LESS_THAN_N'', RULE_LESS_THAN_N), (''MYREFL_RULE_GREATER_THAN_N'', RULE_GREATER_THAN_N),
      (''MYREFL_RULE_N_EVER'', RULE_N_EVER), (''MYREFL_RULE_N_IN_ROW'', RULE_N_IN_ROW),
      (''MYREFL_RULE_N_IN_M'', RULE_N_IN_M), (''MYREFL_RULE_RANGE_N_TO_M'', RULE_RANGE_N_TO_M),
      (''MYREFL_RULE_N_IN_TIME_M'', RULE_N_IN_TIME_M), (''MYREFL_RULE_FAIL_FOR_TIME_N'', RULE_FAIL_FOR_TIME_N),
      (''MYREFL_RULE_OR'', RULE_OR), (''MYREFL_RULE_AND'', RULE_AND)]"

definition severity_names :: "(string \<times> int) list" where
  "severity_names =
     [(''MYREFL_SEVERITY_CATASTROPHIC'', SEVERITY_CATASTROPHIC), (''MYREFL_SEVERITY_CRITICAL'', SEVERITY_CRITICAL),
      (''MYREFL_SEVERITY_HIGH'', SEVERITY_HIGH), (''MYREFL_SEVERITY_MEDIUM'', SEVERITY_MEDIUM),
      (''MYREFL_SEVERITY_LOW'', SEVERITY_LOW), (''MYREFL_SEVERITY_NONE'', SEVERITY_NONE),
      (''MYREFL_SEVERITY_POSITIVE'', SEVERITY_POSITIVE)]"

text \<open>The first entry of a chain of comparisons that the token equals.\<close>

definition known_word :: "(string \<times> 'b) list \<Rightarrow> jsmntok \<Rightarrow> json \<Rightarrow> 'b option" where
  "known_word names t s = map_option snd (List.find (\<lambda>p. json_token_streq (js s) t (fst p)) names)"

text \<open>A word that is not known is reported and leaves the value as it is; the message terminates it.\<close>

definition word_optional :: "(string \<times> 'b) list \<Rightarrow> jsmntok list \<Rightarrow> ('b \<Rightarrow> 'a \<Rightarrow> 'a) \<Rightarrow> 'a \<Rightarrow> json \<Rightarrow> (bool \<times> 'a \<times> json) option" where
  "word_optional names ts put a s = do {
     let s = consume s;
     t \<leftarrow> token ts s;
     Some (True,
       if is_token JSMN_STRING t
       then (case known_word names t s of
               Some w \<Rightarrow> (put w a, consume s) | None \<Rightarrow> (a, consume (snd (json_token_to_str t s))))
       else (a, s)) }"

text \<open>The description is stored as the name of the component.\<close>

definition rule_attribute :: "jsmntok list \<Rightarrow> rule_attrs \<Rightarrow> json \<Rightarrow> (bool \<times> rule_attrs \<times> json) option" where
  "rule_attribute ts a s = do {
     t \<leftarrow> token ts s;
     let key = json_token_streq (js s) t;
     if \<not> is_token JSMN_STRING t then Some (True, a, s)
     else if key ''name'' then string_optional ts (\<lambda>k a. a\<lparr>ra_name := Some k\<rparr>) a s
     else if key ''input'' then string_optional ts (\<lambda>k a. a\<lparr>ra_input := Some k\<rparr>) a s
     else if key ''action'' then string_optional ts (\<lambda>k a. a\<lparr>ra_action := Some k\<rparr>) a s
     else if key ''comp'' then string_optional ts (\<lambda>k a. a\<lparr>ra_comp := Some k\<rparr>) a s
     else if key ''operator'' then word_optional operator_names ts (\<lambda>w a. a\<lparr>ra_operator := w\<rparr>) a s
     else if key ''n'' then number_optional ts (\<lambda>v a. a\<lparr>ra_n := v\<rparr>) a s
     else if key ''m'' then number_optional ts (\<lambda>v a. a\<lparr>ra_m := v\<rparr>) a s
     else if key ''description'' then string_optional ts (\<lambda>k a. a\<lparr>ra_comp := Some k\<rparr>) a s
     else if key ''severity'' then word_optional severity_names ts (\<lambda>w a. a\<lparr>ra_severity := w\<rparr>) a s
     else Some (False, a, s) }"

text \<open>\<open>action_name\<close> begins as the built-in action. A description is never set.\<close>

definition create_rule :: "rule_attrs \<Rightarrow> json \<Rightarrow> json option" where
  "create_rule a s =
     Some (if ra_name a \<noteq> None \<and> ra_input a \<noteq> None then
        let name = arg s (ra_name a);
            action = (case ra_action a of None \<Rightarrow> Some MYREFL_ACTION_NOOP | Some k \<Rightarrow> arg s (Some k));
            s = call (For_rule (Rule_create name (arg s (ra_input a)) action)) s;
            s = call_if (ra_operator a \<noteq> RULE_ON_FAIL) (For_rule (Rule_set_type name (ra_operator a) (ra_n a) (ra_m a))) s;
            s = call_if (ra_severity a \<noteq> SEVERITY_NONE) (For_rule (Rule_set_severity name (ra_severity a))) s
        in call_if (ra_comp a \<noteq> None) (For_comp (Comp_contains (arg s (ra_comp a)) name)) s
      else s)"

definition parse_rule :: "jsmntok list \<Rightarrow> json \<Rightarrow> (bool \<times> json) option" where
  "parse_rule = parse_object False rule_attribute
     \<lparr>ra_name = None, ra_input = None, ra_action = None, ra_comp = None, ra_severity = SEVERITY_NONE,
       ra_operator = RULE_ON_FAIL, ra_n = 0, ra_m = 0\<rparr> create_rule"

section \<open>Actions and mails\<close>

text \<open>An attribute of another name is not consumed and not refused.\<close>

definition action_attribute :: "jsmntok list \<Rightarrow> nat option \<Rightarrow> json \<Rightarrow> (bool \<times> nat option \<times> json) option" where
  "action_attribute ts a s = do {
     t \<leftarrow> token ts s;
     if \<not> is_token JSMN_STRING t then Some (False, a, s)
     else if json_token_streq (js s) t ''name'' then string_needed ts (\<lambda>k a. Some k) a s
     else Some (True, a, s) }"

definition create_action :: "name \<Rightarrow> nat option \<Rightarrow> json \<Rightarrow> json option" where
  "create_action module a s =
     (if a = None then Some s
      else do {
        (ctx, s) \<leftarrow> test_context module a s;
        Some (call (For_action (Action_create (arg s a) (Some fn_server_exec_action) ctx)) s) })"

definition parse_action :: "name \<Rightarrow> jsmntok list \<Rightarrow> json \<Rightarrow> (bool \<times> json) option" where
  "parse_action module = parse_object True action_attribute None (create_action module)"

record email_attrs =
  em_name :: "nat option"
  em_to :: "nat option"
  em_subject :: "nat option"
  em_command :: "nat option"
  em_instance :: "nat option"

definition email_attribute :: "jsmntok list \<Rightarrow> email_attrs \<Rightarrow> json \<Rightarrow> (bool \<times> email_attrs \<times> json) option" where
  "email_attribute ts a s = do {
     t \<leftarrow> token ts s;
     let key = json_token_streq (js s) t;
     if \<not> is_token JSMN_STRING t then Some (True, a, s)
     else if key ''name'' then string_needed ts (\<lambda>k a. a\<lparr>em_name := Some k\<rparr>) a s
     else if key ''subject'' then string_needed ts (\<lambda>k a. a\<lparr>em_subject := Some k\<rparr>) a s
     else if key ''instance'' then string_needed ts (\<lambda>k a. a\<lparr>em_instance := Some k\<rparr>) a s
     else if key ''to'' then string_needed ts (\<lambda>k a. a\<lparr>em_to := Some k\<rparr>) a s
     else if key ''command'' then string_needed ts (\<lambda>k a. a\<lparr>em_command := Some k\<rparr>) a s
     else Some (False, a, s) }"

definition email_field :: "string option \<Rightarrow> nat \<Rightarrow> string option" where
  "email_field v n = (case v of None \<Rightarrow> Some [] | Some v \<Rightarrow> sstrncpy v n)"

definition create_email :: "email_attrs \<Rightarrow> json \<Rightarrow> json option" where
  "create_email a s =
     (if em_name a = None \<or> em_subject a = None then Some s
      else do {
        to \<leftarrow> email_field (arg s (em_to a)) EMAIL_TO_MAX;
        subject \<leftarrow> email_field (arg s (em_subject a)) EMAIL_SUBJECT_MAX;
        command \<leftarrow> email_field (arg s (em_command a)) EMAIL_COMMAND_MAX;
        let (ctx, s) = new_context (Email_context to subject command) s;
        let s = call (For_action (Action_create (arg s (em_name a)) (Some fn_server_email) ctx)) s;
        Some (call_if (em_instance a \<noteq> None) (Instance_create (arg s (em_name a)) (arg s (em_instance a)) ctx) s) })"

definition parse_email :: "jsmntok list \<Rightarrow> json \<Rightarrow> (bool \<times> json) option" where
  "parse_email = parse_object True email_attribute
     \<lparr>em_name = None, em_to = None, em_subject = None, em_command = None, em_instance = None\<rparr> create_email"

section \<open>Instances, readiness and results\<close>

record instance_attrs =
  ia_name :: "nat option"
  ia_object :: "nat option"
  ia_delete :: bool

text \<open>Here the token behind the name of an attribute is always consumed.\<close>

definition string_skipped :: "jsmntok list \<Rightarrow> (nat \<Rightarrow> 'a \<Rightarrow> 'a) \<Rightarrow> 'a \<Rightarrow> json \<Rightarrow> (bool \<times> 'a \<times> json) option" where
  "string_skipped ts put a s = do {
     let s = consume s;
     t \<leftarrow> token ts s;
     Some (True,
       if is_token JSMN_STRING t then let (k, s) = json_token_to_str t s in (put k a, consume s)
       else (a, consume s)) }"

definition delete_attribute :: "jsmntok list \<Rightarrow> instance_attrs \<Rightarrow> json \<Rightarrow> (bool \<times> instance_attrs \<times> json) option" where
  "delete_attribute ts a s = do {
     let s = consume s;
     t \<leftarrow> token ts s;
     Some (True,
       if is_token JSMN_PRIMITIVE t
       then let (k, s) = json_token_to_str t s
         in (if take 4 (c_string (js s) k) = ''true'' then a\<lparr>ia_delete := True\<rparr> else a, consume s)
       else (a, consume s)) }"

definition instance_attribute :: "jsmntok list \<Rightarrow> instance_attrs \<Rightarrow> json \<Rightarrow> (bool \<times> instance_attrs \<times> json) option" where
  "instance_attribute ts a s = do {
     t \<leftarrow> token ts s;
     let key = json_token_streq (js s) t;
     if \<not> is_token JSMN_STRING t then Some (True, a, s)
     else if key ''name'' then string_skipped ts (\<lambda>k a. a\<lparr>ia_name := Some k\<rparr>) a s
     else if key ''object'' then string_skipped ts (\<lambda>k a. a\<lparr>ia_object := Some k\<rparr>) a s
     else if key ''delete'' then delete_attribute ts a s
     else Some (False, a, s) }"

definition create_instance :: "name \<Rightarrow> instance_attrs \<Rightarrow> json \<Rightarrow> json option" where
  "create_instance module a s =
     (if ia_name a = None \<or> ia_object a = None then Some s
      else if \<not> ia_delete a then do {
        (ctx, s) \<leftarrow> test_context module (ia_object a) s;
        Some (call (Instance_create (arg s (ia_object a)) (arg s (ia_name a)) ctx) s) }
      else Some (call (Instance_delete (arg s (ia_object a)) (arg s (ia_name a))) s))"

definition parse_instance :: "name \<Rightarrow> jsmntok list \<Rightarrow> json \<Rightarrow> (bool \<times> json) option" where
  "parse_instance module = parse_object False instance_attribute
     \<lparr>ia_name = None, ia_object = None, ia_delete = False\<rparr> (create_instance module)"

text \<open>The tests of the list are made ready one by one, while the list is read.\<close>

definition ready_element :: "jsmntok list \<Rightarrow> unit \<Rightarrow> json \<Rightarrow> (bool \<times> unit \<times> json) option" where
  "ready_element ts a s = do {
     t \<leftarrow> token ts s;
     if is_token JSMN_STRING t then
       let (k, s) = json_token_to_str t s
       in Some (True, a, consume (call (For_test (Test_chain_ready (arg s (Some k)))) s))
     else Some (False, a, consume s) }"

definition parse_test_ready :: "jsmntok list \<Rightarrow> json \<Rightarrow> (bool \<times> json) option" where
  "parse_test_ready ts s = do {
     t \<leftarrow> token ts s;
     if is_token JSMN_ARRAY t
     then map_option (\<lambda>(ret, a, s). (ret, s)) (attributes (nat (tk_size t)) (ready_element ts) False () (consume s))
     else Some (False, s) }"

record result_attrs =
  rs_test :: "nat option"
  rs_instance :: "nat option"
  rs_result :: result
  rs_value :: int

definition result_names :: "(string \<times> result) list" where
  "result_names = [(''pass'', RESULT_PASS), (''fail'', RESULT_FAIL), (''ignore'', RESULT_IGNORE)]"

definition result_word :: "jsmntok list \<Rightarrow> result_attrs \<Rightarrow> json \<Rightarrow> (bool \<times> result_attrs \<times> json) option" where
  "result_word ts a s = do {
     let s = consume s;
     t \<leftarrow> token ts s;
     Some (
       if is_token JSMN_STRING t
       then (case known_word result_names t s of
               Some r \<Rightarrow> (True, a\<lparr>rs_result := r\<rparr>, consume s) | None \<Rightarrow> (False, a, consume s))
       else (True, a, s)) }"

definition result_attribute :: "jsmntok list \<Rightarrow> result_attrs \<Rightarrow> json \<Rightarrow> (bool \<times> result_attrs \<times> json) option" where
  "result_attribute ts a s = do {
     t \<leftarrow> token ts s;
     let key = json_token_streq (js s) t;
     if \<not> is_token JSMN_STRING t then Some (True, a, s)
     else if key ''test'' then string_optional ts (\<lambda>k a. a\<lparr>rs_test := Some k\<rparr>) a s
     else if key ''instance'' then string_optional ts (\<lambda>k a. a\<lparr>rs_instance := Some k\<rparr>) a s
     else if key ''result'' then result_word ts a s
     else if key ''value'' then number_optional ts (\<lambda>v a. a\<lparr>rs_value := v, rs_result := RESULT_VALUE\<rparr>) a s
     else Some (False, a, consume s) }"

definition notify_test :: "result_attrs \<Rightarrow> json \<Rightarrow> json option" where
  "notify_test a s = Some (call_if (rs_test a \<noteq> None)
     (For_test (Test_notify (arg s (rs_test a)) (arg s (rs_instance a)) (rs_result a) (rs_value a))) s)"

definition parse_result :: "jsmntok list \<Rightarrow> json \<Rightarrow> (bool \<times> json) option" where
  "parse_result = parse_object False result_attribute
     \<lparr>rs_test = None, rs_instance = None, rs_result = RESULT_ABORT, rs_value = 0\<rparr> notify_test"

section \<open>Requests\<close>

definition parse_command :: "name \<Rightarrow> jsmntok list \<Rightarrow> json \<Rightarrow> (bool \<times> json) option" where
  "parse_command module ts s = do {
     t \<leftarrow> token ts s;
     let key = json_token_streq (js s) t;
     let s' = consume s;
     if is_token JSMN_ARRAY t \<or> is_token JSMN_OBJECT t then Some (True, s')
     else if \<not> is_token JSMN_STRING t then Some (False, s')
     else if key ''test'' then parse_test module ts s'
     else if key ''comp'' then parse_comp ts s'
     else if key ''rule'' then parse_rule ts s'
     else if key ''action'' then parse_action module ts s'
     else if key ''instance'' then parse_instance module ts s'
     else if key ''ready'' then parse_test_ready ts s'
     else if key ''email'' then parse_email ts s'
     else if key ''result'' then parse_result ts s'
     else Some (False, s') }"

partial_function (option) parse_configuration :: "name \<Rightarrow> jsmntok list \<Rightarrow> bool \<Rightarrow> json \<Rightarrow> (bool \<times> json) option" where
  "parse_configuration module ts ret s =
     Option.bind (token ts s) (\<lambda>t.
       if ret \<and> is_valid_token t
       then Option.bind (parse_command module ts s) (\<lambda>(ok, s). parse_configuration module ts ok s)
       else Some (ret, s))"

definition parse_request :: "name \<Rightarrow> jsmntok list \<Rightarrow> json \<Rightarrow> (bool \<times> json) option" where
  "parse_request module ts s = do {
     t \<leftarrow> token ts s;
     parse_configuration module ts True (if is_token JSMN_OBJECT t then consume s else s) }"

text \<open>The interpretation of a request: the answer, the calls it makes and the contexts of the server afterwards.
  The array has one token more than the tokeniser may use.\<close>

definition interpret_request ::
  "name \<Rightarrow> string \<Rightarrow> server_context list \<Rightarrow> (bool \<times> api_call list \<times> server_context list) option" where
  "interpret_request module request ctxs =
     (let n = calc_max_tokens request;
          (ret, p) = jsmn_parse request n (jsmn_init (Suc n))
      in if ret = JSMN_SUCCESS
         then map_option (\<lambda>(ok, s). (ok, calls s, contexts s))
           (parse_request module (tokens p) \<lparr>js = request @ [CHR 0x00], token_ptr = 0, calls = [], contexts = ctxs\<rparr>)
         else Some (False, [], ctxs))"

fun run_calls :: "api_call list \<Rightarrow> db \<Rightarrow> db option" where
  "run_calls [] db = Some db"
| "run_calls (c # cs) db = Option.bind (api_run c db) (run_calls cs)"

definition process_json_request :: "name \<Rightarrow> string \<Rightarrow> server_context list \<times> db \<Rightarrow> (bool \<times> server_context list \<times> db) option" where
  "process_json_request module request = (\<lambda>(ctxs, db). do {
     (ok, cs, ctxs) \<leftarrow> interpret_request module request ctxs;
     db \<leftarrow> run_calls cs db;
     Some (ok, ctxs, db) })"

end
