(* ===== verification/JsonSafe.thy ===== *)
theory JsonSafe
  imports JsonRequest
begin

text \<open>
  The tokeniser hands well formed tokens to the interpreter of the requests, and on well formed tokens the
  interpreter always answers: its pointer never leaves the array.
\<close>

section \<open>What the tokeniser keeps\<close>

text \<open>A token in use: \<open>k\<close> tokens follow it, and the text has been read up to \<open>pos\<close>.\<close>

definition token_ok :: "nat \<Rightarrow> nat \<Rightarrow> jsmntok \<Rightarrow> bool" where
  "token_ok pos k t \<longleftrightarrow> 0 \<le> tk_size t \<and> tk_size t \<le> int k \<and> 0 \<le> tk_start t \<and> tk_start t \<le> int pos \<and>
     (tk_end t = -1 \<or> tk_start t \<le> tk_end t \<and> 0 < tk_end t \<and> tk_end t \<le> int pos)"

definition parser_ok :: "nat \<Rightarrow> nat \<Rightarrow> jsmn_parser \<Rightarrow> bool" where
  "parser_ok n pos p \<longleftrightarrow> length (tokens p) = Suc n \<and> toknext p \<le> n \<and> (\<forall>k. toksuper p = Some k \<longrightarrow> k < toknext p) \<and>
     (\<forall>i < toknext p. token_ok pos (toknext p - Suc i) (tokens p ! i)) \<and>
     (\<forall>i. toknext p \<le> i \<longrightarrow> i \<le> n \<longrightarrow> tokens p ! i = zero_token)"

lemma token_ok_mono: "token_ok pos k t \<Longrightarrow> pos \<le> pos' \<Longrightarrow> k \<le> k' \<Longrightarrow> token_ok pos' k' t"
  by (auto simp: token_ok_def)

lemma parser_ok_init: "parser_ok n pos (jsmn_init (Suc n))"
  using nth_replicate [of _ "Suc n" zero_token] by (simp add: parser_ok_def jsmn_init_def del: replicate.simps)

lemma parser_ok_mono: "parser_ok n pos p \<Longrightarrow> pos \<le> pos' \<Longrightarrow> parser_ok n pos' p"
  using token_ok_mono by (auto simp: parser_ok_def)

text \<open>A new token counts in the size of the innermost open one, which it follows.\<close>

lemma add_grow:
  assumes "parser_ok n pos p" and "add_token n t p = Some q" and "token_ok pos' 0 t" and "pos \<le> pos'"
  shows "parser_ok n pos' (grow_super q)" and "toknext (grow_super q) = Suc (toknext p)" and "toksuper (grow_super q) = toksuper p"
proof -
  have q: "q = p\<lparr>toknext := Suc (toknext p), tokens := (tokens p)[toknext p := t]\<rparr>" "toknext p < n"
    using assms(2) by (auto simp: add_token_def split: if_splits)
  show "toknext (grow_super q) = Suc (toknext p)" "toksuper (grow_super q) = toksuper p"
    by (simp_all add: grow_super_def q split: option.split)
  have old: "token_ok pos' (toknext p - Suc i) (tokens p ! i)" if "i < toknext p" for i
    using assms(1,4) that token_ok_mono [of pos "toknext p - Suc i" "tokens p ! i" pos' "toknext p - Suc i"]
    by (simp add: parser_ok_def)
  have new: "token_ok pos' (toknext p - i) ((tokens p)[toknext p := t] ! i)" if "i < Suc (toknext p)" for i
  proof (cases "i = toknext p")
    case True
    then show ?thesis using assms(1,3) q(2) by (simp add: parser_ok_def)
  next
    case False
    then have "i < toknext p" using that by simp
    then show ?thesis using token_ok_mono [OF old, of i pos' "toknext p - i"] by simp
  qed
  show "parser_ok n pos' (grow_super q)"
  proof (cases "toksuper p")
    case None
    then show ?thesis using assms(1) q new by (auto simp: parser_ok_def grow_super_def)
  next
    case (Some k)
    then have k: "k < toknext p" using assms(1) by (simp add: parser_ok_def)
    have "token_ok pos' (toknext p - k) ((tokens p ! k)\<lparr>tk_size := tk_size (tokens p ! k) + 1\<rparr>)"
      using old [OF k] k by (auto simp: token_ok_def)
    then show ?thesis
      using assms(1) q new k Some by (auto simp: parser_ok_def grow_super_def nth_list_update)
  qed
qed

section \<open>The loop\<close>

lemma last_open_Some: "last_open ts n = Some i \<Longrightarrow> i < n \<and> is_open (ts ! i)"
  by (induction n) (auto split: if_splits)

lemma last_open_None: "last_open ts n = None \<Longrightarrow> i < n \<Longrightarrow> \<not> is_open (ts ! i)"
  by (induction n) (auto simp: less_Suc_eq split: if_splits)

lemma open_bracket_ok:
  assumes "parser_ok n pos p" and "open_bracket n ty pos p = Inr q"
  shows "parser_ok n (Suc pos) q"
proof -
  obtain r where r: "add_token n (jsmn_token ty pos (-1)) p = Some r" "q = (grow_super r)\<lparr>toksuper := Some (toknext p)\<rparr>"
    using assms(2) by (auto simp: open_bracket_def split: option.splits)
  have "token_ok (Suc pos) 0 (jsmn_token ty pos (-1))" by (simp add: token_ok_def jsmn_token_def)
  from add_grow [OF assms(1) r(1) this] show ?thesis by (simp add: r(2) parser_ok_def)
qed

lemma close_bracket_ok:
  assumes "parser_ok n pos p" and "close_bracket ty pos p = Inr q"
  shows "parser_ok n (Suc pos) q"
proof -
  define ts where "ts i = (tokens p)[i := (tokens p ! i)\<lparr>tk_end := int (Suc pos)\<rparr>]" for i
  obtain i where i: "last_open (tokens p) (toknext p) = Some i" "q = p\<lparr>tokens := ts i, toksuper := last_open (ts i) i\<rparr>"
    using assms(2) by (auto simp: close_bracket_def ts_def Let_def split: option.splits if_splits)
  have l: "i < toknext p" using last_open_Some [OF i(1)] by simp
  have old: "token_ok (Suc pos) (toknext p - Suc j) (tokens p ! j)" if "j < toknext p" for j
    using assms(1) that token_ok_mono [of pos "toknext p - Suc j" "tokens p ! j" "Suc pos" "toknext p - Suc j"]
    by (simp add: parser_ok_def)
  have "length (tokens p) = Suc n" "toknext p \<le> n" using assms(1) by (simp_all add: parser_ok_def)
  then have "token_ok (Suc pos) (toknext p - Suc j) (ts i ! j)" if "j < toknext p" for j
    using that l old [OF that] by (cases "j = i") (auto simp: ts_def token_ok_def)
  moreover have "last_open (ts i) i = Some k \<Longrightarrow> k < toknext p" for k
    using last_open_Some l by fastforce
  ultimately show ?thesis using assms(1) l by (simp add: i(2) parser_ok_def) (simp add: ts_def)
qed

lemma scan_string_length: "scan_string cs = Inr k \<Longrightarrow> k < length cs"
  by (induction cs arbitrary: k rule: scan_string.induct) (auto split: if_splits sum.splits simp: map_sum_def elim!: less_SucI)

lemma scan_string_error: "scan_string cs \<noteq> Inl JSMN_SUCCESS"
  by (induction cs rule: scan_string.induct) (auto simp: map_sum_def split: sum.splits)

lemma scan_primitive_length: "scan_primitive cs = Some k \<Longrightarrow> k \<le> length cs"
  by (induction cs arbitrary: k) (auto split: if_splits)

lemma parse_string_ok:
  assumes "parser_ok n pos p" and "jsmn_parse_string n pos cs p = Inr (k, q)"
  shows "parser_ok n (Suc pos + k) (grow_super q)" and "k \<le> length cs"
proof -
  obtain j where j: "scan_string cs = Inr j" "k = Suc j" "add_token n (jsmn_token JSMN_STRING (Suc pos) (int (Suc pos + j))) p = Some q"
    using assms(2) by (auto simp: jsmn_parse_string_def split: sum.splits option.splits)
  have "token_ok (Suc pos + k) 0 (jsmn_token JSMN_STRING (Suc pos) (int (Suc pos + j)))" by (simp add: token_ok_def jsmn_token_def j)
  then show "parser_ok n (Suc pos + k) (grow_super q)" using add_grow [OF assms(1) j(3)] by simp
  show "k \<le> length cs" using scan_string_length [OF j(1)] j(2) by simp
qed

lemma parse_primitive_ok:
  assumes "parser_ok n pos p" and "jsmn_parse_primitive n pos (c # cs) p = Inr (k, q)" and "0 < k"
  shows "parser_ok n (pos + k) (grow_super q)" and "k \<le> length (c # cs)"
proof -
  have j: "scan_primitive (c # cs) = Some k" "add_token n (jsmn_token JSMN_PRIMITIVE pos (int (pos + k))) p = Some q"
    using assms(2) by (auto simp: jsmn_parse_primitive_def simp del: scan_primitive.simps split: option.splits)
  have "token_ok (pos + k) 0 (jsmn_token JSMN_PRIMITIVE pos (int (pos + k)))" using assms(3) by (simp add: token_ok_def jsmn_token_def)
  then show "parser_ok n (pos + k) (grow_super q)" using add_grow [OF assms(1) j(2)] by simp
  show "k \<le> length (c # cs)" using scan_primitive_length [OF j(1)] .
qed

text \<open>The tokens after a text of length \<open>l\<close> has been read without error.\<close>

definition good_tokens :: "nat \<Rightarrow> jsmntok list \<Rightarrow> bool" where
  "good_tokens l ts \<longleftrightarrow> (\<exists>m < length ts.
     (\<forall>i < m. is_valid_token (ts ! i) \<and> 0 \<le> tk_start (ts ! i) \<and> tk_start (ts ! i) \<le> tk_end (ts ! i) \<and>
        tk_end (ts ! i) \<le> int l \<and> 0 \<le> tk_size (ts ! i) \<and> tk_size (ts ! i) \<le> int (m - Suc i)) \<and>
     (\<forall>i < length ts. m \<le> i \<longrightarrow> ts ! i = zero_token))"

lemma jsmn_loop_good:
  "jsmn_loop n pos cs p = (JSMN_SUCCESS, q) \<Longrightarrow> parser_ok n pos p \<Longrightarrow> good_tokens (pos + length cs) (tokens q)"
proof (induction n pos cs p rule: jsmn_loop.induct)
  case (1 n pos p)
  then have q: "q = p" "last_open (tokens p) (toknext p) = None" by (auto split: if_splits)
  have "tk_end (tokens p ! i) \<noteq> -1" if "i < toknext p" for i
    using last_open_None [OF q(2) that] 1(2) that by (auto simp: is_open_def parser_ok_def token_ok_def)
  then show ?case
    using 1(2) q(1) by (auto simp: good_tokens_def parser_ok_def token_ok_def is_valid_token_def intro!: exI [of _ "toknext p"])
next
  case (2 n pos c cs p)
  note IH = 2(1-5) and run = 2(6) and ok = 2(7)
  consider "c = CHR ''{'' \<or> c = CHR ''[''" | "c = CHR ''}'' \<or> c = CHR '']''" | "c = CHR 0x22" | "blank c"
    | "\<not> blank c" "c \<notin> {CHR ''{'', CHR ''['', CHR ''}'', CHR '']'', CHR 0x22}" by blast
  then show ?case
  proof cases
    case 1
    then obtain r where r: "open_bracket n (if c = CHR ''{'' then JSMN_OBJECT else JSMN_ARRAY) pos p = Inr r"
      "jsmn_loop n (Suc pos) cs r = (JSMN_SUCCESS, q)"
      using run by (auto simp: open_bracket_def split: sum.splits option.splits)
    show ?thesis using IH(1) [OF 1 r(1) r(2) open_bracket_ok [OF ok r(1)]] by simp
  next
    case c: 2
    then have n: "\<not> (c = CHR ''{'' \<or> c = CHR ''['')" by auto
    with c obtain r where r: "close_bracket (if c = CHR ''}'' then JSMN_OBJECT else JSMN_ARRAY) pos p = Inr r"
      "jsmn_loop n (Suc pos) cs r = (JSMN_SUCCESS, q)"
      using run by (auto simp: close_bracket_def Let_def split: sum.splits option.splits if_splits)
    show ?thesis using IH(2) [OF n c r(1) r(2) close_bracket_ok [OF ok r(1)]] by simp
  next
    case c: 3
    then have n: "\<not> (c = CHR ''{'' \<or> c = CHR ''['')" "\<not> (c = CHR ''}'' \<or> c = CHR '']'')" by auto
    obtain k r where r: "jsmn_parse_string n pos cs p = Inr (k, r)" "jsmn_loop n (Suc pos + k) (drop k cs) (grow_super r) = (JSMN_SUCCESS, q)"
      using run c n by (auto simp: scan_string_error jsmn_parse_string_def jsmn_parse_primitive_def split: sum.splits option.splits)
    show ?thesis using IH(3) [OF n c r(1) refl r(2) parse_string_ok(1) [OF ok r(1)]] parse_string_ok(2) [OF ok r(1)] by simp
  next
    case c: 4
    then have n: "\<not> (c = CHR ''{'' \<or> c = CHR ''['')" "\<not> (c = CHR ''}'' \<or> c = CHR '']'')" "c \<noteq> CHR 0x22" by (auto simp: blank_def)
    then have r: "jsmn_loop n (Suc pos) cs p = (JSMN_SUCCESS, q)" using run c by simp
    show ?thesis using IH(4) [OF n c r parser_ok_mono [OF ok]] by simp
  next
    case c: 5
    then have n: "\<not> (c = CHR ''{'' \<or> c = CHR ''['')" "\<not> (c = CHR ''}'' \<or> c = CHR '']'')" "c \<noteq> CHR 0x22" by auto
    obtain k r where r: "jsmn_parse_primitive n pos (c # cs) p = Inr (k, r)"
      "jsmn_loop n (pos + k) (drop k (c # cs)) (grow_super r) = (JSMN_SUCCESS, q)"
      using run c n by (auto simp: scan_string_error jsmn_parse_string_def jsmn_parse_primitive_def split: sum.splits option.splits)
    have k: "0 < k" using primitive_progress [OF r(1)] c by auto
    show ?thesis
      using IH(5) [OF n c(1) r(1) refl r(2) parse_primitive_ok(1) [OF ok r(1) k]] parse_primitive_ok(2) [OF ok r(1) k] by simp
  qed
qed

lemma jsmn_good:
  "jsmn_parse cs n (jsmn_init (Suc n)) = (JSMN_SUCCESS, p) \<Longrightarrow> good_tokens (length cs) (tokens p)"
  using jsmn_loop_good [of n 0 cs "jsmn_init (Suc n)" p] parser_ok_init by (simp add: jsmn_parse_def)

section \<open>The pointer of the interpreter\<close>

lemma token_ptr_simps [simp]:
  "token_ptr (consume s) = Suc (token_ptr s)" "token_ptr (call c s) = token_ptr s" "token_ptr (call_if b c s) = token_ptr s"
  "token_ptr (snd (json_token_to_str t s)) = token_ptr s" "token_ptr (snd (new_context x s)) = token_ptr s"
  by (simp_all add: consume_def call_def call_if_def json_token_to_str_def new_context_def)

lemma js_simps [simp]:
  "js (consume s) = js s" "js (call c s) = js s" "js (call_if b c s) = js s" "js (snd (new_context x s)) = js s"
  by (simp_all add: consume_def call_def call_if_def new_context_def)

lemma token_here: "token_ptr s < length ts \<Longrightarrow> token ts s = Some (ts ! token_ptr s)"
  by (simp add: token_def)

section \<open>The length of the strings\<close>

text \<open>Terminating a token never makes another string longer.\<close>

lemma takeWhile_update: "\<not> P z \<Longrightarrow> length (takeWhile P (xs[i := z])) \<le> length (takeWhile P xs)"
  by (induction xs arbitrary: i) (auto split: nat.split)

lemma takeWhile_stops: "i < length xs \<Longrightarrow> \<not> P (xs ! i) \<Longrightarrow> length (takeWhile P xs) \<le> i"
  by (induction xs arbitrary: i) (auto simp: less_Suc_eq_0_disj nth_Cons split: nat.splits)

lemma c_string_update: "length (c_string (buf[i := CHR 0x00]) k) \<le> length (c_string buf k)"
proof (cases "i < k")
  case False
  then have "drop k (buf[i := CHR 0x00]) = (drop k buf)[i - k := CHR 0x00]" by (simp add: drop_update_swap)
  then show ?thesis by (simp add: c_string_def takeWhile_update)
qed (simp add: c_string_def)

lemma c_string_end:
  assumes "k \<le> e" and "e < length buf" shows "length (c_string (buf[e := CHR 0x00]) k) \<le> e - k"
  unfolding c_string_def using assms by (intro takeWhile_stops) simp_all

text \<open>The strings of the tokens are shorter than a name may be, and end inside of a buffer of \<open>N\<close> characters.\<close>

definition strings_short :: "nat \<Rightarrow> jsmntok list \<Rightarrow> bool" where
  "strings_short N ts \<longleftrightarrow> (\<forall>t \<in> set ts. is_token JSMN_STRING t \<longrightarrow>
     0 \<le> tk_start t \<and> tk_start t \<le> tk_end t \<and> tk_end t < int N \<and> tk_end t - tk_start t < int MYREFL_MAX_NAME_LEN)"

text \<open>The attributes that will be copied are short; \<open>keys\<close> names them.\<close>

definition short :: "nat \<Rightarrow> ('a \<Rightarrow> nat option list) \<Rightarrow> 'a \<Rightarrow> json \<Rightarrow> bool" where
  "short N keys a s \<longleftrightarrow> length (js s) = N \<and>
     (\<forall>k. Some k \<in> set (keys a) \<longrightarrow> length (c_string (js s) k) < MYREFL_MAX_NAME_LEN)"

lemma short_same: "js s' = js s \<Longrightarrow> short N keys a s' = short N keys a s"
  by (simp add: short_def)

lemma short_simps [simp]:
  "short N keys a (consume s) = short N keys a s"
  by (simp add: short_def)

lemma short_to_str:
  assumes "short N keys a s" shows "short N keys a (snd (json_token_to_str t s))"
  using assms le_less_trans [OF c_string_update] by (auto simp: short_def json_token_to_str_def)

lemma short_put:
  assumes "short N keys a s" and "strings_short N ts" and "t \<in> set ts" and "is_token JSMN_STRING t"
    and "set (keys b) \<subseteq> insert (Some (fst (json_token_to_str t s))) (set (keys a))"
  shows "short N keys b (snd (json_token_to_str t s))"
proof -
  have "0 \<le> tk_start t" "tk_start t \<le> tk_end t" "tk_end t < int N" "tk_end t - tk_start t < int MYREFL_MAX_NAME_LEN"
    using assms(2,3,4) by (auto simp: strings_short_def)
  moreover have "length (js s) = N" using assms(1) by (simp add: short_def)
  ultimately have "length (c_string ((js s)[nat (tk_end t) := CHR 0x00]) (nat (tk_start t))) < MYREFL_MAX_NAME_LEN"
    by (intro le_less_trans [OF c_string_end]) auto
  then show ?thesis
    using short_to_str [OF assms(1), of t] assms(5) by (fastforce simp: short_def json_token_to_str_def)
qed

section \<open>The loop over the attributes\<close>

text \<open>A body returns, consumes at most \<open>b\<close> tokens and keeps the attributes short.\<close>

definition body_ok :: "jsmntok list \<Rightarrow> nat \<Rightarrow> ('a \<Rightarrow> nat option list) \<Rightarrow> nat \<Rightarrow> ('a \<Rightarrow> json \<Rightarrow> (bool \<times> 'a \<times> json) option) \<Rightarrow> bool" where
  "body_ok ts N keys b body \<longleftrightarrow> (\<forall>a s. token_ptr s + b \<le> length ts \<longrightarrow> short N keys a s \<longrightarrow>
     (\<exists>go a' s'. body a s = Some (go, a', s') \<and> token_ptr s \<le> token_ptr s' \<and> token_ptr s' \<le> token_ptr s + b \<and>
        short N keys a' s'))"

lemma attributes_ok:
  assumes "body_ok ts N keys b body"
  shows "token_ptr s + b * k \<le> length ts \<Longrightarrow> short N keys a s \<Longrightarrow>
    \<exists>ret' a' s'. attributes k body ret a s = Some (ret', a', s') \<and> token_ptr s \<le> token_ptr s' \<and>
      token_ptr s' \<le> token_ptr s + b * k \<and> short N keys a' s'"
proof (induction k arbitrary: ret a s)
  case (Suc k)
  have "token_ptr s + b \<le> length ts" using Suc.prems by simp
  then obtain go a1 s1 where 1: "body a s = Some (go, a1, s1)" "token_ptr s \<le> token_ptr s1" "token_ptr s1 \<le> token_ptr s + b"
    "short N keys a1 s1"
    using assms Suc.prems(2) unfolding body_ok_def by blast
  show ?case
  proof (cases go)
    case True
    obtain ret' a' s' where "attributes k body True a1 s1 = Some (ret', a', s')" "token_ptr s1 \<le> token_ptr s'"
      "token_ptr s' \<le> token_ptr s1 + b * k" "short N keys a' s'"
      using Suc.IH [of s1 a1 True] Suc.prems 1(3,4) by auto
    then show ?thesis using 1 True by auto
  next
    case False
    then show ?thesis using 1 by auto
  qed
qed simp

text \<open>How bodies are put together.\<close>

lemma body_ok_next:
  assumes "\<And>t a s. t \<in> set ts \<Longrightarrow> short N keys a s \<Longrightarrow>
    token_ptr s \<le> token_ptr (snd (snd (g t a s))) \<and> token_ptr (snd (snd (g t a s))) \<le> Suc (token_ptr s) \<and>
    short N keys (fst (snd (g t a s))) (snd (snd (g t a s)))"
  shows "body_ok ts N keys 2 (\<lambda>a s. Option.bind (token ts (consume s)) (\<lambda>t. Some (g t a (consume s))))"
  unfolding body_ok_def
proof (intro allI impI)
  fix a and s :: json assume s: "token_ptr s + 2 \<le> length ts" "short N keys a s"
  then have t: "token ts (consume s) = Some (ts ! Suc (token_ptr s))" by (simp add: token_here)
  obtain go a2 s2 where "g (ts ! Suc (token_ptr s)) a (consume s) = (go, a2, s2)" by (cases "g (ts ! Suc (token_ptr s)) a (consume s)") auto
  moreover have "ts ! Suc (token_ptr s) \<in> set ts" using s(1) by simp
  ultimately show "\<exists>go a' s'. Option.bind (token ts (consume s)) (\<lambda>t. Some (g t a (consume s))) = Some (go, a', s') \<and>
      token_ptr s \<le> token_ptr s' \<and> token_ptr s' \<le> token_ptr s + 2 \<and> short N keys a' s'"
    using assms [of "ts ! Suc (token_ptr s)" a "consume s"] s(2) by (auto simp: t)
qed

lemma body_ok_token:
  assumes "\<And>t. body_ok ts N keys 2 (f t)"
  shows "body_ok ts N keys 2 (\<lambda>a s. Option.bind (token ts s) (\<lambda>t. f t a s))"
  using assms by (simp add: body_ok_def token_here)

lemma body_ok_if: "body_ok ts N keys 2 f \<Longrightarrow> body_ok ts N keys 2 g \<Longrightarrow> body_ok ts N keys 2 (\<lambda>a s. if P a s then f a s else g a s)"
  by (simp add: body_ok_def)

lemma body_ok_return: "body_ok ts N keys 2 (\<lambda>a s. Some (go, a, s))" "body_ok ts N keys 2 (\<lambda>a s. Some (go, a, consume s))"
  by (simp_all add: body_ok_def)

lemma text_token_next:
  "Option.bind (text_token ty ts s) (\<lambda>(p, s). Some (h p s)) =
   Option.bind (token ts s) (\<lambda>t. Some (if is_token ty t then h (Some (fst (json_token_to_str t s))) (consume (snd (json_token_to_str t s)))
     else h None s))"
  by (cases "token ts s") (simp_all add: text_token_def json_token_to_str_def)

text \<open>\<open>put\<close> stores a position among the keys, or somewhere else.\<close>

lemma values_ok:
  assumes "strings_short N ts" and "\<And>k a. set (keys (put k a)) \<subseteq> insert (Some k) (set (keys a))"
  shows "body_ok ts N keys 2 (string_needed ts put)" "body_ok ts N keys 2 (string_optional ts put)" "body_ok ts N keys 2 (string_skipped ts put)"
proof -
  have p: "short N keys (put (fst (json_token_to_str t s)) a) (snd (json_token_to_str t s))"
    if "short N keys a s" "t \<in> set ts" "is_token JSMN_STRING t" for a s t
    by (rule short_put [where keys = keys and a = a and ts = ts and t = t]) (use that assms in auto)
  show "body_ok ts N keys 2 (string_needed ts put)" "body_ok ts N keys 2 (string_optional ts put)"
    "body_ok ts N keys 2 (string_skipped ts put)"
    unfolding string_needed_def [abs_def] string_optional_def [abs_def] string_skipped_def [abs_def] text_token_next Let_def
    by (rule body_ok_next, simp add: p case_prod_beta)+
qed

lemma short_keys: "short N keys a s \<Longrightarrow> keys b = keys a \<Longrightarrow> short N keys b s"
  by (simp add: short_def)

lemma words_ok:
  assumes "\<And>v a. keys (put v a) = keys a"
  shows "body_ok ts N keys 2 (number_optional ts put)"
proof -
  have k: "short N keys (put v a) s" if "short N keys a s" for v a s
    by (rule short_keys [where keys = keys and a = a]) (use that assms in auto)
  show ?thesis
    unfolding number_optional_def [abs_def] text_token_next Let_def
    by (rule body_ok_next, simp add: k short_to_str)
qed

lemma known_words_ok:
  assumes "\<And>v a. keys (put v a) = keys a"
  shows "body_ok ts N keys 2 (word_optional names ts put)"
proof -
  have k: "short N keys (put v a) s" if "short N keys a s" for v a s
    by (rule short_keys [where keys = keys and a = a]) (use that assms in auto)
  show ?thesis
    unfolding word_optional_def [abs_def] Let_def
    by (rule body_ok_next, simp add: k short_to_str split: option.split)
qed

definition test_keys :: "test_attrs \<Rightarrow> nat option list" where "test_keys a = [ta_name a]"
definition no_keys :: "'a \<Rightarrow> nat option list" where "no_keys a = []"
definition email_keys :: "email_attrs \<Rightarrow> nat option list" where "email_keys a = [em_to a, em_subject a, em_command a]"
definition instance_keys :: "instance_attrs \<Rightarrow> nat option list" where "instance_keys a = [ia_object a]"

lemmas keys_defs = test_keys_def no_keys_def email_keys_def instance_keys_def

lemma special_ok:
  "body_ok ts N test_keys 2 (polled_attribute ts)" "body_ok ts N test_keys 2 (interval_attribute ts)"
  "body_ok ts N instance_keys 2 (delete_attribute ts)" "body_ok ts N no_keys 2 (result_word ts)"
proof -
  note k = short_keys [of N, OF short_to_str] short_keys [of N]
  show "body_ok ts N test_keys 2 (polled_attribute ts)" "body_ok ts N test_keys 2 (interval_attribute ts)"
    "body_ok ts N instance_keys 2 (delete_attribute ts)" "body_ok ts N no_keys 2 (result_word ts)"
    unfolding polled_attribute_def [abs_def] interval_attribute_def [abs_def] delete_attribute_def [abs_def]
      result_word_def [abs_def] Let_def
    by (rule body_ok_next, (auto simp: case_prod_beta keys_defs intro: k split: option.split)[])+
qed

lemma attributes_of_objects:
  assumes "strings_short N ts"
  shows "body_ok ts N test_keys 2 (test_attribute ts)" "body_ok ts N no_keys 2 (comp_attribute ts)"
    "body_ok ts N no_keys 2 (rule_attribute ts)" "body_ok ts N (\<lambda>a. [a]) 2 (action_attribute ts)"
    "body_ok ts N email_keys 2 (email_attribute ts)" "body_ok ts N instance_keys 2 (instance_attribute ts)"
    "body_ok ts N no_keys 2 (result_attribute ts)"
  unfolding test_attribute_def [abs_def] comp_attribute_def [abs_def] rule_attribute_def [abs_def] action_attribute_def [abs_def]
    email_attribute_def [abs_def] instance_attribute_def [abs_def] result_attribute_def [abs_def] Let_def
  by ((rule body_ok_token body_ok_if body_ok_return values_ok [OF assms] words_ok known_words_ok special_ok | simp add: keys_defs | blast)+)[7]

section \<open>Commands\<close>

text \<open>A parser returns, with its pointer at most at the token that ends the array, and the buffer keeps its length.\<close>

definition stays :: "nat \<Rightarrow> nat \<Rightarrow> (json \<Rightarrow> (bool \<times> json) option) \<Rightarrow> bool" where
  "stays N m f \<longleftrightarrow> (\<forall>s. token_ptr s \<le> m \<longrightarrow> length (js s) = N \<longrightarrow>
     (\<exists>ret s'. f s = Some (ret, s') \<and> token_ptr s \<le> token_ptr s' \<and> token_ptr s' \<le> m \<and> length (js s') = N))"

text \<open>\<open>m\<close> tokens in use.\<close>

definition tokens_in_use :: "nat \<Rightarrow> jsmntok list \<Rightarrow> bool" where
  "tokens_in_use m ts \<longleftrightarrow> m < length ts \<and> \<not> is_valid_token (ts ! m) \<and>
     (\<forall>i < m. is_valid_token (ts ! i) \<and> tk_size (ts ! i) \<le> int (m - Suc i))"

lemma good_tokens_in_use:
  assumes "good_tokens l ts" shows "\<exists>m. tokens_in_use m ts"
proof -
  obtain m where m: "m < length ts" "\<And>i. i < m \<Longrightarrow> is_valid_token (ts ! i) \<and> tk_size (ts ! i) \<le> int (m - Suc i)"
    "\<And>i. i < length ts \<Longrightarrow> m \<le> i \<Longrightarrow> ts ! i = zero_token"
    using assms unfolding good_tokens_def by blast
  have "\<not> is_valid_token (ts ! m)" using m(3) [OF m(1)] by (simp add: zero_token_def is_valid_token_def)
  then show ?thesis using m(1,2) unfolding tokens_in_use_def by blast
qed

text \<open>The strings of a text are short when the tokens say so.\<close>

lemma good_tokens_short:
  assumes "good_tokens l ts" and "\<forall>t \<in> set ts. tk_type t = JSMN_STRING \<longrightarrow> tk_end t - tk_start t < int MYREFL_MAX_NAME_LEN"
  shows "strings_short (Suc l) ts"
  unfolding strings_short_def
proof (intro ballI impI)
  fix t assume t: "t \<in> set ts" "is_token JSMN_STRING t"
  then obtain i where i: "i < length ts" "t = ts ! i" by (auto simp: in_set_conv_nth)
  then have "0 \<le> tk_start t \<and> tk_start t \<le> tk_end t \<and> tk_end t \<le> int l"
    using assms(1) t(2) unfolding good_tokens_def is_token_def is_valid_token_def zero_token_def
    by (metis jsmntok.simps(3) less_irrefl not_le_imp_less)
  then show "0 \<le> tk_start t \<and> tk_start t \<le> tk_end t \<and> tk_end t < int (Suc l) \<and> tk_end t - tk_start t < int MYREFL_MAX_NAME_LEN"
    using assms(2) t by (simp add: is_token_def)
qed

text \<open>What a command does with its attributes: it returns, and leaves pointer and buffer alone.\<close>

definition runs :: "nat \<Rightarrow> ('a \<Rightarrow> nat option list) \<Rightarrow> ('a \<Rightarrow> json \<Rightarrow> json option) \<Rightarrow> bool" where
  "runs N keys run \<longleftrightarrow> (\<forall>a s. short N keys a s \<longrightarrow>
     (\<exists>s'. run a s = Some s' \<and> token_ptr s' = token_ptr s \<and> js s' = js s))"

lemma object_stays:
  assumes "tokens_in_use m ts" and "body_ok ts N keys 2 (body ts)" and "runs N keys run" and "set (keys a) \<subseteq> {None}"
  shows "stays N m (parse_object none body a run ts)"
  unfolding stays_def
proof (intro allI impI)
  fix s :: json assume s: "token_ptr s \<le> m" "length (js s) = N"
  let ?t = "ts ! token_ptr s"
  have t: "token ts s = Some ?t" using assms(1) s by (simp add: token_here tokens_in_use_def)
  show "\<exists>ret s'. parse_object none body a run ts s = Some (ret, s') \<and> token_ptr s \<le> token_ptr s' \<and> token_ptr s' \<le> m \<and>
      length (js s') = N"
  proof (cases "is_token JSMN_OBJECT ?t")
    case True
    then have l: "token_ptr s < m"
      using assms(1) s by (cases "token_ptr s = m") (auto simp: tokens_in_use_def is_token_def)
    then have "tk_size ?t \<le> int (m - Suc (token_ptr s))" "m < length ts" using assms(1) by (auto simp: tokens_in_use_def)
    then have room: "Suc (token_ptr s) + 2 * nat (tk_size ?t div 2) \<le> m" using l by linarith
    then have r: "token_ptr (consume s) + 2 * nat (tk_size ?t div 2) \<le> length ts" using \<open>m < length ts\<close> by simp
    have "short N keys a (consume s)" using assms(4) s(2) by (auto simp: short_def)
    from attributes_ok [OF assms(2) r this, of none] obtain ret a' s' where
      b: "attributes (nat (tk_size ?t div 2)) (body ts) none a (consume s) = Some (ret, a', s')"
      "Suc (token_ptr s) \<le> token_ptr s'" "token_ptr s' \<le> Suc (token_ptr s) + 2 * nat (tk_size ?t div 2)" "short N keys a' s'"
      by auto
    obtain s2 where "run a' s' = Some s2" "token_ptr s2 = token_ptr s'" "js s2 = js s'"
      using assms(3) b(4) unfolding runs_def by blast
    then show ?thesis using True room b by (auto simp: parse_object_def t short_def)
  next
    case False
    then show ?thesis using s by (simp add: parse_object_def t)
  qed
qed

lemma name_fits: "length n < MYREFL_MAX_NAME_LEN \<Longrightarrow> sstrncpy n MYREFL_MAX_NAME_LEN = Some n"
  by (simp add: sstrncpy_fits MYREFL_MAX_NAME_LEN_def)

lemma test_context_fits:
  assumes "length module < MYREFL_MAX_NAME_LEN" and "length (c_string (js s) k) < MYREFL_MAX_NAME_LEN"
  shows "test_context module (Some k) s = Some (new_context (Test_context module (c_string (js s) k)) s)"
  using assms by (simp add: test_context_def arg_def name_fits)

lemma email_field_fits:
  "short N email_keys a s \<Longrightarrow> p \<in> {em_to a, em_subject a, em_command a} \<Longrightarrow> MYREFL_MAX_NAME_LEN \<le> n \<Longrightarrow> n < 2 ^ 64 \<Longrightarrow>
     email_field (arg s p) n = Some (case arg s p of None \<Rightarrow> [] | Some v \<Rightarrow> v)"
  by (cases p) (auto simp: email_field_def arg_def short_def email_keys_def sstrncpy_fits MYREFL_MAX_NAME_LEN_def)

lemma creates_run:
  assumes "length module < MYREFL_MAX_NAME_LEN"
  shows "runs N test_keys (create_test module)" "runs N no_keys create_comp" "runs N no_keys create_rule"
    "runs N (\<lambda>a. [a]) (create_action module)" "runs N email_keys create_email" "runs N instance_keys (create_instance module)"
    "runs N no_keys notify_test"
proof -
  note c = test_context_fits [OF assms]
  show "runs N test_keys (create_test module)"
    by (auto simp: runs_def create_test_def short_def test_keys_def c case_prod_beta Let_def)
  show "runs N no_keys create_comp" by (simp add: runs_def create_comp_def)
  show "runs N no_keys create_rule" by (simp add: runs_def create_rule_def Let_def)
  show "runs N (\<lambda>a. [a]) (create_action module)"
    by (auto simp: runs_def create_action_def short_def c case_prod_beta)
  show "runs N instance_keys (create_instance module)"
    by (auto simp: runs_def create_instance_def short_def instance_keys_def c case_prod_beta)
  show "runs N no_keys notify_test" by (simp add: runs_def notify_test_def)
  show "runs N email_keys create_email"
    unfolding runs_def
  proof (intro allI impI)
    fix a and s :: json assume "short N email_keys a s"
    note f = email_field_fits [OF this]
    show "\<exists>s'. create_email a s = Some s' \<and> token_ptr s' = token_ptr s \<and> js s' = js s"
      by (simp add: create_email_def f EMAIL_TO_MAX_def EMAIL_SUBJECT_MAX_def EMAIL_COMMAND_MAX_def MYREFL_MAX_NAME_LEN_def
          case_prod_beta Let_def)
  qed
qed

lemma ready_stays:
  assumes "tokens_in_use m ts"
  shows "stays N m (parse_test_ready ts)"
  unfolding stays_def
proof (intro allI impI)
  fix s :: json assume s: "token_ptr s \<le> m" "length (js s) = N"
  let ?t = "ts ! token_ptr s"
  have t: "token ts s = Some ?t" using assms s by (simp add: token_here tokens_in_use_def)
  have b: "body_ok ts N no_keys 1 (ready_element ts)"
    by (auto simp: body_ok_def ready_element_def token_here split_def Let_def short_def no_keys_def json_token_to_str_def)
  show "\<exists>ret s'. parse_test_ready ts s = Some (ret, s') \<and> token_ptr s \<le> token_ptr s' \<and> token_ptr s' \<le> m \<and> length (js s') = N"
  proof (cases "is_token JSMN_ARRAY ?t")
    case True
    then have l: "token_ptr s < m"
      using assms s by (cases "token_ptr s = m") (auto simp: tokens_in_use_def is_token_def)
    then have "tk_size ?t \<le> int (m - Suc (token_ptr s))" "m < length ts" using assms by (auto simp: tokens_in_use_def)
    then have room: "Suc (token_ptr s) + nat (tk_size ?t) \<le> m" using l by linarith
    then have r: "token_ptr (consume s) + 1 * nat (tk_size ?t) \<le> length ts" using \<open>m < length ts\<close> by simp
    have "short N no_keys () (consume s)" using s(2) by (simp add: short_def no_keys_def)
    from attributes_ok [OF b r this, of False] obtain ret a' s' where
      "attributes (nat (tk_size ?t)) (ready_element ts) False () (consume s) = Some (ret, a', s')"
      "Suc (token_ptr s) \<le> token_ptr s'" "token_ptr s' \<le> Suc (token_ptr s) + nat (tk_size ?t)" "short N no_keys a' s'" by auto
    then show ?thesis using True room by (simp add: parse_test_ready_def t short_def)
  next
    case False
    then have "parse_test_ready ts s = Some (False, s)" by (simp add: parse_test_ready_def t)
    then show ?thesis using s by blast
  qed
qed

lemmas parser_defs = parse_test_def parse_comp_def parse_rule_def parse_action_def parse_email_def parse_instance_def parse_result_def

lemma parsers_stay:
  assumes "tokens_in_use m ts" and "strings_short N ts" and "length module < MYREFL_MAX_NAME_LEN"
  shows "stays N m (parse_test module ts)" "stays N m (parse_comp ts)" "stays N m (parse_rule ts)" "stays N m (parse_action module ts)"
    "stays N m (parse_email ts)" "stays N m (parse_instance module ts)" "stays N m (parse_result ts)"
proof -
  note use = object_stays [where ts = ts and N = N, OF assms(1)]
  note a = attributes_of_objects [OF assms(2)] and c = creates_run [OF assms(3), of N]
  show "stays N m (parse_test module ts)"
    unfolding parse_test_def by (rule use [where body = test_attribute, OF a(1) c(1)]) (simp add: test_keys_def)
  show "stays N m (parse_comp ts)"
    unfolding parse_comp_def by (rule use [where body = comp_attribute, OF a(2) c(2)]) (simp add: no_keys_def)
  show "stays N m (parse_rule ts)"
    unfolding parse_rule_def by (rule use [where body = rule_attribute, OF a(3) c(3)]) (simp add: no_keys_def)
  show "stays N m (parse_action module ts)"
    unfolding parse_action_def by (rule use [where body = action_attribute, OF a(4) c(4)]) simp
  show "stays N m (parse_email ts)"
    unfolding parse_email_def by (rule use [where body = email_attribute, OF a(5) c(5)]) (simp add: email_keys_def)
  show "stays N m (parse_instance module ts)"
    unfolding parse_instance_def by (rule use [where body = instance_attribute, OF a(6) c(6)]) (simp add: instance_keys_def)
  show "stays N m (parse_result ts)"
    unfolding parse_result_def by (rule use [where body = result_attribute, OF a(7) c(7)]) (simp add: no_keys_def)
qed

text \<open>Tokens that the interpreter of a module can be given.\<close>

definition usable :: "nat \<Rightarrow> nat \<Rightarrow> jsmntok list \<Rightarrow> name \<Rightarrow> bool" where
  "usable N m ts module \<longleftrightarrow> tokens_in_use m ts \<and> strings_short N ts \<and> length module < MYREFL_MAX_NAME_LEN"

lemma command_advances:
  assumes m: "usable N m ts module" and s: "token_ptr s < m" "length (js s) = N"
  shows "\<exists>ret s'. parse_command module ts s = Some (ret, s') \<and> token_ptr s < token_ptr s' \<and> token_ptr s' \<le> m \<and> length (js s') = N"
proof -
  have u: "tokens_in_use m ts" "strings_short N ts" "length module < MYREFL_MAX_NAME_LEN" using m by (simp_all add: usable_def)
  have t: "token ts s = Some (ts ! token_ptr s)" using u(1) s by (simp add: token_here tokens_in_use_def)
  have "\<exists>ret s'. f (consume s) = Some (ret, s') \<and> token_ptr s < token_ptr s' \<and> token_ptr s' \<le> m \<and> length (js s') = N"
    if "stays N m f" for f
    using that s unfolding stays_def by (metis Suc_le_eq token_ptr_simps(1) js_simps(1))
  note p = this
  note q = parsers_stay [OF u]
  from p [OF q(1)] p [OF q(2)] p [OF q(3)] p [OF q(4)] p [OF q(5)] p [OF q(6)] p [OF q(7)] p [OF ready_stays [OF u(1)]]
  show ?thesis using s by (auto simp: parse_command_def t Let_def)
qed

lemma configuration_returns:
  assumes m: "usable N m ts module"
  shows "token_ptr s \<le> m \<Longrightarrow> length (js s) = N \<Longrightarrow> \<exists>r. parse_configuration module ts ret s = Some r"
proof (induction "m - token_ptr s" arbitrary: s ret rule: less_induct)
  case less
  have u: "tokens_in_use m ts" using m by (simp add: usable_def)
  have t: "token ts s = Some (ts ! token_ptr s)" using u less.prems by (simp add: token_here tokens_in_use_def)
  show ?case
  proof (cases "ret \<and> is_valid_token (ts ! token_ptr s)")
    case True
    then have l: "token_ptr s < m" using u less.prems by (cases "token_ptr s = m") (auto simp: tokens_in_use_def)
    obtain ok s' where c: "parse_command module ts s = Some (ok, s')" "token_ptr s < token_ptr s'" "token_ptr s' \<le> m" "length (js s') = N"
      using command_advances [OF m l less.prems(2)] by blast
    have "m - token_ptr s' < m - token_ptr s" using c(2) l by linarith
    then obtain r where "parse_configuration module ts ok s' = Some r" using less.hyps [of s' ok] c(3,4) by blast
    then show ?thesis using True c(1) by (subst parse_configuration.simps) (simp add: t)
  next
    case False
    then show ?thesis by (subst parse_configuration.simps) (auto simp: t)
  qed
qed

text \<open>The strings in the tokens of a request are shorter than \<open>l\<close> characters.\<close>

definition strings_below :: "nat \<Rightarrow> string \<Rightarrow> bool" where
  "strings_below l request =
     (let n = calc_max_tokens request; (e, p) = jsmn_parse request n (jsmn_init (Suc n))
      in e = JSMN_SUCCESS \<longrightarrow> list_all (\<lambda>t. tk_type t = JSMN_STRING \<longrightarrow> tk_end t - tk_start t < int l) (tokens p))"

text \<open>The interpretation ends when the name of the module and the strings of the request are short.\<close>

lemma interpretation_returns:
  assumes "length module < MYREFL_MAX_NAME_LEN" and "strings_below MYREFL_MAX_NAME_LEN request"
  shows "\<exists>r. interpret_request module request ctxs = Some r"
proof -
  define n where "n = calc_max_tokens request"
  obtain e p where j: "jsmn_parse request n (jsmn_init (Suc n)) = (e, p)" by (rule prod.exhaust)
  show ?thesis
  proof (cases "e = JSMN_SUCCESS")
    case True
    then have g: "good_tokens (length request) (tokens p)" using jsmn_good j by blast
    obtain m where m: "tokens_in_use m (tokens p)" using good_tokens_in_use [OF g] by blast
    have "\<forall>t \<in> set (tokens p). tk_type t = JSMN_STRING \<longrightarrow> tk_end t - tk_start t < int MYREFL_MAX_NAME_LEN"
      using assms(2) j True by (simp add: strings_below_def n_def list_all_iff)
    then have u: "usable (Suc (length request)) m (tokens p) module"
      using m assms(1) good_tokens_short [OF g] by (simp add: usable_def)
    define s where "s = \<lparr>js = request @ [CHR 0x00], token_ptr = 0, calls = [], contexts = ctxs\<rparr>"
    have t: "token (tokens p) s = Some (tokens p ! 0)" using m by (cases "tokens p") (simp_all add: token_here tokens_in_use_def s_def)
    have "token_ptr (if is_token JSMN_OBJECT (tokens p ! 0) then consume s else s) \<le> m"
      using m by (cases m) (auto simp: s_def tokens_in_use_def is_token_def)
    moreover have "length (js (if is_token JSMN_OBJECT (tokens p ! 0) then consume s else s)) = Suc (length request)"
      by (simp add: s_def)
    ultimately obtain r where "parse_request module (tokens p) s = Some r"
      using configuration_returns [OF u, of _ True] by (fastforce simp: parse_request_def t)
    then show ?thesis using True j by (cases r) (simp add: interpret_request_def n_def [symmetric] s_def)
  next
    case False
    then have "interpret_request module request ctxs = Some (False, [], ctxs)"
      using j by (simp add: interpret_request_def n_def [symmetric])
    then show ?thesis by blast
  qed
qed

end
