(* ===== verification/JsonText.thy ===== *)
theory JsonText
  imports JsonSafe
begin

text \<open>
  JSON text and its tokens. A value is written with any blanks between its parts (the tokeniser also takes a
  comma or a colon for a blank); the tokeniser finds exactly the tokens of the value.
\<close>

section \<open>Values, their text and their tokens\<close>

text \<open>A group is an object or an array; each of its values is followed by blanks. The members of an object are
  its keys and values in turn.\<close>

datatype json_value = Str string | Prim string | Group bool "(json_value \<times> string) list"

definition open_char :: "bool \<Rightarrow> char" where "open_char b = (if b then CHR ''{'' else CHR ''['')"
definition close_char :: "bool \<Rightarrow> char" where "close_char b = (if b then CHR ''}'' else CHR '']'')"
definition group_type :: "bool \<Rightarrow> jsmntype" where "group_type b = (if b then JSMN_OBJECT else JSMN_ARRAY)"

fun json_text :: "json_value \<Rightarrow> string" where
  "json_text (Str s) = CHR 0x22 # s @ [CHR 0x22]"
| "json_text (Prim s) = s"
| "json_text (Group b vs) = open_char b # concat (map (\<lambda>(v, sep). json_text v @ sep) vs) @ [close_char b]"

text \<open>The members of a group from a position on.\<close>

fun members :: "(nat \<Rightarrow> json_value \<Rightarrow> jsmntok list) \<Rightarrow> nat \<Rightarrow> (json_value \<times> string) list \<Rightarrow> jsmntok list" where
  "members f pos [] = []"
| "members f pos ((v, sep) # vs) = f pos v @ members f (pos + length (json_text v) + length sep) vs"

lemma members_cong [fundef_cong]:
  "vs = vs' \<Longrightarrow> pos = pos' \<Longrightarrow> (\<And>v k p. (v, k) \<in> set vs' \<Longrightarrow> f p v = f' p v) \<Longrightarrow> members f pos vs = members f' pos' vs'"
proof (induction vs arbitrary: vs' pos pos')
  case (Cons a vs)
  obtain v k where "a = (v, k)" by (rule prod.exhaust)
  then show ?case using Cons by fastforce
qed simp

fun json_tokens :: "nat \<Rightarrow> json_value \<Rightarrow> jsmntok list" where
  "json_tokens pos (Str s) = [jsmn_token JSMN_STRING (Suc pos) (int (Suc pos + length s))]"
| "json_tokens pos (Prim s) = [jsmn_token JSMN_PRIMITIVE pos (int (pos + length s))]"
| "json_tokens pos (Group b vs) =
     \<lparr>tk_type = group_type b, tk_start = int pos, tk_end = int (pos + length (json_text (Group b vs))), tk_size = int (length vs)\<rparr> #
     members json_tokens (Suc pos) vs"

text \<open>Text the tokeniser reads as written: no quote, backslash or zero in strings; primitives have no special character
  and are followed by a blank or the end of their group.\<close>

definition plain_string :: "string \<Rightarrow> bool" where
  "plain_string s \<longleftrightarrow> (\<forall>c \<in> set s. c \<noteq> CHR 0x22 \<and> c \<noteq> CHR 0x5C \<and> c \<noteq> CHR 0x00)"

definition plain_primitive :: "string \<Rightarrow> bool" where
  "plain_primitive s \<longleftrightarrow> s \<noteq> [] \<and> (\<forall>c \<in> set s. primitive_char c \<and> \<not> primitive_stop c) \<and>
     hd s \<notin> {CHR ''{'', CHR ''['', CHR 0x22}"

fun is_prim :: "json_value \<Rightarrow> bool" where
  "is_prim (Prim s) = True" | "is_prim _ = False"

fun members_ok :: "(json_value \<Rightarrow> bool) \<Rightarrow> (json_value \<times> string) list \<Rightarrow> bool" where
  "members_ok f [] = True"
| "members_ok f ((v, sep) # vs) = (f v \<and> list_all blank sep \<and> (is_prim v \<longrightarrow> sep \<noteq> [] \<or> vs = []) \<and> members_ok f vs)"

lemma members_ok_cong [fundef_cong]:
  "vs = vs' \<Longrightarrow> (\<And>v k. (v, k) \<in> set vs' \<Longrightarrow> f v = f' v) \<Longrightarrow> members_ok f vs = members_ok f' vs'"
proof (induction vs arbitrary: vs')
  case (Cons a vs)
  obtain v k where "a = (v, k)" by (rule prod.exhaust)
  then show ?case using Cons by fastforce
qed simp

fun plain :: "json_value \<Rightarrow> bool" where
  "plain (Str s) = plain_string s"
| "plain (Prim s) = plain_primitive s"
| "plain (Group b vs) = members_ok plain vs"

section \<open>The parser after some tokens\<close>

definition parser_of :: "nat \<Rightarrow> jsmntok list \<Rightarrow> jsmn_parser" where
  "parser_of n us = \<lparr>toknext = length us, toksuper = last_open us (length us),
     tokens = us @ replicate (Suc n - length us) zero_token\<rparr>"

text \<open>The innermost open token counts one more.\<close>

definition counted :: "jsmntok list \<Rightarrow> jsmntok list" where
  "counted us = (case last_open us (length us) of
     None \<Rightarrow> us | Some k \<Rightarrow> us[k := (us ! k)\<lparr>tk_size := tk_size (us ! k) + 1\<rparr>])"

lemma last_open_append: "k \<le> length us \<Longrightarrow> last_open (us @ vs) k = last_open us k"
  by (induction k) (auto simp: nth_append)

lemma last_open_closed: "\<forall>t \<in> set vs. \<not> is_open t \<Longrightarrow> last_open (us @ vs) (length us + length vs) = last_open us (length us)"
proof (induction vs rule: rev_induct)
  case (snoc t vs)
  then show ?case using last_open_append [of "length us + length vs" "us @ vs" "[t]"] by (simp add: nth_append)
qed (simp add: last_open_append)

lemma length_counted [simp]: "length (counted us) = length us"
  by (simp add: counted_def split: option.split)

lemma last_open_cong: "(\<And>i. i < k \<Longrightarrow> is_open (us ! i) = is_open (vs ! i)) \<Longrightarrow> last_open us k = last_open vs k"
  by (induction k) auto

lemma open_counted: "i < length us \<Longrightarrow> is_open (counted us ! i) = is_open (us ! i)"
  using last_open_Some [of us "length us"] by (auto simp: counted_def is_open_def nth_list_update split: option.split)

lemma last_open_counted: "k \<le> length us \<Longrightarrow> last_open (counted us) k = last_open us k"
  by (rule last_open_cong) (simp add: open_counted)

lemma add_to_parser:
  assumes "length us < n"
  shows "add_token n t (parser_of n us) =
    Some \<lparr>toknext = Suc (length us), toksuper = last_open us (length us), tokens = us @ t # replicate (n - length us) zero_token\<rparr>"
  using assms by (simp add: add_token_def parser_of_def Suc_diff_le)

lemma grow_counts:
  "grow_super \<lparr>toknext = m, toksuper = last_open us (length us), tokens = us @ ts\<rparr> =
     \<lparr>toknext = m, toksuper = last_open us (length us), tokens = counted us @ ts\<rparr>"
  using last_open_Some [of us "length us"]
  by (auto simp: grow_super_def counted_def nth_append list_update_append split: option.split)

text \<open>A closed token is added.\<close>

lemma add_closed:
  assumes "length us < n" and "\<not> is_open t" and "add_token n t (parser_of n us) = Some q"
  shows "grow_super q = parser_of n (counted us @ [t])"
proof -
  have "last_open (counted us @ [t]) (Suc (length us)) = last_open us (length us)"
    using last_open_closed [of "[t]" "counted us"] assms(2) last_open_counted [of "length us" us] by simp
  then show ?thesis
    using assms(1,3) add_to_parser [OF assms(1), of t] grow_counts [of _ us]
    by (auto simp: parser_of_def)
qed

section \<open>Reading text\<close>

lemma scan_plain: "plain_string s \<Longrightarrow> scan_string (s @ CHR 0x22 # rest) = Inr (length s)"
proof (induction s)
  case Nil
  then show ?case by (cases rest) simp_all
next
  case (Cons c s)
  obtain d ds where d: "s @ CHR 0x22 # rest = d # ds" by (cases "s @ CHR 0x22 # rest") auto
  have "plain_string s" using Cons.prems by (simp add: plain_string_def)
  from Cons.IH [OF this] Cons.prems show ?case by (simp add: d plain_string_def)
qed

lemma scan_plain_primitive:
  "\<forall>c \<in> set s. primitive_char c \<and> \<not> primitive_stop c \<Longrightarrow> rest = [] \<or> primitive_stop (hd rest) \<Longrightarrow>
     scan_primitive (s @ rest) = Some (length s)"
  by (induction s) (cases rest; auto)+

lemma read_string:
  assumes "plain_string s" and "length us < n"
  shows "jsmn_loop n pos (json_text (Str s) @ rest) (parser_of n us) =
    jsmn_loop n (pos + length (json_text (Str s))) rest (parser_of n (counted us @ json_tokens pos (Str s)))"
proof -
  let ?t = "jsmn_token JSMN_STRING (Suc pos) (int (Suc pos + length s))"
  obtain q where q: "add_token n ?t (parser_of n us) = Some q" using add_to_parser [OF assms(2)] by blast
  have "\<not> is_open ?t" by (simp add: is_open_def jsmn_token_def)
  from add_closed [OF assms(2) this q] have g: "grow_super q = parser_of n (counted us @ [?t])" .
  have "jsmn_parse_string n pos (s @ CHR 0x22 # rest) (parser_of n us) = Inr (Suc (length s), q)"
    using q by (simp add: jsmn_parse_string_def scan_plain [OF assms(1)])
  then show ?thesis by (simp add: g)
qed

lemma read_primitive:
  assumes "plain_primitive s" and "length us < n" and "rest = [] \<or> primitive_stop (hd rest)"
  shows "jsmn_loop n pos (json_text (Prim s) @ rest) (parser_of n us) =
    jsmn_loop n (pos + length (json_text (Prim s))) rest (parser_of n (counted us @ json_tokens pos (Prim s)))"
proof -
  let ?t = "jsmn_token JSMN_PRIMITIVE pos (int (pos + length s))"
  obtain q where q: "add_token n ?t (parser_of n us) = Some q" using add_to_parser [OF assms(2)] by blast
  have "\<not> is_open ?t" by (simp add: is_open_def jsmn_token_def)
  from add_closed [OF assms(2) this q] have g: "grow_super q = parser_of n (counted us @ [?t])" .
  obtain c cs where s: "s = c # cs" using assms(1) by (cases s) (simp_all add: plain_primitive_def)
  have c: "c \<noteq> CHR ''{''" "c \<noteq> CHR ''[''" "c \<noteq> CHR 0x22" "\<not> primitive_stop c" "\<not> blank c" "c \<noteq> CHR ''}''" "c \<noteq> CHR '']''"
    using assms(1) by (auto simp: s plain_primitive_def primitive_stop_def blank_def)
  have "scan_primitive (c # cs @ rest) = Some (length s)"
    using scan_plain_primitive [of s rest] assms(1,3) by (simp add: s plain_primitive_def)
  then have "jsmn_parse_primitive n pos (c # cs @ rest) (parser_of n us) = Inr (length s, q)"
    using q by (simp add: jsmn_parse_primitive_def del: scan_primitive.simps)
  then show ?thesis using c by (simp add: g s)
qed

section \<open>Reading groups\<close>

text \<open>After the opening bracket its token is the innermost open one.\<close>

definition group_token :: "bool \<Rightarrow> nat \<Rightarrow> int \<Rightarrow> nat \<Rightarrow> jsmntok" where
  "group_token b pos e k = \<lparr>tk_type = group_type b, tk_start = int pos, tk_end = e, tk_size = int k\<rparr>"

lemma read_open:
  assumes "length us < n"
  shows "jsmn_loop n pos (open_char b # rest) (parser_of n us) = jsmn_loop n (Suc pos) rest (parser_of n (counted us @ [group_token b pos (-1) 0]))"
proof -
  let ?t = "group_token b pos (-1) 0"
  have t: "?t = jsmn_token (group_type b) pos (-1)" "is_open ?t" by (simp_all add: group_token_def jsmn_token_def is_open_def)
  have "open_bracket n (group_type b) pos (parser_of n us) = Inr (parser_of n (counted us @ [?t]))"
    using assms add_to_parser [OF assms, of ?t] grow_counts [of "Suc (length us)" us "?t # replicate (n - length us) zero_token"] t
    by (simp add: open_bracket_def parser_of_def nth_append)
  then show ?thesis by (auto simp: open_char_def group_type_def)
qed

lemma counted_inside:
  assumes "\<forall>t \<in> set ws. \<not> is_open t"
  shows "counted (vs @ group_token b pos (-1) k # ws) = vs @ group_token b pos (-1) (Suc k) # ws"
proof -
  have "last_open (vs @ group_token b pos (-1) k # ws) (length (vs @ group_token b pos (-1) k # ws)) = Some (length vs)"
    using last_open_closed [OF assms, of "vs @ [group_token b pos (-1) k]"]
    by (simp add: nth_append is_open_def group_token_def)
  then show ?thesis by (simp add: counted_def nth_append group_token_def)
qed

lemma read_close:
  assumes "\<forall>t \<in> set ws. \<not> is_open t"
  shows "jsmn_loop n pos (close_char b # rest) (parser_of n (vs @ group_token b start (-1) k # ws)) =
    jsmn_loop n (Suc pos) rest (parser_of n (vs @ group_token b start (int (Suc pos)) k # ws))"
proof -
  let ?o = "group_token b start (-1) k" and ?c = "group_token b start (int (Suc pos)) k"
  have open_at: "last_open (vs @ ?o # ws) (length (vs @ ?o # ws)) = Some (length vs)"
    using last_open_closed [OF assms, of "vs @ [?o]"] by (simp add: nth_append is_open_def group_token_def)
  have "\<not> is_open ?c" by (simp add: is_open_def group_token_def)
  then have after: "last_open (vs @ ?c # ws) (length (vs @ ?c # ws)) = last_open vs (length vs)"
    using last_open_closed [of "?c # ws" vs] assms by simp
  have cut: "last_open (vs @ ?c # ws @ zs) (length vs) = last_open vs (length vs)" for zs by (simp add: last_open_append)
  have "last_open (vs @ ?o # ws @ replicate m zero_token) (length (vs @ ?o # ws)) = Some (length vs)" for m
    using last_open_append [of "length (vs @ ?o # ws)" "vs @ ?o # ws" "replicate m zero_token"] open_at by simp
  then have "close_bracket (group_type b) pos (parser_of n (vs @ ?o # ws)) = Inr (parser_of n (vs @ ?c # ws))"
    using after cut by (simp add: close_bracket_def parser_of_def Let_def group_token_def nth_append)
  then show ?thesis by (auto simp: close_char_def group_type_def)
qed

lemma read_blanks: "list_all blank sep \<Longrightarrow> jsmn_loop n pos (sep @ rest) p = jsmn_loop n (pos + length sep) rest p"
proof (induction sep arbitrary: pos)
  case (Cons c sep)
  then have "c \<noteq> CHR ''{''" "c \<noteq> CHR ''[''" "c \<noteq> CHR 0x22" "c \<noteq> CHR ''}''" "c \<noteq> CHR '']''" "blank c" by (auto simp: blank_def)
  then show ?case using Cons by simp
qed simp

lemma tokens_closed: "t \<in> set (json_tokens pos v) \<Longrightarrow> \<not> is_open t"
proof (induction v arbitrary: pos t)
  case (Group b vs)
  have "t \<in> set (members json_tokens p ws) \<Longrightarrow> set ws \<subseteq> set vs \<Longrightarrow> \<not> is_open t" for p t ws
  proof (induction ws arbitrary: p)
    case (Cons a ws)
    obtain v k where a: "a = (v, k)" by (rule prod.exhaust)
    then show ?case using Cons Group.IH [of a v] by auto
  qed simp
  then show ?case using Group.prems by (auto simp: is_open_def)
qed (auto simp: is_open_def jsmn_token_def)

lemma blank_stops: "blank c \<Longrightarrow> primitive_stop c" "primitive_stop (close_char b)"
  by (auto simp: blank_def primitive_stop_def close_char_def)

abbreviation members_text :: "(json_value \<times> string) list \<Rightarrow> string" where
  "members_text vs \<equiv> concat (map (\<lambda>(v, sep). json_text v @ sep) vs)"

text \<open>The members of a group, given that each of its values is read as it should.\<close>

lemma read_members:
  assumes read: "\<And>v pos us rest. v \<in> fst ` set vs \<Longrightarrow> plain v \<Longrightarrow> length us + length (json_tokens pos v) \<le> n \<Longrightarrow>
      (is_prim v \<longrightarrow> rest = [] \<or> primitive_stop (hd rest)) \<Longrightarrow>
      jsmn_loop n pos (json_text v @ rest) (parser_of n us) =
        jsmn_loop n (pos + length (json_text v)) rest (parser_of n (counted us @ json_tokens pos v))"
  shows "members_ok plain vs \<Longrightarrow> \<forall>t \<in> set cs. \<not> is_open t \<Longrightarrow>
    Suc (length us + length cs + length (members json_tokens pos vs)) \<le> n \<Longrightarrow>
    jsmn_loop n pos (members_text vs @ close_char b # rest) (parser_of n (us @ group_token b start (-1) k # cs)) =
      jsmn_loop n (pos + length (members_text vs)) (close_char b # rest)
        (parser_of n (us @ group_token b start (-1) (k + length vs) # cs @ members json_tokens pos vs))"
  using read
proof (induction vs arbitrary: pos k cs)
  case (Cons a vs)
  obtain v sep where a: "a = (v, sep)" by (rule prod.exhaust)
  have v: "plain v" "list_all blank sep" "is_prim v \<longrightarrow> sep \<noteq> [] \<or> vs = []" "members_ok plain vs"
    using Cons.prems(1) by (simp_all add: a)
  let ?rest = "sep @ members_text vs @ close_char b # rest"
  have stop: "is_prim v \<longrightarrow> ?rest = [] \<or> primitive_stop (hd ?rest)"
    using v(2,3) blank_stops by (cases sep) auto
  let ?us = "us @ group_token b start (-1) k # cs" and ?p = "pos + length (json_text v)"
  have room: "length ?us + length (json_tokens pos v) \<le> n" using Cons.prems(3) by (simp add: a)
  have "jsmn_loop n pos (members_text (a # vs) @ close_char b # rest) (parser_of n ?us) =
      jsmn_loop n ?p ?rest (parser_of n (counted ?us @ json_tokens pos v))"
    using Cons.prems(4) [OF _ v(1) room stop] by (simp add: a)
  also have "\<dots> = jsmn_loop n (?p + length sep) (members_text vs @ close_char b # rest)
      (parser_of n (us @ group_token b start (-1) (Suc k) # cs @ json_tokens pos v))"
    using read_blanks [OF v(2)] counted_inside [OF Cons.prems(2)] by simp
  also have "\<dots> = jsmn_loop n (?p + length sep + length (members_text vs)) (close_char b # rest)
      (parser_of n (us @ group_token b start (-1) (Suc k + length vs) # (cs @ json_tokens pos v) @ members json_tokens (?p + length sep) vs))"
  proof (rule Cons.IH)
    show "\<forall>t \<in> set (cs @ json_tokens pos v). \<not> is_open t" using Cons.prems(2) tokens_closed by auto
    show "Suc (length us + length (cs @ json_tokens pos v) + length (members json_tokens (?p + length sep) vs)) \<le> n"
      using Cons.prems(3) by (simp add: a add.assoc)
  qed (use v(4) Cons.prems(4) in auto)
  finally show ?case by (simp add: a add.assoc)
qed simp

lemma read_value:
  "plain v \<Longrightarrow> length us + length (json_tokens pos v) \<le> n \<Longrightarrow> (is_prim v \<longrightarrow> rest = [] \<or> primitive_stop (hd rest)) \<Longrightarrow>
    jsmn_loop n pos (json_text v @ rest) (parser_of n us) =
      jsmn_loop n (pos + length (json_text v)) rest (parser_of n (counted us @ json_tokens pos v))"
proof (induction v arbitrary: pos us rest)
  case (Str s)
  then show ?case using read_string [of s us n pos rest] by simp
next
  case (Prim s)
  then show ?case using read_primitive [of s us n rest pos] by simp
next
  case (Group b vs)
  have l: "length us < n" using Group.prems(2) by simp
  have "jsmn_loop n pos (json_text (Group b vs) @ rest) (parser_of n us) =
      jsmn_loop n (Suc pos) (members_text vs @ close_char b # rest) (parser_of n (counted us @ group_token b pos (-1) 0 # []))"
    using read_open [OF l] by simp
  also have "\<dots> = jsmn_loop n (Suc pos + length (members_text vs)) (close_char b # rest)
      (parser_of n (counted us @ group_token b pos (-1) (0 + length vs) # [] @ members json_tokens (Suc pos) vs))"
  proof (rule read_members)
    fix v pos rest and us :: "jsmntok list"
    assume v: "v \<in> fst ` set vs" "plain v" "length us + length (json_tokens pos v) \<le> n"
      "is_prim v \<longrightarrow> rest = [] \<or> primitive_stop (hd rest)"
    from v(1) obtain k where k: "(v, k) \<in> set vs" by auto
    show "jsmn_loop n pos (json_text v @ rest) (parser_of n us) =
        jsmn_loop n (pos + length (json_text v)) rest (parser_of n (counted us @ json_tokens pos v))"
      by (rule Group.IH [OF k]) (use v in \<open>simp_all add: fsts.simps\<close>)
  qed (use Group.prems in auto)
  also have "\<dots> = jsmn_loop n (Suc (Suc pos + length (members_text vs))) rest
      (parser_of n (counted us @ group_token b pos (int (Suc (Suc pos + length (members_text vs)))) (length vs) # members json_tokens (Suc pos) vs))"
  proof -
    have "\<forall>t \<in> set (members json_tokens (Suc pos) vs). \<not> is_open t"
      using tokens_closed [of _ pos "Group b vs"] by auto
    from read_close [OF this] show ?thesis by simp
  qed
  finally show ?case by (simp add: group_token_def)
qed

text \<open>The tokens of a whole text.\<close>

theorem json_tokenised:
  assumes "plain v" and "length (json_tokens 0 v) \<le> n"
  shows "jsmn_parse (json_text v) n (jsmn_init (Suc n)) =
    (JSMN_SUCCESS, \<lparr>toknext = length (json_tokens 0 v), toksuper = None,
      tokens = json_tokens 0 v @ replicate (Suc n - length (json_tokens 0 v)) zero_token\<rparr>)"
proof -
  have closed: "last_open (json_tokens 0 v) (length (json_tokens 0 v)) = None"
    using last_open_closed [of "json_tokens 0 v" "[]"] tokens_closed [of _ 0 v] by simp
  then have "last_open (json_tokens 0 v @ zs) (length (json_tokens 0 v)) = None" for zs by (simp add: last_open_append)
  then show ?thesis
    using read_value [OF assms(1), of "[]" 0 n "[]"] assms(2) closed
    by (simp add: jsmn_parse_def jsmn_init_def parser_of_def counted_def)
qed

end
