(* ===== verification/JsonRound.thy ===== *)
theory JsonRound
  imports JsonText
begin

text \<open>
  The interpreter on the tokens of a text: reading and terminating one string leaves the others readable, so
  the commands that a module prints become the calls they stand for.
\<close>

section \<open>Items\<close>

text \<open>What a token stands for.\<close>

datatype item = Word string | Literal string | Bracket bool nat

definition item_of :: "string \<Rightarrow> jsmntok \<Rightarrow> item \<Rightarrow> bool" where
  "item_of txt t it \<longleftrightarrow> 0 \<le> tk_start t \<and> tk_start t \<le> tk_end t \<and> 0 < tk_end t \<and> tk_end t \<le> int (length txt) \<and>
     (case it of
        Word s \<Rightarrow> tk_type t = JSMN_STRING \<and> take (nat (tk_end t - tk_start t)) (drop (nat (tk_start t)) txt) = s
      | Literal s \<Rightarrow> tk_type t = JSMN_PRIMITIVE \<and> take (nat (tk_end t - tk_start t)) (drop (nat (tk_start t)) txt) = s
      | Bracket b k \<Rightarrow> tk_type t = group_type b \<and> tk_size t = int k)"

fun json_items :: "json_value \<Rightarrow> item list" where
  "json_items (Str s) = [Word s]"
| "json_items (Prim s) = [Literal s]"
| "json_items (Group b vs) = Bracket b (length vs) # concat (map (\<lambda>(v, sep). json_items v) vs)"

lemma items_of_tokens:
  "plain v \<Longrightarrow> list_all2 (item_of (pre @ json_text v @ post)) (json_tokens (length pre) v) (json_items v)"
proof (induction v arbitrary: pre post)
  case (Prim s)
  then have "0 < int (length s)" by (simp add: plain_primitive_def)
  then have "0 < int (length pre) + int (length s)" by linarith
  then show ?case by (auto simp: item_of_def jsmn_token_def)
next
  case (Group b vs)
  have "list_all2 (item_of (p @ members_text ws @ q)) (members json_tokens (length p) ws) (concat (map (\<lambda>(v, sep). json_items v) ws))"
    if "set ws \<subseteq> set vs" "members_ok plain ws" for p q ws
    using that
  proof (induction ws arbitrary: p)
    case (Cons a ws)
    obtain v sep where a: "a = (v, sep)" by (rule prod.exhaust)
    have v: "(v, sep) \<in> set vs" "plain v" using Cons.prems by (auto simp: a)
    have "list_all2 (item_of (p @ json_text v @ (sep @ members_text ws @ q))) (json_tokens (length p) v) (json_items v)"
      by (rule Group.IH [OF v(1)]) (use v in \<open>simp_all add: fsts.simps\<close>)
    moreover have "list_all2 (item_of ((p @ json_text v @ sep) @ members_text ws @ q))
        (members json_tokens (length (p @ json_text v @ sep)) ws) (concat (map (\<lambda>(v, sep). json_items v) ws))"
      using Cons.prems by (intro Cons.IH) (auto simp: a)
    ultimately show ?case by (simp add: a list_all2_appendI add.assoc)
  qed simp
  from this [of vs "pre @ [open_char b]" "close_char b # post"] Group.prems
  have "list_all2 (item_of (pre @ json_text (Group b vs) @ post)) (members json_tokens (Suc (length pre)) vs)
      (concat (map (\<lambda>(v, sep). json_items v) vs))" by simp
  moreover have "item_of (pre @ json_text (Group b vs) @ post) (hd (json_tokens (length pre) (Group b vs))) (Bracket b (length vs))"
    by (simp add: item_of_def)
  ultimately show ?case by simp
next
  case (Str s)
  have "nat (1 + int (length pre)) = Suc (length pre)" by simp
  then show ?case by (simp add: item_of_def jsmn_token_def)
qed

text \<open>Strings and primitives do not overlap, and each ends before the next begins.\<close>

definition leaf :: "jsmntok \<Rightarrow> bool" where
  "leaf t \<longleftrightarrow> tk_type t = JSMN_STRING \<or> tk_type t = JSMN_PRIMITIVE"

definition before :: "jsmntok \<Rightarrow> jsmntok \<Rightarrow> bool" where
  "before t u \<longleftrightarrow> (leaf t \<longrightarrow> leaf u \<longrightarrow> tk_end t < tk_start u)"

lemma leaf_places:
  "plain v \<Longrightarrow> t \<in> set (json_tokens pos v) \<Longrightarrow> leaf t \<Longrightarrow>
     int pos \<le> tk_start t \<and> tk_end t \<le> int (pos + length (json_text v)) \<and> (\<not> is_prim v \<longrightarrow> tk_end t < int (pos + length (json_text v)))"
proof (induction v arbitrary: pos)
  case (Group b vs)
  have "int p \<le> tk_start t \<and> tk_end t \<le> int (p + length (members_text ws))"
    if "set ws \<subseteq> set vs" "members_ok plain ws" "t \<in> set (members json_tokens p ws)" for p ws
    using that
  proof (induction ws arbitrary: p)
    case (Cons a ws)
    obtain v sep where a: "a = (v, sep)" by (rule prod.exhaust)
    then have v: "(v, sep) \<in> set vs" "plain v" "members_ok plain ws" "set ws \<subseteq> set vs" using Cons.prems by auto
    show ?case
    proof (cases "t \<in> set (json_tokens p v)")
      case True
      have "int p \<le> tk_start t \<and> tk_end t \<le> int (p + length (json_text v)) \<and> (\<not> is_prim v \<longrightarrow> tk_end t < int (p + length (json_text v)))"
        by (rule Group.IH [OF v(1)]) (use v True Group.prems(3) in \<open>simp_all add: fsts.simps\<close>)
      then show ?thesis by (simp add: a)
    next
      case False
      then have "t \<in> set (members json_tokens (p + length (json_text v) + length sep) ws)" using Cons.prems(3) by (simp add: a)
      from Cons.IH [OF v(4,3) this] show ?thesis by (simp add: a)
    qed
  qed simp
  from this [of vs "Suc pos"] Group.prems show ?case by (auto simp: leaf_def group_type_def split: if_splits)
qed (auto simp: jsmn_token_def)

lemma member_places:
  "members_ok plain ws \<Longrightarrow> t \<in> set (members json_tokens p ws) \<Longrightarrow> leaf t \<Longrightarrow> int p \<le> tk_start t"
proof (induction ws arbitrary: p)
  case (Cons a ws)
  obtain v sep where a: "a = (v, sep)" by (rule prod.exhaust)
  show ?case
  proof (cases "t \<in> set (json_tokens p v)")
    case True
    then show ?thesis using leaf_places [of v t p] Cons.prems by (simp add: a)
  next
    case False
    then have "int (p + length (json_text v) + length sep) \<le> tk_start t"
      using Cons.prems by (intro Cons.IH) (simp_all add: a)
    then show ?thesis by simp
  qed
qed simp

lemma member_before:
  assumes "members_ok plain ((v, sep) # ws)" and "t \<in> set (json_tokens p v)"
    and "u \<in> set (members json_tokens (p + length (json_text v) + length sep) ws)"
  shows "before t u"
  unfolding before_def
proof (intro impI)
  assume l: "leaf t" "leaf u"
  have u: "int (p + length (json_text v) + length sep) \<le> tk_start u" 
    using member_places [OF _ assms(3) l(2)] assms(1) by simp
  have t: "tk_end t \<le> int (p + length (json_text v))" "\<not> is_prim v \<longrightarrow> tk_end t < int (p + length (json_text v))"
    using leaf_places [of v t p] assms(1,2) l(1) by simp_all
  have "ws \<noteq> []" using assms(3) by auto
  then have "is_prim v \<longrightarrow> 0 < int (length sep)" using assms(1) by auto
  then show "tk_end t < tk_start u" using t u by (cases "is_prim v") linarith+
qed

lemma tokens_sorted: "plain v \<Longrightarrow> sorted_wrt before (json_tokens pos v)"
proof (induction v arbitrary: pos)
  case (Group b vs)
  have "sorted_wrt before (members json_tokens p ws)" if "set ws \<subseteq> set vs" "members_ok plain ws" for p ws
    using that
  proof (induction ws arbitrary: p)
    case (Cons a ws)
    obtain v sep where a: "a = (v, sep)" by (rule prod.exhaust)
    then have v: "(v, sep) \<in> set vs" "plain v" "members_ok plain ws" "set ws \<subseteq> set vs" using Cons.prems by auto
    have "sorted_wrt before (json_tokens p v)"
      by (rule Group.IH [OF v(1)]) (use v in \<open>simp_all add: fsts.simps\<close>)
    then show ?case
      using Cons.IH [OF v(4,3)] member_before [of v sep ws] Cons.prems(2) by (simp add: a sorted_wrt_append)
  qed simp
  moreover have "before (group_token b pos e k) u" for e k u by (simp add: before_def leaf_def group_token_def group_type_def)
  ultimately show ?case using Group.prems by (simp add: group_token_def)
qed (auto simp: jsmn_token_def)

section \<open>The buffer while it is read\<close>

definition apart :: "jsmntok list \<Rightarrow> bool" where
  "apart ts \<longleftrightarrow> (\<forall>t \<in> set ts. \<forall>u \<in> set ts. leaf t \<longrightarrow> leaf u \<longrightarrow> \<not> (tk_start t \<le> tk_end u \<and> tk_end u < tk_end t))"

lemma sorted_apart:
  assumes "sorted_wrt before ts" and "\<forall>t \<in> set ts. tk_start t \<le> tk_end t"
  shows "apart ts"
  unfolding apart_def
proof (intro ballI impI)
  fix t u assume t: "t \<in> set ts" "leaf t" and u: "u \<in> set ts" "leaf u"
  obtain i j where i: "i < length ts" "t = ts ! i" and j: "j < length ts" "u = ts ! j" using t(1) u(1) by (auto simp: in_set_conv_nth)
  have le: "tk_start t \<le> tk_end t" "tk_start u \<le> tk_end u" using assms(2) t(1) u(1) by auto
  consider "i < j" | "i = j" | "j < i" by linarith
  then show "\<not> (tk_start t \<le> tk_end u \<and> tk_end u < tk_end t)"
  proof cases
    case 1
    then have "tk_end t < tk_start u" using assms(1) i j t(2) u(2) by (auto simp: sorted_wrt_iff_nth_less before_def)
    then show ?thesis using le by auto
  next
    case 3
    then have "tk_end u < tk_start t" using assms(1) i j t(2) u(2) by (auto simp: sorted_wrt_iff_nth_less before_def)
    then show ?thesis by auto
  qed (use i j in auto)
qed

text \<open>Only the ends of strings and primitives have been overwritten, with zeros.\<close>

definition readable :: "string \<Rightarrow> jsmntok list \<Rightarrow> string \<Rightarrow> bool" where
  "readable txt ts buf \<longleftrightarrow> length buf = Suc (length txt) \<and>
     (\<forall>i \<le> length txt. buf ! i = (txt @ [CHR 0x00]) ! i \<or> buf ! i = CHR 0x00 \<and> (\<exists>u \<in> set ts. leaf u \<and> tk_end u = int i))"

lemma readable_init: "readable txt ts (txt @ [CHR 0x00])"
  by (simp add: readable_def)

lemma readable_write:
  assumes "readable txt ts buf" and "t \<in> set ts" and "leaf t" and "0 \<le> tk_end t"
  shows "readable txt ts (buf[nat (tk_end t) := CHR 0x00])"
proof -
  have "buf[nat (tk_end t) := CHR 0x00] ! i = (txt @ [CHR 0x00]) ! i \<or>
      buf[nat (tk_end t) := CHR 0x00] ! i = CHR 0x00 \<and> (\<exists>u \<in> set ts. leaf u \<and> tk_end u = int i)" if "i \<le> length txt" for i
  proof (cases "i = nat (tk_end t)")
    case True
    then show ?thesis using assms that by (auto simp: readable_def)
  next
    case False
    then show ?thesis using assms(1) that by (auto simp: readable_def)
  qed
  then show ?thesis using assms(1) by (simp add: readable_def)
qed

text \<open>A leaf with a given content.\<close>

definition content :: "string \<Rightarrow> jsmntok \<Rightarrow> string \<Rightarrow> bool" where
  "content txt t s \<longleftrightarrow> item_of txt t (Word s) \<or> item_of txt t (Literal s)"

lemma content_leaf: "content txt t s \<Longrightarrow> leaf t"
  by (auto simp: content_def item_of_def leaf_def)

lemma content_reads:
  assumes "readable txt ts buf" and "apart ts" and "t \<in> set ts" and "content txt t s"
  shows "take (nat (tk_end t - tk_start t)) (drop (nat (tk_start t)) buf) = s"
proof -
  let ?a = "nat (tk_start t)" and ?n = "nat (tk_end t - tk_start t)"
  have b: "0 \<le> tk_start t" "tk_start t \<le> tk_end t" "tk_end t \<le> int (length txt)" and s: "s = take ?n (drop ?a txt)"
    using assms(4) by (auto simp: content_def item_of_def)
  have l: "?a + ?n \<le> length txt" using b by simp
  have "take ?n (drop ?a buf) = take ?n (drop ?a txt)"
  proof (rule nth_equalityI)
    show "length (take ?n (drop ?a buf)) = length (take ?n (drop ?a txt))" using assms(1) l by (simp add: readable_def)
    fix i assume i: "i < length (take ?n (drop ?a buf))"
    have no: "\<not> (\<exists>u \<in> set ts. leaf u \<and> tk_end u = int (?a + i))"
      using assms(2,3) content_leaf [OF assms(4)] i b by (fastforce simp: apart_def)
    have "?a + i \<le> length txt" "i < ?n" using i l by auto
    then have "buf ! (?a + i) = (txt @ [CHR 0x00]) ! (?a + i)" using assms(1) no by (auto simp: readable_def)
    then show "take ?n (drop ?a buf) ! i = take ?n (drop ?a txt) ! i" using \<open>i < ?n\<close> l assms(1) by (simp add: readable_def nth_append)
  qed
  then show ?thesis using s by simp
qed

text \<open>A position at which a terminated string can be read.\<close>

definition holds :: "string \<Rightarrow> jsmntok list \<Rightarrow> string \<Rightarrow> nat \<Rightarrow> string \<Rightarrow> bool" where
  "holds txt ts buf k s \<longleftrightarrow> readable txt ts buf \<and> CHR 0x00 \<notin> set s \<and>
     (\<exists>t \<in> set ts. content txt t s \<and> nat (tk_start t) = k \<and> buf ! nat (tk_end t) = CHR 0x00)"

lemma holds_string:
  assumes "apart ts" and "holds txt ts buf k s"
  shows "c_string buf k = s"
proof -
  obtain t where t: "t \<in> set ts" "content txt t s" "nat (tk_start t) = k" "buf ! nat (tk_end t) = CHR 0x00"
    and r: "readable txt ts buf" "CHR 0x00 \<notin> set s" using assms(2) by (auto simp: holds_def)
  have b: "0 \<le> tk_start t" "tk_start t \<le> tk_end t" "tk_end t \<le> int (length txt)" using t(2) by (auto simp: content_def item_of_def)
  let ?n = "nat (tk_end t - tk_start t)"
  have e: "k + ?n = nat (tk_end t)" "nat (tk_end t) < length buf" using b t(3) r(1) by (auto simp: readable_def)
  have "drop k buf = take ?n (drop k buf) @ drop ?n (drop k buf)" by (rule append_take_drop_id [symmetric])
  also have "\<dots> = s @ drop (nat (tk_end t)) buf"
    using content_reads [OF r(1) assms(1) t(1,2)] t(3) e(1) by (simp add: add.commute)
  also have "\<dots> = s @ CHR 0x00 # drop (Suc (nat (tk_end t))) buf" using e(2) t(4) by (simp add: Cons_nth_drop_Suc [symmetric])
  finally have d: "drop k buf = s @ CHR 0x00 # drop (Suc (nat (tk_end t))) buf" .
  have "\<forall>c \<in> set s. c \<noteq> CHR 0x00" using r(2) by auto
  then show ?thesis by (simp add: c_string_def d takeWhile_append2)
qed

lemma holds_write:
  assumes "u \<in> set ts" and "leaf u" and "0 \<le> tk_end u" and "holds txt ts buf k s"
  shows "holds txt ts (buf[nat (tk_end u) := CHR 0x00]) k s"
proof -
  obtain t where t: "t \<in> set ts" "content txt t s" "nat (tk_start t) = k" "buf ! nat (tk_end t) = CHR 0x00"
    and r: "readable txt ts buf" "CHR 0x00 \<notin> set s" using assms(4) by (auto simp: holds_def)
  have "nat (tk_end t) < length buf" using t(2) r(1) by (auto simp: content_def item_of_def readable_def)
  then have "buf[nat (tk_end u) := CHR 0x00] ! nat (tk_end t) = CHR 0x00" using t(4) by (cases "nat (tk_end u) = nat (tk_end t)") simp_all
  then show ?thesis using t(1-3) r readable_write [OF r(1) assms(1-3)] by (auto simp: holds_def)
qed

lemma holds_new:
  assumes "readable txt ts buf" and "t \<in> set ts" and "content txt t s" and "CHR 0x00 \<notin> set s"
  shows "holds txt ts (buf[nat (tk_end t) := CHR 0x00]) (nat (tk_start t)) s"
proof -
  have b: "0 \<le> tk_end t" "nat (tk_end t) < length buf" using assms(1,3) by (auto simp: content_def item_of_def readable_def)
  then show ?thesis using assms readable_write [OF assms(1,2) content_leaf [OF assms(3)] b(1)] by (auto simp: holds_def)
qed

section \<open>The items that are still to come\<close>

text \<open>The array holds the tokens \<open>us\<close> of the text and at least one empty token.\<close>

definition request_ok :: "string \<Rightarrow> jsmntok list \<Rightarrow> jsmntok list \<Rightarrow> bool" where
  "request_ok txt us ts \<longleftrightarrow> apart us \<and> (\<exists>k. ts = us @ replicate (Suc k) zero_token)"

definition reading :: "string \<Rightarrow> jsmntok list \<Rightarrow> json \<Rightarrow> item list \<Rightarrow> bool" where
  "reading txt us s its \<longleftrightarrow> readable txt us (js s) \<and> token_ptr s \<le> length us \<and> list_all2 (item_of txt) (drop (token_ptr s) us) its"

lemma next_item:
  assumes "request_ok txt us ts" and "reading txt us s (it # its)"
  shows "\<exists>t. token ts s = Some t \<and> item_of txt t it \<and> t \<in> set us \<and> reading txt us (consume s) its"
proof -
  obtain k where k: "ts = us @ replicate (Suc k) zero_token" using assms(1) by (auto simp: request_ok_def)
  have p: "token_ptr s < length us" using assms(2) by (cases "token_ptr s = length us") (auto simp: reading_def)
  then have "drop (token_ptr s) us = us ! token_ptr s # drop (Suc (token_ptr s)) us" by (simp add: Cons_nth_drop_Suc)
  then have "item_of txt (us ! token_ptr s) it" "reading txt us (consume s) its"
    using assms(2) p by (simp_all add: reading_def consume_def)
  moreover have "token ts s = Some (us ! token_ptr s)" using p by (simp add: token_def k nth_append)
  ultimately show ?thesis using p by simp
qed

lemma no_item:
  assumes "request_ok txt us ts" and "reading txt us s []"
  shows "\<exists>t. token ts s = Some t \<and> \<not> is_valid_token t"
proof -
  obtain k where k: "ts = us @ replicate (Suc k) zero_token" using assms(1) by (auto simp: request_ok_def)
  have "token_ptr s = length us" using assms(2) by (simp add: reading_def)
  then show ?thesis by (simp add: token_def k nth_append zero_token_def is_valid_token_def)
qed

lemma item_kinds:
  "item_of txt t (Word w) \<Longrightarrow> is_token ty t \<longleftrightarrow> ty = JSMN_STRING" "item_of txt t (Literal w) \<Longrightarrow> is_token ty t \<longleftrightarrow> ty = JSMN_PRIMITIVE"
  "item_of txt t (Bracket b k) \<Longrightarrow> is_token ty t \<longleftrightarrow> ty = group_type b" "item_of txt t (Bracket b k) \<Longrightarrow> tk_size t = int k"
  "item_of txt t it \<Longrightarrow> is_valid_token t"
  by (auto simp: item_of_def is_token_def is_valid_token_def)

lemma item_streq:
  assumes "request_ok txt us ts" and "reading txt us s its" and "t \<in> set us" and "item_of txt t (Word w) \<or> item_of txt t (Literal w)"
  shows "json_token_streq (js s) t v \<longleftrightarrow> w = v"
  using content_reads [of "txt" us "js s" t w] assms by (auto simp: json_token_streq_def request_ok_def reading_def content_def)

section \<open>Reading attributes\<close>

text \<open>What has been read stays readable; no call is made.\<close>

definition kept :: "string \<Rightarrow> jsmntok list \<Rightarrow> json \<Rightarrow> json \<Rightarrow> bool" where
  "kept txt us s s' \<longleftrightarrow> (\<forall>k w. holds txt us (js s) k w \<longrightarrow> holds txt us (js s') k w) \<and> calls s' = calls s \<and> contexts s' = contexts s"

lemma kept_refl [simp]: "kept txt us s s" "kept txt us s (consume s)"
  by (simp_all add: kept_def consume_def)

lemma kept_trans [trans]: "kept txt us s s' \<Longrightarrow> kept txt us s' s'' \<Longrightarrow> kept txt us s s''"
  by (simp add: kept_def)

lemma kept_holds: "holds txt us (js s) k w \<Longrightarrow> kept txt us s s' \<Longrightarrow> holds txt us (js s') k w"
  by (simp add: kept_def)

lemma holds_arg: "request_ok txt us ts \<Longrightarrow> holds txt us (js s) k w \<Longrightarrow> arg s (Some k) = Some w"
  by (auto simp: arg_def request_ok_def dest: holds_string)

lemma read_key:
  assumes "request_ok txt us ts" and "reading txt us s (Word key # its)"
  shows "\<exists>t. token ts s = Some t \<and> is_token JSMN_STRING t \<and> (\<forall>v. json_token_streq (js s) t v \<longleftrightarrow> key = v) \<and>
    reading txt us (consume s) its"
proof -
  obtain t where t: "token ts s = Some t" "item_of txt t (Word key)" "t \<in> set us" "reading txt us (consume s) its"
    using next_item [OF assms] by blast
  show ?thesis using t item_kinds(1) [OF t(2)] item_streq [OF assms t(3), of key] by blast
qed

text \<open>A word or literal is terminated and consumed.\<close>

lemma read_leaf:
  assumes ok: "request_ok txt us ts" and "reading txt us s (it # its)" and it: "it = Word w \<and> ty = JSMN_STRING \<or> it = Literal w \<and> ty = JSMN_PRIMITIVE"
    and w: "CHR 0x00 \<notin> set w"
  shows "\<exists>t k s'. token ts s = Some t \<and> is_token ty t \<and> json_token_to_str t s = (k, s') \<and> (\<forall>v. json_token_streq (js s) t v \<longleftrightarrow> w = v) \<and>
    reading txt us (consume s') its \<and> kept txt us s (consume s') \<and> holds txt us (js (consume s')) k w"
proof -
  obtain t where t: "token ts s = Some t" "item_of txt t it" "t \<in> set us" "reading txt us (consume s) its"
    using next_item [OF ok assms(2)] by blast
  have c: "content txt t w" "0 \<le> tk_end t" using t(2) it by (auto simp: content_def item_of_def)
  have r: "readable txt us (js s)" using assms(2) by (simp add: reading_def)
  define s' where "s' = s\<lparr>js := (js s)[nat (tk_end t) := CHR 0x00]\<rparr>"
  have "reading txt us (consume s') its"
    using t(4) readable_write [OF r t(3) content_leaf [OF c(1)] c(2)] by (simp add: reading_def consume_def s'_def)
  moreover have "kept txt us s (consume s')"
    using holds_write [OF t(3) content_leaf [OF c(1)] c(2)] by (simp add: kept_def consume_def s'_def)
  moreover have "holds txt us (js (consume s')) (nat (tk_start t)) w"
    using holds_new [OF r t(3) c(1) w] by (simp add: consume_def s'_def)
  moreover have "is_token ty t" using it t(2) item_kinds(1,2) by blast
  moreover have "\<forall>v. json_token_streq (js s) t v \<longleftrightarrow> w = v"
    using item_streq [OF ok assms(2) t(3), of w] it t(2) by blast
  ultimately show ?thesis using t(1) by (auto simp: json_token_to_str_def s'_def)
qed

text \<open>The value of an attribute, from the key on.\<close>

lemma read_text:
  assumes ok: "request_ok txt us ts" and s: "reading txt us s (key # it # its)"
    and it: "it = Word w \<and> ty = JSMN_STRING \<or> it = Literal w \<and> ty = JSMN_PRIMITIVE" and w: "CHR 0x00 \<notin> set w"
  shows "\<exists>k s'. text_token ty ts (consume s) = Some (Some k, s') \<and> reading txt us s' its \<and> kept txt us s s' \<and> holds txt us (js s') k w"
proof -
  have "reading txt us (consume s) (it # its)" using next_item [OF ok s] by blast
  from read_leaf [OF ok this it w] obtain t k s' where t: "token ts (consume s) = Some t" "is_token ty t"
    "json_token_to_str t (consume s) = (k, s')" "reading txt us (consume s') its" "kept txt us (consume s) (consume s')"
    "holds txt us (js (consume s')) k w" by blast
  have "kept txt us s (consume s')" using kept_trans [OF kept_refl(2) t(5)] .
  then show ?thesis using t by (simp add: text_token_def)
qed

lemma read_string_needed:
  assumes "request_ok txt us ts" and "reading txt us s (key # Word w # its)" and "CHR 0x00 \<notin> set w"
  shows "\<exists>k s'. string_needed ts put a s = Some (True, put k a, s') \<and> reading txt us s' its \<and> kept txt us s s' \<and> holds txt us (js s') k w"
proof -
  obtain k s' where "text_token JSMN_STRING ts (consume s) = Some (Some k, s')" "reading txt us s' its" "kept txt us s s'" "holds txt us (js s') k w"
    using read_text [OF assms(1,2) _ assms(3), of JSMN_STRING] by blast
  then show ?thesis by (auto simp: string_needed_def)
qed

lemma read_string_optional:
  assumes "request_ok txt us ts" and "reading txt us s (key # Word w # its)" and "CHR 0x00 \<notin> set w"
  shows "\<exists>k s'. string_optional ts put a s = Some (True, put k a, s') \<and> reading txt us s' its \<and> kept txt us s s' \<and> holds txt us (js s') k w"
proof -
  obtain k s' where "text_token JSMN_STRING ts (consume s) = Some (Some k, s')" "reading txt us s' its" "kept txt us s s'" "holds txt us (js s') k w"
    using read_text [OF assms(1,2) _ assms(3), of JSMN_STRING] by blast
  then show ?thesis by (auto simp: string_optional_def)
qed

end
