(* ===== verification/JsonCommands.thy ===== *)
theory JsonCommands
  imports JsonRound
begin

text \<open>
  The commands of a module, as values, and the calls that they stand for.
\<close>

section \<open>Commands\<close>

text \<open>The period of a polled test is a decimal number.\<close>

datatype module_command =
    Polled_test name string
  | Rule_for name name name
  | Result_of name "name option" result
  | Ready "name list"

text \<open>An object with its keys and values.\<close>

fun pairs :: "(string \<times> json_value) list \<Rightarrow> (json_value \<times> string) list" where
  "pairs [] = []"
| "pairs [(k, v)] = [(Str k, '':''), (v, [])]"
| "pairs ((k, v) # p # ps) = (Str k, '':'') # (v, '','') # pairs (p # ps)"

definition json_object :: "(string \<times> json_value) list \<Rightarrow> json_value" where
  "json_object ps = Group True (pairs ps)"

fun elements :: "json_value list \<Rightarrow> (json_value \<times> string) list" where
  "elements [] = []"
| "elements [v] = [(v, [])]"
| "elements (v # w # vs) = (v, '','') # elements (w # vs)"

definition verdict :: "result \<Rightarrow> string" where
  "verdict r = (case r of RESULT_PASS \<Rightarrow> ''pass'' | RESULT_FAIL \<Rightarrow> ''fail'' | _ \<Rightarrow> ''ignore'')"

fun command_json :: "module_command \<Rightarrow> string \<times> json_value" where
  "command_json (Polled_test n ds) =
     (''test'', json_object [(''name'', Str n), (''polled'', Prim ''true''), (''interval'', Prim ds)])"
| "command_json (Rule_for n i a) = (''rule'', json_object [(''name'', Str n), (''input'', Str i), (''action'', Str a)])"
| "command_json (Result_of t i r) =
     (''result'', json_object ((''test'', Str t) # (case i of None \<Rightarrow> [] | Some j \<Rightarrow> [(''instance'', Str j)]) @ [(''result'', Str (verdict r))]))"
| "command_json (Ready ns) = (''ready'', Group False (elements (map Str ns)))"

definition request_json :: "module_command list \<Rightarrow> json_value" where
  "request_json cs = json_object (map command_json cs)"

text \<open>The calls of a command, when the server has \<open>k\<close> contexts, and the contexts it makes.\<close>

fun command_calls :: "nat \<Rightarrow> module_command \<Rightarrow> api_call list" where
  "command_calls k (Polled_test n ds) =
     [For_test (Test_create_polled (Some n) (Some fn_server_exec_test) (Suc k) (word_of_int (strtol ds)))]"
| "command_calls k (Rule_for n i a) = [For_rule (Rule_create (Some n) (Some i) (Some a))]"
| "command_calls k (Result_of t i r) = [For_test (Test_notify (Some t) i r 0)]"
| "command_calls k (Ready ns) = map (\<lambda>n. For_test (Test_chain_ready (Some n))) ns"

fun command_contexts :: "name \<Rightarrow> module_command \<Rightarrow> server_context list" where
  "command_contexts module (Polled_test n ds) =
     [Test_context module n]"
| "command_contexts module _ = []"

text \<open>The names that go into a context fit there.\<close>

fun command_fits :: "name \<Rightarrow> module_command \<Rightarrow> bool" where
  "command_fits module (Polled_test n ds) \<longleftrightarrow> length module < MYREFL_MAX_NAME_LEN \<and> length n < MYREFL_MAX_NAME_LEN"
| "command_fits module _ = True"

text \<open>Names without quote, backslash or zero; a period in range; a verdict; something to make ready.\<close>

fun command_ok :: "module_command \<Rightarrow> bool" where
  "command_ok (Polled_test n ds) = (plain_string n \<and> plain_primitive ds \<and> 0 < strtol ds \<and> strtol ds < LONG_MAX)"
| "command_ok (Rule_for n i a) = (plain_string n \<and> plain_string i \<and> plain_string a)"
| "command_ok (Result_of t i r) =
     (plain_string t \<and> pred_option plain_string i \<and> r \<in> {RESULT_PASS, RESULT_FAIL, RESULT_IGNORE})"
| "command_ok (Ready ns) = (ns \<noteq> [] \<and> (\<forall>n \<in> set ns. plain_string n))"

lemma result_ok [simp]:
  "command_ok (Result_of t i r) \<longleftrightarrow>
     plain_string t \<and> (\<forall>j. i = Some j \<longrightarrow> plain_string j) \<and> r \<in> {RESULT_PASS, RESULT_FAIL, RESULT_IGNORE}"
  by (cases i) auto

declare command_ok.simps(3) [simp del]

section \<open>Their text and items\<close>

lemma pairs_plain: "\<forall>(k, v) \<in> set ps. plain_string k \<and> plain v \<Longrightarrow> members_ok plain (pairs ps)"
  by (induction ps rule: pairs.induct) (auto simp: blank_def)

lemma elements_plain: "\<forall>v \<in> set vs. plain v \<and> \<not> is_prim v \<Longrightarrow> members_ok plain (elements vs)"
  by (induction vs rule: elements.induct) (auto simp: blank_def)

lemma length_pairs [simp]: "length (pairs ps) = 2 * length ps"
  by (induction ps rule: pairs.induct) auto

lemma length_elements [simp]: "length (elements vs) = length vs"
  by (induction vs rule: elements.induct) auto

lemma items_pairs: "concat (map (\<lambda>(v, sep). json_items v) (pairs ps)) = concat (map (\<lambda>(k, v). Word k # json_items v) ps)"
  by (induction ps rule: pairs.induct) auto

lemma items_elements: "concat (map (\<lambda>(v, sep). json_items v) (elements vs)) = concat (map json_items vs)"
  by (induction vs rule: elements.induct) auto

lemma plain_key: "\<forall>c \<in> set s. c \<noteq> CHR 0x22 \<and> c \<noteq> CHR 0x5C \<and> c \<noteq> CHR 0x00 \<Longrightarrow> plain_string s"
  by (simp add: plain_string_def)

lemma command_plain: "command_ok c \<Longrightarrow> plain_string (fst (command_json c)) \<and> plain (snd (command_json c)) \<and> \<not> is_prim (snd (command_json c))"
  by (cases c)
    (auto simp: json_object_def plain_string_def plain_primitive_def primitive_char_def primitive_stop_def blank_def verdict_def
      elements_plain split: option.split result.split)

lemma request_plain: "\<forall>c \<in> set cs. command_ok c \<Longrightarrow> plain (request_json cs)"
  using command_plain by (auto simp: request_json_def json_object_def intro!: pairs_plain) (metis fst_conv snd_conv)+

section \<open>Reading a command\<close>

lemma no_zero: "plain_string s \<Longrightarrow> CHR 0x00 \<notin> set s" "plain_primitive s \<Longrightarrow> CHR 0x00 \<notin> set s"
  by (auto simp: plain_string_def plain_primitive_def primitive_char_def)

lemma read_bracket:
  assumes "request_ok txt us ts" and "reading txt us s (Bracket b k # its)"
  shows "\<exists>t. token ts s = Some t \<and> (\<forall>ty. is_token ty t \<longleftrightarrow> ty = group_type b) \<and> tk_size t = int k \<and> reading txt us (consume s) its"
proof -
  obtain t where t: "token ts s = Some t" "item_of txt t (Bracket b k)" "reading txt us (consume s) its"
    using next_item [OF assms] by blast
  show ?thesis using t item_kinds(3,4) [OF t(2)] by auto
qed

text \<open>An attribute with a string, for the keys that are read this way.\<close>

lemma test_name_read:
  assumes "request_ok txt us ts" and "reading txt us s (Word ''name'' # Word w # its)" and "CHR 0x00 \<notin> set w"
  shows "\<exists>k s'. test_attribute ts a s = Some (True, a\<lparr>ta_name := Some k\<rparr>, s') \<and> reading txt us s' its \<and> kept txt us s s' \<and>
    holds txt us (js s') k w"
  using read_key [OF assms(1,2)] read_string_needed [OF assms, of "\<lambda>k a. a\<lparr>ta_name := Some k\<rparr>" a]
  by (auto simp: test_attribute_def)

lemma polled_read:
  assumes ok: "request_ok txt us ts" and s: "reading txt us s (Word ''polled'' # Literal ''true'' # its)"
  shows "\<exists>s'. test_attribute ts a s = Some (True, a\<lparr>ta_polled := True\<rparr>, s') \<and> reading txt us s' its \<and> kept txt us s s'"
proof -
  obtain t where t: "token ts s = Some t" "is_token JSMN_STRING t" "\<forall>v. json_token_streq (js s) t v \<longleftrightarrow> ''polled'' = v"
    "reading txt us (consume s) (Literal ''true'' # its)" using read_key [OF ok s] by blast
  obtain u where u: "token ts (consume s) = Some u" "item_of txt u (Literal ''true'')" "u \<in> set us" "reading txt us (consume (consume s)) its"
    using next_item [OF ok t(4)] by blast
  have "polled_attribute ts a s = Some (True, a\<lparr>ta_polled := True\<rparr>, consume (consume s))"
    using u(1) item_kinds(2) [OF u(2)] item_streq [OF ok t(4) u(3), of "''true''" "''true''"] u(2) by (simp add: polled_attribute_def)
  then show ?thesis using t u(4) kept_trans [OF kept_refl(2) kept_refl(2)] by (auto simp: test_attribute_def)
qed

lemma interval_read:
  assumes ok: "request_ok txt us ts" and s: "reading txt us s (Word ''interval'' # Literal ds # its)" and ds: "CHR 0x00 \<notin> set ds"
    and v: "0 < strtol ds" "strtol ds < LONG_MAX"
  shows "\<exists>s'. test_attribute ts a s = Some (True, a\<lparr>ta_interval := strtol ds\<rparr>, s') \<and> reading txt us s' its \<and> kept txt us s s'"
proof -
  obtain t where t: "token ts s = Some t" "is_token JSMN_STRING t" "\<forall>v. json_token_streq (js s) t v \<longleftrightarrow> ''interval'' = v"
    "reading txt us (consume s) (Literal ds # its)" using read_key [OF ok s] by blast
  obtain u k s' where u: "token ts (consume s) = Some u" "is_token JSMN_PRIMITIVE u" "json_token_to_str u (consume s) = (k, s')"
    "reading txt us (consume s') its" "kept txt us (consume s) (consume s')" "holds txt us (js (consume s')) k ds"
    using read_leaf [OF ok t(4) _ ds, of JSMN_PRIMITIVE] by blast
  have c: "c_string (js s') k = ds" using holds_string [of us "txt", OF _ u(6)] ok by (simp add: request_ok_def consume_def)
  have "strtol ds \<noteq> LONG_MIN" using v(1) by (simp add: LONG_MIN_def)
  then have "interval_attribute ts a s = Some (True, a\<lparr>ta_interval := strtol ds\<rparr>, consume s')"
    using u(1-3) c v by (simp add: interval_attribute_def)
  then show ?thesis using t u(4) kept_trans [OF kept_refl(2) u(5)] by (auto simp: test_attribute_def)
qed

lemma name_copy: "sstrncpy n MYREFL_MAX_NAME_LEN = (if length n < MYREFL_MAX_NAME_LEN then Some n else None)"
  by (simp add: sstrncpy_fits MYREFL_MAX_NAME_LEN_def)

lemma read_polled_test:
  assumes ok: "request_ok txt us ts" and c: "command_ok (Polled_test n ds)"
    and s: "reading txt us s (json_items (snd (command_json (Polled_test n ds))) @ its)"
  shows "\<exists>s'. parse_test module ts s = (if command_fits module (Polled_test n ds) then Some (True, s') else None) \<and>
    reading txt us s' its \<and> calls s' = calls s @ command_calls (length (contexts s)) (Polled_test n ds) \<and>
    contexts s' = contexts s @ command_contexts module (Polled_test n ds)"
proof -
  define a where "a = \<lparr>ta_name = None, ta_interval = 0, ta_polled = False, ta_health = None, ta_comp = None, ta_description = None\<rparr>"
  have z: "CHR 0x00 \<notin> set n" "CHR 0x00 \<notin> set ds" "0 < strtol ds" "strtol ds < LONG_MAX" using c no_zero by auto
  have s6: "reading txt us s (Bracket True 6 # Word ''name'' # Word n # Word ''polled'' # Literal ''true'' # Word ''interval'' # Literal ds # its)"
    using s by (simp add: json_object_def eval_nat_numeral)
  obtain t where t: "token ts s = Some t" "\<forall>ty. is_token ty t \<longleftrightarrow> ty = JSMN_OBJECT" "tk_size t = 6"
    "reading txt us (consume s) (Word ''name'' # Word n # Word ''polled'' # Literal ''true'' # Word ''interval'' # Literal ds # its)"
    using read_bracket [OF ok s6] by (auto simp: group_type_def)
  obtain k s1 where 1: "test_attribute ts a (consume s) = Some (True, a\<lparr>ta_name := Some k\<rparr>, s1)"
    "reading txt us s1 (Word ''polled'' # Literal ''true'' # Word ''interval'' # Literal ds # its)" "kept txt us (consume s) s1" "holds txt us (js s1) k n"
    using test_name_read [OF ok t(4) z(1), of a] by blast
  obtain s2 where 2: "test_attribute ts (a\<lparr>ta_name := Some k\<rparr>) s1 = Some (True, a\<lparr>ta_name := Some k, ta_polled := True\<rparr>, s2)"
    "reading txt us s2 (Word ''interval'' # Literal ds # its)" "kept txt us s1 s2"
    using polled_read [OF ok 1(2), of "a\<lparr>ta_name := Some k\<rparr>"] by auto
  obtain s3 where 3: "test_attribute ts (a\<lparr>ta_name := Some k, ta_polled := True\<rparr>) s2 =
      Some (True, a\<lparr>ta_name := Some k, ta_polled := True, ta_interval := strtol ds\<rparr>, s3)"
    "reading txt us s3 its" "kept txt us s2 s3"
    using interval_read [OF ok 2(2) z(2-4), of "a\<lparr>ta_name := Some k, ta_polled := True\<rparr>"] by auto
  have kept: "kept txt us s s3" "kept txt us s1 s3"
    using kept_trans [OF kept_refl(2) kept_trans [OF 1(3) kept_trans [OF 2(3) 3(3)]]] kept_trans [OF 2(3) 3(3)] by auto
  have n: "arg s3 (Some k) = Some n" using holds_arg [OF ok kept_holds [OF 1(4) kept(2)]] .
  have "attributes 3 (test_attribute ts) False a (consume s) =
      Some (True, a\<lparr>ta_name := Some k, ta_polled := True, ta_interval := strtol ds\<rparr>, s3)"
    by (simp add: eval_nat_numeral 1(1) 2(1) 3(1))
  then have p: "parse_test module ts s =
      map_option (Pair True) (create_test module (a\<lparr>ta_name := Some k, ta_polled := True, ta_interval := strtol ds\<rparr>) s3)"
    using t by (simp add: parse_test_def parse_object_def a_def)
  define s' where "s' = call (For_test (Test_create_polled (Some n) (Some fn_server_exec_test) (Suc (length (contexts s3)))
    (word_of_int (strtol ds)))) (s3\<lparr>contexts := contexts s3 @ [Test_context module n]\<rparr>)"
  have x: "arg (s3\<lparr>contexts := cs\<rparr>) (Some k) = Some n" for cs using n by (simp add: arg_def)
  have "parse_test module ts s = (if command_fits module (Polled_test n ds) then Some (True, s') else None)"
    unfolding p using n z x
    by (simp add: a_def create_test_def test_context_def name_copy new_context_def call_if_def s'_def)
  then show ?thesis
    using 3(2) kept(1) by (intro exI [of _ s']) (simp add: s'_def call_def kept_def reading_def)
qed

text \<open>The strings of a rule and of a result, and the verdict.\<close>

lemma rule_strings_read:
  assumes "request_ok txt us ts" and "reading txt us s (Word key # Word w # its)" and "CHR 0x00 \<notin> set w"
  shows "key = ''name'' \<Longrightarrow> \<exists>k s'. rule_attribute ts a s = Some (True, a\<lparr>ra_name := Some k\<rparr>, s') \<and> reading txt us s' its \<and>
      kept txt us s s' \<and> holds txt us (js s') k w"
    and "key = ''input'' \<Longrightarrow> \<exists>k s'. rule_attribute ts a s = Some (True, a\<lparr>ra_input := Some k\<rparr>, s') \<and> reading txt us s' its \<and>
      kept txt us s s' \<and> holds txt us (js s') k w"
    and "key = ''action'' \<Longrightarrow> \<exists>k s'. rule_attribute ts a s = Some (True, a\<lparr>ra_action := Some k\<rparr>, s') \<and> reading txt us s' its \<and>
      kept txt us s s' \<and> holds txt us (js s') k w"
  using read_key [OF assms(1,2)] read_string_optional [OF assms, of "\<lambda>k a. a\<lparr>ra_name := Some k\<rparr>" a]
    read_string_optional [OF assms, of "\<lambda>k a. a\<lparr>ra_input := Some k\<rparr>" a] read_string_optional [OF assms, of "\<lambda>k a. a\<lparr>ra_action := Some k\<rparr>" a]
  by (auto simp: rule_attribute_def)

lemma read_rule:
  assumes ok: "request_ok txt us ts" and c: "command_ok (Rule_for n i x)"
    and s: "reading txt us s (json_items (snd (command_json (Rule_for n i x))) @ its)"
  shows "\<exists>s'. parse_rule ts s = Some (True, s') \<and> reading txt us s' its \<and>
    calls s' = calls s @ command_calls (length (contexts s)) (Rule_for n i x) \<and> contexts s' = contexts s"
proof -
  define a where "a = \<lparr>ra_name = None, ra_input = None, ra_action = None, ra_comp = None, ra_severity = SEVERITY_NONE,
    ra_operator = RULE_ON_FAIL, ra_n = 0, ra_m = 0\<rparr>"
  have z: "CHR 0x00 \<notin> set n" "CHR 0x00 \<notin> set i" "CHR 0x00 \<notin> set x" using c no_zero by auto
  have s6: "reading txt us s (Bracket True 6 # Word ''name'' # Word n # Word ''input'' # Word i # Word ''action'' # Word x # its)"
    using s by (simp add: json_object_def eval_nat_numeral)
  obtain t where t: "token ts s = Some t" "\<forall>ty. is_token ty t \<longleftrightarrow> ty = JSMN_OBJECT" "tk_size t = 6"
    "reading txt us (consume s) (Word ''name'' # Word n # Word ''input'' # Word i # Word ''action'' # Word x # its)"
    using read_bracket [OF ok s6] by (auto simp: group_type_def)
  obtain k s1 where 1: "rule_attribute ts a (consume s) = Some (True, a\<lparr>ra_name := Some k\<rparr>, s1)"
    "reading txt us s1 (Word ''input'' # Word i # Word ''action'' # Word x # its)" "kept txt us (consume s) s1" "holds txt us (js s1) k n"
    using rule_strings_read(1) [OF ok t(4) z(1) refl, of a] by blast
  define b where "b = a\<lparr>ra_name := Some k\<rparr>"
  obtain j s2 where 2: "rule_attribute ts b s1 = Some (True, b\<lparr>ra_input := Some j\<rparr>, s2)"
    "reading txt us s2 (Word ''action'' # Word x # its)" "kept txt us s1 s2" "holds txt us (js s2) j i"
    using rule_strings_read(2) [OF ok 1(2) z(2) refl, of b] by blast
  define d where "d = b\<lparr>ra_input := Some j\<rparr>"
  obtain l s3 where 3: "rule_attribute ts d s2 = Some (True, d\<lparr>ra_action := Some l\<rparr>, s3)"
    "reading txt us s3 its" "kept txt us s2 s3" "holds txt us (js s3) l x"
    using rule_strings_read(3) [OF ok 2(2) z(3) refl, of d] by blast
  have kept: "kept txt us s s3" using kept_trans [OF kept_refl(2) kept_trans [OF 1(3) kept_trans [OF 2(3) 3(3)]]] .
  have n: "arg s3 (Some k) = Some n" "arg s3 (Some j) = Some i" "arg s3 (Some l) = Some x"
    using holds_arg [OF ok kept_holds [OF 1(4) kept_trans [OF 2(3) 3(3)]]] holds_arg [OF ok kept_holds [OF 2(4) 3(3)]] holds_arg [OF ok 3(4)]
    by auto
  have "attributes 3 (rule_attribute ts) False a (consume s) = Some (True, d\<lparr>ra_action := Some l\<rparr>, s3)"
    by (simp add: eval_nat_numeral 1(1) b_def [symmetric] 2(1) d_def [symmetric] 3(1))
  then have "parse_rule ts s = map_option (Pair True) (create_rule (d\<lparr>ra_action := Some l\<rparr>) s3)"
    using t by (simp add: parse_rule_def parse_object_def a_def)
  then show ?thesis
    using 3(2) kept n
    by (simp add: d_def b_def a_def create_rule_def call_def call_if_def kept_def reading_def arg_def SEVERITY_NONE_def Let_def)
qed

lemma result_strings_read:
  assumes "request_ok txt us ts" and "reading txt us s (Word key # Word w # its)" and "CHR 0x00 \<notin> set w"
  shows "key = ''test'' \<Longrightarrow> \<exists>k s'. result_attribute ts a s = Some (True, a\<lparr>rs_test := Some k\<rparr>, s') \<and> reading txt us s' its \<and>
      kept txt us s s' \<and> holds txt us (js s') k w"
    and "key = ''instance'' \<Longrightarrow> \<exists>k s'. result_attribute ts a s = Some (True, a\<lparr>rs_instance := Some k\<rparr>, s') \<and> reading txt us s' its \<and>
      kept txt us s s' \<and> holds txt us (js s') k w"
  using read_key [OF assms(1,2)] read_string_optional [OF assms, of "\<lambda>k a. a\<lparr>rs_test := Some k\<rparr>" a]
    read_string_optional [OF assms, of "\<lambda>k a. a\<lparr>rs_instance := Some k\<rparr>" a]
  by (auto simp: result_attribute_def)

lemma verdict_read:
  assumes ok: "request_ok txt us ts" and s: "reading txt us s (Word ''result'' # Word (verdict r) # its)"
    and r: "r \<in> {RESULT_PASS, RESULT_FAIL, RESULT_IGNORE}"
  shows "\<exists>s'. result_attribute ts a s = Some (True, a\<lparr>rs_result := r\<rparr>, s') \<and> reading txt us s' its \<and> kept txt us s s'"
proof -
  obtain t where t: "token ts s = Some t" "is_token JSMN_STRING t" "\<forall>v. json_token_streq (js s) t v \<longleftrightarrow> ''result'' = v"
    "reading txt us (consume s) (Word (verdict r) # its)" using read_key [OF ok s] by blast
  obtain u where u: "token ts (consume s) = Some u" "is_token JSMN_STRING u" "\<forall>v. json_token_streq (js (consume s)) u v \<longleftrightarrow> verdict r = v"
    "reading txt us (consume (consume s)) its" using read_key [OF ok t(4)] by blast
  have "known_word result_names u (consume s) = map_option snd (List.find (\<lambda>p. verdict r = fst p) result_names)"
    using u(3) by (simp add: known_word_def)
  also have "\<dots> = Some r" using r by (elim insertE emptyE) (simp_all add: result_names_def verdict_def)
  finally have "known_word result_names u (consume s) = Some r" .
  then have "result_word ts a s = Some (True, a\<lparr>rs_result := r\<rparr>, consume (consume s))" using u(1,2) by (simp add: result_word_def)
  then show ?thesis using t u(4) kept_trans [OF kept_refl(2) kept_refl(2)] by (auto simp: result_attribute_def)
qed

lemma attributes_add:
  "attributes j body True a s = Some (True, b, s') \<Longrightarrow> attributes (j + k) body True a s = attributes k body True b s'"
  by (induction j arbitrary: a s) (auto simp: bind_eq_Some_conv split: if_splits)

lemma read_result:
  assumes ok: "request_ok txt us ts" and c: "command_ok (Result_of n i r)"
    and s: "reading txt us s (json_items (snd (command_json (Result_of n i r))) @ its)"
  shows "\<exists>s'. parse_result ts s = Some (True, s') \<and> reading txt us s' its \<and>
    calls s' = calls s @ command_calls (length (contexts s)) (Result_of n i r) \<and> contexts s' = contexts s"
proof -
  define a where "a = \<lparr>rs_test = None, rs_instance = None, rs_result = RESULT_ABORT, rs_value = 0\<rparr>"
  define rest where "rest = Word ''result'' # Word (verdict r) # its"
  have z: "CHR 0x00 \<notin> set n" "r \<in> {RESULT_PASS, RESULT_FAIL, RESULT_IGNORE}" "\<And>j. i = Some j \<Longrightarrow> CHR 0x00 \<notin> set j"
    using c no_zero by auto
  define m where "m = (if i = None then 2 else 3 :: nat)"
  have sm: "reading txt us s (Bracket True (2 * m) # Word ''test'' # Word n # (case i of None \<Rightarrow> [] | Some j \<Rightarrow> [Word ''instance'', Word j]) @ rest)"
    using s by (cases i) (simp_all add: json_object_def m_def rest_def eval_nat_numeral)
  obtain t where t: "token ts s = Some t" "\<forall>ty. is_token ty t \<longleftrightarrow> ty = JSMN_OBJECT" "tk_size t = int (2 * m)"
    "reading txt us (consume s) (Word ''test'' # Word n # (case i of None \<Rightarrow> [] | Some j \<Rightarrow> [Word ''instance'', Word j]) @ rest)"
    using read_bracket [OF ok sm] by (auto simp: group_type_def)
  obtain k s1 where 1: "result_attribute ts a (consume s) = Some (True, a\<lparr>rs_test := Some k\<rparr>, s1)"
    "reading txt us s1 ((case i of None \<Rightarrow> [] | Some j \<Rightarrow> [Word ''instance'', Word j]) @ rest)" "kept txt us (consume s) s1"
    "holds txt us (js s1) k n"
    using result_strings_read(1) [OF ok t(4) z(1) refl, of a] by blast
  define b where "b = a\<lparr>rs_test := Some k\<rparr>"
  obtain p s2 where 2: "attributes (m - 2) (result_attribute ts) True b s1 = Some (True, b\<lparr>rs_instance := p\<rparr>, s2)"
    "reading txt us s2 rest" "kept txt us s1 s2" "arg s2 p = i" "\<forall>l. p = Some l \<longrightarrow> holds txt us (js s2) l (the i)"
  proof (cases i)
    case None
    then show ?thesis using that [of None s1] 1(2) by (simp add: m_def arg_def b_def a_def)
  next
    case (Some j)
    have r1: "reading txt us s1 (Word ''instance'' # Word j # rest)" using 1(2) Some by simp
    obtain l s2 where "result_attribute ts b s1 = Some (True, b\<lparr>rs_instance := Some l\<rparr>, s2)" "reading txt us s2 rest" "kept txt us s1 s2"
      "holds txt us (js s2) l j"
      using result_strings_read(2) [OF ok r1 z(3) [OF Some] refl, of b] by blast
    then show ?thesis using that [of "Some l" s2] holds_arg [OF ok] Some by (simp add: m_def)
  qed
  define d where "d = b\<lparr>rs_instance := p\<rparr>"
  obtain s3 where 3: "result_attribute ts d s2 = Some (True, d\<lparr>rs_result := r\<rparr>, s3)" "reading txt us s3 its" "kept txt us s2 s3"
    using verdict_read [OF ok 2(2) [unfolded rest_def] z(2), of d] by blast
  have kept: "kept txt us s s3" using kept_trans [OF kept_refl(2) kept_trans [OF 1(3) kept_trans [OF 2(3) 3(3)]]] .
  have n: "arg s3 (Some k) = Some n" using holds_arg [OF ok kept_holds [OF 1(4) kept_trans [OF 2(3) 3(3)]]] .
  have i: "arg s3 p = i"
  proof (cases p)
    case None
    then show ?thesis using 2(4) by (simp add: arg_def)
  next
    case (Some l)
    then obtain j where "i = Some j" using 2(4) by (auto simp: arg_def)
    then show ?thesis using Some 2(5) holds_arg [OF ok kept_holds [OF _ 3(3)]] by simp
  qed
  have "attributes m (result_attribute ts) False a (consume s) = Some (True, d\<lparr>rs_result := r\<rparr>, s3)"
  proof -
    have m: "m = Suc (m - 2 + Suc 0)" by (simp add: m_def)
    have "attributes (m - 2 + Suc 0) (result_attribute ts) True b s1 = Some (True, d\<lparr>rs_result := r\<rparr>, s3)"
      unfolding attributes_add [OF 2(1)] using 3(1) by (simp add: d_def)
    then show ?thesis by (subst m) (simp add: 1(1) b_def)
  qed
  then have "parse_result ts s = map_option (Pair True) (notify_test (d\<lparr>rs_result := r\<rparr>) s3)"
    using t by (simp add: parse_result_def parse_object_def a_def)
  then show ?thesis
    using 3(2) kept n i by (simp add: d_def b_def a_def notify_test_def call_def call_if_def kept_def reading_def)
qed

lemma ready_names:
  assumes ok: "request_ok txt us ts"
  shows "\<forall>n \<in> set ns. plain_string n \<Longrightarrow> reading txt us s (map Word ns @ its) \<Longrightarrow>
    \<exists>s'. attributes (length ns) (ready_element ts) ret () s = Some (ret \<or> ns \<noteq> [], (), s') \<and> reading txt us s' its \<and>
      calls s' = calls s @ map (\<lambda>n. For_test (Test_chain_ready (Some n))) ns \<and> contexts s' = contexts s"
proof (induction ns arbitrary: s ret)
  case (Cons n ns)
  have z: "CHR 0x00 \<notin> set n" "\<forall>n \<in> set ns. plain_string n" using Cons.prems(1) no_zero by auto
  have s: "reading txt us s (Word n # map Word ns @ its)" using Cons.prems(2) by simp
  obtain t k s1 where t: "token ts s = Some t" "is_token JSMN_STRING t" "json_token_to_str t s = (k, s1)"
    "reading txt us (consume s1) (map Word ns @ its)" "kept txt us s (consume s1)" "holds txt us (js (consume s1)) k n"
    using read_leaf [OF ok s _ z(1), of JSMN_STRING] by blast
  have "c_string (js s1) k = n" using holds_string [of us "txt", OF _ t(6)] ok by (simp add: request_ok_def consume_def)
  define s2 where "s2 = consume (call (For_test (Test_chain_ready (Some n))) s1)"
  have e: "ready_element ts () s = Some (True, (), s2)"
    using t(1-3) \<open>c_string (js s1) k = n\<close> by (simp add: ready_element_def arg_def s2_def)
  have "reading txt us s2 (map Word ns @ its)" using t(4) by (simp add: reading_def s2_def consume_def call_def)
  from Cons.IH [OF z(2) this, of True] obtain s' where s': "attributes (length ns) (ready_element ts) True () s2 = Some (True, (), s')"
    "reading txt us s' its" "calls s' = calls s2 @ map (\<lambda>n. For_test (Test_chain_ready (Some n))) ns" "contexts s' = contexts s2" by auto
  have "calls s2 = calls s @ [For_test (Test_chain_ready (Some n))]" "contexts s2 = contexts s"
    using t(5) by (simp_all add: kept_def s2_def consume_def call_def)
  then show ?case using s' e by simp
qed simp

lemma read_ready:
  assumes ok: "request_ok txt us ts" and c: "command_ok (Ready ns)"
    and s: "reading txt us s (json_items (snd (command_json (Ready ns))) @ its)"
  shows "\<exists>s'. parse_test_ready ts s = Some (True, s') \<and> reading txt us s' its \<and>
    calls s' = calls s @ command_calls (length (contexts s)) (Ready ns) \<and> contexts s' = contexts s"
proof -
  have w: "concat (map json_items (map Str ns)) = map Word ns" by (induction ns) simp_all
  have sn: "reading txt us s (Bracket False (length ns) # map Word ns @ its)" using s by (simp only: command_json.simps snd_conv json_items.simps items_elements w length_elements length_map append_Cons)
  obtain t where t: "token ts s = Some t" "\<forall>ty. is_token ty t \<longleftrightarrow> ty = JSMN_ARRAY" "tk_size t = int (length ns)"
    "reading txt us (consume s) (map Word ns @ its)"
    using read_bracket [OF ok sn] by (auto simp: group_type_def)
  show ?thesis
    using ready_names [OF ok _ t(4), of False] c t(1-3) by (auto simp: parse_test_ready_def consume_def)
qed

section \<open>Reading a request\<close>

lemma read_command:
  assumes ok: "request_ok txt us ts" and c: "command_ok c"
    and s: "reading txt us s (Word (fst (command_json c)) # json_items (snd (command_json c)) @ its)"
  shows "\<exists>s'. parse_command module ts s = (if command_fits module c then Some (True, s') else None) \<and> reading txt us s' its \<and>
    calls s' = calls s @ command_calls (length (contexts s)) c \<and> contexts s' = contexts s @ command_contexts module c"
proof -
  obtain t where t: "token ts s = Some t" "is_token JSMN_STRING t" "\<forall>v. json_token_streq (js s) t v \<longleftrightarrow> fst (command_json c) = v"
    "reading txt us (consume s) (json_items (snd (command_json c)) @ its)"
    using read_key [OF ok s] by blast
  have no: "\<not> is_token JSMN_ARRAY t" "\<not> is_token JSMN_OBJECT t" using t(2) by (auto simp: is_token_def)
  have same: "calls (consume s) = calls s" "contexts (consume s) = contexts s" by (simp_all add: consume_def)
  show ?thesis
  proof (cases c)
    case (Polled_test n ds)
    then show ?thesis using read_polled_test [OF ok c [unfolded Polled_test] t(4) [unfolded Polled_test], of module] t(1-3) no same
      by (simp add: parse_command_def)
  next
    case (Rule_for n i x)
    then show ?thesis using read_rule [OF ok c [unfolded Rule_for] t(4) [unfolded Rule_for]] t(1-3) no same
      by (simp add: parse_command_def)
  next
    case (Result_of n i r)
    then show ?thesis using read_result [OF ok c [unfolded Result_of] t(4) [unfolded Result_of]] t(1-3) no same
      by (simp add: parse_command_def)
  next
    case (Ready ns)
    then show ?thesis using read_ready [OF ok c [unfolded Ready] t(4) [unfolded Ready]] t(1-3) no same
      by (simp add: parse_command_def)
  qed
qed

text \<open>The calls of a list of commands, with the contexts numbered through.\<close>

fun requests_calls :: "name \<Rightarrow> nat \<Rightarrow> module_command list \<Rightarrow> api_call list" where
  "requests_calls module k [] = []"
| "requests_calls module k (c # cs) = command_calls k c @ requests_calls module (k + length (command_contexts module c)) cs"

definition requests_contexts :: "name \<Rightarrow> module_command list \<Rightarrow> server_context list" where
  "requests_contexts module cs = concat (map (command_contexts module) cs)"

lemma read_configuration:
  assumes ok: "request_ok txt us ts"
  shows "\<forall>c \<in> set cs. command_ok c \<Longrightarrow> reading txt us s (concat (map (\<lambda>c. Word (fst (command_json c)) # json_items (snd (command_json c))) cs)) \<Longrightarrow>
    \<exists>s'. parse_configuration module ts True s = (if \<forall>c \<in> set cs. command_fits module c then Some (True, s') else None) \<and>
      calls s' = calls s @ requests_calls module (length (contexts s)) cs \<and> contexts s' = contexts s @ requests_contexts module cs"
proof (induction cs arbitrary: s)
  case Nil
  then obtain t where "token ts s = Some t" "\<not> is_valid_token t" using no_item [OF ok] by auto
  then show ?case by (subst parse_configuration.simps) (simp add: requests_contexts_def)
next
  case (Cons c cs)
  let ?its = "concat (map (\<lambda>c. Word (fst (command_json c)) # json_items (snd (command_json c))) cs)"
  have s: "reading txt us s (Word (fst (command_json c)) # json_items (snd (command_json c)) @ ?its)" using Cons.prems(2) by simp
  obtain t where t: "token ts s = Some t" "is_token JSMN_STRING t" using read_key [OF ok s] by blast
  obtain s1 where 1: "parse_command module ts s = (if command_fits module c then Some (True, s1) else None)" "reading txt us s1 ?its"
    "calls s1 = calls s @ command_calls (length (contexts s)) c" "contexts s1 = contexts s @ command_contexts module c"
    using read_command [OF ok _ s] Cons.prems(1) by auto
  have ok': "\<forall>c \<in> set cs. command_ok c" using Cons.prems(1) by simp
  have v: "is_valid_token t" using t(2) by (simp add: is_token_def)
  show ?case
    using Cons.IH [OF ok' 1(2)] t(1) v 1 by (subst parse_configuration.simps) (auto simp: requests_contexts_def)
qed

lemma items_request:
  "json_items (request_json cs) =
     Bracket True (2 * length cs) # concat (map (\<lambda>c. Word (fst (command_json c)) # json_items (snd (command_json c))) cs)"
  using items_pairs [of "map command_json cs"] by (simp add: request_json_def json_object_def split_def comp_def)

text \<open>Enough tokens for every request.\<close>

lemma tokens_items: "plain v \<Longrightarrow> length (json_tokens 0 v) = length (json_items v)"
  using items_of_tokens [of v "[]" "[]"] by (auto dest: list_all2_lengthD)

definition pair_length :: "string \<times> json_value \<Rightarrow> nat" where
  "pair_length p = length (fst p) + 3 + length (json_text (snd p))"

lemma pairs_length: "length (members_text (pairs ps)) \<ge> sum_list (map pair_length ps)"
  by (induction ps rule: pairs.induct) (auto simp: pair_length_def)

lemma elements_length: "length (members_text (elements vs)) + 1 \<ge> sum_list (map (\<lambda>v. Suc (length (json_text v))) vs)"
  by (induction vs rule: elements.induct) auto

lemma command_length:
  assumes "command_ok c"
  shows "5 * Suc (length (json_items (snd (command_json c)))) + 9 \<le> 2 * pair_length (command_json c)"
proof (cases c)
  case (Ready ns)
  have w: "concat (map json_items (map Str ns)) = map Word ns" by (induction ns) simp_all
  have "sum_list (map (\<lambda>v. Suc (length (json_text v))) (map Str ns)) \<ge> 3 * length ns" by (induction ns) auto
  then have "3 * length ns \<le> length (members_text (elements (map Str ns))) + 1" using elements_length [of "map Str ns"] by linarith
  moreover have "0 < length ns" using assms Ready by simp
  ultimately show ?thesis by (simp add: Ready pair_length_def items_elements w del: map_map)
next
  case (Result_of n i r)
  have "4 \<le> length (verdict r)" by (simp add: verdict_def split: result.split)
  then show ?thesis by (cases i) (simp_all add: Result_of json_object_def pair_length_def)
qed (auto simp: json_object_def pair_length_def)

lemma enough_tokens:
  assumes "\<forall>c \<in> set cs. command_ok c" and "cs \<noteq> []"
  shows "length (json_items (request_json cs)) \<le> calc_max_tokens (json_text (request_json cs))"
proof -
  define its where "its cs = length (concat (map (\<lambda>c. Word (fst (command_json c)) # json_items (snd (command_json c))) cs))" for cs
  have "5 * its cs + 9 * length cs \<le> 2 * sum_list (map pair_length (map command_json cs))"
    using assms(1)
  proof (induction cs)
    case (Cons c cs)
    then show ?case using command_length [of c] by (simp add: its_def)
  qed (simp add: its_def)
  then have "5 * its cs + 9 * length cs \<le> 2 * length (members_text (pairs (map command_json cs)))"
    using pairs_length [of "map command_json cs"] by linarith
  moreover have "length (json_text (request_json cs)) = 2 + length (members_text (pairs (map command_json cs)))"
    by (simp add: request_json_def json_object_def)
  moreover have "length (json_items (request_json cs)) = Suc (its cs)" by (simp add: items_request its_def)
  moreover have "0 < length cs" using assms(2) by simp
  ultimately have "5 * length (json_items (request_json cs)) + 8 \<le> 2 * length (json_text (request_json cs))" by linarith
  then show ?thesis by (simp add: calc_max_tokens_def)
qed

section \<open>The round trip\<close>

lemma request_understood:
  assumes "\<forall>c \<in> set cs. command_ok c" and "cs \<noteq> []"
  shows "interpret_request module (json_text (request_json cs)) ctxs =
    (if \<forall>c \<in> set cs. command_fits module c
     then Some (True, requests_calls module (length ctxs) cs, ctxs @ requests_contexts module cs) else None)"
proof -
  define txt' where "txt' = json_text (request_json cs)"
  define us where "us = json_tokens 0 (request_json cs)"
  define n where "n = calc_max_tokens txt'"
  have p: "plain (request_json cs)" using request_plain assms(1) by simp
  have items: "list_all2 (item_of txt') us (json_items (request_json cs))"
    using items_of_tokens [OF p, of "[]" "[]"] by (simp add: us_def txt'_def)
  have l: "length us \<le> n" using tokens_items [OF p] enough_tokens [OF assms] by (simp add: us_def n_def txt'_def)
  obtain q where q: "jsmn_parse txt' n (jsmn_init (Suc n)) = (JSMN_SUCCESS, q)" "tokens q = us @ replicate (Suc n - length us) zero_token"
    using json_tokenised [OF p, of n] l by (auto simp: us_def txt'_def)
  have "tk_start t \<le> tk_end t" if "t \<in> set us" for t
    using items that by (auto simp: item_of_def list_all2_conv_all_nth in_set_conv_nth)
  then have "apart us" using sorted_apart [OF tokens_sorted [OF p, of 0]] by (simp add: us_def)
  moreover have "Suc n - length us = Suc (n - length us)" using l by simp
  ultimately have ok: "request_ok txt' us (tokens q)" unfolding request_ok_def q(2) by metis
  define s where "s = \<lparr>js = txt' @ [CHR 0x00], token_ptr = 0, calls = [], contexts = ctxs\<rparr>"
  have "reading txt' us s (json_items (request_json cs))" using items readable_init by (simp add: reading_def s_def)
  then obtain t where t: "token (tokens q) s = Some t" "\<forall>ty. is_token ty t \<longleftrightarrow> ty = JSMN_OBJECT"
    "reading txt' us (consume s) (concat (map (\<lambda>c. Word (fst (command_json c)) # json_items (snd (command_json c))) cs))"
    using read_bracket [OF ok, of s True "2 * length cs"] unfolding items_request by (auto simp: group_type_def)
  obtain s' where "parse_configuration module (tokens q) True (consume s) =
      (if \<forall>c \<in> set cs. command_fits module c then Some (True, s') else None)"
    "calls s' = requests_calls module (length ctxs) cs" "contexts s' = ctxs @ requests_contexts module cs"
    using read_configuration [OF ok assms(1) t(3), of module] by (auto simp: consume_def s_def)
  then show ?thesis
    using t(1,2) q(1) by (simp add: interpret_request_def parse_request_def n_def [symmetric] s_def [symmetric] txt'_def [symmetric])
qed

end
