(* ===== verification/ServerConfig.thy ===== *)
theory ServerConfig
  imports JsonRequest
begin

text \<open>
  The configuration of the server (\<^verbatim>\<open>src/server/src/myrefl_server_config.c\<close>): a file of settings, tokenised by the same
  tokeniser and read through the same helpers (the file has copies of them) as the requests of the modules. Only
  primitives, words without quotes, are taken for settings. As for requests, \<open>None\<close> is following the token pointer
  behind the array, or copying a word into a field that is too small for it. Of the record of a request only the text and the pointer are used.
\<close>

definition FILEPATH_MAX :: nat where "FILEPATH_MAX = 128"
definition EMAIL_MAX :: nat where "EMAIL_MAX = 128"
definition HOSTNAME_MAX :: nat where "HOSTNAME_MAX = 64"
definition HTTP_PORT_MAX :: nat where "HTTP_PORT_MAX = 6"

text \<open>The size of the file buffer of the configuration.\<close>

definition CONFIG_MAXBUFLEN :: nat where "CONFIG_MAXBUFLEN = 1024 * 10"

text \<open>A module is \<open>None\<close> where the array of \<open>calloc\<close> was not filled in.\<close>

record server_config =
  modules_path :: string
  enabled_modules :: "string option list"
  alert_email_to :: string
  alert_email_from :: string
  smtp_hostname :: string
  use_sendmail :: bool
  http_root :: string
  http_port :: string

definition zero_config :: server_config where
  "zero_config = \<lparr>modules_path = [], enabled_modules = [], alert_email_to = [], alert_email_from = [], smtp_hostname = [],
     use_sendmail = False, http_root = [], http_port = []\<rparr>"

section \<open>Settings\<close>

text \<open>A setting with a word: the word is stored if there is one; the token is consumed in any case, also the one
  that ends the array. Most words are copied into a field of \<open>n\<close> characters.\<close>

definition copied :: "(string \<Rightarrow> server_config \<Rightarrow> server_config) \<Rightarrow> nat \<Rightarrow> string \<Rightarrow> server_config \<Rightarrow> server_config option" where
  "copied put n v c = map_option (\<lambda>w. put w c) (sstrncpy v n)"

definition config_word ::
  "(string \<Rightarrow> server_config \<Rightarrow> server_config option) \<Rightarrow> jsmntok list \<Rightarrow> server_config \<Rightarrow> json \<Rightarrow> (server_config \<times> json) option" where
  "config_word put ts c s = do {
     let s = consume s;
     t \<leftarrow> token ts s;
     if is_token JSMN_PRIMITIVE t
     then let (k, s) = json_token_to_str t s in map_option (\<lambda>c. (c, consume s)) (put (c_string (js s) k) c)
     else Some (c, consume s) }"

text \<open>The loop over the array of modules: an entry that is no word leaves its place empty.\<close>

fun read_modules :: "nat \<Rightarrow> jsmntok list \<Rightarrow> json \<Rightarrow> (string option list \<times> json) option" where
  "read_modules 0 ts s = Some ([], s)"
| "read_modules (Suc n) ts s = do {
     t \<leftarrow> token ts s;
     let (m, s) = (if is_token JSMN_STRING t \<or> is_token JSMN_PRIMITIVE t
       then let (k, s) = json_token_to_str t s in (Some (c_string (js s) k), s) else (None, s));
     (ms, s) \<leftarrow> read_modules n ts (consume s);
     Some (m # ms, s) }"

definition config_modules :: "jsmntok list \<Rightarrow> server_config \<Rightarrow> json \<Rightarrow> (server_config \<times> json) option" where
  "config_modules ts c s = do {
     let s = consume s;
     t \<leftarrow> token ts s;
     if is_token JSMN_ARRAY t
     then map_option (\<lambda>(ms, s). (c\<lparr>enabled_modules := ms\<rparr>, s)) (read_modules (nat (tk_size t)) ts (consume s))
     else Some (c, s) }"

text \<open>The body of the loop. A word that is no setting is reported (which terminates it); what is no word is skipped.\<close>

definition config_tuple :: "jsmntok list \<Rightarrow> jsmntok \<Rightarrow> server_config \<Rightarrow> json \<Rightarrow> (server_config \<times> json) option" where
  "config_tuple ts t c s = (let key = json_token_streq (js s) t in
     if tk_type t \<noteq> JSMN_PRIMITIVE then Some (c, consume s)
     else if key ''default-email-to'' then config_word (copied (\<lambda>v c. c\<lparr>alert_email_to := v\<rparr>) EMAIL_MAX) ts c s
     else if key ''default-email-from'' then config_word (copied (\<lambda>v c. c\<lparr>alert_email_from := v\<rparr>) EMAIL_MAX) ts c s
     else if key ''modules-dir'' then config_word (copied (\<lambda>v c. c\<lparr>modules_path := v\<rparr>) FILEPATH_MAX) ts c s
     else if key ''http-dir'' then config_word (copied (\<lambda>v c. c\<lparr>http_root := v\<rparr>) FILEPATH_MAX) ts c s
     else if key ''http-port'' then config_word (copied (\<lambda>v c. c\<lparr>http_port := v\<rparr>) HTTP_PORT_MAX) ts c s
     else if key ''smtp-hostname'' then config_word (copied (\<lambda>v c. c\<lparr>smtp_hostname := v\<rparr>) HOSTNAME_MAX) ts c s
     else if key ''use-sendmail'' then config_word (\<lambda>v c. Some (if v = ''true'' then c\<lparr>use_sendmail := True\<rparr> else c)) ts c s
     else if key ''enabled-modules'' then config_modules ts c s
     else Some (c, consume (snd (json_token_to_str t s))))"

lemma read_modules_moves: "read_modules n ts s = Some (ms, s') \<Longrightarrow> token_ptr s' = token_ptr s + n \<and> length ms = n"
proof (induction n arbitrary: s ms)
  case (Suc n)
  from Suc.prems obtain t u m ms' where "ms = m # ms'" "read_modules n ts (consume u) = Some (ms', s')" "token_ptr u = token_ptr s"
    by (auto simp: json_token_to_str_def split: bind_splits if_splits)
  then show ?case using Suc.IH by (simp add: consume_def)
qed simp

lemma config_tuple_moves: "config_tuple ts t c s = Some (c', s') \<Longrightarrow> token_ptr s < token_ptr s'"
  by (auto simp: config_tuple_def config_word_def config_modules_def json_token_to_str_def consume_def Let_def
    split: bind_splits if_splits dest: read_modules_moves)

section \<open>The file\<close>

text \<open>\<open>parse_tuples\<close>; it always answers true.\<close>

function parse_tuples :: "jsmntok list \<Rightarrow> server_config \<Rightarrow> json \<Rightarrow> (server_config \<times> json) option" where
  "parse_tuples ts c s = (case token ts s of
     None \<Rightarrow> None
   | Some t \<Rightarrow>
       if \<not> is_valid_token t then Some (c, s)
       else (case config_tuple ts t c s of None \<Rightarrow> None | Some (c, s) \<Rightarrow> parse_tuples ts c s))"
  by pat_completeness auto

termination
  by (relation "measure (\<lambda>(ts, c, s). length ts - token_ptr s)")
    (auto simp: token_def split: if_splits dest: config_tuple_moves intro: diff_less_mono2)

definition config_parse_configuration :: "string \<Rightarrow> server_config \<Rightarrow> (bool \<times> server_config) option" where
  "config_parse_configuration configuration c =
     (let n = calc_max_tokens configuration;
          (ret, p) = jsmn_parse configuration n (jsmn_init (Suc n))
      in if ret = JSMN_SUCCESS
         then map_option (\<lambda>(c, s). (True, c))
           (parse_tuples (tokens p) c \<lparr>js = configuration @ [CHR 0x00], token_ptr = 0, calls = [], contexts = []\<rparr>)
         else Some (False, c))"

text \<open>The file has been read into a buffer of zeros, of one character more than are read; \<open>++newLen\<close> steps over
  the character behind the text before it writes the zero, so a full buffer is left (\<open>None\<close>). An empty file is
  reported and parsed all the same. \<open>file\<close> is the content of the file, if it can be opened.\<close>

definition config_parse :: "string option \<Rightarrow> server_config \<Rightarrow> (bool \<times> server_config) option" where
  "config_parse file c = (case file of
     None \<Rightarrow> Some (False, c)
   | Some content \<Rightarrow>
       let text = take CONFIG_MAXBUFLEN content
       in if length text = CONFIG_MAXBUFLEN then None else config_parse_configuration (c_string text 0) c)"

end
