(* ===== verification/ServerModule.thy ===== *)
theory ServerModule
  imports ServerConfig
begin

text \<open>
  The modules of the server (\<^verbatim>\<open>src/server/src/myrefl_server_module.c\<close>): programs in a directory that are run to get their
  configuration, to test and to act, and answer with a request. A directory and what a program prints are arguments:
  the names of the entries, and the text with the exit status, if the program could be started. The state of the server
  is its contexts and the database. \<open>None\<close> is a use of memory that is not there: a null pointer, a place behind an
  array, or text that nothing has been written to.
\<close>

definition MAXBUFLEN :: nat where "MAXBUFLEN = 1024 * 32"

type_synonym server = "server_context list \<times> db"
type_synonym answer = "(string \<times> int) option"

section \<open>Files that are modules\<close>

definition str_ends_with :: "string \<Rightarrow> string \<Rightarrow> bool" where
  "str_ends_with str suffix \<longleftrightarrow>
     length suffix \<le> length str \<and> take (length suffix) (drop (length str - length suffix) str) = suffix"

definition str_starts_with :: "string \<Rightarrow> string \<Rightarrow> bool" where
  "str_starts_with str prefix \<longleftrightarrow> length prefix \<le> length str \<and> take (length prefix) str = prefix"

fun configured_in :: "string option list \<Rightarrow> string \<Rightarrow> bool option" where
  "configured_in [] filename = Some False"
| "configured_in (m # ms) filename = (case m of
     None \<Rightarrow> None
   | Some n \<Rightarrow> if filename = n then Some True else configured_in ms filename)"

definition is_configured_module :: "server_config \<Rightarrow> string \<Rightarrow> bool option" where
  "is_configured_module c filename = configured_in (enabled_modules c) filename"

definition is_valid_module :: "server_config \<Rightarrow> string \<Rightarrow> bool option" where
  "is_valid_module c filename = do {
     b \<leftarrow> is_configured_module c filename;
     Some (b \<and> take 1 filename \<noteq> ''.'' \<and> \<not> str_ends_with filename ''~'' \<and> \<not> str_ends_with filename ''.conf'' \<and>
       \<not> str_ends_with filename ''_conf.py'' \<and> \<not> str_ends_with filename ''_conf.pyc'' \<and>
       \<not> str_ends_with filename ''_conf.pyo'' \<and> \<not> str_ends_with filename ''.pyc'') }"

text \<open>The entries of a directory that are modules.\<close>

fun valid_modules :: "server_config \<Rightarrow> string list \<Rightarrow> string list option" where
  "valid_modules c [] = Some []"
| "valid_modules c (f # fs) = do {
     b \<leftarrow> is_valid_module c f;
     ms \<leftarrow> valid_modules c fs;
     Some (if b then f # ms else ms) }"

text \<open>The directory is read twice, to count the modules and to store their names; \<open>dir1\<close> and \<open>dir2\<close> are what is
  found, if it can be opened. No array is made for no module.\<close>

record module_table =
  module_names :: "string list option"
  module_dir :: string

definition modules_init :: "server_config \<Rightarrow> string \<Rightarrow> string list option \<Rightarrow> string list option \<Rightarrow> module_table option" where
  "modules_init c path dir1 dir2 = do {
     count \<leftarrow> map_option length (valid_modules c (case dir1 of None \<Rightarrow> [] | Some fs \<Rightarrow> fs));
     if count = 0 then Some \<lparr>module_names = None, module_dir = path\<rparr>
     else do {
       ms \<leftarrow> valid_modules c (case dir2 of None \<Rightarrow> [] | Some fs \<Rightarrow> fs);
       if length ms \<le> count then Some \<lparr>module_names = Some ms, module_dir = path\<rparr> else None } }"

section \<open>The configuration of the modules\<close>

text \<open>What is read of the text that a program prints.\<close>

definition printed :: "string \<Rightarrow> string" where
  "printed text = c_string (take MAXBUFLEN text) 0"

text \<open>The loop over the modules. A module that prints nothing ends it; the answer is that for the last request.\<close>

fun configure_modules :: "(string \<Rightarrow> answer) \<Rightarrow> string \<Rightarrow> string list \<Rightarrow> bool \<Rightarrow> server \<Rightarrow> (bool \<times> server) option" where
  "configure_modules run path [] ret st = Some (ret, st)"
| "configure_modules run path (m # ms) ret st =
     (if length m > MAXBUFLEN div 2 then Some (False, st)
      else case run (path @ ''/'' @ m @ '' --conf'') of
        None \<Rightarrow> configure_modules run path ms ret st
      | Some (text, status) \<Rightarrow>
          if text = [] then Some (ret, st)
          else if status = 0 then do {
            (ret, ctxs, db) \<leftarrow> process_json_request m (printed text) st;
            configure_modules run path ms ret (ctxs, db) }
          else configure_modules run path ms ret st)"

definition modules_process_config :: "(string \<Rightarrow> answer) \<Rightarrow> module_table \<Rightarrow> server \<Rightarrow> (bool \<times> server) option" where
  "modules_process_config run t st = (case module_names t of
     None \<Rightarrow> Some (False, st)
   | Some ms \<Rightarrow>
       if length (module_dir t) > MAXBUFLEN div 2 then Some (False, st)
       else configure_modules run (module_dir t) ms False st)"

section \<open>Tests and actions of modules\<close>

text \<open>The command lines. The context is cast to that of a test.\<close>

definition test_command :: "string \<Rightarrow> name option \<Rightarrow> server_context \<Rightarrow> string option" where
  "test_command path instance ctx = (case ctx of
     Test_context m t \<Rightarrow> Some (path @ ''/'' @ m @ '' --test '' @ t @ (case instance of None \<Rightarrow> [] | Some i \<Rightarrow> '' --instance '' @ i))
   | Email_context _ _ _ \<Rightarrow> None)"

definition action_command :: "string \<Rightarrow> name option \<Rightarrow> server_context \<Rightarrow> string option" where
  "action_command path instance ctx = (case ctx of
     Test_context m t \<Rightarrow> Some (path @ ''/'' @ m @ '' action '' @ t @ (case instance of None \<Rightarrow> [] | Some i \<Rightarrow> '' '' @ i))
   | Email_context _ _ _ \<Rightarrow> None)"

definition context_module :: "server_context \<Rightarrow> name" where
  "context_module ctx = (case ctx of Test_context m t \<Rightarrow> m | Email_context _ _ _ \<Rightarrow> [])"

definition myrefl_server_exec_test ::
  "(string \<Rightarrow> answer) \<Rightarrow> string \<Rightarrow> name option \<Rightarrow> server_context \<Rightarrow> server \<Rightarrow> (result \<times> server) option" where
  "myrefl_server_exec_test run path instance ctx st = do {
     cmd \<leftarrow> test_command path instance ctx;
     case run cmd of
       None \<Rightarrow> Some (RESULT_ABORT, st)
     | Some (text, status) \<Rightarrow>
         if text = [] then Some (RESULT_ABORT, st)
         else do {
           (ok, st) \<leftarrow> process_json_request (context_module ctx) (printed text) st;
           Some (if ok then RESULT_IN_PROGRESS else RESULT_ABORT, st) } }"

definition myrefl_server_exec_action ::
  "(string \<Rightarrow> answer) \<Rightarrow> string \<Rightarrow> name option \<Rightarrow> server_context \<Rightarrow> server \<Rightarrow> (result \<times> server) option" where
  "myrefl_server_exec_action run path instance ctx st = do {
     cmd \<leftarrow> action_command path instance ctx;
     case run cmd of
       None \<Rightarrow> Some (RESULT_ABORT, st)
     | Some (text, status) \<Rightarrow>
         if text = [] then Some (RESULT_ABORT, st)
         else do {
           (ok, st) \<leftarrow> process_json_request (context_module ctx) (printed text) st;
           Some (RESULT_IN_PROGRESS, st) } }"

section \<open>Mails\<close>

text \<open>A mail goes to the mail server of the configuration or, as one text, to \<open>sendmail\<close> (which gets the whole buffer, with
  whatever is behind the text).\<close>

datatype mail =
    Smtp (mail_host: string) (mail_from: string) (mail_to: string) (mail_subject: string) (mail_body: string)
  | Sendmail string

definition CR_LF :: string where "CR_LF = [CHR 0x0A, CHR 0x0D]"

text \<open>The body is printed by a program or is the subject. It has \<open>MAXBUFLEN\<close> characters, so a program that prints as
  many has its zero written behind it; nothing is written when nothing is printed.\<close>

definition email_body :: "(string \<Rightarrow> answer) \<Rightarrow> string \<Rightarrow> string \<Rightarrow> string option" where
  "email_body run subject command =
     (if command \<noteq> []
      then (case run command of
          None \<Rightarrow> None
        | Some (text, status) \<Rightarrow> if text = [] \<or> length text \<ge> MAXBUFLEN then None else Some (printed text))
      else sstrncpy subject MAXBUFLEN)"

definition myrefl_server_email :: "(string \<Rightarrow> answer) \<Rightarrow> server_config \<Rightarrow> server_context option \<Rightarrow> (result \<times> mail option) option" where
  "myrefl_server_email run c context = (case context of
     None \<Rightarrow> Some (RESULT_PASS, None)
   | Some (Test_context _ _) \<Rightarrow> None
   | Some (Email_context to subject command) \<Rightarrow> do {
       let to = (if to = [] then alert_email_to c else to);
       body \<leftarrow> email_body run subject command;
       Some (RESULT_PASS, Some (
         if use_sendmail c
         then Sendmail (take (MAXBUFLEN - 1) (''From: '' @ alert_email_from c @ CR_LF @ ''To: '' @ to @ '': Subject: '' @ subject @
           CR_LF @ CR_LF @ body @ CR_LF))
         else Smtp (smtp_hostname c) (alert_email_from c) to subject body)) })"

end
