(* ===== verification/ServerFacts.thy ===== *)
theory ServerFacts
  imports JsonCommands ServerModule
begin

text \<open>
  Texts of several values one after the other, as the configuration of the server is one, and what the server makes of
  its configuration and of its modules.
\<close>

section \<open>Several values\<close>

lemma text_no_zero: "plain v \<Longrightarrow> CHR 0x00 \<notin> set (json_text v)"
proof (induction v)
  case (Group b vs)
  have "CHR 0x00 \<notin> set (members_text ws)" if "set ws \<subseteq> set vs" "members_ok plain ws" for ws
    using that
  proof (induction ws)
    case (Cons a ws)
    obtain v sep where a: "a = (v, sep)" by (rule prod.exhaust)
    then have v: "(v, sep) \<in> set vs" "plain v" "list_all blank sep" using Cons.prems by auto
    have "CHR 0x00 \<notin> set (json_text v)" by (rule Group.IH [OF v(1)]) (use v(2) in \<open>simp_all add: fsts.simps\<close>)
    moreover have "CHR 0x00 \<notin> set sep" using v(3) by (auto simp: blank_def list_all_iff)
    ultimately show ?case using Cons by (simp add: a)
  qed simp
  from this [of vs] Group.prems show ?case by (simp add: open_char_def close_char_def)
qed (auto simp: no_zero)

lemma members_no_zero: "members_ok plain vs \<Longrightarrow> CHR 0x00 \<notin> set (members_text vs)"
  using text_no_zero [of "Group True vs"] by simp

lemma read_sequence:
  "members_ok plain vs \<Longrightarrow> last_open us (length us) = None \<Longrightarrow> length us + length (members json_tokens pos vs) \<le> n \<Longrightarrow>
    jsmn_loop n pos (members_text vs) (parser_of n us) = (JSMN_SUCCESS, parser_of n (us @ members json_tokens pos vs))"
proof (induction vs arbitrary: pos us)
  case Nil
  then show ?case by (simp add: parser_of_def last_open_append)
next
  case (Cons a vs)
  obtain v sep where a: "a = (v, sep)" by (rule prod.exhaust)
  have v: "plain v" "list_all blank sep" "is_prim v \<longrightarrow> sep \<noteq> [] \<or> vs = []" "members_ok plain vs"
    using Cons.prems(1) by (simp_all add: a)
  let ?rest = "sep @ members_text vs" and ?p = "pos + length (json_text v)"
  have stop: "is_prim v \<longrightarrow> ?rest = [] \<or> primitive_stop (hd ?rest)" using v(2,3) blank_stops by (cases sep) auto
  have c: "counted us = us" using Cons.prems(2) by (simp add: counted_def)
  have l: "last_open (us @ json_tokens pos v) (length (us @ json_tokens pos v)) = None"
    using last_open_closed [of "json_tokens pos v" us] tokens_closed [of _ pos v] Cons.prems(2) by auto
  have "jsmn_loop n pos (members_text (a # vs)) (parser_of n us) = jsmn_loop n ?p ?rest (parser_of n (us @ json_tokens pos v))"
    using read_value [OF v(1) _ stop, of us pos n] Cons.prems(3) by (simp add: a c)
  also have "\<dots> = jsmn_loop n (?p + length sep) (members_text vs) (parser_of n (us @ json_tokens pos v))"
    using read_blanks [OF v(2)] by simp
  also have "\<dots> = (JSMN_SUCCESS, parser_of n ((us @ json_tokens pos v) @ members json_tokens (?p + length sep) vs))"
    by (rule Cons.IH [OF v(4) l]) (use Cons.prems(3) in \<open>simp add: a add.assoc\<close>)
  finally show ?case by (simp add: a add.assoc)
qed

lemma sequence_items:
  "members_ok plain vs \<Longrightarrow>
    list_all2 (item_of (p @ members_text vs @ q)) (members json_tokens (length p) vs) (concat (map (\<lambda>(v, sep). json_items v) vs))"
proof (induction vs arbitrary: p)
  case (Cons a vs)
  obtain v sep where a: "a = (v, sep)" by (rule prod.exhaust)
  have "list_all2 (item_of (p @ json_text v @ (sep @ members_text vs @ q))) (json_tokens (length p) v) (json_items v)"
    by (rule items_of_tokens) (use Cons.prems in \<open>simp add: a\<close>)
  moreover have "list_all2 (item_of ((p @ json_text v @ sep) @ members_text vs @ q))
      (members json_tokens (length (p @ json_text v @ sep)) vs) (concat (map (\<lambda>(v, sep). json_items v) vs))"
    using Cons.prems by (intro Cons.IH) (auto simp: a)
  ultimately show ?case by (simp add: a list_all2_appendI add.assoc)
qed simp

lemma sequence_sorted: "members_ok plain vs \<Longrightarrow> sorted_wrt before (members json_tokens p vs)"
proof (induction vs arbitrary: p)
  case (Cons a vs)
  obtain v sep where a: "a = (v, sep)" by (rule prod.exhaust)
  then show ?case
    using Cons tokens_sorted [of v p] member_before [of v sep vs] by (simp add: sorted_wrt_append)
qed simp

text \<open>The state in which a text of plain values is read.\<close>

lemma sequence_tokenised:
  assumes vs: "members_ok plain vs" and n: "length (members json_tokens 0 vs) \<le> n" and tx: "tx = members_text vs"
    and us: "us = members json_tokens 0 vs"
  shows "\<exists>q. jsmn_parse tx n (jsmn_init (Suc n)) = (JSMN_SUCCESS, q) \<and> request_ok tx us (tokens q) \<and>
    length (tokens q) = Suc n \<and> reading tx us \<lparr>js = tx @ [CHR 0x00], token_ptr = 0, calls = [], contexts = []\<rparr> (concat (map (\<lambda>(v, sep). json_items v) vs))"
proof -
  have items: "list_all2 (item_of tx) us (concat (map (\<lambda>(v, sep). json_items v) vs))"
    using sequence_items [OF vs, of "[]" "[]"] by (simp add: tx us)
  have "jsmn_parse tx n (jsmn_init (Suc n)) = (JSMN_SUCCESS, parser_of n us)"
    using read_sequence [OF vs, of "[]" 0 n] n by (simp add: jsmn_parse_def jsmn_init_def parser_of_def tx us)
  moreover have "tk_start t \<le> tk_end t" if "t \<in> set us" for t
    using items that by (auto simp: item_of_def list_all2_conv_all_nth in_set_conv_nth)
  then have "apart us" using sorted_apart [OF sequence_sorted [OF vs, of 0]] by (simp add: us)
  then have "request_ok tx us (tokens (parser_of n us))"
    using n by (auto simp: request_ok_def parser_of_def us Suc_diff_le)
  moreover have "length (tokens (parser_of n us)) = Suc n" using n by (simp add: parser_of_def us)
  moreover have "reading tx us \<lparr>js = tx @ [CHR 0x00], token_ptr = 0, calls = [], contexts = []\<rparr> (concat (map (\<lambda>(v, sep). json_items v) vs))"
    using items readable_init by (simp add: reading_def)
  ultimately show ?thesis by blast
qed

section \<open>Settings\<close>

text \<open>A file of settings, one to a line. A list of modules is written in brackets.\<close>

datatype setting =
    Mail_to string
  | Mail_from string
  | Modules_dir string
  | Http_dir string
  | Http_port string
  | Smtp_host string
  | Use_sendmail string
  | Enabled_modules "string list"

fun setting_text :: "setting \<Rightarrow> string \<times> json_value" where
  "setting_text (Mail_to v) = (''default-email-to'', Prim v)"
| "setting_text (Mail_from v) = (''default-email-from'', Prim v)"
| "setting_text (Modules_dir v) = (''modules-dir'', Prim v)"
| "setting_text (Http_dir v) = (''http-dir'', Prim v)"
| "setting_text (Http_port v) = (''http-port'', Prim v)"
| "setting_text (Smtp_host v) = (''smtp-hostname'', Prim v)"
| "setting_text (Use_sendmail v) = (''use-sendmail'', Prim v)"
| "setting_text (Enabled_modules ms) = (''enabled-modules'', Group False (elements (map Prim ms)))"

definition config_values :: "setting list \<Rightarrow> (json_value \<times> string) list" where
  "config_values xs = concat (map (\<lambda>x. [(Prim (fst (setting_text x)), '': ''), (snd (setting_text x), [CHR 0x0A])]) xs)"

definition config_text :: "setting list \<Rightarrow> string" where
  "config_text xs = members_text (config_values xs)"

text \<open>Words have none of the characters that end a word; modules have names of two characters or more.\<close>

fun setting_ok :: "setting \<Rightarrow> bool" where
  "setting_ok (Enabled_modules ms) = (\<forall>m \<in> set ms. plain_primitive m \<and> 2 \<le> length m)"
| "setting_ok x = (case snd (setting_text x) of Prim v \<Rightarrow> plain_primitive v | _ \<Rightarrow> False)"

fun configure :: "setting \<Rightarrow> server_config \<Rightarrow> server_config" where
  "configure (Mail_to v) c = c\<lparr>alert_email_to := v\<rparr>"
| "configure (Mail_from v) c = c\<lparr>alert_email_from := v\<rparr>"
| "configure (Modules_dir v) c = c\<lparr>modules_path := v\<rparr>"
| "configure (Http_dir v) c = c\<lparr>http_root := v\<rparr>"
| "configure (Http_port v) c = c\<lparr>http_port := v\<rparr>"
| "configure (Smtp_host v) c = c\<lparr>smtp_hostname := v\<rparr>"
| "configure (Use_sendmail v) c = (if v = ''true'' then c\<lparr>use_sendmail := True\<rparr> else c)"
| "configure (Enabled_modules ms) c = c\<lparr>enabled_modules := map Some ms\<rparr>"

text \<open>The word fits the field it is copied into.\<close>

fun setting_fits :: "setting \<Rightarrow> bool" where
  "setting_fits (Mail_to v) \<longleftrightarrow> length v < EMAIL_MAX"
| "setting_fits (Mail_from v) \<longleftrightarrow> length v < EMAIL_MAX"
| "setting_fits (Modules_dir v) \<longleftrightarrow> length v < FILEPATH_MAX"
| "setting_fits (Http_dir v) \<longleftrightarrow> length v < FILEPATH_MAX"
| "setting_fits (Http_port v) \<longleftrightarrow> length v < HTTP_PORT_MAX"
| "setting_fits (Smtp_host v) \<longleftrightarrow> length v < HOSTNAME_MAX"
| "setting_fits x = True"

lemma elements_words: "\<forall>v \<in> set vs. plain v \<Longrightarrow> members_ok plain (elements vs)"
  by (induction vs rule: elements.induct) (auto simp: blank_def)

lemma setting_plain:
  assumes "setting_ok x"
  shows "plain (Prim (fst (setting_text x))) \<and> plain (snd (setting_text x))"
proof
  show "plain (Prim (fst (setting_text x)))"
    by (cases x) (simp_all add: plain_primitive_def primitive_char_def primitive_stop_def)
  show "plain (snd (setting_text x))" using assms by (cases x) (simp_all add: elements_words)
qed

lemma members_ok_append:
  "members_ok f vs \<Longrightarrow> members_ok f ws \<Longrightarrow> \<forall>(v, sep) \<in> set vs. sep \<noteq> [] \<Longrightarrow> members_ok f (vs @ ws)"
  by (induction f vs rule: members_ok.induct) auto

lemma config_plain: "\<forall>x \<in> set xs. setting_ok x \<Longrightarrow> members_ok plain (config_values xs)"
proof (induction xs)
  case (Cons x xs)
  have "members_ok plain [(Prim (fst (setting_text x)), '': ''), (snd (setting_text x), [CHR 0x0A])]"
    using setting_plain [of x] Cons.prems by (simp add: blank_def)
  from members_ok_append [OF this Cons.IH] Cons.prems show ?case by (simp add: config_values_def)
qed (simp add: config_values_def)

section \<open>Reading the configuration\<close>

lemma config_word_read:
  assumes ok: "request_ok tx us ts" and s: "reading tx us s (Literal key # Literal w # its)" and w: "CHR 0x00 \<notin> set w"
  shows "\<exists>s'. (\<forall>put c. config_word put ts c s = map_option (\<lambda>c. (c, s')) (put w c)) \<and> reading tx us s' its"
proof -
  have "reading tx us (consume s) (Literal w # its)" using next_item [OF ok s] by blast
  from read_leaf [OF ok this _ w, of JSMN_PRIMITIVE] obtain t k s' where t: "token ts (consume s) = Some t" "is_token JSMN_PRIMITIVE t"
    "json_token_to_str t (consume s) = (k, s')" "reading tx us (consume s') its" "holds tx us (js (consume s')) k w" by blast
  have "c_string (js s') k = w" using holds_string [of us tx, OF _ t(5)] ok by (simp add: request_ok_def consume_def)
  then show ?thesis using t by (intro exI [of _ "consume s'"]) (simp add: config_word_def)
qed

lemma modules_read:
  assumes ok: "request_ok tx us ts"
  shows "\<forall>m \<in> set ms. plain_primitive m \<Longrightarrow> reading tx us s (map Literal ms @ its) \<Longrightarrow>
    \<exists>s'. read_modules (length ms) ts s = Some (map Some ms, s') \<and> reading tx us s' its"
proof (induction ms arbitrary: s)
  case (Cons m ms)
  have z: "CHR 0x00 \<notin> set m" using Cons.prems(1) no_zero by auto
  have s: "reading tx us s (Literal m # map Literal ms @ its)" using Cons.prems(2) by simp
  obtain t k s1 where t: "token ts s = Some t" "is_token JSMN_PRIMITIVE t" "json_token_to_str t s = (k, s1)"
    "reading tx us (consume s1) (map Literal ms @ its)" "holds tx us (js (consume s1)) k m"
    using read_leaf [OF ok s _ z, of JSMN_PRIMITIVE] by blast
  have "c_string (js s1) k = m" using holds_string [of us tx, OF _ t(5)] ok by (simp add: request_ok_def consume_def)
  moreover obtain s' where "read_modules (length ms) ts (consume s1) = Some (map Some ms, s')" "reading tx us s' its"
    using Cons.IH [OF _ t(4)] Cons.prems(1) by auto
  ultimately show ?case using t(1-3) by simp
qed simp

lemma modules_items: "concat (map (\<lambda>(v, sep). json_items v) (elements (map Prim ms))) = map Literal ms"
  unfolding items_elements by (induction ms) simp_all

lemma field_copy:
  "sstrncpy v EMAIL_MAX = (if length v < EMAIL_MAX then Some v else None)"
  "sstrncpy v FILEPATH_MAX = (if length v < FILEPATH_MAX then Some v else None)"
  "sstrncpy v HTTP_PORT_MAX = (if length v < HTTP_PORT_MAX then Some v else None)"
  "sstrncpy v HOSTNAME_MAX = (if length v < HOSTNAME_MAX then Some v else None)"
  by (simp_all add: sstrncpy_fits EMAIL_MAX_def FILEPATH_MAX_def HTTP_PORT_MAX_def HOSTNAME_MAX_def)

lemma setting_read:
  assumes ok: "request_ok tx us ts" and x: "setting_ok x"
    and s: "reading tx us s (Literal (fst (setting_text x)) # json_items (snd (setting_text x)) @ its)"
  shows "\<exists>t s'. token ts s = Some t \<and> is_valid_token t \<and>
    config_tuple ts t c s = (if setting_fits x then Some (configure x c, s') else None) \<and> reading tx us s' its"
proof -
  obtain t where t: "token ts s = Some t" "item_of tx t (Literal (fst (setting_text x)))" "t \<in> set us"
    "reading tx us (consume s) (json_items (snd (setting_text x)) @ its)" using next_item [OF ok s] by blast
  have key: "json_token_streq (js s) t v \<longleftrightarrow> fst (setting_text x) = v" for v using item_streq [OF ok s t(3)] t(2) by blast
  have ty: "tk_type t = JSMN_PRIMITIVE" "is_valid_token t" using t(2) item_kinds(2) [OF t(2)] item_kinds(5) by (auto simp: is_token_def)
  have word: "\<exists>s'. (\<forall>put c. config_word put ts c s = map_option (\<lambda>c. (c, s')) (put w c)) \<and> reading tx us s' its"
    if "snd (setting_text x) = Prim w" "plain_primitive w" for w
    using config_word_read [OF ok _ no_zero(2) [OF that(2)], of s "fst (setting_text x)" its] s that(1) by simp
  have "\<exists>s'. config_tuple ts t c s = (if setting_fits x then Some (configure x c, s') else None) \<and> reading tx us s' its"
  proof (cases x)
    case (Enabled_modules ms)
    have "reading tx us (consume s) (Bracket False (length ms) # map Literal ms @ its)"
      using t(4) by (simp add: Enabled_modules modules_items del: map_map)
    then obtain u where u: "token ts (consume s) = Some u" "is_token JSMN_ARRAY u" "tk_size u = int (length ms)"
      "reading tx us (consume (consume s)) (map Literal ms @ its)"
      using read_bracket [OF ok, of "consume s" False "length ms" "map Literal ms @ its"] by (auto simp: group_type_def)
    from modules_read [OF ok _ u(4)] x u show ?thesis by (auto simp: Enabled_modules config_tuple_def key ty config_modules_def)
  qed (use x word in \<open>force simp: config_tuple_def key ty copied_def field_copy\<close>)+
  then show ?thesis using t(1) ty by blast
qed

lemma settings_read:
  assumes ok: "request_ok tx us ts"
  shows "\<forall>x \<in> set xs. setting_ok x \<Longrightarrow>
    reading tx us s (concat (map (\<lambda>x. Literal (fst (setting_text x)) # json_items (snd (setting_text x))) xs)) \<Longrightarrow>
    \<exists>s'. parse_tuples ts c s =
      (if \<forall>x \<in> set xs. setting_fits x then Some (foldl (\<lambda>c x. configure x c) c xs, s') else None)"
proof (induction xs arbitrary: s c)
  case Nil
  then obtain t where "token ts s = Some t" "\<not> is_valid_token t" using no_item [OF ok] by auto
  then show ?case by simp
next
  case (Cons x xs)
  obtain t s' where "token ts s = Some t" "is_valid_token t" 
    "config_tuple ts t c s = (if setting_fits x then Some (configure x c, s') else None)"
    "reading tx us s' (concat (map (\<lambda>x. Literal (fst (setting_text x)) # json_items (snd (setting_text x))) xs))"
    using setting_read [OF ok, of x s "concat (map (\<lambda>x. Literal (fst (setting_text x)) # json_items (snd (setting_text x))) xs)" c] Cons.prems
    by auto
  then show ?case using Cons.IH [of s' "configure x c"] Cons.prems(1) by auto
qed

text \<open>Enough tokens for every configuration.\<close>

lemma setting_length:
  assumes "setting_ok x"
  shows "5 * Suc (length (json_items (snd (setting_text x)))) + 8 \<le> 2 * (length (fst (setting_text x)) + 3 + length (json_text (snd (setting_text x))))"
proof (cases x)
  case (Enabled_modules ms)
  have "\<forall>m \<in> set ms. 2 \<le> length m" using assms by (simp add: Enabled_modules)
  then have "sum_list (map (\<lambda>v. Suc (length (json_text v))) (map Prim ms)) \<ge> 3 * length ms" by (induction ms) auto
  then have "3 * length ms \<le> length (members_text (elements (map Prim ms))) + 1" using elements_length [of "map Prim ms"] by linarith
  then show ?thesis by (simp add: Enabled_modules modules_items del: map_map)
qed (use assms in \<open>auto simp: plain_primitive_def Suc_le_eq\<close>)

lemma config_items:
  "concat (map (\<lambda>(v, sep). json_items v) (config_values xs)) =
     concat (map (\<lambda>x. Literal (fst (setting_text x)) # json_items (snd (setting_text x))) xs)"
  by (induction xs) (simp_all add: config_values_def)

lemma config_room:
  assumes "\<forall>x \<in> set xs. setting_ok x"
  shows "length (members json_tokens 0 (config_values xs)) \<le> calc_max_tokens (config_text xs)"
proof -
  have "5 * length (concat (map (\<lambda>(v, sep). json_items v) (config_values xs))) + 8 * length xs \<le> 2 * length (config_text xs)"
    using assms
  proof (induction xs)
    case (Cons x xs)
    then show ?case using setting_length [of x] by (simp add: config_text_def config_values_def)
  qed (simp add: config_values_def)
  moreover have "length (members json_tokens 0 (config_values xs)) = length (concat (map (\<lambda>(v, sep). json_items v) (config_values xs)))"
    using sequence_items [OF config_plain [OF assms], of "[]" "[]"] by (auto dest: list_all2_lengthD)
  ultimately have le: "5 * length (members json_tokens 0 (config_values xs)) + 8 * length xs \<le> 2 * length (config_text xs)" by simp
  show ?thesis
  proof (cases "xs = []")
    case False
    then have "0 < length xs" by simp
    then show ?thesis using le unfolding calc_max_tokens_def by linarith
  qed (simp add: config_values_def)
qed

lemma config_understood:
  assumes "\<forall>x \<in> set xs. setting_ok x"
  shows "config_parse_configuration (config_text xs) c =
    (if \<forall>x \<in> set xs. setting_fits x then Some (True, foldl (\<lambda>c x. configure x c) c xs) else None)"
proof -
  define tx where "tx = config_text xs"
  obtain q where q: "jsmn_parse tx (calc_max_tokens tx) (jsmn_init (Suc (calc_max_tokens tx))) = (JSMN_SUCCESS, q)"
    "request_ok tx (members json_tokens 0 (config_values xs)) (tokens q)"
    "reading tx (members json_tokens 0 (config_values xs)) \<lparr>js = tx @ [CHR 0x00], token_ptr = 0, calls = [], contexts = []\<rparr>
      (concat (map (\<lambda>x. Literal (fst (setting_text x)) # json_items (snd (setting_text x))) xs))"
    using sequence_tokenised [OF config_plain [OF assms] config_room [OF assms] config_text_def refl] by (auto simp: tx_def config_items)
  from settings_read [OF q(2) assms q(3), of c] show ?thesis
    using q(1) by (auto simp: config_parse_configuration_def tx_def [symmetric] simp del: parse_tuples.simps)
qed

lemma c_string_all: "CHR 0x00 \<notin> set s \<Longrightarrow> c_string s 0 = s"
  by (auto simp: c_string_def takeWhile_eq_all_conv)

lemma file_understood:
  assumes "\<forall>x \<in> set xs. setting_ok x" and "length (config_text xs) < CONFIG_MAXBUFLEN"
  shows "config_parse (Some (config_text xs)) c =
    (if \<forall>x \<in> set xs. setting_fits x then Some (True, foldl (\<lambda>c x. configure x c) c xs) else None)"
proof -
  have "CHR 0x00 \<notin> set (config_text xs)" using members_no_zero [OF config_plain [OF assms(1)]] by (simp add: config_text_def)
  then show ?thesis
    using config_understood [OF assms(1), of c] assms(2) by (simp add: config_parse_def c_string_all Let_def)
qed

section \<open>A setting without a value\<close>

definition setting_words :: "string set" where
  "setting_words = {''default-email-to'', ''default-email-from'', ''modules-dir'', ''http-dir'', ''http-port'', ''smtp-hostname'',
     ''use-sendmail'', ''enabled-modules''}"

lemma setting_words_plain: "\<forall>w \<in> setting_words. plain_primitive w"
proof -
  have "list_all plain_primitive [''default-email-to'', ''default-email-from'', ''modules-dir'', ''http-dir'', ''http-port'',
    ''smtp-hostname'', ''use-sendmail'', ''enabled-modules'']" by code_simp
  then show ?thesis by (simp add: setting_words_def)
qed

text \<open>Words that are no settings are skipped.\<close>

lemma other_words_read:
  assumes ok: "request_ok tx us ts"
  shows "\<forall>w \<in> set ws. plain_primitive w \<and> w \<notin> setting_words \<Longrightarrow> reading tx us s (map Literal ws @ its) \<Longrightarrow>
    \<exists>s'. parse_tuples ts c s = parse_tuples ts c s' \<and> reading tx us s' its"
proof (induction ws arbitrary: s)
  case (Cons w ws)
  have z: "CHR 0x00 \<notin> set w" "w \<notin> setting_words" using Cons.prems(1) no_zero by auto
  have s: "reading tx us s (Literal w # map Literal ws @ its)" using Cons.prems(2) by simp
  obtain t k s1 where t: "token ts s = Some t" "is_token JSMN_PRIMITIVE t" "json_token_to_str t s = (k, s1)"
    "\<forall>v. json_token_streq (js s) t v \<longleftrightarrow> w = v" "reading tx us (consume s1) (map Literal ws @ its)"
    using read_leaf [OF ok s _ z(1), of JSMN_PRIMITIVE] by blast
  have "config_tuple ts t c s = Some (c, consume s1)"
    using t(2-4) z(2) by (simp add: config_tuple_def is_token_def setting_words_def)
  then have e: "parse_tuples ts c s = parse_tuples ts c (consume s1)" using t(1,2) by (subst parse_tuples.simps) (simp add: is_token_def)
  obtain s' where "parse_tuples ts c (consume s1) = parse_tuples ts c s'" "reading tx us s' its"
    using Cons.IH [OF _ t(5)] Cons.prems(1) by auto
  then show ?case using e by (intro exI [of _ s']) (simp only: simp_thms)
qed auto

lemma past_the_end: "token_ptr s = length ts \<Longrightarrow> parse_tuples ts c s = None"
  by (subst parse_tuples.simps) (simp add: token_def)

lemma last_setting_overruns:
  assumes ok: "request_ok tx us ts" and l: "length ts = Suc (length us)"
    and key: "key \<in> setting_words - {''enabled-modules''}" and s: "reading tx us s [Literal key]"
  shows "parse_tuples ts c s = None"
proof -
  obtain t where t: "token ts s = Some t" "item_of tx t (Literal key)" "t \<in> set us" "reading tx us (consume s) []"
    using next_item [OF ok s] by blast
  have k: "json_token_streq (js s) t v \<longleftrightarrow> key = v" for v using item_streq [OF ok s t(3)] t(2) by blast
  have p: "is_token JSMN_PRIMITIVE t" using item_kinds(2) [OF t(2)] by simp
  obtain u where u: "token ts (consume s) = Some u" "\<not> is_valid_token u" using no_item [OF ok t(4)] by blast
  have "config_word put ts c s = Some (c, consume (consume s))" for put using u by (simp add: config_word_def is_token_def)
  then have "config_tuple ts t c s = Some (c, consume (consume s))"
    using key p by (auto simp: config_tuple_def k is_token_def setting_words_def)
  moreover have "token_ptr (consume s) = length us" using t(4) by (simp add: reading_def)
  then have "token_ptr (consume (consume s)) = length ts" using l by (simp add: consume_def)
  ultimately show ?thesis
    using t(1) p past_the_end by (subst parse_tuples.simps) (simp add: is_token_def del: parse_tuples.simps)
qed

lemma configuration_reads_on:
  assumes ws: "\<forall>(w, sep) \<in> set ws. plain_primitive w \<and> w \<notin> setting_words \<and> sep \<noteq> [] \<and> list_all blank sep"
    and key: "key \<in> setting_words - {''enabled-modules''}" and tx: "tx = concat (map (\<lambda>(w, sep). w @ sep) ws) @ key"
    and full: "calc_max_tokens tx = Suc (length ws)" and len: "length tx < CONFIG_MAXBUFLEN"
  shows "config_parse (Some tx) c = None"
proof -
  define vs where "vs = map (\<lambda>(w, sep). (Prim w, sep)) ws @ [(Prim key, [])]"
  define us where "us = members json_tokens 0 vs"
  have k: "plain_primitive key" using key setting_words_plain by blast
  have mt: "members_text (map (\<lambda>(w, sep). (Prim w, sep)) ws @ [(Prim key, [])]) = concat (map (\<lambda>(w, sep). w @ sep) ws) @ key"
    by (induction ws) auto
  then have tv: "tx = members_text vs" by (simp add: tx vs_def)
  have m: "members_ok plain vs"
    unfolding vs_def by (rule members_ok_append) (use ws k in \<open>induction ws, auto\<close>)
  have it: "concat (map (\<lambda>(v, sep). json_items v) vs) = map Literal (map fst ws) @ [Literal key]"
    unfolding vs_def by (induction ws) auto
  have l: "length us = Suc (length ws)"
    using list_all2_lengthD [OF sequence_items [OF m, of "[]" "[]"]] unfolding it by (simp add: us_def)
  obtain q where q: "jsmn_parse tx (calc_max_tokens tx) (jsmn_init (Suc (calc_max_tokens tx))) = (JSMN_SUCCESS, q)"
    "request_ok tx us (tokens q)" "length (tokens q) = Suc (calc_max_tokens tx)"
    "reading tx us \<lparr>js = tx @ [CHR 0x00], token_ptr = 0, calls = [], contexts = []\<rparr> (map Literal (map fst ws) @ [Literal key])"
    using sequence_tokenised [OF m _ tv us_def, of "calc_max_tokens tx"] l full unfolding it us_def by auto
  have w: "\<forall>w \<in> set (map fst ws). plain_primitive w \<and> w \<notin> setting_words" using ws by auto
  obtain s' where "parse_tuples (tokens q) c \<lparr>js = tx @ [CHR 0x00], token_ptr = 0, calls = [], contexts = []\<rparr> = parse_tuples (tokens q) c s'"
    "reading tx us s' [Literal key]" using other_words_read [OF q(2) w q(4), of c] by blast
  then have "parse_tuples (tokens q) c \<lparr>js = tx @ [CHR 0x00], token_ptr = 0, calls = [], contexts = []\<rparr> = None"
    using last_setting_overruns [OF q(2) _ key, of s' c] l full q(3) by simp
  then have "config_parse_configuration tx c = None" using q(1) by (simp add: config_parse_configuration_def del: parse_tuples.simps)
  moreover have "CHR 0x00 \<notin> set tx" using members_no_zero [OF m] by (simp add: tv)
  ultimately show ?thesis using len by (simp add: config_parse_def c_string_all Let_def)
qed

section \<open>Modules\<close>

text \<open>The names that are modules, by the name alone.\<close>

definition module_file :: "string \<Rightarrow> bool" where
  "module_file f \<longleftrightarrow> take 1 f \<noteq> ''.'' \<and>
     (\<forall>e \<in> {''~'', ''.conf'', ''_conf.py'', ''_conf.pyc'', ''_conf.pyo'', ''.pyc''}. \<not> (\<exists>r. f = r @ e))"

lemma ends_with: "str_ends_with f e \<longleftrightarrow> (\<exists>r. f = r @ e)"
proof
  assume "str_ends_with f e"
  then have "drop (length f - length e) f = e" by (simp add: str_ends_with_def)
  then have "f = take (length f - length e) f @ e" using append_take_drop_id [of "length f - length e" f] by simp
  then show "\<exists>r. f = r @ e" by blast
qed (auto simp: str_ends_with_def)

lemma configured: "configured_in (map Some ms) f = Some (f \<in> set ms)"
  by (induction ms) auto

lemma valid_module: "enabled_modules c = map Some ms \<Longrightarrow> is_valid_module c f = Some (f \<in> set ms \<and> module_file f)"
  by (simp add: is_valid_module_def is_configured_module_def configured ends_with module_file_def)

lemma valid_entries:
  "enabled_modules c = map Some ms \<Longrightarrow> valid_modules c fs = Some (filter (\<lambda>f. f \<in> set ms \<and> module_file f) fs)"
  by (induction fs) (simp_all add: valid_module)

lemma modules_found:
  assumes "enabled_modules c = map Some ms" and "xs = filter (\<lambda>f. f \<in> set ms \<and> module_file f) fs"
    and "ys = filter (\<lambda>f. f \<in> set ms \<and> module_file f) gs"
  shows "modules_init c path (Some fs) (Some gs) =
    (if xs = [] then Some \<lparr>module_names = None, module_dir = path\<rparr>
     else if length ys \<le> length xs then Some \<lparr>module_names = Some ys, module_dir = path\<rparr> else None)"
  using valid_entries [OF assms(1)] by (simp add: modules_init_def assms(2,3))

text \<open>What a module prints, when it prints commands.\<close>

lemma printed_request:
  assumes "\<forall>c \<in> set cs. command_ok c" and "length (json_text (request_json cs)) \<le> MAXBUFLEN"
  shows "printed (json_text (request_json cs)) = json_text (request_json cs)"
  using text_no_zero [OF request_plain [OF assms(1)]] assms(2) by (simp add: printed_def c_string_all)

lemma process_request:
  assumes "\<forall>c \<in> set cs. command_ok c" and "cs \<noteq> []"
  shows "process_json_request module (json_text (request_json cs)) (ctxs, db) =
    (if \<forall>c \<in> set cs. command_fits module c
     then map_option (\<lambda>db. (True, ctxs @ requests_contexts module cs, db)) (run_calls (requests_calls module (length ctxs) cs) db)
     else None)"
  using request_understood [OF assms] by (simp add: process_json_request_def map_option_case split: option.split)

lemma request_text_exists: "json_text (request_json cs) \<noteq> []"
  by (simp add: request_json_def json_object_def)

text \<open>The calls of the configurations of several modules.\<close>

fun modules_calls :: "nat \<Rightarrow> (name \<times> module_command list) list \<Rightarrow> api_call list" where
  "modules_calls k [] = []"
| "modules_calls k ((m, cs) # ps) = requests_calls m k cs @ modules_calls (k + length (requests_contexts m cs)) ps"

definition modules_contexts :: "(name \<times> module_command list) list \<Rightarrow> server_context list" where
  "modules_contexts ps = concat (map (\<lambda>(m, cs). requests_contexts m cs) ps)"

text \<open>A module that prints commands when it is asked for its configuration.\<close>

definition prints_commands :: "(string \<Rightarrow> answer) \<Rightarrow> string \<Rightarrow> name \<times> module_command list \<Rightarrow> bool" where
  "prints_commands run path p = (case p of (m, cs) \<Rightarrow>
     length m \<le> MAXBUFLEN div 2 \<and> run (path @ ''/'' @ m @ '' --conf'') = Some (json_text (request_json cs), 0) \<and>
     cs \<noteq> [] \<and> (\<forall>c \<in> set cs. command_ok c \<and> command_fits m c) \<and> length (json_text (request_json cs)) \<le> MAXBUFLEN)"

lemma run_calls_append: "run_calls (xs @ ys) db = Option.bind (run_calls xs db) (run_calls ys)"
proof (induction xs arbitrary: db)
  case (Cons a xs)
  then have "run_calls (xs @ ys) = (\<lambda>db. Option.bind (run_calls xs db) (run_calls ys))" by (rule ext)
  then show ?case by simp
qed simp

lemma modules_configured:
  "\<forall>p \<in> set ps. prints_commands run path p \<Longrightarrow>
    configure_modules run path (map fst ps) ret (ctxs, db) =
      map_option (\<lambda>db. (ret \<or> ps \<noteq> [], ctxs @ modules_contexts ps, db)) (run_calls (modules_calls (length ctxs) ps) db)"
proof (induction ps arbitrary: ret ctxs db)
  case (Cons p ps)
  obtain m cs where p: "p = (m, cs)" by (rule prod.exhaust)
  have m: "length m \<le> MAXBUFLEN div 2" "run (path @ ''/'' @ m @ '' --conf'') = Some (json_text (request_json cs), 0)" "cs \<noteq> []"
    "\<forall>c \<in> set cs. command_ok c" "length (json_text (request_json cs)) \<le> MAXBUFLEN" "\<forall>c \<in> set cs. command_fits m c"
    using Cons.prems by (simp_all add: prints_commands_def p)
  show ?case
  proof (cases "run_calls (requests_calls m (length ctxs) cs) db")
    case None
    then show ?thesis using m process_request [OF m(4,3), of m ctxs db] printed_request [OF m(4,5)] request_text_exists [of cs]
      by (simp add: p run_calls_append)
  next
    case (Some db')
    then show ?thesis using m process_request [OF m(4,3), of m ctxs db] printed_request [OF m(4,5)] request_text_exists [of cs]
        Cons.IH [of True "ctxs @ requests_contexts m cs" db'] Cons.prems
      by (simp add: p run_calls_append modules_contexts_def)
  qed
qed (simp add: modules_contexts_def)

end
