(* ===== verification/ApiFacts.thy ===== *)
theory ApiFacts
  imports ApiCalls
begin

text \<open>
  Lemmas for the properties of the client API: names, entries on objects that exist, the graph of
  the inputs of the rules.
\<close>

section \<open>Names\<close>

definition name_char :: "char \<Rightarrow> char" where
  "name_char c = (if c = CHR '' '' \<or> c = MYREFL_NAME_SEPERATOR then CHR ''_'' else c)"

lemma convert_loop_map: "convert_loop k n = map name_char (take (MYREFL_MAX_NAME_LEN - k) n)"
proof (induction k n rule: convert_loop.induct)
  case (2 k c cs)
  then show ?case
    by (cases "k < MYREFL_MAX_NAME_LEN") (auto simp: name_char_def Suc_diff_Suc [symmetric])
qed simp

lemma convert_name_map: "myrefl_api_convert_name n = map name_char (take MYREFL_MAX_NAME_LEN n)"
  by (simp add: myrefl_api_convert_name_def convert_loop_map)

lemma name_char_idem [simp]: "name_char (name_char c) = name_char c"
  by (simp add: name_char_def MYREFL_NAME_SEPERATOR_def)

section \<open>Entries on an object that exists\<close>

text \<open>The object that a client's name leads to.\<close>

definition named :: "db \<Rightarrow> name \<Rightarrow> oid \<Rightarrow> bool" where
  "named db n x \<longleftrightarrow> n \<noteq> [] \<and> lookup db (myrefl_api_convert_name n) = Some x \<and>
     i_state (inst db (base x)) \<noteq> STATE_ALLOCATED \<and> i_state (inst db (base x)) \<noteq> STATE_DELETED"

lemma named_typed_lookup:
  assumes "tree_inv db" and "lookup db n = Some x" and "ty = TYPE_ANY \<or> type_of db x = ty"
  shows "myrefl_obj_get_by_name db (Some n) ty = Some (Some x)"
proof (cases "ty = TYPE_ANY")
  case True
  then show ?thesis using by_name_lookup [OF assms(1)] assms(2) by simp
next
  case False
  have t: "tree_ok db" "names_ok db" "system_comp db \<noteq> None" using assms(1) by (simp_all add: tree_inv_def)
  note x = lookup_Some [OF assms(2)]
  then obtain ty' where ty': "x \<in> set (sys_objs ty' db)" by (auto simp: set_lookup_order)
  with sys_objs_typed [OF t(1) this] False assms(3) have "x \<in> set (sys_objs ty db)" by simp
  then have "List.find (has_name db n) (sys_objs ty db) = Some x"
  proof (rule find_unique)
    show "y = x" if "y \<in> set (sys_objs ty db)" "has_name db n y" for y
    proof (rule inj_onD [OF t(2) [unfolded names_ok_def]])
      show "y \<in> set (lookup_order TYPE_ANY db)" using that(1) False by (auto simp: set_lookup_order)
    qed (use that x in \<open>simp_all add: has_name_def\<close>)
  qed (use x in \<open>simp add: has_name_def\<close>)
  then show ?thesis using by_name_finds [OF t(1,3)] False by (simp add: lookup_order_def)
qed

lemma named_get:
  assumes "tree_inv db" and "named db n x" and "ty = TYPE_ANY \<or> type_of db x = ty"
  shows "myrefl_api_get_or_create n ty db = Some (Some x, db)"
  using get_existing [OF assms(1), of "myrefl_api_convert_name n" x ty] assms(2,3)
  by (auto simp: named_def myrefl_api_get_or_create_def)

lemma named_object:
  assumes "tree_inv db" and "named db n x" and "ty = TYPE_ANY \<or> type_of db x = ty"
  shows "api_object (Some n) ty f db = f x db"
  using named_get [OF assms] assms(2) by (simp add: api_object_def badstr_def named_def)

lemma named_lookup:
  assumes "tree_inv db" and "named db n x" and "ty = TYPE_ANY \<or> type_of db x = ty"
  shows "api_lookup (Some n) ty f db = f x db"
  using named_typed_lookup [OF assms(1) _ assms(3)] assms(2)
  by (simp add: api_lookup_def badstr_def named_def myrefl_obj_get_by_name_unconverted_def)

section \<open>The graph of the inputs\<close>

definition feeds :: "db \<Rightarrow> (oid \<times> oid) set" where
  "feeds db = {(x, y). \<exists>r. rule_of db x = Some r \<and> y \<in> set (r_inputs r)}"

text \<open>What the search with \<open>n\<close> levels finds: the target, or a chain that is too long.\<close>

lemma input_search_iff:
  "input_search n db x target \<longleftrightarrow> (x, target) \<in> (feeds db)\<^sup>+ \<or> (\<exists>z. (x, z) \<in> feeds db ^^ n)"
proof (induction n arbitrary: x)
  case (Suc n)
  have "input_search (Suc n) db x target \<longleftrightarrow> (\<exists>y. (x, y) \<in> feeds db \<and> (y = target \<or> input_search n db y target))"
    by (auto simp: feeds_def list_ex_iff split: option.splits)
  also have "\<dots> \<longleftrightarrow> (\<exists>y. (x, y) \<in> feeds db \<and> (y = target \<or> (y, target) \<in> (feeds db)\<^sup>+)) \<or>
      (\<exists>y z. (x, y) \<in> feeds db \<and> (y, z) \<in> feeds db ^^ n)"
    unfolding Suc.IH by blast
  also have "(\<exists>y. (x, y) \<in> feeds db \<and> (y = target \<or> (y, target) \<in> (feeds db)\<^sup>+)) \<longleftrightarrow> (x, target) \<in> (feeds db)\<^sup>+"
    by (metis converse_tranclE r_into_trancl' trancl_into_trancl2)
  also have "(\<exists>y z. (x, y) \<in> feeds db \<and> (y, z) \<in> feeds db ^^ n) \<longleftrightarrow> (\<exists>z. (x, z) \<in> feeds db ^^ Suc n)"
    by (metis relpow_Suc_D2 relpow_Suc_I2)
  finally show ?case .
qed simp

lemma input_search_complete: "\<not> input_search n db x target \<Longrightarrow> (x, target) \<notin> (feeds db)\<^sup>+"
  by (simp add: input_search_iff)

lemma rule_reads [simp]:
  "rule_of (set_rule x f db) = (rule_of db)(x := map_option f (rule_of db x))"
  "rule_of (set_test x g db) = rule_of db"
  "rule_of (upd_obj x (\<lambda>ob. ob\<lparr>o_ref_rule := v\<rparr>) db) = rule_of db"
  by (auto simp: fun_eq_iff set_rule_def set_test_def upd_obj_def rule_of_def split: obj_data.split)

lemma set_input_head_rules [simp]:
  "rule_of (set_input_head x v db) = (rule_of db)(x := map_option (\<lambda>r. r\<lparr>r_output := v\<rparr>) (rule_of db x))"
proof (cases "o_data (objs db x)")
  case (DRule r)
  then show ?thesis by (simp add: set_input_head_def)
qed (auto simp: set_input_head_def fun_eq_iff rule_of_def)

lemma set_next_rule_rules [simp]:
  "rule_of (set_next_rule x v db) = (rule_of db)(x := map_option (\<lambda>r. r\<lparr>r_next_in_input := v\<rparr>) (rule_of db x))"
  by (simp add: set_next_rule_def)

lemma link_input_inputs:
  "map_option r_inputs (rule_of (link_input rule x db) y) =
    map_option (\<lambda>r. if y = rule then list_add x (r_inputs r) else r_inputs r) (rule_of db y)"
  by (cases "rule_of db y") (auto simp: link_input_def Let_def split: option.split)

text \<open>Ranks after a new input: the rules that the rule feeds are lifted above the input.\<close>

lemma link_input_type: "type_of (link_input rule x db) = type_of db"
proof -
  have r: "type_of (set_rule y f s) = type_of s" "type_of (set_test y g s) = type_of s"
    "type_of (upd_obj y (\<lambda>ob. ob\<lparr>o_ref_rule := v\<rparr>) s) = type_of s" for y f g v s
    by (auto simp: fun_eq_iff set_rule_def set_test_def upd_obj_def type_of_def split: obj_data.split)
  have "type_of (set_input_head y v s) = type_of s" for y v s
    by (simp add: set_input_head_def r split: obj_data.split)
  then show ?thesis by (simp add: link_input_def Let_def set_next_rule_def r split: option.split)
qed

lemma link_input_ranked:
  assumes rk: "inputs_ranked rank db" and new: "x \<noteq> rule" "(x, rule) \<notin> (feeds db)\<^sup>+"
  shows "\<exists>rank'. inputs_ranked rank' (link_input rule x db)"
proof -
  define above where "above y \<longleftrightarrow> y = rule \<or> (y, rule) \<in> (feeds db)\<^sup>+" for y
  define rank' where "rank' y = rank y + (if above y then Suc (rank x) else 0)" for y
  have "rank' z < rank' y"
    if r: "rule_of (link_input rule x db) y = Some r'" and z: "z \<in> set (r_inputs r')" and t: "type_of db z \<noteq> TYPE_TEST" for y z r'
  proof -
    obtain r where r1: "rule_of db y = Some r" and i: "r_inputs r' = (if y = rule then list_add x (r_inputs r) else r_inputs r)"
      using link_input_inputs [of rule x db y] r by (cases "rule_of db y") auto
    show ?thesis
    proof (cases "z \<in> set (r_inputs r)")
      case True
      then have e: "(y, z) \<in> feeds db" using r1 by (auto simp: feeds_def)
      then have "above y" if "above z" using that by (auto simp: above_def intro: trancl_into_trancl2)
      moreover have "rank z < rank y" using rk r1 True t by (auto simp: inputs_ranked_def)
      ultimately show ?thesis by (auto simp: rank'_def)
    next
      case False
      with z i have "y = rule" "z = x" by (auto split: if_splits)
      moreover have "\<not> above x" "above rule" using new by (auto simp: above_def)
      ultimately show ?thesis by (simp add: rank'_def)
    qed
  qed
  then have "inputs_ranked rank' (link_input rule x db)" by (auto simp: inputs_ranked_def link_input_type)
  then show ?thesis by blast
qed

section \<open>A rule that is its own input\<close>

lemma in_chain_off:
  assumes "in_input_chain f rule r2 = Some b" and "\<And>y. y \<noteq> rule \<Longrightarrow> g y = f y"
  shows "in_input_chain g rule r2 = Some b"
proof -
  let ?P = "\<lambda>f rule r2 b. (\<forall>y. y \<noteq> rule \<longrightarrow> g y = f y) \<longrightarrow> in_input_chain g rule r2 = Some b"
  have "?P f rule r2 b"
  proof (rule in_input_chain.raw_induct [where P = ?P, OF _ assms(1)], rule impI, goal_cases)
    case (1 rec f rule r2 b)
    show ?case
    proof (cases r2)
      case None
      then show ?thesis using 1(2) by (subst in_input_chain.simps) simp
    next
      case (Some r)
      show ?thesis
      proof (cases "r = rule")
        case True
        then show ?thesis using 1(2) Some by (subst in_input_chain.simps) simp
      next
        case False
        with 1(2) Some obtain x where x: "f r = Some x" "rec f rule (r_next_in_input x) = Some b" by (auto split: bind_splits)
        then have "in_input_chain g rule (r_next_in_input x) = Some b" using 1(1,3) by blast
        then show ?thesis using x(1) 1(3) False Some by (subst in_input_chain.simps) simp
      qed
    qed
  qed
  then show ?thesis using assms(2) by blast
qed

lemma self_fed_reads:
  assumes "rule_of db x = Some r" and "x \<notin> set (r_inputs r)"
  defines "s \<equiv> link_input x x db"
  shows "rule_of s = (rule_of db)(x \<mapsto> r\<lparr>r_inputs := x # r_inputs r, r_next_in_input := r_output r, r_output := Some x\<rparr>)"
    and "input_head s = (input_head db)(x \<mapsto> Some x)" and "type_of s = type_of db" and "inst s = inst db"
    and "action_of s = action_of db" and "o_parent_comp (objs s y) = o_parent_comp (objs db y)"
proof -
  have d: "o_data (objs db x) = DRule r" using assms(1) by (auto simp: rule_of_def split: obj_data.splits)
  let ?r = "r\<lparr>r_inputs := x # r_inputs r, r_next_in_input := r_output r, r_output := Some x\<rparr>"
  have s: "s = upd_obj x (\<lambda>ob. ob\<lparr>o_data := DRule ?r\<rparr>) db"
    using assms(2) d by (simp add: s_def link_input_def Let_def list_add_def input_head_def set_input_head_def set_next_rule_def
        set_rule_def upd_obj_def)
  show "rule_of s = (rule_of db)(x \<mapsto> ?r)" by (auto simp: s rule_of_def upd_obj_def fun_eq_iff)
  show "input_head s = (input_head db)(x \<mapsto> Some x)" by (auto simp: s input_head_def upd_obj_def fun_eq_iff split: obj_data.split)
  show "type_of s = type_of db" using d by (auto simp: s type_of_def upd_obj_def fun_eq_iff)
  show "inst s = inst db" by (simp add: s)
  show "action_of s = action_of db" using d by (auto simp: s action_of_def upd_obj_def fun_eq_iff)
  show "o_parent_comp (objs s y) = o_parent_comp (objs db y)" by (simp add: s upd_obj_def)
qed

lemma self_fed_valid:
  assumes "rule_of db x = Some r" and "x \<notin> set (r_inputs r)" and "obj_linked db x"
    and "i_state (inst db (base x)) \<noteq> STATE_DELETED"
  shows "myrefl_obj_validate (Some x) TYPE_RULE (link_input x x db) = Some (True, link_input x x db)"
proof -
  let ?s = "link_input x x db"
  note s = self_fed_reads [OF assms(1,2)]
  have d: "o_data (objs db x) = DRule r" using assms(1) by (auto simp: rule_of_def split: obj_data.splits)
  let ?r = "r\<lparr>r_inputs := x # r_inputs r, r_next_in_input := r_output r, r_output := Some x\<rparr>"
  have "rule_of ?s x = Some ?r" by (simp add: s(1))
  then have d': "o_data (objs ?s x) = DRule ?r" by (auto simp: rule_of_def split: obj_data.splits)
  have chain: "in_input_chain (rule_of ?s) x h = Some True" if "in_input_chain (rule_of db) x h = Some True" for h
    by (rule in_chain_off [OF that]) (simp add: s(1))
  have "inputs_linked ?s x (r_inputs r)"
    using assms(2,3) d chain by (auto simp: obj_linked_def inputs_linked_def s(2) split: option.splits)
  moreover have "in_input_chain (rule_of ?s) x (Some x) = Some True" by (subst in_input_chain.simps) simp
  ultimately have "inputs_linked ?s x (x # r_inputs r)" by (simp add: inputs_linked_def s(2))
  then have i: "validate_inputs x (x # r_inputs r) ?s = Some ?s" by (rule validate_inputs_linked)
  have a: "validate_actions x (r_action_list r) ?s = ?s"
    by (rule validate_actions_linked) (use assms(3) d in \<open>simp add: obj_linked_def s(5)\<close>)
  have "type_of ?s x = TYPE_RULE" using d by (simp add: s(3) type_of_def)
  moreover have "\<not> (o_parent_comp (objs ?s x) = None \<and> i_name (inst ?s (base x)) \<noteq> SYSTEM_COMP_NAME)"
    using assms(3) by (auto simp: obj_linked_def s)
  ultimately show ?thesis
    using assms(4) d' i a by (simp add: myrefl_obj_validate_def s(4))
qed

lemma self_fed_never_returns:
  assumes "rule_of db x = Some r" and "x \<notin> set (r_inputs r)" and "obj_linked db x"
    and "i_state (inst db (base x)) \<noteq> STATE_DELETED"
  shows "myrefl_sched_rule_immediate (base x) (link_input x x db) = None"
proof (rule ccontr)
  let ?s = "link_input x x db"
  note s = self_fed_reads [OF assms(1,2)]
  let ?P = "\<lambda>i d t. \<not> (i = base x \<and> d = ?s)"
  assume "myrefl_sched_rule_immediate (base x) ?s \<noteq> None"
  then obtain t where t: "myrefl_sched_rule_immediate (base x) ?s = Some t" by auto
  have "?P (base x) ?s t"
  proof (rule myrefl_sched_rule_immediate.raw_induct [where P = ?P, OF _ t], rule notI, goal_cases)
    case (1 rec i d t)
    have v: "myrefl_obj_instance_validate (base x) TYPE_RULE ?s = Some (True, ?s)"
      using self_fed_valid [OF assms] assms(4) by (simp add: myrefl_obj_instance_validate_def s(4))
    have "type_of ?s x = TYPE_RULE" using assms(1) by (auto simp: s(3) rule_of_def type_of_def split: obj_data.splits)
    moreover have "myrefl_obj_instance ?s x (base x) = base x" by (simp add: myrefl_obj_instance_def)
    ultimately have "rec (base x) ?s \<noteq> None" using 1(2,3) v s(1) by (auto split: bind_splits)
    then show ?case using 1(1) by blast
  qed
  then show False by simp
qed

section \<open>Changing the default states of an instance\<close>

definition state_only :: "(obj_instance \<Rightarrow> obj_instance) \<Rightarrow> db \<Rightarrow> iref \<Rightarrow> bool" where
  "state_only f db i \<longleftrightarrow> (let x = inst db i in
     i_name (f x) = i_name x \<and> i_context (f x) = i_context x \<and> i_state (f x) = i_state x \<and> i_sched (f x) = i_sched x)"

lemma state_only_reads:
  assumes "state_only f db i"
  defines "u \<equiv> upd_inst i f db"
  shows "i_name (inst u j) = i_name (inst db j)" "i_state (inst u j) = i_state (inst db j)"
    and "queued_of u = queued_of db" "next_time_of u = next_time_of db"
    and "inst_valid u = inst_valid db" "queues u = queues db"
proof -
  have n: "i_name (inst u j) = i_name (inst db j)" "i_state (inst u j) = i_state (inst db j)"
    "i_context (inst u j) = i_context (inst db j)" "i_sched (inst u j) = i_sched (inst db j)" for j
    using assms(1) by (simp_all add: u_def inst_upd_inst state_only_def Let_def)
  then show "i_name (inst u j) = i_name (inst db j)" "i_state (inst u j) = i_state (inst db j)" by simp_all
  have "objs u = objs db" "type_of u = type_of db" by (simp_all add: u_def upd_inst_def type_of_def fun_eq_iff)
  then show "inst_valid u = inst_valid db"
    by (simp add: fun_eq_iff inst_valid_def obj_valid_def n cong: option.case_cong obj_data.case_cong)
  show "queued_of u = queued_of db" "next_time_of u = next_time_of db"
    by (simp_all add: fun_eq_iff queued_of_def next_time_of_def n)
  show "queues u = queues db" by (simp add: u_def upd_inst_def)
qed

lemma state_only_sched: "state_only f db i \<Longrightarrow> sched_inv (upd_inst i f db) = sched_inv db"
  by (simp add: sched_inv_def sched_inv_but_def on_queue_def state_only_reads)

lemma state_only_tree:
  assumes "state_only f db i"
  defines "u \<equiv> upd_inst i f db"
  shows "tree_inv u = tree_inv db" "named u n x = named db n x"
proof -
  have r: "type_of u = type_of db" "system_comp u = system_comp db" "chain u = chain db"
    "\<And>y. o_parent_comp (objs u y) = o_parent_comp (objs db y)" "next_oid u = next_oid db"
    by (simp_all add: u_def upd_inst_def type_of_def chain_def comp_of_def fun_eq_iff)
  note t = same_tree [OF r(1-4)] and n = state_only_reads(1,2) [OF assms(1), folded u_def]
  have o: "lookup_order TYPE_ANY u = lookup_order TYPE_ANY db" by (simp add: lookup_order_def t)
  have "has_name u = has_name db" by (simp add: fun_eq_iff has_name_def n)
  then have l: "lookup u = lookup db" by (intro ext) (simp only: lookup_def o)
  have "names_ok u = names_ok db" by (simp add: names_ok_def o n)
  then show "tree_inv u = tree_inv db" "named u n x = named db n x"
    by (simp_all add: tree_inv_def t fresh_ok_def r named_def n l)
qed

section \<open>The object that a call names\<close>

text \<open>The name of the object that an entry looks up or creates first, and the type it asks for.\<close>

fun test_target :: "test_call \<Rightarrow> name option" where
  "test_target (Test_create_polled n f c p) = n"
| "test_target (Test_create_notification n) = n"
| "test_target (Test_create_comp_health n c) = n"
| "test_target (Test_notify n i r v) = n"
| "test_target (Test_set_autopass n w) = n"
| "test_target (Test_set_flags n w) = n"
| "test_target (Test_set_description n d) = n"
| "test_target (Test_delete n) = n"
| "test_target (Test_chain_ready n) = n"
| "test_target (Test_enable n i cli) = n"
| "test_target (Test_disable n i cli) = n"
| "test_target (Test_default n i) = n"

fun action_target :: "action_call \<Rightarrow> name option" where
  "action_target (Action_create n f c) = n"
| "action_target (Action_complete n i r) = n"
| "action_target (Action_create_user_alert n d c) = n"
| "action_target (Action_delete n) = n"
| "action_target (Action_enable n i cli) = n"
| "action_target (Action_disable n i cli) = n"
| "action_target (Action_default n i) = n"
| "action_target (Action_set_flags n w) = n"
| "action_target (Action_set_description n d) = n"

fun rule_target :: "rule_call \<Rightarrow> name option option" where
  "rule_target (Rule_create n i a) = Some n"
| "rule_target (Rule_add_input n i) = Some n"
| "rule_target (Rule_set_type n opr a b) = Some n"
| "rule_target (Rule_add_action n a) = Some n"
| "rule_target (Rule_set_flags n w) = Some n"
| "rule_target (Rule_delete n) = Some n"
| "rule_target (Rule_set_description n d) = Some n"
| "rule_target (Rule_set_severity n v) = Some n"
| "rule_target (Rule_enable n i cli) = Some n"
| "rule_target (Rule_disable n i cli) = Some n"
| "rule_target (Rule_default n i) = Some n"
| "rule_target (Depend_create p c) = None"

fun comp_target :: "comp_call \<Rightarrow> name option" where
  "comp_target (Comp_create n) = n"
| "comp_target (Comp_contains p c) = p"
| "comp_target (Comp_contains_many p c cs) = p"
| "comp_target (Comp_delete n) = n"
| "comp_target (Comp_set_context n c) = n"
| "comp_target (Comp_set_description n d) = n"
| "comp_target (Comp_enable n cli) = n"
| "comp_target (Comp_disable n cli) = n"
| "comp_target (Comp_default n) = n"
| "comp_target (Health_set n h) = n"

definition call_target :: "api_call \<Rightarrow> (name option \<times> obj_type) option" where
  "call_target c =
     (case c of
        For_test c \<Rightarrow> Some (test_target c, TYPE_TEST)
      | For_action c \<Rightarrow> Some (action_target c, TYPE_ACTION)
      | For_rule c \<Rightarrow> map_option (\<lambda>n. (n, TYPE_RULE)) (rule_target c)
      | For_comp c \<Rightarrow> Some (comp_target c, TYPE_COMP)
      | Notify_test n _ _ \<Rightarrow> Some (n, TYPE_TEST)
      | Notify_rule n _ _ \<Rightarrow> Some (n, TYPE_RULE)
      | Notify_action n _ _ \<Rightarrow> Some (n, TYPE_ACTION)
      | _ \<Rightarrow> None)"

section \<open>An entry that asks for the wrong type\<close>

definition refused :: "db \<Rightarrow> name option \<Rightarrow> obj_type \<Rightarrow> bool" where
  "refused db n ty \<longleftrightarrow> badstr n \<or>
     (\<exists>m x. n = Some m \<and> named db m x \<and> type_of db x \<noteq> TYPE_NONE \<and> type_of db x \<noteq> ty)"

lemma wrong_typed_lookup:
  assumes "tree_inv db" and "lookup db n = Some x" and "ty \<noteq> TYPE_ANY" and "type_of db x \<noteq> ty"
  shows "myrefl_obj_get_by_name db (Some n) ty = Some None"
proof -
  have t: "tree_ok db" "names_ok db" "system_comp db \<noteq> None" using assms(1) by (simp_all add: tree_inv_def)
  note x = lookup_Some [OF assms(2)]
  have "\<not> has_name db n y" if y: "y \<in> set (sys_objs ty db)" for y
  proof
    assume "has_name db n y"
    moreover have "y \<in> set (lookup_order TYPE_ANY db)" using y assms(3) by (auto simp: set_lookup_order)
    ultimately have "y = x" using inj_onD [OF t(2) [unfolded names_ok_def], of y x] x by (simp add: has_name_def)
    then show False using sys_objs_typed [OF t(1) y] assms(4) by simp
  qed
  then have "List.find (has_name db n) (sys_objs ty db) = None" by (simp add: find_None_iff)
  then show ?thesis using by_name_finds [OF t(1,3)] assms(3) by (simp add: lookup_order_def)
qed

lemma refused_gets:
  assumes "tree_inv db" and "refused db (Some n) ty" and "n \<noteq> []" and "ty \<noteq> TYPE_ANY"
  shows "myrefl_api_get_or_create n ty db = Some (None, db)"
    and "myrefl_obj_get_by_name_unconverted db n ty = Some None"
proof -
  obtain x where x: "named db n x" "type_of db x \<noteq> TYPE_NONE" "type_of db x \<noteq> ty"
    using assms(2,3) by (auto simp: refused_def badstr_def)
  then have l: "lookup db (myrefl_api_convert_name n) = Some x" by (simp add: named_def)
  show "myrefl_api_get_or_create n ty db = Some (None, db)"
    using get_mismatch [OF assms(1) l assms(4)] x by (auto simp: myrefl_api_get_or_create_def)
  show "myrefl_obj_get_by_name_unconverted db n ty = Some None"
    using wrong_typed_lookup [OF assms(1) l assms(4)] x by (auto simp: myrefl_obj_get_by_name_unconverted_def)
qed

lemma refused_entries:
  assumes "tree_inv db" and "refused db n ty" and "ty \<noteq> TYPE_ANY"
  shows "api_object n ty f db = Some db" and "api_lookup n ty f db = Some db"
    and "ty = TYPE_COMP \<Longrightarrow> api_comp n f db = Some db" and "map_option snd (notify_object n ty nm db) = Some db"
    and "(\<And>x. type_of db x \<noteq> ty \<Longrightarrow> f x db = Some db) \<Longrightarrow> api_lookup n TYPE_ANY f db = Some db"
    and "(\<And>x. type_of db x \<noteq> ty \<Longrightarrow> f x db = Some db) \<Longrightarrow> api_object n TYPE_ANY f db = Some db"
proof -
  have v: "myrefl_obj_validate None TYPE_COMP db = Some (False, db)" by (simp add: myrefl_obj_validate_def)
  note defs = api_object_def api_lookup_def api_comp_def notify_object_def
  show "api_object n ty f db = Some db" "api_lookup n ty f db = Some db"
    "ty = TYPE_COMP \<Longrightarrow> api_comp n f db = Some db" "map_option snd (notify_object n ty nm db) = Some db"
    using refused_gets [OF assms(1) _ _ assms(3)] assms(2) v
    by (cases n; cases "badstr n"; auto simp: defs badstr_def)+
  show "api_lookup n TYPE_ANY f db = Some db" "api_object n TYPE_ANY f db = Some db"
    if f: "\<And>x. type_of db x \<noteq> ty \<Longrightarrow> f x db = Some db"
  proof -
    consider "badstr n" | m x where "n = Some m" "named db m x" "type_of db x \<noteq> ty" using assms(2) by (auto simp: refused_def)
    then have "api_lookup n TYPE_ANY f db = Some db \<and> api_object n TYPE_ANY f db = Some db"
    proof cases
      case (2 m x)
      then show ?thesis using named_lookup [OF assms(1) 2(2), of TYPE_ANY f] named_object [OF assms(1) 2(2), of TYPE_ANY f] f by simp
    qed (simp add: api_lookup_def api_object_def)
    then show "api_lookup n TYPE_ANY f db = Some db" "api_object n TYPE_ANY f db = Some db" by simp_all
  qed
qed

text \<open>The calls of each kind.\<close>

lemma test_refused: "tree_inv db \<Longrightarrow> refused db (test_target c) TYPE_TEST \<Longrightarrow> test_run c db = Some db"
  by (cases c)
    (auto simp: refused_entries myrefl_test_create_polled_def myrefl_test_create_notification_def myrefl_test_create_comp_health_def
      myrefl_test_notify_def myrefl_test_set_autopass_def myrefl_test_set_flags_def myrefl_test_set_description_def
      myrefl_test_delete_def myrefl_test_chain_ready_def myrefl_api_test_enable_guts_def myrefl_api_test_disable_guts_def
      myrefl_api_test_default_def test_of_def type_of_def intro!: refused_entries(5) [where ty = TYPE_TEST] split: obj_data.splits)

lemma action_refused: "tree_inv db \<Longrightarrow> refused db (action_target c) TYPE_ACTION \<Longrightarrow> action_run c db = Some db"
  by (cases c)
    (auto simp: refused_entries myrefl_action_create_def myrefl_action_complete_def myrefl_action_create_user_alert_def
      myrefl_action_delete_def myrefl_api_action_enable_guts_def myrefl_api_action_disable_guts_def
      myrefl_api_action_default_def myrefl_action_set_flags_def myrefl_action_set_description_def
      intro!: refused_entries(5) [where ty = TYPE_ACTION])

lemma rule_refused:
  "tree_inv db \<Longrightarrow> rule_target c = Some n \<Longrightarrow> refused db n TYPE_RULE \<Longrightarrow> rule_run c db = Some db"
  by (cases c)
    (auto simp: refused_entries myrefl_rule_create_def myrefl_rule_add_input_def myrefl_rule_set_type_def
      myrefl_rule_add_action_def myrefl_rule_set_flags_def myrefl_rule_delete_def myrefl_rule_set_description_def
      myrefl_rule_set_severity_def myrefl_api_rule_enable_guts_def myrefl_api_rule_disable_guts_def
      myrefl_api_rule_default_def intro!: refused_entries(6) [where ty = TYPE_RULE])

lemma comp_refused: "tree_inv db \<Longrightarrow> refused db (comp_target c) TYPE_COMP \<Longrightarrow> comp_run c db = Some db"
proof (cases c)
  case (Comp_contains_many p ch cs)
  assume a: "tree_inv db" "refused db (comp_target c) TYPE_COMP"
  then have "myrefl_comp_contains p x db = Some db" for x
    using Comp_contains_many by (simp add: refused_entries myrefl_comp_contains_def)
  then have "foldM (myrefl_comp_contains p) xs db = Some db" for xs by (induction xs) auto
  then show ?thesis using Comp_contains_many by (simp add: myrefl_comp_contains_many_def del: foldM.simps)
qed (auto simp: refused_entries myrefl_comp_create_def myrefl_comp_contains_def myrefl_comp_delete_def
      myrefl_api_comp_set_context_def myrefl_comp_set_description_def myrefl_api_comp_enable_guts_def
      myrefl_api_comp_disable_guts_def myrefl_api_comp_default_def myrefl_health_set_def
      intro!: refused_entries(5) [where ty = TYPE_COMP])

end
