(* ===== verification/Deleted.thy ===== *)
theory Deleted
  imports ApiFacts "HOL-Library.Multiset"
begin

text \<open>
  Lemmas about deletion: what a pass of the garbage collector frees, and the database after an object
  has been deleted.
\<close>

section \<open>A pass of the garbage collector\<close>

definition garbage :: "db \<Rightarrow> iref \<Rightarrow> bool" where
  "garbage db i \<longleftrightarrow> i_state (inst db i) = STATE_DELETED"

lemma gc_loop_frees:
  "gc_loop n db = (finished, freed, db') \<Longrightarrow>
     insts db' = insts db \<and> objs db' = objs db \<and> length freed \<le> n \<and>
     (\<forall>i \<in> set freed. garbage db i \<and> i_in_use (inst db i) = 0) \<and>
     filter_mset (garbage db) (mset (freeme db)) = mset freed + filter_mset (garbage db) (mset (freeme db')) \<and>
     (finished \<longrightarrow> freeme db' = [])"
proof (induction n arbitrary: db finished freed db')
  case (Suc n)
  show ?case
  proof (cases "freeme db")
    case Nil
    then show ?thesis using Suc.prems by auto
  next
    case (Cons i q)
    obtain fr u where g: "gc_instance i (db\<lparr>freeme := q\<rparr>) = (fr, u)" by fastforce
    obtain fin fr' v where l: "gc_loop n u = (fin, fr', v)" by (cases "gc_loop n u") auto
    have r: "finished = fin" "freed = fr @ fr'" "db' = v" using Suc.prems Cons g l by simp_all
    have u: "insts u = insts db" "objs u = objs db"
      "fr = (if garbage db i \<and> i_in_use (inst db i) = 0 then [i] else [])"
      "freeme u = (if garbage db i \<and> i_in_use (inst db i) \<noteq> 0 then q @ [i] else q)"
      using g by (auto simp: gc_instance_def garbage_def push_freeme_def inst_def split: if_splits)
    have i: "garbage u = garbage db" "inst u = inst db" using u(1) by (simp_all add: fun_eq_iff garbage_def inst_def)
    show ?thesis
      using Suc.IH [OF l] unfolding r i u(1,2) using Cons by (auto simp: u(3,4))
  qed
qed auto

section \<open>Deleting an action\<close>

text \<open>The tree, the types and the names are the same.\<close>

definition same_place :: "db \<Rightarrow> db \<Rightarrow> bool" where
  "same_place s t \<longleftrightarrow> type_of t = type_of s \<and> chain t = chain s \<and> system_comp t = system_comp s \<and> next_oid t = next_oid s \<and>
     (\<forall>y. o_parent_comp (objs t y) = o_parent_comp (objs s y)) \<and> (\<forall>j. i_name (inst t j) = i_name (inst s j))"

lemma same_place_refl [simp]: "same_place s s"
  by (simp add: same_place_def)

lemma same_place_trans: "same_place a b \<Longrightarrow> same_place b c \<Longrightarrow> same_place a c"
  by (simp add: same_place_def)

lemma same_place_upd_obj:
  assumes "o_parent_comp (f (objs s x)) = o_parent_comp (objs s x)"
    and "data_type (o_data (f (objs s x))) = data_type (o_data (objs s x))"
    and "comp_shape (o_data (f (objs s x))) = comp_shape (o_data (objs s x))"
  shows "same_place s (upd_obj x f s)"
proof -
  have ty: "type_of u y = data_type (o_data (objs u y))" for u y by (simp add: type_of_def data_type_def)
  have ch: "chain u ty y = (case comp_shape (o_data (objs u y)) ty of None \<Rightarrow> [] | Some xs \<Rightarrow> xs)" for u ty y
    by (simp add: chain_def comp_of_def comp_shape_def split: obj_data.split)
  have o: "objs (upd_obj x f s) y = (if y = x then f (objs s x) else objs s y)" for y by (simp add: upd_obj_def)
  have "type_of (upd_obj x f s) = type_of s" by (simp add: fun_eq_iff ty o assms)
  moreover have "chain (upd_obj x f s) = chain s" by (simp add: fun_eq_iff ch o assms)
  ultimately show ?thesis by (simp add: same_place_def o assms) (simp add: upd_obj_def)
qed

lemma same_place_ops:
  "same_place s (upd_obj x (\<lambda>ob. ob\<lparr>o_members := g (o_members ob)\<rparr>) s)"
  "same_place s (upd_obj x (\<lambda>ob. ob\<lparr>o_child_depend := h (o_child_depend ob)\<rparr>) s)"
  "same_place s (upd_obj x (\<lambda>ob. ob\<lparr>o_parent_depend := h (o_parent_depend ob)\<rparr>) s)"
  "same_place s (set_rule x f s)" "same_place s (set_action x k s)" "same_place s (push_freeme i s)"
  "(\<And>x. i_name (e x) = i_name x) \<Longrightarrow> same_place s (upd_inst i e s)"
proof -
  show "same_place s (upd_obj x (\<lambda>ob. ob\<lparr>o_members := g (o_members ob)\<rparr>) s)"
    "same_place s (upd_obj x (\<lambda>ob. ob\<lparr>o_child_depend := h (o_child_depend ob)\<rparr>) s)"
    "same_place s (upd_obj x (\<lambda>ob. ob\<lparr>o_parent_depend := h (o_parent_depend ob)\<rparr>) s)"
    by (rule same_place_upd_obj; simp)+
  show "same_place s (set_rule x f s)" "same_place s (set_action x k s)"
    unfolding set_rule_def set_action_def
    by (rule same_place_upd_obj; simp add: data_type_def comp_shape_def fun_eq_iff split: obj_data.split)+
  show "same_place s (push_freeme i s)"
    by (simp add: same_place_def push_freeme_def type_of_def chain_def comp_of_def inst_def fun_eq_iff)
  show "same_place s (upd_inst i e s)" if "\<And>x. i_name (e x) = i_name x"
    using that by (simp add: same_place_def upd_inst_def type_of_def chain_def comp_of_def inst_def fun_eq_iff)
qed

lemma same_place_fold: "(\<And>y u. same_place u (f y u)) \<Longrightarrow> same_place s (fold f ys s)"
  by (induction ys arbitrary: s) (auto intro: same_place_trans)

lemma same_place_delete_ops: "same_place s (unlink_depend x s)" "same_place s (unlink_action x a s)"
  unfolding unlink_depend_def unlink_action_def Let_def
  by (intro same_place_trans [OF same_place_fold same_place_fold] same_place_ops)
    (rule same_place_fold, rule same_place_trans [OF same_place_ops(5,4)])

text \<open>What the deletion of the members leaves behind.\<close>

definition delete_members :: "oid \<Rightarrow> db \<Rightarrow> db" where
  "delete_members x s = fold (\<lambda>k s. if IRef x k = base x then s
     else push_freeme (IRef x k) (unlink_member (IRef x k) (upd_inst (IRef x k) (\<lambda>i. i\<lparr>i_state := STATE_DELETED\<rparr>) s)))
     (o_members (objs s x)) s"

lemma foldM_Some: "(\<And>x s. f x s = Some (g x s)) \<Longrightarrow> foldM f xs s = Some (fold g xs s)"
  by (induction xs arbitrary: s) auto

lemma delete_members_run:
  "foldM (\<lambda>k. myrefl_obj_instance_delete (IRef x k)) (o_members (objs s x)) s = Some (delete_members x s)"
  unfolding delete_members_def by (rule foldM_Some) (simp add: instance_delete_run base_def)

lemma delete_members_same:
  "same_place s (delete_members x s)"
proof -
  have "same_place u (push_freeme i (unlink_member i (upd_inst i (\<lambda>j. j\<lparr>i_state := STATE_DELETED\<rparr>) u)))" for i u
    unfolding unlink_member_def
    by (intro same_place_trans [OF same_place_trans [OF same_place_ops(7) same_place_ops(1)] same_place_ops(6)]) simp
  then show ?thesis unfolding delete_members_def by (intro same_place_fold) simp
qed

text \<open>An object that is unlinked from its component is found no more; every other name leads to the same
  object as before.\<close>

lemma unlinked_gone:
  assumes inv: "tree_inv s" and x: "lookup s n = Some x" "type_of s x \<noteq> TYPE_COMP"
    and su: "same_place s u" and vt: "same_place (myrefl_obj_unlink_from_comp x u) t"
  shows "tree_inv t" and "lookup t n = None" and "m \<noteq> n \<Longrightarrow> lookup t m = lookup s m"
proof -
  have i: "tree_ok s" "fresh_ok s" "names_ok s" "system_comp s \<noteq> None" "chains_ok s"
    using inv by (simp_all add: tree_inv_def tree_ok_def)
  note xn = lookup_Some [OF x(1)]
  then obtain ty where ty: "x \<in> set (sys_objs ty s)" by (auto simp: set_lookup_order)
  then have "ty \<noteq> TYPE_COMP" using sys_objs_typed [OF i(1) ty] x(2) by simp
  then obtain p where "x \<in> set (chain s ty p)" using ty by (auto simp: sys_objs_def)
  then have par: "o_parent_comp (objs s x) = Some p" by (rule chain_typed(1) [OF i(5)])
  have u: "tree_ok u" "chains_ok u" "o_parent_comp (objs u x) = Some p"
    using su par i(1) same_tree(1) [of u s] by (simp_all add: same_place_def tree_ok_def)
  note r = unlink_reads [OF u(2,3)]
  have t: "type_of t = type_of s" "chain t ty y = remove1 x (chain s ty y)" "system_comp t = system_comp s" "next_oid t = next_oid s"
    "o_parent_comp (objs t y) = (if y = x then None else o_parent_comp (objs s y))" "i_name (inst t j) = i_name (inst s j)" for ty y j
    using su vt unfolding same_place_def by (simp_all add: r)
  have "tree_ok (myrefl_obj_unlink_from_comp x u)" by (rule unlink_tree_ok [OF u(1)])
  then have tree: "tree_ok t" using vt same_tree(1) [of t "myrefl_obj_unlink_from_comp x u"] by (simp add: same_place_def)
  have "chain s ty' x = []" for ty' using chain_owner [of _ s ty' x] x(2) by (cases "chain s ty' x") auto
  moreover have "system_comp s \<noteq> Some x" using i(1) x(2) by (auto simp: tree_ok_def)
  ultimately have m: "moved x s t" by (simp add: moved_def t filter_remove1_same)
  have "names_ok t" by (rule names_moved [OF m i(3)]) (simp_all add: t xn x(1))
  moreover have "fresh_ok t" using i(2) by (simp add: fresh_ok_def t)
  ultimately show "tree_inv t" using tree i(4) by (simp add: tree_inv_def t)
  have "x \<notin> set (sys_objs ty' t)" for ty'
  proof
    assume a: "x \<in> set (sys_objs ty' t)"
    then have "ty' \<noteq> TYPE_COMP" using sys_objs_typed [OF tree a] x(2) t(1) by simp
    then obtain q where "x \<in> set (chain t ty' q)" using a by (auto simp: sys_objs_def)
    then show False using chain_typed(1) [of t x ty' q] tree t(5) [of x] by (simp add: tree_ok_def)
  qed
  then have out: "y \<noteq> x \<and> y \<in> set (lookup_order TYPE_ANY s)" if "y \<in> set (lookup_order TYPE_ANY t)" for y
  proof -
    obtain ty' where "ty' \<noteq> TYPE_ANY" "y \<in> set (sys_objs ty' t)" using \<open>y \<in> set (lookup_order TYPE_ANY t)\<close> by (auto simp: set_lookup_order)
    moreover from this have "y \<noteq> x" using \<open>\<And>ty'. x \<notin> set (sys_objs ty' t)\<close> by auto
    ultimately show ?thesis using members_moved [OF m] by (auto simp: set_lookup_order)
  qed
  show "lookup t n = None"
    using out inj_onD [OF i(3) [unfolded names_ok_def]] xn by (auto simp: lookup_def find_None_iff has_name_def t)
  show "lookup t m = lookup s m" if "m \<noteq> n"
    by (rule lookup_moved [OF m]) (use that xn in \<open>auto simp: t\<close>)
qed

text \<open>The lists of actions of the rules.\<close>

definition actions_of :: "db \<Rightarrow> oid \<Rightarrow> oid list option" where
  "actions_of s y = map_option r_action_list (rule_of s y)"

lemma actions_upd_obj [simp]:
  "actions_of (upd_obj x (\<lambda>ob. ob\<lparr>o_members := g (o_members ob)\<rparr>) s) = actions_of s"
  "actions_of (upd_obj x (\<lambda>ob. ob\<lparr>o_child_depend := h (o_child_depend ob)\<rparr>) s) = actions_of s"
  "actions_of (upd_obj x (\<lambda>ob. ob\<lparr>o_parent_depend := h (o_parent_depend ob)\<rparr>) s) = actions_of s"
  "actions_of (upd_obj x (\<lambda>ob. ob\<lparr>o_parent_comp := v\<rparr>) s) = actions_of s"
  "actions_of (push_freeme i s) = actions_of s" "actions_of (upd_inst i e s) = actions_of s"
  by (auto simp: fun_eq_iff actions_of_def rule_of_def upd_obj_def push_freeme_def upd_inst_def)

lemma actions_set [simp]:
  "actions_of (set_action a k s) = actions_of s" "actions_of (set_comp a l s) = actions_of s"
  by (auto simp: fun_eq_iff actions_of_def rule_of_def upd_obj_def set_action_def set_comp_def split: obj_data.split)

lemma actions_fold: "(\<And>y u. actions_of (f y u) = actions_of u) \<Longrightarrow> actions_of (fold f ys s) = actions_of s"
  by (induction ys arbitrary: s) auto

lemma actions_before:
  "actions_of (unlink_depend x s) = actions_of s" "actions_of (myrefl_obj_unlink_from_comp x s) = actions_of s"
  "actions_of (delete_members x s) = actions_of s"
  unfolding unlink_depend_def myrefl_obj_unlink_from_comp_def Let_def delete_members_def unlink_member_def
  by (simp_all add: actions_fold split: option.split)

lemma actions_unlink_action:
  "actions_of (unlink_action x a s) y =
     map_option (\<lambda>as. fold (\<lambda>_. remove1 x) (filter ((=) y) (a_rule_list a)) as) (actions_of s y)"
proof -
  have step: "actions_of (set_rule r (\<lambda>b. b\<lparr>r_action_list := remove1 x (r_action_list b)\<rparr>) u) y =
      map_option (\<lambda>as. if y = r then remove1 x as else as) (actions_of u y)" for r u
    by (cases "rule_of u y") (auto simp: actions_of_def)
  have "actions_of (fold (\<lambda>r db. set_rule r (\<lambda>b. b\<lparr>r_action_list := remove1 x (r_action_list b)\<rparr>)
         (set_action x (\<lambda>a. a\<lparr>a_rule_list := tl (a_rule_list a)\<rparr>) db)) rs u) y =
      map_option (\<lambda>as. fold (\<lambda>_. remove1 x) (filter ((=) y) rs) as) (actions_of u y)" for rs u
    by (induction rs arbitrary: u) (auto simp: step option.map_comp comp_def map_option_idI intro!: arg_cong2 [where f = map_option])
  then show ?thesis by (simp add: unlink_action_def)
qed

lemma filter_same_remove1: "distinct as \<Longrightarrow> x \<notin> set (fold (\<lambda>_. remove1 x) rs as) \<longleftrightarrow> rs \<noteq> [] \<or> x \<notin> set as"
proof (induction rs arbitrary: as)
  case (Cons r rs)
  have "x \<notin> set (fold (\<lambda>_. remove1 x) rs (remove1 x as))" using Cons.IH [of "remove1 x as"] Cons.prems by simp
  then show ?case by simp
qed simp

text \<open>Every rule that lists the action is in the action's list of rules.\<close>

definition listed_back :: "db \<Rightarrow> oid \<Rightarrow> obj_action \<Rightarrow> bool" where
  "listed_back s x a \<longleftrightarrow> (\<forall>y as. actions_of s y = Some as \<longrightarrow> distinct as \<and> (x \<in> set as \<longrightarrow> y \<in> set (a_rule_list a)))"

lemma delete_keeps_action:
  "action_of (unlink_depend x (myrefl_obj_unlink_from_comp x (delete_members x s))) y = action_of s y"
proof -
  have o: "action_of (upd_obj z f u) = action_of u" if "\<And>ob. o_data (f ob) = o_data ob" for z f u
    using that by (auto simp: fun_eq_iff action_of_def upd_obj_def)
  have c: "action_of (set_comp z f u) = action_of u" "action_of (upd_inst i e u) = action_of u" "action_of (push_freeme i u) = action_of u"
    for z f u i e
    by (auto simp: fun_eq_iff action_of_def upd_obj_def set_comp_def upd_inst_def push_freeme_def split: obj_data.split)
  have f: "action_of (fold g ys u) = action_of u" if "\<And>z v. action_of (g z v) = action_of v" for g ys u
    using that by (induction ys arbitrary: u) auto
  show ?thesis
    unfolding unlink_depend_def myrefl_obj_unlink_from_comp_def Let_def delete_members_def unlink_member_def
    by (simp add: f o c split: option.split)
qed

lemma action_delete_run:
  fixes a :: obj_action
  assumes "action_of s x = Some a"
  defines "m \<equiv> delete_members x (upd_inst (base x) (\<lambda>i. i\<lparr>i_state := STATE_DELETED\<rparr>) s)"
  defines "t \<equiv> unlink_depend x (myrefl_obj_unlink_from_comp x m)"
  shows "myrefl_obj_delete x s = Some (push_freeme (base x) (unlink_action x (the (action_of t x)) t))"
    and "action_of t x = Some a"
proof -
  have "action_of (upd_inst (base x) (\<lambda>i. i\<lparr>i_state := STATE_DELETED\<rparr>) s) x = Some a"
    using assms(1) by (simp add: action_of_def upd_inst_def)
  then show act: "action_of t x = Some a" by (simp add: t_def m_def delete_keeps_action)
  then have d: "o_data (objs t x) = DAction a" by (auto simp: action_of_def split: obj_data.splits)
  let ?s = "upd_inst (base x) (\<lambda>i. i\<lparr>i_state := STATE_DELETED\<rparr>) s"
  have f: "foldM (\<lambda>k. myrefl_obj_instance_delete (IRef x k)) (o_members (objs ?s x)) ?s = Some m"
    unfolding m_def by (rule delete_members_run)
  have "i_state (inst m (base x)) = STATE_DELETED" using instances_delete_state [OF f] by (simp add: inst_upd_inst)
  then have "rule_deleted (base x) m = Some m" by (simp add: rule_deleted_idle)
  moreover have "unlink_base myrefl_obj_delete x m = Some (unlink_action x a t)"
    using d by (simp add: unlink_base_def t_def)
  ultimately show "myrefl_obj_delete x s = Some (push_freeme (base x) (unlink_action x (the (action_of t x)) t))"
    using f act by (subst myrefl_obj_delete.simps) (simp add: Let_def)
qed

lemma action_deleted:
  fixes a :: obj_action
  assumes inv: "tree_inv s" and n: "lookup s n = Some x" and a: "action_of s x = Some a" and l: "listed_back s x a"
  shows "\<exists>t. myrefl_obj_delete x s = Some t \<and> tree_inv t \<and> lookup t n = None \<and> (\<forall>m. m \<noteq> n \<longrightarrow> lookup t m = lookup s m) \<and>
    (\<forall>y as. actions_of t y = Some as \<longrightarrow> x \<notin> set as) \<and> base x \<in> set (freeme t)"
proof -
  let ?m = "delete_members x (upd_inst (base x) (\<lambda>i. i\<lparr>i_state := STATE_DELETED\<rparr>) s)"
  let ?v = "unlink_depend x (myrefl_obj_unlink_from_comp x ?m)"
  let ?t = "push_freeme (base x) (unlink_action x a ?v)"
  have run: "myrefl_obj_delete x s = Some ?t" using action_delete_run [OF a] by simp
  have "same_place s ?m" by (rule same_place_trans [OF same_place_ops(7) delete_members_same]) simp
  moreover have "same_place (myrefl_obj_unlink_from_comp x ?m) ?t"
    by (rule same_place_trans [OF same_place_trans [OF same_place_delete_ops] same_place_ops(6)])
  moreover have "type_of s x \<noteq> TYPE_COMP" using a by (auto simp: action_of_def type_of_def split: obj_data.splits)
  ultimately have g: "tree_inv ?t" "lookup ?t n = None" "m \<noteq> n \<Longrightarrow> lookup ?t m = lookup s m" for m
    using unlinked_gone [OF inv n] by blast+
  have "x \<notin> set as" if as: "actions_of ?t y = Some as" for y as
  proof -
    obtain bs where bs: "actions_of s y = Some bs" "as = fold (\<lambda>_. remove1 x) (filter ((=) y) (a_rule_list a)) bs"
      using as by (auto simp: actions_unlink_action actions_before)
    with l have "distinct bs" "x \<in> set bs \<Longrightarrow> y \<in> set (a_rule_list a)" by (auto simp: listed_back_def)
    then show ?thesis using filter_same_remove1 [of bs x "filter ((=) y) (a_rule_list a)"] bs(2)
      by (auto simp: filter_empty_conv)
  qed
  moreover have "base x \<in> set (freeme ?t)" by (simp add: push_freeme_def)
  ultimately show ?thesis using run g by blast
qed

end
