(* ===== verification/SchedInit.thy ===== *)
theory SchedInit
  imports Demo ObjLink
begin

text \<open>
  Starting and recovering the scheduler (\<^verbatim>\<open>src/src/myrefl_sched.c\<close>): the walk over all the tests
  of the database, which fills the queues. The thread of the scheduler is not modelled.

  The lemmas show what a recovery achieves from any state of the queues: afterwards exactly the
  enabled and valid instances of polled tests are queued, each on the queue of its period.
\<close>

section \<open>The walk over the tests\<close>

partial_function (option) each_test :: "(iref \<Rightarrow> db \<Rightarrow> db option) \<Rightarrow> oid option \<Rightarrow> db \<Rightarrow> db option" where
  "each_test f ob db =
     (case ob of
        None \<Rightarrow> Some db
      | Some x \<Rightarrow>
          Option.bind (foldM f (all_instances db x) db) (\<lambda>db.
          Option.bind (myrefl_obj_get_next_rel db (Some x) REL_NEXT_IN_SYS) (\<lambda>next. each_test f next db)))"

definition recover_instance :: "iref \<Rightarrow> db \<Rightarrow> db option" where
  "recover_instance i db = do {
     t \<leftarrow> test_of db (obj_of i);
     if t_type t = POLLED then myrefl_sched_add_test i True (set_next_time (XosTime 0 0) i db) else Some db }"

definition recover_schedular :: "db \<Rightarrow> db option" where
  "recover_schedular db = do {
     let db = fold clear_queue all_queues (db\<lparr>queues_blocked := True\<rparr>);
     ob \<leftarrow> myrefl_obj_get_first_rel db None REL_TEST;
     db \<leftarrow> each_test recover_instance ob db;
     Some (check_test_start_timer (db\<lparr>queues_blocked := False\<rparr>)) }"

definition init_instance :: "iref \<Rightarrow> db \<Rightarrow> db option" where
  "init_instance i db = do {
     (ok, db) \<leftarrow> myrefl_obj_instance_validate i TYPE_TEST db;
     if \<not> ok then Some db else do {
     t \<leftarrow> test_of db (obj_of i);
     if t_type t = POLLED then myrefl_sched_add_test i False db else Some db }}"

definition myrefl_sched_init :: "db \<Rightarrow> db option" where
  "myrefl_sched_init db = do {
     let db = create_queues db;
     ob \<leftarrow> myrefl_obj_get_first_rel db None REL_TEST;
     each_test init_instance ob db }"

section \<open>The walk visits all instances of all tests\<close>

definition test_instances :: "db \<Rightarrow> iref list" where
  "test_instances db = concat (map (all_instances db) (sys_objs TYPE_TEST db))"

lemma runtime_tree:
  assumes "runtime db db'"
  shows "tree_ok db' = tree_ok db" "sys_objs ty db' = sys_objs ty db" "test_instances db' = test_instances db"
proof -
  have c: "chain db' = chain db" by (simp add: fun_eq_iff chain_def runtime_reads(5) [OF assms])
  have p: "o_parent_comp (objs db' x) = o_parent_comp (objs db x)" for x by (simp only: runtimeD(1) [OF assms])
  note s = same_tree [OF runtime_reads(1) [OF assms] runtimeD(2) [OF assms] c p]
  show "tree_ok db' = tree_ok db" "sys_objs ty db' = sys_objs ty db" by (rule s)+
  show "test_instances db' = test_instances db"
    by (simp only: test_instances_def s(3) runtime_reads(7) [OF assms])
qed

lemma each_test_rest:
  assumes t: "tree_ok db" and keep: "\<And>i s s'. runtime db s \<Longrightarrow> f i s = Some s' \<Longrightarrow> runtime db s'"
  shows "runtime db s \<Longrightarrow> sys_objs TYPE_TEST db = ys @ zs \<Longrightarrow>
    each_test f (head_or None zs) s = foldM f (concat (map (all_instances db) zs)) s"
proof (induction zs arbitrary: ys s)
  case Nil
  then show ?case by (subst each_test.simps) simp
next
  case (Cons z zs)
  have all: "all_instances s z = all_instances db z" by (simp only: runtime_reads(7) [OF Cons.prems(1)])
  have next_z: "myrefl_obj_get_next_rel s' (Some z) REL_NEXT_IN_SYS = Some (head_or None zs)"
    if r: "runtime db s'" for s'
  proof -
    have "follows (\<lambda>x. sys_get_next_type s' x TYPE_TEST) (sys_objs TYPE_TEST s') None"
      using t by (intro sys_objs_follows) (simp_all add: runtime_tree [OF r])
    moreover have "type_of s' z = TYPE_TEST"
      using sys_objs_typed [OF t, of z TYPE_TEST] Cons.prems(2) by (simp add: runtime_reads(1) [OF r])
    ultimately show ?thesis
      using Cons.prems(2) by (simp add: myrefl_obj_get_next_rel_def runtime_tree [OF r])
  qed
  show ?case
  proof (cases "foldM f (all_instances db z) s")
    case None
    then show ?thesis by (subst each_test.simps) (simp add: all foldM_append)
  next
    case (Some s')
    have r: "runtime db s'" by (rule foldM_inv [OF Some, where P = "runtime db"]) (use Cons.prems(1) keep in auto)
    then show ?thesis
      using Some Cons.IH [OF r, of "ys @ [z]"] Cons.prems(2)
      by (subst each_test.simps) (simp add: all foldM_append next_z)
  qed
qed

lemma each_test_all:
  assumes "tree_ok db" and "system_comp db \<noteq> None" and "runtime db s"
    and "\<And>i s s'. runtime db s \<Longrightarrow> f i s = Some s' \<Longrightarrow> runtime db s'"
  shows "Option.bind (myrefl_obj_get_first_rel s None REL_TEST) (\<lambda>ob. each_test f ob s) =
    foldM f (test_instances db) s"
proof -
  have "tree_ok s" "system_comp s \<noteq> None"
    using assms(1,2) by (simp_all add: runtime_tree [OF assms(3)] runtimeD(2) [OF assms(3)])
  then have "myrefl_obj_get_first_rel s None REL_TEST = Some (head_or None (sys_objs TYPE_TEST db))"
    using sys_objs_first [of s TYPE_TEST] runtime_tree(2) [OF assms(3)]
    by (simp add: myrefl_obj_get_first_rel_def rel_to_type_def)
  then show ?thesis
    using each_test_rest [OF assms(1,4) assms(3), where ys = "[]" and zs = "sys_objs TYPE_TEST db"] by (simp add: test_instances_def)
qed

section \<open>Adding a test moves no other test\<close>

lemma on_queue_enqueue:
  assumes "queues db q \<noteq> None"
  shows "on_queue (enqueue_test q p i db) j r \<longleftrightarrow> on_queue db j r \<or> j = i \<and> r = q"
  using assms by (auto simp: enqueue_test_def Let_def split_beta on_queue_def split: if_splits)

lemma add_test_fresh:
  assumes l: "linked db" and q: "queued_of db i = QUEUE_NONE" and t: "test_of db (obj_of i) = Some t" and p: "t_type t = POLLED"
    and qs: "\<And>q. q \<noteq> QUEUE_NONE \<Longrightarrow> queues db q \<noteq> None"
  defines "ok \<equiv> obj_valid db (Some (obj_of i)) TYPE_TEST \<and> i_state (inst db i) = STATE_ENABLED"
  shows "\<exists>db'. myrefl_sched_add_test i True db = Some db' \<and>
    (\<forall>j. queued_of db' j = (if ok \<and> j = i then period_queue (t_period t) else queued_of db j)) \<and>
    (\<forall>j r. on_queue db' j r \<longleftrightarrow> on_queue db j r \<or> ok \<and> j = i \<and> r = period_queue (t_period t))"
proof (cases ok)
  case True
  let ?q = "period_queue (t_period t)"
  have n: "?q \<noteq> QUEUE_NONE" by (simp add: period_queue_def)
  have "myrefl_sched_add_test i True db = Some (enqueue_test ?q (t_period t) i (set_queued ?q i db))"
    using True t p q qs [OF n] by (auto simp: ok_def myrefl_sched_add_test_def validate_linked [OF l] test_schedule_def)
  moreover have "queued_of (enqueue_test ?q (t_period t) i (set_queued ?q i db)) j = (if j = i then ?q else queued_of db j)" for j
    by (simp add: enqueue_test_def Let_def split_beta)
  moreover have "on_queue (set_queued ?q i db) j r = on_queue db j r" for j r by (simp add: on_queue_def)
  ultimately show ?thesis using True on_queue_enqueue [of "set_queued ?q i db" ?q] qs [OF n] by auto
next
  case False
  then have "myrefl_sched_add_test i True db = Some db"
    by (auto simp: ok_def myrefl_sched_add_test_def validate_linked [OF l])
  then show ?thesis using False by auto
qed

section \<open>Recovery\<close>

lemma sched_inv_set_time:
  assumes "sched_inv db" and "\<And>q. \<not> on_queue db i q"
  shows "sched_inv (set_next_time t i db)"
  unfolding sched_inv_def
proof (rule sched_inv_butI)
  note D = sched_inv_butD [OF assms(1) [unfolded sched_inv_def]]
  have r: "runtime db (set_next_time t i db)" by simp
  show "queues (set_next_time t i db) QUEUE_NONE = None" using D(1) by simp
  show "queues (set_next_time t i db) q \<noteq> None" if "q \<noteq> QUEUE_NONE" for q using D(2) [OF that] by simp
  show "distinct xs \<and> set xs \<inter> {} = {} \<and> (\<forall>j \<in> set xs. queued_of (set_next_time t i db) j = q)"
    if "queues (set_next_time t i db) q = Some xs" for q xs
    using D(3,5) [of q xs] that by simp
  show "on_queue (set_next_time t i db) j (queued_of (set_next_time t i db) j)"
    if "inst_valid (set_next_time t i db) j TYPE_TEST" "queued_of (set_next_time t i db) j \<noteq> QUEUE_NONE" for j
    using D(6) [of j] that runtime_inst_valid [OF r] by (simp add: on_queue_def)
  show "sorted_wrt (\<lambda>a b. next_time_of (set_next_time t i db) a \<le> next_time_of (set_next_time t i db) b) xs"
    if "queues (set_next_time t i db) QUEUE_USER = Some xs" for xs
  proof -
    have "next_time_of (set_next_time t i db) a = next_time_of db a" if "a \<in> set xs" for a
      using that assms(2) [of QUEUE_USER] \<open>queues (set_next_time t i db) QUEUE_USER = Some xs\<close> by (auto simp: on_queue_def)
    then show ?thesis using D(7) [of xs] that by (simp add: sorted_wrt_mono_rel [of xs])
  qed
qed

lemma clear_queue_reads:
  "queues (clear_queue q db) = (queues db)(q := map_option (\<lambda>_. []) (queues db q))"
  "queued_of (clear_queue q db) i = (if on_queue db i q then QUEUE_NONE else queued_of db i)"
  "runtime db (clear_queue q db)" "queues_blocked (clear_queue q db) = queues_blocked db"
proof -
  have f: "queues (fold (set_queued QUEUE_NONE) xs s) = queues s \<and>
      queued_of (fold (set_queued QUEUE_NONE) xs s) i = (if i \<in> set xs then QUEUE_NONE else queued_of s i) \<and>
      runtime s (fold (set_queued QUEUE_NONE) xs s) \<and>
      queues_blocked (fold (set_queued QUEUE_NONE) xs s) = queues_blocked s" for xs s
    by (induction xs arbitrary: s) (auto intro: runtime_trans [OF runtime_set_sched(1)])
  then show "queues (clear_queue q db) = (queues db)(q := map_option (\<lambda>_. []) (queues db q))"
    "queued_of (clear_queue q db) i = (if on_queue db i q then QUEUE_NONE else queued_of db i)"
    "queues_blocked (clear_queue q db) = queues_blocked db"
    by (auto simp: clear_queue_def on_queue_def queued_of_def inst_def fun_eq_iff split: option.split)
  have "runtime db (fold (set_queued QUEUE_NONE) xs (db\<lparr>queues := q'\<rparr>))" for xs q'
    using f runtime_trans [of db "db\<lparr>queues := q'\<rparr>"] by simp
  then show "runtime db (clear_queue q db)" by (simp add: clear_queue_def split: option.split)
qed

text \<open>What the recovery has put on the queues.\<close>

definition to_queue :: "db \<Rightarrow> iref \<Rightarrow> test_queue option" where
  "to_queue db i =
     (if obj_valid db (Some (obj_of i)) TYPE_TEST \<and> i_state (inst db i) = STATE_ENABLED
      then Option.bind (test_of db (obj_of i)) (\<lambda>t. if t_type t = POLLED then Some (period_queue (t_period t)) else None)
      else None)"

definition recovered :: "db \<Rightarrow> iref set \<Rightarrow> db \<Rightarrow> bool" where
  "recovered db D s \<longleftrightarrow> runtime db s \<and> sched_inv s \<and> queues_blocked s \<and>
     (\<forall>j r. on_queue s j r \<longleftrightarrow> j \<in> D \<and> to_queue db j = Some r) \<and>
     (\<forall>j. j \<notin> D \<longrightarrow> inst_valid db j TYPE_TEST \<longrightarrow> queued_of s j = QUEUE_NONE)"

lemma queue_cases_all: "q \<noteq> QUEUE_NONE \<longleftrightarrow> q \<in> set all_queues"
  by (cases q) (simp_all add: all_queues_def)

text \<open>What recovery needs of the queues: they exist, and a test that says it is queued is on one of them, on whichever.\<close>

definition queues_exist :: "db \<Rightarrow> bool" where
  "queues_exist db \<longleftrightarrow> (\<forall>q. queues db q = None \<longleftrightarrow> q = QUEUE_NONE)"

definition queued_somewhere :: "db \<Rightarrow> bool" where
  "queued_somewhere db \<longleftrightarrow> (\<forall>i. inst_valid db i TYPE_TEST \<and> queued_of db i \<noteq> QUEUE_NONE \<longrightarrow> (\<exists>q. on_queue db i q))"

lemma recovered_start:
  assumes "queues_exist db" and "queued_somewhere db"
  shows "recovered db {} (fold clear_queue all_queues (db\<lparr>queues_blocked := True\<rparr>))"
proof -
  let ?s = "db\<lparr>queues_blocked := True\<rparr>"
  let ?c = "fold clear_queue all_queues ?s"
  have r0: "runtime db ?s" by simp
  have f: "(\<forall>q. queues (fold clear_queue qs s) q = (if q \<in> set qs then map_option (\<lambda>_. []) (queues s q) else queues s q)) \<and>
      (\<forall>i. queued_of (fold clear_queue qs s) i = (if \<exists>q \<in> set qs. on_queue s i q then QUEUE_NONE else queued_of s i)) \<and>
      runtime s (fold clear_queue qs s) \<and> queues_blocked (fold clear_queue qs s) = queues_blocked s" for qs s
  proof (induction qs arbitrary: s)
    case (Cons q qs)
    have "on_queue (clear_queue q s) i r \<longleftrightarrow> r \<noteq> q \<and> on_queue s i r" for i r
      by (auto simp: on_queue_def clear_queue_reads split: option.split)
    then show ?case using Cons.IH [of "clear_queue q s"] runtime_trans [OF clear_queue_reads(3)]
      by (auto simp: clear_queue_reads option.map_comp o_def)
  qed simp
  have same: "on_queue ?s = on_queue db" "queued_of ?s = queued_of db" "queues ?s = queues db"
    by (simp_all add: fun_eq_iff on_queue_def queued_of_def inst_def)
  have run: "runtime db ?c" using f [of all_queues ?s] runtime_trans [OF r0] by blast
  have q: "queues ?c r = (if r = QUEUE_NONE then None else Some [])" for r
    using f [of all_queues ?s] assms(1) by (auto simp: same queues_exist_def queue_cases_all [symmetric])
  have on: "\<not> on_queue ?c j r" for j r by (simp add: on_queue_def q)
  have v: "queued_of ?c j = QUEUE_NONE" if "inst_valid db j TYPE_TEST" for j
  proof (cases "queued_of db j = QUEUE_NONE")
    case False
    then have "\<exists>r. on_queue db j r" using assms(2) that by (auto simp: queued_somewhere_def)
    then obtain r where r: "on_queue db j r" by blast
    then have "queues db r \<noteq> None" by (cases "queues db r") (simp_all add: on_queue_def)
    then have "r \<noteq> QUEUE_NONE" using assms(1) [unfolded queues_exist_def, rule_format, of r] by simp
    then have "r \<in> set all_queues" by (simp only: queue_cases_all)
    then have e: "\<exists>q \<in> set all_queues. on_queue ?s j q" using r by (intro bexI [of _ r]) (simp_all only: same)
    have "queued_of ?c j = (if \<exists>q \<in> set all_queues. on_queue ?s j q then QUEUE_NONE else queued_of ?s j)"
      using f [of all_queues ?s] by blast
    then show ?thesis by (simp only: e if_True)
  qed (use f [of all_queues ?s] in \<open>simp add: same\<close>)
  have "sched_inv ?c"
    unfolding sched_inv_def by (rule sched_inv_butI) (use v q runtime_inst_valid [OF run] in \<open>auto split: if_splits\<close>)
  then show ?thesis using run on v f [of all_queues ?s] by (simp add: recovered_def)
qed

lemma recovered_step:
  assumes l: "linked db" and r: "recovered db D s" and i: "i \<notin> D" and t: "test_of db (obj_of i) \<noteq> None"
  shows "\<exists>s'. recover_instance i s = Some s' \<and> recovered db (insert i D) s'"
proof -
  obtain t where t: "test_of db (obj_of i) = Some t" using t by blast
  from r have run: "runtime db s" and inv: "sched_inv s" and bl: "queues_blocked s"
    and on: "\<And>j q. on_queue s j q \<longleftrightarrow> j \<in> D \<and> to_queue db j = Some q"
    and none: "\<And>j. j \<notin> D \<Longrightarrow> inst_valid db j TYPE_TEST \<Longrightarrow> queued_of s j = QUEUE_NONE"
    unfolding recovered_def by blast+
  note rd = runtime_reads [OF run]
  show ?thesis
  proof (cases "t_type t = POLLED")
    case False
    then have "to_queue db i = None" using t by (simp add: to_queue_def)
    then have "recovered db (insert i D) s" using r by (auto simp: recovered_def)
    then show ?thesis using t False by (auto simp: recover_instance_def rd)
  next
    case True
    let ?s = "set_next_time (XosTime 0 0) i s"
    have run': "runtime db ?s" by (rule runtime_trans [OF run]) simp
    have inv': "sched_inv ?s" using sched_inv_set_time [OF inv] on i by blast
    have l': "linked ?s" using l runtime_linked [OF run'] by simp
    have tq: "to_queue db i = (if obj_valid db (Some (obj_of i)) TYPE_TEST \<and> i_state (inst db i) = STATE_ENABLED
        then Some (period_queue (t_period t)) else None)"
      using t True by (simp add: to_queue_def)
    obtain s' where s': "myrefl_sched_add_test i True ?s = Some s'" "runtime ?s s'" "sched_inv s'"
      using add_test_linked [OF l' inv'] by blast
    have run'': "runtime db s'" by (rule runtime_trans [OF run' s'(2)])
    have q0: "queued_of ?s i = QUEUE_NONE \<or> to_queue db i = None"
      using none [OF i] tq by (auto simp: inst_valid_def)
    have on': "on_queue s' j q \<longleftrightarrow> j \<in> insert i D \<and> to_queue db j = Some q"
      and qd: "j \<noteq> i \<Longrightarrow> queued_of s' j = queued_of s j" for j q
    proof -
      have "\<exists>s''. myrefl_sched_add_test i True ?s = Some s'' \<and>
          (\<forall>j. j \<noteq> i \<longrightarrow> queued_of s'' j = queued_of s j) \<and>
          (\<forall>j q. on_queue s'' j q \<longleftrightarrow> on_queue s j q \<or> j = i \<and> to_queue db i = Some q)"
      proof (cases "to_queue db i")
        case None
        then have "myrefl_sched_add_test i True ?s = Some ?s"
          using tq runtime_obj_valid [OF run'] runtimeD(6) [OF run']
          by (auto simp: myrefl_sched_add_test_def validate_linked [OF l'] split: if_splits)
        then show ?thesis using None by (simp add: on_queue_def)
      next
        case (Some q)
        have qs: "queues ?s q \<noteq> None" if "q \<noteq> QUEUE_NONE" for q
          using sched_inv_butD(2) [OF inv [unfolded sched_inv_def] that] by simp
        have "test_of ?s (obj_of i) = Some t" using t by (simp add: runtime_reads(2) [OF run'])
        from add_test_fresh [OF l' _ this True qs] q0 Some tq show ?thesis
          using runtime_obj_valid [OF run'] runtimeD(6) [OF run'] by (auto simp: on_queue_def split: if_splits)
      qed
      then show "on_queue s' j q \<longleftrightarrow> j \<in> insert i D \<and> to_queue db j = Some q"
        "j \<noteq> i \<Longrightarrow> queued_of s' j = queued_of s j"
        using s'(1) on i by auto
    qed
    have "queues_blocked s'" using s'(1) bl
      by (auto simp: myrefl_sched_add_test_def validate_linked [OF l'] enqueue_test_def Let_def split_beta
          split: bind_splits option.splits if_splits)
    then have "recovered db (insert i D) s'"
      using run'' s'(3) on' qd none by (simp add: recovered_def)
    then show ?thesis using t True s'(1) by (auto simp: recover_instance_def rd)
  qed
qed

lemma recovered_loop:
  assumes "linked db"
  shows "recovered db D s \<Longrightarrow> distinct xs \<Longrightarrow> set xs \<inter> D = {} \<Longrightarrow> list_all (\<lambda>i. test_of db (obj_of i) \<noteq> None) xs \<Longrightarrow>
    \<exists>s'. foldM recover_instance xs s = Some s' \<and> recovered db (D \<union> set xs) s'"
proof (induction xs arbitrary: D s)
  case (Cons x xs)
  then obtain s1 where s1: "recover_instance x s = Some s1" "recovered db (insert x D) s1"
    using recovered_step [OF assms Cons.prems(1), of x] by auto
  then show ?case using Cons.IH [OF s1(2)] Cons.prems by auto
qed auto

lemma add_test_runtime:
  assumes "linked s" and "myrefl_sched_add_test i force s = Some s'"
  shows "runtime s s'"
proof -
  have "runtime s (enqueue_test q p i (set_queued q i s))" "runtime s (enqueue_test q p i (snd (remove_queue r i s)))"
    "runtime s (enqueue_test q p i (set_queued q i (snd (remove_queue r i s))))" for q p r
    by (auto intro: runtime_trans [OF _ runtime_enqueue] runtime_trans [OF runtime_queue_ops(3) runtime_set_sched(1)])
  then show ?thesis
    using assms(2) by (auto simp: myrefl_sched_add_test_def validate_linked [OF assms(1)] Let_def split_beta
        split: bind_splits option.splits if_splits)
qed

lemma recover_runtime:
  assumes "linked db" and "runtime db s" and "recover_instance i s = Some s'"
  shows "runtime db s'"
proof -
  have r: "runtime db (set_next_time (XosTime 0 0) i s)" by (rule runtime_trans [OF assms(2)]) simp
  then have "linked (set_next_time (XosTime 0 0) i s)" using assms(1) by (simp add: runtime_linked [OF r])
  then show ?thesis
    using assms(2,3) runtime_trans [OF r add_test_runtime] by (auto simp: recover_instance_def split: bind_splits if_splits)
qed

lemma recover_schedular_spec:
  assumes l: "linked db" and q: "queues_exist db" "queued_somewhere db" and t: "tree_ok db" "system_comp db \<noteq> None" "distinct (test_instances db)"
  shows "\<exists>db'. recover_schedular db = Some db' \<and> runtime db db' \<and> sched_inv db' \<and> \<not> queues_blocked db' \<and>
    (\<forall>i q. on_queue db' i q \<longleftrightarrow> i \<in> set (test_instances db) \<and> to_queue db i = Some q)"
proof -
  let ?s = "fold clear_queue all_queues (db\<lparr>queues_blocked := True\<rparr>)"
  have start: "recovered db {} ?s" by (rule recovered_start [OF q])
  then have r: "runtime db ?s" by (simp add: recovered_def)
  have "type_of db x = TYPE_TEST" if "x \<in> set (sys_objs TYPE_TEST db)" for x by (rule sys_objs_typed [OF t(1) that])
  then have "list_all (\<lambda>i. test_of db (obj_of i) \<noteq> None) (test_instances db)"
    by (fastforce simp: list_all_iff test_instances_def all_instances_def test_of_def type_of_def split: obj_data.splits)
  then obtain s' where s': "foldM recover_instance (test_instances db) ?s = Some s'" "recovered db (set (test_instances db)) s'"
    using recovered_loop [OF l start t(3)] by auto
  let ?e = "s'\<lparr>queues_blocked := False\<rparr>"
  have "Option.bind (myrefl_obj_get_first_rel ?s None REL_TEST) (\<lambda>ob. each_test recover_instance ob ?s) = Some s'"
    using each_test_all [OF t(1,2) r recover_runtime [OF l]] s'(1) by simp
  then have "recover_schedular db = Some (check_test_start_timer ?e)"
    by (auto simp: recover_schedular_def Let_def split: bind_splits)
  moreover have e: "runtime s' ?e" "runtime ?e (check_test_start_timer ?e)" by simp_all
  moreover have "runtime db (check_test_start_timer ?e)"
    using s'(2) runtime_trans [OF runtime_trans [OF _ e(1)] e(2)] by (simp add: recovered_def)
  moreover have "queued_of ?e = queued_of s'" "next_time_of ?e = next_time_of s'"
    by (simp_all add: fun_eq_iff queued_of_def next_time_of_def inst_def)
  then have "sched_inv ?e" using s'(2) sched_inv_runtime [OF e(1), of "{}"]
    by (simp add: recovered_def sched_inv_def)
  then have "sched_inv (check_test_start_timer ?e)"
    using sched_inv_runtime [OF e(2), of "{}"] by (simp add: sched_inv_def)
  moreover have "on_queue (check_test_start_timer ?e) = on_queue s'" by (simp add: fun_eq_iff on_queue_def)
  ultimately show ?thesis using s'(2) by (auto simp: recovered_def)
qed

end
