(* ===== verification/Created.thy ===== *)
theory Created
  imports Deleted SchedInit
begin

text \<open>
  Lemmas about the life of a test that a client creates: the object with the defaults of its type, the
  polled test, and its way onto a queue when it is enabled.
\<close>

section \<open>A new test\<close>

definition new_test :: obj_test where
  "new_test = \<lparr>t_type = POLLED, t_rule = None, t_function = None, t_period = 0, t_default_period = 0, t_autopass = 0\<rparr>"

definition new_instance :: "name \<Rightarrow> obj_instance" where
  "new_instance n = zero_instance\<lparr>i_state := STATE_ALLOCATED, i_name := n,
     i_sched := \<lparr>queued = QUEUE_NONE, last_time = zero_time, next_time = zero_time\<rparr>\<rparr>"

text \<open>What the scheduler keeps is the same.\<close>

definition same_queues :: "db \<Rightarrow> db \<Rightarrow> bool" where
  "same_queues s t \<longleftrightarrow> queues t = queues s \<and> queues_blocked t = queues_blocked s"

lemma same_queues_ops [simp]:
  "same_queues s (upd_obj x f t) = same_queues s t" "same_queues s (upd_inst i e t) = same_queues s t"
  "same_queues s (set_test x g t) = same_queues s t" "same_queues s (set_comp x h t) = same_queues s t"
  by (simp_all add: same_queues_def upd_obj_def upd_inst_def set_test_def set_comp_def)

lemma create_test_reads:
  assumes "create_object n TYPE_TEST s = Some (Some x, t)" and "system_comp s = Some r" and "fresh_ok s" and "type_of s r = TYPE_COMP"
  shows "x = next_oid s" and "objs t x = zero_obj\<lparr>o_data := DTest new_test, o_parent_comp := Some r\<rparr>"
    and "inst t (base x) = new_instance n" and "same_queues s t"
proof -
  let ?x = "next_oid s"
  have r: "r \<noteq> ?x" using assms(3,4) by (auto simp: fresh_ok_def)
  let ?n = "upd_inst (base ?x) (\<lambda>_. new_instance n) (s\<lparr>next_oid := Suc ?x, objs := (objs s)(?x := zero_obj)\<rparr>)"
  have n: "new_object n s = (?x, ?n)" by (simp add: new_object_def Let_def new_instance_def)
  have "type_of ?n ?x = TYPE_NONE" by (simp add: type_of_def upd_inst_def zero_obj_def)
  then have a: "allocate_object_type ?x TYPE_TEST ?n = (True, upd_inst (base ?x) (\<lambda>i. i\<lparr>i_state := STATE_ALLOCATED\<rparr>)
      (upd_obj ?x (\<lambda>x. x\<lparr>o_data := DTest new_test\<rparr>) ?n))" (is "_ = (True, ?a)")
    by (simp add: allocate_object_type_def Let_def zero_data_def new_test_def)
  have oa: "objs ?a ?x = zero_obj\<lparr>o_data := DTest new_test\<rparr>" "inst ?a (base ?x) = new_instance n"
    by (simp_all add: upd_inst_def upd_obj_def inst_def new_instance_def)
  have sys: "system_comp ?a = Some r" using assms(2) by (simp add: upd_inst_def upd_obj_def)
  have ty: "type_of ?a ?x = TYPE_TEST" by (simp add: type_of_def oa)
  note c = assms(1) [unfolded create_object_def n Let_def split_conv a sys option.case]
  obtain l where l: "myrefl_obj_comp_link_obj r ?x ?a = Some l"
    using c by (cases "myrefl_obj_comp_link_obj r ?x ?a") (simp_all del: upd_inst_def)
  have "type_of l ?x = TYPE_TEST" using link_reads(3) [OF l] ty by simp
  then have t: "t = l" and x: "x = ?x" using c unfolding l by simp_all
  have l': "l = upd_obj ?x (\<lambda>x. x\<lparr>o_parent_comp := Some r\<rparr>) (set_comp r (map_comp_list (type_of ?a ?x) (\<lambda>xs. ?x # xs)) ?a)"
    using l by (auto simp: myrefl_obj_comp_link_obj_def Let_def split: if_splits)
  have "objs (set_comp r h u) ?x = objs u ?x" for h u using r by (simp add: set_comp_def upd_obj_def)
  then show "objs t x = zero_obj\<lparr>o_data := DTest new_test, o_parent_comp := Some r\<rparr>"
    by (simp add: t x l' upd_obj_def oa [unfolded upd_obj_def])
  show "inst t (base x) = new_instance n" using oa(2) link_reads(6) [OF l] by (simp only: t x)
  show "same_queues s t" unfolding t l' by simp (simp add: same_queues_def)
  show "x = next_oid s" by (rule x)
qed

lemma same_place_tree:
  assumes "same_place s t"
  shows "tree_inv t = tree_inv s" "lookup t = lookup s"
proof -
  have r: "type_of t = type_of s" "system_comp t = system_comp s" "chain t = chain s"
    "\<And>y. o_parent_comp (objs t y) = o_parent_comp (objs s y)" "next_oid t = next_oid s"
    "\<And>j. i_name (inst t j) = i_name (inst s j)"
    using assms by (simp_all add: same_place_def)
  note t = same_tree [OF r(1-4)]
  have o: "lookup_order TYPE_ANY t = lookup_order TYPE_ANY s" by (simp add: lookup_order_def t)
  have "has_name t = has_name s" by (simp add: fun_eq_iff has_name_def r)
  then show "lookup t = lookup s" by (intro ext) (simp only: lookup_def o)
  have "names_ok t = names_ok s" by (simp add: names_ok_def o r)
  then show "tree_inv t = tree_inv s" by (simp add: tree_inv_def t fresh_ok_def r)
qed

lemma same_place_test:
  "same_place s (set_test x f s)" "same_place s (upd_obj x (\<lambda>ob. ob\<lparr>o_description := d\<rparr>) s)"
  "same_place s (upd_obj x (\<lambda>ob. ob\<lparr>o_description := d, o_remote_location := b\<rparr>) s)"
  unfolding set_test_def
  by (rule same_place_upd_obj; simp add: data_type_def comp_shape_def fun_eq_iff split: obj_data.split)+

lemma same_place_upd_inst: "same_place s t \<Longrightarrow> (\<And>x. i_name (e x) = i_name x) \<Longrightarrow> same_place s (upd_inst i e t)"
  by (rule same_place_trans [OF _ same_place_ops(7)])

lemma validate_test:
  assumes "o_data (objs s x) = DTest t" and "t_rule t = None" and "i_state (inst s (base x)) \<noteq> STATE_DELETED"
    and "and (i_flags (inst s (base x))) (not OBJ_FLAG_RESERVED) \<le> MYREFL_TEST_FLAG_ALL" and "o_parent_comp (objs s x) \<noteq> None"
  shows "myrefl_obj_validate (Some x) TYPE_TEST s =
    Some (i_state (inst s (base x)) = STATE_ALLOCATED \<or> i_state (inst s (base x)) = STATE_INITIALIZED \<or>
      test_consistent t (i_context (inst s (base x))), s)"
proof -
  have "type_of s x = TYPE_TEST" using assms(1) by (simp add: type_of_def)
  moreover have "\<not> and (i_flags (inst s (base x))) (not OBJ_FLAG_RESERVED) > MYREFL_TEST_FLAG_ALL" using assms(4) by (simp add: not_less)
  ultimately show ?thesis using assms by (simp add: myrefl_obj_validate_def Let_def)
qed

text \<open>The object as the client's first call leaves it.\<close>

definition client_test :: obj_test where "client_test = new_test\<lparr>t_autopass := AUTOPASS_UNSET\<rparr>"

definition client_instance :: "name \<Rightarrow> obj_instance" where
  "client_instance n = initialized (first_result (new_instance n)\<lparr>i_flags := MYREFL_TEST_LOCATION_ALL\<rparr>)"

lemma client_instance_reads [simp]:
  "i_state (client_instance n) = STATE_INITIALIZED" "i_flags (client_instance n) = MYREFL_TEST_LOCATION_ALL"
  "i_cli_state (client_instance n) = STATE_INITIALIZED" "queued (i_sched (client_instance n)) = QUEUE_NONE"
  "i_context (client_instance n) = 0"
  by (simp_all add: client_instance_def initialized_def first_result_def new_instance_def zero_instance_def)

lemma test_flags_ok: "and MYREFL_TEST_LOCATION_ALL (not OBJ_FLAG_RESERVED) \<le> MYREFL_TEST_FLAG_ALL"
  by (simp add: MYREFL_TEST_LOCATION_ALL_def OBJ_FLAG_RESERVED_def MYREFL_TEST_FLAG_ALL_def)

lemma new_client_test:
  assumes inv: "tree_inv s" and n: "n \<noteq> []" and l: "lookup s (myrefl_api_convert_name n) = None"
  shows "\<exists>x t r. myrefl_api_get_or_create n TYPE_TEST s = Some (Some x, t) \<and> tree_inv t \<and>
    lookup t (myrefl_api_convert_name n) = Some x \<and>
    objs t x = zero_obj\<lparr>o_data := DTest client_test, o_parent_comp := Some r\<rparr> \<and>
    inst t (base x) = client_instance (myrefl_api_convert_name n) \<and> same_queues s t"
proof -
  let ?n = "myrefl_api_convert_name n" and ?x = "next_oid s"
  obtain r where r: "system_comp s = Some r" "type_of s r = TYPE_COMP" and fr: "fresh_ok s"
    using inv by (auto simp: tree_inv_def tree_ok_def split: option.splits)
  obtain u where g: "myrefl_obj_get_or_create ?n TYPE_TEST s = Some (Some ?x, u)" and u: "tree_inv u" "lookup u ?n = Some ?x"
    using create_new [OF inv l, of TYPE_TEST] by auto
  have "create_object ?n TYPE_TEST s = Some (Some ?x, u)"
    using g r(1) by (simp add: myrefl_obj_get_or_create_def by_name_lookup [OF inv] l)
  note c = create_test_reads [OF this r(1) fr r(2)]
  have ty: "type_of u ?x = TYPE_TEST" by (simp add: type_of_def c(2))
  let ?v = "upd_inst (base ?x) initialized (upd_obj ?x (\<lambda>x. x\<lparr>o_description := None, o_remote_location := False\<rparr>) (set_defaults ?x u))"
  have d: "set_defaults ?x u = upd_inst (base ?x) (first_result \<circ> default_flags MYREFL_TEST_LOCATION_ALL)
            (set_test ?x (\<lambda>t. t\<lparr>t_autopass := AUTOPASS_UNSET\<rparr>) u)" by (simp add: set_defaults_def ty)
  have ov: "objs ?v ?x = zero_obj\<lparr>o_data := DTest client_test, o_parent_comp := Some r\<rparr>"
    using c(2) by (simp add: d upd_inst_def upd_obj_def set_test_def client_test_def zero_obj_def)
  have "inst (set_test ?x (\<lambda>t. t\<lparr>t_autopass := AUTOPASS_UNSET\<rparr>) u) (base ?x) = new_instance ?n"
    using c(3) by (simp add: set_test_def)
  then have iv: "inst ?v (base ?x) = client_instance ?n"
    by (simp add: d inst_upd_inst client_instance_def default_flags_def new_instance_def zero_instance_def first_result_def initialized_def)
  have "o_data (objs ?v ?x) = DTest client_test" "o_parent_comp (objs ?v ?x) \<noteq> None" by (simp_all only: ov) simp_all
  then have "myrefl_obj_validate (Some ?x) TYPE_TEST ?v = Some (True, ?v)"
    using validate_test [of ?v ?x client_test] test_flags_ok by (simp only: iv) (simp add: client_test_def new_test_def)
  moreover have "i_state (inst u (base ?x)) = STATE_ALLOCATED" by (simp add: c(3) new_instance_def)
  ultimately have "myrefl_api_get_or_create n TYPE_TEST s = Some (Some ?x, ?v)"
    using g by (simp add: myrefl_api_get_or_create_def Let_def)
  moreover have "same_place u ?v"
    unfolding d by (intro same_place_upd_inst same_place_trans [OF same_place_upd_inst same_place_test(3)] same_place_test)
      (simp_all add: initialized_def first_result_def default_flags_def)
  then have "tree_inv ?v" "lookup ?v ?n = Some ?x" using same_place_tree u by simp_all
  moreover have "same_queues s ?v" using c(4) by (simp add: d)
  ultimately show ?thesis using ov iv by blast
qed

section \<open>The polled test\<close>

text \<open>The test that \<open>myrefl_test_create_polled\<close> leaves behind.\<close>

definition client_polled :: "nat \<Rightarrow> 64 word \<Rightarrow> obj_test" where
  "client_polled f p = polled_test f p client_test"

definition created_instance :: "name \<Rightarrow> nat \<Rightarrow> obj_instance" where
  "created_instance n c = (client_instance n)\<lparr>i_context := c, i_state := STATE_CREATED\<rparr>"

definition has_test :: "db \<Rightarrow> oid \<Rightarrow> obj_test \<Rightarrow> obj_instance \<Rightarrow> bool" where
  "has_test s x t i \<longleftrightarrow> o_data (objs s x) = DTest t \<and> o_parent_comp (objs s x) \<noteq> None \<and> o_members (objs s x) = [] \<and>
     inst s (base x) = i"

lemma create_polled_new:
  assumes inv: "tree_inv s" and n: "n \<noteq> []" and l: "lookup s (myrefl_api_convert_name n) = None"
  shows "\<exists>x t. myrefl_test_create_polled (Some n) (Some f) c p s = Some t \<and> tree_inv t \<and> named t n x \<and>
    has_test t x (client_polled f (ucast p)) (created_instance (myrefl_api_convert_name n) c) \<and> same_queues s t"
proof -
  obtain x u r where g: "myrefl_api_get_or_create n TYPE_TEST s = Some (Some x, u)" and u: "tree_inv u"
    "lookup u (myrefl_api_convert_name n) = Some x"
    and o: "objs u x = zero_obj\<lparr>o_data := DTest client_test, o_parent_comp := Some r\<rparr>"
    and i: "inst u (base x) = client_instance (myrefl_api_convert_name n)" and q: "same_queues s u"
    using new_client_test [OF assms] by blast
  let ?v = "set_test x (polled_test f (ucast p)) u"
  let ?t = "set_state STATE_CREATED x (set_context c x (not_queued x ?v))"
  have ov: "objs ?v x = zero_obj\<lparr>o_data := DTest (client_polled f (ucast p)), o_parent_comp := Some r\<rparr>"
    using o by (simp add: set_test_def upd_obj_def client_polled_def)
  then have "o_ref_rule (objs ?v x) = None" by (simp add: zero_obj_def)
  then have "myrefl_test_create_polled (Some n) (Some f) c p s = Some ?t"
    using g n by (simp add: myrefl_test_create_polled_def api_object_def badstr_def Let_def connect_ref_rule_def)
  moreover have pl: "same_place u ?t"
    unfolding set_state_def set_context_def not_queued_def by (intro same_place_upd_inst same_place_test) simp_all
  moreover have "objs ?t x = objs ?v x" by (simp add: set_state_def set_context_def not_queued_def upd_inst_def)
  moreover have "inst ?v (base x) = client_instance (myrefl_api_convert_name n)" using i by (simp add: set_test_def)
  then have it: "inst ?t (base x) = created_instance (myrefl_api_convert_name n) c"
    by (simp add: set_state_def set_context_def not_queued_def inst_upd_inst created_instance_def client_instance_def
        initialized_def first_result_def new_instance_def zero_instance_def)
  ultimately have "has_test ?t x (client_polled f (ucast p)) (created_instance (myrefl_api_convert_name n) c)"
    by (simp add: has_test_def ov zero_obj_def)
  moreover have "tree_inv ?t" "named ?t n x"
    using same_place_tree [OF pl] u n it by (simp_all add: named_def created_instance_def)
  moreover have "same_queues s ?t" using q by (simp add: set_state_def set_context_def not_queued_def)
  ultimately show ?thesis using \<open>myrefl_test_create_polled (Some n) (Some f) c p s = Some ?t\<close> by blast
qed

lemma foldM_single: "foldM f [x] s = f x s"
  by (cases "f x s") auto

lemma enable_created:
  assumes inv: "tree_inv s" and n: "named s n x" and t: "has_test s x (client_polled f p) (created_instance m c)"
    and q: "\<And>q. q \<noteq> QUEUE_NONE \<Longrightarrow> queues s q \<noteq> None"
  shows "\<exists>t. myrefl_test_enable (Some n) None s = Some t \<and> i_state (inst t (base x)) = STATE_ENABLED \<and>
    (if p = 0 \<or> queues_blocked s then queues t = queues s
     else on_queue t (base x) (period_queue p) \<and> queued_of t (base x) = period_queue p)"
proof -
  let ?i = "base x"
  let ?u = "upd_inst ?i (enable_state False) s"
  have d: "o_data (objs s x) = DTest (client_polled f p)" "inst s ?i = created_instance m c" "o_parent_comp (objs s x) \<noteq> None"
    and all: "all_instances s x = [?i]" using t by (simp_all add: has_test_def all_instances_def base_def)
  have ty: "type_of s x = TYPE_TEST" and ts: "test_of ?u x = Some (client_polled f p)"
    using d(1) by (simp_all add: type_of_def test_of_def upd_inst_def)
  have iu: "inst ?u ?i = (created_instance m c)\<lparr>i_state := STATE_ENABLED, i_default_state := STATE_ENABLED\<rparr>"
    using d(2) by (simp add: inst_upd_inst enable_state_def set_default_state_def Let_def created_instance_def)
  have "myrefl_test_enable (Some n) None s = myrefl_sched_add_test ?i False ?u"
    using ts d(2) iu
    by (simp add: myrefl_test_enable_def myrefl_api_test_enable_guts_def empty_name_def named_object [OF inv n] ty
        pick_instance_def switch_state_def in_service_def all enable_test_def polled_def Let_def created_instance_def
        client_polled_def polled_test_def foldM_single del: foldM.simps)
  moreover have "myrefl_obj_validate (Some x) TYPE_TEST ?u = Some (p \<noteq> 0, ?u)"
  proof -
    have "o_data (objs ?u x) = DTest (client_polled f p)" "o_parent_comp (objs ?u x) \<noteq> None" using d by (simp_all add: upd_inst_def)
    from validate_test [OF this(1) _ _ _ this(2)] show ?thesis
      using test_flags_ok unfolding iu
      by (simp add: created_instance_def client_polled_def polled_test_def client_test_def new_test_def test_consistent_def)
  qed
  moreover have "obj_of ?i = x" by (simp add: base_def)
  moreover have b: "queues_blocked ?u = queues_blocked s" by (simp add: upd_inst_def)
  have "period_queue p \<noteq> QUEUE_NONE" by (simp add: period_queue_def)
  then have qs: "queues ?u (period_queue p) \<noteq> None" using q by (simp add: upd_inst_def)
  ultimately have run: "myrefl_test_enable (Some n) None s =
      (if p = 0 \<or> queues_blocked s then Some ?u
       else Some (enqueue_test (period_queue p) p ?i (set_queued (period_queue p) ?i ?u)))"
    using ts qs d(2) by (auto simp: myrefl_sched_add_test_def test_schedule_def queued_of_def client_polled_def polled_test_def
        created_instance_def b enable_state_def set_default_state_def Let_def)
  have "on_queue (enqueue_test (period_queue p) p ?i (set_queued (period_queue p) ?i ?u)) ?i (period_queue p)"
    using on_queue_enqueue [of "set_queued (period_queue p) ?i ?u" "period_queue p" p ?i] qs by simp
  moreover have "queued_of (enqueue_test (period_queue p) p ?i (set_queued (period_queue p) ?i ?u)) ?i = period_queue p"
    by (simp add: enqueue_test_def Let_def split_beta)
  moreover have "runtime ?u (enqueue_test (period_queue p) p ?i (set_queued (period_queue p) ?i ?u))"
    by (auto intro: runtime_trans [OF _ runtime_enqueue])
  from runtimeD(6) [OF this] have "i_state (inst (enqueue_test (period_queue p) p ?i (set_queued (period_queue p) ?i ?u)) ?i) = STATE_ENABLED"
    by (simp only: iu) (simp add: created_instance_def)
  moreover have "i_state (inst ?u ?i) = STATE_ENABLED" "queues ?u = queues s" by (simp_all only: iu) (simp_all add: upd_inst_def)
  ultimately show ?thesis using run by (cases "p = 0 \<or> queues_blocked s") auto
qed

end
