(* ===== verification/ObjProps.thy ===== *)
theory ObjProps
  imports Demo Contain
begin

text \<open>The properties of the component tree and its name space (\<^verbatim>\<open>src/src/myrefl_obj.c\<close>,
  \<open>myrefl_api_comp_contains\<close> in \<^verbatim>\<open>src/src/myrefl_api.c\<close>).\<close>

section \<open>The demonstration database\<close>

lemma demo_comp_chain:
  "chain demo_db ty p = (if p = 0 then (case ty of TYPE_TEST \<Rightarrow> [1] | TYPE_RULE \<Rightarrow> [2, 3] | _ \<Rightarrow> []) else [])"
  by (auto simp: chain_def comp_of_def demo_obj_def blank_obj_def demo_comp_def comp_list_def split: obj_type.split)

lemma demo_type: "type_of demo_db x =
   (if x = 0 then TYPE_COMP else if x = 1 then TYPE_TEST else if x = 2 \<or> x = 3 then TYPE_RULE else TYPE_NONE)"
  by (auto simp: type_of_def demo_obj_def blank_obj_def)

lemma demo_parent: "o_parent_comp (demo_obj x) = (if x \<in> {1, 2, 3} then Some 0 else None)"
  by (auto simp: demo_obj_def blank_obj_def)

lemma demo_system: "system_comp demo_db = Some 0"
  by (simp add: demo_db_def)

lemma demo_tree: "tree_ok demo_db"
proof -
  have "chains_ok demo_db"
    by (auto simp: chains_ok_def demo_comp_chain demo_type demo_parent split: obj_type.splits if_splits)
  moreover have "depth_ok (\<lambda>_. 0) demo_db" by (simp add: depth_ok_def demo_comp_chain)
  ultimately show ?thesis by (auto simp: tree_ok_def demo_system demo_type blank_obj_def)
qed

lemma demo_all_comps: "all_comps demo_db = [0]"
  using comps_below_leaf [of demo_db 0] by (simp add: all_comps_def demo_system demo_comp_chain)

lemma demo_order: "lookup_order TYPE_ANY demo_db = [0, 1, 2, 3]"
  by (simp add: lookup_order_def sys_objs_def demo_all_comps demo_comp_chain)

lemma demo_names: "i_name (demo_inst (base x)) = demo_name x"
  by (simp add: demo_inst_base blank_instance_def)

lemma demo_tree_inv: "tree_inv demo_db"
proof -
  have "names_ok demo_db"
    by (auto simp: names_ok_def inj_on_def demo_order demo_names demo_name_def SYSTEM_COMP_NAME_def)
  moreover have "fresh_ok demo_db" by (auto simp: fresh_ok_def demo_fields demo_type demo_parent)
  ultimately show ?thesis using demo_tree by (simp add: tree_inv_def demo_system)
qed

lemma demo_lookup:
  "lookup demo_db ''test'' = Some (Suc 0)" "lookup demo_db ''new'' = None"
  by (simp_all add: lookup_def demo_order has_name_def demo_names demo_name_def SYSTEM_COMP_NAME_def)

section \<open>Nested components\<close>

text \<open>The example of the comment at \<open>comp_get_next_contained\<close>: component 1 contains 2 and 5, component 2
  contains 3 and 4, component 5 contains 6; component 1 is in the system component 0.\<close>

definition nested_kids :: "oid \<Rightarrow> oid list" where
  "nested_kids x = (if x = 0 then [1] else if x = 1 then [2, 5] else if x = 2 then [3, 4] else if x = 5 then [6] else [])"

definition nested_parent :: "oid \<Rightarrow> oid option" where
  "nested_parent x = (if x = 1 then Some 0 else if x = 2 \<or> x = 5 then Some 1
     else if x = 3 \<or> x = 4 then Some 2 else if x = 6 then Some 5 else None)"

definition nested_db :: db where
  "nested_db = empty_db\<lparr>objs := (\<lambda>x. if x \<le> 6 then zero_obj\<lparr>o_parent_comp := nested_parent x,
       o_data := DComp \<lparr>c_nones = [], c_tests = [], c_actions = [], c_rules = [], c_comps = nested_kids x,
         c_top_depend = [], c_bottom_depend = [], c_interested = []\<rparr>\<rparr> else zero_obj),
     system_comp := Some 0, next_oid := 7\<rparr>"

lemma nested_comp: "comp_of nested_db x = (if x \<le> 6 then Some \<lparr>c_nones = [], c_tests = [], c_actions = [], c_rules = [],
    c_comps = nested_kids x, c_top_depend = [], c_bottom_depend = [], c_interested = []\<rparr> else None)"
  by (simp add: comp_of_def nested_db_def zero_obj_def)

lemma nested_type: "type_of nested_db x = (if x \<le> 6 then TYPE_COMP else TYPE_NONE)"
  by (simp add: type_of_def nested_db_def zero_obj_def)

lemma nested_chain: "chain nested_db ty x = (if ty = TYPE_COMP then nested_kids x else [])"
  by (cases ty) (auto simp: chain_def nested_comp comp_list_def nested_kids_def)

lemma nested_parents: "o_parent_comp (objs nested_db x) = nested_parent x" "system_comp nested_db = Some 0"
  by (simp_all add: nested_db_def zero_obj_def nested_parent_def)

lemma nested_chains: "chains_ok nested_db"
  by (auto simp: chains_ok_def nested_chain nested_type nested_parents nested_kids_def nested_parent_def split: if_splits)

lemma nested_tree: "tree_ok nested_db"
proof -
  have "depth_ok (\<lambda>x. if x = 0 then 0 else if x = 1 then 1 else if x = 2 \<or> x = 5 then 2 else 3) nested_db"
    by (auto simp: depth_ok_def nested_chain nested_parents nested_kids_def MAX_COMP_NESTING_def split: if_splits)
  then show ?thesis using nested_chains by (auto simp: tree_ok_def nested_parents nested_type nested_parent_def)
qed

lemma nested_next: "next_in_comp nested_db x = (if x = 2 then Some 5 else if x = 3 then Some 4 else None)"
  by (simp add: next_in_comp_def nested_parents nested_parent_def nested_comp nested_type comp_list_def nested_kids_def)

lemmas nested_eval = comp_get_next_contained_def or_system_def nested_comp nested_next nested_parents nested_kids_def nested_parent_def

lemma nested_walk:
  "comp_get_next_contained nested_db (Some 1) (Some 1) = Some (Some 2)"
  "comp_get_next_contained nested_db (Some 1) (Some 2) = Some (Some 3)"
  "comp_get_next_contained nested_db (Some 1) (Some 3) = Some (Some 4)"
  "comp_get_next_contained nested_db (Some 1) (Some 4) = Some (Some 5)"
  "comp_get_next_contained nested_db (Some 1) (Some 5) = Some (Some 6)"
  "comp_get_next_contained nested_db (Some 1) (Some 6) = None"
  by (simp_all add: nested_eval)

lemma nested_loop_step:
  assumes "x \<noteq> 0" and "x \<le> 6"
  shows "contains_loop nested_db 0 1 (Some x) =
    Option.bind (comp_get_next_contained nested_db (Some 1) (Some x)) (\<lambda>next.
      case next of None \<Rightarrow> Some False | Some _ \<Rightarrow> contains_loop nested_db 0 1 next)"
proof -
  have "nested_parent x \<noteq> None" using assms by (auto simp: nested_parent_def)
  then show ?thesis using assms
    by (subst contains_loop.simps) (auto simp: myrefl_comp_get_next_contained_def nested_parents nested_comp
      split: option.split intro!: arg_cong2 [where f = Option.bind])
qed

lemma nested_contains: "myrefl_api_comp_contains 0 1 nested_db = None"
proof -
  have "contains_loop nested_db 0 1 (Some 2) = None" by (simp add: nested_loop_step [simplified] nested_walk [simplified])
  moreover have "myrefl_comp_get_first_contained nested_db (Some 1) TYPE_COMP = Some (Some 2)"
    using first_contained [of nested_db 1] by (simp add: nested_type nested_chain nested_kids_def)
  ultimately show ?thesis by (simp add: myrefl_api_comp_contains_def nested_type)
qed

section \<open>Properties\<close>

text \<open>C21: a lookup by name walks over the component tree and answers the first object of that name in
  the list of all objects of the type: by component from the top down, children before peers.\<close>

theorem lookup_by_name:
  assumes "tree_ok db" and "system_comp db \<noteq> None"
  shows "myrefl_obj_get_by_name db (Some n) ty =
    Some (List.find (\<lambda>x. i_name (inst db (base x)) = n) (lookup_order ty db))"
  using by_name_finds [OF assms] by (simp add: has_name_def [abs_def])

lemma lookup_by_name_witness: "myrefl_obj_get_by_name demo_db (Some ''test'') TYPE_ANY = Some (Some 1)"
  using lookup_by_name [OF demo_tree, of "''test''" TYPE_ANY]
  by (simp add: demo_system demo_order demo_names demo_name_def SYSTEM_COMP_NAME_def)

text \<open>C22: an object that is created under a new name is found under it afterwards, asking for it
  again answers the same object and changes nothing, and no other name is affected.\<close>

theorem create_then_find:
  assumes "tree_inv db" and "myrefl_obj_get_by_name db (Some n) TYPE_ANY = Some None"
  shows "\<exists>x db'. myrefl_obj_get_or_create n ty db = Some (Some x, db') \<and> tree_inv db' \<and>
    myrefl_obj_get_by_name db' (Some n) TYPE_ANY = Some (Some x) \<and> type_of db' x = real_type ty \<and>
    myrefl_obj_get_or_create n ty db' = Some (Some x, db') \<and>
    (\<forall>m. m \<noteq> n \<longrightarrow> myrefl_obj_get_by_name db' (Some m) TYPE_ANY = myrefl_obj_get_by_name db (Some m) TYPE_ANY)"
proof -
  have "lookup db n = None" using assms by (simp add: by_name_lookup)
  from create_new [OF assms(1) this, of ty] obtain db' where
    run: "myrefl_obj_get_or_create n ty db = Some (Some (next_oid db), db')" and c: "created n ty db db'"
    and inv: "tree_inv db'" and l: "lookup db' n = Some (next_oid db)" "\<And>m. m \<noteq> n \<Longrightarrow> lookup db' m = lookup db m"
    by blast
  have t: "type_of db' (next_oid db) = real_type ty" "i_state (inst db' (base (next_oid db))) = STATE_ALLOCATED"
    using c by (simp_all add: created_def)
  then have "myrefl_obj_get_or_create n ty db' = Some (Some (next_oid db), db')"
    using get_existing [OF inv l(1), of ty] by (simp add: real_type_def split: if_splits)
  moreover have "TYPE_NONE \<noteq> TYPE_ANY" by simp
  ultimately show ?thesis
    using run inv l t by (auto simp: by_name_lookup [OF inv] by_name_lookup [OF assms(1)])
qed

lemma create_then_find_witness:
  "\<exists>x db'. myrefl_obj_get_or_create ''new'' TYPE_RULE demo_db = Some (Some x, db') \<and>
     myrefl_obj_get_by_name db' (Some ''new'') TYPE_ANY = Some (Some x)"
  using create_then_find [OF demo_tree_inv, of "''new''" TYPE_RULE] demo_lookup by (auto simp: by_name_lookup [OF demo_tree_inv])

text \<open>asking for the type of an object that so far was only referred to gives this very object the
  type; it keeps its component, and every name leads to the same object as before.\<close>

theorem grow_keeps_place:
  assumes "tree_inv db" and "myrefl_obj_get_by_name db (Some n) TYPE_ANY = Some (Some x)"
    and "type_of db x = TYPE_NONE" and "ty = TYPE_TEST \<or> ty = TYPE_RULE \<or> ty = TYPE_ACTION"
  shows "\<exists>db'. myrefl_obj_get_or_create n ty db = Some (Some x, db') \<and> tree_inv db' \<and>
    type_of db' = (type_of db)(x := ty) \<and> o_parent_comp (objs db' x) = o_parent_comp (objs db x) \<and>
    (\<forall>m. myrefl_obj_get_by_name db' (Some m) TYPE_ANY = myrefl_obj_get_by_name db (Some m) TYPE_ANY)"
proof -
  obtain d where d: "depth_ok d db" using assms(1) by (auto simp: tree_inv_def tree_ok_def)
  have "lookup db n = Some x" using assms(1,2) by (simp add: by_name_lookup)
  from grow_keeps_names [OF assms(1) this assms(3) _ _ d, of ty] assms(4) show ?thesis
    using by_name_lookup assms(1) by (metis obj_type.distinct)
qed

lemma grow_keeps_place_witness:
  "\<exists>db x db'. tree_inv db \<and> type_of db x = TYPE_NONE \<and>
     myrefl_obj_get_or_create ''new'' TYPE_TEST db = Some (Some x, db') \<and> type_of db' x = TYPE_TEST"
proof -
  have "lookup demo_db ''new'' = None" by (simp add: demo_lookup)
  from create_new [OF demo_tree_inv this, of TYPE_NONE] obtain db where
    "tree_inv db" "lookup db ''new'' = Some 4" "type_of db 4 = TYPE_NONE"
    by (auto simp: created_def real_type_def demo_fields)
  with grow_keeps_place [of db "''new''" 4 TYPE_TEST] show ?thesis by (auto simp: by_name_lookup)
qed

text \<open>C23: moving a test, a rule, an action or an object of no type into another component keeps the
  tree well formed, makes the component its parent, and changes no lookup.\<close>

theorem comp_contains_moves:
  assumes "tree_inv db" and "child \<in> set (lookup_order TYPE_ANY db)" and "type_of db child \<noteq> TYPE_COMP"
    and "parent \<in> set (all_comps db)"
  shows "\<exists>db'. myrefl_api_comp_contains parent child db = Some db' \<and> tree_inv db' \<and>
    o_parent_comp (objs db' child) = Some parent \<and> type_of db' = type_of db \<and>
    (\<forall>m. myrefl_obj_get_by_name db' (Some m) TYPE_ANY = myrefl_obj_get_by_name db (Some m) TYPE_ANY)"
  using comp_contains_lookup [OF assms] by_name_lookup assms(1) by metis

lemma comp_contains_moves_witness:
  "\<exists>db'. myrefl_api_comp_contains 0 2 demo_db = Some db' \<and> tree_inv db' \<and> o_parent_comp (objs db' 2) = Some 0"
  using comp_contains_moves [OF demo_tree_inv, of 2 0] by (auto simp: demo_order demo_type demo_all_comps)

text \<open>A component can be put into itself: it is then its own parent, in its own chain and in no
  other one, out of reach of every walk from the top.\<close>

theorem contained_in_itself:
  assumes "chains_ok db" and "type_of db x = TYPE_COMP" and "chain db TYPE_COMP x = []"
  shows "\<exists>db'. myrefl_api_comp_contains x x db = Some db' \<and> o_parent_comp (objs db' x) = Some x \<and>
    {p. x \<in> set (chain db' TYPE_COMP p)} = {x}"
  by (rule self_containment [OF assms(1,2)]) (simp add: leaf_def assms(3))

lemma contained_in_itself_witness:
  "\<exists>db'. myrefl_api_comp_contains 3 3 nested_db = Some db' \<and> o_parent_comp (objs db' 3) = Some 3"
  using contained_in_itself [OF nested_chains, of 3] by (auto simp: nested_chain nested_type nested_kids_def)

text \<open>on the tree that the comment of the code gives as its example, the walk over the components
  contained in component 1 visits 2, 3, 4, 5 and 6, and then follows a null pointer instead of
  ending; so does putting component 1 into the system component.\<close>

theorem contained_walk_follows_null:
  "tree_ok nested_db \<and>
   map (\<lambda>x. comp_get_next_contained nested_db (Some 1) (Some x)) [1, 2, 3, 4, 5] =
     [Some (Some 2), Some (Some 3), Some (Some 4), Some (Some 5), Some (Some 6)] \<and>
   comp_get_next_contained nested_db (Some 1) (Some 6) = None \<and>
   myrefl_api_comp_contains 0 1 nested_db = None"
  using nested_tree nested_walk nested_contains by simp

end
