(* ===== verification/ApiProps.thy ===== *)
theory ApiProps
  imports Created ObjProps
begin

text \<open>The properties of the client API (\<^verbatim>\<open>src/src/myrefl_api.c\<close>), and of the recovery of the
  scheduler. An entry that finds its object is run on \<open>named db n x\<close>: the name \<open>n\<close> leads to \<open>x\<close>.\<close>

section \<open>Concrete objects\<close>

lemma demo_named: "named demo_db ''test'' 1" "named demo_db ''top'' 2" "named demo_db ''bottom'' 3"
  by (simp_all add: named_def lookup_def convert_name_map name_char_def MYREFL_MAX_NAME_LEN_def MYREFL_NAME_SEPERATOR_def
      demo_order has_name_def demo_names demo_name_def SYSTEM_COMP_NAME_def demo_inst_base blank_instance_def)

lemma demo_typed: "typed demo_db"
proof -
  have "obj_ok (type_of demo_db) (demo_obj x)" for x
    by (auto simp: obj_ok_def data_ok_def demo_obj_def blank_obj_def demo_comp_def demo_test_def demo_rule_def demo_type refs_ok_def)
  then show ?thesis
    using demo_tree_inv by (simp add: typed_def tree_inv_def tree_ok_def demo_system demo_type)
qed

lemma demo_rules: "rule_of demo_db x = (if x = 2 then Some (demo_rule\<lparr>r_next_in_input := Some 3\<rparr>) else if x = 3 then Some demo_rule else None)"
  by (auto simp: rule_of_def demo_obj_def blank_obj_def)

lemma demo_search: "\<not> rule_input_search demo_db 2 2" "\<not> rule_input_search demo_db 2 3" "\<not> rule_input_search demo_db 3 2"
  by (simp_all add: rule_input_search_def RULE_DEPTH_LIMIT_def eval_nat_numeral demo_rules demo_rule_def)

text \<open>Adding an input to a rule when both exist.\<close>

lemma add_input_run:
  assumes "tree_inv db" and "named db n x" and "type_of db x = TYPE_RULE" and "named db m y" and "input_type_ok db y"
  shows "myrefl_rule_add_input (Some n) (Some m) db =
    Some (if rule_input_search db x y \<or> rule_input_search db y x then db else link_input x y db)"
proof -
  have "badstr (Some n) = False" "badstr (Some m) = False" using assms(2,4) by (simp_all add: named_def badstr_def)
  then show ?thesis
    using named_lookup [OF assms(1,2), of TYPE_RULE] named_object [OF assms(1,4), of TYPE_ANY] assms(3,5)
    by (simp add: myrefl_rule_add_input_def)
qed

section \<open>Sessions\<close>

text \<open>C1: the database that a session of API calls leaves behind is typed again: every pointer the
  code follows without a check leads to an object of the type that it is declared for, and an object
  that has a type keeps it, in whatever order the client calls.\<close>

theorem session_types:
  assumes "typed db" and "foldM api_run calls db = Some db'"
  shows "typed db' \<and> types_le db db'"
  using session_step [OF assms(2)] assms(1) by (simp add: tstep_def)

lemma session_types_witness:
  "\<exists>db'. foldM api_run [For_rule (Rule_add_input (Some ''top'') (Some ''bottom''))] demo_db = Some db' \<and> typed db' \<and>
     db' = link_input 2 3 demo_db"
proof -
  have "foldM api_run [For_rule (Rule_add_input (Some ''top'') (Some ''bottom''))] demo_db = Some (link_input 2 3 demo_db)"
    using add_input_run [OF demo_tree_inv demo_named(2) _ demo_named(3)] demo_search
    by (simp add: demo_type input_type_ok_def)
  with session_types [OF demo_typed this] show ?thesis by blast
qed

text \<open>C29: a call that gives a bad name, or the name of an object of another type than the entry is for,
  changes nothing: the entries for tests refuse rules, actions and components, and so on for each type.
  An object that has no type yet is not refused; it gets the type.\<close>

theorem wrong_object_refused:
  assumes "tree_inv db" and "call_target c = Some (n, ty)"
    and "badstr n \<or> (\<exists>m x. n = Some m \<and> named db m x \<and> type_of db x \<noteq> TYPE_NONE \<and> type_of db x \<noteq> ty)"
  shows "api_run c db = Some db"
proof -
  have "refused db n ty" using assms(3) by (simp add: refused_def)
  then show ?thesis
    using assms(1,2) test_refused action_refused rule_refused comp_refused refused_entries(4) [of db n ty]
    by (cases c) (auto simp: call_target_def myrefl_notify_test_result_def myrefl_notify_rule_result_def myrefl_notify_action_result_def)
qed

lemma wrong_object_refused_witness:
  "api_run (For_test (Test_enable (Some ''top'') None False)) demo_db = Some demo_db \<and>
   api_run (For_rule (Rule_create (Some ''test'') (Some ''top'') (Some ''a''))) demo_db = Some demo_db"
proof
  have t: "type_of demo_db 1 = TYPE_TEST" "type_of demo_db 2 = TYPE_RULE" by (simp_all add: demo_type)
  show "api_run (For_test (Test_enable (Some ''top'') None False)) demo_db = Some demo_db"
    by (rule wrong_object_refused [OF demo_tree_inv, of _ "Some ''top''" TYPE_TEST])
      (use demo_named(2) t(2) in \<open>force simp: call_target_def\<close>)+
  show "api_run (For_rule (Rule_create (Some ''test'') (Some ''top'') (Some ''a''))) demo_db = Some demo_db"
    by (rule wrong_object_refused [OF demo_tree_inv, of _ "Some ''test''" TYPE_RULE])
      (use demo_named(1) t(1) in \<open>force simp: call_target_def\<close>)+
qed

section \<open>Creating and deleting\<close>

text \<open>C4: a client that creates a polled test under a new name and enables it has an enabled test that
  waits on the queue of its period; with the period 0, which is not refused, or while the queues are
  blocked the test is enabled and no queue changes.\<close>

theorem created_test_is_scheduled:
  assumes "tree_inv db" and "sched_inv db" and "n \<noteq> []" and "lookup db (myrefl_api_convert_name n) = None"
  shows "\<exists>x db' db''. myrefl_test_create_polled (Some n) (Some f) ctx period db = Some db' \<and>
    myrefl_test_enable (Some n) None db' = Some db'' \<and> lookup db' (myrefl_api_convert_name n) = Some x \<and> tree_inv db' \<and>
    i_state (inst db' (base x)) = STATE_CREATED \<and> i_state (inst db'' (base x)) = STATE_ENABLED \<and>
    (if period = 0 \<or> queues_blocked db then queues db'' = queues db
     else on_queue db'' (base x) (period_queue (ucast period)) \<and> queued_of db'' (base x) = period_queue (ucast period))"
proof -
  obtain x s where s: "myrefl_test_create_polled (Some n) (Some f) ctx period db = Some s" "tree_inv s" "named s n x"
    and t: "has_test s x (client_polled f (ucast period)) (created_instance (myrefl_api_convert_name n) ctx)" and q: "same_queues db s"
    using create_polled_new [OF assms(1,3,4)] by blast
  have "queues s r \<noteq> None" if "r \<noteq> QUEUE_NONE" for r
    using assms(2) that q sched_inv_butD(2) [of "{}" db r] by (simp add: sched_inv_def same_queues_def)
  then obtain u where u: "myrefl_test_enable (Some n) None s = Some u" "i_state (inst u (base x)) = STATE_ENABLED"
    "if (ucast period :: 64 word) = 0 \<or> queues_blocked s then queues u = queues s
     else on_queue u (base x) (period_queue (ucast period)) \<and> queued_of u (base x) = period_queue (ucast period)"
    using enable_created [OF s(2,3) t] by blast
  have "(ucast period :: 64 word) = 0 \<longleftrightarrow> period = 0" by transfer simp
  then show ?thesis using s u t q by (auto simp: named_def has_test_def created_instance_def same_queues_def)
qed

lemma created_test_is_scheduled_witness:
  "\<exists>x db' db''. myrefl_test_create_polled (Some ''new'') (Some 5) 0 1000 demo_db = Some db' \<and>
     myrefl_test_enable (Some ''new'') None db' = Some db'' \<and> on_queue db'' (base x) (period_queue 1000)"
proof -
  have "lookup demo_db (myrefl_api_convert_name ''new'') = None"
    using demo_lookup(2) by (simp add: convert_name_map name_char_def MYREFL_NAME_SEPERATOR_def MYREFL_MAX_NAME_LEN_def)
  from created_test_is_scheduled [OF demo_tree_inv demo_sched _ this, of 5 0 1000] show ?thesis by (auto simp: demo_fields)
qed

text \<open>C27: deleting an action returns. Its name leads to nothing afterwards, every other name leads to the
  same object as before in a tree that is well formed, no rule lists the action any more, and the
  action is handed to the garbage collector.\<close>

theorem deleted_action_gone:
  assumes "tree_inv db" and "named db n x" and "action_of db x = Some a"
    and "\<forall>y r. rule_of db y = Some r \<longrightarrow> distinct (r_action_list r) \<and> (x \<in> set (r_action_list r) \<longrightarrow> y \<in> set (a_rule_list a))"
  shows "\<exists>db'. myrefl_action_delete (Some n) db = Some db' \<and> tree_inv db' \<and> lookup db' (myrefl_api_convert_name n) = None \<and>
    (\<forall>m. m \<noteq> myrefl_api_convert_name n \<longrightarrow> lookup db' m = lookup db m) \<and>
    (\<forall>y r. rule_of db' y = Some r \<longrightarrow> x \<notin> set (r_action_list r)) \<and> base x \<in> set (freeme db')"
proof -
  have "type_of db x = TYPE_ACTION" using assms(3) by (auto simp: action_of_def type_of_def split: obj_data.splits)
  then have "myrefl_action_delete (Some n) db = myrefl_obj_delete x db"
    using named_lookup [OF assms(1,2), of TYPE_ANY] by (simp add: myrefl_action_delete_def)
  moreover have "listed_back db x a" using assms(4) by (auto simp: listed_back_def actions_of_def)
  moreover have "lookup db (myrefl_api_convert_name n) = Some x" using assms(2) by (simp add: named_def)
  moreover have "(\<forall>y as. actions_of t y = Some as \<longrightarrow> x \<notin> set as) \<longleftrightarrow> (\<forall>y r. rule_of t y = Some r \<longrightarrow> x \<notin> set (r_action_list r))" for t
    by (simp add: actions_of_def) blast
  ultimately show ?thesis
    using action_deleted [OF assms(1) _ assms(3), of "myrefl_api_convert_name n"] by simp
qed

text \<open>The demonstration database with an action, object 4, that rule 2 runs.\<close>

definition act_obj :: "oid \<Rightarrow> obj" where
  "act_obj x =
     (if x = 0 then blank_obj\<lparr>o_data := DComp (demo_comp\<lparr>c_actions := [4]\<rparr>)\<rparr>
      else if x = 2 then (demo_obj 2)\<lparr>o_data := DRule (demo_rule\<lparr>r_next_in_input := Some 3, r_action_list := [4]\<rparr>)\<rparr>
      else if x = 4 then blank_obj\<lparr>o_data := DAction \<lparr>a_function = Some 0, a_rule_list = [2]\<rparr>, o_parent_comp := Some 0\<rparr>
      else demo_obj x)"

definition act_db :: db where
  "act_db = demo_db\<lparr>objs := act_obj, next_oid := 5,
     insts := demo_inst(base 4 := (demo_inst (base 4))\<lparr>i_name := ''act'', i_state := STATE_CREATED\<rparr>)\<rparr>"

lemma act_objs [simp]: "objs act_db = act_obj" "system_comp act_db = Some 0" "next_oid act_db = 5"
  by (simp_all add: act_db_def demo_system)

lemma act_inst: "inst act_db i = (if i = base 4 then (demo_inst (base 4))\<lparr>i_name := ''act'', i_state := STATE_CREATED\<rparr> else demo_inst i)"
  by (simp add: act_db_def inst_def)

lemma act_reads:
  "chain act_db ty p = (if p = 0 then (case ty of TYPE_TEST \<Rightarrow> [1] | TYPE_RULE \<Rightarrow> [2, 3] | TYPE_ACTION \<Rightarrow> [4] | _ \<Rightarrow> []) else [])"
  "type_of act_db x = (if x = 4 then TYPE_ACTION else type_of demo_db x)"
  "o_parent_comp (act_obj x) = (if x \<in> {1, 2, 3, 4} then Some 0 else None)"
  by (auto simp: chain_def comp_of_def type_of_def act_obj_def demo_obj_def blank_obj_def demo_comp_def comp_list_def split: obj_type.split)

lemma act_order: "lookup_order TYPE_ANY act_db = [0, 1, 2, 3, 4]"
proof -
  have "all_comps act_db = [0]" using comps_below_leaf [of act_db 0] by (simp add: all_comps_def act_reads)
  then show ?thesis by (simp add: lookup_order_def sys_objs_def act_reads)
qed

lemma act_names: "i_name (inst act_db (base x)) = (if x = 4 then ''act'' else demo_name x)"
  using demo_names [of x] by (simp add: act_inst) (simp add: base_def)

lemma act_tree_inv: "tree_inv act_db"
proof -
  have "chains_ok act_db"
    by (auto simp: chains_ok_def act_reads demo_type split: obj_type.splits if_splits)
  moreover have "depth_ok (\<lambda>_. 0) act_db" by (simp add: depth_ok_def act_reads)
  ultimately have "tree_ok act_db" by (auto simp: tree_ok_def act_reads demo_type)
  moreover have "names_ok act_db"
    by (auto simp: names_ok_def inj_on_def act_order act_names demo_name_def SYSTEM_COMP_NAME_def)
  moreover have "fresh_ok act_db" by (auto simp: fresh_ok_def act_reads demo_type)
  ultimately show ?thesis by (simp add: tree_inv_def)
qed

lemma deleted_action_gone_witness:
  "\<exists>db'. myrefl_action_delete (Some ''act'') act_db = Some db' \<and> lookup db' ''act'' = None \<and> lookup db' ''top'' = Some 2 \<and>
     (\<forall>y r. rule_of db' y = Some r \<longrightarrow> 4 \<notin> set (r_action_list r))"
proof -
  have c: "myrefl_api_convert_name ''act'' = ''act''"
    by (simp add: convert_name_map name_char_def MYREFL_NAME_SEPERATOR_def MYREFL_MAX_NAME_LEN_def)
  have l: "lookup act_db ''act'' = Some 4" "lookup act_db ''top'' = Some 2"
    by (simp_all add: lookup_def act_order has_name_def act_names demo_name_def SYSTEM_COMP_NAME_def)
  have n: "named act_db ''act'' 4" by (simp add: named_def c l act_inst)
  have a: "action_of act_db 4 = Some \<lparr>a_function = Some 0, a_rule_list = [2]\<rparr>"
    by (simp add: action_of_def act_obj_def blank_obj_def)
  have r: "\<forall>y r. rule_of act_db y = Some r \<longrightarrow> distinct (r_action_list r) \<and> (4 \<in> set (r_action_list r) \<longrightarrow> y \<in> set [2])"
    by (auto simp: rule_of_def act_obj_def demo_obj_def blank_obj_def demo_rule_def)
  show ?thesis using deleted_action_gone [OF act_tree_inv n a] r by (auto simp: c l)
qed

text \<open>deleting an instance of a rule decides nothing about root causes, though the code means to
  evaluate the rules above it again: the instance is marked as deleted first, and the evaluation
  passes over what is not enabled. No verdict changes and no job is requested.\<close>

theorem deletion_decides_nothing:
  "\<exists>s'. myrefl_obj_instance_delete i s = Some s' \<and> jobs s' = jobs s \<and> outs s' = outs s \<and>
    i_root_cause (inst s' j) = i_root_cause (inst s j) \<and> i_action_run (inst s' j) = i_action_run (inst s j)"
  by (auto simp: instance_delete_run unlink_member_def push_freeme_def upd_inst_def upd_obj_def inst_def)

text \<open>C28: a pass of the garbage collector frees only deleted instances that no thread is using, at most
  as many as it was set to look at; every deleted instance that it does not free is still queued
  afterwards, and it reports that it has finished only when the queue is empty.\<close>

theorem garbage_pass:
  assumes "process_freeme_queue db = (finished, freed, db')"
  shows "(\<forall>i \<in> set freed. i_state (inst db i) = STATE_DELETED \<and> i_in_use (inst db i) = 0) \<and>
    length freed \<le> max 30 (length (freeme db) div 3) \<and>
    filter_mset (garbage db) (mset (freeme db)) = mset freed + filter_mset (garbage db) (mset (freeme db')) \<and>
    (finished \<longrightarrow> freeme db' = []) \<and> insts db' = insts db \<and> objs db' = objs db"
proof -
  have "length (freeme db) * 100 div GARBAGE_QUEUE_RATE = length (freeme db) div 3" by (simp add: GARBAGE_QUEUE_RATE_def)
  then show ?thesis
    using gc_loop_frees [OF assms [unfolded process_freeme_queue_def]] by (auto simp: GARBAGE_QUEUE_FLOOR_def garbage_def)
qed

lemma garbage_pass_witness:
  "\<exists>finished freed db'. process_freeme_queue (demo_db\<lparr>freeme := [base 7]\<rparr>) = (finished, freed, db') \<and> length freed \<le> 30"
proof -
  obtain finished freed db' where p: "process_freeme_queue (demo_db\<lparr>freeme := [base 7]\<rparr>) = (finished, freed, db')"
    by (cases "process_freeme_queue (demo_db\<lparr>freeme := [base 7]\<rparr>)") auto
  from garbage_pass [OF p] show ?thesis using p by auto
qed

section \<open>Inputs of rules\<close>

text \<open>C14: an input that is not the rule itself is refused exactly when one of the two feeds the other already, over
  any number of rules, or when a chain of 25 inputs begins at one of them; then nothing changes. Otherwise it
  is the first input of the rule, and the rules can still be ranked, as the termination of the scheduler and the
  sequencer asks for.\<close>

theorem added_input_ranked:
  assumes "tree_inv db" and "named db n x" and "rule_of db x = Some r" and "named db m y" and "input_type_ok db y"
    and "x \<noteq> y" and "inputs_ranked rank db"
  shows "\<exists>db' rank'. myrefl_rule_add_input (Some n) (Some m) db = Some db' \<and> inputs_ranked rank' db' \<and>
    (if (x, y) \<in> (feeds db)\<^sup>+ \<or> (y, x) \<in> (feeds db)\<^sup>+ \<or> (\<exists>z. (x, z) \<in> feeds db ^^ 25) \<or> (\<exists>z. (y, z) \<in> feeds db ^^ 25)
     then db' = db
     else map_option r_inputs (rule_of db' x) = Some (y # r_inputs r))"
proof -
  have ty: "type_of db x = TYPE_RULE" using assms(3) by (auto simp: rule_of_def type_of_def split: obj_data.splits)
  note run = add_input_run [OF assms(1,2) ty assms(4,5)]
  have search: "rule_input_search db x y \<or> rule_input_search db y x \<longleftrightarrow>
      (x, y) \<in> (feeds db)\<^sup>+ \<or> (y, x) \<in> (feeds db)\<^sup>+ \<or> (\<exists>z. (x, z) \<in> feeds db ^^ 25) \<or> (\<exists>z. (y, z) \<in> feeds db ^^ 25)"
    unfolding rule_input_search_def RULE_DEPTH_LIMIT_def input_search_iff by blast
  show ?thesis
  proof (cases "rule_input_search db x y \<or> rule_input_search db y x")
    case True
    then show ?thesis unfolding search [symmetric] using run assms(7) by auto
  next
    case False
    then have f: "(x, y) \<notin> (feeds db)\<^sup>+" "(y, x) \<notin> (feeds db)\<^sup>+"
      using input_search_complete by (auto simp: rule_input_search_def)
    obtain rank' where "inputs_ranked rank' (link_input x y db)"
      using link_input_ranked [OF assms(7)] assms(6) f(2) by metis
    moreover have "y \<notin> set (r_inputs r)" using f(1) assms(3) by (auto simp: feeds_def)
    then have "map_option r_inputs (rule_of (link_input x y db) x) = Some (y # r_inputs r)"
      using assms(3) by (simp add: link_input_inputs list_add_def)
    ultimately show ?thesis unfolding search [symmetric] using run False by auto
  qed
qed

lemma added_input_ranked_witness:
  "\<exists>db' rank'. myrefl_rule_add_input (Some ''top'') (Some ''bottom'') demo_db = Some db' \<and> inputs_ranked rank' db' \<and>
     map_option r_inputs (rule_of db' 2) = Some [3, 1]"
proof -
  have "\<not> ((2, 3) \<in> (feeds demo_db)\<^sup>+ \<or> (3, 2) \<in> (feeds demo_db)\<^sup>+ \<or> (\<exists>z. (2, z) \<in> feeds demo_db ^^ 25) \<or>
      (\<exists>z. (3, z) \<in> feeds demo_db ^^ 25))"
    using demo_search(2,3) unfolding rule_input_search_def RULE_DEPTH_LIMIT_def input_search_iff by blast
  then show ?thesis
    using added_input_ranked [OF demo_tree_inv demo_named(2) _ demo_named(3) _ _ demo_inputs]
    by (auto simp: demo_rules input_type_ok_def demo_type demo_rule_def)
qed

text \<open>C37: a rule that is given itself as an input is not refused: the check for loops asks whether
  one of the two already feeds the other. The request to run the tests of such a rule then never
  returns: the code recurses without end.\<close>

theorem self_input_hangs:
  assumes "tree_inv db" and "linked db" and "named db n x" and "rule_of db x = Some r" and "\<not> rule_input_search db x x"
  shows "\<exists>db'. myrefl_rule_add_input (Some n) (Some n) db = Some db' \<and> myrefl_sched_rule_immediate (base x) db' = None"
proof -
  have ty: "type_of db x = TYPE_RULE" using assms(4) by (auto simp: rule_of_def type_of_def split: obj_data.splits)
  have "x \<notin> set (r_inputs r)"
    using assms(4,5) input_search_complete [of RULE_DEPTH_LIMIT db x x] by (auto simp: rule_input_search_def feeds_def)
  moreover have "i_state (inst db (base x)) \<noteq> STATE_DELETED" using assms(3) by (simp add: named_def)
  ultimately show ?thesis
    using self_fed_never_returns [OF assms(4)] assms(2,5) add_input_run [OF assms(1,3) ty assms(3)] ty
    by (auto simp: linked_def input_type_ok_def)
qed

lemma self_input_hangs_witness:
  "\<exists>db'. myrefl_rule_add_input (Some ''top'') (Some ''top'') demo_db = Some db' \<and> myrefl_sched_rule_immediate (base 2) db' = None"
  using self_input_hangs [OF demo_tree_inv demo_linked demo_named(2)] demo_search(1) by (simp add: demo_rules)

text \<open>C38: a rule has one pointer to the next rule of its input, whatever the number of its inputs. A
  second input that feeds no rule yet ends the chain: the rules behind it are triggered by the first
  input no more, though they still list it.\<close>

theorem second_input_drops_rules:
  assumes "tree_inv db" and "named db n x" and "named db m z" and "rule_of db x = Some r" and "input_type_ok db z"
    and "\<not> rule_input_search db x z" and "\<not> rule_input_search db z x" and "x \<noteq> z" and "input_head db z = Some None"
    and "input_head db w = Some (Some x)" and "w \<noteq> z" and "w \<noteq> x" and "r_next_in_input r = Some y" and "y \<noteq> x"
    and "rule_of db y = Some r'" and "w \<in> set (r_inputs r')"
  shows "in_input_chain (rule_of db) y (Some x) = Some True \<and>
    (\<exists>db' r''. myrefl_rule_add_input (Some n) (Some m) db = Some db' \<and> rule_of db' y = Some r'' \<and> w \<in> set (r_inputs r'') \<and>
      input_head db' w = Some (Some x) \<and> in_input_chain (rule_of db') y (Some x) = Some False)"
proof -
  have ty: "type_of db x = TYPE_RULE" using assms(4) by (auto simp: rule_of_def type_of_def split: obj_data.splits)
  let ?s = "link_input x z db"
  have run: "myrefl_rule_add_input (Some n) (Some m) db = Some ?s"
    using add_input_run [OF assms(1,2) ty assms(3,5)] assms(6,7) by simp
  have "in_input_chain (rule_of db) y (Some y) = Some True" by (subst in_input_chain.simps) simp
  then have before: "in_input_chain (rule_of db) y (Some x) = Some True"
    using assms(4,13,14) by (subst in_input_chain.simps) simp
  have h: "input_head (set_rule x (\<lambda>r. r\<lparr>r_inputs := list_add z (r_inputs r)\<rparr>) db) z = Some None"
    using assms(8,9) by (simp add: input_head_def set_rule_def upd_obj_def split: obj_data.splits)
  then have s: "?s = set_input_head z (Some x) (set_next_rule x None (set_rule x (\<lambda>r. r\<lparr>r_inputs := list_add z (r_inputs r)\<rparr>) db))"
    by (simp add: link_input_def Let_def)
  have "rule_of ?s x = Some (r\<lparr>r_inputs := list_add z (r_inputs r), r_next_in_input := None\<rparr>)"
    using assms(4,8) by (simp add: s)
  moreover have "in_input_chain (rule_of ?s) y None = Some False" by (subst in_input_chain.simps) simp
  ultimately have after: "in_input_chain (rule_of ?s) y (Some x) = Some False"
    using assms(14) by (subst in_input_chain.simps) simp
  have "\<exists>r''. rule_of ?s y = Some r'' \<and> w \<in> set (r_inputs r'')" using assms(14,15,16) by (cases "y = z") (auto simp: s)
  moreover have "input_head ?s w = Some (Some x)"
    using assms(10,11,12) by (auto simp: s set_input_head_def set_next_rule_def set_rule_def set_test_def upd_obj_def input_head_def
        split: obj_data.splits)
  ultimately show ?thesis using run before after by blast
qed

lemma second_input_drops_rules_witness:
  "\<exists>db'. myrefl_rule_add_input (Some ''top'') (Some ''bottom'') demo_db = Some db' \<and> in_input_chain (rule_of db') 3 (Some 2) = Some False"
proof -
  have h: "input_head demo_db 1 = Some (Some 2)" "input_head demo_db 3 = Some None" "input_type_ok demo_db 3"
    by (simp_all add: input_head_def blank_obj_def demo_test_def demo_rule_def input_type_ok_def demo_type)
  show ?thesis
    using second_input_drops_rules [OF demo_tree_inv demo_named(2,3) _ h(3) demo_search(2,3) _ h(2,1),
        of "demo_rule\<lparr>r_next_in_input := Some 3\<rparr>" 3 demo_rule]
    by (auto simp: demo_rules demo_rule_def)
qed

section \<open>Names\<close>

text \<open>The name of an object has at most 31 characters, none of them a blank or the separator of
  instances; converting twice is converting once, and names that agree on the first 31 characters
  denote the same object.\<close>

theorem converted_names:
  "length (myrefl_api_convert_name n) \<le> MYREFL_MAX_NAME_LEN \<and>
   (\<forall>c \<in> set (myrefl_api_convert_name n). c \<noteq> CHR '' '' \<and> c \<noteq> MYREFL_NAME_SEPERATOR) \<and>
   myrefl_api_convert_name (myrefl_api_convert_name n) = myrefl_api_convert_name n \<and>
   (take 31 m = take 31 n \<longrightarrow> myrefl_obj_get_by_name_unconverted db m ty = myrefl_obj_get_by_name_unconverted db n ty)"
  by (auto simp: convert_name_map name_char_def MYREFL_NAME_SEPERATOR_def MYREFL_MAX_NAME_LEN_def take_map
      myrefl_obj_get_by_name_unconverted_def)

lemma converted_names_witness:
  "myrefl_obj_get_by_name_unconverted demo_db ''a name of more than thirty-one characters'' TYPE_TEST =
   myrefl_obj_get_by_name_unconverted demo_db ''a name of more than thirty-one letters'' TYPE_TEST \<and>
   myrefl_api_convert_name ''a b@c'' = ''a_b_c''"
  using converted_names [of "''a name of more than thirty-one letters''" "''a name of more than thirty-one characters''" demo_db TYPE_TEST]
  by (simp add: convert_name_map name_char_def MYREFL_NAME_SEPERATOR_def MYREFL_MAX_NAME_LEN_def)

section \<open>Enabling and disabling\<close>

text \<open>C39: what the command line has enabled or disabled stays so when the client disables or enables
  it. But disabling takes the test off its queue: a polled test that the command line has enabled stays
  enabled and is not scheduled any more.\<close>

theorem disabled_by_client_stays_enabled:
  assumes "tree_inv db" and "sched_inv db" and "named db n x" and "test_of db x = Some t" and "t_type t = POLLED"
    and "o_members (objs db x) = []" and "i_state (inst db (base x)) = STATE_ENABLED"
    and "i_cli_state (inst db (base x)) = STATE_ENABLED" and "inst_valid db (base x) TYPE_TEST"
  shows "\<exists>db'. myrefl_test_disable (Some n) None db = Some db' \<and> i_state (inst db' (base x)) = STATE_ENABLED \<and>
    i_cli_state (inst db' (base x)) = STATE_ENABLED \<and> queued_of db' (base x) = QUEUE_NONE \<and> \<not> on_queue db' (base x) q"
proof -
  let ?i = "base x"
  let ?u = "upd_inst ?i (disable_state False) db"
  have ty: "type_of db x = TYPE_TEST" using assms(4) by (auto simp: test_of_def type_of_def split: obj_data.splits)
  have t: "test_of ?u x = Some t" using assms(4) by (simp add: test_of_def upd_inst_def)
  have "all_instances db x = [?i]" using assms(6) by (simp add: all_instances_def base_def)
  moreover have "in_service STATE_ENABLED" by (simp add: in_service_def)
  ultimately have "myrefl_test_disable (Some n) None db = Some (myrefl_sched_remove_test ?i ?u)"
    using t assms(5,7)
    by (simp add: myrefl_test_disable_def myrefl_api_test_disable_guts_def empty_name_def named_object [OF assms(1,3)] ty
        pick_instance_def switch_state_def disable_test_def polled_def Let_def)
  moreover have u: "i_state (inst ?u ?i) = STATE_ENABLED \<and> i_cli_state (inst ?u ?i) = STATE_ENABLED"
    using assms(7,8) by (simp add: inst_upd_inst disable_state_def set_default_state_def Let_def)
  moreover have "state_only (disable_state False) db ?i"
    using assms(7,8) by (simp add: state_only_def disable_state_def set_default_state_def Let_def)
  then have inv: "sched_inv ?u" "inst_valid ?u ?i TYPE_TEST" using assms(2,9) by (simp_all add: state_only_sched state_only_reads)
  have "runtime ?u (myrefl_sched_remove_test ?i ?u)" by simp
  then have "inst_id (inst (myrefl_sched_remove_test ?i ?u) ?i) = inst_id (inst ?u ?i)" by (simp add: runtime_def)
  ultimately show ?thesis
    using remove_test_off(2) [OF inv] not_on_queue [OF remove_test_off(1) [OF inv]] by (simp add: inst_id_def)
qed

lemma disabled_by_client_stays_enabled_witness:
  "\<exists>db'. myrefl_test_disable (Some ''test'') None (upd_inst (base 1) (\<lambda>i. i\<lparr>i_cli_state := STATE_ENABLED\<rparr>) demo_db) = Some db' \<and>
     i_state (inst db' (base 1)) = STATE_ENABLED \<and> \<not> on_queue db' (base 1) QUEUE_FAST"
proof -
  let ?f = "\<lambda>i :: obj_instance. i\<lparr>i_cli_state := STATE_ENABLED\<rparr>"
  have s: "state_only ?f demo_db (base 1)" by (simp add: state_only_def Let_def)
  note r = state_only_tree [OF s] state_only_sched [OF s] state_only_reads [OF s]
  let ?u = "upd_inst (base 1) ?f demo_db"
  have t: "test_of ?u 1 = Some demo_test" "o_members (objs ?u 1) = []"
    by (simp_all add: test_of_def upd_inst_def blank_obj_def)
  have i: "i_state (inst ?u (base 1)) = STATE_ENABLED" "i_cli_state (inst ?u (base 1)) = STATE_ENABLED"
    by (simp_all add: inst_upd_inst demo_inst_base blank_instance_def)
  have "tree_inv ?u" "sched_inv ?u" "named ?u ''test'' 1" "inst_valid ?u (base 1) TYPE_TEST"
    using demo_tree_inv demo_sched demo_named(1) demo_valid by (simp_all only: r)
  moreover have "t_type demo_test = POLLED" by (simp add: demo_test_def)
  ultimately show ?thesis
    using disabled_by_client_stays_enabled [OF _ _ _ t(1) _ t(2) i, of "''test''"] by blast
qed

section \<open>Recovering the scheduler\<close>

text \<open>C7: recovering the scheduler returns whatever tests the queues hold and in whatever order, if the queues exist and
  each valid test that is marked as queued is on some queue, be it the wrong one. Afterwards exactly the enabled and valid
  instances of polled tests are queued, each on the queue of its period, and the queues are consistent again.\<close>

theorem recovery_requeues:
  assumes "linked db" and "\<forall>q. queues db q = None \<longleftrightarrow> q = QUEUE_NONE"
    and "\<forall>i. inst_valid db i TYPE_TEST \<and> queued_of db i \<noteq> QUEUE_NONE \<longrightarrow> (\<exists>q. on_queue db i q)"
    and "tree_ok db" and "system_comp db \<noteq> None" and "distinct (test_instances db)"
  shows "\<exists>db'. recover_schedular db = Some db' \<and> runtime db db' \<and> sched_inv db' \<and> \<not> queues_blocked db' \<and>
    (\<forall>i q. on_queue db' i q \<longleftrightarrow> i \<in> set (test_instances db) \<and> to_queue db i = Some q)"
  by (rule recover_schedular_spec [OF assms(1) _ _ assms(4-6)])
    (use assms(2,3) in \<open>simp_all add: queues_exist_def queued_somewhere_def\<close>)

lemma recovery_requeues_witness:
  "\<exists>db'. recover_schedular (demo_db\<lparr>queues := (queues demo_db)(QUEUE_FAST \<mapsto> [], QUEUE_SLOW \<mapsto> [base 1, base 1])\<rparr>) =
    Some db' \<and> on_queue db' (base 1) QUEUE_FAST"
proof -
  define db where "db = demo_db\<lparr>queues := (queues demo_db)(QUEUE_FAST \<mapsto> [], QUEUE_SLOW \<mapsto> [base 1, base 1])\<rparr>"
  have r: "runtime demo_db db" by (simp add: db_def)
  have f: "insts db = insts demo_db" "queues db = (queues demo_db)(QUEUE_FAST \<mapsto> [], QUEUE_SLOW \<mapsto> [base 1, base 1])"
    by (simp_all add: db_def)
  note rd = runtime_tree [OF r] runtime_linked [OF r] runtime_inst_valid [OF r] runtime_obj_valid [OF r] runtime_reads [OF r]
  have t: "test_instances demo_db = [base 1]"
    by (simp add: test_instances_def sys_objs_def demo_all_comps demo_comp_chain all_instances_def blank_obj_def base_def)
  have "obj_of (base 1) = 1" by (simp add: base_def)
  moreover have "obj_valid demo_db (Some 1) TYPE_TEST" using demo_valid [of "base 1"] by (simp add: inst_valid_def base_def)
  moreover have "i_state (inst demo_db (base 1)) = STATE_ENABLED" by (simp add: demo_inst_base blank_instance_def)
  ultimately have q: "to_queue demo_db (base 1) = Some QUEUE_FAST"
    by (simp add: to_queue_def test_of_def blank_obj_def demo_test_def period_queue_def MYREFL_PERIOD_FAST_def
        MYREFL_PERIOD_NORMAL_def MYREFL_PERIOD_SLOW_def)
  have "to_queue db = to_queue demo_db" by (simp add: fun_eq_iff to_queue_def rd inst_def f)
  moreover have "\<forall>q. queues db q = None \<longleftrightarrow> q = QUEUE_NONE" by (simp add: f demo_fields)
  moreover have "on_queue db (base 1) QUEUE_SLOW" by (simp add: on_queue_def f)
  then have "\<forall>i. inst_valid db i TYPE_TEST \<and> queued_of db i \<noteq> QUEUE_NONE \<longrightarrow> (\<exists>q. on_queue db i q)"
    by (auto simp only: rd demo_valid)
  moreover have "system_comp db \<noteq> None" by (simp add: db_def demo_system)
  ultimately have "\<exists>db'. recover_schedular db = Some db' \<and> on_queue db' (base 1) QUEUE_FAST"
    using recovery_requeues [of db] demo_linked demo_tree t q by (auto simp: rd)
  then show ?thesis by (simp only: db_def)
qed

end
