(* ===== verification/JsonProps.thy ===== *)
theory JsonProps
  imports ServerFacts ApiProps
begin

text \<open>
  Properties of the requests of the modules: every request is answered, the requests for commands make exactly the
  calls of these commands, what they do to the database, and a request that goes wrong.
\<close>

declare parse_configuration.simps [code]

section \<open>Every request\<close>

text \<open>C30: the server answers every text that a module sends, whether it is JSON or not and whatever its objects hold, if the
  name of the module and the strings in the text have at most 30 characters: the tokeniser and the interpreter come
  to an end, the token pointer never leaves the array, which has two tokens for each five characters and
  one that ends it, and no context is overrun.\<close>

theorem request_always_answered:
  assumes "length module < 31" and "strings_below 31 request"
  shows "\<exists>ok cs ctxs'. interpret_request module request ctxs = Some (ok, cs, ctxs')"
  using interpretation_returns [of module request ctxs] assms by (auto simp: MYREFL_MAX_NAME_LEN_def)

lemma request_always_answered_witness:
  "\<exists>ok cs ctxs. interpret_request ''m'' ''{\"test\":{\"name\":[3,{\"polled\":\"no\"}]},\"instance\":{\"name\":\"object\"}'' [] = Some (ok, cs, ctxs)"
proof -
  have "strings_below 31 ''{\"test\":{\"name\":[3,{\"polled\":\"no\"}]},\"instance\":{\"name\":\"object\"}''" by code_simp
  from request_always_answered [OF _ this, of "''m''" "[]"] show ?thesis by simp
qed

text \<open>C31: a request of commands is understood as it was written: the server answers with true and makes the calls of
  the commands in their order, and the contexts of the tests name the module and the test. That is so if the name of the
  module and those of the polled tests have room in a context, 30 characters; one name that is longer, and the
  interpretation writes behind the context.\<close>

theorem request_roundtrip:
  assumes "\<forall>c \<in> set cs. command_ok c" and "cs \<noteq> []"
  shows "interpret_request module (json_text (request_json cs)) ctxs =
    (if \<forall>c \<in> set cs. command_fits module c
     then Some (True, requests_calls module (length ctxs) cs, ctxs @ requests_contexts module cs) else None)"
  by (rule request_understood [OF assms])

lemma request_roundtrip_witness:
  "json_text (request_json [Polled_test ''t'' ''60'', Result_of ''t'' (Some ''i'') RESULT_FAIL, Ready [''t'', ''u'']]) =
     ''{\"test\":{\"name\":\"t\",\"polled\":true,\"interval\":60},\"result\":{\"test\":\"t\",\"instance\":\"i\",\"result\":\"fail\"},\"ready\":[\"t\",\"u\"]}'' \<and>
   interpret_request ''m'' (json_text (request_json [Polled_test ''t'' ''60'', Result_of ''t'' (Some ''i'') RESULT_FAIL, Ready [''t'', ''u'']])) [] =
     Some (True, [For_test (Test_create_polled (Some ''t'') (Some fn_server_exec_test) 1 60),
       For_test (Test_notify (Some ''t'') (Some ''i'') RESULT_FAIL 0), For_test (Test_chain_ready (Some ''t'')),
       For_test (Test_chain_ready (Some ''u''))], [Test_context ''m'' ''t'']) \<and>
   interpret_request ''m'' (json_text (request_json [Polled_test (replicate 31 (CHR ''x'')) ''60''])) [] = None"
proof -
  have "command_ok (Polled_test ''t'' ''60'')" by code_simp
  then have "\<forall>c \<in> set [Polled_test ''t'' ''60'', Result_of ''t'' (Some ''i'') RESULT_FAIL, Ready [''t'', ''u'']]. command_ok c"
    by (simp add: plain_string_def)
  note 1 = request_roundtrip [OF this, of "''m''" "[]"]
  have "command_ok (Polled_test (replicate 31 (CHR ''x'')) ''60'')" by code_simp
  then have "\<forall>c \<in> set [Polled_test (replicate 31 (CHR ''x'')) ''60'']. command_ok c" by simp
  from request_roundtrip [OF this, of "''m''" "[]"] have 2: "interpret_request ''m'' (json_text (request_json [Polled_test (replicate 31 (CHR ''x'')) ''60''])) [] = None"
    by (simp add: MYREFL_MAX_NAME_LEN_def del: json_text.simps)
  show ?thesis unfolding 2 by (simp del: json_text.simps add: 1) code_simp
qed



section \<open>Requests and the database\<close>

text \<open>C32: a module that asks for a polled test under a new name gets it: the test runs the server's function for
  modules, its context is new and names the module and the test, it is found under its name, and it has the period
  that the module wrote, as far as 32 bits can hold it. The names of the module and the test must have room in the context.\<close>

theorem requested_test_created:
  assumes "tree_inv db" and "n \<noteq> []" and "lookup db (myrefl_api_convert_name n) = None" and "command_ok (Polled_test n ds)"
    and "length module < 31" and "length n < 31"
  shows "\<exists>x db'. process_json_request module (json_text (request_json [Polled_test n ds])) (ctxs, db) =
      Some (True, ctxs @ [Test_context module n], db') \<and>
    tree_inv db' \<and> named db' n x \<and>
    has_test db' x (client_polled fn_server_exec_test (word_of_int (strtol ds mod 2 ^ 32)))
      (created_instance (myrefl_api_convert_name n) (Suc (length ctxs)))"
proof -
  have u: "(ucast (word_of_int i :: 32 word) :: 64 word) = word_of_int (i mod 2 ^ 32)" for i :: int
    by (simp add: unsigned_of_int take_bit_eq_mod)
  show ?thesis
    using create_polled_new [OF assms(1-3), of fn_server_exec_test "Suc (length ctxs)" "word_of_int (strtol ds)"]
      process_request [of "[Polled_test n ds]" module ctxs db] assms(4-6)
    by (auto simp: requests_contexts_def u MYREFL_MAX_NAME_LEN_def)
qed

lemma requested_test_created_witness:
  "\<exists>x db'. process_json_request ''m'' ''{\"test\":{\"name\":\"new\",\"polled\":true,\"interval\":60}}'' ([], demo_db) =
      Some (True, [Test_context ''m'' ''new''], db') \<and> named db' ''new'' x \<and>
    has_test db' x (client_polled fn_server_exec_test 60) (created_instance ''new'' 1)"
proof -
  have c: "myrefl_api_convert_name ''new'' = ''new''"
    by (simp add: convert_name_map name_char_def MYREFL_NAME_SEPERATOR_def MYREFL_MAX_NAME_LEN_def)
  then have l: "lookup demo_db (myrefl_api_convert_name ''new'') = None" using demo_lookup(2) by simp
  have ok: "command_ok (Polled_test ''new'' ''60'')" "strtol ''60'' = 60" by code_simp+
  have t: "json_text (request_json [Polled_test ''new'' ''60'']) = ''{\"test\":{\"name\":\"new\",\"polled\":true,\"interval\":60}}''"
    by code_simp
  show ?thesis using requested_test_created [OF demo_tree_inv _ l ok(1), of "''m''" "[]"]
    by (simp add: t c ok(2)) blast
qed


section \<open>Requests that go wrong\<close>

text \<open>counterexample: the description of a rule becomes its component: the rule is moved into a component of that
  name, which is created, and no description is set.\<close>

theorem description_moves_rule:
  "interpret_request ''m'' ''{\"rule\":{\"name\":\"r\",\"input\":\"t\",\"description\":\"why\"}}'' [] =
   Some (True, [For_rule (Rule_create (Some ''r'') (Some ''t'') (Some MYREFL_ACTION_NOOP)),
     For_comp (Comp_contains (Some ''why'') (Some ''r''))], [])"
  by code_simp

text \<open>An object with one attribute has three tokens, but seven characters make room for two; with two blanks more
  the request is read (and its command is unknown, here as there).\<close>

lemma small_object_has_no_room:
  "fst (jsmn_parse ''{\"a\":1}'' (calc_max_tokens ''{\"a\":1}'') (jsmn_init (Suc (calc_max_tokens ''{\"a\":1}'')))) = JSMN_ERROR_NOMEM"
  "fst (jsmn_parse ''{\"a\": 1  }'' (calc_max_tokens ''{\"a\": 1  }'') (jsmn_init (Suc (calc_max_tokens ''{\"a\": 1  }'')))) = JSMN_SUCCESS"
  by code_simp+

end
