(* ===== verification/ServerProps.thy ===== *)
theory ServerProps
  imports ServerFacts
begin

text \<open>
  Properties of the server: its configuration and its modules, and where a configuration, the answer of a module or an
  instance of a mail goes wrong.
\<close>

declare parse_configuration.simps [code]

section \<open>The configuration\<close>

text \<open>C34: a file of settings is understood as it was written: each setting is stored, a later one replaces an earlier
  one, and the list of the enabled modules is complete and in order. That is so if each word fits its field; a longer one,
  such as a port of six digits, is written behind the field.\<close>

theorem configuration_roundtrip:
  assumes "\<forall>x \<in> set xs. setting_ok x" and "length (config_text xs) < CONFIG_MAXBUFLEN"
  shows "config_parse (Some (config_text xs)) c =
    (if \<forall>x \<in> set xs. setting_fits x then Some (True, foldl (\<lambda>c x. configure x c) c xs) else None)"
  by (rule file_understood [OF assms])

lemma configuration_roundtrip_witness:
  "config_text [Smtp_host ''localhost'', Http_port ''7654'', Enabled_modules [''memory.py'', ''disk.sh'']] =
     ''smtp-hostname: localhost'' @ [CHR 0x0A] @ ''http-port: 7654'' @ [CHR 0x0A] @ ''enabled-modules: [memory.py,disk.sh]'' @ [CHR 0x0A] \<and>
   config_parse (Some (config_text [Smtp_host ''localhost'', Http_port ''7654'', Enabled_modules [''memory.py'', ''disk.sh'']])) zero_config =
     Some (True, zero_config\<lparr>smtp_hostname := ''localhost'', http_port := ''7654'', enabled_modules := [Some ''memory.py'', Some ''disk.sh'']\<rparr>) \<and>
   config_parse (Some (config_text [Http_port ''765400''])) zero_config = None"
proof (intro conjI)
  let ?xs = "[Smtp_host ''localhost'', Http_port ''7654'', Enabled_modules [''memory.py'', ''disk.sh'']]" and ?ys = "[Http_port ''765400'']"
  show t: "config_text ?xs = ''smtp-hostname: localhost'' @ [CHR 0x0A] @ ''http-port: 7654'' @ [CHR 0x0A] @
      ''enabled-modules: [memory.py,disk.sh]'' @ [CHR 0x0A]" by code_simp
  have ok: "\<forall>x \<in> set ?xs. setting_ok x" "\<forall>x \<in> set ?ys. setting_ok x" by code_simp+
  have l: "length (config_text ?xs) < CONFIG_MAXBUFLEN" unfolding t by (simp add: CONFIG_MAXBUFLEN_def)
  show "config_parse (Some (config_text ?xs)) zero_config =
      Some (True, zero_config\<lparr>smtp_hostname := ''localhost'', http_port := ''7654'', enabled_modules := [Some ''memory.py'', Some ''disk.sh'']\<rparr>)"
    using configuration_roundtrip [OF ok(1) l, of zero_config] by (simp add: HOSTNAME_MAX_def HTTP_PORT_MAX_def zero_config_def)
  have "config_text ?ys = ''http-port: 765400'' @ [CHR 0x0A]" by code_simp
  then have l: "length (config_text ?ys) < CONFIG_MAXBUFLEN" by (simp add: CONFIG_MAXBUFLEN_def)
  show "config_parse (Some (config_text ?ys)) zero_config = None"
    using configuration_roundtrip [OF ok(2) l, of zero_config] by (simp add: HTTP_PORT_MAX_def)
qed

text \<open>C40: counterexample: a file of words that are no settings, closed by the word of a setting without a value, makes the
  server read behind the array of tokens when the tokens fill it, which has two for each five characters: the end of the tokens is
  taken for the value and stepped over. (The list of the enabled modules is the one setting that looks first.)\<close>

theorem configuration_overrun:
  assumes "\<forall>(w, sep) \<in> set ws. plain_primitive w \<and> w \<notin> setting_words \<and> sep \<noteq> [] \<and> list_all blank sep"
    and "key \<in> setting_words - {''enabled-modules''}" and "tx = concat (map (\<lambda>(w, sep). w @ sep) ws) @ key"
    and "length tx div 5 * 2 = Suc (length ws)" and "length tx < CONFIG_MAXBUFLEN"
  shows "config_parse (Some tx) c = None"
  by (rule configuration_reads_on [OF assms(1-3) _ assms(5)]) (simp add: calc_max_tokens_def assms(4))

lemma configuration_overrun_witness: "\<forall>c. config_parse (Some ''a,a,a,a,a,a,a,a,a,a,a,a,a,http-port'') c = None"
proof -
  let ?ws = "replicate 13 (''a'', '','')"
  have "list_all (\<lambda>(w, sep). plain_primitive w \<and> sep \<noteq> [] \<and> list_all blank sep) ?ws" by code_simp
  moreover have "''a'' \<notin> setting_words" by (simp add: setting_words_def)
  ultimately have w: "\<forall>(w, sep) \<in> set ?ws. plain_primitive w \<and> w \<notin> setting_words \<and> sep \<noteq> [] \<and> list_all blank sep"
    by (auto simp: list_all_iff)
  have k: "''http-port'' \<in> setting_words - {''enabled-modules''}" by (simp add: setting_words_def)
  have t: "''a,a,a,a,a,a,a,a,a,a,a,a,a,http-port'' = concat (map (\<lambda>(w, sep). w @ sep) ?ws) @ ''http-port''" by code_simp
  show ?thesis using configuration_overrun [OF w k t] by (simp add: CONFIG_MAXBUFLEN_def)
qed

section \<open>The modules\<close>

text \<open>the modules of the server are the entries of the directory that are enabled and have the name of a module, in the order
  of the directory; when the directory has got another one between the two passes over it, the array is too short.\<close>

theorem enabled_modules_found:
  assumes "enabled_modules c = map Some ms" and "xs = filter (\<lambda>f. f \<in> set ms \<and> module_file f) fs"
    and "ys = filter (\<lambda>f. f \<in> set ms \<and> module_file f) gs"
  shows "modules_init c path (Some fs) (Some gs) =
    (if xs = [] then Some \<lparr>module_names = None, module_dir = path\<rparr>
     else if length ys \<le> length xs then Some \<lparr>module_names = Some ys, module_dir = path\<rparr> else None)"
  by (rule modules_found [OF assms])

lemma enabled_modules_found_witness:
  "modules_init (zero_config\<lparr>enabled_modules := [Some ''disk'', Some ''disk~'']\<rparr>) ''d'' (Some [''.'', ''disk~'', ''disk'', ''mem'']) (Some [''.'', ''disk'']) =
     Some \<lparr>module_names = Some [''disk''], module_dir = ''d''\<rparr>"
proof -
  have "\<not> module_file (''disk'' @ ''~'')" unfolding module_file_def by blast
  then have f: "module_file ''disk''" "\<not> module_file ''disk~''" by (simp_all add: module_file_def append_eq_Cons_conv Cons_eq_append_conv)
  show ?thesis
    using enabled_modules_found [of "zero_config\<lparr>enabled_modules := [Some ''disk'', Some ''disk~'']\<rparr>" "[''disk'', ''disk~'']" _
        "[''.'', ''disk~'', ''disk'', ''mem'']" _ "[''.'', ''disk'']", OF _ refl refl] f
    by simp
qed

text \<open>C35: when each module, run with \<open>--conf\<close>, prints a request of commands and ends with status 0, the server makes
  the calls of all of them, module by module, and answers true; each test gets a context with the name of its
  module. The names in the contexts have at most 30 characters.\<close>

theorem modules_configure_server:
  assumes "\<forall>p \<in> set ps. prints_commands run path p" and "ps \<noteq> []" and "length path \<le> MAXBUFLEN div 2"
  shows "modules_process_config run \<lparr>module_names = Some (map fst ps), module_dir = path\<rparr> (ctxs, db) =
    map_option (\<lambda>db. (True, ctxs @ modules_contexts ps, db)) (run_calls (modules_calls (length ctxs) ps) db)"
  using modules_configured [OF assms(1), of False ctxs db] assms(2,3) by (simp add: modules_process_config_def)

text \<open>A directory of two modules.\<close>

definition demo_modules :: "(name \<times> module_command list) list" where
  "demo_modules = [(''disk'', [Polled_test ''space'' ''60'']), (''mem'', [Rule_for ''low'' ''space'' ''call'', Polled_test ''free'' ''5''])]"

definition demo_run :: "string \<Rightarrow> answer" where
  "demo_run cmd = (case find (\<lambda>p. cmd = ''d/'' @ fst p @ '' --conf'') demo_modules of
     None \<Rightarrow> None | Some p \<Rightarrow> Some (json_text (request_json (snd p)), 0))"

lemma modules_configure_server_witness:
  "\<forall>db. modules_process_config demo_run \<lparr>module_names = Some [''disk'', ''mem''], module_dir = ''d''\<rparr> ([], db) =
    map_option (\<lambda>db. (True, [Test_context ''disk'' ''space'', Test_context ''mem'' ''free''], db))
      (run_calls [For_test (Test_create_polled (Some ''space'') (Some fn_server_exec_test) 1 60),
         For_rule (Rule_create (Some ''low'') (Some ''space'') (Some ''call'')),
         For_test (Test_create_polled (Some ''free'') (Some fn_server_exec_test) 2 5)] db)"
proof -
  have t: "json_text (request_json (snd p)) \<noteq> [] \<and> length (json_text (request_json (snd p))) \<le> 200" if "p \<in> set demo_modules" for p
    using that by (auto simp: demo_modules_def request_json_def json_object_def)
  have ok: "snd p \<noteq> [] \<and> (\<forall>c \<in> set (snd p). command_ok c \<and> command_fits (fst p) c) \<and> length (fst p) \<le> 4" if "p \<in> set demo_modules" for p
  proof -
    have "command_ok (Polled_test ''space'' ''60'')" "command_ok (Polled_test ''free'' ''5'')" by code_simp+
    then show ?thesis using that by (auto simp: demo_modules_def plain_string_def MYREFL_MAX_NAME_LEN_def simp del: command_ok.simps(1))
  qed
  have "demo_run (''d'' @ ''/'' @ fst p @ '' --conf'') = Some (json_text (request_json (snd p)), 0)" if "p \<in> set demo_modules" for p
    using that by (auto simp: demo_run_def demo_modules_def)
  then have p: "\<forall>p \<in> set demo_modules. prints_commands demo_run ''d'' p"
    using t ok by (fastforce simp: prints_commands_def MAXBUFLEN_def)
  have c: "modules_calls 0 demo_modules = [For_test (Test_create_polled (Some ''space'') (Some fn_server_exec_test) 1 60),
      For_rule (Rule_create (Some ''low'') (Some ''space'') (Some ''call'')),
      For_test (Test_create_polled (Some ''free'') (Some fn_server_exec_test) 2 5)]"
    "modules_contexts demo_modules = [Test_context ''disk'' ''space'', Test_context ''mem'' ''free'']" by code_simp+
  have "map fst demo_modules = [''disk'', ''mem'']" "demo_modules \<noteq> []" "length ''d'' \<le> MAXBUFLEN div 2"
    by (simp_all add: demo_modules_def MAXBUFLEN_def)
  with modules_configure_server [OF p, of "[]"] c show ?thesis by simp
qed

text \<open>counterexample: the answer for all modules is the one for the last of them: a module whose configuration is not even
  JSON is forgotten when the next one is understood, so the server starts without its tests and without the error.\<close>

theorem last_module_decides:
  assumes "run ''d/first --conf'' = Some (''{'', 0)" and "run ''d/second --conf'' = Some (''{   }'', 0)"
  shows "process_json_request ''first'' ''{'' st = Some (False, st) \<and>
    modules_process_config run \<lparr>module_names = Some [''first'', ''second''], module_dir = ''d''\<rparr> st = Some (True, st)"
proof -
  have i: "interpret_request ''first'' ''{'' ctxs = Some (False, [], ctxs)" "interpret_request ''second'' ''{   }'' ctxs = Some (True, [], ctxs)" for ctxs
    by code_simp+
  have t: "printed ''{'' = ''{''" "printed ''{   }'' = ''{   }''" by (simp_all add: printed_def c_string_def MAXBUFLEN_def)
  show ?thesis
    using assms by (cases st) (simp add: modules_process_config_def process_json_request_def i t MAXBUFLEN_def)
qed

lemma last_module_decides_witness:
  "modules_process_config (\<lambda>cmd. if cmd = ''d/first --conf'' then Some (''{'', 0) else if cmd = ''d/second --conf'' then Some (''{   }'', 0) else None)
     \<lparr>module_names = Some [''first'', ''second''], module_dir = ''d''\<rparr> ([], db) = Some (True, [], db)"
  using last_module_decides [of "\<lambda>cmd. if cmd = ''d/first --conf'' then Some (''{'', 0) else if cmd = ''d/second --conf'' then Some (''{   }'', 0) else None"]
  by simp

section \<open>Tests and mails\<close>



text \<open>counterexample: a module that makes an instance of a mail gives it the context of a test; when the mail is sent for
  this instance, the server reads the names of the module and the test as an address, a subject and a command to run.\<close>

theorem mail_instance_confused:
  "interpret_request ''m'' ''{\"email\":{\"name\":\"mail\",\"subject\":\"s\"},\"instance\":{\"name\":\"i\",\"object\":\"mail\"}}'' [] =
     Some (True, [For_action (Action_create (Some ''mail'') (Some fn_server_email) 1), Instance_create (Some ''mail'') (Some ''i'') 2],
       [Email_context [] ''s'' [], Test_context ''m'' ''mail'']) \<and>
   (\<exists>sent. myrefl_server_email run c (Some (Email_context [] ''s'' [])) = Some (RESULT_PASS, Some sent)) \<and>
   myrefl_server_email run c (Some (Test_context ''m'' ''mail'')) = None"
proof (intro conjI)
  show "interpret_request ''m'' ''{\"email\":{\"name\":\"mail\",\"subject\":\"s\"},\"instance\":{\"name\":\"i\",\"object\":\"mail\"}}'' [] =
     Some (True, [For_action (Action_create (Some ''mail'') (Some fn_server_email) 1), Instance_create (Some ''mail'') (Some ''i'') 2],
       [Email_context [] ''s'' [], Test_context ''m'' ''mail''])" by code_simp
  show "\<exists>sent. myrefl_server_email run c (Some (Email_context [] ''s'' [])) = Some (RESULT_PASS, Some sent)"
    by (auto simp: myrefl_server_email_def email_body_def Let_def sstrncpy_fits MAXBUFLEN_def)
qed (simp add: myrefl_server_email_def)

end
