(* ===== verification/Cli.thy ===== *)
theory Cli
  imports ApiComp
begin

text \<open>
  The command line interface (\<^verbatim>\<open>src/src/myrefl_cli_local.c\<close>, \<^verbatim>\<open>myrefl_cli.h\<close>,
  \<^verbatim>\<open>myrefl_cli_handle.h\<close>): its data, and the handles by which a shell reads a long listing page by page.

  A \<open>cli_handle_t *\<close> is a number; \<open>cli_handle_at\<close> is the memory the pointers lead to. The state \<open>cli\<close> holds
  the handles and the database. A handle counts as a use of the objects it refers to (\<open>in_use\<close>), so that
  the garbage collector keeps them. As elsewhere the outer \<open>None\<close> is a run that follows a null, freed or
  wrongly typed pointer, or does not end. Memory for answers never runs out.
\<close>

section \<open>Data\<close>

datatype cli_type = CLI_UNKNOWN | CLI_TEST | CLI_ACTION | CLI_RULE | CLI_COMPONENT | CLI_TEST_POLLED
  | CLI_TEST_INSTANCE | CLI_ACTION_INSTANCE | CLI_RULE_INSTANCE

datatype cli_filter = CLI_FILTER_UNKNOWN | CLI_FILTER_NONE | CLI_DATA_FAILURE | CLI_DATA_FAILURE_CURRENT
  | CLI_RUN | CLI_RUN_NO_RULES | CLI_SHOW_COMP | CLI_TEST_RULE | CLI_RULE_ACTION | CLI_RULE_INPUT
  | CLI_RULE_OUTPUT | CLI_PARENT_DEPEND | CLI_CHILD_DEPEND | CLI_OPT_TBL | CLI_NVGEN

datatype cli_state = CLI_STATE_ALLOCATED | CLI_STATE_INITIALIZED | CLI_STATE_CREATED | CLI_STATE_ENABLED
  | CLI_STATE_DISABLED | CLI_STATE_DELETED | CLI_STATE_INVALID

datatype cli_test_type = CLI_TEST_TYPE_POLLED | CLI_TEST_TYPE_NOTIFICATION | CLI_TEST_TYPE_ERRMSG
  | CLI_TEST_TYPE_INVALID

record polled_test_context =
  p_counter :: int
  p_result :: result
  p_value :: int

record cli_handle =
  ch_id :: "32 word"
  ch_type :: cli_type
  ch_filter :: cli_filter
  ch_instance :: "iref option"
  ch_last_obj :: "oid option"
  ch_remote_comp :: "oid option"
  ch_remote_handle_id :: "32 word"
  ch_last_remote_obj :: "oid option"
  ch_used_last_time :: xos_time
  ch_in_use :: bool

text \<open>\<open>handles_in_use\<close> is \<open>None\<close> before the first handle; \<open>next_pointer\<close> and \<open>next_context\<close> are what the
  next allocation of a handle and of a context returns.\<close>

record cli =
  handles_in_use :: "nat list option"
  cli_handle_at :: "nat \<Rightarrow> cli_handle"
  next_pointer :: nat
  next_handle_id :: "32 word"
  polled_contexts :: "nat \<Rightarrow> polled_test_context option"
  next_context :: nat
  cli_db :: db

definition CLI_DAY_SEC :: "64 word" where "CLI_DAY_SEC = 43200"
definition CLI_HANDLE_FREE_COUNT :: nat where "CLI_HANDLE_FREE_COUNT = 100"

section \<open>Conversions\<close>

definition cli_to_rel_type :: "cli_type \<Rightarrow> obj_rel" where
  "cli_to_rel_type type =
     (case type of CLI_TEST \<Rightarrow> REL_TEST | CLI_ACTION \<Rightarrow> REL_ACTION | CLI_RULE \<Rightarrow> REL_RULE
      | CLI_COMPONENT \<Rightarrow> REL_COMP | _ \<Rightarrow> REL_NONE)"

definition cli_to_obj_type :: "cli_type \<Rightarrow> obj_type" where
  "cli_to_obj_type type =
     (case type of CLI_TEST \<Rightarrow> TYPE_TEST | CLI_ACTION \<Rightarrow> TYPE_ACTION | CLI_RULE \<Rightarrow> TYPE_RULE
      | CLI_COMPONENT \<Rightarrow> TYPE_COMP | _ \<Rightarrow> TYPE_NONE)"

definition obj_type_to_cli :: "obj_type \<Rightarrow> cli_type" where
  "obj_type_to_cli type =
     (case type of TYPE_TEST \<Rightarrow> CLI_TEST | TYPE_ACTION \<Rightarrow> CLI_ACTION | TYPE_RULE \<Rightarrow> CLI_RULE
      | TYPE_COMP \<Rightarrow> CLI_COMPONENT | _ \<Rightarrow> CLI_UNKNOWN)"

definition myrefl_cli_instance_type_to_type :: "cli_type \<Rightarrow> cli_type" where
  "myrefl_cli_instance_type_to_type inst_type =
     (if inst_type = CLI_TEST_INSTANCE then CLI_TEST
      else if inst_type = CLI_RULE_INSTANCE then CLI_RULE
      else if inst_type = CLI_ACTION_INSTANCE then CLI_ACTION
      else CLI_UNKNOWN)"

definition obj_state_to_cli :: "obj_state \<Rightarrow> cli_state" where
  "obj_state_to_cli state =
     (case state of STATE_ALLOCATED \<Rightarrow> CLI_STATE_ALLOCATED | STATE_INITIALIZED \<Rightarrow> CLI_STATE_INITIALIZED
      | STATE_CREATED \<Rightarrow> CLI_STATE_CREATED | STATE_ENABLED \<Rightarrow> CLI_STATE_ENABLED
      | STATE_DISABLED \<Rightarrow> CLI_STATE_DISABLED | STATE_DELETED \<Rightarrow> CLI_STATE_DELETED
      | STATE_INVALID \<Rightarrow> CLI_STATE_INVALID)"

definition obj_test_type_to_cli_type :: "test_type \<Rightarrow> cli_test_type" where
  "obj_test_type_to_cli_type ty =
     (case ty of POLLED \<Rightarrow> CLI_TEST_TYPE_POLLED | NOTIFICATION \<Rightarrow> CLI_TEST_TYPE_NOTIFICATION
      | ERRMSG \<Rightarrow> CLI_TEST_TYPE_ERRMSG)"

definition myrefl_cli_state_to_str :: "cli_state \<Rightarrow> string" where
  "myrefl_cli_state_to_str state =
     (case state of CLI_STATE_ALLOCATED \<Rightarrow> ''Allocated'' | CLI_STATE_INITIALIZED \<Rightarrow> ''Initialised''
      | CLI_STATE_CREATED \<Rightarrow> ''Created'' | CLI_STATE_ENABLED \<Rightarrow> ''Enabled'' | CLI_STATE_DISABLED \<Rightarrow> ''Disabled''
      | CLI_STATE_DELETED \<Rightarrow> ''Deleted'' | CLI_STATE_INVALID \<Rightarrow> ''Invalid'')"

text \<open>Has the configuration of an object changed, so that a saved configuration must name it?\<close>

definition myrefl_check_nvgen ::
  "cli_type \<Rightarrow> cli_state \<Rightarrow> cli_state \<Rightarrow> 32 word \<Rightarrow> 32 word \<Rightarrow> operator \<Rightarrow> operator \<Rightarrow> bool" where
  "myrefl_check_nvgen type cli_state def_state period def_period op def_op =
     (let configured = (cli_state \<noteq> CLI_STATE_INITIALIZED \<and> cli_state \<noteq> def_state)
      in case type of
           CLI_TEST \<Rightarrow> def_period \<noteq> period \<or> configured
         | CLI_RULE \<Rightarrow> def_op \<noteq> op \<or> configured
         | CLI_ACTION \<Rightarrow> configured | CLI_ACTION_INSTANCE \<Rightarrow> configured | CLI_TEST_INSTANCE \<Rightarrow> configured
         | CLI_RULE_INSTANCE \<Rightarrow> configured | CLI_COMPONENT \<Rightarrow> configured
         | _ \<Rightarrow> False)"

section \<open>Reading and updating\<close>

definition upd_handle :: "nat \<Rightarrow> (cli_handle \<Rightarrow> cli_handle) \<Rightarrow> cli \<Rightarrow> cli" where
  "upd_handle h f c = c\<lparr>cli_handle_at := (cli_handle_at c)(h := f (cli_handle_at c h))\<rparr>"

definition on_db :: "(db \<Rightarrow> db) \<Rightarrow> cli \<Rightarrow> cli" where
  "on_db f c = c\<lparr>cli_db := f (cli_db c)\<rparr>"

definition run_db :: "(db \<Rightarrow> db option) \<Rightarrow> cli \<Rightarrow> cli option" where
  "run_db f c = map_option (\<lambda>db. c\<lparr>cli_db := db\<rparr>) (f (cli_db c))"

definition valid_obj :: "oid option \<Rightarrow> obj_type \<Rightarrow> cli \<Rightarrow> (bool \<times> cli) option" where
  "valid_obj p ty c = map_option (\<lambda>(ok, db). (ok, c\<lparr>cli_db := db\<rparr>)) (myrefl_obj_validate p ty (cli_db c))"

text \<open>\<open>p && myrefl_obj_instance_validate(p, type)\<close>\<close>

definition valid_instance :: "iref option \<Rightarrow> obj_type \<Rightarrow> cli \<Rightarrow> (bool \<times> cli) option" where
  "valid_instance p ty c =
     (case p of
        None \<Rightarrow> Some (False, c)
      | Some i \<Rightarrow> map_option (\<lambda>(ok, db). (ok, c\<lparr>cli_db := db\<rparr>)) (myrefl_obj_instance_validate i ty (cli_db c)))"

definition use_more :: "iref \<Rightarrow> cli \<Rightarrow> cli" where
  "use_more i = on_db (upd_inst i (\<lambda>x. x\<lparr>i_in_use := i_in_use x + 1\<rparr>))"

text \<open>\<open>if (p->in_use) p->in_use--\<close>\<close>

definition use_less :: "iref \<Rightarrow> cli \<Rightarrow> cli" where
  "use_less i = on_db (upd_inst i (\<lambda>x. if i_in_use x \<noteq> 0 then x\<lparr>i_in_use := i_in_use x - 1\<rparr> else x))"

definition use_none :: "iref \<Rightarrow> cli \<Rightarrow> cli" where
  "use_none i = on_db (upd_inst i (\<lambda>x. x\<lparr>i_in_use := 0\<rparr>))"

section \<open>Handles\<close>

definition get_new_handle_id :: "cli \<Rightarrow> 32 word \<times> cli" where
  "get_new_handle_id c = (next_handle_id c, c\<lparr>next_handle_id := next_handle_id c + 1\<rparr>)"

definition myrefl_cli_local_handle_valid :: "nat \<Rightarrow> cli \<Rightarrow> bool" where
  "myrefl_cli_local_handle_valid h c = (case handles_in_use c of None \<Rightarrow> False | Some hs \<Rightarrow> h \<in> set hs)"

definition myrefl_cli_local_handle_set_in_use_flag :: "nat \<Rightarrow> cli \<Rightarrow> cli" where
  "myrefl_cli_local_handle_set_in_use_flag h = upd_handle h (\<lambda>x. x\<lparr>ch_in_use := True\<rparr>)"

definition myrefl_cli_local_handle_reset_in_use_flag :: "nat \<Rightarrow> cli \<Rightarrow> cli" where
  "myrefl_cli_local_handle_reset_in_use_flag h = upd_handle h (\<lambda>x. x\<lparr>ch_in_use := False\<rparr>)"

definition when_valid :: "(bool \<times> cli) option \<Rightarrow> (cli \<Rightarrow> cli) \<Rightarrow> cli option" where
  "when_valid p f = map_option (\<lambda>(ok, c). if ok then f c else c) p"

text \<open>Freeing a handle: what it refers to is marked as unused, whoever else may use it.\<close>

definition myrefl_cli_local_handle_free :: "nat \<Rightarrow> cli \<Rightarrow> (bool \<times> cli) option" where
  "myrefl_cli_local_handle_free h c =
     (let x = cli_handle_at c h
      in if ch_in_use x then Some (False, c)
         else case handles_in_use c of
           None \<Rightarrow> Some (False, c)
         | Some hs \<Rightarrow> do {
             c \<leftarrow> when_valid (valid_instance (ch_instance x) TYPE_ANY c) (use_none (the (ch_instance x)));
             c \<leftarrow> when_valid (valid_obj (ch_last_obj x) TYPE_ANY c) (use_none (base (the (ch_last_obj x))));
             c \<leftarrow> when_valid (valid_obj (ch_last_remote_obj x) TYPE_ANY c) (use_none (base (the (ch_last_remote_obj x))));
             Some (h \<in> set hs, c\<lparr>handles_in_use := Some (remove1 h hs)\<rparr>) })"

definition handle_set_instance :: "nat \<Rightarrow> iref option \<Rightarrow> cli \<Rightarrow> cli option" where
  "handle_set_instance h i c = do {
     let existing = ch_instance (cli_handle_at c h);
     c \<leftarrow> when_valid (valid_instance existing TYPE_ANY c) (use_less (the existing));
     let c = upd_handle h (\<lambda>x. x\<lparr>ch_instance := i\<rparr>) c;
     when_valid (valid_instance i TYPE_ANY c) (use_more (the i)) }"

definition handle_set_last_remote_obj :: "nat \<Rightarrow> oid option \<Rightarrow> cli \<Rightarrow> cli option" where
  "handle_set_last_remote_obj h ob c = do {
     let existing = ch_last_remote_obj (cli_handle_at c h);
     c \<leftarrow> when_valid (valid_obj existing TYPE_ANY c) (use_less (base (the existing)));
     let c = upd_handle h (\<lambda>x. x\<lparr>ch_last_remote_obj := ob\<rparr>) c;
     when_valid (valid_obj ob TYPE_ANY c) (use_more (base (the ob))) }"

definition handle_set_last_obj :: "nat \<Rightarrow> oid option \<Rightarrow> cli \<Rightarrow> cli" where
  "handle_set_last_obj h ob c =
     (let c = (case ch_last_obj (cli_handle_at c h) of None \<Rightarrow> c | Some e \<Rightarrow> use_less (base e) c);
          c = upd_handle h (\<lambda>x. x\<lparr>ch_last_obj := ob\<rparr>) c
      in case ob of None \<Rightarrow> c | Some x \<Rightarrow> use_more (base x) c)"

definition myrefl_cli_local_handle_set_remote_comp_obj :: "nat \<Rightarrow> oid option \<Rightarrow> cli \<Rightarrow> cli" where
  "myrefl_cli_local_handle_set_remote_comp_obj h ob c =
     (let c = (case ch_remote_comp (cli_handle_at c h) of None \<Rightarrow> c | Some e \<Rightarrow> use_less (base e) c);
          c = upd_handle h (\<lambda>x. x\<lparr>ch_remote_comp := ob\<rparr>) c
      in case ob of None \<Rightarrow> c | Some x \<Rightarrow> use_more (base x) c)"

definition handle_clean_up :: "nat \<Rightarrow> cli \<Rightarrow> cli option" where
  "handle_clean_up h c = do {
     c \<leftarrow> handle_set_instance h None c;
     let c = handle_set_last_obj h None c;
     c \<leftarrow> handle_set_last_remote_obj h None c;
     let c = myrefl_cli_local_handle_set_remote_comp_obj h None c;
     (_, c) \<leftarrow> myrefl_cli_local_handle_free h c;
     Some c }"

text \<open>The flag of the handle is reset and the handle is cleaned up: so ends a listing.\<close>

definition end_handle :: "nat \<Rightarrow> cli \<Rightarrow> cli option" where
  "end_handle h c = handle_clean_up h (myrefl_cli_local_handle_reset_in_use_flag h c)"

definition set_used_last_time :: "nat \<Rightarrow> cli \<Rightarrow> cli" where
  "set_used_last_time h c =
     (let (now, db) = time_now (cli_db c)
      in upd_handle h (\<lambda>x. x\<lparr>ch_used_last_time := now\<rparr>) (c\<lparr>cli_db := db\<rparr>))"

definition begin_use :: "nat \<Rightarrow> cli \<Rightarrow> cli" where
  "begin_use h c = myrefl_cli_local_handle_set_in_use_flag h (set_used_last_time h c)"

definition myrefl_cli_local_handle_allocate :: "cli_type \<Rightarrow> cli_filter \<Rightarrow> cli \<Rightarrow> nat \<times> cli" where
  "myrefl_cli_local_handle_allocate type flt c =
     (let hs = (case handles_in_use c of None \<Rightarrow> [] | Some hs \<Rightarrow> hs);
          h = next_pointer c;
          (n, c) = get_new_handle_id c;
          c = upd_handle h (\<lambda>_. \<lparr>ch_id = n, ch_type = type, ch_filter = flt, ch_instance = None, ch_last_obj = None,
                ch_remote_comp = None, ch_remote_handle_id = 0, ch_last_remote_obj = None,
                ch_used_last_time = zero_time, ch_in_use = False\<rparr>) c;
          c = c\<lparr>next_pointer := Suc h, handles_in_use := Some (list_add h hs)\<rparr>
      in (h, set_used_last_time h c))"

definition myrefl_cli_local_handle_get :: "32 word \<Rightarrow> cli \<Rightarrow> nat option" where
  "myrefl_cli_local_handle_get n c =
     (case handles_in_use c of
        None \<Rightarrow> None
      | Some hs \<Rightarrow> if n = 0 then None else List.find (\<lambda>h. ch_id (cli_handle_at c h) = n) hs)"

section \<open>Garbage\<close>

definition myrefl_cli_handle_free_check :: "nat \<Rightarrow> cli \<Rightarrow> bool \<times> cli" where
  "myrefl_cli_handle_free_check h c =
     (let (now, db) = time_now (cli_db c);
          delay = myrefl_xos_time_diff (ch_used_last_time (cli_handle_at c h)) now
      in (sec delay \<ge> CLI_DAY_SEC, c\<lparr>cli_db := db\<rparr>))"

text \<open>The loop: \<open>n\<close> handles may still be looked at, \<open>current\<close> is the rest of the list. After a handle has
  been freed the walk starts again at the head.\<close>

fun free_loop :: "nat \<Rightarrow> nat list \<Rightarrow> cli \<Rightarrow> cli option" where
  "free_loop 0 current c = Some c"
| "free_loop n [] c = Some c"
| "free_loop (Suc n) (h # rest) c =
     (let (old, c) = myrefl_cli_handle_free_check h c
      in if old then do {
           (freed, c) \<leftarrow> myrefl_cli_local_handle_free h c;
           free_loop n (if freed then the (handles_in_use c) else rest) c }
         else free_loop n rest c)"

definition myrefl_cli_local_handle_free_garbage :: "cli \<Rightarrow> cli option" where
  "myrefl_cli_local_handle_free_garbage c =
     (case handles_in_use c of None \<Rightarrow> Some c | Some hs \<Rightarrow> free_loop CLI_HANDLE_FREE_COUNT hs c)"

end
