(* ===== verification/CliInfo.thy ===== *)
theory CliInfo
  imports Cli
begin

text \<open>
  What the command line interface shows of objects and instances
  (\<^verbatim>\<open>src/src/myrefl_cli_local.c\<close>): opening a handle, the details of one object, and the paged
  listings of all objects of a type and of the instances of an object.

  An answer that is a pointer to a linked list of elements is a list; \<open>NULL\<close> is \<open>None\<close>. Fields of the
  answers that no code sets (they stay zero) are left out.
\<close>

section \<open>Answers\<close>

record cli_history =
  clh_time :: xos_time
  clh_result :: result
  clh_count :: "32 word"
  clh_value :: int

record cli_stats =
  cs_failures :: "32 word"
  cs_aborts :: "32 word"
  cs_passes :: "32 word"
  cs_runs :: "32 word"
  cs_history :: "cli_history list"

record cli_test =
  ct_type :: cli_test_type
  ct_name :: name
  ct_description :: "string option"
  ct_context :: nat
  ct_last_ran :: xos_time
  ct_next_run :: xos_time
  ct_last_result :: result
  ct_last_result_count :: "32 word"
  ct_last_value :: int
  ct_stats :: cli_stats
  ct_state :: cli_state
  ct_default_state :: cli_state
  ct_period :: "64 word"
  ct_default_period :: "64 word"

record cli_rule =
  cr_name :: name
  cr_description :: "string option"
  cr_context :: nat
  cr_operator :: operator
  cr_default_operator :: operator
  cr_op_n :: int
  cr_op_m :: int
  cr_stats :: cli_stats
  cr_state :: cli_state
  cr_default_state :: cli_state
  cr_last_result :: result
  cr_last_value :: int
  cr_last_result_count :: "32 word"
  cr_fail_count :: "32 word"

record cli_comp =
  cc_name :: name
  cc_description :: "string option"
  cc_context :: nat
  cc_health :: "32 word"
  cc_confidence :: "32 word"
  cc_stats :: cli_stats
  cc_state :: cli_state
  cc_default_state :: cli_state
  cc_catastrophic :: "32 word"
  cc_critical :: "32 word"
  cc_high :: "32 word"
  cc_medium :: "32 word"
  cc_low :: "32 word"
  cc_positive :: "32 word"

record cli_action =
  ca_name :: name
  ca_description :: "string option"
  ca_context :: nat
  ca_stats :: cli_stats
  ca_state :: cli_state
  ca_default_state :: cli_state
  ca_last_result :: result
  ca_last_result_count :: "32 word"

record cli_instance =
  ci_name :: name
  ci_state :: cli_state
  ci_default_state :: cli_state
  ci_stats :: cli_stats
  ci_last_result :: result
  ci_last_result_count :: "32 word"
  ci_fail_count :: "32 word"

datatype cli_single = SComp cli_comp | STest cli_test | SAction cli_action | SRule cli_rule

record cli_info_element =
  e_type :: cli_type
  e_name :: name
  e_description :: "string option"
  e_last_result :: result
  e_last_result_count :: "32 word"
  e_health :: "32 word"
  e_confidence :: "32 word"
  e_stats :: cli_stats
  e_state :: cli_state
  e_default_state :: cli_state
  e_cli_state :: cli_state
  e_operator :: operator
  e_default_operator :: operator
  e_op_n :: int
  e_op_m :: int
  e_period :: "64 word"
  e_default_period :: "64 word"
  e_severity :: int

record cli_info =
  num_elements :: nat
  elements :: "cli_info_element list"

definition CLI_HISTORY_SIZE :: nat where "CLI_HISTORY_SIZE = 5"

definition no_history :: cli_history where
  "no_history = \<lparr>clh_time = zero_time, clh_result = RESULT_INVALID, clh_count = 0, clh_value = 0\<rparr>"

definition copy_history :: "obj_history \<Rightarrow> cli_history" where
  "copy_history h = \<lparr>clh_time = h_time h, clh_result = h_result h, clh_count = h_count h, clh_value = h_value h\<rparr>"

definition copy_counts :: "obj_stats \<Rightarrow> cli_stats" where
  "copy_counts s = \<lparr>cs_failures = failures s, cs_aborts = aborts s, cs_passes = passes s, cs_runs = runs s,
     cs_history = replicate CLI_HISTORY_SIZE no_history\<rparr>"

text \<open>The history is a ring, shown from the record after the head on.\<close>

definition history_loop :: "obj_stats \<Rightarrow> cli_history list" where
  "history_loop s =
     map (\<lambda>i. let j = i + (unat (history_head s) + 1);
                  j = (if j \<ge> OBJ_HISTORY_SIZE then j - OBJ_HISTORY_SIZE else j)
              in copy_history (history s ! j)) [0..<min CLI_HISTORY_SIZE OBJ_HISTORY_SIZE]"

definition copy_stats :: "obj_stats \<Rightarrow> cli_stats" where
  "copy_stats s = (copy_counts s)\<lparr>cs_history := history_loop s\<rparr>"

definition shown_state :: "obj_state \<Rightarrow> bool" where
  "shown_state s \<longleftrightarrow> s = STATE_ENABLED \<or> s = STATE_DISABLED \<or> s = STATE_CREATED \<or> s = STATE_INITIALIZED"

text \<open>\<open>(unsigned int)(health > 0 ? health : 0)\<close>\<close>

definition shown_health :: "int \<Rightarrow> 32 word" where
  "shown_health h = (if h > 0 then word_of_int h else 0)"

section \<open>Opening a handle\<close>

text \<open>The type of the object whose instances the handle is about; \<open>None\<close> refuses the type.\<close>

definition local_type :: "cli_type \<Rightarrow> cli_type option" where
  "local_type type =
     (case type of
        CLI_TEST_INSTANCE \<Rightarrow> Some CLI_TEST | CLI_TEST \<Rightarrow> Some CLI_TEST
      | CLI_RULE_INSTANCE \<Rightarrow> Some CLI_RULE | CLI_RULE \<Rightarrow> Some CLI_RULE
      | CLI_ACTION_INSTANCE \<Rightarrow> Some CLI_ACTION | CLI_ACTION \<Rightarrow> Some CLI_ACTION
      | CLI_COMPONENT \<Rightarrow> Some CLI_COMPONENT
      | _ \<Rightarrow> None)"

definition instance_type :: "cli_type \<Rightarrow> bool" where
  "instance_type type \<longleftrightarrow> type = CLI_TEST_INSTANCE \<or> type = CLI_RULE_INSTANCE \<or> type = CLI_ACTION_INSTANCE"

text \<open>The handle is moved from the object to one of its instances. When the instance found is not
  valid the pointer is cleared without \<open>handle_set_instance\<close>.\<close>

definition set_member :: "nat \<Rightarrow> obj_type \<Rightarrow> iref option \<Rightarrow> cli \<Rightarrow> cli option" where
  "set_member h ty i c = do {
     (ok, c) \<leftarrow> valid_instance i ty c;
     if ok then handle_set_instance h i c
     else Some (upd_handle h (\<lambda>x. x\<lparr>ch_instance := None\<rparr>) c) }"

definition handle_member :: "nat \<Rightarrow> obj_type \<Rightarrow> oid \<Rightarrow> name option \<Rightarrow> cli \<Rightarrow> cli option" where
  "handle_member h ty ob instance_name c =
     (if \<not> badstr instance_name
      then (case find_member (cli_db c) ob (the instance_name) of
              None \<Rightarrow> Some c | Some i \<Rightarrow> set_member h ty (Some i) c)
      else set_member h ty (case o_members (objs (cli_db c) ob) of [] \<Rightarrow> None | k # _ \<Rightarrow> Some (IRef ob k)) c)"

definition set_filter :: "nat \<Rightarrow> cli_filter \<Rightarrow> cli \<Rightarrow> cli" where
  "set_filter h flt = upd_handle h (\<lambda>x. x\<lparr>ch_remote_comp := None, ch_remote_handle_id := 0, ch_filter := flt\<rparr>)"

definition named_handle :: "nat \<Rightarrow> name \<Rightarrow> cli_type \<Rightarrow> cli_type \<Rightarrow> cli_filter \<Rightarrow> name option \<Rightarrow> cli \<Rightarrow> (32 word \<times> cli) option" where
  "named_handle h n type lt flt instance_name c = do {
     let ty = cli_to_obj_type (if flt = CLI_SHOW_COMP then CLI_COMPONENT else lt);
     p \<leftarrow> myrefl_obj_get_by_name_unconverted (cli_db c) n ty;
     (ok, c) \<leftarrow> valid_obj p ty c;
     if \<not> ok then map_option (Pair 0) (handle_clean_up h c)
     else do {
       c \<leftarrow> handle_set_instance h (Some (base (the p))) c;
       c \<leftarrow> (if instance_type type then handle_member h ty (the p) instance_name c else Some c);
       let c = set_filter h flt c;
       Some (ch_id (cli_handle_at c h), c) } }"

definition all_handle :: "nat \<Rightarrow> cli_type \<Rightarrow> cli_filter \<Rightarrow> cli \<Rightarrow> (32 word \<times> cli) option" where
  "all_handle h lt flt c = do {
     p \<leftarrow> myrefl_obj_get_first_rel (cli_db c) None (cli_to_rel_type lt);
     (ok, c) \<leftarrow> valid_obj p (cli_to_obj_type lt) c;
     if \<not> ok then map_option (Pair 0) (handle_clean_up h c)
     else do {
       c \<leftarrow> handle_set_instance h (Some (base (the p))) c;
       let c = set_filter h flt c;
       r \<leftarrow> myrefl_obj_get_first_rel (cli_db c) None REL_COMP;
       (ok, c) \<leftarrow> valid_obj r TYPE_COMP c;
       c \<leftarrow> (if ok then handle_set_last_remote_obj h r c else Some c);
       Some (ch_id (cli_handle_at c h), c) } }"

definition myrefl_cli_local_get_info_handle ::
  "name option \<Rightarrow> cli_type \<Rightarrow> cli_filter \<Rightarrow> name option \<Rightarrow> cli \<Rightarrow> (32 word \<times> cli) option" where
  "myrefl_cli_local_get_info_handle n type flt instance_name c =
     (case local_type type of
        None \<Rightarrow> Some (0, c)
      | Some lt \<Rightarrow>
          let (h, c) = myrefl_cli_local_handle_allocate type flt c
          in if \<not> badstr n then named_handle h (the n) type lt flt instance_name c else all_handle h lt flt c)"

text \<open>The beginning of a reader: the handle is looked up and its instance validated.\<close>

definition with_handle :: "32 word \<Rightarrow> 'a \<Rightarrow> (nat \<Rightarrow> iref \<Rightarrow> cli \<Rightarrow> ('a \<times> cli) option) \<Rightarrow> cli \<Rightarrow> ('a \<times> cli) option" where
  "with_handle n none f c =
     (case myrefl_cli_local_handle_get n c of
        None \<Rightarrow> Some (none, c)
      | Some h \<Rightarrow> do {
          (ok, c) \<leftarrow> valid_instance (ch_instance (cli_handle_at c h)) TYPE_ANY c;
          if ok then f h (the (ch_instance (cli_handle_at c h))) c else Some (none, c) })"

section \<open>One object\<close>

definition comp_info :: "db \<Rightarrow> oid \<Rightarrow> cli_single option" where
  "comp_info db ob =
     (if comp_of db ob = None then None
      else let x = inst db (base ob); w = healths db ob
        in Some (SComp \<lparr>cc_name = i_name x, cc_description = o_description (objs db ob), cc_context = i_context x,
             cc_health = shown_health (health w), cc_confidence = word_of_int (confidence w),
             cc_stats = copy_counts (i_stats x), cc_state = obj_state_to_cli (i_state x),
             cc_default_state = obj_state_to_cli (i_default_state x),
             cc_catastrophic = catastrophic w, cc_critical = critical w, cc_high = high w, cc_medium = medium w,
             cc_low = low w, cc_positive = positive w\<rparr>))"

definition test_info :: "db \<Rightarrow> oid \<Rightarrow> cli_single option" where
  "test_info db ob =
     map_option (\<lambda>t. let x = inst db (base ob) in
       STest \<lparr>ct_type = obj_test_type_to_cli_type (t_type t), ct_name = i_name x,
         ct_description = o_description (objs db ob), ct_context = i_context x,
         ct_last_ran = last_time (i_sched x), ct_next_run = next_time (i_sched x), ct_last_result = i_last_result x,
         ct_last_result_count = i_last_result_count x, ct_last_value = i_last_value x,
         ct_stats = copy_stats (i_stats x), ct_state = obj_state_to_cli (i_state x),
         ct_default_state = obj_state_to_cli (i_default_state x), ct_period = t_period t,
         ct_default_period = t_default_period t\<rparr>) (test_of db ob)"

definition action_info :: "db \<Rightarrow> oid \<Rightarrow> cli_single option" where
  "action_info db ob =
     (let x = inst db (base ob) in
       Some (SAction \<lparr>ca_name = i_name x, ca_description = o_description (objs db ob), ca_context = i_context x,
         ca_stats = copy_stats (i_stats x), ca_state = obj_state_to_cli (i_state x),
         ca_default_state = obj_state_to_cli (i_default_state x), ca_last_result = i_last_result x,
         ca_last_result_count = i_last_result_count x\<rparr>))"

definition rule_info :: "db \<Rightarrow> oid \<Rightarrow> cli_single option" where
  "rule_info db ob =
     map_option (\<lambda>r. let x = inst db (base ob) in
       SRule \<lparr>cr_name = i_name x, cr_description = o_description (objs db ob), cr_context = i_context x,
         cr_operator = r_operator r, cr_default_operator = r_default_operator r, cr_op_n = r_op_n r, cr_op_m = r_op_m r,
         cr_stats = copy_stats (i_stats x), cr_state = obj_state_to_cli (i_state x),
         cr_default_state = obj_state_to_cli (i_default_state x), cr_last_result = i_last_result x,
         cr_last_value = i_last_value x, cr_last_result_count = i_last_result_count x,
         cr_fail_count = i_fail_count x\<rparr>) (rule_of db ob)"

definition single_info :: "cli_type \<Rightarrow> db \<Rightarrow> oid \<Rightarrow> cli_single option option" where
  "single_info type db ob =
     (if \<not> shown_state (i_state (inst db (base ob))) then Some None
      else case type of
        CLI_COMPONENT \<Rightarrow> map_option Some (comp_info db ob)
      | CLI_TEST \<Rightarrow> map_option Some (test_info db ob)
      | CLI_ACTION \<Rightarrow> map_option Some (action_info db ob)
      | CLI_RULE \<Rightarrow> map_option Some (rule_info db ob)
      | _ \<Rightarrow> Some None)"

definition myrefl_cli_local_get_single_info :: "32 word \<Rightarrow> cli \<Rightarrow> (cli_single option \<times> cli) option" where
  "myrefl_cli_local_get_single_info n =
     with_handle n None (\<lambda>h i c. do {
       let c = begin_use h c;
       answer \<leftarrow> single_info (ch_type (cli_handle_at c h)) (cli_db c) (obj_of i);
       map_option (Pair answer) (end_handle h c) })"

definition instance_info :: "obj_instance \<Rightarrow> cli_instance" where
  "instance_info x =
     \<lparr>ci_name = i_name x, ci_state = obj_state_to_cli (i_state x), ci_default_state = obj_state_to_cli (i_default_state x),
       ci_stats = copy_stats (i_stats x), ci_last_result = i_last_result x,
       ci_last_result_count = i_last_result_count x, ci_fail_count = i_fail_count x\<rparr>"

definition myrefl_cli_local_get_single_instance_info :: "32 word \<Rightarrow> cli \<Rightarrow> (cli_instance option \<times> cli) option" where
  "myrefl_cli_local_get_single_instance_info n =
     with_handle n None (\<lambda>h i c.
       if \<not> instance_type (ch_type (cli_handle_at c h)) then map_option (Pair None) (end_handle h c)
       else do {
         let c = begin_use h c;
         let x = inst (cli_db c) i;
         map_option (Pair (if shown_state (i_state x) then Some (instance_info x) else None)) (end_handle h c) })"

section \<open>All objects of a type\<close>

text \<open>The values the filter for the saved configuration looks at. A field is read through a pointer of
  the type it belongs to; \<open>myrefl_check_nvgen\<close> looks only at those of the type, and takes the periods as
  \<open>unsigned int\<close>.\<close>

definition nvgen_changed :: "cli_type \<Rightarrow> db \<Rightarrow> oid \<Rightarrow> bool" where
  "nvgen_changed type db ob =
     (let x = inst db (base ob);
          (p, dp) = (case test_of db ob of None \<Rightarrow> (0, 0) | Some t \<Rightarrow> (ucast (t_period t), ucast (t_default_period t)));
          (op, dop) = (case rule_of db ob of None \<Rightarrow> (RULE_INVALID, RULE_INVALID)
            | Some r \<Rightarrow> (r_operator r, r_default_operator r))
      in myrefl_check_nvgen type (obj_state_to_cli (i_cli_state x)) (obj_state_to_cli (i_default_state x)) p dp op dop)"

text \<open>A state that the shell has configured is summarised by a parent with the same configured state.\<close>

definition nvgen_process :: "cli_type \<Rightarrow> db \<Rightarrow> oid \<Rightarrow> bool" where
  "nvgen_process type db ob =
     (if \<not> nvgen_changed type db ob then False
      else let x = inst db (base ob)
        in if i_cli_state x \<noteq> STATE_INITIALIZED \<and> i_cli_state x \<noteq> i_default_state x
           then (case o_parent_comp (objs db ob) of
                   None \<Rightarrow> True
                 | Some p \<Rightarrow>
                     let y = inst db (base p)
                     in \<not> (i_cli_state y \<noteq> i_default_state y \<and> i_cli_state y = i_cli_state x))
           else True)"

definition info_process :: "cli_type \<Rightarrow> cli_filter \<Rightarrow> db \<Rightarrow> oid \<Rightarrow> bool" where
  "info_process type flt db ob =
     (let x = inst db (base ob)
      in case flt of
           CLI_DATA_FAILURE \<Rightarrow> failures (i_stats x) \<noteq> 0
         | CLI_DATA_FAILURE_CURRENT \<Rightarrow> i_last_result x = RESULT_FAIL
         | CLI_NVGEN \<Rightarrow> nvgen_process type db ob
         | _ \<Rightarrow> True)"

definition zero_element :: cli_info_element where
  "zero_element = \<lparr>e_type = CLI_UNKNOWN, e_name = [], e_description = None, e_last_result = RESULT_INVALID,
     e_last_result_count = 0, e_health = 0, e_confidence = 0,
     e_stats = \<lparr>cs_failures = 0, cs_aborts = 0, cs_passes = 0, cs_runs = 0, cs_history = replicate CLI_HISTORY_SIZE no_history\<rparr>,
     e_state = CLI_STATE_ALLOCATED, e_default_state = CLI_STATE_ALLOCATED, e_cli_state = CLI_STATE_ALLOCATED,
     e_operator = RULE_INVALID, e_default_operator = RULE_INVALID, e_op_n = 0, e_op_m = 0, e_period = 0,
     e_default_period = 0, e_severity = 0\<rparr>"

definition common_element :: "cli_type \<Rightarrow> obj_instance \<Rightarrow> cli_info_element" where
  "common_element type x = zero_element
     \<lparr>e_type := type, e_name := i_name x, e_last_result := i_last_result x, e_stats := copy_counts (i_stats x),
       e_state := obj_state_to_cli (i_state x), e_default_state := obj_state_to_cli (i_default_state x)\<rparr>"

text \<open>\<open>Some None\<close>: the type of the handle is not one of an object.\<close>

definition info_element :: "cli_type \<Rightarrow> db \<Rightarrow> oid \<Rightarrow> cli_info_element option option" where
  "info_element type db ob =
     (let x = inst db (base ob);
          e = (common_element type x)\<lparr>e_description := o_description (objs db ob),
                e_cli_state := obj_state_to_cli (i_cli_state x)\<rparr>
      in case type of
           CLI_COMPONENT \<Rightarrow>
             map_option (\<lambda>_. Some (e\<lparr>e_health := shown_health (health (healths db ob)),
               e_confidence := word_of_int (confidence (healths db ob))\<rparr>)) (comp_of db ob)
         | CLI_TEST \<Rightarrow>
             map_option (\<lambda>t. Some (e\<lparr>e_period := t_period t, e_default_period := t_default_period t,
               e_last_result_count := i_last_result_count x\<rparr>)) (test_of db ob)
         | CLI_RULE \<Rightarrow>
             map_option (\<lambda>r. Some (e\<lparr>e_operator := r_operator r, e_default_operator := r_default_operator r,
               e_op_n := r_op_n r, e_op_m := r_op_m r, e_last_result_count := i_last_result_count x,
               e_severity := r_severity r\<rparr>)) (rule_of db ob)
         | CLI_ACTION \<Rightarrow> Some (Some e)
         | _ \<Rightarrow> Some None)"

definition object_type :: "cli_type \<Rightarrow> bool" where
  "object_type type \<longleftrightarrow> type = CLI_TEST \<or> type = CLI_ACTION \<or> type = CLI_RULE \<or> type = CLI_COMPONENT"

text \<open>The loop over the objects; \<open>es\<close> are the elements so far. At the end of the objects the handle is
  freed and the answer returned as it is: its number of elements has not been set.\<close>

partial_function (option) info_loop ::
  "nat \<Rightarrow> nat \<Rightarrow> oid \<Rightarrow> cli_info_element list \<Rightarrow> cli \<Rightarrow> (cli_info option \<times> cli) option" where
  "info_loop h mx ob es c =
     (if \<not> length es < mx
      then Some (Some \<lparr>num_elements = length es, elements = es\<rparr>, myrefl_cli_local_handle_reset_in_use_flag h c)
      else
        let type = ch_type (cli_handle_at c h); db = cli_db c in
        Option.bind
          (if shown_state (i_state (inst db (base ob))) \<and> info_process type (ch_filter (cli_handle_at c h)) db ob
           then map_option (map_option (\<lambda>e. es @ [e])) (info_element type db ob)
           else Some (Some es)) (\<lambda>r.
        case r of
          None \<Rightarrow> map_option (Pair None) (end_handle h c)
        | Some es \<Rightarrow>
            if \<not> object_type type
            then map_option (Pair (Some \<lparr>num_elements = 0, elements = []\<rparr>)) (end_handle h c)
            else
              Option.bind (myrefl_obj_get_next_rel db (Some ob) (cli_to_rel_type type)) (\<lambda>next.
              Option.bind (valid_obj next (cli_to_obj_type type) c) (\<lambda>(ok, c).
                if \<not> ok
                then map_option (Pair (Some \<lparr>num_elements = 0, elements = es\<rparr>)) (end_handle h c)
                else Option.bind (handle_set_instance h (Some (base (the next))) c)
                       (\<lambda>c. info_loop h mx (the next) es c)))))"

definition myrefl_cli_local_get_info :: "32 word \<Rightarrow> nat \<Rightarrow> cli \<Rightarrow> (cli_info option \<times> cli) option" where
  "myrefl_cli_local_get_info n mx =
     with_handle n None (\<lambda>h i c. info_loop h mx (obj_of i) [] (begin_use h c))"

section \<open>The instances of an object\<close>

definition instance_process :: "cli_filter \<Rightarrow> obj_instance \<Rightarrow> bool" where
  "instance_process flt x =
     (case flt of
        CLI_DATA_FAILURE \<Rightarrow> failures (i_stats x) \<noteq> 0
      | CLI_DATA_FAILURE_CURRENT \<Rightarrow> i_last_result x = RESULT_FAIL
      | _ \<Rightarrow> True)"

definition instance_element :: "cli_type \<Rightarrow> obj_instance \<Rightarrow> cli_info_element" where
  "instance_element type x = (common_element type x)\<lparr>e_last_result_count := i_last_result_count x\<rparr>"

text \<open>The members after a member: \<open>instance->next\<close> and so on.\<close>

definition next_members :: "db \<Rightarrow> iref \<Rightarrow> iref list" where
  "next_members db i = tl (dropWhile (\<lambda>j. j \<noteq> i) (all_instances db (obj_of i)))"

fun instance_loop ::
  "nat \<Rightarrow> cli_type \<Rightarrow> nat \<Rightarrow> iref \<Rightarrow> iref list \<Rightarrow> cli_info_element list \<Rightarrow> cli \<Rightarrow> (cli_info option \<times> cli) option" where
  "instance_loop h type mtu i rest es c =
     (if \<not> length es < mtu
      then Some (Some \<lparr>num_elements = length es, elements = es\<rparr>, myrefl_cli_local_handle_reset_in_use_flag h c)
      else
        let x = inst (cli_db c) i;
            es = (if shown_state (i_state x) \<and> instance_process (ch_filter (cli_handle_at c h)) x
                  then es @ [instance_element type x] else es);
            done = (\<lambda>c. map_option (Pair (Some \<lparr>num_elements = 0, elements = es\<rparr>)) (end_handle h c))
        in case rest of
             [] \<Rightarrow> done c
           | next # rest' \<Rightarrow> do {
               (ok, c) \<leftarrow> valid_instance (Some next) (cli_to_obj_type type) c;
               if \<not> ok then done c
               else do {
                 c \<leftarrow> handle_set_instance h (Some next) c;
                 instance_loop h type mtu next rest' es c } })"

definition myrefl_cli_local_get_instance_info :: "32 word \<Rightarrow> nat \<Rightarrow> cli \<Rightarrow> (cli_info option \<times> cli) option" where
  "myrefl_cli_local_get_instance_info n mtu =
     with_handle n None (\<lambda>h i c.
       let c = begin_use h c; type = myrefl_cli_instance_type_to_type (ch_type (cli_handle_at c h))
       in if type = CLI_UNKNOWN then map_option (Pair None) (end_handle h c)
          else instance_loop h type mtu i (next_members (cli_db c) i) [] c)"

end
