(* ===== verification/CliList.thy ===== *)
theory CliList
  imports CliInfo
begin

text \<open>
  The listings of related objects in \<^verbatim>\<open>src/src/myrefl_cli_local.c\<close>: what is in a component, the
  rules of a test, actions, inputs and outputs of a rule, dependencies, connected instances, and the
  tables of names for completion. Each resumes at the object that the handle remembers (\<open>last_obj\<close>).

  An answer whose elements have been freed before it is returned is \<open>None\<close>.
\<close>

section \<open>Elements\<close>

record cli_data_element =
  d_name :: name
  d_stats :: cli_stats
  d_state :: cli_state
  d_type :: cli_type
  d_last_result :: result
  d_severity :: int

record cli_data =
  d_num_elements :: nat
  d_elements :: "cli_data_element list"

definition myrefl_cli_copy_data_element :: "db \<Rightarrow> oid \<Rightarrow> cli_data_element" where
  "myrefl_cli_copy_data_element db ob =
     (let x = inst db (base ob)
      in \<lparr>d_name = i_name x, d_stats = copy_counts (i_stats x), d_state = obj_state_to_cli (i_state x),
          d_type = obj_type_to_cli (type_of db ob), d_last_result = i_last_result x,
          d_severity = (case rule_of db ob of None \<Rightarrow> 0 | Some r \<Rightarrow> r_severity r)\<rparr>)"

definition myrefl_cli_local_get_parent_comp :: "32 word \<Rightarrow> cli \<Rightarrow> (name option \<times> cli) option" where
  "myrefl_cli_local_get_parent_comp n =
     with_handle n None (\<lambda>h i c.
       let c = begin_use h c;
           answer = map_option (\<lambda>p. i_name (inst (cli_db c) (base p))) (o_parent_comp (objs (cli_db c) (obj_of i)))
       in map_option (Pair answer) (end_handle h c))"

text \<open>\<open>validate(obj, obj->type)\<close>\<close>

definition valid_own :: "oid option \<Rightarrow> cli \<Rightarrow> (bool \<times> cli) option" where
  "valid_own p c = valid_obj p (case p of None \<Rightarrow> TYPE_ANY | Some x \<Rightarrow> type_of (cli_db c) x) c"

text \<open>Resume at the object the handle remembers, or begin with the first one; \<open>Some None\<close> ends the listing.\<close>

definition first_obj :: "nat \<Rightarrow> (db \<Rightarrow> oid option option) \<Rightarrow> (oid option \<Rightarrow> db \<Rightarrow> obj_type) \<Rightarrow> cli \<Rightarrow> (oid option \<times> cli) option" where
  "first_obj h first ty c =
     (case ch_last_obj (cli_handle_at c h) of
        Some x \<Rightarrow> Some (Some x, c)
      | None \<Rightarrow> do {
          p \<leftarrow> first (cli_db c);
          (ok, c) \<leftarrow> valid_obj p (ty p (cli_db c)) c;
          Some (if ok then (p, handle_set_last_obj h p c) else (None, c)) })"

definition own_type :: "oid option \<Rightarrow> db \<Rightarrow> obj_type" where
  "own_type p db = (case p of None \<Rightarrow> TYPE_ANY | Some x \<Rightarrow> type_of db x)"

section \<open>The objects of a component and the rules of a test\<close>

text \<open>The loop along a chain of objects. \<open>fin\<close> gives the answer when the chain has ended.\<close>

partial_function (option) chain_loop ::
  "obj_rel \<Rightarrow> (cli_data_element list \<Rightarrow> cli_data option) \<Rightarrow> nat \<Rightarrow> nat \<Rightarrow> oid \<Rightarrow> cli_data_element list \<Rightarrow> cli \<Rightarrow>
     (cli_data option \<times> cli) option" where
  "chain_loop rel fin h mtu ob es c =
     (if \<not> length es < mtu
      then Some (Some \<lparr>d_num_elements = length es, d_elements = es\<rparr>, myrefl_cli_local_handle_reset_in_use_flag h c)
      else
        let es = es @ [myrefl_cli_copy_data_element (cli_db c) ob] in
        Option.bind (myrefl_obj_get_next_rel (cli_db c) (Some ob) rel) (\<lambda>next.
        Option.bind (valid_own next c) (\<lambda>(ok, c).
          if ok then chain_loop rel fin h mtu (the next) es (handle_set_last_obj h next c)
          else map_option (Pair (fin es)) (end_handle h c))))"

text \<open>A handle of another type frees the elements after the first one, and returns them.\<close>

definition myrefl_cli_local_get_strucs_in_comp :: "32 word \<Rightarrow> nat \<Rightarrow> cli \<Rightarrow> (cli_data option \<times> cli) option" where
  "myrefl_cli_local_get_strucs_in_comp n max_mtu =
     with_handle n None (\<lambda>h i c. do {
       let c = begin_use h c;
       let type = ch_type (cli_handle_at c h);
       (p, c) \<leftarrow> first_obj h (\<lambda>db. myrefl_obj_get_first_rel db (Some (obj_of i)) (cli_to_rel_type type)) own_type c;
       (case p of
          None \<Rightarrow> map_option (Pair None) (end_handle h c)
        | Some x \<Rightarrow>
            if object_type type \<or> max_mtu = 0
            then chain_loop REL_NEXT_IN_COMP (\<lambda>es. Some \<lparr>d_num_elements = 0, d_elements = es\<rparr>) h max_mtu x [] c
            else None) })"

text \<open>At the end of the rules the elements are dropped: the answer is \<open>NULL\<close>.\<close>

definition get_test_rules :: "nat \<Rightarrow> nat \<Rightarrow> cli \<Rightarrow> (cli_data option \<times> cli) option" where
  "get_test_rules h max_mtu c =
     (case ch_instance (cli_handle_at c h) of
        None \<Rightarrow> Some (None, c)
      | Some i \<Rightarrow> do {
          let c = begin_use h c;
          let type = ch_type (cli_handle_at c h);
          (p, c) \<leftarrow> first_obj h (\<lambda>db. myrefl_obj_get_first_rel db (Some (obj_of i)) REL_RULE) (\<lambda>_ _. TYPE_RULE) c;
          (case p of
             None \<Rightarrow> map_option (Pair None) (end_handle h c)
           | Some x \<Rightarrow>
               if object_type type \<or> max_mtu = 0 then chain_loop REL_NEXT_IN_TEST (\<lambda>es. None) h max_mtu x [] c
               else map_option (Pair None) (end_handle h c)) })"

section \<open>Lists of a rule and dependencies\<close>

text \<open>The loop over the elements of a \<open>myrefl_list_t\<close>. An object that does not validate does not end it.\<close>

fun data_loop ::
  "(oid \<Rightarrow> cli \<Rightarrow> cli) \<Rightarrow> nat \<Rightarrow> nat \<Rightarrow> oid list \<Rightarrow> bool \<Rightarrow> cli_data_element list \<Rightarrow> cli \<Rightarrow>
     (cli_data_element list \<times> bool \<times> cli) option" where
  "data_loop touch h mtu [] clean es c = Some (es, clean, c)"
| "data_loop touch h mtu (x # rest) clean es c =
     (if \<not> length es < mtu then Some (es, clean, c)
      else
        let es = es @ [myrefl_cli_copy_data_element (cli_db c) x]; c = touch x c
        in case rest of
             [] \<Rightarrow> Some (es, True, c)
           | y # _ \<Rightarrow> do {
               (ok, c) \<leftarrow> valid_own (Some y) c;
               if ok then data_loop touch h mtu rest clean es (handle_set_last_obj h (Some y) c)
               else data_loop touch h mtu rest True es c })"

text \<open>The place in the list where the listing resumes; the search runs off the end of the list when the
  object is no longer there.\<close>

definition resume :: "oid list \<Rightarrow> oid option \<Rightarrow> oid list option" where
  "resume xs p =
     (case p of
        None \<Rightarrow> Some xs
      | Some x \<Rightarrow> (case dropWhile (\<lambda>y. y \<noteq> x) xs of [] \<Rightarrow> None | ys \<Rightarrow> Some ys))"

definition finish_data :: "nat \<Rightarrow> cli_data_element list \<times> bool \<times> cli \<Rightarrow> (cli_data option \<times> cli) option" where
  "finish_data h = (\<lambda>(es, clean, c).
     let c = myrefl_cli_local_handle_reset_in_use_flag h c
     in map_option (Pair (Some \<lparr>d_num_elements = length es, d_elements = es\<rparr>))
          (if clean then handle_clean_up h c else Some c))"

definition list_data :: "(oid \<Rightarrow> cli \<Rightarrow> cli) \<Rightarrow> nat \<Rightarrow> nat \<Rightarrow> oid list \<Rightarrow> cli \<Rightarrow> (cli_data option \<times> cli) option" where
  "list_data touch h mtu xs c = do {
     let previous = ch_last_obj (cli_handle_at c h);
     ys \<leftarrow> resume xs previous;
     (ok, c) \<leftarrow> (case previous of
        Some _ \<Rightarrow> Some (True, c)
      | None \<Rightarrow> map_option (\<lambda>(ok, c). (ok, if ok then handle_set_last_obj h (Some (hd ys)) c else c)) (valid_own (Some (hd ys)) c));
     if ok then Option.bind (data_loop touch h mtu ys False [] c) (finish_data h)
     else map_option (Pair None) (end_handle h c) }"

definition get_rule_actions_or_inputs :: "nat \<Rightarrow> nat \<Rightarrow> cli_filter \<Rightarrow> cli \<Rightarrow> (cli_data option \<times> cli) option" where
  "get_rule_actions_or_inputs h max_mtu rule_type c =
     (case ch_instance (cli_handle_at c h) of
        None \<Rightarrow> Some (None, c)
      | Some i \<Rightarrow> do {
          let c = begin_use h c;
          xs \<leftarrow> (if rule_type = CLI_RULE_ACTION then map_option r_action_list (rule_of (cli_db c) (obj_of i))
                 else if rule_type = CLI_RULE_INPUT then map_option r_inputs (rule_of (cli_db c) (obj_of i))
                 else Some []);
          if xs = [] then map_option (Pair None) (end_handle h c)
          else list_data (\<lambda>_ c. c) h max_mtu xs c })"

definition get_parent_depend :: "nat \<Rightarrow> nat \<Rightarrow> cli \<Rightarrow> (cli_data option \<times> cli) option" where
  "get_parent_depend h mtu c =
     (case ch_instance (cli_handle_at c h) of
        None \<Rightarrow> Some (None, c)
      | Some i \<Rightarrow>
          let c = begin_use h c; xs = o_parent_depend (objs (cli_db c) (obj_of i))
          in if xs = [] then map_option (Pair None) (end_handle h c)
             else list_data (\<lambda>_ c. c) h mtu xs c)"

text \<open>Here the use of each child is given back once more, and the flag of the handle is not reset when
  there are no children.\<close>

definition get_child_depend :: "nat \<Rightarrow> nat \<Rightarrow> cli \<Rightarrow> (cli_data option \<times> cli) option" where
  "get_child_depend h mtu c =
     (case ch_instance (cli_handle_at c h) of
        None \<Rightarrow> Some (None, c)
      | Some i \<Rightarrow>
          let c = begin_use h c; xs = o_child_depend (objs (cli_db c) (obj_of i))
          in if xs = [] then map_option (Pair None) (handle_clean_up h c)
             else list_data (\<lambda>x. on_db (upd_inst (base x) (\<lambda>y. y\<lparr>i_in_use := i_in_use y - 1\<rparr>))) h mtu xs c)"

section \<open>The rules a rule triggers\<close>

partial_function (option) output_loop ::
  "nat \<Rightarrow> nat \<Rightarrow> oid \<Rightarrow> cli_data_element list \<Rightarrow> cli \<Rightarrow> (cli_data_element list \<times> bool \<times> cli) option" where
  "output_loop h mtu ob es c =
     (if \<not> length es < mtu then Some (es, False, c)
      else
        Option.bind (valid_obj (Some ob) TYPE_RULE c) (\<lambda>(ok, c).
          if \<not> ok then Some (es, True, c)
          else
            let es = es @ [myrefl_cli_copy_data_element (cli_db c) ob] in
            Option.bind (rule_of (cli_db c) ob) (\<lambda>r.
              case r_next_in_input r of
                None \<Rightarrow> Some (es, True, c)
              | Some next \<Rightarrow> output_loop h mtu next es (handle_set_last_obj h (Some next) c))))"

definition get_rule_output :: "nat \<Rightarrow> nat \<Rightarrow> cli \<Rightarrow> (cli_data option \<times> cli) option" where
  "get_rule_output h max_mtu c =
     (case ch_instance (cli_handle_at c h) of
        None \<Rightarrow> Some (None, c)
      | Some i \<Rightarrow> do {
          let c = begin_use h c;
          output_rule \<leftarrow> (case ch_last_obj (cli_handle_at c h) of
            None \<Rightarrow> map_option r_output (rule_of (cli_db c) (obj_of i))
          | Some x \<Rightarrow> if rule_of (cli_db c) x = None then None else Some (Some x));
          (case output_rule of
             None \<Rightarrow> map_option (Pair None) (end_handle h c)
           | Some ob \<Rightarrow> Option.bind (output_loop h max_mtu ob [] c) (finish_data h)) })"

definition myrefl_cli_local_get_depend_or_trigger_data :: "32 word \<Rightarrow> nat \<Rightarrow> cli \<Rightarrow> (cli_data option \<times> cli) option" where
  "myrefl_cli_local_get_depend_or_trigger_data n mtu c =
     (case myrefl_cli_local_handle_get n c of
        None \<Rightarrow> Some (None, c)
      | Some h \<Rightarrow>
          (case ch_filter (cli_handle_at c h) of
             CLI_TEST_RULE \<Rightarrow> get_test_rules h mtu c
           | CLI_RULE_ACTION \<Rightarrow> get_rule_actions_or_inputs h mtu CLI_RULE_ACTION c
           | CLI_RULE_INPUT \<Rightarrow> get_rule_actions_or_inputs h mtu CLI_RULE_INPUT c
           | CLI_RULE_OUTPUT \<Rightarrow> get_rule_output h mtu c
           | CLI_PARENT_DEPEND \<Rightarrow> get_parent_depend h mtu c
           | CLI_CHILD_DEPEND \<Rightarrow> get_child_depend h mtu c
           | _ \<Rightarrow> Some (None, c)))"

section \<open>Instances that tests and rules have in common\<close>

text \<open>\<open>myrefl_api_make_name\<close> writes into a buffer of 200 characters.\<close>

definition myrefl_obj_instance_name :: "db \<Rightarrow> iref \<Rightarrow> name" where
  "myrefl_obj_instance_name db i =
     (if myrefl_obj_is_member_instance i
      then take 199 (i_name (inst db (base (obj_of i))) @ '':'' @ i_name (inst db i))
      else i_name (inst db i))"

text \<open>The member of that name, or the base instance. A comparison with a null name is \<open>None\<close>.\<close>

definition connected_instance :: "db \<Rightarrow> oid \<Rightarrow> name option \<Rightarrow> iref option" where
  "connected_instance db ob n =
     (if o_members (objs db ob) = [] then Some (base ob)
      else map_option (\<lambda>n. case find_member db ob n of None \<Rightarrow> base ob | Some i \<Rightarrow> i) n)"

definition connected_element :: "db \<Rightarrow> oid \<Rightarrow> iref \<Rightarrow> cli_data_element" where
  "connected_element db ob i =
     (let x = inst db i
      in \<lparr>d_name = myrefl_obj_instance_name db i, d_stats = copy_counts (i_stats x), d_state = obj_state_to_cli (i_state x),
          d_type = obj_type_to_cli (type_of db ob), d_last_result = i_last_result (inst db (base ob)), d_severity = 0\<rparr>)"

text \<open>The rules of a test: the handle moves on to each of them.\<close>

partial_function (option) connected_rules ::
  "name option \<Rightarrow> nat \<Rightarrow> nat \<Rightarrow> oid \<Rightarrow> bool \<Rightarrow> cli_data_element list \<Rightarrow> cli \<Rightarrow>
     (cli_data_element list \<times> bool \<times> cli) option" where
  "connected_rules n h mtu ob clean es c =
     (if \<not> length es < mtu then Some (es, clean, c)
      else
        Option.bind (connected_instance (cli_db c) ob n) (\<lambda>i.
        let es = es @ [connected_element (cli_db c) ob i] in
        Option.bind (myrefl_obj_get_next_rel (cli_db c) (Some ob) REL_NEXT_IN_TEST) (\<lambda>next.
        Option.bind (valid_own next c) (\<lambda>(ok, c).
          if ok then Option.bind (handle_set_instance h (Some (base (the next))) c) (\<lambda>c.
                       connected_rules n h mtu (the next) clean es (handle_set_last_obj h next c))
          else case next of
            None \<Rightarrow> Some (es, True, c)
          | Some ob \<Rightarrow> connected_rules n h mtu ob True es c))))"

text \<open>The inputs of a rule.\<close>

fun connected_inputs ::
  "name option \<Rightarrow> nat \<Rightarrow> nat \<Rightarrow> oid list \<Rightarrow> bool \<Rightarrow> cli_data_element list \<Rightarrow> cli \<Rightarrow>
     (cli_data_element list \<times> bool \<times> cli) option" where
  "connected_inputs n h mtu [] clean es c = Some (es, clean, c)"
| "connected_inputs n h mtu (x # rest) clean es c =
     (if \<not> length es < mtu then Some (es, clean, c)
      else do {
        i \<leftarrow> connected_instance (cli_db c) x n;
        let es = es @ [connected_element (cli_db c) x i];
        (case rest of
           [] \<Rightarrow> Some (es, True, c)
         | y # _ \<Rightarrow> do {
             (ok, c) \<leftarrow> valid_own (Some y) c;
             if ok then connected_inputs n h mtu rest clean es (handle_set_last_obj h (Some y) c)
             else connected_inputs n h mtu rest True es c }) })"

definition connected_of_rule :: "name option \<Rightarrow> nat \<Rightarrow> nat \<Rightarrow> oid list \<Rightarrow> cli \<Rightarrow> (cli_data option \<times> cli) option" where
  "connected_of_rule n h mtu xs c =
     (if xs = [] then map_option (Pair None) (end_handle h c)
      else do {
        ys \<leftarrow> resume xs (ch_last_obj (cli_handle_at c h));
        (p, c) \<leftarrow> first_obj h (\<lambda>db. Some (Some (hd ys))) own_type c;
        if p = None then map_option (Pair None) (end_handle h c)
        else Option.bind (connected_inputs n h mtu ys False [] c) (finish_data h) })"

definition myrefl_cli_local_get_connected_instances_between_objects ::
  "32 word \<Rightarrow> name option \<Rightarrow> nat \<Rightarrow> cli \<Rightarrow> (cli_data option \<times> cli) option" where
  "myrefl_cli_local_get_connected_instances_between_objects n instance_name mtu =
     with_handle n None (\<lambda>h i c. do {
       let c = begin_use h c;
       (case ch_type (cli_handle_at c h) of
          CLI_TEST \<Rightarrow> do {
            (p, c) \<leftarrow> first_obj h (\<lambda>db. myrefl_obj_get_first_rel db (Some (obj_of i)) REL_RULE) own_type c;
            (case p of
               None \<Rightarrow> map_option (Pair None) (end_handle h c)
             | Some x \<Rightarrow> Option.bind (connected_rules instance_name h mtu x False [] c) (finish_data h)) }
        | CLI_RULE \<Rightarrow> do {
            r \<leftarrow> rule_of (cli_db c) (obj_of i);
            connected_of_rule instance_name h mtu (r_inputs r) c }
        | _ \<Rightarrow>
            if ch_last_obj (cli_handle_at c h) = None \<or> mtu = 0 then finish_data h ([], False, c) else None) })"

section \<open>Tables of names\<close>

record cli_obj_name_element =
  n_name :: name
  n_help :: "string option"

record cli_obj_name =
  n_num_elements :: nat
  n_elements :: "cli_obj_name_element list"

definition finish_names :: "nat \<Rightarrow> cli_obj_name_element list \<times> bool \<times> cli \<Rightarrow> (cli_obj_name option \<times> cli) option" where
  "finish_names h = (\<lambda>(es, clean, c).
     let c = myrefl_cli_local_handle_reset_in_use_flag h c
     in map_option (Pair (Some \<lparr>n_num_elements = length es, n_elements = es\<rparr>))
          (if clean then handle_clean_up h c else Some c))"

fun instance_names ::
  "nat \<Rightarrow> obj_type \<Rightarrow> nat \<Rightarrow> iref \<Rightarrow> iref list \<Rightarrow> bool \<Rightarrow> cli_obj_name_element list \<Rightarrow> cli \<Rightarrow>
     (cli_obj_name_element list \<times> bool \<times> cli) option" where
  "instance_names h ty mtu i rest clean es c =
     (if \<not> length es < mtu then Some (es, clean, c)
      else
        let es = es @ [\<lparr>n_name = i_name (inst (cli_db c) i), n_help = None\<rparr>]
        in case rest of
             [] \<Rightarrow> Some (es, True, c)
           | next # rest' \<Rightarrow> do {
               (ok, c) \<leftarrow> valid_instance (Some next) ty c;
               if ok then Option.bind (handle_set_instance h (Some next) c) (instance_names h ty mtu next rest' clean es)
               else instance_names h ty mtu next rest' True es c })"

text \<open>A handle without an instance is left marked as in use.\<close>

definition myrefl_cli_local_get_instance_option_tbl :: "nat \<Rightarrow> nat \<Rightarrow> cli \<Rightarrow> (cli_obj_name option \<times> cli) option" where
  "myrefl_cli_local_get_instance_option_tbl h max_mtu c =
     (case ch_instance (cli_handle_at c h) of
        None \<Rightarrow> Some (None, c)
      | Some i \<Rightarrow>
          let c = begin_use h c; type = myrefl_cli_instance_type_to_type (ch_type (cli_handle_at c h))
          in if type = CLI_UNKNOWN then Some (None, myrefl_cli_local_handle_reset_in_use_flag h c)
             else Option.bind
               (instance_names h (cli_to_obj_type type) max_mtu i (next_members (cli_db c) i) False [] c) (finish_names h))"

text \<open>The name of a remote component with a slash, in a buffer of \<open>MYREFL_MAX_NAME_LEN\<close> characters;
  writing past its end is \<open>None\<close>.\<close>

definition remote_element :: "name \<Rightarrow> cli_obj_name_element option" where
  "remote_element n =
     Option.bind (sstrncpy n MYREFL_MAX_NAME_LEN) (\<lambda>s.
       let path = s @ ''/''
       in if length path < MYREFL_MAX_NAME_LEN then Some \<lparr>n_name = path, n_help = Some ''Remote Location''\<rparr> else None)"

definition name_element :: "obj_rel \<Rightarrow> db \<Rightarrow> oid \<Rightarrow> cli_obj_name_element option" where
  "name_element rel db ob =
     (let n = i_name (inst db (base ob))
      in if rel = REL_COMP \<and> o_remote_location (objs db ob) then remote_element n
         else Some \<lparr>n_name = n, n_help = None\<rparr>)"

partial_function (option) names_loop ::
  "nat \<Rightarrow> nat \<Rightarrow> oid option \<Rightarrow> cli_obj_name_element list \<Rightarrow> cli \<Rightarrow> (cli_obj_name_element list \<times> bool \<times> cli) option" where
  "names_loop h mtu p es c =
     (case p of
        None \<Rightarrow> Some (es, False, c)
      | Some ob \<Rightarrow>
          if \<not> length es < mtu then Some (es, False, c)
          else
            let type = ch_type (cli_handle_at c h); rel = cli_to_rel_type type in
            Option.bind (name_element rel (cli_db c) ob) (\<lambda>e.
            let es = es @ [e] in
            if \<not> object_type type then Some (es, True, c)
            else
              Option.bind (myrefl_obj_get_next_rel (cli_db c) (Some ob) rel) (\<lambda>next.
              Option.bind (valid_obj next (cli_to_obj_type type) c) (\<lambda>(ok, c).
              Option.bind (handle_set_instance h (if ok then map_option base next else None) c) (\<lambda>c.
                names_loop h mtu next es c)))))"

partial_function (option) remote_loop ::
  "nat \<Rightarrow> nat \<Rightarrow> oid option \<Rightarrow> bool \<Rightarrow> cli_obj_name_element list \<Rightarrow> cli \<Rightarrow>
     (cli_obj_name_element list \<times> bool \<times> cli) option" where
  "remote_loop h mtu p clean es c =
     (case p of
        None \<Rightarrow> Some (es, clean, c)
      | Some ob \<Rightarrow>
          if \<not> length es < mtu then Some (es, clean, c)
          else
            Option.bind
              (if o_remote_location (objs (cli_db c) ob)
               then map_option (\<lambda>e. es @ [e]) (remote_element (i_name (inst (cli_db c) (base ob)))) else Some es) (\<lambda>es.
            Option.bind (myrefl_obj_get_next_rel (cli_db c) (Some ob) REL_NEXT_IN_SYS) (\<lambda>next.
            Option.bind (valid_obj next TYPE_COMP c) (\<lambda>(ok, c).
              if ok then Option.bind (handle_set_last_remote_obj h next c) (\<lambda>c. remote_loop h mtu next False es c)
              else remote_loop h mtu next True es c))))"

definition myrefl_cli_local_get_option_tbl :: "32 word \<Rightarrow> nat \<Rightarrow> cli \<Rightarrow> (cli_obj_name option \<times> cli) option" where
  "myrefl_cli_local_get_option_tbl n max_mtu c =
     (case myrefl_cli_local_handle_get n c of
        None \<Rightarrow> Some (None, c)
      | Some h \<Rightarrow>
          let c = begin_use h c
          in if instance_type (ch_type (cli_handle_at c h)) then myrefl_cli_local_get_instance_option_tbl h max_mtu c
             else do {
               (es, clean, c) \<leftarrow> names_loop h max_mtu (map_option obj_of (ch_instance (cli_handle_at c h))) [] c;
               (es, clean, c) \<leftarrow>
                 (if cli_to_rel_type (ch_type (cli_handle_at c h)) \<noteq> REL_COMP \<and> length es < max_mtu
                  then remote_loop h max_mtu (ch_last_remote_obj (cli_handle_at c h)) clean es c
                  else Some (es, clean, c));
               finish_names h (es, clean, c) })"

section \<open>Remote components\<close>

text \<open>\<open>strtok\<close>: the first token between slashes, in a copy on the stack.\<close>

definition location_name :: "name \<Rightarrow> name option" where
  "location_name n = do {
     s \<leftarrow> sstrncpy n MYREFL_MAX_NAME_LEN;
     let token = takeWhile (\<lambda>c. c \<noteq> CHR ''/'') (dropWhile (\<lambda>c. c = CHR ''/'') s);
     sstrncpy (if token = [] then n else token) MYREFL_MAX_NAME_LEN }"

definition myrefl_cli_local_is_obj_remote :: "name option \<Rightarrow> db \<Rightarrow> bool option" where
  "myrefl_cli_local_is_obj_remote n db =
     (if badstr n then Some False
      else do {
        location \<leftarrow> location_name (the n);
        p \<leftarrow> myrefl_obj_get_by_name_unconverted db location TYPE_COMP;
        Some (case p of None \<Rightarrow> False | Some ob \<Rightarrow> o_remote_location (objs db ob)) })"

end
