(* ===== verification/CliCmd.thy ===== *)
theory CliCmd
  imports CliList
begin

text \<open>
  The commands of the command line interface that change the database
  (\<^verbatim>\<open>src/src/myrefl_cli_local.c\<close>): running a test, configuring rules and tests, enabling and disabling,
  and the internal test command, which creates, notifies and deletes objects.
\<close>

section \<open>Running a test\<close>

text \<open>\<open>retval\<close> is the initial value of the variable for the test's value, which the code does not set.\<close>

definition myrefl_cli_local_test_run ::
  "client \<Rightarrow> int \<Rightarrow> name option \<Rightarrow> name option \<Rightarrow> cli_type \<Rightarrow> cli_filter \<Rightarrow> db \<Rightarrow> db option" where
  "myrefl_cli_local_test_run cl retval test_name instance_name type flt db = do {
     n \<leftarrow> test_name;
     p \<leftarrow> myrefl_obj_get_by_name_unconverted db n (cli_to_obj_type type);
     (ok, db) \<leftarrow> myrefl_obj_validate p (cli_to_obj_type type) db;
     if \<not> ok then Some db
     else do {
       (i, db) \<leftarrow> myrefl_obj_instance_by_name p instance_name db;
       (case i of
          None \<Rightarrow> Some db
        | Some i \<Rightarrow> do {
            (ok, db) \<leftarrow> myrefl_obj_instance_validate i (cli_to_obj_type type) db;
            if \<not> ok then Some db
            else if flt = CLI_RUN_NO_RULES then map_option (\<lambda>(_, _, db). db) (myrefl_seq_test_run cl i retval db)
            else Some (myrefl_seq_from_test i db) }) } }"

section \<open>Configuration\<close>

definition config_rule :: "bool \<Rightarrow> operator \<Rightarrow> int \<Rightarrow> int \<Rightarrow> obj_rule \<Rightarrow> obj_rule" where
  "config_rule setdefault op op_n op_m r =
     (if setdefault
      then r\<lparr>r_operator := r_default_operator r, r_op_n := r_default_op_n r, r_op_m := r_default_op_m r\<rparr>
      else r\<lparr>r_operator := op, r_op_n := op_n, r_op_m := op_m\<rparr>)"

definition myrefl_cli_local_config_rule_param ::
  "name option \<Rightarrow> bool \<Rightarrow> operator \<Rightarrow> int \<Rightarrow> int \<Rightarrow> db \<Rightarrow> db option" where
  "myrefl_cli_local_config_rule_param rule_name setdefault op op_n op_m db = do {
     n \<leftarrow> rule_name;
     (p, db) \<leftarrow> myrefl_api_get_or_create n TYPE_RULE db;
     (ok, db) \<leftarrow> myrefl_obj_validate p TYPE_RULE db;
     Some (if ok then set_rule (the p) (config_rule setdefault op op_n op_m) db else db) }"

text \<open>The instances are taken off the schedule, the period changes, and they are put back.\<close>

definition config_period :: "bool \<Rightarrow> 64 word \<Rightarrow> obj_test \<Rightarrow> obj_test" where
  "config_period setdefault period t = t\<lparr>t_period := (if setdefault then t_default_period t else period)\<rparr>"

definition reschedule :: "(obj_test \<Rightarrow> obj_test) \<Rightarrow> oid \<Rightarrow> db \<Rightarrow> db option" where
  "reschedule f ob db =
     (let db = fold myrefl_sched_remove_test (all_instances db ob) db;
          db = set_test ob f db
      in foldM (\<lambda>i. myrefl_sched_add_test i False) (all_instances db ob) db)"

definition myrefl_cli_local_config_test_param :: "name option \<Rightarrow> bool \<Rightarrow> 32 word \<Rightarrow> db \<Rightarrow> db option" where
  "myrefl_cli_local_config_test_param test_name setdefault period db = do {
     n \<leftarrow> test_name;
     (p, db) \<leftarrow> myrefl_api_get_or_create n TYPE_TEST db;
     (ok, db) \<leftarrow> myrefl_obj_validate p TYPE_TEST db;
     if ok then reschedule (config_period setdefault (ucast period)) (the p) db else Some db }"

section \<open>Enabling and disabling\<close>

definition myrefl_cli_local_enable_disable_test :: "name option \<Rightarrow> cli_state \<Rightarrow> name option \<Rightarrow> db \<Rightarrow> db option" where
  "myrefl_cli_local_enable_disable_test test_name state instance_name db =
     (case state of
        CLI_STATE_ENABLED \<Rightarrow> myrefl_api_test_enable_guts test_name instance_name True db
      | CLI_STATE_DISABLED \<Rightarrow> myrefl_api_test_disable_guts test_name instance_name True db
      | CLI_STATE_INITIALIZED \<Rightarrow> myrefl_api_test_default test_name instance_name db
      | _ \<Rightarrow> Some db)"

definition myrefl_cli_local_enable_disable_action :: "name option \<Rightarrow> cli_state \<Rightarrow> name option \<Rightarrow> db \<Rightarrow> db option" where
  "myrefl_cli_local_enable_disable_action action_name state instance_name db =
     (case state of
        CLI_STATE_ENABLED \<Rightarrow> myrefl_api_action_enable_guts action_name instance_name True db
      | CLI_STATE_DISABLED \<Rightarrow> myrefl_api_action_disable_guts action_name instance_name True db
      | CLI_STATE_INITIALIZED \<Rightarrow> myrefl_api_action_default action_name instance_name db
      | _ \<Rightarrow> Some db)"

definition myrefl_cli_local_enable_disable_comp :: "name option \<Rightarrow> cli_state \<Rightarrow> db \<Rightarrow> db option" where
  "myrefl_cli_local_enable_disable_comp comp_name state db =
     (case state of
        CLI_STATE_ENABLED \<Rightarrow> myrefl_api_comp_enable_guts comp_name True db
      | CLI_STATE_DISABLED \<Rightarrow> myrefl_api_comp_disable_guts comp_name True db
      | CLI_STATE_INITIALIZED \<Rightarrow> myrefl_api_comp_default comp_name db
      | _ \<Rightarrow> Some db)"

definition myrefl_cli_local_enable_disable_rule :: "name option \<Rightarrow> cli_state \<Rightarrow> name option \<Rightarrow> db \<Rightarrow> db option" where
  "myrefl_cli_local_enable_disable_rule rule_name state instance_name db =
     (case state of
        CLI_STATE_ENABLED \<Rightarrow> myrefl_api_rule_enable_guts rule_name instance_name True db
      | CLI_STATE_DISABLED \<Rightarrow> myrefl_api_rule_disable_guts rule_name instance_name True db
      | CLI_STATE_INITIALIZED \<Rightarrow> myrefl_api_rule_default rule_name instance_name db
      | _ \<Rightarrow> Some db)"

section \<open>The functions of test objects\<close>

definition fn_action_fn :: nat where "fn_action_fn = 8"
definition fn_test_fn :: nat where "fn_test_fn = 9"

definition action_fn :: "name option \<Rightarrow> result" where
  "action_fn instance_name = RESULT_PASS"

text \<open>A context that no test command has allocated is a pointer of another type.\<close>

definition test_fn :: "name option \<Rightarrow> nat \<Rightarrow> cli \<Rightarrow> (result \<times> cli) option" where
  "test_fn instance_name ctx c =
     (if ctx = 0 then Some (RESULT_FAIL, c)
      else case polled_contexts c ctx of
        None \<Rightarrow> None
      | Some x \<Rightarrow> Some (p_result x, c\<lparr>polled_contexts := (polled_contexts c)(ctx \<mapsto> x\<lparr>p_counter := p_counter x + 1\<rparr>)\<rparr>))"

definition myrefl_cli_local_update_polled_test_context :: "name option \<Rightarrow> result \<Rightarrow> int \<Rightarrow> cli \<Rightarrow> cli option" where
  "myrefl_cli_local_update_polled_test_context test_name result v c = do {
     ctx \<leftarrow> myrefl_api_test_get_context test_name (cli_db c);
     if ctx = 0 then Some c
     else do {
       x \<leftarrow> polled_contexts c ctx;
       Some (c\<lparr>polled_contexts := (polled_contexts c)(ctx \<mapsto> x\<lparr>p_result := result, p_value := v\<rparr>)\<rparr>) } }"

definition new_context :: "cli \<Rightarrow> nat \<times> cli" where
  "new_context c =
     (next_context c, c\<lparr>next_context := Suc (next_context c),
        polled_contexts := (polled_contexts c)(next_context c \<mapsto> \<lparr>p_counter = 0, p_result = RESULT_INVALID, p_value = 0\<rparr>)\<rparr>)"

section \<open>Flags and deletion\<close>

definition OBJ_FLAG_CONFIGURED :: "32 word" where "OBJ_FLAG_CONFIGURED = 0x00020000"
definition OBJ_FLAG_TEST_CREATED :: "32 word" where "OBJ_FLAG_TEST_CREATED = 0x00080000"

definition myrefl_cli_local_delete_created_obj :: "name option \<Rightarrow> name option \<Rightarrow> db \<Rightarrow> db option" where
  "myrefl_cli_local_delete_created_obj obj_name instance_name db =
     (if badstr obj_name then Some db
      else do {
        p \<leftarrow> myrefl_obj_get_by_name_unconverted db (the obj_name) TYPE_ANY;
        (case p of
           None \<Rightarrow> Some db
         | Some ob \<Rightarrow>
             if and (i_flags (inst db (base ob))) OBJ_FLAG_TEST_CREATED = 0 then Some db
             else if \<not> badstr instance_name then myrefl_instance_delete obj_name instance_name db
             else case type_of db ob of
               TYPE_TEST \<Rightarrow> myrefl_test_delete obj_name db
             | TYPE_RULE \<Rightarrow> myrefl_rule_delete obj_name db
             | TYPE_ACTION \<Rightarrow> myrefl_action_delete obj_name db
             | TYPE_COMP \<Rightarrow> myrefl_comp_delete obj_name db
             | _ \<Rightarrow> Some db) })"

definition myrefl_cli_local_set_obj_flag :: "name option \<Rightarrow> obj_type \<Rightarrow> 32 word \<Rightarrow> db \<Rightarrow> db option" where
  "myrefl_cli_local_set_obj_flag obj_name type flag db =
     (if badstr obj_name then Some db
      else if flag \<noteq> OBJ_FLAG_BUILT_IN \<and> flag \<noteq> OBJ_FLAG_CONFIGURED \<and> flag \<noteq> OBJ_FLAG_SILENT \<and>
        flag \<noteq> OBJ_FLAG_NOTIFY \<and> flag \<noteq> OBJ_FLAG_TEST_CREATED \<and> flag \<noteq> OBJ_FLAG_RESERVED then Some db
      else map_option (\<lambda>p. case p of
          None \<Rightarrow> db
        | Some ob \<Rightarrow> upd_inst (base ob) (\<lambda>x. x\<lparr>i_flags := or (i_flags x) flag\<rparr>) db)
        (myrefl_obj_get_by_name_unconverted db (the obj_name) type))"

section \<open>The internal test command\<close>

datatype test_cmd = EXEC_DEPEND_CREATE | EXEC_RULE_CREATE | EXEC_ACTION_CREATE | EXEC_COMP_CREATE
  | EXEC_TEST_NOTIFY_CREATE | EXEC_TEST_POLL_CREATE | EXEC_INSTANCE_CREATE | EXEC_COMP_CONTAINS
  | EXEC_PERIOD_NORMAL | EXEC_PERIOD_FAST | EXEC_PERIOD_SLOW | EXEC_TEST_NOTIFY_FAIL | EXEC_TEST_NOTIFY_PASS
  | EXEC_TEST_POLLED_FAIL | EXEC_TEST_POLLED_PASS | EXEC_TEST_POLLED_ABORT | EXEC_TEST_POLLED_VALUE | EXEC_DELETE

definition cmd_period_ms :: "test_cmd \<Rightarrow> 32 word \<Rightarrow> 32 word" where
  "cmd_period_ms cmd_period v =
     (if cmd_period = EXEC_PERIOD_NORMAL then ucast MYREFL_PERIOD_NORMAL
      else if cmd_period = EXEC_PERIOD_FAST then ucast MYREFL_PERIOD_FAST
      else if cmd_period = EXEC_PERIOD_SLOW then ucast MYREFL_PERIOD_SLOW
      else v)"

definition flag_created :: "name option \<Rightarrow> obj_type \<Rightarrow> db \<Rightarrow> db option" where
  "flag_created n type = myrefl_cli_local_set_obj_flag n type OBJ_FLAG_TEST_CREATED"

definition null_if_empty :: "name option \<Rightarrow> name option" where
  "null_if_empty n = (if badstr n then None else n)"

definition test_command_create :: "test_cmd \<Rightarrow> name option \<Rightarrow> name option \<Rightarrow> name option \<Rightarrow> db \<Rightarrow> db option" where
  "test_command_create cmd n1 n2 n3 db =
     (if cmd = EXEC_DEPEND_CREATE then myrefl_depend_create n1 n2 db
      else if cmd = EXEC_RULE_CREATE then do {
        db \<leftarrow> myrefl_rule_create n1 n2 n3 db;
        db \<leftarrow> myrefl_rule_enable n1 None db;
        flag_created n1 TYPE_RULE db }
      else if cmd = EXEC_ACTION_CREATE then do {
        db \<leftarrow> myrefl_action_create n1 (Some fn_action_fn) 0 db;
        db \<leftarrow> myrefl_action_enable n1 None db;
        flag_created n1 TYPE_ACTION db }
      else if cmd = EXEC_COMP_CREATE then do {
        db \<leftarrow> myrefl_comp_create n1 db;
        db \<leftarrow> myrefl_comp_enable n1 db;
        flag_created n1 TYPE_COMP db }
      else if cmd = EXEC_TEST_NOTIFY_CREATE then do {
        db \<leftarrow> myrefl_test_create_notification n1 db;
        db \<leftarrow> myrefl_test_enable n1 None db;
        flag_created n1 TYPE_TEST db }
      else if cmd = EXEC_COMP_CONTAINS then myrefl_comp_contains n1 n2 db
      else Some db)"

definition myrefl_cli_local_test_command_internal ::
  "test_cmd \<Rightarrow> test_cmd \<Rightarrow> 32 word \<Rightarrow> name option \<Rightarrow> name option \<Rightarrow> name option \<Rightarrow> cli \<Rightarrow> cli option" where
  "myrefl_cli_local_test_command_internal cmd cmd_period v n1 n2 n3 c =
     (if cmd = EXEC_TEST_POLL_CREATE then do {
        let (ctx, c) = new_context c;
        run_db (\<lambda>db. do {
          db \<leftarrow> myrefl_test_create_polled n1 (Some fn_test_fn) ctx (cmd_period_ms cmd_period v) db;
          db \<leftarrow> myrefl_test_enable n1 None db;
          flag_created n1 TYPE_TEST db }) c }
      else if cmd = EXEC_INSTANCE_CREATE then
        (let (ctx, c) = new_context c in run_db (myrefl_instance_create n1 n2 ctx) c)
      else if cmd = EXEC_TEST_NOTIFY_FAIL then run_db (myrefl_test_notify n1 (null_if_empty n2) RESULT_FAIL (uint v)) c
      else if cmd = EXEC_TEST_NOTIFY_PASS then run_db (myrefl_test_notify n1 (null_if_empty n2) RESULT_PASS (uint v)) c
      else if cmd = EXEC_TEST_POLLED_FAIL then myrefl_cli_local_update_polled_test_context n1 RESULT_FAIL (uint v) c
      else if cmd = EXEC_TEST_POLLED_PASS then myrefl_cli_local_update_polled_test_context n1 RESULT_PASS (uint v) c
      else if cmd = EXEC_TEST_POLLED_ABORT then myrefl_cli_local_update_polled_test_context n1 RESULT_ABORT (uint v) c
      else if cmd = EXEC_TEST_POLLED_VALUE then myrefl_cli_local_update_polled_test_context n1 RESULT_VALUE (uint v) c
      else if cmd = EXEC_DELETE then run_db (myrefl_cli_local_delete_created_obj n1 n2) c
      else run_db (test_command_create cmd n1 n2 n3) c)"

end
