(* ===== verification/Pager.thy ===== *)
theory Pager
  imports Prelude
begin

text \<open>
  The contract of a listing that a shell reads page by page, and of a ring that remembers the last
  records. The locales are interpreted on the handles of the command line interface and on the
  statistics of an instance.
\<close>

section \<open>Pages\<close>

text \<open>The first \<open>n\<close> objects of a list that are shown, and the list that remains to be looked at.\<close>

fun chunk :: "nat \<Rightarrow> ('a \<Rightarrow> bool) \<Rightarrow> 'a list \<Rightarrow> 'a list \<times> 'a list" where
  "chunk n p [] = ([], [])"
| "chunk 0 p (x # xs) = ([], x # xs)"
| "chunk (Suc n) p (x # xs) = (if p x then apfst (Cons x) (chunk n p xs) else chunk (Suc n) p xs)"

lemma chunk_filter: "fst (chunk n p xs) @ filter p (snd (chunk n p xs)) = filter p xs"
  by (induction n p xs rule: chunk.induct) (auto simp: apfst_def map_prod_def split: prod.splits)

lemma chunk_shrinks: "0 < n \<Longrightarrow> xs \<noteq> [] \<Longrightarrow> length (snd (chunk n p xs)) < length xs"
proof (induction n p xs rule: chunk.induct)
  case (3 n p x xs)
  have "length (snd (chunk m p ys)) \<le> length ys" for m and ys :: "'a list"
    by (induction m p ys rule: chunk.induct) auto
  then show ?case by (auto simp: less_Suc_eq_le)
qed auto

lemma chunk_length: "length (fst (chunk n p xs)) \<le> n"
  by (induction n p xs rule: chunk.induct) auto

lemma chunk_full: "snd (chunk n p xs) \<noteq> [] \<Longrightarrow> length (fst (chunk n p xs)) = n"
  by (induction n p xs rule: chunk.induct) (auto split: if_splits)

text \<open>A reader asks for pages until there is none.\<close>

partial_function (option) read_pages :: "('s \<Rightarrow> ('b list option \<times> 's) option) \<Rightarrow> 's \<Rightarrow> ('b list \<times> 's) option" where
  "read_pages page s =
     Option.bind (page s) (\<lambda>(p, s).
       case p of None \<Rightarrow> Some ([], s)
       | Some es \<Rightarrow> Option.bind (read_pages page s) (\<lambda>(fs, s). Some (es @ fs, s)))"

text \<open>\<open>at xs s\<close>: the objects \<open>xs\<close> are still to come.\<close>

locale pager =
  fixes page :: "nat \<Rightarrow> 's \<Rightarrow> ('b list option \<times> 's) option" and at :: "'a list \<Rightarrow> 's \<Rightarrow> bool"
    and shown :: "'a \<Rightarrow> bool" and view :: "'a \<Rightarrow> 'b"
  assumes page_law: "at xs s \<Longrightarrow> xs \<noteq> [] \<Longrightarrow>
      \<exists>s'. page n s = Some (Some (map view (fst (chunk n shown xs))), s') \<and> at (snd (chunk n shown xs)) s'"
    and closed_law: "at [] s \<Longrightarrow> page n s = Some (None, s)"
begin

text \<open>Pages of any size show the same objects, each once and in order.\<close>

lemma pages_show_all:
  assumes "0 < n" and "at xs s"
  shows "\<exists>s'. read_pages (page n) s = Some (map view (filter shown xs), s') \<and> at [] s'"
  using assms(2)
proof (induction xs arbitrary: s rule: length_induct)
  case (1 xs)
  show ?case
  proof (cases "xs = []")
    case True
    then have "read_pages (page n) s = Some ([], s)"
      using closed_law 1(2) by (subst read_pages.simps) simp
    then show ?thesis using 1(2) True by simp
  next
    case False
    obtain t where t: "page n s = Some (Some (map view (fst (chunk n shown xs))), t)" "at (snd (chunk n shown xs)) t"
      using page_law [OF 1(2) False] by blast
    obtain u where u: "read_pages (page n) t = Some (map view (filter shown (snd (chunk n shown xs))), u)" "at [] u"
      using 1(1) chunk_shrinks [OF assms(1) False] t(2) by blast
    have "read_pages (page n) s = Some (map view (filter shown xs), u)"
      using t(1) u(1) by (subst read_pages.simps) (simp add: map_append [symmetric] chunk_filter del: map_append)
    then show ?thesis using u(2) by blast
  qed
qed

end

section \<open>The last records\<close>

text \<open>The last \<open>n\<close> elements of a list.\<close>

definition last_of :: "nat \<Rightarrow> 'a list \<Rightarrow> 'a list" where
  "last_of n xs = drop (length xs - n) xs"

text \<open>A ring of \<open>n\<close> records: a new record drives out the oldest one.\<close>

locale ring =
  fixes good :: "'s \<Rightarrow> bool" and window :: "'s \<Rightarrow> 'b list" and record_in :: "'a \<Rightarrow> 's \<Rightarrow> 's" and view :: "'a \<Rightarrow> 'b"
    and n :: nat
  assumes record_good: "good s \<Longrightarrow> good (record_in x s)"
    and record_window: "good s \<Longrightarrow> window (record_in x s) = tl (window s) @ [view x]"
    and window_length: "good s \<Longrightarrow> length (window s) = n" and some_room: "0 < n"
begin

lemma records_window:
  "good s \<Longrightarrow> good (fold record_in xs s) \<and> window (fold record_in xs s) = last_of n (window s @ map view xs)"
proof (induction xs arbitrary: s)
  case Nil
  then show ?case by (simp add: last_of_def window_length)
next
  case (Cons x xs)
  from Cons.prems obtain y ys where w: "window s = y # ys"
    using window_length [of s] some_room by (cases "window s") auto
  then have "n = Suc (length ys)" using window_length [OF Cons.prems] by simp
  then show ?case
    using Cons.IH [OF record_good [OF Cons.prems, of x]] record_window [OF Cons.prems, of x] w
    by (simp add: last_of_def Suc_diff_le)
qed

end

end
