(* ===== verification/CliFacts.thy ===== *)
theory CliFacts
  imports CliCmd ApiFacts SchedInit Pager
begin

text \<open>
  Lemmas for the handles of the command line interface: what a handle holds, how it moves over a
  listing, and the pages a listing comes in.
\<close>

section \<open>Uses\<close>

text \<open>The database in which the listed instances are used once more, as often as they are listed.\<close>

definition held :: "iref list \<Rightarrow> db \<Rightarrow> db" where
  "held is s = s\<lparr>insts := \<lambda>i. (insts s i)\<lparr>i_in_use := i_in_use (insts s i) + of_nat (count_list is i)\<rparr>\<rparr>"

text \<open>No counter of uses is within \<open>n\<close> of its limit.\<close>

definition uses_below :: "nat \<Rightarrow> db \<Rightarrow> bool" where
  "uses_below n s \<longleftrightarrow> (\<forall>i. unat (i_in_use (insts s i)) + n < 2 ^ 32)"

lemma unat_add_of_nat_32: "unat (w :: 32 word) + n < 2 ^ 32 \<Longrightarrow> unat (w + of_nat n) = unat w + n"
  by (simp add: unat_word_ariths unat_of_nat)

lemma held_Nil [simp]: "held [] s = s"
  by (simp add: held_def)

lemma runtime_held [simp]: "runtime s (held is s)"
  by (simp add: runtime_def held_def inst_def inst_id_def)

lemma held_reads [simp]:
  "objs (held is s) = objs s" "healths (held is s) = healths s" "type_of (held is s) = type_of s"
  "ticks (held is s) = ticks s" "clock (held is s) = clock s" "system_comp (held is s) = system_comp s"
  by (auto simp: held_def type_of_def fun_eq_iff)

lemma held_linked [simp]: "linked (held is s) = linked s"
  by (rule runtime_linked) simp

lemma held_valid [simp]: "obj_valid (held is s) = obj_valid s" "inst_valid (held is s) = inst_valid s"
  by (rule runtime_obj_valid runtime_inst_valid; simp)+

lemma held_more: "upd_inst i (\<lambda>x. x\<lparr>i_in_use := i_in_use x + 1\<rparr>) (held is s) = held (i # is) s"
  by (simp add: held_def upd_inst_def fun_eq_iff add.commute add.left_commute)

lemma held_less:
  assumes "uses_below (Suc (length is)) s"
  shows "upd_inst i (\<lambda>x. if i_in_use x \<noteq> 0 then x\<lparr>i_in_use := i_in_use x - 1\<rparr> else x) (held (i # is) s) = held is s"
proof -
  let ?u = "i_in_use (insts s i)"
  have "unat (?u + of_nat (Suc (count_list is i))) = unat ?u + Suc (count_list is i)"
    using assms count_le_length [of "is" i]
    by (intro unat_add_of_nat_32) (auto simp: uses_below_def dest!: spec [of _ i])
  then have "?u + of_nat (Suc (count_list is i)) \<noteq> 0" by (metis add_Suc_right nat.distinct(1) unat_0)
  then show ?thesis
    by (auto simp: held_def upd_inst_def fun_eq_iff algebra_simps)
qed

lemma held_upd_ticks: "(held is s)\<lparr>ticks := n\<rparr> = held is (s\<lparr>ticks := n\<rparr>)"
  by (simp add: held_def)

lemma uses_below_ticks [simp]: "uses_below n (s\<lparr>ticks := k\<rparr>) = uses_below n s"
  by (simp add: uses_below_def)

lemma uses_below_mono: "uses_below n s \<Longrightarrow> m \<le> n \<Longrightarrow> uses_below m s"
  unfolding uses_below_def by (meson add_le_cancel_left order_le_less_trans)

section \<open>Validation on a linked database\<close>

lemma valid_obj_linked: "linked (cli_db c) \<Longrightarrow> valid_obj p ty c = Some (obj_valid (cli_db c) p ty, c)"
  by (simp add: valid_obj_def validate_linked)

lemma valid_instance_linked:
  "linked (cli_db c) \<Longrightarrow>
     valid_instance p ty c = Some (case p of None \<Rightarrow> False | Some i \<Rightarrow> inst_valid (cli_db c) i ty, c)"
  by (simp add: valid_instance_def instance_validate_linked split: option.split)

lemma obj_valid_None [simp]: "\<not> obj_valid s None ty"
  by (simp add: obj_valid_def)

lemma inst_valid_base [simp]: "inst_valid s (base x) ty = obj_valid s (Some x) ty"
  by (auto simp: inst_valid_def obj_valid_def base_def)

lemma obj_valid_any: "obj_valid s p ty \<Longrightarrow> obj_valid s p TYPE_ANY"
  by (auto simp: obj_valid_def split: option.splits)

lemma when_valid_simps [simp]: "when_valid (Some (b, c)) f = Some (if b then f c else c)"
  by (simp add: when_valid_def)

section \<open>What a handle holds\<close>

definition bases :: "oid option \<Rightarrow> iref list" where
  "bases p = (case p of None \<Rightarrow> [] | Some x \<Rightarrow> [base x])"

lemma bases_simps [simp]: "bases None = []" "bases (Some x) = [base x]"
  by (simp_all add: bases_def)

lemma length_bases: "length (bases p) \<le> 1"
  by (simp add: bases_def split: option.split)

text \<open>The handle is at an instance and remembers objects; the database counts the uses.\<close>

definition at_obj :: "nat \<Rightarrow> iref option \<Rightarrow> oid option \<Rightarrow> oid option \<Rightarrow> db \<Rightarrow> cli \<Rightarrow> bool" where
  "at_obj h i lo r s c \<longleftrightarrow>
     ch_instance (cli_handle_at c h) = i \<and> ch_last_obj (cli_handle_at c h) = lo \<and>
     ch_remote_comp (cli_handle_at c h) = None \<and> ch_last_remote_obj (cli_handle_at c h) = r \<and>
     cli_db c = held ((case i of None \<Rightarrow> [] | Some j \<Rightarrow> [j]) @ bases lo @ bases r) s"

definition any_valid :: "db \<Rightarrow> iref option \<Rightarrow> oid option \<Rightarrow> oid option \<Rightarrow> bool" where
  "any_valid s i lo r \<longleftrightarrow> (\<forall>j. i = Some j \<longrightarrow> inst_valid s j TYPE_ANY) \<and>
     (\<forall>x. r = Some x \<longrightarrow> obj_valid s (Some x) TYPE_ANY)"

text \<open>Only the handle and the database change.\<close>

definition same_but :: "nat \<Rightarrow> cli \<Rightarrow> cli \<Rightarrow> bool" where
  "same_but h c c' \<longleftrightarrow> handles_in_use c' = handles_in_use c \<and> next_pointer c' = next_pointer c \<and>
     next_handle_id c' = next_handle_id c \<and> polled_contexts c' = polled_contexts c \<and>
     next_context c' = next_context c \<and> (\<forall>k. k \<noteq> h \<longrightarrow> cli_handle_at c' k = cli_handle_at c k) \<and>
     ch_id (cli_handle_at c' h) = ch_id (cli_handle_at c h) \<and> ch_type (cli_handle_at c' h) = ch_type (cli_handle_at c h) \<and>
     ch_filter (cli_handle_at c' h) = ch_filter (cli_handle_at c h)"

lemma same_but_refl [simp]: "same_but h c c"
  by (simp add: same_but_def)

lemma same_but_trans [trans]: "same_but h a b \<Longrightarrow> same_but h b c \<Longrightarrow> same_but h a c"
  by (simp add: same_but_def)

definition same_flag :: "nat \<Rightarrow> cli \<Rightarrow> cli \<Rightarrow> bool" where
  "same_flag h c c' \<longleftrightarrow> same_but h c c' \<and> ch_in_use (cli_handle_at c' h) = ch_in_use (cli_handle_at c h)"

lemma same_flag_refl [simp]: "same_flag h c c"
  by (simp add: same_flag_def)

lemma same_flag_trans [trans]: "same_flag h a b \<Longrightarrow> same_flag h b c \<Longrightarrow> same_flag h a c"
  using same_but_trans by (simp add: same_flag_def) blast

text \<open>As before, without the handle.\<close>

definition closed :: "nat \<Rightarrow> db \<Rightarrow> cli \<Rightarrow> cli \<Rightarrow> bool" where
  "closed h s c c' \<longleftrightarrow> cli_db c' = s \<and> handles_in_use c' = map_option (remove1 h) (handles_in_use c) \<and>
     next_pointer c' = next_pointer c \<and> next_handle_id c' = next_handle_id c \<and> polled_contexts c' = polled_contexts c \<and>
     next_context c' = next_context c \<and> (\<forall>k. k \<noteq> h \<longrightarrow> cli_handle_at c' k = cli_handle_at c k)"

lemma closed_same_but: "same_but h a b \<Longrightarrow> closed h s b c \<Longrightarrow> closed h s a c"
  by (simp add: same_but_def closed_def)

lemma held_swap: "held (xs @ i # ys) s = held (i # xs @ ys) s"
  by (simp add: held_def fun_eq_iff)

text \<open>One use less of the instance a handle is at, one more of the next.\<close>

lemma move_instance:
  assumes "at_obj h i lo r s c" and "linked s" and "uses_below 4 s" and "any_valid s i lo r"
    and "\<And>j. i' = Some j \<Longrightarrow> inst_valid s j TYPE_ANY"
  shows "\<exists>c'. handle_set_instance h i' c = Some c' \<and> at_obj h i' lo r s c' \<and> same_flag h c c'"
proof -
  define rest where "rest = bases lo @ bases r"
  have n: "uses_below (Suc (length rest)) s"
    using assms(3) length_bases [of lo] length_bases [of r] by (auto simp: rest_def intro: uses_below_mono)
  have db: "cli_db c = held ((case i of None \<Rightarrow> [] | Some j \<Rightarrow> [j]) @ rest) s" and inst: "ch_instance (cli_handle_at c h) = i"
    using assms(1) by (simp_all add: at_obj_def rest_def)
  have l: "linked (cli_db c)" using assms(2) by (simp add: db)
  define c1 where "c1 = c\<lparr>cli_db := held rest s\<rparr>"
  have one: "when_valid (valid_instance i TYPE_ANY c) (use_less (the i)) = Some c1"
    using assms(4) l db held_less [OF n]
    by (cases i) (simp_all add: valid_instance_linked any_valid_def c1_def use_less_def on_db_def)
  define c2 where "c2 = upd_handle h (\<lambda>x. x\<lparr>ch_instance := i'\<rparr>) c1"
  define c3 where "c3 = c2\<lparr>cli_db := held ((case i' of None \<Rightarrow> [] | Some j \<Rightarrow> [j]) @ rest) s\<rparr>"
  have "when_valid (valid_instance i' TYPE_ANY c2) (use_more (the i')) = Some c3"
    using assms(2,5) held_more
    by (cases i') (simp_all add: valid_instance_linked c3_def c2_def c1_def upd_handle_def use_more_def on_db_def)
  then have "handle_set_instance h i' c = Some c3"
    by (simp add: handle_set_instance_def inst one c2_def [symmetric])
  moreover have "at_obj h i' lo r s c3" "same_flag h c c3"
    using assms(1) by (simp_all add: at_obj_def c3_def c2_def c1_def upd_handle_def rest_def same_flag_def same_but_def)
  ultimately show ?thesis by blast
qed

lemma move_last:
  assumes "at_obj h i lo r s c" and "uses_below 4 s"
  shows "at_obj h i lo' r s (handle_set_last_obj h lo' c) \<and> same_flag h c (handle_set_last_obj h lo' c)"
proof -
  define fs where "fs = (case i of None \<Rightarrow> [] | Some j \<Rightarrow> [j])"
  have lfs: "length fs \<le> 1" by (simp add: fs_def split: option.split)
  define rest where "rest = fs @ bases r"
  have n: "uses_below (Suc (length rest)) s"
    using assms(2) lfs length_bases [of r] by (auto simp: rest_def intro: uses_below_mono)
  have db: "cli_db c = held (bases lo @ rest) s" and l: "ch_last_obj (cli_handle_at c h) = lo"
    using assms(1) held_swap [of fs] by (auto simp: at_obj_def rest_def fs_def bases_def split: option.splits)
  define c1 where "c1 = c\<lparr>cli_db := held rest s\<rparr>"
  have one: "(case lo of None \<Rightarrow> c | Some e \<Rightarrow> use_less (base e) c) = c1"
    using db held_less [OF n] by (cases lo) (simp_all add: c1_def use_less_def on_db_def)
  define c3 where "c3 = (upd_handle h (\<lambda>x. x\<lparr>ch_last_obj := lo'\<rparr>) c1)\<lparr>cli_db := held (bases lo' @ rest) s\<rparr>"
  have "handle_set_last_obj h lo' c = c3"
    using held_more by (cases lo') (simp_all add: handle_set_last_obj_def l one c3_def upd_handle_def use_more_def on_db_def c1_def)
  moreover have "at_obj h i lo' r s c3" "same_flag h c c3"
    using assms(1) held_swap [of fs]
    by (auto simp: at_obj_def c3_def c1_def upd_handle_def rest_def same_flag_def same_but_def fs_def bases_def split: option.splits)
  ultimately show ?thesis by simp
qed

lemma move_remote:
  assumes "at_obj h i lo r s c" and "linked s" and "uses_below 4 s" and "any_valid s i lo r"
    and "\<And>x. r' = Some x \<Longrightarrow> obj_valid s (Some x) TYPE_ANY"
  shows "\<exists>c'. handle_set_last_remote_obj h r' c = Some c' \<and> at_obj h i lo r' s c' \<and> same_flag h c c'"
proof -
  define rest where "rest = (case i of None \<Rightarrow> [] | Some j \<Rightarrow> [j]) @ bases lo"
  have "length (case i of None \<Rightarrow> [] | Some j \<Rightarrow> [j]) \<le> 1" by (simp split: option.split)
  then have n: "uses_below (Suc (length rest)) s"
    using assms(3) length_bases [of lo] by (auto simp: rest_def intro: uses_below_mono)
  have swap: "held (rest @ bases p) s = held (bases p @ rest) s" for p
    using held_swap [of rest] by (cases p) simp_all
  have db: "cli_db c = held (bases r @ rest) s" and inst: "ch_last_remote_obj (cli_handle_at c h) = r"
    using assms(1) swap [of r] by (simp_all add: at_obj_def rest_def)
  have l: "linked (cli_db c)" using assms(2) by (simp add: db)
  define c1 where "c1 = c\<lparr>cli_db := held rest s\<rparr>"
  have one: "when_valid (valid_obj r TYPE_ANY c) (use_less (base (the r))) = Some c1"
    using assms(4) l db held_less [OF n]
    by (cases r) (simp_all add: valid_obj_linked any_valid_def c1_def use_less_def on_db_def)
  define c2 where "c2 = upd_handle h (\<lambda>x. x\<lparr>ch_last_remote_obj := r'\<rparr>) c1"
  define c3 where "c3 = c2\<lparr>cli_db := held (bases r' @ rest) s\<rparr>"
  have "when_valid (valid_obj r' TYPE_ANY c2) (use_more (base (the r'))) = Some c3"
    using assms(2,5) held_more
    by (cases r') (simp_all add: valid_obj_linked c3_def c2_def c1_def upd_handle_def use_more_def on_db_def)
  then have "handle_set_last_remote_obj h r' c = Some c3"
    by (simp add: handle_set_last_remote_obj_def inst one c2_def [symmetric])
  moreover have "at_obj h i lo r' s c3" "same_flag h c c3"
    using assms(1) swap [of r']
    by (simp_all add: at_obj_def c3_def c2_def c1_def upd_handle_def rest_def same_flag_def same_but_def)
  ultimately show ?thesis by blast
qed

text \<open>The end of a listing gives everything back.\<close>

lemma end_handle_closes:
  assumes "at_obj h i lo r s c" and "linked s" and "uses_below 4 s" and "any_valid s i lo r"
    and "handles_in_use c = Some hs"
  shows "\<exists>c'. end_handle h c = Some c' \<and> closed h s c c'"
proof -
  define c0 where "c0 = myrefl_cli_local_handle_reset_in_use_flag h c"
  have c0: "at_obj h i lo r s c0" "same_but h c c0" "\<not> ch_in_use (cli_handle_at c0 h)"
    using assms(1) by (simp_all add: c0_def myrefl_cli_local_handle_reset_in_use_flag_def upd_handle_def at_obj_def same_but_def)
  obtain c1 where c1: "handle_set_instance h None c0 = Some c1" "at_obj h None lo r s c1" "same_flag h c0 c1"
    using move_instance [OF c0(1) assms(2-4), of None] by auto
  define c2 where "c2 = handle_set_last_obj h None c1"
  have c2: "at_obj h None None r s c2" "same_flag h c1 c2"
    using move_last [OF c1(2) assms(3), of None] by (simp_all add: c2_def)
  have "any_valid s None None r" using assms(4) by (simp add: any_valid_def)
  then obtain c3 where c3: "handle_set_last_remote_obj h None c2 = Some c3" "at_obj h None None None s c3" "same_flag h c2 c3"
    using move_remote [OF c2(1) assms(2,3), of None] by auto
  have f: "same_flag h c0 c3" using c1(3) c2(2) c3(3) same_flag_trans by blast
  then have u: "\<not> ch_in_use (cli_handle_at c3 h)" "same_but h c c3" "handles_in_use c3 = Some hs"
    using c0 assms(5) same_but_trans by (auto simp: same_flag_def) (auto simp: same_but_def)
  have r: "myrefl_cli_local_handle_set_remote_comp_obj h None c3 = c3"
    using c3(2) by (simp add: myrefl_cli_local_handle_set_remote_comp_obj_def at_obj_def upd_handle_def fun_upd_idem)
  have "myrefl_cli_local_handle_free h c3 = Some (h \<in> set hs, c3\<lparr>handles_in_use := Some (remove1 h hs)\<rparr>)"
    using c3(2) u(1,3) assms(2)
    by (simp add: myrefl_cli_local_handle_free_def at_obj_def valid_instance_def valid_obj_linked)
  then have "end_handle h c = Some (c3\<lparr>handles_in_use := Some (remove1 h hs)\<rparr>)"
    by (simp add: end_handle_def handle_clean_up_def c0_def [symmetric] c1(1) c2_def [symmetric] c3(1) r)
  moreover have "closed h s c (c3\<lparr>handles_in_use := Some (remove1 h hs)\<rparr>)"
    using u(2) c3(2) assms(5) by (simp add: closed_def same_but_def at_obj_def)
  ultimately show ?thesis by blast
qed

end
