(* ===== verification/CliPages.thy ===== *)
theory CliPages
  imports CliFacts
begin

text \<open>
  The paged listings of the command line interface as interpretations of the locale \<open>pager\<close>: all
  objects of a type, and the objects on a list.
\<close>

section \<open>All objects of a type\<close>

text \<open>What a listing shows: the elements of the shown objects, up to the first one that is not valid.\<close>

definition info_shown :: "cli_type \<Rightarrow> cli_filter \<Rightarrow> db \<Rightarrow> oid \<Rightarrow> bool" where
  "info_shown type flt s x \<longleftrightarrow> shown_state (i_state (inst s (base x))) \<and> info_process type flt s x"

definition info_view :: "cli_type \<Rightarrow> db \<Rightarrow> oid \<Rightarrow> cli_info_element" where
  "info_view type s x = the (the (info_element type s x))"

definition valid_objs :: "obj_type \<Rightarrow> db \<Rightarrow> oid list \<Rightarrow> oid list" where
  "valid_objs ty s = takeWhile (\<lambda>x. obj_valid s (Some x) ty)"

lemma held_inst: "inst (held is s) i = (inst s i)\<lparr>i_in_use := i_in_use (inst s i) + of_nat (count_list is i)\<rparr>"
  by (simp add: inst_def held_def)

lemma held_tests [simp]: "test_of (held is s) = test_of s" "rule_of (held is s) = rule_of s" "comp_of (held is s) = comp_of s"
  using runtime_reads [OF runtime_held [of s "is"]] by simp_all

lemma held_info [simp]:
  "info_shown type flt (held is s) = info_shown type flt s" "info_view type (held is s) = info_view type s"
  "info_element type (held is s) x = info_element type s x"
proof -
  show e: "info_element type (held is s) x = info_element type s x" for x
    by (simp add: info_element_def held_inst common_element_def Let_def split: cli_type.split)
  show "info_shown type flt (held is s) = info_shown type flt s"
    by (auto simp: fun_eq_iff info_shown_def info_process_def nvgen_process_def nvgen_changed_def held_inst Let_def
        split: cli_filter.split option.split)
  show "info_view type (held is s) = info_view type s" by (simp add: info_view_def fun_eq_iff e)
qed

lemma ticks_info [simp]:
  "info_shown type flt (s\<lparr>ticks := k\<rparr>) = info_shown type flt s" "info_view type (s\<lparr>ticks := k\<rparr>) = info_view type s"
  "obj_valid (s\<lparr>ticks := k\<rparr>) = obj_valid s" "linked (s\<lparr>ticks := k\<rparr>) = linked s" "tree_ok (s\<lparr>ticks := k\<rparr>) = tree_ok s"
  "sys_objs ty (s\<lparr>ticks := k\<rparr>) = sys_objs ty s" "valid_objs ty (s\<lparr>ticks := k\<rparr>) = valid_objs ty s"
proof -
  let ?t = "s\<lparr>ticks := k\<rparr>"
  have r: "runtime s ?t" by simp
  show v: "obj_valid ?t = obj_valid s" by (rule runtime_obj_valid [OF r])
  then show "valid_objs ty ?t = valid_objs ty s" by (simp add: valid_objs_def fun_eq_iff)
  show "linked ?t = linked s" "tree_ok ?t = tree_ok s" "sys_objs ty ?t = sys_objs ty s"
    by (rule runtime_linked [OF r] runtime_tree [OF r])+
  have e: "info_element type ?t x = info_element type s x" for x
    by (simp add: info_element_def common_element_def inst_def comp_of_def test_of_def rule_of_def Let_def split: cli_type.split)
  show "info_view type ?t = info_view type s" by (simp add: info_view_def fun_eq_iff e)
  show "info_shown type flt ?t = info_shown type flt s"
    by (auto simp: fun_eq_iff info_shown_def info_process_def nvgen_process_def nvgen_changed_def inst_def comp_of_def test_of_def
        rule_of_def Let_def split: cli_filter.split option.split)
qed

lemma info_element_Some:
  assumes "object_type type" and "obj_valid s (Some x) (cli_to_obj_type type)"
  shows "info_element type s x = Some (Some (info_view type s x))"
proof -
  have t: "type_of s x = cli_to_obj_type type"
    using assms by (auto simp: obj_valid_def object_type_def cli_to_obj_type_def)
  obtain e where "info_element type s x = Some (Some e)"
    using assms(1) t
    by (auto simp: object_type_def cli_to_obj_type_def info_element_def type_of_def comp_of_def test_of_def rule_of_def Let_def
        split: obj_data.splits)
  then show ?thesis by (simp add: info_view_def)
qed

lemma next_listed:
  assumes "tree_ok s" and "object_type type" and "sys_objs (cli_to_obj_type type) s = ys @ x # zs"
  shows "myrefl_obj_get_next_rel (held is s) (Some x) (cli_to_rel_type type) = Some (head_or None zs)"
proof -
  let ?t = "held is s" and ?ty = "cli_to_obj_type type"
  have ty: "?ty \<noteq> TYPE_ANY" "rel_to_type (cli_to_rel_type type) = ?ty"
    using assms(2) by (auto simp: object_type_def cli_to_obj_type_def cli_to_rel_type_def rel_to_type_def)
  have t: "tree_ok ?t" "sys_objs ?ty ?t = ys @ x # zs"
    using assms(1,3) runtime_tree [OF runtime_held] by simp_all
  then have "type_of ?t x = ?ty" by (intro sys_objs_typed [OF t(1)]) simp
  then show ?thesis
    using sys.step_law [of ?t ?ty] t ty by (simp add: myrefl_obj_get_next_rel_def)
qed

lemma same_but_flag [simp]: "same_but h c (myrefl_cli_local_handle_reset_in_use_flag h c)"
  by (simp add: same_but_def myrefl_cli_local_handle_reset_in_use_flag_def upd_handle_def)

lemma at_obj_flag: "at_obj h i lo r s c \<Longrightarrow> at_obj h i lo r s (myrefl_cli_local_handle_reset_in_use_flag h c)"
  by (simp add: at_obj_def myrefl_cli_local_handle_reset_in_use_flag_def upd_handle_def)

lemma same_flagD: "same_flag h c c' \<Longrightarrow> same_but h c c'"
  by (simp add: same_flag_def)

text \<open>One page: the loop from the object \<open>x\<close>, which is followed by \<open>zs\<close>.\<close>

lemma info_loop_page:
  assumes s: "linked s" "tree_ok s" "uses_below 4 s" and type: "object_type type" "ty = cli_to_obj_type type"
    and r: "\<And>y. r = Some y \<Longrightarrow> obj_valid s (Some y) TYPE_ANY"
  shows "sys_objs ty s = ys @ x # zs \<Longrightarrow> obj_valid s (Some x) ty \<Longrightarrow> at_obj h (Some (base x)) None r s c \<Longrightarrow>
    ch_type (cli_handle_at c h) = type \<Longrightarrow> ch_filter (cli_handle_at c h) = flt \<Longrightarrow> handles_in_use c = Some hs \<Longrightarrow>
    chunk (mx - length es) (info_shown type flt s) (x # valid_objs ty s zs) = (sh, rest) \<Longrightarrow>
    \<exists>c'. info_loop h mx x es c =
        Some (Some \<lparr>num_elements = (if rest = [] then 0 else length es + length sh), elements = es @ map (info_view type s) sh\<rparr>, c') \<and>
      (case rest of [] \<Rightarrow> closed h s c c' | y # _ \<Rightarrow> at_obj h (Some (base y)) None r s c' \<and> same_but h c c')"
proof (induction zs arbitrary: ys x es c sh)
  have av: "any_valid s (Some (base y)) None r" if "obj_valid s (Some y) ty" for y
    using r obj_valid_any [OF that] by (auto simp: any_valid_def)
  case Nil
  show ?case
  proof (cases "length es < mx")
    case False
    then show ?thesis
      using Nil.prems at_obj_flag [OF Nil.prems(3)]
      by (subst info_loop.simps) (auto simp: valid_objs_def)
  next
    case True
    then obtain n where n: "mx - length es = Suc n" by (metis Suc_diff_Suc)
    have sh: "rest = []" "sh = (if info_shown type flt s x then [x] else [])"
      using Nil.prems(7) by (auto simp: n valid_objs_def split: if_splits)
    obtain c' where c': "end_handle h c = Some c'" "closed h s c c'"
      using end_handle_closes [OF Nil.prems(3) s(1,3) av [OF Nil.prems(2)] Nil.prems(6)] by blast
    have db: "cli_db c = held (base x # bases r) s" using Nil.prems(3) by (simp add: at_obj_def)
    show ?thesis
      using True sh c' Nil.prems(4,5) info_element_Some [OF type(1), of s x] Nil.prems(2) type next_listed [OF s(2) type(1), of ys x "[]"]
        Nil.prems(1) valid_obj_linked [of c None ty] s(1) info_shown_def [of type flt "held (base x # bases r) s" x]
      by (subst info_loop.simps) (auto simp: db Let_def)
  qed
next
  have av: "any_valid s (Some (base y)) None r" if "obj_valid s (Some y) ty" for y
    using r obj_valid_any [OF that] by (auto simp: any_valid_def)
  case (Cons z zs)
  have db: "cli_db c = held (base x # bases r) s" using Cons.prems(3) by (simp add: at_obj_def)
  show ?case
  proof (cases "length es < mx")
    case False
    then show ?thesis
      using Cons.prems at_obj_flag [OF Cons.prems(3)]
      by (subst info_loop.simps) (auto simp: valid_objs_def)
  next
    case True
    then obtain n where n: "mx - length es = Suc n" by (metis Suc_diff_Suc)
    define es' where "es' = (if info_shown type flt s x then es @ [info_view type s x] else es)"
    have step: "info_loop h mx x es c =
        (if obj_valid s (Some z) ty
         then Option.bind (handle_set_instance h (Some (base z)) c) (info_loop h mx z es')
         else map_option (Pair (Some \<lparr>num_elements = 0, elements = es'\<rparr>)) (end_handle h c))"
      using True Cons.prems(4,5) info_element_Some [OF type(1), of s x] Cons.prems(2) type next_listed [OF s(2) type(1), of ys x "z # zs"]
        Cons.prems(1) valid_obj_linked [of c "Some z" ty] s(1) info_shown_def [of type flt "held (base x # bases r) s" x]
      by (subst info_loop.simps) (auto simp: db Let_def es'_def)
    show ?thesis
    proof (cases "obj_valid s (Some z) ty")
      case False
      then have sh: "rest = []" "sh = (if info_shown type flt s x then [x] else [])"
        using Cons.prems(7) by (auto simp: n valid_objs_def split: if_splits)
      obtain c' where "end_handle h c = Some c'" "closed h s c c'"
        using end_handle_closes [OF Cons.prems(3) s(1,3) av [OF Cons.prems(2)] Cons.prems(6)] by blast
      then show ?thesis using False step sh by (simp add: es'_def)
    next
      case z: True
      obtain c1 where c1: "handle_set_instance h (Some (base z)) c = Some c1" "at_obj h (Some (base z)) None r s c1" "same_but h c c1"
        using move_instance [OF Cons.prems(3) s(1,3) av [OF Cons.prems(2)], of "Some (base z)"] obj_valid_any [OF z] same_flagD by auto
      define sh' where "sh' = (if info_shown type flt s x then tl sh else sh)"
      have n': "mx - Suc (length es) = n" using n by simp
      have ch: "chunk (mx - length es') (info_shown type flt s) (z # valid_objs ty s zs) = (sh', rest)"
        "sh = (if info_shown type flt s x then x # sh' else sh')"
        using Cons.prems(7) z n n'
        by (auto simp: valid_objs_def sh'_def es'_def apfst_def map_prod_def split: if_splits prod.splits)
      have h1: "ch_type (cli_handle_at c1 h) = type" "ch_filter (cli_handle_at c1 h) = flt" "handles_in_use c1 = Some hs"
        using c1(3) Cons.prems(4-6) by (simp_all add: same_but_def)
      obtain c' where "info_loop h mx z es' c1 =
          Some (Some \<lparr>num_elements = (if rest = [] then 0 else length es' + length sh'), elements = es' @ map (info_view type s) sh'\<rparr>, c')"
        "case rest of [] \<Rightarrow> closed h s c1 c' | y # _ \<Rightarrow> at_obj h (Some (base y)) None r s c' \<and> same_but h c1 c'"
        using Cons.IH [of "ys @ [x]" z c1 es' sh'] Cons.prems(1) z c1(2) h1 ch(1) by auto
      moreover have "closed h s c c'" if "closed h s c1 c'" using closed_same_but [OF c1(3) that] .
      moreover have "same_but h c c'" if "same_but h c1 c'" using same_but_trans [OF c1(3) that] .
      ultimately show ?thesis
        using z step c1(1) ch(2) by (auto simp: es'_def split: list.splits)
    qed
  qed
qed

section \<open>The handle of a listing\<close>

lemma at_obj_begin:
  assumes "at_obj h i lo r (s\<lparr>ticks := k\<rparr>) c"
  shows "at_obj h i lo r (s\<lparr>ticks := Suc k\<rparr>) (begin_use h c)" and "same_but h c (begin_use h c)"
  using assms
  by (simp_all add: at_obj_def begin_use_def set_used_last_time_def myrefl_cli_local_handle_set_in_use_flag_def upd_handle_def
      same_but_def time_now_def held_upd_ticks)

lemma same_but_get:
  assumes "same_but h c c'"
  shows "myrefl_cli_local_handle_get n c' = myrefl_cli_local_handle_get n c"
proof -
  have "ch_id (cli_handle_at c' k) = ch_id (cli_handle_at c k)" for k
    using assms by (cases "k = h") (simp_all add: same_but_def)
  then show ?thesis using assms by (simp add: myrefl_cli_local_handle_get_def same_but_def split: option.split)
qed

text \<open>The handle \<open>h\<close> is open under the number \<open>n\<close>, and no other handle has that number.\<close>

definition open_as :: "nat \<Rightarrow> 32 word \<Rightarrow> cli \<Rightarrow> bool" where
  "open_as h n c \<longleftrightarrow> myrefl_cli_local_handle_get n c = Some h \<and>
     (\<exists>hs. handles_in_use c = Some hs \<and> (\<forall>k \<in> set (remove1 h hs). k \<noteq> h \<and> ch_id (cli_handle_at c k) \<noteq> n))"

lemma closed_get: "open_as h n c \<Longrightarrow> closed h s c c' \<Longrightarrow> myrefl_cli_local_handle_get n c' = None"
  by (auto simp: open_as_def closed_def myrefl_cli_local_handle_get_def find_None_iff)

text \<open>What a listing of the objects of a type still has to look at.\<close>

definition listing_ok :: "db \<Rightarrow> cli \<Rightarrow> nat \<Rightarrow> oid option \<Rightarrow> bool" where
  "listing_ok s c0 h r \<longleftrightarrow> linked s \<and> tree_ok s \<and> uses_below 4 s \<and> object_type (ch_type (cli_handle_at c0 h)) \<and>
     (\<exists>n. open_as h n c0) \<and> (\<forall>y. r = Some y \<longrightarrow> obj_valid s (Some y) TYPE_ANY)"

definition info_at :: "db \<Rightarrow> cli \<Rightarrow> nat \<Rightarrow> oid option \<Rightarrow> oid list \<Rightarrow> cli \<Rightarrow> bool" where
  "info_at s c0 h r xs c \<longleftrightarrow> listing_ok s c0 h r \<and>
     (case xs of
        [] \<Rightarrow> \<exists>k. closed h (s\<lparr>ticks := k\<rparr>) c0 c
      | x # _ \<Rightarrow> same_but h c0 c \<and> (\<exists>k. at_obj h (Some (base x)) None r (s\<lparr>ticks := k\<rparr>) c) \<and>
          (\<exists>ys zs. sys_objs (cli_to_obj_type (ch_type (cli_handle_at c0 h))) s = ys @ x # zs \<and>
             xs = valid_objs (cli_to_obj_type (ch_type (cli_handle_at c0 h))) s (x # zs)))"

lemma info_at_ConsI:
  assumes "listing_ok s c0 h r" and "same_but h c0 c" and "at_obj h (Some (base x)) None r (s\<lparr>ticks := k\<rparr>) c"
    and "sys_objs (cli_to_obj_type (ch_type (cli_handle_at c0 h))) s = ys @ x # zs"
    and "x # us = valid_objs (cli_to_obj_type (ch_type (cli_handle_at c0 h))) s (x # zs)"
  shows "info_at s c0 h r (x # us) c"
  unfolding info_at_def list.case using assms by blast

definition info_page :: "32 word \<Rightarrow> nat \<Rightarrow> cli \<Rightarrow> (cli_info_element list option \<times> cli) option" where
  "info_page n mx c = map_option (apfst (map_option elements)) (myrefl_cli_local_get_info n mx c)"

lemma chunk_rest_split: "\<exists>us. xs = us @ snd (chunk n p xs)"
proof (induction n p xs rule: chunk.induct)
  case (3 n p x xs)
  then show ?case by (auto split: if_splits) (metis append_Cons)+
qed auto

lemma valid_objs_rest:
  assumes "valid_objs ty s zs = us @ y # vs"
  shows "\<exists>ws. zs = us @ y # ws \<and> y # vs = valid_objs ty s (y # ws)"
  using assms
proof (induction us arbitrary: zs)
  case Nil
  then show ?case by (cases zs) (auto simp: valid_objs_def split: if_splits)
next
  case (Cons u us)
  then obtain zs' where "zs = u # zs'" "valid_objs ty s zs' = us @ y # vs"
    by (cases zs) (auto simp: valid_objs_def split: if_splits)
  with Cons.IH show ?case by fastforce
qed

text \<open>One call of \<open>myrefl_cli_local_get_info\<close>.\<close>

lemma get_info_page:
  assumes at: "info_at s c0 h r xs c" and n: "open_as h n c0" and xs: "xs \<noteq> []"
    and type: "type = ch_type (cli_handle_at c0 h)" "flt = ch_filter (cli_handle_at c0 h)"
    and ch: "chunk mx (info_shown type flt s) xs = (sh, rest)"
  shows "\<exists>c'. myrefl_cli_local_get_info n mx c =
      Some (Some \<lparr>num_elements = (if rest = [] then 0 else length sh), elements = map (info_view type s) sh\<rparr>, c') \<and>
    info_at s c0 h r rest c'"
proof -
  let ?ty = "cli_to_obj_type type"
  obtain x us where x: "xs = x # us" using xs by (cases xs) auto
  obtain k ys zs where a: "same_but h c0 c" "at_obj h (Some (base x)) None r (s\<lparr>ticks := k\<rparr>) c"
    "sys_objs ?ty s = ys @ x # zs" "xs = valid_objs ?ty s (x # zs)"
    using at type by (auto simp: info_at_def x)
  have s: "linked s" "tree_ok s" "uses_below 4 s" "object_type type" "\<And>y. r = Some y \<Longrightarrow> obj_valid s (Some y) TYPE_ANY"
    using at type by (auto simp: info_at_def listing_ok_def)
  have v: "obj_valid s (Some x) ?ty" "us = valid_objs ?ty s zs" using a(4) x by (auto simp: valid_objs_def split: if_splits)
  define t where "t = s\<lparr>ticks := Suc k\<rparr>"
  define b where "b = begin_use h c"
  have b: "at_obj h (Some (base x)) None r t b" "same_but h c0 b"
    using at_obj_begin [OF a(2)] same_but_trans [OF a(1)] by (simp_all add: t_def b_def)
  obtain hs where hs: "handles_in_use c0 = Some hs" "myrefl_cli_local_handle_get n c0 = Some h"
    using n by (auto simp: open_as_def)
  have k: "ch_type (cli_handle_at b h) = type" "ch_filter (cli_handle_at b h) = flt" "handles_in_use b = Some hs"
    using b(2) type hs(1) by (simp_all add: same_but_def)
  have inst: "ch_instance (cli_handle_at c h) = Some (base x)" "linked (cli_db c)" "inst_valid (cli_db c) (base x) TYPE_ANY"
    using a(2) s(1) obj_valid_any [OF v(1)] by (simp_all add: at_obj_def)
  have run: "myrefl_cli_local_get_info n mx c = info_loop h mx x [] b"
    using inst hs(2) same_but_get [OF a(1)] valid_instance_linked [OF inst(2)]
    by (simp add: myrefl_cli_local_get_info_def with_handle_def b_def)
  have chunk: "chunk (mx - length ([] :: cli_info_element list)) (info_shown type flt t) (x # valid_objs ?ty t zs) = (sh, rest)"
    using ch x v(2) by (simp add: t_def)
  obtain c' where c': "info_loop h mx x [] b =
      Some (Some \<lparr>num_elements = (if rest = [] then 0 else length sh), elements = map (info_view type s) sh\<rparr>, c')"
    "case rest of [] \<Rightarrow> closed h t b c' | y # _ \<Rightarrow> at_obj h (Some (base y)) None r t c' \<and> same_but h b c'"
    using info_loop_page [where s = t and ty = ?ty, OF _ _ _ s(4) refl _ _ _ b(1) k chunk] s(1-3,5) a(3) v(1)
    by (auto simp: t_def)
  have "info_at s c0 h r rest c'"
  proof (cases rest)
    case Nil
    then have "closed h t c0 c'" using c'(2) closed_same_but [OF b(2)] by simp
    then show ?thesis using at Nil by (auto simp: info_at_def t_def)
  next
    case (Cons y vs)
    obtain ps where "xs = ps @ y # vs" using chunk_rest_split [of xs mx "info_shown type flt s"] ch Cons by auto
    then obtain ws where "x # zs = ps @ y # ws" "y # vs = valid_objs ?ty s (y # ws)"
      using valid_objs_rest [of ?ty s "x # zs" ps y vs] a(4) by auto
    moreover have "same_but h c0 c'" "at_obj h (Some (base y)) None r t c'"
      using c'(2) Cons same_but_trans [OF b(2)] by simp_all
    ultimately show ?thesis
      unfolding Cons using at a(3) type(1)
      by (intro info_at_ConsI [where k = "Suc k" and ys = "ys @ ps" and zs = ws]) (simp_all add: info_at_def t_def)
  qed
  then show ?thesis using run c'(1) by auto
qed

interpretation listing: pager "info_page n"
  "\<lambda>xs c. open_as h n c0 \<and> info_at s c0 h r xs c"
  "info_shown (ch_type (cli_handle_at c0 h)) (ch_filter (cli_handle_at c0 h)) s"
  "info_view (ch_type (cli_handle_at c0 h)) s" for s c0 h n r
proof (unfold_locales, goal_cases)
  case (1 xs c mx)
  obtain sh rest where ch: "chunk mx (info_shown (ch_type (cli_handle_at c0 h)) (ch_filter (cli_handle_at c0 h)) s) xs = (sh, rest)"
    by (rule prod.exhaust)
  obtain c' where "myrefl_cli_local_get_info n mx c = Some (Some \<lparr>num_elements = (if rest = [] then 0 else length sh),
      elements = map (info_view (ch_type (cli_handle_at c0 h)) s) sh\<rparr>, c')" "info_at s c0 h r rest c'"
    using get_info_page [OF _ _ 1(2) refl refl ch] 1(1) by blast
  then show ?case using ch 1(1) by (simp add: info_page_def)
next
  case (2 c mx)
  then obtain k where "closed h (s\<lparr>ticks := k\<rparr>) c0 c" by (auto simp: info_at_def)
  then have "myrefl_cli_local_handle_get n c = None" using 2 closed_get by blast
  then show ?case using 2 by (simp add: info_page_def myrefl_cli_local_get_info_def with_handle_def)
qed

section \<open>Opening a listing\<close>

definition open_handles :: "cli \<Rightarrow> nat list" where
  "open_handles c = (case handles_in_use c of None \<Rightarrow> [] | Some hs \<Rightarrow> hs)"

text \<open>The next handle is a new one, and so is its number.\<close>

definition new_handle_ok :: "cli \<Rightarrow> bool" where
  "new_handle_ok c \<longleftrightarrow> next_handle_id c \<noteq> 0 \<and>
     (\<forall>k \<in> set (open_handles c). k \<noteq> next_pointer c \<and> ch_id (cli_handle_at c k) \<noteq> next_handle_id c)"

lemma allocated_handle:
  assumes "myrefl_cli_local_handle_allocate type flt c = (h, c1)" and "new_handle_ok c"
  shows "h = next_pointer c" and "at_obj h None None None ((cli_db c)\<lparr>ticks := Suc (ticks (cli_db c))\<rparr>) c1"
    and "handles_in_use c1 = Some (h # open_handles c)" and "ch_type (cli_handle_at c1 h) = type"
    and "ch_filter (cli_handle_at c1 h) = flt" and "ch_id (cli_handle_at c1 h) = next_handle_id c"
    and "open_as h (next_handle_id c) c1" and "myrefl_cli_local_handle_reset_in_use_flag h c1 = c1"
proof -
  have c1: "h = next_pointer c" "c1 = (c\<lparr>next_handle_id := next_handle_id c + 1, next_pointer := Suc (next_pointer c),
      handles_in_use := Some (next_pointer c # open_handles c),
      cli_handle_at := (cli_handle_at c)(next_pointer c := \<lparr>ch_id = next_handle_id c, ch_type = type, ch_filter = flt,
        ch_instance = None, ch_last_obj = None, ch_remote_comp = None, ch_remote_handle_id = 0, ch_last_remote_obj = None,
        ch_used_last_time = clock (cli_db c) (ticks (cli_db c)), ch_in_use = False\<rparr>),
      cli_db := (cli_db c)\<lparr>ticks := Suc (ticks (cli_db c))\<rparr>\<rparr>)"
    using assms
    by (auto simp: myrefl_cli_local_handle_allocate_def get_new_handle_id_def upd_handle_def set_used_last_time_def time_now_def
        Let_def open_handles_def list_add_def new_handle_ok_def split: option.splits)
  show "h = next_pointer c" by (rule c1(1))
  show "at_obj h None None None ((cli_db c)\<lparr>ticks := Suc (ticks (cli_db c))\<rparr>) c1"
    "handles_in_use c1 = Some (h # open_handles c)" "ch_type (cli_handle_at c1 h) = type"
    "ch_filter (cli_handle_at c1 h) = flt" "ch_id (cli_handle_at c1 h) = next_handle_id c"
    by (simp_all add: c1 at_obj_def)
  show "open_as h (next_handle_id c) c1"
    using assms(2) by (auto simp: c1 open_as_def myrefl_cli_local_handle_get_def new_handle_ok_def)
  show "myrefl_cli_local_handle_reset_in_use_flag h c1 = c1"
    by (simp add: c1 myrefl_cli_local_handle_reset_in_use_flag_def upd_handle_def)
qed

lemma same_but_open: "same_but h c c' \<Longrightarrow> open_as h n c \<Longrightarrow> open_as h n c'"
  using same_but_get [of h c c' n] by (auto simp: open_as_def same_but_def)

lemma same_but_filter: "ch_filter (cli_handle_at c h) = flt \<Longrightarrow> same_but h c (set_filter h flt c)"
  by (simp add: same_but_def set_filter_def upd_handle_def)

lemma at_obj_filter: "at_obj h i lo r s c \<Longrightarrow> at_obj h i lo r s (set_filter h flt c)"
  by (simp add: at_obj_def set_filter_def upd_handle_def)

lemma open_listing:
  assumes s: "linked s" "tree_ok s" "uses_below 4 s" "system_comp s \<noteq> None" and db: "cli_db c = s"
    and type: "object_type type" "ty = cli_to_obj_type type" and new: "new_handle_ok c"
    and xs: "xs = valid_objs ty s (sys_objs ty s)"
  shows "\<exists>n c1. myrefl_cli_local_get_info_handle None type flt nm c = Some (n, c1) \<and>
    (if xs = [] then n = 0 \<and> cli_db c1 = s\<lparr>ticks := Suc (ticks s)\<rparr> \<and> handles_in_use c1 = Some (open_handles c)
     else \<exists>h r. n = next_handle_id c \<and> h = next_pointer c \<and> open_as h n c1 \<and> ch_type (cli_handle_at c1 h) = type \<and>
       ch_filter (cli_handle_at c1 h) = flt \<and> handles_in_use c1 = Some (h # open_handles c) \<and> info_at s c1 h r xs c1)"
proof -
  obtain h a where al: "myrefl_cli_local_handle_allocate type flt c = (h, a)" by (rule prod.exhaust)
  note al' = allocated_handle [OF al new, unfolded db]
  define t where "t = s\<lparr>ticks := Suc (ticks s)\<rparr>"
  have t: "linked t" "tree_ok t" "uses_below 4 t" "system_comp t \<noteq> None" "sys_objs ty t = sys_objs ty s" "obj_valid t = obj_valid s"
    using s by (simp_all add: t_def)
  have a: "at_obj h None None None t a" "cli_db a = t" using al'(2) by (simp_all add: t_def at_obj_def)
  have ty: "ty \<noteq> TYPE_ANY" "rel_to_type (cli_to_rel_type type) = ty" "local_type type = Some type"
    using type by (auto simp: object_type_def cli_to_obj_type_def cli_to_rel_type_def rel_to_type_def local_type_def)
  have first: "myrefl_obj_get_first_rel (held is t) None (cli_to_rel_type type) = Some (head_or None (sys_objs ty s))" for "is"
    using sys_objs_first [of "held is t" ty] t(2,4,5) ty runtime_tree [OF runtime_held [of t "is"]]
    by (simp add: myrefl_obj_get_first_rel_def)
  have comp1: "myrefl_obj_get_first_rel (held is t) None REL_COMP = Some (system_comp s)" for "is"
    using t(4) by (cases "system_comp s")
      (simp_all add: myrefl_obj_get_first_rel_def rel_to_type_def sys_get_first_type_def t_def)
  have run: "myrefl_cli_local_get_info_handle None type flt nm c = all_handle h type flt a"
    by (simp add: myrefl_cli_local_get_info_handle_def ty(3) al badstr_def)
  have v0: "valid_obj p ty a = Some (obj_valid s p ty, a)" for p
    using valid_obj_linked [of a p ty] a(2) t by simp
  show ?thesis
  proof (cases "xs = []")
    case True
    then have "\<not> obj_valid s (head_or None (sys_objs ty s)) ty"
      using xs by (cases "sys_objs ty s") (auto simp: valid_objs_def split: if_splits)
    moreover obtain c1 where "end_handle h a = Some c1" "closed h t a c1"
      using end_handle_closes [OF a(1) t(1,3) _ al'(3)] by (auto simp: any_valid_def)
    ultimately show ?thesis
      using True first [of "[]"] a(2) v0 al'(8) type(2) al'(3)
      by (simp add: run all_handle_def end_handle_def closed_def t_def)
  next
    case False
    then obtain x zs where x: "sys_objs ty s = x # zs" "obj_valid s (Some x) ty"
      using xs by (cases "sys_objs ty s") (auto simp: valid_objs_def split: if_splits)
    obtain b where b: "handle_set_instance h (Some (base x)) a = Some b" "at_obj h (Some (base x)) None None t b" "same_but h a b"
      using move_instance [OF a(1) t(1,3), of "Some (base x)"] obj_valid_any [OF x(2)] same_flagD t(6) by (auto simp: any_valid_def)
    define f where "f = set_filter h flt b"
    have f: "at_obj h (Some (base x)) None None t f" "same_but h a f"
      using at_obj_filter [OF b(2)] same_but_trans [OF b(3) same_but_filter] b(3) al'(5) by (auto simp: f_def same_but_def)
    define r where "r = (if obj_valid s (system_comp s) TYPE_COMP then system_comp s else None)"
    have fdb: "cli_db f = held [base x] t" "linked (cli_db f)" using f(1) t(1) by (simp_all add: at_obj_def)
    have rv: "obj_valid s (Some y) TYPE_ANY" if "r = Some y" for y
      using that obj_valid_any by (auto simp: r_def split: if_splits)
    obtain g where g: "(if obj_valid s (system_comp s) TYPE_COMP then handle_set_last_remote_obj h (system_comp s) f else Some f) = Some g"
      "at_obj h (Some (base x)) None r t g" "same_but h f g"
    proof (cases "obj_valid s (system_comp s) TYPE_COMP")
      case True
      then show ?thesis
        using move_remote [OF f(1) t(1,3), of r] rv obj_valid_any [OF x(2)] same_flagD t(6) that by (auto simp: any_valid_def r_def)
    qed (use f that in \<open>simp add: r_def\<close>)
    have ag: "same_but h a g" by (rule same_but_trans [OF f(2) g(3)])
    have "all_handle h type flt a = Some (next_handle_id c, g)"
      using first [of "[]"] comp1 [of "[base x]"] x v0 b(1) a(2) type(2) g(1) al'(6) ag valid_obj_linked [OF fdb(2), of "system_comp s" TYPE_COMP] t(6)
      by (simp add: all_handle_def f_def [symmetric] fdb(1) same_but_def)
    moreover have "open_as h (next_handle_id c) g" by (rule same_but_open [OF ag al'(7)])
    moreover have "listing_ok s g h r"
      using s type rv al'(4) ag \<open>open_as h (next_handle_id c) g\<close> by (auto simp: listing_ok_def same_but_def)
    then have "info_at s g h r (x # valid_objs ty s zs) g"
      using x g(2) type al'(4) ag
      by (intro info_at_ConsI [where k = "Suc (ticks s)" and ys = "[]" and zs = zs])
        (simp_all add: same_but_def t_def valid_objs_def)
    then have "info_at s g h r xs g" using xs x by (simp add: valid_objs_def)
    ultimately show ?thesis using False run al'(1,3-5) ag by (auto simp: same_but_def)
  qed
qed

section \<open>A whole listing\<close>

text \<open>A reader opens a handle for all objects of a type and reads pages until there is none.\<close>

definition list_objects :: "nat \<Rightarrow> cli_type \<Rightarrow> cli_filter \<Rightarrow> cli \<Rightarrow> (cli_info_element list \<times> cli) option" where
  "list_objects mx type flt c =
     Option.bind (myrefl_cli_local_get_info_handle None type flt None c) (\<lambda>(n, c).
       if n = 0 then Some ([], c) else read_pages (info_page n mx) c)"

definition listable :: "cli \<Rightarrow> bool" where
  "listable c \<longleftrightarrow> linked (cli_db c) \<and> tree_ok (cli_db c) \<and> system_comp (cli_db c) \<noteq> None \<and> uses_below 4 (cli_db c) \<and>
     new_handle_ok c"

lemma listed_all:
  assumes c: "listable c" and type: "object_type type" and mx: "0 < mx"
  shows "\<exists>c' k. list_objects mx type flt c =
      Some (map (info_view type (cli_db c)) (filter (info_shown type flt (cli_db c))
        (valid_objs (cli_to_obj_type type) (cli_db c) (sys_objs (cli_to_obj_type type) (cli_db c)))), c') \<and>
    cli_db c' = (cli_db c)\<lparr>ticks := k\<rparr> \<and> handles_in_use c' = Some (open_handles c)"
proof -
  define s where "s = cli_db c"
  define xs where "xs = valid_objs (cli_to_obj_type type) s (sys_objs (cli_to_obj_type type) s)"
  have s: "linked s" "tree_ok s" "uses_below 4 s" "system_comp s \<noteq> None" "new_handle_ok c"
    using c by (simp_all add: listable_def s_def)
  obtain n c1 where o: "myrefl_cli_local_get_info_handle None type flt None c = Some (n, c1)"
    "if xs = [] then n = 0 \<and> cli_db c1 = s\<lparr>ticks := Suc (ticks s)\<rparr> \<and> handles_in_use c1 = Some (open_handles c)
     else \<exists>h r. n = next_handle_id c \<and> h = next_pointer c \<and> open_as h n c1 \<and> ch_type (cli_handle_at c1 h) = type \<and>
       ch_filter (cli_handle_at c1 h) = flt \<and> handles_in_use c1 = Some (h # open_handles c) \<and> info_at s c1 h r xs c1"
    using open_listing [OF s(1-4) s_def [symmetric] type refl s(5) xs_def] by blast
  show ?thesis
  proof (cases "xs = []")
    case True
    then show ?thesis using o by (auto simp: list_objects_def xs_def s_def)
  next
    case False
    then obtain h r where h: "n = next_handle_id c" "open_as h n c1" "ch_type (cli_handle_at c1 h) = type"
      "ch_filter (cli_handle_at c1 h) = flt" "handles_in_use c1 = Some (h # open_handles c)" "info_at s c1 h r xs c1"
      using o(2) by auto
    obtain c' where c': "read_pages (info_page n mx) c1 = Some (map (info_view type s) (filter (info_shown type flt s) xs), c')"
      "info_at s c1 h r [] c'"
      using listing.pages_show_all [OF mx, of h n c1 s r xs c1] h by auto
    then show ?thesis
      using o(1) h(1,5) s(5) by (auto simp: list_objects_def xs_def s_def info_at_def closed_def new_handle_ok_def)
  qed
qed

text \<open>When everything fits on the first page, its number of elements is zero.\<close>

lemma chunk_all: "length (filter p xs) < n \<Longrightarrow> chunk n p xs = (filter p xs, [])"
  by (induction n p xs rule: chunk.induct) (auto split: if_splits)

lemma one_page:
  assumes c: "listable c" and type: "object_type type" and db: "cli_db c = s"
    and xs: "xs = valid_objs (cli_to_obj_type type) s (sys_objs (cli_to_obj_type type) s)" "xs \<noteq> []"
    and fits: "length (filter (info_shown type flt s) xs) < mx"
  shows "\<exists>n c1 c2. myrefl_cli_local_get_info_handle None type flt None c = Some (n, c1) \<and> n \<noteq> 0 \<and>
    myrefl_cli_local_get_info n mx c1 =
      Some (Some \<lparr>num_elements = 0, elements = map (info_view type s) (filter (info_shown type flt s) xs)\<rparr>, c2)"
proof -
  have s: "linked s" "tree_ok s" "uses_below 4 s" "system_comp s \<noteq> None" "new_handle_ok c"
    using c db by (simp_all add: listable_def)
  obtain n c1 h r where o: "myrefl_cli_local_get_info_handle None type flt None c = Some (n, c1)"
    "n = next_handle_id c" "open_as h n c1" "ch_type (cli_handle_at c1 h) = type" "ch_filter (cli_handle_at c1 h) = flt"
    "info_at s c1 h r xs c1"
    using open_listing [OF s(1-4) db type refl s(5) xs(1), of flt None] xs(2) by auto
  obtain c2 where "myrefl_cli_local_get_info n mx c1 =
      Some (Some \<lparr>num_elements = 0, elements = map (info_view type s) (filter (info_shown type flt s) xs)\<rparr>, c2)"
    using get_info_page [OF o(6,3) xs(2) o(4) [symmetric] o(5) [symmetric] chunk_all [OF fits]] by auto
  moreover have "n \<noteq> 0" using o(2) s(5) by (simp add: new_handle_ok_def)
  ultimately show ?thesis using o(1) by blast
qed

end
