(* ===== verification/CliRelated.thy ===== *)
theory CliRelated
  imports CliPages
begin

text \<open>
  The listings of objects on a list (dependencies, actions and inputs of a rule) as a second interpretation of
  \<open>pager\<close>, and the handle that is opened for the name of an object.
\<close>

section \<open>Objects on a list\<close>

lemma held_copy [simp]: "myrefl_cli_copy_data_element (held is s) = myrefl_cli_copy_data_element s"
  by (simp add: fun_eq_iff myrefl_cli_copy_data_element_def held_inst Let_def)

lemma ticks_copy [simp]: "myrefl_cli_copy_data_element (s\<lparr>ticks := k\<rparr>) = myrefl_cli_copy_data_element s"
  by (simp add: fun_eq_iff myrefl_cli_copy_data_element_def Let_def inst_def type_of_def rule_of_def)

lemma valid_own_linked:
  assumes "linked (cli_db c)"
  shows "valid_own (Some x) c = Some (obj_valid (cli_db c) (Some x) TYPE_ANY, c)"
  using valid_obj_linked [OF assms] by (simp add: valid_own_def obj_valid_def)

lemma at_obj_linked: "at_obj h i lo r s c \<Longrightarrow> linked s \<Longrightarrow> linked (cli_db c)"
  by (simp add: at_obj_def)

lemma at_obj_valid: "at_obj h i lo r s c \<Longrightarrow> obj_valid (cli_db c) = obj_valid s"
  by (simp add: at_obj_def)

lemma at_obj_copy: "at_obj h i lo r s c \<Longrightarrow> myrefl_cli_copy_data_element (cli_db c) = myrefl_cli_copy_data_element s"
  by (simp add: at_obj_def)

text \<open>One page of a list: the loop from \<open>x\<close>, which the handle remembers.\<close>

lemma data_loop_page:
  assumes s: "linked s" "uses_below 4 s"
  shows "at_obj h i (Some x) r s c \<Longrightarrow> \<forall>y \<in> set zs. obj_valid s (Some y) TYPE_ANY \<Longrightarrow>
    \<exists>c' lo. data_loop (\<lambda>_ c. c) h mtu (x # zs) False es c =
        Some (es @ map (myrefl_cli_copy_data_element s) (take (mtu - length es) (x # zs)),
          drop (mtu - length es) (x # zs) = [], c') \<and>
      at_obj h i lo r s c' \<and> same_flag h c c' \<and>
      (drop (mtu - length es) (x # zs) \<noteq> [] \<longrightarrow> lo = Some (hd (drop (mtu - length es) (x # zs))))"
proof (induction zs arbitrary: x es c)
  case Nil
  show ?case
  proof (cases "length es < mtu")
    case False
    then show ?thesis using Nil by auto
  next
    case True
    then have "take (mtu - length es) [x] = [x]" "drop (mtu - length es) [x] = []" by simp_all
    then show ?thesis using True Nil at_obj_copy [OF Nil.prems(1)] by auto
  qed
next
  case (Cons z zs)
  show ?case
  proof (cases "length es < mtu")
    case False
    then show ?thesis using Cons.prems by auto
  next
    case True
    then obtain n where n: "mtu - length es = Suc n" "mtu - Suc (length es) = n" by (metis Suc_diff_Suc)
    define c1 where "c1 = handle_set_last_obj h (Some z) c"
    have c1: "at_obj h i (Some z) r s c1" "same_flag h c c1"
      using move_last [OF Cons.prems(1) s(2)] by (simp_all add: c1_def)
    have step: "data_loop (\<lambda>_ c. c) h mtu (x # z # zs) False es c =
        data_loop (\<lambda>_ c. c) h mtu (z # zs) False (es @ [myrefl_cli_copy_data_element s x]) c1"
      using True Cons.prems(2) valid_own_linked [OF at_obj_linked [OF Cons.prems(1) s(1)]]
      by (simp add: Let_def at_obj_copy [OF Cons.prems(1)] at_obj_valid [OF Cons.prems(1)] c1_def)
    have v: "\<forall>y \<in> set zs. obj_valid s (Some y) TYPE_ANY" using Cons.prems(2) by simp
    show ?thesis
      unfolding step using Cons.IH [OF c1(1) v, of "es @ [myrefl_cli_copy_data_element s x]"] n same_flag_trans [OF c1(2)]
      by auto
  qed
qed

lemma resume_at: "xs = us @ y # vs \<Longrightarrow> y \<notin> set us \<Longrightarrow> resume xs (Some y) = Some (y # vs)"
  by (induction us arbitrary: xs) (auto simp: resume_def)

text \<open>The list a filter selects.\<close>

definition related :: "cli_filter \<Rightarrow> db \<Rightarrow> oid \<Rightarrow> oid list option" where
  "related flt s x =
     (case flt of
        CLI_PARENT_DEPEND \<Rightarrow> Some (o_parent_depend (objs s x))
      | CLI_RULE_ACTION \<Rightarrow> map_option r_action_list (rule_of s x)
      | CLI_RULE_INPUT \<Rightarrow> map_option r_inputs (rule_of s x)
      | _ \<Rightarrow> None)"

definition related_ok :: "db \<Rightarrow> cli \<Rightarrow> nat \<Rightarrow> iref \<Rightarrow> oid option \<Rightarrow> oid list \<Rightarrow> bool" where
  "related_ok s c0 h i r xs \<longleftrightarrow> linked s \<and> uses_below 4 s \<and> (\<exists>n. open_as h n c0) \<and> any_valid s (Some i) None r \<and>
     related (ch_filter (cli_handle_at c0 h)) s (obj_of i) = Some xs \<and> distinct xs \<and>
     (\<forall>y \<in> set xs. obj_valid s (Some y) TYPE_ANY)"

text \<open>What a listing of the list \<open>xs\<close> has still to look at.\<close>

definition related_at :: "db \<Rightarrow> cli \<Rightarrow> nat \<Rightarrow> iref \<Rightarrow> oid option \<Rightarrow> oid list \<Rightarrow> oid list \<Rightarrow> cli \<Rightarrow> bool" where
  "related_at s c0 h i r xs ys c \<longleftrightarrow> related_ok s c0 h i r xs \<and>
     (case ys of
        [] \<Rightarrow> \<exists>k. closed h (s\<lparr>ticks := k\<rparr>) c0 c
      | y # _ \<Rightarrow> same_but h c0 c \<and> (\<exists>us lo k. xs = us @ ys \<and> at_obj h (Some i) lo r (s\<lparr>ticks := k\<rparr>) c \<and>
          (lo = Some y \<or> lo = None \<and> us = [])))"

definition data_page :: "32 word \<Rightarrow> nat \<Rightarrow> cli \<Rightarrow> (cli_data_element list option \<times> cli) option" where
  "data_page n mx c = map_option (apfst (map_option d_elements)) (myrefl_cli_local_get_depend_or_trigger_data n mx c)"

lemma any_valid_ticks [simp]: "any_valid (s\<lparr>ticks := k\<rparr>) i lo r = any_valid s i lo r"
  by (simp add: any_valid_def runtime_inst_valid [of s "s\<lparr>ticks := k\<rparr>"])

lemma any_valid_last: "any_valid s i lo r = any_valid s i lo' r"
  by (simp add: any_valid_def)

text \<open>One call, with a handle that is at \<open>y\<close>.\<close>

lemma list_data_page:
  assumes s: "linked s" "uses_below 4 s" "any_valid s (Some i) None r" "handles_in_use c = Some hs"
    and xs: "xs = us @ y # vs" "distinct xs" "\<forall>y \<in> set xs. obj_valid s (Some y) TYPE_ANY"
    and at: "at_obj h (Some i) lo r s c" "lo = Some y \<or> lo = None \<and> us = []"
  shows "\<exists>c'. list_data (\<lambda>_ c. c) h mtu xs c =
      Some (Some \<lparr>d_num_elements = length (take mtu (y # vs)), d_elements = map (myrefl_cli_copy_data_element s) (take mtu (y # vs))\<rparr>, c') \<and>
    (case drop mtu (y # vs) of
       [] \<Rightarrow> closed h s c c'
     | z # _ \<Rightarrow> at_obj h (Some i) (Some z) r s c' \<and> same_but h c c')"
proof -
  have res: "resume xs lo = Some (y # vs)"
    using at(2) xs(1,2) resume_at [OF xs(1)] by (auto simp: resume_def)
  have lo: "ch_last_obj (cli_handle_at c h) = lo" using at(1) by (simp add: at_obj_def)
  obtain b where b: "(case lo of Some _ \<Rightarrow> Some (True, c)
      | None \<Rightarrow> map_option (\<lambda>(ok, c). (ok, if ok then handle_set_last_obj h (Some (hd (y # vs))) c else c)) (valid_own (Some (hd (y # vs))) c)) = Some (True, b)"
    "at_obj h (Some i) (Some y) r s b" "same_flag h c b"
  proof (cases lo)
    case None
    then show ?thesis
      using that move_last [OF at(1) s(2), of "Some y"] xs(1,3) valid_own_linked [OF at_obj_linked [OF at(1) s(1)]] at_obj_valid [OF at(1)]
      by simp
  qed (use that at in auto)
  obtain c1 lo' where c1: "data_loop (\<lambda>_ c. c) h mtu (y # vs) False [] b =
      Some (map (myrefl_cli_copy_data_element s) (take mtu (y # vs)), drop mtu (y # vs) = [], c1)"
    "at_obj h (Some i) lo' r s c1" "same_flag h b c1" "drop mtu (y # vs) \<noteq> [] \<longrightarrow> lo' = Some (hd (drop mtu (y # vs)))"
    using data_loop_page [OF s(1,2) b(2), of vs mtu "[]"] xs(1,3) by auto
  define c2 where "c2 = myrefl_cli_local_handle_reset_in_use_flag h c1"
  have c2: "at_obj h (Some i) lo' r s c2" "same_but h c c2"
    using at_obj_flag [OF c1(2)] same_but_trans [OF same_but_trans [OF same_flagD [OF b(3)] same_flagD [OF c1(3)]] same_but_flag]
    by (simp_all add: c2_def)
  have run: "list_data (\<lambda>_ c. c) h mtu xs c = map_option (Pair (Some
      \<lparr>d_num_elements = length (take mtu (y # vs)), d_elements = map (myrefl_cli_copy_data_element s) (take mtu (y # vs))\<rparr>))
      (if drop mtu (y # vs) = [] then handle_clean_up h c2 else Some c2)"
    unfolding list_data_def Let_def lo res Option.bind.bind_lunit b(1) split_conv if_True c1(1) finish_data_def c2_def
    by (simp only: length_map)
  show ?thesis
  proof (cases "drop mtu (y # vs)")
    case Nil
    have hs: "handles_in_use c1 = Some hs" using c2(2) s(4) by (simp add: same_but_def c2_def myrefl_cli_local_handle_reset_in_use_flag_def upd_handle_def)
    obtain c' where "end_handle h c1 = Some c'" "closed h s c1 c'"
      using end_handle_closes [OF c1(2) s(1,2) _ hs] s(3) any_valid_last by blast
    then show ?thesis
      using run Nil closed_same_but [OF same_but_trans [OF same_flagD [OF b(3)] same_flagD [OF c1(3)]]]
      by (simp add: end_handle_def c2_def)
  next
    case (Cons z zs)
    then show ?thesis using run c2 c1(4) by simp
  qed
qed

lemma begin_use_reads [simp]:
  "objs (cli_db (begin_use h c)) = objs (cli_db c)" "rule_of (cli_db (begin_use h c)) = rule_of (cli_db c)"
  "insts (cli_db (begin_use h c)) = insts (cli_db c)"
  by (simp_all add: begin_use_def set_used_last_time_def myrefl_cli_local_handle_set_in_use_flag_def upd_handle_def time_now_def
      rule_of_def fun_eq_iff)

lemma related_run:
  assumes "myrefl_cli_local_handle_get n c = Some h" and "ch_instance (cli_handle_at c h) = Some i"
    and "related (ch_filter (cli_handle_at c h)) (cli_db c) (obj_of i) = Some xs" and "xs \<noteq> []"
  shows "myrefl_cli_local_get_depend_or_trigger_data n mtu c = list_data (\<lambda>_ c. c) h mtu xs (begin_use h c)"
  using assms
  by (cases "ch_filter (cli_handle_at c h)")
    (auto simp: myrefl_cli_local_get_depend_or_trigger_data_def related_def get_parent_depend_def get_rule_actions_or_inputs_def)

lemma held_related [simp]: "related flt (held is (s\<lparr>ticks := k\<rparr>)) = related flt s"
  by (auto simp: fun_eq_iff related_def rule_of_def held_def split: cli_filter.split)

lemma get_related_page:
  assumes at: "related_at s c0 h i r xs ys c" and n: "open_as h n c0" and ys: "ys \<noteq> []"
  shows "\<exists>c'. myrefl_cli_local_get_depend_or_trigger_data n mtu c =
      Some (Some \<lparr>d_num_elements = length (take mtu ys), d_elements = map (myrefl_cli_copy_data_element s) (take mtu ys)\<rparr>, c') \<and>
    related_at s c0 h i r xs (drop mtu ys) c'"
proof -
  obtain y vs where y: "ys = y # vs" using ys by (cases ys) auto
  obtain us lo k where a: "same_but h c0 c" "xs = us @ y # vs" "at_obj h (Some i) lo r (s\<lparr>ticks := k\<rparr>) c" "lo = Some y \<or> lo = None \<and> us = []"
    using at by (auto simp: related_at_def y)
  have ok: "related_ok s c0 h i r xs" using at by (simp add: related_at_def)
  obtain hs where hs: "handles_in_use c0 = Some hs" "myrefl_cli_local_handle_get n c0 = Some h"
    using n by (auto simp: open_as_def)
  define t where "t = s\<lparr>ticks := Suc k\<rparr>"
  define b where "b = begin_use h c"
  have b: "at_obj h (Some i) lo r t b" "same_but h c0 b"
    using at_obj_begin [OF a(3)] same_but_trans [OF a(1)] by (simp_all add: t_def b_def)
  have run: "myrefl_cli_local_get_depend_or_trigger_data n mtu c = list_data (\<lambda>_ c. c) h mtu xs b"
    unfolding b_def
  proof (rule related_run)
    show "related (ch_filter (cli_handle_at c h)) (cli_db c) (obj_of i) = Some xs"
      using ok a(1,3) by (simp add: related_ok_def at_obj_def same_but_def)
  qed (use hs same_but_get [OF a(1)] a(2,3) in \<open>simp_all add: at_obj_def\<close>)
  have pre: "linked t" "uses_below 4 t" "any_valid t (Some i) None r" "handles_in_use b = Some hs" "distinct xs"
    "\<forall>y \<in> set xs. obj_valid t (Some y) TYPE_ANY"
    using ok b(2) hs(1) by (simp_all add: related_ok_def t_def same_but_def)
  obtain c' where c': "list_data (\<lambda>_ c. c) h mtu xs b =
      Some (Some \<lparr>d_num_elements = length (take mtu ys), d_elements = map (myrefl_cli_copy_data_element s) (take mtu ys)\<rparr>, c')"
    "case drop mtu ys of [] \<Rightarrow> closed h t b c' | z # _ \<Rightarrow> at_obj h (Some i) (Some z) r t c' \<and> same_but h b c'"
    using list_data_page [OF pre(1-4) a(2) pre(5,6) b(1) a(4), of mtu] by (auto simp: y t_def)
  have "related_at s c0 h i r xs (drop mtu ys) c'"
  proof (cases "drop mtu ys")
    case Nil
    then show ?thesis using c'(2) ok closed_same_but [OF b(2)] by (auto simp: related_at_def t_def)
  next
    case (Cons z zs)
    have "xs = (us @ take mtu ys) @ z # zs" using a(2) y Cons by (metis append_assoc append_take_drop_id)
    then show ?thesis
      unfolding Cons using c'(2) Cons ok same_but_trans [OF b(2)]
      by (auto simp: related_at_def t_def intro!: exI [of _ "us @ take mtu ys"])
  qed
  then show ?thesis using run c'(1) by auto
qed

lemma chunk_take: "chunk n (\<lambda>_. True) xs = (take n xs, drop n xs)"
proof (induction xs arbitrary: n)
  case (Cons x xs)
  then show ?case by (cases n) simp_all
qed simp

interpretation relatives: pager "data_page n" "\<lambda>ys c. open_as h n c0 \<and> related_at s c0 h i r xs ys c" "\<lambda>_. True"
  "myrefl_cli_copy_data_element s" for s c0 h n i r xs
proof (unfold_locales, goal_cases)
  case (1 ys c mx)
  then obtain c' where "myrefl_cli_local_get_depend_or_trigger_data n mx c =
      Some (Some \<lparr>d_num_elements = length (take mx ys), d_elements = map (myrefl_cli_copy_data_element s) (take mx ys)\<rparr>, c')"
    "related_at s c0 h i r xs (drop mx ys) c'"
    using get_related_page [OF _ _ 1(2)] by blast
  then show ?case using 1(1) by (simp add: data_page_def chunk_take)
next
  case (2 c mx)
  then obtain k where "closed h (s\<lparr>ticks := k\<rparr>) c0 c" by (auto simp: related_at_def)
  then have "myrefl_cli_local_handle_get n c = None" using 2 closed_get by blast
  then show ?case by (simp add: data_page_def myrefl_cli_local_get_depend_or_trigger_data_def)
qed

section \<open>Opening a handle for a name\<close>

lemma ticks_lookup:
  assumes "tree_ok s" and "system_comp s \<noteq> None"
  shows "myrefl_obj_get_by_name_unconverted (s\<lparr>ticks := k\<rparr>) n ty = myrefl_obj_get_by_name_unconverted s n ty"
proof -
  have o: "lookup_order ty (s\<lparr>ticks := k\<rparr>) = lookup_order ty s" by (simp add: lookup_order_def)
  have h: "has_name (s\<lparr>ticks := k\<rparr>) m = has_name s m" for m by (simp add: has_name_def inst_def fun_eq_iff)
  show ?thesis
    using assms by (simp add: myrefl_obj_get_by_name_unconverted_def by_name_finds o h)
qed

text \<open>The object of a name, as an entry for its type finds it.\<close>

definition found :: "db \<Rightarrow> name \<Rightarrow> obj_type \<Rightarrow> oid \<Rightarrow> bool" where
  "found s m ty x \<longleftrightarrow> m \<noteq> [] \<and> myrefl_obj_get_by_name_unconverted s m ty = Some (Some x) \<and> obj_valid s (Some x) ty"

lemma open_named_until:
  assumes c: "listable c" "cli_db c = s" and lt: "local_type type = Some lt" and x: "found s m (cli_to_obj_type lt) x"
    and flt: "flt \<noteq> CLI_SHOW_COMP"
  obtains h b where "h = next_pointer c" and "at_obj h (Some (base x)) None None (s\<lparr>ticks := Suc (ticks s)\<rparr>) b"
    and "handles_in_use b = Some (h # open_handles c)" and "ch_type (cli_handle_at b h) = type"
    and "ch_filter (cli_handle_at b h) = flt" and "ch_id (cli_handle_at b h) = next_handle_id c" and "open_as h (next_handle_id c) b"
    and "\<not> ch_in_use (cli_handle_at b h)"
    and "\<And>nm. myrefl_cli_local_get_info_handle (Some m) type flt nm c =
      Option.bind (if instance_type type then handle_member h (cli_to_obj_type lt) x nm b else Some b)
        (\<lambda>c. Some (ch_id (cli_handle_at (set_filter h flt c) h), set_filter h flt c))"
proof -
  have s: "linked s" "tree_ok s" "uses_below 4 s" "system_comp s \<noteq> None" "new_handle_ok c"
    using c by (auto simp: listable_def)
  obtain h a where al: "myrefl_cli_local_handle_allocate type flt c = (h, a)" by (rule prod.exhaust)
  note al' = allocated_handle [OF al s(5), unfolded c(2)]
  define t where "t = s\<lparr>ticks := Suc (ticks s)\<rparr>"
  have t: "linked t" "uses_below 4 t" "obj_valid t = obj_valid s" using s by (simp_all add: t_def)
  have a: "at_obj h None None None t a" "cli_db a = t" using al'(2) by (simp_all add: t_def at_obj_def)
  obtain b where b: "handle_set_instance h (Some (base x)) a = Some b" "at_obj h (Some (base x)) None None t b" "same_flag h a b"
    using move_instance [OF a(1) t(1,2), of "Some (base x)"] x obj_valid_any t(3)
    by (auto simp: any_valid_def found_def)
  have look: "myrefl_obj_get_by_name_unconverted (cli_db a) m (cli_to_obj_type lt) = Some (Some x)"
    using x ticks_lookup [OF s(2,4)] unfolding a(2) t_def by (simp add: found_def)
  have ok: "valid_obj (Some x) (cli_to_obj_type lt) a = Some (True, a)"
    using valid_obj_linked [of a "Some x" "cli_to_obj_type lt"] x t a(2) by (simp add: found_def)
  have "named_handle h m type lt flt nm a =
      Option.bind (if instance_type type then handle_member h (cli_to_obj_type lt) x nm b else Some b)
        (\<lambda>c. Some (ch_id (cli_handle_at (set_filter h flt c) h), set_filter h flt c))" for nm
    unfolding named_handle_def Let_def if_not_P [OF flt] look ok
    by (simp add: b(1) ok)
  then have "myrefl_cli_local_get_info_handle (Some m) type flt nm c =
      Option.bind (if instance_type type then handle_member h (cli_to_obj_type lt) x nm b else Some b)
        (\<lambda>c. Some (ch_id (cli_handle_at (set_filter h flt c) h), set_filter h flt c))" for nm
    using x by (simp add: myrefl_cli_local_get_info_handle_def lt al badstr_def found_def)
  moreover have "\<not> ch_in_use (cli_handle_at b h)"
    using b(3) arg_cong [OF al'(8), of "\<lambda>c. ch_in_use (cli_handle_at c h)"]
    by (simp add: same_flag_def myrefl_cli_local_handle_reset_in_use_flag_def upd_handle_def)
  ultimately show ?thesis
    using that [of h b] al' b(2) same_flagD [OF b(3)] same_but_open [OF same_flagD [OF b(3)] al'(7)] by (simp add: t_def same_but_def)
qed

lemma open_named:
  assumes c: "listable c" "cli_db c = s" and type: "object_type type" and x: "found s m (cli_to_obj_type type) x"
    and flt: "flt \<noteq> CLI_SHOW_COMP"
  shows "\<exists>c1 h. myrefl_cli_local_get_info_handle (Some m) type flt nm c = Some (next_handle_id c, c1) \<and>
    open_as h (next_handle_id c) c1 \<and> at_obj h (Some (base x)) None None (s\<lparr>ticks := Suc (ticks s)\<rparr>) c1 \<and>
    handles_in_use c1 = Some (h # open_handles c) \<and> ch_filter (cli_handle_at c1 h) = flt \<and>
    ch_type (cli_handle_at c1 h) = type \<and> h = next_pointer c"
proof -
  have lt: "local_type type = Some type" "\<not> instance_type type"
    using type by (auto simp: object_type_def local_type_def instance_type_def)
  show ?thesis
  proof (rule open_named_until [OF c lt(1) x flt], goal_cases)
    case (1 h b)
    define f where "f = set_filter h flt b"
    have o: "myrefl_cli_local_get_info_handle (Some m) type flt nm c = Some (ch_id (cli_handle_at f h), f)"
      unfolding f_def using 1(9) [of nm] lt(2) by simp
    have f: "at_obj h (Some (base x)) None None (s\<lparr>ticks := Suc (ticks s)\<rparr>) f" "same_but h b f"
      using at_obj_filter [OF 1(2)] same_but_filter [of b h flt] 1(5) by (simp_all add: f_def)
    then have "handles_in_use f = Some (h # open_handles c)" "ch_filter (cli_handle_at f h) = flt"
      "ch_id (cli_handle_at f h) = next_handle_id c" "open_as h (next_handle_id c) f" "ch_type (cli_handle_at f h) = type"
      using 1(3,4,5,6,7) same_but_open [OF f(2)] by (auto simp: same_but_def)
    then show ?case using o f(1) 1(1) by auto
  qed
qed

text \<open>Reading what a filter selects, page by page.\<close>

definition list_related :: "nat \<Rightarrow> name \<Rightarrow> cli_type \<Rightarrow> cli_filter \<Rightarrow> cli \<Rightarrow> (cli_data_element list \<times> cli) option" where
  "list_related mx m type flt c =
     Option.bind (myrefl_cli_local_get_info_handle (Some m) type flt None c) (\<lambda>(n, c).
       if n = 0 then Some ([], c) else read_pages (data_page n mx) c)"

lemma related_listed:
  assumes c: "listable c" "cli_db c = s" and type: "object_type type" and x: "found s m (cli_to_obj_type type) x"
    and xs: "related flt s x = Some xs" "xs \<noteq> []" "distinct xs" "\<forall>y \<in> set xs. obj_valid s (Some y) TYPE_ANY" and mx: "0 < mx"
  shows "\<exists>c' k. list_related mx m type flt c = Some (map (myrefl_cli_copy_data_element s) xs, c') \<and>
    cli_db c' = s\<lparr>ticks := k\<rparr> \<and> handles_in_use c' = Some (open_handles c)"
proof -
  have flt: "flt \<noteq> CLI_SHOW_COMP" using xs(1) by (auto simp: related_def)
  obtain c1 h where o: "myrefl_cli_local_get_info_handle (Some m) type flt None c = Some (next_handle_id c, c1)"
    "open_as h (next_handle_id c) c1" "at_obj h (Some (base x)) None None (s\<lparr>ticks := Suc (ticks s)\<rparr>) c1"
    "handles_in_use c1 = Some (h # open_handles c)" "ch_filter (cli_handle_at c1 h) = flt"
    using open_named [OF c type x flt, of None] by blast
  have "related_at s c1 h (base x) None xs xs c1"
    using c x xs o obj_valid_any
    by (cases xs) (auto simp: related_at_def related_ok_def listable_def any_valid_def found_def base_def [symmetric] intro!: exI)
  then obtain c' where "read_pages (data_page (next_handle_id c) mx) c1 = Some (map (myrefl_cli_copy_data_element s) xs, c')"
    "related_at s c1 h (base x) None xs [] c'"
    using relatives.pages_show_all [OF mx, of h "next_handle_id c" c1 s "base x" None xs xs c1] o(2) by auto
  then show ?thesis
    using o(1,4) c by (auto simp: list_related_def related_at_def closed_def listable_def new_handle_ok_def)
qed

end
