(* ===== verification/CliUses.thy ===== *)
theory CliUses
  imports CliRelated
begin

text \<open>
  What some calls of the shell do to the use counters: a handle for the instances of an object without
  members keeps its object in use, and the listing of the children gives a use back that it never took.
\<close>

section \<open>A handle without an instance\<close>

lemma memberless_handle:
  assumes c: "listable c" "cli_db c = s" and type: "instance_type type" "local_type type = Some lt"
    and x: "found s m (cli_to_obj_type lt) x" and flt: "flt \<noteq> CLI_SHOW_COMP" and none: "o_members (objs s x) = []"
  shows "\<exists>c1 h k. myrefl_cli_local_get_info_handle (Some m) type flt None c = Some (next_handle_id c, c1) \<and>
    open_as h (next_handle_id c) c1 \<and> ch_instance (cli_handle_at c1 h) = None \<and> ch_last_obj (cli_handle_at c1 h) = None \<and>
    ch_last_remote_obj (cli_handle_at c1 h) = None \<and> \<not> ch_in_use (cli_handle_at c1 h) \<and>
    cli_db c1 = held [base x] (s\<lparr>ticks := k\<rparr>) \<and> handles_in_use c1 = Some (h # open_handles c)"
proof (rule open_named_until [OF c type(2) x flt], goal_cases)
  case (1 h b)
  define d where "d = upd_handle h (\<lambda>x. x\<lparr>ch_instance := None\<rparr>) b"
  have "o_members (objs (cli_db b) x) = []" using 1(2) none by (simp add: at_obj_def held_def)
  then have "handle_member h (cli_to_obj_type lt) x None b = Some d"
    by (simp add: handle_member_def badstr_def set_member_def valid_instance_def d_def)
  then have o: "myrefl_cli_local_get_info_handle (Some m) type flt None c = Some (next_handle_id c, set_filter h flt d)"
    using 1(9) [of None] type(1) 1(6) by (simp add: set_filter_def d_def upd_handle_def)
  have n: "next_handle_id c \<noteq> 0" using c(1) by (simp add: listable_def new_handle_ok_def)
  define e where "e = set_filter h flt d"
  have e: "open_as h (next_handle_id c) e" "handles_in_use e = Some (h # open_handles c)" "cli_db e = cli_db b"
    "ch_instance (cli_handle_at e h) = None" "ch_last_obj (cli_handle_at e h) = ch_last_obj (cli_handle_at b h)"
    "ch_last_remote_obj (cli_handle_at e h) = ch_last_remote_obj (cli_handle_at b h)"
    "ch_in_use (cli_handle_at e h) = ch_in_use (cli_handle_at b h)"
    using 1(3,6,7) n by (auto simp: e_def set_filter_def d_def upd_handle_def open_as_def myrefl_cli_local_handle_get_def)
  show ?case
    using o 1(2,8) e unfolding at_obj_def e_def [symmetric] by auto
qed

text \<open>Every reader refuses it; and when it is freed nothing is given back.\<close>

lemma memberless_reader:
  assumes "open_as h n c" and "ch_instance (cli_handle_at c h) = None"
  shows "with_handle n none f c = Some (none, c)"
  using assms by (simp add: with_handle_def open_as_def valid_instance_def)

lemma memberless_freed:
  assumes "ch_instance (cli_handle_at c h) = None" and "ch_last_obj (cli_handle_at c h) = None"
    and "ch_last_remote_obj (cli_handle_at c h) = None" and "\<not> ch_in_use (cli_handle_at c h)"
    and "handles_in_use c = Some hs" and "linked (cli_db c)"
  shows "myrefl_cli_local_handle_free h c = Some (h \<in> set hs, c\<lparr>handles_in_use := Some (remove1 h hs)\<rparr>)"
  using assms by (simp add: myrefl_cli_local_handle_free_def valid_instance_def valid_obj_linked when_valid_def)

section \<open>The listing of the children\<close>

lemma child_use:
  assumes at: "at_obj h (Some i) None r s c" and s: "linked s" "uses_below 4 s" "any_valid s (Some i) None r"
    and hs: "handles_in_use c = Some hs" and y: "obj_valid s (Some y) TYPE_ANY" "i_in_use (inst s (base y)) \<noteq> 0" and mtu: "0 < mtu"
    and touch: "touch y = on_db (upd_inst (base y) (\<lambda>y. y\<lparr>i_in_use := i_in_use y - 1\<rparr>))"
  shows "\<exists>c'. list_data touch h mtu [y] c =
      Some (Some \<lparr>d_num_elements = 1, d_elements = [myrefl_cli_copy_data_element s y]\<rparr>, c') \<and>
    closed h (upd_inst (base y) (\<lambda>y. y\<lparr>i_in_use := i_in_use y - 1\<rparr>) s) c c'"
proof -
  define b where "b = handle_set_last_obj h (Some y) c"
  have b: "at_obj h (Some i) (Some y) r s b" "same_flag h c b"
    using move_last [OF at s(2)] by (simp_all add: b_def)
  define d where "d = touch y b"
  define s' where "s' = upd_inst (base y) (\<lambda>y. y\<lparr>i_in_use := i_in_use y - 1\<rparr>) s"
  have run: "list_data touch h mtu [y] c = map_option (Pair (Some \<lparr>d_num_elements = 1, d_elements = [myrefl_cli_copy_data_element s y]\<rparr>)) (end_handle h d)"
    using at mtu y(1) valid_own_linked [OF at_obj_linked [OF at s(1)], of y] at_obj_valid [OF at] at_obj_copy [OF b(1)]
    by (simp add: list_data_def at_obj_def resume_def Let_def b_def [symmetric] d_def [symmetric] finish_data_def end_handle_def)
  have r: "runtime s s'" by (simp add: s'_def runtime_upd_inst inst_id_def)
  have s': "linked s'" "any_valid s' (Some i) None r"
    using s r runtime_linked [OF r] runtime_inst_valid [OF r] by (auto simp: any_valid_def runtime_obj_valid [OF r])
  have "unat (i_in_use (inst s (base y)) - 1) < unat (i_in_use (inst s (base y)))"
    using y(2) by (metis measure_unat)
  then have u: "uses_below 4 s'"
    using s(2) by (auto simp: uses_below_def s'_def upd_inst_def inst_def dest: spec [of _ "base y"])
  have "held is s' = upd_inst (base y) (\<lambda>y. y\<lparr>i_in_use := i_in_use y - 1\<rparr>) (held is s)" for "is"
    by (simp add: held_def s'_def upd_inst_def fun_eq_iff algebra_simps)
  then have d: "at_obj h (Some i) (Some y) r s' d" "same_but h c d"
    using b by (simp_all add: d_def touch on_db_def at_obj_def same_flag_def same_but_def)
  obtain c' where "end_handle h d = Some c'" "closed h s' d c'"
    using end_handle_closes [OF d(1) s'(1) u _ ] s'(2) hs d(2) any_valid_last [of s' "Some i" "Some y" r None]
    by (auto simp: same_but_def)
  then show ?thesis using run closed_same_but [OF d(2)] by (auto simp: s'_def)
qed

lemma child_listing:
  assumes c: "listable c" "cli_db c = s" and type: "object_type type" and x: "found s m (cli_to_obj_type type) x"
    and y: "o_child_depend (objs s x) = [y]" "obj_valid s (Some y) TYPE_ANY" "i_in_use (inst s (base y)) \<noteq> 0" and mtu: "0 < mtu"
  shows "\<exists>n c1 c2 k. myrefl_cli_local_get_info_handle (Some m) type CLI_CHILD_DEPEND None c = Some (n, c1) \<and>
    myrefl_cli_local_get_depend_or_trigger_data n mtu c1 =
      Some (Some \<lparr>d_num_elements = 1, d_elements = [myrefl_cli_copy_data_element s y]\<rparr>, c2) \<and>
    cli_db c2 = upd_inst (base y) (\<lambda>y. y\<lparr>i_in_use := i_in_use y - 1\<rparr>) (s\<lparr>ticks := k\<rparr>) \<and>
    handles_in_use c2 = Some (open_handles c)"
proof -
  have s: "linked s" "uses_below 4 s" "new_handle_ok c" using c by (simp_all add: listable_def)
  obtain c1 h where o: "myrefl_cli_local_get_info_handle (Some m) type CLI_CHILD_DEPEND None c = Some (next_handle_id c, c1)"
    "open_as h (next_handle_id c) c1" "at_obj h (Some (base x)) None None (s\<lparr>ticks := Suc (ticks s)\<rparr>) c1"
    "handles_in_use c1 = Some (h # open_handles c)" "ch_filter (cli_handle_at c1 h) = CLI_CHILD_DEPEND"
    using open_named [OF c type x, of CLI_CHILD_DEPEND None] by auto
  define t where "t = s\<lparr>ticks := Suc (Suc (ticks s))\<rparr>"
  define b where "b = begin_use h c1"
  have b: "at_obj h (Some (base x)) None None t b" "same_but h c1 b"
    using at_obj_begin [OF o(3)] by (simp_all add: t_def b_def)
  have hs: "handles_in_use b = Some (h # open_handles c)" using b(2) o(4) by (simp add: same_but_def)
  have t: "linked t" "uses_below 4 t" "any_valid t (Some (base x)) None None" "obj_valid t = obj_valid s" "inst t = inst s"
    "myrefl_cli_copy_data_element t = myrefl_cli_copy_data_element s"
    using s x obj_valid_any by (auto simp: t_def any_valid_def found_def inst_def fun_eq_iff)
  define touch where "touch = (\<lambda>x. on_db (upd_inst (base x) (\<lambda>y. y\<lparr>i_in_use := i_in_use y - 1\<rparr>)))"
  have ch: "o_child_depend (objs (cli_db b) x) = [y]" using b(1) y(1) by (simp add: at_obj_def t_def held_def)
  have i: "ch_instance (cli_handle_at c1 h) = Some (base x)" using o(3) by (simp add: at_obj_def)
  have run: "myrefl_cli_local_get_depend_or_trigger_data (next_handle_id c) mtu c1 = list_data touch h mtu [y] b"
    using o(2,5) i ch unfolding open_as_def
    by (simp add: myrefl_cli_local_get_depend_or_trigger_data_def get_child_depend_def b_def [symmetric] touch_def)
  obtain c2 where "list_data touch h mtu [y] b = Some (Some \<lparr>d_num_elements = 1, d_elements = [myrefl_cli_copy_data_element s y]\<rparr>, c2)"
    "closed h (upd_inst (base y) (\<lambda>y. y\<lparr>i_in_use := i_in_use y - 1\<rparr>) t) b c2"
    using child_use [OF b(1) t(1-3) hs, of y mtu touch] y(2,3) t mtu by (auto simp: touch_def)
  then show ?thesis using o(1) run hs by (auto simp: closed_def t_def)
qed

section \<open>The rules of a test\<close>

text \<open>A page of the rules of a test that is returned is full: the last rules are returned to nobody.\<close>

lemma chain_loop_full:
  assumes "chain_loop rel (\<lambda>_. None) h mtu x es c = Some r"
  shows "length es \<le> mtu \<longrightarrow> (case fst r of None \<Rightarrow> True | Some i \<Rightarrow> length (d_elements i) = mtu \<and> d_num_elements i = mtu)"
proof -
  let ?P = "\<lambda>(rel :: obj_rel) (fin :: cli_data_element list \<Rightarrow> cli_data option) (h :: nat) mtu (x :: oid)
    (es :: cli_data_element list) (c :: cli) (r :: cli_data option \<times> cli). fin = (\<lambda>_. None) \<longrightarrow> length es \<le> mtu \<longrightarrow>
      (case fst r of None \<Rightarrow> True | Some i \<Rightarrow> length (d_elements i) = mtu \<and> d_num_elements i = mtu)"
  have "?P rel (\<lambda>_. None) h mtu x es c r"
  proof (rule chain_loop.raw_induct [where P = ?P, OF _ assms], goal_cases)
    case (1 loop rel fin h mtu x es c r)
    note step = 1
    show ?case
      using step(2) by (auto simp: Let_def bind_eq_Some_conv split: if_splits prod.splits dest!: step(1))
  qed
  then show ?thesis by simp
qed

lemma test_rules_full:
  assumes "get_test_rules h mtu c = Some (Some i, c')"
  shows "length (d_elements i) = mtu \<and> d_num_elements i = mtu"
  using assms
  by (fastforce dest!: chain_loop_full simp: get_test_rules_def Let_def bind_eq_Some_conv split: option.splits prod.splits if_splits)

text \<open>The rules of a test, from the first one along the chain of the input.\<close>

fun rules_from :: "db \<Rightarrow> oid list \<Rightarrow> bool" where
  "rules_from s [] = False"
| "rules_from s [x] = (obj_valid s (Some x) TYPE_RULE \<and> map_option r_next_in_input (rule_of s x) = Some None)"
| "rules_from s (x # y # ys) =
     (obj_valid s (Some x) TYPE_RULE \<and> map_option r_next_in_input (rule_of s x) = Some (Some y) \<and> rules_from s (y # ys))"

lemma rules_from_hd: "rules_from s (x # xs) \<Longrightarrow> obj_valid s (Some x) TYPE_RULE"
  by (cases xs) simp_all

lemma rules_from_cong: "obj_valid u = obj_valid s \<Longrightarrow> rule_of u = rule_of s \<Longrightarrow> rules_from u xs = rules_from s xs"
  by (induction s xs rule: rules_from.induct) simp_all

lemma next_rule:
  assumes "map_option r_next_in_input (rule_of s x) = Some p"
  shows "myrefl_obj_get_next_rel s (Some x) REL_NEXT_IN_TEST = Some p"
  using assms
  by (auto simp: myrefl_obj_get_next_rel_def rule_of_def type_of_def rel_to_type_def split: obj_data.splits)

lemma first_rule:
  assumes "map_option t_rule (test_of s x) = Some p"
  shows "myrefl_obj_get_first_rel s (Some x) REL_RULE = Some p"
  using assms by (auto simp: myrefl_obj_get_first_rel_def test_of_def split: obj_data.splits)

lemma rules_lost:
  assumes s: "linked s" "uses_below 4 s" "any_valid s i None r"
  shows "at_obj h i (Some x) r s c \<Longrightarrow> rules_from s (x # xs) \<Longrightarrow> length es + length xs < mtu \<Longrightarrow>
    handles_in_use c = Some hs \<Longrightarrow>
    \<exists>c'. chain_loop REL_NEXT_IN_TEST (\<lambda>_. None) h mtu x es c = Some (None, c') \<and> closed h s c c'"
proof (induction xs arbitrary: x es c)
  case Nil
  have "rule_of (cli_db c) = rule_of s" using Nil.prems(1) by (simp add: at_obj_def)
  then have "myrefl_obj_get_next_rel (cli_db c) (Some x) REL_NEXT_IN_TEST = Some None"
    using Nil.prems(2) next_rule [of "cli_db c" x None] by simp
  moreover have "valid_own None c = Some (False, c)"
    using valid_obj_linked [OF at_obj_linked [OF Nil.prems(1) s(1)]] by (simp add: valid_own_def)
  moreover obtain c' where "end_handle h c = Some c'" "closed h s c c'"
    using end_handle_closes [OF Nil.prems(1) s(1,2) _ Nil.prems(4)] s(3) any_valid_last by blast
  ultimately show ?case
    using Nil.prems(3) by (subst chain_loop.simps) (simp add: Let_def)
next
  case (Cons y ys)
  have "rule_of (cli_db c) = rule_of s" using Cons.prems(1) by (simp add: at_obj_def)
  then have n: "myrefl_obj_get_next_rel (cli_db c) (Some x) REL_NEXT_IN_TEST = Some (Some y)"
    using Cons.prems(2) next_rule [of "cli_db c" x "Some y"] by simp
  have r: "rules_from s (y # ys)" using Cons.prems(2) by simp
  have v: "valid_own (Some y) c = Some (True, c)"
    using valid_own_linked [OF at_obj_linked [OF Cons.prems(1) s(1)]] at_obj_valid [OF Cons.prems(1)]
      obj_valid_any [OF rules_from_hd [OF r]] by simp
  define c1 where "c1 = handle_set_last_obj h (Some y) c"
  have c1: "at_obj h i (Some y) r s c1" "same_flag h c c1"
    using move_last [OF Cons.prems(1) s(2)] by (simp_all add: c1_def)
  have "handles_in_use c1 = Some hs" using same_flagD [OF c1(2)] Cons.prems(4) by (simp add: same_but_def)
  then obtain c' where c': "chain_loop REL_NEXT_IN_TEST (\<lambda>_. None) h mtu y (es @ [myrefl_cli_copy_data_element (cli_db c) x]) c1 = Some (None, c')"
    "closed h s c1 c'"
    using Cons.IH [OF c1(1) r, of "es @ [myrefl_cli_copy_data_element (cli_db c) x]"] Cons.prems(3) by auto
  then have "chain_loop REL_NEXT_IN_TEST (\<lambda>_. None) h mtu x es c = Some (None, c')"
    using Cons.prems(3) n v by (subst chain_loop.simps) (simp add: Let_def c1_def)
  then show ?case using closed_same_but [OF same_flagD [OF c1(2)] c'(2)] by blast
qed

lemma test_rules_none:
  assumes c: "listable c" "cli_db c = s" and x: "found s m TYPE_TEST x"
    and t: "map_option t_rule (test_of s x) = Some (Some z)" "rules_from s (z # zs)" and mtu: "length (z # zs) \<le> mtu"
  shows "\<exists>n c1 c2. myrefl_cli_local_get_info_handle (Some m) CLI_TEST CLI_TEST_RULE None c = Some (n, c1) \<and> n \<noteq> 0 \<and>
    myrefl_cli_local_get_depend_or_trigger_data n mtu c1 = Some (None, c2) \<and> handles_in_use c2 = Some (open_handles c)"
proof -
  have s: "linked s" "uses_below 4 s" "next_handle_id c \<noteq> 0" using c by (auto simp: listable_def new_handle_ok_def)
  have ty: "object_type CLI_TEST" "cli_to_obj_type CLI_TEST = TYPE_TEST" by (simp_all add: object_type_def cli_to_obj_type_def)
  obtain c1 h where o: "myrefl_cli_local_get_info_handle (Some m) CLI_TEST CLI_TEST_RULE None c = Some (next_handle_id c, c1)"
    "open_as h (next_handle_id c) c1" "at_obj h (Some (base x)) None None (s\<lparr>ticks := Suc (ticks s)\<rparr>) c1"
    "handles_in_use c1 = Some (h # open_handles c)" "ch_filter (cli_handle_at c1 h) = CLI_TEST_RULE"
    "ch_type (cli_handle_at c1 h) = CLI_TEST"
    using open_named [OF c ty(1), of m x CLI_TEST_RULE None] x ty(2) by auto
  define u where "u = s\<lparr>ticks := Suc (Suc (ticks s))\<rparr>"
  define b where "b = begin_use h c1"
  have b: "at_obj h (Some (base x)) None None u b" "same_but h c1 b"
    using at_obj_begin [OF o(3)] by (simp_all add: u_def b_def)
  have u: "linked u" "uses_below 4 u" "any_valid u (Some (base x)) None None" "obj_valid u = obj_valid s" "rule_of u = rule_of s" "test_of u = test_of s"
    using s x obj_valid_any by (auto simp: u_def any_valid_def found_def inst_def fun_eq_iff rule_of_def test_of_def)
  define d where "d = handle_set_last_obj h (Some z) b"
  have d: "at_obj h (Some (base x)) (Some z) None u d" "same_flag h b d"
    using move_last [OF b(1) u(2)] by (simp_all add: d_def)
  have hs: "handles_in_use d = Some (h # open_handles c)" using b(2) same_flagD [OF d(2)] o(4) by (simp add: same_but_def)
  obtain c2 where c2: "chain_loop REL_NEXT_IN_TEST (\<lambda>_. None) h mtu z [] d = Some (None, c2)" "closed h u d c2"
    using rules_lost [OF u(1-3) d(1), of zs "[]" mtu] t(2) mtu hs rules_from_cong [OF u(4,5)] by auto
  have "test_of (cli_db b) = test_of s" using b(1) by (simp add: at_obj_def u)
  then have "myrefl_obj_get_first_rel (cli_db b) (Some x) REL_RULE = Some (Some z)"
    using t(1) first_rule [of "cli_db b" x "Some z"] by simp
  then have f: "first_obj h (\<lambda>db. myrefl_obj_get_first_rel db (Some x) REL_RULE) (\<lambda>_ _. TYPE_RULE) b = Some (Some z, d)"
    using b(1) valid_obj_linked [OF at_obj_linked [OF b(1) u(1)]] at_obj_valid [OF b(1)] u(4) rules_from_hd [OF t(2)]
    by (simp add: first_obj_def at_obj_def d_def)
  have i: "ch_instance (cli_handle_at c1 h) = Some (base x)" "ch_type (cli_handle_at b h) = CLI_TEST"
    using o(3,6) b(2) by (simp_all add: at_obj_def same_but_def)
  have "myrefl_cli_local_get_depend_or_trigger_data (next_handle_id c) mtu c1 = Some (None, c2)"
    using o(2,5) i f c2(1) ty(1) unfolding open_as_def
    by (simp add: myrefl_cli_local_get_depend_or_trigger_data_def get_test_rules_def Let_def b_def [symmetric])
  then show ?thesis using o(1) s(3) c2(2) hs by (auto simp: closed_def)
qed

end
