(* ===== verification/CliHistory.thy ===== *)
theory CliHistory
  imports CliPages SeqStats
begin

text \<open>
  The history of an instance: the sequencer writes its records into a ring, and the command line
  interface shows the ring from the oldest record to the newest one.
\<close>

section \<open>The ring\<close>

definition written :: "xos_time \<Rightarrow> result \<Rightarrow> int \<Rightarrow> cli_history" where
  "written t r v = \<lparr>clh_time = t, clh_result = r, clh_count = 1, clh_value = v\<rparr>"

definition good_history :: "obj_stats \<Rightarrow> bool" where
  "good_history s \<longleftrightarrow> length (history s) = OBJ_HISTORY_SIZE \<and> unat (history_head s) < OBJ_HISTORY_SIZE"

definition new_record :: "xos_time \<times> result \<times> int \<Rightarrow> obj_stats \<Rightarrow> obj_stats" where
  "new_record = (\<lambda>(t, r, v). new_history t r v)"

lemma head_cases:
  assumes "unat (h :: 32 word) < 5"
  obtains "h = 0" | "h = 1" | "h = 2" | "h = 3" | "h = 4"
proof -
  have h: "h = word_of_nat k" if "unat h = k" for k using that by auto
  have "unat h = 0 \<or> unat h = 1 \<or> unat h = 2 \<or> unat h = 3 \<or> unat h = 4" using assms by linarith
  then have "h = 0 \<or> h = 1 \<or> h = 2 \<or> h = 3 \<or> h = 4"
    using h [of 0] h [of 1] h [of 2] h [of 3] h [of 4] by (elim disjE) simp_all
  then show ?thesis using that by blast
qed

lemma five_records:
  assumes "length xs = 5"
  shows "\<exists>a b c d e. xs = [a, b, c, d, e]"
proof -
  have "xs = [xs ! 0, xs ! 1, xs ! 2, xs ! 3, xs ! 4]"
  proof (rule nth_equalityI)
    fix k assume "k < length xs"
    then have "k = 0 \<or> k = 1 \<or> k = 2 \<or> k = 3 \<or> k = 4" using assms by linarith
    then show "xs ! k = [xs ! 0, xs ! 1, xs ! 2, xs ! 3, xs ! 4] ! k" by (elim disjE) simp_all
  qed (simp add: assms)
  then show ?thesis by blast
qed

lemmas ring_sizes = OBJ_HISTORY_SIZE_def CLI_HISTORY_SIZE_def

lemma shown_ring:
  assumes "good_history s"
  shows "history_loop s = map copy_history
    (drop (Suc (unat (history_head s))) (history s) @ take (Suc (unat (history_head s))) (history s))"
proof -
  obtain a b c d e where h: "history s = [a, b, c, d, e]"
    using assms five_records [of "history s"] by (auto simp: good_history_def ring_sizes)
  have "unat (history_head s) < 5" using assms by (simp add: good_history_def ring_sizes)
  moreover have "[0..<5] = [0, 1, 2, 3, 4 :: nat]" by (simp add: upt_conv_Cons)
  ultimately show ?thesis
    by (cases rule: head_cases [of "history_head s"]) (simp_all add: ring_sizes h history_loop_def Let_def)
qed

lemma new_record_good: "good_history s \<Longrightarrow> good_history (new_history t r v s)"
  by (rule head_cases [of "history_head s"]) (simp_all add: good_history_def ring_sizes new_history_def Let_def)

lemma new_record_shown:
  assumes "good_history s"
  shows "history_loop (new_history t r v s) = tl (history_loop s) @ [written t r v]"
proof -
  obtain a b c d e where h: "history s = [a, b, c, d, e]"
    using assms five_records [of "history s"] by (auto simp: good_history_def ring_sizes)
  have "unat (history_head s) < 5" using assms by (simp add: good_history_def ring_sizes)
  then show ?thesis
    unfolding shown_ring [OF assms] shown_ring [OF new_record_good [OF assms]]
    by (cases rule: head_cases [of "history_head s"])
      (simp_all add: ring_sizes h new_history_def Let_def copy_history_def written_def)
qed

interpretation last_results: ring good_history history_loop new_record "\<lambda>(t, r, v). written t r v" 5
proof (unfold_locales, goal_cases)
  case (1 s x)
  then show ?case by (simp add: new_record_def new_record_good split: prod.split)
next
  case (2 s x)
  then show ?case by (simp add: new_record_def new_record_shown split: prod.split)
next
  case (3 s)
  then show ?case by (simp add: history_loop_def ring_sizes)
qed simp

section \<open>The records of an instance\<close>

lemma new_history_records:
  "i_stats (inst (fold (\<lambda>(r, v). seq_new_history_record i r v) rvs db) i) =
     fold new_record (map2 (\<lambda>k (r, v). (clock db (ticks db + k), r, v)) [0..<length rvs] rvs) (i_stats (inst db i))"
proof (induction rvs arbitrary: db)
  case (Cons p rvs)
  obtain r v where p: "p = (r, v)" by (rule prod.exhaust)
  define t where "t = seq_new_history_record i r v db"
  have t: "i_stats (inst t i) = new_history (clock db (ticks db)) r v (i_stats (inst db i))" "clock t = clock db" "ticks t = Suc (ticks db)"
    by (simp_all add: t_def seq_new_history_record_def time_now_def inst_upd_stats upd_stats_def upd_inst_def inst_def)
  have "[0..<length (p # rvs)] = 0 # map Suc [0..<length rvs]" by (simp add: upt_conv_Cons map_Suc_upt del: upt_Suc)
  then show ?case
    using Cons.IH [of t] t by (simp add: p t_def [symmetric] zip_map1 split_def new_record_def comp_def del: upt_Suc)
qed simp

text \<open>A result that may be a repetition only changes the newest record.\<close>

definition repeated :: "result \<Rightarrow> int \<Rightarrow> cli_history \<Rightarrow> cli_history" where
  "repeated r v x = x\<lparr>clh_count := (if clh_result x = r then clh_count x + 1 else clh_count x), clh_value := v\<rparr>"

definition repeat_record :: "result \<Rightarrow> int \<Rightarrow> obj_stats \<Rightarrow> obj_stats" where
  "repeat_record r v s = (let k = unat (history_head s); x = history s ! k
     in s\<lparr>history := (history s)[k := (if h_result x = r then x\<lparr>h_count := h_count x + 1\<rparr> else x)\<lparr>h_value := v\<rparr>]\<rparr>)"

lemma shown_newest:
  assumes "good_history s"
  shows "last (history_loop s) = copy_history (history s ! unat (history_head s))"
    and "history_loop (repeat_record r v s) = butlast (history_loop s) @ [repeated r v (last (history_loop s))]"
proof -
  obtain a b c d e where h: "history s = [a, b, c, d, e]"
    using assms five_records [of "history s"] by (auto simp: good_history_def ring_sizes)
  have lt: "unat (history_head s) < 5" and g: "good_history (repeat_record r v s)"
    using assms by (simp_all add: good_history_def ring_sizes repeat_record_def Let_def)
  show "last (history_loop s) = copy_history (history s ! unat (history_head s))"
    unfolding shown_ring [OF assms] using lt by (cases rule: head_cases [of "history_head s"]) (simp_all add: h)
  show "history_loop (repeat_record r v s) = butlast (history_loop s) @ [repeated r v (last (history_loop s))]"
    unfolding shown_ring [OF assms] shown_ring [OF g] using lt
    by (cases rule: head_cases [of "history_head s"])
      (simp_all add: h repeat_record_def Let_def copy_history_def repeated_def)
qed

lemma update_history_record:
  "i_stats (inst (seq_update_history_record i r v db) i) =
     (let s = i_stats (inst db i)
      in if h_count (history s ! unat (history_head s)) = 0 then new_history (clock db (ticks db)) r v s else repeat_record r v s)"
  by (simp add: seq_update_history_record_def seq_new_history_record_def time_now_def upd_stats_def upd_inst_def inst_def
      repeat_record_def Let_def)

text \<open>What the shell shows of an instance.\<close>

definition shown_history :: "db \<Rightarrow> iref \<Rightarrow> cli_history list" where
  "shown_history db i = cs_history (copy_stats (i_stats (inst db i)))"

lemma shown_history_loop: "shown_history db i = history_loop (i_stats (inst db i))"
  by (simp add: shown_history_def copy_stats_def)

lemma new_records_shown:
  assumes "good_history (i_stats (inst db i))"
  shows "shown_history (fold (\<lambda>(r, v). seq_new_history_record i r v) rvs db) i =
    last_of 5 (shown_history db i @ map2 (\<lambda>k (r, v). written (clock db (ticks db + k)) r v) [0..<length rvs] rvs)"
proof -
  have "map (\<lambda>(t, r, v). written t r v) (map2 (\<lambda>k (r, v). (clock db (ticks db + k), r, v)) [0..<length rvs] rvs) =
      map2 (\<lambda>k (r, v). written (clock db (ticks db + k)) r v) [0..<length rvs] rvs"
    by (simp add: split_def)
  then show ?thesis
    using last_results.records_window [OF assms] unfolding shown_history_loop new_history_records by metis
qed

lemma repeat_shown:
  assumes "good_history (i_stats (inst db i))"
  shows "shown_history (seq_update_history_record i r v db) i =
    (let x = last (shown_history db i)
     in if clh_count x = 0 then tl (shown_history db i) @ [written (clock db (ticks db)) r v]
        else butlast (shown_history db i) @ [repeated r v x])"
proof -
  define s where "s = i_stats (inst db i)"
  have s: "good_history s" using assms by (simp add: s_def)
  have "clh_count (last (history_loop s)) = h_count (history s ! unat (history_head s))"
    unfolding shown_newest(1) [OF s] by (simp add: copy_history_def)
  then show ?thesis
    unfolding shown_history_loop update_history_record s_def [symmetric] Let_def
    by (simp add: new_record_shown [OF s] shown_newest(2) [OF s])
qed

end
