(* ===== verification/CliProps.thy ===== *)
theory CliProps
  imports CliUses CliHistory ObjProps
begin

text \<open>
  Properties of the command line interface: what a shell gets to see when it reads a listing page by page,
  the history it shows, and where a listing loses elements or uses. The concrete instances run on the
  small database of \<open>Demo\<close>.
\<close>

section \<open>A shell on the small database\<close>

definition demo_cli :: cli where
  "demo_cli = \<lparr>handles_in_use = None,
     cli_handle_at = (\<lambda>_. \<lparr>ch_id = 0, ch_type = CLI_UNKNOWN, ch_filter = CLI_FILTER_UNKNOWN, ch_instance = None, ch_last_obj = None,
       ch_remote_comp = None, ch_remote_handle_id = 0, ch_last_remote_obj = None, ch_used_last_time = zero_time, ch_in_use = False\<rparr>),
     next_pointer = 0, next_handle_id = 1, polled_contexts = (\<lambda>_. None), next_context = 0, cli_db = demo_db\<rparr>"

lemma demo_cli_reads [simp]: "cli_db demo_cli = demo_db" "open_handles demo_cli = []" "next_handle_id demo_cli = 1"
  by (simp_all add: demo_cli_def open_handles_def)

lemma demo_uses [simp]: "i_in_use (demo_inst i) = 0"
  by (simp add: demo_inst_def blank_instance_def)

lemma demo_listable: "listable demo_cli"
  using demo_linked demo_tree_inv
  by (simp add: listable_def new_handle_ok_def uses_below_def tree_inv_def demo_system)

lemma demo_valid_rules: "obj_valid demo_db (Some x) TYPE_RULE \<longleftrightarrow> x = 2 \<or> x = 3"
  using demo_obj_valid [of x] by (auto simp: obj_valid_def demo_type)

lemma demo_objects:
  "valid_objs TYPE_RULE demo_db (sys_objs TYPE_RULE demo_db) = [2, 3]"
  "valid_objs TYPE_TEST demo_db (sys_objs TYPE_TEST demo_db) = [1]"
  using demo_valid [of "base 1"]
  by (simp_all add: valid_objs_def sys_objs_def demo_all_comps demo_comp_chain demo_valid_rules)

lemma demo_found: "found demo_db ''top'' TYPE_RULE 2" "found demo_db ''bottom'' TYPE_RULE 3" "found demo_db ''test'' TYPE_TEST 1"
proof -
  have "lookup_order TYPE_RULE demo_db = [2, 3]" "lookup_order TYPE_TEST demo_db = [1]" by (simp_all add: lookup_order_def sys_objs_def demo_all_comps demo_comp_chain)
  then show "found demo_db ''top'' TYPE_RULE 2" "found demo_db ''bottom'' TYPE_RULE 3" "found demo_db ''test'' TYPE_TEST 1"
    using demo_tree demo_valid [of "base 1"]
    by (simp_all add: found_def myrefl_obj_get_by_name_unconverted_def by_name_finds demo_system demo_valid_rules has_name_def
        demo_names demo_name_def convert_name_map name_char_def MYREFL_MAX_NAME_LEN_def MYREFL_NAME_SEPERATOR_def)
qed

section \<open>Listings\<close>

text \<open>C24: A shell that opens a handle for the objects of a type (test, rule, action or component) and asks for
  pages until there is none sees every object of the type that the filter selects, each once, in the order of
  the component tree, whatever positive page size it uses, when all of them are valid; the first one that is not
  valid, such as a polled test of period 0, ends the listing, and those behind it are never shown. Then the handle is
  closed and the database is as before: every use counter has been given back.\<close>

theorem shell_lists_all:
  assumes "listable c" and "object_type type" and "0 < mx" and "cli_db c = s"
    and "sys_objs (cli_to_obj_type type) s = xs @ ys"
    and "\<forall>x \<in> set xs. obj_valid s (Some x) (cli_to_obj_type type)"
    and "ys = [] \<or> \<not> obj_valid s (Some (hd ys)) (cli_to_obj_type type)"
  shows "\<exists>c' k. list_objects mx type flt c = Some (map (info_view type s) (filter (info_shown type flt s) xs), c') \<and>
    cli_db c' = s\<lparr>ticks := k\<rparr> \<and> handles_in_use c' = Some (open_handles c)"
proof -
  have "valid_objs (cli_to_obj_type type) s (sys_objs (cli_to_obj_type type) s) = xs"
    using assms(6,7) unfolding assms(5) valid_objs_def by (cases ys) (auto simp: takeWhile_append2)
  then show ?thesis using listed_all [OF assms(1-3), of flt] assms(4) by simp
qed

lemma shell_lists_all_witness:
  "\<exists>c' k. list_objects 1 CLI_RULE CLI_FILTER_NONE demo_cli = Some ([info_view CLI_RULE demo_db 2, info_view CLI_RULE demo_db 3], c') \<and>
    cli_db c' = demo_db\<lparr>ticks := k\<rparr> \<and> handles_in_use c' = Some []"
proof -
  have o: "cli_db demo_cli = demo_db" "sys_objs TYPE_RULE demo_db = [2, 3] @ []"
    by (simp_all add: demo_objects sys_objs_def demo_all_comps demo_comp_chain)
  have v: "\<forall>x \<in> set [2, 3]. obj_valid demo_db (Some x) TYPE_RULE" by (simp add: demo_valid_rules)
  show ?thesis
    using shell_lists_all [OF demo_listable _ _ o(1), of CLI_RULE 1 "[2, 3]" "[]" CLI_FILTER_NONE] o(2) v
    by (simp add: object_type_def cli_to_obj_type_def demo_objects info_shown_def info_process_def shown_state_def
        demo_inst_base blank_instance_def)
qed

text \<open>C25: The parents in the dependency graph, the actions and the inputs of a rule, asked for by its name and read page by
  page, are shown each once and in order, whatever the page size, and every use is given back, when there are any, none is
  listed twice and all of them are valid.\<close>

theorem shell_lists_related:
  assumes "listable c" and "cli_db c = s" and "object_type type" and "found s m (cli_to_obj_type type) x"
    and "related flt s x = Some xs" and "xs \<noteq> []" and "distinct xs" and "\<forall>y \<in> set xs. obj_valid s (Some y) TYPE_ANY"
    and "0 < mx"
  shows "\<exists>c' k. list_related mx m type flt c = Some (map (myrefl_cli_copy_data_element s) xs, c') \<and>
    cli_db c' = s\<lparr>ticks := k\<rparr> \<and> handles_in_use c' = Some (open_handles c)"
  by (rule related_listed [OF assms])

lemma shell_lists_related_witness:
  "\<exists>c' k. list_related 1 ''top'' CLI_RULE CLI_RULE_INPUT demo_cli = Some ([myrefl_cli_copy_data_element demo_db 1], c') \<and>
    cli_db c' = demo_db\<lparr>ticks := k\<rparr> \<and> handles_in_use c' = Some []"
  using shell_lists_related [OF demo_listable, of demo_db CLI_RULE "''top''" 2 CLI_RULE_INPUT "[1]" 1] demo_found(1) demo_obj_valid [of 1]
  by (simp add: object_type_def cli_to_obj_type_def related_def demo_reads demo_rule_def)

text \<open>The element count of the last page: when all objects fit on the first page, they are returned
  with a number of elements of zero.\<close>

theorem last_page_counts_nothing:
  assumes "listable c" and "object_type type" and "cli_db c = s"
    and "xs = valid_objs (cli_to_obj_type type) s (sys_objs (cli_to_obj_type type) s)" and "xs \<noteq> []"
    and "length (filter (info_shown type flt s) xs) < mx"
  shows "\<exists>n c1 c2. myrefl_cli_local_get_info_handle None type flt None c = Some (n, c1) \<and> n \<noteq> 0 \<and>
    myrefl_cli_local_get_info n mx c1 =
      Some (Some \<lparr>num_elements = 0, elements = map (info_view type s) (filter (info_shown type flt s) xs)\<rparr>, c2)"
  by (rule one_page [OF assms])

lemma last_page_counts_nothing_witness:
  "\<exists>n c1 c2. myrefl_cli_local_get_info_handle None CLI_TEST CLI_FILTER_NONE None demo_cli = Some (n, c1) \<and> n \<noteq> 0 \<and>
    myrefl_cli_local_get_info n 2 c1 = Some (Some \<lparr>num_elements = 0, elements = [info_view CLI_TEST demo_db 1]\<rparr>, c2)"
  using last_page_counts_nothing [OF demo_listable, of CLI_TEST demo_db "[1]" CLI_FILTER_NONE 2]
  by (simp add: object_type_def cli_to_obj_type_def demo_objects info_shown_def info_process_def shown_state_def
      demo_inst_base blank_instance_def)

section \<open>History\<close>

text \<open>C26: The history the shell shows is a window on the last five records: recording results drives the oldest
  records out, and a repeated result only counts in the newest record and updates its value.\<close>

theorem history_is_window:
  assumes "good_history (i_stats (inst db i))"
  shows "shown_history (fold (\<lambda>(r, v). seq_new_history_record i r v) rvs db) i =
      last_of 5 (shown_history db i @ map2 (\<lambda>k (r, v). written (clock db (ticks db + k)) r v) [0..<length rvs] rvs) \<and>
    shown_history (seq_update_history_record i r v db) i =
      (let x = last (shown_history db i)
       in if clh_count x = 0 then tl (shown_history db i) @ [written (clock db (ticks db)) r v]
          else butlast (shown_history db i) @ [repeated r v x])"
  by (rule conjI [OF new_records_shown [OF assms] repeat_shown [OF assms]])

lemma demo_history: "good_history (i_stats (inst demo_db (base x)))"
  "shown_history demo_db (base x) = replicate 5 (copy_history \<lparr>h_time = XosTime 0 0, h_result = RESULT_INVALID, h_count = 0, h_value = 0\<rparr>)"
proof -
  have s: "i_stats (inst demo_db (base x)) = blank_stats" by (simp add: demo_inst_base blank_instance_def)
  then show g: "good_history (i_stats (inst demo_db (base x)))" by (simp add: good_history_def blank_stats_def ring_sizes)
  show "shown_history demo_db (base x) = replicate 5 (copy_history \<lparr>h_time = XosTime 0 0, h_result = RESULT_INVALID, h_count = 0, h_value = 0\<rparr>)"
    using shown_ring [OF g] s by (simp add: shown_history_loop blank_stats_def ring_sizes numeral_eq_Suc)
qed

lemma history_is_window_witness:
  "shown_history (fold (\<lambda>(r, v). seq_new_history_record (base 1) r v) [(RESULT_PASS, 3), (RESULT_FAIL, 4)] demo_db) (base 1) =
    replicate 3 (copy_history \<lparr>h_time = XosTime 0 0, h_result = RESULT_INVALID, h_count = 0, h_value = 0\<rparr>) @
      [written (XosTime 7 0) RESULT_PASS 3, written (XosTime 8 0) RESULT_FAIL 4]"
  using history_is_window [OF demo_history(1), of 1 "[(RESULT_PASS, 3), (RESULT_FAIL, 4)]"]
  by (simp add: demo_history(2) demo_fields last_of_def numeral_eq_Suc)

section \<open>Elements and uses that are lost\<close>

text \<open>Counterexample to the listing of the rules of a test: when a test has no more rules than fit on a page, the shell gets
  no page at all; the elements that were collected are dropped and the handle is closed.\<close>

theorem test_rules_not_shown:
  assumes "listable c" and "cli_db c = s" and "found s m TYPE_TEST x" and "map_option t_rule (test_of s x) = Some (Some z)"
    and "rules_from s (z # zs)" and "length (z # zs) \<le> mtu"
  shows "\<exists>n c1 c2. myrefl_cli_local_get_info_handle (Some m) CLI_TEST CLI_TEST_RULE None c = Some (n, c1) \<and> n \<noteq> 0 \<and>
    myrefl_cli_local_get_depend_or_trigger_data n mtu c1 = Some (None, c2) \<and> handles_in_use c2 = Some (open_handles c)"
  by (rule test_rules_none [OF assms])

lemma test_rules_not_shown_witness:
  "\<exists>n c1 c2. myrefl_cli_local_get_info_handle (Some ''test'') CLI_TEST CLI_TEST_RULE None demo_cli = Some (n, c1) \<and> n \<noteq> 0 \<and>
    myrefl_cli_local_get_depend_or_trigger_data n 15 c1 = Some (None, c2) \<and> handles_in_use c2 = Some []"
  using test_rules_not_shown [OF demo_listable, of demo_db "''test''" 1 2 "[3]" 15] demo_found(3)
  by (simp add: demo_valid_rules demo_reads demo_rule_def demo_test_def)

text \<open>Counterexample to the reference counting of handles: a handle for the instances of an object that has none is never
  readable, and when it is freed the use of the object that it took is not given back.\<close>

theorem memberless_use_leaks:
  assumes "listable c" and "cli_db c = s" and "instance_type type" and "local_type type = Some lt"
    and "found s m (cli_to_obj_type lt) x" and "flt \<noteq> CLI_SHOW_COMP" and "o_members (objs s x) = []"
  shows "\<exists>n h c1 c2. myrefl_cli_local_get_info_handle (Some m) type flt None c = Some (n, c1) \<and>
    myrefl_cli_local_get_single_instance_info n c1 = Some (None, c1) \<and>
    myrefl_cli_local_handle_get n c1 = Some h \<and> myrefl_cli_local_handle_free h c1 = Some (True, c2) \<and>
    handles_in_use c2 = Some (open_handles c) \<and>
    i_in_use (inst (cli_db c2) (base x)) = i_in_use (inst s (base x)) + 1"
proof -
  have l: "linked s" using assms(1,2) by (simp add: listable_def)
  obtain c1 h k where o: "myrefl_cli_local_get_info_handle (Some m) type flt None c = Some (next_handle_id c, c1)"
    "open_as h (next_handle_id c) c1" "ch_instance (cli_handle_at c1 h) = None" "ch_last_obj (cli_handle_at c1 h) = None"
    "ch_last_remote_obj (cli_handle_at c1 h) = None" "\<not> ch_in_use (cli_handle_at c1 h)"
    "cli_db c1 = held [base x] (s\<lparr>ticks := k\<rparr>)" "handles_in_use c1 = Some (h # open_handles c)"
    using memberless_handle [OF assms] by blast
  have "myrefl_cli_local_handle_free h c1 = Some (True, c1\<lparr>handles_in_use := Some (open_handles c)\<rparr>)"
    using memberless_freed [OF o(3-6,8)] o(7) l by simp
  moreover have "myrefl_cli_local_get_single_instance_info (next_handle_id c) c1 = Some (None, c1)"
    using memberless_reader [OF o(2,3)] by (simp add: myrefl_cli_local_get_single_instance_info_def)
  moreover have "i_in_use (inst (cli_db c1) (base x)) = i_in_use (inst s (base x)) + 1"
    by (simp add: o(7) held_inst) (simp add: inst_def)
  moreover have "myrefl_cli_local_handle_get (next_handle_id c) c1 = Some h" using o(2) by (simp add: open_as_def)
  ultimately show ?thesis using o(1) by auto
qed

lemma memberless_use_leaks_witness:
  "\<exists>n h c1 c2. myrefl_cli_local_get_info_handle (Some ''top'') CLI_RULE_INSTANCE CLI_RUN None demo_cli = Some (n, c1) \<and>
    myrefl_cli_local_get_single_instance_info n c1 = Some (None, c1) \<and> myrefl_cli_local_handle_get n c1 = Some h \<and>
    myrefl_cli_local_handle_free h c1 = Some (True, c2) \<and> handles_in_use c2 = Some [] \<and> i_in_use (inst (cli_db c2) (base 2)) = 1"
  using memberless_use_leaks [OF demo_listable, of demo_db CLI_RULE_INSTANCE CLI_RULE "''top''" 2 CLI_RUN] demo_found(1)
  by (simp add: instance_type_def local_type_def cli_to_obj_type_def blank_obj_def)

text \<open>Counterexample to the reference counting of listings: listing the only child of a rule takes away a use of the child
  that someone else holds.\<close>

theorem child_listing_takes_use:
  assumes "listable c" and "cli_db c = s" and "object_type type" and "found s m (cli_to_obj_type type) x"
    and "o_child_depend (objs s x) = [y]" and "obj_valid s (Some y) TYPE_ANY" and "i_in_use (inst s (base y)) \<noteq> 0" and "0 < mtu"
  shows "\<exists>n c1 c2 k. myrefl_cli_local_get_info_handle (Some m) type CLI_CHILD_DEPEND None c = Some (n, c1) \<and>
    myrefl_cli_local_get_depend_or_trigger_data n mtu c1 =
      Some (Some \<lparr>d_num_elements = 1, d_elements = [myrefl_cli_copy_data_element s y]\<rparr>, c2) \<and>
    cli_db c2 = upd_inst (base y) (\<lambda>y. y\<lparr>i_in_use := i_in_use y - 1\<rparr>) (s\<lparr>ticks := k\<rparr>) \<and>
    handles_in_use c2 = Some (open_handles c)"
  by (rule child_listing [OF assms])

text \<open>The database with one use of the child, by another handle.\<close>

lemma used_child:
  "listable (demo_cli\<lparr>cli_db := held [base 3] demo_db\<rparr>)" "found (held [base 3] demo_db) ''top'' TYPE_RULE 2"
proof -
  have t: "tree_ok (held [base 3] demo_db)" using runtime_tree [OF runtime_held] demo_tree by simp
  show "listable (demo_cli\<lparr>cli_db := held [base 3] demo_db\<rparr>)"
    using demo_linked t by (simp add: listable_def new_handle_ok_def uses_below_def demo_system open_handles_def demo_cli_def)
      (simp add: held_def)
  have "lookup_order TYPE_RULE (held [base 3] demo_db) = lookup_order TYPE_RULE demo_db"
    using runtime_tree [OF runtime_held [of demo_db "[base 3]"]] by (simp add: lookup_order_def)
  moreover have "has_name (held [base 3] demo_db) = has_name demo_db" by (simp add: fun_eq_iff has_name_def held_inst)
  ultimately show "found (held [base 3] demo_db) ''top'' TYPE_RULE 2"
    using demo_found(1) t demo_tree demo_system
    by (simp add: found_def myrefl_obj_get_by_name_unconverted_def by_name_finds)
qed

lemma inst_ticks: "inst (s\<lparr>ticks := k\<rparr>) = inst s"
  by (simp add: inst_def fun_eq_iff)

lemma child_listing_takes_use_witness:
  "\<exists>n c1 c2. myrefl_cli_local_get_info_handle (Some ''top'') CLI_RULE CLI_CHILD_DEPEND None
      (demo_cli\<lparr>cli_db := held [base 3] demo_db\<rparr>) = Some (n, c1) \<and>
    myrefl_cli_local_get_depend_or_trigger_data n 15 c1 =
      Some (Some \<lparr>d_num_elements = 1, d_elements = [myrefl_cli_copy_data_element demo_db 3]\<rparr>, c2) \<and>
    i_in_use (inst (cli_db c2) (base 3)) = 0"
  using child_listing_takes_use [OF used_child(1), of "held [base 3] demo_db" CLI_RULE "''top''" 2 3 15] used_child(2) demo_obj_valid [of 3]
  by (auto simp: object_type_def cli_to_obj_type_def held_inst inst_ticks)

end
