(* ===== verification/MList.thy ===== *)
theory MList
  imports ListStore
begin

text \<open>
  The list utility of \<^verbatim>\<open>src/src/myrefl_util.c\<close>: singly linked lists with a head, a tail, a
  count and a lock, whose elements come from a free pool that is refilled in blocks of
  \<open>HEADER_MALLOC_MULTIPLIER\<close> elements.

  The model keeps the pointers. A list element has an address; \<open>cells\<close> is the memory of the
  elements, \<open>free_elements\<close> the head of the free pool. A \<open>myrefl_list_t *\<close> is an index into
  \<open>lists\<close>, with \<open>None\<close> for \<open>NULL\<close>. \<open>calloc\<close> hands out fresh addresses as long as the
  environment grants blocks (\<open>blocks\<close>), so running out of memory is a branch of the model.
  A walk along \<open>next\<close> pointers may not end in a corrupted memory, so the operations return
  an option, \<open>None\<close> being a call that does not return.

  The contract of the utility is the simulation relation \<open>mem_rel\<close>: memory against a map from
  list pointers to HOL lists. The locale \<open>list_store\<close> states it, and the model of the C code
  is its interpretation.
\<close>

section \<open>The memory\<close>

type_synonym addr = nat
type_synonym data = nat

record element =
  el_next :: "addr option"
  el_data :: data

record mlist =
  head :: "addr option"
  tail :: "addr option"
  num_elements :: nat
  lock :: nat

record mem =
  cells :: "addr \<Rightarrow> element"
  free_elements :: "addr option"
  brk :: addr
  blocks :: nat
  lists :: "nat \<Rightarrow> mlist option"
  next_list :: nat

definition upd_list :: "nat \<Rightarrow> (mlist \<Rightarrow> mlist) \<Rightarrow> mem \<Rightarrow> mem" where
  "upd_list i f m = m\<lparr>lists := (lists m)(i := map_option f (lists m i))\<rparr>"

definition set_next :: "addr \<Rightarrow> addr option \<Rightarrow> mem \<Rightarrow> mem" where
  "set_next a n m = m\<lparr>cells := (cells m)(a := (cells m a)\<lparr>el_next := n\<rparr>)\<rparr>"

definition set_data :: "addr \<Rightarrow> data \<Rightarrow> mem \<Rightarrow> mem" where
  "set_data a d m = m\<lparr>cells := (cells m)(a := (cells m a)\<lparr>el_data := d\<rparr>)\<rparr>"

text \<open>Entering and leaving the critical section of a list: a recursive lock with a depth.\<close>

definition enter_cs :: "nat \<Rightarrow> mem \<Rightarrow> mem" where
  "enter_cs i = upd_list i (\<lambda>l. l\<lparr>lock := Suc (lock l)\<rparr>)"

definition exit_cs :: "nat \<Rightarrow> mem \<Rightarrow> mem" where
  "exit_cs i = upd_list i (\<lambda>l. l\<lparr>lock := lock l - 1\<rparr>)"

section \<open>The free pool\<close>

definition HEADER_MALLOC_MULTIPLIER :: nat where
  "HEADER_MALLOC_MULTIPLIER = 50"

text \<open>One round of the loop that threads a fresh block onto the free pool.\<close>

definition carve_element :: "addr \<Rightarrow> mem \<Rightarrow> mem" where
  "carve_element a m =
     m\<lparr>cells := (cells m)(a := \<lparr>el_next = free_elements m, el_data = 0\<rparr>),
       free_elements := Some a\<rparr>"

definition refill_pool :: "mem \<Rightarrow> mem" where
  "refill_pool m =
     (if free_elements m = None \<and> 0 < blocks m
      then fold (\<lambda>i. carve_element (brk m + i)) [0..<HEADER_MALLOC_MULTIPLIER]
             (m\<lparr>brk := brk m + HEADER_MALLOC_MULTIPLIER, blocks := blocks m - 1\<rparr>)
      else m)"

definition new_list_element :: "mem \<Rightarrow> addr option \<times> mem" where
  "new_list_element m =
     (let m1 = refill_pool m
      in case free_elements m1 of
           None \<Rightarrow> (None, m1)
         | Some a \<Rightarrow>
             (Some a, m1\<lparr>free_elements := el_next (cells m1 a),
                         cells := (cells m1)(a := \<lparr>el_next = None, el_data = 0\<rparr>)\<rparr>))"

definition free_list_element :: "addr option \<Rightarrow> mem \<Rightarrow> mem" where
  "free_list_element e m =
     (case e of None \<Rightarrow> m
      | Some a \<Rightarrow> (set_next a (free_elements m) m)\<lparr>free_elements := Some a\<rparr>)"

section \<open>The operations on lists\<close>

definition validate_list :: "mlist \<Rightarrow> mem \<Rightarrow> bool" where
  "validate_list l m =
     (if num_elements l = 0 then head l = None \<and> tail l = None
      else (case (head l, tail l) of
              (Some h, Some t) \<Rightarrow>
                if num_elements l = 1 then h = t \<and> el_next (cells m h) = None
                else el_next (cells m h) \<noteq> None \<and> el_next (cells m t) = None
            | _ \<Rightarrow> False))"

definition myrefl_list_create :: "mem \<Rightarrow> nat option \<times> mem" where
  "myrefl_list_create m =
     (if blocks m = 0 then (None, m)
      else (Some (next_list m),
            m\<lparr>lists := (lists m)(next_list m \<mapsto>
                 \<lparr>head = None, tail = None, num_elements = 0, lock = 0\<rparr>),
              next_list := Suc (next_list m)\<rparr>))"

partial_function (option) free_all :: "nat \<Rightarrow> mem \<Rightarrow> mem option" where
  "free_all i m =
     (case lists m i of None \<Rightarrow> None
      | Some l \<Rightarrow>
         (case head l of None \<Rightarrow> Some m
          | Some c \<Rightarrow>
             free_all i (free_list_element (Some c)
               (upd_list i (\<lambda>l. l\<lparr>head := el_next (cells m c)\<rparr>) m))))"

definition myrefl_list_free :: "nat option \<Rightarrow> mem \<Rightarrow> mem option" where
  "myrefl_list_free list m =
     (case list of None \<Rightarrow> Some m
      | Some i \<Rightarrow>
         do { m1 \<leftarrow> free_all i (enter_cs i m);
              Some ((exit_cs i m1)\<lparr>lists := (lists m1)(i := None)\<rparr>) })"

partial_function (option) find_loop :: "addr option \<Rightarrow> data \<Rightarrow> mem \<Rightarrow> bool option" where
  "find_loop current d m =
     (case current of None \<Rightarrow> Some False
      | Some c \<Rightarrow> if el_data (cells m c) = d then Some True
                  else find_loop (el_next (cells m c)) d m)"

text \<open>The lock is taken and released around the walk; nothing else changes.\<close>

definition myrefl_list_find :: "nat option \<Rightarrow> data \<Rightarrow> mem \<Rightarrow> bool option" where
  "myrefl_list_find list d m =
     (case list of None \<Rightarrow> Some False
      | Some i \<Rightarrow> (case lists m i of None \<Rightarrow> None | Some l \<Rightarrow> find_loop (head l) d m))"

definition myrefl_list_insert :: "nat option \<Rightarrow> addr option \<Rightarrow> data \<Rightarrow> mem \<Rightarrow> mem option" where
  "myrefl_list_insert list prev d m =
     (case list of None \<Rightarrow> Some m
      | Some i \<Rightarrow>
         do { let m = enter_cs i m;
              l \<leftarrow> lists m i;
              if \<not> validate_list l m then Some m else do {
              dup \<leftarrow> myrefl_list_find (Some i) d m;
              if dup then Some (exit_cs i m) else
              (case new_list_element m of
                 (None, m) \<Rightarrow> Some (exit_cs i m)
               | (Some e, m) \<Rightarrow>
                   let m = set_data e d m;
                       (hd, nxt, m) =
                         (case prev of
                            Some p \<Rightarrow> (head l, el_next (cells m p), set_next p (Some e) m)
                          | None \<Rightarrow> (Some e, head l, m));
                       m = set_next e nxt m;
                       l = l\<lparr>head := hd\<rparr>;
                       l = (if tail l = None then l\<lparr>tail := hd\<rparr>
                            else if tail l = prev then l\<lparr>tail := Some e\<rparr> else l);
                       l = l\<lparr>num_elements := Suc (num_elements l)\<rparr>;
                       m = upd_list i (\<lambda>_. l) m
                   in if \<not> validate_list l m then Some m else Some (exit_cs i m))}})"

definition myrefl_list_add :: "nat option \<Rightarrow> data \<Rightarrow> mem \<Rightarrow> mem option" where
  "myrefl_list_add list d = myrefl_list_insert list None d"

text \<open>Unlinking one matched element, the body of the loop of \<open>myrefl_list_remove\<close>.\<close>

definition unlink_element :: "nat \<Rightarrow> mlist \<Rightarrow> addr \<Rightarrow> addr option \<Rightarrow> mem \<Rightarrow> mlist \<times> mem" where
  "unlink_element i l c previous m =
     (let nxt = el_next (cells m c);
          (l, m) = (if head l = Some c then (l\<lparr>head := nxt\<rparr>, m)
                    else (l, case previous of None \<Rightarrow> m | Some p \<Rightarrow> set_next p nxt m));
          l = (if tail l = Some c then l\<lparr>tail := previous\<rparr> else l);
          m = free_list_element (Some c) m;
          l = l\<lparr>num_elements := num_elements l - 1\<rparr>
      in (l, upd_list i (\<lambda>_. l) m))"

partial_function (option) remove_loop ::
  "nat \<Rightarrow> data \<Rightarrow> addr option \<Rightarrow> addr option \<Rightarrow> mem \<Rightarrow> (bool \<times> bool \<times> mem) option" where
  "remove_loop i d previous current m =
     (case current of None \<Rightarrow> Some (False, False, m)
      | Some c \<Rightarrow>
         (case lists m i of None \<Rightarrow> None
          | Some l \<Rightarrow>
             if el_data (cells m c) = d then
               (let (l, m) = unlink_element i l c previous m
                in Some (\<not> validate_list l m, True, m))
             else remove_loop i d (Some c) (el_next (cells m c)) m))"

text \<open>
  The loop returns whether the list was found corrupt after the removal (the code then returns
  at once, with the lock held), whether an element was removed, and the memory.
\<close>

definition myrefl_list_remove :: "nat option \<Rightarrow> data \<Rightarrow> mem \<Rightarrow> (bool \<times> mem) option" where
  "myrefl_list_remove list d m =
     (case list of None \<Rightarrow> Some (False, m)
      | Some i \<Rightarrow>
         do { let m = enter_cs i m;
              l \<leftarrow> lists m i;
              if \<not> validate_list l m then Some (False, m) else do {
              (bad, retval, m) \<leftarrow> remove_loop i d None (head l) m;
              if bad then Some (False, m) else do {
              l \<leftarrow> lists m i;
              if \<not> validate_list l m then Some (False, m)
              else Some (retval, exit_cs i m) }}})"

definition myrefl_list_push :: "nat option \<Rightarrow> data \<Rightarrow> mem \<Rightarrow> mem option" where
  "myrefl_list_push list d m =
     (case list of None \<Rightarrow> Some m
      | Some i \<Rightarrow>
         (case new_list_element m of
            (None, m) \<Rightarrow> Some m
          | (Some e, m) \<Rightarrow>
              do { let m = set_next e None (set_data e d m);
                   let m = enter_cs i m;
                   l \<leftarrow> lists m i;
                   if \<not> validate_list l m then Some m else
                   let l = (if head l = None then l\<lparr>head := Some e\<rparr> else l);
                       m = (case tail l of Some t \<Rightarrow> set_next t (Some e) m | None \<Rightarrow> m);
                       l = l\<lparr>tail := Some e, num_elements := Suc (num_elements l)\<rparr>;
                       m = upd_list i (\<lambda>_. l) m
                   in if \<not> validate_list l m then Some m else Some (exit_cs i m) }))"

definition myrefl_list_pop :: "nat option \<Rightarrow> mem \<Rightarrow> (data option \<times> mem) option" where
  "myrefl_list_pop list m =
     (case list of None \<Rightarrow> Some (None, m)
      | Some i \<Rightarrow>
         do { let m = enter_cs i m;
              l \<leftarrow> lists m i;
              if \<not> validate_list l m then Some (None, m) else
              (case head l of None \<Rightarrow> Some (None, exit_cs i m)
               | Some h \<Rightarrow>
                   let l = l\<lparr>head := el_next (cells m h)\<rparr>;
                       l = (if tail l = Some h then l\<lparr>tail := None\<rparr> else l);
                       d = el_data (cells m h);
                       m = free_list_element (Some h) m;
                       l = l\<lparr>num_elements := num_elements l - 1\<rparr>;
                       m = upd_list i (\<lambda>_. l) m
                   in if \<not> validate_list l m then Some (None, m)
                      else Some (Some d, exit_cs i m)) })"

definition myrefl_list_peek :: "nat option \<Rightarrow> mem \<Rightarrow> data option" where
  "myrefl_list_peek list m =
     (case list of None \<Rightarrow> None
      | Some i \<Rightarrow> (case lists m i of None \<Rightarrow> None
          | Some l \<Rightarrow> map_option (\<lambda>h. el_data (cells m h)) (head l)))"


section \<open>Representation\<close>

text \<open>\<open>chain c p as q\<close>: following \<open>next\<close> from \<open>p\<close> visits the addresses \<open>as\<close> and ends at \<open>q\<close>.\<close>

primrec chain :: "(addr \<Rightarrow> element) \<Rightarrow> addr option \<Rightarrow> addr list \<Rightarrow> addr option \<Rightarrow> bool" where
  "chain c p [] q \<longleftrightarrow> p = q"
| "chain c p (a # as) q \<longleftrightarrow> p = Some a \<and> chain c (el_next (c a)) as q"

definition list_ok :: "(addr \<Rightarrow> element) \<Rightarrow> mlist \<Rightarrow> addr list \<Rightarrow> data list \<Rightarrow> bool" where
  "list_ok c l as xs \<longleftrightarrow>
     chain c (head l) as None \<and> distinct as \<and> map (\<lambda>a. el_data (c a)) as = xs \<and>
     tail l = (if as = [] then None else Some (last as)) \<and> num_elements l = length as"

text \<open>
  \<open>mem_inv m f ad fs\<close>: every list of the memory represents the list \<open>f\<close> gives for it, on the
  elements \<open>ad\<close>; the free pool is \<open>fs\<close>; no element is in two places; all elements have been
  allocated.
\<close>

definition mem_inv ::
  "mem \<Rightarrow> (nat \<Rightarrow> data list option) \<Rightarrow> (nat \<Rightarrow> addr list) \<Rightarrow> addr list \<Rightarrow> bool" where
  "mem_inv m f ad fs \<longleftrightarrow>
     dom f = dom (lists m) \<and>
     (\<forall>i l. lists m i = Some l \<longrightarrow> list_ok (cells m) l (ad i) (the (f i))) \<and>
     (\<forall>i \<in> dom f. \<forall>j \<in> dom f. i \<noteq> j \<longrightarrow> (\<forall>a \<in> set (ad i). a \<notin> set (ad j))) \<and>
     chain (cells m) (free_elements m) fs None \<and> distinct fs \<and>
     (\<forall>i \<in> dom f. \<forall>a \<in> set (ad i). a \<notin> set fs) \<and>
     (\<forall>i \<in> dom f. \<forall>a \<in> set (ad i). a < brk m) \<and> (\<forall>a \<in> set fs. a < brk m) \<and>
     (\<forall>i \<in> dom f. i < next_list m)"

definition unlocked :: "mem \<Rightarrow> bool" where
  "unlocked m \<longleftrightarrow> (\<forall>i l. lists m i = Some l \<longrightarrow> lock l = 0)"

definition mem_rel :: "mem \<Rightarrow> (nat \<Rightarrow> data list option) \<Rightarrow> bool" where
  "mem_rel m f \<longleftrightarrow> unlocked m \<and> (\<exists>ad fs. mem_inv m f ad fs)"

definition can_alloc :: "mem \<Rightarrow> bool" where
  "can_alloc m \<longleftrightarrow> free_elements m \<noteq> None \<or> 0 < blocks m"

section \<open>Chains\<close>

lemma chain_append: "chain c p (as @ bs) q \<longleftrightarrow> (\<exists>r. chain c p as r \<and> chain c r bs q)"
  by (induction as arbitrary: p) auto

lemma chain_upd [simp]: "a \<notin> set as \<Longrightarrow> chain (c(a := v)) p as q = chain c p as q"
  by (induction as arbitrary: p) auto

lemma chain_cong: "(\<And>a. a \<in> set as \<Longrightarrow> c a = c' a) \<Longrightarrow> chain c p as q = chain c' p as q"
  by (induction as arbitrary: p) auto

lemma chain_None [simp]: "chain c None as q \<longleftrightarrow> as = [] \<and> q = None"
  by (cases as) auto

lemma chain_end_None: "chain c p as None \<Longrightarrow> (as = []) = (p = None)"
  by (cases as) auto

lemma chain_split:
  "chain c p (as @ a # bs) None \<longleftrightarrow> chain c p as (Some a) \<and> chain c (el_next (c a)) bs None"
  by (auto simp: chain_append)

lemma chain_last_next: "chain c p as None \<Longrightarrow> as \<noteq> [] \<Longrightarrow> el_next (c (last as)) = None"
  by (induction as arbitrary: p) auto

lemma chain_relink_last:
  "chain c p (as @ [a]) q \<Longrightarrow> a \<notin> set as \<Longrightarrow>
     chain (c(a := (c a)\<lparr>el_next := r\<rparr>)) p (as @ [a]) r"
  by (auto simp: chain_append)

lemma list_ok_lock [simp]: "list_ok c (l\<lparr>lock := k\<rparr>) as xs = list_ok c l as xs"
  by (simp add: list_ok_def)

lemma list_ok_cong:
  "(\<And>a. a \<in> set as \<Longrightarrow> c a = c' a) \<Longrightarrow> list_ok c l as xs = list_ok c' l as xs"
  using chain_cong [of as c c'] by (auto simp: list_ok_def cong: map_cong)

lemma list_ok_length: "list_ok c l as xs \<Longrightarrow> length xs = length as"
  by (auto simp: list_ok_def)

lemma list_ok_headD: "list_ok c l as xs \<Longrightarrow> head l = (case as of [] \<Rightarrow> None | a # _ \<Rightarrow> Some a)"
  by (cases as) (auto simp: list_ok_def)

text \<open>The run-time check of the code never fails on a well-formed list.\<close>

lemma list_ok_validate: "list_ok (cells m) l as xs \<Longrightarrow> validate_list l m"
proof -
  assume ok: "list_ok (cells m) l as xs"
  show ?thesis
  proof (cases as)
    case Nil
    with ok show ?thesis by (auto simp: list_ok_def validate_list_def)
  next
    case (Cons a bs)
    from ok have nxt: "el_next (cells m (last as)) = None"
      using Cons by (intro chain_last_next [of _ "head l"]) (auto simp: list_ok_def)
    show ?thesis
      using ok Cons nxt by (cases bs) (auto simp: list_ok_def validate_list_def)
  qed
qed

lemma mem_invD:
  assumes "mem_inv m f ad fs"
  shows mem_inv_dom: "dom f = dom (lists m)"
    and mem_inv_list_ok: "lists m i = Some l \<Longrightarrow> list_ok (cells m) l (ad i) (the (f i))"
    and mem_inv_disjoint: "i \<in> dom f \<Longrightarrow> j \<in> dom f \<Longrightarrow> i \<noteq> j \<Longrightarrow> a \<in> set (ad i) \<Longrightarrow> a \<notin> set (ad j)"
    and mem_inv_free: "chain (cells m) (free_elements m) fs None"
    and mem_inv_free_distinct: "distinct fs"
    and mem_inv_not_free: "i \<in> dom f \<Longrightarrow> a \<in> set (ad i) \<Longrightarrow> a \<notin> set fs"
    and mem_inv_below: "i \<in> dom f \<Longrightarrow> a \<in> set (ad i) \<Longrightarrow> a < brk m"
    and mem_inv_free_below: "a \<in> set fs \<Longrightarrow> a < brk m"
    and mem_inv_next: "i \<in> dom f \<Longrightarrow> i < next_list m"
  using assms unfolding mem_inv_def by blast+

lemma mem_invI:
  assumes "dom f = dom (lists m)"
    and "\<And>i l. lists m i = Some l \<Longrightarrow> list_ok (cells m) l (ad i) (the (f i))"
    and "\<And>i j a. i \<in> dom f \<Longrightarrow> j \<in> dom f \<Longrightarrow> i \<noteq> j \<Longrightarrow> a \<in> set (ad i) \<Longrightarrow> a \<notin> set (ad j)"
    and "chain (cells m) (free_elements m) fs None" and "distinct fs"
    and "\<And>i a. i \<in> dom f \<Longrightarrow> a \<in> set (ad i) \<Longrightarrow> a \<notin> set fs \<and> a < brk m"
    and "\<And>a. a \<in> set fs \<Longrightarrow> a < brk m" and "\<And>i. i \<in> dom f \<Longrightarrow> i < next_list m"
  shows "mem_inv m f ad fs"
  using assms unfolding mem_inv_def by blast

lemma mem_inv_lists: "mem_inv m f ad fs \<Longrightarrow> lists m i = Some l \<Longrightarrow> i \<in> dom f"
  by (auto simp: mem_inv_dom)

section \<open>The free pool\<close>

lemma carve_fold:
  assumes "b \<le> brk m" and "chain (cells m) (free_elements m) fs None"
    and "\<forall>a \<in> set fs. a < b"
  shows "let m' = fold (\<lambda>i. carve_element (b + i)) [0..<n] m in
           chain (cells m') (free_elements m') (rev [b..<b+n] @ fs) None \<and>
           lists m' = lists m \<and> brk m' = brk m \<and> next_list m' = next_list m \<and>
           (\<forall>a < b. cells m' a = cells m a)"
  using assms
proof (induction n)
  case 0
  then show ?case by simp
next
  case (Suc n)
  have "b + n \<notin> set (rev [b..<b+n] @ fs)" using Suc.prems by auto
  then show ?case using Suc by (auto simp: Let_def carve_element_def)
qed

text \<open>
  The pool after \<open>refill_pool\<close>: the same lists, and a free chain that is only empty when both
  the old one was and the allocator refused.
\<close>

lemma refill_pool_inv:
  assumes inv: "mem_inv m f ad fs"
  obtains fs' where "mem_inv (refill_pool m) f ad fs'"
    and "can_alloc m \<Longrightarrow> fs' \<noteq> []" and "lists (refill_pool m) = lists m"
    and "\<And>a. a < brk m \<Longrightarrow> cells (refill_pool m) a = cells m a"
proof (cases "free_elements m = None \<and> 0 < blocks m")
  case False
  then have "refill_pool m = m" by (auto simp: refill_pool_def)
  moreover have "can_alloc m \<Longrightarrow> fs \<noteq> []"
    using False mem_inv_free [OF inv] by (cases fs) (auto simp: can_alloc_def)
  ultimately show ?thesis using inv that [of fs] by simp
next
  case True
  define m0 where "m0 = m\<lparr>brk := brk m + HEADER_MALLOC_MULTIPLIER, blocks := blocks m - 1\<rparr>"
  define m' where
    "m' = fold (\<lambda>i. carve_element (brk m + i)) [0..<HEADER_MALLOC_MULTIPLIER] m0"
  have eq: "refill_pool m = m'" using True by (simp add: refill_pool_def m'_def m0_def)
  have fs: "fs = []" using True mem_inv_free [OF inv] by simp
  have "brk m \<le> brk m0" "chain (cells m0) (free_elements m0) [] None"
    using True by (auto simp: m0_def)
  from carve_fold [OF this, of HEADER_MALLOC_MULTIPLIER] have
    m': "chain (cells m') (free_elements m') (rev [brk m..<brk m + HEADER_MALLOC_MULTIPLIER]) None"
    "lists m' = lists m" "brk m' = brk m + HEADER_MALLOC_MULTIPLIER" "next_list m' = next_list m"
    "\<forall>a < brk m. cells m' a = cells m a"
    by (auto simp: m'_def m0_def Let_def)
  have "mem_inv m' f ad (rev [brk m..<brk m + HEADER_MALLOC_MULTIPLIER])"
  proof -
    have "list_ok (cells m') l (ad i) (the (f i))" if "lists m i = Some l" for i l
    proof -
      from that inv have "\<forall>a \<in> set (ad i). a < brk m" "list_ok (cells m) l (ad i) (the (f i))"
        using mem_inv_below [OF inv mem_inv_lists [OF inv that]] mem_inv_list_ok [OF inv that]
        by auto
      then show ?thesis using m'(5) list_ok_cong [of "ad i" "cells m" "cells m'"] by auto
    qed
    then show ?thesis
    proof (intro mem_invI)
      show "dom f = dom (lists m')" using mem_inv_dom [OF inv] m'(2) by simp
      show "a \<notin> set (ad j)" if "i \<in> dom f" "j \<in> dom f" "i \<noteq> j" "a \<in> set (ad i)" for i j a
        using mem_inv_disjoint [OF inv that] .
      show "a \<notin> set (rev [brk m..<brk m + HEADER_MALLOC_MULTIPLIER]) \<and> a < brk m'"
        if "i \<in> dom f" "a \<in> set (ad i)" for i a
        using mem_inv_below [OF inv that] m'(3) by auto
      show "i < next_list m'" if "i \<in> dom f" for i using mem_inv_next [OF inv that] m'(4) by simp
    qed (use m' in auto)
  qed
  with eq m' show ?thesis
    by (intro that [of "rev [brk m..<brk m + HEADER_MALLOC_MULTIPLIER]"])
      (auto simp: HEADER_MALLOC_MULTIPLIER_def)
qed

text \<open>A new element is on no list and no longer in the pool.\<close>

definition fresh :: "mem \<Rightarrow> (nat \<Rightarrow> data list option) \<Rightarrow> (nat \<Rightarrow> addr list) \<Rightarrow> addr list \<Rightarrow> addr \<Rightarrow> bool"
  where "fresh m f ad fs a \<longleftrightarrow>
    a < brk m \<and> a \<notin> set fs \<and> (\<forall>i \<in> dom f. a \<notin> set (ad i))"

lemma mem_inv_take_free:
  assumes inv: "mem_inv m f ad (a # fs)"
  shows "mem_inv (m\<lparr>free_elements := el_next (cells m a), cells := (cells m)(a := v)\<rparr>) f ad fs"
proof -
  have "list_ok ((cells m)(a := v)) l (ad i) (the (f i))" if "lists m i = Some l" for i l
  proof -
    from that inv have "a \<notin> set (ad i)"
      using mem_inv_not_free [OF inv mem_inv_lists [OF inv that]] by auto
    then show ?thesis
      using mem_inv_list_ok [OF inv that] list_ok_cong [of "ad i" "cells m" "(cells m)(a := v)"]
      by (metis fun_upd_apply)
  qed
  then show ?thesis using inv by (auto simp: mem_inv_def)
qed

lemma new_list_element_inv:
  assumes inv: "mem_inv m f ad fs" and alloc: "can_alloc m"
  obtains a m' fs' where "new_list_element m = (Some a, m')" and "mem_inv m' f ad fs'"
    and "fresh m' f ad fs' a" and "lists m' = lists m"
proof -
  obtain gs where gs: "mem_inv (refill_pool m) f ad gs" "gs \<noteq> []" "lists (refill_pool m) = lists m"
    using refill_pool_inv [OF inv] alloc by metis
  then obtain a fs' where a: "gs = a # fs'" by (cases gs) auto
  with gs have fe: "free_elements (refill_pool m) = Some a" by (simp add: mem_inv_def)
  define m' where "m' = (refill_pool m)\<lparr>free_elements := el_next (cells (refill_pool m) a),
      cells := (cells (refill_pool m))(a := \<lparr>el_next = None, el_data = 0\<rparr>)\<rparr>"
  have 1: "new_list_element m = (Some a, m')" by (simp add: new_list_element_def fe m'_def Let_def)
  have 2: "mem_inv m' f ad fs'" unfolding m'_def using gs a by (intro mem_inv_take_free) simp
  have 3: "fresh m' f ad fs' a" 
    using mem_inv_free_below [OF gs(1)] mem_inv_free_distinct [OF gs(1)] mem_inv_not_free [OF gs(1)] a
    by (auto simp: fresh_def m'_def)
  have 4: "lists m' = lists m" using gs by (simp add: m'_def)
  from 1 2 3 4 show ?thesis by (rule that)
qed

lemma new_list_element_None:
  assumes inv: "mem_inv m f ad fs" and "\<not> can_alloc m"
  shows "new_list_element m = (None, m)"
  using assms by (auto simp: new_list_element_def refill_pool_def can_alloc_def)

text \<open>Any change confined to one list, the pool and fresh elements keeps the others.\<close>

lemma mem_inv_change:
  assumes inv: "mem_inv m f ad fs" and i: "lists m i = Some l0"
    and m': "lists m' = (lists m)(i \<mapsto> l')" "next_list m' = next_list m" "brk m' = brk m"
    and ok: "list_ok (cells m') l' as' xs'"
    and free: "chain (cells m') (free_elements m') fs' None" "distinct fs'" "set as' \<inter> set fs' = {}"
    and mine: "\<And>a. a \<in> set as' \<union> set fs' \<Longrightarrow> a < brk m \<and> (\<forall>j \<in> dom f. j \<noteq> i \<longrightarrow> a \<notin> set (ad j))"
    and other: "\<And>j a. j \<in> dom f \<Longrightarrow> j \<noteq> i \<Longrightarrow> a \<in> set (ad j) \<Longrightarrow> cells m' a = cells m a"
  shows "mem_inv m' (f(i \<mapsto> xs')) (ad(i := as')) fs'"
proof -
  have dom: "i \<in> dom f" using inv i by (auto simp: mem_inv_def)
  have lo: "list_ok (cells m') l (ad j) (the (f j))" if "j \<noteq> i" "lists m j = Some l" for j l
  proof -
    from that inv have j: "j \<in> dom f" by (auto simp: mem_inv_def)
    then show ?thesis
      using mem_inv_list_ok [OF inv that(2)] other [OF j that(1)]
        list_ok_cong [of "ad j" "cells m'" "cells m"] by auto
  qed
  have "dom (f(i \<mapsto> xs')) = dom (lists m')" using mem_inv_dom [OF inv] m' dom by auto
  moreover have "\<forall>j l. lists m' j = Some l \<longrightarrow>
      list_ok (cells m') l ((ad(i := as')) j) (the ((f(i \<mapsto> xs')) j))"
    using ok lo m' by auto
  moreover have "a \<notin> set ((ad(i := as')) k)"
    if "j \<in> dom (f(i \<mapsto> xs'))" "k \<in> dom (f(i \<mapsto> xs'))" "j \<noteq> k" "a \<in> set ((ad(i := as')) j)" for j k a
  proof -
    from that dom have jk: "j \<in> dom f" "k \<in> dom f" by auto
    show ?thesis
      using that jk mem_inv_disjoint [OF inv jk that(3)] mine by (cases "j = i"; cases "k = i") auto
  qed
  moreover have "a \<notin> set fs' \<and> a < brk m'"
    if "j \<in> dom (f(i \<mapsto> xs'))" "a \<in> set ((ad(i := as')) j)" for j a
  proof (cases "j = i")
    case True
    then show ?thesis using that free(3) mine m' by auto
  next
    case False
    with that dom have "j \<in> dom f" "a \<in> set (ad j)" by auto
    then show ?thesis using False mine mem_inv_below [OF inv] m'(3) by auto
  qed
  moreover have "(\<forall>a \<in> set fs'. a < brk m') \<and> (\<forall>j \<in> dom (f(i \<mapsto> xs')). j < next_list m')"
    using mine mem_inv_next [OF inv] m' dom by auto
  ultimately show ?thesis using free(1,2) unfolding mem_inv_def by blast
qed

section \<open>The pointer surgery of the operations\<close>

lemma list_ok_empty: "list_ok c l [] xs \<longleftrightarrow> head l = None \<and> tail l = None \<and> num_elements l = 0 \<and> xs = []"
  by (auto simp: list_ok_def)

lemma list_ok_head_tail: "list_ok c l as xs \<Longrightarrow> (head l = None) = (as = []) \<and> (tail l = None) = (as = [])"
  by (cases as) (auto simp: list_ok_def)

lemma list_ok_insert_head:
  assumes "list_ok c l as xs" and "e \<notin> set as"
  shows "list_ok (c(e := \<lparr>el_next = head l, el_data = d\<rparr>))
    (l\<lparr>head := Some e, tail := (if tail l = None then Some e else tail l),
       num_elements := Suc (num_elements l)\<rparr>) (e # as) (d # xs)"
  using assms by (cases as) (auto simp: list_ok_def)

lemma list_ok_insert_after:
  assumes ok: "list_ok c l (ps @ p # qs) xs" and e: "e \<notin> set (ps @ p # qs)"
  shows "list_ok (c(p := (c p)\<lparr>el_next := Some e\<rparr>, e := \<lparr>el_next = el_next (c p), el_data = d\<rparr>))
    (l\<lparr>tail := (if tail l = Some p then Some e else tail l), num_elements := Suc (num_elements l)\<rparr>)
    (ps @ p # e # qs) (take (Suc (length ps)) xs @ d # drop (Suc (length ps)) xs)"
proof -
  let ?c = "c(p := (c p)\<lparr>el_next := Some e\<rparr>, e := \<lparr>el_next = el_next (c p), el_data = d\<rparr>)"
  from ok have d: "distinct (ps @ p # qs)" and xs: "xs = map (\<lambda>a. el_data (c a)) (ps @ p # qs)"
    and ch: "chain c (head l) ps (Some p)" "chain c (el_next (c p)) qs None"
    by (auto simp: list_ok_def chain_append)
  have "chain ?c (head l) (ps @ p # e # qs) None"
    using d e ch by (auto simp: chain_append)
  moreover have "map (\<lambda>a. el_data (?c a)) (ps @ p # e # qs) =
      take (Suc (length ps)) xs @ d # drop (Suc (length ps)) xs"
    using d e by (auto simp: xs intro!: map_cong)
  moreover have "qs \<noteq> [] \<Longrightarrow> last qs \<noteq> p" using d last_in_set by fastforce
  ultimately show ?thesis
    using ok d e by (auto simp: list_ok_def)
qed

lemma list_ok_push:
  assumes ok: "list_ok c l as xs" and e: "e \<notin> set as"
  shows "list_ok ((case tail l of None \<Rightarrow> c | Some t \<Rightarrow> c(t := (c t)\<lparr>el_next := Some e\<rparr>))
        (e := \<lparr>el_next = None, el_data = d\<rparr>))
    (l\<lparr>head := (if head l = None then Some e else head l), tail := Some e,
       num_elements := Suc (num_elements l)\<rparr>) (as @ [e]) (xs @ [d])"
proof (cases as rule: rev_cases)
  case Nil
  with ok show ?thesis by (simp add: list_ok_def)
next
  case (snoc ps p)
  have nx: "el_next (c p) = None"
    using ok snoc by (auto simp: list_ok_def chain_append)
  have len: "length xs = Suc (length ps)" using list_ok_length [OF ok] snoc by simp
  have tl: "tail l = Some p" and hd: "head l \<noteq> None"
    using ok snoc list_ok_head_tail [OF ok] by (auto simp: list_ok_def)
  have "list_ok (c(p := (c p)\<lparr>el_next := Some e\<rparr>, e := \<lparr>el_next = None, el_data = d\<rparr>))
      (l\<lparr>tail := Some e, num_elements := Suc (num_elements l)\<rparr>) (as @ [e]) (xs @ [d])"
    using list_ok_insert_after [of c l ps p "[]" xs e d] ok e nx len tl by (simp add: snoc)
  then show ?thesis using tl hd by (auto simp: list_ok_def)
qed

lemma list_ok_unlink:
  assumes ok: "list_ok c l (ps @ a # qs) xs"
  shows "list_ok ((if ps = [] then c else c(last ps := (c (last ps))\<lparr>el_next := el_next (c a)\<rparr>))(a := v))
    (l\<lparr>head := (if ps = [] then el_next (c a) else head l),
       tail := (if tail l = Some a then (if ps = [] then None else Some (last ps)) else tail l),
       num_elements := num_elements l - 1\<rparr>)
    (ps @ qs) (take (length ps) xs @ drop (Suc (length ps)) xs)"
proof -
  from ok have d: "distinct (ps @ a # qs)" and xs: "xs = map (\<lambda>a. el_data (c a)) (ps @ a # qs)"
    and ch: "chain c (head l) ps (Some a)" "chain c (el_next (c a)) qs None"
    by (auto simp: list_ok_def chain_append)
  have tl: "tail l = (if qs = [] then Some a else Some (last qs))"
    and ln: "qs \<noteq> [] \<Longrightarrow> last qs \<noteq> a"
    using ok d last_in_set [of qs] by (auto simp: list_ok_def)
  show ?thesis
  proof (cases ps rule: rev_cases)
    case Nil
    with ok d xs ch tl ln show ?thesis by (auto simp: list_ok_def intro!: map_cong)
  next
    case (snoc rs r)
    have "chain (c(r := (c r)\<lparr>el_next := el_next (c a)\<rparr>, a := v)) (head l) (rs @ r # qs) None"
      using d ch snoc by (auto simp: chain_append)
    with snoc ok d xs tl ln show ?thesis
      by (auto simp: list_ok_def intro!: map_cong)
  qed
qed

section \<open>Reading the memory after the primitives\<close>

lemma prim_simps [simp]:
  "cells (upd_list i g m) = cells m" "free_elements (upd_list i g m) = free_elements m"
  "brk (upd_list i g m) = brk m" "blocks (upd_list i g m) = blocks m"
  "next_list (upd_list i g m) = next_list m"
  "lists (upd_list i g m) = (lists m)(i := map_option g (lists m i))"
  "lists (set_next a n m) = lists m" "free_elements (set_next a n m) = free_elements m"
  "brk (set_next a n m) = brk m" "blocks (set_next a n m) = blocks m"
  "next_list (set_next a n m) = next_list m"
  "cells (set_next a n m) = (cells m)(a := (cells m a)\<lparr>el_next := n\<rparr>)"
  "lists (set_data a d m) = lists m" "free_elements (set_data a d m) = free_elements m"
  "brk (set_data a d m) = brk m" "blocks (set_data a d m) = blocks m"
  "next_list (set_data a d m) = next_list m"
  "cells (set_data a d m) = (cells m)(a := (cells m a)\<lparr>el_data := d\<rparr>)"
  by (simp_all add: upd_list_def set_next_def set_data_def)

lemma element_upd [simp]:
  "(x::element)\<lparr>el_next := n, el_data := d\<rparr> = \<lparr>el_next = n, el_data = d\<rparr>"
  "(x::element)\<lparr>el_data := d, el_next := n\<rparr> = \<lparr>el_next = n, el_data = d\<rparr>"
  by (cases x, simp)+

lemma cs_simps [simp]:
  "cells (enter_cs i m) = cells m" "free_elements (enter_cs i m) = free_elements m"
  "brk (enter_cs i m) = brk m" "blocks (enter_cs i m) = blocks m"
  "next_list (enter_cs i m) = next_list m"
  "cells (exit_cs i m) = cells m" "free_elements (exit_cs i m) = free_elements m"
  "brk (exit_cs i m) = brk m" "blocks (exit_cs i m) = blocks m"
  "next_list (exit_cs i m) = next_list m"
  by (simp_all add: enter_cs_def exit_cs_def)

lemma enter_cs_lists [simp]:
  "lists (enter_cs i m) = (lists m)(i := map_option (\<lambda>l. l\<lparr>lock := Suc (lock l)\<rparr>) (lists m i))"
  by (simp add: enter_cs_def)

lemma exit_cs_lists [simp]:
  "lists (exit_cs i m) = (lists m)(i := map_option (\<lambda>l. l\<lparr>lock := lock l - 1\<rparr>) (lists m i))"
  by (simp add: exit_cs_def)

lemma enter_exit_cs: "exit_cs i (enter_cs i m) = m"
proof -
  have "lists (exit_cs i (enter_cs i m)) = lists m"
    by (rule ext) (simp add: option.map_comp comp_def option.map_ident)
  then show ?thesis by (intro mem.equality) simp_all
qed

lemma validate_list_cong:
  "cells m = cells m' \<Longrightarrow> validate_list l m = validate_list l m'"
  by (auto simp: validate_list_def split: option.splits)

lemma list_ok_validate': "list_ok c l as xs \<Longrightarrow> cells m = c \<Longrightarrow> validate_list l m"
  using list_ok_validate [of m l as xs] by simp

lemma mem_relE:
  assumes "mem_rel m f" and "f i = Some xs"
  obtains ad fs l where "mem_inv m f ad fs" and "lists m i = Some l" and "lock l = 0"
    and "list_ok (cells m) l (ad i) xs"
proof -
  from assms obtain ad fs where inv: "mem_inv m f ad fs" and u: "unlocked m"
    by (auto simp: mem_rel_def)
  have "i \<in> dom (lists m)" using mem_inv_dom [OF inv] assms(2) by auto
  then obtain l where l: "lists m i = Some l" by auto
  show ?thesis
    using that [OF inv l] u l mem_inv_list_ok [OF inv l] assms(2) by (auto simp: unlocked_def)
qed

text \<open>The invariant does not look at the locks.\<close>

lemma mem_inv_cs [simp]:
  "mem_inv (enter_cs i m) f ad fs = mem_inv m f ad fs"
  "mem_inv (exit_cs i m) f ad fs = mem_inv m f ad fs"
proof -
  have d: "dom (lists (enter_cs i m)) = dom (lists m)" "dom (lists (exit_cs i m)) = dom (lists m)"
    by (auto simp: dom_def)
  have l: "(\<forall>j l. lists (enter_cs i m) j = Some l \<longrightarrow> list_ok (cells m) l (ad j) (the (f j))) \<longleftrightarrow>
        (\<forall>j l. lists m j = Some l \<longrightarrow> list_ok (cells m) l (ad j) (the (f j)))"
      "(\<forall>j l. lists (exit_cs i m) j = Some l \<longrightarrow> list_ok (cells m) l (ad j) (the (f j))) \<longleftrightarrow>
        (\<forall>j l. lists m j = Some l \<longrightarrow> list_ok (cells m) l (ad j) (the (f j)))"
    by auto
  show "mem_inv (enter_cs i m) f ad fs = mem_inv m f ad fs"
    unfolding mem_inv_def d l cs_simps ..
  show "mem_inv (exit_cs i m) f ad fs = mem_inv m f ad fs"
    unfolding mem_inv_def d l cs_simps ..
qed

lemma can_alloc_cs [simp]: "can_alloc (enter_cs i m) = can_alloc m"
  by (simp add: can_alloc_def)

lemma fresh_cs [simp]: "fresh (enter_cs i m) f ad fs a = fresh m f ad fs a"
  by (simp add: fresh_def)

text \<open>One operation on list \<open>i\<close>: from the memory of the allocation to the final relation.\<close>

lemma mem_rel_change:
  assumes inv: "mem_inv m f ad fs" and u: "unlocked m0"
    and eq: "lists m' = (lists m0)(i \<mapsto> l')" "dom (lists m) = dom (lists m0)"
      "\<And>j. j \<noteq> i \<Longrightarrow> lists m j = lists m0 j" "i \<in> dom f" "lock l' = 0"
    and m': "next_list m' = next_list m" "brk m' = brk m"
    and ok: "list_ok (cells m') l' as' xs'"
    and free: "chain (cells m') (free_elements m') fs' None" "distinct fs'" "set as' \<inter> set fs' = {}"
    and mine: "\<And>a. a \<in> set as' \<union> set fs' \<Longrightarrow> a < brk m \<and> (\<forall>j \<in> dom f. j \<noteq> i \<longrightarrow> a \<notin> set (ad j))"
    and other: "\<And>j a. j \<in> dom f \<Longrightarrow> j \<noteq> i \<Longrightarrow> a \<in> set (ad j) \<Longrightarrow> cells m' a = cells m a"
  shows "mem_rel m' (f(i \<mapsto> xs'))"
proof -
  obtain l0 where l0: "lists m i = Some l0" using mem_inv_dom [OF inv] eq(4) by auto
  have lists: "lists m' = (lists m)(i \<mapsto> l')"
    by (rule ext) (simp add: eq)
  have "mem_inv m' (f(i \<mapsto> xs')) (ad(i := as')) fs'"
    by (rule mem_inv_change [OF inv l0 lists m' ok free mine other])
  moreover have "unlocked m'" using u eq by (auto simp: unlocked_def)
  ultimately show ?thesis by (auto simp: mem_rel_def)
qed

section \<open>Each operation refines its list function\<close>

lemma fresh_bounds:
  assumes inv: "mem_inv m f ad fs" and e: "fresh m f ad fs e" and i: "i \<in> dom f"
    and a: "a \<in> insert e (set (ad i)) \<union> set fs"
  shows "a < brk m \<and> (\<forall>j \<in> dom f. j \<noteq> i \<longrightarrow> a \<notin> set (ad j))"
  using a e mem_inv_below [OF inv i] mem_inv_free_below [OF inv]
    mem_inv_disjoint [OF inv i] mem_inv_not_free [OF inv]
  unfolding fresh_def by blast

lemma list_ok_upd: "e \<notin> set as \<Longrightarrow> list_ok (c(e := v)) l as xs = list_ok c l as xs"
  by (rule list_ok_cong) auto

lemma push_refines:
  assumes rel: "mem_rel m f" and i: "f i = Some xs" and alloc: "can_alloc m"
  shows "\<exists>m'. myrefl_list_push (Some i) d m = Some m' \<and> mem_rel m' (f(i \<mapsto> xs @ [d]))"
proof -
  obtain ad fs l where inv: "mem_inv m f ad fs" and l: "lists m i = Some l" "lock l = 0"
    and ok: "list_ok (cells m) l (ad i) xs" using mem_relE [OF rel i] .
  obtain e m1 gs where new: "new_list_element m = (Some e, m1)" and inv1: "mem_inv m1 f ad gs"
    and e: "fresh m1 f ad gs e" and ls: "lists m1 = lists m"
    using new_list_element_inv [OF inv alloc] by metis
  have id: "i \<in> dom f" using i by auto
  have ok1: "list_ok (cells m1) l (ad i) xs"
    using mem_inv_list_ok [OF inv1, of i l] ls l i by simp
  have ea: "e \<notin> set (ad i)" using e id by (auto simp: fresh_def)
  define l' where "l' = l\<lparr>head := (if head l = None then Some e else head l), tail := Some e,
       num_elements := Suc (num_elements l)\<rparr>"
  define c' where "c' = (case tail l of None \<Rightarrow> cells m1 | Some t \<Rightarrow> (cells m1)(t := (cells m1 t)\<lparr>el_next := Some e\<rparr>))
        (e := \<lparr>el_next = None, el_data = d\<rparr>)"
  have ok': "list_ok c' l' (ad i @ [e]) (xs @ [d])"
    unfolding c'_def l'_def by (rule list_ok_push [OF ok1 ea])
  have tl: "tail l = Some t \<Longrightarrow> t \<in> set (ad i)" for t
    using ok1 by (auto simp: list_ok_def split: if_splits)
  then have tl_not_free: "tail l = Some t \<Longrightarrow> t \<notin> set gs" for t
    using mem_inv_not_free [OF inv1 id] by auto
  have te: "tail l \<noteq> Some e" using ok1 ea by (auto simp: list_ok_def split: if_splits)
  have v1: "list_ok ((cells m1)(e := \<lparr>el_next = None, el_data = d\<rparr>)) l (ad i) xs"
    using ok1 ea by (simp add: list_ok_upd)
  have v2: "validate_list (l\<lparr>lock := Suc 0\<rparr>) m'" if "cells m' = (cells m1)(e := \<lparr>el_next = None, el_data = d\<rparr>)" for m'
    using v1 that by (intro list_ok_validate' [of _ _ "ad i" xs]) simp_all
  have v3: "validate_list l'' m'" if "cells m' = c'" "head l'' = head l'" "tail l'' = tail l'"
      "num_elements l'' = num_elements l'" for m' l''
    using ok' that by (intro list_ok_validate' [of c' _ "ad i @ [e]" "xs @ [d]"]) (simp_all add: list_ok_def)
  obtain m' l'' where push: "myrefl_list_push (Some i) d m = Some m'"
    and m': "lists m' = (lists m)(i \<mapsto> l'')" "cells m' = c'" "free_elements m' = free_elements m1"
      "brk m' = brk m1" "next_list m' = next_list m1"
    and l'': "head l'' = head l'" "tail l'' = tail l'" "num_elements l'' = num_elements l'" "lock l'' = 0"
  proof (cases "tail l")
    case None
    then have "head l = None" using list_ok_head_tail [OF ok] by simp
    with None l ls that show ?thesis
      by (simp add: myrefl_list_push_def new Let_def v2 v3 c'_def l'_def)
  next
    case (Some t)
    then have "head l \<noteq> None" "t \<noteq> e" using list_ok_head_tail [OF ok] te by auto
    with Some l ls that show ?thesis
      by (simp add: myrefl_list_push_def new Let_def v2 v3 c'_def l'_def fun_upd_twist)
  qed
  have "list_ok c' l'' (ad i @ [e]) (xs @ [d])" using ok' l'' by (simp add: list_ok_def)
  then have "mem_rel m' (f(i \<mapsto> xs @ [d]))"
  proof (intro mem_rel_change [OF inv1, of m m' i l'' "ad i @ [e]" _ gs])
    show "chain (cells m') (free_elements m') gs None"
      using mem_inv_free [OF inv1] e tl_not_free by (auto simp: m' c'_def fresh_def split: option.splits)
    show "a < brk m1 \<and> (\<forall>j \<in> dom f. j \<noteq> i \<longrightarrow> a \<notin> set (ad j))"
      if "a \<in> set (ad i @ [e]) \<union> set gs" for a
      using fresh_bounds [OF inv1 e id, of a] that by auto
    show "cells m' a = cells m1 a" if "j \<in> dom f" "j \<noteq> i" "a \<in> set (ad j)" for j a
      using that e mem_inv_disjoint [OF inv1 that(1) id that(2,3)] tl
      by (auto simp: m' c'_def fresh_def split: option.splits)
  qed (use rel id l ls l'' mem_inv_free_distinct [OF inv1] mem_inv_not_free [OF inv1 id] e in
      \<open>auto simp: m' mem_rel_def fresh_def\<close>)
  with push show ?thesis by auto
qed

lemma find_loop_chain:
  "chain (cells m) p as None \<Longrightarrow> find_loop p d m = Some (d \<in> (\<lambda>a. el_data (cells m a)) ` set as)"
  by (induction as arbitrary: p) (subst find_loop.simps, auto)+

lemma find_ok:
  assumes "lists m i = Some l" and "list_ok (cells m) l as xs"
  shows "myrefl_list_find (Some i) d m = Some (d \<in> set xs)"
proof -
  have "chain (cells m) (head l) as None" and "set xs = (\<lambda>a. el_data (cells m a)) ` set as"
    using assms(2) by (auto simp: list_ok_def)
  then show ?thesis using assms(1) by (simp add: myrefl_list_find_def find_loop_chain)
qed

lemma find_refines: "mem_rel m f \<Longrightarrow> f i = Some xs \<Longrightarrow> myrefl_list_find (Some i) d m = Some (d \<in> set xs)"
  using mem_relE find_ok by metis

lemma peek_refines:
  assumes "mem_rel m f" and "f i = Some xs"
  shows "myrefl_list_peek (Some i) m = (case xs of [] \<Rightarrow> None | x # _ \<Rightarrow> Some x)"
proof -
  obtain ad fs l where l: "lists m i = Some l" and ok: "list_ok (cells m) l (ad i) xs"
    using mem_relE [OF assms] by metis
  show ?thesis using l ok list_ok_headD [OF ok]
    by (cases "ad i") (auto simp: myrefl_list_peek_def list_ok_def)
qed

text \<open>
  Taking the element at the split \<open>ps @ a # qs\<close> out of list \<open>i\<close> and putting it on the pool,
  as \<open>pop\<close> and \<open>remove\<close> do.
\<close>

lemma unlink_rel:
  assumes rel: "mem_inv m f ad fs" "unlocked m" and l: "lists m i = Some l"
    and ok: "list_ok (cells m) l (ps @ a # qs) xs" and ad: "ad i = ps @ a # qs"
    and c': "cells m' = (if ps = [] then cells m else (cells m)
              (last ps := (cells m (last ps))\<lparr>el_next := el_next (cells m a)\<rparr>))
              (a := v)" "el_next v = free_elements m" "free_elements m' = Some a"
    and m': "lists m' = (lists m)(i \<mapsto> l')" "lock l' = 0" "next_list m' = next_list m" "brk m' = brk m"
    and l': "head l' = (if ps = [] then el_next (cells m a) else head l)"
      "tail l' = (if tail l = Some a then (if ps = [] then None else Some (last ps)) else tail l)"
      "num_elements l' = num_elements l - 1"
  shows "mem_rel m' (f(i \<mapsto> take (length ps) xs @ drop (Suc (length ps)) xs))"
    and "list_ok (cells m') l' (ps @ qs) (take (length ps) xs @ drop (Suc (length ps)) xs)"
proof -
  have id: "i \<in> dom f" using mem_inv_lists [OF rel(1) l] .
  have d: "distinct (ps @ a # qs)" using ok by (simp add: list_ok_def)
  have nf: "b \<notin> set fs" "b < brk m" if "b \<in> set (ps @ a # qs)" for b
    using mem_inv_not_free [OF rel(1) id, of b] mem_inv_below [OF rel(1) id, of b] that ad by auto
  have dj: "b \<notin> set (ad j)" if "b \<in> set (ps @ a # qs)" "j \<in> dom f" "j \<noteq> i" for b j
    using mem_inv_disjoint [OF rel(1) id that(2), of b] that ad by auto
  have lp: "ps \<noteq> [] \<Longrightarrow> last ps \<in> set (ps @ a # qs)" "ps \<noteq> [] \<Longrightarrow> last ps \<notin> set fs"
    using nf(1) [of "last ps"] by auto
  show ok': "list_ok (cells m') l' (ps @ qs) (take (length ps) xs @ drop (Suc (length ps)) xs)"
    using list_ok_unlink [OF ok, of v] c' l' by (simp add: list_ok_def)
  show "mem_rel m' (f(i \<mapsto> take (length ps) xs @ drop (Suc (length ps)) xs))"
  proof (rule mem_rel_change [OF rel(1,2) m'(1) _ _ id m'(2,3,4) ok', of "a # fs"])
    show "chain (cells m') (free_elements m') (a # fs) None"
      using mem_inv_free [OF rel(1)] nf(1) lp c' by auto
    show "distinct (a # fs)" using mem_inv_free_distinct [OF rel(1)] nf(1) by auto
    show "set (ps @ qs) \<inter> set (a # fs) = {}" using d nf(1) by auto
    show "b < brk m \<and> (\<forall>j \<in> dom f. j \<noteq> i \<longrightarrow> b \<notin> set (ad j))"
      if "b \<in> set (ps @ qs) \<union> set (a # fs)" for b
    proof (cases "b \<in> set fs")
      case True
      then show ?thesis using mem_inv_free_below [OF rel(1)] mem_inv_not_free [OF rel(1)] by blast
    next
      case False
      then have "b \<in> set (ps @ a # qs)" using that by auto
      then show ?thesis using nf(2) dj by auto
    qed
    show "cells m' b = cells m b" if "j \<in> dom f" "j \<noteq> i" "b \<in> set (ad j)" for j b
      using that c'(1) dj [of a j] dj [of "last ps" j] lp by auto
  qed simp_all
qed

lemma pop_refines:
  assumes rel: "mem_rel m f" and i: "f i = Some xs"
  shows "\<exists>m'. myrefl_list_pop (Some i) m = Some (case xs of [] \<Rightarrow> None | x # _ \<Rightarrow> Some x, m') \<and>
           mem_rel m' (f(i \<mapsto> tl xs))"
proof -
  obtain ad fs l where inv: "mem_inv m f ad fs" and l: "lists m i = Some l" "lock l = 0"
    and ok: "list_ok (cells m) l (ad i) xs" using mem_relE [OF rel i] .
  have v1: "validate_list (l\<lparr>lock := Suc 0\<rparr>) m'" if "cells m' = cells m" for m'
    using ok that by (intro list_ok_validate' [of _ _ "ad i" xs]) simp_all
  show ?thesis
  proof (cases "ad i")
    case Nil
    then have "xs = []" "head l = None" using ok by (auto simp: list_ok_empty)
    then show ?thesis using l v1 rel i
      by (simp add: myrefl_list_pop_def Let_def enter_exit_cs fun_upd_idem)
  next
    case (Cons h qs)
    then have h: "head l = Some h" "el_data (cells m h) = hd xs" "xs \<noteq> []"
      using ok by (auto simp: list_ok_def)
    have u: "unlocked m" using rel by (simp add: mem_rel_def)
    have okh: "list_ok (cells m) l ([] @ h # qs) xs" using ok Cons by simp
    have v2: "validate_list l'' m''"
      if "cells m'' = (cells m)(h := (cells m h)\<lparr>el_next := free_elements m\<rparr>)"
        "head l'' = el_next (cells m h)" "tail l'' = (if tail l = Some h then None else tail l)"
        "num_elements l'' = num_elements l - 1" for m'' l''
      using list_ok_unlink [OF okh, of "(cells m h)\<lparr>el_next := free_elements m\<rparr>"] that
      by (intro list_ok_validate' [of _ _ qs "drop 1 xs"]) (auto simp: list_ok_def split: if_splits)
    obtain m' l' where pop: "myrefl_list_pop (Some i) m = Some (Some (hd xs), m')"
      and m': "lists m' = (lists m)(i \<mapsto> l')" "lock l' = 0" "next_list m' = next_list m" "brk m' = brk m"
      and c': "cells m' = (cells m)(h := (cells m h)\<lparr>el_next := free_elements m\<rparr>)"
        "free_elements m' = Some h"
      and l': "head l' = el_next (cells m h)" "tail l' = (if tail l = Some h then None else tail l)"
        "num_elements l' = num_elements l - 1"
    proof (cases "tail l = Some h")
      case True
      with h l that show ?thesis
        by (simp add: myrefl_list_pop_def Let_def v1 v2 free_list_element_def)
    next
      case False
      with h l that show ?thesis
        by (simp add: myrefl_list_pop_def Let_def v1 v2 free_list_element_def)
    qed
    have "mem_rel m' (f(i \<mapsto> take (length ([] :: addr list)) xs @ drop (Suc (length ([] :: addr list))) xs))"
      by (rule unlink_rel(1) [OF inv u l(1) okh, of m' "(cells m h)\<lparr>el_next := free_elements m\<rparr>" l'])
        (use m' c' l' Cons in simp_all)
    with pop h(3) show ?thesis by (cases xs) auto
  qed
qed

lemma remove_loop_miss:
  "chain (cells m) p as None \<Longrightarrow> lists m i = Some l \<Longrightarrow> d \<notin> (\<lambda>a. el_data (cells m a)) ` set as \<Longrightarrow>
     remove_loop i d prev p m = Some (False, False, m)"
  by (induction as arbitrary: p prev) (subst remove_loop.simps, auto)+

lemma remove_loop_hit:
  "chain (cells m) p (ps @ [a]) q \<Longrightarrow> lists m i = Some l \<Longrightarrow> d \<notin> (\<lambda>a. el_data (cells m a)) ` set ps \<Longrightarrow>
     el_data (cells m a) = d \<Longrightarrow>
     remove_loop i d prev p m =
       (let (l', m') = unlink_element i l a (if ps = [] then prev else Some (last ps)) m
        in Some (\<not> validate_list l' m', True, m'))"
  by (induction ps arbitrary: p prev) (subst remove_loop.simps, auto)+

lemma remove1_map_split:
  assumes "xs = map g (ps @ a # qs)" and "g a \<notin> g ` set ps"
  shows "take (length ps) xs @ drop (Suc (length ps)) xs = remove1 (g a) xs"
  using assms by (simp add: remove1_append)

lemma remove_refines:
  assumes rel: "mem_rel m f" and i: "f i = Some xs"
  shows "\<exists>m'. myrefl_list_remove (Some i) d m = Some (d \<in> set xs, m') \<and>
           mem_rel m' (f(i \<mapsto> remove1 d xs))"
proof -
  obtain ad fs l where inv: "mem_inv m f ad fs" and l: "lists m i = Some l" "lock l = 0"
    and ok: "list_ok (cells m) l (ad i) xs" using mem_relE [OF rel i] .
  let ?g = "\<lambda>a. el_data (cells m a)" and ?l = "l\<lparr>lock := Suc 0\<rparr>"
  have v1: "validate_list l'' m'"
    if "cells m' = cells m" "head l'' = head l" "tail l'' = tail l" "num_elements l'' = num_elements l" for m' l''
    using ok that by (intro list_ok_validate' [of _ _ "ad i" xs]) (simp_all add: list_ok_def)
  have ch: "chain (cells m) (head l) (ad i) None" and xs: "xs = map ?g (ad i)" using ok by (auto simp: list_ok_def)
  show ?thesis
  proof (cases "d \<in> set xs")
    case False
    then have "remove_loop i d None (head l) (enter_cs i m) = Some (False, False, enter_cs i m)"
      using remove_loop_miss [of "enter_cs i m" "head l" "ad i" i ?l d None] ch xs l by auto
    with False show ?thesis using l rel i
      by (simp add: myrefl_list_remove_def Let_def v1 enter_exit_cs remove1_idem fun_upd_idem)
  next
    case True
    then obtain ps a qs where ad: "ad i = ps @ a # qs" and d: "d = ?g a" "d \<notin> ?g ` set ps"
      using split_at_member [of d xs] xs by (auto simp: map_eq_append_conv map_eq_Cons_conv)
    have u: "unlocked m" using rel by (simp add: mem_rel_def)
    have oka: "list_ok (cells m) l (ps @ a # qs) xs" using ok ad by simp
    let ?prev = "if ps = [] then None else Some (last ps)"
    have hit: "remove_loop i d None (head l) (enter_cs i m) =
       (let (l', m') = unlink_element i ?l a ?prev (enter_cs i m) in Some (\<not> validate_list l' m', True, m'))"
      using remove_loop_hit [of "enter_cs i m" "head l" ps a "el_next (cells m a)" i ?l d None] ch ad d l
      by (auto simp: chain_append)
    have hd: "head l = Some a \<longleftrightarrow> ps = []" 
      using list_ok_headD [OF oka] oka by (cases ps) (auto simp: list_ok_def)
    have la: "last ps \<noteq> a" if "ps \<noteq> []" using oka that last_in_set [of ps] by (auto simp: list_ok_def)
    define v where "v = (cells m a)\<lparr>el_next := free_elements m\<rparr>"
    define c' where "c' = (if ps = [] then cells m else (cells m)
              (last ps := (cells m (last ps))\<lparr>el_next := el_next (cells m a)\<rparr>))(a := v)"
    have v2: "validate_list l'' m''"
      if "cells m'' = c'" "head l'' = (if ps = [] then el_next (cells m a) else head l)"
        "tail l'' = (if tail l = Some a then ?prev else tail l)"
        "num_elements l'' = num_elements l - 1" for m'' l''
      using list_ok_unlink [OF oka, of v] that unfolding c'_def
      by (intro list_ok_validate' [of _ _ "ps @ qs" "take (length ps) xs @ drop (Suc (length ps)) xs"])
        (auto simp: list_ok_def split: if_splits)
    obtain m' l' where un: "unlink_element i ?l a ?prev (enter_cs i m) = (l', m')"
      and m': "lists m' = (lists m)(i \<mapsto> l')" "lock l' = Suc 0" "next_list m' = next_list m" "brk m' = brk m"
      and c: "cells m' = c'" "free_elements m' = Some a"
      and l': "head l' = (if ps = [] then el_next (cells m a) else head l)"
        "tail l' = (if tail l = Some a then ?prev else tail l)" "num_elements l' = num_elements l - 1"
    proof (cases "ps = []")
      case True
      with hd l that show ?thesis
        by (simp add: unlink_element_def Let_def free_list_element_def c'_def v_def)
    next
      case False
      with hd l la that show ?thesis
        by (simp add: unlink_element_def Let_def free_list_element_def c'_def v_def)
    qed
    have rem: "myrefl_list_remove (Some i) d m = Some (True, exit_cs i m')"
      using l m'(1) l' c by (simp add: myrefl_list_remove_def Let_def v1 hit un v2)
    have "mem_rel (exit_cs i m') (f(i \<mapsto> take (length ps) xs @ drop (Suc (length ps)) xs))"
      by (rule unlink_rel(1) [OF inv u l(1) oka ad, of _ v "l'\<lparr>lock := 0\<rparr>"])
        (use m' c l' in \<open>simp_all add: v_def c'_def\<close>)
    moreover have "take (length ps) xs @ drop (Suc (length ps)) xs = remove1 d xs"
      using remove1_map_split [of xs ?g ps a qs] xs ad d by simp
    ultimately show ?thesis using rem True by auto
  qed
qed

lemma chain_elems_next: "chain c p (ps @ a # qs) None \<Longrightarrow> el_next (c a) = (case qs of [] \<Rightarrow> None | b # _ \<Rightarrow> Some b)"
  by (cases qs) (auto simp: chain_append)

text \<open>The common end of an insertion: a fresh element joins list \<open>i\<close>.\<close>

lemma insert_rel:
  assumes inv: "mem_inv m1 f ad gs" and u: "unlocked m" and e: "fresh m1 f ad gs e"
    and id: "i \<in> dom f" and ls: "lists m1 = lists m"
    and m': "lists m' = (lists m)(i \<mapsto> l')" "lock l' = 0" "free_elements m' = free_elements m1"
      "brk m' = brk m1" "next_list m' = next_list m1"
    and c': "\<And>a. a \<noteq> e \<Longrightarrow> a \<notin> set (ad i) \<Longrightarrow> cells m' a = cells m1 a"
    and ok: "list_ok (cells m') l' as' xs'" and as': "set as' = insert e (set (ad i))"
  shows "mem_rel m' (f(i \<mapsto> xs'))"
proof (rule mem_rel_change [OF inv u m'(1) _ _ id m'(2,5,4) ok, of gs])
  have nf: "b \<notin> set gs" if "b \<in> insert e (set (ad i))" for b
    using that e mem_inv_not_free [OF inv id, of b] by (auto simp: fresh_def)
  show "chain (cells m') (free_elements m') gs None"
    using mem_inv_free [OF inv] chain_cong [of gs "cells m'" "cells m1"] c' nf m'(3) by auto
  show "distinct gs" using mem_inv_free_distinct [OF inv] .
  show "set as' \<inter> set gs = {}" using nf as' by auto
  show "a < brk m1 \<and> (\<forall>j \<in> dom f. j \<noteq> i \<longrightarrow> a \<notin> set (ad j))" if "a \<in> set as' \<union> set gs" for a
    using fresh_bounds [OF inv e id, of a] that as' by auto
  show "cells m' a = cells m1 a" if "j \<in> dom f" "j \<noteq> i" "a \<in> set (ad j)" for j a
  proof (rule c')
    show "a \<noteq> e" using that e unfolding fresh_def by blast
    show "a \<notin> set (ad i)" using mem_inv_disjoint [OF inv that(1) id that(2,3)] .
  qed
qed (use ls in auto)

lemma insert_refines:
  assumes rel: "mem_rel m f" and i: "f i = Some xs" and alloc: "can_alloc m" and d: "d \<notin> set xs"
    and inv: "mem_inv m f ad fs"
    and prev: "case prev of None \<Rightarrow> ps = [] \<and> xs' = d # xs
      | Some p \<Rightarrow> ad i = ps @ p # qs \<and> xs' = take (Suc (length ps)) xs @ d # drop (Suc (length ps)) xs"
  shows "\<exists>m'. myrefl_list_insert (Some i) prev d m = Some m' \<and> mem_rel m' (f(i \<mapsto> xs'))"
proof -
  have id: "i \<in> dom f" using i by auto
  then obtain l where l: "lists m i = Some l" using mem_inv_dom [OF inv] by auto
  then have lk: "lock l = 0" using rel by (simp add: mem_rel_def unlocked_def)
  have ok: "list_ok (cells m) l (ad i) xs" using mem_inv_list_ok [OF inv l] i by simp
  have u: "unlocked m" using rel by (simp add: mem_rel_def)
  have invc: "mem_inv (enter_cs i m) f ad fs" and al: "can_alloc (enter_cs i m)"
    using inv alloc by simp_all
  obtain e m1 gs where new: "new_list_element (enter_cs i m) = (Some e, m1)" and inv1': "mem_inv m1 f ad gs"
    and e: "fresh m1 f ad gs e" and ls1: "lists m1 = lists (enter_cs i m)"
    using new_list_element_inv [OF invc al] by metis
  define m0 where "m0 = exit_cs i m1"
  have inv1: "mem_inv m0 f ad gs" and e0: "fresh m0 f ad gs e"
    using inv1' e by (simp_all add: m0_def fresh_def)
  have ls: "lists m0 = lists m"
    using ls1 l by (auto simp: m0_def)
  have ok1: "list_ok (cells m1) l (ad i) xs"
  proof -
    have "lists m0 i = Some l" using ls l by simp
    then have "list_ok (cells m0) l (ad i) xs" using mem_inv_list_ok [OF inv1] i by fastforce
    then show ?thesis by (simp add: m0_def)
  qed
  have ea: "e \<notin> set (ad i)" using e id by (auto simp: fresh_def)
  have v1: "validate_list l'' m'" if "cells m' = cells m" "head l'' = head l" "tail l'' = tail l"
      "num_elements l'' = num_elements l" for m' l''
    using ok that by (intro list_ok_validate' [of _ _ "ad i" xs]) (simp_all add: list_ok_def)
  have nodup: "myrefl_list_find (Some i) d (enter_cs i m) = Some False"
    using find_ok [of "enter_cs i m" i "l\<lparr>lock := Suc 0\<rparr>" "ad i" xs d] l lk ok d by simp
  show ?thesis
  proof (cases prev)
    case None
    define c' where "c' = (cells m1)(e := \<lparr>el_next = head l, el_data = d\<rparr>)"
    define tl' where "tl' = (if tail l = None then Some e else tail l)"
    have ok': "list_ok c' l'' (e # ad i) (d # xs)" if "head l'' = Some e" "tail l'' = tl'"
      "num_elements l'' = Suc (num_elements l)" for l''
      using list_ok_insert_head [OF ok1 ea, of d] that unfolding c'_def tl'_def by (simp add: list_ok_def)
    have v2: "validate_list l'' m'" if "cells m' = c'" "head l'' = Some e" "tail l'' = tl'"
      "num_elements l'' = Suc (num_elements l)" for m' l''
      using ok' that by (intro list_ok_validate' [of c' _ "e # ad i" "d # xs"]) simp_all
    obtain m' l'' where ins: "myrefl_list_insert (Some i) prev d m = Some m'"
      and m': "lists m' = (lists m)(i \<mapsto> l'')" "lock l'' = 0" "free_elements m' = free_elements m0"
        "brk m' = brk m0" "next_list m' = next_list m0" and c: "cells m' = c'"
      and l'': "head l'' = Some e" "tail l'' = tl'" "num_elements l'' = Suc (num_elements l)"
      using None l lk ls1 nodup that
      by (cases "tail l = None")
        (simp_all add: myrefl_list_insert_def Let_def new v1 v2 c'_def tl'_def m0_def)
    have "mem_rel m' (f(i \<mapsto> xs'))"
      by (rule insert_rel [OF inv1 u e0 id ls m', of "e # ad i"])
        (use c ok' l'' prev None in \<open>auto simp: c'_def m0_def\<close>)
    with ins show ?thesis by auto
  next
    case (Some p)
    with prev have ad: "ad i = ps @ p # qs" and xs': "xs' = take (Suc (length ps)) xs @ d # drop (Suc (length ps)) xs"
      by auto
    have pe: "p \<noteq> e" using ea ad by auto
    define c' where "c' = (cells m1)(p := (cells m1 p)\<lparr>el_next := Some e\<rparr>,
        e := \<lparr>el_next = el_next (cells m1 p), el_data = d\<rparr>)"
    define tl' where "tl' = (if tail l = Some p then Some e else tail l)"
    have ok': "list_ok c' l'' (ps @ p # e # qs) xs'" if "head l'' = head l" "tail l'' = tl'"
      "num_elements l'' = Suc (num_elements l)" for l''
      using list_ok_insert_after [of "cells m1" l ps p qs xs e d] ok1 ea ad that
      unfolding c'_def tl'_def xs' by (simp add: list_ok_def)
    have v2: "validate_list l'' m'" if "cells m' = c'" "head l'' = head l" "tail l'' = tl'"
      "num_elements l'' = Suc (num_elements l)" for m' l''
      using ok' that by (intro list_ok_validate' [of c' _ "ps @ p # e # qs" xs']) simp_all
    have tn: "tail l \<noteq> None" using list_ok_head_tail [OF ok] ad by simp
    obtain m' l'' where ins: "myrefl_list_insert (Some i) prev d m = Some m'"
      and m': "lists m' = (lists m)(i \<mapsto> l'')" "lock l'' = 0" "free_elements m' = free_elements m0"
        "brk m' = brk m0" "next_list m' = next_list m0" and c: "cells m' = c'"
      and l'': "head l'' = head l" "tail l'' = tl'" "num_elements l'' = Suc (num_elements l)"
      using Some l lk ls1 nodup that tn pe
      by (cases "tail l = Some p")
        (simp_all add: myrefl_list_insert_def Let_def new v1 v2 c'_def tl'_def m0_def fun_upd_twist)
    have "mem_rel m' (f(i \<mapsto> xs'))"
      by (rule insert_rel [OF inv1 u e0 id ls m', of "ps @ p # e # qs"])
        (use c ok' l'' ad in \<open>auto simp: c'_def m0_def\<close>)
    with ins show ?thesis by auto
  qed
qed

lemma insert_duplicate:
  assumes rel: "mem_rel m f" and i: "f i = Some xs" and d: "d \<in> set xs"
  shows "myrefl_list_insert (Some i) prev d m = Some m"
proof -
  obtain ad fs l where l: "lists m i = Some l" and ok: "list_ok (cells m) l (ad i) xs"
    using mem_relE [OF rel i] by metis
  have "validate_list (l\<lparr>lock := Suc (lock l)\<rparr>) (enter_cs i m)"
    using ok by (intro list_ok_validate' [of _ _ "ad i" xs]) simp_all
  moreover have "myrefl_list_find (Some i) d (enter_cs i m) = Some True"
    using find_ok [of "enter_cs i m" i "l\<lparr>lock := Suc (lock l)\<rparr>" "ad i" xs d] l ok d by simp
  ultimately show ?thesis using l by (simp add: myrefl_list_insert_def Let_def enter_exit_cs)
qed

lemma add_refines:
  assumes rel: "mem_rel m f" and i: "f i = Some xs" and alloc: "can_alloc m"
  shows "\<exists>m'. myrefl_list_add (Some i) d m = Some m' \<and> mem_rel m' (f(i \<mapsto> list_add d xs))"
proof (cases "d \<in> set xs")
  case True
  then show ?thesis using insert_duplicate [OF rel i True] rel i
    by (simp add: myrefl_list_add_def list_add_def fun_upd_idem)
next
  case False
  obtain ad fs where "mem_inv m f ad fs" using rel by (auto simp: mem_rel_def)
  from insert_refines [OF rel i alloc False this, where prev = None] False show ?thesis
    by (simp add: myrefl_list_add_def list_add_def)
qed

text \<open>Without memory the calls that add an element leave every list as it was.\<close>

lemma no_memory:
  assumes rel: "mem_rel m f" and i: "f i = Some xs" and "\<not> can_alloc m"
  shows "myrefl_list_push (Some i) d m = Some m" and "myrefl_list_insert (Some i) prev d m = Some m"
    and "myrefl_list_create m = (None, m)"
proof -
  obtain ad fs l where inv: "mem_inv m f ad fs" and l: "lists m i = Some l"
    and ok: "list_ok (cells m) l (ad i) xs" using mem_relE [OF rel i] by metis
  have inv': "mem_inv (enter_cs i m) f ad fs" using inv by simp
  show "myrefl_list_push (Some i) d m = Some m"
    using new_list_element_None [OF inv] assms(3) by (simp add: myrefl_list_push_def)
  have v: "validate_list (l\<lparr>lock := Suc (lock l)\<rparr>) (enter_cs i m)"
    using ok by (intro list_ok_validate' [of _ _ "ad i" xs]) simp_all
  show "myrefl_list_insert (Some i) prev d m = Some m"
  proof (cases "d \<in> set xs")
    case False
    then have "myrefl_list_find (Some i) d (enter_cs i m) = Some False"
      using find_ok [of "enter_cs i m" i "l\<lparr>lock := Suc (lock l)\<rparr>" "ad i" xs d] l ok by simp
    then show ?thesis using l v new_list_element_None [OF inv'] assms(3)
      by (simp add: myrefl_list_insert_def Let_def enter_exit_cs)
  qed (rule insert_duplicate [OF rel i])
  show "myrefl_list_create m = (None, m)"
    using assms(3) by (simp add: myrefl_list_create_def can_alloc_def)
qed

lemma create_refines:
  assumes rel: "mem_rel m f" and "0 < blocks m"
  shows "\<exists>i m'. myrefl_list_create m = (Some i, m') \<and> f i = None \<and> mem_rel m' (f(i \<mapsto> []))"
proof -
  obtain ad fs where inv: "mem_inv m f ad fs" and u: "unlocked m" using rel by (auto simp: mem_rel_def)
  let ?i = "next_list m" and ?l = "\<lparr>head = None, tail = None, num_elements = 0, lock = 0\<rparr>"
  let ?m = "m\<lparr>lists := (lists m)(next_list m \<mapsto> ?l), next_list := Suc (next_list m)\<rparr>"
  have fi: "f ?i = None" using mem_inv_next [OF inv, of ?i] by (cases "f ?i") auto
  have "mem_inv ?m (f(?i \<mapsto> [])) (ad(?i := [])) fs"
  proof (rule mem_invI)
    show "dom (f(?i \<mapsto> [])) = dom (lists ?m)" using mem_inv_dom [OF inv] by simp
    show "list_ok (cells ?m) l ((ad(?i := [])) j) (the ((f(?i \<mapsto> [])) j))"
      if "lists ?m j = Some l" for j l
      using that mem_inv_list_ok [OF inv, of j l] by (cases "j = ?i") (auto simp: list_ok_empty)
    show "a \<notin> set ((ad(?i := [])) k)" if "j \<in> dom (f(?i \<mapsto> []))" "k \<in> dom (f(?i \<mapsto> []))" "j \<noteq> k"
      "a \<in> set ((ad(?i := [])) j)" for j k a
      using that mem_inv_disjoint [OF inv, of j k a] by (auto split: if_splits)
    show "a \<notin> set fs \<and> a < brk ?m" if "j \<in> dom (f(?i \<mapsto> []))" "a \<in> set ((ad(?i := [])) j)" for j a
      using that mem_inv_not_free [OF inv, of j a] mem_inv_below [OF inv, of j a] by (auto split: if_splits)
    show "j < next_list ?m" if "j \<in> dom (f(?i \<mapsto> []))" for j
    proof (cases "j = ?i")
      case False
      then show ?thesis using that mem_inv_next [OF inv, of j] by (simp add: domIff)
    qed simp
  qed (use mem_inv_free [OF inv] mem_inv_free_distinct [OF inv] mem_inv_free_below [OF inv] in auto)
  moreover have "unlocked ?m" using u by (auto simp: unlocked_def)
  ultimately show ?thesis using assms(2) fi by (auto simp: myrefl_list_create_def mem_rel_def)
qed

lemma free_all_chain:
  "lists m i = Some l \<Longrightarrow> chain (cells m) (head l) as None \<Longrightarrow> chain (cells m) (free_elements m) fs None \<Longrightarrow>
   distinct (as @ fs) \<Longrightarrow>
   \<exists>m' l'. free_all i m = Some m' \<and> chain (cells m') (free_elements m') (rev as @ fs) None \<and>
      (\<forall>a. a \<notin> set as \<longrightarrow> cells m' a = cells m a) \<and> lists m' = (lists m)(i \<mapsto> l') \<and>
      brk m' = brk m \<and> next_list m' = next_list m"
proof (induction as arbitrary: m l fs)
  case Nil
  then show ?case by (subst free_all.simps) (auto intro!: exI [of _ l])
next
  case (Cons a as)
  define m1 where "m1 = free_list_element (Some a) (upd_list i (\<lambda>l. l\<lparr>head := el_next (cells m a)\<rparr>) m)"
  have m1: "lists m1 = (lists m)(i \<mapsto> l\<lparr>head := el_next (cells m a)\<rparr>)"
    "cells m1 = (cells m)(a := (cells m a)\<lparr>el_next := free_elements m\<rparr>)"
    "free_elements m1 = Some a" "brk m1 = brk m" "next_list m1 = next_list m"
    using Cons.prems by (simp_all add: m1_def free_list_element_def)
  have c1: "chain (cells m1) (el_next (cells m a)) as None" "chain (cells m1) (free_elements m1) (a # fs) None"
    using Cons.prems by (simp_all add: m1)
  have "\<exists>m' l'. free_all i m1 = Some m' \<and> chain (cells m') (free_elements m') (rev as @ a # fs) None \<and>
      (\<forall>b. b \<notin> set as \<longrightarrow> cells m' b = cells m1 b) \<and> lists m' = (lists m1)(i \<mapsto> l') \<and>
      brk m' = brk m1 \<and> next_list m' = next_list m1"
    by (rule Cons.IH [OF _ _ c1(2), of "l\<lparr>head := el_next (cells m a)\<rparr>"])
      (simp add: m1, simp add: c1(1), use Cons.prems(4) in auto)
  moreover have "free_all i m = free_all i m1"
    using Cons.prems by (subst free_all.simps) (simp add: m1_def)
  moreover have "(lists m1)(i \<mapsto> l') = (lists m)(i \<mapsto> l')" for l' by (simp add: m1)
  ultimately show ?case using m1(2,4,5) by fastforce
qed

lemma free_refines:
  assumes rel: "mem_rel m f" and i: "f i = Some xs"
  shows "\<exists>m'. myrefl_list_free (Some i) m = Some m' \<and> mem_rel m' (f(i := None))"
proof -
  obtain ad fs l where inv: "mem_inv m f ad fs" and l: "lists m i = Some l"
    and ok: "list_ok (cells m) l (ad i) xs" using mem_relE [OF rel i] by metis
  have id: "i \<in> dom f" using i by auto
  have "distinct (ad i @ fs)"
    using ok mem_inv_free_distinct [OF inv] mem_inv_not_free [OF inv id] by (auto simp: list_ok_def)
  moreover have "lists (enter_cs i m) i = Some (l\<lparr>lock := Suc (lock l)\<rparr>)" using l by simp
  ultimately obtain m1 l' where fa: "free_all i (enter_cs i m) = Some m1"
    and ch: "chain (cells m1) (free_elements m1) (rev (ad i) @ fs) None"
    and ce: "\<forall>a. a \<notin> set (ad i) \<longrightarrow> cells m1 a = cells m a"
    and ls: "lists m1 = (lists (enter_cs i m))(i \<mapsto> l')" and br: "brk m1 = brk m" "next_list m1 = next_list m"
    using free_all_chain [of "enter_cs i m" i _ "ad i" fs] ok mem_inv_free [OF inv]
    by (auto simp: list_ok_def)
  let ?m = "(exit_cs i m1)\<lparr>lists := (lists m1)(i := None)\<rparr>"
  have lm: "lists ?m = (lists m)(i := None)" using ls by auto
  have "mem_inv ?m (f(i := None)) ad (rev (ad i) @ fs)"
  proof (rule mem_invI)
    show "dom (f(i := None)) = dom (lists ?m)" using mem_inv_dom [OF inv] lm by simp
    show "list_ok (cells ?m) lj (ad j) (the ((f(i := None)) j))" if "lists ?m j = Some lj" for j lj
    proof -
      have j: "j \<noteq> i" "lists m j = Some lj" using that lm by (auto split: if_splits)
      then have "j \<in> dom f" using mem_inv_lists [OF inv] by blast
      then have "list_ok (cells m1) lj (ad j) (the (f j)) = list_ok (cells m) lj (ad j) (the (f j))"
        using ce mem_inv_disjoint [OF inv \<open>j \<in> dom f\<close> id] j by (intro list_ok_cong) auto
      then show ?thesis using mem_inv_list_ok [OF inv j(2)] j(1) by simp
    qed
    show "a \<notin> set (ad k)" if "j \<in> dom (f(i := None))" "k \<in> dom (f(i := None))" "j \<noteq> k" "a \<in> set (ad j)" for j k a
      using that mem_inv_disjoint [OF inv, of j k a] by auto
    show "a \<notin> set (rev (ad i) @ fs) \<and> a < brk ?m" if "j \<in> dom (f(i := None))" "a \<in> set (ad j)" for j a
    proof -
      have "j \<in> dom f" "j \<noteq> i" using that by auto
      then show ?thesis using that(2) mem_inv_not_free [OF inv, of j a] mem_inv_below [OF inv, of j a]
        mem_inv_disjoint [OF inv _ id, of j a] br by auto
    qed
    show "a < brk ?m" if "a \<in> set (rev (ad i) @ fs)" for a
      using that mem_inv_below [OF inv id, of a] mem_inv_free_below [OF inv, of a] br by auto
    show "j < next_list ?m" if "j \<in> dom (f(i := None))" for j
      using that mem_inv_next [OF inv, of j] br by (simp add: domIff split: if_splits)
  qed (use ch \<open>distinct (ad i @ fs)\<close> in auto)
  moreover have "unlocked ?m" using rel lm by (auto simp: mem_rel_def unlocked_def)
  ultimately show ?thesis using fa by (auto simp: myrefl_list_free_def mem_rel_def)
qed

section \<open>The contract holds\<close>

interpretation ml: list_store mem_rel can_alloc
    "\<lambda>i. myrefl_list_push (Some i)" "\<lambda>i. myrefl_list_pop (Some i)"
    "\<lambda>i. myrefl_list_add (Some i)" "\<lambda>i. myrefl_list_remove (Some i)" "\<lambda>i. myrefl_list_find (Some i)"
  by unfold_locales
    (rule push_refines pop_refines add_refines remove_refines find_refines; assumption)+

text \<open>A memory with one empty list, for the examples.\<close>

definition mem0 :: mem where
  "mem0 = \<lparr>cells = (\<lambda>_. \<lparr>el_next = None, el_data = 0\<rparr>), free_elements = None, brk = 0, blocks = 2,
     lists = [0 \<mapsto> \<lparr>head = None, tail = None, num_elements = 0, lock = 0\<rparr>], next_list = 1\<rparr>"

lemma mem0_rel: "mem_rel mem0 [0 \<mapsto> []]"
proof -
  have "mem_inv mem0 [0 \<mapsto> []] (\<lambda>_. []) []"
    by (rule mem_invI) (auto simp: mem0_def list_ok_empty split: if_splits)
  moreover have "unlocked mem0" by (simp add: unlocked_def mem0_def)
  ultimately show ?thesis by (auto simp: mem_rel_def)
qed

lemma mem0_can_alloc: "can_alloc mem0"
  by (simp add: can_alloc_def mem0_def)

end
