(* ===== verification/ListProps.thy ===== *)
theory ListProps
  imports MList
begin

text \<open>The properties of the list utility (\<^verbatim>\<open>src/src/myrefl_util.c\<close>), with concrete instances on a
  memory that holds one empty list.\<close>

text \<open>a list is a queue: after a push, popping until the list is empty returns the data in
  the order in which they were pushed, the new one last, and leaves the list empty and unlocked.\<close>

theorem list_fifo:
  assumes "mem_rel m f" and "f i = Some xs" and "can_alloc m"
  shows "\<exists>m' m''. myrefl_list_push (Some i) d m = Some m' \<and>
    drain (\<lambda>i. myrefl_list_pop (Some i)) i m' = Some (xs @ [d], m'') \<and> mem_rel m'' (f(i \<mapsto> []))"
  using ml.push_drain [OF assms] .

lemma list_fifo_witness:
  "\<exists>m' m''. myrefl_list_push (Some 0) 7 mem0 = Some m' \<and>
    drain (\<lambda>i. myrefl_list_pop (Some i)) 0 m' = Some ([7], m'')"
  using list_fifo [OF mem0_rel _ mem0_can_alloc, of 0 "[]" 7] by auto

text \<open>Inserting a new element puts it in front, or right after the element at the position
  given, and changes no other list.\<close>

theorem list_insert:
  assumes "mem_rel m f" and "f i = Some xs" and "can_alloc m" and "d \<notin> set xs" and "mem_inv m f ad fs"
    and "case prev of None \<Rightarrow> ps = [] \<and> xs' = d # xs
      | Some p \<Rightarrow> ad i = ps @ p # qs \<and> xs' = take (Suc (length ps)) xs @ d # drop (Suc (length ps)) xs"
  shows "\<exists>m'. myrefl_list_insert (Some i) prev d m = Some m' \<and> mem_rel m' (f(i \<mapsto> xs'))"
  by (rule insert_refines [OF assms])

lemma list_insert_witness:
  "\<exists>m'. myrefl_list_insert (Some 0) None 7 mem0 = Some m' \<and> mem_rel m' ([0 \<mapsto> []](0 \<mapsto> [7]))"
proof -
  obtain ad fs where "mem_inv mem0 [0 \<mapsto> []] ad fs" using mem0_rel by (auto simp: mem_rel_def)
  from list_insert [OF mem0_rel _ mem0_can_alloc _ this, where i = 0 and xs = "[]" and d = 7 and prev = None and ps = "[]" and xs' = "[7]"]
  show ?thesis by simp
qed

text \<open>C20: removing a value says whether it was in the list, takes its first occurrence out and
  leaves the other lists as they were.\<close>

theorem list_remove:
  assumes "mem_rel m f" and "f i = Some xs"
  shows "\<exists>m'. myrefl_list_remove (Some i) d m = Some (d \<in> set xs, m') \<and>
    mem_rel m' (f(i \<mapsto> remove1 d xs))"
  by (rule remove_refines [OF assms])

lemma list_remove_witness: "\<exists>m'. myrefl_list_remove (Some 0) 7 mem0 = Some (False, m')"
  using list_remove [OF mem0_rel, of 0 "[]" 7] by auto

text \<open>Adding a value that was not a member and removing it again gives back the same lists.\<close>

theorem list_add_then_remove:
  assumes "mem_rel m f" and "f i = Some xs" and "can_alloc m" and "d \<notin> set xs"
  shows "\<exists>m' m''. myrefl_list_add (Some i) d m = Some m' \<and>
    myrefl_list_remove (Some i) d m' = Some (True, m'') \<and> mem_rel m'' f"
  using ml.add_remove [OF assms] .

lemma list_add_then_remove_witness:
  "\<exists>m' m''. myrefl_list_add (Some 0) 7 mem0 = Some m' \<and>
    myrefl_list_remove (Some 0) 7 m' = Some (True, m'') \<and> mem_rel m'' [0 \<mapsto> []]"
  using list_add_then_remove [OF mem0_rel _ mem0_can_alloc, of 0 "[]" 7] by auto

text \<open>Without memory a push, an insertion and the creation of a list change nothing, and
  creation returns no list.\<close>

theorem list_no_memory:
  assumes "mem_rel m f" and "f i = Some xs" and "\<not> can_alloc m"
  shows "myrefl_list_push (Some i) d m = Some m \<and> myrefl_list_insert (Some i) prev d m = Some m \<and>
    myrefl_list_create m = (None, m)"
  using no_memory [OF assms] by simp

definition mem_full :: mem where "mem_full = mem0\<lparr>blocks := 0\<rparr>"

lemma mem_full_sel: "cells mem_full = cells mem0" "free_elements mem_full = free_elements mem0"
  "brk mem_full = brk mem0" "lists mem_full = lists mem0" "next_list mem_full = next_list mem0"
  by (simp_all add: mem_full_def)

lemma mem_full_rel: "mem_rel mem_full [0 \<mapsto> []]"
proof -
  obtain ad fs where "mem_inv mem0 [0 \<mapsto> []] ad fs" using mem0_rel by (auto simp: mem_rel_def)
  then have "mem_inv mem_full [0 \<mapsto> []] ad fs"
    unfolding mem_inv_def mem_full_sel .
  then show ?thesis using mem0_rel by (auto simp: mem_rel_def mem_full_def unlocked_def)
qed

lemma list_no_memory_witness: "myrefl_list_push (Some 0) 7 mem_full = Some mem_full"
  using list_no_memory [OF mem_full_rel, of 0 "[]" 7 None] by (simp add: mem_full_def mem0_def can_alloc_def)

text \<open>Freeing a list returns, forgets the list and keeps all the others.\<close>

theorem list_free:
  assumes "mem_rel m f" and "f i = Some xs"
  shows "\<exists>m'. myrefl_list_free (Some i) m = Some m' \<and> mem_rel m' (f(i := None))"
  by (rule free_refines [OF assms])

lemma list_free_witness: "\<exists>m'. myrefl_list_free (Some 0) mem0 = Some m'"
  using list_free [OF mem0_rel, of 0 "[]"] by auto

end
