(* ===== verification/SchedProps.thy ===== *)
theory SchedProps
  imports Demo
begin

text \<open>The properties of the clock arithmetic and of the scheduler (\<^verbatim>\<open>src/src/myrefl_xos.c\<close>,
  \<^verbatim>\<open>src/src/myrefl_sched.c\<close>).\<close>

text \<open>The difference of two times whose nanoseconds are below a second is again such a time,
  and it is exact.\<close>

theorem xos_time_diff_exact:
  assumes "normalized s" and "normalized e" and "s \<le> e"
  shows "normalized (myrefl_xos_time_diff s e) \<and> nanos s + nanos (myrefl_xos_time_diff s e) = nanos e"
  by (rule time_diff_exact [OF assms])

lemma xos_time_diff_exact_witness:
  "nanos (XosTime 1 900000000) + nanos (myrefl_xos_time_diff (XosTime 1 900000000) (XosTime 3 100000000)) =
    nanos (XosTime 3 100000000)"
  using xos_time_diff_exact [of "XosTime 1 900000000" "XosTime 3 100000000"]
  by (simp add: normalized_def less_eq_xos_time_def)

text \<open>C6: adding a test. A polled test of 5, 300 or 1800 seconds belongs on the fast, normal or slow queue, one of another
  period on the queue of the users, and so does a notification test with an autopass time whose last result is a
  failure. If the test is valid and enabled, the queues are open or the addition is forced, and the test is not on the
  queue already (the queue of the users may be joined again), then it is on that queue, due its period after
  now, to the nanosecond. Otherwise nothing changes. No other test changes its queue, and the queues stay consistent.\<close>

theorem sched_add_test:
  assumes "linked db" and "sched_inv db" and "test_of db (obj_of i) = Some t"
    and "now = clock db (ticks db)" and "normalized now" and "sec now < 2 ^ 63"
    and "q = (if t_type t \<noteq> POLLED then QUEUE_USER else if t_period t = 5000 then QUEUE_FAST
      else if t_period t = 300000 then QUEUE_NORMAL else if t_period t = 1800000 then QUEUE_SLOW else QUEUE_USER)"
    and "period = (if t_type t = POLLED then t_period t else word_of_int (t_autopass t))"
  shows "\<exists>db'. myrefl_sched_add_test i force db = Some db' \<and> runtime db db' \<and> sched_inv db' \<and>
    (\<forall>j. j \<noteq> i \<longrightarrow> queued_of db' j = queued_of db j) \<and>
    (if inst_valid db i TYPE_TEST \<and> i_state (inst db i) = STATE_ENABLED \<and> (force \<or> \<not> queues_blocked db) \<and>
        (t_type t = POLLED \<or> t_autopass t > AUTOPASS_UNSET \<and> i_last_result (inst db i) = RESULT_FAIL) \<and>
        (queued_of db i \<noteq> q \<or> q = QUEUE_USER)
     then on_queue db' i q \<and> queued_of db' i = q \<and>
       nanos (next_time_of db' i) = nanos now + unat period * 1000000
     else db' = db)"
proof -
  obtain db' where r: "myrefl_sched_add_test i force db = Some db'" "runtime db db'" "sched_inv db'"
    "case wants_schedule db i force of None \<Rightarrow> db' = db
     | Some (q, p) \<Rightarrow> on_queue db' i q \<and> queued_of db' i = q \<and> next_time_of db' i = add_period p (clock db (ticks db))"
    using add_test_linked [OF assms(1,2)] by blast
  have p: "wanted_period t = period" by (simp add: wanted_period_def assms(8))
  note w = wants_schedule_eq [OF assms(2,3,7), of force, unfolded p]
  show ?thesis
    using r add_test_others(2) [OF assms(1) r(1)] add_period_exact [OF assms(5,6), of period] unfolding w assms(4)
    by (intro exI [of _ db']) (auto split: if_splits)
qed

lemma sched_add_test_witness:
  "\<exists>db'. myrefl_sched_add_test (base 1) False
      (set_queued QUEUE_NONE (base 1) (demo_db\<lparr>queues := (queues demo_db)(QUEUE_FAST \<mapsto> [])\<rparr>)) = Some db' \<and>
    on_queue db' (base 1) QUEUE_FAST \<and> nanos (next_time_of db' (base 1)) = 12000000000"
proof -
  define db1 where "db1 = demo_db\<lparr>queues := (queues demo_db)(QUEUE_FAST \<mapsto> [])\<rparr>"
  define db where "db = set_queued QUEUE_NONE (base 1) db1"
  have r1: "runtime demo_db db1" by (simp add: db1_def)
  have r: "runtime demo_db db" unfolding db_def by (rule runtime_trans [OF r1]) simp
  have f: "queues db = (queues demo_db)(QUEUE_FAST \<mapsto> [])" "queued_of db j = QUEUE_NONE"
    "queues_blocked db = False" "clock db (ticks db) = XosTime 7 0" "i_state (inst db (base 1)) = STATE_ENABLED"
    "i_last_result (inst db j) = i_last_result (demo_inst j)" for j
    by (auto simp: db_def db1_def demo_fields queued_of_def set_queued_def upd_inst_def inst_def demo_inst_base demo_inst_def
        blank_instance_def base_def)
  have v: "inst_valid db = inst_valid demo_db" "linked db" using runtime_inst_valid [OF r] runtime_linked [OF r] demo_linked by simp_all
  have "sched_inv db"
    by (auto simp: sched_inv_def sched_inv_but_def on_queue_def v demo_valid f demo_fields split: if_splits)
  moreover have "test_of db (obj_of (base 1)) = Some demo_test"
    using runtime_reads(2) [OF r] by (simp add: demo_reads)
  moreover have "normalized (XosTime 7 0)" "sec (XosTime 7 0) < 2 ^ 63" by (simp_all add: normalized_def)
  moreover have "QUEUE_FAST = (if t_type demo_test \<noteq> POLLED then QUEUE_USER else if t_period demo_test = 5000 then QUEUE_FAST
      else if t_period demo_test = 300000 then QUEUE_NORMAL else if t_period demo_test = 1800000 then QUEUE_SLOW else QUEUE_USER)"
    and "5000 = (if t_type demo_test = POLLED then t_period demo_test else word_of_int (t_autopass demo_test))"
    and t: "t_type demo_test = POLLED"
    by (simp_all add: demo_test_def MYREFL_PERIOD_FAST_def)
  ultimately obtain db' where d: "myrefl_sched_add_test (base 1) False db = Some db'"
    "if inst_valid db (base 1) TYPE_TEST \<and> i_state (inst db (base 1)) = STATE_ENABLED \<and> (False \<or> \<not> queues_blocked db) \<and>
        (t_type demo_test = POLLED \<or> t_autopass demo_test > AUTOPASS_UNSET \<and> i_last_result (inst db (base 1)) = RESULT_FAIL) \<and>
        (queued_of db (base 1) \<noteq> QUEUE_FAST \<or> QUEUE_FAST = QUEUE_USER)
     then on_queue db' (base 1) QUEUE_FAST \<and> queued_of db' (base 1) = QUEUE_FAST \<and>
       nanos (next_time_of db' (base 1)) = nanos (XosTime 7 0) + unat (5000 :: 64 word) * 1000000
     else db' = db"
    using sched_add_test [OF v(2) _ _ f(4) [symmetric], of "base 1" demo_test QUEUE_FAST 5000 False] by blast
  have "inst_valid db (base 1) TYPE_TEST" by (simp add: v demo_valid)
  then have "on_queue db' (base 1) QUEUE_FAST \<and> nanos (next_time_of db' (base 1)) = 12000000000"
    using d(2) f(5) t by (simp add: f(2,3)) (simp add: nanos_def)
  then have "\<exists>db'. myrefl_sched_add_test (base 1) False db = Some db' \<and>
      on_queue db' (base 1) QUEUE_FAST \<and> nanos (next_time_of db' (base 1)) = 12000000000" using d(1) by blast
  then show ?thesis by (simp only: db_def db1_def)
qed

text \<open>A request to run a test at once is ignored, or takes the test off its queue (when the
  queues are blocked), or puts it on the immediate queue; no other test changes its queue.\<close>

theorem sched_test_immediate:
  assumes "linked db" and "sched_inv db"
  shows "\<exists>db'. myrefl_sched_test_immediate i db = Some db' \<and> runtime db db' \<and> sched_inv db' \<and>
    queues_blocked db' = queues_blocked db \<and> (\<forall>j. j \<noteq> i \<longrightarrow> queued_of db' j = queued_of db j) \<and>
    (if \<not> runs_now db i then db' = db
     else if queues_blocked db then queued_of db' i = QUEUE_NONE
     else on_queue db' i QUEUE_IMMEDIATE)"
  by (rule test_immediate_linked [OF assms])

lemma sched_test_immediate_witness:
  "\<exists>db'. myrefl_sched_test_immediate (base 1) demo_db = Some db' \<and> on_queue db' (base 1) QUEUE_IMMEDIATE"
proof -
  have "runs_now demo_db (base 1)"
    using demo_valid by (simp add: runs_now_def queued_of_def demo_inst_base)
  then show ?thesis
    using sched_test_immediate [OF demo_linked demo_sched, of "base 1"] by (auto simp: demo_fields)
qed

text \<open>C5: when the timer fires, the loop over the queues ends; every queue loses exactly the
  tests at its head that are due, and each of those that can be started has a job for a thread.\<close>

theorem sched_check_queues:
  assumes "linked db" and "sched_inv db" and "\<not> queues_blocked db"
  shows "\<exists>db'. check_queue_test_times db = Some db' \<and> runtime db db' \<and> sched_inv db' \<and>
    (\<forall>q. queues db' q = map_option (dropWhile (due db (clock db (ticks db)))) (queues db q)) \<and>
    (\<forall>q xs i e. queues db q = Some xs \<longrightarrow> i \<in> set (takeWhile (due db (clock db (ticks db))) xs) \<longrightarrow>
       start_job db i = Some e \<longrightarrow> (i, e) \<in> set (job_keys db'))"
  by (rule check_queue_test_times_linked [OF assms])

lemma sched_check_queues_witness:
  "\<exists>db'. check_queue_test_times demo_db = Some db' \<and> queues db' QUEUE_FAST = Some []"
proof -
  have "due demo_db (clock demo_db (ticks demo_db)) (base 1)"
    by (simp add: due_def next_time_of_def demo_inst_base demo_fields less_xos_time_def)
  then show ?thesis
    using sched_check_queues [OF demo_linked demo_sched] by (fastforce simp: demo_fields)
qed

text \<open>A test that is removed is on no queue afterwards, its \<open>queued\<close> says so, and the
  queues stay consistent.\<close>

theorem sched_remove_test:
  assumes "sched_inv db" and "inst_valid db i TYPE_TEST"
  shows "sched_inv (myrefl_sched_remove_test i db) \<and>
    queued_of (myrefl_sched_remove_test i db) i = QUEUE_NONE \<and> \<not> on_queue (myrefl_sched_remove_test i db) i q"
  using remove_test_off [OF assms] remove_test_inv [OF assms] not_on_queue by blast

lemma sched_remove_test_witness: "\<not> on_queue (myrefl_sched_remove_test (base 1) demo_db) (base 1) QUEUE_FAST"
  using sched_remove_test [OF demo_sched, of "base 1" QUEUE_FAST] demo_valid by blast

text \<open>C15: scheduling the tests that feed into a rule, through the rules between, returns when no rule feeds into itself.
  Of those tests each that is valid, is not on the immediate queue yet and is not a polled test off the
  queues is on the immediate queue afterwards (off the queues when these are blocked); every other test stays where it was, and
  the queues stay consistent.\<close>

theorem sched_rule_immediate:
  assumes "inputs_ranked rank db" and "linked db" and "sched_inv db"
  shows "\<exists>db'. myrefl_sched_rule_immediate i db = Some db' \<and> runtime db db' \<and> sched_inv db' \<and>
    (\<forall>j. queued_of db' j =
      (if feeds_test db i j \<and> inst_valid db j TYPE_TEST \<and> queued_of db j \<noteq> QUEUE_IMMEDIATE \<and>
          (queued_of db j \<noteq> QUEUE_NONE \<or> map_option t_type (test_of db (obj_of j)) \<noteq> Some POLLED)
       then (if queues_blocked db then QUEUE_NONE else QUEUE_IMMEDIATE) else queued_of db j))"
  using rule_immediate_runs [OF assms, of i] by (auto simp: runs_all_def sched_step_def runs_now_def)

lemma sched_rule_immediate_witness:
  "\<exists>db'. myrefl_sched_rule_immediate (base 2) demo_db = Some db' \<and> queued_of db' (base 1) = QUEUE_IMMEDIATE"
proof -
  have "feeds_test demo_db (base 2) (myrefl_obj_instance demo_db 1 (base 2))" (is "feeds_test _ _ ?i")
    by (rule feeds_test.input_test [where r = "demo_rule\<lparr>r_next_in_input := Some 3\<rparr>"])
      (simp_all add: demo_reads demo_rule_def type_of_def inst_valid_def obj_valid_def demo_inst_base blank_instance_def blank_obj_def)
  moreover have "?i = base 1" by (simp add: myrefl_obj_instance_def)
  ultimately show ?thesis
    using sched_rule_immediate [OF demo_inputs demo_linked demo_sched, of "base 2"] demo_valid [of "base 1"]
    by (auto simp: queued_of_def demo_inst_base demo_fields)
qed

text \<open>the padding of the start timer: a delay whose nanoseconds are below 0.9 s is
  lengthened by a tenth of a second exactly; a delay between 0.9 s and 1 s gets a second more
  and the remainder of the second plus a tenth, which is at most 0.2 s and never undefined.\<close>

theorem sched_pad_delay:
  assumes "normalized d"
  shows "pad_delay d =
    (if unat (nsec d) \<le> 900000000 then (sec d, Some (nsec d + 100000000))
     else (sec d + 1, Some (1100000000 - nsec d)))"
proof (cases "unat (nsec d) \<le> 900000000")
  case True
  then have "\<not> int (unat (nsec d)) + 100000000 > 1000000000" by linarith
  then show ?thesis using True by (simp add: pad_delay_def del: of_nat_unat)
next
  case False
  have n: "unat (nsec d) < 1000000000" using assms by (simp add: normalized_unat)
  have "word_of_int (1100000000 - int (unat (nsec d))) = (1100000000 :: 64 word) - nsec d"
    by simp
  moreover have "int (unat (nsec d)) + 100000000 > 1000000000" "\<not> 1100000000 - int (unat (nsec d)) < 0"
    using False n by linarith+
  ultimately show ?thesis using False by (simp add: pad_delay_def Let_def del: of_nat_unat)
qed

lemma sched_pad_delay_witness: "pad_delay (XosTime 1 950000000) = (2, Some 150000000)"
  using sched_pad_delay [of "XosTime 1 950000000"] by (simp add: normalized_def)

end
