(* ===== verification/ResultProps.thy ===== *)
theory ResultProps
  imports Demo
begin

text \<open>The properties of the rules and of the results: which result a rule has after a sequence of
  test results, the result of an object with members, the health of the components
  (\<^verbatim>\<open>src/src/myrefl_sequence.c\<close>).\<close>

text \<open>The table behind \<open>bit_count\<close> has the number of one bits of every byte.\<close>

theorem bit_count_table: "unat (bit_count w) = card {k. k < 8 \<and> bit w k}"
  by (rule bit_count_card)

text \<open>C17: an N-in-M rule fails exactly when at least N of the last M results, this one included,
  were failures; the ring of bits is again the history of the results.\<close>

theorem n_in_m_result:
  assumes "0 < m" and "r_op_m r = int m" and "n_in_m_state m bs i" and "res = RESULT_PASS \<or> res = RESULT_FAIL"
  shows "\<exists>i'. n_in_m_run r res i =
      (fail_if (r_op_n r \<le> int (fails_in_last m (bs @ [res = RESULT_FAIL]))), i') \<and>
    n_in_m_state m (bs @ [res = RESULT_FAIL]) i'"
  by (rule n_in_m_step [OF assms])

lemma n_in_m_result_witness:
  "\<exists>i'. n_in_m_run (demo_rule\<lparr>r_op_n := 1, r_op_m := 2\<rparr>) RESULT_FAIL blank_instance = (RESULT_FAIL, i')"
proof -
  have "n_in_m_state 2 [] blank_instance" by (simp add: n_in_m_state_def blank_instance_def)
  from n_in_m_result [OF _ _ this, of "demo_rule\<lparr>r_op_n := 1, r_op_m := 2\<rparr>" RESULT_FAIL] show ?thesis
    by (auto simp: fails_in_last_def fail_if_def)
qed

text \<open>C19: An N-in-a-row rule, run on results from its creation on, fails exactly on a failure that is at least the N-th in a row.\<close>

theorem n_in_row_result:
  assumes "r_operator r = RULE_N_IN_ROW" and "i_fail_count i = 0" and "length rs < 2 ^ 32 - 1"
  shows "fst (rule_switch db ref r res v (rule_after db ref r rs i)) =
    fail_if (res = RESULT_FAIL \<and> r_op_n r \<le> int (trailing_fails (rs @ [(res, v)])))"
  by (rule in_row_result [OF assms])

lemma n_in_row_result_witness:
  "fst (rule_switch demo_db (base 2) (demo_rule\<lparr>r_operator := RULE_N_IN_ROW, r_op_n := 2\<rparr>) RESULT_FAIL 0
     (rule_after demo_db (base 2) (demo_rule\<lparr>r_operator := RULE_N_IN_ROW, r_op_n := 2\<rparr>)
       [(RESULT_PASS, 0), (RESULT_FAIL, 0)] blank_instance)) = RESULT_FAIL"
  using n_in_row_result [of "demo_rule\<lparr>r_operator := RULE_N_IN_ROW, r_op_n := 2\<rparr>" blank_instance
      "[(RESULT_PASS, 0), (RESULT_FAIL, 0)]" demo_db "base 2" RESULT_FAIL 0]
  by (simp add: blank_instance_def trailing_fails_def fail_if_def)

text \<open>An N-ever rule fails exactly on every N-th failure since it was created.\<close>

theorem n_ever_result:
  assumes "r_operator r = RULE_N_EVER" and "r_op_n r = int n" and "0 < n" and "n < 2 ^ 32" and "i_fail_count i = 0"
  shows "fst (rule_switch db ref r res v (rule_after db ref r rs i)) =
    fail_if (res = RESULT_FAIL \<and> n dvd total_fails (rs @ [(res, v)]))"
  by (rule ever_result [OF assms])

lemma n_ever_result_witness:
  "fst (rule_switch demo_db (base 2) (demo_rule\<lparr>r_operator := RULE_N_EVER, r_op_n := 2\<rparr>) RESULT_FAIL 0
     (rule_after demo_db (base 2) (demo_rule\<lparr>r_operator := RULE_N_EVER, r_op_n := 2\<rparr>)
       [(RESULT_FAIL, 0), (RESULT_PASS, 0)] blank_instance)) = RESULT_FAIL"
  using n_ever_result [of "demo_rule\<lparr>r_operator := RULE_N_EVER, r_op_n := 2\<rparr>" 2 blank_instance demo_db
      "base 2" RESULT_FAIL 0 "[(RESULT_FAIL, 0), (RESULT_PASS, 0)]"]
  by (simp add: blank_instance_def total_fails_def fail_if_def)

text \<open>An OR rule fails exactly when an enabled input is failing; an AND rule fails exactly
  when no enabled input passes, so also when none of its inputs is enabled.\<close>

theorem or_and_result:
  "(r_operator r = RULE_OR \<longrightarrow> (fst (rule_switch db ref r res v i) = RESULT_FAIL \<longleftrightarrow>
      (\<exists>x \<in> set (r_inputs r). i_state (inst db (myrefl_obj_instance db x ref)) = STATE_ENABLED \<and>
         i_last_result (inst db (myrefl_obj_instance db x ref)) = RESULT_FAIL))) \<and>
   (r_operator r = RULE_AND \<longrightarrow> (fst (rule_switch db ref r res v i) = RESULT_FAIL \<longleftrightarrow>
      (\<forall>x \<in> set (r_inputs r). i_state (inst db (myrefl_obj_instance db x ref)) = STATE_ENABLED \<longrightarrow>
         i_last_result (inst db (myrefl_obj_instance db x ref)) \<noteq> RESULT_PASS)))"
  using or_result and_result by blast

lemma or_and_result_witness:
  "fst (rule_switch demo_db (base 2) (demo_rule\<lparr>r_operator := RULE_OR\<rparr>) RESULT_FAIL 0 blank_instance) \<noteq> RESULT_FAIL \<and>
   fst (rule_switch demo_db (base 2) (demo_rule\<lparr>r_operator := RULE_AND\<rparr>) RESULT_FAIL 0 blank_instance) \<noteq> RESULT_FAIL"
  using or_and_result [of "demo_rule\<lparr>r_operator := RULE_OR\<rparr>" demo_db "base 2" RESULT_FAIL 0 blank_instance]
    or_and_result [of "demo_rule\<lparr>r_operator := RULE_AND\<rparr>" demo_db "base 2" RESULT_FAIL 0 blank_instance]
  by (simp add: demo_rule_def myrefl_obj_instance_def demo_inst_base blank_instance_def base_def demo_inst_def)

text \<open>C18: after a pass or a failure of a member instance its last result is that result, the base
  instance fails exactly when some member fails, and no other instance of any object is touched.\<close>

theorem member_result_summary:
  assumes "r = RESULT_PASS \<or> r = RESULT_FAIL" and "k \<in> set (o_members (objs db ob))" and "base_ok db ob"
  shows "base_ok (seq_stats_update (IRef ob k) r v db) ob \<and>
    i_last_result (inst (seq_stats_update (IRef ob k) r v db) (IRef ob k)) = r \<and>
    (\<forall>j. j \<noteq> IRef ob k \<longrightarrow> j \<noteq> base ob \<longrightarrow>
       i_last_result (inst (seq_stats_update (IRef ob k) r v db) j) = i_last_result (inst db j))"
  using member_result [OF assms refl] by blast

definition members_db :: db where
  "members_db = empty_db\<lparr>objs := (\<lambda>_. blank_obj\<lparr>o_members := [1, 2]\<rparr>)\<rparr>"

lemma member_result_summary_witness:
  "i_last_result (inst (seq_stats_update (IRef 0 1) RESULT_FAIL 0 members_db) (base 0)) = RESULT_FAIL"
proof -
  have ok: "base_ok members_db 0"
    by (simp add: base_ok_def members_db_def empty_db_def inst_def blank_instance_def blank_obj_def)
  have k: "1 \<in> set (o_members (objs members_db 0))" by (simp add: members_db_def)
  let ?db = "seq_stats_update (IRef 0 1) RESULT_FAIL 0 members_db"
  have r: "i_last_result (inst ?db (IRef 0 1)) = RESULT_FAIL" "base_ok ?db 0"
    using member_result_summary [OF _ k ok, of RESULT_FAIL 0] by simp_all
  have "objs ?db = objs members_db"
    using runtimeD(1) [OF quiet_runtime [OF quiet_stats_update [OF quiet_refl]]] .
  then show ?thesis using r k by (auto simp: base_ok_def)
qed

text \<open>C16: recomputing the health of a component returns, gives the component and every component
  it is contained in the health that their rules and components determine (1000 less the
  severities of the failing enabled rules and the losses of the enabled components), changes no
  other component, and keeps confidences between 0 and 1000.\<close>

theorem component_health:
  assumes "linked db" and "contained_ranked rank db" and "comp_of db cp \<noteq> None"
  shows "\<exists>db'. seq_comp_health cp d db = Some db' \<and> quiet db db' \<and>
    (\<forall>a c. ancestor db cp a \<longrightarrow> comp_of db a = Some c \<longrightarrow> health (healths db' a) = health_spec db' c) \<and>
    (\<forall>x. \<not> ancestor db cp x \<longrightarrow> healths db' x = healths db x) \<and> (conf_ok db \<longrightarrow> conf_ok db')"
  using seq_comp_health_linked [OF assms, of d] by blast

lemma component_health_witness: "\<exists>db'. seq_comp_health 0 (- 100) demo_db = Some db' \<and> quiet demo_db db'"
  using component_health [OF demo_linked demo_contained, of 0 "- 100"] demo_reads(4) by auto

text \<open>Running a valid rule answers the result of its operator and brings the health of the
  components around it up to date when the rule passes or fails.\<close>

theorem rule_run_result:
  assumes "linked db" and "contained_ranked rank db" and "inst_valid db i TYPE_RULE"
  shows "\<exists>res db' rule. seq_rule_run i r v db = Some (res, db') \<and> quiet db db' \<and>
    rule_of db (obj_of i) = Some rule \<and> res = fst (rule_switch db i rule r v (inst db i)) \<and>
    (res = RESULT_PASS \<or> res = RESULT_FAIL \<longrightarrow> health_right db' (obj_of i))"
  by (rule rule_run_linked [OF assms])

lemma demo_rule_valid: "inst_valid demo_db (base 2) TYPE_RULE"
  by (simp add: inst_valid_def obj_valid_def demo_inst_base blank_instance_def type_of_def blank_obj_def base_def demo_inst_def)

lemma rule_run_result_witness:
  "\<exists>db'. seq_rule_run (base 2) RESULT_FAIL 0 demo_db = Some (RESULT_FAIL, db') \<and> health_right db' 2"
proof -
  obtain res db' rule where r: "seq_rule_run (base 2) RESULT_FAIL 0 demo_db = Some (res, db')"
    "rule_of demo_db 2 = Some rule" "res = fst (rule_switch demo_db (base 2) rule RESULT_FAIL 0 (inst demo_db (base 2)))"
    "res = RESULT_PASS \<or> res = RESULT_FAIL \<longrightarrow> health_right db' 2"
    using rule_run_result [OF demo_linked demo_contained demo_rule_valid, of RESULT_FAIL 0] by (auto simp: base_def)
  then have "res = RESULT_FAIL"
    by (auto simp: demo_reads rule_switch_def demo_rule_def fail_if_def)
  then show ?thesis using r by simp
qed

text \<open>Every statistics update returns, and only touches results, statistics and messages:
  links, states, queues and run times stay.\<close>

theorem stats_update_returns:
  assumes "linked db"
  shows "\<exists>db'. seq_result_stats_update i r v db = Some db' \<and> quiet db db'"
  by (rule result_stats_linked [OF assms])

lemma stats_update_returns_witness: "\<exists>db'. seq_result_stats_update (base 2) RESULT_PASS 0 demo_db = Some db' \<and> quiet demo_db db'"
  by (rule stats_update_returns [OF demo_linked])

end
