(* ===== verification/RciProps.thy ===== *)
theory RciProps
  imports Demo
begin

text \<open>The properties of the dependencies and of root cause identification
  (\<^verbatim>\<open>src/src/myrefl_rci.c\<close>).\<close>

text \<open>C11: connecting a parent with a child on an acyclic graph whose domains are complete returns;
  the edge is added unless it would close a loop; the graph is acyclic afterwards and every
  child knows its parents.\<close>

theorem depend_connect_acyclic:
  assumes "linked db" and "depend_ranked rank db" and "domains_complete db" and "depends_symmetric db"
  shows "\<exists>db' rank'. depend_connect parent child db = Some db' \<and> depend_ranked rank' db' \<and>
    depends_symmetric db' \<and>
    child_edges db' = (if (child, parent) \<in> (child_edges db)\<^sup>* then child_edges db
                       else insert (parent, child) (child_edges db))"
  by (rule depend_connect_spec [OF assms])

lemma demo_edges: "child_edges demo_db = {(2, 3)}"
  by (auto simp: child_edges_def demo_obj_def blank_obj_def split: if_splits)

lemma demo_domains: "domains_complete demo_db"
proof -
  have "(x, y) \<in> (child_edges demo_db)\<^sup>* \<Longrightarrow> x = y \<or> x = 2 \<and> y = 3" for x y
    by (induction rule: rtrancl_induct) (auto simp: demo_edges simp del: child_edges_iff)
  then have star: "(x, y) \<in> {(2, 3)}\<^sup>* \<Longrightarrow> x = y \<or> x = 2 \<and> y = 3" for x y :: nat
    unfolding demo_edges .
  have dm: "o_domain (objs demo_db x) = (if x = 2 \<or> x = 3 then 1 else 0)" for x
    by (simp add: demo_obj_def blank_obj_def)
  show ?thesis
    unfolding domains_complete_def dm demo_fields
    by (auto simp: demo_edges simp del: child_edges_iff dest: star)
qed

lemma depend_connect_acyclic_witness:
  "\<exists>db'. depend_connect 3 2 demo_db = Some db' \<and> child_edges db' = {(2, 3)}"
proof -
  have "depend_ranked (\<lambda>x. if x = 2 then 1 else 0) demo_db"
    by (auto simp: depend_ranked_def demo_edges simp del: child_edges_iff)
  moreover have "depends_symmetric demo_db"
    by (auto simp: depends_symmetric_def demo_obj_def blank_obj_def split: if_splits)
  moreover have "(2, 3) \<in> (child_edges demo_db)\<^sup>*" by (auto simp: demo_edges simp del: child_edges_iff)
  ultimately show ?thesis
    using depend_connect_acyclic [OF demo_linked _ demo_domains, of _ 3 2] by (auto simp: demo_edges)
qed

text \<open>The domains do not stay complete, so the loop check can be passed by: three separate
  pairs that are connected in an unlucky order end in a ring of six objects.\<close>

theorem depend_ring_accepted:
  "\<exists>db. depend_connects [(0, 1), (2, 3), (4, 5), (3, 4), (1, 2), (5, 0)] empty_db = Some db \<and>
     1 \<in> set (o_child_depend (objs db 0)) \<and> 2 \<in> set (o_child_depend (objs db 1)) \<and>
     3 \<in> set (o_child_depend (objs db 2)) \<and> 4 \<in> set (o_child_depend (objs db 3)) \<and>
     5 \<in> set (o_child_depend (objs db 4)) \<and> 0 \<in> set (o_child_depend (objs db 5))"
  using ring_evaluates by (auto simp: map_option_case split: option.splits)

text \<open>A refused connection withdraws a reachability that an accepted one had recorded: the
  next connection closes a loop of three objects and is accepted.\<close>

theorem depend_refusal_forgets:
  "\<exists>db. depend_connects [(0, 1), (2, 3), (2, 4), (3, 0), (1, 4), (4, 0), (1, 3)] empty_db = Some db \<and>
     1 \<in> set (o_child_depend (objs db 0)) \<and> 3 \<in> set (o_child_depend (objs db 1)) \<and>
     0 \<in> set (o_child_depend (objs db 3))"
  using refusal_evaluates by (auto simp: map_option_case split: option.splits)

text \<open>C10: the walk over the dependencies ends on every graph, cyclic or not; with the test for
  passing rules it answers whether every enabled rule instance it reaches (through components
  as well) is passing, and it changes nothing.\<close>

theorem rci_walk_passed:
  assumes "rci_good db"
  shows "\<exists>v. rci_map_function i nm RCI_MAP_CHILDREN rci_is_passed True [] db =
    Some (\<not> walk_error db i RCI_MAP_CHILDREN \<and>
      (\<forall>r \<in> rules_below db nm i RCI_MAP_CHILDREN. i_last_result (inst db r) = RESULT_PASS), v, db)"
proof -
  have "(\<forall>r \<in> rules_below db nm i RCI_MAP_CHILDREN. i_last_result (inst db r) = RESULT_PASS \<or>
      i_state (inst db r) \<noteq> STATE_ENABLED) =
    (\<forall>r \<in> rules_below db nm i RCI_MAP_CHILDREN. i_last_result (inst db r) = RESULT_PASS)"
    by (auto simp: rules_below_def)
  then show ?thesis using passed.map_all [OF assms, of i nm RCI_MAP_CHILDREN] by simp
qed

lemma rci_walk_passed_witness:
  "\<exists>b v. rci_map_function (base 2) None RCI_MAP_CHILDREN rci_is_passed True [] demo_db = Some (b, v, demo_db)"
  using rci_walk_passed [OF demo_good, of "base 2" None] by blast

text \<open>C9: the decision about a rule. Only an enabled, failing candidate is decided: it is not the
  root cause when a rule below it does not pass, it waits while a rule below it is still a
  candidate, and otherwise it is the root cause: every root cause above it loses the mark, no
  other verdict changes, and the sequencer is asked to run its actions.\<close>

theorem determine_root_cause:
  assumes "rci_good db"
  shows "\<exists>db'. rci_determine_if_root_cause i db = Some (True, db') \<and> sched_step db db' \<and> determined i db db'"
  by (rule determine_spec [OF assms])

lemma determine_root_cause_witness:
  "\<exists>db'. rci_determine_if_root_cause (base 2) (judged (base 2) RESULT_FAIL RC_CANDIDATE demo_db) = Some (True, db') \<and>
     i_root_cause (inst db' (base 2)) = RC"
proof -
  let ?db = "judged (base 2) RESULT_FAIL RC_CANDIDATE demo_db"
  note rt = judged_runtime [OF demo_good, of "base 2" RESULT_FAIL RC_CANDIDATE]
  have "rules_below ?db (member_name ?db (base 2)) (base 2) RCI_MAP_CHILDREN = {base 3}"
    and "\<not> walk_error ?db (base 2) RCI_MAP_CHILDREN"
    by (simp_all add: rules_below_runtime [OF rt] walk_error_runtime [OF rt] demo_rules_below demo_no_error)
  moreover have "base 3 \<noteq> base 2" by (simp add: base_def)
  ultimately show ?thesis
    using determine_root_cause [OF judged_good [OF demo_good], of "base 2" "base 2" RESULT_FAIL RC_CANDIDATE]
    by (auto simp: determined_def Let_def made_root_cause_def demo_inst_base blank_instance_def)
qed

text \<open>A rule that starts to fail and has no enabled rule below it becomes the root cause at
  once, whatever the rules above it were.\<close>

theorem failed_leaf_is_root_cause:
  assumes "rci_good db" and "i_root_cause (inst db i) = RC_NOT"
    and "\<not> walk_error db i RCI_MAP_CHILDREN" and "rules_below db None i RCI_MAP_CHILDREN = {}"
  shows "\<exists>db'. rci_handle_failed_rule_status_report i c db = Some db' \<and> sched_step db db' \<and> made_root_cause i db db'"
  by (rule failed_leaf [OF assms])

lemma failed_leaf_is_root_cause_witness:
  "\<exists>db'. rci_handle_failed_rule_status_report (base 3) True demo_db = Some db' \<and> i_root_cause (inst db' (base 3)) = RC"
proof -
  have none: "\<not> rci_below demo_db (base 3) RCI_MAP_CHILDREN e" for e
  proof
    assume "rci_below demo_db (base 3) RCI_MAP_CHILDREN e"
    then show False by induction (simp_all add: demo_next norm_dir_def)
  qed
  have "\<not> walk_error demo_db (base 3) RCI_MAP_CHILDREN" and "rules_below demo_db None (base 3) RCI_MAP_CHILDREN = {}"
    by (simp_all add: walk_error_def rules_below_def none broken_def demo_neighbours)
  then show ?thesis
    using failed_leaf_is_root_cause [OF demo_good, of "base 3" True]
    by (auto simp: made_root_cause_def demo_inst_base blank_instance_def)
qed

text \<open>C13: after the report that a rule passes, the rule is neither a root cause nor a candidate,
  whatever the decisions about the rules above it did.\<close>

theorem passed_is_acquitted:
  assumes "rci_good db" and "i_last_result (inst db i) = RESULT_PASS"
  shows "\<exists>db'. rci_handle_passed_rule_status_report i c db = Some db' \<and> sched_step db db' \<and>
    i_last_result (inst db' i) = RESULT_PASS \<and> i_root_cause (inst db' i) = RC_NOT"
  using passed_report [OF assms] by (simp add: acquitted_def)

lemma passed_is_acquitted_witness:
  "\<exists>db'. rci_handle_passed_rule_status_report (base 2) True (judged (base 2) RESULT_PASS RC demo_db) = Some db' \<and>
     i_root_cause (inst db' (base 2)) = RC_NOT"
  using passed_is_acquitted [OF judged_good [OF demo_good], of "base 2" RESULT_PASS RC "base 2" True] by auto

text \<open>Root cause identification returns for every report when the rules below each other are
  ranked, although its functions call each other through the walk.\<close>

theorem rci_run_ends:
  assumes "rci_good db" and "rules_ranked rank db"
  shows "\<exists>db'. myrefl_rci_run i r db = Some db' \<and> sched_step db db'"
  by (rule rci_run_returns [OF assms])

lemma rci_run_ends_witness: "\<exists>db'. myrefl_rci_run (base 2) RESULT_FAIL demo_db = Some db' \<and> sched_step demo_db db'"
  by (rule rci_run_ends [OF demo_good demo_ranked])

text \<open>C12: a new analysis returns on ranked rules. It marks its rule a candidate only if every
  enabled rule below it passes, clears the mark otherwise, and changes no result.\<close>

theorem analysis_marks_candidate:
  assumes "rci_good db" and "rules_ranked rank db"
  shows "\<exists>mark db'. rci_schedule_dependent_rules i db = Some (mark, db') \<and>
    i_root_cause (inst db' i) = (if mark then RC_CANDIDATE else RC_NOT) \<and>
    (mark \<longrightarrow> (\<forall>r \<in> rules_below db (member_name db i) i RCI_MAP_CHILDREN. i_last_result (inst db r) = RESULT_PASS)) \<and>
    (\<forall>r. i_last_result (inst db' r) = i_last_result (inst db r))"
  using schedule_returns [OF assms, of i] by (auto simp: analysed_def keeps_results_def)

lemma analysis_marks_candidate_witness:
  "\<exists>db'. rci_schedule_dependent_rules (base 2) (judged (base 3) RESULT_FAIL RC_NOT demo_db) = Some (False, db') \<and>
     i_root_cause (inst db' (base 2)) = RC_NOT"
proof -
  let ?db = "judged (base 3) RESULT_FAIL RC_NOT demo_db"
  note rt = judged_runtime [OF demo_good, of "base 3" RESULT_FAIL RC_NOT]
  have "rules_below ?db (member_name ?db (base 2)) (base 2) RCI_MAP_CHILDREN = {base 3}"
    by (simp add: rules_below_runtime [OF rt] demo_rules_below)
  moreover have "rules_ranked demo_rank ?db"
    unfolding rules_ranked_runtime [OF rt] by (rule demo_ranked)
  ultimately show ?thesis
    using analysis_marks_candidate [OF judged_good [OF demo_good], of _ "base 3" RESULT_FAIL RC_NOT "base 2"]
    by fastforce
qed

text \<open>On a ring of passing rules, each with another one below it, a new analysis of one of them
  never returns: the code recurses without end. Theorems
  \<open>depend_ring_accepted\<close> and \<open>depend_refusal_forgets\<close> build such rings.\<close>

theorem analysis_hangs_on_ring:
  assumes "rci_good db" and "ring S db" and "i \<in> S"
  shows "rci_schedule_dependent_rules i db = None"
  by (rule schedule_on_ring [OF assms])

definition demo_ring :: db where
  "demo_ring = upd_obj 3 (\<lambda>x. x\<lparr>o_child_depend := [2]\<rparr>) demo_db"

lemma demo_ring_objs: "objs demo_ring x = (if x = 3 then (demo_obj 3)\<lparr>o_child_depend := [2]\<rparr> else demo_obj x)"
  by (simp add: demo_ring_def upd_obj_def)

lemma demo_ring_same: "linked demo_ring" "obj_valid demo_ring = obj_valid demo_db"
  using linked_same [of demo_ring demo_db] demo_linked
  by (simp_all add: demo_ring_objs) (simp_all add: demo_ring_def upd_obj_def)

lemma demo_ring_fields: "inst demo_ring = demo_inst" "queues demo_ring = queues demo_db" "next_oid demo_ring = 4"
  by (simp_all add: demo_ring_def upd_obj_def inst_def fun_eq_iff demo_fields)

lemma demo_ring_reads:
  "type_of demo_ring = type_of demo_db" "rule_of demo_ring = rule_of demo_db" "comp_of demo_ring = comp_of demo_db"
  by (simp_all add: fun_eq_iff type_of_def rule_of_def comp_of_def demo_ring_objs)

lemma demo_ring_good: "rci_good demo_ring"
proof -
  have "sched_inv demo_ring"
    using demo_sched
    by (simp add: sched_inv_def sched_inv_but_def on_queue_def queued_of_def next_time_of_def inst_valid_def
        demo_ring_same demo_ring_fields)
  moreover have "depends_bounded demo_ring"
    by (auto simp: depends_bounded_def rci_dependencies_def demo_ring_objs demo_obj_def blank_obj_def demo_comp_def
        demo_ring_fields split: rci_dir.splits if_splits)
  moreover have "contained_ranked (\<lambda>x. if x = 0 then 0 else 1) demo_ring"
  proof -
    have "o_parent_comp (objs demo_ring x) = o_parent_comp (demo_obj x)" for x by (simp add: demo_ring_objs)
    then show ?thesis using demo_contained by (simp add: contained_ranked_def demo_ring_same demo_ring_reads)
  qed
  moreover have "inputs_ranked (\<lambda>x. 0) demo_ring"
    using demo_inputs by (simp add: inputs_ranked_def demo_ring_reads demo_ring_same)
  ultimately show ?thesis using demo_ring_same(1) unfolding rci_good_def by blast
qed

lemma analysis_hangs_on_ring_witness: "rci_schedule_dependent_rules (base 2) demo_ring = None"
proof (rule analysis_hangs_on_ring [OF demo_ring_good])
  have w: "walks demo_ring (base x) \<longleftrightarrow> x < 4" for x
    using demo_walks [of x] by (simp add: walks_def inst_valid_def demo_ring_same demo_ring_fields)
  have "rci_next demo_ring (base 2) RCI_MAP_CHILDREN 3" "rci_next demo_ring (base 3) RCI_MAP_CHILDREN 2"
    by (intro next_here [where ds = "[3]"] next_here [where ds = "[2]"],
        auto simp: neighbours_def w rci_dependencies_def demo_ring_objs blank_obj_def)+
  moreover have "rule_targets demo_ring None 2 = [base 2]" "rule_targets demo_ring None 3 = [base 3]"
    by (simp_all add: rule_targets_def all_instances_def type_of_def demo_ring_objs blank_obj_def base_def)
  moreover have "member_name demo_ring (base x) = None" for x
    by (simp add: member_name_def myrefl_obj_is_member_instance_def base_def)
  ultimately have "base 3 \<in> rules_below demo_ring (member_name demo_ring (base 2)) (base 2) RCI_MAP_CHILDREN"
    "base 2 \<in> rules_below demo_ring (member_name demo_ring (base 3)) (base 3) RCI_MAP_CHILDREN"
    by (auto simp: rules_below_def demo_ring_fields demo_inst_base blank_instance_def intro!: exI below_next)
  then show "ring {base 2, base 3} demo_ring"
    by (auto simp: ring_def demo_ring_fields demo_inst_base blank_instance_def)
qed simp

end
