(* ===== verification/Sequencer.thy ===== *)
theory Sequencer
  imports RciAnalysis
begin

text \<open>
  The sequencer (\<open>seq_sequencer\<close> and \<open>seq_thread_fn\<close> in \<^verbatim>\<open>src/src/myrefl_sequence.c\<close>): one event of
  an object instance is carried through test, rule and action. The cases of the code's
  \<open>switch\<close> fall through; each label from which the code can go on is a definition here, with
  the recursive call as its argument. The walk along \<open>next_in_input\<close> and the recursion need
  not end, so both are \<open>partial_function\<close>s.

  The list of actions is walked as it is when the event arrives: an action function that
  removes actions from the rule that runs it is outside the model.
\<close>

type_synonym seq_fun = "iref \<Rightarrow> seq_event \<Rightarrow> result \<Rightarrow> int \<Rightarrow> db \<Rightarrow> db option"

section \<open>The rules of an input\<close>

text \<open>\<open>for (; rule; rule = rule->next_in_input)\<close>\<close>

partial_function (option) input_rules :: "(oid \<Rightarrow> db \<Rightarrow> db option) \<Rightarrow> oid option \<Rightarrow> db \<Rightarrow> db option" where
  "input_rules f rule db =
     (case rule of
        None \<Rightarrow> Some db
      | Some r \<Rightarrow> Option.bind (f r db) (\<lambda>db.
          Option.bind (rule_of db r) (\<lambda>x. input_rules f (r_next_in_input x) db)))"

lemma input_rules_mono_step:
  assumes "input_rules f rule db = Some t" and "\<And>r db t. f r db = Some t \<Longrightarrow> g r db = Some t"
  shows "input_rules g rule db = Some t"
proof -
  let ?P = "\<lambda>f rule db t. (\<forall>r db t. f r db = Some t \<longrightarrow> g r db = Some t) \<longrightarrow> input_rules g rule db = Some t"
  have "?P f rule db t"
  proof (rule input_rules.raw_induct [where P = ?P, OF _ assms(1)], rule impI, goal_cases)
    case (1 rec f rule db t)
    then show ?case
      by (subst input_rules.simps) (auto simp: bind_eq_Some_conv split: option.splits)
  qed
  then show ?thesis using assms(2) by blast
qed

lemma input_rules_mono [partial_function_mono]:
  assumes "\<And>r db. mono_option (\<lambda>F. G F r db)"
  shows "mono_option (\<lambda>F. input_rules (G F) rule db)"
proof (rule monotoneI)
  fix x y :: "'a \<Rightarrow> 'b option"
  assume le: "option.le_fun x y"
  have "G y r db = Some t" if "G x r db = Some t" for r db t
    using assms [of r db, THEN monotoneD, OF le] that by (simp add: flat_ord_def)
  then show "option_ord (input_rules (G x) rule db) (input_rules (G y) rule db)"
    using input_rules_mono_step [of "G x" rule db _ "G y"]
    by (cases "input_rules (G x) rule db") (force simp: flat_ord_def)+
qed

text \<open>The instances a result goes to: a member has one counterpart, the base instance all.\<close>

definition counterparts :: "db \<Rightarrow> oid \<Rightarrow> iref \<Rightarrow> iref list" where
  "counterparts db ob i =
     (let r = myrefl_obj_instance db ob i
      in if myrefl_obj_is_member_instance r then [r] else all_instances db ob)"

section \<open>The labels of the switch\<close>

text \<open>\<open>SEQ_RULE_PROCESS_INPUT\<close>, with the first rule of the test when the code falls through from it.\<close>

definition seq_process_input :: "seq_fun \<Rightarrow> seq_event \<Rightarrow> oid option \<Rightarrow> iref \<Rightarrow> result \<Rightarrow> int \<Rightarrow> db \<Rightarrow> db option" where
  "seq_process_input rec event rule i test_result v db =
     (let rule = (if rule = None \<and> type_of db (obj_of i) = TYPE_RULE then Some (obj_of i) else rule)
      in input_rules (\<lambda>r db.
           foldM (\<lambda>x db.
               if test_result = RESULT_ABORT then myrefl_rci_run x test_result db
               else rec x (if event \<noteq> SEQ_TEST_RESULT_RCI then SEQ_RULE_RUN else SEQ_RULE_RUN_RCI) test_result v db)
             (counterparts db r i) db) rule db)"

text \<open>\<open>SEQ_TEST_RESULT_RCI\<close>\<close>

definition seq_test_result :: "seq_fun \<Rightarrow> seq_event \<Rightarrow> iref \<Rightarrow> result \<Rightarrow> int \<Rightarrow> db \<Rightarrow> db option" where
  "seq_test_result rec event i test_result v db =
     (if type_of db (obj_of i) \<noteq> TYPE_TEST then Some db
      else Option.bind (test_of db (obj_of i)) (\<lambda>test.
        if test_result = RESULT_IGNORE then
          (if t_type test = POLLED then myrefl_sched_add_test i False db else Some db)
        else
          Option.bind (if event \<noteq> SEQ_TEST_RESULT_RCI then seq_result_stats_update i test_result v db else Some db)
            (\<lambda>db. Option.bind
              (if t_type test = POLLED \<or> t_autopass test \<noteq> AUTOPASS_UNSET
               then myrefl_sched_add_test i False db else Some db)
              (\<lambda>db. Option.bind (test_of db (obj_of i)) (\<lambda>test.
                 seq_process_input rec event (t_rule test) i test_result v db)))))"

text \<open>\<open>SEQ_TEST_RESULT\<close>\<close>

definition set_last_time :: "iref \<Rightarrow> db \<Rightarrow> db" where
  "set_last_time i db =
     (let (t, db) = time_now db
      in upd_inst i (\<lambda>x. x\<lparr>i_sched := (i_sched x)\<lparr>last_time := t\<rparr>\<rparr>) db)"

text \<open>\<open>SEQ_RCI_RUN\<close>\<close>

definition seq_rci_run :: "iref \<Rightarrow> result \<Rightarrow> db \<Rightarrow> db option" where
  "seq_rci_run i rule_result db =
     (if type_of db (obj_of i) \<noteq> TYPE_RULE then Some db else myrefl_rci_run i rule_result db)"

text \<open>\<open>SEQ_RULE_RESULT\<close>\<close>

definition seq_rule_result :: "seq_fun \<Rightarrow> iref \<Rightarrow> result \<Rightarrow> db \<Rightarrow> db option" where
  "seq_rule_result rec i rule_result db =
     (if type_of db (obj_of i) \<noteq> TYPE_RULE then Some db
      else Option.bind (rule_of db (obj_of i)) (\<lambda>rule.
        let db = (if rule_result = RESULT_PASS \<and> i_action_run (inst db i)
                  then upd_inst i (\<lambda>x. x\<lparr>i_action_run := False\<rparr>) db else db)
        in Option.bind
             (case r_output rule of
                None \<Rightarrow> Some db
              | Some out \<Rightarrow>
                  Option.bind (myrefl_obj_validate (Some out) TYPE_RULE db) (\<lambda>(ok, db).
                    if \<not> ok then Some db
                    else foldM (\<lambda>x. rec x SEQ_RULE_PROCESS_INPUT rule_result 0) (counterparts db out i) db))
             (seq_rci_run i rule_result)))"

text \<open>\<open>SEQ_RULE_ROOT_CAUSE\<close>\<close>

definition seq_root_cause :: "seq_fun \<Rightarrow> iref \<Rightarrow> result \<Rightarrow> db \<Rightarrow> db option" where
  "seq_root_cause rec i rule_result db =
     (if type_of db (obj_of i) \<noteq> TYPE_RULE then Some db
      else if i_action_run (inst db i) then Some db
      else Option.bind (rule_of db (obj_of i)) (\<lambda>rule.
        foldM (\<lambda>a db.
            let action_instance = myrefl_obj_instance db a i;
                db = (if and (i_flags (inst db (base (obj_of action_instance)))) OBJ_FLAG_SILENT \<noteq> 0 then db
                      else emit (Recovery_in_progress i action_instance) db)
            in rec action_instance SEQ_ACTION_RUN rule_result 0 db)
          (r_action_list rule) (upd_inst i (\<lambda>x. x\<lparr>i_action_run := True\<rparr>) db)))"

text \<open>\<open>SEQ_ACTION_RESULT\<close>\<close>

definition seq_action_result :: "iref \<Rightarrow> result \<Rightarrow> db \<Rightarrow> db option" where
  "seq_action_result i action_result db =
     (if type_of db (obj_of i) \<noteq> TYPE_ACTION then Some db
      else if action_result = RESULT_PASS then
        (if and (i_flags (inst db (base (obj_of i)))) OBJ_FLAG_BUILT_IN \<noteq> 0 then Some db
         else Option.bind (action_of db (obj_of i)) (\<lambda>action.
           foldM (\<lambda>r db. myrefl_sched_rule_immediate (myrefl_obj_instance db r i) db) (a_rule_list action) db))
      else Some db)"

text \<open>Recursion may go through these parts.\<close>

lemma case_option_mono:
  "mono_option f \<Longrightarrow> (\<And>x. mono_option (g x)) \<Longrightarrow>
   mono_option (\<lambda>F. case y of None \<Rightarrow> f F | Some x \<Rightarrow> g x F)"
  by (cases y) simp_all

lemma case_prod_mono: "(\<And>a b. mono_option (\<lambda>F. g F a b)) \<Longrightarrow> mono_option (\<lambda>F. case p of (a, b) \<Rightarrow> g F a b)"
  by (cases p) simp

lemma seq_parts_mono [partial_function_mono]:
  assumes "\<And>i e r v db. mono_option (\<lambda>F. G F i e r v db)"
  shows "mono_option (\<lambda>F. seq_process_input (G F) event rule i t v db)"
    and "mono_option (\<lambda>F. seq_rule_result (G F) i t db)"
    and "mono_option (\<lambda>F. seq_root_cause (G F) i t db)"
  unfolding seq_process_input_def seq_rule_result_def seq_root_cause_def Let_def
  by (intro partial_function_mono case_option_mono case_prod_mono assms)+

lemma seq_test_result_mono [partial_function_mono]:
  assumes "\<And>i e r v db. mono_option (\<lambda>F. G F i e r v db)"
  shows "mono_option (\<lambda>F. seq_test_result (G F) event i t v db)"
  unfolding seq_test_result_def by (intro partial_function_mono seq_parts_mono assms)

section \<open>The sequencer\<close>

partial_function (option) seq_sequencer :: "client \<Rightarrow> seq_fun" where
  "seq_sequencer cl i event r v db =
     Option.bind (myrefl_obj_instance_validate i TYPE_ANY db) (\<lambda>(ok, db).
       if \<not> ok then Some db
       else case event of
         SEQ_TEST_RUN \<Rightarrow>
           if type_of db (obj_of i) \<noteq> TYPE_TEST then Some db
           else Option.bind (myrefl_seq_test_run cl i v db) (\<lambda>(test_result, v, db).
             Option.bind (myrefl_obj_instance_validate i TYPE_TEST db) (\<lambda>(ok, db).
               if \<not> ok then Some db
               else if test_result = RESULT_IN_PROGRESS then Some db
               else seq_test_result (seq_sequencer cl) event i test_result v (set_last_time i db)))
       | SEQ_TEST_RESULT \<Rightarrow> seq_test_result (seq_sequencer cl) event i r v (set_last_time i db)
       | SEQ_TEST_RESULT_RCI \<Rightarrow> seq_test_result (seq_sequencer cl) event i r v db
       | SEQ_RULE_PROCESS_INPUT \<Rightarrow> seq_process_input (seq_sequencer cl) event None i r v db
       | SEQ_RULE_RUN_RCI \<Rightarrow> seq_rule_result (seq_sequencer cl) i (i_last_result (inst db i)) db
       | SEQ_RULE_RUN \<Rightarrow>
           Option.bind (seq_rule_run i r v db) (\<lambda>(rule_result, db).
             seq_rule_result (seq_sequencer cl) i rule_result db)
       | SEQ_RULE_RESULT \<Rightarrow> seq_rule_result (seq_sequencer cl) i r db
       | SEQ_RCI_RUN \<Rightarrow> seq_rci_run i r db
       | SEQ_RULE_ROOT_CAUSE \<Rightarrow> seq_root_cause (seq_sequencer cl) i r db
       | SEQ_ACTION_RUN \<Rightarrow>
           Option.bind (seq_action_run cl i db) (\<lambda>(action_result, db).
             Option.bind (myrefl_obj_validate (Some (obj_of i)) TYPE_ACTION db) (\<lambda>(ok, db).
               if \<not> ok \<or> i_state (inst db i) = STATE_DELETED then Some db
               else if action_result = RESULT_IN_PROGRESS then Some db
               else seq_action_result i action_result db))
       | SEQ_ACTION_RESULT \<Rightarrow> seq_action_result i r db)"

text \<open>What a thread runs for a job.\<close>

definition seq_thread_fn :: "client \<Rightarrow> seq_context \<Rightarrow> db \<Rightarrow> db option" where
  "seq_thread_fn cl c db =
     map_option (\<lambda>db.
         if length (free_contexts db) < SEQUENCE_CONTEXT_LOW_WATER
         then db\<lparr>free_contexts := free_contexts db @ [c]\<rparr> else db)
       (seq_sequencer cl (sc_instance c) (sc_event c) (sc_result c) (sc_value c)
         (use_instance (- 1) (sc_instance c) db))"

section \<open>The steps return and keep the invariants\<close>

lemma add_test_step:
  assumes "rci_good db"
  shows "\<exists>db'. myrefl_sched_add_test i force db = Some db' \<and> sched_step db db' \<and>
    (wants_schedule db i force \<noteq> None \<longrightarrow> queued_of db' i \<noteq> QUEUE_NONE)"
proof -
  have l: "linked db" "sched_inv db" using assms by (simp_all add: rci_good_def)
  obtain db' where r: "myrefl_sched_add_test i force db = Some db'" "runtime db db'" "sched_inv db'"
    "case wants_schedule db i force of None \<Rightarrow> db' = db
     | Some (q, p) \<Rightarrow> on_queue db' i q \<and> queued_of db' i = q \<and>
         next_time_of db' i = add_period p (clock db (ticks db))"
    using add_test_linked [OF l] by blast
  note others = add_test_others [OF l(1) r(1)]
  have on: "wants_schedule db i force \<noteq> None \<longrightarrow> queued_of db' i \<noteq> QUEUE_NONE"
    using r(4) sched_inv_butD(1) [OF r(3) [unfolded sched_inv_def]] by (auto simp: on_queue_def split: option.splits)
  have "keeps_queued db db'"
    unfolding keeps_queued_def
  proof (intro impI allI)
    fix j
    assume "queued_of db j \<noteq> QUEUE_NONE"
    then show "queued_of db' j \<noteq> QUEUE_NONE"
      using r(4) on others(2) [of j] by (cases "j = i"; cases "wants_schedule db i force") auto
  qed
  then show ?thesis using r l runtime_linked others(1) on by (auto simp: sched_step_def)
qed

lemma quiet_good: "rci_good db \<Longrightarrow> quiet db db' \<Longrightarrow> sched_step db db'"
  using quiet_sched_step by (auto simp: rci_good_def)

lemma stats_step:
  assumes "rci_good db"
  shows "\<exists>db'. seq_result_stats_update i r v db = Some db' \<and> sched_step db db'"
  using result_stats_linked [of db i r v] quiet_good [OF assms] assms by (auto simp: rci_good_def)

lemma rule_run_step:
  assumes good: "rci_good db"
  shows "\<exists>res db'. seq_rule_run i r v db = Some (res, db') \<and> sched_step db db'"
proof (cases "inst_valid db i TYPE_RULE")
  case True
  obtain rank where "linked db" "contained_ranked rank db" using good by (auto simp: rci_good_def)
  from rule_run_linked [OF this True, of r v] show ?thesis using quiet_good [OF good] by blast
next
  case False
  have l: "linked db" using good by (simp add: rci_good_def)
  show ?thesis using False sched_step_refl [OF good]
    by (auto simp: seq_rule_run_def instance_validate_linked [OF l])
qed

lemma upd_inst_step:
  assumes "rci_good db" and "\<And>x. inst_id (f x) = inst_id x" and "\<And>x. queued (i_sched (f x)) = queued (i_sched x)"
    and "\<And>x. next_time (i_sched (f x)) = next_time (i_sched x)"
  shows "sched_step db (upd_inst i f db)"
proof -
  have rt: "runtime db (upd_inst i f db)" by (rule runtime_upd_inst) (rule assms(2))
  have q: "queued_of (upd_inst i f db) j = queued_of db j" "next_time_of (upd_inst i f db) j = next_time_of db j" for j
    using assms(3,4) by (auto simp: queued_of_def next_time_of_def)
  have s: "queues (upd_inst i f db) = queues db" "queues_blocked (upd_inst i f db) = queues_blocked db"
    by (simp_all add: upd_inst_def)
  have "sched_inv (upd_inst i f db) = sched_inv db"
    by (simp add: sched_inv_def sched_inv_but_def on_queue_def q s runtime_inst_valid [OF rt])
  then show ?thesis using assms(1) rt runtime_linked [OF rt] s by (simp add: sched_step_def rci_good_def keeps_queued_def q)
qed

lemma use_instance_step: "rci_good db \<Longrightarrow> sched_step db (use_instance d i db)"
  unfolding use_instance_def by (rule upd_inst_step) (simp_all add: inst_id_def)

lemma action_run_flag_step: "rci_good db \<Longrightarrow> sched_step db (upd_inst i (\<lambda>x. x\<lparr>i_action_run := b\<rparr>) db)"
  by (rule upd_inst_step) (simp_all add: inst_id_def)

lemma fields_step:
  "rci_good db \<Longrightarrow> sched_step db (emit e db)" "rci_good db \<Longrightarrow> sched_step db (snd (time_now db))"
  by (erule quiet_good, intro inv_intros quiet_refl)+

lemma set_last_time_step:
  assumes "rci_good db"
  shows "sched_step db (set_last_time i db)"
proof -
  have s: "sched_step db (snd (time_now db))" by (rule fields_step [OF assms])
  have "sched_step (snd (time_now db)) (upd_inst i (\<lambda>x. x\<lparr>i_sched := (i_sched x)\<lparr>last_time := t\<rparr>\<rparr>) (snd (time_now db)))" for t
    by (rule upd_inst_step [OF rci_good_step [OF assms s]]) (simp_all add: inst_id_def)
  with s show ?thesis unfolding set_last_time_def split_beta Let_def by (rule sched_step_trans)
qed

section \<open>The sequencer returns\<close>

text \<open>Loops over functions that return under an invariant of the work on the queues.\<close>

definition returns_on :: "db \<Rightarrow> ('a \<Rightarrow> db \<Rightarrow> db option) \<Rightarrow> 'a set \<Rightarrow> bool" where
  "returns_on db0 f A \<longleftrightarrow>
     (\<forall>x \<in> A. \<forall>db. sched_step db0 db \<longrightarrow> (\<exists>db'. f x db = Some db' \<and> sched_step db0 db'))"

lemma returns_onD:
  "returns_on db0 f A \<Longrightarrow> x \<in> A \<Longrightarrow> sched_step db0 db \<Longrightarrow> \<exists>db'. f x db = Some db' \<and> sched_step db0 db'"
  by (simp add: returns_on_def)

lemma foldM_returns:
  "returns_on db0 f (set xs) \<Longrightarrow> sched_step db0 db \<Longrightarrow> \<exists>db'. foldM f xs db = Some db' \<and> sched_step db0 db'"
  by (rule foldM_total) (auto dest: returns_onD)

text \<open>The next rules of an input, and the rules a rule feeds, have smaller ranks.\<close>

definition triggers_ranked :: "(oid \<Rightarrow> nat) \<Rightarrow> db \<Rightarrow> bool" where
  "triggers_ranked rank db \<longleftrightarrow>
     (\<forall>r x. rule_of db r = Some x \<longrightarrow>
        (\<forall>n. r_next_in_input x = Some n \<longrightarrow> rule_of db n \<noteq> None \<and> rank n < rank r) \<and>
        (\<forall>out. r_output x = Some out \<longrightarrow> rank out < rank r))"

lemma input_rules_returns:
  assumes tr: "triggers_ranked rank db0" and f: "returns_on db0 f {r. rank r \<le> n}"
    and "rule_of db0 r \<noteq> None" and "rank r \<le> n" and "sched_step db0 db"
  shows "\<exists>db'. input_rules f (Some r) db = Some db' \<and> sched_step db0 db'"
  using assms(3-)
proof (induction "rank r" arbitrary: r db rule: less_induct)
  case less
  obtain x where x: "rule_of db0 r = Some x" using less.prems(1) by blast
  obtain s where s: "f r db = Some s" "sched_step db0 s"
    using returns_onD [OF f] less.prems by blast
  have rs: "rule_of s r = Some x" using s(2) x runtime_reads(3) [of db0 s] by (simp add: sched_step_def)
  show ?case
  proof (cases "r_next_in_input x")
    case None
    then show ?thesis using s rs by (subst input_rules.simps, simp, subst input_rules.simps, simp)
  next
    case (Some r')
    then have r': "rank r' < rank r" "rule_of db0 r' \<noteq> None" using tr x by (auto simp: triggers_ranked_def)
    have "\<exists>db'. input_rules f (Some r') s = Some db' \<and> sched_step db0 db'"
      by (rule less.hyps [OF r'(1,2)]) (use r'(1) less.prems(2) s(2) in auto)
    then show ?thesis using Some s rs by (subst input_rules.simps) simp
  qed
qed

lemma counterparts_obj: "x \<in> set (counterparts db ob i) \<Longrightarrow> obj_of x = ob"
  by (auto simp: counterparts_def Let_def all_instances_def split: if_splits)

lemma counterparts_runtime: "runtime db db' \<Longrightarrow> counterparts db' = counterparts db"
  unfolding counterparts_def [abs_def] by (simp only: runtime_reads)

lemma process_input_returns:
  assumes good: "rci_good db0" and rr: "rules_ranked rk db0" and tr: "triggers_ranked rank db0"
    and ev: "event \<noteq> SEQ_TEST_RESULT_RCI \<Longrightarrow> returns_on db0 (\<lambda>x. rec x SEQ_RULE_RUN res v) {x. rank (obj_of x) \<le> n}"
    and evr: "event = SEQ_TEST_RESULT_RCI \<Longrightarrow> returns_on db0 (\<lambda>x. rec x SEQ_RULE_RUN_RCI res v) {x. rank (obj_of x) \<le> n}"
    and rule: "\<And>r. (if rule = None \<and> type_of db0 (obj_of i) = TYPE_RULE then Some (obj_of i) else rule) = Some r \<Longrightarrow>
      rule_of db0 r \<noteq> None \<and> rank r \<le> n"
    and st: "sched_step db0 db"
  shows "\<exists>db'. seq_process_input rec event rule i res v db = Some db' \<and> sched_step db0 db'"
proof -
  define g where "g = (\<lambda>x db. if res = RESULT_ABORT then myrefl_rci_run x res db
      else rec x (if event \<noteq> SEQ_TEST_RESULT_RCI then SEQ_RULE_RUN else SEQ_RULE_RUN_RCI) res v db)"
  define f where "f = (\<lambda>r db. foldM g (counterparts db r i) db)"
  have g: "returns_on db0 g {x. rank (obj_of x) \<le> n}"
    unfolding returns_on_def
  proof (intro ballI allI impI)
    fix x s
    assume x: "x \<in> {x. rank (obj_of x) \<le> n}" and s: "sched_step db0 s"
    have gs: "rci_good s" by (rule rci_good_step [OF good s])
    have rs: "rules_ranked rk s" using rules_ranked_runtime [of db0 s] s rr by (simp add: sched_step_def)
    obtain t where "myrefl_rci_run x res s = Some t" "sched_step s t" using rci_run_returns [OF gs rs] by blast
    then show "\<exists>t. g x s = Some t \<and> sched_step db0 t"
      using returns_onD [OF ev x s] returns_onD [OF evr x s] sched_step_trans [OF s]
      by (cases "event = SEQ_TEST_RESULT_RCI") (auto simp: g_def)
  qed
  have f: "returns_on db0 f {r. rank r \<le> n}"
    unfolding returns_on_def
  proof (intro ballI allI impI)
    fix r s
    assume r: "r \<in> {r. rank r \<le> n}" and s: "sched_step db0 s"
    have "returns_on db0 g (set (counterparts s r i))"
      using g r counterparts_obj unfolding returns_on_def by blast
    then show "\<exists>t. f r s = Some t \<and> sched_step db0 t"
      unfolding f_def using s by (rule foldM_returns)
  qed
  let ?rule = "if rule = None \<and> type_of db0 (obj_of i) = TYPE_RULE then Some (obj_of i) else rule"
  have ty: "type_of db = type_of db0" using st by (simp add: sched_step_def runtime_reads(1) [of db0 db])
  have eq: "seq_process_input rec event rule i res v db = input_rules f ?rule db"
    by (simp only: seq_process_input_def Let_def ty f_def g_def)
  show ?thesis
  proof (cases ?rule)
    case None
    then show ?thesis unfolding eq None using st by (subst input_rules.simps) simp
  next
    case (Some r)
    from input_rules_returns [OF tr f _ _ st, of r] rule [OF Some]
    show ?thesis unfolding eq Some by blast
  qed
qed

lemma type_rule: "type_of db ob = TYPE_RULE \<Longrightarrow> rule_of db ob \<noteq> None"
  by (auto simp: type_of_def rule_of_def split: obj_data.splits)

lemma rule_result_returns:
  assumes good: "rci_good db0" and rr: "rules_ranked rk db0" and tr: "triggers_ranked rank db0"
    and rec: "returns_on db0 (\<lambda>x. rec x SEQ_RULE_PROCESS_INPUT res 0) {x. rank (obj_of x) < rank (obj_of i)}"
    and st: "sched_step db0 db"
  shows "\<exists>db'. seq_rule_result rec i res db = Some db' \<and> sched_step db0 db'"
proof (cases "type_of db (obj_of i) = TYPE_RULE")
  case False
  then show ?thesis using st by (simp add: seq_rule_result_def)
next
  case True
  define s where "s = (if res = RESULT_PASS \<and> i_action_run (inst db i)
                  then upd_inst i (\<lambda>x. x\<lparr>i_action_run := False\<rparr>) db else db)"
  obtain rule where rule: "rule_of db (obj_of i) = Some rule" using type_rule [OF True] by blast
  then have rule0: "rule_of db0 (obj_of i) = Some rule" using st runtime_reads(3) [of db0 db] by (simp add: sched_step_def)
  have s: "sched_step db0 s"
    using st sched_step_trans [OF st action_run_flag_step [OF rci_good_step [OF good st]]] by (simp add: s_def)
  have ls: "linked s" using s by (simp add: sched_step_def)
  define outputs where "outputs = (case r_output rule of None \<Rightarrow> Some s
      | Some out \<Rightarrow> Option.bind (myrefl_obj_validate (Some out) TYPE_RULE s) (\<lambda>(ok, db).
          if \<not> ok then Some db
          else foldM (\<lambda>x. rec x SEQ_RULE_PROCESS_INPUT res 0) (counterparts db out i) db))"
  have "\<exists>t. outputs = Some t \<and> sched_step db0 t"
  proof (cases "r_output rule")
    case None
    then show ?thesis using s by (simp add: outputs_def)
  next
    case (Some out)
    then have "rank out < rank (obj_of i)" using tr rule0 by (simp add: triggers_ranked_def)
    then have "returns_on db0 (\<lambda>x. rec x SEQ_RULE_PROCESS_INPUT res 0) (set (counterparts s out i))"
      using rec counterparts_obj unfolding returns_on_def by blast
    from foldM_returns [OF this s] show ?thesis using s Some by (simp add: outputs_def validate_linked [OF ls])
  qed
  then obtain t where t: "outputs = Some t" "sched_step db0 t" by blast
  have "rules_ranked rk t" using rules_ranked_runtime [of db0 t] t rr by (simp add: sched_step_def)
  then obtain u where u: "myrefl_rci_run i res t = Some u" "sched_step t u"
    using rci_run_returns [OF rci_good_step [OF good t(2)]] by blast
  have "seq_rule_result rec i res db = Option.bind outputs (seq_rci_run i res)"
    by (simp only: seq_rule_result_def True rule outputs_def s_def Let_def bind.bind_lunit not_True_eq_False if_False simp_thms)
  moreover have "type_of t (obj_of i) = TYPE_RULE"
    using True t(2) st runtime_reads(1) [of db0 t] runtime_reads(1) [of db0 db] by (simp add: sched_step_def)
  ultimately show ?thesis using t u sched_step_trans [OF t(2)] by (simp add: seq_rci_run_def)
qed

text \<open>The events of rules, by induction over the rank of the rule.\<close>

lemma rule_events_return:
  assumes good: "rci_good db0" and rr: "rules_ranked rk db0" and tr: "triggers_ranked rank db0"
    and "e \<in> {SEQ_RULE_RUN, SEQ_RULE_RUN_RCI, SEQ_RULE_RESULT}" and "sched_step db0 db"
  shows "\<exists>db'. seq_sequencer cl i e r v db = Some db' \<and> sched_step db0 db'"
  using assms(4,5)
proof (induction "rank (obj_of i)" arbitrary: i e r v db rule: less_induct)
  case less
  note st = less.prems(2)
  have l: "linked db" using st by (simp add: sched_step_def)
  have input: "returns_on db0 (\<lambda>x. seq_sequencer cl x SEQ_RULE_PROCESS_INPUT res 0) {x. rank (obj_of x) < rank (obj_of i)}" for res
    unfolding returns_on_def
  proof (intro ballI allI impI)
    fix x s
    assume x: "x \<in> {x. rank (obj_of x) < rank (obj_of i)}" and s: "sched_step db0 s"
    have ls: "linked s" using s by (simp add: sched_step_def)
    have "returns_on db0 (\<lambda>y. seq_sequencer cl y SEQ_RULE_RUN res 0) {y. rank (obj_of y) \<le> rank (obj_of x)}"
      using less.hyps x by (auto simp: returns_on_def)
    then have "\<exists>t. seq_process_input (seq_sequencer cl) SEQ_RULE_PROCESS_INPUT None x res 0 s = Some t \<and> sched_step db0 t"
      using type_rule by (intro process_input_returns [OF good rr tr _ _ _ s]) (auto split: if_splits)
    then show "\<exists>t. seq_sequencer cl x SEQ_RULE_PROCESS_INPUT res 0 s = Some t \<and> sched_step db0 t"
      using s by (subst seq_sequencer.simps) (simp add: instance_validate_linked [OF ls])
  qed
  note result = rule_result_returns [where rec = "seq_sequencer cl" and i = i, OF good rr tr input]
  obtain res t where t: "seq_rule_run i r v db = Some (res, t)" "sched_step db0 t"
    using rule_run_step [OF rci_good_step [OF good st], of i r v] sched_step_trans [OF st] by blast
  show ?case
    using less.prems(1) st result [OF st, of r] result [OF st, of "i_last_result (inst db i)"] result [OF t(2), of res] t(1)
    by (subst seq_sequencer.simps) (auto simp: instance_validate_linked [OF l])
qed

text \<open>The result of an action starts tests.\<close>

lemma action_result_returns:
  assumes good: "rci_good db"
  shows "\<exists>t. seq_action_result i r db = Some t \<and> sched_step db t"
proof (cases "type_of db (obj_of i) = TYPE_ACTION")
  case True
  then obtain a where a: "action_of db (obj_of i) = Some a"
    by (auto simp: type_of_def action_of_def split: obj_data.splits)
  have "returns_on db (\<lambda>r db. myrefl_sched_rule_immediate (myrefl_obj_instance db r i) db) (set (a_rule_list a))"
    unfolding returns_on_def
    using good_rule_immediate rci_good_step [OF good] sched_step_trans by meson
  from foldM_returns [OF this sched_step_refl [OF good]] show ?thesis
    using True a sched_step_refl [OF good] by (simp add: seq_action_result_def)
next
  case False
  then show ?thesis using sched_step_refl [OF good] by (simp add: seq_action_result_def)
qed

lemma add_polled:
  assumes good: "rci_good db" and va: "inst_valid db i TYPE_TEST" and en: "i_state (inst db i) = STATE_ENABLED"
    and t: "test_of db (obj_of i) = Some t" "t_type t = POLLED" and nb: "\<not> queues_blocked db"
  shows "\<exists>db'. myrefl_sched_add_test i force db = Some db' \<and> sched_step db db' \<and> queued_of db' i \<noteq> QUEUE_NONE"
proof -
  obtain db' where r: "myrefl_sched_add_test i force db = Some db'" "sched_step db db'"
    "wants_schedule db i force \<noteq> None \<longrightarrow> queued_of db' i \<noteq> QUEUE_NONE"
    using add_test_step [OF good] by blast
  have q: "queues db (period_queue p) \<noteq> None" for p
    using good sched_inv_butD(2) [of "{}" db "period_queue p"]
    by (simp add: rci_good_def sched_inv_def period_queue_def split: if_splits)
  have "queued_of db' i \<noteq> QUEUE_NONE"
  proof (cases "queued_of db i = QUEUE_NONE")
    case True
    then have "wants_schedule db i force \<noteq> None"
      using va en t nb q by (auto simp: wants_schedule_def inst_valid_def test_schedule_def)
    then show ?thesis using r(3) by simp
  next
    case False
    then show ?thesis using r(2) nb by (simp add: sched_step_def keeps_queued_def)
  qed
  then show ?thesis using r by blast
qed

text \<open>The events of tests and the inputs of rules, on the database as other steps left it.\<close>

lemma input_event_returns:
  assumes good: "rci_good db" and rr: "rules_ranked rk db" and tr: "triggers_ranked rank db"
    and st: "sched_step db s" and known: "\<And>r. rule = Some r \<Longrightarrow> rule_of db r \<noteq> None"
  shows "\<exists>t. seq_process_input (seq_sequencer cl) event rule i res w s = Some t \<and> sched_step db t"
proof (rule process_input_returns [OF good rr tr _ _ _ st])
  let ?n = "max (case rule of None \<Rightarrow> 0 | Some r \<Rightarrow> rank r) (rank (obj_of i))"
  show "returns_on db (\<lambda>x. seq_sequencer cl x SEQ_RULE_RUN res w) {x. rank (obj_of x) \<le> ?n}"
    "returns_on db (\<lambda>x. seq_sequencer cl x SEQ_RULE_RUN_RCI res w) {x. rank (obj_of x) \<le> ?n}"
    using rule_events_return [OF good rr tr] by (simp_all add: returns_on_def)
  show "rule_of db r \<noteq> None \<and> rank r \<le> ?n"
    if "(if rule = None \<and> type_of db (obj_of i) = TYPE_RULE then Some (obj_of i) else rule) = Some r" for r
    using that type_rule known by (auto split: if_splits)
qed

lemma test_result_returns:
  assumes good: "rci_good db" and rr: "rules_ranked rk db" and tr: "triggers_ranked rank db"
    and s: "sched_step db s" and va: "inst_valid s i TYPE_ANY"
  shows "\<exists>t. seq_test_result (seq_sequencer cl) event i res w s = Some t \<and> sched_step db t \<and>
    (inst_valid s i TYPE_TEST \<longrightarrow> i_state (inst s i) = STATE_ENABLED \<longrightarrow>
     map_option t_type (test_of s (obj_of i)) = Some POLLED \<longrightarrow> \<not> queues_blocked s \<longrightarrow> queued_of t i \<noteq> QUEUE_NONE)"
proof (cases "type_of s (obj_of i) = TYPE_TEST")
  case False
  then show ?thesis using s by (auto simp: seq_test_result_def inst_valid_def obj_valid_def)
next
  case True
  then obtain test where t: "test_of s (obj_of i) = Some test"
    by (auto simp: type_of_def test_of_def split: obj_data.splits)
  have ls: "linked s" and gs: "rci_good s" using s rci_good_step [OF good s] by (simp_all add: sched_step_def)
  have "obj_linked s (obj_of i)" using ls va by (auto simp: linked_def inst_valid_def obj_valid_def)
  then have "rule_of s r \<noteq> None" if "t_rule test = Some r" for r
    using that t by (auto simp: obj_linked_def test_of_def split: obj_data.splits)
  then have rule: "rule_of db r \<noteq> None" if "t_rule test = Some r" for r
    using that s runtime_reads(3) [of db s] by (simp add: sched_step_def)
  let ?polled = "inst_valid s i TYPE_TEST \<and> i_state (inst s i) = STATE_ENABLED \<and> t_type test = POLLED \<and> \<not> queues_blocked s"
  have add: "\<exists>u'. (if t_type test = POLLED \<or> b then myrefl_sched_add_test i False u else Some u) = Some u' \<and>
      sched_step db u' \<and> (?polled \<longrightarrow> queued_of u' i \<noteq> QUEUE_NONE)" if u: "sched_step s u" for u b
  proof -
    note gu = rci_good_step [OF gs u] and du = sched_step_trans [OF s u]
    have same: "inst_valid u = inst_valid s" "test_of u (obj_of i) = Some test" "i_state (inst u i) = i_state (inst s i)"
      "queues_blocked u = queues_blocked s"
      using u t runtime_inst_valid [of s u] runtime_reads(2) [of s u] by (simp_all add: sched_step_def runtimeD [of s u])
    show ?thesis
      using add_polled [OF gu, of i test False] add_test_step [OF gu, of i False] du sched_step_trans [OF du]
      by (cases ?polled) (auto simp: same)
  qed
  obtain s1 where s1: "(if event \<noteq> SEQ_TEST_RESULT_RCI then seq_result_stats_update i res w s else Some s) = Some s1"
    "sched_step s s1"
    using stats_step [OF gs, of i res w] sched_step_refl [OF gs] by (cases "event = SEQ_TEST_RESULT_RCI") auto
  obtain s2 where s2: "(if t_type test = POLLED \<or> t_autopass test \<noteq> AUTOPASS_UNSET
       then myrefl_sched_add_test i False s1 else Some s1) = Some s2" "sched_step db s2"
       "?polled \<longrightarrow> queued_of s2 i \<noteq> QUEUE_NONE"
    using add [OF s1(2)] by blast
  have t2: "test_of s2 (obj_of i) = Some test"
    using t s s2(2) runtime_reads(2) [of db s] runtime_reads(2) [of db s2] by (simp add: sched_step_def)
  obtain s3 where s3: "(if t_type test = POLLED then myrefl_sched_add_test i False s else Some s) = Some s3"
    "sched_step db s3" "?polled \<longrightarrow> queued_of s3 i \<noteq> QUEUE_NONE"
    using add [OF sched_step_refl [OF gs], of False] by auto
  obtain s4 where s4: "seq_process_input (seq_sequencer cl) event (t_rule test) i res w s2 = Some s4" "sched_step s2 s4"
    using input_event_returns [OF rci_good_step [OF good s2(2)], of rk rank s2 "t_rule test" cl event i res w]
      rr tr rule s2(2) sched_step_refl [OF rci_good_step [OF good s2(2)]]
    by (auto simp: sched_step_def rules_ranked_runtime [of db s2] triggers_ranked_def runtime_reads(3) [of db s2])
  have "?polled \<longrightarrow> queued_of s4 i \<noteq> QUEUE_NONE"
    using s2 s4(2) s by (auto simp: sched_step_def keeps_queued_def)
  then show ?thesis
    unfolding seq_test_result_def
    using True t s1(1) s2(1) t2 s3 s4(1) sched_step_trans [OF s2(2) s4(2)] by simp
qed

text \<open>A database on which the sequencer ends: the links and the queues are right, and the rules have ranks along
  their dependencies and along the rules they trigger.\<close>

definition settled :: "db \<Rightarrow> bool" where
  "settled db \<longleftrightarrow> rci_good db \<and> (\<exists>rank. rules_ranked rank db) \<and> (\<exists>rank. triggers_ranked rank db)"

text \<open>The client's functions are called with the database unlocked; they may change it, and so may other threads, by any
  calls that leave a settled database.\<close>

definition client_settles :: "client \<Rightarrow> bool" where
  "client_settles cl \<longleftrightarrow>
     (\<forall>f n c v db. settled db \<longrightarrow> settled (snd (snd (run_test cl f n c v db)))) \<and>
     (\<forall>f n c db. settled db \<longrightarrow> settled (snd (run_action cl f n c db)))"

lemma settled_step: "settled db \<Longrightarrow> sched_step db db' \<Longrightarrow> settled db'"
  using rci_good_step [of db db'] rules_ranked_runtime [of db db'] runtime_reads(3) [of db db']
  by (auto simp: settled_def sched_step_def triggers_ranked_def)

lemma settled_good: "settled db \<Longrightarrow> rci_good db" "settled db \<Longrightarrow> linked db"
  by (simp_all add: settled_def rci_good_def)

lemma settled_use: "settled db \<Longrightarrow> settled (use_instance d i db)"
  using settled_step use_instance_step settled_good(1) by blast

lemma test_run_settles:
  assumes st: "settled db" and cl: "client_settles cl"
  shows "\<exists>r w db'. myrefl_seq_test_run cl i v db = Some (r, w, db') \<and> settled db'"
proof (cases "inst_valid db i TYPE_TEST")
  case True
  then obtain t where t: "test_of db (obj_of i) = Some t" using obj_valid_test by (auto simp: inst_valid_def)
  have "settled (use_instance (- 1) i (snd (snd (run_test cl f n c v (use_instance 1 i db)))))" for f n c
    using cl settled_use [OF st] settled_use by (simp add: client_settles_def)
  then show ?thesis using True t st
    by (auto simp: myrefl_seq_test_run_def instance_validate_linked [OF settled_good(2) [OF st]] Let_def case_prod_beta split: option.split)
next
  case False
  then show ?thesis using st by (simp add: myrefl_seq_test_run_def instance_validate_linked [OF settled_good(2) [OF st]])
qed

lemma action_run_settles:
  assumes st: "settled db" and cl: "client_settles cl"
  shows "\<exists>r db'. seq_action_run cl i db = Some (r, db') \<and> settled db'"
proof (cases "inst_valid db i TYPE_ACTION")
  case True
  then obtain a where a: "action_of db (obj_of i) = Some a"
    by (auto simp: inst_valid_def obj_valid_def action_of_def type_of_def split: obj_data.splits)
  define p where "p = (case a_function a of None \<Rightarrow> (RESULT_ABORT, db)
        | Some f \<Rightarrow> let db = use_instance 1 i db;
                (r, db) = run_action cl f (i_name (inst db i)) (i_context (inst db i)) db
            in (r, use_instance (- 1) i db))"
  have "settled (use_instance (- 1) i (snd (run_action cl f n c (use_instance 1 i db))))" for f n c
    using cl settled_use [OF st] settled_use by (simp add: client_settles_def)
  then have p: "settled (snd p)" using st by (simp add: p_def Let_def case_prod_beta split: option.split)
  have "seq_action_run cl i db = Option.bind (seq_result_stats_update i (fst p) 0 (snd p)) (\<lambda>db. Some (fst p, db))"
    using True a by (simp add: seq_action_run_def instance_validate_linked [OF settled_good(2) [OF st]] p_def case_prod_beta)
  then show ?thesis using stats_step [OF settled_good(1) [OF p], of i "fst p" 0] settled_step [OF p] by auto
next
  case False
  then show ?thesis using st by (simp add: seq_action_run_def instance_validate_linked [OF settled_good(2) [OF st]])
qed

lemma action_event_settles:
  assumes st: "settled db" and cl: "client_settles cl"
  shows "\<exists>t. seq_sequencer cl i SEQ_ACTION_RUN r v db = Some t \<and> settled t"
proof -
  obtain res s where s: "seq_action_run cl i db = Some (res, s)" "settled s" using action_run_settles [OF assms] by blast
  obtain t where "seq_action_result i res s = Some t" "settled t"
    using action_result_returns [OF settled_good(1) [OF s(2)]] settled_step [OF s(2)] by blast
  then show ?thesis using s st
    by (subst seq_sequencer.simps) (simp add: instance_validate_linked [OF settled_good(2) [OF st]] validate_linked [OF settled_good(2) [OF s(2)]])
qed

lemma root_cause_settles:
  assumes st: "settled db" and cl: "client_settles cl"
  shows "\<exists>t. seq_root_cause (seq_sequencer cl) i r db = Some t \<and> settled t"
proof (cases "type_of db (obj_of i) = TYPE_RULE \<and> \<not> i_action_run (inst db i)")
  case True
  then obtain rule where rule: "rule_of db (obj_of i) = Some rule" using type_rule by blast
  let ?f = "\<lambda>a db.
      let action_instance = myrefl_obj_instance db a i;
          db = (if and (i_flags (inst db (base (obj_of action_instance)))) OBJ_FLAG_SILENT \<noteq> 0 then db
                else emit (Recovery_in_progress i action_instance) db)
      in seq_sequencer cl action_instance SEQ_ACTION_RUN r 0 db"
  have "\<exists>t. ?f a s = Some t \<and> settled t" if "settled s" for a s
    using action_event_settles [OF _ cl] that settled_step [OF that fields_step(1) [OF settled_good(1) [OF that]]]
    by (simp add: Let_def)
  from foldM_total [where P = settled and f = ?f, OF settled_step [OF st action_run_flag_step [OF settled_good(1) [OF st]]] this]
  show ?thesis using True rule by (simp add: seq_root_cause_def)
next
  case False
  then show ?thesis using st by (auto simp: seq_root_cause_def)
qed

lemma sequencer_settles:
  assumes st: "settled db" and cl: "client_settles cl"
  shows "\<exists>db'. seq_sequencer cl i e r v db = Some db' \<and> settled db'"
proof (cases "inst_valid db i TYPE_ANY")
  case False
  then show ?thesis using st
    by (subst seq_sequencer.simps) (simp add: instance_validate_linked [OF settled_good(2) [OF st]])
next
  case va: True
  let ?S = "seq_sequencer cl"
  have test: "\<exists>t. seq_test_result ?S event i res w s' = Some t \<and> settled t"
    if s: "settled s" "sched_step s s'" "inst_valid s' i TYPE_ANY" for event res w s s'
  proof -
    obtain rk rank where "rules_ranked rk s" "triggers_ranked rank s" using s(1) by (auto simp: settled_def)
    from test_result_returns [OF settled_good(1) [OF s(1)] this s(2,3)] show ?thesis using settled_step [OF s(1)] by blast
  qed
  obtain rk rank where rr: "rules_ranked rk db" and tr: "triggers_ranked rank db" using st by (auto simp: settled_def)
  note good = settled_good(1) [OF st] and l = settled_good(2) [OF st] and refl = sched_step_refl [OF settled_good(1) [OF st]]
  note last = set_last_time_step [OF good, of i]
  have valid: "inst_valid s' i TYPE_ANY" if "sched_step s s'" "inst_valid s i TYPE_ANY" for s s'
    using that runtime_inst_valid [of s s'] by (simp add: sched_step_def)
  have step: "\<exists>t. x = Some t \<and> settled t" if "\<exists>t. x = Some t \<and> sched_step db t" for x using that settled_step [OF st] by blast
  show ?thesis
  proof (cases e)
    case SEQ_TEST_RUN
    obtain res w s where s: "myrefl_seq_test_run cl i v db = Some (res, w, s)" "settled s" using test_run_settles [OF assms] by blast
    note last = set_last_time_step [OF settled_good(1) [OF s(2)], of i]
    have "inst_valid s i TYPE_ANY" if "inst_valid s i TYPE_TEST" using that by (auto simp: inst_valid_def obj_valid_def)
    then show ?thesis unfolding SEQ_TEST_RUN
      using s st va test [OF s(2) last valid [OF last], of SEQ_TEST_RUN res w]
      by (subst seq_sequencer.simps) (simp add: instance_validate_linked [OF l] instance_validate_linked [OF settled_good(2) [OF s(2)]])
  next
    case SEQ_RCI_RUN
    show ?thesis unfolding SEQ_RCI_RUN
      using rci_run_returns [OF good rr, of i r] st settled_step [OF st]
      by (subst seq_sequencer.simps) (auto simp: instance_validate_linked [OF l] seq_rci_run_def)
  next
    case SEQ_ACTION_RUN
    show ?thesis unfolding SEQ_ACTION_RUN by (rule action_event_settles [OF assms])
  next
    case SEQ_TEST_RESULT
    show ?thesis unfolding SEQ_TEST_RESULT using test [OF st last valid [OF last va]] va
      by (subst seq_sequencer.simps) (simp add: instance_validate_linked [OF l])
  next
    case SEQ_TEST_RESULT_RCI
    show ?thesis unfolding SEQ_TEST_RESULT_RCI using test [OF st refl va] va
      by (subst seq_sequencer.simps) (simp add: instance_validate_linked [OF l])
  next
    case SEQ_RULE_PROCESS_INPUT
    show ?thesis unfolding SEQ_RULE_PROCESS_INPUT using step [OF input_event_returns [OF good rr tr refl, of None]] va
      by (subst seq_sequencer.simps) (simp add: instance_validate_linked [OF l])
  next
    case SEQ_RULE_ROOT_CAUSE
    show ?thesis unfolding SEQ_RULE_ROOT_CAUSE using root_cause_settles [OF assms] va
      by (subst seq_sequencer.simps) (simp add: instance_validate_linked [OF l])
  next
    case SEQ_ACTION_RESULT
    show ?thesis unfolding SEQ_ACTION_RESULT using step [OF action_result_returns [OF good]] va
      by (subst seq_sequencer.simps) (simp add: instance_validate_linked [OF l])
  qed (use step [OF rule_events_return [OF good rr tr _ refl]] in auto)
qed

text \<open>A polled test that reported a result waits on a queue again, whatever its rules did.\<close>

lemma polled_requeued:
  assumes good: "rci_good db" and rr: "rules_ranked rk db" and tr: "triggers_ranked rank db"
    and va: "inst_valid db i TYPE_TEST" and en: "i_state (inst db i) = STATE_ENABLED"
    and t: "test_of db (obj_of i) = Some t" "t_type t = POLLED" and nb: "\<not> queues_blocked db"
  shows "\<exists>db' q. seq_sequencer cl i SEQ_TEST_RESULT r v db = Some db' \<and> sched_step db db' \<and>
    q \<noteq> QUEUE_NONE \<and> queued_of db' i = q \<and> on_queue db' i q"
proof -
  have l: "linked db" using good by (simp add: rci_good_def)
  have any: "inst_valid db i TYPE_ANY" using va by (auto simp: inst_valid_def obj_valid_def)
  note last = set_last_time_step [OF good, of i]
  have same: "inst_valid (set_last_time i db) = inst_valid db" "test_of (set_last_time i db) = test_of db"
    "i_state (inst (set_last_time i db) i) = i_state (inst db i)" "queues_blocked (set_last_time i db) = queues_blocked db"
    using last runtime_inst_valid [of db "set_last_time i db"] runtime_reads(2) [of db "set_last_time i db"]
    by (simp_all add: sched_step_def runtimeD [of db "set_last_time i db"])
  obtain u where u: "seq_test_result (seq_sequencer cl) SEQ_TEST_RESULT i r v (set_last_time i db) = Some u"
    "sched_step db u" "queued_of u i \<noteq> QUEUE_NONE"
    using test_result_returns [OF good rr tr last, of i cl SEQ_TEST_RESULT r v] any va en t nb by (auto simp: same)
  have "inst_valid u i TYPE_TEST" using u(2) va runtime_inst_valid [of db u] by (simp add: sched_step_def)
  then have "on_queue u i (queued_of u i)"
    using u sched_inv_butD(6) [of "{}" u i] by (simp add: sched_step_def sched_inv_def)
  then show ?thesis using u any
    by (subst seq_sequencer.simps) (simp add: instance_validate_linked [OF l])
qed

section \<open>A rule that feeds another rule\<close>

lemma foldM_cong_inv:
  assumes "K s" and "\<And>x s. x \<in> set xs \<Longrightarrow> K s \<Longrightarrow> f x s = g x s"
    and "\<And>x s t. x \<in> set xs \<Longrightarrow> K s \<Longrightarrow> g x s = Some t \<Longrightarrow> K t"
  shows "foldM f xs s = foldM g xs s"
  using assms
proof (induction xs arbitrary: s)
  case (Cons x xs)
  have "foldM f xs t = foldM g xs t" if t: "g x s = Some t" for t
  proof (rule Cons.IH)
    show "K t" by (rule Cons.prems(3) [OF _ Cons.prems(1) t]) simp
    show "f x s = g x s" if "x \<in> set xs" "K s" for x s using Cons.prems(2) that by simp
    show "K t" if "x \<in> set xs" "K s" "g x s = Some t" for x s t using Cons.prems(3) [OF _ that(2,3)] that(1) by simp
  qed
  moreover have "f x s = g x s" by (rule Cons.prems(2)) (simp_all add: Cons.prems(1))
  ultimately show ?case by (cases "g x s") simp_all
qed simp

lemma input_rules_single:
  assumes "rule_of db r = Some x" and "r_next_in_input x = None"
    and "\<And>t. f r db = Some t \<Longrightarrow> rule_of t r = rule_of db r"
  shows "input_rules f (Some r) db = f r db"
proof (cases "f r db")
  case (Some t)
  have "input_rules f None t = Some t" by (subst input_rules.simps) simp
  then show ?thesis using Some assms by (subst input_rules.simps) simp
qed (subst input_rules.simps, simp)

text \<open>Each member has a name of its own.\<close>

definition member_names_unique :: "db \<Rightarrow> oid \<Rightarrow> bool" where
  "member_names_unique db ob \<longleftrightarrow>
     (\<forall>k \<in> set (o_members (objs db ob)). k \<noteq> 0 \<and> find_member db ob (i_name (inst db (IRef ob k))) = Some (IRef ob k))"

lemma counterparts_self:
  assumes "member_names_unique db ob"
  shows "counterparts db ob (base ob) = all_instances db ob"
    and "k \<in> set (o_members (objs db ob)) \<Longrightarrow> counterparts db ob (IRef ob k) = [IRef ob k]"
  using assms
  by (auto simp: counterparts_def myrefl_obj_instance_def myrefl_obj_is_member_instance_def member_names_unique_def
      base_def)


text \<open>An instance of a rule that is the last of its input processes an input by running.\<close>

lemma process_input_runs:
  assumes good: "rci_good db0" and rr: "rules_ranked rk db0" and tr: "triggers_ranked rank db0"
    and x: "rule_of db0 (obj_of i) = Some x" "r_next_in_input x = None" and res: "res \<noteq> RESULT_ABORT"
    and s: "sched_step db0 s"
  shows "seq_sequencer cl i SEQ_RULE_PROCESS_INPUT res 0 s =
    (if inst_valid s i TYPE_ANY
     then foldM (\<lambda>y. seq_sequencer cl y SEQ_RULE_RUN res 0) (counterparts s (obj_of i) i) s else Some s)"
proof -
  have ls: "linked s" using s by (simp add: sched_step_def)
  have xs: "rule_of s (obj_of i) = Some x" if "sched_step db0 s" for s
    using that x(1) runtime_reads(3) [of db0 s] by (simp add: sched_step_def)
  have ty: "type_of s (obj_of i) = TYPE_RULE"
    using xs [OF s] by (auto simp: rule_of_def type_of_def split: obj_data.splits)
  let ?run = "\<lambda>y. seq_sequencer cl y SEQ_RULE_RUN res 0"
  let ?f = "\<lambda>r db. foldM ?run (counterparts db r i) db"
  have on: "returns_on db0 ?run (set (counterparts s (obj_of i) i))"
    using rule_events_return [OF good rr tr] by (simp add: returns_on_def)
  have "sched_step db0 t" if "?f (obj_of i) s = Some t" for t
    using foldM_returns [OF on s] that by auto
  then have "input_rules ?f (Some (obj_of i)) s = ?f (obj_of i) s"
    using xs s by (intro input_rules_single [OF xs [OF s] x(2)]) simp
  then show ?thesis
    by (subst seq_sequencer.simps) (simp add: instance_validate_linked [OF ls] seq_process_input_def ty res)
qed

lemma run_invalid:
  "linked s \<Longrightarrow> \<not> inst_valid s i TYPE_ANY \<Longrightarrow> seq_sequencer cl i e r v s = Some s"
  by (subst seq_sequencer.simps) (simp add: instance_validate_linked)

text \<open>The base instance of a rule sends its result to the rule it feeds: the base instance of that
  rule runs, its members run, and then each member runs once more.\<close>

lemma output_runs_members_twice:
  assumes good: "rci_good db" and rr: "rules_ranked rk db" and tr: "triggers_ranked rank db"
    and i: "i = base ob" "inst_valid db i TYPE_ANY" "rule_of db ob = Some rule" "r_output rule = Some out"
    and out: "obj_valid db (Some out) TYPE_RULE" "rule_of db out = Some x" "r_next_in_input x = None"
    and uniq: "member_names_unique db out" and res: "res \<noteq> RESULT_ABORT" "res \<noteq> RESULT_PASS"
  shows "seq_sequencer cl i SEQ_RULE_RESULT res v db =
    Option.bind (foldM (\<lambda>y. seq_sequencer cl y SEQ_RULE_RUN res 0)
        (all_instances db out @ map (IRef out) (o_members (objs db out))) db)
      (myrefl_rci_run i res)"
proof -
  let ?run = "\<lambda>y. seq_sequencer cl y SEQ_RULE_RUN res 0"
  let ?process = "\<lambda>y. seq_sequencer cl y SEQ_RULE_PROCESS_INPUT res 0"
  let ?members = "map (IRef out) (o_members (objs db out))"
  have l: "linked db" using good by (simp add: rci_good_def)
  note refl = sched_step_refl [OF good]
  have on: "returns_on db ?run A" for A
    using rule_events_return [OF good rr tr] by (simp add: returns_on_def)
  have keep: "sched_step db t" if "sched_step db s" "?run y s = Some t" for y s t
    using returns_onD [OF on [of UNIV], of y s] that by fastforce
  have member: "?process y s = ?run y s" if y: "y \<in> set ?members" and s: "sched_step db s" for y s
  proof -
    obtain k where k: "y = IRef out k" "k \<in> set (o_members (objs db out))" using y by auto
    have rt: "runtime db s" and ls: "linked s" using s by (simp_all add: sched_step_def)
    have "counterparts s out y = [y]"
      using counterparts_self(2) [OF uniq k(2)] k(1) counterparts_runtime [OF rt] by simp
    moreover have "?process y s = (if inst_valid s y TYPE_ANY then foldM ?run (counterparts s (obj_of y) y) s else Some s)"
      by (rule process_input_runs [OF good rr tr _ out(3) res(1) s]) (simp add: k(1) out(2))
    moreover have "?run y s = Some s" if "\<not> inst_valid s y TYPE_ANY" by (rule run_invalid [OF ls that])
    moreover have "foldM ?run [y] s = ?run y s" by (cases "?run y s") simp_all
    ultimately show ?thesis unfolding k(1)
      by (cases "inst_valid s (IRef out k) TYPE_ANY") (simp_all only: if_True if_False iref.sel not_False_eq_True simp_thms)
  qed
  have base: "?process (base out) db = foldM ?run (all_instances db out) db"
  proof -
    have "inst_valid db (base out) TYPE_ANY" using out(1) by (auto simp: inst_valid_def obj_valid_def base_def)
    moreover have "?process (base out) db =
        (if inst_valid db (base out) TYPE_ANY then foldM ?run (counterparts db (obj_of (base out)) (base out)) db else Some db)"
      by (rule process_input_runs [OF good rr tr _ out(3) res(1) refl]) (simp add: base_def out(2))
    ultimately show ?thesis using counterparts_self(1) [OF uniq] by (simp add: base_def)
  qed
  have "foldM ?process (all_instances db out) db = foldM ?run (all_instances db out @ ?members) db"
  proof -
    have "foldM ?process ?members s = foldM ?run ?members s" if "foldM ?run (all_instances db out) db = Some s" for s
    proof (rule foldM_cong_inv [where K = "sched_step db", OF _ member keep])
      show "sched_step db s" using foldM_returns [OF on refl, of "all_instances db out"] that by auto
    qed
    then show ?thesis
      unfolding foldM_append
      using base by (cases "foldM ?run (all_instances db out) db") (simp_all add: all_instances_def base_def)
  qed
  moreover have "counterparts db out i = all_instances db out"
    using i(1) by (simp add: counterparts_def myrefl_obj_instance_def myrefl_obj_is_member_instance_def base_def)
  moreover have ty: "type_of db ob = TYPE_RULE"
    using i(3) by (auto simp: rule_of_def type_of_def split: obj_data.splits)
  moreover have "seq_rci_run i res t = myrefl_rci_run i res t" if "sched_step db t" for t
    using that ty i(1) runtime_reads(1) [of db t] by (simp add: seq_rci_run_def sched_step_def base_def)
  moreover obtain t where "foldM ?run (all_instances db out @ ?members) db = Some t" "sched_step db t"
    using foldM_returns [OF on refl] by blast
  ultimately show ?thesis
    using i out(1) res
    by (subst seq_sequencer.simps)
      (simp add: instance_validate_linked [OF l] seq_rule_result_def validate_linked [OF l] base_def del: foldM.simps)
qed

end
