(* ===== verification/SeqProps.thy ===== *)
theory SeqProps
  imports Demo Sequencer
begin

text \<open>The properties of the sequencer (\<open>seq_sequencer\<close> in \<^verbatim>\<open>src/src/myrefl_sequence.c\<close>), which joins
  the scheduler, the evaluation of rules, health and root cause identification.\<close>


definition demo_client :: client where
  "demo_client = \<lparr>run_test = (\<lambda>f n c v db. (RESULT_FAIL, v, db)), run_action = (\<lambda>f n c db. (RESULT_PASS, db))\<rparr>"


lemma demo_triggers: "triggers_ranked (\<lambda>x. 4 - x) demo_db"
  by (auto simp: triggers_ranked_def rule_of_def demo_obj_def blank_obj_def demo_rule_def split: if_splits)



text \<open>C3: an enabled polled test that has reported a result waits on a queue afterwards, also when
  its result is ignored and whatever the rules it triggers do, unless the queues are blocked.\<close>

theorem polled_test_waits_again:
  assumes "rci_good db" and "rules_ranked rk db" and "triggers_ranked rank db"
    and "inst_valid db i TYPE_TEST" and "i_state (inst db i) = STATE_ENABLED"
    and "test_of db (obj_of i) = Some t" and "t_type t = POLLED" and "\<not> queues_blocked db"
  shows "\<exists>db' q. seq_sequencer cl i SEQ_TEST_RESULT r v db = Some db' \<and> sched_step db db' \<and>
    q \<noteq> QUEUE_NONE \<and> queued_of db' i = q \<and> on_queue db' i q"
  by (rule polled_requeued [OF assms])

lemma polled_test_waits_again_witness:
  "\<exists>db' q. seq_sequencer demo_client (base 1) SEQ_TEST_RESULT RESULT_FAIL 0 demo_db = Some db' \<and>
     q \<noteq> QUEUE_NONE \<and> on_queue db' (base 1) q"
proof -
  have "test_of demo_db (obj_of (base 1)) = Some demo_test" using demo_reads(3) by (simp add: base_def)
  then show ?thesis
    using polled_test_waits_again [OF demo_good demo_ranked demo_triggers, of "base 1" demo_test demo_client RESULT_FAIL 0] demo_valid
    by (auto simp: demo_inst_base blank_instance_def demo_test_def demo_fields)
qed

text \<open>when the base instance of a rule feeds another rule, every member of that rule runs twice
  for the one result: once with the base instance and once more on its own.\<close>

theorem fed_members_run_twice:
  assumes "rci_good db" and "rules_ranked rk db" and "triggers_ranked rank db"
    and "i = base ob" and "inst_valid db i TYPE_ANY" and "rule_of db ob = Some rule" and "r_output rule = Some out"
    and "obj_valid db (Some out) TYPE_RULE" and "rule_of db out = Some x" and "r_next_in_input x = None"
    and "member_names_unique db out" and "res \<noteq> RESULT_ABORT" and "res \<noteq> RESULT_PASS"
  shows "seq_sequencer cl i SEQ_RULE_RESULT res v db =
    Option.bind (foldM (\<lambda>y. seq_sequencer cl y SEQ_RULE_RUN res 0)
        (all_instances db out @ map (IRef out) (o_members (objs db out))) db)
      (myrefl_rci_run i res)"
  by (rule output_runs_members_twice [OF assms])

text \<open>The demo database with a member of rule 3, fed by rule 2.\<close>

definition fed_db :: db where
  "fed_db = upd_inst (IRef 3 1) (\<lambda>x. x\<lparr>i_name := ''m'', i_state := STATE_ENABLED\<rparr>)
     (upd_obj 3 (\<lambda>x. x\<lparr>o_members := [1]\<rparr>) (set_rule 2 (\<lambda>r. r\<lparr>r_output := Some 3\<rparr>) demo_db))"

lemma fed_objs: "objs fed_db x =
  (if x = 3 then (demo_obj 3)\<lparr>o_members := [1]\<rparr>
   else if x = 2 then (demo_obj 2)\<lparr>o_data := DRule (demo_rule\<lparr>r_next_in_input := Some 3, r_output := Some 3\<rparr>)\<rparr>
   else demo_obj x)"
  by (simp add: fed_db_def upd_obj_def set_rule_def upd_inst_def blank_obj_def)

lemma fed_inst: "inst fed_db i =
  (if i = IRef 3 1 then (demo_inst i)\<lparr>i_name := ''m'', i_state := STATE_ENABLED\<rparr> else demo_inst i)"
  by (simp add: fed_db_def upd_obj_def set_rule_def upd_inst_def inst_def)

lemma fed_fields: "queues fed_db = queues demo_db" "queues_blocked fed_db = queues_blocked demo_db" "next_oid fed_db = 4"
  by (simp_all add: fed_db_def upd_obj_def set_rule_def upd_inst_def demo_fields)

lemma fed_reads:
  "rule_of fed_db x = (if x = 2 then Some (demo_rule\<lparr>r_next_in_input := Some 3, r_output := Some 3\<rparr>) else rule_of demo_db x)"
  "test_of fed_db = test_of demo_db" "action_of fed_db = action_of demo_db" "comp_of fed_db = comp_of demo_db"
  "type_of fed_db = type_of demo_db"
  by (auto simp: rule_of_def test_of_def action_of_def comp_of_def type_of_def fun_eq_iff fed_objs demo_obj_def blank_obj_def)

lemma fed_chain: "in_input_chain (rule_of fed_db) 2 (Some 2) = Some True" "in_input_chain (rule_of fed_db) 3 (Some 2) = Some True"
  by (subst in_input_chain.simps, simp add: fed_reads demo_reads, (subst in_input_chain.simps, simp)?)+

lemma fed_base: "inst fed_db (base x) = demo_inst (base x)"
  by (simp add: fed_inst base_def)

lemma fed_linked: "linked fed_db"
proof -
  have head: "input_head fed_db (Suc 0) = Some (Some 2)"
    by (simp add: input_head_def fed_objs blank_obj_def demo_test_def)
  have "obj_linked fed_db x" if "x < 4" for x
    using that unfolding demo_cases
    by (elim disjE)
      (simp_all add: obj_linked_def inputs_linked_def fed_reads demo_reads fed_chain head fed_base demo_inst_base
        fed_objs blank_obj_def demo_comp_def demo_test_def demo_rule_def demo_name_def blank_instance_def MYREFL_TEST_FLAG_ALL_def)
  then show ?thesis
    by (auto simp: linked_def fed_base demo_inst_base blank_instance_def)
qed

lemma fed_valid: "obj_valid fed_db = obj_valid demo_db"
proof (intro ext)
  fix p ty
  show "obj_valid fed_db p ty = obj_valid demo_db p ty"
    by (cases p) (simp_all add: obj_valid_def fed_base fed_reads fed_objs blank_obj_def cong: obj_data.case_cong)
qed

lemma fed_inst_valid: "inst_valid fed_db i TYPE_TEST = inst_valid demo_db i TYPE_TEST"
  by (cases "i = IRef 3 1") (auto simp: inst_valid_def fed_valid fed_inst obj_valid_def type_of_def blank_obj_def)

lemma fed_good: "rci_good fed_db"
proof -
  have sched: "i_sched (inst fed_db i) = i_sched (demo_inst i)" for i by (simp add: fed_inst)
  have "sched_inv fed_db"
    using demo_sched
    by (simp add: sched_inv_def sched_inv_but_def on_queue_def queued_of_def next_time_of_def sched fed_inst_valid fed_fields)
  moreover have "depends_bounded fed_db"
    by (auto simp: depends_bounded_def rci_dependencies_def fed_objs demo_obj_def blank_obj_def demo_comp_def
        fed_fields split: rci_dir.splits if_splits)
  moreover have "contained_ranked (\<lambda>x. if x = 0 then 0 else 1) fed_db"
  proof -
    have "o_parent_comp (objs fed_db x) = o_parent_comp (demo_obj x)" for x by (simp add: fed_objs)
    then show ?thesis using demo_contained by (simp add: contained_ranked_def fed_valid fed_reads)
  qed
  moreover have "inputs_ranked (\<lambda>x. 0) fed_db"
    using demo_inputs demo_reads(1) by (auto simp: inputs_ranked_def fed_reads split: if_splits)
  ultimately show ?thesis using fed_linked unfolding rci_good_def by blast
qed

lemma fed_next: "rci_next fed_db i dir e \<Longrightarrow> norm_dir dir = RCI_MAP_CHILDREN \<Longrightarrow>
    obj_of i = 2 \<and> e = 3 \<or> obj_of i = 0 \<and> dir = RCI_MAP_CHILDREN \<and> e = 2"
proof (induction rule: rci_next.induct)
  case (next_here i dir ds e)
  then have "obj_of i < 4" using demo_obj_valid [of "obj_of i"]
    by (auto simp: neighbours_def walks_def inst_valid_def fed_valid split: if_splits)
  then show ?case using next_here unfolding demo_cases
    by (elim disjE; cases dir)
      (auto simp: neighbours_def rci_dependencies_def fed_objs blank_obj_def demo_comp_def norm_dir_def split: if_splits)
next
  case (next_out i dir p c e)
  have "p = 0" using next_out(3) by (simp add: fed_objs demo_obj_def blank_obj_def split: if_splits)
  then have "\<not> rci_next fed_db (base p) (rci_outwards (norm_dir dir)) e"
    using next_out.IH next_out.prems norm_outwards [of dir] by (auto simp: rci_outwards_def)
  then show ?case using next_out.hyps by blast
qed

lemma fed_ranked: "rules_ranked demo_rank fed_db"
proof -
  have sub: "obj_of i = 2 \<and> e = 3 \<or> obj_of i = 0 \<and> (e = 2 \<or> e = 3)"
    if "rci_below fed_db i RCI_MAP_CHILDREN e" for i e
    using that by induction (auto dest!: fed_next simp: norm_dir_def)
  have target: "obj_of r = e" if "r \<in> set (rule_targets fed_db nm e)" for r nm e
  proof -
    have all: "obj_of r = e" if "r \<in> set (all_instances fed_db e)" using that by (auto simp: all_instances_def)
    have found: "obj_of r = e" if "find_member fed_db e n = Some r" for n by (rule find_member_Some(1) [OF that])
    show ?thesis
    proof (cases nm)
      case None
      then show ?thesis using that all by (simp add: rule_targets_def split: if_split_asm)
    next
      case (Some n)
      have "r \<in> set (all_instances fed_db e) \<or> find_member fed_db e n = Some r"
        using that unfolding rule_targets_def Some
        by (cases "type_of fed_db e = TYPE_RULE"; cases "o_members (objs fed_db e) = []";
            cases "obj_valid fed_db (Some e) TYPE_ANY"; cases "find_member fed_db e n") simp_all
      then show ?thesis using all found by blast
    qed
  qed
  have "demo_rank r < demo_rank i"
    if "rci_below fed_db i RCI_MAP_CHILDREN e" "r \<in> set (rule_targets fed_db nm e)" for i e r nm
    using sub [OF that(1)] target [OF that(2)] by (auto simp: demo_rank_def)
  then show ?thesis by (auto simp: rules_ranked_def rules_below_def)
qed

lemma fed_members_run_twice_witness:
  "seq_sequencer demo_client (base 2) SEQ_RULE_RESULT RESULT_FAIL 0 fed_db =
    Option.bind (foldM (\<lambda>y. seq_sequencer demo_client y SEQ_RULE_RUN RESULT_FAIL 0) [IRef 3 0, IRef 3 1, IRef 3 1] fed_db)
      (myrefl_rci_run (base 2) RESULT_FAIL)"
proof -
  have tr: "triggers_ranked (\<lambda>x. 4 - x) fed_db"
    by (auto simp: triggers_ranked_def rule_of_def fed_objs demo_rule_def demo_obj_def blank_obj_def split: if_splits)
  have members: "o_members (objs fed_db 3) = [1]" by (simp add: fed_objs)
  have v: "inst_valid fed_db (base 2) TYPE_ANY" "obj_valid fed_db (Some 3) TYPE_RULE"
    using demo_obj_valid [of 2] demo_obj_valid [of 3]
    by (auto simp: inst_valid_def fed_valid fed_base demo_inst_base blank_instance_def obj_valid_def type_of_def blank_obj_def)
  have u: "member_names_unique fed_db 3" by (simp add: member_names_unique_def members find_member_def)
  have r: "rule_of fed_db 2 = Some (demo_rule\<lparr>r_next_in_input := Some 3, r_output := Some 3\<rparr>)" "rule_of fed_db 3 = Some demo_rule"
    by (simp_all add: fed_reads demo_reads)
  have n: "r_next_in_input demo_rule = None" by (simp add: demo_rule_def)
  show ?thesis
    using fed_members_run_twice [OF fed_good fed_ranked tr refl v(1) r(1) _ v(2) r(2) n u, of RESULT_FAIL demo_client 0]
    by (simp add: all_instances_def members)
qed

end
