(* ===== verification/Threads.thy ===== *)
theory Threads
  imports Prelude "HOL-Library.Multiset"
begin

text \<open>
  The pool of work threads (\<^verbatim>\<open>src/src/myrefl_thread.c\<close>) and the wait and release of a thread
  (\<^verbatim>\<open>src/src/myrefl_posix.c\<close>) as a state machine. Threads and callers of \<open>myrefl_thread_request\<close>
  interleave: a step is what happens between two accesses to shared state, since the code
  holds no lock over more than one list operation. The queues are lists, head first: a push
  appends, a pop takes the head.

  \<open>requested\<close> and \<open>executed\<close> record what has been asked for and what has run; the code has no
  such variables. A thread that follows a null job pointer, or has ended, has no step.
\<close>

type_synonym tid = nat
type_synonym rid = nat

record thread_job =
  execute :: nat
  job_context :: nat

definition NBR_THREADS :: nat where "NBR_THREADS = 4"
definition THREAD_REQUEST_LOW_WATER :: nat where "THREAD_REQUEST_LOW_WATER = 50"

text \<open>Where a thread is in \<open>thread_main\<close>, and a caller in \<open>myrefl_thread_request\<close>.\<close>

datatype tpc = AT_LOOP | AT_WAIT | AT_CHECK | AT_JOB | RUNNING | AT_POP | AT_REMOVE | AT_PUSH | ENDED

datatype rpc = R_IDLE | R_POP thread_job | R_SET tid thread_job | R_RELEASE tid | R_EXEC tid | R_PEND thread_job

record myrefl_thread =
  quit :: bool
  job :: "thread_job option"
  work_to_do :: bool
  pc :: tpc

record pool =
  thread_free_queue :: "tid list"
  thread_executing_queue :: "tid list"
  job_pending_queue :: "thread_job list"
  free_job_requests :: nat
  threads :: "tid \<Rightarrow> myrefl_thread"
  callers :: nat
  caller :: "rid \<Rightarrow> rpc"
  requested :: "thread_job list"
  executed :: "thread_job list"

definition upd_thread :: "tid \<Rightarrow> (myrefl_thread \<Rightarrow> myrefl_thread) \<Rightarrow> pool \<Rightarrow> pool" where
  "upd_thread t f s = s\<lparr>threads := (threads s)(t := f (threads s t))\<rparr>"

definition at_pc :: "tid \<Rightarrow> tpc \<Rightarrow> pool \<Rightarrow> pool" where
  "at_pc t p = upd_thread t (\<lambda>x. x\<lparr>pc := p\<rparr>)"

definition at_rpc :: "rid \<Rightarrow> rpc \<Rightarrow> pool \<Rightarrow> pool" where
  "at_rpc r p s = s\<lparr>caller := (caller s)(r := p)\<rparr>"

section \<open>Threads\<close>

text \<open>The answer says whether the thread was released: not when it has been already.\<close>

definition myrefl_xos_thread_release :: "tid \<Rightarrow> pool \<Rightarrow> bool \<times> pool" where
  "myrefl_xos_thread_release t s =
     (if work_to_do (threads s t) then (False, s)
      else (True, upd_thread t (\<lambda>x. x\<lparr>work_to_do := True\<rparr>) s))"

text \<open>\<open>None\<close> is a thread that waits on.\<close>

definition myrefl_xos_thread_wait :: "tid \<Rightarrow> pool \<Rightarrow> pool option" where
  "myrefl_xos_thread_wait t s =
     (if work_to_do (threads s t) then Some (upd_thread t (\<lambda>x. x\<lparr>work_to_do := False\<rparr>) s) else None)"

definition myrefl_thread_kill :: "tid \<Rightarrow> pool \<Rightarrow> pool" where
  "myrefl_thread_kill t s =
     snd (myrefl_xos_thread_release t (upd_thread t (\<lambda>x. x\<lparr>job := None, quit := True\<rparr>) s))"

definition recycle_job :: "pool \<Rightarrow> pool" where
  "recycle_job s =
     (if free_job_requests s < THREAD_REQUEST_LOW_WATER
      then s\<lparr>free_job_requests := free_job_requests s + 1\<rparr> else s)"

definition thread_main :: "tid \<Rightarrow> pool \<Rightarrow> pool option" where
  "thread_main t s =
     (case pc (threads s t) of
        AT_LOOP \<Rightarrow> Some (at_pc t (if quit (threads s t) then ENDED else AT_WAIT) s)
      | AT_WAIT \<Rightarrow> map_option (at_pc t AT_CHECK) (myrefl_xos_thread_wait t s)
      | AT_CHECK \<Rightarrow> Some (at_pc t (if quit (threads s t) then AT_LOOP else AT_JOB) s)
      | AT_JOB \<Rightarrow> Some (at_pc t (if job (threads s t) = None then AT_REMOVE else RUNNING) s)
      | RUNNING \<Rightarrow>
          (case job (threads s t) of
             None \<Rightarrow> None
           | Some j \<Rightarrow>
               let s = recycle_job (s\<lparr>executed := executed s @ [j]\<rparr>)
               in Some (at_pc t AT_POP (upd_thread t (\<lambda>x. x\<lparr>job := None\<rparr>) s)))
      | AT_POP \<Rightarrow>
          (case job_pending_queue s of
             [] \<Rightarrow> Some (at_pc t AT_JOB s)
           | j # js \<Rightarrow> Some (at_pc t AT_JOB (upd_thread t (\<lambda>x. x\<lparr>job := Some j\<rparr>) (s\<lparr>job_pending_queue := js\<rparr>))))
      | AT_REMOVE \<Rightarrow>
          Some (at_pc t AT_PUSH (s\<lparr>thread_executing_queue := remove1 t (thread_executing_queue s)\<rparr>))
      | AT_PUSH \<Rightarrow> Some (at_pc t AT_LOOP (s\<lparr>thread_free_queue := thread_free_queue s @ [t]\<rparr>))
      | ENDED \<Rightarrow> None)"

section \<open>Requests\<close>

text \<open>A job comes from the spare ones or from \<open>malloc\<close>, which may fail: then it is discarded.\<close>

definition thread_alloc_job :: "bool \<Rightarrow> pool \<Rightarrow> bool \<times> pool" where
  "thread_alloc_job malloc_ok s =
     (if free_job_requests s > 0 then (True, s\<lparr>free_job_requests := free_job_requests s - 1\<rparr>)
      else (malloc_ok, s))"

definition start_request :: "bool \<Rightarrow> rid \<Rightarrow> thread_job \<Rightarrow> pool \<Rightarrow> pool" where
  "start_request malloc_ok r j s =
     (let (ok, s) = thread_alloc_job malloc_ok s
      in if ok then at_rpc r (R_POP j) (s\<lparr>requested := requested s @ [j]\<rparr>) else s)"

definition myrefl_thread_request :: "rid \<Rightarrow> pool \<Rightarrow> pool option" where
  "myrefl_thread_request r s =
     (case caller s r of
        R_IDLE \<Rightarrow> None
      | R_POP j \<Rightarrow>
          (case thread_free_queue s of
             [] \<Rightarrow> Some (at_rpc r (R_PEND j) s)
           | t # ts \<Rightarrow>
               Some (at_rpc r (if quit (threads s t) then R_PEND j else R_SET t j) (s\<lparr>thread_free_queue := ts\<rparr>)))
      | R_SET t j \<Rightarrow> Some (at_rpc r (R_RELEASE t) (upd_thread t (\<lambda>x. x\<lparr>job := Some j\<rparr>) s))
      | R_RELEASE t \<Rightarrow>
          (let (released, s) = myrefl_xos_thread_release t s
           in Some (if released then at_rpc r (R_EXEC t) s else at_rpc r R_IDLE (myrefl_thread_kill t s)))
      | R_EXEC t \<Rightarrow> Some (at_rpc r R_IDLE (s\<lparr>thread_executing_queue := thread_executing_queue s @ [t]\<rparr>))
      | R_PEND j \<Rightarrow> Some (at_rpc r R_IDLE (s\<lparr>job_pending_queue := job_pending_queue s @ [j]\<rparr>)))"

section \<open>The pool\<close>

definition myrefl_thread_init :: "nat \<Rightarrow> pool" where
  "myrefl_thread_init n =
     \<lparr>thread_free_queue = [0..<NBR_THREADS], thread_executing_queue = [], job_pending_queue = [],
      free_job_requests = THREAD_REQUEST_LOW_WATER,
      threads = \<lambda>_. \<lparr>quit = False, job = None, work_to_do = False, pc = AT_LOOP\<rparr>,
      callers = n, caller = \<lambda>_. R_IDLE, requested = [], executed = []\<rparr>"

inductive pool_step :: "pool \<Rightarrow> pool \<Rightarrow> bool" where
  thread_step: "t < NBR_THREADS \<Longrightarrow> thread_main t s = Some s' \<Longrightarrow> pool_step s s'"
| caller_step: "r < callers s \<Longrightarrow> myrefl_thread_request r s = Some s' \<Longrightarrow> pool_step s s'"
| new_request: "r < callers s \<Longrightarrow> caller s r = R_IDLE \<Longrightarrow> pool_step s (start_request malloc_ok r j s)"

inductive_cases pool_stepE: "pool_step s s'"

inductive reachable :: "nat \<Rightarrow> pool \<Rightarrow> bool" for n where
  reachable_init: "reachable n (myrefl_thread_init n)"
| reachable_step: "reachable n s \<Longrightarrow> pool_step s s' \<Longrightarrow> reachable n s'"

section \<open>Who holds a thread\<close>

text \<open>A thread that waits and has nothing to do.\<close>

definition idle :: "myrefl_thread \<Rightarrow> bool" where
  "idle x \<longleftrightarrow> (pc x = AT_LOOP \<or> pc x = AT_WAIT) \<and> \<not> work_to_do x \<and> \<not> quit x"

text \<open>The caller that has taken the thread off the free queue and has not released it yet.\<close>

definition in_hand :: "pool \<Rightarrow> rid \<Rightarrow> tid \<Rightarrow> bool" where
  "in_hand s r t \<longleftrightarrow> (\<exists>j. caller s r = R_SET t j) \<or> caller s r = R_RELEASE t"

definition thread_ok :: "myrefl_thread \<Rightarrow> bool" where
  "thread_ok x \<longleftrightarrow> \<not> quit x \<and> pc x \<noteq> ENDED \<and>
     (pc x \<noteq> AT_LOOP \<and> pc x \<noteq> AT_WAIT \<longrightarrow> \<not> work_to_do x) \<and>
     (pc x = RUNNING \<longrightarrow> job x \<noteq> None) \<and> (pc x = AT_POP \<or> pc x = AT_REMOVE \<or> pc x = AT_PUSH \<longrightarrow> job x = None)"

definition pool_inv :: "pool \<Rightarrow> bool" where
  "pool_inv s \<longleftrightarrow>
     distinct (thread_free_queue s) \<and> set (thread_free_queue s) \<subseteq> {..<NBR_THREADS} \<and>
     (\<forall>t. thread_ok (threads s t)) \<and>
     (\<forall>t \<in> set (thread_free_queue s). idle (threads s t) \<and> job (threads s t) = None \<and> (\<forall>r. \<not> in_hand s r t)) \<and>
     (\<forall>r t. in_hand s r t \<longrightarrow> t < NBR_THREADS \<and> idle (threads s t) \<and> (\<forall>r'. in_hand s r' t \<longrightarrow> r' = r)) \<and>
     (\<forall>r t j. caller s r = R_SET t j \<longrightarrow> job (threads s t) = None) \<and>
     (\<forall>r t. caller s r = R_RELEASE t \<longrightarrow> job (threads s t) \<noteq> None)"

lemma upd_thread_reads [simp]:
  "threads (upd_thread t f s) u = (if u = t then f (threads s t) else threads s u)"
  "thread_free_queue (upd_thread t f s) = thread_free_queue s" "caller (upd_thread t f s) = caller s"
  "job_pending_queue (upd_thread t f s) = job_pending_queue s" "requested (upd_thread t f s) = requested s"
  "executed (upd_thread t f s) = executed s" "callers (upd_thread t f s) = callers s"
  "thread_executing_queue (upd_thread t f s) = thread_executing_queue s"
  "free_job_requests (upd_thread t f s) = free_job_requests s"
  by (simp_all add: upd_thread_def)

lemma at_pc_reads [simp]:
  "threads (at_pc t p s) u = (if u = t then (threads s t)\<lparr>pc := p\<rparr> else threads s u)"
  "thread_free_queue (at_pc t p s) = thread_free_queue s" "caller (at_pc t p s) = caller s"
  "job_pending_queue (at_pc t p s) = job_pending_queue s" "requested (at_pc t p s) = requested s"
  "executed (at_pc t p s) = executed s" "callers (at_pc t p s) = callers s"
  by (simp_all add: at_pc_def)

lemma at_rpc_reads [simp]:
  "threads (at_rpc r p s) = threads s"
  "thread_free_queue (at_rpc r p s) = thread_free_queue s" "caller (at_rpc r p s) = (caller s)(r := p)"
  "job_pending_queue (at_rpc r p s) = job_pending_queue s" "requested (at_rpc r p s) = requested s"
  "executed (at_rpc r p s) = executed s" "callers (at_rpc r p s) = callers s"
  by (simp_all add: at_rpc_def)

lemma recycle_reads [simp]:
  "threads (recycle_job s) = threads s" "thread_free_queue (recycle_job s) = thread_free_queue s"
  "caller (recycle_job s) = caller s" "job_pending_queue (recycle_job s) = job_pending_queue s"
  "requested (recycle_job s) = requested s" "executed (recycle_job s) = executed s"
  "callers (recycle_job s) = callers s"
  by (simp_all add: recycle_job_def)

lemma alloc_reads [simp]:
  "threads (snd (thread_alloc_job m s)) = threads s"
  "thread_free_queue (snd (thread_alloc_job m s)) = thread_free_queue s"
  "caller (snd (thread_alloc_job m s)) = caller s"
  "job_pending_queue (snd (thread_alloc_job m s)) = job_pending_queue s"
  "requested (snd (thread_alloc_job m s)) = requested s" "executed (snd (thread_alloc_job m s)) = executed s"
  "callers (snd (thread_alloc_job m s)) = callers s"
  by (simp_all add: thread_alloc_job_def)

lemma pool_invD:
  assumes "pool_inv s"
  shows "distinct (thread_free_queue s)" and "t \<in> set (thread_free_queue s) \<Longrightarrow> t < NBR_THREADS"
    and "thread_ok (threads s t)"
    and "t \<in> set (thread_free_queue s) \<Longrightarrow> idle (threads s t)" and "t \<in> set (thread_free_queue s) \<Longrightarrow> job (threads s t) = None"
    and "t \<in> set (thread_free_queue s) \<Longrightarrow> \<not> in_hand s r t"
    and "in_hand s r t \<Longrightarrow> t < NBR_THREADS" and "in_hand s r t \<Longrightarrow> idle (threads s t)"
    and "in_hand s r t \<Longrightarrow> in_hand s r' t \<Longrightarrow> r' = r"
    and "caller s r = R_SET t j \<Longrightarrow> job (threads s t) = None"
    and "caller s r = R_RELEASE t \<Longrightarrow> job (threads s t) \<noteq> None"
    and "caller s r = R_SET t j \<Longrightarrow> idle (threads s t)" and "caller s r = R_RELEASE t \<Longrightarrow> idle (threads s t)"
    and "caller s r = R_SET t j \<Longrightarrow> t \<notin> set (thread_free_queue s)"
    and "caller s r = R_RELEASE t \<Longrightarrow> t \<notin> set (thread_free_queue s)"
  using assms unfolding pool_inv_def in_hand_def by blast+

lemma pool_invI:
  assumes "distinct (thread_free_queue s)" and "\<And>t. t \<in> set (thread_free_queue s) \<Longrightarrow> t < NBR_THREADS"
    and "\<And>t. thread_ok (threads s t)"
    and "\<And>t. t \<in> set (thread_free_queue s) \<Longrightarrow> idle (threads s t)"
    and "\<And>t. t \<in> set (thread_free_queue s) \<Longrightarrow> job (threads s t) = None"
    and "\<And>t r. t \<in> set (thread_free_queue s) \<Longrightarrow> \<not> in_hand s r t"
    and "\<And>r t. in_hand s r t \<Longrightarrow> t < NBR_THREADS" and "\<And>r t. in_hand s r t \<Longrightarrow> idle (threads s t)"
    and "\<And>r r' t. in_hand s r t \<Longrightarrow> in_hand s r' t \<Longrightarrow> r' = r"
    and "\<And>r t j. caller s r = R_SET t j \<Longrightarrow> job (threads s t) = None"
    and "\<And>r t. caller s r = R_RELEASE t \<Longrightarrow> job (threads s t) \<noteq> None"
  shows "pool_inv s"
  using assms unfolding pool_inv_def by blast

text \<open>A thread that is not idle is nobody else's.\<close>

lemma pool_inv_thread:
  assumes inv: "pool_inv s" and ok: "thread_ok x" and busy: "\<not> idle (threads s t) \<or> idle x \<and> job x = job (threads s t)"
    and s': "thread_free_queue s' = thread_free_queue s" "caller s' = caller s"
      "\<And>u. threads s' u = (if u = t then x else threads s u)"
  shows "pool_inv s'"
proof -
  note D = pool_invD [OF inv]
  have h: "in_hand s' r u = in_hand s r u" for r u by (simp add: in_hand_def s')
  show ?thesis
    by (rule pool_invI) (use D busy ok in \<open>auto simp: s' h split: if_splits\<close>)
qed

lemma thread_main_inv:
  assumes inv: "pool_inv s" and t: "t < NBR_THREADS" and step: "thread_main t s = Some s'"
  shows "pool_inv s'"
proof -
  note D = pool_invD [OF inv]
  have ok: "thread_ok (threads s t)" by (rule D(3))
  have same: "pool_inv s'" if "pc (threads s t) \<noteq> AT_PUSH"
  proof -
    have "thread_free_queue s' = thread_free_queue s" "caller s' = caller s"
      "\<And>u. threads s' u = (if u = t then threads s' t else threads s u)"
      using step that by (auto simp: thread_main_def Let_def myrefl_xos_thread_wait_def split: tpc.splits option.splits list.splits if_splits)
    moreover have "thread_ok (threads s' t)"
      using step that ok by (auto simp: thread_main_def Let_def myrefl_xos_thread_wait_def thread_ok_def
          split: tpc.splits option.splits list.splits if_splits)
    moreover have "\<not> idle (threads s t) \<or> idle (threads s' t) \<and> job (threads s' t) = job (threads s t)"
      using step that ok by (auto simp: thread_main_def Let_def myrefl_xos_thread_wait_def thread_ok_def idle_def
          split: tpc.splits option.splits list.splits if_splits)
    ultimately show ?thesis using pool_inv_thread [OF inv] by blast
  qed
  show ?thesis
  proof (cases "pc (threads s t) = AT_PUSH")
    case True
    then have s': "s' = at_pc t AT_LOOP (s\<lparr>thread_free_queue := thread_free_queue s @ [t]\<rparr>)"
      using step by (simp add: thread_main_def)
    have busy: "\<not> idle (threads s t)" using True by (simp add: idle_def)
    have h: "in_hand s' r u = in_hand s r u" for r u by (simp add: in_hand_def s')
    have now: "idle (threads s' t)" "job (threads s' t) = None" "thread_ok (threads s' t)"
      using ok True by (auto simp: s' idle_def thread_ok_def)
    have f: "thread_free_queue s' = thread_free_queue s @ [t]" "caller s' = caller s"
      "u \<noteq> t \<Longrightarrow> threads s' u = threads s u" for u by (simp_all add: s')
    have here: "P (threads s' u)" if "u \<noteq> t \<Longrightarrow> P (threads s u)" "P (threads s' t)" for P u
      using that f(3) [of u] by (cases "u = t") auto
    show ?thesis
    proof (rule pool_invI)
      show "thread_ok (threads s' u)" for u by (rule here) (use D(3) now in auto)
      show "idle (threads s' u)" if "u \<in> set (thread_free_queue s')" for u
        by (rule here) (use D(4) now that f in auto)
      show "job (threads s' u) = None" if "u \<in> set (thread_free_queue s')" for u
        by (rule here [where P = "\<lambda>x. job x = None"]) (use D(5) now that f in auto)
      show "idle (threads s' u)" if "in_hand s' r u" for r u
        by (rule here) (use D(8) now that h in auto)
      show "job (threads s' u) = None" if "caller s' r = R_SET u j" for r u j
        by (rule here [where P = "\<lambda>x. job x = None"]) (use D(10) now that f in auto)
      show "job (threads s' u) \<noteq> None" if "caller s' r = R_RELEASE u" for r u
      proof -
        have rel: "caller s r = R_RELEASE u" using that f(2) by simp
        have "u \<noteq> t" using D(13) [OF rel] busy by auto
        then show ?thesis using D(11) [OF rel] f(3) by simp
      qed
    qed (use D busy t f h in auto)
  qed (rule same)
qed


text \<open>A caller that holds no thread any more.\<close>

lemma pool_inv_caller:
  assumes inv: "pool_inv s" and p: "\<And>t j. p \<noteq> R_SET t j" "\<And>t. p \<noteq> R_RELEASE t"
    and s': "thread_free_queue s' = thread_free_queue s" "threads s' = threads s" "caller s' = (caller s)(r := p)"
  shows "pool_inv s'"
proof -
  note D = pool_invD [OF inv]
  have h: "in_hand s' r' u \<Longrightarrow> in_hand s r' u" for r' u
    using p by (auto simp: in_hand_def s' split: if_splits)
  have c: "caller s' r' = R_SET u j \<Longrightarrow> caller s r' = R_SET u j" "caller s' r' = R_RELEASE u \<Longrightarrow> caller s r' = R_RELEASE u" for r' u j
    using p by (auto simp: s' split: if_splits)
  show ?thesis
  proof (rule pool_invI)
    show "in_hand s' r1 u \<Longrightarrow> in_hand s' r2 u \<Longrightarrow> r2 = r1" for r1 r2 u using h D(9) by blast
    show "\<not> in_hand s' r' u" if "u \<in> set (thread_free_queue s')" for r' u using that D(6) h s'(1) by auto
    show "in_hand s' r' u \<Longrightarrow> u < NBR_THREADS" for r' u by (rule D(7) [OF h])
    show "in_hand s' r' u \<Longrightarrow> idle (threads s' u)" for r' u unfolding s'(2) by (rule D(8) [OF h])
    show "caller s' r' = R_SET u j \<Longrightarrow> job (threads s' u) = None" for r' u j unfolding s'(2) by (rule D(10) [OF c(1)])
    show "caller s' r' = R_RELEASE u \<Longrightarrow> job (threads s' u) \<noteq> None" for r' u unfolding s'(2) by (rule D(11) [OF c(2)])
  qed (use D(1-5) s' in auto)
qed

text \<open>A caller: the thread it has taken is its own until the release.\<close>

lemma request_inv:
  assumes inv: "pool_inv s" and step: "myrefl_thread_request r s = Some s'"
  shows "pool_inv s'"
proof -
  note D = pool_invD [OF inv]
  have nq: "\<not> quit (threads s t)" for t using D(3) [of t] by (simp add: thread_ok_def)
  have hold: "in_hand s' r' t \<longleftrightarrow> in_hand s r' t" if "caller s' = (caller s)(r := p)" "r' \<noteq> r" for r' t p
    using that by (simp add: in_hand_def)
  show ?thesis
  proof (cases "caller s r")
    case (R_POP j)
    show ?thesis
    proof (cases "thread_free_queue s")
      case Nil
      then have s': "s' = at_rpc r (R_PEND j) s" using step R_POP by (simp add: myrefl_thread_request_def)
      then show ?thesis by (intro pool_inv_caller [OF inv, where r = r and p = "R_PEND j"]) auto
    next
      case (Cons t ts)
      then have s': "s' = at_rpc r (R_SET t j) (s\<lparr>thread_free_queue := ts\<rparr>)"
        using step R_POP nq by (simp add: myrefl_thread_request_def)
      have free: "t \<in> set (thread_free_queue s)" "t \<notin> set ts" "distinct ts" using D(1) Cons by auto
      have h: "in_hand s' r' u \<longleftrightarrow> r' = r \<and> u = t \<or> r' \<noteq> r \<and> in_hand s r' u" for r' u
        by (auto simp: in_hand_def s')
      show ?thesis
      proof (rule pool_invI)
        show "in_hand s' r1 u \<Longrightarrow> in_hand s' r2 u \<Longrightarrow> r2 = r1" for r1 r2 u
          using D(6) [OF free(1)] D(9) by (auto simp: h)
        show "\<not> in_hand s' r' u" if "u \<in> set (thread_free_queue s')" for r' u
          using that D(6) [of u r'] free Cons by (auto simp: h) (auto simp: s')
        show "in_hand s' r' u \<Longrightarrow> u < NBR_THREADS" "in_hand s' r' u \<Longrightarrow> idle (threads s' u)" for r' u
          using D(2,4) [OF free(1)] D(7,8) [of r' u] h [of r' u] by (auto simp: s'(1) [THEN arg_cong, of threads])
        show "job (threads s' u) = None" if "caller s' r' = R_SET u k" for r' u k
          using that D(10) [of r' u k] D(5) [OF free(1)] by (auto simp: s' split: if_splits)
        show "job (threads s' u) \<noteq> None" if "caller s' r' = R_RELEASE u" for r' u
          using that D(11) [of r' u] by (auto simp: s' split: if_splits)
      qed (use D(1-5) Cons in \<open>auto simp: s'\<close>)
    qed
  next
    case (R_SET t j)
    then have s': "s' = at_rpc r (R_RELEASE t) (upd_thread t (\<lambda>x. x\<lparr>job := Some j\<rparr>) s)"
      using step by (simp add: myrefl_thread_request_def)
    have mine: "in_hand s r t" using R_SET by (simp add: in_hand_def)
    have h: "in_hand s' r' u \<longleftrightarrow> in_hand s r' u" for r' u
      using R_SET by (auto simp: in_hand_def s')
    have f: "thread_free_queue s' = thread_free_queue s"
      "threads s' u = (if u = t then threads s t\<lparr>job := Some j\<rparr> else threads s u)" for u
      by (simp_all add: s')
    have ok: "thread_ok (threads s u\<lparr>job := Some j\<rparr>)" "idle (threads s u\<lparr>job := Some j\<rparr>) = idle (threads s u)"
      if "u = t" for u
      using D(3) [of t] D(8) [OF mine] that by (auto simp: thread_ok_def idle_def)
    show ?thesis
    proof (rule pool_invI)
      show "job (threads s' u) = None" if "caller s' r' = R_SET u k" for r' u k
      proof -
        have o: "r' \<noteq> r" "caller s r' = R_SET u k" using that by (auto simp: s' split: if_splits)
        then have "u \<noteq> t" using D(9) [OF mine, of r'] by (auto simp: in_hand_def)
        then show ?thesis using D(10) [OF o(2)] by (simp add: s')
      qed
      show "job (threads s' u) \<noteq> None" if "caller s' r' = R_RELEASE u" for r' u
        using that D(11) [of r' u] by (auto simp: s' split: if_splits)
      show "thread_ok (threads s' u)" for u using D(3) ok by (simp add: s')
      show "idle (threads s' u)" if "in_hand s' r' u" for r' u
        using D(8) [of r' u] that h ok(2) by (cases "u = t") (simp_all add: f)
      show "idle (threads s' u)" if "u \<in> set (thread_free_queue s')" for u
        using D(4) [of u] that ok(2) by (cases "u = t") (simp_all add: f)
      show "job (threads s' u) = None" if "u \<in> set (thread_free_queue s')" for u
        using D(5,6) [of u] mine that by (auto simp: f)
      show "in_hand s' r' u \<Longrightarrow> u < NBR_THREADS" for r' u unfolding h by (rule D(7))
      show "in_hand s' r1 u \<Longrightarrow> in_hand s' r2 u \<Longrightarrow> r2 = r1" for r1 r2 u unfolding h by (rule D(9))
      show "\<not> in_hand s' r' u" if "u \<in> set (thread_free_queue s')" for r' u
        using D(6) that unfolding h by (simp add: f)
    qed (use D(1,2) in \<open>simp_all add: f\<close>)
  next
    case (R_RELEASE t)
    have idle: "idle (threads s t)" by (rule D(13) [OF R_RELEASE])
    have mine: "in_hand s r t" using R_RELEASE by (simp add: in_hand_def)
    have s': "s' = at_rpc r (R_EXEC t) (upd_thread t (\<lambda>x. x\<lparr>work_to_do := True\<rparr>) s)"
      using step R_RELEASE idle by (simp add: myrefl_thread_request_def myrefl_xos_thread_release_def idle_def)
    have h: "in_hand s' r' u \<longleftrightarrow> r' \<noteq> r \<and> in_hand s r' u" for r' u by (auto simp: in_hand_def s')
    have other: "u \<noteq> t" if "r' \<noteq> r" "in_hand s r' u" for r' u using D(9) [OF mine] that by auto
    have free: "t \<notin> set (thread_free_queue s)" using D(6) mine by blast
    have ok: "thread_ok (threads s t\<lparr>work_to_do := True\<rparr>)" using D(3) [of t] idle by (auto simp: thread_ok_def idle_def)
    have thr: "threads s' u = threads s u" if "u \<noteq> t" for u using that by (simp add: s')
    show ?thesis
    proof (rule pool_invI)
      show "thread_ok (threads s' u)" for u using ok D(3) by (simp add: s')
      show "idle (threads s' u)" if "in_hand s' r' u" for r' u
        using that h other [of r' u] thr D(8) by auto
      show "job (threads s' u) \<noteq> None" if "caller s' r' = R_RELEASE u" for r' u
        using that D(11) by (auto simp: s' split: if_splits)
      show "job (threads s' u) = None" if "caller s' r' = R_SET u k" for r' u k
        using that D(10) [of r' u k] by (auto simp: s' split: if_splits)
      show "idle (threads s' u)" if "u \<in> set (thread_free_queue s')" for u
        using D(4) [of u] that free by (auto simp: s')
      show "job (threads s' u) = None" if "u \<in> set (thread_free_queue s')" for u
        using D(5) [of u] that free by (auto simp: s')
      show "in_hand s' r' u \<Longrightarrow> u < NBR_THREADS" for r' u using D(7) [of r' u] by (simp add: h)
      show "in_hand s' r1 u \<Longrightarrow> in_hand s' r2 u \<Longrightarrow> r2 = r1" for r1 r2 u using D(9) [of r1 u r2] by (simp add: h)
      show "\<not> in_hand s' r' u" if "u \<in> set (thread_free_queue s')" for r' u
        using D(6) [of u r'] that unfolding h by (simp add: s')
    qed (use D(1,2) in \<open>simp_all add: s'\<close>)
  next
    case (R_EXEC t)
    then have s': "s' = at_rpc r R_IDLE (s\<lparr>thread_executing_queue := thread_executing_queue s @ [t]\<rparr>)"
      using step by (simp add: myrefl_thread_request_def)
    show ?thesis by (rule pool_inv_caller [OF inv, where r = r and p = R_IDLE]) (auto simp: s')
  next
    case (R_PEND j)
    then have s': "s' = at_rpc r R_IDLE (s\<lparr>job_pending_queue := job_pending_queue s @ [j]\<rparr>)"
      using step by (simp add: myrefl_thread_request_def)
    show ?thesis by (rule pool_inv_caller [OF inv, where r = r and p = R_IDLE]) (auto simp: s')
  qed (use step in \<open>simp add: myrefl_thread_request_def\<close>)
qed

lemma start_request_reads:
  "thread_free_queue (start_request m r j s) = thread_free_queue s" "threads (start_request m r j s) = threads s"
  "callers (start_request m r j s) = callers s" "job_pending_queue (start_request m r j s) = job_pending_queue s"
  "executed (start_request m r j s) = executed s"
  "caller s r = R_IDLE \<Longrightarrow> \<exists>p. caller (start_request m r j s) = (caller s)(r := p) \<and>
     (p = R_POP j \<and> requested (start_request m r j s) = requested s @ [j] \<or>
      p = R_IDLE \<and> requested (start_request m r j s) = requested s)"
proof -
  let ?a = "snd (thread_alloc_job m s)"
  have eq: "start_request m r j s =
      (if fst (thread_alloc_job m s) then at_rpc r (R_POP j) (?a\<lparr>requested := requested ?a @ [j]\<rparr>) else ?a)"
    by (simp add: start_request_def case_prod_beta)
  show "thread_free_queue (start_request m r j s) = thread_free_queue s" "threads (start_request m r j s) = threads s"
    "callers (start_request m r j s) = callers s" "job_pending_queue (start_request m r j s) = job_pending_queue s"
    "executed (start_request m r j s) = executed s"
    unfolding eq by simp_all
  assume "caller s r = R_IDLE"
  then have "(caller s)(r := R_IDLE) = caller s" by auto
  then show "\<exists>p. caller (start_request m r j s) = (caller s)(r := p) \<and>
     (p = R_POP j \<and> requested (start_request m r j s) = requested s @ [j] \<or>
      p = R_IDLE \<and> requested (start_request m r j s) = requested s)"
    unfolding eq by (cases "fst (thread_alloc_job m s)") (auto intro: exI [of _ "R_POP j"] exI [of _ R_IDLE])
qed

lemma pool_step_inv:
  assumes "pool_step s s'" and "pool_inv s"
  shows "pool_inv s'"
  using assms(1)
proof cases
  case (new_request r m j)
  obtain p where "caller s' = (caller s)(r := p)" "p = R_POP j \<or> p = R_IDLE"
    using start_request_reads(6) [OF new_request(3), of m j] new_request(1) by blast
  then show ?thesis
    using new_request(1) by (intro pool_inv_caller [OF assms(2), where r = r and p = p]) (auto simp: start_request_reads)
qed (use assms(2) thread_main_inv request_inv in blast)+

lemma reachable_inv: "reachable n s \<Longrightarrow> pool_inv s"
proof (induction rule: reachable.induct)
  case reachable_init
  show ?case
    by (rule pool_invI) (auto simp: myrefl_thread_init_def thread_ok_def idle_def in_hand_def)
qed (rule pool_step_inv)

section \<open>Where the jobs are\<close>

definition held :: "thread_job option \<Rightarrow> thread_job multiset" where
  "held x = (case x of None \<Rightarrow> {#} | Some j \<Rightarrow> {#j#})"

definition carried :: "rpc \<Rightarrow> thread_job multiset" where
  "carried p = (case p of R_POP j \<Rightarrow> {#j#} | R_SET t j \<Rightarrow> {#j#} | R_PEND j \<Rightarrow> {#j#} | _ \<Rightarrow> {#})"

text \<open>Every place a job that is not done can be: pending, with a thread, with a caller.\<close>

definition outstanding :: "pool \<Rightarrow> thread_job multiset" where
  "outstanding s = mset (job_pending_queue s) + (\<Sum>t<NBR_THREADS. held (job (threads s t))) +
     (\<Sum>r<callers s. carried (caller s r))"

lemma sum_update:
  fixes f g :: "nat \<Rightarrow> 'a multiset"
  assumes "k < n" and "\<And>i. i \<noteq> k \<Longrightarrow> g i = f i"
  shows "(\<Sum>i<n. g i) + f k = (\<Sum>i<n. f i) + g k"
proof -
  have "(\<Sum>i<n. g i) = g k + (\<Sum>i \<in> {..<n} - {k}. g i)" "(\<Sum>i<n. f i) = f k + (\<Sum>i \<in> {..<n} - {k}. f i)"
    using assms(1) by (simp_all add: sum.remove)
  moreover have "(\<Sum>i \<in> {..<n} - {k}. g i) = (\<Sum>i \<in> {..<n} - {k}. f i)"
    by (rule sum.cong) (simp_all add: assms(2))
  ultimately show ?thesis by simp
qed

lemma outstanding_step:
  assumes t: "t < NBR_THREADS" and r: "r < callers s" and c: "callers s' = callers s"
    and "\<And>u. u \<noteq> t \<Longrightarrow> job (threads s' u) = job (threads s u)" and "\<And>q. q \<noteq> r \<Longrightarrow> caller s' q = caller s q"
    and "mset (job_pending_queue s') + held (job (threads s' t)) + carried (caller s' r) + X =
      mset (job_pending_queue s) + held (job (threads s t)) + carried (caller s r) + Y"
  shows "outstanding s' + X = outstanding s + Y"
proof -
  let ?T = "\<lambda>s. \<Sum>t<NBR_THREADS. held (job (threads s t))" and ?C = "\<lambda>s'. \<Sum>r<callers s. carried (caller s' r)"
  have T: "?T s' + held (job (threads s t)) = ?T s + held (job (threads s' t))"
    by (rule sum_update [OF t]) (simp add: assms(4))
  have C: "?C s' + carried (caller s r) = ?C s + carried (caller s' r)"
    by (rule sum_update [OF r]) (simp add: assms(5))
  have "outstanding s' + X + (held (job (threads s t)) + carried (caller s r)) =
      mset (job_pending_queue s') + X + (?T s' + held (job (threads s t))) + (?C s' + carried (caller s r))"
    unfolding outstanding_def c by (simp only: ac_simps)
  also have "\<dots> = ?T s + ?C s + (mset (job_pending_queue s') + held (job (threads s' t)) + carried (caller s' r) + X)"
    unfolding T C by (simp only: ac_simps)
  also have "\<dots> = outstanding s + Y + (held (job (threads s t)) + carried (caller s r))"
    unfolding assms(6) outstanding_def by (simp only: ac_simps)
  finally show ?thesis by simp
qed

text \<open>No job gets lost or runs twice, as long as no thread is killed.\<close>

lemma step_conserves:
  assumes "pool_step s s'" and inv: "pool_inv s" and c: "mset (requested s) = mset (executed s) + outstanding s"
    and n: "callers s > 0"
  shows "mset (requested s') = mset (executed s') + outstanding s' \<and> callers s' = callers s"
  using assms(1)
proof cases
  case (thread_step t)
  have ok: "thread_ok (threads s t)" by (rule pool_invD(3) [OF inv])
  have r: "requested s' = requested s" "callers s' = callers s" "caller s' = caller s"
    and u: "\<And>u. u \<noteq> t \<Longrightarrow> job (threads s' u) = job (threads s u)"
    using thread_step(2) by (auto simp: thread_main_def Let_def myrefl_xos_thread_wait_def
        split: tpc.splits option.splits list.splits if_splits)
  have "mset (job_pending_queue s') + held (job (threads s' t)) + mset (executed s') =
      mset (job_pending_queue s) + held (job (threads s t)) + mset (executed s)"
    using thread_step(2) ok
    by (auto simp: thread_main_def Let_def myrefl_xos_thread_wait_def thread_ok_def held_def
        split: tpc.splits option.splits list.splits if_splits)
  then have "outstanding s' + mset (executed s') = outstanding s + mset (executed s)"
    by (intro outstanding_step [OF thread_step(1) n r(2) u]) (simp_all add: r(3) ac_simps)
  then show ?thesis using c r by (simp add: ac_simps)
next
  case (caller_step r)
  show ?thesis
  proof (cases "\<exists>t j. caller s r = R_SET t j")
    case True
    then obtain t j where rs: "caller s r = R_SET t j" by blast
    then have s': "s' = at_rpc r (R_RELEASE t) (upd_thread t (\<lambda>x. x\<lparr>job := Some j\<rparr>) s)"
      using caller_step(2) by (simp add: myrefl_thread_request_def)
    have t: "t < NBR_THREADS" using pool_invD(7) [OF inv] rs by (auto simp: in_hand_def)
    have "outstanding s' + {#} = outstanding s + {#}"
      by (rule outstanding_step [OF t caller_step(1)])
        (use rs pool_invD(10) [OF inv rs] in \<open>simp_all add: s' held_def carried_def\<close>)
    then show ?thesis using c by (simp add: s')
  next
    case False
    have rel: "\<not> work_to_do (threads s t)" if "caller s r = R_RELEASE t" for t
      using pool_invD(13) [OF inv that] by (simp add: idle_def)
    have f: "requested s' = requested s" "executed s' = executed s" "callers s' = callers s"
      and u: "\<And>u. job (threads s' u) = job (threads s u)" and o: "\<And>q. q \<noteq> r \<Longrightarrow> caller s' q = caller s q"
      using caller_step(2) False rel by (auto simp: myrefl_thread_request_def Let_def myrefl_xos_thread_release_def
          split: rpc.splits list.splits if_splits)
    have "mset (job_pending_queue s') + carried (caller s' r) = mset (job_pending_queue s) + carried (caller s r)"
      using caller_step(2) False rel by (auto simp: myrefl_thread_request_def Let_def myrefl_xos_thread_release_def
          carried_def split: rpc.splits list.splits if_splits)
    then have "outstanding s' + {#} = outstanding s + {#}"
      by (intro outstanding_step [of 0 r s s', OF _ caller_step(1) f(3)])
        (simp_all add: NBR_THREADS_def u o)
    then show ?thesis using c f by simp
  qed
next
  case (new_request r m j)
  obtain p where p: "caller s' = (caller s)(r := p)"
    "p = R_POP j \<and> requested s' = requested s @ [j] \<or> p = R_IDLE \<and> requested s' = requested s"
    using start_request_reads(6) [OF new_request(3), of m j] new_request(1) by blast
  have f: "executed s' = executed s" "callers s' = callers s" "threads s' = threads s"
    "job_pending_queue s' = job_pending_queue s"
    using new_request(1) by (simp_all add: start_request_reads)
  have "outstanding s' + mset (requested s) = outstanding s + mset (requested s')"
    by (rule outstanding_step [of 0 r s s', OF _ new_request(2) f(2)])
      (use p new_request(3) in \<open>auto simp: NBR_THREADS_def f carried_def\<close>)
  then show ?thesis using c f by (simp add: ac_simps)
qed

lemma reachable_conserves:
  assumes "reachable n s" and "n > 0"
  shows "mset (requested s) = mset (executed s) + outstanding s \<and> callers s = n"
  using assms(1)
proof (induction rule: reachable.induct)
  case reachable_init
  show ?case by (simp add: myrefl_thread_init_def outstanding_def held_def carried_def)
next
  case (reachable_step s s')
  then show ?case using step_conserves [OF reachable_step(2) reachable_inv [OF reachable_step(1)]] assms(2) by auto
qed

section \<open>Runs\<close>

text \<open>A schedule: which thread or caller makes its next step, or who asks for what.\<close>

datatype pool_action = Thread tid | Caller rid | Ask rid thread_job

definition act :: "pool_action \<Rightarrow> pool \<Rightarrow> pool option" where
  "act a s =
     (case a of
        Thread t \<Rightarrow> if t < NBR_THREADS then thread_main t s else None
      | Caller r \<Rightarrow> if r < callers s then myrefl_thread_request r s else None
      | Ask r j \<Rightarrow> if r < callers s \<and> caller s r = R_IDLE then Some (start_request True r j s) else None)"

lemma act_step: "act a s = Some s' \<Longrightarrow> pool_step s s'"
  by (auto simp: act_def intro: pool_step.intros split: pool_action.splits if_splits)

lemma run_reachable: "foldM act as (myrefl_thread_init n) = Some s \<Longrightarrow> reachable n s"
  by (rule foldM_inv [where P = "reachable n"]) (auto intro: reachable.intros act_step)

text \<open>From a release to the free queue and back to waiting.\<close>

definition whole_job :: "tid \<Rightarrow> pool_action list" where
  "whole_job t = replicate 10 (Thread t)"

definition demo_job :: "nat \<Rightarrow> thread_job" where
  "demo_job n = \<lparr>execute = 0, job_context = n\<rparr>"

text \<open>Four requests occupy the threads; the fifth finds no free thread, and all threads finish before
  it is put on the pending queue.\<close>

definition late_request :: "pool_action list" where
  "late_request =
     concat (map (\<lambda>n. Ask 0 (demo_job n) # replicate 4 (Caller 0)) [0, 1, 2, 3]) @
     [Ask 0 (demo_job 4), Caller 0] @ concat (map whole_job [0, 1, 2, 3]) @ [Caller 0]"

lemma late_request_runs:
  "case foldM act late_request (myrefl_thread_init 1) of None \<Rightarrow> False
   | Some s \<Rightarrow> map job_context (job_pending_queue s) = [4] \<and> thread_free_queue s = [0, 1, 2, 3] \<and>
       thread_executing_queue s = [] \<and> map job_context (executed s) = [0, 1, 2, 3] \<and>
       list_all (\<lambda>t. Option.is_none (thread_main t s)) [0, 1, 2, 3] \<and> Option.is_none (myrefl_thread_request 0 s)"
  by code_simp

text \<open>One request; its thread is done before the caller notes that it is executing.\<close>

definition fast_job :: "pool_action list" where
  "fast_job = [Ask 0 (demo_job 0), Caller 0, Caller 0, Caller 0] @ whole_job 0 @ [Caller 0]"

lemma fast_job_runs:
  "case foldM act fast_job (myrefl_thread_init 1) of None \<Rightarrow> False
   | Some s \<Rightarrow> thread_free_queue s = [1, 2, 3, 0] \<and> thread_executing_queue s = [0] \<and>
       job_pending_queue s = [] \<and> Option.is_none (thread_main 0 s) \<and> Option.is_none (myrefl_thread_request 0 s)"
  by code_simp

section \<open>CPU usage and throttling\<close>

text \<open>The OS layer reports the CPU of a thread over the last minute.\<close>

definition myrefl_thread_cpu :: "(tid \<Rightarrow> int) \<Rightarrow> pool \<Rightarrow> int" where
  "myrefl_thread_cpu cpu_last_min s =
     sum_list (map cpu_last_min (thread_free_queue s)) + sum_list (map cpu_last_min (thread_executing_queue s))"

definition MYREFL_THREAD_HIGH_DELAY :: int where "MYREFL_THREAD_HIGH_DELAY = 1000"
definition MYREFL_THREAD_MAX_DELAY :: int where "MYREFL_THREAD_MAX_DELAY = 5000"

text \<open>The thresholds are 0 while there is no rule for them; a division by zero is \<open>None\<close>.\<close>

definition calculate_throttle_delay :: "int \<Rightarrow> int \<Rightarrow> int \<Rightarrow> int \<Rightarrow> int option" where
  "calculate_throttle_delay warn_threshold high_threshold cpu throttle_delay =
     (if warn_threshold \<noteq> 0 \<and> high_threshold \<noteq> 0 then
        let range = high_threshold - warn_threshold
        in if cpu > warn_threshold then
             (if range = 0 then None
              else let d = c_div MYREFL_THREAD_HIGH_DELAY range * (cpu - warn_threshold)
                   in Some (if d > MYREFL_THREAD_MAX_DELAY then MYREFL_THREAD_MAX_DELAY else d))
           else Some 0
      else Some throttle_delay)"

section \<open>Shutting down and clearing\<close>

definition kill_all :: "tid list \<Rightarrow> pool \<Rightarrow> pool" where
  "kill_all ts s = fold myrefl_thread_kill ts s"

definition myrefl_thread_kill_threads :: "pool \<Rightarrow> pool" where
  "myrefl_thread_kill_threads s =
     (let s = (kill_all (thread_free_queue s) s)\<lparr>thread_free_queue := []\<rparr>
      in (kill_all (thread_executing_queue s) s)\<lparr>thread_executing_queue := []\<rparr>)"

definition thread_free_jobs :: "pool \<Rightarrow> pool" where
  "thread_free_jobs s = s\<lparr>free_job_requests := 0, job_pending_queue := []\<rparr>"

definition myrefl_thread_terminate :: "pool \<Rightarrow> pool" where
  "myrefl_thread_terminate s = thread_free_jobs (myrefl_thread_kill_threads s)"

text \<open>
  \<open>myrefl_thread_ut_clear_pending\<close>: the loop is at position \<open>k\<close> of the queue. After a removal
  it goes back to the head and, as at every turn, moves on from there; \<open>None\<close> is the null
  pointer it follows when the queue is empty then.
\<close>

function clear_loop :: "nat \<Rightarrow> nat \<Rightarrow> thread_job list \<Rightarrow> thread_job list option" where
  "clear_loop f k js =
     (if k < length js then
        if execute (js ! k) = f then
          (let js = remove1 (js ! k) js in if js = [] then None else clear_loop f 1 js)
        else clear_loop f (k + 1) js
      else Some js)"
  by pat_completeness auto

termination
  by (relation "measures [\<lambda>(f, k, js). length js, \<lambda>(f, k, js). length js - k]")
    (auto simp: length_remove1)

declare clear_loop.simps [simp del]

definition myrefl_thread_ut_clear_pending :: "nat \<Rightarrow> pool \<Rightarrow> pool option" where
  "myrefl_thread_ut_clear_pending f s =
     map_option (\<lambda>js. s\<lparr>job_pending_queue := js\<rparr>) (clear_loop f 0 (job_pending_queue s))"

end
