(* ===== verification/ThreadProps.thy ===== *)
theory ThreadProps
  imports Threads
begin

text \<open>The properties of the thread pool (\<^verbatim>\<open>src/src/myrefl_thread.c\<close>).\<close>

text \<open>C8: in every interleaving of the threads and their callers, as long as nothing kills a thread,
  each requested job has run or is in exactly one place (pending, with a thread, or with a
  caller): none is lost and none runs twice. A release of a thread is never refused, so no thread
  is told to quit, and a running thread has a job.\<close>

theorem jobs_conserved:
  assumes "reachable n s" and "n > 0"
  shows "mset (requested s) = mset (executed s) + outstanding s \<and>
    (\<forall>t. \<not> quit (threads s t) \<and> (pc (threads s t) = RUNNING \<longrightarrow> job (threads s t) \<noteq> None)) \<and>
    (\<forall>r t. caller s r = R_RELEASE t \<longrightarrow> fst (myrefl_xos_thread_release t s))"
  using reachable_conserves [OF assms] pool_invD(3,13) [OF reachable_inv [OF assms(1)]]
  by (auto simp: thread_ok_def idle_def myrefl_xos_thread_release_def)

lemma jobs_conserved_witness:
  "\<exists>s. foldM act late_request (myrefl_thread_init 1) = Some s \<and> mset (requested s) = mset (executed s) + outstanding s"
proof -
  obtain s where s: "foldM act late_request (myrefl_thread_init 1) = Some s"
    using late_request_runs by (auto split: option.splits)
  show ?thesis using s jobs_conserved [OF run_reachable [OF s]] by auto
qed

text \<open>a job can be left behind: it is pending while every thread is on the free queue and waits,
  and no caller has anything left to do, so nothing happens until somebody asks for another job.\<close>

theorem job_left_behind:
  "\<exists>s. reachable 1 s \<and> map job_context (job_pending_queue s) = [4] \<and> thread_free_queue s = [0, 1, 2, 3] \<and>
     list_all (\<lambda>t. thread_main t s = None) [0..<NBR_THREADS] \<and> list_all (\<lambda>r. caller s r = R_IDLE) [0..<callers s]"
proof -
  obtain s where s: "foldM act late_request (myrefl_thread_init 1) = Some s"
    and f: "map job_context (job_pending_queue s) = [4]" "thread_free_queue s = [0, 1, 2, 3]"
    and b: "list_all (\<lambda>t. Option.is_none (thread_main t s)) [0, 1, 2, 3]" "Option.is_none (myrefl_thread_request 0 s)"
    using late_request_runs by (auto split: option.splits)
  have "callers s = 1" using reachable_conserves [OF run_reachable [OF s]] by simp
  moreover have "caller s 0 = R_IDLE"
    using b(2) by (simp add: myrefl_thread_request_def Option.is_none_def Let_def case_prod_beta split: rpc.splits list.splits)
  moreover have "list_all (\<lambda>t. thread_main t s = None) [0..<NBR_THREADS]"
    using b(1) by (simp add: NBR_THREADS_def Option.is_none_def upt_rec flip: numeral_2_eq_2 numeral_3_eq_3)
  ultimately show ?thesis using run_reachable [OF s] f by auto
qed

text \<open>a thread can end up on the free queue and on the executing queue at once, while nothing
  runs: a caller notes that the thread is executing after the thread is done. Its CPU usage is then
  counted twice.\<close>

theorem idle_thread_counted_twice:
  "\<exists>s. reachable 1 s \<and> (\<forall>cpu. myrefl_thread_cpu cpu s = cpu 1 + cpu 2 + cpu 3 + 2 * cpu 0) \<and>
     thread_main 0 s = None \<and> list_all (\<lambda>r. myrefl_thread_request r s = None) [0..<callers s]"
proof -
  obtain s where s: "foldM act fast_job (myrefl_thread_init 1) = Some s"
    and f: "thread_free_queue s = [1, 2, 3, 0]" "thread_executing_queue s = [0]"
    and b: "Option.is_none (thread_main 0 s)" "Option.is_none (myrefl_thread_request 0 s)"
    using fast_job_runs by (auto split: option.splits)
  have "callers s = 1" using reachable_conserves [OF run_reachable [OF s]] by simp
  then show ?thesis using run_reachable [OF s] f b by (auto simp: myrefl_thread_cpu_def Option.is_none_def)
qed

text \<open>with a warning threshold below the high one, the throttle delay is between 0 and its
  maximum, and 0 while the CPU usage is at most the warning threshold.\<close>

theorem throttle_delay_bounds:
  assumes "0 < warn" and "warn < high" and "0 \<le> old" and "old \<le> MYREFL_THREAD_MAX_DELAY"
  shows "\<exists>d. calculate_throttle_delay warn high cpu old = Some d \<and> 0 \<le> d \<and> d \<le> MYREFL_THREAD_MAX_DELAY \<and>
    (cpu \<le> warn \<longrightarrow> d = 0)"
  using assms c_div_bounds(1) [of MYREFL_THREAD_HIGH_DELAY "high - warn"]
  by (auto simp: calculate_throttle_delay_def Let_def MYREFL_THREAD_HIGH_DELAY_def MYREFL_THREAD_MAX_DELAY_def)

lemma throttle_delay_bounds_witness: "calculate_throttle_delay 50 100 75 0 = Some 500"
  using throttle_delay_bounds [of 50 100 0 75]
  by (simp add: calculate_throttle_delay_def MYREFL_THREAD_HIGH_DELAY_def MYREFL_THREAD_MAX_DELAY_def c_div_def)

text \<open>Clearing the pending jobs of a function leaves the second of two of them behind, and follows
  a null pointer after removing the only one.\<close>

lemma clear_pending_misses:
  "clear_loop 7 0 [\<lparr>execute = 7, job_context = 0\<rparr>, \<lparr>execute = 7, job_context = 1\<rparr>] = Some [\<lparr>execute = 7, job_context = 1\<rparr>]"
  "clear_loop 7 0 [\<lparr>execute = 7, job_context = 0\<rparr>] = None"
  by (simp_all add: clear_loop.simps Let_def)

end
