(* ===== verification/Spec2Isabelle.thy ===== *)
theory Spec2Isabelle
  imports JsonProps ServerProps CliProps ApiProps ListProps SchedProps ResultProps RciProps SeqProps ThreadProps
begin

text \<open>
  A verification library for the diagnostics engine of MyReflection (\<^verbatim>\<open>src/src/\<close>).

  \<^bold>\<open>The program.\<close> A client describes the software it wants to watch by tests, rules, actions
  and components. It does so by the calls of the client API (\<^verbatim>\<open>myrefl_api.c\<close>), which create, link,
  enable and delete these objects. The scheduler (\<^verbatim>\<open>myrefl_sched.c\<close>) keeps the polled tests in queues by their
  due time and hands a test that is due to the sequencer (\<^verbatim>\<open>myrefl_sequence.c\<close>), which runs
  it in a work thread (\<^verbatim>\<open>myrefl_thread.c\<close>), feeds its result to the rules it triggers,
  updates statistics and the health of the components, and asks root cause identification
  (\<^verbatim>\<open>myrefl_rci.c\<close>) which of the failing rules is the cause. The actions of a root cause are
  run the same way. A shell looks at the objects and configures them by the calls of
  \<^verbatim>\<open>myrefl_cli_local.c\<close>. The server (\<^verbatim>\<open>src/server/src/\<close>) is a client whose tests and actions are programs, the
  modules: each is run and prints a request in JSON (\<^verbatim>\<open>myrefl_server_module.c\<close>), which is tokenised
  (\<^verbatim>\<open>jsmn.c\<close>) and interpreted as calls of the API (\<^verbatim>\<open>myrefl_json_parser.c\<close>). All of it works on the object database (\<^verbatim>\<open>myrefl_obj.c\<close>) and on the lists
  of \<^verbatim>\<open>myrefl_util.c\<close>.

  \<^bold>\<open>The theories.\<close>
  \<^item> \<open>Prelude\<close>: C's integer division, lists, maps, and loops with state (\<open>foldM\<close>).
  \<^item> \<open>ListStore\<close>, \<open>MList\<close> (\<^verbatim>\<open>myrefl_util.c\<close>): the contract of the lists as the locales
    \<open>list_queue\<close> and \<open>list_store\<close>, and the linked lists with their element pool on a pointer
    memory. The lemmas show that every operation simulates its effect on HOL lists
    (\<open>mem_rel\<close>), out of memory included; the interpretation of the locales rests on them. From
    there on a \<open>myrefl_list_t\<close> is a HOL list.
  \<^item> \<open>XosTime\<close> (\<^verbatim>\<open>myrefl_xos.c\<close>, \<^verbatim>\<open>myrefl_xos.h\<close>): times of two 64 bit words, their order (an
    instance of \<open>linorder\<close>) and difference; and the copying of strings (\<open>sstrncpy\<close> of \<^verbatim>\<open>myrefl_linux.c\<close> and of the
    server), which overruns its buffer when the string does not fit.
  \<^item> \<open>ObjTypes\<close> (\<^verbatim>\<open>myrefl_obj.h\<close>, \<^verbatim>\<open>myrefl_client.h\<close>): enumerations, structs and the record
    \<open>db\<close>, the whole state of the library; how pointers are represented is said there.
  \<^item> \<open>ObjTree\<close>, \<open>ObjLink\<close>, \<open>Contain\<close> (\<^verbatim>\<open>myrefl_obj.c\<close>, \<open>myrefl_api_comp_contains\<close>): the tree of components.
    Chains and parent pointers agree and the nesting is bounded (\<open>tree_ok\<close>); the walks are
    enumerations of a list of objects (locale \<open>enumeration\<close>), so a lookup is a search in that list;
    creating, growing and moving objects keep \<open>tree_inv\<close>, by which a name leads to one object.
  \<^item> \<open>ObjDb\<close> (\<^verbatim>\<open>myrefl_obj.c\<close>): instances and validation. On a linked database (\<open>linked\<close>) validation changes nothing, and everything that happens at
    run time (\<open>runtime\<close>) keeps the links.
  \<^item> \<open>SeqRequest\<close>: the entries of \<^verbatim>\<open>myrefl_sequence.c\<close> that queue work for a thread.
  \<^item> \<open>Sched\<close> (\<^verbatim>\<open>myrefl_sched.c\<close>): the queues, the start timer, adding, removing and starting tests.
    The invariant \<open>sched_inv\<close> says that an instance is on a queue exactly when it is marked so;
    \<open>sched_step\<close> is what every operation promises; \<open>runs_all\<close> says which tests a request of a rule runs at once.
  \<^item> \<open>RuleEval\<close>, \<open>SeqStats\<close>: the operators of the rules, statistics, health, running tests, rules and
    actions (\<^verbatim>\<open>myrefl_sequence.c\<close>).
  \<^item> \<open>Depend\<close> (\<^verbatim>\<open>myrefl_rci.c\<close>): the dependency links and the loop check with its domains.
  \<^item> \<open>Rci\<close>, \<open>RciWalk\<close>, \<open>RciVerdict\<close>, \<open>RciAnalysis\<close> (\<^verbatim>\<open>myrefl_rci.c\<close>): the walk over dependencies; it
    ends on every graph and equals a quantifier over the rules reached (locales for the
    functions mapped over it); the verdicts on a rule; the recursion of a new analysis.
  \<^item> \<open>Sequencer\<close> (\<^verbatim>\<open>myrefl_sequence.c\<close>): the events of an instance, with the calls of all parts above. The client's
    functions are arguments that get the database and answer with one, so they may call the API. \<open>settled\<close> is a
    database whose links, queues and domains are in order and whose rules and triggers can be ranked; the sequencer returns
    on it and leaves one, if the client's functions do (\<open>client_settles\<close>).
  \<^item> \<open>ObjDelete\<close> (\<^verbatim>\<open>myrefl_obj.c\<close>), \<open>SchedInit\<close> (\<^verbatim>\<open>myrefl_sched.c\<close>): deletion, the garbage collector, the
    states of what a test triggers; filling the queues anew when the scheduler starts or recovers.
  \<^item> \<open>Api\<close>, \<open>ApiTest\<close>, \<open>ApiRule\<close>, \<open>ApiComp\<close> (\<^verbatim>\<open>myrefl_api.c\<close>): the entries of the client API, each a function
    from the database to the database it leaves.
  \<^item> \<open>Typed\<close>, \<open>TypedApi\<close>, \<open>ApiCalls\<close>: the code follows pointers to tests, rules, actions and components
    without a tag. The invariant \<open>typed\<close> says that each leads to an object of its type; every entry is a
    step (\<open>tstep\<close>) that keeps it, so every session of calls does (\<open>api_run\<close>).
  \<^item> \<open>ApiFacts\<close>, \<open>Deleted\<close>, \<open>Created\<close>: lemmas on names, the graph of the inputs, deletion and the life
    of a new test, from which \<open>ApiProps\<close> draws its properties.
  \<^item> \<open>Threads\<close> (\<^verbatim>\<open>myrefl_thread.c\<close>, \<^verbatim>\<open>myrefl_posix.c\<close>): the pool of work threads as a step relation;
    the invariant says where a job is in every interleaving.
  \<^item> \<open>Cli\<close>, \<open>CliInfo\<close>, \<open>CliList\<close>, \<open>CliCmd\<close> (\<^verbatim>\<open>myrefl_cli_local.c\<close>): the handles by which a shell reads
    page by page and the uses they count, details and listings of objects and of what is related to them,
    tables of names, and the commands. The record \<open>cli\<close> holds the handles and the database.
  \<^item> \<open>Pager\<close>: the contract of a paged listing (locale \<open>pager\<close>: pages of any size show the same) and of a
    ring of records (locale \<open>ring\<close>: it shows the last ones).
  \<^item> \<open>CliFacts\<close>, \<open>CliPages\<close>, \<open>CliRelated\<close>, \<open>CliHistory\<close>, \<open>CliUses\<close>: which uses a handle holds (\<open>at_obj\<close>),
    that the end of a listing gives them back, the interpretations of both locales, and the listings that
    lose elements or uses; \<open>CliProps\<close> states the properties.
  \<^item> \<open>Jsmn\<close> (\<^verbatim>\<open>jsmn.c\<close>), \<open>JsonRequest\<close> (\<^verbatim>\<open>myrefl_json_parser.c\<close>): the tokeniser and the interpreter of requests, on a buffer
    whose strings are used in place; a request is the list of API calls it makes, and the contexts.
  \<^item> \<open>JsonSafe\<close>: for every text tokeniser and interpreter end within the array of tokens, if the strings that are copied into
    contexts fit there. \<open>JsonText\<close>: the tokens of a text are
    those of the value it was written for. \<open>JsonRound\<close>, \<open>JsonCommands\<close>: terminating one string in place leaves the others
    readable, so the text of a list of commands is interpreted as their calls, or overruns a context when a name does not
    fit (\<open>command_fits\<close>). \<open>JsonProps\<close> states the properties.
  \<^item> \<open>ServerConfig\<close> (\<^verbatim>\<open>myrefl_server_config.c\<close>), \<open>ServerModule\<close> (\<^verbatim>\<open>myrefl_server_module.c\<close>): the configuration file, the table of
    modules, running them for their configuration, tests, actions and mails. Directories and what programs print are
    arguments. \<open>ServerFacts\<close>, \<open>ServerProps\<close>: settings and the requests of modules are understood as they were written, as long
    as words and names fit the fields they are copied into (\<open>setting_fits\<close>, \<open>command_fits\<close>).
  \<^item> \<open>Demo\<close>: a small database for concrete instances; the \<open>Props\<close> theories state the properties.

  \<^bold>\<open>Partial operations.\<close> A C function that may follow a null or wrongly typed pointer, may leave an array or write
  behind a buffer, or may loop, returns an option: \<open>None\<close> is that run. Recursions without a bound in the code are
  \<open>partial_function\<close>s, and that they return is a theorem (for the walk unconditionally, for the
  analysis and the sequencer when rules can be ranked, which excludes rings; for the sequencer the client's
  functions must return as well). The only bounds
  taken from the code are \<open>MAX_COMP_NESTING\<close> and \<open>RULE_DEPTH_LIMIT\<close>; fuel appears in proofs only.

  \<^bold>\<open>Numbers.\<close> Times, periods, statistics and the counters of rules are words of the size of the C types. Without a bound, where C
  would wrap or cut off, are the numbers of domains (\<open>domain_check\<close>), the sizes of the ring of results
  (\<open>rule_data_alloc\<close>), and the sums of healths (\<open>comp_health_guts\<close>).

  \<^bold>\<open>Not modelled.\<close> Logging and tracing (with them a null pointer that a debug message follows in \<open>rci_element\<close>); allocation failures outside the lists; locks, except in the
  lists and the thread pool (the client's functions, which run with the database unlocked,
  answer with another database); timers and notifications are recorded as events (\<open>outs\<close>).
  Of the API: start and stop of the library, the registration of master and slave, the static
  buffers of \<open>make_name\<close>, the objects with which the library watches its own threads. The loops of
  the threads of scheduler and garbage collector that wait for timers. The result strings of
  \<^verbatim>\<open>myrefl_util.c\<close>. Of the command line interface: debug filters, freeing of answers, printing and the
  entries for a remote. Of the server: messages, failures of \<open>calloc\<close>, the start of the process, the web pages, sockets
  (mail and the vendored mongoose). The platform layers, examples and test programs.
\<close>

end
